(* ===== verification/Prelude.thy ===== *)
theory Prelude
  imports Main "HOL-Library.Word"
begin

text \<open>
  Shared vocabulary of the development: the machine integers of \<^verbatim>\<open>emex/kernel/types.h\<close>, the
  result type of code that may call \<^verbatim>\<open>panic\<close>, and the lemmas on words, lists and loops that
  several components use. The collections are \<open>emex_defs\<close> (definitions that every proof of a
  component unfolds) and \<open>word_nat\<close> (equations that read a word operation as one on
  natural numbers).
\<close>

unbundle bit_operations_syntax

named_theorems emex_defs \<open>definitions unfolded by the proofs of a component\<close>
named_theorems word_nat \<open>word operations read as operations on natural numbers\<close>

type_synonym u8 = "8 word"
type_synonym u16 = "16 word"
type_synonym u32 = "32 word"
type_synonym u64 = "64 word"

text \<open>
  \<^verbatim>\<open>panic(msg)\<close> stops the machine: code that may panic returns \<open>Inl msg\<close>, code that
  comes back returns \<open>Inr\<close> of its result.
\<close>

type_synonym 'a outcome = "string + 'a"

section \<open>Words as natural numbers\<close>

lemma unat_lt_2p64 [simp]: "unat (x :: u64) < 18446744073709551616"
  using unsigned_less [of x, where ?'a = nat] by simp

lemma unat_le_2p64 [simp]: "unat (x :: u64) \<le> 18446744073709551616"
  using unat_lt_2p64 [of x] by (rule less_imp_le)

lemma unat_lt_2p32 [simp]: "unat (x :: u32) < 4294967296"
  using unsigned_less [of x, where ?'a = nat] by simp

lemma unat_lt_2p8 [simp]: "unat (x :: u8) < 256"
  using unsigned_less [of x, where ?'a = nat] by simp

lemma unat_of_nat64: "n < 18446744073709551616 \<Longrightarrow> unat (word_of_nat n :: u64) = n"
  by (simp add: unat_of_nat)

lemma unat_drop_bit3 [word_nat]: "unat (drop_bit 3 (x :: u64)) = unat x div 8"
  by (simp add: drop_bit_eq_div unat_div)

lemma unat_and7 [word_nat]: "unat (x AND 7 :: u64) = unat x mod 8"
proof -
  have "x AND 7 = take_bit 3 x"
    by (simp add: take_bit_eq_mask mask_eq_exp_minus_1)
  then show ?thesis
    by (simp only: unsigned_take_bit_eq) (simp add: take_bit_eq_mod)
qed

lemma unat_add_no_wrap64:
  "unat x + unat y < 18446744073709551616 \<Longrightarrow> unat (x + y :: u64) = unat x + unat y"
  by (simp add: unat_word_ariths)

lemma unat_Suc64: "x < y \<Longrightarrow> unat (x + 1 :: u64) = Suc (unat x)"
  using unat_lt_2p64 [of y] by (simp add: unat_word_ariths word_less_nat_alt del: unat_lt_2p64)

lemma and_not_eq_minus: "x AND NOT m = x - (x AND m)" for x :: "'a::len word"
proof -
  have "x - (x AND m) = x AND NOT (x AND m)"
    by (rule disjunctive_diff_eq_and_not) (simp add: bit_eq_iff bit_simps)
  also have "\<dots> = x AND NOT m" by (auto simp: bit_eq_iff bit_simps)
  finally show ?thesis by simp
qed

lemma unat_drop_bit: "unat (drop_bit k x) = unat x div 2 ^ k" for x :: "'a::len word"
  by (simp only: unsigned_drop_bit_eq) (simp add: drop_bit_eq_div take_bit_nat_eq_self)

lemma take_bit_eq_bits:
  assumes "k \<le> 64"
  shows "take_bit k (x :: u64) = take_bit k y \<longleftrightarrow> (\<forall>n<k. bit x n = bit y n)"
proof
  assume *: "take_bit k x = take_bit k y"
  show "\<forall>n<k. bit x n = bit y n"
  proof (intro allI impI)
    fix n assume "n < k"
    then show "bit x n = bit y n" using arg_cong [OF *, of "\<lambda>w. bit w n"] by (simp add: bit_take_bit_iff)
  qed
qed (auto simp: bit_eq_iff bit_take_bit_iff)

end
