(* ===== verification/Physmem.thy ===== *)
theory Physmem
  imports Prelude
begin

text \<open>
  The physical frame allocator of \<^verbatim>\<open>emex/kernel/mem/phys/physmem.c\<close>: one bit and one
  \<open>pageframe\<close> record per 4096-byte frame. The static variables of the file are the record
  \<open>physmem\<close>; \<open>pageframes = None\<close> is the NULL pointer before \<open>physmem_init\<close>. The memory map
  comes from the Limine boot loader: \<open>mpr\<close> is its list of entries, \<open>hpr\<close> the offset of the
  higher half direct map, and \<open>raw\<close> what the frame array holds before it is written.
\<close>

section \<open>State\<close>

record pageframe =
  pf_rc :: u32
  pf_flags :: u32

definition PAGE_SIZE :: u64 where "PAGE_SIZE = 4096"
definition FRAME_FREE :: u32 where "FRAME_FREE = 0x00"
definition FRAME_USED :: u32 where "FRAME_USED = 0x01"
definition FRAME_KERNEL :: u32 where "FRAME_KERNEL = 0x02"

datatype memmap_type = MM_Usable | MM_BootloaderReclaimable | MM_Other

record memmap_entry =
  me_base :: u64
  me_length :: u64
  me_type :: memmap_type

record physmem =
  pageframes :: "pageframe list option"
  pm_total :: u64
  bitmap :: "u8 list"
  bitmap_size :: u64
  addr_highest :: u64

section \<open>Bitmap\<close>

definition bitmap_test :: "u8 list \<Rightarrow> u64 \<Rightarrow> u8" where
  "bitmap_test bm idx = drop_bit (unat (idx AND 7)) (bm ! unat (drop_bit 3 idx)) AND 1"

definition bitmap_set :: "u8 list \<Rightarrow> u64 \<Rightarrow> u8 list" where
  "bitmap_set bm idx = (let i = unat (drop_bit 3 idx)
     in bm[i := bm ! i OR push_bit (unat (idx AND 7)) 1])"

definition bitmap_clear :: "u8 list \<Rightarrow> u64 \<Rightarrow> u8 list" where
  "bitmap_clear bm idx = (let i = unat (drop_bit 3 idx)
     in bm[i := bm ! i AND NOT (push_bit (unat (idx AND 7)) 1)])"

section \<open>Marking frames\<close>

text \<open>The body of the marking loops: the bit and the record of one frame.\<close>

definition frame_mark_free :: "nat \<Rightarrow> physmem \<Rightarrow> physmem" where
  "frame_mark_free frame s = s\<lparr>
     bitmap := bitmap_clear (bitmap s) (word_of_nat frame),
     pageframes := map_option (\<lambda>fr. fr[frame := \<lparr>pf_rc = 0, pf_flags = FRAME_FREE\<rparr>]) (pageframes s)\<rparr>"

definition frame_mark_used :: "u32 \<Rightarrow> nat \<Rightarrow> physmem \<Rightarrow> physmem" where
  "frame_mark_used flags frame s = s\<lparr>
     bitmap := bitmap_set (bitmap s) (word_of_nat frame),
     pageframes := map_option (\<lambda>fr. fr[frame := \<lparr>pf_rc = 1, pf_flags = flags\<rparr>]) (pageframes s)\<rparr>"

definition mark_entry :: "memmap_entry \<Rightarrow> physmem \<Rightarrow> physmem" where
  "mark_entry e s =
    (let frame_start = me_base e div PAGE_SIZE in
     if frame_start \<ge> pm_total s then s
     else let frame_end0 = (me_base e + me_length e) div PAGE_SIZE;
              frame_end = (if frame_end0 > pm_total s then pm_total s else frame_end0)
          in if me_type e = MM_Usable
             then fold frame_mark_free [unat frame_start..<unat frame_end] s
             else fold (frame_mark_used (FRAME_USED OR FRAME_KERNEL)) [unat frame_start..<unat frame_end] s)"

definition physmem_addr_mark :: "physmem \<Rightarrow> memmap_entry list \<Rightarrow> physmem outcome" where
  "physmem_addr_mark s mpr =
    (if pageframes s = None then Inl ''PHYSMEM ADDR MARK PHYSMEM PAGEFRAMES NULL''
     else Inr (fold mark_entry mpr s))"

definition physmem_addr_mark_used :: "physmem \<Rightarrow> u64 \<Rightarrow> u64 \<Rightarrow> physmem outcome" where
  "physmem_addr_mark_used s physmem_addr count =
    (if pageframes s = None then Inl ''PHYSMEM ADDR MARK USED PHYSMEM PAGEFRAMES NULL''
     else let frame_start = physmem_addr div PAGE_SIZE;
              frame_end0 = frame_start + count;
              frame_end = (if frame_end0 > pm_total s then pm_total s else frame_end0)
          in Inr (fold (frame_mark_used FRAME_USED) [unat frame_start..<unat frame_end] s))"

definition physmem_addr_mark_free :: "physmem \<Rightarrow> u64 \<Rightarrow> u64 \<Rightarrow> physmem outcome" where
  "physmem_addr_mark_free s physmem_addr count =
    (if pageframes s = None then Inl ''PHYSMEM ADDR MARK FREE PHYSMEM PAGEFRAMES NULL''
     else let frame_start = physmem_addr div PAGE_SIZE;
              frame_end0 = frame_start + count;
              frame_end = (if frame_end0 > pm_total s then pm_total s else frame_end0)
          in Inr (fold frame_mark_free [unat frame_start..<unat frame_end] s))"

section \<open>Initialisation\<close>

text \<open>
  The three passes over the memory map: above 16 MiB, above 1 MiB, anywhere. The result is a
  physical address, 0 (the NULL pointer) when no entry is large enough.
\<close>

definition physmem_addr_get_tracking ::
  "memmap_entry list option \<Rightarrow> u64 option \<Rightarrow> u64 \<Rightarrow> u64 outcome" where
  "physmem_addr_get_tracking mpr hpr sz =
    (case mpr of None \<Rightarrow> Inl ''PHYSMEM ADDR GET LIMINE MEMMAP EQ NULL'' | Some es \<Rightarrow>
     case hpr of None \<Rightarrow> Inl ''PHYSMEM ADDR GET LIMINE HHDM EQ NULL'' | Some _ \<Rightarrow>
     Inr (case find (\<lambda>e. me_type e = MM_Usable \<and> me_length e \<ge> sz \<and> me_base e \<ge> 0x1000000) es of
            Some e \<Rightarrow> me_base e
          | None \<Rightarrow>
          (case find (\<lambda>e. me_type e = MM_Usable \<and> me_length e \<ge> sz \<and> me_base e \<ge> 0x100000) es of
            Some e \<Rightarrow> me_base e
          | None \<Rightarrow>
          (case find (\<lambda>e. me_type e = MM_Usable \<and> me_length e \<ge> sz) es of
            Some e \<Rightarrow> me_base e
          | None \<Rightarrow> 0))))"

definition used_bytes_to_frame_count :: "u64 \<Rightarrow> u64" where
  "used_bytes_to_frame_count sz = (sz + PAGE_SIZE - 1) div PAGE_SIZE"

definition highest_step :: "memmap_entry \<Rightarrow> u64 \<Rightarrow> u64" where
  "highest_step e h =
    (if me_type e = MM_Usable \<or> me_type e = MM_BootloaderReclaimable
     then let end_addr = me_base e + me_length e in if end_addr > h then end_addr else h
     else h)"

definition physmem_init ::
  "memmap_entry list \<Rightarrow> u64 \<Rightarrow> (nat \<Rightarrow> pageframe) \<Rightarrow> physmem outcome" where
  "physmem_init mpr hpr raw =
    (let highest = fold highest_step mpr 0;
         tot = highest div PAGE_SIZE;
         physmem_size = tot * 8;
         bsize = (tot + 7) div 8
     in case physmem_addr_get_tracking (Some mpr) (Some hpr) (physmem_size + bsize) of
          Inl m \<Rightarrow> Inl m
        | Inr addr \<Rightarrow>
            if addr = 0 then Inl ''No usable memory found for physmem_pageframes''
            else
              let s1 = \<lparr>pageframes = (if addr + hpr = 0 then None else Some (map raw [0..<unat tot])),
                        pm_total = tot, bitmap = replicate (unat bsize) 0xFF,
                        bitmap_size = bsize, addr_highest = highest\<rparr>
              in case physmem_addr_mark s1 mpr of
                   Inl m \<Rightarrow> Inl m
                 | Inr s2 \<Rightarrow>
                     physmem_addr_mark_used s2 addr (used_bytes_to_frame_count (physmem_size + bsize)))"

section \<open>Allocation\<close>

definition physmem_get_total :: "physmem \<Rightarrow> u64" where
  "physmem_get_total s = pm_total s"

text \<open>
  The search loop: \<open>Some start_frame\<close> when it leaves with \<^verbatim>\<open>all_free = 1\<close>, \<open>None\<close> when the
  frames are exhausted.
\<close>

function alloc_scan :: "u8 list \<Rightarrow> u64 \<Rightarrow> u64 \<Rightarrow> u64 \<Rightarrow> u64 \<Rightarrow> u64 \<Rightarrow> u64 option" where
  "alloc_scan bm tot count frame consecutive start_frame =
    (if frame < tot then
       if bitmap_test bm frame = 0 then
         let start' = (if consecutive = 0 then frame else start_frame);
             consecutive' = consecutive + 1
         in if consecutive' \<ge> count then Some start'
            else alloc_scan bm tot count (frame + 1) consecutive' start'
       else alloc_scan bm tot count (frame + 1) 0 start_frame
     else None)"
  by pat_completeness auto
termination
  by (relation "measure (\<lambda>(bm, tot, count, frame, consecutive, start_frame). unat tot - unat frame)")
     (auto simp: unat_Suc64 word_less_nat_alt)

declare alloc_scan.simps [simp del]

definition physmem_alloc_to :: "physmem \<Rightarrow> u64 \<Rightarrow> (u64 \<times> physmem) outcome" where
  "physmem_alloc_to s count =
    (if count = 0 then Inr (0, s)
     else case alloc_scan (bitmap s) (pm_total s) count 512 0 0 of
            Some start_frame \<Rightarrow>
              let physmem_addr = start_frame * PAGE_SIZE
              in (case physmem_addr_mark_used s physmem_addr count of
                    Inl m \<Rightarrow> Inl m
                  | Inr s' \<Rightarrow> Inr (physmem_addr, s'))
          | None \<Rightarrow> Inr (0, s))"

definition physmem_free_to :: "physmem \<Rightarrow> u64 \<Rightarrow> u64 \<Rightarrow> physmem outcome" where
  "physmem_free_to s physmem_addr count =
    (if count = 0 then Inr s else physmem_addr_mark_free s physmem_addr count)"

definition physmem_free_get :: "physmem \<Rightarrow> u64" where
  "physmem_free_get s =
    fold (\<lambda>frame count. if bitmap_test (bitmap s) (word_of_nat frame) = 0 then count + 1 else count)
         [0..<unat (pm_total s)] 0"


section \<open>Bits and frames\<close>

definition bm_bit :: "u8 list \<Rightarrow> nat \<Rightarrow> bool" where
  "bm_bit bm f \<longleftrightarrow> bit (bm ! (f div 8)) (f mod 8)"

lemma bitmap_test_bit: "bitmap_test bm idx \<noteq> 0 \<longleftrightarrow> bm_bit bm (unat idx)"
  by (simp add: bitmap_test_def bm_bit_def word_nat bit_iff_odd_drop_bit and_one_eq odd_iff_mod_2_eq_one)

lemma bit_single: "m < 8 \<Longrightarrow> bit (2 ^ k :: u8) m \<longleftrightarrow> m = k"
  by (auto simp: bit_exp_iff)

lemma bm_bit_upd:
  assumes "i < 8 * length bm"
  shows "bm_bit (bm[i div 8 := b]) j = (if j div 8 = i div 8 then bit b (j mod 8) else bm_bit bm j)"
  using assms by (auto simp: bm_bit_def nth_list_update div_less_iff_less_mult)

lemma div_mod_8_eq: "(i::nat) = j \<longleftrightarrow> j div 8 = i div 8 \<and> j mod 8 = i mod 8"
  by (metis div_mult_mod_eq)

lemma bm_bit_set:
  assumes "unat idx < 8 * length bm"
  shows "bm_bit (bitmap_set bm idx) j \<longleftrightarrow> j = unat idx \<or> bm_bit bm j"
  unfolding bitmap_set_def Let_def word_nat bm_bit_upd [OF assms]
  using div_mod_8_eq [of "unat idx" j] by (auto simp: bm_bit_def bit_or_iff bit_single)

lemma bm_bit_clear:
  assumes "unat idx < 8 * length bm"
  shows "bm_bit (bitmap_clear bm idx) j \<longleftrightarrow> j \<noteq> unat idx \<and> bm_bit bm j"
  unfolding bitmap_clear_def Let_def word_nat bm_bit_upd [OF assms]
  using div_mod_8_eq [of "unat idx" j] by (auto simp: bm_bit_def bit_and_iff bit_not_iff bit_single)

lemma length_bitmap_set [simp]: "length (bitmap_set bm idx) = length bm"
  by (simp add: bitmap_set_def Let_def)

lemma length_bitmap_clear [simp]: "length (bitmap_clear bm idx) = length bm"
  by (simp add: bitmap_clear_def Let_def)

text \<open>The abstract view of the allocator: which frames are marked free.\<close>

definition frame_free :: "physmem \<Rightarrow> nat \<Rightarrow> bool" where
  "frame_free s f \<longleftrightarrow> f < unat (pm_total s) \<and> \<not> bm_bit (bitmap s) f"

text \<open>
  Well-formedness: both arrays cover every frame, and the record of a frame that the bitmap calls
  free says so too.
\<close>

definition pm_sized :: "physmem \<Rightarrow> bool" where
  "pm_sized s \<longleftrightarrow> (\<exists>fr. pageframes s = Some fr \<and> length fr = unat (pm_total s))
     \<and> unat (pm_total s) \<le> 8 * length (bitmap s) \<and> unat (pm_total s) < 2 ^ 52"

definition pm_ok :: "physmem \<Rightarrow> bool" where
  "pm_ok s \<longleftrightarrow> pm_sized s \<and>
     (\<forall>f. frame_free s f \<longrightarrow> the (pageframes s) ! f = \<lparr>pf_rc = 0, pf_flags = FRAME_FREE\<rparr>)"

lemma frame_mark_simps [simp]:
  "pm_total (frame_mark_free f s) = pm_total s"
  "pm_total (frame_mark_used fl f s) = pm_total s"
  "length (bitmap (frame_mark_free f s)) = length (bitmap s)"
  "length (bitmap (frame_mark_used fl f s)) = length (bitmap s)"
  "pm_sized (frame_mark_free f s) = pm_sized s"
  "pm_sized (frame_mark_used fl f s) = pm_sized s"
  by (auto simp: frame_mark_free_def frame_mark_used_def pm_sized_def)

lemma frame_free_mark_free:
  assumes "pm_sized s" "f < unat (pm_total s)"
  shows "frame_free (frame_mark_free f s) j \<longleftrightarrow> j = f \<or> frame_free s j"
proof -
  have "unat (word_of_nat f :: u64) = f"
    using assms by (auto simp: pm_sized_def intro!: unat_of_nat64)
  then show ?thesis
    using assms by (auto simp: frame_free_def frame_mark_free_def bm_bit_clear pm_sized_def)
qed

lemma frame_free_mark_used:
  assumes "pm_sized s" "f < unat (pm_total s)"
  shows "frame_free (frame_mark_used fl f s) j \<longleftrightarrow> j \<noteq> f \<and> frame_free s j"
proof -
  have "unat (word_of_nat f :: u64) = f"
    using assms by (auto simp: pm_sized_def intro!: unat_of_nat64)
  then show ?thesis
    using assms by (auto simp: frame_free_def frame_mark_used_def bm_bit_set pm_sized_def)
qed

lemma pm_ok_mark_free:
  assumes "pm_ok s" "f < unat (pm_total s)"
  shows "pm_ok (frame_mark_free f s)"
  using assms unfolding pm_ok_def
  by (auto simp: frame_free_mark_free) (auto simp: frame_mark_free_def pm_sized_def nth_list_update)

lemma pm_ok_mark_used:
  assumes "pm_ok s" "f < unat (pm_total s)"
  shows "pm_ok (frame_mark_used fl f s)"
  using assms unfolding pm_ok_def
  by (auto simp: frame_free_mark_used) (auto simp: frame_mark_used_def pm_sized_def nth_list_update)

text \<open>The marking loops, over any list of frames in range.\<close>

lemma fold_mark_free:
  assumes "pm_ok s" "\<forall>f\<in>set fs. f < unat (pm_total s)"
  shows "pm_ok (fold frame_mark_free fs s) \<and> pm_total (fold frame_mark_free fs s) = pm_total s
    \<and> (\<forall>j. frame_free (fold frame_mark_free fs s) j \<longleftrightarrow> j \<in> set fs \<or> frame_free s j)"
  using assms
proof (induction fs arbitrary: s)
  case (Cons f fs)
  then have "pm_ok (frame_mark_free f s)" by (simp add: pm_ok_mark_free)
  with Cons show ?case
    by (auto simp: frame_free_mark_free pm_ok_def)
qed simp

lemma fold_mark_used:
  assumes "pm_ok s" "\<forall>f\<in>set fs. f < unat (pm_total s)"
  shows "pm_ok (fold (frame_mark_used fl) fs s) \<and> pm_total (fold (frame_mark_used fl) fs s) = pm_total s
    \<and> (\<forall>j. frame_free (fold (frame_mark_used fl) fs s) j \<longleftrightarrow> j \<notin> set fs \<and> frame_free s j)"
  using assms
proof (induction fs arbitrary: s)
  case (Cons f fs)
  then have "pm_ok (frame_mark_used fl f s)" by (simp add: pm_ok_mark_used)
  with Cons show ?case
    by (auto simp: frame_free_mark_used pm_ok_def)
qed simp

section \<open>The search loop\<close>

text \<open>
  A run of \<open>n\<close> free frames that starts at \<open>f\<close>, at or above the first frame that is searched.
\<close>

definition free_run :: "physmem \<Rightarrow> nat \<Rightarrow> nat \<Rightarrow> bool" where
  "free_run s f n \<longleftrightarrow> (\<forall>j. f \<le> j \<and> j < f + n \<longrightarrow> frame_free s j)"

lemma alloc_scan_sound:
  assumes "alloc_scan (bitmap s) (pm_total s) count frame consec start = Some r"
    and "consec \<noteq> 0 \<longrightarrow> unat start + unat consec = unat frame \<and> unat start \<ge> lo"
    and "\<forall>j. unat frame - unat consec \<le> j \<and> j < unat frame \<longrightarrow> frame_free s j"
    and "unat consec \<le> unat frame" "consec < count" "lo \<le> unat frame"
  shows "lo \<le> unat r \<and> free_run s (unat r) (unat count)"
  using assms
proof (induction "bitmap s" "pm_total s" count frame consec start rule: alloc_scan.induct)
  case (1 count frame consec start)
  have lt: "frame < pm_total s" using "1.prems"(1) by (simp add: alloc_scan.simps [of _ _ _ frame] split: if_splits)
  have c1: "unat (consec + 1) = Suc (unat consec)" using "1.prems"(5) by (rule unat_Suc64)
  have f1: "unat (frame + 1) = Suc (unat frame)" using lt by (rule unat_Suc64)
  show ?case
  proof (cases "bitmap_test (bitmap s) frame = 0")
    case False
    then have "alloc_scan (bitmap s) (pm_total s) count (frame + 1) 0 start = Some r"
      using lt "1.prems"(1) by (simp add: alloc_scan.simps [of _ _ _ frame])
    then show ?thesis
      using "1.hyps"(2) [OF lt False] "1.prems" f1 by (auto simp: word_less_nat_alt)
  next
    case True
    define start' where "start' = (if consec = 0 then frame else start)"
    have fr: "frame_free s (unat frame)"
      using True lt bitmap_test_bit [of "bitmap s" frame] by (simp add: frame_free_def word_less_nat_alt)
    have s': "unat start' + unat (consec + 1) = unat (frame + 1)" "unat start' \<ge> lo"
      using "1.prems"(2,6) c1 f1 by (auto simp: start'_def)
    have free': "\<forall>j. unat (frame + 1) - unat (consec + 1) \<le> j \<and> j < unat (frame + 1) \<longrightarrow> frame_free s j"
      using "1.prems"(3) fr c1 f1 by (auto simp: less_Suc_eq)
    show ?thesis
    proof (cases "count \<le> consec + 1")
      case full: True
      then have "r = start'"
        using True lt "1.prems"(1) by (simp add: alloc_scan.simps [of _ _ _ frame] start'_def Let_def split: if_splits)
      moreover have "unat count = Suc (unat consec)"
        using full "1.prems"(5) c1 by (simp add: word_le_nat_alt word_less_nat_alt)
      ultimately show ?thesis
        using s' free' c1 f1 by (auto simp: free_run_def)
    next
      case more: False
      then have "alloc_scan (bitmap s) (pm_total s) count (frame + 1) (consec + 1) start' = Some r"
        using True lt "1.prems"(1) by (simp add: alloc_scan.simps [of _ _ _ frame] start'_def Let_def split: if_splits)
      then show ?thesis
        using "1.hyps"(1) [OF lt True start'_def refl more] s' free' c1 f1 more "1.prems"(4,6)
        by auto
    qed
  qed
qed

lemma alloc_scan_first:
  assumes "consec \<noteq> 0 \<longrightarrow> unat start + unat consec = unat frame"
    and "\<forall>p. lo \<le> p \<and> p < unat frame - unat consec \<longrightarrow> \<not> free_run s p (unat count)"
    and "unat consec \<le> unat frame" "consec < count"
  shows "case alloc_scan (bitmap s) (pm_total s) count frame consec start of
           Some r \<Rightarrow> \<forall>p. lo \<le> p \<and> p < unat r \<longrightarrow> \<not> free_run s p (unat count)
         | None \<Rightarrow> \<forall>p. lo \<le> p \<longrightarrow> \<not> free_run s p (unat count)"
  using assms
proof (induction "bitmap s" "pm_total s" count frame consec start rule: alloc_scan.induct)
  case (1 count frame consec start)
  have cc: "unat consec < unat count" using "1.prems"(4) by (simp add: word_less_nat_alt)
  have blocked: "\<not> free_run s p (unat count)"
    if "\<not> frame_free s (unat frame)" "unat frame - unat consec \<le> p" "p \<le> unat frame" for p
    using that cc "1.prems"(3) by (auto simp: free_run_def intro!: exI [of _ "unat frame"])
  show ?case
  proof (cases "frame < pm_total s")
    case False
    then have "\<not> free_run s p (unat count)" if "unat frame - unat consec \<le> p" for p
      using that cc by (auto simp: free_run_def frame_free_def word_less_nat_alt
          intro!: exI [of _ "p + unat count - 1"])
    then have "\<forall>p. lo \<le> p \<longrightarrow> \<not> free_run s p (unat count)"
      using "1.prems"(2) not_le by blast
    then show ?thesis
      using False by (simp add: alloc_scan.simps [of _ _ _ frame])
  next
    case lt: True
    have c1: "unat (consec + 1) = Suc (unat consec)" using "1.prems"(4) by (rule unat_Suc64)
    have f1: "unat (frame + 1) = Suc (unat frame)" using lt by (rule unat_Suc64)
    show ?thesis
    proof (cases "bitmap_test (bitmap s) frame = 0")
      case False
      then have nf: "\<not> frame_free s (unat frame)"
        using bitmap_test_bit [of "bitmap s" frame] by (simp add: frame_free_def)
      have "\<forall>p. lo \<le> p \<and> p < unat (frame + 1) - unat (0 :: u64) \<longrightarrow> \<not> free_run s p (unat count)"
        using blocked [OF nf] "1.prems"(2) f1 by (metis diff_zero less_Suc_eq_le not_le unsigned_0)
      then show ?thesis
        using "1.hyps"(2) [OF lt False] False lt cc
        by (simp add: alloc_scan.simps [of _ _ _ frame] word_less_nat_alt)
    next
      case True
      define start' where "start' = (if consec = 0 then frame else start)"
      have s': "unat start' + unat consec = unat frame"
        using "1.prems"(1) by (auto simp: start'_def)
      show ?thesis
      proof (cases "count \<le> consec + 1")
        case full: True
        then have "alloc_scan (bitmap s) (pm_total s) count frame consec start = Some start'"
          using True lt by (simp add: alloc_scan.simps [of _ _ _ frame] start'_def Let_def)
        moreover have "unat start' = unat frame - unat consec" using s' by simp
        ultimately show ?thesis using "1.prems"(2) by simp
      next
        case more: False
        then show ?thesis
          using "1.hyps"(1) [OF lt True start'_def refl more] s' c1 f1 "1.prems"(2,3) True lt
          by (simp add: alloc_scan.simps [of _ _ _ frame] start'_def [symmetric] Let_def)
      qed
    qed
  qed
qed

section \<open>Marking a range of frames\<close>

text \<open>
  What the loops of \<open>physmem_addr_mark_used\<close> and \<open>physmem_addr_mark_free\<close> touch: the frames of
  the request that exist. A range whose end wraps around is empty.
\<close>

definition frame_range :: "physmem \<Rightarrow> u64 \<Rightarrow> u64 \<Rightarrow> nat set" where
  "frame_range s addr count =
    {unat (addr div PAGE_SIZE)..<min (unat (addr div PAGE_SIZE + count)) (unat (pm_total s))}"

lemma frame_range_eq:
  "set [unat (addr div PAGE_SIZE)..<unat (if addr div PAGE_SIZE + count > pm_total s then pm_total s
         else addr div PAGE_SIZE + count)] = frame_range s addr count"
  by (auto simp: frame_range_def word_less_nat_alt min_def)

lemma mark_used_spec:
  assumes "pm_ok s"
  shows "\<exists>s'. physmem_addr_mark_used s addr count = Inr s' \<and> pm_ok s' \<and> pm_total s' = pm_total s
    \<and> (\<forall>j. frame_free s' j \<longleftrightarrow> j \<notin> frame_range s addr count \<and> frame_free s j)"
proof -
  let ?fs = "[unat (addr div PAGE_SIZE)..<unat (if addr div PAGE_SIZE + count > pm_total s
    then pm_total s else addr div PAGE_SIZE + count)]"
  have "\<forall>f\<in>set ?fs. f < unat (pm_total s)"
    unfolding frame_range_eq by (simp add: frame_range_def)
  from fold_mark_used [OF assms this, of FRAME_USED, unfolded frame_range_eq] show ?thesis
    using assms by (auto simp: physmem_addr_mark_used_def Let_def pm_ok_def pm_sized_def)
qed

lemma mark_free_spec:
  assumes "pm_ok s"
  shows "\<exists>s'. physmem_addr_mark_free s addr count = Inr s' \<and> pm_ok s' \<and> pm_total s' = pm_total s
    \<and> (\<forall>j. frame_free s' j \<longleftrightarrow> j \<in> frame_range s addr count \<or> frame_free s j)"
proof -
  let ?fs = "[unat (addr div PAGE_SIZE)..<unat (if addr div PAGE_SIZE + count > pm_total s
    then pm_total s else addr div PAGE_SIZE + count)]"
  have "\<forall>f\<in>set ?fs. f < unat (pm_total s)"
    unfolding frame_range_eq by (simp add: frame_range_def)
  from fold_mark_free [OF assms this, unfolded frame_range_eq] show ?thesis
    using assms by (auto simp: physmem_addr_mark_free_def Let_def pm_ok_def pm_sized_def)
qed

section \<open>Allocating and freeing\<close>

lemma free_run_in_range:
  assumes "pm_ok s" "free_run s f n" "0 < n"
  shows "f + n \<le> unat (pm_total s)" "f + n < 2 ^ 52"
proof -
  have "frame_free s (f + n - 1)" using assms by (simp add: free_run_def)
  then show "f + n \<le> unat (pm_total s)" using assms(3) by (auto simp: frame_free_def)
  with assms(1) show "f + n < 2 ^ 52" by (auto simp: pm_ok_def pm_sized_def)
qed

lemma unat_frame_addr:
  "unat f < 2 ^ 52 \<Longrightarrow> unat (f * PAGE_SIZE) = unat f * 4096"
  by (simp add: PAGE_SIZE_def unat_word_ariths)

lemma frame_range_run:
  assumes "unat f + unat count \<le> unat (pm_total s)" "unat f + unat count < 2 ^ 52"
  shows "frame_range s (f * PAGE_SIZE) count = {unat f..<unat f + unat count}"
proof -
  have "unat f < 2 ^ 52" using assms(2) by simp
  then have "unat (f * PAGE_SIZE div PAGE_SIZE) = unat f"
    using unat_frame_addr [of f] by (simp add: unat_div PAGE_SIZE_def)
  then have d: "f * PAGE_SIZE div PAGE_SIZE = f"
    by (simp add: word_unat_eq_iff)
  have "unat (f + count) = unat f + unat count"
    using assms(2) by (intro unat_add_no_wrap64) simp
  then show ?thesis
    using assms(1) by (simp add: frame_range_def d)
qed

lemma alloc_search_spec:
  assumes "0 < count"
  shows "case alloc_scan (bitmap s) (pm_total s) count 512 0 0 of
      Some r \<Rightarrow> 512 \<le> unat r \<and> free_run s (unat r) (unat count)
        \<and> (\<forall>p. 512 \<le> p \<and> p < unat r \<longrightarrow> \<not> free_run s p (unat count))
    | None \<Rightarrow> \<forall>p. 512 \<le> p \<longrightarrow> \<not> free_run s p (unat count)"
proof -
  note first = alloc_scan_first [of 0 0 512 512 s count]
  have "512 \<le> unat r \<and> free_run s (unat r) (unat count)"
    if "alloc_scan (bitmap s) (pm_total s) count 512 0 0 = Some r" for r
    by (rule alloc_scan_sound [OF that]) (use assms in auto)
  moreover have "case alloc_scan (bitmap s) (pm_total s) count 512 0 0 of
           Some r \<Rightarrow> \<forall>p. 512 \<le> p \<and> p < unat r \<longrightarrow> \<not> free_run s p (unat count)
         | None \<Rightarrow> \<forall>p. 512 \<le> p \<longrightarrow> \<not> free_run s p (unat count)"
    by (rule first) (use assms in auto)
  ultimately show ?thesis by (auto split: option.splits)
qed

text \<open>
  The complete behaviour of \<open>physmem_alloc_to\<close> on a well-formed allocator: the lowest run of free
  frames at or above frame 512, or address 0 and an unchanged state when there is none.
\<close>

lemma alloc_to_spec:
  assumes "pm_ok s" "0 < count"
  shows "(\<exists>f s'. physmem_alloc_to s count = Inr (f * PAGE_SIZE, s') \<and> 512 \<le> unat f
           \<and> free_run s (unat f) (unat count)
           \<and> (\<forall>p. 512 \<le> p \<and> p < unat f \<longrightarrow> \<not> free_run s p (unat count))
           \<and> pm_ok s' \<and> pm_total s' = pm_total s
           \<and> (\<forall>j. frame_free s' j \<longleftrightarrow> \<not> (unat f \<le> j \<and> j < unat f + unat count) \<and> frame_free s j))
       \<or> (physmem_alloc_to s count = Inr (0, s) \<and> (\<forall>p. 512 \<le> p \<longrightarrow> \<not> free_run s p (unat count)))"
proof (cases "alloc_scan (bitmap s) (pm_total s) count 512 0 0")
  case None
  then show ?thesis
    using alloc_search_spec [OF assms(2), of s] assms(2) by (auto simp: physmem_alloc_to_def)
next
  case (Some f)
  then have f: "512 \<le> unat f" "free_run s (unat f) (unat count)"
      "\<forall>p. 512 \<le> p \<and> p < unat f \<longrightarrow> \<not> free_run s p (unat count)"
    using alloc_search_spec [OF assms(2), of s] by auto
  have n: "0 < unat count" using assms(2) by (simp add: word_less_nat_alt)
  have rng: "frame_range s (f * PAGE_SIZE) count = {unat f..<unat f + unat count}"
    by (intro frame_range_run free_run_in_range [OF assms(1) f(2) n])
  obtain s' where s': "physmem_addr_mark_used s (f * PAGE_SIZE) count = Inr s'" "pm_ok s'"
      "pm_total s' = pm_total s"
      "\<forall>j. frame_free s' j \<longleftrightarrow> j \<notin> {unat f..<unat f + unat count} \<and> frame_free s j"
    using mark_used_spec [OF assms(1), of "f * PAGE_SIZE" count] unfolding rng by auto
  then have "physmem_alloc_to s count = Inr (f * PAGE_SIZE, s')"
    using Some assms(2) by (auto simp: physmem_alloc_to_def)
  with f s' show ?thesis by (intro disjI1) auto
qed

section \<open>The contract of a frame allocator\<close>

text \<open>
  What the rest of the kernel relies on when it calls \<open>physmem_alloc_to\<close> and \<open>physmem_free_to\<close>
  (page tables, process images, shared memory): a non-zero result is a page-aligned run of frames
  that were free and are no longer, 0 means that nothing changed, and releasing a run makes exactly
  its frames free again.
\<close>

definition page_run :: "u64 \<Rightarrow> u64 \<Rightarrow> nat set" where
  "page_run addr n = {unat addr div 4096..<unat addr div 4096 + unat n}"

locale frame_allocator =
  fixes alloc :: "'s \<Rightarrow> u64 \<Rightarrow> (u64 \<times> 's) outcome"
    and release :: "'s \<Rightarrow> u64 \<Rightarrow> u64 \<Rightarrow> 's outcome"
    and isfree :: "'s \<Rightarrow> nat \<Rightarrow> bool"
    and frames :: "'s \<Rightarrow> nat"
    and ok :: "'s \<Rightarrow> bool"
  assumes alloc_total: "ok s \<Longrightarrow> \<exists>a s'. alloc s n = Inr (a, s') \<and> ok s' \<and> frames s' = frames s"
    and alloc_fail: "ok s \<Longrightarrow> alloc s n = Inr (0, s') \<Longrightarrow> s' = s"
    and alloc_run: "ok s \<Longrightarrow> alloc s n = Inr (a, s') \<Longrightarrow> a \<noteq> 0 \<Longrightarrow>
      unat a mod 4096 = 0 \<and> page_run a n \<subseteq> {..<frames s} \<and> Ball (page_run a n) (isfree s)"
    and alloc_isfree: "ok s \<Longrightarrow> alloc s n = Inr (a, s') \<Longrightarrow> a \<noteq> 0 \<Longrightarrow>
      isfree s' j \<longleftrightarrow> j \<notin> page_run a n \<and> isfree s j"
    and release_total: "ok s \<Longrightarrow> \<exists>s'. release s a n = Inr s' \<and> ok s' \<and> frames s' = frames s"
    and release_isfree: "ok s \<Longrightarrow> release s a n = Inr s' \<Longrightarrow> page_run a n \<subseteq> {..<frames s} \<Longrightarrow>
      isfree s' j \<longleftrightarrow> j \<in> page_run a n \<or> isfree s j"
begin

lemma alloc_ok:
  assumes "ok s" "alloc s n = Inr (a, s')"
  shows "ok s'" "frames s' = frames s"
  using alloc_total [OF assms(1), of n] assms(2) by auto

lemma release_ok:
  assumes "ok s" "release s a n = Inr s'"
  shows "ok s'" "frames s' = frames s"
  using release_total [OF assms(1), of a n] assms(2) by auto

text \<open>Freeing what was just allocated restores the set of free frames.\<close>

lemma release_alloc:
  assumes "ok s" "alloc s n = Inr (a, s')" "a \<noteq> 0"
  shows "\<exists>s''. release s' a n = Inr s'' \<and> ok s'' \<and> isfree s'' = isfree s"
proof -
  obtain s'' where s'': "release s' a n = Inr s''" "ok s''"
    using release_total [OF alloc_ok(1) [OF assms(1,2)]] by blast
  have sub: "page_run a n \<subseteq> {..<frames s'}"
    using alloc_run [OF assms] alloc_ok(2) [OF assms(1,2)] by simp
  have "isfree s'' = isfree s"
    using release_isfree [OF alloc_ok(1) [OF assms(1,2)] s''(1) sub]
      alloc_isfree [OF assms] alloc_run [OF assms] by (auto simp: fun_eq_iff)
  with s'' show ?thesis by blast
qed

text \<open>Two allocations that are both live do not overlap.\<close>

lemma alloc_disjoint:
  assumes "ok s" "alloc s n = Inr (a, s')" "a \<noteq> 0" "alloc s' m = Inr (b, s'')" "b \<noteq> 0"
  shows "page_run a n \<inter> page_run b m = {}"
  using alloc_isfree [OF assms(1-3)] alloc_run [OF alloc_ok(1) [OF assms(1,2)] assms(4,5)] by blast

end

lemma page_run_addr:
  "unat f < 2 ^ 52 \<Longrightarrow> page_run (f * PAGE_SIZE) n = {unat f..<unat f + unat n}"
  by (simp add: page_run_def unat_frame_addr)

lemma page_run_range:
  assumes "pm_ok s" "page_run a n \<subseteq> {..<unat (pm_total s)}" "n \<noteq> 0"
  shows "frame_range s a n = page_run a n"
proof -
  have d: "unat (a div PAGE_SIZE) = unat a div 4096" by (simp add: unat_div PAGE_SIZE_def)
  have n: "0 < unat n" using assms(3) by (simp add: unat_gt_0)
  then have "unat a div 4096 + unat n - 1 \<in> page_run a n" by (simp add: page_run_def)
  then have le: "unat a div 4096 + unat n \<le> unat (pm_total s)" using assms(2) n by force
  moreover have "unat (a div PAGE_SIZE + n) = unat a div 4096 + unat n"
    using le unat_lt_2p64 [of "pm_total s"] d
    by (subst unat_add_no_wrap64) (auto simp del: unat_lt_2p64)
  ultimately show ?thesis by (simp add: frame_range_def page_run_def d)
qed

lemma alloc_to_cases:
  assumes "pm_ok s" "physmem_alloc_to s n = Inr (a, s')"
  obtains (fail) "a = 0" "s' = s"
    | (run) f where "a = f * PAGE_SIZE" "512 \<le> unat f" "unat f + unat n < 2 ^ 52"
        "unat f + unat n \<le> unat (pm_total s)" "0 < unat n" "free_run s (unat f) (unat n)"
        "pm_ok s'" "pm_total s' = pm_total s"
        "\<And>j. frame_free s' j \<longleftrightarrow> j \<notin> {unat f..<unat f + unat n} \<and> frame_free s j"
proof (cases "n = 0")
  case True
  with assms(2) fail show ?thesis by (auto simp: physmem_alloc_to_def)
next
  case False
  then have n: "0 < n" "0 < unat n" by (auto simp: word_neq_0_conv unat_gt_0)
  from alloc_to_spec [OF assms(1) n(1)] show ?thesis
  proof
    assume "\<exists>f s'. physmem_alloc_to s n = Inr (f * PAGE_SIZE, s') \<and> 512 \<le> unat f
      \<and> free_run s (unat f) (unat n) \<and> (\<forall>p. 512 \<le> p \<and> p < unat f \<longrightarrow> \<not> free_run s p (unat n))
      \<and> pm_ok s' \<and> pm_total s' = pm_total s
      \<and> (\<forall>j. frame_free s' j \<longleftrightarrow> \<not> (unat f \<le> j \<and> j < unat f + unat n) \<and> frame_free s j)"
    then obtain f t where "physmem_alloc_to s n = Inr (f * PAGE_SIZE, t)" and f: "512 \<le> unat f"
        "free_run s (unat f) (unat n)" "pm_ok t" "pm_total t = pm_total s"
        "\<forall>j. frame_free t j \<longleftrightarrow> \<not> (unat f \<le> j \<and> j < unat f + unat n) \<and> frame_free s j" by blast
    with assms(2) have "a = f * PAGE_SIZE" "t = s'" by auto
    with f n show ?thesis
      using free_run_in_range [OF assms(1) f(2) n(2)] by (intro run [of f]) auto
  next
    assume "physmem_alloc_to s n = Inr (0, s) \<and> (\<forall>p. 512 \<le> p \<longrightarrow> \<not> free_run s p (unat n))"
    with assms(2) show ?thesis by (intro fail) auto
  qed
qed

lemma frame_addr_nonzero:
  assumes "512 \<le> unat f" "unat f < 2 ^ 52"
  shows "f * PAGE_SIZE \<noteq> 0"
  using unat_frame_addr [OF assms(2)] assms(1) by (metis mult_is_0 not_numeral_le_zero unsigned_0 zero_neq_numeral)

interpretation pm: frame_allocator physmem_alloc_to physmem_free_to frame_free "\<lambda>s. unat (pm_total s)" pm_ok
proof unfold_locales
  fix s n assume "pm_ok s"
  then show "\<exists>a s'. physmem_alloc_to s n = Inr (a, s') \<and> pm_ok s' \<and> unat (pm_total s') = unat (pm_total s)"
    using alloc_to_spec [of s n] by (cases "n = 0") (auto simp: physmem_alloc_to_def word_neq_0_conv)
next
  fix s n s' assume "pm_ok s" "physmem_alloc_to s n = Inr (0, s')"
  then show "s' = s"
    by (cases rule: alloc_to_cases) (auto dest: frame_addr_nonzero)
next
  fix s n a s' assume a: "pm_ok s" "physmem_alloc_to s n = Inr (a, s')" "a \<noteq> 0"
  from a(1,2) show "unat a mod 4096 = 0 \<and> page_run a n \<subseteq> {..<unat (pm_total s)} \<and> Ball (page_run a n) (frame_free s)"
    by (cases rule: alloc_to_cases) (use a(3) in \<open>auto simp: page_run_addr unat_frame_addr free_run_def\<close>)
next
  fix s n a s' j assume a: "pm_ok s" "physmem_alloc_to s n = Inr (a, s')" "a \<noteq> 0"
  from a(1,2) show "frame_free s' j \<longleftrightarrow> j \<notin> page_run a n \<and> frame_free s j"
    by (cases rule: alloc_to_cases) (use a(3) in \<open>auto simp: page_run_addr\<close>)
next
  fix s a n assume "pm_ok s"
  then show "\<exists>s'. physmem_free_to s a n = Inr s' \<and> pm_ok s' \<and> unat (pm_total s') = unat (pm_total s)"
    using mark_free_spec [of s a n] by (auto simp: physmem_free_to_def)
next
  fix s a n s' j
  assume a: "pm_ok s" "physmem_free_to s a n = Inr s'" "page_run a n \<subseteq> {..<unat (pm_total s)}"
  then show "frame_free s' j \<longleftrightarrow> j \<in> page_run a n \<or> frame_free s j"
    using mark_free_spec [OF a(1), of a n] page_run_range [OF a(1,3)]
    by (cases "n = 0") (auto simp: physmem_free_to_def page_run_def)
qed

section \<open>Initialisation\<close>

text \<open>
  Which frames a memory map calls usable: the last entry that covers a frame decides, and a frame
  that no entry covers is not usable.
\<close>

definition entry_covers :: "u64 \<Rightarrow> memmap_entry \<Rightarrow> nat \<Rightarrow> bool" where
  "entry_covers tot e j \<longleftrightarrow> unat (me_base e div PAGE_SIZE) \<le> j
     \<and> j < min (unat ((me_base e + me_length e) div PAGE_SIZE)) (unat tot)"

definition last_usable :: "u64 \<Rightarrow> memmap_entry list \<Rightarrow> nat \<Rightarrow> bool" where
  "last_usable tot mpr j =
    fold (\<lambda>e b. if entry_covers tot e j then me_type e = MM_Usable else b) mpr False"

lemma mark_entry_spec:
  assumes "pm_ok s"
  shows "pm_ok (mark_entry e s) \<and> pm_total (mark_entry e s) = pm_total s
    \<and> (\<forall>j. frame_free (mark_entry e s) j
          \<longleftrightarrow> (if entry_covers (pm_total s) e j then me_type e = MM_Usable else frame_free s j))"
proof (cases "me_base e div PAGE_SIZE \<ge> pm_total s")
  case True
  then have "\<not> entry_covers (pm_total s) e j" for j
    by (auto simp: entry_covers_def word_le_nat_alt)
  with True show ?thesis using assms by (simp add: mark_entry_def Let_def)
next
  case False
  let ?fs = "[unat (me_base e div PAGE_SIZE)..<unat (if (me_base e + me_length e) div PAGE_SIZE > pm_total s
    then pm_total s else (me_base e + me_length e) div PAGE_SIZE)]"
  have fs: "j \<in> set ?fs \<longleftrightarrow> entry_covers (pm_total s) e j" for j
    by (auto simp: entry_covers_def word_less_nat_alt min_def)
  then have lt: "\<forall>f\<in>set ?fs. f < unat (pm_total s)"
    by (auto simp: entry_covers_def simp del: set_upt)
  show ?thesis
    using False fold_mark_free [OF assms lt] fold_mark_used [OF assms lt, of "FRAME_USED OR FRAME_KERNEL"]
    unfolding fs by (auto simp: mark_entry_def Let_def)
qed

lemma fold_mark_entry:
  assumes "pm_ok s"
  shows "pm_ok (fold mark_entry es s) \<and> pm_total (fold mark_entry es s) = pm_total s
    \<and> (\<forall>j. frame_free (fold mark_entry es s) j
       \<longleftrightarrow> fold (\<lambda>e b. if entry_covers (pm_total s) e j then me_type e = MM_Usable else b) es (frame_free s j))"
  using assms
proof (induction es arbitrary: s)
  case (Cons e es)
  note step = mark_entry_spec [OF Cons.prems, of e]
  note rest = Cons.IH [of "mark_entry e s"]
  show ?case using step rest by simp
qed simp

lemma bm_bit_replicate: "f < 8 * n \<Longrightarrow> bm_bit (replicate n 0xFF) f"
proof -
  assume "f < 8 * n"
  then have "replicate n (0xFF :: u8) ! (f div 8) = 0xFF" by simp
  moreover have "bit (0xFF :: u8) m" if "m < 8" for m
  proof -
    have "(0xFF :: u8) = mask 8" by (simp add: mask_eq_exp_minus_1)
    then show ?thesis using that by (simp only: bit_mask_iff) simp
  qed
  ultimately show ?thesis by (simp add: bm_bit_def)
qed

lemma pm_ok_start:
  assumes "unat tot < 2 ^ 52"
  shows "pm_ok \<lparr>pageframes = Some (map raw [0..<unat tot]), pm_total = tot,
     bitmap = replicate (unat ((tot + 7) div 8)) 0xFF, bitmap_size = bs, addr_highest = h\<rparr>" (is "pm_ok ?s")
    and "\<not> frame_free \<lparr>pageframes = Some (map raw [0..<unat tot]), pm_total = tot,
     bitmap = replicate (unat ((tot + 7) div 8)) 0xFF, bitmap_size = bs, addr_highest = h\<rparr> j"
proof -
  have n: "unat ((tot + 7) div 8) = (unat tot + 7) div 8"
    using assms by (simp add: unat_div unat_add_no_wrap64)
  then have ge: "unat tot \<le> 8 * unat ((tot + 7) div 8)" by simp
  then have nofree: "\<not> frame_free ?s j" for j
    by (auto simp: frame_free_def intro: bm_bit_replicate)
  then show "\<not> frame_free ?s j" .
  show "pm_ok ?s" using nofree ge assms by (simp add: pm_ok_def pm_sized_def)
qed

lemma total_bound: "unat (h div PAGE_SIZE) < 2 ^ 52"
  using unat_lt_2p64 [of h] by (simp add: unat_div PAGE_SIZE_def less_mult_imp_div_less del: unat_lt_2p64)

text \<open>
  Whenever initialisation returns, the allocator is well-formed, and a frame is free exactly when
  the memory map calls it usable and it does not lie in the area that the allocator took for its
  own two arrays.
\<close>

lemma physmem_init_spec:
  assumes "physmem_init mpr hpr raw = Inr s"
  shows "\<exists>addr. pm_ok s \<and> pm_total s = fold highest_step mpr 0 div PAGE_SIZE
    \<and> physmem_addr_get_tracking (Some mpr) (Some hpr) (pm_total s * 8 + (pm_total s + 7) div 8) = Inr addr
    \<and> (\<forall>j. frame_free s j \<longleftrightarrow> last_usable (pm_total s) mpr j \<and>
         j \<notin> frame_range s addr (used_bytes_to_frame_count (pm_total s * 8 + (pm_total s + 7) div 8)))"
proof -
  define tot where "tot = fold highest_step mpr 0 div PAGE_SIZE"
  define sz where "sz = tot * 8 + (tot + 7) div 8"
  define s1 where "s1 = \<lparr>pageframes = Some (map raw [0..<unat tot]), pm_total = tot,
     bitmap = replicate (unat ((tot + 7) div 8)) 0xFF, bitmap_size = (tot + 7) div 8,
     addr_highest = fold highest_step mpr 0\<rparr>"
  obtain addr where addr: "physmem_addr_get_tracking (Some mpr) (Some hpr) sz = Inr addr"
    by (simp add: physmem_addr_get_tracking_def)
  have tot: "unat tot < 2 ^ 52" unfolding tot_def by (rule total_bound)
  have s1: "pm_ok s1" "\<And>j. \<not> frame_free s1 j" "pm_total s1 = tot"
    unfolding s1_def using pm_ok_start [OF tot] by simp_all
  have "physmem_addr_mark_used (fold mark_entry mpr s1) addr (used_bytes_to_frame_count sz) = Inr s"
    using assms addr unfolding physmem_init_def Let_def tot_def [symmetric] sz_def [symmetric]
    by (auto simp: physmem_addr_mark_def s1_def split: if_splits sum.splits)
  moreover note fold_mark_entry [OF s1(1), of mpr] and mark_used_spec [of "fold mark_entry mpr s1" addr "used_bytes_to_frame_count sz"]
  ultimately have *: "pm_ok s" "pm_total s = tot"
      "\<forall>j. frame_free s j \<longleftrightarrow> j \<notin> frame_range (fold mark_entry mpr s1) addr (used_bytes_to_frame_count sz)
        \<and> fold (\<lambda>e b. if entry_covers tot e j then me_type e = MM_Usable else b) mpr False"
    using s1 by auto
  then show ?thesis
    using addr fold_mark_entry [OF s1(1), of mpr] s1(3)
    by (auto simp: last_usable_def frame_range_def tot_def [symmetric] sz_def)
qed

section \<open>Counting\<close>

lemma physmem_free_get_spec:
  assumes "pm_ok s"
  shows "unat (physmem_free_get s) = card {f. frame_free s f}"
proof -
  let ?step = "\<lambda>frame count. if bitmap_test (bitmap s) (word_of_nat frame) = 0 then count + 1 else count :: u64"
  have tot: "unat (pm_total s) < 2 ^ 52" using assms by (simp add: pm_ok_def pm_sized_def)
  have "unat (fold ?step [0..<n] 0) = card {f. f < n \<and> frame_free s f}
      \<and> card {f. f < n \<and> frame_free s f} \<le> n" if "n \<le> unat (pm_total s)" for n
    using that
  proof (induction n)
    case (Suc n)
    have fin: "finite {f. f < n \<and> frame_free s f}" by simp
    have n: "unat (word_of_nat n :: u64) = n" using Suc.prems tot by (simp add: unat_of_nat64)
    have eq: "{f. f < Suc n \<and> frame_free s f} =
        (if frame_free s n then insert n {f. f < n \<and> frame_free s f} else {f. f < n \<and> frame_free s f})"
      by (auto simp: less_Suc_eq)
    have test: "bitmap_test (bitmap s) (word_of_nat n) = 0 \<longleftrightarrow> frame_free s n"
      using bitmap_test_bit [of "bitmap s" "word_of_nat n"] n Suc.prems by (auto simp: frame_free_def)
    show ?case using Suc tot fin by (simp add: eq test unat_word_ariths)
  qed simp
  from this [of "unat (pm_total s)"] have "unat (physmem_free_get s) = card {f. f < unat (pm_total s) \<and> frame_free s f}"
    by (simp add: physmem_free_get_def)
  moreover have "{f. f < unat (pm_total s) \<and> frame_free s f} = {f. frame_free s f}"
    by (auto simp: frame_free_def)
  ultimately show ?thesis by simp
qed

section \<open>Properties\<close>

text \<open>
  C1. On a well-formed allocator, \<open>physmem_alloc_to\<close> never panics. It
  either returns the address of the lowest run of \<open>count\<close> free frames at or above frame 512, marks
  exactly that run used and keeps the allocator well-formed, or returns 0, leaves the state alone,
  and no such run exists.
\<close>

theorem physmem_alloc_first_fit:
  assumes "pm_ok s" "0 < count"
  shows "(\<exists>f s'. physmem_alloc_to s count = Inr (f * PAGE_SIZE, s') \<and> 512 \<le> unat f
           \<and> free_run s (unat f) (unat count)
           \<and> (\<forall>p. 512 \<le> p \<and> p < unat f \<longrightarrow> \<not> free_run s p (unat count))
           \<and> pm_ok s' \<and> pm_total s' = pm_total s
           \<and> (\<forall>j. frame_free s' j \<longleftrightarrow> \<not> (unat f \<le> j \<and> j < unat f + unat count) \<and> frame_free s j))
       \<or> (physmem_alloc_to s count = Inr (0, s) \<and> (\<forall>p. 512 \<le> p \<longrightarrow> \<not> free_run s p (unat count)))"
  using assms by (rule alloc_to_spec)

text \<open>A machine with 520 free frames, on which the hypotheses hold.\<close>

definition pm_520 :: physmem where
  "pm_520 = \<lparr>pageframes = Some (replicate 520 \<lparr>pf_rc = 0, pf_flags = FRAME_FREE\<rparr>), pm_total = 520,
     bitmap = replicate 65 0, bitmap_size = 65, addr_highest = 520 * 4096\<rparr>"

lemma pm_520_ok: "pm_ok pm_520"
  by (auto simp: pm_ok_def pm_sized_def pm_520_def frame_free_def)

theorem physmem_alloc_first_fit_witness:
  "(\<exists>f s'. physmem_alloc_to pm_520 2 = Inr (f * PAGE_SIZE, s') \<and> 512 \<le> unat f
      \<and> free_run pm_520 (unat f) 2 \<and> pm_ok s')
   \<or> physmem_alloc_to pm_520 2 = Inr (0, pm_520)"
  using physmem_alloc_first_fit [OF pm_520_ok, of 2] by fastforce

text \<open>
  C2. Freeing the frames of a successful allocation, with the same address
  and count, succeeds and makes the set of free frames what it was before the allocation.
\<close>

theorem physmem_free_restores:
  assumes "pm_ok s" "physmem_alloc_to s n = Inr (a, s')" "a \<noteq> 0"
  shows "\<exists>s''. physmem_free_to s' a n = Inr s'' \<and> pm_ok s'' \<and> frame_free s'' = frame_free s"
  using assms by (rule pm.release_alloc)

lemma pm_520_alloc:
  "\<exists>s'. physmem_alloc_to pm_520 1 = Inr (0x200000, s')"
  by (simp add: physmem_alloc_to_def pm_520_def alloc_scan.simps bitmap_test_def
      physmem_addr_mark_used_def PAGE_SIZE_def Let_def)

theorem physmem_free_restores_witness:
  "\<exists>s' s''. physmem_alloc_to pm_520 1 = Inr (0x200000, s')
     \<and> physmem_free_to s' 0x200000 1 = Inr s'' \<and> pm_ok s'' \<and> frame_free s'' = frame_free pm_520"
proof -
  obtain s' where s': "physmem_alloc_to pm_520 1 = Inr (0x200000, s')" using pm_520_alloc by blast
  show ?thesis using s' physmem_free_restores [OF pm_520_ok s'] by simp
qed

text \<open>
  When \<open>physmem_init\<close> returns, the allocator is well-formed and a
  frame is free exactly when the last memory map entry that covers it is usable and it is not in the
  area taken for the frame array and the bitmap; frames that no entry covers are never handed out.
\<close>

lemma physmem_init_free_frames:
  assumes "physmem_init mpr hpr raw = Inr s"
  shows "\<exists>addr. pm_ok s \<and> pm_total s = fold highest_step mpr 0 div PAGE_SIZE
    \<and> physmem_addr_get_tracking (Some mpr) (Some hpr) (pm_total s * 8 + (pm_total s + 7) div 8) = Inr addr
    \<and> (\<forall>j. frame_free s j \<longleftrightarrow> last_usable (pm_total s) mpr j \<and>
         j \<notin> frame_range s addr (used_bytes_to_frame_count (pm_total s * 8 + (pm_total s + 7) div 8)))"
  using assms by (rule physmem_init_spec)

lemma physmem_init_free_frames_witness:
  "\<exists>s. physmem_init [\<lparr>me_base = 0x100000, me_length = 0x2000, me_type = MM_Usable\<rparr>] 0xFFFF800000000000
        (\<lambda>_. \<lparr>pf_rc = 7, pf_flags = 7\<rparr>) = Inr s \<and> pm_ok s"
proof -
  let ?m = "[\<lparr>me_base = 0x100000, me_length = 0x2000, me_type = MM_Usable\<rparr>]"
  obtain s where s: "physmem_init ?m 0xFFFF800000000000 (\<lambda>_. \<lparr>pf_rc = 7, pf_flags = 7\<rparr>) = Inr s"
    by (simp add: physmem_init_def physmem_addr_get_tracking_def highest_step_def PAGE_SIZE_def Let_def
        physmem_addr_mark_def physmem_addr_mark_used_def mark_entry_def frame_mark_free_def fold_map)
  show ?thesis using s physmem_init_free_frames [OF s] by blast
qed

text \<open>
  \<open>physmem_free_get\<close> returns the number of free frames.
\<close>

lemma physmem_free_get_counts:
  assumes "pm_ok s"
  shows "unat (physmem_free_get s) = card {f. frame_free s f}"
  using assms by (rule physmem_free_get_spec)

lemma physmem_free_get_counts_witness:
  "unat (physmem_free_get pm_520) = card {f. frame_free pm_520 f}"
  using physmem_free_get_counts [OF pm_520_ok] .

end
