(* ===== verification/Heap.thy ===== *)
theory Heap
  imports Prelude
begin

text \<open>
  The block allocator of \<^verbatim>\<open>emex/kernel/mem/heap/heap.c\<close>: a doubly linked list of headers that tile
  the heap. The store maps the address of a header to its fields; address 0 is NULL. Reading a
  header that the store does not have is an invalid access, and a loop over a cyclic list does not
  return: both are \<open>None\<close>.
\<close>

section \<open>Headers and the store\<close>

record heap_block =
  hb_magic :: u32
  hb_size :: u64
  hb_next :: u64
  hb_prev :: u64
  hb_used :: u8

type_synonym hstore = "u64 \<rightharpoonup> heap_block"

definition BLOCK_MAGIC :: u32 where "BLOCK_MAGIC = 0xDEADBEEF"
definition SIZE_MAX :: u64 where "SIZE_MAX = 0xFFFFFFFFFFFFFFFF"

text \<open>\<^verbatim>\<open>sizeof(heap_block_t)\<close>: five fields, each padded to eight bytes.\<close>

definition HDR :: u64 where "HDR = 40"

section \<open>Merging\<close>

partial_function (option) merge_forward :: "hstore \<Rightarrow> u64 \<Rightarrow> nat \<Rightarrow> (hstore \<times> nat) option" where
  "merge_forward st current ret =
    (case st current of None \<Rightarrow> None | Some c \<Rightarrow>
     if hb_next c = 0 then Some (st, ret)
     else case st (hb_next c) of None \<Rightarrow> None | Some n \<Rightarrow>
       if hb_used n = 0 \<and> hb_magic n = BLOCK_MAGIC then
         let st1 = st(current \<mapsto> c\<lparr>hb_size := hb_size c + (HDR + hb_size n), hb_next := hb_next n\<rparr>)
         in if hb_next n = 0 then merge_forward st1 current (ret + 1)
            else (case st1 (hb_next n) of None \<Rightarrow> None | Some m \<Rightarrow>
              if hb_magic m = BLOCK_MAGIC
              then merge_forward (st1(hb_next n \<mapsto> m\<lparr>hb_prev := current\<rparr>)) current (ret + 1)
              else merge_forward st1 current (ret + 1))
       else Some (st, ret))"

partial_function (option) merge_backward :: "hstore \<Rightarrow> u64 \<Rightarrow> nat \<Rightarrow> (hstore \<times> nat) option" where
  "merge_backward st current ret =
    (case st current of None \<Rightarrow> None | Some c \<Rightarrow>
     if hb_prev c = 0 then Some (st, ret)
     else case st (hb_prev c) of None \<Rightarrow> None | Some p \<Rightarrow>
       if hb_used p = 0 \<and> hb_magic p = BLOCK_MAGIC then
         let prev = hb_prev c;
             st1 = st(prev \<mapsto> p\<lparr>hb_size := hb_size p + (HDR + hb_size c), hb_next := hb_next c\<rparr>)
         in if hb_next c = 0 then merge_backward st1 prev (ret + 1)
            else (case st1 (hb_next c) of None \<Rightarrow> None | Some m \<Rightarrow>
              if hb_magic m = BLOCK_MAGIC
              then merge_backward (st1(hb_next c \<mapsto> m\<lparr>hb_prev := prev\<rparr>)) prev (ret + 1)
              else merge_backward st1 prev (ret + 1))
       else Some (st, ret))"

definition heap_merge_free_blocks :: "hstore \<Rightarrow> u64 \<Rightarrow> (hstore \<times> nat) option" where
  "heap_merge_free_blocks st block =
    (case st block of None \<Rightarrow> None | Some b \<Rightarrow>
     if hb_magic b \<noteq> BLOCK_MAGIC then Some (st, 0)
     else case merge_forward st block 0 of None \<Rightarrow> None
        | Some (st1, ret) \<Rightarrow> merge_backward st1 block ret)"

section \<open>Allocation\<close>

partial_function (option) best_fit_loop :: "hstore \<Rightarrow> u64 \<Rightarrow> u64 \<Rightarrow> u64 \<Rightarrow> u64 \<Rightarrow> u64 option" where
  "best_fit_loop st sz current best_fit best_size =
    (if current = 0 then Some best_fit
     else case st current of None \<Rightarrow> None | Some c \<Rightarrow>
       if hb_used c = 0 \<and> hb_size c \<ge> sz \<and> hb_size c < best_size then
         if hb_size c = sz then Some current
         else best_fit_loop st sz (hb_next c) current (hb_size c)
       else best_fit_loop st sz (hb_next c) best_fit best_size)"

definition round16 :: "u64 \<Rightarrow> u64" where
  "round16 sz = (sz + 15) AND NOT 15"

text \<open>Cutting the chosen block in two when the rest can hold a header and 16 bytes.\<close>

definition split_block :: "hstore \<Rightarrow> u64 \<Rightarrow> heap_block \<Rightarrow> u64 \<Rightarrow> hstore option" where
  "split_block st best b sz =
    (if hb_size b \<ge> sz + HDR + 16 then
       let new = best + HDR + sz;
           st1 = st(new \<mapsto> \<lparr>hb_magic = BLOCK_MAGIC, hb_size = hb_size b - sz - HDR,
                             hb_next = hb_next b, hb_prev = best, hb_used = 0\<rparr>)
       in case (if hb_next b = 0 then Some st1
                else case st1 (hb_next b) of None \<Rightarrow> None
                   | Some m \<Rightarrow> Some (st1(hb_next b \<mapsto> m\<lparr>hb_prev := new\<rparr>))) of
            None \<Rightarrow> None
          | Some st2 \<Rightarrow> (case st2 best of None \<Rightarrow> None
             | Some b2 \<Rightarrow> Some (st2(best \<mapsto> b2\<lparr>hb_size := sz, hb_next := new\<rparr>)))
     else Some st)"

definition malloc :: "hstore \<Rightarrow> u64 \<Rightarrow> u64 \<Rightarrow> (u64 \<times> hstore) option" where
  "malloc st heap size0 =
    (if heap = 0 \<or> size0 = 0 then Some (0, st)
     else let sz = round16 size0 in
       case best_fit_loop st sz heap 0 SIZE_MAX of None \<Rightarrow> None | Some best \<Rightarrow>
       if best = 0 then Some (0, st)
       else case st best of None \<Rightarrow> None | Some b \<Rightarrow>
         (case split_block st best b sz of None \<Rightarrow> None
          | Some st1 \<Rightarrow> (case st1 best of None \<Rightarrow> None
             | Some b1 \<Rightarrow> Some (best + HDR, st1(best \<mapsto> b1\<lparr>hb_used := 1\<rparr>)))))"

definition free :: "hstore \<Rightarrow> u64 \<Rightarrow> (nat \<times> hstore) option" where
  "free st ptr =
    (if ptr = 0 then Some (0, st)
     else let blk = ptr - HDR in
       case st blk of None \<Rightarrow> None | Some b \<Rightarrow>
       if hb_magic b \<noteq> BLOCK_MAGIC then Some (0, st)
       else if hb_used b = 0 then Some (0, st)
       else if hb_size b > push_bit 40 1 then Some (0, st)
       else case heap_merge_free_blocks (st(blk \<mapsto> b\<lparr>hb_used := 0\<rparr>)) blk of None \<Rightarrow> None
          | Some (st', merged) \<Rightarrow> Some (merged, st'))"

section \<open>The heap as a list of blocks\<close>

text \<open>A block is its header address, the size of its payload and whether it is in use.\<close>

type_synonym ablock = "u64 \<times> u64 \<times> bool"

fun head_addr :: "ablock list \<Rightarrow> u64 \<Rightarrow> u64" where
  "head_addr [] q = q"
| "head_addr ((a, _) # _) q = a"

fun last_addr :: "u64 \<Rightarrow> ablock list \<Rightarrow> u64" where
  "last_addr p [] = p"
| "last_addr p ((a, _) # bs) = last_addr a bs"

fun dll :: "hstore \<Rightarrow> u64 \<Rightarrow> ablock list \<Rightarrow> u64 \<Rightarrow> bool" where
  "dll st p [] q = True"
| "dll st p ((a, n, u) # bs) q \<longleftrightarrow>
     st a = Some \<lparr>hb_magic = BLOCK_MAGIC, hb_size = n, hb_next = head_addr bs q, hb_prev = p,
                 hb_used = (if u then 1 else 0)\<rparr> \<and> dll st a bs q"

text \<open>The blocks tile the addresses from \<open>lo\<close> to \<open>hi\<close>: each starts where the one before ends.\<close>

fun tiled :: "nat \<Rightarrow> ablock list \<Rightarrow> nat \<Rightarrow> bool" where
  "tiled lo [] hi \<longleftrightarrow> lo = hi"
| "tiled lo ((a, n, u) # bs) hi \<longleftrightarrow> unat a = lo \<and> tiled (lo + 40 + unat n) bs hi"

definition heap_ok :: "hstore \<Rightarrow> ablock list \<Rightarrow> nat \<Rightarrow> nat \<Rightarrow> bool" where
  "heap_ok st bs lo hi \<longleftrightarrow> dll st 0 bs 0 \<and> tiled lo bs hi \<and> bs \<noteq> [] \<and> 0 < lo \<and> hi < 2 ^ 64
     \<and> hi < lo + 2 ^ 40"

lemma head_addr_append [simp]: "head_addr (xs @ ys) q = head_addr xs (head_addr ys q)"
  by (cases xs) auto

lemma last_addr_append [simp]: "last_addr p (xs @ ys) = last_addr (last_addr p xs) ys"
  by (induction xs arbitrary: p) auto

lemma dll_append [simp]:
  "dll st p (xs @ ys) q \<longleftrightarrow> dll st p xs (head_addr ys q) \<and> dll st (last_addr p xs) ys q"
  by (induction xs arbitrary: p) auto

lemma dll_upd [simp]: "a \<notin> fst ` set bs \<Longrightarrow> dll (st(a := v)) p bs q \<longleftrightarrow> dll st p bs q"
  by (induction bs arbitrary: p) auto

lemma tiled_append [simp]: "tiled lo (xs @ ys) hi \<longleftrightarrow> (\<exists>m. tiled lo xs m \<and> tiled m ys hi)"
  by (induction xs arbitrary: lo) auto

lemma tiled_le: "tiled lo bs hi \<Longrightarrow> lo \<le> hi"
  by (induction bs arbitrary: lo) force+

lemma tiled_addr: "tiled lo bs hi \<Longrightarrow> (a, n, u) \<in> set bs \<Longrightarrow> lo \<le> unat a \<and> unat a + 40 + unat n \<le> hi"
  by (induction bs arbitrary: lo) (fastforce dest: tiled_le)+

lemma tiled_distinct: "tiled lo bs hi \<Longrightarrow> distinct (map fst bs)"
proof (induction bs arbitrary: lo)
  case (Cons b bs)
  obtain a n u where b: "b = (a, n, u)" by (cases b)
  with Cons have t: "tiled (unat a + 40 + unat n) bs hi" "unat a = lo" by auto
  have "a \<notin> fst ` set bs" using tiled_addr [OF t(1)] by force
  then show ?case using Cons.IH [OF t(1)] b by auto
qed simp


section \<open>The search is best fit\<close>

text \<open>The loop of \<open>malloc\<close> on the list of blocks.\<close>

fun best_fit :: "u64 \<Rightarrow> ablock list \<Rightarrow> u64 \<Rightarrow> u64 \<Rightarrow> u64" where
  "best_fit sz [] best best_size = best"
| "best_fit sz ((a, n, u) # bs) best best_size =
    (if \<not> u \<and> n \<ge> sz \<and> n < best_size then
       if n = sz then a else best_fit sz bs a n
     else best_fit sz bs best best_size)"

lemma unat_round16:
  "unat (round16 n) = (if unat n \<le> 2 ^ 64 - 16 then 16 * ((unat n + 15) div 16) else 0)"
proof -
  have e: "x AND NOT 15 = x - x mod 16" for x :: u64
  proof -
    have "x AND 15 = x mod 16"
      using take_bit_eq_mod [of 4 x] take_bit_eq_mask [of 4 x] by (simp add: mask_eq_exp_minus_1)
    then show ?thesis by (simp only: and_not_eq_minus)
  qed
  have m: "unat (x mod 16) = unat x mod 16" for x :: u64 by (simp add: unat_mod)
  have "unat (round16 n) = unat (n + 15) - unat (n + 15) mod 16"
    unfolding round16_def e by (subst unat_sub) (auto simp: word_le_nat_alt m)
  then have *: "unat (round16 n) = 16 * ((unat n + 15) mod 2 ^ 64 div 16)"
    by (simp add: unat_word_ariths minus_mod_eq_mult_div)
  show ?thesis
  proof (cases "unat n \<le> 2 ^ 64 - 16")
    case False
    have "(unat n + 15) mod 2 ^ 64 = unat n + 15 - 2 ^ 64"
      using False unat_lt_2p64 [of n] by (subst mod_if) (simp del: unat_lt_2p64)
    moreover have "(unat n + 15 - 2 ^ 64) div 16 = 0"
      using unat_lt_2p64 [of n] by (simp del: unat_lt_2p64)
    ultimately show ?thesis using * False by simp
  qed (use * in simp)
qed

lemma best_fit_loop_eq:
  assumes "dll st p bs 0" "0 \<notin> fst ` set bs"
  shows "best_fit_loop st sz (head_addr bs 0) best best_size = Some (best_fit sz bs best best_size)"
  using assms
proof (induction bs arbitrary: p best best_size)
  case Nil
  then show ?case by (simp add: best_fit_loop.simps)
next
  case (Cons b bs)
  obtain a n u where b: "b = (a, n, u)" by (cases b)
  with Cons.prems have "a \<noteq> 0" "dll st a bs 0" "0 \<notin> fst ` set bs" by auto
  with Cons b show ?case by (subst best_fit_loop.simps) auto
qed

text \<open>
  The block that the search picks is free and large enough, no other free block that is large
  enough is smaller, and no earlier one is as small.
\<close>

definition fits :: "u64 \<Rightarrow> ablock \<Rightarrow> bool" where
  "fits sz b \<longleftrightarrow> (case b of (a, n, u) \<Rightarrow> \<not> u \<and> sz \<le> n)"

definition best_split :: "u64 \<Rightarrow> ablock list \<Rightarrow> ablock list \<Rightarrow> ablock \<Rightarrow> ablock list \<Rightarrow> bool" where
  "best_split sz bs xs b ys \<longleftrightarrow> bs = xs @ b # ys \<and> fits sz b
     \<and> (\<forall>c\<in>set xs. fits sz c \<longrightarrow> fst (snd b) < fst (snd c))
     \<and> (\<forall>c\<in>set ys. fits sz c \<longrightarrow> fst (snd b) \<le> fst (snd c))"

lemma best_fit_spec:
  "(best_fit sz bs best m = best \<and> (\<forall>c\<in>set bs. fits sz c \<longrightarrow> m \<le> fst (snd c)))
   \<or> (\<exists>xs n ys. best_split sz bs xs (best_fit sz bs best m, n, False) ys \<and> n < m)"
proof (induction bs arbitrary: best m)
  case Nil
  then show ?case by simp
next
  case (Cons b bs)
  obtain a n u where b: "b = (a, n, u)" by (cases b)
  show ?case
  proof (cases "\<not> u \<and> n \<ge> sz \<and> n < m")
    case better: True
    show ?thesis
    proof (cases "n = sz")
      case True
      have "best_split sz (b # bs) [] (a, n, False) bs"
        using True better b by (auto simp: best_split_def fits_def)
      then show ?thesis using True better b by (auto simp: fits_def)
    next
      case False
      from Cons.IH [of a n] show ?thesis
      proof
        assume *: "best_fit sz bs a n = a \<and> (\<forall>c\<in>set bs. fits sz c \<longrightarrow> n \<le> fst (snd c))"
        then have "best_split sz (b # bs) [] (a, n, False) bs"
          using better b by (auto simp: best_split_def fits_def)
        then show ?thesis using * False better b by auto
      next
        assume "\<exists>xs n' ys. best_split sz bs xs (best_fit sz bs a n, n', False) ys \<and> n' < n"
        then obtain xs n' ys where *: "best_split sz bs xs (best_fit sz bs a n, n', False) ys" "n' < n" by blast
        then have "best_split sz (b # bs) (b # xs) (best_fit sz bs a n, n', False) ys"
          using better b by (auto simp: best_split_def)
        moreover have "best_fit sz (b # bs) best m = best_fit sz bs a n" using better False b by simp
        ultimately show ?thesis using *(2) better by (metis order.strict_trans)
      qed
    qed
  next
    case False
    from Cons.IH [of best m] show ?thesis
    proof
      assume "best_fit sz bs best m = best \<and> (\<forall>c\<in>set bs. fits sz c \<longrightarrow> m \<le> fst (snd c))"
      then show ?thesis using False b by (auto simp: fits_def)
    next
      assume "\<exists>xs n' ys. best_split sz bs xs (best_fit sz bs best m, n', False) ys \<and> n' < m"
      then obtain xs n' ys where *: "best_split sz bs xs (best_fit sz bs best m, n', False) ys" "n' < m" by blast
      then have "best_split sz (b # bs) (b # xs) (best_fit sz bs best m, n', False) ys"
        using False b by (auto simp: best_split_def fits_def)
      moreover have "best_fit sz (b # bs) best m = best_fit sz bs best m" using False b by auto
      ultimately show ?thesis using *(2) by metis
    qed
  qed
qed


section \<open>Allocation refines carving a block\<close>

text \<open>The chosen block after the call: cut in two, or used whole.\<close>

definition carve :: "u64 \<Rightarrow> u64 \<Rightarrow> u64 \<Rightarrow> ablock list" where
  "carve sz a n = (if sz + HDR + 16 \<le> n then [(a, sz, True), (a + HDR + sz, n - sz - HDR, False)]
                   else [(a, n, True)])"

lemma heap_ok_mem:
  assumes "heap_ok st bs lo hi" "(a, n, u) \<in> set bs"
  shows "a \<noteq> 0" "lo \<le> unat a" "unat a + 40 + unat n \<le> hi" "unat n < 2 ^ 40" "unat a + 40 + unat n < 2 ^ 64"
proof -
  have *: "lo \<le> unat a \<and> unat a + 40 + unat n \<le> hi"
    using assms tiled_addr unfolding heap_ok_def by blast
  then show "lo \<le> unat a" "unat a + 40 + unat n \<le> hi" by auto
  show "a \<noteq> 0" using * assms(1) by (auto simp: heap_ok_def)
  show "unat n < 2 ^ 40" "unat a + 40 + unat n < 2 ^ 64" using * assms(1) by (auto simp: heap_ok_def)
qed

lemma heap_ok_head: "heap_ok st bs lo hi \<Longrightarrow> head_addr bs 0 \<noteq> 0"
  using heap_ok_mem(1) by (cases bs) (fastforce simp: heap_ok_def)+

lemma unat_split_addr:
  assumes "unat a + 40 + unat n < 2 ^ 64" "unat sz + 56 \<le> unat n"
  shows "unat (a + HDR + sz) = unat a + 40 + unat sz" "unat (n - sz - HDR) = unat n - unat sz - 40"
proof -
  show "unat (a + HDR + sz) = unat a + 40 + unat sz"
    using assms by (simp add: HDR_def unat_word_ariths)
  have "unat (n - sz) = unat n - unat sz" using assms(2) by (simp add: unat_sub_if')
  then show "unat (n - sz - HDR) = unat n - unat sz - 40"
    using assms(2) by (simp add: unat_sub_if' HDR_def)
qed

lemma carve_cond:
  assumes "unat n < 2 ^ 40" "sz \<le> n"
  shows "sz + HDR + 16 \<le> n \<longleftrightarrow> unat sz + 56 \<le> unat n"
proof -
  have "unat (sz + HDR + 16) = unat sz + 56"
    using assms by (simp add: HDR_def unat_word_ariths word_le_nat_alt)
  then show ?thesis by (simp add: word_le_nat_alt)
qed

lemma tiled_carve:
  assumes "tiled lo (xs @ (a, n, u) # ys) hi" "unat a + 40 + unat n < 2 ^ 64" "unat n < 2 ^ 40" "sz \<le> n"
  shows "tiled lo (xs @ carve sz a n @ ys) hi"
proof (cases "sz + HDR + 16 \<le> n")
  case True
  then have c: "unat sz + 56 \<le> unat n" using carve_cond assms(3,4) by blast
  show ?thesis using assms(1) unat_split_addr [OF assms(2) c] True c by (auto simp: carve_def ac_simps)
next
  case False
  then show ?thesis using assms(1) by (auto simp: carve_def)
qed

lemma dll_relink:
  assumes "dll st p ((c, m, v) # ys) q" "c \<notin> fst ` set ys" "st c = Some b"
  shows "dll (st(c \<mapsto> b\<lparr>hb_prev := p'\<rparr>)) p' ((c, m, v) # ys) q"
  using assms by auto

lemma dll_split:
  assumes d: "dll st 0 (xs @ (a, n, False) # ys) 0" and dist: "distinct (map fst (xs @ (a, n, False) # ys))"
    and new: "a + HDR + sz \<notin> fst ` set (xs @ (a, n, False) # ys)" and nz: "0 \<notin> fst ` set ys"
    and c: "sz + HDR + 16 \<le> n"
  shows "\<exists>b st1 b1. st a = Some b \<and> split_block st a b sz = Some st1 \<and> st1 a = Some b1
    \<and> dll (st1(a \<mapsto> b1\<lparr>hb_used := 1\<rparr>)) 0 (xs @ [(a, sz, True), (a + HDR + sz, n - sz - HDR, False)] @ ys) 0"
proof (cases ys)
  case Nil
  then show ?thesis using assms by (auto simp: split_block_def Let_def image_Un)
next
  case (Cons y ys')
  obtain e m v where y: "y = (e, m, v)" by (cases y)
  have "e \<noteq> 0" using nz Cons y by auto
  then show ?thesis using assms Cons y by (auto simp: split_block_def Let_def image_Un)
qed

lemma malloc_spec:
  assumes ok: "heap_ok st bs lo hi" and "size0 \<noteq> 0"
  defines "sz \<equiv> round16 size0"
  shows "(\<exists>xs a n ys st'. best_split sz bs xs (a, n, False) ys
           \<and> malloc st (head_addr bs 0) size0 = Some (a + HDR, st')
           \<and> heap_ok st' (xs @ carve sz a n @ ys) lo hi)
       \<or> (malloc st (head_addr bs 0) size0 = Some (0, st) \<and> (\<forall>b\<in>set bs. \<not> fits sz b))"
proof -
  let ?best = "best_fit sz bs 0 SIZE_MAX"
  have nz: "0 \<notin> fst ` set bs" using heap_ok_mem(1) [OF ok] by force
  have search: "best_fit_loop st sz (head_addr bs 0) 0 SIZE_MAX = Some ?best"
    using ok nz by (intro best_fit_loop_eq) (auto simp: heap_ok_def)
  from best_fit_spec [of sz bs 0 SIZE_MAX] show ?thesis
  proof
    assume *: "?best = 0 \<and> (\<forall>c\<in>set bs. fits sz c \<longrightarrow> SIZE_MAX \<le> fst (snd c))"
    have "\<not> fits sz c" if "c \<in> set bs" for c
    proof
      assume "fits sz c"
      obtain a n u where c: "c = (a, n, u)" by (cases c)
      have "unat n < 2 ^ 40" using heap_ok_mem(4) [OF ok] that c by blast
      moreover have "SIZE_MAX \<le> n" using * that \<open>fits sz c\<close> c by auto
      ultimately show False by (simp add: SIZE_MAX_def word_le_nat_alt)
    qed
    then show ?thesis
      using * search assms(2) heap_ok_head [OF ok] by (simp add: malloc_def sz_def [symmetric])
  next
    assume "\<exists>xs n ys. best_split sz bs xs (?best, n, False) ys \<and> n < SIZE_MAX"
    then obtain xs n ys where bsp: "best_split sz bs xs (?best, n, False) ys" by blast
    define a where "a = ?best"
    have bs: "bs = xs @ (a, n, False) # ys" and le: "sz \<le> n"
      using bsp by (auto simp: best_split_def fits_def a_def)
    have mem: "(a, n, False) \<in> set bs" by (simp add: bs)
    note a = heap_ok_mem [OF ok mem]
    have t: "tiled lo bs hi" and d: "dll st 0 bs 0" using ok by (auto simp: heap_ok_def)
    have dist: "distinct (map fst bs)" using tiled_distinct [OF t] .
    obtain b st1 b1 where st1: "st a = Some b" "split_block st a b sz = Some st1" "st1 a = Some b1"
        "dll (st1(a \<mapsto> b1\<lparr>hb_used := 1\<rparr>)) 0 (xs @ carve sz a n @ ys) 0"
    proof (cases "sz + HDR + 16 \<le> n")
      case True
      then have c: "unat sz + 56 \<le> unat n" using carve_cond a(4) le by blast
      have new: "a + HDR + sz \<notin> fst ` set bs"
      proof
        assume "a + HDR + sz \<in> fst ` set bs"
        then obtain m v where "(a + HDR + sz, m, v) \<in> set xs \<or> (a + HDR + sz, m, v) \<in> set ys \<or> a + HDR + sz = a"
          by (force simp: bs)
        moreover obtain k where "tiled lo xs k" "tiled (k + 40 + unat n) ys hi" "unat a = k" using t by (auto simp: bs)
        ultimately show False
          using unat_split_addr(1) [OF a(5) c] tiled_addr c by fastforce
      qed
      have "\<exists>b st1 b1. st a = Some b \<and> split_block st a b sz = Some st1 \<and> st1 a = Some b1
          \<and> dll (st1(a \<mapsto> b1\<lparr>hb_used := 1\<rparr>)) 0 (xs @ [(a, sz, True), (a + HDR + sz, n - sz - HDR, False)] @ ys) 0"
        by (rule dll_split) (use d dist new nz True in \<open>auto simp: bs\<close>)
      then show ?thesis using that True unfolding carve_def if_P [OF True] by blast
    next
      case False
      obtain b where b: "st a = Some b" using d by (auto simp: bs)
      show ?thesis
        by (rule that [of b st b]) (use d dist False b in \<open>auto simp: bs carve_def split_block_def\<close>)
    qed
    have "malloc st (head_addr bs 0) size0 = Some (a + HDR, st1(a \<mapsto> b1\<lparr>hb_used := 1\<rparr>))"
      using search st1(1-3) a(1) assms(2) heap_ok_head [OF ok]
      by (simp add: malloc_def sz_def [symmetric] a_def [symmetric])
    moreover have "heap_ok (st1(a \<mapsto> b1\<lparr>hb_used := 1\<rparr>)) (xs @ carve sz a n @ ys) lo hi"
      using st1(4) ok tiled_carve [OF t [unfolded bs] a(5,4) le]
      by (auto simp: heap_ok_def carve_def)
    ultimately show ?thesis using bsp unfolding a_def [symmetric] by blast
  qed
qed


section \<open>Freeing refines merging with the free neighbours\<close>

definition blk_free :: "ablock \<Rightarrow> bool" where
  "blk_free b \<longleftrightarrow> \<not> snd (snd b)"

lemma blk_free_simp [simp]: "blk_free (a, n, u) \<longleftrightarrow> \<not> u"
  by (simp add: blk_free_def)

fun absorb_next :: "u64 \<Rightarrow> ablock list \<Rightarrow> u64" where
  "absorb_next n [] = n"
| "absorb_next n ((_, m, _) # bs) = absorb_next (n + (HDR + m)) bs"

fun absorb_prev :: "u64 \<Rightarrow> u64 \<Rightarrow> ablock list \<Rightarrow> u64 \<times> u64" where
  "absorb_prev a n [] = (a, n)"
| "absorb_prev a n ((p, m, _) # ps) = absorb_prev p (m + (HDR + n)) ps"

text \<open>Block \<open>a\<close>, between \<open>xs\<close> and \<open>ys\<close>, becomes free and takes in every free block next to it.\<close>

definition merged :: "ablock list \<Rightarrow> u64 \<Rightarrow> u64 \<Rightarrow> ablock list \<Rightarrow> ablock list" where
  "merged xs a n ys =
    (case absorb_prev a (absorb_next n (takeWhile blk_free ys)) (takeWhile blk_free (rev xs)) of
       (b, k) \<Rightarrow> rev (dropWhile blk_free (rev xs)) @ (b, k, False) # dropWhile blk_free ys)"

lemma merge_forward_spec:
  assumes "dll st 0 (xs @ (a, n, False) # ys) 0" "distinct (map fst (xs @ (a, n, False) # ys))"
    and "0 \<notin> fst ` set ys"
  shows "\<exists>st'. merge_forward st a r = Some (st', r + length (takeWhile blk_free ys))
    \<and> dll st' 0 (xs @ (a, absorb_next n (takeWhile blk_free ys), False) # dropWhile blk_free ys) 0"
  using assms
proof (induction ys arbitrary: st n r)
  case Nil
  then show ?case by (subst merge_forward.simps) auto
next
  case (Cons y ys)
  obtain c m u where y: "y = (c, m, u)" by (cases y)
  have c0: "c \<noteq> 0" using Cons.prems(3) y by auto
  show ?case
  proof (cases u)
    case True
    then show ?thesis using Cons.prems c0 y by (subst merge_forward.simps) auto
  next
    case False
    let ?n = "n + (HDR + m)"
    have "\<exists>st2. merge_forward st a r = merge_forward st2 a (r + 1)
        \<and> dll st2 0 (xs @ (a, ?n, False) # ys) 0"
    proof (cases ys)
      case Nil
      then show ?thesis
        using Cons.prems c0 y False
        by (subst merge_forward.simps) (auto simp: Let_def intro!: exI)
    next
      case (Cons z zs)
      obtain e k v where z: "z = (e, k, v)" by (cases z)
      then have "e \<noteq> 0" using Cons.prems(3) Cons by auto
      then show ?thesis
        using Cons.prems c0 y z Cons False
        by (subst merge_forward.simps) (auto simp: Let_def image_Un intro!: exI)
    qed
    then obtain st2 where st2: "merge_forward st a r = merge_forward st2 a (r + 1)"
        "dll st2 0 (xs @ (a, ?n, False) # ys) 0" by blast
    have dist2: "distinct (map fst (xs @ (a, ?n, False) # ys))" "0 \<notin> fst ` set ys"
      using Cons.prems(2,3) y by auto
    from Cons.IH [OF st2(2) dist2, of "r + 1"] show ?thesis
      using st2(1) y False by auto
  qed
qed

lemma merge_backward_spec:
  assumes "dll st 0 (xs @ (a, n, False) # ys) 0" "distinct (map fst (xs @ (a, n, False) # ys))"
    and "0 \<notin> fst ` set (xs @ (a, n, False) # ys)"
  shows "\<exists>st'. merge_backward st a r = Some (st', r + length (takeWhile blk_free (rev xs)))
    \<and> dll st' 0 (case absorb_prev a n (takeWhile blk_free (rev xs)) of
         (b, k) \<Rightarrow> rev (dropWhile blk_free (rev xs)) @ (b, k, False) # ys) 0"
  using assms
proof (induction xs arbitrary: st a n r rule: rev_induct)
  case Nil
  then show ?case by (subst merge_backward.simps) auto
next
  case (snoc x xs)
  obtain p m u where x: "x = (p, m, u)" by (cases x)
  have p0: "p \<noteq> 0" using snoc.prems(3) x by auto
  show ?case
  proof (cases u)
    case True
    then show ?thesis using snoc.prems p0 x by (subst merge_backward.simps) auto
  next
    case False
    let ?n = "m + (HDR + n)"
    have "\<exists>st2. merge_backward st a r = merge_backward st2 p (r + 1)
        \<and> dll st2 0 (xs @ (p, ?n, False) # ys) 0"
    proof (cases ys)
      case Nil
      then show ?thesis
        using snoc.prems p0 x False
        by (subst merge_backward.simps) (auto simp: Let_def intro!: exI)
    next
      case (Cons z zs)
      obtain e k v where z: "z = (e, k, v)" by (cases z)
      then have "e \<noteq> 0" using snoc.prems(3) Cons by auto
      then show ?thesis
        using snoc.prems p0 x z Cons False
        by (subst merge_backward.simps) (auto simp: Let_def image_Un intro!: exI)
    qed
    then obtain st2 where st2: "merge_backward st a r = merge_backward st2 p (r + 1)"
        "dll st2 0 (xs @ (p, ?n, False) # ys) 0" by blast
    have "distinct (map fst (xs @ (p, ?n, False) # ys))" "0 \<notin> fst ` set (xs @ (p, ?n, False) # ys)"
      using snoc.prems(2,3) x by (auto simp: image_Un)
    from snoc.IH [OF st2(2) this, of "r + 1"] show ?thesis
      using st2(1) x False by auto
  qed
qed


lemma unat_absorb:
  assumes "unat n + 40 + unat m < 2 ^ 64"
  shows "unat (n + (HDR + m)) = unat n + 40 + unat m"
  using assms by (simp add: HDR_def unat_word_ariths)

lemma tiled_absorb_next:
  assumes "tiled lo ((a, n, u) # ys) hi" "hi < 2 ^ 64"
  shows "tiled lo ((a, absorb_next n (takeWhile f ys), u') # dropWhile f ys) hi"
  using assms
proof (induction ys arbitrary: n)
  case (Cons y ys)
  obtain c m v where y: "y = (c, m, v)" by (cases y)
  show ?case
  proof (cases "f y")
    case True
    have "lo + 40 + unat n + 40 + unat m \<le> hi" using Cons.prems(1) y by (auto dest: tiled_le)
    then have e: "unat (n + (HDR + m)) = unat n + 40 + unat m" using assms(2) by (intro unat_absorb) simp
    have "tiled lo ((a, n + (HDR + m), u) # ys) hi"
      using Cons.prems(1) y e by (simp add: ac_simps)
    from Cons.IH [OF this assms(2)] show ?thesis using True y by simp
  qed (use Cons.prems in auto)
qed auto

lemma tiled_absorb_prev:
  assumes "tiled lo (xs @ (a, n, u) # ys) hi" "hi < 2 ^ 64"
  shows "tiled lo (case absorb_prev a n (takeWhile f (rev xs)) of
    (b, k) \<Rightarrow> rev (dropWhile f (rev xs)) @ (b, k, u') # ys) hi"
  using assms
proof (induction xs arbitrary: a n rule: rev_induct)
  case (snoc x xs)
  obtain p m v where x: "x = (p, m, v)" by (cases x)
  show ?case
  proof (cases "f x")
    case True
    have "unat m + 40 + unat n < hi" using snoc.prems(1) x by (auto dest!: tiled_le)
    then have e: "unat (m + (HDR + n)) = unat m + 40 + unat n" using assms(2) by (intro unat_absorb) simp
    have "tiled lo (xs @ (p, m + (HDR + n), u) # ys) hi"
      using snoc.prems(1) x e by (auto simp: ac_simps)
    from snoc.IH [OF this assms(2)] show ?thesis using True x by simp
  qed (use snoc.prems x in auto)
qed auto

lemma tiled_merged:
  assumes "tiled lo (xs @ (a, n, u) # ys) hi" "hi < 2 ^ 64"
  shows "tiled lo (merged xs a n ys) hi"
proof -
  have "tiled lo (xs @ (a, absorb_next n (takeWhile blk_free ys), False) # dropWhile blk_free ys) hi"
    using assms tiled_absorb_next [where u = u] by auto
  from tiled_absorb_prev [OF this assms(2), of blk_free False] show ?thesis
    by (simp add: merged_def)
qed

text \<open>
  The complete behaviour of \<open>free\<close> on a block that is in use: it returns the number of free
  neighbours it merged, and the heap stays well-formed.
\<close>

lemma free_spec:
  assumes ok: "heap_ok st (xs @ (a, n, True) # ys) lo hi"
  shows "\<exists>st'. free st (a + HDR) =
      Some (length (takeWhile blk_free ys) + length (takeWhile blk_free (rev xs)), st')
    \<and> heap_ok st' (merged xs a n ys) lo hi"
proof -
  let ?bs = "xs @ (a, n, True) # ys"
  have t: "tiled lo ?bs hi" and d: "dll st 0 ?bs 0" and hi: "hi < 2 ^ 64" using ok by (auto simp: heap_ok_def)
  have dist: "distinct (map fst ?bs)" using tiled_distinct [OF t] .
  have nz: "0 \<notin> fst ` set ?bs"
  proof
    assume "0 \<in> fst ` set ?bs"
    then obtain y where "y \<in> set ?bs" "fst y = 0" by (auto simp del: set_append)
    then show False using heap_ok_mem(1) [OF ok, of "fst y" "fst (snd y)" "snd (snd y)"] by simp
  qed
  have mem: "(a, n, True) \<in> set ?bs" by simp
  have n: "unat n < 2 ^ 40" and aend: "unat a + 40 < 2 ^ 64"
    using heap_ok_mem(4,5) [OF ok mem] by simp_all
  have ptr: "a + HDR \<noteq> 0"
  proof
    assume "a + HDR = 0"
    then have "unat (a + HDR) = 0" by simp
    moreover have "unat (a + HDR) = unat a + 40" using aend by (simp add: HDR_def unat_word_ariths)
    ultimately show False by simp
  qed
  obtain b where b: "st a = Some b" "hb_magic b = BLOCK_MAGIC" "hb_used b = 1" "hb_size b = n"
    using d by auto
  have "\<not> n > push_bit 40 1"
    using n by (simp add: word_less_nat_alt unat_word_ariths)
  define st1 where "st1 = st(a \<mapsto> b\<lparr>hb_used := 0\<rparr>)"
  have d1: "dll st1 0 (xs @ (a, n, False) # ys) 0" using d dist b by (auto simp: st1_def)
  have dist1: "distinct (map fst (xs @ (a, n, False) # ys))" "0 \<notin> fst ` set ys" using dist nz by auto
  from merge_forward_spec [OF d1 dist1, of 0]
  obtain st2 where st2: "merge_forward st1 a 0 = Some (st2, length (takeWhile blk_free ys))"
    "dll st2 0 (xs @ (a, absorb_next n (takeWhile blk_free ys), False) # dropWhile blk_free ys) 0" by auto
  have "distinct (map fst (xs @ (a, absorb_next n (takeWhile blk_free ys), False) # dropWhile blk_free ys))"
  proof -
    from t have "tiled lo (xs @ (a, absorb_next n (takeWhile blk_free ys), False) # dropWhile blk_free ys) hi"
      using tiled_absorb_next [OF _ hi, where u = True and u' = False and f = blk_free] by auto
    then show ?thesis by (rule tiled_distinct)
  qed
  moreover have "0 \<notin> fst ` set (xs @ (a, absorb_next n (takeWhile blk_free ys), False) # dropWhile blk_free ys)"
    using nz by (auto dest: set_dropWhileD)
  ultimately obtain st3 where st3: "merge_backward st2 a (length (takeWhile blk_free ys)) =
      Some (st3, length (takeWhile blk_free ys) + length (takeWhile blk_free (rev xs)))"
    "dll st3 0 (merged xs a n ys) 0"
    using merge_backward_spec [OF st2(2), of "length (takeWhile blk_free ys)"] by (auto simp: merged_def)
  have "heap_merge_free_blocks st1 a = Some (st3, length (takeWhile blk_free ys) + length (takeWhile blk_free (rev xs)))"
    using st2(1) st3(1) b by (simp add: heap_merge_free_blocks_def st1_def)
  then have "free st (a + HDR) = Some (length (takeWhile blk_free ys) + length (takeWhile blk_free (rev xs)), st3)"
    using b ptr \<open>\<not> n > push_bit 40 1\<close> by (simp add: free_def Let_def st1_def)
  moreover have "merged xs a n ys \<noteq> []" by (auto simp: merged_def split: prod.splits)
  ultimately show ?thesis
    using st3(2) tiled_merged [OF t hi] ok by (auto simp: heap_ok_def)
qed

section \<open>No two free blocks are neighbours\<close>

definition coalesced :: "ablock list \<Rightarrow> bool" where
  "coalesced bs \<longleftrightarrow> successively (\<lambda>b c. \<not> (blk_free b \<and> blk_free c)) bs"

lemma coalesced_append:
  "coalesced (xs @ ys) \<longleftrightarrow> coalesced xs \<and> coalesced ys
     \<and> (xs = [] \<or> ys = [] \<or> \<not> (blk_free (last xs) \<and> blk_free (hd ys)))"
  by (auto simp: coalesced_def successively_append_iff)

lemma coalesced_carve:
  assumes "coalesced (xs @ (a, n, False) # ys)"
  shows "coalesced (xs @ carve sz a n @ ys)"
proof -
  have "coalesced ((a, n, False) # ys)" "coalesced xs" "ys = [] \<or> \<not> blk_free (hd ys)"
    using assms by (auto simp: coalesced_def successively_append_iff successively_Cons)
  then show ?thesis
    using assms by (auto simp: coalesced_def carve_def successively_append_iff successively_Cons)
qed

lemma coalesced_merged:
  assumes "coalesced (xs @ (a, n, u) # ys)"
  shows "coalesced (merged xs a n ys)"
proof -
  have c: "coalesced xs" "coalesced ys"
    using assms by (auto simp: coalesced_def successively_append_iff successively_Cons)
  have "coalesced (takeWhile blk_free ys @ dropWhile blk_free ys)" using c(2) by simp
  then have ys: "coalesced (dropWhile blk_free ys)" unfolding coalesced_append by blast
  have "rev (dropWhile blk_free (rev xs)) @ rev (takeWhile blk_free (rev xs)) = xs"
    by (simp add: rev_append [symmetric] del: rev_append)
  then have "coalesced (rev (dropWhile blk_free (rev xs)) @ rev (takeWhile blk_free (rev xs)))"
    using c(1) by simp
  then have xs: "coalesced (rev (dropWhile blk_free (rev xs)))"
    unfolding coalesced_append by blast
  have hd: "dropWhile blk_free zs = [] \<or> \<not> blk_free (hd (dropWhile blk_free zs))" for zs
    using hd_dropWhile by blast
  then show ?thesis
    using xs ys hd [of ys] hd [of "rev xs"]
    by (auto simp: merged_def coalesced_def successively_append_iff successively_Cons last_rev split: prod.splits)
qed

end
