(* ===== verification/Klime.thy ===== *)
theory Klime
  imports Heap
begin

text \<open>
  The kernel memory manager of \<^verbatim>\<open>emex/kernel/mem/klime/klime.c\<close> (with \<^verbatim>\<open>slab_init\<close> of
  \<^verbatim>\<open>emex/kernel/mem/slab/slab.c\<close>): it lays out a region, puts one free block over its heap
  part and keeps the byte counts \<open>total_heap\<close> and \<open>used_heap\<close> beside the block list of theory Heap.
  A NULL \<open>klime\<close> pointer is \<open>None\<close>. \<open>kmem\<close> is the memory: the headers of the heap
  and the bytes of everything else.
\<close>

section \<open>Layout and state\<close>

definition HEAP_SIZE :: u64 where "HEAP_SIZE = 1024 * 1024 * 32"
definition KPAGE_SIZE :: u64 where "KPAGE_SIZE = 4096"
definition KLIME_SIZE_SLAB :: u64 where "KLIME_SIZE_SLAB = 1024 * 1024 * 8"
definition KLIME_SIZE_IO :: u64 where "KLIME_SIZE_IO = 1024 * 1024 * 4"
definition KLIME_SIZE_DMA :: u64 where "KLIME_SIZE_DMA = 1024 * 1024 * 2"

definition KLIME_SIZE_NOTHEAP :: u64 where
  "KLIME_SIZE_NOTHEAP = KPAGE_SIZE + KPAGE_SIZE + KLIME_SIZE_SLAB + KLIME_SIZE_IO + KLIME_SIZE_DMA"

definition KLIME_SIZE_HEAP :: u64 where "KLIME_SIZE_HEAP = HEAP_SIZE - KLIME_SIZE_NOTHEAP"
definition KLIME_OFFSET_SLAB_META :: u64 where "KLIME_OFFSET_SLAB_META = KPAGE_SIZE"
definition KLIME_OFFSET_SLAB_DATA :: u64 where "KLIME_OFFSET_SLAB_DATA = KLIME_OFFSET_SLAB_META + KPAGE_SIZE"
definition KLIME_OFFSET_IO :: u64 where "KLIME_OFFSET_IO = KLIME_OFFSET_SLAB_DATA + KLIME_SIZE_SLAB"
definition KLIME_OFFSET_DMA :: u64 where "KLIME_OFFSET_DMA = KLIME_OFFSET_IO + KLIME_SIZE_IO"
definition KLIME_OFFSET_HEAP :: u64 where "KLIME_OFFSET_HEAP = KLIME_OFFSET_DMA + KLIME_SIZE_DMA"

lemmas klime_layout_defs = HEAP_SIZE_def KPAGE_SIZE_def KLIME_SIZE_SLAB_def KLIME_SIZE_IO_def
  KLIME_SIZE_DMA_def KLIME_SIZE_NOTHEAP_def KLIME_SIZE_HEAP_def KLIME_OFFSET_SLAB_META_def
  KLIME_OFFSET_SLAB_DATA_def KLIME_OFFSET_IO_def KLIME_OFFSET_DMA_def KLIME_OFFSET_HEAP_def

record klime =
  start_slab_meta :: u64
  start_slab_data :: u64
  start_io :: u64
  start_dma :: u64
  start_heap :: u64
  slab_allocator :: "u64 list"
  total_heap :: u64
  used_heap :: u64

record kmem =
  km_store :: hstore
  km_bytes :: "u64 \<Rightarrow> u8"

definition SLAB_CACHE_COUNT :: nat where "SLAB_CACHE_COUNT = 7"

definition slab_init :: "u64 \<Rightarrow> u64 \<Rightarrow> u64 \<Rightarrow> u64 list outcome" where
  "slab_init ptr_slab ptr_slab_meta ptr_slab_data =
    (if ptr_slab = 0 then Inl ''Invalid ptr slab''
     else if ptr_slab_meta = 0 then Inl ''Invalid ptr slab meta''
     else if ptr_slab_data = 0 then Inl ''Invalid ptr slab data''
     else Inr (replicate SLAB_CACHE_COUNT 0))"

text \<open>\<^verbatim>\<open>klime->slab_allocator\<close> is the sixth field of the structure, 40 bytes into it.\<close>

definition klime_init :: "u64 \<Rightarrow> u64 \<Rightarrow> kmem \<Rightarrow> (klime \<times> kmem) outcome" where
  "klime_init ptr sz m =
    (if ptr = 0 \<or> sz < HDR then Inl ''ERROR: Invalid klime initializing''
     else let heap = ptr + KLIME_OFFSET_HEAP;
              tot = KLIME_SIZE_HEAP - HDR;
              m1 = m\<lparr>km_store := (km_store m)(heap \<mapsto> \<lparr>hb_magic = BLOCK_MAGIC, hb_size = tot,
                       hb_next = 0, hb_prev = 0, hb_used = 0\<rparr>)\<rparr>
          in case slab_init (ptr + 40) (ptr + KLIME_OFFSET_SLAB_META) (ptr + KLIME_OFFSET_SLAB_DATA) of
               Inl e \<Rightarrow> Inl e
             | Inr sl \<Rightarrow> Inr (\<lparr>start_slab_meta = ptr + KLIME_OFFSET_SLAB_META,
                 start_slab_data = ptr + KLIME_OFFSET_SLAB_DATA, start_io = ptr + KLIME_OFFSET_IO,
                 start_dma = ptr + KLIME_OFFSET_DMA, start_heap = heap, slab_allocator = sl,
                 total_heap = tot, used_heap = 0\<rparr>, m1))"

definition klime_setup_slab :: "klime option \<Rightarrow> klime option" where
  "klime_setup_slab kl = kl"

section \<open>Operations\<close>

definition klime_create :: "klime option \<Rightarrow> u64 \<Rightarrow> kmem \<Rightarrow> (u64 \<times> klime option \<times> kmem) option" where
  "klime_create kl sz m =
    (case kl of None \<Rightarrow> Some (0, kl, m) | Some k \<Rightarrow>
     if sz = 0 then Some (0, kl, m)
     else case malloc (km_store m) (start_heap k) sz of None \<Rightarrow> None
        | Some (ptr, st) \<Rightarrow>
          let m1 = m\<lparr>km_store := st\<rparr>
          in if ptr = 0 then Some (0, kl, m1)
             else case st (ptr - HDR) of None \<Rightarrow> None
                | Some block \<Rightarrow>
                  Some (ptr, Some (k\<lparr>used_heap := used_heap k + (hb_size block + HDR)\<rparr>), m1))"

text \<open>
  \<open>memset(ptr, 0, n)\<close> on this memory: the bytes of the range become zero, and a header that
  shares a byte with the range is lost.
\<close>

definition in_range :: "u64 \<Rightarrow> u64 \<Rightarrow> u64 \<Rightarrow> bool" where
  "in_range ptr n a \<longleftrightarrow> a - ptr < n"

definition kmem_zero :: "u64 \<Rightarrow> u64 \<Rightarrow> kmem \<Rightarrow> kmem" where
  "kmem_zero ptr n m = m\<lparr>
     km_store := (\<lambda>a. if list_ex (\<lambda>i. in_range ptr n (a + word_of_nat i)) [0..<40] then None else km_store m a),
     km_bytes := (\<lambda>a. if in_range ptr n a then 0 else km_bytes m a)\<rparr>"

definition klime_alloc :: "klime option \<Rightarrow> u64 \<Rightarrow> u64 \<Rightarrow> kmem \<Rightarrow> (u64 \<times> klime option \<times> kmem) option" where
  "klime_alloc kl sz count m =
    (case kl of None \<Rightarrow> Some (0, kl, m) | Some k \<Rightarrow>
     if sz = 0 then Some (0, kl, m)
     else let n = count * sz in
        case malloc (km_store m) (start_heap k) n of None \<Rightarrow> None
        | Some (ptr, st) \<Rightarrow>
          if ptr = 0 then Some (0, kl, m\<lparr>km_store := st\<rparr>)
          else let m1 = kmem_zero ptr n (m\<lparr>km_store := st\<rparr>)
               in case km_store m1 (ptr - HDR) of None \<Rightarrow> None
                  | Some block \<Rightarrow>
                    Some (ptr, Some (k\<lparr>used_heap := used_heap k + (hb_size block + HDR)\<rparr>), m1))"

definition klime_free :: "klime option \<Rightarrow> u64 \<Rightarrow> kmem \<Rightarrow> (klime option \<times> kmem) option" where
  "klime_free kl ptr m =
    (case kl of None \<Rightarrow> Some (kl, m) | Some k \<Rightarrow>
     if ptr = 0 then Some (kl, m)
     else case km_store m (ptr - HDR) of None \<Rightarrow> None
        | Some block \<Rightarrow>
          let k1 = k\<lparr>used_heap := used_heap k - hb_size block\<rparr>
          in case free (km_store m) ptr of None \<Rightarrow> None
             | Some (mg, st) \<Rightarrow>
               Some (Some (k1\<lparr>used_heap := used_heap k1 - HDR * word_of_nat mg\<rparr>), m\<lparr>km_store := st\<rparr>))"

definition klime_get_total_size :: "klime \<Rightarrow> u64" where "klime_get_total_size k = total_heap k"
definition klime_get_used_size :: "klime \<Rightarrow> u64" where "klime_get_used_size k = used_heap k"
definition klime_get_free_size :: "klime \<Rightarrow> u64" where
  "klime_get_free_size k = total_heap k - used_heap k"

section \<open>The heap after initialisation\<close>

definition klime_ok :: "klime \<Rightarrow> kmem \<Rightarrow> ablock list \<Rightarrow> nat \<Rightarrow> nat \<Rightarrow> bool" where
  "klime_ok k m bs lo hi \<longleftrightarrow> heap_ok (km_store m) bs lo hi \<and> start_heap k = head_addr bs 0"

lemma klime_init_ok:
  assumes "ptr \<noteq> 0" "HDR \<le> sz" "unat ptr + 33554432 < 2 ^ 64"
  shows "\<exists>k m'. klime_init ptr sz m = Inr (k, m') \<and> used_heap k = 0 \<and> total_heap k = KLIME_SIZE_HEAP - HDR
    \<and> klime_ok k m' [(ptr + KLIME_OFFSET_HEAP, KLIME_SIZE_HEAP - HDR, False)]
        (unat ptr + 14688256) (unat ptr + 33554432)"
proof -
  have u: "unat (ptr + KLIME_OFFSET_HEAP) = unat ptr + 14688256"
    using assms(3) by (simp add: klime_layout_defs unat_word_ariths)
  have nz: "ptr + 40 \<noteq> 0" "ptr + KLIME_OFFSET_SLAB_META \<noteq> 0" "ptr + KLIME_OFFSET_SLAB_DATA \<noteq> 0"
    using assms(3) by (auto simp: klime_layout_defs word_unat_eq_iff unat_word_ariths)
  have s: "unat (KLIME_SIZE_HEAP - HDR) = 18866136"
    by (simp add: klime_layout_defs HDR_def)
  have "\<not> sz < HDR" using assms(2) by simp
  then show ?thesis
    using assms u nz s
    by (simp add: klime_init_def Let_def slab_init_def klime_ok_def heap_ok_def)
qed

section \<open>What the calls do to a well-formed heap\<close>

lemma heap_ok_header:
  "heap_ok st bs lo hi \<Longrightarrow> (a, n, u) \<in> set bs \<Longrightarrow>
   \<exists>b. st a = Some b \<and> hb_size b = n \<and> hb_used b = (if u then 1 else 0) \<and> hb_magic b = BLOCK_MAGIC"
  unfolding heap_ok_def by (auto dest!: split_list)

lemma carve_ne [simp]: "carve sz a n \<noteq> []" by (simp add: carve_def)

lemma head_addr_carve [simp]: "head_addr (carve sz a n) q = a" by (simp add: carve_def)

lemma ptr_nz: "heap_ok st bs lo hi \<Longrightarrow> (a, n, u) \<in> set bs \<Longrightarrow> a + HDR \<noteq> 0"
  using heap_ok_mem(5) [of st bs lo hi a n u]
  by (auto simp: HDR_def word_unat_eq_iff unat_word_ariths)

text \<open>The payload size the header has after the allocation.\<close>

definition granted :: "u64 \<Rightarrow> u64 \<Rightarrow> u64" where
  "granted sz n = (if sz + HDR + 16 \<le> n then sz else n)"

lemma klime_create_cases:
  assumes ok: "klime_ok k m bs lo hi" and "size0 \<noteq> 0"
  defines "sz \<equiv> round16 size0"
  shows "(\<exists>xs a n ys m'. best_split sz bs xs (a, n, False) ys
        \<and> klime_create (Some k) size0 m =
            Some (a + HDR, Some (k\<lparr>used_heap := used_heap k + (granted sz n + HDR)\<rparr>), m')
        \<and> klime_ok k m' (xs @ carve sz a n @ ys) lo hi)
      \<or> (klime_create (Some k) size0 m = Some (0, Some k, m) \<and> (\<forall>b\<in>set bs. \<not> fits sz b))"
proof -
  have h: "heap_ok (km_store m) bs lo hi" "start_heap k = head_addr bs 0" using ok by (auto simp: klime_ok_def)
  from malloc_spec [OF h(1) assms(2)] show ?thesis
  proof
    assume "\<exists>xs a n ys st'. best_split (round16 size0) bs xs (a, n, False) ys
       \<and> malloc (km_store m) (head_addr bs 0) size0 = Some (a + HDR, st')
       \<and> heap_ok st' (xs @ carve (round16 size0) a n @ ys) lo hi"
    then obtain xs a n ys st' where *: "best_split sz bs xs (a, n, False) ys"
       "malloc (km_store m) (start_heap k) size0 = Some (a + HDR, st')"
       "heap_ok st' (xs @ carve sz a n @ ys) lo hi" by (auto simp: sz_def h(2))
    have mem: "(a, granted sz n, True) \<in> set (xs @ carve sz a n @ ys)"
      by (simp add: carve_def granted_def)
    obtain b where b: "st' a = Some b" "hb_size b = granted sz n" using heap_ok_header [OF *(3) mem] by auto
    have bs: "bs = xs @ (a, n, False) # ys" using *(1) by (simp add: best_split_def)
    have "klime_create (Some k) size0 m =
        Some (a + HDR, Some (k\<lparr>used_heap := used_heap k + (granted sz n + HDR)\<rparr>), m\<lparr>km_store := st'\<rparr>)"
      using *(2) b assms(2) ptr_nz [OF *(3) mem] by (simp add: klime_create_def)
    moreover have "klime_ok k (m\<lparr>km_store := st'\<rparr>) (xs @ carve sz a n @ ys) lo hi"
      using *(3) h(2) bs by (simp add: klime_ok_def)
    ultimately show ?thesis using *(1) by blast
  next
    assume "malloc (km_store m) (head_addr bs 0) size0 = Some (0, km_store m)
      \<and> (\<forall>b\<in>set bs. \<not> fits (round16 size0) b)"
    then show ?thesis using assms(2) h(2) by (simp add: klime_create_def sz_def)
  qed
qed

lemma head_absorb_prev: "absorb_prev a n [] = (a, n)" by simp

lemma head_merged:
  assumes "tiled lo (xs @ (a, n, u) # ys) hi" "hi < 2 ^ 64"
  shows "head_addr (merged xs a n ys) 0 = head_addr (xs @ (a, n, u) # ys) 0"
proof -
  have t: "tiled lo (merged xs a n ys) hi" using tiled_merged [OF assms] .
  have ne: "merged xs a n ys \<noteq> []" by (auto simp: merged_def split: prod.splits)
  then have "unat (head_addr (merged xs a n ys) 0) = lo"
    using t by (cases "merged xs a n ys") (auto simp del: tiled_append)
  moreover have "unat (head_addr (xs @ (a, n, u) # ys) 0) = lo"
    using assms(1) by (cases xs) (auto simp del: tiled_append)
  ultimately show ?thesis by (simp add: word_unat_eq_iff)
qed

lemma klime_free_cases:
  assumes ok: "klime_ok k m (xs @ (a, n, True) # ys) lo hi"
  defines "mg \<equiv> length (takeWhile blk_free ys) + length (takeWhile blk_free (rev xs))"
  shows "\<exists>m'. klime_free (Some k) (a + HDR) m =
      Some (Some (k\<lparr>used_heap := used_heap k - n - HDR * word_of_nat mg\<rparr>), m')
    \<and> klime_ok k m' (merged xs a n ys) lo hi"
proof -
  have h: "heap_ok (km_store m) (xs @ (a, n, True) # ys) lo hi" using ok by (simp add: klime_ok_def)
  obtain st' where st': "free (km_store m) (a + HDR) = Some (mg, st')" "heap_ok st' (merged xs a n ys) lo hi"
    using free_spec [OF h] by (auto simp: mg_def)
  obtain b where b: "km_store m a = Some b" "hb_size b = n"
    using heap_ok_header [OF h, of a n True] by auto
  have "a + HDR \<noteq> 0" using ptr_nz [OF h, of a n True] by simp
  then have "klime_free (Some k) (a + HDR) m =
      Some (Some (k\<lparr>used_heap := used_heap k - n - HDR * word_of_nat mg\<rparr>), m\<lparr>km_store := st'\<rparr>)"
    using st'(1) b by (simp add: klime_free_def Let_def)
  moreover have "start_heap k = head_addr (merged xs a n ys) 0"
    using ok head_merged [of lo xs a n True ys hi] by (auto simp: klime_ok_def heap_ok_def)
  ultimately show ?thesis using st'(2) by (auto simp: klime_ok_def)
qed

text \<open>A free of a block that is not in use changes the count and leaves the heap alone.\<close>

lemma klime_double_free:
  assumes ok: "klime_ok k m bs lo hi" and mem: "(a, n, False) \<in> set bs"
  shows "klime_free (Some k) (a + HDR) m = Some (Some (k\<lparr>used_heap := used_heap k - n\<rparr>), m)"
proof -
  have h: "heap_ok (km_store m) bs lo hi" using ok by (simp add: klime_ok_def)
  obtain b where "km_store m a = Some b" "hb_size b = n" "hb_used b = 0" "hb_magic b = BLOCK_MAGIC"
    using heap_ok_header [OF h mem] by auto
  then show ?thesis using ptr_nz [OF h mem] by (simp add: klime_free_def free_def Let_def)
qed

lemma coalesced_middle:
  assumes "coalesced (xs @ (a, n, False) # ys)"
  shows "takeWhile blk_free ys = []" "takeWhile blk_free (rev xs) = []"
proof -
  have *: "ys = [] \<or> \<not> blk_free (hd ys)" "xs = [] \<or> \<not> blk_free (last xs)"
    using assms by (auto simp: coalesced_def successively_append_iff successively_Cons)
  show "takeWhile blk_free ys = []" using *(1) by (cases ys) auto
  show "takeWhile blk_free (rev xs) = []" using *(2) by (cases xs rule: rev_cases) auto
qed

text \<open>Freeing what was carved from a coalesced heap gives the old list of blocks back.\<close>

lemma merged_carve:
  assumes c: "coalesced (xs @ (a, n, False) # ys)"
  shows "sz + HDR + 16 \<le> n \<Longrightarrow> merged xs a sz ((a + HDR + sz, n - sz - HDR, False) # ys) = xs @ (a, n, False) # ys"
    and "merged xs a n ys = xs @ (a, n, False) # ys"
proof -
  note e = coalesced_middle [OF c]
  have d: "dropWhile blk_free ys = ys" "rev (dropWhile blk_free (rev xs)) = xs"
    using e takeWhile_dropWhile_id [of blk_free ys] takeWhile_dropWhile_id [of blk_free "rev xs"] by auto
  show "merged xs a sz ((a + HDR + sz, n - sz - HDR, False) # ys) = xs @ (a, n, False) # ys"
    using e d by (simp add: merged_def)
  show "merged xs a n ys = xs @ (a, n, False) # ys" using e d by (simp add: merged_def)
qed

section \<open>Every state the heap can reach\<close>

lemma dll_cong: "(\<And>a. a \<in> fst ` set bs \<Longrightarrow> st a = st' a) \<Longrightarrow> dll st p bs q = dll st' p bs q"
  by (induction bs arbitrary: p) auto

lemma tiled_disjoint:
  assumes "tiled lo bs hi" "(a, g, u) \<in> set bs" "(c, k, v) \<in> set bs"
  shows "a = c \<or> unat c + 40 + unat k \<le> unat a \<or> unat a + 40 + unat g \<le> unat c"
  using assms by (induction bs arbitrary: lo) (auto dest: tiled_addr)

text \<open>Clearing at most the payload of a block leaves every header as it is.\<close>

lemma kmem_zero_header:
  assumes ok: "heap_ok (km_store m) bs lo hi" and a: "(a, g, u) \<in> set bs" and c: "(c, k, v) \<in> set bs" and n: "unat n \<le> unat g"
  shows "km_store (kmem_zero (a + HDR) n m) c = km_store m c"
proof -
  have "\<not> in_range (a + HDR) n (c + word_of_nat i)" if i: "i < 40" for i
  proof
    assume r: "in_range (a + HDR) n (c + word_of_nat i)"
    note ma = heap_ok_mem [OF ok a] and mc = heap_ok_mem [OF ok c]
    have hl: "hi < lo + 2 ^ 40" "tiled lo bs hi" using ok by (auto simp: heap_ok_def)
    have ui: "unat (word_of_nat i :: u64) = i" using i by (simp add: unat_of_nat)
    have uc: "unat (c + word_of_nat i) = unat c + i" using mc(5) i ui by (simp add: unat_word_ariths)
    have ua: "unat (a + HDR) = unat a + 40" using ma(5) by (simp add: HDR_def unat_word_ariths)
    have lt: "unat (c + word_of_nat i - (a + HDR)) < unat g" using r n by (simp add: in_range_def word_less_nat_alt)
    show False
    proof (cases "unat a + 40 \<le> unat c + i")
      case True
      then have "unat (c + word_of_nat i - (a + HDR)) = unat c + i - (unat a + 40)" using uc ua by (simp add: unat_sub_if' del: unsigned_less)
      then show False using lt tiled_disjoint [OF hl(2) a c] True i by auto
    next
      case False
      then have "unat (c + word_of_nat i - (a + HDR)) = 2 ^ 64 + (unat c + i) - (unat a + 40)"
        using uc ua by (simp add: unat_sub_if')
      then show False using lt ma mc hl(1) False by linarith
    qed
  qed
  then show ?thesis by (auto simp: kmem_zero_def list_ex_iff)
qed

lemma kmem_zero_heap:
  assumes "heap_ok (km_store m) bs lo hi" "(a, g, u) \<in> set bs" "unat n \<le> unat g"
  shows "heap_ok (km_store (kmem_zero (a + HDR) n m)) bs lo hi"
proof -
  have "dll (km_store (kmem_zero (a + HDR) n m)) 0 bs 0 = dll (km_store m) 0 bs 0"
    using kmem_zero_header [OF assms(1,2) _ assms(3)] by (intro dll_cong) auto
  then show ?thesis using assms(1) by (simp add: heap_ok_def)
qed

text \<open>\<open>klime_alloc\<close> is \<open>klime_create\<close> of the product, cut to 64 bits, and a clearing of what it returns.\<close>

lemma klime_alloc_cases:
  assumes ok: "klime_ok k m bs lo hi" and sz: "sz \<noteq> 0" "count * sz \<noteq> 0" "unat (count * sz) \<le> 2 ^ 64 - 16"
  defines "n \<equiv> count * sz"
  shows "(\<exists>xs a c ys m'. best_split (round16 n) bs xs (a, c, False) ys
        \<and> klime_alloc (Some k) sz count m =
            Some (a + HDR, Some (k\<lparr>used_heap := used_heap k + (granted (round16 n) c + HDR)\<rparr>), kmem_zero (a + HDR) n m')
        \<and> klime_ok k (kmem_zero (a + HDR) n m') (xs @ carve (round16 n) a c @ ys) lo hi)
      \<or> (klime_alloc (Some k) sz count m = Some (0, Some k, m) \<and> (\<forall>b\<in>set bs. \<not> fits (round16 n) b))"
proof -
  have "n \<noteq> 0" using sz by (simp add: n_def)
  from klime_create_cases [OF ok this] show ?thesis
  proof
    assume "\<exists>xs a c ys m'. best_split (round16 n) bs xs (a, c, False) ys
        \<and> klime_create (Some k) n m = Some (a + HDR, Some (k\<lparr>used_heap := used_heap k + (granted (round16 n) c + HDR)\<rparr>), m')
        \<and> klime_ok k m' (xs @ carve (round16 n) a c @ ys) lo hi"
    then obtain xs a c ys m' where *: "best_split (round16 n) bs xs (a, c, False) ys"
      "klime_create (Some k) n m = Some (a + HDR, Some (k\<lparr>used_heap := used_heap k + (granted (round16 n) c + HDR)\<rparr>), m')"
      "klime_ok k m' (xs @ carve (round16 n) a c @ ys) lo hi" by blast
    let ?bs = "xs @ carve (round16 n) a c @ ys"
    have h: "heap_ok (km_store m') ?bs lo hi" using *(3) by (simp add: klime_ok_def)
    have mem: "(a, granted (round16 n) c, True) \<in> set ?bs" by (simp add: carve_def granted_def)
    have "round16 n \<le> c" using *(1) by (simp add: best_split_def fits_def)
    then have "round16 n \<le> granted (round16 n) c" by (simp add: granted_def)
    moreover have "unat n \<le> unat (round16 n)" using sz(3) by (simp add: unat_round16 n_def)
    ultimately have g: "unat n \<le> unat (granted (round16 n) c)" by (simp add: word_le_nat_alt)
    note z = kmem_zero_header [OF h mem mem g] kmem_zero_heap [OF h mem g]
    have nz: "a + HDR \<noteq> 0" using ptr_nz [OF h mem] .
    obtain b where b: "malloc (km_store m) (start_heap k) n = Some (a + HDR, km_store m')" "km_store m' a = Some b"
        "hb_size b = granted (round16 n) c" "m' = m\<lparr>km_store := km_store m'\<rparr>"
      using *(2) \<open>n \<noteq> 0\<close> nz heap_ok_header [OF h mem] by (auto simp: klime_create_def Let_def split: option.splits if_splits)
    have "klime_alloc (Some k) sz count m =
        Some (a + HDR, Some (k\<lparr>used_heap := used_heap k + (granted (round16 n) c + HDR)\<rparr>), kmem_zero (a + HDR) n m')"
      using b z(1) nz sz(1) by (simp add: klime_alloc_def n_def [symmetric] Let_def)
    then show ?thesis using * z(2) by (auto simp: klime_ok_def)
  next
    assume "klime_create (Some k) n m = Some (0, Some k, m) \<and> (\<forall>b\<in>set bs. \<not> fits (round16 n) b)"
    moreover from this have "klime_alloc (Some k) sz count m = Some (0, Some k, m)"
      using \<open>n \<noteq> 0\<close> sz(1) by (auto simp: klime_alloc_def klime_create_def n_def [symmetric] Let_def split: option.splits if_splits)
    ultimately show ?thesis by blast
  qed
qed

text \<open>
  One call: an allocation of any size, an allocation of an array whose size, cut to 64 bits, can be rounded up, or a free of a
  pointer that is live (returned by an allocation and not freed since). The third component is the set of live pointers.
\<close>

inductive klime_step :: "klime \<times> kmem \<times> u64 set \<Rightarrow> klime \<times> kmem \<times> u64 set \<Rightarrow> bool" where
  create: "klime_create (Some k) n m = Some (ptr, Some k', m') \<Longrightarrow>
    klime_step (k, m, live) (k', m', if ptr = 0 then live else insert ptr live)"
| alloc: "unat (count * sz) \<le> 2 ^ 64 - 16 \<Longrightarrow> klime_alloc (Some k) sz count m = Some (ptr, Some k', m') \<Longrightarrow>
    klime_step (k, m, live) (k', m', if ptr = 0 then live else insert ptr live)"
| release: "ptr \<in> live \<Longrightarrow> klime_free (Some k) ptr m = Some (Some k', m') \<Longrightarrow>
    klime_step (k, m, live) (k', m', live - {ptr})"

inductive_cases klime_stepE: "klime_step (k, m, live) s'"

inductive klime_reach :: "klime \<times> kmem \<times> u64 set \<Rightarrow> klime \<times> kmem \<times> u64 set \<Rightarrow> bool" where
  start: "klime_reach s s"
| next_step: "klime_reach s t \<Longrightarrow> klime_step t u \<Longrightarrow> klime_reach s u"

definition live_ptrs :: "ablock list \<Rightarrow> u64 set" where
  "live_ptrs bs = set (map (\<lambda>b. fst b + HDR) (filter (\<lambda>b. \<not> blk_free b) bs))"

definition klime_inv :: "nat \<Rightarrow> nat \<Rightarrow> klime \<times> kmem \<times> u64 set \<Rightarrow> bool" where
  "klime_inv lo hi s \<longleftrightarrow> (case s of (k, m, live) \<Rightarrow>
     \<exists>bs. klime_ok k m bs lo hi \<and> coalesced bs \<and> live = live_ptrs bs)"

lemma live_ptrs_simps [simp]:
  "live_ptrs [] = {}"
  "live_ptrs ((a, n, u) # bs) = (if u then insert (a + HDR) (live_ptrs bs) else live_ptrs bs)"
  "live_ptrs (xs @ ys) = live_ptrs xs \<union> live_ptrs ys"
  by (auto simp: live_ptrs_def)

lemma live_ptrs_rev [simp]: "live_ptrs (rev xs) = live_ptrs xs"
  by (simp add: live_ptrs_def)

lemma live_ptrs_dropWhile [simp]: "live_ptrs (dropWhile blk_free xs) = live_ptrs xs"
  by (induction xs) (auto simp: live_ptrs_def)

lemma live_ptrs_carve: "live_ptrs (carve sz a n) = {a + HDR}"
  by (simp add: carve_def)

lemma live_ptrs_merged: "live_ptrs (merged xs a n ys) = live_ptrs xs \<union> live_ptrs ys"
  by (auto simp: merged_def split: prod.splits)

lemma live_ptrs_distinct:
  assumes "distinct (map fst (xs @ (a, n, u) # ys))"
  shows "a + HDR \<notin> live_ptrs xs \<union> live_ptrs ys"
  using assms by (force simp: live_ptrs_def)

lemma klime_alloc_nothing: "sz = 0 \<or> count * sz = 0 \<Longrightarrow> klime_alloc (Some k) sz count m = Some (0, Some k, m)"
  by (cases "sz = 0") (simp_all add: klime_alloc_def malloc_def Let_def)

text \<open>A block that is carved out of a free one is live.\<close>

lemma klime_inv_carve:
  assumes ok: "klime_ok k m bs lo hi" "coalesced bs" "live = live_ptrs bs"
    and c: "best_split (round16 n) bs xs (a, c, False) ys" "klime_ok k m' (xs @ carve (round16 n) a c @ ys) lo hi"
  shows "klime_inv lo hi (k\<lparr>used_heap := u\<rparr>, m', insert (a + HDR) live)" "a + HDR \<noteq> 0"
proof -
  have e: "bs = xs @ (a, c, False) # ys" using c(1) by (simp add: best_split_def)
  show "a + HDR \<noteq> 0" using ok(1) e ptr_nz [of "km_store m" bs lo hi a c False] by (simp add: klime_ok_def)
  have "klime_ok (k\<lparr>used_heap := u\<rparr>) m' (xs @ carve (round16 n) a c @ ys) lo hi" "coalesced (xs @ carve (round16 n) a c @ ys)"
    "insert (a + HDR) live = live_ptrs (xs @ carve (round16 n) a c @ ys)"
    using c(2) ok(2,3) e coalesced_carve [of xs a c ys] by (auto simp: klime_ok_def live_ptrs_carve)
  then show "klime_inv lo hi (k\<lparr>used_heap := u\<rparr>, m', insert (a + HDR) live)" by (auto simp: klime_inv_def)
qed

lemma klime_step_inv:
  assumes "klime_step s s'" "klime_inv lo hi s"
  shows "klime_inv lo hi s'"
  using assms
proof (induction rule: klime_step.induct)
  case (create k n m ptr k' m' live)
  then obtain bs where bs: "klime_ok k m bs lo hi" "coalesced bs" "live = live_ptrs bs"
    by (auto simp: klime_inv_def)
  show ?case
  proof (cases "n = 0")
    case True
    then show ?thesis using create bs by (auto simp: klime_create_def klime_inv_def)
  next
    case False
    from klime_create_cases [OF bs(1) False] klime_inv_carve [OF bs] create show ?thesis by fastforce
  qed
next
  case (alloc count sz k m ptr k' m' live)
  then obtain bs where bs: "klime_ok k m bs lo hi" "coalesced bs" "live = live_ptrs bs"
    by (auto simp: klime_inv_def)
  show ?case
  proof (cases "sz = 0 \<or> count * sz = 0")
    case True
    then show ?thesis using alloc klime_alloc_nothing [OF True, of k m] by auto
  next
    case False
    from klime_alloc_cases [OF bs(1) _ _ alloc(1)] False klime_inv_carve [OF bs] alloc(2,3) show ?thesis by fastforce
  qed
next
  case (release ptr live k m k' m')
  then obtain bs where bs: "klime_ok k m bs lo hi" "coalesced bs" "live = live_ptrs bs"
    by (auto simp: klime_inv_def)
  then obtain xs a n ys where e: "bs = xs @ (a, n, True) # ys" "ptr = a + HDR"
    using release(1) by (auto simp: live_ptrs_def dest!: split_list)
  have "live - {ptr} = live_ptrs (merged xs a n ys)"
    using bs e live_ptrs_distinct [of xs a n True ys] tiled_distinct [of lo bs hi]
    by (auto simp: live_ptrs_merged klime_ok_def heap_ok_def)
  moreover have "coalesced (merged xs a n ys)" using coalesced_merged bs(2) e(1) by blast
  moreover have "klime_ok k' m' (merged xs a n ys) lo hi"
    using klime_free_cases [OF bs(1) [unfolded e(1)]] release(2) e(2) by (auto simp: klime_ok_def)
  ultimately show ?case by (auto simp: klime_inv_def)
qed

lemma klime_reach_inv: "klime_reach s s' \<Longrightarrow> klime_inv lo hi s \<Longrightarrow> klime_inv lo hi s'"
  by (induction rule: klime_reach.induct) (auto intro: klime_step_inv)

lemma klime_inv_free_returns:
  assumes "klime_inv lo hi (k, m, live)" "ptr \<in> live"
  shows "\<exists>k' m'. klime_free (Some k) ptr m = Some (Some k', m')"
proof -
  obtain bs where bs: "klime_ok k m bs lo hi" "live = live_ptrs bs" using assms(1) by (auto simp: klime_inv_def)
  then obtain xs a n ys where e: "bs = xs @ (a, n, True) # ys" "ptr = a + HDR"
    using assms(2) by (auto simp: live_ptrs_def dest!: split_list)
  show ?thesis using klime_free_cases [OF bs(1) [unfolded e(1)]] e(2) by blast
qed

lemma klime_inv_create_returns:
  assumes "klime_inv lo hi (k, m, live)"
  shows "\<exists>ptr k' m'. klime_create (Some k) n m = Some (ptr, Some k', m')"
proof (cases "n = 0")
  case False
  obtain bs where bs: "klime_ok k m bs lo hi" using assms by (auto simp: klime_inv_def)
  show ?thesis using klime_create_cases [OF bs False] by blast
qed (simp add: klime_create_def)

lemma klime_inv_alloc_returns:
  assumes "klime_inv lo hi (k, m, live)" "unat (count * sz) \<le> 2 ^ 64 - 16"
  shows "\<exists>ptr k' m'. klime_alloc (Some k) sz count m = Some (ptr, Some k', m')"
proof (cases "sz = 0 \<or> count * sz = 0")
  case True
  then show ?thesis using klime_alloc_nothing [OF True, of k m] by blast
next
  case False
  obtain bs where bs: "klime_ok k m bs lo hi" using assms(1) by (auto simp: klime_inv_def)
  show ?thesis using klime_alloc_cases [OF bs _ _ assms(2)] False by blast
qed

text \<open>
  A product that cannot be rounded up is rounded to 0: any free block will do, and clearing what was asked for destroys the
  header of the block itself.
\<close>

lemma klime_alloc_destroys:
  assumes "klime_ok k m bs lo hi" "sz \<noteq> 0" "2 ^ 64 - 16 < unat (count * sz)" "b \<in> set bs" "blk_free b"
  shows "klime_alloc (Some k) sz count m = None"
proof -
  define n where "n = count * sz"
  have n: "n \<noteq> 0" "round16 n = 0" using assms(3) by (auto simp: word_unat_eq_iff unat_round16 n_def [symmetric])
  have f: "fits 0 b" using assms(5) by (cases b) (simp add: fits_def)
  from klime_create_cases [OF assms(1) n(1)] f assms(4) n(2) obtain xs a c ys m' where
    "klime_create (Some k) n m = Some (a + HDR, Some (k\<lparr>used_heap := used_heap k + (granted 0 c + HDR)\<rparr>), m')"
    "best_split 0 bs xs (a, c, False) ys" by auto
  moreover from this have "a + HDR \<noteq> 0" using ptr_nz [of "km_store m" bs lo hi a c False] assms(1) by (auto simp: best_split_def klime_ok_def)
  ultimately have m: "malloc (km_store m) (start_heap k) n = Some (a + HDR, km_store m')"
    using n(1) by (auto simp: klime_create_def Let_def split: option.splits if_splits)
  have "in_range (a + HDR) n a"
  proof -
    have "unat (a - (a + HDR)) = 2 ^ 64 - 40" by (simp add: HDR_def)
    then show ?thesis using assms(3) by (simp add: in_range_def word_less_nat_alt n_def [symmetric])
  qed
  then have "\<exists>i\<in>{0..<40}. in_range (a + HDR) n (a + word_of_nat i)" by (intro bexI [of _ 0]) simp_all
  then have "km_store (kmem_zero (a + HDR) n (m\<lparr>km_store := km_store m'\<rparr>)) a = None" 
    by (simp add: kmem_zero_def list_ex_iff)
  then show ?thesis using m assms(2) \<open>a + HDR \<noteq> 0\<close> by (simp add: klime_alloc_def Let_def n_def [symmetric])
qed

text \<open>What a client needs: a fresh pointer or NULL, a release of what it owns, no byte touched.\<close>

lemma klime_inv_bytes [simp]: "klime_inv lo hi (k, m\<lparr>km_bytes := b\<rparr>, live) = klime_inv lo hi (k, m, live)"
  by (simp add: klime_inv_def klime_ok_def)

lemma klime_create_bytes: "klime_create kl n m = Some (p, kl', m') \<Longrightarrow> km_bytes m' = km_bytes m"
  by (auto simp: klime_create_def Let_def split: option.splits if_splits)

lemma klime_free_bytes: "klime_free kl p m = Some (kl', m') \<Longrightarrow> km_bytes m' = km_bytes m"
  by (auto simp: klime_free_def Let_def split: option.splits if_splits)

lemma klime_live_nz:
  assumes "klime_inv lo hi (k, m, live)"
  shows "0 \<notin> live"
proof -
  obtain bs where "klime_ok k m bs lo hi" "live = live_ptrs bs" using assms by (auto simp: klime_inv_def)
  then show ?thesis using ptr_nz [of "km_store m" bs lo hi] by (force simp: klime_ok_def live_ptrs_def)
qed

lemma klime_create_inv:
  assumes "klime_inv lo hi (k, m, live)"
  shows "\<exists>p k' m'. klime_create (Some k) n m = Some (p, Some k', m') \<and> p \<notin> live
    \<and> klime_inv lo hi (k', m', if p = 0 then live else insert p live)"
proof -
  obtain p k' m' where c: "klime_create (Some k) n m = Some (p, Some k', m')"
    using klime_inv_create_returns [OF assms] by blast
  obtain bs where bs: "klime_ok k m bs lo hi" "live = live_ptrs bs" using assms by (auto simp: klime_inv_def)
  have dist: "distinct (map fst bs)" and h: "heap_ok (km_store m) bs lo hi"
    using bs(1) tiled_distinct by (auto simp: klime_ok_def heap_ok_def)
  have "p \<notin> live"
  proof (cases "p = 0")
    case True
    then show ?thesis using klime_live_nz [OF assms] by simp
  next
    case False
    then have "n \<noteq> 0" using c by (auto simp: klime_create_def)
    from klime_create_cases [OF bs(1) this] c False obtain xs a c' ys where
      e: "best_split (round16 n) bs xs (a, c', False) ys" "p = a + HDR" by fastforce
    then have "bs = xs @ (a, c', False) # ys" by (simp add: best_split_def)
    then show ?thesis using dist live_ptrs_distinct [of xs a c' False ys] e(2) bs(2) by auto
  qed
  then show ?thesis using c klime_step_inv [OF klime_step.create [OF c] assms] by blast
qed

lemma klime_free_inv:
  assumes "klime_inv lo hi (k, m, live)" "p \<in> live"
  shows "\<exists>k' m'. klime_free (Some k) p m = Some (Some k', m') \<and> klime_inv lo hi (k', m', live - {p})"
  using klime_inv_free_returns [OF assms] klime_step_inv [OF klime_step.release [OF assms(2)] assms(1)] by blast

section \<open>Properties\<close>

text \<open>
  C3. On a well-formed heap \<open>malloc\<close> picks, among the free blocks that hold the
  rounded request, the first of the smallest size, cuts it in two when the rest holds a header and
  16 bytes, marks it used and leaves a well-formed heap; when no free block is large enough it
  returns NULL and changes nothing.
\<close>

theorem malloc_best_fit:
  assumes "heap_ok st bs lo hi" "n \<noteq> 0"
  shows "(\<exists>xs a k ys st'. best_split (round16 n) bs xs (a, k, False) ys
           \<and> malloc st (head_addr bs 0) n = Some (a + HDR, st')
           \<and> heap_ok st' (xs @ carve (round16 n) a k @ ys) lo hi)
       \<or> (malloc st (head_addr bs 0) n = Some (0, st) \<and> (\<forall>b\<in>set bs. \<not> fits (round16 n) b))"
  using malloc_spec [OF assms] .

text \<open>A heap of three blocks at 0x1000: 64 bytes free, 32 in use, 64 free.\<close>

definition st_ex :: hstore where
  "st_ex = [0x1000 \<mapsto> \<lparr>hb_magic = BLOCK_MAGIC, hb_size = 64, hb_next = 0x1068, hb_prev = 0, hb_used = 0\<rparr>,
            0x1068 \<mapsto> \<lparr>hb_magic = BLOCK_MAGIC, hb_size = 32, hb_next = 0x10B0, hb_prev = 0x1000, hb_used = 1\<rparr>,
            0x10B0 \<mapsto> \<lparr>hb_magic = BLOCK_MAGIC, hb_size = 64, hb_next = 0, hb_prev = 0x1068, hb_used = 0\<rparr>]"

definition bs_ex :: "ablock list" where
  "bs_ex = [(0x1000, 64, False), (0x1068, 32, True), (0x10B0, 64, False)]"

lemma heap_ok_ex: "heap_ok st_ex bs_ex 0x1000 0x1118"
  by (simp add: heap_ok_def st_ex_def bs_ex_def)

theorem malloc_best_fit_witness:
  "\<exists>xs a k ys st'. best_split (round16 5) bs_ex xs (a, k, False) ys
     \<and> malloc st_ex (head_addr bs_ex 0) 5 = Some (a + HDR, st')
     \<and> heap_ok st' (xs @ carve (round16 5) a k @ ys) 0x1000 0x1118"
proof -
  have r: "round16 5 = 16" by (simp add: round16_def)
  have "\<not> (\<forall>b\<in>set bs_ex. \<not> fits (round16 5) b)" by (simp add: bs_ex_def fits_def r)
  then show ?thesis using malloc_best_fit [OF heap_ok_ex, of 5] by auto
qed

text \<open>
  C4. Freeing a block in use of a well-formed heap makes it one free block with all
  the free blocks next to it, returns how many there were, leaves the heap well-formed, and leaves
  no two free neighbours when there were none before.
\<close>

theorem free_merges:
  assumes "heap_ok st (xs @ (a, n, True) # ys) lo hi"
  shows "\<exists>st'. free st (a + HDR) =
      Some (length (takeWhile blk_free ys) + length (takeWhile blk_free (rev xs)), st')
    \<and> heap_ok st' (merged xs a n ys) lo hi
    \<and> (coalesced (xs @ (a, n, True) # ys) \<longrightarrow> coalesced (merged xs a n ys))"
  using free_spec [OF assms] coalesced_merged [of xs a n True ys] by blast

theorem free_merges_witness:
  "\<exists>st'. free st_ex (0x1068 + HDR) = Some (2, st') \<and> heap_ok st' [(0x1000, 240, False)] 0x1000 0x1118"
  using free_merges [of st_ex "[(0x1000, 64, False)]" "0x1068" 32 "[(0x10B0, 64, False)]" "0x1000" "0x1118"]
    heap_ok_ex by (auto simp: bs_ex_def merged_def HDR_def)

text \<open>
  What a successful allocation grants: the block is at least as large
  as the request, and at most 70 bytes larger, as long as the request can be rounded up to a
  multiple of 16; a request above 2^64 - 16 rounds to 0, so the block it gets has less than 56
  bytes.
\<close>

lemma malloc_grants_request:
  assumes "heap_ok st bs lo hi" "malloc st (head_addr bs 0) n = Some (p, st')" "p \<noteq> 0"
  shows "\<exists>b. st' (p - HDR) = Some b \<and> hb_used b = 1
    \<and> (if unat n \<le> 2 ^ 64 - 16 then n \<le> hb_size b \<and> unat (hb_size b) \<le> unat n + 70
       else unat (hb_size b) < 56)"
proof -
  have "n \<noteq> 0" using assms(2,3) by (auto simp: malloc_def)
  from malloc_spec [OF assms(1) this] assms(2,3) obtain xs a k ys where
    *: "best_split (round16 n) bs xs (a, k, False) ys" "p = a + HDR"
       "heap_ok st' (xs @ carve (round16 n) a k @ ys) lo hi" by auto
  have mem: "(a, granted (round16 n) k, True) \<in> set (xs @ carve (round16 n) a k @ ys)"
    by (simp add: carve_def granted_def)
  obtain b where b: "st' a = Some b" "hb_size b = granted (round16 n) k" "hb_used b = 1"
    using heap_ok_header [OF *(3) mem] by auto
  have k: "(a, k, False) \<in> set bs" "round16 n \<le> k" using *(1) by (auto simp: best_split_def fits_def)
  have k40: "unat k < 2 ^ 40" using heap_ok_mem(4) [OF assms(1) k(1)] .
  have g: "granted (round16 n) k = (if unat (round16 n) + 56 \<le> unat k then round16 n else k)"
    using carve_cond [OF k40 k(2)] by (simp add: granted_def)
  have r: "unat (round16 n) = (if unat n \<le> 2 ^ 64 - 16 then 16 * ((unat n + 15) div 16) else 0)"
    by (rule unat_round16)
  have "n \<le> granted (round16 n) k \<and> unat (granted (round16 n) k) \<le> unat n + 70" if "unat n \<le> 2 ^ 64 - 16"
    using g r that k(2) by (auto simp: word_le_nat_alt)
  moreover have "unat (granted (round16 n) k) < 56" if "\<not> unat n \<le> 2 ^ 64 - 16"
    using g r that by (auto simp: word_le_nat_alt)
  ultimately show ?thesis using b *(2) by auto
qed

text \<open>A region at 0x100000 right after \<open>klime_init\<close>.\<close>

definition k_ex :: "klime \<times> kmem" where
  "k_ex = projr (klime_init 0x100000 0x2000000 \<lparr>km_store = Map.empty, km_bytes = (\<lambda>_. 0)\<rparr>)"

abbreviation bs_k :: "ablock list" where
  "bs_k \<equiv> [(0x100000 + KLIME_OFFSET_HEAP, KLIME_SIZE_HEAP - HDR, False)]"

lemma klime_ok_ex: "klime_ok (fst k_ex) (snd k_ex) bs_k 15736832 34603008" "used_heap (fst k_ex) = 0"
  using klime_init_ok [of "0x100000" "0x2000000" "\<lparr>km_store = Map.empty, km_bytes = (\<lambda>_. 0)\<rparr>"]
  by (auto simp: k_ex_def HDR_def)

lemma malloc_grants_request_witness:
  "\<exists>p st' b. malloc st_ex (head_addr bs_ex 0) 0xFFFFFFFFFFFFFFFF = Some (p, st')
     \<and> st' (p - HDR) = Some b \<and> unat (hb_size b) < 56"
proof -
  have r: "round16 0xFFFFFFFFFFFFFFFF = 0" by (simp add: round16_def)
  have "\<not> (\<forall>b\<in>set bs_ex. \<not> fits (round16 0xFFFFFFFFFFFFFFFF) b)" by (simp add: bs_ex_def fits_def r)
  then obtain xs a k ys st' where *: "best_split (round16 0xFFFFFFFFFFFFFFFF) bs_ex xs (a, k, False) ys"
    "malloc st_ex (head_addr bs_ex 0) 0xFFFFFFFFFFFFFFFF = Some (a + HDR, st')"
    using malloc_spec [OF heap_ok_ex, of "0xFFFFFFFFFFFFFFFF"] by auto
  have "bs_ex = xs @ (a, k, False) # ys" using *(1) by (simp add: best_split_def)
  then have "(a, k, False) \<in> set bs_ex" by (metis in_set_conv_decomp)
  from malloc_grants_request [OF heap_ok_ex *(2) ptr_nz [OF heap_ok_ex this]] *(2) show ?thesis by auto
qed

text \<open>
  C5. After \<open>klime_init\<close>, whatever calls of \<open>klime_create\<close>, of \<open>klime_alloc\<close> with a product of size and count that, cut to
  64 bits, is at most $2^{64} - 16$, and of \<open>klime_free\<close> with live pointers follow, the heap stays a chain of blocks that tiles its
  region with no two free neighbours, the live pointers are exactly the payloads of the blocks in use, and every further call of
  this kind returns. A larger product destroys the heap (lemma \<open>klime_alloc_destroys\<close>).
\<close>

theorem klime_reach_heap:
  assumes "klime_init ptr sz m0 = Inr (k0, m1)" "unat ptr + 33554432 < 2 ^ 64"
    and "klime_reach (k0, m1, {}) (k, m, live)"
  shows "(\<exists>bs. klime_ok k m bs (unat ptr + 14688256) (unat ptr + 33554432) \<and> coalesced bs
      \<and> live = live_ptrs bs)
    \<and> (\<forall>n. \<exists>p k' m'. klime_create (Some k) n m = Some (p, Some k', m'))
    \<and> (\<forall>n c. unat (c * n) \<le> 2 ^ 64 - 16 \<longrightarrow> (\<exists>p k' m'. klime_alloc (Some k) n c m = Some (p, Some k', m')))
    \<and> (\<forall>p\<in>live. \<exists>k' m'. klime_free (Some k) p m = Some (Some k', m'))"
proof -
  have "ptr \<noteq> 0" "HDR \<le> sz" using assms(1) by (auto simp: klime_init_def split: if_splits)
  then have "klime_inv (unat ptr + 14688256) (unat ptr + 33554432) (k0, m1, {})"
    using klime_init_ok [of ptr sz m0] assms(1,2) by (auto simp: klime_inv_def coalesced_def)
  then have inv: "klime_inv (unat ptr + 14688256) (unat ptr + 33554432) (k, m, live)"
    using klime_reach_inv [OF assms(3)] by blast
  then have "\<exists>bs. klime_ok k m bs (unat ptr + 14688256) (unat ptr + 33554432) \<and> coalesced bs
      \<and> live = live_ptrs bs" by (simp add: klime_inv_def)
  then show ?thesis
    using klime_inv_create_returns [OF inv] klime_inv_alloc_returns [OF inv] klime_inv_free_returns [OF inv] by blast
qed

theorem klime_reach_heap_witness:
  "\<exists>p k' m' bs. klime_create (Some (fst k_ex)) 100 (snd k_ex) = Some (p, Some k', m')
     \<and> klime_ok k' m' bs 15736832 34603008 \<and> coalesced bs"
proof -
  have i: "klime_init 0x100000 0x2000000 \<lparr>km_store = Map.empty, km_bytes = (\<lambda>_. 0)\<rparr> = Inr (fst k_ex, snd k_ex)"
    using klime_init_ok [of "0x100000" "0x2000000" "\<lparr>km_store = Map.empty, km_bytes = (\<lambda>_. 0)\<rparr>"]
    by (auto simp: k_ex_def HDR_def)
  note r = klime_reach_heap [OF i, simplified]
  obtain p k' m' where c: "klime_create (Some (fst k_ex)) 100 (snd k_ex) = Some (p, Some k', m')"
    using r [OF klime_reach.start] by blast
  have "klime_reach (fst k_ex, snd k_ex, {}) (k', m', if p = 0 then {} else insert p {})"
    using klime_reach.next_step [OF klime_reach.start klime_step.create [OF c]] .
  from r [OF this] c show ?thesis by blast
qed

text \<open>
  Freeing a block right after it was allocated gives back the same chain of
  blocks; the counter \<open>used_heap\<close> returns to its old value when the allocation cut a block in
  two, and is 40 bytes too high when it used a block whole.
\<close>

lemma klime_create_free:
  assumes "klime_ok k m bs lo hi" "coalesced bs"
    and "klime_create (Some k) n m = Some (p, Some k', m')" "p \<noteq> 0"
  shows "\<exists>xs a c ys k'' m''. best_split (round16 n) bs xs (a, c, False) ys
    \<and> klime_free (Some k') p m' = Some (Some k'', m'') \<and> klime_ok k'' m'' bs lo hi
    \<and> used_heap k'' = used_heap k + (if round16 n + HDR + 16 \<le> c then 0 else HDR)"
proof -
  have "n \<noteq> 0" using assms(3,4) by (auto simp: klime_create_def)
  from klime_create_cases [OF assms(1) this] assms(3,4) obtain xs a c ys where
    *: "best_split (round16 n) bs xs (a, c, False) ys" "p = a + HDR"
       "k' = k\<lparr>used_heap := used_heap k + (granted (round16 n) c + HDR)\<rparr>"
       "klime_ok k m' (xs @ carve (round16 n) a c @ ys) lo hi" by fastforce
  have bs: "bs = xs @ (a, c, False) # ys" using *(1) by (simp add: best_split_def)
  define tl where "tl = (if round16 n + HDR + 16 \<le> c
     then [(a + HDR + round16 n, c - round16 n - HDR, False)] else []) @ ys"
  have e: "xs @ carve (round16 n) a c @ ys = xs @ (a, granted (round16 n) c, True) # tl"
    by (simp add: carve_def granted_def tl_def)
  have ok': "klime_ok k' m' (xs @ (a, granted (round16 n) c, True) # tl) lo hi"
    using *(3,4) e by (simp add: klime_ok_def)
  have mg: "merged xs a (granted (round16 n) c) tl = bs"
    using merged_carve [of xs a c ys] assms(2) by (simp add: bs granted_def tl_def)
  have len: "length (takeWhile blk_free tl) + length (takeWhile blk_free (rev xs)) =
      (if round16 n + HDR + 16 \<le> c then 1 else 0)"
    using coalesced_middle [of xs a c ys] assms(2) by (simp add: bs tl_def)
  define k2 where "k2 = k'\<lparr>used_heap := used_heap k' - granted (round16 n) c
     - HDR * word_of_nat (if round16 n + HDR + 16 \<le> c then 1 else 0)\<rparr>"
  obtain m'' where m2: "klime_free (Some k') p m' = Some (Some k2, m'')" "klime_ok k' m'' bs lo hi"
    using klime_free_cases [OF ok'] mg *(2) unfolding len k2_def by auto
  moreover have "klime_ok k2 m'' bs lo hi" using m2(2) by (simp add: klime_ok_def k2_def)
  moreover have "used_heap k2 = used_heap k + (if round16 n + HDR + 16 \<le> c then 0 else HDR)"
    by (simp add: k2_def *(3))
  ultimately show ?thesis using *(1) by blast
qed

lemma klime_create_free_witness:
  "\<exists>p k' m' k'' m''. klime_create (Some (fst k_ex)) 100 (snd k_ex) = Some (p, Some k', m') \<and> p \<noteq> 0
     \<and> klime_free (Some k') p m' = Some (Some k'', m'') \<and> used_heap k'' = 0"
proof -
  have r: "round16 100 = 112" by (simp add: round16_def)
  have fit: "fits (round16 100) (0x100000 + KLIME_OFFSET_HEAP, KLIME_SIZE_HEAP - HDR, False)"
    by (simp add: fits_def r klime_layout_defs HDR_def)
  obtain p k' m' where c: "klime_create (Some (fst k_ex)) 100 (snd k_ex) = Some (p, Some k', m')" "p \<noteq> 0"
  proof -
    have nz: "a + HDR \<noteq> 0" if "best_split (round16 100) bs_k xs (a, c, False) ys" for xs a c ys
      using that klime_ok_ex(1) ptr_nz [of "km_store (snd k_ex)" bs_k 15736832 34603008 a c False]
      by (simp add: best_split_def klime_ok_def)
    have "\<not> (\<forall>b\<in>set bs_k. \<not> fits (round16 100) b)" using fit by simp
    then obtain xs a c ys m' where s: "best_split (round16 100) bs_k xs (a, c, False) ys"
      "klime_create (Some (fst k_ex)) 100 (snd k_ex) =
         Some (a + HDR, Some ((fst k_ex)\<lparr>used_heap := used_heap (fst k_ex) + (granted (round16 100) c + HDR)\<rparr>), m')"
      using klime_create_cases [OF klime_ok_ex(1), of 100] by auto
    show ?thesis by (rule that [OF s(2) nz [OF s(1)]])
  qed
  have "coalesced bs_k" by (simp add: coalesced_def)
  from klime_create_free [OF klime_ok_ex(1) this c] obtain xs a d ys k'' m'' where
    *: "best_split (round16 100) bs_k xs (a, d, False) ys" "klime_free (Some k') p m' = Some (Some k'', m'')"
       "used_heap k'' = (if round16 100 + HDR + 16 \<le> d then 0 else HDR)"
    using klime_ok_ex(2) by auto
  have "d = KLIME_SIZE_HEAP - HDR" using *(1) by (auto simp: best_split_def Cons_eq_append_conv)
  then have "used_heap k'' = 0" using *(3) by (simp add: r klime_layout_defs HDR_def)
  then show ?thesis using c *(2) by blast
qed

end
