(* ===== verification/MemLib.thy ===== *)
theory MemLib
  imports Prelude
begin

text \<open>
  The byte routines of \<^verbatim>\<open>emex/kernel/mem/lib/mem.c\<close> on a byte-addressed memory: the unaligned
  head, the eight-byte blocks and the tail are separate loops, as in the code, and the lemmas say
  when they add up to one block operation.
\<close>

type_synonym mem = "u64 \<Rightarrow> u8"

section \<open>Eight bytes at a time\<close>

text \<open>Little endian loads and stores of a \<open>u64\<close>.\<close>

definition load64 :: "mem \<Rightarrow> u64 \<Rightarrow> u64" where
  "load64 m a = foldr (\<lambda>i v. push_bit 8 v OR ucast (m (a + word_of_nat i))) [0..<8] 0"

definition store64 :: "mem \<Rightarrow> u64 \<Rightarrow> u64 \<Rightarrow> mem" where
  "store64 m a v = fold (\<lambda>i m. m(a + word_of_nat i := ucast (drop_bit (8 * i) v))) [0..<8] m"

section \<open>memset\<close>

fun set_head :: "mem \<Rightarrow> u64 \<Rightarrow> u8 \<Rightarrow> nat \<Rightarrow> mem \<times> u64 \<times> nat" where
  "set_head m p v 0 = (m, p, 0)"
| "set_head m p v (Suc n) = (if p AND 7 \<noteq> 0 then set_head (m(p := v)) (p + 1) v n else (m, p, Suc n))"

fun set_blocks :: "mem \<Rightarrow> u64 \<Rightarrow> u64 \<Rightarrow> nat \<Rightarrow> mem \<times> u64" where
  "set_blocks m p fill 0 = (m, p)"
| "set_blocks m p fill (Suc b) = set_blocks (store64 m p fill) (p + 8) fill b"

fun set_tail :: "mem \<Rightarrow> u64 \<Rightarrow> u8 \<Rightarrow> nat \<Rightarrow> mem" where
  "set_tail m p v 0 = m"
| "set_tail m p v (Suc n) = set_tail (m(p := v)) (p + 1) v n"

definition memset :: "mem \<Rightarrow> u64 \<Rightarrow> u8 \<Rightarrow> u64 \<Rightarrow> mem" where
  "memset m ptr val n =
    (let (m1, p, n1) = set_head m ptr val (unat n);
         fill = ucast val * 0x0101010101010101;
         (m2, p2) = set_blocks m1 p fill (n1 div 8)
     in set_tail m2 p2 val (n1 mod 8))"

section \<open>memcpy and memmove\<close>

fun copy_head :: "mem \<Rightarrow> u64 \<Rightarrow> u64 \<Rightarrow> nat \<Rightarrow> mem \<times> u64 \<times> u64 \<times> nat" where
  "copy_head m d s 0 = (m, d, s, 0)"
| "copy_head m d s (Suc n) =
    (if d AND 7 \<noteq> 0 then copy_head (m(d := m s)) (d + 1) (s + 1) n else (m, d, s, Suc n))"

fun copy_blocks :: "mem \<Rightarrow> u64 \<Rightarrow> u64 \<Rightarrow> nat \<Rightarrow> mem \<times> u64 \<times> u64" where
  "copy_blocks m d s 0 = (m, d, s)"
| "copy_blocks m d s (Suc b) = copy_blocks (store64 m d (load64 m s)) (d + 8) (s + 8) b"

fun copy_tail :: "mem \<Rightarrow> u64 \<Rightarrow> u64 \<Rightarrow> nat \<Rightarrow> mem" where
  "copy_tail m d s 0 = m"
| "copy_tail m d s (Suc n) = copy_tail (m(d := m s)) (d + 1) (s + 1) n"

text \<open>\<^verbatim>\<open>d64\<close>, \<^verbatim>\<open>s64\<close> and \<^verbatim>\<open>blocks\<close> are read before the head is copied.\<close>

definition memcpy :: "mem \<Rightarrow> u64 \<Rightarrow> u64 \<Rightarrow> u64 \<Rightarrow> mem" where
  "memcpy m dst src n =
    (let blocks = unat n div 8;
         (m1, d, s, n1) = copy_head m dst src (unat n);
         (m2, d64, s64) = copy_blocks m1 dst src blocks
     in copy_tail m2 d64 s64 (n1 mod 8))"

fun back_head :: "mem \<Rightarrow> u64 \<Rightarrow> u64 \<Rightarrow> nat \<Rightarrow> mem \<times> u64 \<times> u64 \<times> nat" where
  "back_head m d s 0 = (m, d, s, 0)"
| "back_head m d s (Suc n) =
    (if d AND 7 \<noteq> 0 then back_head (m(d - 1 := m (s - 1))) (d - 1) (s - 1) n else (m, d, s, Suc n))"

fun back_blocks :: "mem \<Rightarrow> u64 \<Rightarrow> u64 \<Rightarrow> nat \<Rightarrow> mem \<times> u64 \<times> u64" where
  "back_blocks m d s 0 = (m, d, s)"
| "back_blocks m d s (Suc b) = back_blocks (store64 m (d - 8) (load64 m (s - 8))) (d - 8) (s - 8) b"

fun back_tail :: "mem \<Rightarrow> u64 \<Rightarrow> u64 \<Rightarrow> nat \<Rightarrow> mem" where
  "back_tail m d s 0 = m"
| "back_tail m d s (Suc n) = back_tail (m(d - 1 := m (s - 1))) (d - 1) (s - 1) n"

definition memmove :: "mem \<Rightarrow> u64 \<Rightarrow> u64 \<Rightarrow> u64 \<Rightarrow> mem" where
  "memmove m dst src n =
    (if dst = src \<or> n = 0 then m
     else if dst < src then
       (let (m1, d, s, n1) = copy_head m dst src (unat n);
            (m2, d64, s64) = copy_blocks m1 d s (n1 div 8)
        in copy_tail m2 d64 s64 (n1 mod 8))
     else
       (let (m1, d, s, n1) = back_head m (dst + n) (src + n) (unat n);
            (m2, d64, s64) = back_blocks m1 d s (n1 div 8)
        in back_tail m2 d64 s64 (n1 mod 8)))"

section \<open>memcmp\<close>

fun memcmp_loop :: "mem \<Rightarrow> u64 \<Rightarrow> u64 \<Rightarrow> nat \<Rightarrow> int" where
  "memcmp_loop m a b 0 = 0"
| "memcmp_loop m a b (Suc n) =
    (if m a \<noteq> m b then uint (m a) - uint (m b) else memcmp_loop m (a + 1) (b + 1) n)"

definition memcmp :: "mem \<Rightarrow> u64 \<Rightarrow> u64 \<Rightarrow> u64 \<Rightarrow> int" where
  "memcmp m a b n = memcmp_loop m a b (unat n)"

section \<open>Ranges of addresses\<close>

definition span :: "u64 \<Rightarrow> nat \<Rightarrow> u64 \<Rightarrow> bool" where
  "span p n a \<longleftrightarrow> unat (a - p) < n"

lemma span_0 [simp]: "\<not> span p 0 a" by (simp add: span_def)

lemma unat_sub_of_nat:
  assumes "n < 2 ^ 64"
  shows "unat (x - word_of_nat n :: u64) = (if n \<le> unat x then unat x - n else unat x + 2 ^ 64 - n)"
proof -
  have "unat (word_of_nat n :: u64) = n" using assms by (simp add: unat_of_nat)
  then show ?thesis by (simp add: unat_sub_if')
qed

lemma span_add:
  assumes "n + k \<le> 2 ^ 64" "0 < k"
  shows "span p (n + k) a \<longleftrightarrow> span p n a \<or> span (p + word_of_nat n) k a"
proof -
  have e: "a - (p + word_of_nat n) = (a - p) - word_of_nat n" by simp
  have "n < 2 ^ 64" using assms by simp
  then show ?thesis using unat_sub_of_nat [of n "a - p"] assms unfolding span_def e by auto
qed

lemma span_1 [simp]: "span p (Suc 0) a \<longleftrightarrow> a = p"
  by (auto simp: span_def unsigned_eq_0_iff)

definition fill_span :: "mem \<Rightarrow> u64 \<Rightarrow> nat \<Rightarrow> u8 \<Rightarrow> mem" where
  "fill_span m p n v = (\<lambda>a. if span p n a then v else m a)"

lemma fill_span_0 [simp]: "fill_span m p 0 v = m"
  by (simp add: fill_span_def)

lemma fill_span_add:
  assumes "n + k \<le> 2 ^ 64"
  shows "fill_span (fill_span m p n v) (p + word_of_nat n) k v = fill_span m p (n + k) v"
  using span_add [OF assms] by (cases "k = 0") (auto simp: fill_span_def)

text \<open>The block copy: bytes \<open>s\<close> to \<open>s + n\<close> of the old memory appear at \<open>d\<close>.\<close>

definition blit :: "mem \<Rightarrow> u64 \<Rightarrow> u64 \<Rightarrow> nat \<Rightarrow> mem" where
  "blit m d s n = (\<lambda>a. if span d n a then m (s + (a - d)) else m a)"

lemma blit_0 [simp]: "blit m d s 0 = m"
  by (simp add: blit_def)

lemma blit_1: "m(d := m s) = blit m d s 1"
  by (auto simp: blit_def)

text \<open>A copy that does not overwrite what the next one reads is extended by it.\<close>

lemma blit_add:
  assumes "n + k \<le> 2 ^ 64" and "\<And>i. i < k \<Longrightarrow> \<not> span d n (s + word_of_nat (n + i))"
  shows "blit (blit m d s n) (d + word_of_nat n) (s + word_of_nat n) k = blit m d s (n + k)"
proof (cases "k = 0")
  case False
  show ?thesis
  proof
    fix a
    show "blit (blit m d s n) (d + word_of_nat n) (s + word_of_nat n) k a = blit m d s (n + k) a"
    proof (cases "span (d + word_of_nat n) k a")
      case True
      define i where "i = unat (a - (d + word_of_nat n))"
      have i: "i < k" "a - (d + word_of_nat n) = word_of_nat i" using True by (auto simp: i_def span_def)
      then have "\<not> span d n (s + word_of_nat (n + i))" using assms(2) by blast
      moreover have "s + word_of_nat n + (a - (d + word_of_nat n)) = s + word_of_nat (n + i)" using i(2) by simp
      moreover have "s + (a - d) = s + word_of_nat (n + i)" using i(2) by (simp add: algebra_simps)
      ultimately show ?thesis
        using True span_add [OF assms(1), of d a] False by (simp add: blit_def del: of_nat_add)
    next
      case F: False
      then show ?thesis using span_add [OF assms(1), of d a] False by (simp add: blit_def)
    qed
  qed
qed simp

text \<open>The same from the top down.\<close>

lemma blit_down:
  assumes "n + k \<le> 2 ^ 64" and "\<And>i. i < k \<Longrightarrow> \<not> span (d + word_of_nat k) n (s + word_of_nat i)"
  shows "blit (blit m (d + word_of_nat k) (s + word_of_nat k) n) d s k = blit m d s (k + n)"
proof (cases "n = 0")
  case False
  have sp: "span d (k + n) a \<longleftrightarrow> span d k a \<or> span (d + word_of_nat k) n a" for a
    using span_add [of k n d a] assms(1) False by (simp add: add.commute)
  show ?thesis
  proof
    fix a
    show "blit (blit m (d + word_of_nat k) (s + word_of_nat k) n) d s k a = blit m d s (k + n) a"
    proof (cases "span d k a")
      case True
      define i where "i = unat (a - d)"
      have i: "i < k" "a - d = word_of_nat i" using True by (auto simp: i_def span_def)
      then have "\<not> span (d + word_of_nat k) n (s + (a - d))" using assms(2) by simp
      then show ?thesis using True sp [of a] by (simp add: blit_def)
    next
      case F: False
      then show ?thesis using sp [of a] by (simp add: blit_def)
    qed
  qed
qed simp

section \<open>The loops as block operations\<close>

lemma byte_upds:
  "k \<le> 2 ^ 64 \<Longrightarrow> fold (\<lambda>i m. m(p + word_of_nat i := f i)) [0..<k] m
     = (\<lambda>a. if span p k a then f (unat (a - p)) else m a)"
proof (induction k)
  case (Suc k)
  have "span p (k + 1) a \<longleftrightarrow> span p k a \<or> a = p + word_of_nat k" for a
    using span_add [of k 1 p a] Suc.prems by simp
  moreover have "unat (word_of_nat k :: u64) = k" using Suc.prems by (simp add: unat_of_nat)
  ultimately show ?case using Suc by (auto simp: fun_eq_iff)
qed (auto simp: fun_eq_iff)

lemma store64_alt:
  "store64 m p v = (\<lambda>a. if span p 8 a then ucast (drop_bit (8 * unat (a - p)) v) else m a)"
  unfolding store64_def by (rule byte_upds) simp

lemma bit_le_bytes:
  "bit (foldr (\<lambda>b v. push_bit 8 v OR ucast b) bs 0 :: u64) n
     \<longleftrightarrow> n < 64 \<and> n div 8 < length bs \<and> bit (bs ! (n div 8) :: u8) (n mod 8)"
proof (induction bs arbitrary: n)
  case (Cons b bs)
  show ?case
  proof (cases "n < 8")
    case True
    then show ?thesis by (auto simp: bit_simps)
  next
    case False
    moreover have "\<not> bit b n" using False bit_imp_le_length [of b n] by auto
    moreover have "n div 8 = Suc ((n - 8) div 8)" "n mod 8 = (n - 8) mod 8"
      using False by (auto simp: le_div_geq le_mod_geq)
    ultimately show ?thesis using Cons.IH [of "n - 8"] by (auto simp: bit_simps)
  qed
qed simp

lemma byte_load64:
  assumes "i < 8"
  shows "ucast (drop_bit (8 * i) (load64 m a)) = m (a + word_of_nat i)"
proof -
  have l: "load64 m a = foldr (\<lambda>b v. push_bit 8 v OR ucast b) (map (\<lambda>i. m (a + word_of_nat i)) [0..<8]) 0"
    by (simp add: load64_def foldr_map comp_def)
  have "bit (ucast (drop_bit (8 * i) (load64 m a)) :: u8) j = bit (m (a + word_of_nat i)) j" if "j < 8" for j
    using that assms unfolding l by (simp add: bit_simps bit_le_bytes)
  then show ?thesis by (auto simp: bit_eq_iff)
qed

lemma store_load: "store64 m d (load64 m s) = blit m d s 8"
proof
  fix a
  show "store64 m d (load64 m s) a = blit m d s 8 a"
    by (simp add: store64_alt blit_def span_def byte_load64)
qed

lemma repeat_digit:
  assumes "v < (256::nat)" "v * b < c" "k = a * (256 * c) + c + b"
  shows "v * k div c mod 256 = v"
proof -
  have "v * k = (v * a * 256 + v) * c + v * b" by (simp add: assms(3) algebra_simps)
  then have "v * k div c = v * a * 256 + v" using assms(2) by simp
  then show ?thesis using assms(1) by simp
qed

lemma byte_fill:
  assumes "i < 8"
  shows "ucast (drop_bit (8 * i) (ucast (v :: u8) * 0x0101010101010101 :: u64)) = v"
proof -
  let ?v = "unat v"
  have v: "?v < 256" by simp
  have u: "unat (ucast v * 0x0101010101010101 :: u64) = ?v * 0x0101010101010101"
    using v by (simp add: unat_word_ariths unsigned_ucast_eq take_bit_eq_mod del: unat_lt_2p8)
  have "?v * 0x0101010101010101 div 2 ^ (8 * i) mod 256 = ?v"
  proof -
    have digit: "?v * 0x0101010101010101 div c mod 256 = ?v"
      if "255 * b < c" "0x0101010101010101 = a * (256 * c) + c + b" for a b c :: nat
    proof (rule repeat_digit [OF v _ that(2)])
      have "?v \<le> 255" using v by linarith
      then have "?v * b \<le> 255 * b" by (rule mult_right_mono) simp
      then show "?v * b < c" using that(1) by (rule order.strict_trans1)
    qed
    have "i = 0 \<or> i = 1 \<or> i = 2 \<or> i = 3 \<or> i = 4 \<or> i = 5 \<or> i = 6 \<or> i = 7" using assms by arith
    then show ?thesis
    proof (elim disjE)
      assume "i = 0"
      then show ?thesis using digit [of "0" "2 ^ 0" "282578800148737"] by simp
    next
      assume "i = 1"
      then show ?thesis using digit [of "1" "2 ^ 8" "1103823438081"] by simp
    next
      assume "i = 2"
      then show ?thesis using digit [of "257" "2 ^ 16" "4311810305"] by simp
    next
      assume "i = 3"
      then show ?thesis using digit [of "65793" "2 ^ 24" "16843009"] by simp
    next
      assume "i = 4"
      then show ?thesis using digit [of "16843009" "2 ^ 32" "65793"] by simp
    next
      assume "i = 5"
      then show ?thesis using digit [of "4311810305" "2 ^ 40" "257"] by simp
    next
      assume "i = 6"
      then show ?thesis using digit [of "1103823438081" "2 ^ 48" "1"] by simp
    next
      assume "i = 7"
      then show ?thesis using digit [of "282578800148737" "2 ^ 56" "0"] by simp
    qed
  qed
  then have "unat (ucast (drop_bit (8 * i) (ucast v * 0x0101010101010101 :: u64)) :: u8) = ?v"
    using u by (simp only: unsigned_ucast_eq unat_drop_bit) (simp add: take_bit_eq_mod)
  then show ?thesis by (simp add: word_unat_eq_iff)
qed

lemma store_fill: "store64 m p (ucast v * 0x0101010101010101) = fill_span m p 8 v"
  by (auto simp: store64_alt fill_span_def span_def byte_fill fun_eq_iff)

lemma set_tail_eq: "n \<le> 2 ^ 64 \<Longrightarrow> set_tail m p v n = fill_span m p n v"
proof (induction n arbitrary: m p)
  case (Suc n)
  have "set_tail m p v (Suc n) = fill_span (fill_span m p 1 v) (p + word_of_nat 1) n v"
    using Suc by (simp add: fill_span_def fun_upd_def)
  then show ?case using fill_span_add [of 1 n m p v] Suc.prems by simp
qed simp

lemma set_head_eq:
  "n \<le> 2 ^ 64 \<Longrightarrow> set_head m p v n = (m1, p1, n1) \<Longrightarrow>
   \<exists>h\<le>n. n1 = n - h \<and> p1 = p + word_of_nat h \<and> m1 = fill_span m p h v"
proof (induction n arbitrary: m p)
  case (Suc n)
  show ?case
  proof (cases "p AND 7 = 0")
    case False
    then obtain h where h: "h \<le> n" "n1 = n - h" "p1 = p + 1 + word_of_nat h"
      "m1 = fill_span (m(p := v)) (p + 1) h v" using Suc by auto
    have "m1 = fill_span (fill_span m p 1 v) (p + word_of_nat 1) h v"
      using h(4) by (simp add: fill_span_def fun_upd_def)
    then have "m1 = fill_span m p (Suc h) v" using fill_span_add [of 1 h m p v] h(1) Suc.prems by simp
    then show ?thesis using h by (intro exI [of _ "Suc h"]) (auto simp: algebra_simps)
  qed (use Suc.prems in auto)
qed simp

lemma set_blocks_eq:
  "8 * b \<le> 2 ^ 64 \<Longrightarrow> set_blocks m p (ucast v * 0x0101010101010101) b
     = (fill_span m p (8 * b) v, p + word_of_nat (8 * b))"
proof (induction b arbitrary: m p)
  case (Suc b)
  have "fill_span (fill_span m p 8 v) (p + word_of_nat 8) (8 * b) v = fill_span m p (8 + 8 * b) v"
    using Suc.prems by (intro fill_span_add) simp
  then show ?case using Suc by (simp add: store_fill algebra_simps)
qed simp

lemma memset_eq: "memset m ptr v n = fill_span m ptr (unat n) v"
proof -
  obtain m1 p n1 where h: "set_head m ptr v (unat n) = (m1, p, n1)" by (cases "set_head m ptr v (unat n)")
  have n: "unat n < 2 ^ 64" by simp
  obtain k where k: "k \<le> unat n" "n1 = unat n - k"
    "p = ptr + word_of_nat k" "m1 = fill_span m ptr k v"
    using set_head_eq [OF less_imp_le [OF n] h] by auto
  let ?b = "8 * (n1 div 8)"
  have b: "set_blocks m1 p (ucast v * 0x0101010101010101) (n1 div 8) =
      (fill_span m ptr (k + ?b) v, ptr + word_of_nat (k + ?b))"
  proof -
    have le: "k + ?b \<le> 2 ^ 64" "8 * (n1 div 8) \<le> 2 ^ 64" proof -
      have "8 * (n1 div 8) \<le> unat n - k" using k(2) by simp
      then have "k + ?b \<le> unat n" using k(1) by simp
      then show "k + ?b \<le> 2 ^ 64" by (rule order.trans [OF _ less_imp_le [OF n]])
      then show "?b \<le> 2 ^ 64" by simp
    qed
    show ?thesis using set_blocks_eq [OF le(2), of m1 p v] fill_span_add [OF le(1), of m ptr v] k(3,4)
      by (simp add: algebra_simps)
  qed
  have "set_tail (fill_span m ptr (k + ?b) v) (ptr + word_of_nat (k + ?b)) v (n1 mod 8)
      = fill_span m ptr (k + ?b + n1 mod 8) v"
    using k n by (subst set_tail_eq, simp, subst fill_span_add) auto
  then show ?thesis using h b k by (simp add: memset_def Let_def)
qed


section \<open>Copying\<close>

definition apart :: "u64 \<Rightarrow> u64 \<Rightarrow> nat \<Rightarrow> bool" where
  "apart d s n \<longleftrightarrow> unat d + n \<le> 2 ^ 64 \<and> unat s + n \<le> 2 ^ 64 \<and> (unat d + n \<le> unat s \<or> unat s + n \<le> unat d)"

lemma not_span_above:
  assumes "unat s + i < 2 ^ 64" "unat d + n \<le> unat s + i"
  shows "\<not> span d n (s + word_of_nat i)"
proof -
  have "unat (s + word_of_nat i) = unat s + i" using assms(1) by (simp add: unat_word_ariths unat_of_nat)
  then have "unat (s + word_of_nat i - d) = unat s + i - unat d" using assms(2) by (subst unat_sub_if') auto
  then show ?thesis using assms by (auto simp: span_def)
qed

lemma not_span_below:
  assumes "unat s + i < unat d" "unat d + n \<le> 2 ^ 64"
  shows "\<not> span d n (s + word_of_nat i)"
proof -
  have "unat (s + word_of_nat i) = unat s + i"
    using assms(1) unat_lt_2p64 [of d] by (simp add: unat_word_ariths unat_of_nat del: unat_lt_2p64)
  then have "unat (s + word_of_nat i - d) = unat s + i + 2 ^ 64 - unat d" using assms(1) by (subst unat_sub_if') auto
  then show ?thesis using assms by (auto simp: span_def)
qed

text \<open>
  A copy upwards is one block copy when the destination lies below the source, or apart from it.
\<close>

definition up_ok :: "u64 \<Rightarrow> u64 \<Rightarrow> nat \<Rightarrow> bool" where
  "up_ok d s n \<longleftrightarrow> unat d + n \<le> 2 ^ 64 \<and> unat s + n \<le> 2 ^ 64 \<and> (unat d \<le> unat s \<or> unat s + n \<le> unat d)"

lemma blit_up:
  assumes "up_ok d s (n + k)"
  shows "blit (blit m d s n) (d + word_of_nat n) (s + word_of_nat n) k = blit m d s (n + k)"
proof (rule blit_add)
  show "n + k \<le> 2 ^ 64" using assms by (auto simp: up_ok_def)
next
  fix i assume "i < k"
  then show "\<not> span d n (s + word_of_nat (n + i))"
    using assms not_span_above [of s "n + i" d n] not_span_below [of s "n + i" d n]
    unfolding up_ok_def by (auto simp del: of_nat_add)
qed

lemma copy_head_eq:
  "copy_head m0 d0 s0 n = (m1, d1, s1, n1) \<Longrightarrow> m0 = blit m d s k \<Longrightarrow> d0 = d + word_of_nat k \<Longrightarrow>
   s0 = s + word_of_nat k \<Longrightarrow> up_ok d s (k + n) \<Longrightarrow>
   \<exists>h\<le>n. n1 = n - h \<and> d1 = d + word_of_nat (k + h) \<and> s1 = s + word_of_nat (k + h) \<and> m1 = blit m d s (k + h)"
proof (induction n arbitrary: m0 d0 s0 k)
  case (Suc n)
  show ?case
  proof (cases "d0 AND 7 = 0")
    case False
    have "up_ok d s (k + 1)" using Suc.prems(5) by (auto simp: up_ok_def)
    then have "m0(d0 := m0 s0) = blit m d s (k + 1)"
      using blit_up [of d s k 1 m] Suc.prems(2-4) by (simp add: blit_1)
    then obtain h where "h \<le> n" "n1 = n - h" "d1 = d + word_of_nat (k + 1 + h)"
      "s1 = s + word_of_nat (k + 1 + h)" "m1 = blit m d s (k + 1 + h)"
      using Suc.IH [of "m0(d0 := m0 s0)" "d0 + 1" "s0 + 1" "k + 1"] Suc.prems False
      by (auto simp: algebra_simps)
    then show ?thesis by (intro exI [of _ "Suc h"]) (auto simp: algebra_simps)
  qed (use Suc.prems in auto)
qed auto

lemma copy_blocks_eq:
  "up_ok d s (k + 8 * b) \<Longrightarrow> copy_blocks (blit m d s k) (d + word_of_nat k) (s + word_of_nat k) b
     = (blit m d s (k + 8 * b), d + word_of_nat (k + 8 * b), s + word_of_nat (k + 8 * b))"
proof (induction b arbitrary: k)
  case (Suc b)
  have "up_ok d s (k + 8)" "up_ok d s (k + 8 + 8 * b)" using Suc.prems by (auto simp: up_ok_def)
  then show ?case using Suc.IH [of "k + 8"] blit_up [of d s k 8 m] by (simp add: store_load algebra_simps)
qed simp

lemma copy_tail_eq:
  "up_ok d s (k + n) \<Longrightarrow> copy_tail (blit m d s k) (d + word_of_nat k) (s + word_of_nat k) n = blit m d s (k + n)"
proof (induction n arbitrary: k)
  case (Suc n)
  have "up_ok d s (k + 1)" "up_ok d s (k + 1 + n)" using Suc.prems by (auto simp: up_ok_def)
  then show ?case using Suc.IH [of "k + 1"] blit_up [of d s k 1 m] by (simp add: blit_1 algebra_simps)
qed simp

lemma up_ok_mono: "up_ok d s n \<Longrightarrow> k \<le> n \<Longrightarrow> up_ok d s k"
  by (auto simp: up_ok_def)

text \<open>A copy downwards is one block copy when the destination lies above the source.\<close>

definition down_ok :: "u64 \<Rightarrow> u64 \<Rightarrow> nat \<Rightarrow> bool" where
  "down_ok d s n \<longleftrightarrow> unat d + n \<le> 2 ^ 64 \<and> unat s + n \<le> 2 ^ 64 \<and> unat s \<le> unat d"

lemma blit_downward:
  assumes "down_ok d s (k + n)"
  shows "blit (blit m (d + word_of_nat k) (s + word_of_nat k) n) d s k = blit m d s (k + n)"
proof (cases "k = 0 \<or> n = 0")
  case False
  have dk: "unat (d + word_of_nat k) = unat d + k"
    using assms False by (simp add: unat_word_ariths unat_of_nat down_ok_def)
  show ?thesis
  proof (rule blit_down)
    show "n + k \<le> 2 ^ 64" using assms by (auto simp: down_ok_def)
  next
    fix i assume "i < k"
    then show "\<not> span (d + word_of_nat k) n (s + word_of_nat i)"
      using assms dk by (intro not_span_below) (auto simp: down_ok_def)
  qed
qed auto

lemma down_ok_shift:
  assumes "down_ok d s (r + c)" "0 < c"
  shows "down_ok (d + word_of_nat r) (s + word_of_nat r) c"
  using assms by (auto simp: down_ok_def unat_word_ariths unat_of_nat)

lemma blit_step:
  assumes "down_ok d s (r + k + c)" "0 < k"
  shows "blit (blit m (d + word_of_nat (r + k)) (s + word_of_nat (r + k)) c) (d + word_of_nat r) (s + word_of_nat r) k
     = blit m (d + word_of_nat r) (s + word_of_nat r) (k + c)"
  using blit_downward [OF down_ok_shift [of d s r "k + c"]] assms by (simp add: algebra_simps)

lemma back_head_eq:
  "back_head (blit m (d + word_of_nat r) (s + word_of_nat r) c) (d + word_of_nat r) (s + word_of_nat r) r
     = (m1, d1, s1, n1) \<Longrightarrow> down_ok d s (r + c) \<Longrightarrow>
   n1 \<le> r \<and> d1 = d + word_of_nat n1 \<and> s1 = s + word_of_nat n1
     \<and> m1 = blit m (d + word_of_nat n1) (s + word_of_nat n1) (r - n1 + c)"
proof (induction r arbitrary: c)
  case (Suc r)
  show ?case
  proof (cases "(d + word_of_nat (Suc r)) AND 7 = 0")
    case False
    have "(blit m (d + word_of_nat (Suc r)) (s + word_of_nat (Suc r)) c)
        (d + word_of_nat r := blit m (d + word_of_nat (Suc r)) (s + word_of_nat (Suc r)) c (s + word_of_nat r))
      = blit m (d + word_of_nat r) (s + word_of_nat r) (Suc c)"
      unfolding blit_1 using blit_step [of d s r 1 c m] Suc.prems(2) by simp
    then have "n1 \<le> r \<and> d1 = d + word_of_nat n1 \<and> s1 = s + word_of_nat n1
     \<and> m1 = blit m (d + word_of_nat n1) (s + word_of_nat n1) (r - n1 + Suc c)"
      using Suc.prems False by (intro Suc.IH) (auto simp: algebra_simps)
    then show ?thesis by (auto simp: Suc_diff_le)
  qed (use Suc.prems in auto)
qed auto

lemma back_blocks_eq:
  "down_ok d s (r + 8 * b + c) \<Longrightarrow>
   back_blocks (blit m (d + word_of_nat (r + 8 * b)) (s + word_of_nat (r + 8 * b)) c)
     (d + word_of_nat (r + 8 * b)) (s + word_of_nat (r + 8 * b)) b
   = (blit m (d + word_of_nat r) (s + word_of_nat r) (8 * b + c), d + word_of_nat r, s + word_of_nat r)"
proof (induction b arbitrary: c)
  case (Suc b)
  have e: "r + 8 * Suc b = r + 8 * b + 8" by simp
  have *: "d + word_of_nat (r + 8 * Suc b) - 8 = d + word_of_nat (r + 8 * b)"
       "s + word_of_nat (r + 8 * Suc b) - 8 = s + word_of_nat (r + 8 * b)" by simp_all
  have "blit (blit m (d + word_of_nat (r + 8 * Suc b)) (s + word_of_nat (r + 8 * Suc b)) c)
      (d + word_of_nat (r + 8 * b)) (s + word_of_nat (r + 8 * b)) 8
    = blit m (d + word_of_nat (r + 8 * b)) (s + word_of_nat (r + 8 * b)) (8 + c)"
    unfolding e using Suc.prems by (intro blit_step) (simp_all add: ac_simps)
  moreover have "down_ok d s (r + 8 * b + (8 + c))" using Suc.prems by (simp add: algebra_simps)
  ultimately show ?case
    unfolding back_blocks.simps * store_load using Suc.IH [of "8 + c"] by (simp add: algebra_simps)
qed simp

lemma back_tail_eq:
  "down_ok d s (r + c) \<Longrightarrow>
   back_tail (blit m (d + word_of_nat r) (s + word_of_nat r) c) (d + word_of_nat r) (s + word_of_nat r) r
   = blit m d s (r + c)"
proof (induction r arbitrary: c)
  case (Suc r)
  have *: "d + word_of_nat (Suc r) - 1 = d + word_of_nat r" "s + word_of_nat (Suc r) - 1 = s + word_of_nat r"
    by simp_all
  have "blit (blit m (d + word_of_nat (Suc r)) (s + word_of_nat (Suc r)) c) (d + word_of_nat r) (s + word_of_nat r) 1
    = blit m (d + word_of_nat r) (s + word_of_nat r) (1 + c)"
    using blit_step [of d s r 1 c m] Suc.prems by simp
  then show ?case
    unfolding back_tail.simps * blit_1 using Suc.IH [of "1 + c"] Suc.prems by simp
qed simp

lemma memmove_eq:
  assumes "unat dst + unat n \<le> 2 ^ 64" "unat src + unat n \<le> 2 ^ 64"
  shows "memmove m dst src n = blit m dst src (unat n)"
proof -
  consider "dst = src \<or> n = 0" | "n \<noteq> 0" "dst < src" | "n \<noteq> 0" "src < dst" by fastforce
  then show ?thesis
  proof cases
    case 1
    then show ?thesis by (auto simp: memmove_def blit_def)
  next
    case 2
    have up: "up_ok dst src (unat n)" using assms 2(2) by (simp add: up_ok_def word_less_nat_alt)
    obtain m1 d s n1 where h: "copy_head m dst src (unat n) = (m1, d, s, n1)"
      by (cases "copy_head m dst src (unat n)")
    from copy_head_eq [OF h, of m dst src 0] up obtain k where
      k: "k \<le> unat n" "n1 = unat n - k" "d = dst + word_of_nat k" "s = src + word_of_nat k" "m1 = blit m dst src k"
      by auto
    have e: "k + 8 * (n1 div 8) + n1 mod 8 = unat n" using k(1,2) by simp
    have up1: "up_ok dst src (k + 8 * (n1 div 8))" "up_ok dst src (k + 8 * (n1 div 8) + n1 mod 8)"
      using up_ok_mono [OF up, of "k + 8 * (n1 div 8)"] up e by simp_all
    have ne: "dst \<noteq> src" using 2(2) by (rule less_imp_neq)
    have b: "copy_blocks m1 d s (n1 div 8) = (blit m dst src (k + 8 * (n1 div 8)),
        dst + word_of_nat (k + 8 * (n1 div 8)), src + word_of_nat (k + 8 * (n1 div 8)))"
      using copy_blocks_eq [OF up1(1), of m] unfolding k(3-5) .
    have "copy_tail (blit m dst src (k + 8 * (n1 div 8))) (dst + word_of_nat (k + 8 * (n1 div 8)))
        (src + word_of_nat (k + 8 * (n1 div 8))) (n1 mod 8) = blit m dst src (unat n)"
      using copy_tail_eq [OF up1(2), of m] unfolding e .
    then show ?thesis using 2 ne by (simp add: memmove_def h b)
  next
    case 3
    have dn: "down_ok dst src (unat n)" using assms 3(2) by (simp add: down_ok_def word_less_nat_alt)
    obtain m1 d s n1 where h: "back_head m (dst + n) (src + n) (unat n) = (m1, d, s, n1)"
      by (cases "back_head m (dst + n) (src + n) (unat n)")
    from back_head_eq [of m dst "unat n" src 0] h dn have
      k: "n1 \<le> unat n" "d = dst + word_of_nat n1" "s = src + word_of_nat n1"
         "m1 = blit m (dst + word_of_nat n1) (src + word_of_nat n1) (unat n - n1)" by auto
    let ?t = "n1 mod 8" and ?b = "n1 div 8"
    have e: "?t + 8 * ?b = n1" by simp
    have d1: "down_ok dst src (?t + 8 * ?b + (unat n - n1))" using dn k(1) e by simp
    have d2: "down_ok dst src (?t + (8 * ?b + (unat n - n1)))" using d1 by (simp add: add.assoc)
    have l: "?t + (8 * ?b + (unat n - n1)) = unat n" using k(1) e by linarith
    have b: "back_blocks m1 d s ?b = (blit m (dst + word_of_nat ?t) (src + word_of_nat ?t) (8 * ?b + (unat n - n1)),
        dst + word_of_nat ?t, src + word_of_nat ?t)"
      using back_blocks_eq [OF d1, of m] unfolding e k(2-4) .
    have "back_tail (blit m (dst + word_of_nat ?t) (src + word_of_nat ?t) (8 * ?b + (unat n - n1)))
        (dst + word_of_nat ?t) (src + word_of_nat ?t) ?t = blit m dst src (unat n)"
      using back_tail_eq [OF d2, of m] unfolding l .
    moreover have "dst \<noteq> src" "\<not> dst < src" using 3(2) by (auto simp: word_less_nat_alt)
    ultimately show ?thesis using 3 by (simp add: memmove_def h b)
  qed
qed

text \<open>
  \<open>memcpy\<close> copies the head again from the old pointers, so that what it copies is the longer
  of the head and of the blocks with the tail.
\<close>

definition memcpy_len :: "u64 \<Rightarrow> nat \<Rightarrow> nat" where
  "memcpy_len dst n =
    (let h = min n ((8 - unat dst mod 8) mod 8) in max h (8 * (n div 8) + (n - h) mod 8))"

lemma copy_head_count:
  "copy_head m d s n = (m1, d1, s1, n1) \<Longrightarrow> n1 = n - min n ((8 - unat d mod 8) mod 8)"
proof (induction n arbitrary: m d s)
  case (Suc n)
  have m: "unat (d + 1) mod 8 = (unat d + 1) mod 8"
    by (simp add: unat_word_ariths mod_mod_cancel)
  show ?case
  proof (cases "d AND 7 = 0")
    case True
    then have "unat d mod 8 = 0" using unat_and7 [of d] by simp
    then show ?thesis using Suc.prems True by simp
  next
    case False
    then have "unat d mod 8 \<noteq> 0" using unat_and7 [of d] by (metis unsigned_eq_0_iff)
    then have "(8 - unat d mod 8) mod 8 = Suc ((8 - unat (d + 1) mod 8) mod 8)"
      unfolding m by (cases "unat d mod 8 = 7") (auto simp: mod_Suc)
    then show ?thesis using Suc False by simp
  qed
qed simp

lemma memcpy_eq:
  assumes "apart dst src (unat n + 7)"
  shows "memcpy m dst src n = blit m dst src (memcpy_len dst (unat n))"
proof -
  let ?b = "unat n div 8"
  obtain m1 d s n1 where h: "copy_head m dst src (unat n) = (m1, d, s, n1)"
    by (cases "copy_head m dst src (unat n)")
  have up: "up_ok dst src (unat n + 7)" using assms by (auto simp: apart_def up_ok_def)
  from copy_head_eq [OF h, of m dst src 0] up_ok_mono [OF up] obtain k where
    k: "k \<le> unat n" "n1 = unat n - k" "m1 = blit m dst src k" by auto
  have k': "k = min (unat n) ((8 - unat dst mod 8) mod 8)" 
  proof -
    have "min (unat n) ((8 - unat dst mod 8) mod 8) \<le> unat n" by simp
    then show ?thesis using copy_head_count [OF h] k(1,2) by linarith
  qed
  define r where "r = 8 * ?b + n1 mod 8"
  have len: "memcpy_len dst (unat n) = max k r" by (simp add: memcpy_len_def Let_def k' k(2) r_def)
  have r: "r \<le> unat n + 7" by (simp add: r_def)
  have up1: "up_ok dst src (0 + 8 * ?b)" "up_ok dst src (8 * ?b + n1 mod 8)"
    using up_ok_mono [OF up, of "8 * ?b"] up_ok_mono [OF up r] by (simp_all add: r_def)
  have "memcpy m dst src n = blit m1 dst src r"
    using copy_blocks_eq [OF up1(1), of m1] copy_tail_eq [OF up1(2), of m1]
    by (simp add: memcpy_def Let_def h r_def del: of_nat_add)
  also have "\<dots> = blit m dst src (max k r)"
  proof
    fix a
    have "\<not> span dst k (src + (a - dst))" if "span dst r a"
    proof -
      let ?i = "unat (a - dst)"
      have i: "?i < r" "k \<le> unat n + 7" using that k(1) by (auto simp: span_def)
      then show ?thesis
        using assms r not_span_above [of src ?i dst k] not_span_below [of src ?i dst k]
        unfolding apart_def by auto
    qed
    then show "blit m1 dst src r a = blit m dst src (max k r) a"
      by (auto simp: k(3) blit_def span_def)
  qed
  finally show ?thesis using len by simp
qed

lemma memcmp_loop_0: "memcmp_loop m a b n = 0 \<longleftrightarrow> (\<forall>i<n. m (a + word_of_nat i) = m (b + word_of_nat i))"
proof (induction n arbitrary: a b)
  case (Suc n)
  have "(\<forall>i<Suc n. m (a + word_of_nat i) = m (b + word_of_nat i)) \<longleftrightarrow>
      m a = m b \<and> (\<forall>i<n. m (a + 1 + word_of_nat i) = m (b + 1 + word_of_nat i))"
    by (simp add: All_less_Suc2 algebra_simps)
  then show ?case using Suc.IH by (simp add: word_uint_eq_iff)
qed simp

section \<open>Properties\<close>

text \<open>
  \<open>memset\<close> sets exactly the \<open>n\<close> bytes from \<open>ptr\<close> on, whatever the alignment
  of \<open>ptr\<close>: head, blocks and tail add up to one fill.
\<close>

lemma memset_fills:
  "memset m ptr v n = (\<lambda>a. if unat (a - ptr) < unat n then v else m a)"
  unfolding memset_eq fill_span_def span_def ..

text \<open>
  C12. \<open>memmove\<close> makes the destination hold the bytes the source held before, and
  changes nothing else, for every alignment and every overlap of the two ranges.
\<close>

theorem memmove_moves:
  assumes "unat dst + unat n \<le> 2 ^ 64" "unat src + unat n \<le> 2 ^ 64"
  shows "memmove m dst src n = (\<lambda>a. if unat (a - dst) < unat n then m (src + (a - dst)) else m a)"
  unfolding memmove_eq [OF assms] blit_def span_def ..

theorem memmove_moves_witness:
  "memmove (\<lambda>a. ucast a) 0x1003 0x1001 10 0x1006 = 4"
  by (subst memmove_moves) simp_all

text \<open>
  On ranges that do not overlap \<open>memcpy\<close> copies exactly the \<open>n\<close> bytes when
  the destination is a multiple of eight; otherwise it copies \<open>memcpy_len dst n\<close> bytes, which can
  be fewer or more than \<open>n\<close>.
\<close>

lemma memcpy_copies:
  assumes "apart dst src (unat n + 7)"
  shows "memcpy m dst src n = (\<lambda>a. if unat (a - dst) < memcpy_len dst (unat n) then m (src + (a - dst)) else m a)
    \<and> (unat dst mod 8 = 0 \<longrightarrow> memcpy_len dst (unat n) = unat n)"
  using memcpy_eq [OF assms] by (simp add: blit_def span_def memcpy_len_def)

lemma memcpy_copies_witness:
  "memcpy (\<lambda>a. ucast a) 0x1004 0x2001 7 0x1008 = 8 \<and> memcpy (\<lambda>a. ucast a) 0x1000 0x2001 7 0x1006 = 7"
proof -
  have "apart 0x1004 0x2001 (unat (7 :: u64) + 7)" "apart 0x1000 0x2001 (unat (7 :: u64) + 7)"
    by (simp_all add: apart_def)
  from this [THEN memcpy_copies, THEN conjunct1] show ?thesis by (simp add: memcpy_len_def)
qed

lemma memcpy_len_short: "memcpy_len 0x1004 7 = 4" and memcpy_len_long: "memcpy_len 0x1001 8 = 9"
  by (simp_all add: memcpy_len_def)

text \<open>
  \<open>memcmp\<close> returns 0 exactly when the two ranges hold the same bytes.
\<close>

lemma memcmp_equal:
  "memcmp m a b n = 0 \<longleftrightarrow> (\<forall>i<unat n. m (a + word_of_nat i) = m (b + word_of_nat i))"
  unfolding memcmp_def by (rule memcmp_loop_0)

lemma memcmp_equal_witness: "memcmp (\<lambda>_. 7) 16 24 4 = 0"
  by (simp add: memcmp_equal)

end
