(* ===== verification/Radix.thy ===== *)
theory Radix
  imports Prelude
begin

text \<open>
  The radix tree of \<^verbatim>\<open>emex/kernel/mem/radix/radix.c\<close>: eight levels of nodes with 256 slots, one level
  per byte of a 64-bit identifier. A node is owned by the slot that points to it, so the tree is
  a datatype; a NULL slot is \<open>None\<close>, and a NULL value in the last level is 0. \<open>kcalloc\<close> is
  taken to succeed.
\<close>

section \<open>Nodes\<close>

datatype radix_node = Inner "radix_node option list" | Leaf "u64 list"

definition RADIX_SIZE :: nat where "RADIX_SIZE = 256"
definition RADIX_LEVELS :: nat where "RADIX_LEVELS = 8"

record radix_tree = rt_root :: "radix_node option"

definition radix_alloc :: radix_tree where
  "radix_alloc = \<lparr>rt_root = None\<rparr>"

definition radix_chunk :: "u64 \<Rightarrow> nat \<Rightarrow> nat" where
  "radix_chunk ident level = unat (drop_bit ((RADIX_LEVELS - 1 - level) * 8) ident AND 0xFF)"

section \<open>Lookup and insertion\<close>

text \<open>
  The loops go down one level per round; \<open>d\<close> counts the levels below this one, so that the level
  is \<open>RADIX_LEVELS - 1 - d\<close>.
\<close>

fun lookup_from :: "nat \<Rightarrow> u64 \<Rightarrow> radix_node option \<Rightarrow> u64" where
  "lookup_from d ident None = 0"
| "lookup_from 0 ident (Some (Leaf vs)) = vs ! radix_chunk ident (RADIX_LEVELS - 1)"
| "lookup_from (Suc d) ident (Some (Inner ns)) = lookup_from d ident (ns ! radix_chunk ident (RADIX_LEVELS - 1 - Suc d))"
| "lookup_from d ident (Some n) = 0"

definition radix_lookup :: "radix_tree \<Rightarrow> u64 \<Rightarrow> u64" where
  "radix_lookup t ident = lookup_from 7 ident (rt_root t)"

definition new_node :: "nat \<Rightarrow> radix_node" where
  "new_node d = (if d = 0 then Leaf (replicate RADIX_SIZE 0) else Inner (replicate RADIX_SIZE None))"

fun insert_from :: "nat \<Rightarrow> u64 \<Rightarrow> u64 \<Rightarrow> radix_node \<Rightarrow> radix_node" where
  "insert_from 0 ident v (Leaf vs) = Leaf (vs[radix_chunk ident (RADIX_LEVELS - 1) := v])"
| "insert_from (Suc d) ident v (Inner ns) =
    (let chunk = radix_chunk ident (RADIX_LEVELS - 1 - Suc d);
         child = (case ns ! chunk of None \<Rightarrow> new_node d | Some c \<Rightarrow> c)
     in Inner (ns[chunk := Some (insert_from d ident v child)]))"
| "insert_from d ident v n = n"

definition radix_insert :: "radix_tree \<Rightarrow> u64 \<Rightarrow> u64 \<Rightarrow> radix_tree" where
  "radix_insert t ident v =
    (let root = (case rt_root t of None \<Rightarrow> new_node 7 | Some n \<Rightarrow> n)
     in t\<lparr>rt_root := Some (insert_from 7 ident v root)\<rparr>)"

section \<open>Removal\<close>

text \<open>
  First the walk to the leaf; on the way back, level by level from the one above the leaves, a node
  with no child left is freed and its slot cleared, until the first node that is kept. The result
  is the old value, the node (\<open>None\<close> when it was freed) and whether the way back goes on.
  \<open>None\<close> as a whole is the early return on a missing node.
\<close>

fun remove_from :: "nat \<Rightarrow> u64 \<Rightarrow> radix_node option \<Rightarrow> (u64 \<times> radix_node option \<times> bool) option" where
  "remove_from d ident None = None"
| "remove_from 0 ident (Some (Leaf vs)) =
    (let chunk = radix_chunk ident (RADIX_LEVELS - 1)
     in Some (vs ! chunk, Some (Leaf (vs[chunk := 0])), True))"
| "remove_from (Suc d) ident (Some (Inner ns)) =
    (let level = RADIX_LEVELS - 1 - Suc d; chunk = radix_chunk ident level
     in case remove_from d ident (ns ! chunk) of
          None \<Rightarrow> None
        | Some (old, child, go) \<Rightarrow>
            (let ns' = ns[chunk := child]
             in if go \<and> list_all (\<lambda>c. c = None) ns' \<and> level > 0 then Some (old, None, True)
                else Some (old, Some (Inner ns'), False)))"
| "remove_from d ident (Some n) = None"

definition radix_remove :: "radix_tree \<Rightarrow> u64 \<Rightarrow> u64 \<times> radix_tree" where
  "radix_remove t ident =
    (case remove_from 7 ident (rt_root t) of
       None \<Rightarrow> (0, t)
     | Some (old, root, _) \<Rightarrow> (old, t\<lparr>rt_root := root\<rparr>))"

section \<open>Walking\<close>

text \<open>
  \<^verbatim>\<open>i << shift\<close> on an \<open>int\<close>: defined when the shift is below 32 and the result fits, \<open>None\<close> otherwise.
  The walk returns the identifiers and values its callback receives, in order.
\<close>

definition int_shl :: "nat \<Rightarrow> nat \<Rightarrow> u64 option" where
  "int_shl i k = (if k < 32 \<and> i * 2 ^ k < 2 ^ 31 then Some (word_of_nat (i * 2 ^ k)) else None)"

fun walk_slots :: "(nat \<Rightarrow> 'a \<Rightarrow> (u64 \<times> u64) list option) \<Rightarrow> nat \<Rightarrow> 'a list \<Rightarrow> (u64 \<times> u64) list option" where
  "walk_slots f i [] = Some []"
| "walk_slots f i (x # xs) =
    (case f i x of None \<Rightarrow> None | Some as \<Rightarrow>
     case walk_slots f (Suc i) xs of None \<Rightarrow> None | Some bs \<Rightarrow> Some (as @ bs))"

fun radix_walk_node :: "nat \<Rightarrow> u64 \<Rightarrow> radix_node \<Rightarrow> (u64 \<times> u64) list option" where
  "radix_walk_node 0 prefix (Leaf vs) =
    walk_slots (\<lambda>i v. if v = 0 then Some [] else
       case int_shl i 0 of None \<Rightarrow> None | Some j \<Rightarrow> Some [(prefix OR j, v)]) 0 vs"
| "radix_walk_node (Suc d) prefix (Inner ns) =
    walk_slots (\<lambda>i c. case c of None \<Rightarrow> Some [] | Some n \<Rightarrow>
       (case int_shl i (Suc d * 8) of None \<Rightarrow> None | Some j \<Rightarrow> radix_walk_node d (prefix OR j) n)) 0 ns"
| "radix_walk_node d prefix n = Some []"

definition radix_walk :: "radix_tree \<Rightarrow> (u64 \<times> u64) list option" where
  "radix_walk t = (case rt_root t of None \<Rightarrow> Some [] | Some n \<Rightarrow> radix_walk_node 7 0 n)"

section \<open>Well-formed trees\<close>

fun node_ok :: "nat \<Rightarrow> radix_node \<Rightarrow> bool" where
  "node_ok 0 (Leaf vs) \<longleftrightarrow> length vs = RADIX_SIZE"
| "node_ok (Suc d) (Inner ns) \<longleftrightarrow> length ns = RADIX_SIZE \<and> list_all (pred_option (node_ok d)) ns"
| "node_ok d n \<longleftrightarrow> False"

definition tree_ok :: "radix_tree \<Rightarrow> bool" where
  "tree_ok t \<longleftrightarrow> pred_option (node_ok 7) (rt_root t)"

fun node_count :: "nat \<Rightarrow> radix_node \<Rightarrow> nat" where
  "node_count (Suc d) (Inner ns) = Suc (sum_list (map (\<lambda>c. case c of None \<Rightarrow> 0 | Some n \<Rightarrow> node_count d n) ns))"
| "node_count d n = 1"

lemma chunk_lt [simp]: "radix_chunk ident level < RADIX_SIZE"
proof -
  have "unat (x AND 0xFF :: u64) < 256" for x
  proof -
    have "x AND 0xFF = take_bit 8 x" by (simp add: take_bit_eq_mask mask_eq_exp_minus_1)
    then show ?thesis by (simp only: unsigned_take_bit_eq) (simp add: take_bit_eq_mod)
  qed
  then show ?thesis by (simp add: radix_chunk_def RADIX_SIZE_def)
qed

lemma new_node_ok [simp]: "node_ok d (new_node d)"
  by (cases d) (auto simp: new_node_def list_all_iff)

lemma lookup_new_node [simp]: "lookup_from d ident (Some (new_node d)) = 0"
  by (cases d) (auto simp: new_node_def)

text \<open>Two identifiers are equal when their eight chunks are.\<close>

definition same_from :: "nat \<Rightarrow> u64 \<Rightarrow> u64 \<Rightarrow> bool" where
  "same_from d x y \<longleftrightarrow> take_bit (8 * Suc d) x = take_bit (8 * Suc d) y"

lemma chunk_eq_bits:
  "radix_chunk x (RADIX_LEVELS - 1 - d) = radix_chunk y (RADIX_LEVELS - 1 - d) \<longleftrightarrow>
   (\<forall>j<8. bit x (d * 8 + j) = bit y (d * 8 + j))" if "d < 8"
proof -
  have m: "z AND 0xFF = take_bit 8 z" for z :: u64
    by (simp add: take_bit_eq_mask mask_eq_exp_minus_1)
  have l: "(RADIX_LEVELS - 1 - (RADIX_LEVELS - 1 - d)) * 8 = d * 8" using that by (simp add: RADIX_LEVELS_def)
  have "take_bit 8 (drop_bit (d * 8) x) = take_bit 8 (drop_bit (d * 8) y)
      \<longleftrightarrow> (\<forall>j<8. bit x (d * 8 + j) = bit y (d * 8 + j))"
    by (simp add: take_bit_eq_bits bit_drop_bit_eq)
  then show ?thesis unfolding radix_chunk_def l m by (metis word_unat_eq_iff)
qed

lemma same_from_0: "same_from 0 x y \<longleftrightarrow> radix_chunk x (RADIX_LEVELS - 1) = radix_chunk y (RADIX_LEVELS - 1)"
  using chunk_eq_bits [of 0 x y] by (simp add: same_from_def take_bit_eq_bits)

lemma same_from_Suc:
  assumes "d < 7"
  shows "same_from (Suc d) x y \<longleftrightarrow>
   radix_chunk x (RADIX_LEVELS - 1 - Suc d) = radix_chunk y (RADIX_LEVELS - 1 - Suc d) \<and> same_from d x y"
proof -
  have "n < 8 * Suc (Suc d) \<longleftrightarrow> n < 8 * Suc d \<or> (\<exists>j<8. n = Suc d * 8 + j)" for n
  proof -
    have "n < 8 * Suc (Suc d) \<Longrightarrow> \<not> n < 8 * Suc d \<Longrightarrow> n = Suc d * 8 + (n - Suc d * 8) \<and> n - Suc d * 8 < 8" by simp
    then show ?thesis by auto
  qed
  then have "(\<forall>n<8 * Suc (Suc d). bit x n = bit y n) \<longleftrightarrow>
      (\<forall>j<8. bit x (Suc d * 8 + j) = bit y (Suc d * 8 + j)) \<and> (\<forall>n<8 * Suc d. bit x n = bit y n)"
    by blast
  moreover have "same_from e x y \<longleftrightarrow> (\<forall>n<8 * Suc e. bit x n = bit y n)" if "e < 8" for e
    using that by (simp add: same_from_def take_bit_eq_bits)
  ultimately show ?thesis using assms chunk_eq_bits [of "Suc d" x y] by simp
qed

lemma same_from_7: "same_from 7 x y \<longleftrightarrow> x = y"
  by (auto simp: same_from_def bit_eq_iff bit_take_bit_iff)

lemma insert_from_ok: "node_ok d n \<Longrightarrow> node_ok d (insert_from d ident v n)"
proof (induction d ident v n rule: insert_from.induct)
  case (2 d ident v ns)
  let ?c = "radix_chunk ident (RADIX_LEVELS - 1 - Suc d)"
  have "pred_option (node_ok d) (ns ! ?c)" using 2(2) by (auto simp: list_all_length)
  then have "node_ok d (case ns ! ?c of None \<Rightarrow> new_node d | Some c \<Rightarrow> c)"
    by (auto split: option.split)
  from 2(1) [OF refl refl this] 2(2) show ?case
    by (auto simp: Let_def list_all_length nth_list_update)
qed auto

lemma lookup_insert_from:
  "node_ok d n \<Longrightarrow> d \<le> 7 \<Longrightarrow>
   lookup_from d y (Some (insert_from d x v n)) = (if same_from d x y then v else lookup_from d y (Some n))"
proof (induction d x v n rule: insert_from.induct)
  case (1 ident v vs)
  then show ?case by (auto simp: same_from_0)
next
  case (2 d ident v ns)
  let ?c = "radix_chunk ident (RADIX_LEVELS - 1 - Suc d)"
  have "pred_option (node_ok d) (ns ! ?c)" using 2(2) by (auto simp: list_all_length)
  then have "node_ok d (case ns ! ?c of None \<Rightarrow> new_node d | Some c \<Rightarrow> c)"
    by (auto split: option.split)
  from 2(1) [OF refl refl this] 2(2,3)
  have "lookup_from d y (Some (insert_from d ident v (case ns ! ?c of None \<Rightarrow> new_node d | Some c \<Rightarrow> c)))
     = (if same_from d ident y then v else lookup_from d y (ns ! ?c))"
    by (auto split: option.split)
  then show ?case
    using 2(2,3) by (auto simp: Let_def nth_list_update same_from_Suc)
qed auto

text \<open>Removal clears the value and frees nothing.\<close>

lemma remove_from_spec:
  "node_ok d n \<Longrightarrow> d \<le> 7 \<Longrightarrow>
   case remove_from d x (Some n) of
     None \<Rightarrow> lookup_from d x (Some n) = 0
   | Some (old, n', go) \<Rightarrow> old = lookup_from d x (Some n)
       \<and> (\<exists>k. n' = Some k \<and> node_ok d k \<and> node_count d k = node_count d n
            \<and> (\<forall>y. lookup_from d y (Some k) = (if same_from d x y then 0 else lookup_from d y (Some n))))"
proof (induction d x "Some n" arbitrary: n rule: remove_from.induct)
  case (2 ident vs)
  then show ?case by (auto simp: same_from_0 Let_def)
next
  case (3 d ident ns)
  let ?c = "radix_chunk ident (RADIX_LEVELS - 1 - Suc d)"
  show ?case
  proof (cases "ns ! ?c")
    case None
    then show ?thesis by (simp add: Let_def)
  next
    case (Some m)
    have m: "node_ok d m" using 3(2) Some by (auto simp: list_all_length dest!: spec [of _ ?c])
    have c: "?c < length ns" using 3(2) by simp
    show ?thesis
    proof (cases "remove_from d ident (Some m)")
      case None
      then show ?thesis using 3(1) [OF refl refl _ m] 3(2,3) Some by (auto simp: Let_def)
    next
      case (Some r)
      obtain old n' go where r: "r = (old, n', go)" by (cases r)
      with Some \<open>ns ! ?c = Some m\<close> 3(1) [OF refl refl _ m] 3(2,3) obtain k where
        k: "old = lookup_from d ident (Some m)" "n' = Some k" "node_ok d k" "node_count d k = node_count d m"
           "\<forall>y. lookup_from d y (Some k) = (if same_from d ident y then 0 else lookup_from d y (Some m))"
        by auto
      let ?ns = "ns[?c := Some k]"
      have "?ns ! ?c = Some k" using c by simp
      then have "\<not> list_all (\<lambda>c. c = None) ?ns" using c by (auto simp: list_all_length)
      then have "remove_from (Suc d) ident (Some (Inner ns)) = Some (old, Some (Inner ?ns), False)"
        using Some r k(2) \<open>ns ! ?c = Some m\<close> by (simp add: Let_def)
      moreover have "node_ok (Suc d) (Inner ?ns)"
        using 3(2) k(3) by (auto simp: list_all_length nth_list_update)
      moreover have "map (\<lambda>c. case c of None \<Rightarrow> 0 | Some n \<Rightarrow> node_count d n) ?ns
          = map (\<lambda>c. case c of None \<Rightarrow> 0 | Some n \<Rightarrow> node_count d n) ns"
        using k(4) \<open>ns ! ?c = Some m\<close> c by (auto simp: list_eq_iff_nth_eq nth_list_update)
      ultimately show ?thesis
        using k(1,5) \<open>ns ! ?c = Some m\<close> 3(2,3) c
        by (auto simp: nth_list_update same_from_Suc simp del: map_update)
    qed
  qed
qed auto

section \<open>The tree as a map\<close>

text \<open>
  What a client of a key-value store relies on: a lookup after an insertion or a removal. Any
  sequence of operations then acts on \<open>lookup\<close> as it does on a function.
\<close>

datatype ('k, 'v) map_op = Put 'k 'v | Del 'k

fun map_effect :: "'v \<Rightarrow> ('k, 'v) map_op \<Rightarrow> ('k \<Rightarrow> 'v) \<Rightarrow> 'k \<Rightarrow> 'v" where
  "map_effect null (Put k v) f = f(k := v)"
| "map_effect null (Del k) f = f(k := null)"

locale key_map =
  fixes lookup :: "'t \<Rightarrow> 'k \<Rightarrow> 'v"
    and ins :: "'t \<Rightarrow> 'k \<Rightarrow> 'v \<Rightarrow> 't"
    and del :: "'t \<Rightarrow> 'k \<Rightarrow> 't"
    and ok :: "'t \<Rightarrow> bool"
    and null :: 'v
  assumes ins_ok: "ok t \<Longrightarrow> ok (ins t k v)"
    and del_ok: "ok t \<Longrightarrow> ok (del t k)"
    and lookup_ins: "ok t \<Longrightarrow> lookup (ins t k v) = (lookup t)(k := v)"
    and lookup_del: "ok t \<Longrightarrow> lookup (del t k) = (lookup t)(k := null)"
begin

lemma run_ok:
  "ok t \<Longrightarrow> ok (fold (\<lambda>p t. case p of Put k v \<Rightarrow> ins t k v | Del k \<Rightarrow> del t k) ps t)"
  by (induction ps arbitrary: t) (auto intro: ins_ok del_ok split: map_op.split)

lemma run_lookup:
  "ok t \<Longrightarrow> lookup (fold (\<lambda>p t. case p of Put k v \<Rightarrow> ins t k v | Del k \<Rightarrow> del t k) ps t)
     = fold (map_effect null) ps (lookup t)"
  by (induction ps arbitrary: t)
     (auto simp: lookup_ins lookup_del ins_ok del_ok split: map_op.split)

end

lemma radix_insert_ok: "tree_ok t \<Longrightarrow> tree_ok (radix_insert t k v)"
  by (auto simp: tree_ok_def radix_insert_def Let_def intro!: insert_from_ok split: option.split)

lemma radix_lookup_insert: "tree_ok t \<Longrightarrow> radix_lookup (radix_insert t k v) = (radix_lookup t)(k := v)"
  by (auto simp: fun_eq_iff tree_ok_def radix_insert_def radix_lookup_def Let_def lookup_insert_from
      same_from_7 split: option.split)

definition tree_nodes :: "radix_tree \<Rightarrow> nat" where
  "tree_nodes t = (case rt_root t of None \<Rightarrow> 0 | Some n \<Rightarrow> node_count 7 n)"

lemma radix_remove_spec:
  assumes "tree_ok t"
  shows "fst (radix_remove t k) = radix_lookup t k" "tree_ok (snd (radix_remove t k))"
    "tree_nodes (snd (radix_remove t k)) = tree_nodes t"
    "radix_lookup (snd (radix_remove t k)) = (radix_lookup t)(k := 0)"
proof -
  have "fst (radix_remove t k) = radix_lookup t k \<and> tree_ok (snd (radix_remove t k))
    \<and> tree_nodes (snd (radix_remove t k)) = tree_nodes t
    \<and> radix_lookup (snd (radix_remove t k)) = (radix_lookup t)(k := 0)"
  proof (cases "rt_root t")
    case None
    then show ?thesis using assms by (auto simp: radix_remove_def radix_lookup_def fun_eq_iff)
  next
    case (Some n)
    then have n: "node_ok 7 n" using assms by (simp add: tree_ok_def)
    show ?thesis
      using remove_from_spec [OF n, of k] Some assms
      by (auto simp: radix_remove_def radix_lookup_def tree_ok_def tree_nodes_def fun_eq_iff same_from_7
          split: option.splits)
  qed
  then show "fst (radix_remove t k) = radix_lookup t k" "tree_ok (snd (radix_remove t k))"
    "tree_nodes (snd (radix_remove t k)) = tree_nodes t"
    "radix_lookup (snd (radix_remove t k)) = (radix_lookup t)(k := 0)" by auto
qed

interpretation radix: key_map radix_lookup radix_insert "\<lambda>t k. snd (radix_remove t k)" tree_ok 0
  by unfold_locales (simp_all add: radix_insert_ok radix_lookup_insert radix_remove_spec)

text \<open>A tree that holds anything cannot be walked: the shift of the first level is 56.\<close>

lemma walk_slots_None: "i < length xs \<Longrightarrow> f (k + i) (xs ! i) = None \<Longrightarrow> walk_slots f k xs = None"
proof (induction xs arbitrary: i k)
  case (Cons x xs)
  then show ?case by (cases i) (auto split: option.split)
qed simp

lemma radix_walk_undefined:
  assumes "tree_ok t" "radix_lookup t k \<noteq> 0"
  shows "radix_walk t = None"
proof -
  obtain n where n: "rt_root t = Some n" "node_ok 7 n"
    using assms by (cases "rt_root t") (auto simp: tree_ok_def radix_lookup_def)
  then obtain ns where ns: "n = Inner ns" "length ns = RADIX_SIZE" by (cases n) (auto simp: numeral_eq_Suc)
  let ?c = "radix_chunk k (RADIX_LEVELS - 1 - Suc 6)"
  have e: "lookup_from 7 k (Some (Inner ns)) = lookup_from 6 k (ns ! ?c)"
    using lookup_from.simps(3) [of 6] by simp
  obtain m where "ns ! ?c = Some m"
    using assms(2) n ns e by (cases "ns ! ?c") (auto simp: radix_lookup_def)
  then have "radix_walk_node (Suc 6) 0 (Inner ns) = None"
    unfolding radix_walk_node.simps using ns
    by (intro walk_slots_None [of ?c]) (simp_all add: int_shl_def)
  then show ?thesis using n ns by (simp add: radix_walk_def numeral_eq_Suc)
qed

section \<open>Properties\<close>

text \<open>
  Any sequence of insertions and removals on a new tree makes
  \<open>radix_lookup\<close> the function that the same updates make of the constant 0 (the NULL pointer).
\<close>

lemma radix_refines_map:
  "radix_lookup (fold (\<lambda>p t. case p of Put k v \<Rightarrow> radix_insert t k v | Del k \<Rightarrow> snd (radix_remove t k)) ps radix_alloc)
     = fold (map_effect 0) ps (\<lambda>_. 0)"
proof -
  have "tree_ok radix_alloc" "radix_lookup radix_alloc = (\<lambda>_. 0)"
    by (auto simp: tree_ok_def radix_alloc_def radix_lookup_def)
  then show ?thesis using radix.run_lookup [of radix_alloc ps] by simp
qed

text \<open>
  \<open>radix_remove\<close> returns the value stored under the identifier and
  unbinds it, but frees no node: the tree has as many nodes as before.
\<close>

lemma radix_remove_frees_nothing:
  assumes "tree_ok t"
  shows "fst (radix_remove t k) = radix_lookup t k
    \<and> radix_lookup (snd (radix_remove t k)) = (radix_lookup t)(k := 0)
    \<and> tree_nodes (snd (radix_remove t k)) = tree_nodes t"
  using radix_remove_spec [OF assms] by simp

lemma radix_remove_frees_nothing_witness:
  "fst (radix_remove (radix_insert radix_alloc 5 7) 5) = 7
   \<and> tree_nodes (snd (radix_remove (radix_insert radix_alloc 5 7) 5)) = tree_nodes (radix_insert radix_alloc 5 7)"
proof -
  have ok: "tree_ok radix_alloc" by (simp add: tree_ok_def radix_alloc_def)
  show ?thesis
    using radix_remove_frees_nothing [OF radix_insert_ok [OF ok], of 5 7 5]
    by (simp add: radix_lookup_insert [OF ok])
qed

end
