(* ===== verification/CString.thy ===== *)
theory CString
  imports Prelude
begin

text \<open>
  The string routines of \<^verbatim>\<open>emex/kernel/graph/lib/string.c\<close>. A C string is the list of its characters
  before the NUL, \<open>None\<close> is the NULL pointer, a routine that writes to a buffer returns the string it
  leaves there, and buffers are taken to be large enough. \<open>int\<close> arithmetic wraps at 32 bits.
\<close>

definition NUL :: char where "NUL = CHR 0x00"

text \<open>\<^verbatim>\<open>*s\<close>: the first character, NUL at the end of the string.\<close>

definition deref :: "string \<Rightarrow> char" where
  "deref s = (case s of [] \<Rightarrow> NUL | c # _ \<Rightarrow> c)"

definition cstring :: "string \<Rightarrow> bool" where
  "cstring s \<longleftrightarrow> NUL \<notin> set s"

definition s32 :: "int \<Rightarrow> int" where
  "s32 x = (x + 2 ^ 31) mod 2 ^ 32 - 2 ^ 31"

definition chr_in :: "nat \<Rightarrow> nat \<Rightarrow> char \<Rightarrow> bool" where
  "chr_in lo hi c \<longleftrightarrow> lo \<le> (of_char c :: nat) \<and> of_char c \<le> hi"

section \<open>Copying, appending, comparing\<close>

definition str_copy :: "string \<Rightarrow> string \<Rightarrow> string" where
  "str_copy dest src = src"

definition str_append :: "string \<Rightarrow> string \<Rightarrow> string" where
  "str_append dest src = dest @ src"

fun str_len_from :: "string \<Rightarrow> nat \<Rightarrow> nat" where
  "str_len_from [] len = len"
| "str_len_from (_ # s) len = str_len_from s (len + 1)"

definition str_len :: "string \<Rightarrow> nat" where
  "str_len s = str_len_from s 0"

definition str_append_char :: "string option \<Rightarrow> char \<Rightarrow> string option" where
  "str_append_char dest c = (case dest of None \<Rightarrow> None | Some d \<Rightarrow> Some (if c = NUL then d else d @ [c]))"

fun starts_with_loop :: "string \<Rightarrow> string \<Rightarrow> bool" where
  "starts_with_loop s [] = True"
| "starts_with_loop s (p # ps) = (if deref s \<noteq> p then False else starts_with_loop (tl s) ps)"

definition str_starts_with :: "string option \<Rightarrow> string option \<Rightarrow> bool" where
  "str_starts_with s p = (case (s, p) of (Some s, Some p) \<Rightarrow> starts_with_loop s p | _ \<Rightarrow> False)"

fun equals_loop :: "string \<Rightarrow> string \<Rightarrow> bool" where
  "equals_loop (a # s1) (b # s2) = (if a \<noteq> b then False else equals_loop s1 s2)"
| "equals_loop s1 s2 = (deref s1 = deref s2)"

definition str_equals :: "string option \<Rightarrow> string option \<Rightarrow> bool" where
  "str_equals s1 s2 = (case (s1, s2) of (Some s1, Some s2) \<Rightarrow> equals_loop s1 s2 | _ \<Rightarrow> False)"

section \<open>Case, trimming, reversal\<close>

definition str_to_upper :: "string option \<Rightarrow> string option" where
  "str_to_upper = map_option (map (\<lambda>c. if chr_in 97 122 c then char_of (of_char c - 32 :: nat) else c))"

definition str_to_lower :: "string option \<Rightarrow> string option" where
  "str_to_lower = map_option (map (\<lambda>c. if chr_in 65 90 c then char_of (of_char c + 32 :: nat) else c))"

definition is_blank :: "char \<Rightarrow> bool" where
  "is_blank c \<longleftrightarrow> c = CHR '' '' \<or> c = CHR 0x09 \<or> c = CHR 0x0A"

text \<open>\<^verbatim>\<open>end\<close> moves down while it is above \<^verbatim>\<open>start\<close>: the first character left is never looked at.\<close>

fun trim_end :: "string \<Rightarrow> nat \<Rightarrow> nat" where
  "trim_end s 0 = 0"
| "trim_end s (Suc e) = (if is_blank (s ! Suc e) then trim_end s e else Suc e)"

definition str_trim :: "string option \<Rightarrow> string option" where
  "str_trim str = (case str of None \<Rightarrow> None | Some s \<Rightarrow>
     let start = dropWhile is_blank s
     in Some (if start = [] then [] else take (Suc (trim_end start (length start - 1))) start))"

definition swap_step :: "nat \<Rightarrow> nat \<Rightarrow> string \<Rightarrow> string" where
  "swap_step len i s = s[i := s ! (len - 1 - i), len - 1 - i := s ! i]"

definition str_reverse :: "string option \<Rightarrow> string option" where
  "str_reverse str = (case str of None \<Rightarrow> None | Some s \<Rightarrow>
     let len = str_len s in Some (fold (swap_step len) [0..<len div 2] s))"

section \<open>Numbers\<close>

fun to_int_loop :: "string \<Rightarrow> int \<Rightarrow> int" where
  "to_int_loop [] result = result"
| "to_int_loop (c # s) result =
    (if chr_in 48 57 c then to_int_loop s (s32 (s32 (result * 10) + (of_char c - 48))) else result)"

definition str_to_int :: "string option \<Rightarrow> int" where
  "str_to_int str = (case str of None \<Rightarrow> 0 | Some s0 \<Rightarrow>
     let s = dropWhile (\<lambda>c. c = CHR '' '' \<or> c = CHR 0x09) s0;
         (sign, s') = (if deref s = CHR ''-'' then (-1, tl s)
                       else if deref s = CHR ''+'' then (1, tl s) else (1, s))
     in s32 (to_int_loop s' 0 * sign))"

function from_int_loop :: "int \<Rightarrow> string \<Rightarrow> string" where
  "from_int_loop v buf =
    (if v > 0 then from_int_loop (v div 10) (buf @ [char_of (nat (48 + v mod 10))]) else buf)"
  by pat_completeness auto
termination by (relation "measure (\<lambda>(v, _). nat v)") auto

declare from_int_loop.simps [simp del]

definition str_from_int :: "int \<Rightarrow> string" where
  "str_from_int v =
    (if v = 0 then ''0''
     else let is_negative = v < 0;
              a = (if is_negative then s32 (- v) else v);
              buf = from_int_loop a [];
              buf = (if is_negative then buf @ ''-'' else buf)
          in the (str_reverse (Some buf)))"

fun count_digits :: "nat \<Rightarrow> nat" where
  "count_digits t = (if t > 0 then Suc (count_digits (t div 10)) else 0)"

fun write_digits :: "nat \<Rightarrow> nat \<Rightarrow> string \<Rightarrow> string" where
  "write_digits num i buf =
    (if num > 0 then write_digits (num div 10) (i - 1) (buf[i - 1 := char_of (48 + num mod 10)]) else buf)"

declare count_digits.simps [simp del] write_digits.simps [simp del]

definition str_append_uint :: "string \<Rightarrow> u32 \<Rightarrow> string" where
  "str_append_uint dest num =
    (let buf = replicate 20 NUL
     in if num = 0 then str_append dest ''0''
        else let digits = count_digits (unat num)
             in str_append dest (take digits (write_digits (unat num) digits buf)))"

definition hexchars :: string where "hexchars = ''0123456789ABCDEF''"

function hex_loop :: "u64 \<Rightarrow> string \<Rightarrow> string" where
  "hex_loop v tmp = (if v > 0 then hex_loop (drop_bit 4 v) (tmp @ [hexchars ! unat (v AND 0xF)]) else tmp)"
  by pat_completeness auto
termination
  by (relation "measure (\<lambda>(v, _). unat v)") (auto simp: unat_drop_bit word_less_nat_alt intro!: div_less_dividend)

declare hex_loop.simps [simp del]

fun drain :: "string \<Rightarrow> nat \<Rightarrow> string \<Rightarrow> string" where
  "drain tmp 0 buf = buf"
| "drain tmp (Suc i) buf = drain tmp i (buf @ [tmp ! i])"

definition str_from_hex :: "u64 \<Rightarrow> string" where
  "str_from_hex v = (if v = 0 then ''0'' else let tmp = hex_loop v [] in drain tmp (length tmp) [])"

section \<open>Searching\<close>

definition match_at :: "string \<Rightarrow> string \<Rightarrow> nat \<Rightarrow> bool" where
  "match_at s sub i \<longleftrightarrow> list_all (\<lambda>j. s ! (i + j) = sub ! j) [0..<length sub]"

definition str_contains :: "string option \<Rightarrow> string option \<Rightarrow> bool" where
  "str_contains str substr = (case (str, substr) of
     (Some s, Some sub) \<Rightarrow>
       if length sub > length s then False
       else list_ex (match_at s sub) [0..<length s - length sub + 1]
   | _ \<Rightarrow> False)"

section \<open>What the comparisons decide\<close>

lemma str_len_from: "str_len_from s n = n + length s"
  by (induction s arbitrary: n) auto

lemma str_len [simp]: "str_len s = length s"
  by (simp add: str_len_def str_len_from)

lemma equals_loop: "cstring s1 \<Longrightarrow> cstring s2 \<Longrightarrow> equals_loop s1 s2 \<longleftrightarrow> s1 = s2"
  by (induction s1 s2 rule: equals_loop.induct) (auto simp: cstring_def deref_def split: list.splits)

lemma str_equals_eq [simp]: "cstring s1 \<Longrightarrow> cstring s2 \<Longrightarrow> str_equals (Some s1) (Some s2) \<longleftrightarrow> s1 = s2"
  by (simp add: str_equals_def equals_loop)

lemma starts_with_loop: "cstring s \<Longrightarrow> cstring p \<Longrightarrow> starts_with_loop s p \<longleftrightarrow> (\<exists>r. s = p @ r)"
proof (induction s p rule: starts_with_loop.induct)
  case (2 s p ps)
  then show ?case by (cases s) (auto simp: cstring_def deref_def)
qed auto

lemma str_contains_iff:
  "str_contains (Some s) (Some sub) \<longleftrightarrow> (\<exists>p q. s = p @ sub @ q)"
proof
  assume "str_contains (Some s) (Some sub)"
  then obtain k where k: "k < length s - length sub + 1" "match_at s sub k" "length sub \<le> length s"
    by (auto simp: str_contains_def list_ex_iff simp del: upt_Suc split: if_splits)
  then obtain i where i: "i + length sub \<le> length s" "\<forall>j<length sub. s ! (i + j) = sub ! j"
    by (auto simp: match_at_def list_all_iff intro!: that [of k])
  have "take (length sub) (drop i s) = sub" using i by (intro nth_equalityI) auto
  then have "s = take i s @ sub @ drop (length sub) (drop i s)"
    by (metis append_take_drop_id)
  then show "\<exists>p q. s = p @ sub @ q" by blast
next
  assume "\<exists>p q. s = p @ sub @ q"
  then obtain p q where s: "s = p @ sub @ q" by blast
  then have "match_at s sub (length p)" by (auto simp: match_at_def list_all_iff nth_append)
  then show "str_contains (Some s) (Some sub)"
    using s by (auto simp: str_contains_def list_ex_iff intro!: bexI [of _ "length p"])
qed

section \<open>Reversal and trimming\<close>

lemma swap_fold_nth:
  assumes "k \<le> length s div 2" "j < length s"
  shows "fold (swap_step (length s)) [0..<k] s ! j =
     (if j < k \<or> length s - k \<le> j then s ! (length s - 1 - j) else s ! j)
   \<and> length (fold (swap_step (length s)) [0..<k] s) = length s"
  using assms
proof (induction k arbitrary: j)
  case (Suc k)
  define t where "t = fold (swap_step (length s)) [0..<k] s"
  have "length t = length s" "t ! k = s ! k" "t ! (length s - 1 - k) = s ! (length s - 1 - k)"
    "t ! j = (if j < k \<or> length s - k \<le> j then s ! (length s - 1 - j) else s ! j)"
    using Suc.IH [of k] Suc.IH [of "length s - 1 - k"] Suc.IH [of j] Suc.prems by (auto simp: t_def)
  moreover have e: "fold (swap_step (length s)) [0..<Suc k] s = swap_step (length s) k t" by (simp add: t_def)
  ultimately show ?case using Suc.prems unfolding e by (auto simp: swap_step_def nth_list_update)
qed simp

lemma str_reverse_eq [simp]: "str_reverse (Some s) = Some (rev s)"
proof (cases "s = []")
  case False
  have "fold (swap_step (length s)) [0..<length s div 2] s = rev s"
  proof (rule nth_equalityI)
    show "length (fold (swap_step (length s)) [0..<length s div 2] s) = length (rev s)"
      using swap_fold_nth [of "length s div 2" s 0] False by simp
  next
    fix i assume "i < length (fold (swap_step (length s)) [0..<length s div 2] s)"
    then have i: "i < length s" using swap_fold_nth [of "length s div 2" s 0] False by simp
    show "fold (swap_step (length s)) [0..<length s div 2] s ! i = rev s ! i"
    proof (cases "i < length s div 2 \<or> length s - length s div 2 \<le> i")
      case True
      then show ?thesis using swap_fold_nth [OF order_refl i] i by (simp add: rev_nth)
    next
      case False
      then have "length s - 1 - i = i" by linarith
      then show ?thesis using swap_fold_nth [OF order_refl i] i False by (simp add: rev_nth)
    qed
  qed
  then show ?thesis by (simp add: str_reverse_def)
qed (simp add: str_reverse_def)

lemma trim_end_spec:
  "e < length s \<Longrightarrow> take (Suc (trim_end s e)) s
     = hd s # rev (dropWhile is_blank (rev (take e (tl s))))"
proof (induction e)
  case 0
  then show ?case by (cases s) auto
next
  case (Suc e)
  then obtain c r where s: "s = c # r" by (cases s) auto
  have "take (Suc e) r = take e r @ [r ! e]" using Suc.prems s by (simp add: take_Suc_conv_app_nth)
  then show ?case using Suc s by (auto simp: take_Suc_conv_app_nth)
qed

text \<open>\<open>str_trim\<close> cuts the blanks off both ends.\<close>

lemma str_trim_eq:
  "str_trim (Some s) = Some (rev (dropWhile is_blank (rev (dropWhile is_blank s))))"
proof (cases "dropWhile is_blank s")
  case Nil
  show ?thesis unfolding str_trim_def option.simps Let_def Nil by simp
next
  case (Cons c r)
  have c: "\<not> is_blank c" using hd_dropWhile [of is_blank s] Cons by simp
  have "rev (dropWhile is_blank (rev (c # r))) = c # rev (dropWhile is_blank (rev r))"
    using c by (auto simp: dropWhile_append)
  then show ?thesis using trim_end_spec [of "length r" "c # r"] Cons by (simp add: str_trim_def Let_def)
qed

section \<open>Decimal numerals\<close>

fun dec_rev :: "nat \<Rightarrow> string" where
  "dec_rev n = (if n = 0 then [] else char_of (48 + n mod 10) # dec_rev (n div 10))"

declare dec_rev.simps [simp del]

lemma dec_rev_0 [simp]: "dec_rev 0 = []" by (simp add: dec_rev.simps)

lemma dec_rev_pos: "0 < n \<Longrightarrow> dec_rev n = char_of (48 + n mod 10) # dec_rev (n div 10)"
  by (subst dec_rev.simps) simp

definition dec_str :: "nat \<Rightarrow> string" where
  "dec_str n = (if n = 0 then ''0'' else rev (dec_rev n))"

lemma from_int_loop_eq: "from_int_loop v buf = buf @ dec_rev (nat v)"
proof (induction v buf rule: from_int_loop.induct)
  case (1 v buf)
  show ?case
  proof (cases "v > 0")
    case True
    have "nat (48 + v mod 10) = 48 + nat v mod 10"
      using True by (simp add: nat_add_distrib nat_mod_distrib)
    then show ?thesis using 1 True
      by (subst from_int_loop.simps) (simp add: dec_rev_pos nat_div_distrib)
  qed (simp add: from_int_loop.simps)
qed

lemma s32_id: "- (2 ^ 31) \<le> x \<Longrightarrow> x < 2 ^ 31 \<Longrightarrow> s32 x = x"
  by (simp add: s32_def)

lemma str_from_int_eq:
  "- (2 ^ 31) < v \<Longrightarrow> v < 2 ^ 31 \<Longrightarrow>
   str_from_int v = (if v < 0 then ''-'' else []) @ dec_str (nat \<bar>v\<bar>)"
  by (simp add: str_from_int_def Let_def from_int_loop_eq dec_str_def s32_id)

text \<open>The smallest \<open>int\<close> has no positive counterpart: its digits are lost.\<close>

lemma str_from_int_min: "str_from_int (- (2 ^ 31)) = ''-''"
  by (simp add: str_from_int_def s32_def from_int_loop_eq)

lemma digit_char: "d < 10 \<Longrightarrow> chr_in 48 57 (char_of (48 + d))" "d < 10 \<Longrightarrow> of_char (char_of (48 + d)) = (48 + d :: nat)"
  by (simp_all add: chr_in_def)

lemma of_char_int: "(of_char c :: int) = int (of_char c)"
  by (simp add: of_nat_of_char)

lemma dec_rev_digits: "list_all (chr_in 48 57) (dec_rev n)"
proof (induction n rule: dec_rev.induct)
  case (1 n)
  then show ?case by (cases "n = 0") (simp_all add: dec_rev_pos digit_char)
qed

lemma dec_str_digits: "list_all (chr_in 48 57) (dec_str n)"
  using dec_rev_digits [of n] by (auto simp: dec_str_def chr_in_def list_all_iff)

lemma to_int_loop_app:
  "list_all (chr_in 48 57) xs \<Longrightarrow> to_int_loop (xs @ ys) r = to_int_loop ys (to_int_loop xs r)"
  by (induction xs arbitrary: r) auto

lemma to_int_loop_dec_rev: "n < 2 ^ 31 \<Longrightarrow> to_int_loop (rev (dec_rev n)) 0 = int n"
proof (induction n rule: dec_rev.induct)
  case (1 n)
  show ?case
  proof (cases "n = 0")
    case False
    then have IH: "to_int_loop (rev (dec_rev (n div 10))) 0 = int (n div 10)" using 1 by simp
    have b: "s32 (int (n div 10) * 10) = int (n div 10) * 10" "s32 (int n) = int n"
      using 1(2) by (intro s32_id; simp; fail)+
    have e: "int (n div 10) * 10 + int (n mod 10) = int n"
      by (metis div_mult_mod_eq of_nat_add of_nat_mult of_nat_numeral)
    have "to_int_loop (rev (dec_rev n)) 0 = s32 (s32 (int (n div 10) * 10) + int (n mod 10))"
      using False IH dec_rev_digits [of "n div 10"]
      by (simp add: dec_rev_pos to_int_loop_app list_all_iff digit_char of_char_int)
    then show ?thesis unfolding b e by simp
  qed simp
qed

lemma str_to_int_from_int:
  assumes "- (2 ^ 31) < v" "v < 2 ^ 31"
  shows "str_to_int (Some (str_from_int v)) = v"
proof -
  let ?n = "nat \<bar>v\<bar>"
  have n: "?n < 2 ^ 31" using assms by simp
  have loop: "to_int_loop (dec_str ?n) 0 = \<bar>v\<bar>"
    using to_int_loop_dec_rev [OF n] by (simp add: dec_str_def s32_def chr_in_def)
  obtain c r where c: "dec_str ?n = c # r" "chr_in 48 57 c"
    using dec_str_digits [of ?n] by (cases "dec_str ?n") (auto simp: dec_str_def dec_rev_pos split: if_splits)
  then have "c \<noteq> CHR '' ''" "c \<noteq> CHR 0x09" "c \<noteq> CHR ''-''" "c \<noteq> CHR ''+''" by (auto simp: chr_in_def)
  then show ?thesis
    using assms loop c by (auto simp: str_from_int_eq str_to_int_def deref_def s32_id)
qed

lemma length_dec_rev: "length (dec_rev n) = count_digits n"
proof (induction n rule: dec_rev.induct)
  case (1 n)
  then show ?case by (cases "n = 0") (simp_all add: dec_rev_pos count_digits.simps)
qed

lemma write_digits_eq:
  "length (dec_rev n) \<le> length buf \<Longrightarrow>
   write_digits n (length (dec_rev n)) buf = rev (dec_rev n) @ drop (length (dec_rev n)) buf"
proof (induction n arbitrary: buf rule: dec_rev.induct)
  case (1 n)
  show ?case
  proof (cases "n = 0")
    case False
    let ?l = "length (dec_rev (n div 10))" and ?c = "char_of (48 + n mod 10) :: char"
    have l: "length (dec_rev n) = Suc ?l" "?l < length buf" using 1(2) False by (simp_all add: dec_rev_pos)
    have "drop ?l (buf[?l := ?c]) = ?c # drop (Suc ?l) buf"
      using l(2) by (simp add: Cons_nth_drop_Suc [symmetric])
    then show ?thesis
      using 1(1) [OF False, of "buf[?l := ?c]"] l False
      by (subst write_digits.simps) (simp add: dec_rev_pos)
  qed (simp add: write_digits.simps)
qed

lemma length_dec_rev_le: "n < 10 ^ k \<Longrightarrow> length (dec_rev n) \<le> k"
proof (induction k arbitrary: n)
  case (Suc k)
  then show ?case by (cases "n = 0") (auto simp: dec_rev_pos less_mult_imp_div_less)
qed simp

lemma str_append_uint_eq: "str_append_uint dest num = dest @ dec_str (unat num)"
proof (cases "num = 0")
  case False
  have "unat num < 10 ^ 20" using unat_lt_2p32 [of num] by (simp del: unat_lt_2p32)
  then have l: "length (dec_rev (unat num)) \<le> length (replicate 20 NUL)"
    using length_dec_rev_le by simp
  have "unat num \<noteq> 0" using False by (simp add: unsigned_eq_0_iff)
  then show ?thesis
    using False write_digits_eq [OF l]
    by (simp add: str_append_uint_def Let_def dec_str_def length_dec_rev [symmetric] str_append_def)
qed (simp add: str_append_uint_def str_append_def dec_str_def)

section \<open>Hexadecimal numerals\<close>

definition hexval :: "char \<Rightarrow> nat" where
  "hexval c = length (takeWhile (\<lambda>d. d \<noteq> c) hexchars)"

definition hex_value :: "string \<Rightarrow> nat" where
  "hex_value s = foldl (\<lambda>n c. 16 * n + hexval c) 0 s"

lemma hexval_digit: "d < 16 \<Longrightarrow> hexval (hexchars ! d) = d"
  by (auto simp: hexval_def hexchars_def numeral_eq_Suc less_Suc_eq)

lemma drain_eq: "n \<le> length tmp \<Longrightarrow> drain tmp n buf = buf @ rev (take n tmp)"
  by (induction n arbitrary: buf) (auto simp: take_Suc_conv_app_nth)

lemma unat_low4: "unat (v AND 0xF :: u64) = unat v mod 16"
proof -
  have "v AND 0xF = take_bit 4 v" by (simp add: take_bit_eq_mask mask_eq_exp_minus_1)
  then show ?thesis by (simp only: unsigned_take_bit_eq) (simp add: take_bit_eq_mod)
qed

lemma hex_loop_value:
  "hex_value (rev (hex_loop v tmp)) = foldl (\<lambda>n c. 16 * n + hexval c) (unat v) (rev tmp)"
proof (induction v tmp rule: hex_loop.induct)
  case (1 v tmp)
  show ?case
  proof (cases "v > 0")
    case True
    have "16 * (unat v div 16) + unat v mod 16 = unat v" by simp
    then show ?thesis
      using 1 True by (subst hex_loop.simps) (simp add: unat_low4 hexval_digit unat_drop_bit)
  next
    case False
    then have "v = 0" using word_neq_0_conv [of v] by blast
    then show ?thesis by (simp add: hex_loop.simps hex_value_def)
  qed
qed

section \<open>Properties\<close>

text \<open>
  Every \<open>int\<close> above the smallest one survives printing with \<open>str_from_int\<close>
  and reading back with \<open>str_to_int\<close>; the smallest one is printed as a lone minus sign.
\<close>

lemma str_int_roundtrip:
  assumes "- (2 ^ 31) < v" "v < 2 ^ 31"
  shows "str_to_int (Some (str_from_int v)) = v \<and> str_from_int (- (2 ^ 31)) = ''-''"
  using str_to_int_from_int [OF assms] str_from_int_min by simp

lemma str_int_roundtrip_witness: "str_to_int (Some (str_from_int (-1234))) = -1234"
  using str_int_roundtrip [of "-1234"] by simp

text \<open>
  The digits that \<open>str_from_hex\<close> writes, read as a number to the base 16,
  give the value back.
\<close>

lemma str_from_hex_value: "hex_value (str_from_hex v) = unat v"
proof (cases "v = 0")
  case True
  then show ?thesis by (simp add: str_from_hex_def hex_value_def hexval_def hexchars_def)
next
  case False
  then show ?thesis using hex_loop_value [of v "[]"] by (simp add: str_from_hex_def Let_def drain_eq)
qed

text \<open>
  \<open>str_contains\<close> decides whether the second string occurs in the first,
  \<open>str_starts_with\<close> whether it is a prefix, \<open>str_equals\<close> whether the two are equal, and
  \<open>str_trim\<close> removes the blanks at both ends.
\<close>

lemma str_search_trim:
  assumes "cstring s" "cstring t"
  shows "(str_contains (Some s) (Some t) \<longleftrightarrow> (\<exists>p q. s = p @ t @ q))
    \<and> (str_starts_with (Some s) (Some t) \<longleftrightarrow> (\<exists>q. s = t @ q))
    \<and> (str_equals (Some s) (Some t) \<longleftrightarrow> s = t)
    \<and> str_trim (Some s) = Some (rev (dropWhile is_blank (rev (dropWhile is_blank s))))"
  using assms by (simp add: str_contains_iff str_starts_with_def starts_with_loop str_trim_eq)

lemma str_search_trim_witness: "str_trim (Some '' ab '') = Some ''ab'' \<and> \<not> str_equals (Some '' ab '') (Some ''ab'')"
  using str_search_trim [of "'' ab ''" "''ab''"] by (simp add: cstring_def NUL_def is_blank_def)

end
