(* ===== verification/Paging.thy ===== *)
theory Paging
  imports Physmem
begin

text \<open>
  The page tables of \<^verbatim>\<open>emex/kernel/mem/paging\<close>: \<^verbatim>\<open>paging.c\<close> (the kernel's tables), \<^verbatim>\<open>paging_proc.c\<close>
  (one set per process) and \<^verbatim>\<open>page_verify.c\<close>. A table is a physical page of 512 entries, reached
  through the direct map; \<open>pg_tables\<close> gives the entries of the page at a physical address.
  Flushing the TLB has no effect on this state.
\<close>

section \<open>Tables and entries\<close>

definition PTE_PRESENT :: u64 where "PTE_PRESENT = 1"
definition PTE_WRITABLE :: u64 where "PTE_WRITABLE = 2"
definition PTE_USER :: u64 where "PTE_USER = 4"
definition PTE_NX :: u64 where "PTE_NX = push_bit 63 1"
definition ADDR_MASK :: u64 where "ADDR_MASK = 0x000FFFFFFFFFF000"

lemmas pte_defs = PTE_PRESENT_def PTE_WRITABLE_def PTE_USER_def PTE_NX_def

record paging =
  pg_pm :: physmem
  pg_tables :: "u64 \<Rightarrow> nat \<Rightarrow> u64"
  kernel_pml4 :: u64
  g_hhdm_offset :: u64

definition phys_to_virt :: "u64 \<Rightarrow> u64 \<Rightarrow> u64" where
  "phys_to_virt hpr phys_addr = phys_addr + hpr"

definition virt_to_phys :: "u64 \<Rightarrow> u64 \<Rightarrow> u64" where
  "virt_to_phys hpr virt_addr = virt_addr - hpr"

definition pt_ix :: "nat \<Rightarrow> u64 \<Rightarrow> nat" where
  "pt_ix shift virtual_addr = unat (drop_bit shift virtual_addr AND 0x1FF)"

definition present :: "u64 \<Rightarrow> bool" where
  "present e \<longleftrightarrow> e AND PTE_PRESENT \<noteq> 0"

definition entry_base :: "u64 \<Rightarrow> u64" where
  "entry_base e = e AND ADDR_MASK"

definition set_entry :: "u64 \<Rightarrow> nat \<Rightarrow> u64 \<Rightarrow> paging \<Rightarrow> paging" where
  "set_entry tbl i e s = s\<lparr>pg_tables := (pg_tables s)(tbl := (pg_tables s tbl)(i := e))\<rparr>"

definition zero_page :: "u64 \<Rightarrow> paging \<Rightarrow> paging" where
  "zero_page p s = s\<lparr>pg_tables := (pg_tables s)(p := (\<lambda>_. 0))\<rparr>"

section \<open>Mapping\<close>

definition upper_flags :: "u64 \<Rightarrow> u64" where
  "upper_flags flags =
    (let uf = PTE_PRESENT OR PTE_WRITABLE in if flags AND PTE_USER \<noteq> 0 then uf OR PTE_USER else uf)"

text \<open>One level of the walk: the table below entry \<open>i\<close> of \<open>tbl\<close>, allocated when it is missing.\<close>

definition table_step :: "string \<Rightarrow> u64 \<Rightarrow> nat \<Rightarrow> u64 \<Rightarrow> paging \<Rightarrow> (u64 \<times> paging) outcome" where
  "table_step msg tbl i uf s =
    (let e = pg_tables s tbl i
     in if \<not> present e then
          case physmem_alloc_to (pg_pm s) 1 of Inl m \<Rightarrow> Inl m
          | Inr (p, pm') \<Rightarrow>
            if p = 0 then Inl msg
            else Inr (p, zero_page p (set_entry tbl i (p AND ADDR_MASK OR uf) (s\<lparr>pg_pm := pm'\<rparr>)))
        else Inr (entry_base e, set_entry tbl i (e OR uf) s))"

definition paging_map_page :: "u64 \<Rightarrow> u64 \<Rightarrow> u64 \<Rightarrow> paging \<Rightarrow> paging outcome" where
  "paging_map_page virtual_addr physical_addr flags s =
    (let uf = upper_flags flags in
     case table_step ''Could not allocate PDPT!'' (kernel_pml4 s) (pt_ix 39 virtual_addr) uf s of
       Inl m \<Rightarrow> Inl m
     | Inr (pdpt, s1) \<Rightarrow>
     case table_step ''Could not allocate PD!'' pdpt (pt_ix 30 virtual_addr) uf s1 of
       Inl m \<Rightarrow> Inl m
     | Inr (pd, s2) \<Rightarrow>
     case table_step ''Could not allocate PT!'' pd (pt_ix 21 virtual_addr) uf s2 of
       Inl m \<Rightarrow> Inl m
     | Inr (pt, s3) \<Rightarrow>
       Inr (set_entry pt (pt_ix 12 virtual_addr) (((physical_addr AND ADDR_MASK) OR flags) AND NOT PTE_NX) s3))"

definition paging_map_page_proc :: "u64 \<Rightarrow> u64 \<Rightarrow> u64 \<Rightarrow> u64 \<Rightarrow> paging \<Rightarrow> paging outcome" where
  "paging_map_page_proc pml4_phys virtual_addr physical_addr flags s =
    (let uf = upper_flags flags in
     case table_step ''[PAGING] failed to allocate PDPT for proc'' pml4_phys (pt_ix 39 virtual_addr) uf s of
       Inl m \<Rightarrow> Inl m
     | Inr (pdpt, s1) \<Rightarrow>
     case table_step ''[PAGING] failed to allocate PD for proc'' pdpt (pt_ix 30 virtual_addr) uf s1 of
       Inl m \<Rightarrow> Inl m
     | Inr (pd, s2) \<Rightarrow>
     case table_step ''[PAGING] failed to allocate PT for proc'' pd (pt_ix 21 virtual_addr) uf s2 of
       Inl m \<Rightarrow> Inl m
     | Inr (pt, s3) \<Rightarrow>
       Inr (set_entry pt (pt_ix 12 virtual_addr) ((physical_addr AND ADDR_MASK) OR flags) s3))"

definition paging_create_proc_pml4 :: "paging \<Rightarrow> (u64 \<times> paging) outcome" where
  "paging_create_proc_pml4 s =
    (case physmem_alloc_to (pg_pm s) 1 of Inl m \<Rightarrow> Inl m
     | Inr (p, pm') \<Rightarrow>
       if p = 0 then Inl ''[PAGING] failed to allocate proc PML4''
       else let s1 = zero_page p (s\<lparr>pg_pm := pm'\<rparr>)
            in Inr (p, fold (\<lambda>i t. set_entry p i (pg_tables t (kernel_pml4 t) i) t) [256..<512] s1))"

section \<open>Unmapping, queries, regions\<close>

text \<open>
  The function also forms the address of a \<^verbatim>\<open>pdpt\<close> that it never reads; what it does use goes
  through \<open>g_hhdm_offset\<close>, which \<open>paging_init\<close> sets to the offset of the direct map.
\<close>

definition paging_unmap_page :: "u64 \<Rightarrow> paging \<Rightarrow> paging" where
  "paging_unmap_page virtual_addr s =
    (let tb = pg_tables s; e4 = tb (kernel_pml4 s) (pt_ix 39 virtual_addr) in
     if \<not> present e4 then s
     else let pdpt = entry_base e4; e3 = tb pdpt (pt_ix 30 virtual_addr) in
     if \<not> present e3 then s
     else let pd = entry_base e3; e2 = tb pd (pt_ix 21 virtual_addr) in
     if \<not> present e2 then s
     else let pt = entry_base e2 in set_entry pt (pt_ix 12 virtual_addr) 0 s)"

definition paging_init :: "u64 \<Rightarrow> u64 \<Rightarrow> paging \<Rightarrow> paging" where
  "paging_init hpr current_cr3 s = s\<lparr>kernel_pml4 := current_cr3 AND ADDR_MASK, g_hhdm_offset := hpr\<rparr>"

definition is_page_mapped :: "u64 \<Rightarrow> paging \<Rightarrow> bool" where
  "is_page_mapped virtual_addr s =
    (let tb = pg_tables s; e4 = tb (kernel_pml4 s) (pt_ix 39 virtual_addr) in
     if \<not> present e4 then False
     else let e3 = tb (entry_base e4) (pt_ix 30 virtual_addr) in
     if \<not> present e3 then False
     else let e2 = tb (entry_base e3) (pt_ix 21 virtual_addr) in
     if \<not> present e2 then False
     else present (tb (entry_base e2) (pt_ix 12 virtual_addr)))"

definition verify_page_permissions :: "u64 \<Rightarrow> paging \<Rightarrow> bool" where
  "verify_page_permissions virtual_addr s =
    (let tb = pg_tables s; e4 = tb (kernel_pml4 s) (pt_ix 39 virtual_addr) in
     if \<not> present e4 then False
     else let e3 = tb (entry_base e4) (pt_ix 30 virtual_addr) in
     if \<not> present e3 then False
     else let e2 = tb (entry_base e3) (pt_ix 21 virtual_addr) in
     if \<not> present e2 then False
     else let e1 = tb (entry_base e2) (pt_ix 12 virtual_addr) in
     if \<not> present e1 then False
     else e1 AND PTE_USER \<noteq> 0)"

text \<open>\<open>memset\<close> on the physical range from \<open>phys\<close> on: the entries that lie in it become 0.\<close>

definition zero_range :: "u64 \<Rightarrow> u64 \<Rightarrow> paging \<Rightarrow> paging" where
  "zero_range phys sz s =
    s\<lparr>pg_tables := (\<lambda>p i. if p + 8 * word_of_nat i - phys < sz then 0 else pg_tables s p i)\<rparr>"

definition obind :: "'a outcome \<Rightarrow> ('a \<Rightarrow> 'b outcome) \<Rightarrow> 'b outcome" where
  "obind x f = (case x of Inl m \<Rightarrow> Inl m | Inr y \<Rightarrow> f y)"

definition map_region :: "u64 \<Rightarrow> u64 \<Rightarrow> u64 \<Rightarrow> u64 \<Rightarrow> paging \<Rightarrow> paging outcome" where
  "map_region phys virt sz flags s =
    (let frames = sz div PAGE_SIZE in
     obind (fold (\<lambda>i r. obind r (paging_map_page (virt + word_of_nat i * PAGE_SIZE)
                                   (phys + word_of_nat i * PAGE_SIZE) flags))
             [0..<unat frames] (Inr s))
       (\<lambda>s'. Inr (zero_range phys sz s')))"

definition map_region_alloc :: "u64 \<Rightarrow> u64 \<Rightarrow> paging \<Rightarrow> (u64 \<times> paging) outcome" where
  "map_region_alloc virt sz s =
    (obind (physmem_alloc_to (pg_pm s) (sz div PAGE_SIZE)) (\<lambda>(phys, pm').
       if phys = 0 then Inl ''ERROR: Could not allocate physmem in lime request''
       else obind (map_region phys virt sz (PTE_PRESENT OR PTE_WRITABLE OR PTE_USER) (s\<lparr>pg_pm := pm'\<rparr>))
              (\<lambda>s'. Inr (phys, s'))))"

definition ULIME_START :: u64 where
  "ULIME_START = 0xFFFFA00000000000 + 1024 * 1024 * 32 + 1024 * 1024 * 32"

definition map_ulime_region :: "u64 \<Rightarrow> u64 \<Rightarrow> paging \<Rightarrow> paging outcome" where
  "map_ulime_region phys_start sz s =
    (if ULIME_START mod PAGE_SIZE \<noteq> 0 then Inl ''ULIME_START not page aligned!''
     else if phys_start mod PAGE_SIZE \<noteq> 0 then Inl ''ULime physical start not page aligned!''
     else let pages = (sz + PAGE_SIZE - 1) div PAGE_SIZE in
       fold (\<lambda>i r. obind r (\<lambda>s.
               let virt = ULIME_START + word_of_nat i * PAGE_SIZE
               in if is_page_mapped virt s then Inr s
                  else paging_map_page virt (phys_start + word_of_nat i * PAGE_SIZE) (PTE_PRESENT OR PTE_WRITABLE) s))
         [0..<unat pages] (Inr s))"

declare upt_rec_numeral [simp del]

section \<open>Entries bit by bit\<close>

lemma present_bit: "present e \<longleftrightarrow> bit e 0"
  by (simp add: present_def PTE_PRESENT_def and_one_eq odd_iff_mod_2_eq_one bit_0)

lemma present_or_flags [simp]: "present (e OR upper_flags fl)"
  by (auto simp: present_bit upper_flags_def pte_defs bit_simps Let_def)

lemma addr_mask_alt: "ADDR_MASK = push_bit 12 (mask 40)"
  by (simp add: ADDR_MASK_def mask_eq_exp_minus_1)

lemma flags_no_addr: "upper_flags fl AND ADDR_MASK = 0"
  by (simp add: upper_flags_def pte_defs ADDR_MASK_def Let_def)

lemma entry_base_or [simp]: "entry_base (e OR upper_flags fl) = entry_base e"
  using flags_no_addr [of fl] by (simp add: entry_base_def bit.conj_disj_distrib2)

lemma entry_base_idem [simp]: "entry_base (entry_base e) = entry_base e"
  by (simp add: entry_base_def and.assoc)

lemma frame_masked:
  assumes "unat p mod 4096 = 0" "unat p div 4096 < 2 ^ 40"
  shows "p AND ADDR_MASK = p"
proof -
  define f where "f = drop_bit 12 p"
  have uf: "unat f = unat p div 4096" by (simp add: f_def unat_drop_bit)
  have p: "p = push_bit 12 f"
  proof -
    have "unat p div 4096 * 4096 = unat p" using div_mult_mod_eq [of "unat p" 4096] assms(1) by linarith
    then have "unat (push_bit 12 f) = unat p"
      using uf by (simp add: push_bit_eq_mult unat_word_ariths)
    then show ?thesis by (simp add: word_unat_eq_iff)
  qed
  have "take_bit 40 f = f" using assms(2) uf
    by (simp only: word_unat_eq_iff unsigned_take_bit_eq) (simp add: take_bit_nat_eq_self)
  then have "f AND mask 40 = f" by (simp add: take_bit_eq_mask)
  then show ?thesis by (simp add: p addr_mask_alt push_bit_and [symmetric])
qed

section \<open>Translation\<close>

text \<open>The entry that the processor finds for an address: the last of four present entries.\<close>

fun lookup_path :: "(u64 \<Rightarrow> nat \<Rightarrow> u64) \<Rightarrow> u64 \<Rightarrow> nat list \<Rightarrow> u64 option" where
  "lookup_path tb p [] = None"
| "lookup_path tb p (i # is) =
    (if \<not> present (tb p i) then None
     else if is = [] then Some (tb p i) else lookup_path tb (entry_base (tb p i)) is)"

definition va_path :: "u64 \<Rightarrow> nat list" where
  "va_path va = [pt_ix 39 va, pt_ix 30 va, pt_ix 21 va, pt_ix 12 va]"

definition translate :: "paging \<Rightarrow> u64 \<Rightarrow> u64 \<Rightarrow> u64 option" where
  "translate s root va = lookup_path (pg_tables s) root (va_path va)"

lemma is_page_mapped_iff: "is_page_mapped va s \<longleftrightarrow> translate s (kernel_pml4 s) va \<noteq> None"
  by (simp add: is_page_mapped_def translate_def va_path_def Let_def)

text \<open>
  The tables of a root form a tree: \<open>own\<close> gives the path of indices at which a table hangs, and
  every table is a frame in use.
\<close>

definition tree :: "(u64 \<rightharpoonup> nat list) \<Rightarrow> paging \<Rightarrow> bool" where
  "tree own s \<longleftrightarrow> pm_ok (pg_pm s) \<and> unat (pm_total (pg_pm s)) \<le> 2 ^ 40
     \<and> (\<forall>p path. own p = Some path \<longrightarrow> \<not> frame_free (pg_pm s) (unat p div 4096))
     \<and> (\<forall>p path i. own p = Some path \<longrightarrow> length path < 3 \<longrightarrow> present (pg_tables s p i) \<longrightarrow>
          own (entry_base (pg_tables s p i)) = Some (path @ [i]))"

lemma lookup_path_cong:
  assumes "tree own s" "own p = Some path" "length path + length is = 4"
    and "\<And>q pq i. own q = Some pq \<Longrightarrow> tb' q i = pg_tables s q i"
  shows "lookup_path tb' p is = lookup_path (pg_tables s) p is"
  using assms(2,3)
proof (induction "is" arbitrary: p path)
  case (Cons i "is")
  show ?case
  proof (cases "present (pg_tables s p i) \<and> is \<noteq> []")
    case True
    then have "own (entry_base (pg_tables s p i)) = Some (path @ [i])"
      using assms(1) Cons.prems by (cases "is") (auto simp: tree_def)
    then show ?thesis using Cons.IH assms(4) [OF Cons.prems(1)] Cons.prems(2) True by simp
  qed (use assms(4) [OF Cons.prems(1)] in auto)
qed simp

text \<open>Fresh frames.\<close>

lemma fresh_frame:
  assumes "tree own s" "physmem_alloc_to (pg_pm s) 1 = Inr (p, pm')" "p \<noteq> 0"
  shows "own p = None" "p AND ADDR_MASK = p" "tree own (s\<lparr>pg_pm := pm'\<rparr>)"
    "\<not> frame_free pm' (unat p div 4096)"
proof -
  have ok: "pm_ok (pg_pm s)" using assms(1) by (simp add: tree_def)
  have r: "unat p mod 4096 = 0" "unat p div 4096 < unat (pm_total (pg_pm s))"
      "frame_free (pg_pm s) (unat p div 4096)"
    using pm.alloc_run [OF ok assms(2,3)] by (auto simp: page_run_def)
  have free': "frame_free pm' j \<longleftrightarrow> j \<notin> page_run p 1 \<and> frame_free (pg_pm s) j" for j
    using pm.alloc_isfree [OF ok assms(2,3)] .
  show "own p = None" using r(3) assms(1) by (cases "own p") (auto simp: tree_def)
  show "p AND ADDR_MASK = p" using r(1,2) assms(1) by (intro frame_masked) (auto simp: tree_def)
  show "\<not> frame_free pm' (unat p div 4096)" by (simp add: free' page_run_def)
  show "tree own (s\<lparr>pg_pm := pm'\<rparr>)"
    using assms(1) free' pm.alloc_ok [OF ok assms(2)] by (auto simp: tree_def)
qed

lemma set_entry_simps [simp]:
  "pg_pm (set_entry t i e s) = pg_pm s" "kernel_pml4 (set_entry t i e s) = kernel_pml4 s"
  "pg_pm (zero_page p s) = pg_pm s" "kernel_pml4 (zero_page p s) = kernel_pml4 s"
  "pg_tables (set_entry t i e s) q j = (if q = t \<and> j = i then e else pg_tables s q j)"
  "pg_tables (zero_page p s) q j = (if q = p then 0 else pg_tables s q j)"
  by (auto simp: set_entry_def zero_page_def)

lemma not_present_0 [simp]: "\<not> present 0"
  by (simp add: present_def)

text \<open>Present entries of the tables stay present and keep pointing to the same table.\<close>

definition keeps :: "(u64 \<rightharpoonup> nat list) \<Rightarrow> paging \<Rightarrow> paging \<Rightarrow> bool" where
  "keeps own s s' \<longleftrightarrow> (\<forall>q pq j. own q = Some pq \<longrightarrow> present (pg_tables s q j) \<longrightarrow>
     present (pg_tables s' q j) \<and> entry_base (pg_tables s' q j) = entry_base (pg_tables s q j))"

text \<open>
  One level of the walk keeps the tree, puts a table below the entry, and changes no translation.
\<close>

lemma table_step_spec:
  assumes t: "tree own s" and own: "own tbl = Some path" "length path < 3"
    and step: "table_step msg tbl i (upper_flags fl) s = Inr (p, s')"
  shows "\<exists>own'. tree own' s' \<and> own \<subseteq>\<^sub>m own' \<and> own' p = Some (path @ [i])
    \<and> present (pg_tables s' tbl i) \<and> entry_base (pg_tables s' tbl i) = p
    \<and> kernel_pml4 s' = kernel_pml4 s \<and> keeps own s s'
    \<and> (\<forall>q pq is. own q = Some pq \<longrightarrow> length pq + length is = 4 \<longrightarrow>
         lookup_path (pg_tables s') q is = lookup_path (pg_tables s) q is)"
proof (cases "present (pg_tables s tbl i)")
  case True
  let ?e = "pg_tables s tbl i"
  have s': "p = entry_base ?e" "s' = set_entry tbl i (?e OR upper_flags fl) s"
    using step True by (simp_all add: table_step_def Let_def)
  have ent: "present (pg_tables s' q j) = present (pg_tables s q j)"
    "entry_base (pg_tables s' q j) = entry_base (pg_tables s q j)" for q j
    using True by (auto simp: s'(2))
  have "tree own s'" using t ent unfolding tree_def by (simp add: s'(2))
  moreover have "own p = Some (path @ [i])" using t own True by (auto simp: tree_def s'(1))
  moreover have "lookup_path (pg_tables s') q is = lookup_path (pg_tables s) q is"
    if "own q = Some pq" "length pq + length is = 4" for q pq "is"
    using that
  proof (induction "is" arbitrary: q pq)
    case (Cons j "is")
    show ?case
    proof (cases "present (pg_tables s q j) \<and> is \<noteq> []")
      case T: True
      then have "own (entry_base (pg_tables s q j)) = Some (pq @ [j])"
        using t Cons.prems by (cases "is") (auto simp: tree_def)
      then show ?thesis using Cons.IH Cons.prems(2) T ent by simp
    next
      case F: False
      then have "is = [] \<Longrightarrow> q \<noteq> tbl" using Cons.prems own by auto
      then show ?thesis using F ent by (auto simp: s'(2))
    qed
  qed simp
  moreover have "keeps own s s'" using ent by (auto simp: keeps_def)
  ultimately show ?thesis using ent True s' by (intro exI [of _ own]) (auto simp: map_le_def)
next
  case False
  then obtain pm' where al: "physmem_alloc_to (pg_pm s) 1 = Inr (p, pm')" "p \<noteq> 0"
    and s': "s' = zero_page p (set_entry tbl i (p AND ADDR_MASK OR upper_flags fl) (s\<lparr>pg_pm := pm'\<rparr>))"
    using step by (auto simp: table_step_def Let_def split: sum.splits if_splits)
  note f = fresh_frame [OF t al]
  have ne: "q \<noteq> p" if "own q = Some pq" for q pq using that f(1) by auto
  have "p \<noteq> tbl" using ne own by blast
  have e: "pg_tables s' q j = (if q = p then 0 else if q = tbl \<and> j = i then p OR upper_flags fl else pg_tables s q j)" for q j
    by (simp add: s' f(2))
  have eb: "entry_base (p OR upper_flags fl) = p" using f(2) by (simp add: entry_base_def[symmetric])
  have "tree (own(p \<mapsto> path @ [i])) s'"
    unfolding tree_def
  proof (intro conjI allI impI)
    show "pm_ok (pg_pm s')" "unat (pm_total (pg_pm s')) \<le> 2 ^ 40" using f(3) by (auto simp: tree_def s')
  next
    fix q pq assume "(own(p \<mapsto> path @ [i])) q = Some pq"
    then show "\<not> frame_free (pg_pm s') (unat q div 4096)"
      using f(3,4) by (auto simp: tree_def s' split: if_splits)
  next
    fix q pq j
    assume q: "(own(p \<mapsto> path @ [i])) q = Some pq" "length pq < 3" "present (pg_tables s' q j)"
    then have qp: "q \<noteq> p" "own q = Some pq" using e by (auto split: if_splits)
    show "(own(p \<mapsto> path @ [i])) (entry_base (pg_tables s' q j)) = Some (pq @ [j])"
    proof (cases "q = tbl \<and> j = i")
      case True
      then show ?thesis using qp own(1) e eb by auto
    next
      case F: False
      then have "pg_tables s' q j = pg_tables s q j" using qp(1) e by auto
      moreover from this have "own (entry_base (pg_tables s q j)) = Some (pq @ [j])"
        using t qp(2) q(2,3) by (auto simp: tree_def)
      ultimately show ?thesis using ne by auto
    qed
  qed
  moreover have "own \<subseteq>\<^sub>m own(p \<mapsto> path @ [i])" using f(1) by (auto simp: map_le_def)
  moreover have "lookup_path (pg_tables s') q is = lookup_path (pg_tables s) q is"
    if "own q = Some pq" "length pq + length is = 4" for q pq "is"
    using that
  proof (induction "is" arbitrary: q pq)
    case (Cons j "is")
    show ?case
    proof (cases "q = tbl \<and> j = i")
      case T: True
      then obtain k "is'" where is': "is = k # is'" using Cons.prems own by (cases "is") auto
      show ?thesis using T False e eb is' \<open>p \<noteq> tbl\<close> by auto
    next
      case F: False
      then have eq: "pg_tables s' q j = pg_tables s q j" using e ne Cons.prems(1) by auto
      show ?thesis
      proof (cases "present (pg_tables s q j) \<and> is \<noteq> []")
        case T: True
        then have "own (entry_base (pg_tables s q j)) = Some (pq @ [j])"
          using t Cons.prems by (cases "is") (auto simp: tree_def)
        then show ?thesis using Cons.IH Cons.prems(2) T eq by simp
      qed (use eq in auto)
    qed
  qed simp
  moreover have "keeps own s s'" using e ne False by (auto simp: keeps_def)
  ultimately show ?thesis using e eb \<open>p \<noteq> tbl\<close> by (intro exI [of _ "own(p \<mapsto> path @ [i])"]) (auto simp: s' f(2))
qed

text \<open>The table that a path of present entries leads to.\<close>

fun descend :: "(u64 \<Rightarrow> nat \<Rightarrow> u64) \<Rightarrow> u64 \<Rightarrow> nat list \<Rightarrow> u64 option" where
  "descend tb p [] = Some p"
| "descend tb p (i # is) = (if present (tb p i) then descend tb (entry_base (tb p i)) is else None)"

lemma lookup_descend:
  "lookup_path tb p (xs @ [i]) = (case descend tb p xs of None \<Rightarrow> None
     | Some q \<Rightarrow> if present (tb q i) then Some (tb q i) else None)"
  by (induction xs arbitrary: p) auto

lemma descend_own:
  assumes "tree own s" "own q = Some pq" "length pq + length xs \<le> 3" "descend (pg_tables s) q xs = Some r"
  shows "own r = Some (pq @ xs)"
  using assms(2-)
proof (induction xs arbitrary: q pq)
  case (Cons i xs)
  then have "own (entry_base (pg_tables s q i)) = Some (pq @ [i])"
    using assms(1) by (auto simp: tree_def split: if_splits)
  then show ?case using Cons.IH [of "entry_base (pg_tables s q i)" "pq @ [i]"] Cons.prems
    by (auto split: if_splits)
qed simp

lemma descend_keeps:
  assumes "tree own s" "keeps own s s'" "own q = Some pq" "length pq + length xs \<le> 3"
    "descend (pg_tables s) q xs = Some r"
  shows "descend (pg_tables s') q xs = Some r"
  using assms(3-)
proof (induction xs arbitrary: q pq)
  case (Cons i xs)
  have p: "present (pg_tables s q i)" using Cons.prems(3) by (auto split: if_splits)
  have "own (entry_base (pg_tables s q i)) = Some (pq @ [i])"
    using assms(1) Cons.prems p by (auto simp: tree_def)
  moreover have "present (pg_tables s' q i)" "entry_base (pg_tables s' q i) = entry_base (pg_tables s q i)"
    using assms(2) Cons.prems(1) p by (auto simp: keeps_def)
  ultimately show ?case using Cons.IH [of "entry_base (pg_tables s q i)" "pq @ [i]"] Cons.prems p by simp
qed simp

lemma leaf_write:
  assumes t: "tree own s" and root: "own root = Some []"
    and pt: "descend (pg_tables s) root path = Some pt" "length path = 3" and len: "length xs = 3"
  shows "tree own (set_entry pt i e s)"
    and "lookup_path (pg_tables (set_entry pt i e s)) root (xs @ [j]) =
      (if xs = path \<and> j = i then (if present e then Some e else None) else lookup_path (pg_tables s) root (xs @ [j]))"
proof -
  have own_pt: "own pt = Some path" using descend_own [OF t root _ pt(1)] pt(2) by simp
  show "tree own (set_entry pt i e s)" using t own_pt pt(2) by (auto simp: tree_def)
  have d: "descend (pg_tables (set_entry pt i e s)) q ys = descend (pg_tables s) q ys"
    if "own q = Some pq" "length pq + length ys \<le> 3" for q pq ys
    using that
  proof (induction ys arbitrary: q pq)
    case (Cons k ys)
    have "q \<noteq> pt" using Cons.prems own_pt pt(2) by auto
    show ?case
    proof (cases "present (pg_tables s q k)")
      case True
      then have "own (entry_base (pg_tables s q k)) = Some (pq @ [k])"
        using t Cons.prems by (auto simp: tree_def)
      then show ?thesis using Cons.IH [of "entry_base (pg_tables s q k)" "pq @ [k]"] Cons.prems \<open>q \<noteq> pt\<close> by simp
    qed (use \<open>q \<noteq> pt\<close> in simp)
  qed simp
  have "descend (pg_tables s) root xs \<noteq> Some pt" if "xs \<noteq> path"
    using descend_own [OF t root, of xs] len own_pt that by auto
  then show "lookup_path (pg_tables (set_entry pt i e s)) root (xs @ [j]) =
      (if xs = path \<and> j = i then (if present e then Some e else None) else lookup_path (pg_tables s) root (xs @ [j]))"
    using d [OF root, of xs] len pt(1) by (auto simp: lookup_descend split: option.splits)
qed

section \<open>What mapping and unmapping do to the translation\<close>

definition pt_ok :: "paging \<Rightarrow> u64 \<Rightarrow> bool" where
  "pt_ok s root \<longleftrightarrow> (\<exists>own. tree own s \<and> own root = Some [])"

lemma walk_spec:
  assumes ok: "pt_ok s root"
    and s1: "table_step m1 root i4 (upper_flags fl) s = Inr (p3, s1)"
    and s2: "table_step m2 p3 i3 (upper_flags fl) s1 = Inr (p2, s2)"
    and s3: "table_step m3 p2 i2 (upper_flags fl) s2 = Inr (p1, s3)"
  shows "pt_ok (set_entry p1 i1 e s3) root" "kernel_pml4 (set_entry p1 i1 e s3) = kernel_pml4 s"
    "length xs = 3 \<Longrightarrow> lookup_path (pg_tables (set_entry p1 i1 e s3)) root (xs @ [j]) =
      (if xs = [i4, i3, i2] \<and> j = i1 then (if present e then Some e else None)
       else lookup_path (pg_tables s) root (xs @ [j]))"
proof -
  obtain own where o: "tree own s" "own root = Some []" using ok by (auto simp: pt_ok_def)
  from table_step_spec [OF o(1,2) _ s1] obtain o1 where
    o1: "tree o1 s1" "own \<subseteq>\<^sub>m o1" "o1 p3 = Some [i4]" "present (pg_tables s1 root i4)"
        "entry_base (pg_tables s1 root i4) = p3" "kernel_pml4 s1 = kernel_pml4 s"
        "\<And>q pq is. own q = Some pq \<Longrightarrow> length pq + length is = 4 \<Longrightarrow>
           lookup_path (pg_tables s1) q is = lookup_path (pg_tables s) q is" by auto
  from table_step_spec [OF o1(1,3) _ s2] obtain o2 where
    o2: "tree o2 s2" "o1 \<subseteq>\<^sub>m o2" "o2 p2 = Some [i4, i3]" "present (pg_tables s2 p3 i3)"
        "entry_base (pg_tables s2 p3 i3) = p2" "kernel_pml4 s2 = kernel_pml4 s1" "keeps o1 s1 s2"
        "\<And>q pq is. o1 q = Some pq \<Longrightarrow> length pq + length is = 4 \<Longrightarrow>
           lookup_path (pg_tables s2) q is = lookup_path (pg_tables s1) q is" by auto
  from table_step_spec [OF o2(1,3) _ s3] obtain o3 where
    o3: "tree o3 s3" "o2 \<subseteq>\<^sub>m o3" "o3 p1 = Some [i4, i3, i2]" "present (pg_tables s3 p2 i2)"
        "entry_base (pg_tables s3 p2 i2) = p1" "kernel_pml4 s3 = kernel_pml4 s2" "keeps o2 s2 s3"
        "\<And>q pq is. o2 q = Some pq \<Longrightarrow> length pq + length is = 4 \<Longrightarrow>
           lookup_path (pg_tables s3) q is = lookup_path (pg_tables s2) q is" by auto
  have r1: "o1 root = Some []" using o1(2) o(2) by (metis domI map_le_def)
  have r2: "o2 root = Some []" using o2(2) r1 by (metis domI map_le_def)
  have r3: "o3 root = Some []" using o3(2) r2 by (metis domI map_le_def)
  have "descend (pg_tables s1) root [i4] = Some p3" using o1(4,5) by simp
  from descend_keeps [OF o1(1) o2(7) r1 _ this] have "descend (pg_tables s2) root [i4, i3] = Some p2"
    using o2(4,5) by (auto split: if_splits)
  from descend_keeps [OF o2(1) o3(7) r2 _ this] have d: "descend (pg_tables s3) root [i4, i3, i2] = Some p1"
    using o3(4,5) by (auto split: if_splits)
  show "pt_ok (set_entry p1 i1 e s3) root"
    using leaf_write(1) [OF o3(1) r3 d, of "[i4, i3, i2]"] r3 by (auto simp: pt_ok_def)
  show "kernel_pml4 (set_entry p1 i1 e s3) = kernel_pml4 s" using o1(6) o2(6) o3(6) by simp
  show "lookup_path (pg_tables (set_entry p1 i1 e s3)) root (xs @ [j]) =
      (if xs = [i4, i3, i2] \<and> j = i1 then (if present e then Some e else None)
       else lookup_path (pg_tables s) root (xs @ [j]))" if "length xs = 3"
    using leaf_write(2) [OF o3(1) r3 d, of xs i1 e j] that
      o1(7) [OF o(2), of "xs @ [j]"] o2(8) [OF r1, of "xs @ [j]"] o3(8) [OF r2, of "xs @ [j]"] by simp
qed

lemma map_with_spec:
  assumes ok: "pt_ok s root"
    and s1: "table_step m1 root (pt_ix 39 va) (upper_flags fl) s = Inr (p3, s1)"
    and s2: "table_step m2 p3 (pt_ix 30 va) (upper_flags fl) s1 = Inr (p2, s2)"
    and s3: "table_step m3 p2 (pt_ix 21 va) (upper_flags fl) s2 = Inr (p1, s3)"
    and s': "s' = set_entry p1 (pt_ix 12 va) e s3"
  shows "pt_ok s' root" "kernel_pml4 s' = kernel_pml4 s"
    "translate s' root va' = (if va_path va' = va_path va then (if present e then Some e else None)
       else translate s root va')"
proof -
  show "pt_ok s' root" "kernel_pml4 s' = kernel_pml4 s"
    using walk_spec(1,2) [OF ok s1 s2 s3] by (simp_all add: s')
  show "translate s' root va' = (if va_path va' = va_path va then (if present e then Some e else None)
       else translate s root va')"
    using walk_spec(3) [OF ok s1 s2 s3, of "[pt_ix 39 va', pt_ix 30 va', pt_ix 21 va']"]
    by (simp add: translate_def va_path_def s')
qed

text \<open>With three free frames left no step of a walk can run out of memory.\<close>

definition spare :: "physmem \<Rightarrow> nat" where
  "spare s = card {f. 512 \<le> f \<and> frame_free s f}"

lemma finite_spare [simp]: "finite {f. 512 \<le> f \<and> frame_free s f}"
  by (rule finite_subset [of _ "{..<unat (pm_total s)}"]) (auto simp: frame_free_def)

lemma alloc_one:
  assumes "pm_ok s" "0 < spare s"
  shows "\<exists>p s'. physmem_alloc_to s 1 = Inr (p, s') \<and> p \<noteq> 0 \<and> spare s \<le> Suc (spare s')"
proof -
  obtain f where f: "512 \<le> f" "frame_free s f"
    using assms(2) by (force simp: spare_def card_gt_0_iff)
  then have "free_run s f 1" by (auto simp: free_run_def less_Suc_eq_le)
  then have nofail: "\<not> (\<forall>p. 512 \<le> p \<longrightarrow> \<not> free_run s p (unat (1 :: u64)))" using f(1) by auto
  have "(0 :: u64) < 1" by simp
  from alloc_to_spec [OF assms(1) this] nofail obtain g s' where
    g: "physmem_alloc_to s 1 = Inr (g * PAGE_SIZE, s')" "512 \<le> unat g" "free_run s (unat g) 1" by auto
  have "unat g < 2 ^ 52" using free_run_in_range [OF assms(1) g(3)] by simp
  then obtain a where a: "physmem_alloc_to s 1 = Inr (a, s')" "a \<noteq> 0"
    using g(1) frame_addr_nonzero [OF g(2)] by blast
  have "{f. 512 \<le> f \<and> frame_free s f} \<subseteq> insert (unat a div 4096) {f. 512 \<le> f \<and> frame_free s' f}"
    using pm.alloc_isfree [OF assms(1) a] by (auto simp: page_run_def)
  then have "spare s \<le> card (insert (unat a div 4096) {f. 512 \<le> f \<and> frame_free s' f})"
    unfolding spare_def by (intro card_mono) auto
  also have "\<dots> \<le> Suc (spare s')" by (simp add: spare_def card_insert_le_m1 card_insert_if)
  finally show ?thesis using a by blast
qed

lemma table_step_returns:
  assumes "tree own s" "0 < spare (pg_pm s)"
  shows "\<exists>p s'. table_step msg tbl i uf s = Inr (p, s') \<and> spare (pg_pm s) \<le> Suc (spare (pg_pm s'))"
proof (cases "present (pg_tables s tbl i)")
  case False
  obtain p pm' where "physmem_alloc_to (pg_pm s) 1 = Inr (p, pm')" "p \<noteq> 0" "spare (pg_pm s) \<le> Suc (spare pm')"
    using alloc_one [of "pg_pm s"] assms by (auto simp: tree_def)
  then show ?thesis using False by (auto simp: table_step_def Let_def)
qed (simp add: table_step_def Let_def)

lemma walk_returns:
  assumes "pt_ok s root" "3 \<le> spare (pg_pm s)"
  obtains p3 s1 p2 s2 p1 s3 where "table_step m1 root i4 (upper_flags fl) s = Inr (p3, s1)"
    "table_step m2 p3 i3 (upper_flags fl) s1 = Inr (p2, s2)" "table_step m3 p2 i2 (upper_flags fl) s2 = Inr (p1, s3)"
    "spare (pg_pm s) \<le> 3 + spare (pg_pm s3)"
proof -
  obtain own where o: "tree own s" "own root = Some []" using assms(1) by (auto simp: pt_ok_def)
  obtain p3 s1 where s1: "table_step m1 root i4 (upper_flags fl) s = Inr (p3, s1)" "spare (pg_pm s) \<le> Suc (spare (pg_pm s1))"
    using table_step_returns [OF o(1), of m1 root i4 "upper_flags fl"] assms(2) by fastforce
  obtain o1 where o1: "tree o1 s1" "o1 p3 = Some [i4]" using table_step_spec [OF o _ s1(1)] by auto
  obtain p2 s2 where s2: "table_step m2 p3 i3 (upper_flags fl) s1 = Inr (p2, s2)" "spare (pg_pm s1) \<le> Suc (spare (pg_pm s2))"
    using table_step_returns [OF o1(1), of m2 p3 i3 "upper_flags fl"] s1(2) assms(2) by fastforce
  obtain o2 where o2: "tree o2 s2" using table_step_spec [OF o1 _ s2(1)] by auto
  obtain p1 s3 where s3: "table_step m3 p2 i2 (upper_flags fl) s2 = Inr (p1, s3)" "spare (pg_pm s2) \<le> Suc (spare (pg_pm s3))"
    using table_step_returns [OF o2, of m3 p2 i2 "upper_flags fl"] s1(2) s2(2) assms(2) by fastforce
  show ?thesis using that [OF s1(1) s2(1) s3(1)] s1(2) s2(2) s3(2) by simp
qed

text \<open>The four indices of two addresses agree when the addresses agree in the bits 12 to 47.\<close>

definition same_page :: "u64 \<Rightarrow> u64 \<Rightarrow> bool" where
  "same_page va va' \<longleftrightarrow> take_bit 36 (drop_bit 12 va) = take_bit 36 (drop_bit 12 va')"

lemma pt_ix_eq: "k + 9 \<le> 64 \<Longrightarrow> pt_ix k va = pt_ix k va' \<longleftrightarrow> (\<forall>n<9. bit va (k + n) = bit va' (k + n))"
proof -
  assume "k + 9 \<le> 64"
  have m: "z AND 0x1FF = take_bit 9 z" for z :: u64
    by (simp add: take_bit_eq_mask mask_eq_exp_minus_1)
  have "take_bit 9 (drop_bit k va) = take_bit 9 (drop_bit k va') \<longleftrightarrow> (\<forall>n<9. bit va (k + n) = bit va' (k + n))"
    by (simp add: take_bit_eq_bits bit_drop_bit_eq)
  then show ?thesis unfolding pt_ix_def m by (metis word_unat_eq_iff)
qed

lemma va_path_eq: "va_path va = va_path va' \<longleftrightarrow> same_page va va'"
proof -
  let ?P = "\<lambda>n. bit va n = bit va' n"
  have split: "(\<forall>n<m. ?P (k + n)) \<longleftrightarrow> (\<forall>n. k \<le> n \<and> n < k + m \<longrightarrow> ?P n)" for k m
    by (metis add_less_cancel_left le_Suc_ex le_add1)
  have "va_path va = va_path va' \<longleftrightarrow> (\<forall>n. 12 \<le> n \<and> n < 48 \<longrightarrow> ?P n)"
    unfolding va_path_def list.inject
    by (simp only: pt_ix_eq split) (safe; simp; metis linorder_not_le)
  also have "\<dots> \<longleftrightarrow> same_page va va'"
    using split [of 36 12] by (simp add: same_page_def take_bit_eq_bits bit_drop_bit_eq)
  finally show ?thesis .
qed

lemma map_proc_spec:
  assumes "pt_ok s root" "paging_map_page_proc root va pa fl s = Inr s'"
  shows "pt_ok s' root \<and> kernel_pml4 s' = kernel_pml4 s
    \<and> translate s' root va' = (let e = (pa AND ADDR_MASK) OR fl in
        if same_page va' va then (if present e then Some e else None) else translate s root va')"
proof -
  obtain m1 m2 m3 p3 s1 p2 s2 p1 s3 where
    s: "table_step m1 (root) (pt_ix 39 va) (upper_flags fl) s = Inr (p3, s1)"
       "table_step m2 p3 (pt_ix 30 va) (upper_flags fl) s1 = Inr (p2, s2)"
       "table_step m3 p2 (pt_ix 21 va) (upper_flags fl) s2 = Inr (p1, s3)"
       "s' = set_entry p1 (pt_ix 12 va) ((pa AND ADDR_MASK) OR fl) s3"
    using assms(2) by (auto simp: paging_map_page_proc_def Let_def split: sum.splits)
  show ?thesis
    using map_with_spec [OF assms(1) s] by (simp add: Let_def va_path_eq)
qed

lemma map_kernel_spec:
  assumes "pt_ok s (kernel_pml4 s)" "paging_map_page va pa fl s = Inr s'"
  shows "pt_ok s' (kernel_pml4 s) \<and> kernel_pml4 s' = kernel_pml4 s
    \<and> translate s' (kernel_pml4 s) va' = (let e = ((pa AND ADDR_MASK) OR fl) AND NOT PTE_NX in
        if same_page va' va then (if present e then Some e else None) else translate s (kernel_pml4 s) va')"
proof -
  obtain m1 m2 m3 p3 s1 p2 s2 p1 s3 where
    s: "table_step m1 (kernel_pml4 s) (pt_ix 39 va) (upper_flags fl) s = Inr (p3, s1)"
       "table_step m2 p3 (pt_ix 30 va) (upper_flags fl) s1 = Inr (p2, s2)"
       "table_step m3 p2 (pt_ix 21 va) (upper_flags fl) s2 = Inr (p1, s3)"
       "s' = set_entry p1 (pt_ix 12 va) (((pa AND ADDR_MASK) OR fl) AND NOT PTE_NX) s3"
    using assms(2) by (auto simp: paging_map_page_def Let_def split: sum.splits)
  show ?thesis
    using map_with_spec [OF assms(1) s] by (simp add: Let_def va_path_eq)
qed

lemma unmap_spec:
  assumes ok: "pt_ok s (kernel_pml4 s)"
  shows "pt_ok (paging_unmap_page va s) (kernel_pml4 s)
    \<and> translate (paging_unmap_page va s) (kernel_pml4 s) va' =
        (if same_page va' va then None else translate s (kernel_pml4 s) va')"
proof -
  let ?k = "kernel_pml4 s" and ?d = "[pt_ix 39 va, pt_ix 30 va, pt_ix 21 va]"
  obtain own where o: "tree own s" "own ?k = Some []" using ok by (auto simp: pt_ok_def)
  show ?thesis
  proof (cases "descend (pg_tables s) ?k ?d")
    case None
    then have "paging_unmap_page va s = s"
      by (auto simp: paging_unmap_page_def Let_def split: if_splits)
    moreover have "translate s ?k va' = None" if "same_page va' va"
    proof -
      have "va_path va' = ?d @ [pt_ix 12 va]" using that va_path_eq [of va' va] by (simp add: va_path_def)
      then show ?thesis using None by (simp add: translate_def lookup_descend del: descend.simps append.simps)
    qed
    ultimately show ?thesis using ok by simp
  next
    case (Some pt)
    then have u: "paging_unmap_page va s = set_entry pt (pt_ix 12 va) 0 s"
      by (auto simp: paging_unmap_page_def Let_def split: if_splits)
    have "translate (paging_unmap_page va s) ?k va' = (if va_path va' = va_path va then None else translate s ?k va')"
      using leaf_write(2) [OF o Some, of "[pt_ix 39 va', pt_ix 30 va', pt_ix 21 va']" "pt_ix 12 va" 0]
      by (simp add: u translate_def va_path_def)
    moreover have "tree own (paging_unmap_page va s)" using leaf_write(1) [OF o Some, of ?d] by (simp add: u)
    ultimately show ?thesis using o(2) by (auto simp: va_path_eq pt_ok_def)
  qed
qed

lemma copy_entries:
  assumes "p \<noteq> kernel_pml4 s"
  shows "pg_tables (fold (\<lambda>i t. set_entry p i (pg_tables t (kernel_pml4 t) i) t) is s) q j =
      (if q = p \<and> j \<in> set is then pg_tables s (kernel_pml4 s) j else pg_tables s q j)
    \<and> kernel_pml4 (fold (\<lambda>i t. set_entry p i (pg_tables t (kernel_pml4 t) i) t) is s) = kernel_pml4 s
    \<and> pg_pm (fold (\<lambda>i t. set_entry p i (pg_tables t (kernel_pml4 t) i) t) is s) = pg_pm s"
  using assms by (induction "is" arbitrary: s) auto

lemma pt_ix_lt: "pt_ix k va < 512"
proof -
  have "z AND 0x1FF = take_bit 9 z" for z :: u64
    by (simp add: take_bit_eq_mask mask_eq_exp_minus_1)
  then have "pt_ix k va = unat (take_bit 9 (drop_bit k va))" by (simp add: pt_ix_def)
  then show ?thesis by (simp only: unsigned_take_bit_eq) (simp add: take_bit_eq_mod)
qed

lemma create_spec:
  assumes ok: "pt_ok s (kernel_pml4 s)" and c: "paging_create_proc_pml4 s = Inr (p, s')"
  shows "pt_ok s' p \<and> pt_ok s' (kernel_pml4 s) \<and> kernel_pml4 s' = kernel_pml4 s
    \<and> translate s' p va = (if 256 \<le> pt_ix 39 va then translate s (kernel_pml4 s) va else None)
    \<and> translate s' (kernel_pml4 s) va = translate s (kernel_pml4 s) va"
proof -
  let ?k = "kernel_pml4 s"
  obtain own where o: "tree own s" "own ?k = Some []" using ok by (auto simp: pt_ok_def)
  obtain pm' where al: "physmem_alloc_to (pg_pm s) 1 = Inr (p, pm')" "p \<noteq> 0"
    and s': "s' = fold (\<lambda>i t. set_entry p i (pg_tables t (kernel_pml4 t) i) t) [256..<512] (zero_page p (s\<lparr>pg_pm := pm'\<rparr>))"
    using c by (auto simp: paging_create_proc_pml4_def split: sum.splits if_splits)
  note f = fresh_frame [OF o(1) al]
  have pk: "p \<noteq> ?k" using f(1) o(2) by auto
  have pk': "p \<noteq> kernel_pml4 (zero_page p (s\<lparr>pg_pm := pm'\<rparr>))" using pk by simp
  have tb: "pg_tables s' q j = (if q = p then if 256 \<le> j \<and> j < 512 then pg_tables s ?k j else 0 else pg_tables s q j)" for q j
    using copy_entries [OF pk', of "[256..<512]" q j] pk by (simp add: s')
  have misc: "kernel_pml4 s' = ?k" "pg_pm s' = pm'"
    using copy_entries [OF pk', of "[256..<512]"] by (simp_all add: s')
  have own_eq: "pg_tables s' q j = pg_tables s q j" if "own q = Some pq" for q pq j
    using that f(1) tb by auto
  have t': "tree (own(p \<mapsto> [])) s'"
    unfolding tree_def
  proof (intro conjI allI impI)
    show "pm_ok (pg_pm s')" "unat (pm_total (pg_pm s')) \<le> 2 ^ 40" using f(3) by (auto simp: tree_def misc)
  next
    fix q pq assume "(own(p \<mapsto> [])) q = Some pq"
    then show "\<not> frame_free (pg_pm s') (unat q div 4096)"
      using f(3,4) by (auto simp: tree_def misc split: if_splits)
  next
    fix q pq j
    assume q: "(own(p \<mapsto> [])) q = Some pq" "length pq < 3" "present (pg_tables s' q j)"
    show "(own(p \<mapsto> [])) (entry_base (pg_tables s' q j)) = Some (pq @ [j])"
    proof (cases "q = p")
      case True
      then have e: "pg_tables s' q j = pg_tables s ?k j" "pq = []" using q tb by (auto split: if_splits)
      then have "own (entry_base (pg_tables s ?k j)) = Some [j]" using o q(3) by (auto simp: tree_def)
      then show ?thesis using e f(1) by auto
    next
      case False
      then have "own q = Some pq" "pg_tables s' q j = pg_tables s q j" using q(1) tb by auto
      then have "own (entry_base (pg_tables s' q j)) = Some (pq @ [j])" using o(1) q(2,3) by (auto simp: tree_def)
      then show ?thesis using f(1) by auto
    qed
  qed
  have tk: "translate s' ?k va = translate s ?k va"
    unfolding translate_def by (rule lookup_path_cong [OF o]) (auto simp: va_path_def own_eq)
  moreover have "translate s' p va = (if 256 \<le> pt_ix 39 va then translate s ?k va else None)"
  proof (cases "256 \<le> pt_ix 39 va")
    case True
    then have "pg_tables s' p (pt_ix 39 va) = pg_tables s' ?k (pt_ix 39 va)"
      using tb pt_ix_lt own_eq [OF o(2)] by auto
    then have "translate s' p va = translate s' ?k va" by (simp add: translate_def va_path_def)
    then show ?thesis using tk True by simp
  next
    case False
    then show ?thesis using tb by (simp add: translate_def va_path_def)
  qed
  ultimately show ?thesis using t' o(2) pk misc by (auto simp: pt_ok_def intro!: exI [of _ "own(p \<mapsto> [])"])
qed

section \<open>Runs of pages\<close>

lemma find_app: "find P (xs @ ys) = (case find P xs of None \<Rightarrow> find P ys | Some x \<Rightarrow> Some x)"
  by (induction xs) auto

lemma map_proc_returns:
  assumes "pt_ok s root" "3 \<le> spare (pg_pm s)"
  shows "\<exists>s'. paging_map_page_proc root va pa fl s = Inr s' \<and> spare (pg_pm s) \<le> 3 + spare (pg_pm s')"
proof -
  obtain p3 s1 p2 s2 p1 s3 where
    "table_step ''[PAGING] failed to allocate PDPT for proc'' root (pt_ix 39 va) (upper_flags fl) s = Inr (p3, s1)"
    "table_step ''[PAGING] failed to allocate PD for proc'' p3 (pt_ix 30 va) (upper_flags fl) s1 = Inr (p2, s2)"
    "table_step ''[PAGING] failed to allocate PT for proc'' p2 (pt_ix 21 va) (upper_flags fl) s2 = Inr (p1, s3)"
    "spare (pg_pm s) \<le> 3 + spare (pg_pm s3)"
    by (rule walk_returns [OF assms])
  then show ?thesis by (simp add: paging_map_page_proc_def)
qed

lemma page_number: "unat (take_bit 36 (drop_bit 12 (v + word_of_nat i * PAGE_SIZE))) = (unat v div 4096 + i) mod 2 ^ 36"
proof -
  have e: "unat (v + word_of_nat i * PAGE_SIZE) = (unat v + i * 4096) mod (4096 * 2 ^ 52)"
    by (simp add: PAGE_SIZE_def unat_word_ariths unat_of_nat mod_simps)
  have "((unat v + i * 4096) mod (4096 * 2 ^ 52)) div 4096 = ((unat v + i * 4096) div 4096) mod 2 ^ 52"
    by (simp only: mod_mult2_eq)
  then have "unat (drop_bit 12 (v + word_of_nat i * PAGE_SIZE)) = (unat v div 4096 + i) mod 2 ^ 52"
    by (simp only: unat_drop_bit e) (simp add: add.commute)
  then show ?thesis
    by (simp only: unsigned_take_bit_eq) (simp add: take_bit_eq_mod mod_mod_cancel)
qed

lemma same_page_run:
  assumes "i < 2 ^ 36" "j < 2 ^ 36"
  shows "same_page (v + word_of_nat i * PAGE_SIZE) (v + word_of_nat j * PAGE_SIZE) \<longleftrightarrow> i = j"
proof -
  have le: "a = b" if "a \<le> b" "(x + a) mod m = (x + b) mod m" "b < m" for a b x m :: nat
  proof -
    have "m dvd (x + b) - (x + a)" using that(1,2) by (subst mod_eq_dvd_iff_nat [symmetric]) simp_all
    then have "m dvd b - a" by simp
    then show ?thesis using that(1,3) by (cases "b = a") (auto dest: dvd_imp_le)
  qed
  have eq: "a = b" if "(x + a) mod m = (x + b) mod m" "a < m" "b < m" for a b x m :: nat
    using le [of a b x m] le [of b a x m] that by (cases "a \<le> b") auto
  have "same_page (v + word_of_nat i * PAGE_SIZE) (v + word_of_nat j * PAGE_SIZE) \<longleftrightarrow>
      (unat v div 4096 + i) mod 2 ^ 36 = (unat v div 4096 + j) mod 2 ^ 36"
    unfolding same_page_def by (simp only: word_unat_eq_iff page_number)
  then show ?thesis using eq assms by blast
qed

text \<open>A run of pages, mapped one after the other.\<close>

lemma map_run:
  assumes "pt_ok s root" "3 * n \<le> spare (pg_pm s)" "n \<le> 2 ^ 36"
  shows "\<exists>s'. fold (\<lambda>j r. obind r (paging_map_page_proc root (v + word_of_nat j * PAGE_SIZE) (f j) fl)) [0..<n] (Inr s) = Inr s'
    \<and> pt_ok s' root \<and> spare (pg_pm s) \<le> 3 * n + spare (pg_pm s')
    \<and> (\<forall>va. translate s' root va = (case find (\<lambda>j. same_page va (v + word_of_nat j * PAGE_SIZE)) [0..<n] of
          None \<Rightarrow> translate s root va
        | Some j \<Rightarrow> let e = (f j AND ADDR_MASK) OR fl in if present e then Some e else None))"
  using assms(2,3)
proof (induction n)
  case 0
  then show ?case using assms(1) by simp
next
  case (Suc n)
  then obtain t where t: "fold (\<lambda>j r. obind r (paging_map_page_proc root (v + word_of_nat j * PAGE_SIZE) (f j) fl)) [0..<n] (Inr s) = Inr t"
    "pt_ok t root" "spare (pg_pm s) \<le> 3 * n + spare (pg_pm t)"
    "\<forall>va. translate t root va = (case find (\<lambda>j. same_page va (v + word_of_nat j * PAGE_SIZE)) [0..<n] of
        None \<Rightarrow> translate s root va
      | Some j \<Rightarrow> let e = (f j AND ADDR_MASK) OR fl in if present e then Some e else None)"
    by auto
  have "3 \<le> spare (pg_pm t)" using t(3) Suc.prems(1) by simp
  then obtain u where u: "paging_map_page_proc root (v + word_of_nat n * PAGE_SIZE) (f n) fl t = Inr u"
    "spare (pg_pm t) \<le> 3 + spare (pg_pm u)" using map_proc_returns [OF t(2)] by blast
  have tr: "translate u root va = (case find (\<lambda>j. same_page va (v + word_of_nat j * PAGE_SIZE)) [0..<Suc n] of
        None \<Rightarrow> translate s root va
      | Some j \<Rightarrow> let e = (f j AND ADDR_MASK) OR fl in if present e then Some e else None)" for va
  proof -
    note m = map_proc_spec [OF t(2) u(1), of va]
    show ?thesis
    proof (cases "same_page va (v + word_of_nat n * PAGE_SIZE)")
      case True
      have "\<not> same_page va (v + word_of_nat j * PAGE_SIZE)" if "j < n" for j
        using same_page_run [of j n v] True that Suc.prems(2) by (auto simp: same_page_def)
      then have "find (\<lambda>j. same_page va (v + word_of_nat j * PAGE_SIZE)) [0..<n] = None" by (simp add: find_None_iff)
      then show ?thesis using m True by (simp add: find_app)
    next
      case False
      then show ?thesis using m t(4) by (simp add: find_app split: option.splits)
    qed
  qed
  have "obind (Inr t) (paging_map_page_proc root (v + word_of_nat n * PAGE_SIZE) (f n) fl) = Inr u"
    using u(1) by (simp add: obind_def)
  then show ?case using t(1,3) u(2) map_proc_spec [OF t(2) u(1)] tr by auto
qed

section \<open>Properties\<close>

text \<open>
  C6. Mapping a page into a process's tables, with three free frames
  left, succeeds, keeps the tables a tree of frames in use, makes the page translate to the entry
  built from the frame address and the flags, and changes the translation of no other page.
\<close>

theorem paging_map_proc_translates:
  assumes "pt_ok s root" "3 \<le> spare (pg_pm s)"
  shows "\<exists>s'. paging_map_page_proc root va pa fl s = Inr s' \<and> pt_ok s' root
    \<and> (\<forall>va'. translate s' root va' = (let e = (pa AND ADDR_MASK) OR fl in
          if same_page va' va then (if present e then Some e else None) else translate s root va'))"
proof -
  obtain p3 s1 p2 s2 p1 s3 where
    "table_step ''[PAGING] failed to allocate PDPT for proc'' root (pt_ix 39 va) (upper_flags fl) s = Inr (p3, s1)"
    "table_step ''[PAGING] failed to allocate PD for proc'' p3 (pt_ix 30 va) (upper_flags fl) s1 = Inr (p2, s2)"
    "table_step ''[PAGING] failed to allocate PT for proc'' p2 (pt_ix 21 va) (upper_flags fl) s2 = Inr (p1, s3)"
    "spare (pg_pm s) \<le> 3 + spare (pg_pm s3)"
    by (rule walk_returns [OF assms])
  then obtain s' where s': "paging_map_page_proc root va pa fl s = Inr s'"
    by (simp add: paging_map_page_proc_def)
  then show ?thesis using map_proc_spec [OF assms(1) s'] by blast
qed

text \<open>A machine with 520 free frames whose root table is the empty page at frame 768.\<close>

definition pg_ex :: paging where
  "pg_ex = \<lparr>pg_pm = pm_520, pg_tables = (\<lambda>_ _. 0), kernel_pml4 = 0x300000, g_hhdm_offset = 0xFFFF800000000000\<rparr>"

lemma pg_ex_ok: "pt_ok pg_ex 0x300000" "3 \<le> spare (pg_pm pg_ex)"
proof -
  have "tree [0x300000 \<mapsto> []] pg_ex"
    using pm_520_ok by (auto simp: tree_def pg_ex_def frame_free_def pm_520_def split: if_splits)
  then show "pt_ok pg_ex 0x300000" by (auto simp: pt_ok_def intro!: exI [of _ "[0x300000 \<mapsto> []]"])
  have "{512, 513, 514} \<subseteq> {f. 512 \<le> f \<and> frame_free pm_520 f}"
    by (auto simp: frame_free_def pm_520_def bm_bit_def nth_replicate)
  then have "card {512, 513, 514 :: nat} \<le> spare pm_520" unfolding spare_def by (rule card_mono [OF finite_spare])
  then show "3 \<le> spare (pg_pm pg_ex)" by (simp add: pg_ex_def)
qed

theorem paging_map_proc_translates_witness:
  "\<exists>s'. paging_map_page_proc 0x300000 0x40000000 0x5000 7 pg_ex = Inr s'
     \<and> translate s' 0x300000 0x40000123 = Some 0x5007 \<and> translate s' 0x300000 0x40001000 = None"
proof -
  obtain s' where s': "paging_map_page_proc 0x300000 0x40000000 0x5000 7 pg_ex = Inr s'"
    "\<forall>va'. translate s' 0x300000 va' = (let e = (0x5000 AND ADDR_MASK) OR 7 in
        if same_page va' 0x40000000 then (if present e then Some e else None) else translate pg_ex 0x300000 va')"
    using paging_map_proc_translates [OF pg_ex_ok] by blast
  have "translate pg_ex 0x300000 0x40001000 = None" by (simp add: translate_def va_path_def pg_ex_def)
  then show ?thesis using s' by (simp add: same_page_def ADDR_MASK_def present_def PTE_PRESENT_def)
qed

text \<open>
  The same for the kernel's own tables, except that the
  no-execute bit of the flags is always cleared: every page the kernel maps is executable.
\<close>

lemma paging_map_kernel_translates:
  assumes "pt_ok s (kernel_pml4 s)" "3 \<le> spare (pg_pm s)"
  shows "\<exists>s'. paging_map_page va pa fl s = Inr s' \<and> pt_ok s' (kernel_pml4 s) \<and> kernel_pml4 s' = kernel_pml4 s
    \<and> (\<forall>va'. translate s' (kernel_pml4 s) va' = (let e = ((pa AND ADDR_MASK) OR fl) AND NOT PTE_NX in
          if same_page va' va then (if present e then Some e else None) else translate s (kernel_pml4 s) va'))"
proof -
  obtain p3 s1 p2 s2 p1 s3 where
    "table_step ''Could not allocate PDPT!'' (kernel_pml4 s) (pt_ix 39 va) (upper_flags fl) s = Inr (p3, s1)"
    "table_step ''Could not allocate PD!'' p3 (pt_ix 30 va) (upper_flags fl) s1 = Inr (p2, s2)"
    "table_step ''Could not allocate PT!'' p2 (pt_ix 21 va) (upper_flags fl) s2 = Inr (p1, s3)"
    "spare (pg_pm s) \<le> 3 + spare (pg_pm s3)"
    by (rule walk_returns [OF assms])
  then obtain s' where s': "paging_map_page va pa fl s = Inr s'"
    by (simp add: paging_map_page_def)
  then show ?thesis using map_kernel_spec [OF assms(1) s'] by blast
qed

lemma pg_ex_kernel: "kernel_pml4 pg_ex = 0x300000" by (simp add: pg_ex_def)

lemma paging_map_kernel_translates_witness:
  "\<exists>s'. paging_map_page 0x40000000 0x5000 0x8000000000000003 pg_ex = Inr s'
     \<and> translate s' 0x300000 0x40000FFF = Some 0x5003"
proof -
  obtain s' where s': "paging_map_page 0x40000000 0x5000 0x8000000000000003 pg_ex = Inr s'"
    "\<forall>va'. translate s' 0x300000 va' = (let e = ((0x5000 AND ADDR_MASK) OR 0x8000000000000003) AND NOT PTE_NX in
        if same_page va' 0x40000000 then (if present e then Some e else None) else translate pg_ex 0x300000 va')"
    using paging_map_kernel_translates [of pg_ex] pg_ex_ok unfolding pg_ex_kernel by blast
  then show ?thesis by (simp add: same_page_def ADDR_MASK_def present_def PTE_PRESENT_def PTE_NX_def)
qed

text \<open>
  Unmapping a page of the kernel removes its translation, whether it was
  mapped or not, and changes no other.
\<close>

lemma paging_unmap_clears:
  assumes "pt_ok s (kernel_pml4 s)"
  shows "pt_ok (paging_unmap_page va s) (kernel_pml4 s)
    \<and> (\<forall>va'. translate (paging_unmap_page va s) (kernel_pml4 s) va' =
          (if same_page va' va then None else translate s (kernel_pml4 s) va'))"
  using unmap_spec [OF assms] by blast

lemma paging_unmap_clears_witness: "translate (paging_unmap_page 0x5000 pg_ex) 0x300000 0x5000 = None"
  using paging_unmap_clears [of pg_ex "0x5000"] pg_ex_ok(1) unfolding pg_ex_kernel
  by (simp add: same_page_def)

text \<open>
  The tables of a new process translate every address of the upper
  half as the kernel does and none of the lower half, and creating them changes no translation of
  the kernel.
\<close>

lemma paging_proc_shares_kernel:
  assumes "pt_ok s (kernel_pml4 s)" "0 < spare (pg_pm s)"
  shows "\<exists>p s'. paging_create_proc_pml4 s = Inr (p, s') \<and> pt_ok s' p \<and> pt_ok s' (kernel_pml4 s)
    \<and> (\<forall>va. translate s' p va = (if 256 \<le> pt_ix 39 va then translate s (kernel_pml4 s) va else None)
          \<and> translate s' (kernel_pml4 s) va = translate s (kernel_pml4 s) va)"
proof -
  have "pm_ok (pg_pm s)" using assms(1) by (auto simp: pt_ok_def tree_def)
  then obtain p pm' where "physmem_alloc_to (pg_pm s) 1 = Inr (p, pm')" "p \<noteq> 0" using alloc_one assms(2) by blast
  then obtain s' where "paging_create_proc_pml4 s = Inr (p, s')" by (simp add: paging_create_proc_pml4_def Let_def)
  then show ?thesis using create_spec [OF assms(1)] by blast
qed

lemma paging_proc_shares_kernel_witness:
  "\<exists>p s'. paging_create_proc_pml4 pg_ex = Inr (p, s') \<and> translate s' p 0x1000 = None"
  using paging_proc_shares_kernel [of pg_ex] pg_ex_ok unfolding pg_ex_kernel
  by (force simp: pt_ix_def)

end
