(* ===== verification/Ulime.thy ===== *)
theory Ulime
  imports Klime Paging
begin

text \<open>
  Processes: \<^verbatim>\<open>emex/kernel/user/ulime.c\<close> and the wrapper \<^verbatim>\<open>emex/kernel/proc/proc_manager.c\<close>.
  A process record lives at an address of ulime's internal pool; \<open>procs\<close> is the store of records,
  and the list that \<open>next\<close> links is the list of their addresses, newest first (nothing ever leaves
  it). Console output is left out.
\<close>

section \<open>State\<close>

record ulime_proc =
  p_pid :: u64
  p_name :: string
  p_priority :: u64
  p_state :: u64
  p_pml4_phys :: u64
  p_entry_point :: u64
  p_heap_base :: u64
  p_heap_size :: u64
  p_stack_base :: u64
  p_stack_size :: u64
  p_code_base :: u64
  p_code_size :: u64
  p_phys_code :: u64
  p_phys_heap :: u64
  p_phys_stack :: u64
  p_brk :: u64
  p_entry_rsp :: u64
  p_mmap_base :: u64
  p_vma_base :: u64
  p_uid :: u32
  p_gid :: u32

definition PROC_CREATED :: u64 where "PROC_CREATED = 1"
definition PROC_READY :: u64 where "PROC_READY = 2"
definition PROC_RUNNING :: u64 where "PROC_RUNNING = 3"
definition PROC_BLOCKED :: u64 where "PROC_BLOCKED = 4"
definition PROC_ZOMBIE :: u64 where "PROC_ZOMBIE = 5"

lemmas proc_state_defs = PROC_CREATED_def PROC_READY_def PROC_RUNNING_def PROC_BLOCKED_def PROC_ZOMBIE_def

record ulime =
  ptr_proc_list :: "u64 list"
  ptr_proc_curr :: u64
  pid_next :: u64
  tid_next :: u64
  pool_base :: u64
  pool_size :: u64
  pool_used :: u64
  user_space_base :: u64
  user_space_size :: u64
  user_space_used :: u64
  procs :: "u64 \<Rightarrow> ulime_proc"
  ul_pg :: paging

text \<open>\<^verbatim>\<open>sizeof(ulime_proc_t)\<close> and \<^verbatim>\<open>sizeof(ulime_t)\<close>.\<close>

definition SIZEOF_PROC :: u64 where "SIZEOF_PROC = 248"
definition SIZEOF_ULIME :: u64 where "SIZEOF_ULIME = 2152"
definition ULIME_META_SIZE :: u64 where "ULIME_META_SIZE = 1024 * 1024 * 2"

definition zero_proc :: ulime_proc where
  "zero_proc = \<lparr>p_pid = 0, p_name = [], p_priority = 0, p_state = 0, p_pml4_phys = 0, p_entry_point = 0,
     p_heap_base = 0, p_heap_size = 0, p_stack_base = 0, p_stack_size = 0, p_code_base = 0, p_code_size = 0,
     p_phys_code = 0, p_phys_heap = 0, p_phys_stack = 0, p_brk = 0, p_entry_rsp = 0, p_mmap_base = 0,
     p_vma_base = 0, p_uid = 0, p_gid = 0\<rparr>"

definition ulime_init :: "klime option \<Rightarrow> paging \<Rightarrow> (u64 \<Rightarrow> ulime_proc) \<Rightarrow> ulime option" where
  "ulime_init kl pg st =
    (case kl of None \<Rightarrow> None
     | Some _ \<Rightarrow> Some \<lparr>ptr_proc_list = [], ptr_proc_curr = 0, pid_next = 1, tid_next = 1,
         pool_base = ULIME_START + SIZEOF_ULIME, pool_size = ULIME_META_SIZE - SIZEOF_ULIME, pool_used = 0,
         user_space_base = 0x40000000, user_space_size = 0x40000000, user_space_used = 0x40000000,
         procs = st, ul_pg = pg\<rparr>)"

definition page_up :: "u64 \<Rightarrow> u64" where
  "page_up x = (x + 0xFFF) AND NOT 0xFFF"

text \<open>The result is the address of the new record, 0 when the pool is used up.\<close>

definition ulime_proc_create :: "ulime \<Rightarrow> string \<Rightarrow> u64 \<Rightarrow> u64 \<times> ulime" where
  "ulime_proc_create u name entry =
    (if pool_used u + SIZEOF_PROC > pool_size u then (0, u)
     else let proc = pool_base u + pool_used u;
              code = page_up (user_space_used u); code_sz = 1024 * 1024; used1 = code + code_sz;
              heap = page_up used1; heap_sz = 16 * 1024 * 1024; used2 = heap + heap_sz;
              stack = page_up used2; stack_sz = 64 * 1024; used3 = stack + stack_sz;
              r = zero_proc\<lparr>p_pid := pid_next u, p_name := take 63 name, p_state := PROC_CREATED,
                    p_entry_point := entry, p_uid := 0, p_gid := 0,
                    p_code_base := code, p_code_size := code_sz, p_heap_base := heap, p_heap_size := heap_sz,
                    p_stack_base := stack, p_stack_size := stack_sz\<rparr>
          in (proc, u\<lparr>pool_used := pool_used u + SIZEOF_PROC, pid_next := pid_next u + 1,
                user_space_used := used3, procs := (procs u)(proc := r),
                ptr_proc_list := proc # ptr_proc_list u\<rparr>))"

section \<open>Memory of a process\<close>

definition pages_of :: "u64 \<Rightarrow> u64" where
  "pages_of sz = (sz + 0xFFF) div PAGE_SIZE"

definition map_pages :: "u64 \<Rightarrow> u64 \<Rightarrow> u64 \<Rightarrow> u64 \<Rightarrow> u64 \<Rightarrow> paging \<Rightarrow> paging outcome" where
  "map_pages pml4 virt phys n flags pg =
    fold (\<lambda>i r. obind r (paging_map_page_proc pml4 (virt + word_of_nat i * PAGE_SIZE) (phys + word_of_nat i * PAGE_SIZE) flags))
      [0..<unat n] (Inr pg)"

definition set_pm :: "physmem \<Rightarrow> ulime \<Rightarrow> ulime" where
  "set_pm pm u = u\<lparr>ul_pg := (ul_pg u)\<lparr>pg_pm := pm\<rparr>\<rparr>"

definition upd_proc :: "u64 \<Rightarrow> (ulime_proc \<Rightarrow> ulime_proc) \<Rightarrow> ulime \<Rightarrow> ulime" where
  "upd_proc a f u = u\<lparr>procs := (procs u)(a := f (procs u a))\<rparr>"

text \<open>The result is 0 on success and 1 when a frame allocation failed.\<close>

definition ulime_proc_mmap :: "ulime \<Rightarrow> u64 \<Rightarrow> (int \<times> ulime) outcome" where
  "ulime_proc_mmap u proc =
    (let p = procs u proc; stack_pages = pages_of (p_stack_size p);
         code_pages = pages_of (p_code_size p); heap_pages = pages_of (p_heap_size p)
     in obind (physmem_alloc_to (pg_pm (ul_pg u)) stack_pages) (\<lambda>(phys_stack, pm1).
        if phys_stack = 0 then Inr (1, set_pm pm1 u)
        else obind (physmem_alloc_to pm1 code_pages) (\<lambda>(phys_code, pm2).
        if phys_code = 0 then Inr (1, set_pm pm2 u)
        else obind (physmem_alloc_to pm2 heap_pages) (\<lambda>(phys_heap, pm3).
        if phys_heap = 0 then obind (physmem_free_to pm3 phys_stack stack_pages) (\<lambda>pm4. Inr (1, set_pm pm4 u))
        else let u1 = upd_proc proc (\<lambda>r. r\<lparr>p_phys_code := phys_code\<rparr>) (set_pm pm3 u) in
        obind (paging_create_proc_pml4 (ul_pg u1)) (\<lambda>(pml4, pg1).
        let heap_flags = PTE_PRESENT OR PTE_WRITABLE OR PTE_USER;
            stack_flags = PTE_PRESENT OR PTE_WRITABLE OR PTE_USER OR PTE_NX in
        obind (map_pages pml4 (p_code_base p) phys_code code_pages heap_flags pg1) (\<lambda>pg2.
        obind (map_pages pml4 (p_heap_base p) phys_heap heap_pages heap_flags pg2) (\<lambda>pg3.
        obind (map_pages pml4 (p_stack_base p) phys_stack stack_pages stack_flags pg3) (\<lambda>pg4.
        let pg5 = zero_range phys_stack (p_stack_size p) (zero_range phys_heap (p_heap_size p) pg4)
        in Inr (0, upd_proc proc (\<lambda>r. r\<lparr>p_pml4_phys := pml4, p_phys_stack := phys_stack,
                     p_phys_heap := phys_heap, p_state := PROC_READY\<rparr>) (u1\<lparr>ul_pg := pg5\<rparr>))))))))))"

section \<open>Ending and choosing processes\<close>

fun find_pid :: "(u64 \<Rightarrow> ulime_proc) \<Rightarrow> u64 list \<Rightarrow> u64 \<Rightarrow> u64" where
  "find_pid st [] pid = 0"
| "find_pid st (a # as) pid = (if p_pid (st a) = pid then a else find_pid st as pid)"

definition ulime_proc_kill :: "ulime \<Rightarrow> u64 \<Rightarrow> (int \<times> ulime) outcome" where
  "ulime_proc_kill u pid =
    (let a = find_pid (procs u) (ptr_proc_list u) pid
     in if a = 0 then Inr (1, u)
        else let p = procs u a;
                 heap_pages = (p_heap_size p + PAGE_SIZE - 1) div PAGE_SIZE;
                 stack_pages = (p_stack_size p + PAGE_SIZE - 1) div PAGE_SIZE
             in obind (if p_phys_heap p \<noteq> 0 then physmem_free_to (pg_pm (ul_pg u)) (p_phys_heap p) heap_pages
                       else Inr (pg_pm (ul_pg u))) (\<lambda>pm1.
                obind (if p_phys_stack p \<noteq> 0 then physmem_free_to pm1 (p_phys_stack p) stack_pages
                       else Inr pm1) (\<lambda>pm2.
                Inr (0, upd_proc a (\<lambda>r. r\<lparr>p_phys_heap := 0, p_phys_stack := 0, p_state := PROC_ZOMBIE\<rparr>)
                          (set_pm pm2 u)))))"

fun next_of :: "u64 list \<Rightarrow> u64 \<Rightarrow> u64" where
  "next_of [] a = 0"
| "next_of (x # xs) a = (if x = a then (case xs of [] \<Rightarrow> 0 | y # _ \<Rightarrow> y) else next_of xs a)"

definition ulime_schedule :: "ulime \<Rightarrow> ulime" where
  "ulime_schedule u =
    (case ptr_proc_list u of [] \<Rightarrow> u
     | h # _ \<Rightarrow>
       let c = (if ptr_proc_curr u = 0 then h
                else let n = next_of (ptr_proc_list u) (ptr_proc_curr u) in if n = 0 then h else n);
           u1 = u\<lparr>ptr_proc_curr := c\<rparr>
       in if p_state (procs u1 c) = PROC_READY then upd_proc c (\<lambda>r. r\<lparr>p_state := PROC_RUNNING\<rparr>) u1 else u1)"

section \<open>Process manager\<close>

definition proc_mng_init :: "(ulime \<times> klime option) option \<Rightarrow> kmem \<Rightarrow> (ulime option \<times> (klime option \<times> kmem)) option" where
  "proc_mng_init uk m =
    (case uk of None \<Rightarrow> Some (None, None, m)
     | Some (u, None) \<Rightarrow> Some (None, None, m)
     | Some (u, Some k) \<Rightarrow> (case klime_create (Some k) 8 m of None \<Rightarrow> None
          | Some (p, kl', m') \<Rightarrow> Some (if p = 0 then None else Some u, kl', m')))"

text \<open>A process manager is the ulime it points to, \<open>None\<close> is the NULL pointer.\<close>

definition proc_create_proc :: "ulime option \<Rightarrow> string \<Rightarrow> u64 \<Rightarrow> u64 \<Rightarrow> (u64 \<times> ulime option) outcome" where
  "proc_create_proc pm name entry priority =
    (case pm of None \<Rightarrow> Inr (0, None)
     | Some u \<Rightarrow>
       let (proc, u1) = ulime_proc_create u name entry
       in if proc = 0 then Inr (0, Some u1)
          else let u2 = upd_proc proc (\<lambda>r. r\<lparr>p_priority := priority\<rparr>) u1 in
            obind (ulime_proc_mmap u2 proc) (\<lambda>(ret, u3).
            if ret \<noteq> 0 then obind (ulime_proc_kill u3 (p_pid (procs u3 proc))) (\<lambda>(_, u4). Inr (0, Some u4))
            else Inr (proc, Some u3)))"

definition proc_kill_proc :: "ulime option \<Rightarrow> u64 \<Rightarrow> (int \<times> ulime option) outcome" where
  "proc_kill_proc pm pid =
    (case pm of None \<Rightarrow> Inr (-1, None)
     | Some u \<Rightarrow> obind (ulime_proc_kill u pid) (\<lambda>(r, u'). Inr (r, Some u')))"

definition proc_load_program_from_ulime :: "ulime option \<Rightarrow> u64 \<Rightarrow> int" where
  "proc_load_program_from_ulime pm proc = (if pm = None \<or> proc = 0 then -1 else 0)"

definition proc_find :: "ulime option \<Rightarrow> u64 \<Rightarrow> u64" where
  "proc_find pm pid = (case pm of None \<Rightarrow> 0 | Some u \<Rightarrow> find_pid (procs u) (ptr_proc_list u) pid)"

definition proc_count :: "ulime option \<Rightarrow> nat" where
  "proc_count pm = (case pm of None \<Rightarrow> 0 | Some u \<Rightarrow> fold (\<lambda>_ c. c + 1) (ptr_proc_list u) 0)"

section \<open>The address space layout\<close>

text \<open>
  The processes that \<open>n\<close> calls of \<open>ulime_proc_create\<close> made: record \<open>k\<close> is the \<open>k\<close>-th of the pool, has
  the process number \<open>k + 1\<close>, and its code, heap and stack lie behind those of the process before.
\<close>

definition STRIDE :: nat where "STRIDE = 0x1110000"

definition slot :: "ulime \<Rightarrow> nat \<Rightarrow> u64" where
  "slot u k = pool_base u + 248 * word_of_nat k"

definition proc_placed :: "ulime_proc \<Rightarrow> nat \<Rightarrow> bool" where
  "proc_placed r k \<longleftrightarrow> p_pid r = word_of_nat (k + 1)
     \<and> p_code_base r = word_of_nat (0x40000000 + k * STRIDE) \<and> p_code_size r = 0x100000
     \<and> p_heap_base r = word_of_nat (0x40000000 + k * STRIDE + 0x100000) \<and> p_heap_size r = 0x1000000
     \<and> p_stack_base r = word_of_nat (0x40000000 + k * STRIDE + 0x1100000) \<and> p_stack_size r = 0x10000"

definition layout_ok :: "nat \<Rightarrow> ulime \<Rightarrow> bool" where
  "layout_ok n u \<longleftrightarrow> n \<le> 8447
     \<and> pool_base u = ULIME_START + SIZEOF_ULIME \<and> pool_size u = ULIME_META_SIZE - SIZEOF_ULIME
     \<and> pool_used u = word_of_nat (248 * n) \<and> pid_next u = word_of_nat (n + 1)
     \<and> user_space_used u = word_of_nat (0x40000000 + n * STRIDE)
     \<and> ptr_proc_list u = map (slot u) (rev [0..<n])
     \<and> (\<forall>k<n. proc_placed (procs u (slot u k)) k)"

lemma ulime_init_layout:
  assumes "ulime_init kl pg st = Some u"
  shows "layout_ok 0 u"
  using assms by (auto simp: ulime_init_def layout_ok_def split: option.splits)

lemma slot_inj:
  assumes "layout_ok n u" "i < 8448" "j < 8448" "slot u i = slot u j"
  shows "i = j"
proof -
  have "unat (248 * word_of_nat k :: u64) = 248 * k" if "k < 8448" for k
    using that by (simp add: unat_word_ariths unat_of_nat)
  moreover have "248 * word_of_nat i = (248 * word_of_nat j :: u64)" using assms(4) by (simp add: slot_def)
  ultimately show ?thesis using assms(2,3) by (metis mult_cancel_left zero_neq_numeral)
qed

lemma slot_nz: "layout_ok n u \<Longrightarrow> i < 8448 \<Longrightarrow> slot u i \<noteq> 0"
proof -
  assume "layout_ok n u" "i < 8448"
  moreover have "unat (248 * word_of_nat i :: u64) = 248 * i"
    using \<open>i < 8448\<close> by (simp add: unat_word_ariths unat_of_nat)
  ultimately have "unat (slot u i) \<noteq> 0"
    by (simp add: slot_def layout_ok_def ULIME_START_def SIZEOF_ULIME_def unat_word_ariths)
  then show ?thesis by (metis unsigned_0)
qed

lemma page_up_aligned:
  assumes "n mod 4096 = 0" "n + 4096 < 2 ^ 64"
  shows "page_up (word_of_nat n) = word_of_nat n"
proof -
  have m: "(w :: u64) AND 0xFFF = w mod 4096" for w
    using take_bit_eq_mod [of 12 w] take_bit_eq_mask [of 12 w] by (simp add: mask_eq_exp_minus_1)
  have u: "unat (word_of_nat n + 0xFFF :: u64) = n + 0xFFF"
    using assms(2) by (simp add: unat_word_ariths unat_of_nat)
  have "unat ((word_of_nat n + 0xFFF :: u64) mod 4096) = (n + 0xFFF) mod 4096"
    using u by (simp add: unat_mod)
  also have "(n + 0xFFF) mod 4096 = 0xFFF" using assms(1) by (simp add: mod_add_eq [symmetric] del: mod_add_eq)
  finally have "(word_of_nat n + 0xFFF :: u64) mod 4096 = 0xFFF" by (simp add: word_unat_eq_iff)
  then show ?thesis unfolding page_up_def by (simp only: and_not_eq_minus m) simp
qed

lemma create_layout:
  assumes "layout_ok n u" "n < 8447"
  shows "fst (ulime_proc_create u name entry) = slot u n \<and> layout_ok (Suc n) (snd (ulime_proc_create u name entry))"
proof -
  let ?b = "0x40000000 + n * STRIDE"
  have n: "n * STRIDE \<le> 8447 * STRIDE" using assms(2) by simp
  have pu: "page_up (word_of_nat ?b) = word_of_nat ?b"
    "page_up (word_of_nat (?b + 0x100000)) = word_of_nat (?b + 0x100000)"
    "page_up (word_of_nat (?b + 0x1100000)) = word_of_nat (?b + 0x1100000)"
    using n by (intro page_up_aligned; simp add: STRIDE_def mod_add_eq [symmetric] mod_mult_right_eq [symmetric] del: mod_add_eq mod_mult_right_eq)+
  have room: "\<not> pool_used u + SIZEOF_PROC > pool_size u"
  proof -
    have "unat (pool_used u + SIZEOF_PROC) = 248 * n + 248"
      using assms by (simp add: layout_ok_def SIZEOF_PROC_def unat_word_ariths unat_of_nat)
    moreover have "unat (pool_size u) = 2095000"
      using assms(1) by (simp add: layout_ok_def ULIME_META_SIZE_def SIZEOF_ULIME_def)
    ultimately show ?thesis using assms(2) by (simp add: word_less_nat_alt)
  qed
  define r where "r = zero_proc\<lparr>p_pid := pid_next u, p_name := take 63 name, p_state := PROC_CREATED,
      p_entry_point := entry, p_uid := 0, p_gid := 0,
      p_code_base := word_of_nat ?b, p_code_size := 0x100000,
      p_heap_base := word_of_nat (?b + 0x100000), p_heap_size := 0x1000000,
      p_stack_base := word_of_nat (?b + 0x1100000), p_stack_size := 0x10000\<rparr>"
  have us: "user_space_used u = word_of_nat ?b" and po: "pool_base u + pool_used u = slot u n"
    using assms(1) by (simp_all add: layout_ok_def slot_def)
  have a: "word_of_nat ?b + 0x100000 = (word_of_nat (?b + 0x100000) :: u64)"
    "word_of_nat (?b + 0x100000) + 0x1000000 = (word_of_nat (?b + 0x1100000) :: u64)"
    "word_of_nat (?b + 0x1100000) + 0x10000 = (word_of_nat (0x40000000 + Suc n * STRIDE) :: u64)"
    by (simp_all add: STRIDE_def)
  have c: "(1024 * 1024 :: u64) = 0x100000" "(16 * 1024 * 1024 :: u64) = 0x1000000" "(64 * 1024 :: u64) = 0x10000"
    by simp_all
  have cr: "ulime_proc_create u name entry = (slot u n, u\<lparr>pool_used := pool_used u + SIZEOF_PROC,
      pid_next := pid_next u + 1, user_space_used := word_of_nat (0x40000000 + Suc n * STRIDE),
      procs := (procs u)(slot u n := r), ptr_proc_list := slot u n # ptr_proc_list u\<rparr>)"
    unfolding ulime_proc_create_def if_not_P [OF room] Let_def us po c pu a r_def by (rule refl)
  have other: "slot u k \<noteq> slot u n" if "k < n" for k
    using slot_inj [OF assms(1), of k n] that assms(2) by auto
  have "proc_placed r n" using assms(1) by (simp add: proc_placed_def r_def layout_ok_def)
  moreover have "slot (u\<lparr>pool_used := pu, pid_next := pn, user_space_used := uu, procs := ps, ptr_proc_list := pl\<rparr>) k
      = slot u k" for pu pn uu ps pl k by (simp add: slot_def)
  moreover have "pool_used u + SIZEOF_PROC = word_of_nat (248 * Suc n)"
    using assms(1) by (simp add: layout_ok_def SIZEOF_PROC_def)
  moreover have "pid_next u + 1 = word_of_nat (Suc n + 1)" using assms(1) by (simp add: layout_ok_def)
  ultimately show ?thesis
    using assms other unfolding cr layout_ok_def by (auto simp: less_Suc_eq fun_eq_iff)
qed

lemma create_full:
  assumes "layout_ok 8447 u"
  shows "ulime_proc_create u name entry = (0, u)"
  using assms by (simp add: ulime_proc_create_def layout_ok_def SIZEOF_PROC_def SIZEOF_ULIME_def ULIME_META_SIZE_def
      word_less_nat_alt)

text \<open>The addresses a process may use.\<close>

definition region :: "u64 \<Rightarrow> u64 \<Rightarrow> nat set" where
  "region base sz = {unat base..<unat base + unat sz}"

definition proc_space :: "ulime_proc \<Rightarrow> nat set" where
  "proc_space r = region (p_code_base r) (p_code_size r) \<union> region (p_heap_base r) (p_heap_size r)
     \<union> region (p_stack_base r) (p_stack_size r)"

lemma proc_space_placed:
  assumes "proc_placed r k" "k < 8447"
  shows "proc_space r = {0x40000000 + k * STRIDE..<0x40000000 + Suc k * STRIDE}"
proof -
  have k: "k * STRIDE \<le> 8447 * STRIDE" using assms(2) by simp
  have u: "unat (p_code_base r) = 0x40000000 + k * STRIDE"
    "unat (p_heap_base r) = 0x40000000 + k * STRIDE + 0x100000"
    "unat (p_stack_base r) = 0x40000000 + k * STRIDE + 0x1100000"
  proof -
    have b: "0x40000000 + k * STRIDE + 0x1100000 < 18446744073709551616" using k by (simp add: STRIDE_def)
    have f: "p_code_base r = word_of_nat (0x40000000 + k * STRIDE)"
      "p_heap_base r = word_of_nat (0x40000000 + k * STRIDE + 0x100000)"
      "p_stack_base r = word_of_nat (0x40000000 + k * STRIDE + 0x1100000)"
      using assms(1) unfolding proc_placed_def by blast+
    show "unat (p_code_base r) = 0x40000000 + k * STRIDE"
      "unat (p_heap_base r) = 0x40000000 + k * STRIDE + 0x100000"
      "unat (p_stack_base r) = 0x40000000 + k * STRIDE + 0x1100000"
      unfolding f using b by (intro unat_of_nat64; simp)+
  qed
  have s: "unat (p_code_size r) = 0x100000" "unat (p_heap_size r) = 0x1000000" "unat (p_stack_size r) = 0x10000"
    using assms(1) by (simp_all add: proc_placed_def)
  show ?thesis unfolding proc_space_def region_def u s by (auto simp: STRIDE_def)
qed

lemma proc_spaces_disjoint:
  assumes "layout_ok n u" "i < n" "j < n" "i \<noteq> j"
  shows "proc_space (procs u (slot u i)) \<inter> proc_space (procs u (slot u j)) = {}"
proof -
  have p: "proc_placed (procs u (slot u k)) k" "k < 8447" if "k < n" for k
    using assms(1) that by (auto simp: layout_ok_def)
  have lt: "a * STRIDE + STRIDE \<le> b * STRIDE" if "a < b" for a b
    using mult_le_mono1 [of "Suc a" b STRIDE] that by simp
  show ?thesis
    unfolding proc_space_placed [OF p [OF assms(2)]] proc_space_placed [OF p [OF assms(3)]]
    using lt [of i j] lt [of j i] assms(4) by (auto simp: linorder_neq_iff)
qed

section \<open>Ending a process\<close>

lemma find_pid_spec:
  "0 \<notin> set as \<Longrightarrow> find_pid st as pid \<noteq> 0 \<longleftrightarrow> (\<exists>a\<in>set as. p_pid (st a) = pid)"
  "find_pid st as pid \<noteq> 0 \<Longrightarrow> find_pid st as pid \<in> set as \<and> p_pid (st (find_pid st as pid)) = pid"
  by (induction as) auto

lemma kill_spec:
  assumes ok: "pm_ok (pg_pm (ul_pg u))" and a: "find_pid (procs u) (ptr_proc_list u) pid = a" "a \<noteq> 0"
    and phys: "p_phys_heap (procs u a) \<noteq> 0" "p_phys_stack (procs u a) \<noteq> 0"
    and hp: "page_run (p_phys_heap (procs u a)) hn \<subseteq> {..<unat (pm_total (pg_pm (ul_pg u)))}"
      "hn = (p_heap_size (procs u a) + PAGE_SIZE - 1) div PAGE_SIZE"
    and sp: "page_run (p_phys_stack (procs u a)) sn \<subseteq> {..<unat (pm_total (pg_pm (ul_pg u)))}"
      "sn = (p_stack_size (procs u a) + PAGE_SIZE - 1) div PAGE_SIZE"
  shows "\<exists>u'. ulime_proc_kill u pid = Inr (0, u') \<and> p_state (procs u' a) = PROC_ZOMBIE
    \<and> (\<forall>b. b \<noteq> a \<longrightarrow> procs u' b = procs u b) \<and> pm_ok (pg_pm (ul_pg u'))
    \<and> (\<forall>j. frame_free (pg_pm (ul_pg u')) j \<longleftrightarrow>
         j \<in> page_run (p_phys_heap (procs u a)) hn \<or> j \<in> page_run (p_phys_stack (procs u a)) sn
         \<or> frame_free (pg_pm (ul_pg u)) j)"
proof -
  let ?pm = "pg_pm (ul_pg u)"
  obtain pm1 where pm1: "physmem_free_to ?pm (p_phys_heap (procs u a)) hn = Inr pm1" "pm_ok pm1"
    "unat (pm_total pm1) = unat (pm_total ?pm)" using pm.release_total [OF ok] by blast
  obtain pm2 where pm2: "physmem_free_to pm1 (p_phys_stack (procs u a)) sn = Inr pm2" "pm_ok pm2"
    using pm.release_total [OF pm1(2)] by blast
  have "frame_free pm2 j \<longleftrightarrow> j \<in> page_run (p_phys_heap (procs u a)) hn
      \<or> j \<in> page_run (p_phys_stack (procs u a)) sn \<or> frame_free ?pm j" for j
    using pm.release_isfree [OF ok pm1(1) hp(1)] pm.release_isfree [OF pm1(2) pm2(1)] sp(1) pm1(3) by auto
  then show ?thesis
    using a phys pm1(1) pm2 unfolding hp(2) sp(2)
    by (simp add: ulime_proc_kill_def Let_def obind_def upd_proc_def set_pm_def)
qed

text \<open>When the code of a process finds no frames, those of its stack stay taken.\<close>

lemma mmap_code_failure_leaks:
  assumes ok: "pm_ok (pg_pm (ul_pg u))"
    and st: "physmem_alloc_to (pg_pm (ul_pg u)) (pages_of (p_stack_size (procs u p))) = Inr (a, pm1)" "a \<noteq> 0"
    and co: "physmem_alloc_to pm1 (pages_of (p_code_size (procs u p))) = Inr (0, pm2)"
  shows "ulime_proc_mmap u p = Inr (1, set_pm pm1 u)"
    "frame_free pm1 j \<longleftrightarrow> j \<notin> page_run a (pages_of (p_stack_size (procs u p))) \<and> frame_free (pg_pm (ul_pg u)) j"
proof -
  have "pm2 = pm1" using pm.alloc_fail [OF pm.alloc_ok(1) [OF ok st(1)] co] .
  then show "ulime_proc_mmap u p = Inr (1, set_pm pm1 u)"
    using st co by (simp add: ulime_proc_mmap_def Let_def obind_def)
  show "frame_free pm1 j \<longleftrightarrow> j \<notin> page_run a (pages_of (p_stack_size (procs u p))) \<and> frame_free (pg_pm (ul_pg u)) j"
    using pm.alloc_isfree [OF ok st] .
qed

section \<open>Properties\<close>

text \<open>
  C13. After \<open>n\<close> processes were created, the next creation takes the next
  record of the pool, process number and address range, up to 8447 processes, after which it fails
  and changes nothing; the address ranges of two processes never overlap.
\<close>

theorem ulime_create_layout:
  assumes "layout_ok n u"
  shows "(n < 8447 \<longrightarrow> fst (ulime_proc_create u name entry) = slot u n
        \<and> layout_ok (Suc n) (snd (ulime_proc_create u name entry)))
    \<and> (n = 8447 \<longrightarrow> ulime_proc_create u name entry = (0, u))
    \<and> (\<forall>i<n. \<forall>j<n. i \<noteq> j \<longrightarrow> proc_space (procs u (slot u i)) \<inter> proc_space (procs u (slot u j)) = {})"
  using create_layout [OF assms] create_full [of u] proc_spaces_disjoint [OF assms] assms by blast

definition ul_ex :: ulime where
  "ul_ex = the (ulime_init (Some \<lparr>start_slab_meta = 0, start_slab_data = 0, start_io = 0, start_dma = 0,
     start_heap = 0, slab_allocator = [], total_heap = 0, used_heap = 0\<rparr>) pg_ex (\<lambda>_. zero_proc))"

lemma ul_ex_ok: "layout_ok 0 ul_ex"
  using ulime_init_layout by (simp add: ul_ex_def ulime_init_def layout_ok_def)

theorem ulime_create_layout_witness:
  "layout_ok 1 (snd (ulime_proc_create ul_ex ''init'' 0x1000)) \<and> fst (ulime_proc_create ul_ex ''init'' 0x1000) = slot ul_ex 0"
  using ulime_create_layout [OF ul_ex_ok] by simp

text \<open>
  Killing a process that was mapped makes the frames of its heap and its
  stack free, no others, and makes it a zombie; the frames of its code stay taken.
\<close>

lemma ulime_kill_frees:
  assumes "pm_ok (pg_pm (ul_pg u))" "find_pid (procs u) (ptr_proc_list u) pid = a" "a \<noteq> 0"
    and "p_phys_heap (procs u a) \<noteq> 0" "p_phys_stack (procs u a) \<noteq> 0"
    and "page_run (p_phys_heap (procs u a)) hn \<subseteq> {..<unat (pm_total (pg_pm (ul_pg u)))}"
      "hn = (p_heap_size (procs u a) + PAGE_SIZE - 1) div PAGE_SIZE"
    and "page_run (p_phys_stack (procs u a)) sn \<subseteq> {..<unat (pm_total (pg_pm (ul_pg u)))}"
      "sn = (p_stack_size (procs u a) + PAGE_SIZE - 1) div PAGE_SIZE"
  shows "\<exists>u'. ulime_proc_kill u pid = Inr (0, u') \<and> p_state (procs u' a) = PROC_ZOMBIE
    \<and> (\<forall>b. b \<noteq> a \<longrightarrow> procs u' b = procs u b) \<and> pm_ok (pg_pm (ul_pg u'))
    \<and> (\<forall>j. frame_free (pg_pm (ul_pg u')) j \<longleftrightarrow>
         j \<in> page_run (p_phys_heap (procs u a)) hn \<or> j \<in> page_run (p_phys_stack (procs u a)) sn
         \<or> frame_free (pg_pm (ul_pg u)) j)"
  using assms by (rule kill_spec)

definition ul_mapped :: ulime where
  "ul_mapped = upd_proc 8 (\<lambda>r. r\<lparr>p_pid := 5, p_phys_heap := 0x200000, p_heap_size := 0x2000,
     p_phys_stack := 0x202000, p_stack_size := 0x1000\<rparr>) (ul_ex\<lparr>ptr_proc_list := [8]\<rparr>)"

lemma ulime_kill_frees_witness:
  "\<exists>u'. ulime_proc_kill ul_mapped 5 = Inr (0, u') \<and> frame_free (pg_pm (ul_pg u')) 514"
proof -
  let ?p = "zero_proc\<lparr>p_pid := 5, p_phys_heap := 0x200000, p_heap_size := 0x2000,
     p_phys_stack := 0x202000, p_stack_size := 0x1000\<rparr>"
  have pm: "pg_pm (ul_pg ul_mapped) = pm_520"
    by (simp add: ul_mapped_def upd_proc_def ul_ex_def ulime_init_def pg_ex_def)
  have p: "procs ul_mapped 8 = ?p"
    by (simp add: ul_mapped_def upd_proc_def ul_ex_def ulime_init_def)
  have f: "find_pid (procs ul_mapped) (ptr_proc_list ul_mapped) 5 = 8"
    by (simp add: ul_mapped_def upd_proc_def)
  have tot: "unat (pm_total (pg_pm (ul_pg ul_mapped))) = 520" unfolding pm by (simp add: pm_520_def)
  have h: "page_run (p_phys_heap (procs ul_mapped 8)) 2 = {512..<514}"
    "page_run (p_phys_stack (procs ul_mapped 8)) 1 = {514..<515}"
    unfolding p page_run_def by simp_all
  have k: "pm_ok (pg_pm (ul_pg ul_mapped))" unfolding pm by (rule pm_520_ok)
  have sub: "{512..<514} \<subseteq> {..<520 :: nat}" "{514..<515} \<subseteq> {..<520 :: nat}" by auto
  obtain u' where u': "ulime_proc_kill ul_mapped 5 = Inr (0, u')"
    "\<forall>j. frame_free (pg_pm (ul_pg u')) j \<longleftrightarrow> j \<in> {512..<514} \<or> j \<in> {514..<515} \<or> frame_free (pg_pm (ul_pg ul_mapped)) j"
    using ulime_kill_frees [OF k f, of 2 1] sub unfolding h tot by (auto simp: p PAGE_SIZE_def)
  from u'(2) have "frame_free (pg_pm (ul_pg u')) 514" by simp
  then show ?thesis using u'(1) by blast
qed

end
