(* ===== verification/Sched.thy ===== *)
theory Sched
  imports Ulime
begin

text \<open>
  The scheduler of \<^verbatim>\<open>emex/kernel/proc/scheduler.c\<close> and the task switcher of
  \<^verbatim>\<open>emex/kernel/multitasking/multitasking.c\<close>. A task points to a process of ulime; the state
  of the processor that a switch replaces is the record that the interrupt entry saved, with the
  page table register and the kernel stack of the task state segment as two more fields of \<open>mt\<close>.
\<close>

section \<open>Scheduler\<close>

definition SCHED_BASE_QUANTUM :: u64 where "SCHED_BASE_QUANTUM = 2"
definition SCHED_MIN_QUANTUM :: u64 where "SCHED_MIN_QUANTUM = 1"
definition SCHED_MAX_QUANTUM :: u64 where "SCHED_MAX_QUANTUM = 16"

record scheduler =
  s_quantum :: u64
  s_ticks :: u64
  s_last_idx :: int
  s_round_counter :: u64

definition scheduler_quantum_for_priority :: "u64 \<Rightarrow> u64" where
  "scheduler_quantum_for_priority priority =
    (let p = (if priority = 0 then 1 else priority);
         q = (p * SCHED_BASE_QUANTUM) div 128;
         q = (if q < SCHED_MIN_QUANTUM then SCHED_MIN_QUANTUM else q)
     in if q > SCHED_MAX_QUANTUM then SCHED_MAX_QUANTUM else q)"

definition scheduler_init ::
  "(ulime \<times> klime option) option \<Rightarrow> u64 \<Rightarrow> kmem \<Rightarrow> (scheduler option \<times> klime option \<times> kmem) option" where
  "scheduler_init uk base_quantum m =
    (case uk of None \<Rightarrow> Some (None, None, m)
     | Some (u, None) \<Rightarrow> Some (None, None, m)
     | Some (u, Some k) \<Rightarrow> (case klime_create (Some k) 40 m of None \<Rightarrow> None
          | Some (p, kl', m') \<Rightarrow>
            Some (if p = 0 then None
                  else Some \<lparr>s_quantum = (if base_quantum > 0 then base_quantum else SCHED_BASE_QUANTUM),
                             s_ticks = 0, s_last_idx = -1, s_round_counter = 0\<rparr>, kl', m')))"

definition scheduler_set_quantum :: "scheduler option \<Rightarrow> u64 \<Rightarrow> scheduler option" where
  "scheduler_set_quantum s quantum =
    map_option (\<lambda>s. s\<lparr>s_quantum := (if quantum > 0 then quantum else SCHED_BASE_QUANTUM)\<rparr>) s"

definition scheduler_tick :: "scheduler option \<Rightarrow> ulime \<Rightarrow> scheduler option \<times> ulime" where
  "scheduler_tick s u =
    (case s of None \<Rightarrow> (None, u)
     | Some s \<Rightarrow>
       let t = s_ticks s + 1
       in if t \<ge> s_quantum s
          then (Some (s\<lparr>s_ticks := 0, s_round_counter := s_round_counter s + 1\<rparr>), ulime_schedule u)
          else (Some (s\<lparr>s_ticks := t\<rparr>), u))"

definition scheduler_yield :: "scheduler option \<Rightarrow> ulime \<Rightarrow> scheduler option \<times> ulime" where
  "scheduler_yield s u =
    (case s of None \<Rightarrow> (None, u) | Some s \<Rightarrow> (Some (s\<lparr>s_ticks := 0\<rparr>), ulime_schedule u))"

text \<open>
  The \<open>do ... while\<close> scans of the task table: from \<open>start\<close> on, once around. The fuel is the number
  of tasks, after which the scan is back at \<open>start\<close>.
\<close>

fun rr_scan :: "(nat \<Rightarrow> bool) \<Rightarrow> nat \<Rightarrow> nat \<Rightarrow> nat \<Rightarrow> nat \<Rightarrow> nat option" where
  "rr_scan ok cnt start i 0 = None"
| "rr_scan ok cnt start i (Suc fuel) =
    (if ok i then Some i
     else let i' = (i + 1) mod cnt in if i' = start then None else rr_scan ok cnt start i' fuel)"

section \<open>Tasks\<close>

record regs =
  r15 :: u64
  r14 :: u64
  r13 :: u64
  r12 :: u64
  r11 :: u64
  r10 :: u64
  r9 :: u64
  r8 :: u64
  rbp :: u64
  rdi :: u64
  rsi :: u64
  rdx :: u64
  rcx :: u64
  rbx :: u64
  rax :: u64
  rip :: u64
  cs :: u64
  rflags :: u64
  rsp :: u64
  ss :: u64

record mt_user_ctx =
  uc_regs :: regs
  uc_cr3 :: u64
  uc_saved :: bool

record cpu_state =
  st_regs :: regs
  int_no :: u64
  err_code :: u64

record mt_task =
  t_proc :: u64
  t_user_ctx :: mt_user_ctx
  t_kstack :: u64
  t_valid :: bool

record mt =
  mt_tasks :: "mt_task list"
  mt_task_count :: nat
  mt_current_idx :: int
  mt_initialized :: bool
  mt_sched :: "scheduler option"
  mt_has_ulime :: bool
  mt_ulime :: ulime
  hw_cr3 :: u64
  hw_rsp0 :: u64

definition MT_MAX_TASKS :: nat where "MT_MAX_TASKS = 64"
definition MT_KSTACK_SIZE :: u64 where "MT_KSTACK_SIZE = 8192"
definition USER_DATA_SELECTOR :: u64 where "USER_DATA_SELECTOR = 0x18"
definition USER_CODE_SELECTOR :: u64 where "USER_CODE_SELECTOR = 0x20"

definition task_state :: "mt \<Rightarrow> nat \<Rightarrow> u64" where
  "task_state m i = p_state (procs (mt_ulime m) (t_proc (mt_tasks m ! i)))"

definition has_proc :: "mt \<Rightarrow> nat \<Rightarrow> bool" where
  "has_proc m i \<longleftrightarrow> t_valid (mt_tasks m ! i) \<and> t_proc (mt_tasks m ! i) \<noteq> 0"

definition pickable :: "mt \<Rightarrow> nat \<Rightarrow> bool" where
  "pickable m i \<longleftrightarrow> has_proc m i \<and>
     (task_state m i = PROC_READY \<or> task_state m i = PROC_CREATED \<or> task_state m i = PROC_RUNNING)"

definition startable :: "mt \<Rightarrow> nat \<Rightarrow> bool" where
  "startable m i \<longleftrightarrow> has_proc m i \<and> (task_state m i = PROC_READY \<or> task_state m i = PROC_CREATED)"

definition scheduler_pick_next :: "mt option \<Rightarrow> int \<Rightarrow> int" where
  "scheduler_pick_next mtp current_idx =
    (case mtp of None \<Rightarrow> -1
     | Some m \<Rightarrow>
       if mt_task_count m = 0 then -1
       else let count = mt_task_count m; start = nat (current_idx + 1) mod count
            in case rr_scan (pickable m) count start start count of Some i \<Rightarrow> int i | None \<Rightarrow> -1)"

definition mt_find_next :: "mt \<Rightarrow> int \<Rightarrow> int" where
  "mt_find_next m from_idx =
    (if mt_task_count m = 0 then -1
     else let count = mt_task_count m; start = nat (from_idx + 1) mod count
          in case rr_scan (startable m) count start start count of Some i \<Rightarrow> int i
             | None \<Rightarrow> if startable m start then int start else -1)"

definition mt_init :: "mt \<Rightarrow> scheduler option \<Rightarrow> bool \<Rightarrow> ulime \<Rightarrow> mt" where
  "mt_init m sched has_ul u = m\<lparr>
     mt_tasks := map (\<lambda>t. t\<lparr>t_proc := 0, t_valid := False, t_kstack := 0,
                            t_user_ctx := (t_user_ctx t)\<lparr>uc_saved := False\<rparr>\<rparr>) (mt_tasks m),
     mt_task_count := 0, mt_current_idx := -1, mt_initialized := True, mt_sched := sched,
     mt_has_ulime := has_ul, mt_ulime := u\<rparr>"

text \<open>Outer \<open>None\<close>: an invalid access (there is no ulime whose memory manager could be used).\<close>

definition mt_add_task :: "mt \<Rightarrow> u64 \<Rightarrow> klime option \<Rightarrow> kmem \<Rightarrow> (int \<times> mt \<times> klime option \<times> kmem) option" where
  "mt_add_task m proc kl km =
    (if proc = 0 then Some (-1, m, kl, km)
     else if \<not> mt_initialized m then Some (-1, m, kl, km)
     else if mt_task_count m \<ge> MT_MAX_TASKS then Some (-1, m, kl, km)
     else if \<not> mt_has_ulime m then None
     else case klime_create kl MT_KSTACK_SIZE km of None \<Rightarrow> None
        | Some (stack, kl', km') \<Rightarrow>
          let idx = mt_task_count m;
              t = (mt_tasks m ! idx)\<lparr>t_proc := proc, t_valid := True, t_kstack := stack,
                    t_user_ctx := (t_user_ctx (mt_tasks m ! idx))\<lparr>uc_saved := False,
                       uc_cr3 := p_pml4_phys (procs (mt_ulime m) proc)\<rparr>\<rparr>
          in Some (int idx, m\<lparr>mt_tasks := (mt_tasks m)[idx := t], mt_task_count := idx + 1\<rparr>, kl', km'))"

section \<open>Switching\<close>

definition zero_regs :: regs where
  "zero_regs = \<lparr>r15 = 0, r14 = 0, r13 = 0, r12 = 0, r11 = 0, r10 = 0, r9 = 0, r8 = 0, rbp = 0, rdi = 0,
     rsi = 0, rdx = 0, rcx = 0, rbx = 0, rax = 0, rip = 0, cs = 0, rflags = 0, rsp = 0, ss = 0\<rparr>"

definition default_rsp :: "ulime_proc \<Rightarrow> u64" where
  "default_rsp p = (p_stack_base p + p_stack_size p - 16) AND NOT 0xF"

text \<open>The registers with which a task runs for the first time.\<close>

definition first_regs :: "ulime_proc \<Rightarrow> u64 \<Rightarrow> regs" where
  "first_regs p sp = zero_regs\<lparr>rip := p_entry_point p, cs := USER_CODE_SELECTOR OR 3, rflags := 0x202,
     rsp := sp, ss := USER_DATA_SELECTOR OR 3\<rparr>"

definition kstack_top :: "mt_task \<Rightarrow> u64" where
  "kstack_top t = (t_kstack t + MT_KSTACK_SIZE) AND NOT 0xF"

definition set_state :: "u64 \<Rightarrow> u64 \<Rightarrow> mt \<Rightarrow> mt" where
  "set_state proc st m = m\<lparr>mt_ulime := upd_proc proc (\<lambda>r. r\<lparr>p_state := st\<rparr>) (mt_ulime m)\<rparr>"

text \<open>\<open>Some regs\<close> are the registers user mode starts with, \<open>None\<close> means that the call returns.\<close>

definition mt_start :: "mt \<Rightarrow> mt \<times> regs option" where
  "mt_start m =
    (if \<not> mt_initialized m \<or> mt_task_count m = 0 then (m, None)
     else let idx = mt_find_next m (-1) in
     if idx < 0 then (m, None)
     else let t = mt_tasks m ! nat idx; p = procs (mt_ulime m) (t_proc t);
              m1 = set_state (t_proc t) PROC_RUNNING (m\<lparr>mt_current_idx := idx\<rparr>);
              m2 = (if mt_has_ulime m1 then m1\<lparr>mt_ulime := (mt_ulime m1)\<lparr>ptr_proc_curr := t_proc t\<rparr>\<rparr> else m1);
              m3 = (if t_kstack t \<noteq> 0 then m2\<lparr>hw_rsp0 := kstack_top t\<rparr> else m2);
              m4 = m3\<lparr>mt_sched := map_option (\<lambda>s. s\<lparr>s_quantum := scheduler_quantum_for_priority (p_priority p),
                         s_ticks := 0\<rparr>) (mt_sched m3)\<rparr>;
              sp = (if p_entry_rsp p \<noteq> 0 then p_entry_rsp p else default_rsp p)
          in (m4\<lparr>hw_cr3 := p_pml4_phys p\<rparr>, Some (first_regs p sp)))"

text \<open>Saving the task that was interrupted, and choosing the registers of the next one.\<close>

definition save_task :: "nat \<Rightarrow> cpu_state \<Rightarrow> mt \<Rightarrow> mt" where
  "save_task old st m =
    (let t = mt_tasks m ! old; p = procs (mt_ulime m) (t_proc t);
         m1 = m\<lparr>mt_tasks := (mt_tasks m)[old := t\<lparr>t_user_ctx :=
                \<lparr>uc_regs = st_regs st, uc_cr3 = p_pml4_phys p, uc_saved = True\<rparr>\<rparr>]\<rparr>
     in if p_state p = PROC_RUNNING then set_state (t_proc t) PROC_READY m1 else m1)"

definition load_task :: "mt_task \<Rightarrow> ulime_proc \<Rightarrow> cpu_state \<Rightarrow> cpu_state" where
  "load_task t p st =
    (if uc_saved (t_user_ctx t) then st\<lparr>st_regs := uc_regs (t_user_ctx t)\<rparr>
     else st\<lparr>st_regs := first_regs p (default_rsp p)\<rparr>)"

definition switch_to :: "int \<Rightarrow> nat \<Rightarrow> cpu_state \<Rightarrow> mt \<Rightarrow> mt \<times> cpu_state" where
  "switch_to old new st m =
    (let m1 = (if old \<ge> 0 \<and> t_valid (mt_tasks m ! nat old) then save_task (nat old) st m else m);
         t = mt_tasks m1 ! new; p = procs (mt_ulime m1) (t_proc t);
         st' = load_task t p st;
         m2 = (set_state (t_proc t) PROC_RUNNING m1)\<lparr>mt_current_idx := int new\<rparr>;
         m3 = (if mt_has_ulime m2 then m2\<lparr>mt_ulime := (mt_ulime m2)\<lparr>ptr_proc_curr := t_proc t\<rparr>\<rparr> else m2);
         m4 = (if t_kstack t \<noteq> 0 then m3\<lparr>hw_rsp0 := kstack_top t\<rparr> else m3);
         m5 = m4\<lparr>mt_sched := map_option (\<lambda>s. s\<lparr>s_quantum := scheduler_quantum_for_priority (p_priority p),
                  s_last_idx := int new\<rparr>) (mt_sched m4)\<rparr>
     in (m5\<lparr>hw_cr3 := p_pml4_phys p\<rparr>, st'))"

definition mt_preempt :: "mt \<Rightarrow> cpu_state \<Rightarrow> mt \<times> cpu_state" where
  "mt_preempt m st =
    (if \<not> mt_initialized m then (m, st)
     else if mt_task_count m < 2 then (m, st)
     else if cs (st_regs st) AND 3 \<noteq> 3 then
       (if mt_current_idx m < 0 then (m, st)
        else let i = nat (mt_current_idx m) in
        if \<not> has_proc m i then (m, st)
        else if task_state m i \<noteq> PROC_BLOCKED then (m, st)
        else (m\<lparr>mt_current_idx := -1\<rparr>, st))
     else
       let blocked = mt_current_idx m \<ge> 0 \<and> has_proc m (nat (mt_current_idx m))
                       \<and> task_state m (nat (mt_current_idx m)) = PROC_BLOCKED;
           m1 = (if blocked then m\<lparr>mt_sched := map_option (\<lambda>s. s\<lparr>s_ticks := s_quantum s\<rparr>) (mt_sched m)\<rparr> else m)
       in case mt_sched m1 of
            Some s \<Rightarrow>
              (let s1 = s\<lparr>s_ticks := s_ticks s + 1\<rparr> in
               if s_ticks s1 < s_quantum s1 then (m1\<lparr>mt_sched := Some s1\<rparr>, st)
               else let m2 = m1\<lparr>mt_sched := Some (s1\<lparr>s_ticks := 0, s_round_counter := s_round_counter s1 + 1\<rparr>)\<rparr>;
                        old = mt_current_idx m2; new = scheduler_pick_next (Some m2) old
                    in if new < 0 \<or> new = old then (m2, st) else switch_to old (nat new) st m2)
          | None \<Rightarrow>
              (let old = mt_current_idx m1; new = mt_find_next m1 old
               in if new < 0 \<or> new = old then (m1, st) else switch_to old (nat new) st m1))"

definition mt_yield :: "mt \<Rightarrow> mt" where
  "mt_yield m = (if \<not> mt_initialized m then m
     else m\<lparr>mt_sched := map_option (\<lambda>s. s\<lparr>s_ticks := 0\<rparr>) (mt_sched m)\<rparr>)"

definition mt_current_task :: "mt \<Rightarrow> mt_task option" where
  "mt_current_task m = (if mt_current_idx m < 0 then None else Some (mt_tasks m ! nat (mt_current_idx m)))"

lemma quantum_bounds:
  "SCHED_MIN_QUANTUM \<le> scheduler_quantum_for_priority p" "scheduler_quantum_for_priority p \<le> SCHED_MAX_QUANTUM"
  by (auto simp: scheduler_quantum_for_priority_def Let_def SCHED_MIN_QUANTUM_def SCHED_MAX_QUANTUM_def not_less
      simp del: word_less_1)

section \<open>Round robin\<close>

text \<open>The tasks in the order in which a scan that starts behind \<open>cur\<close> looks at them.\<close>

definition rotation :: "nat \<Rightarrow> int \<Rightarrow> nat list" where
  "rotation cnt cur = map (\<lambda>k. (nat (cur + 1) + k) mod cnt) [0..<cnt]"

lemma mod_wrap: "s < n \<Longrightarrow> k \<le> n \<Longrightarrow> (s + k) mod n = (if s + k < n then s + k else s + k - n)" for n :: nat
  by (auto simp: mod_if)

lemma mod_shift: "(a + k) mod n = (a mod n + k) mod n" for n :: nat
  by (simp add: mod_simps)

lemma rotation_pos:
  fixes j n a :: nat
  assumes "j < n"
  shows "\<exists>k<n. (a + k) mod n = j"
proof -
  have s: "a mod n < n" using assms by (intro mod_less_divisor) simp
  show ?thesis
  proof (cases "a mod n \<le> j")
    case True
    have "(a + (j - a mod n)) mod n = (a mod n + (j - a mod n)) mod n" by (rule mod_shift)
    also have "\<dots> = j" using True assms by simp
    finally show ?thesis using assms by (intro exI [of _ "j - a mod n"]) simp
  next
    case False
    have "(a + (j + n - a mod n)) mod n = (a mod n + (j + n - a mod n)) mod n" by (rule mod_shift)
    also have "a mod n + (j + n - a mod n) = j + n" using s by simp
    also have "(j + n) mod n = j" using assms by simp
    finally show ?thesis using assms False by (intro exI [of _ "j + n - a mod n"]) simp
  qed
qed

lemma set_rotation: "0 < cnt \<Longrightarrow> set (rotation cnt cur) = {..<cnt}"
  using rotation_pos [of _ cnt "nat (cur + 1)"] by (force simp: rotation_def)

lemma rr_scan_eq:
  assumes "start < cnt" "k < cnt"
  shows "rr_scan ok cnt start ((start + k) mod cnt) (cnt - k) = find ok (map (\<lambda>j. (start + j) mod cnt) [k..<cnt])"
  using assms(2)
proof (induction "cnt - k" arbitrary: k)
  case (Suc n)
  have f: "cnt - k = Suc (cnt - Suc k)" using Suc.prems by simp
  have u: "[k..<cnt] = k # [Suc k..<cnt]" using Suc.prems by (rule upt_conv_Cons)
  have nx: "((start + k) mod cnt + 1) mod cnt = (start + Suc k) mod cnt" by (simp add: mod_simps)
  have wrap: "(start + Suc k) mod cnt = start \<longleftrightarrow> Suc k = cnt"
    using mod_wrap [OF assms(1), of "Suc k"] Suc.prems assms(1) by auto
  show ?case
  proof (cases "Suc k = cnt")
    case True
    then show ?thesis using wrap nx f u by (simp add: Let_def)
  next
    case False
    then have "rr_scan ok cnt start ((start + Suc k) mod cnt) (cnt - Suc k)
        = find ok (map (\<lambda>j. (start + j) mod cnt) [Suc k..<cnt])"
      using Suc.hyps(1) [of "Suc k"] Suc.hyps(2) Suc.prems by (simp del: add_Suc_right)
    then show ?thesis unfolding f u rr_scan.simps Let_def nx wrap using False by simp
  qed
qed simp

lemma rr_scan_find:
  assumes "0 < cnt"
  shows "rr_scan ok cnt (nat (cur + 1) mod cnt) (nat (cur + 1) mod cnt) cnt = find ok (rotation cnt cur)"
proof -
  have "rotation cnt cur = map (\<lambda>j. (nat (cur + 1) mod cnt + j) mod cnt) [0..<cnt]"
    unfolding rotation_def by (simp add: mod_simps)
  then show ?thesis
    using rr_scan_eq [of "nat (cur + 1) mod cnt" cnt 0 ok] assms by simp
qed

text \<open>
  A choice of the next task that looks at all tasks once, starting behind the current one. Whoever
  stays eligible is chosen within one round, whatever becomes of the others.
\<close>

locale round_robin =
  fixes pick :: "(nat \<Rightarrow> bool) \<Rightarrow> nat \<Rightarrow> int \<Rightarrow> int"
  assumes pick_rotation: "0 < cnt \<Longrightarrow> -1 \<le> cur \<Longrightarrow>
    pick ok cnt cur = (case find ok (rotation cnt cur) of Some i \<Rightarrow> int i | None \<Rightarrow> -1)"
begin

lemma pick_range:
  assumes "0 < cnt" "-1 \<le> cur" "0 \<le> pick ok cnt cur"
  shows "nat (pick ok cnt cur) < cnt" "ok (nat (pick ok cnt cur))"
proof -
  obtain i where i: "find ok (rotation cnt cur) = Some i"
    using assms(3) unfolding pick_rotation [OF assms(1,2)] by (auto split: option.splits)
  then have "i \<in> set (rotation cnt cur)" "ok i" by (auto simp: find_Some_iff)
  then show "nat (pick ok cnt cur) < cnt" "ok (nat (pick ok cnt cur))"
    unfolding pick_rotation [OF assms(1,2)] i using set_rotation [OF assms(1)] by auto
qed

lemma pick_none:
  assumes "0 < cnt" "-1 \<le> cur"
  shows "pick ok cnt cur < 0 \<longleftrightarrow> (\<forall>i<cnt. \<not> ok i)"
proof (cases "find ok (rotation cnt cur)")
  case None
  then have "\<forall>i<cnt. \<not> ok i" using set_rotation [OF assms(1), of cur] by (auto simp: find_None_iff)
  then show ?thesis unfolding pick_rotation [OF assms] None by simp
next
  case (Some i)
  then have "i \<in> set (rotation cnt cur)" "ok i" by (auto simp: find_Some_iff)
  then show ?thesis
    unfolding pick_rotation [OF assms] using set_rotation [OF assms(1), of cur] Some by auto
qed

lemma pick_distance:
  assumes "0 < cnt" "-1 \<le> cur" "d < cnt" "(nat (cur + 1) + d) mod cnt = j" "ok j"
  shows "pick ok cnt cur = int j \<or>
    (\<exists>e<d. pick ok cnt cur = int ((nat (cur + 1) + e) mod cnt))"
proof -
  obtain i where i: "find ok (rotation cnt cur) = Some i"
    using pick_none [OF assms(1,2), of ok] assms set_rotation [OF assms(1), of cur]
    by (cases "find ok (rotation cnt cur)") (auto simp: find_None_iff rotation_def)
  then obtain e where e: "e < cnt" "i = (nat (cur + 1) + e) mod cnt" "\<forall>f<e. \<not> ok ((nat (cur + 1) + f) mod cnt)"
    by (auto simp: find_Some_iff rotation_def)
  have "e \<le> d" using e(3) assms(4,5) by (meson not_less)
  then show ?thesis
    unfolding pick_rotation [OF assms(1,2)] i using e(2) assms(4)
    by (cases "e = d") (auto intro!: exI [of _ e])
qed

lemma bounded_wait:
  assumes "0 < cnt" "j < cnt" "\<And>k. ok k j" "-1 \<le> c 0" "\<And>k. c (Suc k) = pick (ok k) cnt (c k)"
  shows "\<exists>k. 0 < k \<and> k \<le> cnt \<and> c k = int j"
proof -
  have wait: "\<exists>k. 0 < k \<and> k \<le> Suc d \<and> c k = int j"
    if "d < cnt" "(nat (c 0 + 1) + d) mod cnt = j" "-1 \<le> c 0" "\<And>k. c (Suc k) = pick (ok k) cnt (c k)" "\<And>k. ok k j"
    for d c ok
    using that
  proof (induction d arbitrary: c ok rule: less_induct)
    case (less d)
    from pick_distance [OF assms(1) less.prems(3,1,2), of "ok 0"] less.prems(4) [of 0] less.prems(5)
    consider "c 1 = int j" | e where "e < d" "c 1 = int ((nat (c 0 + 1) + e) mod cnt)" by auto
    then show ?case
    proof cases
      case 1
      then show ?thesis by (intro exI [of _ 1]) simp
    next
      case 2
      let ?d = "d - Suc e"
      have "nat (c 1 + 1) = (nat (c 0 + 1) + e) mod cnt + 1" using 2(2) by simp
      then have "(nat (c 1 + 1) + ?d) mod cnt = (nat (c 0 + 1) + e + 1 + ?d) mod cnt"
        using mod_shift [of "nat (c 0 + 1) + e" "1 + ?d" cnt] by (simp add: ac_simps)
      then have "(nat (c (Suc 0) + 1) + ?d) mod cnt = j" using 2(1) less.prems(2) by simp
      moreover have "-1 \<le> c (Suc 0)" "?d < d" "?d < cnt" using 2 less.prems(1) by auto
      ultimately have "\<exists>k. 0 < k \<and> k \<le> Suc ?d \<and> c (Suc k) = int j"
        using less.IH [of ?d "\<lambda>k. c (Suc k)" "\<lambda>k. ok (Suc k)"] less.prems(4,5) by blast
      then obtain k where "0 < k" "k \<le> Suc ?d" "c (Suc k) = int j" by blast
      then show ?thesis using 2(1) by (intro exI [of _ "Suc k"]) auto
    qed
  qed
  obtain d where d: "d < cnt" "(nat (c 0 + 1) + d) mod cnt = j" using rotation_pos [OF assms(2)] by blast
  from wait [OF d assms(4,5,3)] d(1) show ?thesis by (metis Suc_leI le_trans)
qed

end

text \<open>Both scans of the task table are such a choice.\<close>

definition rr_pick :: "(nat \<Rightarrow> bool) \<Rightarrow> nat \<Rightarrow> int \<Rightarrow> int" where
  "rr_pick ok count cur =
    (let start = nat (cur + 1) mod count
     in case rr_scan ok count start start count of Some i \<Rightarrow> int i | None \<Rightarrow> -1)"

interpretation rr: round_robin rr_pick
  by unfold_locales (simp add: rr_pick_def rr_scan_find)

lemma pick_next_rr:
  "scheduler_pick_next (Some m) cur = (if mt_task_count m = 0 then -1 else rr_pick (pickable m) (mt_task_count m) cur)"
  by (simp add: scheduler_pick_next_def rr_pick_def Let_def)

lemma find_next_rr:
  assumes "-1 \<le> cur"
  shows "mt_find_next m cur = (if mt_task_count m = 0 then -1 else rr_pick (startable m) (mt_task_count m) cur)"
proof (cases "mt_task_count m = 0")
  case False
  let ?c = "mt_task_count m" and ?s = "nat (cur + 1) mod mt_task_count m"
  have "\<not> startable m ?s" if "rr_scan (startable m) ?c ?s ?s ?c = None"
  proof -
    have "rr_pick (startable m) ?c cur < 0" using that by (simp add: rr_pick_def Let_def)
    then show ?thesis using rr.pick_none [of ?c cur "startable m"] assms False by simp
  qed
  then show ?thesis using False by (auto simp: mt_find_next_def rr_pick_def Let_def split: option.split)
qed (simp add: mt_find_next_def)

section \<open>What a switch keeps\<close>

text \<open>
  The tasks in the table have different processes, and at most the current task is marked running.
\<close>

definition mt_ok :: "mt \<Rightarrow> bool" where
  "mt_ok m \<longleftrightarrow> mt_task_count m \<le> length (mt_tasks m) \<and> -1 \<le> mt_current_idx m
     \<and> mt_current_idx m < int (mt_task_count m)
     \<and> (\<forall>i<mt_task_count m. has_proc m i)
     \<and> inj_on (\<lambda>i. t_proc (mt_tasks m ! i)) {..<mt_task_count m}"

definition one_running :: "mt \<Rightarrow> bool" where
  "one_running m \<longleftrightarrow> (\<forall>i<mt_task_count m. task_state m i = PROC_RUNNING \<longrightarrow> int i = mt_current_idx m)"

lemma save_task_simps [simp]:
  "mt_task_count (save_task i st m) = mt_task_count m" "length (mt_tasks (save_task i st m)) = length (mt_tasks m)"
  "mt_current_idx (save_task i st m) = mt_current_idx m" "mt_sched (save_task i st m) = mt_sched m"
  "mt_has_ulime (save_task i st m) = mt_has_ulime m" "mt_initialized (save_task i st m) = mt_initialized m"
  by (simp_all add: save_task_def Let_def set_state_def)

lemma save_task_nth:
  "i < length (mt_tasks m) \<Longrightarrow> mt_tasks (save_task i st m) ! j = (if j = i then (mt_tasks m ! i)\<lparr>t_user_ctx :=
     \<lparr>uc_regs = st_regs st, uc_cr3 = p_pml4_phys (procs (mt_ulime m) (t_proc (mt_tasks m ! i))), uc_saved = True\<rparr>\<rparr>
     else mt_tasks m ! j)"
  by (simp add: save_task_def Let_def set_state_def)

lemma save_task_procs:
  "procs (mt_ulime (save_task i st m)) a = (let p = procs (mt_ulime m) a in
     if a = t_proc (mt_tasks m ! i) \<and> p_state p = PROC_RUNNING then p\<lparr>p_state := PROC_READY\<rparr> else p)"
  by (auto simp: save_task_def Let_def set_state_def upd_proc_def)

text \<open>The effect of a switch from task \<open>old\<close> to task \<open>new\<close>.\<close>

lemma switch_to_spec:
  assumes ok: "mt_ok m" and old: "0 \<le> old" "nat old < mt_task_count m" and new: "new < mt_task_count m" "int new \<noteq> old"
    and sw: "switch_to old new st m = (m', st')"
  shows "mt_tasks m' = mt_tasks (save_task (nat old) st m)" "mt_current_idx m' = int new"
    "mt_task_count m' = mt_task_count m" "mt_initialized m' = mt_initialized m" "mt_has_ulime m' = mt_has_ulime m"
    "st' = load_task (mt_tasks m ! new) (procs (mt_ulime m) (t_proc (mt_tasks m ! new))) st"
    "procs (mt_ulime m') a = (let p = procs (mt_ulime m) a in
       if a = t_proc (mt_tasks m ! new) then p\<lparr>p_state := PROC_RUNNING\<rparr>
       else if a = t_proc (mt_tasks m ! nat old) \<and> p_state p = PROC_RUNNING then p\<lparr>p_state := PROC_READY\<rparr> else p)"
    "hw_cr3 m' = p_pml4_phys (procs (mt_ulime m) (t_proc (mt_tasks m ! new)))"
    "mt_sched m' = map_option (\<lambda>s. s\<lparr>s_quantum := scheduler_quantum_for_priority (p_priority (procs (mt_ulime m)
       (t_proc (mt_tasks m ! new)))), s_last_idx := int new\<rparr>) (mt_sched m)"
proof -
  let ?o = "nat old"
  have v: "t_valid (mt_tasks m ! ?o)" using ok old by (auto simp: mt_ok_def has_proc_def)
  have len: "?o < length (mt_tasks m)" using ok old by (auto simp: mt_ok_def)
  have ne: "new \<noteq> ?o" using new(2) old(1) by auto
  have tn: "mt_tasks (save_task ?o st m) ! new = mt_tasks m ! new" using ne len by (simp add: save_task_nth)
  have pne: "t_proc (mt_tasks m ! new) \<noteq> t_proc (mt_tasks m ! ?o)"
    using ok old new ne by (auto simp: mt_ok_def dest: inj_onD)
  have p: "procs (mt_ulime (save_task ?o st m)) (t_proc (mt_tasks m ! new)) = procs (mt_ulime m) (t_proc (mt_tasks m ! new))"
    using pne by (simp add: save_task_procs Let_def)
  note u = sw [unfolded switch_to_def Let_def, symmetric]
  show "mt_tasks m' = mt_tasks (save_task ?o st m)" "mt_current_idx m' = int new"
    "mt_task_count m' = mt_task_count m" "mt_initialized m' = mt_initialized m" "mt_has_ulime m' = mt_has_ulime m"
    using u v old(1) by (simp_all add: set_state_def)
  show "st' = load_task (mt_tasks m ! new) (procs (mt_ulime m) (t_proc (mt_tasks m ! new))) st"
    using u v old(1) tn p by simp
  show "hw_cr3 m' = p_pml4_phys (procs (mt_ulime m) (t_proc (mt_tasks m ! new)))"
    using u v old(1) tn p by simp
  show "mt_sched m' = map_option (\<lambda>s. s\<lparr>s_quantum := scheduler_quantum_for_priority (p_priority (procs (mt_ulime m)
       (t_proc (mt_tasks m ! new)))), s_last_idx := int new\<rparr>) (mt_sched m)"
    using u v old(1) tn p by (simp add: set_state_def)
  show "procs (mt_ulime m') a = (let p = procs (mt_ulime m) a in
       if a = t_proc (mt_tasks m ! new) then p\<lparr>p_state := PROC_RUNNING\<rparr>
       else if a = t_proc (mt_tasks m ! ?o) \<and> p_state p = PROC_RUNNING then p\<lparr>p_state := PROC_READY\<rparr> else p)"
    using u v old(1) tn p by (auto simp: set_state_def upd_proc_def save_task_procs Let_def)
qed

lemma same_tasks_simps [simp]:
  "mt_ok (m\<lparr>mt_sched := x\<rparr>) = mt_ok m" "one_running (m\<lparr>mt_sched := x\<rparr>) = one_running m"
  "pickable (m\<lparr>mt_sched := x\<rparr>) = pickable m" "startable (m\<lparr>mt_sched := x\<rparr>) = startable m"
  by (simp_all add: mt_ok_def one_running_def pickable_def startable_def has_proc_def task_state_def fun_eq_iff)

text \<open>A preemption in user mode either keeps tasks and registers or switches to another task.\<close>

lemma preempt_cases:
  assumes ok: "mt_ok m" and pre: "mt_preempt m st = (m', st')"
  obtains (stay) x where "m' = m\<lparr>mt_sched := x\<rparr>" "st' = st"
    | (idle) "m' = m\<lparr>mt_current_idx := -1\<rparr>" "st' = st" "0 \<le> mt_current_idx m"
        "task_state m (nat (mt_current_idx m)) = PROC_BLOCKED"
    | (switch) x j where "switch_to (mt_current_idx m) j st (m\<lparr>mt_sched := x\<rparr>) = (m', st')"
        "int j \<noteq> mt_current_idx m" "j < mt_task_count m" "pickable m j"
proof -
  define b where "b = (mt_current_idx m \<ge> 0 \<and> has_proc m (nat (mt_current_idx m))
                       \<and> task_state m (nat (mt_current_idx m)) = PROC_BLOCKED)"
  define m1 where "m1 = (if b then m\<lparr>mt_sched := map_option (\<lambda>s. s\<lparr>s_ticks := s_quantum s\<rparr>) (mt_sched m)\<rparr> else m)"
  obtain y where y: "m1 = m\<lparr>mt_sched := y\<rparr>" by (cases b) (auto simp: m1_def intro: that [of "mt_sched m"])
  have m: "m = m\<lparr>mt_sched := mt_sched m\<rparr>" by simp
  have cur: "-1 \<le> mt_current_idx m" using ok by (simp add: mt_ok_def)
  consider "\<not> mt_initialized m \<or> mt_task_count m < 2"
    | "mt_initialized m" "2 \<le> mt_task_count m" "cs (st_regs st) AND 3 \<noteq> 3"
    | "mt_initialized m" "2 \<le> mt_task_count m" "cs (st_regs st) AND 3 = 3" by linarith
  then show thesis
  proof cases
    case 1
    then have "mt_preempt m st = (m, st)" unfolding mt_preempt_def by auto
    then show ?thesis using pre stay [of "mt_sched m"] by simp
  next
    case 2
    then have "mt_preempt m st = (if mt_current_idx m < 0 \<or> \<not> has_proc m (nat (mt_current_idx m))
        \<or> task_state m (nat (mt_current_idx m)) \<noteq> PROC_BLOCKED then (m, st) else (m\<lparr>mt_current_idx := -1\<rparr>, st))"
      unfolding mt_preempt_def by (auto simp: Let_def)
    then show ?thesis using pre stay [of "mt_sched m"] idle by (auto split: if_splits)
  next
    case 3
    have pre': "(case mt_sched m1 of
            Some s \<Rightarrow>
              (if s_ticks (s\<lparr>s_ticks := s_ticks s + 1\<rparr>) < s_quantum (s\<lparr>s_ticks := s_ticks s + 1\<rparr>)
               then (m1\<lparr>mt_sched := Some (s\<lparr>s_ticks := s_ticks s + 1\<rparr>)\<rparr>, st)
               else let m2 = m1\<lparr>mt_sched := Some (s\<lparr>s_ticks := 0, s_round_counter := s_round_counter s + 1\<rparr>)\<rparr>;
                        new = scheduler_pick_next (Some m2) (mt_current_idx m2)
                    in if new < 0 \<or> new = mt_current_idx m2 then (m2, st) else switch_to (mt_current_idx m2) (nat new) st m2)
          | None \<Rightarrow>
              (let new = mt_find_next m1 (mt_current_idx m1)
               in if new < 0 \<or> new = mt_current_idx m1 then (m1, st) else switch_to (mt_current_idx m1) (nat new) st m1))
        = (m', st')"
      using pre 3 unfolding mt_preempt_def b_def m1_def by (simp add: Let_def not_less cong: option.case_cong if_cong)
    have cnt: "0 < mt_task_count m" using 3 by simp
    show ?thesis
    proof (cases "mt_sched m1")
      case None
      let ?new = "mt_find_next m1 (mt_current_idx m1)"
      have fn: "?new = rr_pick (startable m) (mt_task_count m) (mt_current_idx m)"
        using find_next_rr [of "mt_current_idx m1" m1] cur cnt by (simp add: y)
      show ?thesis
      proof (cases "?new < 0 \<or> ?new = mt_current_idx m1")
        case True
        then show ?thesis using pre' None y stay [of y] by (simp add: Let_def)
      next
        case False
        have "nat ?new < mt_task_count m" "startable m (nat ?new)"
          using rr.pick_range [OF cnt cur, of "startable m"] False unfolding fn by auto
        then show ?thesis using switch [of "nat ?new" y] pre' None False y
          by (simp add: Let_def startable_def pickable_def) blast
      qed
    next
      case (Some s)
      let ?s1 = "s\<lparr>s_ticks := s_ticks s + 1\<rparr>"
      let ?m2 = "m1\<lparr>mt_sched := Some (s\<lparr>s_ticks := 0, s_round_counter := s_round_counter s + 1\<rparr>)\<rparr>"
      let ?new = "scheduler_pick_next (Some ?m2) (mt_current_idx ?m2)"
      have pn: "?new = rr_pick (pickable m) (mt_task_count m) (mt_current_idx m)"
        using pick_next_rr [of ?m2 "mt_current_idx ?m2"] cnt by (simp add: y)
      show ?thesis
      proof (cases "s_ticks ?s1 < s_quantum ?s1 \<or> ?new < 0 \<or> ?new = mt_current_idx ?m2")
        case True
        then show ?thesis using pre' Some y stay by (auto simp: Let_def split: if_splits)
      next
        case False
        have "nat ?new < mt_task_count m" "pickable m (nat ?new)"
          using rr.pick_range [OF cnt cur, of "pickable m"] False unfolding pn by auto
        then show ?thesis using switch [of "nat ?new"] pre' Some False y
          by (simp add: Let_def)
      qed
    qed
  qed
qed

text \<open>A switch keeps the table well-formed and at most one task running.\<close>

lemma load_ok:
  assumes ok: "mt_ok m" and new: "new < mt_task_count m"
    and same: "mt_task_count m' = mt_task_count m" "length (mt_tasks m') = length (mt_tasks m)"
      "\<And>i. i < mt_task_count m \<Longrightarrow> t_proc (mt_tasks m' ! i) = t_proc (mt_tasks m ! i) \<and> t_valid (mt_tasks m' ! i) = t_valid (mt_tasks m ! i)"
      "mt_current_idx m' = int new"
  shows "mt_ok m'"
proof -
  have "inj_on (\<lambda>i. t_proc (mt_tasks m' ! i)) {..<mt_task_count m}"
    using ok same(3) by (auto simp: mt_ok_def inj_on_def)
  then show ?thesis using ok new same by (auto simp: mt_ok_def has_proc_def)
qed

lemma switch_ok:
  assumes ok: "mt_ok m" and old: "0 \<le> mt_current_idx m" and new: "new < mt_task_count m" "int new \<noteq> mt_current_idx m"
    and sw: "switch_to (mt_current_idx m) new st m = (m', st')"
  shows "mt_ok m'" "one_running m \<Longrightarrow> one_running m'"
proof -
  let ?o = "nat (mt_current_idx m)"
  have o: "?o < mt_task_count m" using ok old by (auto simp: mt_ok_def)
  have len: "?o < length (mt_tasks m)" using ok o by (auto simp: mt_ok_def)
  note sp = switch_to_spec [OF ok old o new sw]
  have tp: "t_proc (mt_tasks m' ! i) = t_proc (mt_tasks m ! i) \<and> t_valid (mt_tasks m' ! i) = t_valid (mt_tasks m ! i)" for i
    by (simp add: sp(1) save_task_nth [OF len])
  show "mt_ok m'" by (rule load_ok [OF ok new(1)]) (use sp tp in auto)
  show "one_running m'" if one: "one_running m"
    unfolding one_running_def
  proof (intro allI impI)
    fix i assume i: "i < mt_task_count m'" "task_state m' i = PROC_RUNNING"
    show "int i = mt_current_idx m'"
    proof (rule ccontr)
      assume ne: "int i \<noteq> mt_current_idx m'"
      then have "t_proc (mt_tasks m ! i) \<noteq> t_proc (mt_tasks m ! new)"
        using ok i(1) new(1) sp(2,3) by (auto simp: mt_ok_def dest: inj_onD)
      then have st: "task_state m i = PROC_RUNNING \<and> t_proc (mt_tasks m ! i) \<noteq> t_proc (mt_tasks m ! ?o)"
        using i(2) sp(7) [of "t_proc (mt_tasks m ! i)"] tp
        by (auto simp: task_state_def Let_def proc_state_defs split: if_splits)
      then have "int i = mt_current_idx m" using one i(1) sp(3) by (auto simp: one_running_def)
      then have "i = ?o" by simp
      then show False using st by simp
    qed
  qed
qed

lemma switch_from_idle:
  assumes ok: "mt_ok m" and new: "new < mt_task_count m"
    and sw: "switch_to (-1) new st m = (m', st')"
  shows "mt_ok m'" "one_running m \<Longrightarrow> mt_current_idx m = -1 \<Longrightarrow> one_running m'"
    "st' = load_task (mt_tasks m ! new) (procs (mt_ulime m) (t_proc (mt_tasks m ! new))) st"
    "mt_tasks m' = mt_tasks m"
proof -
  note u = sw [unfolded switch_to_def Let_def, symmetric]
  have c: "mt_task_count m' = mt_task_count m" "mt_tasks m' = mt_tasks m" "mt_current_idx m' = int new"
    using u by (simp_all add: set_state_def)
  then show "mt_tasks m' = mt_tasks m" by simp
  show "mt_ok m'" by (rule load_ok [OF ok new]) (use c in auto)
  show "st' = load_task (mt_tasks m ! new) (procs (mt_ulime m) (t_proc (mt_tasks m ! new))) st" using u by simp
  have p: "procs (mt_ulime m') a = (if a = t_proc (mt_tasks m ! new)
      then (procs (mt_ulime m) a)\<lparr>p_state := PROC_RUNNING\<rparr> else procs (mt_ulime m) a)" for a
    using u by (auto simp: set_state_def upd_proc_def)
  show "one_running m'" if one: "one_running m" "mt_current_idx m = -1"
    unfolding one_running_def
  proof (intro allI impI)
    fix i assume i: "i < mt_task_count m'" "task_state m' i = PROC_RUNNING"
    have "task_state m i \<noteq> PROC_RUNNING" using one i(1) c(1) by (auto simp: one_running_def)
    then have "t_proc (mt_tasks m ! i) = t_proc (mt_tasks m ! new)"
      using i(2) p by (auto simp: task_state_def c split: if_splits)
    then show "int i = mt_current_idx m'" using ok i(1) new c by (auto simp: mt_ok_def dest: inj_onD)
  qed
qed

lemma preempt_ok:
  assumes ok: "mt_ok m" and pre: "mt_preempt m st = (m', st')"
  shows "mt_ok m'" "one_running m \<Longrightarrow> one_running m'"
proof -
  have "mt_ok m' \<and> (one_running m \<longrightarrow> one_running m')"
  proof (cases rule: preempt_cases [OF ok pre])
    case (1 x)
    then show ?thesis using ok by simp
  next
    case 2
    have "task_state m i \<noteq> PROC_RUNNING" if "one_running m" "i < mt_task_count m" for i
    proof
      assume r: "task_state m i = PROC_RUNNING"
      then have "nat (mt_current_idx m) = i" using that by (auto simp: one_running_def)
      then show False using 2(4) r by (simp add: proc_state_defs)
    qed
    then show ?thesis using ok 2(1) by (auto simp: mt_ok_def one_running_def has_proc_def task_state_def)
  next
    case (3 x j)
    show ?thesis
    proof (cases "0 \<le> mt_current_idx m")
      case True
      then show ?thesis using switch_ok [of "m\<lparr>mt_sched := x\<rparr>" j st m' st'] 3 ok by simp
    next
      case False
      then have "mt_current_idx m = -1" using ok by (auto simp: mt_ok_def)
      then show ?thesis using switch_from_idle [of "m\<lparr>mt_sched := x\<rparr>" j st m' st'] 3 ok by simp
    qed
  qed
  then show "mt_ok m'" "one_running m \<Longrightarrow> one_running m'" by auto
qed

lemma preempt_away:
  assumes ok: "mt_ok m" and pre: "mt_preempt m st = (m', st')"
    and cur: "0 \<le> mt_current_idx m" "mt_current_idx m' \<noteq> mt_current_idx m" "0 \<le> mt_current_idx m'"
  shows "t_user_ctx (mt_tasks m' ! nat (mt_current_idx m)) =
      \<lparr>uc_regs = st_regs st, uc_cr3 = p_pml4_phys (procs (mt_ulime m) (t_proc (mt_tasks m ! nat (mt_current_idx m)))), uc_saved = True\<rparr>"
    "st' = load_task (mt_tasks m ! nat (mt_current_idx m'))
       (procs (mt_ulime m) (t_proc (mt_tasks m ! nat (mt_current_idx m')))) st"
    "nat (mt_current_idx m') < mt_task_count m"
proof -
  have o: "nat (mt_current_idx m) < mt_task_count m" using ok cur(1) by (auto simp: mt_ok_def)
  have len: "nat (mt_current_idx m) < length (mt_tasks m)" using ok o by (auto simp: mt_ok_def)
  obtain x j where s: "switch_to (mt_current_idx m) j st (m\<lparr>mt_sched := x\<rparr>) = (m', st')"
      "int j \<noteq> mt_current_idx m" "j < mt_task_count m"
    by (cases rule: preempt_cases [OF ok pre]) (use cur in auto)
  have ok': "mt_ok (m\<lparr>mt_sched := x\<rparr>)" using ok by simp
  have s': "switch_to (mt_current_idx (m\<lparr>mt_sched := x\<rparr>)) j st (m\<lparr>mt_sched := x\<rparr>) = (m', st')" using s(1) by simp
  note sp = switch_to_spec [OF ok' _ _ _ _ s(1)]
  have j: "mt_current_idx m' = int j" using sp(2) cur(1) o s(2,3) by simp
  have "mt_tasks m' = mt_tasks (save_task (nat (mt_current_idx m)) st (m\<lparr>mt_sched := x\<rparr>))" using sp(1) cur(1) o s(2,3) by simp
  then show "t_user_ctx (mt_tasks m' ! nat (mt_current_idx m)) =
      \<lparr>uc_regs = st_regs st, uc_cr3 = p_pml4_phys (procs (mt_ulime m) (t_proc (mt_tasks m ! nat (mt_current_idx m)))), uc_saved = True\<rparr>"
    using len by (simp add: save_task_nth)
  show "st' = load_task (mt_tasks m ! nat (mt_current_idx m'))
       (procs (mt_ulime m) (t_proc (mt_tasks m ! nat (mt_current_idx m')))) st"
    using sp(6) cur(1) o s(2,3) j by simp
  show "nat (mt_current_idx m') < mt_task_count m" using j s(3) by simp
qed

section \<open>Properties\<close>

text \<open>
  C7. In a table of \<open>cnt\<close> tasks, a task that stays ready is picked after at
  most \<open>cnt\<close> calls of \<open>scheduler_pick_next\<close>, whatever the states of the other tasks become in between.
\<close>

theorem scheduler_bounded_wait:
  assumes "\<And>k. mt_task_count (m k) = cnt" "j < cnt" "\<And>k. pickable (m k) j"
    and "-1 \<le> c 0" "\<And>k. c (Suc k) = scheduler_pick_next (Some (m k)) (c k)"
  shows "\<exists>k. 0 < k \<and> k \<le> cnt \<and> c k = int j"
proof -
  have "0 < cnt" using assms(2) by simp
  then show ?thesis
    using rr.bounded_wait [of cnt j "\<lambda>k. pickable (m k)" c] assms by (simp add: pick_next_rr)
qed

definition task_ex :: "u64 \<Rightarrow> mt_task" where
  "task_ex a = \<lparr>t_proc = a, t_user_ctx = \<lparr>uc_regs = zero_regs, uc_cr3 = 0, uc_saved = False\<rparr>, t_kstack = 0, t_valid = True\<rparr>"

definition mt_ex :: mt where
  "mt_ex = \<lparr>mt_tasks = [task_ex 8, task_ex 16], mt_task_count = 2, mt_current_idx = 0, mt_initialized = True,
     mt_sched = None, mt_has_ulime = True,
     mt_ulime = upd_proc 8 (\<lambda>r. r\<lparr>p_state := PROC_RUNNING\<rparr>) (upd_proc 16 (\<lambda>r. r\<lparr>p_state := PROC_READY\<rparr>) ul_ex),
     hw_cr3 = 0, hw_rsp0 = 0\<rparr>"

lemma mt_ex_ok: "mt_ok mt_ex" "one_running mt_ex" "pickable mt_ex 0" "pickable mt_ex 1"
  by (auto simp: mt_ok_def one_running_def pickable_def has_proc_def task_state_def mt_ex_def task_ex_def
      upd_proc_def proc_state_defs inj_on_def less_2_cases_iff)

primrec pick_seq :: "nat \<Rightarrow> int" where
  "pick_seq 0 = -1"
| "pick_seq (Suc k) = scheduler_pick_next (Some mt_ex) (pick_seq k)"

theorem scheduler_bounded_wait_witness: "\<exists>k. 0 < k \<and> k \<le> 2 \<and> pick_seq k = 1"
  using scheduler_bounded_wait [of "\<lambda>_. mt_ex" 2 1 pick_seq] mt_ex_ok by (simp add: mt_ex_def)

text \<open>
  A preemption keeps the task table well-formed and at most one task,
  the current one, marked running.
\<close>

lemma preempt_keeps_one_running:
  assumes "mt_ok m" "one_running m" "mt_preempt m st = (m', st')"
  shows "mt_ok m' \<and> one_running m'"
  using preempt_ok [OF assms(1,3)] assms(2) by simp

definition st_user :: "u64 \<Rightarrow> cpu_state" where
  "st_user x = \<lparr>st_regs = zero_regs\<lparr>cs := 0x23, rip := x, rax := x\<rparr>, int_no = 32, err_code = 0\<rparr>"

lemma preempt_keeps_one_running_witness:
  "mt_ok (fst (mt_preempt mt_ex (st_user 5))) \<and> one_running (fst (mt_preempt mt_ex (st_user 5)))"
  using preempt_keeps_one_running [OF mt_ex_ok(1,2), of "st_user 5"] by (cases "mt_preempt mt_ex (st_user 5)") simp

text \<open>Timer interrupts one after the other, each with the registers of what it interrupts.\<close>

primrec preempts :: "mt \<Rightarrow> cpu_state list \<Rightarrow> mt" where
  "preempts m [] = m"
| "preempts m (st # sts) = preempts (fst (mt_preempt m st)) sts"

text \<open>A switch loads the registers that are kept for the task it switches to, and leaves what is kept for the others.\<close>

lemma preempt_loads:
  assumes ok: "mt_ok m" and pre: "mt_preempt m st = (m', st')" and cur: "mt_current_idx m' = int i" "mt_current_idx m \<noteq> int i"
  shows "st' = load_task (mt_tasks m ! i) (procs (mt_ulime m) (t_proc (mt_tasks m ! i))) st"
proof (cases "0 \<le> mt_current_idx m")
  case True
  then show ?thesis using preempt_away(2) [OF ok pre True] cur by simp
next
  case False
  then have c: "mt_current_idx m = -1" using ok by (auto simp: mt_ok_def)
  then obtain x j where j: "switch_to (-1) j st (m\<lparr>mt_sched := x\<rparr>) = (m', st')" "j < mt_task_count m"
    by (cases rule: preempt_cases [OF ok pre]) (use cur in auto)
  moreover from j(1) have "mt_current_idx m' = int j" by (auto simp: switch_to_def Let_def set_state_def)
  ultimately show ?thesis using switch_from_idle(3) [of "m\<lparr>mt_sched := x\<rparr>" j st m' st'] ok cur(1) by simp
qed

lemma preempt_keeps_other:
  assumes ok: "mt_ok m" and pre: "mt_preempt m st = (m', st')" and cur: "mt_current_idx m \<noteq> int i"
  shows "mt_tasks m' ! i = mt_tasks m ! i"
proof (cases rule: preempt_cases [OF ok pre])
  case (3 x j)
  show ?thesis
  proof (cases "0 \<le> mt_current_idx m")
    case True
    then have o: "nat (mt_current_idx m) < mt_task_count m" using ok by (auto simp: mt_ok_def)
    then have len: "nat (mt_current_idx m) < length (mt_tasks m)" using ok by (auto simp: mt_ok_def)
    have ok': "mt_ok (m\<lparr>mt_sched := x\<rparr>)" using ok by simp
    have "mt_tasks m' = mt_tasks (save_task (nat (mt_current_idx m)) st (m\<lparr>mt_sched := x\<rparr>))"
      using switch_to_spec(1) [OF ok' True _ _ _ 3(1)] o 3(2,3) by simp
    then show ?thesis using len cur True by (auto simp: save_task_nth)
  next
    case False
    then have "mt_current_idx m = -1" using ok by (auto simp: mt_ok_def)
    then show ?thesis using switch_from_idle(4) [of "m\<lparr>mt_sched := x\<rparr>" j st m' st'] 3 ok by simp
  qed
qed simp_all

lemma preempts_keep_other:
  assumes "mt_ok m" "\<forall>k < length sts. mt_current_idx (preempts m (take k sts)) \<noteq> int i"
  shows "mt_ok (preempts m sts) \<and> mt_tasks (preempts m sts) ! i = mt_tasks m ! i"
  using assms
proof (induction sts arbitrary: m)
  case (Cons st sts)
  obtain m' st' where p: "mt_preempt m st = (m', st')" by (cases "mt_preempt m st")
  have "mt_current_idx m \<noteq> int i" using Cons.prems(2) [rule_format, of 0] by simp
  then have k: "mt_ok m'" "mt_tasks m' ! i = mt_tasks m ! i" using preempt_ok(1) preempt_keeps_other Cons.prems(1) p by blast+
  have "\<forall>k < length sts. mt_current_idx (preempts m' (take k sts)) \<noteq> int i"
  proof (intro allI impI)
    fix k assume "k < length sts"
    then show "mt_current_idx (preempts m' (take k sts)) \<noteq> int i" using Cons.prems(2) [rule_format, of "Suc k"] p by simp
  qed
  from Cons.IH [OF k(1) this] show ?case using p k(2) by simp
qed simp

text \<open>
  C8. A task that a timer interrupt takes off the processor, in favour of another task, finds all twenty user
  registers as it left them when a timer interrupt switches back to it, however many switches between other tasks there
  were and whatever these tasks did to the registers. (A task that comes back through the end of a process it waited for
  is the subject of \<open>exit_wakes_waiter\<close>.)
\<close>

theorem preempt_roundtrip:
  assumes "mt_ok m" "mt_preempt m st = (m1, st1)" "mt_current_idx m = int i" "mt_current_idx m1 = int j" "i \<noteq> j"
    and "\<forall>k \<le> length sts. mt_current_idx (preempts m1 (take k sts)) \<noteq> int i"
    and "mt_preempt (preempts m1 sts) st2 = (m2, st3)" "mt_current_idx m2 = int i"
  shows "st_regs st3 = st_regs st"
proof -
  have ok1: "mt_ok m1" using preempt_ok(1) [OF assms(1,2)] .
  have saved: "t_user_ctx (mt_tasks m1 ! i) = \<lparr>uc_regs = st_regs st,
      uc_cr3 = p_pml4_phys (procs (mt_ulime m) (t_proc (mt_tasks m ! i))), uc_saved = True\<rparr>"
    using preempt_away(1) [OF assms(1,2)] assms(3-5) by simp
  have "\<forall>k < length sts. mt_current_idx (preempts m1 (take k sts)) \<noteq> int i" using assms(6) by simp
  note kept = preempts_keep_other [OF ok1 this]
  have "mt_current_idx (preempts m1 sts) \<noteq> int i" using assms(6) [rule_format, of "length sts"] by simp
  from preempt_loads [OF _ assms(7,8) this] kept saved show ?thesis by (simp add: load_task_def)
qed

lemma rr_scan_numeral:
  "rr_scan ok cnt start i (numeral n) = (if ok i then Some i
     else let i' = (i + 1) mod cnt in if i' = start then None else rr_scan ok cnt start i' (pred_numeral n))"
  by (simp add: numeral_eq_Suc)

lemma preempt_plain:
  assumes "mt_initialized m" "mt_task_count m = 2" "mt_sched m = None" "mt_find_next m (mt_current_idx m) = int n"
    "int n \<noteq> mt_current_idx m"
  shows "mt_preempt m (st_user x) = switch_to (mt_current_idx m) n (st_user x) m"
proof -
  have e: "m\<lparr>mt_sched := None\<rparr> = m" using assms(3) by (cases m) simp
  show ?thesis using assms by (simp add: mt_preempt_def Let_def st_user_def e)
qed

lemma mt_ex_there: "mt_preempt mt_ex (st_user x) = switch_to 0 1 (st_user x) mt_ex"
proof -
  have "mt_find_next mt_ex (mt_current_idx mt_ex) = int 1"
    using mt_ex_ok(4) by (simp add: mt_find_next_def rr_scan_numeral mt_ex_def startable_def pickable_def has_proc_def
        task_state_def task_ex_def upd_proc_def proc_state_defs)
  from preempt_plain [OF _ _ _ this] show ?thesis by (simp add: mt_ex_def)
qed

lemma mt_ex_back:
  "mt_current_idx (fst (mt_preempt mt_ex (st_user x))) = 1"
  "mt_current_idx (fst (mt_preempt (fst (mt_preempt mt_ex (st_user x))) (st_user y))) = 0"
proof -
  obtain m1 st1 where m1: "switch_to 0 1 (st_user x) mt_ex = (m1, st1)" by fastforce
  have c: "0 \<le> (0 :: int)" "nat 0 < mt_task_count mt_ex" "1 < mt_task_count mt_ex" "int 1 \<noteq> 0" by (simp_all add: mt_ex_def)
  note sp = switch_to_spec [OF mt_ex_ok(1) c m1]
  have cur: "mt_current_idx m1 = 1" "mt_initialized m1" "mt_task_count m1 = 2" "mt_sched m1 = None"
    using sp(2-4,9) by (simp_all add: mt_ex_def)
  have "startable m1 0"
    using sp(1,7) by (simp add: startable_def has_proc_def task_state_def save_task_nth mt_ex_def task_ex_def
        upd_proc_def proc_state_defs Let_def)
  then have "mt_find_next m1 (mt_current_idx m1) = int 0"
    using cur by (simp add: mt_find_next_def rr_scan_numeral)
  from preempt_plain [OF cur(2,3,4) this, of y] cur(1)
  have p: "mt_preempt m1 (st_user y) = switch_to 1 0 (st_user y) m1" by simp
  obtain m2 st2 where m2: "switch_to 1 0 (st_user y) m1 = (m2, st2)" by fastforce
  have ok1: "mt_ok m1" using preempt_ok(1) [OF mt_ex_ok(1), of "st_user x"] m1 by (simp add: mt_ex_there)
  have "mt_current_idx m2 = 0" using switch_to_spec(2) [OF ok1 _ _ _ _ m2] cur by simp
  then show "mt_current_idx (fst (mt_preempt mt_ex (st_user x))) = 1"
    "mt_current_idx (fst (mt_preempt (fst (mt_preempt mt_ex (st_user x))) (st_user y))) = 0"
    using m1 m2 p cur by (simp_all add: mt_ex_there)
qed

theorem preempt_roundtrip_witness:
  "st_regs (snd (mt_preempt (fst (mt_preempt mt_ex (st_user 5))) (st_user 9))) = st_regs (st_user 5)"
proof -
  have c: "mt_current_idx mt_ex = int 0" by (simp add: mt_ex_def)
  show ?thesis
    by (rule preempt_roundtrip [OF mt_ex_ok(1) surjective_pairing c, where j = 1 and sts = "[]" and ?st2.0 = "st_user 9"
        and ?m2.0 = "fst (mt_preempt (fst (mt_preempt mt_ex (st_user 5))) (st_user 9))"])
       (simp_all add: mt_ex_back)
qed

end
