(* ===== verification/Queue.thy ===== *)
theory Queue
  imports Prelude
begin

text \<open>
  The interface of the bounded queues of the kernel (message ports, terminal input): what a client
  may expect of \<open>put\<close> and \<open>get\<close>, and what follows for any sequence of calls.
\<close>

datatype 'a queue_op = Enq 'a | Deq

text \<open>The elements a full queue accepts, and the effect of the calls on the list of the elements.\<close>

fun list_run :: "nat \<Rightarrow> 'a queue_op list \<Rightarrow> 'a list \<Rightarrow> 'a list \<times> 'a list" where
  "list_run cap [] xs = ([], xs)"
| "list_run cap (Enq x # ops) xs = list_run cap ops (if length xs < cap then xs @ [x] else xs)"
| "list_run cap (Deq # ops) xs =
    (case xs of [] \<Rightarrow> list_run cap ops []
     | y # ys \<Rightarrow> let (out, zs) = list_run cap ops ys in (y # out, zs))"

fun accepted :: "nat \<Rightarrow> 'a queue_op list \<Rightarrow> nat \<Rightarrow> 'a list" where
  "accepted cap [] n = []"
| "accepted cap (Enq x # ops) n = (if n < cap then x # accepted cap ops (n + 1) else accepted cap ops n)"
| "accepted cap (Deq # ops) n = accepted cap ops (n - 1)"

lemma list_run_fifo:
  "fst (list_run cap ops xs) @ snd (list_run cap ops xs) = xs @ accepted cap ops (length xs)"
proof (induction cap ops xs rule: list_run.induct)
  case (3 cap ops xs)
  then show ?case by (cases xs) (auto simp: Let_def split: prod.splits)
qed auto

locale bounded_queue =
  fixes put :: "'q \<Rightarrow> 'a \<Rightarrow> 'q"
    and front :: "'q \<Rightarrow> 'a"
    and drop_front :: "'q \<Rightarrow> 'q"
    and len :: "'q \<Rightarrow> nat"
    and cap :: nat
    and ok :: "'q \<Rightarrow> bool"
    and items :: "'q \<Rightarrow> 'a list"
  assumes len_items: "ok q \<Longrightarrow> len q = length (items q)"
    and put_ok: "ok q \<Longrightarrow> len q < cap \<Longrightarrow> ok (put q x)"
    and put_items: "ok q \<Longrightarrow> len q < cap \<Longrightarrow> items (put q x) = items q @ [x]"
    and front_items: "ok q \<Longrightarrow> 0 < len q \<Longrightarrow> front q = hd (items q)"
    and drop_ok: "ok q \<Longrightarrow> 0 < len q \<Longrightarrow> ok (drop_front q)"
    and drop_items: "ok q \<Longrightarrow> 0 < len q \<Longrightarrow> items (drop_front q) = tl (items q)"
begin

fun run :: "'a queue_op list \<Rightarrow> 'q \<Rightarrow> 'a list \<times> 'q" where
  "run [] q = ([], q)"
| "run (Enq x # ops) q = run ops (if len q < cap then put q x else q)"
| "run (Deq # ops) q =
    (if len q = 0 then run ops q else let (out, r) = run ops (drop_front q) in (front q # out, r))"

lemma run_list:
  "ok q \<Longrightarrow> ok (snd (run ops q)) \<and> fst (run ops q) = fst (list_run cap ops (items q))
     \<and> items (snd (run ops q)) = snd (list_run cap ops (items q))"
proof (induction ops arbitrary: q)
  case (Cons p ops)
  show ?case
  proof (cases p)
    case (Enq x)
    then show ?thesis using Cons put_ok put_items len_items by auto
  next
    case Deq
    show ?thesis
    proof (cases "len q = 0")
      case True
      then show ?thesis using Cons Deq len_items [OF Cons.prems] by auto
    next
      case False
      then obtain y ys where y: "items q = y # ys" using len_items [OF Cons.prems] by (cases "items q") auto
      have "ok (drop_front q)" "items (drop_front q) = ys" "front q = y"
        using Cons.prems False drop_ok drop_items front_items y by auto
      then show ?thesis using Cons.IH [of "drop_front q"] Deq False y by (auto simp: Let_def split: prod.splits)
    qed
  qed
qed simp

text \<open>Elements come out in the order in which they were accepted, none lost, none twice.\<close>

lemma fifo:
  "ok q \<Longrightarrow> fst (run ops q) @ items (snd (run ops q)) = items q @ accepted cap ops (len q)"
  using run_list list_run_fifo len_items by simp

text \<open>Several elements at once: as many as there is room for, as many as there are.\<close>

fun put_list :: "'a list \<Rightarrow> 'q \<Rightarrow> nat \<times> 'q" where
  "put_list [] q = (0, q)"
| "put_list (x # xs) q = (if len q < cap then let (w, r) = put_list xs (put q x) in (w + 1, r) else (0, q))"

fun get_list :: "nat \<Rightarrow> 'q \<Rightarrow> 'a list \<times> 'q" where
  "get_list 0 q = ([], q)"
| "get_list (Suc n) q = (if len q > 0 then let (xs, r) = get_list n (drop_front q) in (front q # xs, r) else ([], q))"

lemma put_list_spec:
  "ok q \<Longrightarrow> fst (put_list xs q) = min (length xs) (cap - len q) \<and> ok (snd (put_list xs q))
     \<and> items (snd (put_list xs q)) = items q @ take (cap - len q) xs"
proof (induction xs arbitrary: q)
  case (Cons x xs)
  show ?case
  proof (cases "len q < cap")
    case True
    have "len (put q x) = len q + 1"
      using len_items [OF put_ok [OF Cons.prems True, of x]] len_items [OF Cons.prems] put_items [OF Cons.prems True, of x] by simp
    moreover have "cap - len q = Suc (cap - (len q + 1))" using True by simp
    ultimately show ?thesis
      using True Cons.IH [OF put_ok [OF Cons.prems True, of x]] put_items [OF Cons.prems True, of x]
      by (simp add: split_beta)
  next
    case False
    then show ?thesis using Cons.prems by simp
  qed
qed simp

lemma get_list_spec:
  "ok q \<Longrightarrow> fst (get_list n q) = take n (items q) \<and> ok (snd (get_list n q)) \<and> items (snd (get_list n q)) = drop n (items q)"
proof (induction n arbitrary: q)
  case (Suc n)
  show ?case
  proof (cases "0 < len q")
    case True
    obtain y ys where y: "items q = y # ys" using len_items [OF Suc.prems] True by (cases "items q") auto
    then show ?thesis
      using True Suc.IH [OF drop_ok [OF Suc.prems True]] drop_items [OF Suc.prems True] front_items [OF Suc.prems True]
      by (simp add: split_beta)
  next
    case False
    then show ?thesis using Suc.prems len_items [OF Suc.prems] by simp
  qed
qed simp

end

end
