(* ===== verification/Ipc.thy ===== *)
theory Ipc
  imports Ulime MemLib Queue
begin

text \<open>
  Message ports between processes: \<^verbatim>\<open>emex/kernel/ipc/messages.c\<close>. A port is a block of the
  kernel heap that the table \<open>endpoints\<close> points to by process number; it holds the pointers to the
  queued messages, each a heap block of its own whose 512 bytes of data start 20 bytes into it.
  \<open>ports\<close> and \<open>msgs\<close> are the objects that live in the heap: looking up an address that holds none
  is undefined (\<open>None\<close>), as is a use after free in the code. \<open>count\<close> and \<open>waiter_count\<close> never
  become negative and are natural numbers; the field \<open>used\<close> of a message is never read and left out.
\<close>

section \<open>State\<close>

definition IPC_MAX_MESSAGES :: nat where "IPC_MAX_MESSAGES = 256"
definition IPC_MAX_MSG_SIZE :: u32 where "IPC_MAX_MSG_SIZE = 512"
definition IPC_MAX_PROCS :: u64 where "IPC_MAX_PROCS = 32"
definition IPC_MAX_WAITERS :: nat where "IPC_MAX_WAITERS = 16"

lemmas ipc_consts = IPC_MAX_MESSAGES_def IPC_MAX_MSG_SIZE_def IPC_MAX_PROCS_def IPC_MAX_WAITERS_def

record ipc_msg =
  m_sender_id :: u64
  m_receiver_id :: u64
  m_size :: u32

record ipc_port =
  ip_open :: bool
  ip_count :: nat
  ip_messages :: "u64 list"
  ip_waiters :: "u64 list"
  ip_waiter_count :: nat

record ipc =
  endpoints :: "u64 list"
  ports :: "u64 \<rightharpoonup> ipc_port"
  msgs :: "u64 \<rightharpoonup> ipc_msg"
  ip_ul :: ulime
  ip_kl :: "klime option"
  ip_km :: kmem

text \<open>\<^verbatim>\<open>sizeof(ipc_msg_t)\<close>, \<^verbatim>\<open>sizeof(ipc_port_t)\<close> and the offset of \<open>data\<close> in a message.\<close>

definition SIZEOF_MSG :: u64 where "SIZEOF_MSG = 536"
definition SIZEOF_PORT :: u64 where "SIZEOF_PORT = 2192"
definition MSG_DATA :: u64 where "MSG_DATA = 20"

definition ipc_messages_init :: "ipc \<Rightarrow> ipc" where
  "ipc_messages_init s = s\<lparr>endpoints := replicate (unat IPC_MAX_PROCS) 0\<rparr>"

definition get_ep :: "ipc \<Rightarrow> u64 \<Rightarrow> u64" where
  "get_ep s pid = (if IPC_MAX_PROCS \<le> pid then 0 else endpoints s ! unat pid)"

definition find_proc :: "ulime \<Rightarrow> u64 \<Rightarrow> u64" where
  "find_proc u pid = find_pid (procs u) (ptr_proc_list u) pid"

definition wake :: "u64 \<Rightarrow> ulime \<Rightarrow> ulime" where
  "wake a u = (if a \<noteq> 0 \<and> p_state (procs u a) = PROC_BLOCKED
     then upd_proc a (\<lambda>r. r\<lparr>p_state := PROC_READY\<rparr>) u else u)"

definition block :: "u64 \<Rightarrow> ulime \<Rightarrow> ulime" where
  "block a u = upd_proc a (\<lambda>r. r\<lparr>p_state := PROC_BLOCKED\<rparr>) u"

section \<open>The array of a port\<close>

definition port_put :: "ipc_port \<Rightarrow> u64 \<Rightarrow> ipc_port" where
  "port_put p a = p\<lparr>ip_messages := (ip_messages p)[ip_count p := a], ip_count := ip_count p + 1\<rparr>"

definition port_front :: "ipc_port \<Rightarrow> u64" where
  "port_front p = ip_messages p ! 0"

definition port_drop :: "ipc_port \<Rightarrow> ipc_port" where
  "port_drop p =
    (let c = ip_count p - 1;
         ms = fold (\<lambda>i ms. ms[i := ms ! (i + 1)]) [0..<c] (ip_messages p)
     in p\<lparr>ip_count := c, ip_messages := ms[c := 0]\<rparr>)"

section \<open>Ports\<close>

definition new_port :: ipc_port where
  "new_port = \<lparr>ip_open = True, ip_count = 0, ip_messages = replicate IPC_MAX_MESSAGES 0,
     ip_waiters = replicate IPC_MAX_WAITERS 0, ip_waiter_count = 0\<rparr>"

definition set_port :: "u64 \<Rightarrow> ipc_port \<Rightarrow> ipc \<Rightarrow> ipc" where
  "set_port ep p s = s\<lparr>ports := (ports s)(ep \<mapsto> p)\<rparr>"

definition open_inbox :: "ipc \<Rightarrow> u64 \<Rightarrow> ipc option" where
  "open_inbox s proc =
    (let pid = p_pid (procs (ip_ul s) proc)
     in if IPC_MAX_PROCS \<le> pid then Some s
        else let ep = endpoints s ! unat pid
        in if ep \<noteq> 0 then
             (case ports s ep of None \<Rightarrow> None | Some p \<Rightarrow> Some (set_port ep (p\<lparr>ip_open := True\<rparr>) s))
           else (case klime_create (ip_kl s) SIZEOF_PORT (ip_km s) of None \<Rightarrow> None
             | Some (a, kl, km) \<Rightarrow>
               let s1 = s\<lparr>ip_kl := kl, ip_km := km\<rparr>
               in if a = 0 then Some s1
                  else Some ((set_port a new_port s1)\<lparr>endpoints := (endpoints s)[unat pid := a]\<rparr>)))"

definition close_inbox :: "ipc \<Rightarrow> u64 \<Rightarrow> ipc option" where
  "close_inbox s proc =
    (let ep = get_ep s (p_pid (procs (ip_ul s) proc))
     in if ep = 0 then Some s
        else case ports s ep of None \<Rightarrow> None | Some p \<Rightarrow> Some (set_port ep (p\<lparr>ip_open := False\<rparr>) s))"

text \<open>\<open>wake_waiters\<close> on the port \<open>p\<close>: what happens to the processes; the port forgets its waiters.\<close>

definition wake_waiters :: "ipc_port \<Rightarrow> ulime \<Rightarrow> ulime" where
  "wake_waiters p u = fold (\<lambda>i. wake (ip_waiters p ! i)) [0..<ip_waiter_count p] u"

fun free_messages :: "u64 list \<Rightarrow> ipc \<Rightarrow> ipc option" where
  "free_messages [] s = Some s"
| "free_messages (a # as) s =
    (if a = 0 then free_messages as s
     else case klime_free (ip_kl s) a (ip_km s) of None \<Rightarrow> None
        | Some (kl, km) \<Rightarrow> free_messages as (s\<lparr>ip_kl := kl, ip_km := km, msgs := (msgs s)(a := None)\<rparr>))"

definition destroy_endpoint :: "ipc \<Rightarrow> u64 \<Rightarrow> ipc option" where
  "destroy_endpoint s proc =
    (let pid = p_pid (procs (ip_ul s) proc); ep = get_ep s pid
     in if ep = 0 then Some s
        else case close_inbox s proc of None \<Rightarrow> None | Some s1 \<Rightarrow>
          (case ports s1 ep of None \<Rightarrow> None | Some p \<Rightarrow>
          (case free_messages (take (ip_count p) (ip_messages p)) s1 of None \<Rightarrow> None | Some s2 \<Rightarrow>
           let s3 = s2\<lparr>ip_ul := wake_waiters p (ip_ul s2)\<rparr>
           in case klime_free (ip_kl s3) ep (ip_km s3) of None \<Rightarrow> None
              | Some (kl, km) \<Rightarrow> Some (s3\<lparr>ip_kl := kl, ip_km := km, ports := (ports s3)(ep := None),
                   endpoints := (endpoints s3)[unat pid := 0]\<rparr>))))"

section \<open>Sending\<close>

text \<open>
  \<open>SendDone r\<close>: the call returns \<open>r\<close>. \<open>SendBlocked ep\<close>: the sender waits in the inner loop of
  \<open>send_msg\<close>, with the port pointer \<open>ep\<close> it read before; once another process makes it ready the
  outer loop goes round again, which is \<open>send_loop\<close> on the state of that moment.
\<close>

datatype send_result = SendDone int | SendBlocked u64

definition post_msg :: "ipc \<Rightarrow> u64 \<Rightarrow> u64 \<Rightarrow> u64 \<Rightarrow> u32 \<Rightarrow> u64 \<Rightarrow> ipc_port \<Rightarrow> (send_result \<times> ipc) option" where
  "post_msg s sender receiver data sz ep p =
    (case klime_create (ip_kl s) SIZEOF_MSG (ip_km s) of None \<Rightarrow> None
     | Some (a, kl, km) \<Rightarrow>
       if a = 0 then Some (SendDone (-1), s\<lparr>ip_kl := kl, ip_km := km\<rparr>)
       else let m = \<lparr>m_sender_id = p_pid (procs (ip_ul s) sender), m_receiver_id = receiver, m_size = sz\<rparr>;
                km' = km\<lparr>km_bytes := memcpy (km_bytes km) (a + MSG_DATA) data (ucast sz)\<rparr>;
                s1 = set_port ep (port_put p a) (s\<lparr>ip_kl := kl, ip_km := km', msgs := (msgs s)(a \<mapsto> m)\<rparr>)
            in Some (SendDone 0, s1\<lparr>ip_ul := wake (find_proc (ip_ul s) receiver) (ip_ul s)\<rparr>))"

definition send_loop :: "ipc \<Rightarrow> u64 \<Rightarrow> u64 \<Rightarrow> u64 \<Rightarrow> u32 \<Rightarrow> u64 \<Rightarrow> (send_result \<times> ipc) option" where
  "send_loop s sender receiver data sz ep =
    (case ports s ep of None \<Rightarrow> None
     | Some p \<Rightarrow>
       if IPC_MAX_MESSAGES \<le> ip_count p then
         let p1 = (if ip_waiter_count p < IPC_MAX_WAITERS
                   then p\<lparr>ip_waiters := (ip_waiters p)[ip_waiter_count p := sender],
                          ip_waiter_count := ip_waiter_count p + 1\<rparr> else p)
         in Some (SendBlocked ep, (set_port ep p1 s)\<lparr>ip_ul := block sender (ip_ul s)\<rparr>)
       else post_msg s sender receiver data sz ep p)"

definition send_msg :: "ipc \<Rightarrow> u64 \<Rightarrow> u64 \<Rightarrow> u64 \<Rightarrow> u32 \<Rightarrow> (send_result \<times> ipc) option" where
  "send_msg s sender receiver data sz =
    (if data = 0 \<or> sz = 0 \<or> IPC_MAX_MSG_SIZE < sz then Some (SendDone (-1), s)
     else let ep = get_ep s receiver
          in if ep = 0 then Some (SendDone (-1), s)
             else case ports s ep of None \<Rightarrow> None
                | Some p \<Rightarrow> if \<not> ip_open p then Some (SendDone (-1), s)
                            else send_loop s sender receiver data sz ep)"

section \<open>Receiving\<close>

definition receive_async_msg :: "ipc \<Rightarrow> u64 \<Rightarrow> u64 \<Rightarrow> u32 \<Rightarrow> u64 \<Rightarrow> (int \<times> ipc) option" where
  "receive_async_msg s proc buf buf_size out_sender =
    (let ep = get_ep s (p_pid (procs (ip_ul s) proc))
     in if ep = 0 then Some (-1, s)
        else case ports s ep of None \<Rightarrow> None
        | Some p \<Rightarrow>
          if ip_count p = 0 then Some (-1, s)
          else let a = port_front p in
          (case msgs s a of None \<Rightarrow> None
           | Some m \<Rightarrow>
             let copy_size = (if m_size m < buf_size then m_size m else buf_size);
                 b1 = memcpy (km_bytes (ip_km s)) buf (a + MSG_DATA) (ucast copy_size);
                 b2 = (if out_sender \<noteq> 0 then store64 b1 out_sender (m_sender_id m) else b1);
                 p1 = port_drop p
             in case klime_free (ip_kl s) a ((ip_km s)\<lparr>km_bytes := b2\<rparr>) of None \<Rightarrow> None
                | Some (kl, km) \<Rightarrow>
                  let s1 = (set_port ep p1 s)\<lparr>ip_kl := kl, ip_km := km, msgs := (msgs s)(a := None)\<rparr>
                  in Some (uint copy_size,
                       if 0 < ip_waiter_count p1
                       then (set_port ep (p1\<lparr>ip_waiter_count := 0\<rparr>) s1)\<lparr>ip_ul := wake_waiters p1 (ip_ul s1)\<rparr>
                       else s1)))"

text \<open>
  One round of the loop of \<open>receive_msg\<close>: \<open>True\<close> when it returns, \<open>False\<close> when the process waits,
  to go round again once it is ready.
\<close>

definition receive_msg :: "ipc \<Rightarrow> u64 \<Rightarrow> u64 \<Rightarrow> u32 \<Rightarrow> u64 \<Rightarrow> (bool \<times> ipc) option" where
  "receive_msg s proc buf buf_size out_sender =
    (case receive_async_msg s proc buf buf_size out_sender of None \<Rightarrow> None
     | Some (r, s1) \<Rightarrow> if r < 0 then Some (False, s1\<lparr>ip_ul := block proc (ip_ul s1)\<rparr>) else Some (True, s1))"

section \<open>The array of a port as a queue\<close>

definition port_items :: "ipc_port \<Rightarrow> u64 list" where
  "port_items p = take (ip_count p) (ip_messages p)"

definition port_ok :: "ipc_port \<Rightarrow> bool" where
  "port_ok p \<longleftrightarrow> length (ip_messages p) = IPC_MAX_MESSAGES \<and> ip_count p \<le> IPC_MAX_MESSAGES
     \<and> length (ip_waiters p) = IPC_MAX_WAITERS \<and> ip_waiter_count p \<le> IPC_MAX_WAITERS"

lemma shift_down:
  "c < length ms \<Longrightarrow> length (fold (\<lambda>i ms. ms[i := ms ! (i + 1)]) [0..<c] ms) = length ms
     \<and> (\<forall>j<length ms. fold (\<lambda>i ms. ms[i := ms ! (i + 1)]) [0..<c] ms ! j = (if j < c then ms ! (j + 1) else ms ! j))"
proof (induction c)
  case (Suc c)
  then show ?case by (auto simp: nth_list_update less_Suc_eq)
qed simp

lemma port_drop_items:
  assumes "port_ok p" "0 < ip_count p"
  shows "port_items (port_drop p) = tl (port_items p)" "port_ok (port_drop p)"
proof -
  let ?c = "ip_count p - 1"
  define ms where "ms = fold (\<lambda>i ms. ms[i := ms ! (i + 1)]) [0..<?c] (ip_messages p)"
  have c: "?c < length (ip_messages p)" using assms by (auto simp: port_ok_def)
  from shift_down [OF c] have ms: "length ms = length (ip_messages p)"
    "\<And>j. j < ?c \<Longrightarrow> ms ! j = ip_messages p ! (j + 1)" using c unfolding ms_def by auto
  have d: "port_drop p = p\<lparr>ip_count := ?c, ip_messages := ms[?c := 0]\<rparr>" by (simp add: port_drop_def ms_def Let_def)
  have "take ?c ms = tl (take (ip_count p) (ip_messages p))"
    using ms c assms by (intro nth_equalityI) (auto simp: nth_tl)
  then show "port_items (port_drop p) = tl (port_items p)" by (simp add: d port_items_def)
  show "port_ok (port_drop p)" using assms ms(1) by (auto simp: d port_ok_def)
qed

lemma port_put_items:
  assumes "port_ok p" "ip_count p < IPC_MAX_MESSAGES"
  shows "port_items (port_put p a) = port_items p @ [a]" "port_ok (port_put p a)"
  using assms by (auto simp: port_put_def port_items_def port_ok_def take_Suc_conv_app_nth)

interpretation mq: bounded_queue port_put port_front port_drop ip_count IPC_MAX_MESSAGES port_ok port_items
proof
  show "port_front p = hd (port_items p)" if "port_ok p" "0 < ip_count p" for p
    using that by (cases "ip_messages p") (auto simp: port_front_def port_items_def port_ok_def take_Cons')
qed (auto simp: port_put_items port_drop_items min_def, auto simp: port_ok_def port_items_def)

lemma new_port_ok: "port_ok new_port" "port_items new_port = []"
  by (simp_all add: new_port_def port_ok_def port_items_def)

section \<open>What a well-formed state is\<close>

definition inbox :: "ipc \<Rightarrow> nat \<Rightarrow> u64 list" where
  "inbox s i = (case ports s (endpoints s ! i) of None \<Rightarrow> [] | Some p \<Rightarrow> port_items p)"

definition addressed :: "ipc \<Rightarrow> nat \<Rightarrow> u64 set" where
  "addressed s i = {a. \<exists>m. msgs s a = Some m \<and> m_receiver_id m = word_of_nat i}"

text \<open>
  Every endpoint is the port of one process, and the queue of that port holds the messages
  addressed to it, each once.
\<close>

definition ipc_ok :: "ipc \<Rightarrow> bool" where
  "ipc_ok s \<longleftrightarrow> length (endpoints s) = 32
     \<and> (\<forall>i<32. \<forall>j<32. endpoints s ! i = endpoints s ! j \<longrightarrow> endpoints s ! i \<noteq> 0 \<longrightarrow> i = j)
     \<and> dom (ports s) = set (endpoints s) - {0} \<and> (\<forall>p\<in>ran (ports s). port_ok p)
     \<and> (\<forall>i<32. distinct (inbox s i) \<and> set (inbox s i) = addressed s i)
     \<and> (\<forall>m\<in>ran (msgs s). m_receiver_id m < 32)"

text \<open>The pointers that are live in the heap are those of \<open>base\<close>, the ports and the messages.\<close>

definition ipc_inv :: "nat \<Rightarrow> nat \<Rightarrow> u64 set \<Rightarrow> ipc \<Rightarrow> bool" where
  "ipc_inv lo hi base s \<longleftrightarrow> ipc_ok s \<and> dom (ports s) \<inter> dom (msgs s) = {}
     \<and> base \<inter> (dom (ports s) \<union> dom (msgs s)) = {}
     \<and> (\<exists>k. ip_kl s = Some k \<and> klime_inv lo hi (k, ip_km s, base \<union> dom (ports s) \<union> dom (msgs s)))"

lemma ipc_invI:
  assumes "ipc_ok s" "dom (ports s) \<inter> dom (msgs s) = {}" "base \<inter> (dom (ports s) \<union> dom (msgs s)) = {}"
    and "ip_kl s = Some k" "klime_inv lo hi (k, ip_km s, base \<union> dom (ports s) \<union> dom (msgs s))"
  shows "ipc_inv lo hi base s"
  using assms by (simp add: ipc_inv_def)

lemma ipc_inv_sets:
  assumes "ipc_inv lo hi base s"
  shows "ipc_ok s" "dom (ports s) \<inter> dom (msgs s) = {}" "base \<inter> (dom (ports s) \<union> dom (msgs s)) = {}"
  using assms by (simp_all add: ipc_inv_def)

lemma disjoint_shrink:
  assumes "P \<inter> M = {}" "B \<inter> (P \<union> M) = {}"
  shows "P \<inter> (M - N) = {}" "B \<inter> (P \<union> (M - N)) = {}"
  using assms by blast+

lemma set_port_simps [simp]:
  "endpoints (set_port ep p s) = endpoints s" "ports (set_port ep p s) = (ports s)(ep \<mapsto> p)"
  "msgs (set_port ep p s) = msgs s" "ip_ul (set_port ep p s) = ip_ul s"
  "ip_kl (set_port ep p s) = ip_kl s" "ip_km (set_port ep p s) = ip_km s"
  by (simp_all add: set_port_def)

lemma mail_frame [simp]:
  "inbox (s\<lparr>ip_kl := kl\<rparr>) i = inbox s i" "inbox (s\<lparr>ip_km := km\<rparr>) i = inbox s i"
  "inbox (s\<lparr>ip_ul := u\<rparr>) i = inbox s i" "inbox (s\<lparr>msgs := ms\<rparr>) i = inbox s i"
  "addressed (s\<lparr>ip_kl := kl\<rparr>) i = addressed s i" "addressed (s\<lparr>ip_km := km\<rparr>) i = addressed s i"
  "addressed (s\<lparr>ip_ul := u\<rparr>) i = addressed s i" "addressed (set_port ep p s) i = addressed s i"
  "ipc_ok (s\<lparr>ip_kl := kl\<rparr>) = ipc_ok s" "ipc_ok (s\<lparr>ip_km := km\<rparr>) = ipc_ok s"
  "ipc_ok (s\<lparr>ip_ul := u\<rparr>) = ipc_ok s" "ipc_inv lo hi base (s\<lparr>ip_ul := u\<rparr>) = ipc_inv lo hi base s"
  by (simp_all add: inbox_def addressed_def ipc_ok_def ipc_inv_def)

lemma ipc_ok_port:
  assumes "ipc_ok s" "i < 32" "endpoints s ! i \<noteq> 0"
  shows "\<exists>p. ports s (endpoints s ! i) = Some p \<and> port_ok p \<and> inbox s i = port_items p
    \<and> distinct (port_items p) \<and> set (port_items p) = addressed s i"
proof -
  have "endpoints s ! i \<in> dom (ports s)" using assms by (auto simp: ipc_ok_def)
  then obtain p where p: "ports s (endpoints s ! i) = Some p" by blast
  then have "inbox s i = port_items p" by (simp add: inbox_def)
  then show ?thesis using assms p by (auto simp: ipc_ok_def intro: ranI)
qed

text \<open>A port whose items and messages change together.\<close>

lemma ipc_ok_update:
  assumes ok: "ipc_ok s" and i: "i < 32" "endpoints s ! i \<noteq> 0"
    and t: "endpoints t = endpoints s" "ports t = (ports s)(endpoints s ! i \<mapsto> p)"
    and p: "port_ok p" "distinct (port_items p)" "set (port_items p) = addressed t i"
    and m: "\<forall>j<32. j \<noteq> i \<longrightarrow> addressed t j = addressed s j" "\<forall>m\<in>ran (msgs t). m_receiver_id m < 32"
  shows "ipc_ok t" "dom (ports t) = dom (ports s)" "\<And>j. j < 32 \<Longrightarrow> inbox t j = (if j = i then port_items p else inbox s j)"
proof -
  have ib: "inbox t j = (if j = i then port_items p else inbox s j)" if "j < 32" for j
  proof (cases "j = i")
    case False
    then have "endpoints s ! j \<noteq> endpoints s ! i" using ok i that unfolding ipc_ok_def by metis
    then show ?thesis using False by (simp add: inbox_def t)
  qed (simp add: inbox_def t)
  have e: "endpoints s ! i \<in> dom (ports s)" using ok i by (auto simp: ipc_ok_def)
  then show d: "dom (ports t) = dom (ports s)" by (auto simp: t(2))
  have "\<forall>q\<in>ran (ports t). port_ok q" using ok p(1) by (auto simp: t(2) ipc_ok_def ran_def)
  then show "ipc_ok t" using ok d p(2,3) m ib unfolding ipc_ok_def t(1) by auto
  show "inbox t j = (if j = i then port_items p else inbox s j)" if "j < 32" for j by (rule ib [OF that])
qed

lemma small_eq: "i < 32 \<Longrightarrow> j < 32 \<Longrightarrow> (word_of_nat i :: u64) = word_of_nat j \<longleftrightarrow> i = j"
proof -
  assume "i < 32" "j < 32"
  then have "unat (word_of_nat i :: u64) = i" "unat (word_of_nat j :: u64) = j" by (auto intro: unat_of_nat64)
  then show ?thesis by metis
qed

lemma addressed_add:
  assumes "msgs s a = None" "msgs t = (msgs s)(a \<mapsto> m)" "m_receiver_id m = word_of_nat i" "i < 32" "j < 32"
  shows "addressed t j = (if j = i then insert a (addressed s j) else addressed s j)"
  using assms small_eq [of i j] by (auto simp: addressed_def)

lemma addressed_remove:
  assumes "msgs t = (msgs s)(a := None)"
  shows "addressed t j = addressed s j - {a}"
  using assms by (auto simp: addressed_def)

lemma addressed_dom: "addressed s i \<subseteq> dom (msgs s)"
  by (auto simp: addressed_def)

lemma addressed_disjoint: "i < 32 \<Longrightarrow> j < 32 \<Longrightarrow> i \<noteq> j \<Longrightarrow> addressed s i \<inter> addressed s j = {}"
  using small_eq [of i j] by (auto simp: addressed_def)

section \<open>What the calls do\<close>

text \<open>The heap part of the invariant after an allocation.\<close>

lemma ipc_alloc:
  assumes "ipc_inv lo hi base s"
  obtains a k' km where "klime_create (ip_kl s) n (ip_km s) = Some (a, Some k', km)"
    "a \<notin> base \<union> dom (ports s) \<union> dom (msgs s)" "km_bytes km = km_bytes (ip_km s)"
    "klime_inv lo hi (k', km, if a = 0 then base \<union> dom (ports s) \<union> dom (msgs s)
        else insert a (base \<union> dom (ports s) \<union> dom (msgs s)))"
proof -
  obtain k where k: "ip_kl s = Some k" "klime_inv lo hi (k, ip_km s, base \<union> dom (ports s) \<union> dom (msgs s))"
    using assms by (auto simp: ipc_inv_def)
  show ?thesis using klime_create_inv [OF k(2), of n] klime_create_bytes k(1) that by metis
qed

lemma post_msg_spec:
  assumes inv: "ipc_inv lo hi base s" and i: "i < 32" "endpoints s ! i \<noteq> 0"
    and p: "ports s (endpoints s ! i) = Some p" "ip_count p < IPC_MAX_MESSAGES"
  shows "\<exists>a s'. a \<notin> base \<union> dom (ports s) \<union> dom (msgs s) \<and> ipc_inv lo hi base s'
    \<and> endpoints s' = endpoints s \<and> post_msg s from_a (word_of_nat i) data sz (endpoints s ! i) p =
         Some (SendDone (if a = 0 then -1 else 0), s')
    \<and> (if a = 0 then (\<forall>j. inbox s' j = inbox s j) \<and> msgs s' = msgs s \<and> ip_ul s' = ip_ul s
         \<and> km_bytes (ip_km s') = km_bytes (ip_km s)
       else (\<forall>j<32. inbox s' j = (if j = i then inbox s i @ [a] else inbox s j))
         \<and> msgs s' = (msgs s)(a \<mapsto> \<lparr>m_sender_id = p_pid (procs (ip_ul s) from_a), m_receiver_id = word_of_nat i, m_size = sz\<rparr>)
         \<and> km_bytes (ip_km s') = memcpy (km_bytes (ip_km s)) (a + MSG_DATA) data (ucast sz)
         \<and> ip_ul s' = wake (find_proc (ip_ul s) (word_of_nat i)) (ip_ul s))"
proof -
  have ok: "ipc_ok s" using inv by (simp add: ipc_inv_def)
  note ipo = ipc_ok_port [OF ok i, unfolded p(1)]
  have ipo': "port_ok p" "inbox s i = port_items p" "distinct (port_items p)" "set (port_items p) = addressed s i"
    using ipo by auto
  obtain a k' km where c: "klime_create (ip_kl s) SIZEOF_MSG (ip_km s) = Some (a, Some k', km)"
    "a \<notin> base \<union> dom (ports s) \<union> dom (msgs s)" "km_bytes km = km_bytes (ip_km s)"
    "klime_inv lo hi (k', km, if a = 0 then base \<union> dom (ports s) \<union> dom (msgs s)
        else insert a (base \<union> dom (ports s) \<union> dom (msgs s)))"
    using ipc_alloc [OF inv] by blast
  show ?thesis
  proof (cases "a = 0")
    case True
    have "ipc_inv lo hi base (s\<lparr>ip_kl := Some k', ip_km := km\<rparr>)"
      using inv c(4) True by (simp add: ipc_inv_def)
    then show ?thesis using c True by (auto simp: post_msg_def)
  next
    case False
    let ?m = "\<lparr>m_sender_id = p_pid (procs (ip_ul s) from_a), m_receiver_id = word_of_nat i, m_size = sz\<rparr>"
    define t where "t = (set_port (endpoints s ! i) (port_put p a) (s\<lparr>ip_kl := Some k',
       ip_km := km\<lparr>km_bytes := memcpy (km_bytes km) (a + MSG_DATA) data (ucast sz)\<rparr>, msgs := (msgs s)(a \<mapsto> ?m)\<rparr>))
       \<lparr>ip_ul := wake (find_proc (ip_ul s) (word_of_nat i)) (ip_ul s)\<rparr>"
    have t: "endpoints t = endpoints s" "ports t = (ports s)(endpoints s ! i \<mapsto> port_put p a)"
      "msgs t = (msgs s)(a \<mapsto> ?m)" by (simp_all add: t_def)
    have an: "msgs s a = None" using c(2) by auto
    have ad: "addressed t j = (if j = i then insert a (addressed s j) else addressed s j)" if "j < 32" for j
      using addressed_add [OF an t(3) _ i(1) that] by simp
    have put: "port_items (port_put p a) = port_items p @ [a]" "port_ok (port_put p a)"
      using port_put_items [OF ipo'(1) p(2)] by auto
    have "a \<notin> addressed s i" using c(2) addressed_dom [of s i] by auto
    then have pp: "distinct (port_items (port_put p a))" "set (port_items (port_put p a)) = addressed t i"
      using ipo' put ad [OF i(1)] by auto
    have r32: "(word_of_nat i :: u64) < 32" using i(1) by (simp add: word_less_nat_alt unat_of_nat64)
    have rr: "\<forall>m\<in>ran (msgs t). m_receiver_id m < 32"
      using ok r32 an unfolding t(3) by (auto simp: ipc_ok_def ran_def split: if_splits)
    have "\<forall>j<32. j \<noteq> i \<longrightarrow> addressed t j = addressed s j" using ad by simp
    note u = ipc_ok_update [OF ok i t(1,2) put(2) pp this rr]
    have "ip_kl t = Some k'" "klime_inv lo hi (k', ip_km t, base \<union> dom (ports s) \<union> insert a (dom (msgs s)))"
      using c(4) False by (simp_all add: t_def)
    then have "ipc_inv lo hi base t"
      using inv u c(2) t(3) by (auto simp: ipc_inv_def)
    moreover have "post_msg s from_a (word_of_nat i) data sz (endpoints s ! i) p = Some (SendDone 0, t)"
      using c(1) False by (simp add: post_msg_def t_def Let_def)
    moreover have "km_bytes (ip_km t) = memcpy (km_bytes (ip_km s)) (a + MSG_DATA) data (ucast sz)"
      "ip_ul t = wake (find_proc (ip_ul s) (word_of_nat i)) (ip_ul s)" using c(3) by (simp_all add: t_def)
    ultimately show ?thesis using c(2) False u t put ipo' by (intro exI [of _ a] exI [of _ t]) auto
  qed
qed

text \<open>The heap part of the invariant after a release.\<close>

lemma ipc_release:
  assumes "ipc_kl = Some k" "klime_inv lo hi (k, km0, live)" "a \<in> live"
  obtains k' km where "klime_free ipc_kl a (km0\<lparr>km_bytes := b\<rparr>) = Some (Some k', km)"
    "km_bytes km = b" "klime_inv lo hi (k', km, live - {a})"
proof -
  have "klime_inv lo hi (k, km0\<lparr>km_bytes := b\<rparr>, live)" using assms(2) by simp
  then obtain k' km where c: "klime_free (Some k) a (km0\<lparr>km_bytes := b\<rparr>) = Some (Some k', km)"
    "klime_inv lo hi (k', km, live - {a})" using klime_free_inv assms(3) by blast
  then show ?thesis using klime_free_bytes [OF c(1)] assms(1) that by simp
qed

text \<open>What a receiver finds in the memory: the bytes, then the number of the sender.\<close>

definition delivered :: "ipc_msg \<Rightarrow> u64 \<Rightarrow> u64 \<Rightarrow> u32 \<Rightarrow> u64 \<Rightarrow> mem \<Rightarrow> mem" where
  "delivered m a buf n out b =
    (let b1 = memcpy b buf (a + MSG_DATA) (ucast (min (m_size m) n))
     in if out \<noteq> 0 then store64 b1 out (m_sender_id m) else b1)"

lemma receive_spec:
  assumes inv: "ipc_inv lo hi base s" and i: "i < 32" "endpoints s ! i \<noteq> 0"
    and pid: "p_pid (procs (ip_ul s) proc) = word_of_nat i"
    and ib: "inbox s i = a # as"
  shows "\<exists>m s' p. msgs s a = Some m \<and> ports s (endpoints s ! i) = Some p \<and> ipc_inv lo hi base s'
    \<and> receive_async_msg s proc buf n out = Some (uint (min (m_size m) n), s')
    \<and> (\<forall>j<32. inbox s' j = (if j = i then as else inbox s j)) \<and> msgs s' = (msgs s)(a := None)
    \<and> km_bytes (ip_km s') = delivered m a buf n out (km_bytes (ip_km s))
    \<and> ip_ul s' = wake_waiters p (ip_ul s) \<and> endpoints s' = endpoints s"
proof -
  have ok: "ipc_ok s" using inv by (simp add: ipc_inv_def)
  obtain p where p: "ports s (endpoints s ! i) = Some p" "port_ok p" "inbox s i = port_items p"
     "distinct (port_items p)" "set (port_items p) = addressed s i" using ipc_ok_port [OF ok i] by blast
  have c: "0 < ip_count p" using ib p(3) by (cases "ip_count p") (auto simp: port_items_def)
  have fr: "port_front p = a" using mq.front_items [OF p(2) c] ib p(3) by simp
  have a: "a \<in> addressed s i" using ib p by (metis list.set_intros(1))
  then obtain m where m: "msgs s a = Some m" by (auto simp: addressed_def)
  obtain k where k: "ip_kl s = Some k" "klime_inv lo hi (k, ip_km s, base \<union> dom (ports s) \<union> dom (msgs s))"
    using inv by (auto simp: ipc_inv_def)
  have "a \<in> base \<union> dom (ports s) \<union> dom (msgs s)" using m by blast
  with ipc_release [OF k] obtain k' km where
    f: "klime_free (ip_kl s) a ((ip_km s)\<lparr>km_bytes := delivered m a buf n out (km_bytes (ip_km s))\<rparr>) = Some (Some k', km)"
      "km_bytes km = delivered m a buf n out (km_bytes (ip_km s))"
      "klime_inv lo hi (k', km, (base \<union> dom (ports s) \<union> dom (msgs s)) - {a})" by blast
  define p1 where "p1 = (port_drop p)\<lparr>ip_waiter_count := 0\<rparr>"
  define t where "t = (set_port (endpoints s ! i) p1 s)\<lparr>ip_kl := Some k', ip_km := km, msgs := (msgs s)(a := None),
     ip_ul := wake_waiters p (ip_ul s)\<rparr>"
  have t: "endpoints t = endpoints s" "ports t = (ports s)(endpoints s ! i \<mapsto> p1)" "msgs t = (msgs s)(a := None)"
    by (simp_all add: t_def)
  have drop: "port_items p1 = as" "port_ok p1"
    using port_drop_items [OF p(2) c] ib p(3) by (auto simp: p1_def port_items_def port_ok_def)
  have pa: "port_items p = a # as" using p(3) ib by simp
  have at: "addressed s i = insert a (set as)" "a \<notin> set as" "distinct as" using p(4,5) by (simp_all add: pa)
  have pp: "distinct (port_items p1)" "set (port_items p1) = addressed t i"
    unfolding drop(1) addressed_remove [OF t(3)] at(1) using at(2,3) by auto
  have ad: "\<forall>j<32. j \<noteq> i \<longrightarrow> addressed t j = addressed s j"
    using addressed_remove [OF t(3)] addressed_disjoint [of i _ s] i(1) a by auto
  have rr: "\<forall>m\<in>ran (msgs t). m_receiver_id m < 32"
    using ok unfolding t(3) by (auto simp: ipc_ok_def ran_def split: if_splits)
  note u = ipc_ok_update [OF ok i t(1,2) drop(2) pp ad rr]
  have wz: "port_drop p\<lparr>ip_waiter_count := 0\<rparr> = port_drop p" if "ip_waiter_count p = 0"
    using that by (simp add: port_drop_def Let_def)
  have wd: "ip_waiter_count (port_drop p) = ip_waiter_count p" "wake_waiters (port_drop p) = wake_waiters p"
    by (simp_all add: port_drop_def Let_def wake_waiters_def fun_eq_iff)
  have g: "get_ep s (p_pid (procs (ip_ul s) proc)) = endpoints s ! i"
    using i(1) unat_of_nat64 [of i] by (simp add: get_ep_def pid IPC_MAX_PROCS_def word_le_nat_alt)
  have cs: "(if m_size m < n then m_size m else n) = min (m_size m) n" by (auto simp: min_def)
  have rc: "receive_async_msg s proc buf n out = Some (uint (min (m_size m) n), t)"
  proof (cases "ip_waiter_count p = 0")
    case True
    then have "wake_waiters p = id" "p1 = port_drop p" using wz by (auto simp: wake_waiters_def p1_def)
    then show ?thesis unfolding receive_async_msg_def g
      using True i(2) p(1) c fr m f(1) by (simp add: Let_def t_def wd cs set_port_def delivered_def)
  next
    case False
    then show ?thesis unfolding receive_async_msg_def g
      using i(2) p(1) c fr m f(1) by (simp add: Let_def t_def p1_def wd cs set_port_def delivered_def)
  qed
  have an: "a \<in> dom (msgs s)" using m by blast
  have "a \<notin> dom (ports s)" "a \<notin> base" using inv an unfolding ipc_inv_def by blast+
  moreover have dt: "dom (msgs t) = dom (msgs s) - {a}" by (simp add: t(3))
  ultimately have e: "(base \<union> dom (ports s) \<union> dom (msgs s)) - {a} = base \<union> dom (ports t) \<union> dom (msgs t)"
    using u(2) by blast
  have kt: "ip_kl t = Some k'" "ip_km t = km" by (simp_all add: t_def)
  have d: "dom (ports t) \<inter> dom (msgs t) = {}" "base \<inter> (dom (ports t) \<union> dom (msgs t)) = {}"
    unfolding u(2) dt by (rule disjoint_shrink [OF ipc_inv_sets(2,3) [OF inv]])+
  have "klime_inv lo hi (k', ip_km t, base \<union> dom (ports t) \<union> dom (msgs t))"
    using f(3) unfolding e kt(2) .
  then have "ipc_inv lo hi base t" by (rule ipc_invI [OF u(1) d kt(1)])
  moreover have "km_bytes (ip_km t) = delivered m a buf n out (km_bytes (ip_km s))"
    "ip_ul t = wake_waiters p (ip_ul s)" using f(2) by (simp_all add: t_def)
  ultimately show ?thesis using rc m p(1) t u(3) drop(1)
    by (intro exI [of _ m] exI [of _ t] exI [of _ p] conjI) simp_all
qed

text \<open>A change of a port that leaves its queue alone.\<close>

lemma ipc_touch:
  assumes inv: "ipc_inv lo hi base s" and i: "i < 32" "endpoints s ! i \<noteq> 0"
    and p: "ports s (endpoints s ! i) = Some p" "port_items q = port_items p" "port_ok q"
  shows "ipc_inv lo hi base (set_port (endpoints s ! i) q s)"
    "j < 32 \<Longrightarrow> inbox (set_port (endpoints s ! i) q s) j = inbox s j"
proof -
  let ?t = "set_port (endpoints s ! i) q s"
  have ok: "ipc_ok s" using inv by (simp add: ipc_inv_def)
  have pp: "port_items p = inbox s i" "distinct (port_items q)" "set (port_items q) = addressed ?t i"
    using ipc_ok_port [OF ok i] p by auto
  have rr: "\<forall>m\<in>ran (msgs ?t). m_receiver_id m < 32" using ok by (simp add: ipc_ok_def)
  have "\<forall>j<32. j \<noteq> i \<longrightarrow> addressed ?t j = addressed s j" by simp
  note u = ipc_ok_update [OF ok i set_port_simps(1,2) p(3) pp(2,3) this rr]
  obtain k where k: "ip_kl s = Some k" "klime_inv lo hi (k, ip_km s, base \<union> dom (ports s) \<union> dom (msgs s))"
    using inv by (auto simp: ipc_inv_def)
  have m: "msgs ?t = msgs s" "ip_km ?t = ip_km s" by simp_all
  show "ipc_inv lo hi base ?t"
    by (rule ipc_invI [OF u(1), unfolded u(2) m]) (use ipc_inv_sets(2,3) [OF inv] k in simp_all)
  show "j < 32 \<Longrightarrow> inbox ?t j = inbox s j" using u(3) [of j] pp(1) p(2) by simp
qed

text \<open>The process number \<open>i\<close> of a caller and its endpoint.\<close>

lemma get_ep_eq:
  "p_pid (procs (ip_ul s) proc) = word_of_nat i \<Longrightarrow> i < 32 \<Longrightarrow> get_ep s (p_pid (procs (ip_ul s) proc)) = endpoints s ! i"
  "p_pid (procs (ip_ul s) proc) = word_of_nat i \<Longrightarrow> i < 32 \<Longrightarrow> \<not> IPC_MAX_PROCS \<le> p_pid (procs (ip_ul s) proc)"
  using unat_of_nat64 [of i] by (simp_all add: get_ep_def IPC_MAX_PROCS_def word_le_nat_alt)

lemma close_spec:
  assumes inv: "ipc_inv lo hi base s" and i: "i < 32" and pid: "p_pid (procs (ip_ul s) proc) = word_of_nat i"
  shows "\<exists>s'. close_inbox s proc = Some s' \<and> ipc_inv lo hi base s' \<and> (\<forall>j<32. inbox s' j = inbox s j)
    \<and> endpoints s' = endpoints s \<and> msgs s' = msgs s \<and> ip_ul s' = ip_ul s"
proof (cases "endpoints s ! i = 0")
  case True
  then show ?thesis using inv by (auto simp: close_inbox_def get_ep_eq [OF pid i])
next
  case False
  have ok: "ipc_ok s" using inv by (simp add: ipc_inv_def)
  obtain p where p: "ports s (endpoints s ! i) = Some p" "port_ok p" using ipc_ok_port [OF ok i False] by blast
  have "port_items (p\<lparr>ip_open := False\<rparr>) = port_items p" "port_ok (p\<lparr>ip_open := False\<rparr>)"
    using p(2) by (simp_all add: port_items_def port_ok_def)
  note * = ipc_touch [OF inv i False p(1) this]
  have "close_inbox s proc = Some (set_port (endpoints s ! i) (p\<lparr>ip_open := False\<rparr>) s)"
    using False p(1) by (simp add: close_inbox_def get_ep_eq [OF pid i])
  then show ?thesis using * by (intro exI [of _ "set_port (endpoints s ! i) (p\<lparr>ip_open := False\<rparr>) s"]) simp
qed

lemma free_messages_spec:
  "ip_kl s = Some k \<Longrightarrow> klime_inv lo hi (k, ip_km s, live) \<Longrightarrow> set as \<subseteq> live \<Longrightarrow> distinct as \<Longrightarrow>
   \<exists>k' km'. free_messages as s = Some (s\<lparr>ip_kl := Some k', ip_km := km', msgs := (msgs s) |` (- set as)\<rparr>)
     \<and> klime_inv lo hi (k', km', live - set as)"
proof (induction as arbitrary: s k live)
  case Nil
  then show ?case by (intro exI [of _ k] exI [of _ "ip_km s"]) (cases s, simp)
next
  case (Cons a as)
  obtain k1 km1 where f: "klime_free (Some k) a (ip_km s) = Some (Some k1, km1)" "klime_inv lo hi (k1, km1, live - {a})"
    using klime_free_inv [OF Cons.prems(2)] Cons.prems(3) by (metis list.set_intros(1) subsetD)
  let ?s = "s\<lparr>ip_kl := Some k1, ip_km := km1, msgs := (msgs s)(a := None)\<rparr>"
  have "set as \<subseteq> live - {a}" "distinct as" using Cons.prems(3,4) by auto
  then obtain k' km' where
    *: "free_messages as ?s = Some (?s\<lparr>ip_kl := Some k', ip_km := km', msgs := (msgs ?s) |` (- set as)\<rparr>)"
       "klime_inv lo hi (k', km', live - {a} - set as)"
    using Cons.IH [of ?s k1 "live - {a}"] f(2) by (simp del: fun_upd_apply fun_upd_restrict_conv restrict_fun_upd) blast
  have "a \<noteq> 0" using klime_live_nz [OF Cons.prems(2)] Cons.prems(3) by auto
  moreover have "((msgs s)(a := None)) |` (- set as) = (msgs s) |` (- set (a # as))"
    by (auto simp: restrict_map_def)
  moreover have "live - {a} - set as = live - set (a # as)" by auto
  ultimately show ?case using * f(1) Cons.prems(1) by auto
qed

lemma no_endpoint:
  assumes "ipc_ok s" "i < 32" "endpoints s ! i = 0"
  shows "inbox s i = []" "addressed s i = {}"
proof -
  have "0 \<notin> dom (ports s)" using assms(1) by (simp add: ipc_ok_def)
  then show "inbox s i = []" using assms(3) by (simp add: inbox_def domIff)
  then show "addressed s i = {}" using assms(1,2) by (auto simp: ipc_ok_def)
qed

text \<open>The table of endpoints after one entry changed to \<open>e\<close>, a pointer no other entry has or NULL.\<close>

lemma ipc_ok_endpoint:
  assumes ok: "ipc_ok s" and i: "i < 32"
    and t: "endpoints t = (endpoints s)[i := e]" "dom (ports t) = set (endpoints t) - {0}"
    and e: "e = 0 \<or> e \<notin> set (endpoints s)"
    and same: "\<forall>j<32. j \<noteq> i \<longrightarrow> ports t (endpoints s ! j) = ports s (endpoints s ! j)"
    and p: "\<forall>p\<in>ran (ports t). port_ok p" "inbox t i = []" "addressed t i = {}"
    and m: "\<forall>j<32. j \<noteq> i \<longrightarrow> addressed t j = addressed s j" "\<forall>m\<in>ran (msgs t). m_receiver_id m < 32"
  shows "ipc_ok t" "j < 32 \<Longrightarrow> inbox t j = (if j = i then [] else inbox s j)"
proof -
  have len: "length (endpoints s) = 32" using ok by (simp add: ipc_ok_def)
  have nth: "endpoints t ! j = (if j = i then e else endpoints s ! j)" if "j < 32" for j
    using that i len by (simp add: t(1) nth_list_update)
  have ib: "inbox t j = (if j = i then [] else inbox s j)" if "j < 32" for j
  proof (cases "j = i")
    case False
    then show ?thesis using that nth [OF that] same by (simp add: inbox_def)
  qed (simp add: p(2))
  have mem: "endpoints s ! j \<in> set (endpoints s)" if "j < 32" for j using that len by simp
  have inj: "a = b" if "a < 32" "b < 32" "endpoints t ! a = endpoints t ! b" "endpoints t ! a \<noteq> 0" for a b
  proof (cases "a = i \<or> b = i")
    case True
    then show ?thesis using that e mem [of a] mem [of b] nth [of a] nth [of b] by (auto split: if_splits)
  next
    case False
    then show ?thesis using that ok nth [of a] nth [of b] unfolding ipc_ok_def by auto
  qed
  have "distinct (inbox t j) \<and> set (inbox t j) = addressed t j" if "j < 32" for j
    using ib [OF that] ok p(3) m(1) that by (auto simp: ipc_ok_def)
  then show "ipc_ok t" using len t p(1) m(2) inj unfolding ipc_ok_def by (metis length_list_update)
  show "j < 32 \<Longrightarrow> inbox t j = (if j = i then [] else inbox s j)" by (rule ib)
qed

lemma no_zero_port: "ipc_ok s \<Longrightarrow> ports s 0 = None"
  by (auto simp: ipc_ok_def dom_def)

lemma endpoints_put:
  assumes "i < length xs" "xs ! i = 0" "a \<noteq> 0"
  shows "set (xs[i := a]) - {0} = insert a (set xs - {0 :: u64})"
proof -
  have "x \<in> set (xs[i := a]) \<longleftrightarrow> x = a \<or> x \<in> set xs" if "x \<noteq> 0" for x
  proof
    assume "x \<in> set (xs[i := a])"
    then show "x = a \<or> x \<in> set xs" using set_update_subset_insert [of xs i a] by auto
  next
    assume *: "x = a \<or> x \<in> set xs"
    show "x \<in> set (xs[i := a])"
    proof (cases "x = a")
      case True
      then show ?thesis using assms(1) by (simp add: set_update_memI)
    next
      case False
      then obtain j where "j < length xs" "xs ! j = x" using * by (auto simp: in_set_conv_nth)
      moreover have "j \<noteq> i" using calculation that assms(2) by auto
      ultimately show ?thesis by (metis length_list_update nth_list_update_neq nth_mem)
    qed
  qed
  then show ?thesis using assms(3) by auto
qed

lemma endpoints_clear:
  assumes "i < length xs" "\<forall>j<length xs. xs ! j = xs ! i \<longrightarrow> j = i"
  shows "set (xs[i := 0]) - {0 :: u64} = set xs - {0} - {xs ! i}"
proof -
  have "x \<in> set (xs[i := 0]) \<longleftrightarrow> x \<in> set xs \<and> x \<noteq> xs ! i" if "x \<noteq> 0" for x
  proof
    assume "x \<in> set (xs[i := 0])"
    then obtain j where j: "j < length xs" "xs[i := 0] ! j = x" by (auto simp: in_set_conv_nth)
    moreover have "j \<noteq> i" using j that by auto
    ultimately show "x \<in> set xs \<and> x \<noteq> xs ! i" using assms(2) by auto
  next
    assume *: "x \<in> set xs \<and> x \<noteq> xs ! i"
    then obtain j where "j < length xs" "xs ! j = x" by (auto simp: in_set_conv_nth)
    moreover have "j \<noteq> i" using calculation * by auto
    ultimately show "x \<in> set (xs[i := 0])" by (metis length_list_update nth_list_update_neq nth_mem)
  qed
  then show ?thesis by auto
qed

lemma open_spec:
  assumes inv: "ipc_inv lo hi base s" and i: "i < 32" and pid: "p_pid (procs (ip_ul s) proc) = word_of_nat i"
  shows "\<exists>s'. open_inbox s proc = Some s' \<and> ipc_inv lo hi base s' \<and> (\<forall>j<32. inbox s' j = inbox s j)
    \<and> msgs s' = msgs s \<and> ip_ul s' = ip_ul s"
proof (cases "endpoints s ! i = 0")
  case False
  have ok: "ipc_ok s" using inv by (simp add: ipc_inv_def)
  obtain p where p: "ports s (endpoints s ! i) = Some p" "port_ok p" using ipc_ok_port [OF ok i False] by blast
  have "port_items (p\<lparr>ip_open := True\<rparr>) = port_items p" "port_ok (p\<lparr>ip_open := True\<rparr>)"
    using p(2) by (simp_all add: port_items_def port_ok_def)
  note * = ipc_touch [OF inv i False p(1) this]
  have "open_inbox s proc = Some (set_port (endpoints s ! i) (p\<lparr>ip_open := True\<rparr>) s)"
    using False p(1) get_ep_eq(2) [OF pid i] unat_of_nat64 [of i] i by (simp add: open_inbox_def pid Let_def)
  then show ?thesis using * by (intro exI [of _ "set_port (endpoints s ! i) (p\<lparr>ip_open := True\<rparr>) s"]) simp
next
  case True
  have ok: "ipc_ok s" using inv by (simp add: ipc_inv_def)
  obtain a k' km where c: "klime_create (ip_kl s) SIZEOF_PORT (ip_km s) = Some (a, Some k', km)"
    "a \<notin> base \<union> dom (ports s) \<union> dom (msgs s)"
    "klime_inv lo hi (k', km, if a = 0 then base \<union> dom (ports s) \<union> dom (msgs s)
        else insert a (base \<union> dom (ports s) \<union> dom (msgs s)))"
    by (rule ipc_alloc [OF inv])
  have ui: "unat (word_of_nat i :: u64) = i" using i by (intro unat_of_nat64) simp
  show ?thesis
  proof (cases "a = 0")
    case a: True
    have "ipc_inv lo hi base (s\<lparr>ip_kl := Some k', ip_km := km\<rparr>)"
      using inv c(3) a by (simp add: ipc_inv_def)
    then show ?thesis using c(1) a True get_ep_eq(2) [OF pid i] by (auto simp: open_inbox_def pid Let_def ui)
  next
    case a: False
    define t where "t = (set_port a new_port (s\<lparr>ip_kl := Some k', ip_km := km\<rparr>))\<lparr>endpoints := (endpoints s)[i := a]\<rparr>"
    have len: "length (endpoints s) = 32" and dp: "dom (ports s) = set (endpoints s) - {0}"
      using ok by (auto simp: ipc_ok_def)
    have ae: "a \<notin> set (endpoints s)" using c(2) a dp by auto
    have t: "endpoints t = (endpoints s)[i := a]" "ports t = (ports s)(a \<mapsto> new_port)" "msgs t = msgs s"
      "ip_kl t = Some k'" "ip_km t = km" "ip_ul t = ip_ul s" by (simp_all add: t_def)
    have dt: "dom (ports t) = insert a (dom (ports s))" by (simp add: t(2))
    have dom_t: "dom (ports t) = set (endpoints t) - {0}"
      using endpoints_put [of i "endpoints s" a] i len True a by (simp add: dt t(1) dp)
    have same: "\<forall>j<32. j \<noteq> i \<longrightarrow> ports t (endpoints s ! j) = ports s (endpoints s ! j)"
      using ae len by (auto simp: t(2))
    have ad: "addressed t j = addressed s j" for j by (simp add: addressed_def t(3))
    have ro: "\<forall>p\<in>ran (ports t). port_ok p"
      using ok new_port_ok(1) by (auto simp: t(2) ipc_ok_def ran_def split: if_splits)
    have ib: "inbox t i = []" using i len new_port_ok(2) by (simp add: inbox_def t(1,2))
    have rr: "\<forall>m\<in>ran (msgs t). m_receiver_id m < 32" using ok by (simp add: ipc_ok_def t(3))
    have az: "addressed t i = {}" "\<forall>j<32. j \<noteq> i \<longrightarrow> addressed t j = addressed s j"
      using no_endpoint(2) [OF ok i True] by (simp_all add: ad)
    note u = ipc_ok_endpoint [OF ok i t(1) dom_t disjI2 [OF ae] same ro ib az rr]
    have "klime_inv lo hi (k', ip_km t, base \<union> dom (ports t) \<union> dom (msgs t))"
      using c(3) a unfolding dt t(3,5) by simp
    moreover have "dom (ports t) \<inter> dom (msgs t) = {}" "base \<inter> (dom (ports t) \<union> dom (msgs t)) = {}"
      using ipc_inv_sets(2,3) [OF inv] c(2) unfolding dt t(3) by simp_all
    ultimately have inv': "ipc_inv lo hi base t" using ipc_invI [OF u(1) _ _ t(4)] by blast
    have "open_inbox s proc = Some t"
      using c(1) a True get_ep_eq(2) [OF pid i] by (simp add: open_inbox_def pid Let_def ui t_def set_port_def)
    moreover have "inbox t j = inbox s j" if "j < 32" for j
      using u(2) [OF that] no_endpoint(1) [OF ok i True] by simp
    ultimately show ?thesis using inv' t by blast
  qed
qed

text \<open>The queued messages of one port, given back one by one with the port itself.\<close>

lemma destroy_spec:
  assumes inv: "ipc_inv lo hi base s" and i: "i < 32" and pid: "p_pid (procs (ip_ul s) proc) = word_of_nat i"
  shows "\<exists>s'. destroy_endpoint s proc = Some s' \<and> ipc_inv lo hi base s' \<and> endpoints s' ! i = 0
    \<and> (\<forall>j<32. inbox s' j = (if j = i then [] else inbox s j)) \<and> msgs s' = (msgs s) |` (- addressed s i)
    \<and> ip_ul s' = (case ports s (endpoints s ! i) of None \<Rightarrow> ip_ul s | Some p \<Rightarrow> wake_waiters p (ip_ul s))"
proof (cases "endpoints s ! i = 0")
  case True
  have ok: "ipc_ok s" using inv by (simp add: ipc_inv_def)
  have "ports s 0 = None" using ok by (auto simp: ipc_ok_def dom_def)
  moreover have "(msgs s) |` (- addressed s i) = msgs s"
    using no_endpoint(2) [OF ok i True] by (simp add: restrict_map_def)
  ultimately show ?thesis
    using True inv no_endpoint(1) [OF ok i True] by (auto simp: destroy_endpoint_def get_ep_eq(1) [OF pid i])
next
  case False
  let ?e = "endpoints s ! i"
  have ok: "ipc_ok s" using inv by (simp add: ipc_inv_def)
  obtain p where p: "ports s ?e = Some p" "port_ok p" "distinct (port_items p)" "set (port_items p) = addressed s i"
    using ipc_ok_port [OF ok i False] by blast
  define s1 where "s1 = set_port ?e (p\<lparr>ip_open := False\<rparr>) s"
  have cl: "close_inbox s proc = Some s1"
    using False p(1) by (simp add: close_inbox_def get_ep_eq [OF pid i] s1_def)
  obtain k where k: "ip_kl s = Some k" "klime_inv lo hi (k, ip_km s, base \<union> dom (ports s) \<union> dom (msgs s))"
    using inv by (auto simp: ipc_inv_def)
  let ?live = "base \<union> dom (ports s) \<union> dom (msgs s)"
  have k1: "ip_kl s1 = Some k" "klime_inv lo hi (k, ip_km s1, ?live)" using k by (simp_all add: s1_def)
  have "set (port_items p) \<subseteq> ?live" using addressed_dom [of s i] unfolding p(4) by blast
  from free_messages_spec [OF k1 this p(3)] obtain k2 km2 where
    f2: "free_messages (port_items p) s1 = Some (s1\<lparr>ip_kl := Some k2, ip_km := km2, msgs := (msgs s) |` (- addressed s i)\<rparr>)"
    "klime_inv lo hi (k2, km2, ?live - addressed s i)" unfolding p(4) by (auto simp: s1_def)
  have disj: "?e \<notin> addressed s i" using ipc_inv_sets(2) [OF inv] addressed_dom [of s i] p(1) by blast
  then have "?e \<in> ?live - addressed s i" using p(1) by blast
  from klime_free_inv [OF f2(2) this] obtain k3 km3 where
    f3: "klime_free (Some k2) ?e km2 = Some (Some k3, km3)" "klime_inv lo hi (k3, km3, ?live - addressed s i - {?e})"
    by blast
  define t where "t = s\<lparr>endpoints := (endpoints s)[i := 0], ports := (ports s)(?e := None),
     msgs := (msgs s) |` (- addressed s i), ip_ul := wake_waiters p (ip_ul s), ip_kl := Some k3, ip_km := km3\<rparr>"
  have t: "endpoints t = (endpoints s)[i := 0]" "ports t = (ports s)(?e := None)"
    "msgs t = (msgs s) |` (- addressed s i)" "ip_kl t = Some k3" "ip_km t = km3"
    "ip_ul t = wake_waiters p (ip_ul s)" by (simp_all add: t_def)
  have len: "length (endpoints s) = 32" and dp: "dom (ports s) = set (endpoints s) - {0}"
    and inj: "\<forall>j<32. endpoints s ! j = ?e \<longrightarrow> j = i"
    using ok False i unfolding ipc_ok_def by metis+
  have dt: "dom (ports t) = dom (ports s) - {?e}" "dom (msgs t) = dom (msgs s) - addressed s i"
    by (auto simp: t(2,3))
  have dom_t: "dom (ports t) = set (endpoints t) - {0}"
    using endpoints_clear [of i "endpoints s"] i len inj by (simp add: dt(1) t(1) dp)
  have same: "\<forall>j<32. j \<noteq> i \<longrightarrow> ports t (endpoints s ! j) = ports s (endpoints s ! j)"
    using inj by (auto simp: t(2))
  have ad: "\<forall>j<32. j \<noteq> i \<longrightarrow> addressed t j = addressed s j" "addressed t i = {}"
    using addressed_disjoint [of i _ s] i by (auto simp: addressed_def t(3) restrict_map_def)
  have ro: "\<forall>p\<in>ran (ports t). port_ok p" "\<forall>m\<in>ran (msgs t). m_receiver_id m < 32"
    using ok by (auto simp: t(2,3) ipc_ok_def ran_def restrict_map_def split: if_splits)
  have ib: "inbox t i = []"
    using i len no_zero_port [OF ok] by (simp add: inbox_def t(1,2))
  note u = ipc_ok_endpoint [OF ok i t(1) dom_t disjI1 [OF refl] same ro(1) ib ad(2,1) ro(2)]
  have live: "?live - addressed s i - {?e} = base \<union> dom (ports t) \<union> dom (msgs t)"
  proof -
    have "addressed s i \<subseteq> dom (msgs s)" "?e \<in> dom (ports s)" using addressed_dom p(1) by auto
    with ipc_inv_sets(2,3) [OF inv] show ?thesis unfolding dt by blast
  qed
  have "klime_inv lo hi (k3, ip_km t, base \<union> dom (ports t) \<union> dom (msgs t))"
    using f3(2) unfolding live t(5) .
  moreover have "dom (ports t) \<inter> dom (msgs t) = {}" "base \<inter> (dom (ports t) \<union> dom (msgs t)) = {}"
    using ipc_inv_sets(2,3) [OF inv] unfolding dt by blast+
  ultimately have inv': "ipc_inv lo hi base t" using ipc_invI [OF u(1) _ _ t(4)] by blast
  have ui: "unat (word_of_nat i :: u64) = i" using i by (intro unat_of_nat64) simp
  have ww: "wake_waiters (p\<lparr>ip_open := False\<rparr>) = wake_waiters p" by (simp add: wake_waiters_def fun_eq_iff)
  have "destroy_endpoint s proc = Some t"
    using False f2(1) f3(1) cl
    by (simp add: destroy_endpoint_def get_ep_eq(1) [OF pid i, unfolded pid] Let_def ui ww s1_def t_def
        set_port_def port_items_def pid)
  then show ?thesis using inv' u(2) t p(1) i len by auto
qed

section \<open>Every state the ports can reach\<close>

text \<open>A sender that waits inside \<open>send_msg\<close>: its arguments and the pointer to the port that it read before.\<close>

record waiting =
  w_sender :: u64
  w_receiver :: u64
  w_data :: u64
  w_size :: u32
  w_ep :: u64

definition resume :: "ipc \<Rightarrow> waiting \<Rightarrow> (send_result \<times> ipc) option" where
  "resume s w = send_loop s (w_sender w) (w_receiver w) (w_data w) (w_size w) (w_ep w)"

text \<open>
  One call of a process, or a change of what the processes do in between (\<open>others\<close>), on the ports and the senders that wait. A
  waiting sender may go round its loop at any moment; what happened to its port meanwhile is not asked.
\<close>

inductive ipc_step :: "ipc \<times> waiting list \<Rightarrow> ipc \<times> waiting list \<Rightarrow> bool" where
  opens: "open_inbox s proc = Some s' \<Longrightarrow> ipc_step (s, ws) (s', ws)"
| closes: "close_inbox s proc = Some s' \<Longrightarrow> ipc_step (s, ws) (s', ws)"
| destroys: "destroy_endpoint s proc = Some s' \<Longrightarrow> ipc_step (s, ws) (s', ws)"
| sends: "send_msg s proc r data sz = Some (SendDone v, s') \<Longrightarrow> ipc_step (s, ws) (s', ws)"
| starts_waiting: "send_msg s proc r data sz = Some (SendBlocked ep, s') \<Longrightarrow>
    ipc_step (s, ws) (s', \<lparr>w_sender = proc, w_receiver = r, w_data = data, w_size = sz, w_ep = ep\<rparr> # ws)"
| resumes: "w \<in> set ws \<Longrightarrow> resume s w = Some (SendDone v, s') \<Longrightarrow> ipc_step (s, ws) (s', remove1 w ws)"
| waits_on: "w \<in> set ws \<Longrightarrow> resume s w = Some (SendBlocked ep, s') \<Longrightarrow> ipc_step (s, ws) (s', ws)"
| receives: "receive_msg s proc buf n out = Some (res, s') \<Longrightarrow> ipc_step (s, ws) (s', ws)"
| receives_async: "receive_async_msg s proc buf n out = Some (v, s') \<Longrightarrow> ipc_step (s, ws) (s', ws)"
| others: "ipc_step (s, ws) (s\<lparr>ip_ul := u\<rparr>, ws)"

text \<open>A run, with the latest state first.\<close>

inductive ipc_run :: "(ipc \<times> waiting list) list \<Rightarrow> bool" where
  start: "ipc_run [(s, [])]"
| next_step: "ipc_run (c # cs) \<Longrightarrow> ipc_step c d \<Longrightarrow> ipc_run (d # c # cs)"

text \<open>The port that a waiting sender remembers is still that of the receiver.\<close>

definition port_kept :: "ipc \<times> waiting list \<Rightarrow> bool" where
  "port_kept c \<longleftrightarrow> (\<forall>w\<in>set (snd c). get_ep (fst c) (w_receiver w) = w_ep w)"

text \<open>A process number is out of the table, or one of its indices.\<close>

lemma pid_cases:
  obtains "IPC_MAX_PROCS \<le> pid" | i where "i < 32" "pid = word_of_nat i"
proof (cases "IPC_MAX_PROCS \<le> pid")
  case False
  then have "unat pid < 32" by (simp add: IPC_MAX_PROCS_def word_le_nat_alt)
  then show ?thesis using that(2) [of "unat pid"] by simp
qed (rule that(1))

lemma get_ep_out: "IPC_MAX_PROCS \<le> pid \<Longrightarrow> get_ep s pid = 0"
  by (simp add: get_ep_def)

lemma get_ep_in: "i < 32 \<Longrightarrow> get_ep s (word_of_nat i) = endpoints s ! i"
  using unat_of_nat64 [of i] by (simp add: get_ep_def IPC_MAX_PROCS_def word_le_nat_alt)

lemma send_loop_spec:
  assumes inv: "ipc_inv lo hi base s" and i: "i < 32" "endpoints s ! i \<noteq> 0"
  shows "\<exists>r s'. send_loop s from_a (word_of_nat i) data sz (endpoints s ! i) = Some (r, s') \<and> ipc_inv lo hi base s'"
proof -
  have ok: "ipc_ok s" using inv by (simp add: ipc_inv_def)
  obtain p where p: "ports s (endpoints s ! i) = Some p" "port_ok p" using ipc_ok_port [OF ok i] by blast
  show ?thesis
  proof (cases "ip_count p < IPC_MAX_MESSAGES")
    case True
    with post_msg_spec [OF inv i p(1) True, of from_a data sz] show ?thesis using p(1) by (auto simp: send_loop_def)
  next
    case False
    define q where "q = (if ip_waiter_count p < IPC_MAX_WAITERS
      then p\<lparr>ip_waiters := (ip_waiters p)[ip_waiter_count p := from_a], ip_waiter_count := ip_waiter_count p + 1\<rparr> else p)"
    have "port_items q = port_items p" "port_ok q" using p(2) by (auto simp: q_def port_items_def port_ok_def)
    note * = ipc_touch(1) [OF inv i p(1) this]
    then show ?thesis using p(1) False by (simp add: send_loop_def Let_def q_def)
  qed
qed

lemma send_msg_returns:
  assumes inv: "ipc_inv lo hi base s"
  shows "\<exists>r s'. send_msg s from_a receiver data sz = Some (r, s') \<and> ipc_inv lo hi base s'"
proof (cases receiver rule: pid_cases)
  case 1
  then show ?thesis using inv by (simp add: send_msg_def get_ep_out)
next
  case (2 i)
  have ok: "ipc_ok s" using inv by (simp add: ipc_inv_def)
  show ?thesis
  proof (cases "endpoints s ! i = 0")
    case False
    then obtain p where "ports s (endpoints s ! i) = Some p" using ipc_ok_port [OF ok 2(1)] by blast
    then show ?thesis using send_loop_spec [OF inv 2(1) False] inv 2 by (auto simp: send_msg_def get_ep_in Let_def)
  qed (use inv 2 in \<open>simp add: send_msg_def get_ep_in\<close>)
qed

lemma receive_async_returns:
  assumes inv: "ipc_inv lo hi base s"
  shows "\<exists>r s'. receive_async_msg s proc buf n out = Some (r, s') \<and> ipc_inv lo hi base s'"
proof (cases "p_pid (procs (ip_ul s) proc)" rule: pid_cases)
  case 1
  then show ?thesis using inv by (simp add: receive_async_msg_def get_ep_out)
next
  case (2 i)
  have ok: "ipc_ok s" using inv by (simp add: ipc_inv_def)
  show ?thesis
  proof (cases "endpoints s ! i = 0 \<or> inbox s i = []")
    case True
    then show ?thesis using inv 2 ipc_ok_port [OF ok 2(1)]
      by (cases "endpoints s ! i = 0") (auto simp: receive_async_msg_def get_ep_in port_items_def port_ok_def ipc_consts)
  next
    case False
    then obtain a as where "inbox s i = a # as" by (cases "inbox s i") auto
    with receive_spec [OF inv 2(1) _ 2(2) this] False show ?thesis by blast
  qed
qed

lemma open_returns:
  assumes inv: "ipc_inv lo hi base s"
  shows "\<exists>s'. open_inbox s proc = Some s' \<and> ipc_inv lo hi base s'"
proof (cases "p_pid (procs (ip_ul s) proc)" rule: pid_cases)
  case 1
  then show ?thesis using inv by (simp add: open_inbox_def get_ep_out)
next
  case (2 i)
  from open_spec [OF inv this] show ?thesis by blast
qed

lemma close_returns:
  assumes inv: "ipc_inv lo hi base s"
  shows "\<exists>s'. close_inbox s proc = Some s' \<and> ipc_inv lo hi base s'"
proof (cases "p_pid (procs (ip_ul s) proc)" rule: pid_cases)
  case 1
  then show ?thesis using inv by (simp add: close_inbox_def get_ep_out)
next
  case (2 i)
  from close_spec [OF inv this] show ?thesis by blast
qed

lemma destroy_returns:
  assumes inv: "ipc_inv lo hi base s"
  shows "\<exists>s'. destroy_endpoint s proc = Some s' \<and> ipc_inv lo hi base s'"
proof (cases "p_pid (procs (ip_ul s) proc)" rule: pid_cases)
  case 1
  then show ?thesis using inv by (simp add: destroy_endpoint_def get_ep_out)
next
  case (2 i)
  from destroy_spec [OF inv this] show ?thesis by blast
qed

lemma resume_returns:
  assumes inv: "ipc_inv lo hi base s" and w: "get_ep s (w_receiver w) = w_ep w" "w_ep w \<noteq> 0"
  shows "\<exists>r s'. resume s w = Some (r, s') \<and> ipc_inv lo hi base s'"
proof (cases "w_receiver w" rule: pid_cases)
  case 1
  then show ?thesis using w by (simp add: get_ep_out)
next
  case (2 i)
  then have "endpoints s ! i = w_ep w" using w(1) get_ep_in by simp
  then show ?thesis using send_loop_spec [OF inv 2(1), of "w_sender w" "w_data w" "w_size w"] w(2) 2(2) by (simp add: resume_def)
qed

text \<open>A sender waits for a port, not for the pointer 0.\<close>

lemma send_waits_for:
  "send_msg s proc r data sz = Some (SendBlocked ep, s') \<Longrightarrow> ep \<noteq> 0"
  "send_loop s proc r data sz e = Some (SendBlocked ep, s') \<Longrightarrow> ep = e"
  by (auto simp: send_msg_def send_loop_def post_msg_def Let_def split: if_splits option.splits)

lemma ipc_step_inv:
  assumes "ipc_step c d" "ipc_inv lo hi base (fst c)" "port_kept c" "\<forall>w\<in>set (snd c). w_ep w \<noteq> 0"
  shows "ipc_inv lo hi base (fst d) \<and> (\<forall>w\<in>set (snd d). w_ep w \<noteq> 0)"
  using assms
proof (induction rule: ipc_step.induct)
  case (resumes w ws s v s')
  then show ?case using resume_returns [of lo hi base s w] by (auto simp: port_kept_def dest: notin_set_remove1)
next
  case (waits_on w ws s ep s')
  then show ?case using resume_returns [of lo hi base s w] by (auto simp: port_kept_def)
next
  case (receives s proc buf n out res s' ws)
  then show ?case using receive_async_returns [of lo hi base s proc buf n out]
    by (auto simp: receive_msg_def split: if_splits)
next
  case (sends s proc r data sz v s' ws)
  then show ?case using send_msg_returns [of lo hi base s proc r data sz] by auto
next
  case (starts_waiting s proc r data sz ep s' ws)
  then show ?case using send_msg_returns [of lo hi base s proc r data sz] send_waits_for(1) [OF starts_waiting(1)] by auto
next
  case (receives_async s proc buf n out v s' ws)
  then show ?case using receive_async_returns [of lo hi base s proc buf n out] by auto
next
  case (opens s proc s' ws)
  then show ?case using open_returns [of lo hi base s proc] by simp
next
  case (closes s proc s' ws)
  then show ?case using close_returns [of lo hi base s proc] by simp
next
  case (destroys s proc s' ws)
  then show ?case using destroy_returns [of lo hi base s proc] by simp
qed simp

lemma ipc_run_inv:
  assumes "ipc_run (c # cs)" "\<forall>d\<in>set (c # cs). port_kept d" "ipc_inv lo hi base (fst (last (c # cs)))"
  shows "ipc_inv lo hi base (fst c) \<and> (\<forall>w\<in>set (snd c). w_ep w \<noteq> 0)"
proof -
  have "ipc_run ds \<Longrightarrow> \<forall>d\<in>set ds. port_kept d \<Longrightarrow> ipc_inv lo hi base (fst (last ds)) \<Longrightarrow>
      ipc_inv lo hi base (fst (hd ds)) \<and> (\<forall>w\<in>set (snd (hd ds)). w_ep w \<noteq> 0)" for ds
  proof (induction rule: ipc_run.induct)
    case (next_step c cs d)
    then show ?case using ipc_step_inv [of c d lo hi base] by simp
  qed simp
  from this [OF assms] show ?thesis by simp
qed

lemma ipc_init_inv:
  assumes "ip_kl s = Some k" "klime_inv lo hi (k, ip_km s, base)" "ports s = Map.empty" "msgs s = Map.empty"
  shows "ipc_inv lo hi base (ipc_messages_init s)"
  using assms by (simp add: ipc_inv_def ipc_ok_def ipc_messages_init_def inbox_def addressed_def IPC_MAX_PROCS_def)

lemma wake_simps [simp]:
  "procs (wake a u) b = (if b = a \<and> a \<noteq> 0 \<and> p_state (procs u a) = PROC_BLOCKED
     then (procs u b)\<lparr>p_state := PROC_READY\<rparr> else procs u b)"
  by (simp add: wake_def upd_proc_def)

text \<open>Exactly the recorded waiters that are blocked become ready.\<close>

lemma wake_waiters_procs:
  assumes "ip_waiter_count p \<le> length (ip_waiters p)"
  shows "procs (wake_waiters p u) b = (if b \<noteq> 0 \<and> b \<in> set (take (ip_waiter_count p) (ip_waiters p))
      \<and> p_state (procs u b) = PROC_BLOCKED then (procs u b)\<lparr>p_state := PROC_READY\<rparr> else procs u b)"
proof -
  have "n \<le> length ws \<Longrightarrow> procs (fold (\<lambda>i. wake (ws ! i)) [0..<n] u) b = (if b \<noteq> 0 \<and> b \<in> set (take n ws)
      \<and> p_state (procs u b) = PROC_BLOCKED then (procs u b)\<lparr>p_state := PROC_READY\<rparr> else procs u b)" for n ws
    by (induction n) (auto simp: take_Suc_conv_app_nth proc_state_defs)
  then show ?thesis using assms by (simp add: wake_waiters_def)
qed

section \<open>What a message carries\<close>

text \<open>
  \<open>data\<close> is 20 bytes into the message, 4 modulo 8, where \<open>memcpy\<close> starts its blocks over: it copies
  four bytes too many, or four too few.
\<close>

lemma memcpy_len_4:
  assumes "unat d mod 8 = 4"
  shows "memcpy_len d n = (if n < 4 then n else if n mod 8 < 4 then n + 4 else max 4 (n - 4))"
proof -
  obtain q r where n: "n = 8 * q + r" "r < 8" by (metis mod_less_divisor mult_div_mod_eq zero_less_numeral)
  show ?thesis
  proof (cases "n < 4")
    case True
    then show ?thesis using assms by (simp add: memcpy_len_def Let_def)
  next
    case False
    have "(n - 4) mod 8 = (if r < 4 then r + 4 else r - 4)"
    proof (cases "r < 4")
      case True
      then have "n - 4 = 8 * (q - 1) + (r + 4)" using False n by auto
      then show ?thesis using True by (simp add: mod_mult_self4)
    next
      case F: False
      then have e: "n - 4 = 8 * q + (r - 4)" using n by simp
      have "(8 * q + (r - 4)) mod 8 = r - 4" by (subst mod_mult_self4) (use n in simp)
      then show ?thesis using F by (simp only: e if_False)
    qed
    then show ?thesis using assms False n by (auto simp: memcpy_len_def Let_def)
  qed
qed

section \<open>Properties\<close>


text \<open>A heap at 0x1000 with a port, a message and 4096 free bytes; process 1 is the receiver.\<close>

definition ipc_heap :: kmem where
  "ipc_heap = \<lparr>km_store =
     [0x1000 \<mapsto> \<lparr>hb_magic = BLOCK_MAGIC, hb_size = 2192, hb_next = 0x18B8, hb_prev = 0, hb_used = 1\<rparr>,
      0x18B8 \<mapsto> \<lparr>hb_magic = BLOCK_MAGIC, hb_size = 544, hb_next = 0x1B00, hb_prev = 0x1000, hb_used = 1\<rparr>,
      0x1B00 \<mapsto> \<lparr>hb_magic = BLOCK_MAGIC, hb_size = 4096, hb_next = 0, hb_prev = 0x18B8, hb_used = 0\<rparr>],
     km_bytes = (\<lambda>_. 0)\<rparr>"

definition ipc_klime :: klime where
  "ipc_klime = \<lparr>start_slab_meta = 0, start_slab_data = 0, start_io = 0, start_dma = 0, start_heap = 0x1000,
     slab_allocator = [], total_heap = 6832, used_heap = 2816\<rparr>"

definition ipc_ex :: ipc where
  "ipc_ex = \<lparr>endpoints = (replicate 32 0)[1 := 0x1028],
     ports = [0x1028 \<mapsto> new_port\<lparr>ip_count := 1, ip_messages := 0x18E0 # replicate 255 0\<rparr>],
     msgs = [0x18E0 \<mapsto> \<lparr>m_sender_id = 2, m_receiver_id = 1, m_size = 5\<rparr>],
     ip_ul = upd_proc 8 (\<lambda>r. r\<lparr>p_pid := 1\<rparr>) ul_ex, ip_kl = Some ipc_klime, ip_km = ipc_heap\<rparr>"

lemma ipc_heap_inv: "klime_inv 0x1000 0x2B28 (ipc_klime, ipc_heap, {0x1028, 0x18E0})"
proof -
  let ?bs = "[(0x1000, 2192, True), (0x18B8, 544, True), (0x1B00, 4096, False)] :: ablock list"
  have "klime_ok ipc_klime ipc_heap ?bs 0x1000 0x2B28"
    by (simp add: klime_ok_def heap_ok_def ipc_heap_def ipc_klime_def HDR_def)
  moreover have "coalesced ?bs" by (simp add: coalesced_def)
  moreover have "live_ptrs ?bs = {0x1028, 0x18E0}" by (auto simp: HDR_def)
  ultimately show ?thesis unfolding klime_inv_def by blast
qed

lemma ipc_ex_simps:
  "endpoints ipc_ex ! 1 = 0x1028" "p_pid (procs (ip_ul ipc_ex) 8) = word_of_nat 1" "inbox ipc_ex 1 = [0x18E0]"
  "port_ok (new_port\<lparr>ip_count := 1, ip_messages := 0x18E0 # replicate 255 0\<rparr>)"
  by (simp_all add: ipc_ex_def upd_proc_def inbox_def port_items_def port_ok_def new_port_def ipc_consts)

lemma ipc_ex_inv: "ipc_inv 0x1000 0x2B28 {} ipc_ex"
proof -
  have nth: "endpoints ipc_ex ! i = (if i = 1 then 0x1028 else 0)" if "i < 32" for i
    using that by (simp add: ipc_ex_def nth_list_update)
  have ib: "inbox ipc_ex i = (if i = 1 then [0x18E0] else [])" if "i < 32" for i
    using that nth [OF that] ipc_ex_simps(3) by (cases "i = 1") (simp_all add: inbox_def, simp add: ipc_ex_def)
  have ad: "addressed ipc_ex i = (if i = 1 then {0x18E0} else {})" if "i < 32" for i
    using small_eq [of 1 i] that by (auto simp: addressed_def ipc_ex_def)
  have "set (endpoints ipc_ex) - {0} = insert 0x1028 (set (replicate 32 0) - {0})"
    using endpoints_put [of 1 "replicate 32 0" "0x1028"] by (simp add: ipc_ex_def)
  then have ep: "set (endpoints ipc_ex) - {0} = {0x1028}" by simp
  have "ipc_ok ipc_ex"
    unfolding ipc_ok_def ep
    using nth ib ad ipc_ex_simps(4) by (simp, simp add: ipc_ex_def)
  then show ?thesis
    using ipc_heap_inv by (auto simp: ipc_inv_def ipc_ex_def insert_commute)
qed


text \<open>
  A send to an open port with room: when the heap has no block for the
  message it returns -1 and no queue changes; otherwise it returns 0, the message, with the number
  of the sender, the size and the bytes that \<open>memcpy\<close> takes from the sender, comes last in the queue
  of the receiver, no other queue changes, and the receiver becomes ready when it was blocked.
\<close>

lemma ipc_send_delivers:
  assumes "ipc_inv lo hi base s" "i < 32" "ports s (endpoints s ! i) = Some p" "ip_open p"
    and "ip_count p < IPC_MAX_MESSAGES" "data \<noteq> 0" "sz \<noteq> 0" "sz \<le> IPC_MAX_MSG_SIZE"
  shows "\<exists>a s'. a \<notin> base \<union> dom (ports s) \<union> dom (msgs s) \<and> ipc_inv lo hi base s'
    \<and> send_msg s from_a (word_of_nat i) data sz = Some (SendDone (if a = 0 then -1 else 0), s')
    \<and> (if a = 0 then (\<forall>j. inbox s' j = inbox s j) \<and> msgs s' = msgs s \<and> ip_ul s' = ip_ul s
       else (\<forall>j<32. inbox s' j = (if j = i then inbox s i @ [a] else inbox s j))
         \<and> msgs s' = (msgs s)(a \<mapsto> \<lparr>m_sender_id = p_pid (procs (ip_ul s) from_a), m_receiver_id = word_of_nat i, m_size = sz\<rparr>)
         \<and> km_bytes (ip_km s') = memcpy (km_bytes (ip_km s)) (a + MSG_DATA) data (ucast sz)
         \<and> ip_ul s' = wake (find_proc (ip_ul s) (word_of_nat i)) (ip_ul s))"
proof -
  have nz: "endpoints s ! i \<noteq> 0" using assms(1,3) no_zero_port ipc_inv_sets(1) by fastforce
  have "send_msg s from_a (word_of_nat i) data sz = post_msg s from_a (word_of_nat i) data sz (endpoints s ! i) p"
    using assms nz by (simp add: send_msg_def get_ep_in Let_def send_loop_def linorder_not_less [symmetric])
  then show ?thesis using post_msg_spec [OF assms(1,2) nz assms(3,5), of from_a data sz] by metis
qed

lemma ipc_send_delivers_witness:
  "\<exists>r s'. send_msg ipc_ex 16 1 0x5000 12 = Some (r, s') \<and> ipc_inv 0x1000 0x2B28 {} s'"
proof -
  let ?p = "new_port\<lparr>ip_count := 1, ip_messages := 0x18E0 # replicate 255 0\<rparr>"
  have "ports ipc_ex (endpoints ipc_ex ! 1) = Some ?p" unfolding ipc_ex_simps(1) by (simp add: ipc_ex_def)
  then have "\<exists>r s'. send_msg ipc_ex 16 (word_of_nat 1) 0x5000 12 = Some (r, s') \<and> ipc_inv 0x1000 0x2B28 {} s'"
    using ipc_send_delivers [OF ipc_ex_inv, of 1 ?p "0x5000" 12 16] by (auto simp: new_port_def ipc_consts)
  then show ?thesis by simp
qed

text \<open>
  A receive on a port whose queue starts with \<open>a\<close> returns the smaller
  of the size of that message and of the buffer, leaves in the buffer what \<open>memcpy\<close> takes from the
  message and in \<open>out\<close> the sender, takes \<open>a\<close> off the queue and gives its block back, changes no other
  queue, and makes every recorded waiter ready that was blocked, and nobody else.
\<close>

lemma ipc_receive_takes_first:
  assumes "ipc_inv lo hi base s" "i < 32" "p_pid (procs (ip_ul s) proc) = word_of_nat i"
    and "ports s (endpoints s ! i) = Some p" "inbox s i = a # as"
  shows "\<exists>m s'. msgs s a = Some m \<and> ipc_inv lo hi base s'
    \<and> receive_async_msg s proc buf n out = Some (uint (min (m_size m) n), s')
    \<and> (\<forall>j<32. inbox s' j = (if j = i then as else inbox s j)) \<and> msgs s' = (msgs s)(a := None)
    \<and> km_bytes (ip_km s') = delivered m a buf n out (km_bytes (ip_km s))
    \<and> (\<forall>b. procs (ip_ul s') b = (if b \<noteq> 0 \<and> b \<in> set (take (ip_waiter_count p) (ip_waiters p))
          \<and> p_state (procs (ip_ul s) b) = PROC_BLOCKED
        then (procs (ip_ul s) b)\<lparr>p_state := PROC_READY\<rparr> else procs (ip_ul s) b))"
proof -
  have ok: "ipc_ok s" using assms(1) by (rule ipc_inv_sets)
  have nz: "endpoints s ! i \<noteq> 0" using assms(4) no_zero_port [OF ok] by auto
  have "port_ok p" using ipc_ok_port [OF ok assms(2) nz] assms(4) by simp
  then have "ip_waiter_count p \<le> length (ip_waiters p)" by (simp add: port_ok_def)
  from wake_waiters_procs [OF this] receive_spec [OF assms(1,2) nz assms(3,5), of buf n out] assms(4)
  show ?thesis by auto
qed

lemma ipc_receive_takes_first_witness:
  "\<exists>s'. receive_async_msg ipc_ex 8 0x6000 3 0 = Some (3, s') \<and> inbox s' 1 = []"
proof -
  let ?p = "new_port\<lparr>ip_count := 1, ip_messages := 0x18E0 # replicate 255 0\<rparr>"
  have "ports ipc_ex (endpoints ipc_ex ! 1) = Some ?p" unfolding ipc_ex_simps(1) by (simp add: ipc_ex_def)
  from ipc_receive_takes_first [OF ipc_ex_inv _ ipc_ex_simps(2) this ipc_ex_simps(3), of "0x6000" 3 0]
  obtain m s' where "msgs ipc_ex 0x18E0 = Some m"
    "receive_async_msg ipc_ex 8 0x6000 3 0 = Some (uint (min (m_size m) 3), s')" "inbox s' 1 = []" by auto
  moreover have "msgs ipc_ex 0x18E0 = Some \<lparr>m_sender_id = 2, m_receiver_id = 1, m_size = 5\<rparr>" by (simp add: ipc_ex_def)
  ultimately show ?thesis by auto
qed

text \<open>
  A send to an open port with 256 messages blocks the sender and changes
  no queue; the sender is recorded as a waiter when fewer than sixteen are, and otherwise nothing
  remembers that it waits.
\<close>

lemma ipc_full_port_blocks:
  assumes "i < 32" "endpoints s ! i \<noteq> 0" "ports s (endpoints s ! i) = Some p" "ip_open p" "port_ok p"
    and "ip_count p = IPC_MAX_MESSAGES" "data \<noteq> 0" "sz \<noteq> 0" "sz \<le> IPC_MAX_MSG_SIZE"
  shows "\<exists>s' q. send_msg s from_a (word_of_nat i) data sz = Some (SendBlocked (endpoints s ! i), s')
    \<and> p_state (procs (ip_ul s') from_a) = PROC_BLOCKED \<and> msgs s' = msgs s \<and> ip_km s' = ip_km s
    \<and> ports s' = (ports s)(endpoints s ! i \<mapsto> q) \<and> port_items q = port_items p \<and> port_ok q
    \<and> take (ip_waiter_count q) (ip_waiters q) = take (ip_waiter_count p) (ip_waiters p)
        @ (if ip_waiter_count p < IPC_MAX_WAITERS then [from_a] else [])"
proof -
  define q where "q = (if ip_waiter_count p < IPC_MAX_WAITERS
     then p\<lparr>ip_waiters := (ip_waiters p)[ip_waiter_count p := from_a], ip_waiter_count := ip_waiter_count p + 1\<rparr> else p)"
  define s' where "s' = (set_port (endpoints s ! i) q s)\<lparr>ip_ul := block from_a (ip_ul s)\<rparr>"
  have "send_msg s from_a (word_of_nat i) data sz = Some (SendBlocked (endpoints s ! i), s')"
    using assms by (simp add: send_msg_def get_ep_in Let_def send_loop_def linorder_not_less [symmetric] q_def s'_def)
  moreover have "port_items q = port_items p" "port_ok q"
    "take (ip_waiter_count q) (ip_waiters q) = take (ip_waiter_count p) (ip_waiters p)
        @ (if ip_waiter_count p < IPC_MAX_WAITERS then [from_a] else [])"
    using assms(5) by (auto simp: q_def port_items_def port_ok_def take_Suc_conv_app_nth)
  moreover have "p_state (procs (ip_ul s') from_a) = PROC_BLOCKED" "msgs s' = msgs s" "ip_km s' = ip_km s"
    "ports s' = (ports s)(endpoints s ! i \<mapsto> q)" by (simp_all add: s'_def block_def upd_proc_def)
  ultimately show ?thesis by blast
qed

lemma ipc_full_port_blocks_witness:
  "\<exists>s'. send_msg (set_port 0x1028 (new_port\<lparr>ip_count := 256\<rparr>) ipc_ex) 16 1 0x5000 12 = Some (SendBlocked 0x1028, s')
     \<and> p_state (procs (ip_ul s') 16) = PROC_BLOCKED"
  using ipc_full_port_blocks [of 1 "set_port 0x1028 (new_port\<lparr>ip_count := 256\<rparr>) ipc_ex" "new_port\<lparr>ip_count := 256\<rparr>" "0x5000" 12 16]
    ipc_ex_simps(1) by (auto simp: new_port_def ipc_consts port_ok_def)

text \<open>
  A sender that waits for room in a port keeps the pointer to it:
  when the owner of the port ends, the next round of the loop of the sender reads freed memory.
\<close>

lemma ipc_blocked_sender_dangles:
  assumes "ipc_inv lo hi base s" "i < 32" "p_pid (procs (ip_ul s) proc) = word_of_nat i"
    and "endpoints s ! i \<noteq> 0" "destroy_endpoint s proc = Some s'"
  shows "ipc_inv lo hi base s' \<and> send_loop s' from_a (word_of_nat i) data sz (endpoints s ! i) = None"
proof -
  from destroy_spec [OF assms(1-3)] assms(5) have inv: "ipc_inv lo hi base s'" by auto
  have "ports s' (endpoints s ! i) = None"
    using assms(4,5) get_ep_eq(1) [OF assms(3,2)]
    by (auto simp: destroy_endpoint_def Let_def split: option.splits)
  then show ?thesis using inv by (simp add: send_loop_def)
qed

lemma ipc_blocked_sender_dangles_witness:
  "\<exists>s'. destroy_endpoint ipc_ex 8 = Some s' \<and> send_loop s' 16 (word_of_nat 1) 0x5000 12 (endpoints ipc_ex ! 1) = None"
proof -
  obtain s' where "destroy_endpoint ipc_ex 8 = Some s'" using destroy_returns [OF ipc_ex_inv, of 8] by blast
  then show ?thesis using ipc_blocked_sender_dangles [OF ipc_ex_inv _ ipc_ex_simps(2)] ipc_ex_simps(1) by simp
qed

text \<open>
  C16. Whatever messages are put on the array of a port, as long as there is room,
  and taken off it: what came out, followed by what is still queued, is what was queued at first
  followed by what was accepted, in that order.
\<close>

theorem ipc_port_fifo:
  assumes "port_ok p"
  shows "fst (mq.run ops p) @ port_items (snd (mq.run ops p)) =
    port_items p @ accepted IPC_MAX_MESSAGES ops (ip_count p)"
  using assms by (rule mq.fifo)

theorem ipc_port_fifo_witness:
  "fst (mq.run [Enq 7, Enq 8, Deq] new_port) @ port_items (snd (mq.run [Enq 7, Enq 8, Deq] new_port)) = [7, 8]"
  unfolding ipc_port_fifo [OF new_port_ok(1)] new_port_ok(2) by (simp add: new_port_def ipc_consts)

end
