(* ===== verification/Shm.thy ===== *)
theory Shm
  imports Ulime
begin

text \<open>
  Shared memory regions: \<^verbatim>\<open>emex/kernel/ipc/shared_memory.c\<close>. The table has 64 slots; a region
  owns up to 64 single frames and remembers at which address each of 32 processes sees it. The
  machine, with its frames and page tables, is the one of theory Ulime.
\<close>

section \<open>State\<close>

definition SHM_MAX :: nat where "SHM_MAX = 64"
definition SHM_MAX_PAGES :: u32 where "SHM_MAX_PAGES = 64"
definition SHM_MAX_PROCS :: u64 where "SHM_MAX_PROCS = 32"

record shm =
  shm_id :: u64
  phys_pages :: "u64 list"
  page_count :: u32
  ref_count :: int
  shm_used :: bool
  virt_per_proc :: "u64 list"

record shms =
  shm_table :: "shm list"
  shm_counter :: u64
  sh_ul :: ulime

definition ipc_shm_init :: "shms \<Rightarrow> shms" where
  "ipc_shm_init s = s\<lparr>shm_table := map (\<lambda>r. r\<lparr>shm_used := False, shm_id := 0, ref_count := 0\<rparr>) (shm_table s)\<rparr>"

text \<open>The index of a slot, \<open>None\<close> for the NULL pointer.\<close>

definition shm_find :: "shms \<Rightarrow> u64 \<Rightarrow> nat option" where
  "shm_find s k = find (\<lambda>i. shm_used (shm_table s ! i) \<and> shm_id (shm_table s ! i) = k) [0..<SHM_MAX]"

definition shm_alloc_slot :: "shms \<Rightarrow> nat option" where
  "shm_alloc_slot s = find (\<lambda>i. \<not> shm_used (shm_table s ! i)) [0..<SHM_MAX]"

definition upd_shm :: "nat \<Rightarrow> (shm \<Rightarrow> shm) \<Rightarrow> shms \<Rightarrow> shms" where
  "upd_shm i f s = s\<lparr>shm_table := (shm_table s)[i := f (shm_table s ! i)]\<rparr>"

definition sh_pm :: "shms \<Rightarrow> physmem" where
  "sh_pm s = pg_pm (ul_pg (sh_ul s))"

definition set_sh_pm :: "physmem \<Rightarrow> shms \<Rightarrow> shms" where
  "set_sh_pm pm s = s\<lparr>sh_ul := set_pm pm (sh_ul s)\<rparr>"

section \<open>Frames of a region\<close>

fun free_pages :: "nat list \<Rightarrow> u64 list \<Rightarrow> physmem \<Rightarrow> (u64 list \<times> physmem) outcome" where
  "free_pages [] ps pm = Inr (ps, pm)"
| "free_pages (i # is) ps pm =
    (if ps ! i \<noteq> 0 then obind (physmem_free_to pm (ps ! i) 1) (free_pages is (ps[i := 0]))
     else free_pages is ps pm)"

definition shm_free_phys :: "nat \<Rightarrow> shms \<Rightarrow> shms outcome" where
  "shm_free_phys i s =
    (let r = shm_table s ! i
     in obind (free_pages [0..<unat (page_count r)] (phys_pages r) (sh_pm s)) (\<lambda>(ps, pm).
        Inr (upd_shm i (\<lambda>r. r\<lparr>phys_pages := ps, shm_used := False, ref_count := 0\<rparr>) (set_sh_pm pm s))))"

text \<open>The loop of \<open>shm_create\<close>: \<open>False\<close> when a frame was missing, after the earlier ones were freed.\<close>

fun undo_pages :: "nat list \<Rightarrow> u64 list \<Rightarrow> physmem \<Rightarrow> physmem outcome" where
  "undo_pages [] ps pm = Inr pm"
| "undo_pages (j # js) ps pm = obind (physmem_free_to pm (ps ! j) 1) (undo_pages js ps)"

fun take_pages :: "nat list \<Rightarrow> u64 list \<Rightarrow> physmem \<Rightarrow> (bool \<times> u64 list \<times> physmem) outcome" where
  "take_pages [] ps pm = Inr (True, ps, pm)"
| "take_pages (i # is) ps pm = obind (physmem_alloc_to pm 1) (\<lambda>(phys, pm1).
     if phys = 0 then obind (undo_pages [0..<i] ps pm1) (\<lambda>pm2. Inr (False, ps, pm2))
     else take_pages is (ps[i := phys]) pm1)"

definition shm_create :: "shms \<Rightarrow> u32 \<Rightarrow> (u64 \<times> shms) outcome" where
  "shm_create s pages =
    (if pages = 0 \<or> SHM_MAX_PAGES < pages then Inr (0, s)
     else case shm_alloc_slot s of None \<Rightarrow> Inr (0, s)
     | Some i \<Rightarrow> obind (take_pages [0..<unat pages] (phys_pages (shm_table s ! i)) (sh_pm s)) (\<lambda>(ok, ps, pm).
         let s1 = upd_shm i (\<lambda>r. r\<lparr>phys_pages := ps\<rparr>) (set_sh_pm pm s)
         in if \<not> ok then Inr (0, s1)
            else Inr (shm_counter s, (upd_shm i (\<lambda>r. r\<lparr>shm_id := shm_counter s, page_count := pages, ref_count := 0,
                     shm_used := True, virt_per_proc := replicate (unat SHM_MAX_PROCS) 0\<rparr>) s1)
                   \<lparr>shm_counter := shm_counter s + 1\<rparr>)))"

section \<open>Attaching and detaching\<close>

text \<open>The result of \<open>shm_attach\<close> is the address, 0 for NULL.\<close>

definition shm_attach :: "shms \<Rightarrow> u64 \<Rightarrow> u64 \<Rightarrow> (u64 \<times> shms) outcome" where
  "shm_attach s proc k =
    (case shm_find s k of None \<Rightarrow> Inr (0, s)
     | Some i \<Rightarrow>
       let r = shm_table s ! i; pid = p_pid (procs (sh_ul s) proc)
       in if SHM_MAX_PROCS \<le> pid then Inr (0, s)
          else if virt_per_proc r ! unat pid \<noteq> 0 then Inr (virt_per_proc r ! unat pid, s)
          else let virt = page_up (user_space_used (sh_ul s));
                   u1 = (sh_ul s)\<lparr>user_space_used := virt + ucast (page_count r) * PAGE_SIZE\<rparr>;
                   flags = PTE_PRESENT OR PTE_WRITABLE OR PTE_USER
               in obind (fold (\<lambda>j pg. obind pg (paging_map_page_proc (p_pml4_phys (procs u1 proc))
                      (virt + word_of_nat j * PAGE_SIZE) (phys_pages r ! j) flags)) [0..<unat (page_count r)]
                    (Inr (ul_pg u1))) (\<lambda>pg.
                  Inr (virt, upd_shm i (\<lambda>r. r\<lparr>virt_per_proc := (virt_per_proc r)[unat pid := virt],
                        ref_count := ref_count r + 1\<rparr>) (s\<lparr>sh_ul := u1\<lparr>ul_pg := pg\<rparr>\<rparr>))))"

definition shm_detach :: "shms \<Rightarrow> u64 \<Rightarrow> u64 \<Rightarrow> shms outcome" where
  "shm_detach s proc k =
    (case shm_find s k of None \<Rightarrow> Inr s
     | Some i \<Rightarrow>
       let r = shm_table s ! i; pid = p_pid (procs (sh_ul s) proc)
       in if SHM_MAX_PROCS \<le> pid then Inr s
          else if virt_per_proc r ! unat pid = 0 then Inr s
          else let virt = virt_per_proc r ! unat pid
               in obind (fold (\<lambda>j pg. obind pg (paging_map_page_proc (p_pml4_phys (procs (sh_ul s) proc))
                      (virt + word_of_nat j * PAGE_SIZE) 0 0)) [0..<unat (page_count r)]
                    (Inr (ul_pg (sh_ul s)))) (\<lambda>pg.
                  let s1 = upd_shm i (\<lambda>r. r\<lparr>virt_per_proc := (virt_per_proc r)[unat pid := 0],
                        ref_count := ref_count r - 1\<rparr>) (s\<lparr>sh_ul := (sh_ul s)\<lparr>ul_pg := pg\<rparr>\<rparr>)
                  in if ref_count r - 1 \<le> 0 then shm_free_phys i s1 else Inr s1))"

definition shm_detach_all :: "shms \<Rightarrow> u64 \<Rightarrow> shms outcome" where
  "shm_detach_all s proc =
    (let pid = p_pid (procs (sh_ul s) proc)
     in if SHM_MAX_PROCS \<le> pid then Inr s
        else fold (\<lambda>i t. obind t (\<lambda>s. let r = shm_table s ! i
               in if shm_used r \<and> virt_per_proc r ! unat pid \<noteq> 0 then shm_detach s proc (shm_id r) else Inr s))
             [0..<SHM_MAX] (Inr s))"

section \<open>Frames taken and given back\<close>

text \<open>The frames of the first \<open>n\<close> entries.\<close>

definition frames_of :: "u64 list \<Rightarrow> nat \<Rightarrow> nat set" where
  "frames_of ps n = (\<lambda>j. unat (ps ! j) div 4096) ` {..<n}"

lemma page_run_1: "page_run a 1 = {unat a div 4096}"
  by (auto simp: page_run_def)

lemma obind_Inr [simp]: "obind (Inr x) f = f x"
  by (simp add: obind_def)

text \<open>A region under construction: its first \<open>n\<close> pages are distinct frames in use that \<open>pm0\<close> has free.\<close>

definition taken_ok :: "physmem \<Rightarrow> physmem \<Rightarrow> u64 list \<Rightarrow> nat \<Rightarrow> bool" where
  "taken_ok pm0 pm ps n \<longleftrightarrow> pm_ok pm \<and> unat (pm_total pm) = unat (pm_total pm0) \<and> n \<le> length ps
     \<and> inj_on (\<lambda>j. unat (ps ! j) div 4096) {..<n} \<and> (\<forall>j<n. ps ! j \<noteq> 0 \<and> unat (ps ! j) mod 4096 = 0)
     \<and> frames_of ps n \<subseteq> {f. f < unat (pm_total pm0) \<and> frame_free pm0 f}
     \<and> (\<forall>f. frame_free pm f \<longleftrightarrow> f \<notin> frames_of ps n \<and> frame_free pm0 f)"

lemma frames_of_upd: "n < length ps \<Longrightarrow> frames_of (ps[n := a]) (Suc n) = insert (unat a div 4096) (frames_of ps n)"
  by (auto simp: frames_of_def lessThan_Suc)

lemma taken_step:
  assumes t: "taken_ok pm0 pm ps n" and n: "n < length ps"
    and a: "physmem_alloc_to pm 1 = Inr (a, pm1)" "a \<noteq> 0"
  shows "taken_ok pm0 pm1 (ps[n := a]) (Suc n)"
proof -
  have ok: "pm_ok pm" using t by (simp add: taken_ok_def)
  have r: "unat a mod 4096 = 0" "unat a div 4096 < unat (pm_total pm)" "frame_free pm (unat a div 4096)"
    using pm.alloc_run [OF ok a] by (auto simp: page_run_1)
  have f: "frame_free pm1 j \<longleftrightarrow> j \<noteq> unat a div 4096 \<and> frame_free pm j" for j
    using pm.alloc_isfree [OF ok a] by (simp add: page_run_1)
  have new: "unat a div 4096 \<notin> frames_of ps n" using r(3) t by (auto simp: taken_ok_def)
  then have new': "\<forall>x<n. unat (ps ! x) div 4096 \<noteq> unat a div 4096" by (force simp: frames_of_def)
  have inj: "inj_on (\<lambda>j. unat (ps[n := a] ! j) div 4096) {..<Suc n}"
    using t new' n by (auto simp: taken_ok_def inj_on_def nth_list_update less_Suc_eq)
  show ?thesis
    using t n r f inj pm.alloc_ok [OF ok a(1)] a(2) unfolding taken_ok_def frames_of_upd [OF n]
    by (auto simp: nth_list_update less_Suc_eq)
qed

lemma undo_spec:
  "pm_ok pm \<Longrightarrow> \<forall>j\<in>set js. unat (ps ! j) div 4096 < unat (pm_total pm) \<Longrightarrow>
   \<exists>pm'. undo_pages js ps pm = Inr pm' \<and> pm_ok pm' \<and> unat (pm_total pm') = unat (pm_total pm)
     \<and> (\<forall>f. frame_free pm' f \<longleftrightarrow> f \<in> (\<lambda>j. unat (ps ! j) div 4096) ` set js \<or> frame_free pm f)"
proof (induction js arbitrary: pm)
  case (Cons j js)
  obtain pm1 where pm1: "physmem_free_to pm (ps ! j) 1 = Inr pm1" "pm_ok pm1"
    "unat (pm_total pm1) = unat (pm_total pm)" using pm.release_total [OF Cons.prems(1)] by blast
  have f: "frame_free pm1 f \<longleftrightarrow> f = unat (ps ! j) div 4096 \<or> frame_free pm f" for f
    using pm.release_isfree [OF Cons.prems(1) pm1(1)] Cons.prems(2) by (simp add: page_run_1)
  obtain pm' where "undo_pages js ps pm1 = Inr pm'" "pm_ok pm'" "unat (pm_total pm') = unat (pm_total pm1)"
    "\<forall>f. frame_free pm' f \<longleftrightarrow> f \<in> (\<lambda>j. unat (ps ! j) div 4096) ` set js \<or> frame_free pm1 f"
    using Cons.IH [OF pm1(2)] Cons.prems(2) pm1(3) by auto
  then show ?case using pm1 f by auto
qed simp

lemma take_pages_spec:
  "taken_ok pm0 pm ps n \<Longrightarrow> n + k \<le> length ps \<Longrightarrow>
   \<exists>ok ps' pm'. take_pages [n..<n + k] ps pm = Inr (ok, ps', pm') \<and> length ps' = length ps
     \<and> (if ok then taken_ok pm0 pm' ps' (n + k)
        else pm_ok pm' \<and> unat (pm_total pm') = unat (pm_total pm0) \<and> frame_free pm' = frame_free pm0)"
proof (induction k arbitrary: n ps pm)
  case 0
  then show ?case by (intro exI [of _ True]) simp
next
  case (Suc k)
  have ok: "pm_ok pm" using Suc.prems(1) by (simp add: taken_ok_def)
  obtain a pm1 where a: "physmem_alloc_to pm 1 = Inr (a, pm1)" using pm.alloc_total [OF ok, of 1] by blast
  have e: "[n..<n + Suc k] = n # [Suc n..<Suc n + k]" by (simp add: upt_conv_Cons del: upt_Suc)
  show ?case
  proof (cases "a = 0")
    case True
    have "pm1 = pm" using a True pm.alloc_fail [OF ok] by simp
    moreover have "\<forall>j\<in>set [0..<n]. unat (ps ! j) div 4096 < unat (pm_total pm)"
      using Suc.prems(1) by (fastforce simp: taken_ok_def frames_of_def)
    ultimately obtain pm' where "undo_pages [0..<n] ps pm1 = Inr pm'" "pm_ok pm'"
      "unat (pm_total pm') = unat (pm_total pm)"
      "\<forall>f. frame_free pm' f \<longleftrightarrow> f \<in> (\<lambda>j. unat (ps ! j) div 4096) ` set [0..<n] \<or> frame_free pm f"
      using undo_spec [OF ok] by blast
    moreover have "frame_free pm' = frame_free pm0"
      using calculation(4) Suc.prems(1) by (auto simp: taken_ok_def frames_of_def fun_eq_iff lessThan_atLeast0)
    ultimately show ?thesis using a True Suc.prems(1) unfolding e
      by (intro exI [of _ False]) (simp add: taken_ok_def del: upt_Suc)
  next
    case False
    have n: "n < length ps" "Suc n + k \<le> length (ps[n := a])" using Suc.prems(2) by simp_all
    have "take_pages [n..<n + Suc k] ps pm = take_pages [Suc n..<Suc n + k] (ps[n := a]) pm1"
      using a False unfolding e by (simp del: upt_Suc)
    then show ?thesis
      using Suc.IH [OF taken_step [OF Suc.prems(1) n(1) a False] n(2)] by (simp only: length_list_update add_Suc_right add_Suc)
  qed
qed

lemma shm_alloc_slot_spec:
  "shm_alloc_slot s = Some i \<Longrightarrow> i < SHM_MAX \<and> \<not> shm_used (shm_table s ! i)"
  "shm_alloc_slot s = None \<longleftrightarrow> (\<forall>i<SHM_MAX. shm_used (shm_table s ! i))"
  by (auto simp: shm_alloc_slot_def find_Some_iff find_None_iff)

lemma sh_simps [simp]:
  "sh_pm (set_sh_pm pm s) = pm" "sh_pm (upd_shm i f s) = sh_pm s" "sh_pm (s\<lparr>shm_counter := c\<rparr>) = sh_pm s"
  "shm_table (set_sh_pm pm s) = shm_table s" "sh_ul (upd_shm i f s) = sh_ul s"
  "shm_counter (set_sh_pm pm s) = shm_counter s" "shm_counter (upd_shm i f s) = shm_counter s"
  "shm_table (upd_shm i f s) = (shm_table s)[i := f (shm_table s ! i)]"
  by (simp_all add: sh_pm_def set_sh_pm_def set_pm_def upd_shm_def)

definition shm_ok :: "shms \<Rightarrow> bool" where
  "shm_ok s \<longleftrightarrow> length (shm_table s) = SHM_MAX \<and> pm_ok (sh_pm s)
     \<and> (\<forall>r\<in>set (shm_table s). length (phys_pages r) = unat SHM_MAX_PAGES \<and> unat (page_count r) \<le> unat SHM_MAX_PAGES
          \<and> length (virt_per_proc r) = unat SHM_MAX_PROCS)"

section \<open>Properties\<close>

text \<open>
  Creating a region of 1 to 64 pages when a slot is free: either a frame
  was missing, 0 is returned, and the same frames are free as before; or the number of the region is
  returned, its slot holds that many distinct frames that were free, and exactly those stopped being
  free.
\<close>

lemma shm_create_frames:
  assumes "shm_ok s" "pages \<noteq> 0" "pages \<le> SHM_MAX_PAGES" "shm_alloc_slot s = Some i"
  shows "\<exists>ok s'. shm_create s pages = Inr (if ok then shm_counter s else 0, s') \<and> shm_ok s'
    \<and> (if ok then let r = shm_table s' ! i in shm_used r \<and> shm_id r = shm_counter s \<and> page_count r = pages
          \<and> ref_count r = 0 \<and> virt_per_proc r = replicate 32 0
          \<and> taken_ok (sh_pm s) (sh_pm s') (phys_pages r) (unat pages)
       else frame_free (sh_pm s') = frame_free (sh_pm s))"
proof -
  let ?r = "shm_table s ! i"
  have i: "i < SHM_MAX" using shm_alloc_slot_spec(1) [OF assms(4)] by simp
  then have m: "?r \<in> set (shm_table s)" using assms(1) by (simp add: shm_ok_def)
  have c: "unat SHM_MAX_PAGES = 64" by (simp add: SHM_MAX_PAGES_def)
  have len: "length (phys_pages ?r) = 64" using assms(1) m by (simp add: shm_ok_def c)
  have p: "unat pages \<le> 64" using assms(3) by (simp add: SHM_MAX_PAGES_def word_le_nat_alt)
  have "taken_ok (sh_pm s) (sh_pm s) (phys_pages ?r) 0"
    using assms(1) by (simp add: taken_ok_def shm_ok_def frames_of_def)
  from take_pages_spec [OF this, of "unat pages", unfolded add_0] obtain ok ps pm where
    t: "take_pages [0..<unat pages] (phys_pages ?r) (sh_pm s) = Inr (ok, ps, pm)" "length ps = 64"
      "if ok then taken_ok (sh_pm s) pm ps (unat pages)
       else pm_ok pm \<and> unat (pm_total pm) = unat (pm_total (sh_pm s)) \<and> frame_free pm = frame_free (sh_pm s)"
    using p len by auto
  have pm: "pm_ok pm" using t(3) by (cases ok) (auto simp: taken_ok_def)
  have np: "\<not> (pages = 0 \<or> SHM_MAX_PAGES < pages)" using assms(2,3) by auto
  have mem: "\<forall>r\<in>set ((shm_table s)[i := x]). Q r" if "\<forall>r\<in>set (shm_table s). Q r" "Q x" for x Q
    using set_update_subset_insert [of "shm_table s" i x] that by blast
  show ?thesis
  proof (cases ok)
    case True
    define s' where "s' = (upd_shm i (\<lambda>r. r\<lparr>shm_id := shm_counter s, page_count := pages, ref_count := 0,
       shm_used := True, virt_per_proc := replicate (unat SHM_MAX_PROCS) 0\<rparr>)
       (upd_shm i (\<lambda>r. r\<lparr>phys_pages := ps\<rparr>) (set_sh_pm pm s)))\<lparr>shm_counter := shm_counter s + 1\<rparr>"
    have tb: "shm_table s' = (shm_table s)[i := ?r\<lparr>phys_pages := ps, shm_id := shm_counter s, page_count := pages,
       ref_count := 0, shm_used := True, virt_per_proc := replicate (unat SHM_MAX_PROCS) 0\<rparr>]"
      using i assms(1) by (simp add: s'_def shm_ok_def)
    have "shm_create s pages = Inr (shm_counter s, s')"
      unfolding shm_create_def if_not_P [OF np] using assms(4) t(1) True by (simp add: s'_def)
    moreover have "shm_ok s'"
      unfolding shm_ok_def tb
      by (intro conjI mem) (use assms(1) t(2) pm p in \<open>simp_all add: shm_ok_def c s'_def\<close>)
    moreover have "shm_table s' ! i = ?r\<lparr>phys_pages := ps, shm_id := shm_counter s, page_count := pages,
       ref_count := 0, shm_used := True, virt_per_proc := replicate 32 0\<rparr>"
      using i assms(1) unfolding tb by (simp add: shm_ok_def SHM_MAX_PROCS_def)
    ultimately show ?thesis using True t(3) by (intro exI [of _ True] exI [of _ s']) (simp add: s'_def)
  next
    case False
    define s' where "s' = upd_shm i (\<lambda>r. r\<lparr>phys_pages := ps\<rparr>) (set_sh_pm pm s)"
    have tb: "shm_table s' = (shm_table s)[i := ?r\<lparr>phys_pages := ps\<rparr>]" by (simp add: s'_def)
    have "shm_create s pages = Inr (0, s')"
      unfolding shm_create_def if_not_P [OF np] using assms(4) t(1) False by (simp add: s'_def)
    moreover have "shm_ok s'"
      unfolding shm_ok_def tb
      by (intro conjI mem) (use assms(1) m t(2) pm in \<open>simp_all add: shm_ok_def c s'_def\<close>)
    ultimately show ?thesis using False t(3) by (intro exI [of _ False] exI [of _ s']) (simp add: s'_def)
  qed
qed

text \<open>A machine with 520 frames and an empty table.\<close>

definition shm_slot :: shm where
  "shm_slot = \<lparr>shm_id = 0, phys_pages = replicate 64 0, page_count = 0, ref_count = 0,
       shm_used = False, virt_per_proc = replicate 32 0\<rparr>"

definition shm_ex :: shms where
  "shm_ex = \<lparr>shm_table = shm_slot # replicate 63 shm_slot, shm_counter = 1,
     sh_ul = upd_proc 8 (\<lambda>r. r\<lparr>p_pid := 3, p_pml4_phys := 0x300000\<rparr>) ul_ex\<rparr>"

lemma shm_ex_ok: "shm_ok shm_ex" "shm_alloc_slot shm_ex = Some 0"
proof -
  have pm: "sh_pm shm_ex = pm_520"
    by (simp add: shm_ex_def sh_pm_def upd_proc_def ul_ex_def ulime_init_def pg_ex_def)
  show "shm_ok shm_ex"
    unfolding shm_ok_def pm using pm_520_ok
    by (simp add: shm_ex_def shm_slot_def SHM_MAX_def SHM_MAX_PAGES_def SHM_MAX_PROCS_def)
  show "shm_alloc_slot shm_ex = Some 0"
    by (simp add: shm_alloc_slot_def SHM_MAX_def upt_rec shm_ex_def shm_slot_def)
qed

lemma shm_create_frames_witness:
  "\<exists>r s'. shm_create shm_ex 2 = Inr (r, s') \<and> shm_ok s'"
  using shm_create_frames [OF shm_ex_ok(1) _ _ shm_ex_ok(2), of 2] by (auto simp: SHM_MAX_PAGES_def)

text \<open>
  A process attaches a region it does not see yet: with three free frames for
  each page the call succeeds, the region appears at the first page boundary above the user space
  in use, each of its pages translates to the frame of the region with the flags present, writable
  and user, no other page of the process changes, the count of users grows by one, and a second
  attach returns the same address and changes nothing.
\<close>

lemma shm_attach_maps:
  assumes "shm_ok s" "shm_find s k = Some i" "p_pid (procs (sh_ul s) proc) = pid" "pid < SHM_MAX_PROCS"
    and "virt_per_proc (shm_table s ! i) ! unat pid = 0"
    and "pt_ok (ul_pg (sh_ul s)) root" "p_pml4_phys (procs (sh_ul s) proc) = root"
    and "3 * unat (page_count (shm_table s ! i)) \<le> spare (sh_pm s)"
    and "v = page_up (user_space_used (sh_ul s))" "v \<noteq> 0"
  shows "\<exists>s'. shm_attach s proc k = Inr (v, s') \<and> pt_ok (ul_pg (sh_ul s')) root
    \<and> ref_count (shm_table s' ! i) = ref_count (shm_table s ! i) + 1
    \<and> shm_attach s' proc k = Inr (v, s')
    \<and> (\<forall>va. translate (ul_pg (sh_ul s')) root va =
         (case find (\<lambda>j. same_page va (v + word_of_nat j * PAGE_SIZE)) [0..<unat (page_count (shm_table s ! i))] of
            None \<Rightarrow> translate (ul_pg (sh_ul s)) root va
          | Some j \<Rightarrow> let e = (phys_pages (shm_table s ! i) ! j AND ADDR_MASK) OR (PTE_PRESENT OR PTE_WRITABLE OR PTE_USER)
              in if present e then Some e else None))"
proof -
  let ?r = "shm_table s ! i" and ?fl = "PTE_PRESENT OR PTE_WRITABLE OR PTE_USER"
  let ?n = "unat (page_count ?r)"
  have i: "i < SHM_MAX" "shm_used ?r" "shm_id ?r = k" and first: "\<forall>j<i. \<not> (shm_used (shm_table s ! j) \<and> shm_id (shm_table s ! j) = k)"
    using assms(2) by (auto simp: shm_find_def find_Some_iff)
  have len: "length (shm_table s) = SHM_MAX" using assms(1) by (simp add: shm_ok_def)
  then have mem: "?r \<in> set (shm_table s)" using i(1) by simp
  have n: "?n \<le> 64" and lv: "length (virt_per_proc ?r) = 32"
    using assms(1) mem by (auto simp: shm_ok_def SHM_MAX_PAGES_def SHM_MAX_PROCS_def)
  have pid: "unat pid < 32" "\<not> SHM_MAX_PROCS \<le> pid" using assms(4) by (auto simp: SHM_MAX_PROCS_def word_less_nat_alt word_le_nat_alt)
  obtain pg where pg: "fold (\<lambda>j r. obind r (paging_map_page_proc root (v + word_of_nat j * PAGE_SIZE) (phys_pages ?r ! j) ?fl))
      [0..<?n] (Inr (ul_pg (sh_ul s))) = Inr pg" "pt_ok pg root"
      "\<forall>va. translate pg root va = (case find (\<lambda>j. same_page va (v + word_of_nat j * PAGE_SIZE)) [0..<?n] of
          None \<Rightarrow> translate (ul_pg (sh_ul s)) root va
        | Some j \<Rightarrow> let e = (phys_pages ?r ! j AND ADDR_MASK) OR ?fl in if present e then Some e else None)"
    using map_run [OF assms(6), of ?n v "\<lambda>j. phys_pages ?r ! j" ?fl] assms(8) n by (auto simp: sh_pm_def)
  define u where "u = (sh_ul s)\<lparr>user_space_used := v + ucast (page_count ?r) * PAGE_SIZE, ul_pg := pg\<rparr>"
  define s' where "s' = upd_shm i (\<lambda>r. r\<lparr>virt_per_proc := (virt_per_proc r)[unat pid := v], ref_count := ref_count r + 1\<rparr>)
     (s\<lparr>sh_ul := u\<rparr>)"
  have a: "shm_attach s proc k = Inr (v, s')"
    using assms(2,3,5,7) pid(2) pg(1) unfolding assms(9) [symmetric]
    by (simp add: shm_attach_def Let_def assms(9) [symmetric] s'_def u_def)
  have tb: "shm_table s' = (shm_table s)[i := ?r\<lparr>virt_per_proc := (virt_per_proc ?r)[unat pid := v], ref_count := ref_count ?r + 1\<rparr>]"
    by (simp add: s'_def upd_shm_def)
  have nth: "shm_table s' ! j = (if j = i then ?r\<lparr>virt_per_proc := (virt_per_proc ?r)[unat pid := v], ref_count := ref_count ?r + 1\<rparr>
      else shm_table s ! j)" if "j < SHM_MAX" for j
    using that len by (simp add: tb nth_list_update)
  have same: "shm_used (shm_table s' ! j) = shm_used (shm_table s ! j)" "shm_id (shm_table s' ! j) = shm_id (shm_table s ! j)"
    if "j < SHM_MAX" for j using nth [OF that] by simp_all
  have "shm_find s' k = shm_find s k" unfolding shm_find_def by (rule find_cong) (auto simp: same)
  moreover have "procs (sh_ul s') = procs (sh_ul s)" by (simp add: s'_def u_def upd_shm_def)
  ultimately have "shm_attach s' proc k = Inr (v, s')"
    using assms(2,3,10) pid lv nth [OF i(1)] by (simp add: shm_attach_def Let_def)
  moreover have "ul_pg (sh_ul s') = pg" by (simp add: s'_def u_def upd_shm_def)
  ultimately show ?thesis using a pg(2,3) nth [OF i(1)] by (intro exI [of _ s']) simp
qed

definition shm_used_ex :: shms where
  "shm_used_ex = upd_shm 0 (\<lambda>r. r\<lparr>shm_id := 7, page_count := 1, phys_pages := 0x5000 # replicate 63 0, shm_used := True\<rparr>) shm_ex"

lemma shm_attach_maps_witness:
  "\<exists>s'. shm_attach shm_used_ex 8 7 = Inr (0x40000000, s') \<and> shm_attach s' 8 7 = Inr (0x40000000, s')
     \<and> translate (ul_pg (sh_ul s')) 0x300000 0x40000010 = Some 0x5007"
proof -
  let ?r = "\<lparr>shm_id = 7, phys_pages = 0x5000 # replicate 63 0, page_count = 1, ref_count = 0,
       shm_used = True, virt_per_proc = replicate 32 0\<rparr>"
  have z: "shm_table shm_used_ex = ?r # tl (shm_table shm_ex)" "sh_ul shm_used_ex = sh_ul shm_ex"
    by (simp_all add: shm_used_ex_def upd_shm_def shm_ex_def shm_slot_def)
  have r: "shm_table shm_used_ex ! 0 = ?r" by (simp add: z)
  have "set (tl (shm_table shm_ex)) \<subseteq> set (shm_table shm_ex)" by (simp add: shm_ex_def)
  then have ok: "shm_ok shm_used_ex"
    using shm_ex_ok(1) unfolding shm_ok_def sh_pm_def z
    by (auto simp: SHM_MAX_PAGES_def SHM_MAX_PROCS_def SHM_MAX_def)
  have f: "shm_find shm_used_ex 7 = Some 0"
    by (simp add: shm_find_def SHM_MAX_def upt_rec z)
  have u: "ul_pg (sh_ul shm_used_ex) = pg_ex" "p_pml4_phys (procs (sh_ul shm_used_ex) 8) = 0x300000"
    "p_pid (procs (sh_ul shm_used_ex) 8) = 3" "user_space_used (sh_ul shm_used_ex) = 0x40000000"
    unfolding z by (simp_all add: shm_ex_def upd_proc_def ul_ex_def ulime_init_def)
  have pu: "page_up 0x40000000 = 0x40000000" by (simp add: page_up_def)
  have sp: "3 \<le> spare (sh_pm shm_used_ex)" using pg_ex_ok(2) by (simp add: sh_pm_def u)
  obtain s' where s': "shm_attach shm_used_ex 8 7 = Inr (0x40000000, s')" "shm_attach s' 8 7 = Inr (0x40000000, s')"
    "\<forall>va. translate (ul_pg (sh_ul s')) 0x300000 va =
         (case find (\<lambda>j. same_page va (0x40000000 + word_of_nat j * PAGE_SIZE)) [0..<1] of
            None \<Rightarrow> translate pg_ex 0x300000 va
          | Some j \<Rightarrow> let e = (phys_pages ?r ! j AND ADDR_MASK) OR (PTE_PRESENT OR PTE_WRITABLE OR PTE_USER)
              in if present e then Some e else None)"
    using shm_attach_maps [OF ok f u(3) _ _ _ u(2), of "0x40000000"] pg_ex_ok(1) sp
    by (auto simp: r u pu SHM_MAX_PROCS_def)
  have "same_page 0x40000010 0x40000000" by (simp add: same_page_def)
  then have "translate (ul_pg (sh_ul s')) 0x300000 0x40000010 = Some 0x5007"
    unfolding s'(3) [rule_format]
    by (simp add: ADDR_MASK_def PTE_PRESENT_def PTE_WRITABLE_def PTE_USER_def present_def)
  then show ?thesis using s' by blast
qed

end
