(* ===== verification/Ring.thy ===== *)
theory Ring
  imports Queue
begin

text \<open>
  The ring buffers of the kernel: an array, the places of the first element and of the next free one, and the number of elements,
  as the terminals (\<^verbatim>\<open>emex/kernel/devices/vt/vt.c\<close>) and the keyboard
  (\<^verbatim>\<open>emex/drivers/ps2/keyboard/keyboard.c\<close>) keep them. Every ring is a bounded queue.
\<close>

record 'a ring =
  rg_buf :: "'a list"
  rg_head :: nat
  rg_tail :: nat
  rg_count :: nat

definition ring_put :: "nat \<Rightarrow> 'a ring \<Rightarrow> 'a \<Rightarrow> 'a ring" where
  "ring_put cap r x = r\<lparr>rg_buf := (rg_buf r)[rg_tail r := x], rg_tail := (rg_tail r + 1) mod cap, rg_count := rg_count r + 1\<rparr>"

definition ring_front :: "'a ring \<Rightarrow> 'a" where
  "ring_front r = rg_buf r ! rg_head r"

definition ring_drop :: "nat \<Rightarrow> 'a ring \<Rightarrow> 'a ring" where
  "ring_drop cap r = r\<lparr>rg_head := (rg_head r + 1) mod cap, rg_count := rg_count r - 1\<rparr>"

definition empty_ring :: "'a ring \<Rightarrow> 'a ring" where
  "empty_ring r = r\<lparr>rg_head := 0, rg_tail := 0, rg_count := 0\<rparr>"

section \<open>A ring is a bounded queue\<close>

definition ring_ok :: "nat \<Rightarrow> 'a ring \<Rightarrow> bool" where
  "ring_ok cap r \<longleftrightarrow> length (rg_buf r) = cap \<and> rg_head r < cap \<and> rg_count r \<le> cap
     \<and> rg_tail r = (rg_head r + rg_count r) mod cap"

definition ring_items :: "'a ring \<Rightarrow> 'a list" where
  "ring_items r = map (\<lambda>i. rg_buf r ! ((rg_head r + i) mod length (rg_buf r))) [0..<rg_count r]"

lemma ring_items_length [simp]: "length (ring_items r) = rg_count r"
  by (simp add: ring_items_def)

lemma mod_add_inj: "i < j \<Longrightarrow> j < h + n \<Longrightarrow> h \<le> i \<Longrightarrow> i mod n \<noteq> j mod n" for h :: nat
proof
  assume *: "i < j" "j < h + n" "h \<le> i" "i mod n = j mod n"
  then have "n dvd j - i" using mod_eq_dvd_iff_nat [of i j n] by simp
  then show False using * nat_dvd_not_less [of "j - i" n] by simp
qed

lemma ring_put_ok:
  assumes "ring_ok cap r" "rg_count r < cap"
  shows "ring_ok cap (ring_put cap r x) \<and> ring_items (ring_put cap r x) = ring_items r @ [x]"
proof
  have t: "rg_tail r < cap" "rg_tail r = (rg_head r + rg_count r) mod cap" "length (rg_buf r) = cap"
    using assms by (simp_all add: ring_ok_def)
  show "ring_ok cap (ring_put cap r x)"
    using assms t by (simp add: ring_ok_def ring_put_def mod_simps)
  have "(rg_buf r)[rg_tail r := x] ! ((rg_head r + i) mod cap) = rg_buf r ! ((rg_head r + i) mod cap)" if "i < rg_count r" for i
    using mod_add_inj [of "rg_head r + i" "rg_head r + rg_count r" "rg_head r" cap] that assms(2) t by simp
  then show "ring_items (ring_put cap r x) = ring_items r @ [x]"
    using t by (simp add: ring_items_def ring_put_def)
qed

lemma ring_drop_ok:
  assumes "ring_ok cap r" "0 < rg_count r"
  shows "ring_ok cap (ring_drop cap r) \<and> ring_items r = ring_front r # ring_items (ring_drop cap r)"
proof
  obtain k where k: "rg_count r = Suc k" using assms(2) by (cases "rg_count r") auto
  show "ring_ok cap (ring_drop cap r)"
    using assms k by (auto simp: ring_ok_def ring_drop_def mod_simps)
  have b: "length (rg_buf r) = cap" "rg_head r mod cap = rg_head r" using assms(1) by (auto simp: ring_ok_def)
  have u: "[0..<rg_count r] = 0 # map Suc [0..<rg_count r - 1]"
    using assms(2) by (simp add: map_Suc_upt upt_conv_Cons)
  show "ring_items r = ring_front r # ring_items (ring_drop cap r)"
    unfolding ring_items_def u using b by (simp add: ring_front_def ring_drop_def mod_simps)
qed

lemma ring_queue:
  "bounded_queue (ring_put cap) ring_front (ring_drop cap) rg_count cap (ring_ok cap) ring_items"
  using ring_put_ok ring_drop_ok by unfold_locales (fastforce simp: ring_ok_def)+

end
