(* ===== verification/Vt.thy ===== *)
theory Vt
  imports Ring
begin

text \<open>
  The virtual terminals: the rings and the table of \<^verbatim>\<open>emex/kernel/devices/vt/vt.c\<close>. Each terminal has a
  ring of bytes for its input, where key events of twelve bytes lie one after the other, and one for its
  output. What the driver does with modules and files is in \<open>VtDev\<close>. The fields \<open>input_node\<close> and
  \<open>output_node\<close>, which nothing reads, and the log messages are left out.
\<close>

section \<open>Rings\<close>

definition VT_INPUT_BUF_SIZE :: nat where "VT_INPUT_BUF_SIZE = 4096"
definition VT_OUTPUT_BUF_SIZE :: nat where "VT_OUTPUT_BUF_SIZE = 65536"

text \<open>The result is the number of bytes written, or the bytes read.\<close>

fun ring_write :: "nat \<Rightarrow> u8 list \<Rightarrow> u8 ring \<Rightarrow> nat \<times> u8 ring" where
  "ring_write cap [] r = (0, r)"
| "ring_write cap (x # xs) r =
    (if rg_count r < cap then let (w, r') = ring_write cap xs (ring_put cap r x) in (w + 1, r') else (0, r))"

fun ring_read :: "nat \<Rightarrow> nat \<Rightarrow> u8 ring \<Rightarrow> u8 list \<times> u8 ring" where
  "ring_read cap 0 r = ([], r)"
| "ring_read cap (Suc n) r =
    (if rg_count r > 0 then let (xs, r') = ring_read cap n (ring_drop cap r) in (ring_front r # xs, r') else ([], r))"

lemma ring_read_count: "rg_count (snd (ring_read cap n r)) = rg_count r - n"
  by (induction cap n r rule: ring_read.induct) (auto simp: ring_drop_def split: prod.splits)

section \<open>Key events\<close>

record vt_key_event =
  ev_keycode :: u32
  ev_modifiers :: u32
  ev_pressed :: u8
  ev_pad :: "u8 list"

definition EV_SIZE :: nat where "EV_SIZE = 12"

definition u32_bytes :: "u32 \<Rightarrow> u8 list" where
  "u32_bytes w = map (\<lambda>i. ucast (drop_bit (8 * i) w)) [0..<4]"

definition bytes_u32 :: "u8 list \<Rightarrow> u32" where
  "bytes_u32 bs = foldr (\<lambda>b w. push_bit 8 w OR ucast b) bs 0"

text \<open>The memory of an event: two little-endian words, a byte and three bytes of padding.\<close>

definition event_bytes :: "vt_key_event \<Rightarrow> u8 list" where
  "event_bytes e = u32_bytes (ev_keycode e) @ u32_bytes (ev_modifiers e) @ ev_pressed e # ev_pad e"

definition event_of :: "u8 list \<Rightarrow> vt_key_event" where
  "event_of bs = \<lparr>ev_keycode = bytes_u32 (take 4 bs), ev_modifiers = bytes_u32 (take 4 (drop 4 bs)),
     ev_pressed = bs ! 8, ev_pad = drop 9 bs\<rparr>"

section \<open>Terminals\<close>

definition VT_STATE_FREE :: int where "VT_STATE_FREE = 0"
definition VT_STATE_ACTIVE :: int where "VT_STATE_ACTIVE = 1"
definition VT_STATE_FOCUSED :: int where "VT_STATE_FOCUSED = 2"
definition VT_MAX :: nat where "VT_MAX = 16"

lemmas vt_state_defs = VT_STATE_FREE_def VT_STATE_ACTIVE_def VT_STATE_FOCUSED_def

record vt =
  vt_id :: u64
  vt_state :: int
  vt_in :: "u8 ring"
  vt_out :: "u8 ring"

record vts =
  vt_table :: "vt list"
  vt_id_counter :: u64
  vt_focused :: u64
  vt_inited :: bool

text \<open>A pointer to a terminal is its index in the table.\<close>

definition vt_get :: "vts \<Rightarrow> u64 \<Rightarrow> nat option" where
  "vt_get s k =
    (if \<not> vt_inited s then None
     else find (\<lambda>i. vt_state (vt_table s ! i) \<noteq> VT_STATE_FREE \<and> vt_id (vt_table s ! i) = k) [0..<VT_MAX])"

definition upd_vt :: "nat \<Rightarrow> (vt \<Rightarrow> vt) \<Rightarrow> vts \<Rightarrow> vts" where
  "upd_vt i f s = s\<lparr>vt_table := (vt_table s)[i := f (vt_table s ! i)]\<rparr>"

definition vt_subsystem_init :: "vts \<Rightarrow> vts" where
  "vt_subsystem_init s =
    (if vt_inited s then s
     else s\<lparr>vt_table := map (\<lambda>t. t\<lparr>vt_state := VT_STATE_FREE, vt_id := 0\<rparr>) (vt_table s), vt_id_counter := 0,
            vt_focused := -1, vt_inited := True\<rparr>)"

definition vt_destroy :: "u64 \<Rightarrow> vts \<Rightarrow> vts" where
  "vt_destroy k s =
    (case vt_get s k of None \<Rightarrow> s
     | Some i \<Rightarrow> upd_vt i (\<lambda>t. t\<lparr>vt_state := VT_STATE_FREE\<rparr>) (if vt_focused s = k then s\<lparr>vt_focused := -1\<rparr> else s))"

definition vt_focus :: "u64 \<Rightarrow> vts \<Rightarrow> vts" where
  "vt_focus k s =
    (let s1 = (if vt_focused s \<noteq> -1 then
                 (case vt_get s (vt_focused s) of None \<Rightarrow> s
                  | Some i \<Rightarrow> if vt_state (vt_table s ! i) = VT_STATE_FOCUSED
                              then upd_vt i (\<lambda>t. t\<lparr>vt_state := VT_STATE_ACTIVE\<rparr>) s else s)
               else s);
         s2 = s1\<lparr>vt_focused := -1\<rparr>
     in if k = -1 then s2
        else case vt_get s2 k of None \<Rightarrow> s2
             | Some i \<Rightarrow> (upd_vt i (\<lambda>t. t\<lparr>vt_state := VT_STATE_FOCUSED\<rparr>) s2)\<lparr>vt_focused := k\<rparr>)"

definition vt_get_focused :: "vts \<Rightarrow> u64" where
  "vt_get_focused s = vt_focused s"

section \<open>Reading and writing\<close>

definition vt_output_write :: "nat \<Rightarrow> u8 list \<Rightarrow> vts \<Rightarrow> int \<times> vts" where
  "vt_output_write i bs s =
    (let (w, r) = ring_write VT_OUTPUT_BUF_SIZE bs (vt_out (vt_table s ! i))
     in (int w, upd_vt i (\<lambda>t. t\<lparr>vt_out := r\<rparr>) s))"

definition vt_output_read :: "nat \<Rightarrow> nat \<Rightarrow> vts \<Rightarrow> int \<times> u8 list \<times> vts" where
  "vt_output_read i n s =
    (let (bs, r) = ring_read VT_OUTPUT_BUF_SIZE n (vt_out (vt_table s ! i))
     in (int (length bs), bs, upd_vt i (\<lambda>t. t\<lparr>vt_out := r\<rparr>) s))"

definition vt_input_write :: "nat \<Rightarrow> vt_key_event \<Rightarrow> vts \<Rightarrow> int \<times> vts" where
  "vt_input_write i ev s =
    (let (w, r) = ring_write VT_INPUT_BUF_SIZE (event_bytes ev) (vt_in (vt_table s ! i))
     in (int w, upd_vt i (\<lambda>t. t\<lparr>vt_in := r\<rparr>) s))"

text \<open>What an event adds to the line that is read: the character, and whether the line ends with it.\<close>

definition key_char :: "vt_key_event \<Rightarrow> (u8 \<times> bool) option" where
  "key_char ev =
    (if ev_pressed ev = 0 then None
     else let kc = ev_keycode ev; c = kc AND 0xFF
          in if kc = 0x0D \<or> kc = 0x0A then Some (0x0A, True)
             else if kc = 0x08 \<or> kc = 0x7F then Some (0x08, True)
             else if 0x20 \<le> c \<and> c \<le> 0x7E then Some (ucast c, False)
             else None)"

text \<open>
  The loop of \<open>vt_input_read\<close> on the input ring. It gives back what it produced so far and whether it
  is done; when it is not, it waits with interrupts on until the ring holds a whole event, and
  goes on from there.
\<close>

function input_loop :: "nat \<Rightarrow> u8 list \<Rightarrow> u8 ring \<Rightarrow> bool \<times> u8 list \<times> u8 ring" where
  "input_loop count out r =
    (if length out \<ge> count then (True, out, r)
     else if rg_count r < EV_SIZE then (False, out, r)
     else let (bs, r') = ring_read VT_INPUT_BUF_SIZE EV_SIZE r
          in case key_char (event_of bs) of
               None \<Rightarrow> input_loop count out r'
             | Some (c, line_end) \<Rightarrow>
                 if line_end then (True, out @ [c], r') else input_loop count (out @ [c]) r')"
  by pat_completeness auto

termination
  by (relation "measure (\<lambda>(_, _, r). rg_count r)") (auto simp: EV_SIZE_def ring_read_count dest!: arg_cong [of _ _ snd])

declare input_loop.simps [simp del]

text \<open>\<open>out\<close> is what the call had produced before it waited, nothing for a new call.\<close>

datatype read_result = ReadDone int "u8 list" | ReadWaits "u8 list"

definition vt_input_read :: "nat \<Rightarrow> nat \<Rightarrow> u8 list \<Rightarrow> vts \<Rightarrow> read_result \<times> vts" where
  "vt_input_read i count out s =
    (if count = 0 then (ReadDone (-1) [], s)
     else let (ready, out', r) = input_loop count out (vt_in (vt_table s ! i))
          in (if ready then ReadDone (int (length out')) out' else ReadWaits out', upd_vt i (\<lambda>t. t\<lparr>vt_in := r\<rparr>) s))"

section \<open>Rings as queues\<close>

interpretation input_queue: bounded_queue "ring_put VT_INPUT_BUF_SIZE" ring_front "ring_drop VT_INPUT_BUF_SIZE" rg_count
  VT_INPUT_BUF_SIZE "ring_ok VT_INPUT_BUF_SIZE" ring_items
  by (rule ring_queue)

interpretation output_queue: bounded_queue "ring_put VT_OUTPUT_BUF_SIZE" ring_front "ring_drop VT_OUTPUT_BUF_SIZE" rg_count
  VT_OUTPUT_BUF_SIZE "ring_ok VT_OUTPUT_BUF_SIZE" ring_items
  by (rule ring_queue)

lemma ring_write_put: "ring_write cap xs r = bounded_queue.put_list (ring_put cap) rg_count cap xs r"
  by (induction xs arbitrary: r) (simp_all add: bounded_queue.put_list.simps [OF ring_queue])

lemma ring_read_get: "ring_read cap n r = bounded_queue.get_list ring_front (ring_drop cap) rg_count n r"
  by (induction n arbitrary: r) (simp_all add: bounded_queue.get_list.simps [OF ring_queue])

lemma ring_write_spec:
  assumes "ring_ok cap r"
  obtains r' where "ring_write cap bs r = (min (length bs) (cap - rg_count r), r')" "ring_ok cap r'"
    "ring_items r' = ring_items r @ take (cap - rg_count r) bs"
  using bounded_queue.put_list_spec [OF ring_queue assms, of bs] that [of "snd (ring_write cap bs r)"]
  by (simp add: ring_write_put prod_eq_iff)

lemma ring_read_spec:
  assumes "ring_ok cap r"
  obtains r' where "ring_read cap n r = (take n (ring_items r), r')" "ring_ok cap r'"
    "ring_items r' = drop n (ring_items r)"
  using bounded_queue.get_list_spec [OF ring_queue assms, of n] that [of "snd (ring_read cap n r)"]
  by (simp add: ring_read_get prod_eq_iff)

section \<open>Events\<close>

lemma bytes_u32_bytes: "bytes_u32 (u32_bytes w) = w"
proof (rule bit_word_eqI)
  fix n assume "n < LENGTH(32)"
  then have "n < 8 \<or> 8 \<le> n \<and> n < 16 \<or> 16 \<le> n \<and> n < 24 \<or> 24 \<le> n \<and> n < 32" by auto
  then show "bit (bytes_u32 (u32_bytes w)) n = bit w n"
    by (elim disjE conjE) (auto simp: u32_bytes_def bytes_u32_def upt_rec bit_simps)
qed

lemma length_u32_bytes [simp]: "length (u32_bytes w) = 4"
  by (simp add: u32_bytes_def)

lemma length_event_bytes [simp]: "length (event_bytes e) = 9 + length (ev_pad e)"
  by (simp add: event_bytes_def)

lemma event_of_bytes: "event_of (event_bytes e) = e"
  by (simp add: event_of_def event_bytes_def nth_append bytes_u32_bytes)

section \<open>Reading a line\<close>

text \<open>
  The reference on whole events: what is read, whether the call is done, and the events left. Return and line feed end the line with
  a line feed, backspace and delete end it with a backspace; a key whose low byte is printable gives that character, every other key
  and every release of a key nothing.
\<close>

fun read_line :: "nat \<Rightarrow> u8 list \<Rightarrow> vt_key_event list \<Rightarrow> bool \<times> u8 list \<times> vt_key_event list" where
  "read_line count out [] = (count \<le> length out, out, [])"
| "read_line count out (e # es) =
    (if count \<le> length out then (True, out, e # es)
     else if ev_pressed e \<noteq> 0 \<and> ev_keycode e \<in> {10, 13} then (True, out @ [10], es)
     else if ev_pressed e \<noteq> 0 \<and> ev_keycode e \<in> {8, 127} then (True, out @ [8], es)
     else if ev_pressed e \<noteq> 0 \<and> unat (ev_keycode e) mod 256 \<in> {32..126}
       then read_line count (out @ [word_of_nat (unat (ev_keycode e))]) es
     else read_line count out es)"

lemma low_byte:
  "unat (kc AND 0xFF :: u32) = unat kc mod 256" "ucast (kc AND 0xFF :: u32) = (word_of_nat (unat kc) :: u8)"
proof -
  have m: "kc AND 0xFF = take_bit 8 kc" using take_bit_eq_mask [of 8 kc] by (simp add: mask_eq_exp_minus_1)
  then show "unat (kc AND 0xFF) = unat kc mod 256" by (simp add: unsigned_take_bit_eq take_bit_nat_def)
  have "(word_of_nat (unat kc) :: u8) = ucast kc" by (simp add: word_unat_eq_iff unat_of_nat unsigned_ucast_eq)
  moreover have "ucast (kc AND 0xFF :: u32) = (ucast kc :: u8)" unfolding m by (rule bit_word_eqI) (auto simp: bit_simps)
  ultimately show "ucast (kc AND 0xFF) = (word_of_nat (unat kc) :: u8)" by simp
qed

lemma read_line_key:
  "read_line count out (e # es) =
    (if count \<le> length out then (True, out, e # es)
     else case key_char e of
            None \<Rightarrow> read_line count out es
          | Some (c, line_end) \<Rightarrow> if line_end then (True, out @ [c], es) else read_line count (out @ [c]) es)"
  by (auto simp: key_char_def Let_def low_byte word_le_nat_alt)

definition events :: "vt_key_event list \<Rightarrow> u8 list" where
  "events es = concat (map event_bytes es)"

lemma events_simps [simp]: "events [] = []" "events (e # es) = event_bytes e @ events es" "events (es @ fs) = events es @ events fs"
  by (simp_all add: events_def)

definition whole :: "vt_key_event \<Rightarrow> bool" where
  "whole e \<longleftrightarrow> length (ev_pad e) = 3"

lemma length_events: "list_all whole es \<Longrightarrow> length (events es) = 12 * length es"
  by (induction es) (auto simp: whole_def)

lemma input_loop_line:
  assumes "list_all whole es" "ring_ok VT_INPUT_BUF_SIZE r" "ring_items r = events es"
  shows "\<exists>r'. input_loop count out r = (fst (read_line count out es), fst (snd (read_line count out es)), r')
    \<and> ring_ok VT_INPUT_BUF_SIZE r' \<and> ring_items r' = events (snd (snd (read_line count out es)))"
  using assms
proof (induction es arbitrary: out r)
  case Nil
  then have "rg_count r = 0" by (metis events_simps(1) length_0_conv ring_items_length)
  then show ?case using Nil by (subst input_loop.simps) (auto simp: EV_SIZE_def)
next
  case (Cons e es)
  have c: "rg_count r = 12 + 12 * length es" using arg_cong [OF Cons.prems(3), of length] length_events [OF Cons.prems(1)]
    by (simp only: ring_items_length list.size) simp
  show ?case
  proof (cases "length out \<ge> count")
    case True
    then show ?thesis using Cons.prems by (subst input_loop.simps) auto
  next
    case False
    have cut: "take EV_SIZE (ring_items r) = event_bytes e" "drop EV_SIZE (ring_items r) = events es"
      unfolding Cons.prems(3) using Cons.prems(1) by (simp_all add: EV_SIZE_def whole_def)
    obtain r' where r': "ring_read VT_INPUT_BUF_SIZE EV_SIZE r = (event_bytes e, r')" "ring_ok VT_INPUT_BUF_SIZE r'" "ring_items r' = events es"
      using ring_read_spec [OF Cons.prems(2), of EV_SIZE] unfolding cut by metis
    have st: "input_loop count out r = (case key_char e of None \<Rightarrow> input_loop count out r'
        | Some (c, line_end) \<Rightarrow> if line_end then (True, out @ [c], r') else input_loop count (out @ [c]) r')"
      using False c r'(1) by (subst input_loop.simps) (simp add: EV_SIZE_def event_of_bytes)
    show ?thesis
      using Cons.IH [OF _ r'(2,3)] Cons.prems(1) r' False
      by (auto simp: st read_line_key simp del: read_line.simps(2) split: option.splits)
  qed
qed

section \<open>A ring without room for a whole event\<close>

lemma input_write_spec:
  assumes "ring_ok VT_INPUT_BUF_SIZE (vt_in (vt_table s ! i))" "i < length (vt_table s)"
  defines "r \<equiv> vt_in (vt_table s ! i)"
  obtains r' where "vt_input_write i e s = (int (min (9 + length (ev_pad e)) (VT_INPUT_BUF_SIZE - rg_count r)), upd_vt i (\<lambda>t. t\<lparr>vt_in := r'\<rparr>) s)"
    "ring_ok VT_INPUT_BUF_SIZE r'" "ring_items r' = ring_items r @ take (VT_INPUT_BUF_SIZE - rg_count r) (event_bytes e)"
proof -
  obtain r' where "ring_write VT_INPUT_BUF_SIZE (event_bytes e) r = (min (length (event_bytes e)) (VT_INPUT_BUF_SIZE - rg_count r), r')"
    "ring_ok VT_INPUT_BUF_SIZE r'" "ring_items r' = ring_items r @ take (VT_INPUT_BUF_SIZE - rg_count r) (event_bytes e)"
    using ring_write_spec [OF assms(1)] unfolding r_def by metis
  then show ?thesis using that [of r'] by (simp add: vt_input_write_def r_def)
qed

lemma upd_vt_simps [simp]:
  "i < length (vt_table s) \<Longrightarrow> vt_table (upd_vt i f s) ! i = f (vt_table s ! i)"
  "length (vt_table (upd_vt i f s)) = length (vt_table s)"
  by (simp_all add: upd_vt_def)

section \<open>Properties\<close>

text \<open>
  The output ring is a queue of bytes: a write takes the first bytes that fit and
  reports their number, a read takes the oldest bytes out in the order in which they were written.
\<close>

lemma vt_output_fifo:
  assumes "i < length (vt_table s)" "ring_ok VT_OUTPUT_BUF_SIZE (vt_out (vt_table s ! i))"
  defines "old \<equiv> ring_items (vt_out (vt_table s ! i))"
  shows "\<exists>s1 s2. vt_output_write i bs s = (int (min (length bs) (VT_OUTPUT_BUF_SIZE - length old)), s1)
    \<and> vt_output_read i n s1 = (int (length (take n (old @ take (VT_OUTPUT_BUF_SIZE - length old) bs))),
         take n (old @ take (VT_OUTPUT_BUF_SIZE - length old) bs), s2)
    \<and> ring_ok VT_OUTPUT_BUF_SIZE (vt_out (vt_table s2 ! i))
    \<and> ring_items (vt_out (vt_table s2 ! i)) = drop n (old @ take (VT_OUTPUT_BUF_SIZE - length old) bs)"
proof -
  let ?r = "vt_out (vt_table s ! i)"
  obtain r1 where w: "ring_write VT_OUTPUT_BUF_SIZE bs ?r = (min (length bs) (VT_OUTPUT_BUF_SIZE - rg_count ?r), r1)"
    "ring_ok VT_OUTPUT_BUF_SIZE r1" "ring_items r1 = ring_items ?r @ take (VT_OUTPUT_BUF_SIZE - rg_count ?r) bs"
    using ring_write_spec [OF assms(2)] by blast
  obtain r2 where r: "ring_read VT_OUTPUT_BUF_SIZE n r1 = (take n (ring_items r1), r2)"
    "ring_ok VT_OUTPUT_BUF_SIZE r2" "ring_items r2 = drop n (ring_items r1)"
    using ring_read_spec [OF w(2)] by blast
  have "vt_output_write i bs s = (int (min (length bs) (VT_OUTPUT_BUF_SIZE - rg_count ?r)), upd_vt i (\<lambda>t. t\<lparr>vt_out := r1\<rparr>) s)"
    using w(1) by (simp add: vt_output_write_def)
  moreover have "vt_output_read i n (upd_vt i (\<lambda>t. t\<lparr>vt_out := r1\<rparr>) s) =
      (int (length (take n (ring_items r1))), take n (ring_items r1), upd_vt i (\<lambda>t. t\<lparr>vt_out := r2\<rparr>) (upd_vt i (\<lambda>t. t\<lparr>vt_out := r1\<rparr>) s))"
    using r(1) assms(1) by (simp add: vt_output_read_def)
  ultimately show ?thesis using assms(1) r(2,3) w(3) unfolding old_def by (intro exI conjI) (assumption | simp)+
qed

definition ring_ex :: "nat \<Rightarrow> u8 ring" where
  "ring_ex cap = \<lparr>rg_buf = replicate cap 0, rg_head = 0, rg_tail = 0, rg_count = 0\<rparr>"

definition vts_ex :: vts where
  "vts_ex = \<lparr>vt_table = \<lparr>vt_id = 0, vt_state = VT_STATE_FOCUSED, vt_in = ring_ex VT_INPUT_BUF_SIZE, vt_out = ring_ex VT_OUTPUT_BUF_SIZE\<rparr>
       # replicate 15 \<lparr>vt_id = 0, vt_state = VT_STATE_FREE, vt_in = ring_ex VT_INPUT_BUF_SIZE, vt_out = ring_ex VT_OUTPUT_BUF_SIZE\<rparr>,
     vt_id_counter = 1, vt_focused = 0, vt_inited = True\<rparr>"

lemma ring_ex_ok [simp]: "0 < cap \<Longrightarrow> ring_ok cap (ring_ex cap)" "ring_items (ring_ex cap) = []" "rg_count (ring_ex cap) = 0"
  by (simp_all add: ring_ok_def ring_ex_def ring_items_def)

lemma vts_ex_simps [simp]: "vt_table vts_ex ! 0 = \<lparr>vt_id = 0, vt_state = VT_STATE_FOCUSED,
    vt_in = ring_ex VT_INPUT_BUF_SIZE, vt_out = ring_ex VT_OUTPUT_BUF_SIZE\<rparr>" "length (vt_table vts_ex) = 16"
  by (simp_all add: vts_ex_def)

lemma vt_output_fifo_witness:
  "\<exists>s1 s2. vt_output_write 0 [1, 2, 3] vts_ex = (3, s1) \<and> vt_output_read 0 2 s1 = (2, [1, 2], s2)"
  using vt_output_fifo [of 0 vts_ex "[1, 2, 3]" 2] by (auto simp: VT_OUTPUT_BUF_SIZE_def)

text \<open>
  C20. Reading from a terminal whose ring holds whole events gives the characters of the
  pressed keys up to the first line end or until the buffer is full; it is done then and waits
  otherwise, and exactly the events looked at have left the ring.
\<close>

theorem vt_input_line:
  assumes "i < length (vt_table s)" "ring_ok VT_INPUT_BUF_SIZE (vt_in (vt_table s ! i))"
    and "list_all whole es" "ring_items (vt_in (vt_table s ! i)) = events es" "0 < count"
  shows "\<exists>s'. vt_input_read i count out s =
      (case read_line count out es of (ready, out', es') \<Rightarrow>
         if ready then ReadDone (int (length out')) out' else ReadWaits out', s')
    \<and> ring_ok VT_INPUT_BUF_SIZE (vt_in (vt_table s' ! i))
    \<and> ring_items (vt_in (vt_table s' ! i)) = events (snd (snd (read_line count out es)))"
proof -
  obtain ready out' es' where l: "read_line count out es = (ready, out', es')" by (cases "read_line count out es") auto
  obtain r where "input_loop count out (vt_in (vt_table s ! i)) = (ready, out', r)" "ring_ok VT_INPUT_BUF_SIZE r"
    "ring_items r = events es'" using input_loop_line [OF assms(3,2,4), of count out] l by auto
  then show ?thesis using assms(1,5) l
    by (intro exI [of _ "upd_vt i (\<lambda>t. t\<lparr>vt_in := r\<rparr>) s"]) (simp add: vt_input_read_def)
qed

definition key_ex :: "u32 \<Rightarrow> vt_key_event" where
  "key_ex kc = \<lparr>ev_keycode = kc, ev_modifiers = 0, ev_pressed = 1, ev_pad = [0, 0, 0]\<rparr>"

lemma key_ex_simps [simp]: "length (ev_pad (key_ex kc)) = 3" "whole (key_ex kc)"
  by (simp_all add: key_ex_def whole_def)

definition vts_keys_ex :: vts where
  "vts_keys_ex = snd (vt_input_write 0 (key_ex 0x0D) (snd (vt_input_write 0 (key_ex 0x41) vts_ex)))"

lemma vts_keys_ex:
  "ring_ok VT_INPUT_BUF_SIZE (vt_in (vt_table vts_keys_ex ! 0))" "length (vt_table vts_keys_ex) = 16"
  "ring_items (vt_in (vt_table vts_keys_ex ! 0)) = events [key_ex 0x41, key_ex 0x0D]"
proof -
  obtain r1 where r1: "vt_input_write 0 (key_ex 0x41) vts_ex = (12, upd_vt 0 (\<lambda>t. t\<lparr>vt_in := r1\<rparr>) vts_ex)"
    "ring_ok VT_INPUT_BUF_SIZE r1" "ring_items r1 = events [key_ex 0x41]"
    using input_write_spec [of vts_ex 0 "key_ex 0x41"] by (auto simp: VT_INPUT_BUF_SIZE_def)
  have c: "rg_count r1 = 12" using arg_cong [OF r1(3), of length] by (simp only: ring_items_length) simp
  let ?s = "upd_vt 0 (\<lambda>t. t\<lparr>vt_in := r1\<rparr>) vts_ex"
  obtain r2 where r2: "vt_input_write 0 (key_ex 0x0D) ?s = (12, upd_vt 0 (\<lambda>t. t\<lparr>vt_in := r2\<rparr>) ?s)"
    "ring_ok VT_INPUT_BUF_SIZE r2" "ring_items r2 = events [key_ex 0x41, key_ex 0x0D]"
    using input_write_spec [of ?s 0 "key_ex 0x0D"] r1(2,3) c by (auto simp: VT_INPUT_BUF_SIZE_def)
  show "ring_ok VT_INPUT_BUF_SIZE (vt_in (vt_table vts_keys_ex ! 0))" "length (vt_table vts_keys_ex) = 16"
    "ring_items (vt_in (vt_table vts_keys_ex ! 0)) = events [key_ex 0x41, key_ex 0x0D]"
    using r1(1) r2 by (simp_all add: vts_keys_ex_def)
qed

theorem vt_input_line_witness:
  "fst (vt_input_read 0 80 [] vts_keys_ex) = ReadDone 2 [0x41, 0x0A]"
proof -
  have "read_line 80 [] [key_ex 0x41, key_ex 0x0D] = (True, [0x41, 0x0A], [])"
    by (simp add: key_char_def key_ex_def)
  then show ?thesis
    using vt_input_line [of 0 vts_keys_ex "[key_ex 0x41, key_ex 0x0D]" 80 "[]"] vts_keys_ex by auto
qed

text \<open>
  4096 is not a multiple of twelve: the event written to a ring that holds 341
  events is cut after its first word, the key code, and this word stays in the ring when the 341 events have been read. The
  next event \<open>f\<close> lies behind it and is read with the key code of the cut event, its own key code as
  modifiers and the low byte of its modifiers as the state of the key; its last word is left in the ring, so the events
  after it are read shifted as well.
\<close>

lemma vt_input_desync:
  assumes "i < length (vt_table s)" "ring_ok VT_INPUT_BUF_SIZE (vt_in (vt_table s ! i))"
    and "list_all whole es" "ring_items (vt_in (vt_table s ! i)) = events es" "length es = 341" "whole e" "whole f"
  shows "\<exists>s1 r1 s2 bs r2. vt_input_write i e s = (4, s1)
    \<and> ring_read VT_INPUT_BUF_SIZE (12 * 341) (vt_in (vt_table s1 ! i)) = (events es, r1)
    \<and> vt_input_write i f (upd_vt i (\<lambda>t. t\<lparr>vt_in := r1\<rparr>) s1) = (12, s2)
    \<and> ring_read VT_INPUT_BUF_SIZE EV_SIZE (vt_in (vt_table s2 ! i)) = (bs, r2)
    \<and> ev_keycode (event_of bs) = ev_keycode e \<and> ev_modifiers (event_of bs) = ev_keycode f
    \<and> ev_pressed (event_of bs) = ucast (ev_modifiers f) \<and> ring_items r2 = ev_pressed f # ev_pad f"
proof -
  let ?r = "vt_in (vt_table s ! i)"
  have len: "length (events es) = 4092" using length_events [OF assms(3)] assms(5) by simp
  then have c: "rg_count ?r = 4092" using assms(4) ring_items_length [of ?r] by simp
  have head: "take 4 (event_bytes e) = u32_bytes (ev_keycode e)" for e by (simp add: event_bytes_def)
  obtain q1 where w1: "vt_input_write i e s = (4, upd_vt i (\<lambda>t. t\<lparr>vt_in := q1\<rparr>) s)" "ring_ok VT_INPUT_BUF_SIZE q1"
    "ring_items q1 = events es @ u32_bytes (ev_keycode e)"
    using input_write_spec [OF assms(2,1), of e] assms(4,6) c head by (auto simp: VT_INPUT_BUF_SIZE_def whole_def)
  obtain r1 where rd: "ring_read VT_INPUT_BUF_SIZE (12 * 341) q1 = (take (12 * 341) (ring_items q1), r1)"
    "ring_ok VT_INPUT_BUF_SIZE r1" "ring_items r1 = drop (12 * 341) (ring_items q1)"
    using ring_read_spec [OF w1(2)] by blast
  then have r1: "ring_read VT_INPUT_BUF_SIZE (12 * 341) q1 = (events es, r1)" "ring_items r1 = u32_bytes (ev_keycode e)"
    using len w1(3) by simp_all
  have c1: "rg_count r1 = 4" using r1(2) ring_items_length [of r1] by simp
  let ?s = "upd_vt i (\<lambda>t. t\<lparr>vt_in := r1\<rparr>) (upd_vt i (\<lambda>t. t\<lparr>vt_in := q1\<rparr>) s)"
  obtain q2 where w2: "vt_input_write i f ?s = (12, upd_vt i (\<lambda>t. t\<lparr>vt_in := q2\<rparr>) ?s)" "ring_ok VT_INPUT_BUF_SIZE q2"
    "ring_items q2 = u32_bytes (ev_keycode e) @ event_bytes f"
    using input_write_spec [of ?s i f] assms(1,7) rd(2) r1(2) c1 by (auto simp: VT_INPUT_BUF_SIZE_def whole_def)
  obtain r2 where rd2: "ring_read VT_INPUT_BUF_SIZE EV_SIZE q2 = (take EV_SIZE (ring_items q2), r2)"
    "ring_items r2 = drop EV_SIZE (ring_items q2)" using ring_read_spec [OF w2(2)] by blast
  let ?bs = "take EV_SIZE (ring_items q2)"
  have bs: "?bs = u32_bytes (ev_keycode e) @ u32_bytes (ev_keycode f) @ u32_bytes (ev_modifiers f)"
    unfolding w2(3) by (simp add: EV_SIZE_def event_bytes_def)
  have "event_of ?bs = \<lparr>ev_keycode = ev_keycode e, ev_modifiers = ev_keycode f, ev_pressed = u32_bytes (ev_modifiers f) ! 0,
      ev_pad = drop 1 (u32_bytes (ev_modifiers f))\<rparr>"
    unfolding bs by (simp add: event_of_def bytes_u32_bytes nth_append)
  moreover have "u32_bytes (ev_modifiers f) ! 0 = ucast (ev_modifiers f)" by (simp add: u32_bytes_def)
  moreover have "ring_items r2 = ev_pressed f # ev_pad f"
    unfolding rd2(2) w2(3) by (simp add: EV_SIZE_def event_bytes_def)
  ultimately show ?thesis using w1(1) r1(1) w2(1) rd2(1) assms(1) by (intro exI conjI) (assumption | simp)+
qed

lemma ring_flat:
  assumes "ys \<noteq> []" "cap = length xs + length ys"
  defines "r \<equiv> \<lparr>rg_buf = xs @ ys, rg_head = 0, rg_tail = length xs, rg_count = length xs\<rparr>"
  shows "ring_ok cap r" "ring_items r = xs"
proof -
  show "ring_ok cap r" using assms by (simp add: ring_ok_def)
  have "ring_items r = map (\<lambda>i. xs ! i) [0..<length xs]" by (simp add: ring_items_def r_def nth_append)
  then show "ring_items r = xs" by (simp add: map_nth)
qed

definition vts_full_ex :: vts where
  "vts_full_ex = upd_vt 0 (\<lambda>t. t\<lparr>vt_in := \<lparr>rg_buf = events (replicate 341 (key_ex 0x41)) @ [0, 0, 0, 0],
     rg_head = 0, rg_tail = 4092, rg_count = 4092\<rparr>\<rparr>) vts_ex"

lemma vt_input_desync_witness:
  "fst (vt_input_write 0 (key_ex 0x42) vts_full_ex) = 4"
proof -
  let ?es = "replicate 341 (key_ex 0x41)"
  have l: "list_all whole ?es" by (simp add: list_all_iff)
  then have n: "length (events ?es) = 4092" using length_events [of ?es] by simp
  have t: "vt_in (vt_table vts_full_ex ! 0) = \<lparr>rg_buf = events ?es @ [0, 0, 0, 0], rg_head = 0,
      rg_tail = length (events ?es), rg_count = length (events ?es)\<rparr>" unfolding n by (simp add: vts_full_ex_def)
  have "ring_ok VT_INPUT_BUF_SIZE (vt_in (vt_table vts_full_ex ! 0))" "ring_items (vt_in (vt_table vts_full_ex ! 0)) = events ?es"
    unfolding t by (intro ring_flat; simp add: n VT_INPUT_BUF_SIZE_def)+
  from vt_input_desync [OF _ this(1) l this(2), of "key_ex 0x42" "key_ex 0x43"] show ?thesis
    by (auto simp: vts_full_ex_def)
qed

end
