(* ===== verification/Vfs.thy ===== *)
theory Vfs
  imports Klime MemLib Vt "HOL-Library.Monad_Syntax"
begin

text \<open>
  The virtual file system: \<^verbatim>\<open>emex/kernel/file_systems/vfs/vfs.c\<close> and \<^verbatim>\<open>commands.c\<close>. Nodes, open
  files and mounts are objects at addresses; the list that \<open>children\<close> and \<open>next\<close> link is the list of
  the addresses of the children, first to last (a node is linked into one directory only). The tables of
  operations that a file system provides are an argument \<open>tab\<close>, which gives the table at an
  address. Strings are the characters before the terminating NUL and are not NULL; a copy that
  overruns its buffer, and a read of an address without an object, is undefined (\<open>None\<close>).
  Console output is left out.
\<close>

section \<open>Constants and state\<close>

definition FS_FILE :: u8 where "FS_FILE = 1"
definition FS_DIR :: u8 where "FS_DIR = 2"
definition FS_DEV :: u8 where "FS_DEV = 4"
definition O_RDONLY :: u32 where "O_RDONLY = 1"
definition O_WRONLY :: u32 where "O_WRONLY = 2"
definition O_RDWR :: u32 where "O_RDWR = 3"
definition O_CREAT :: u32 where "O_CREAT = 4"
definition FS_MAX_MNTS :: nat where "FS_MAX_MNTS = 20"
definition FS_MAX_FDS :: nat where "FS_MAX_FDS = 64"
definition FS_MAX_PATH :: nat where "FS_MAX_PATH = 200"
definition FS_MAX_TYPES :: nat where "FS_MAX_TYPES = 8"
definition FS_NAME :: nat where "FS_NAME = 64"
definition FS_PERM_R :: u8 where "FS_PERM_R = 4"
definition FS_PERM_W :: u8 where "FS_PERM_W = 2"
definition FS_MODE_FILE :: u16 where "FS_MODE_FILE = 0x1A4"
definition FS_MODE_DIR :: u16 where "FS_MODE_DIR = 0x1ED"
definition FS_MODE_DEV :: u16 where "FS_MODE_DEV = 0x1B0"

lemmas fs_types = FS_FILE_def FS_DIR_def FS_DEV_def
lemmas fs_limits = FS_MAX_MNTS_def FS_MAX_FDS_def FS_MAX_PATH_def FS_MAX_TYPES_def FS_NAME_def

record fs_node =
  nd_name :: string
  nd_type :: u8
  nd_size :: u64
  nd_inode :: u64
  nd_uid :: u32
  nd_gid :: u32
  nd_mode :: u16
  nd_ops :: u64
  nd_priv :: u64
  nd_children :: "u64 list"
  nd_parent :: u64

record fs_file =
  ff_node :: u64
  ff_pos :: u64
  ff_flags :: u32

record fs_mnt =
  mn_path :: string
  mn_type :: u64
  mn_root :: u64
  mn_active :: bool

record tmpfs_data =
  td_data :: u64
  td_cap :: u64
  td_ro :: bool

record devfs_data =
  dd_mod :: u64
  dd_handle :: u64

text \<open>A driver: its function pointers are addresses, 0 is NULL.\<close>

record driver_module =
  dm_name :: "string option"
  dm_mount :: "string option"
  dm_version :: u32
  dm_init :: u64
  dm_fini :: u64
  dm_open :: u64
  dm_read :: u64
  dm_write :: u64

text \<open>
  The state that file systems and the drivers behind them work on: the tables of \<^verbatim>\<open>vfs.c\<close>, the
  objects on the heap, the table of drivers, the terminals, the memory manager and the memory.
\<close>

record fs =
  mnts :: "fs_mnt list"
  fds :: "u64 list"
  ftypes :: "u64 list"
  fs_nodes :: "u64 \<rightharpoonup> fs_node"
  fs_files :: "u64 \<rightharpoonup> fs_file"
  tmp_objs :: "u64 \<rightharpoonup> tmpfs_data"
  dev_objs :: "u64 \<rightharpoonup> devfs_data"
  devfs_root :: u64
  mod_objs :: "u64 \<rightharpoonup> driver_module"
  modules :: "u64 list"
  module_count :: nat
  fs_vts :: vts
  fs_klime :: "klime option"
  fs_mem :: kmem
  g_current_uid :: u32
  g_current_gid :: u32

text \<open>A field of \<^verbatim>\<open>fs_ops\<close> that is NULL is \<open>None\<close>. Nodes and files are passed by address, a result of \<open>ssize_t\<close> is an integer.\<close>

record fs_ops =
  op_open :: "(u64 \<Rightarrow> u64 \<Rightarrow> fs \<Rightarrow> (int \<times> fs) option) option"
  op_close :: "(u64 \<Rightarrow> fs \<Rightarrow> (int \<times> fs) option) option"
  op_read :: "(u64 \<Rightarrow> u64 \<Rightarrow> u64 \<Rightarrow> fs \<Rightarrow> (int \<times> fs) option) option"
  op_write :: "(u64 \<Rightarrow> u64 \<Rightarrow> u64 \<Rightarrow> fs \<Rightarrow> (int \<times> fs) option) option"
  op_lookup :: "(u64 \<Rightarrow> string \<Rightarrow> fs \<Rightarrow> (u64 \<times> fs) option) option"
  op_create :: "(u64 \<Rightarrow> string \<Rightarrow> fs \<Rightarrow> (int \<times> fs) option) option"
  op_mkdir :: "(u64 \<Rightarrow> string \<Rightarrow> fs \<Rightarrow> (int \<times> fs) option) option"
  op_unlink :: "(u64 \<Rightarrow> string \<Rightarrow> fs \<Rightarrow> (int \<times> fs) option) option"
  op_readdir :: "(u64 \<Rightarrow> fs \<Rightarrow> (u64 list \<times> fs) option) option"

text \<open>\<open>ty_mount\<close> gets the index of the mount it fills in.\<close>

record fs_type =
  ty_name :: string
  ty_mount :: "nat \<Rightarrow> fs \<Rightarrow> (int \<times> fs) option"

record fs_tab =
  tab_ops :: "u64 \<Rightarrow> fs_ops"
  tab_type :: "u64 \<Rightarrow> fs_type"

text \<open>\<^verbatim>\<open>sizeof(fs_node)\<close> and \<^verbatim>\<open>sizeof(fs_file)\<close>.\<close>

definition SIZEOF_NODE :: u64 where "SIZEOF_NODE = 144"
definition SIZEOF_FILE :: u64 where "SIZEOF_FILE = 24"

definition upd_node :: "u64 \<Rightarrow> (fs_node \<Rightarrow> fs_node) \<Rightarrow> fs \<Rightarrow> fs" where
  "upd_node a f s = s\<lparr>fs_nodes := (fs_nodes s)(a := map_option f (fs_nodes s a))\<rparr>"

definition upd_file :: "u64 \<Rightarrow> (fs_file \<Rightarrow> fs_file) \<Rightarrow> fs \<Rightarrow> fs" where
  "upd_file a f s = s\<lparr>fs_files := (fs_files s)(a := map_option f (fs_files s a))\<rparr>"

definition upd_mnt :: "nat \<Rightarrow> (fs_mnt \<Rightarrow> fs_mnt) \<Rightarrow> fs \<Rightarrow> fs" where
  "upd_mnt i f s = s\<lparr>mnts := (mnts s)[i := f (mnts s ! i)]\<rparr>"

definition fs_alloc :: "u64 \<Rightarrow> fs \<Rightarrow> (u64 \<times> fs) option" where
  "fs_alloc n s = do {
     (a, kl, km) \<leftarrow> klime_create (fs_klime s) n (fs_mem s);
     Some (a, s\<lparr>fs_klime := kl, fs_mem := km\<rparr>)
   }"

definition fs_release :: "u64 \<Rightarrow> fs \<Rightarrow> fs option" where
  "fs_release a s = do {
     (kl, km) \<leftarrow> klime_free (fs_klime s) a (fs_mem s);
     Some (s\<lparr>fs_klime := kl, fs_mem := km\<rparr>)
   }"

section \<open>vfs.c\<close>

definition fs_init :: "fs \<Rightarrow> fs" where
  "fs_init s = s\<lparr>mnts := map (\<lambda>m. m\<lparr>mn_active := False\<rparr>) (mnts s), fds := replicate FS_MAX_FDS 0, ftypes := []\<rparr>"

text \<open>The index of the mount, \<open>None\<close> for NULL.\<close>

definition find_mnt :: "fs \<Rightarrow> string \<Rightarrow> nat option" where
  "find_mnt s path = fst (fold (\<lambda>i (best, best_len).
     let m = mnts s ! i; len = length (mn_path m)
     in if \<not> mn_active m then (best, best_len)
        else if best_len < len \<and> take len path = mn_path m then (Some i, len) else (best, best_len))
     [0..<FS_MAX_MNTS] (None, 0))"

definition fs_alloc_fd :: "u64 \<Rightarrow> fs \<Rightarrow> int \<times> fs" where
  "fs_alloc_fd file s =
    (case find (\<lambda>i. fds s ! i = 0) [3..<FS_MAX_FDS] of None \<Rightarrow> (-1, s)
     | Some i \<Rightarrow> (int i, s\<lparr>fds := (fds s)[i := file]\<rparr>))"

definition fs_free_fd :: "int \<Rightarrow> fs \<Rightarrow> fs" where
  "fs_free_fd fd s = (if 0 \<le> fd \<and> fd < int FS_MAX_FDS then s\<lparr>fds := (fds s)[nat fd := 0]\<rparr> else s)"

definition fs_get_file :: "int \<Rightarrow> fs \<Rightarrow> u64" where
  "fs_get_file fd s = (if fd < 0 \<or> int FS_MAX_FDS \<le> fd then 0 else fds s ! nat fd)"

definition fs_set_fd :: "int \<Rightarrow> u64 \<Rightarrow> fs \<Rightarrow> int \<times> fs" where
  "fs_set_fd fd file s =
    (if fd < 0 \<or> int FS_MAX_FDS \<le> fd then (-1, s) else (0, s\<lparr>fds := (fds s)[nat fd := file]\<rparr>))"

definition fs_register :: "u64 \<Rightarrow> fs \<Rightarrow> int \<times> fs" where
  "fs_register type s =
    (if type = 0 \<or> FS_MAX_TYPES \<le> length (ftypes s) then (-1, s) else (0, s\<lparr>ftypes := ftypes s @ [type]\<rparr>))"

definition fs_mount :: "fs_tab \<Rightarrow> string \<Rightarrow> string \<Rightarrow> fs \<Rightarrow> (int \<times> fs) option" where
  "fs_mount tab tgt type_name s =
    (case find (\<lambda>i. \<not> mn_active (mnts s ! i)) [0..<FS_MAX_MNTS] of None \<Rightarrow> Some (-1, s)
     | Some i \<Rightarrow>
       (case find (\<lambda>t. ty_name (tab_type tab t) = type_name) (ftypes s) of None \<Rightarrow> Some (-1, s)
        | Some type \<Rightarrow>
          if FS_MAX_PATH \<le> length tgt then None
          else do {
            (ret, s1) \<leftarrow> ty_mount (tab_type tab type) i
               (upd_mnt i (\<lambda>m. m\<lparr>mn_path := tgt, mn_type := type, mn_root := 0\<rparr>) s);
            Some (if ret \<noteq> 0 then (ret, s1) else (0, upd_mnt i (\<lambda>m. m\<lparr>mn_active := True\<rparr>) s1))
          }))"

text \<open>One component: the operation of the directory, NULL when it has none.\<close>

definition lookup_step :: "fs_tab \<Rightarrow> u64 \<Rightarrow> string \<Rightarrow> fs \<Rightarrow> (u64 \<times> fs) option" where
  "lookup_step tab cur part s = do {
     nd \<leftarrow> fs_nodes s cur;
     if nd_ops nd = 0 then Some (0, s)
     else case op_lookup (tab_ops tab (nd_ops nd)) of None \<Rightarrow> Some (0, s) | Some f \<Rightarrow> f cur part s
   }"

fun walk :: "fs_tab \<Rightarrow> u64 \<Rightarrow> string \<Rightarrow> string \<Rightarrow> fs \<Rightarrow> (u64 \<times> fs) option" where
  "walk tab cur [] part s = (if part \<noteq> [] then lookup_step tab cur part s else Some (cur, s))"
| "walk tab cur (c # rel) part s =
    (if c = CHR ''/'' then
       (if part \<noteq> [] then do {
          (n, s1) \<leftarrow> lookup_step tab cur part s;
          if n = 0 then Some (0, s1) else walk tab n rel [] s1
        } else walk tab cur rel part s)
     else walk tab cur rel (if length part < FS_NAME - 1 then part @ [c] else part) s)"

definition fs_resolve :: "fs_tab \<Rightarrow> string \<Rightarrow> fs \<Rightarrow> (u64 \<times> fs) option" where
  "fs_resolve tab path s =
    (if path = [] \<or> path ! 0 \<noteq> CHR ''/'' then Some (0, s)
     else case find_mnt s path of None \<Rightarrow> Some (0, s)
     | Some i \<Rightarrow>
       let root = mn_root (mnts s ! i)
       in if root = 0 then Some (0, s)
          else let rel0 = drop (length (mn_path (mnts s ! i))) path;
                   rel = (case rel0 of [] \<Rightarrow> [] | c # cs \<Rightarrow> if c = CHR ''/'' then cs else rel0)
               in if rel = [] then Some (root, s) else walk tab root rel [] s)"

definition fs_mknode :: "string \<Rightarrow> u8 \<Rightarrow> fs \<Rightarrow> (u64 \<times> fs) option" where
  "fs_mknode name type s = do {
     (a, s1) \<leftarrow> fs_alloc SIZEOF_NODE s;
     if a = 0 then Some (0, s1)
     else if FS_NAME \<le> length name then None
     else Some (a, s1\<lparr>fs_nodes := (fs_nodes s1)(a \<mapsto>
       \<lparr>nd_name = name, nd_type = type, nd_size = 0, nd_inode = 0, nd_uid = 0, nd_gid = 0,
        nd_mode = (if type = FS_DIR then FS_MODE_DIR else if type = FS_DEV then FS_MODE_DEV else FS_MODE_FILE),
        nd_ops = 0, nd_priv = 0, nd_children = [], nd_parent = 0\<rparr>)\<rparr>)
   }"

definition fs_addchild :: "u64 \<Rightarrow> u64 \<Rightarrow> fs \<Rightarrow> int \<times> fs" where
  "fs_addchild parent child s =
    (if parent = 0 \<or> child = 0 then (-1, s)
     else (0, upd_node parent (\<lambda>n. n\<lparr>nd_children := child # nd_children n\<rparr>)
                (upd_node child (\<lambda>n. n\<lparr>nd_parent := parent\<rparr>) s)))"

text \<open>The entries written, as type and name; their number is the result of the call.\<close>

fun list_entries :: "fs \<Rightarrow> u64 list \<Rightarrow> nat \<Rightarrow> (u8 \<times> string) list option" where
  "list_entries s [] n = Some []"
| "list_entries s (c # cs) n =
    (if n = 0 then Some []
     else do {
       nd \<leftarrow> fs_nodes s c;
       es \<leftarrow> list_entries s cs (n - 1);
       Some ((nd_type nd, take 63 (nd_name nd)) # es)
     })"

definition fs_listdir :: "fs_tab \<Rightarrow> string \<Rightarrow> int \<Rightarrow> fs \<Rightarrow> (int \<times> (u8 \<times> string) list \<times> fs) option" where
  "fs_listdir tab path max_entries s = do {
     (a, s1) \<leftarrow> fs_resolve tab path s;
     if a = 0 then Some (-1, [], s1)
     else do {
       nd \<leftarrow> fs_nodes s1 a;
       if nd_type nd \<noteq> FS_DIR then Some (-1, [], s1)
       else do {
         (cs, s2) \<leftarrow> (case if nd_ops nd = 0 then None else op_readdir (tab_ops tab (nd_ops nd)) of
             None \<Rightarrow> Some (nd_children nd, s1) | Some f \<Rightarrow> f a s1);
         es \<leftarrow> list_entries s2 cs (nat max_entries);
         Some (int (length es), es, s2)
       }
     }
   }"

definition fs_check_perm :: "fs_node option \<Rightarrow> u32 \<Rightarrow> u32 \<Rightarrow> u8 \<Rightarrow> bool" where
  "fs_check_perm node uid gid need =
    (case node of None \<Rightarrow> False
     | Some nd \<Rightarrow>
       if uid = 0 then True
       else let bits = (if nd_uid nd = uid then drop_bit 6 (nd_mode nd) AND 7
                        else if nd_gid nd = gid then drop_bit 3 (nd_mode nd) AND 7 else nd_mode nd AND 7)
            in bits AND ucast need = ucast need)"

section \<open>commands.c\<close>

definition last_slash :: "string \<Rightarrow> nat" where
  "last_slash path = fold (\<lambda>i last. if path ! i = CHR ''/'' then i else last) [0..<length path] 0"

text \<open>The directory and the file name of a path, each copied into a buffer on the stack.\<close>

definition split_path :: "string \<Rightarrow> (string \<times> string) option" where
  "split_path path =
    (let last = last_slash path; plen = (if last = 0 then 1 else last); fname = drop (last + 1) path
     in if path = [] \<or> FS_MAX_PATH \<le> plen \<or> FS_NAME \<le> length fname then None
        else Some (take (min plen (FS_MAX_PATH - 1)) path, fname))"

definition fs_open :: "fs_tab \<Rightarrow> string \<Rightarrow> u32 \<Rightarrow> fs \<Rightarrow> (int \<times> fs) option" where
  "fs_open tab path flags s = do {
     (node0, s0) \<leftarrow> fs_resolve tab path s;
     (node, s1) \<leftarrow>
       (if node0 = 0 \<and> flags AND O_CREAT \<noteq> 0 then do {
          (ppath, fname) \<leftarrow> split_path path;
          (parent, t) \<leftarrow> fs_resolve tab ppath s0;
          if parent = 0 then Some (0, t)
          else do {
            pn \<leftarrow> fs_nodes t parent;
            case if nd_ops pn = 0 then None else op_create (tab_ops tab (nd_ops pn)) of
              None \<Rightarrow> Some (0, t)
            | Some f \<Rightarrow> do { (_, t1) \<leftarrow> f parent fname t; fs_resolve tab path t1 }
          }
        } else Some (node0, s0));
     if node = 0 then Some (-1, s1)
     else do {
       nd \<leftarrow> fs_nodes s1 node;
       let acc = flags AND 3;
       let need = (if acc = O_RDONLY \<or> acc = O_RDWR then FS_PERM_R else 0)
               OR (if acc = O_WRONLY \<or> acc = O_RDWR then FS_PERM_W else 0);
       if need \<noteq> 0 \<and> \<not> fs_check_perm (Some nd) (g_current_uid s1) (g_current_gid s1) need then Some (-1, s1)
       else do {
         (file, s2) \<leftarrow> fs_alloc SIZEOF_FILE s1;
         if file = 0 then Some (-1, s2)
         else do {
           let s3 = s2\<lparr>fs_files := (fs_files s2)(file \<mapsto> \<lparr>ff_node = node, ff_pos = 0, ff_flags = flags\<rparr>)\<rparr>;
           (r, s4) \<leftarrow> (case if nd_ops nd = 0 then None else op_open (tab_ops tab (nd_ops nd)) of
               None \<Rightarrow> Some (0, s3) | Some f \<Rightarrow> f node file s3);
           if r \<noteq> 0 then do { t \<leftarrow> fs_release file s4; Some (-1, t\<lparr>fs_files := (fs_files t)(file := None)\<rparr>) }
           else do {
             let (fd, s5) = fs_alloc_fd file s4;
             if fd < 0 then do { t \<leftarrow> fs_release file s5; Some (-1, t\<lparr>fs_files := (fs_files t)(file := None)\<rparr>) }
             else Some (fd, s5)
           }
         }
       }
     }
   }"

definition fs_close :: "fs_tab \<Rightarrow> int \<Rightarrow> fs \<Rightarrow> (int \<times> fs) option" where
  "fs_close tab fd s =
    (let a = fs_get_file fd s
     in if a = 0 then Some (-1, s)
        else do {
          file \<leftarrow> fs_files s a;
          nd \<leftarrow> fs_nodes s (ff_node file);
          (_, s1) \<leftarrow> (case if nd_ops nd = 0 then None else op_close (tab_ops tab (nd_ops nd)) of
              None \<Rightarrow> Some (0, s) | Some f \<Rightarrow> f a s);
          s2 \<leftarrow> fs_release a s1;
          Some (0, fs_free_fd fd (s2\<lparr>fs_files := (fs_files s2)(a := None)\<rparr>))
        })"

definition fs_rw :: "u8 \<Rightarrow> (fs_ops \<Rightarrow> (u64 \<Rightarrow> u64 \<Rightarrow> u64 \<Rightarrow> fs \<Rightarrow> (int \<times> fs) option) option)
    \<Rightarrow> fs_tab \<Rightarrow> int \<Rightarrow> u64 \<Rightarrow> u64 \<Rightarrow> fs \<Rightarrow> (int \<times> fs) option" where
  "fs_rw perm sel tab fd buf cnt s =
    (let a = fs_get_file fd s
     in if a = 0 then Some (-1, s)
        else do {
          file \<leftarrow> fs_files s a;
          nd \<leftarrow> fs_nodes s (ff_node file);
          if \<not> fs_check_perm (Some nd) (g_current_uid s) (g_current_gid s) perm then Some (-1, s)
          else case if nd_ops nd = 0 then None else sel (tab_ops tab (nd_ops nd)) of
              None \<Rightarrow> Some (-1, s) | Some f \<Rightarrow> f a buf cnt s
        })"

definition fs_read :: "fs_tab \<Rightarrow> int \<Rightarrow> u64 \<Rightarrow> u64 \<Rightarrow> fs \<Rightarrow> (int \<times> fs) option" where
  "fs_read = fs_rw FS_PERM_R op_read"

definition fs_write :: "fs_tab \<Rightarrow> int \<Rightarrow> u64 \<Rightarrow> u64 \<Rightarrow> fs \<Rightarrow> (int \<times> fs) option" where
  "fs_write = fs_rw FS_PERM_W op_write"

definition fs_mkdir :: "fs_tab \<Rightarrow> string \<Rightarrow> fs \<Rightarrow> (int \<times> fs) option" where
  "fs_mkdir tab path s = do {
     (ppath, dname) \<leftarrow> split_path path;
     (parent, s1) \<leftarrow> fs_resolve tab ppath s;
     if parent = 0 then Some (-1, s1)
     else do {
       pn \<leftarrow> fs_nodes s1 parent;
       case if nd_ops pn = 0 then None else op_mkdir (tab_ops tab (nd_ops pn)) of
         None \<Rightarrow> Some (-1, s1) | Some f \<Rightarrow> f parent dname s1
     }
   }"

text \<open>The first child with the name, taken out of the list of its directory.\<close>

fun named_child :: "fs \<Rightarrow> u64 list \<Rightarrow> string \<Rightarrow> u64 option" where
  "named_child s [] name = Some 0"
| "named_child s (c # cs) name = do {
     nd \<leftarrow> fs_nodes s c;
     if nd_name nd = name then Some c else named_child s cs name
   }"

definition unlink_child :: "u64 \<Rightarrow> string \<Rightarrow> fs \<Rightarrow> (int \<times> fs) option" where
  "unlink_child dir name s = do {
     nd \<leftarrow> fs_nodes s dir;
     c \<leftarrow> named_child s (nd_children nd) name;
     Some (if c = 0 then (-1, s) else (0, upd_node dir (\<lambda>n. n\<lparr>nd_children := remove1 c (nd_children n)\<rparr>) s))
   }"

definition fs_unlink :: "fs_tab \<Rightarrow> string \<Rightarrow> fs \<Rightarrow> (int \<times> fs) option" where
  "fs_unlink tab path s = do {
     (ppath, fname) \<leftarrow> split_path path;
     (parent, s1) \<leftarrow> fs_resolve tab ppath s;
     if fname = [] \<or> parent = 0 then Some (-1, s1)
     else do {
       pn \<leftarrow> fs_nodes s1 parent;
       if nd_type pn \<noteq> FS_DIR then Some (-1, s1)
       else case if nd_ops pn = 0 then None else op_unlink (tab_ops tab (nd_ops pn)) of
         None \<Rightarrow> unlink_child parent fname s1 | Some f \<Rightarrow> f parent fname s1
     }
   }"

end
