(* ===== verification/Dirs.thy ===== *)
theory Dirs
  imports Vfs
begin

text \<open>
  Directories read as maps from names to nodes, and path resolution over them: the interface
  \<open>dir_lookup\<close> is what tmpfs and devfs provide.
\<close>

section \<open>Directories as maps\<close>

definition entries :: "fs \<Rightarrow> u64 list \<Rightarrow> (string \<times> u64) list" where
  "entries s cs = map (\<lambda>c. (nd_name (the (fs_nodes s c)), c)) cs"

definition child_map :: "fs \<Rightarrow> u64 \<Rightarrow> string \<rightharpoonup> u64" where
  "child_map s d = (case fs_nodes s d of None \<Rightarrow> Map.empty
     | Some nd \<Rightarrow> if nd_type nd = FS_DIR then map_of (entries s (nd_children nd)) else Map.empty)"

text \<open>
  \<open>N\<close> is a set of nodes with the operations at \<open>ops\<close>: each exists, its children are in \<open>N\<close> and have different names. All
  nodes are live blocks of the heap.
\<close>

definition tree_ok :: "u64 \<Rightarrow> fs \<Rightarrow> u64 set \<Rightarrow> bool" where
  "tree_ok ops s N \<longleftrightarrow> 0 \<notin> N \<and> (\<forall>a\<in>N. \<exists>nd. fs_nodes s a = Some nd \<and> nd_ops nd = ops
     \<and> set (nd_children nd) \<subseteq> N \<and> distinct (map fst (entries s (nd_children nd))))"

definition fs_heap :: "nat \<Rightarrow> nat \<Rightarrow> u64 set \<Rightarrow> fs \<Rightarrow> bool" where
  "fs_heap lo hi live s \<longleftrightarrow> (\<exists>k. fs_klime s = Some k \<and> klime_inv lo hi (k, fs_mem s, live)) \<and> dom (fs_nodes s) \<subseteq> live"

lemma tree_okD:
  assumes "tree_ok ops s N" "a \<in> N"
  obtains nd where "fs_nodes s a = Some nd" "nd_ops nd = ops" "set (nd_children nd) \<subseteq> N"
    "distinct (map fst (entries s (nd_children nd)))" "a \<noteq> 0"
  using assms unfolding tree_ok_def by metis

lemma named_child_map:
  assumes "\<forall>c\<in>set cs. fs_nodes s c \<noteq> None"
  shows "named_child s cs name = Some (case map_of (entries s cs) name of None \<Rightarrow> 0 | Some c \<Rightarrow> c)"
  using assms by (induction cs) (auto simp: entries_def)

lemma child_map_in:
  assumes "tree_ok ops s N" "d \<in> N" "child_map s d name = Some c"
  shows "c \<in> N \<and> c \<noteq> 0 \<and> nd_name (the (fs_nodes s c)) = name"
proof -
  obtain nd where "fs_nodes s d = Some nd" "set (nd_children nd) \<subseteq> N"
    using tree_okD [OF assms(1,2)] by blast
  then show ?thesis using assms(1,3)
    by (auto simp: child_map_def entries_def tree_ok_def split: if_splits dest!: map_of_SomeD)
qed

lemma named_lookup:
  assumes "tree_ok ops s N" "d \<in> N"
  obtains nd where "fs_nodes s d = Some nd" "nd_type nd = FS_DIR \<Longrightarrow>
      named_child s (nd_children nd) name = Some (case child_map s d name of None \<Rightarrow> 0 | Some c \<Rightarrow> c)"
    "nd_type nd \<noteq> FS_DIR \<Longrightarrow> child_map s d name = None"
proof -
  obtain nd where nd: "fs_nodes s d = Some nd" "set (nd_children nd) \<subseteq> N" using tree_okD [OF assms] by blast
  have "\<forall>c\<in>set (nd_children nd). fs_nodes s c \<noteq> None" using nd(2) assms(1) by (fastforce simp: tree_ok_def)
  from named_child_map [OF this] nd(1) show ?thesis by (intro that [of nd]) (auto simp: child_map_def)
qed

section \<open>Paths\<close>

text \<open>The reference: a path is split at its slashes, empty parts are dropped, long ones cut.\<close>

fun split_slash :: "string \<Rightarrow> string list" where
  "split_slash [] = [[]]"
| "split_slash (c # cs) = (if c = CHR ''/'' then [] # split_slash cs
     else case split_slash cs of [] \<Rightarrow> [[c]] | p # ps \<Rightarrow> (c # p) # ps)"

definition parts :: "string \<Rightarrow> string list" where
  "parts path = map (take 63) (filter (\<lambda>p. p \<noteq> []) (split_slash path))"

text \<open>Following the parts from a directory; 0 when one is missing.\<close>

fun follow :: "fs \<Rightarrow> u64 \<Rightarrow> string list \<Rightarrow> u64" where
  "follow s cur [] = cur"
| "follow s cur (p # ps) = (case child_map s cur p of None \<Rightarrow> 0 | Some c \<Rightarrow> follow s c ps)"

lemma split_slash_ne [simp]: "split_slash p \<noteq> []"
  by (induction p) (auto split: list.splits)

lemma split_slash_app:
  "CHR ''/'' \<notin> set p \<Longrightarrow> split_slash (p @ q) = (case split_slash q of r # rs \<Rightarrow> (p @ r) # rs | [] \<Rightarrow> [p])"
  by (induction p) (auto split: list.splits)

lemma parts_simps [simp]:
  "parts (CHR ''/'' # cs) = parts cs"
  "CHR ''/'' \<notin> set p \<Longrightarrow> parts p = (if p = [] then [] else [take 63 p])"
  "CHR ''/'' \<notin> set p \<Longrightarrow> parts (p @ CHR ''/'' # q) = (if p = [] then parts q else take 63 p # parts q)"
  using split_slash_app [of p "[]"] split_slash_app [of p "CHR ''/'' # q"] by (simp_all add: parts_def)

text \<open>
  What a file system promises about the lookup operation of its directories, and what path
  resolution makes of it.
\<close>

locale dir_lookup =
  fixes ops :: u64 and lookup :: "u64 \<Rightarrow> string \<Rightarrow> fs \<Rightarrow> (u64 \<times> fs) option"
  assumes ops_nz: "ops \<noteq> 0"
    and lookup_map: "tree_ok ops s N \<Longrightarrow> d \<in> N \<Longrightarrow>
      lookup d name s = Some (case child_map s d name of None \<Rightarrow> 0 | Some c \<Rightarrow> c, s)"
begin

lemma step_map:
  assumes "tree_ok ops s N" "cur \<in> N" "op_lookup (tab_ops tab ops) = Some lookup"
  shows "lookup_step tab cur p s = Some (case child_map s cur p of None \<Rightarrow> 0 | Some c \<Rightarrow> c, s)"
proof -
  obtain nd where "fs_nodes s cur = Some nd" "nd_ops nd = ops" using tree_okD [OF assms(1,2)] by blast
  then show ?thesis using lookup_map [OF assms(1,2)] assms(3) ops_nz by (simp add: lookup_step_def)
qed

lemma walk_follow:
  assumes "tree_ok ops s N" "op_lookup (tab_ops tab ops) = Some lookup"
  shows "cur \<in> N \<Longrightarrow> CHR ''/'' \<notin> set p \<Longrightarrow> walk tab cur rel (take 63 p) s = Some (follow s cur (parts (p @ rel)), s)"
proof (induction rel arbitrary: cur p)
  case Nil
  then show ?case using step_map [OF assms(1) Nil(1) assms(2)] by (auto split: option.splits)
next
  case (Cons c rel)
  show ?case
  proof (cases "c = CHR ''/''")
    case True
    note st = step_map [OF assms(1) Cons.prems(1) assms(2), of "take 63 p"]
    show ?thesis
    proof (cases "p = []")
      case p: True
      then show ?thesis using True Cons.IH [of cur "[]"] Cons.prems by simp
    next
      case p: False
      show ?thesis
      proof (cases "child_map s cur (take 63 p)")
        case None
        then show ?thesis using st p True Cons.prems(2) by simp
      next
        case (Some d)
        then have "d \<in> N" "d \<noteq> 0" using child_map_in [OF assms(1) Cons.prems(1)] by auto
        then show ?thesis using st p True Some Cons.prems(2) Cons.IH [of d "[]"] by simp
      qed
    qed
  next
    case False
    have "(if length (take 63 p) < FS_NAME - 1 then take 63 p @ [c] else take 63 p) = take 63 (p @ [c])"
      by (auto simp: FS_NAME_def min_def)
    then show ?thesis using False Cons.IH [of cur "p @ [c]"] Cons.prems by simp
  qed
qed

lemma resolve_follow:
  assumes "tree_ok ops s N" "op_lookup (tab_ops tab ops) = Some lookup"
    and "path \<noteq> []" "path ! 0 = CHR ''/''" "find_mnt s path = Some i" "mn_root (mnts s ! i) \<in> N"
  shows "fs_resolve tab path s =
    Some (follow s (mn_root (mnts s ! i)) (parts (drop (length (mn_path (mnts s ! i))) path)), s)"
proof -
  let ?r = "mn_root (mnts s ! i)" and ?rel = "drop (length (mn_path (mnts s ! i))) path"
  have nz: "?r \<noteq> 0" using assms(1,6) by (auto simp: tree_ok_def)
  define rel where "rel = (case ?rel of [] \<Rightarrow> [] | c # cs \<Rightarrow> if c = CHR ''/'' then cs else ?rel)"
  have p: "parts rel = parts ?rel" unfolding rel_def by (cases ?rel) (auto simp: parts_def)
  have "fs_resolve tab path s = (if rel = [] then Some (?r, s) else walk tab ?r rel [] s)"
    using assms(3-5) nz by (simp add: fs_resolve_def rel_def Let_def)
  also have "\<dots> = Some (follow s ?r (parts rel), s)"
    using walk_follow [OF assms(1,2,6), of "[]" rel] by (simp add: parts_def)
  finally show ?thesis by (simp add: p)
qed

end

section \<open>A new child\<close>

lemma add_child_spec:
  assumes tree: "tree_ok ops s N" and d: "d \<in> N" "fs_nodes s d = Some nd" "nd_type nd = FS_DIR"
    and new: "child_map s d (nd_name n) = None" "a \<notin> dom (fs_nodes s)" "a \<noteq> 0" "nd_ops n = ops" "nd_children n = []"
    and nodes: "fs_nodes t = (fs_nodes s)(a \<mapsto> n, d \<mapsto> nd\<lparr>nd_children := a # nd_children nd\<rparr>)"
  shows "tree_ok ops t (insert a N) \<and> child_map t a = Map.empty
    \<and> (\<forall>e\<in>N. child_map t e = (if e = d then (child_map s d)(nd_name n \<mapsto> a) else child_map s e))"
proof -
  have "N \<subseteq> dom (fs_nodes s)" using tree by (force simp: tree_ok_def)
  then have ad: "a \<noteq> d" "a \<notin> N" using new(2) d(1) by auto
  have sub: "set (nd_children nd) \<subseteq> N" "distinct (map fst (entries s (nd_children nd)))" "nd_ops nd = ops"
    using tree_okD [OF tree d(1)] d(2) by (metis option.inject)+
  have ent: "entries t cs = entries s cs" if "set cs \<subseteq> N" for cs
    using that ad(2) d(2) by (auto simp: entries_def nodes)
  have entd: "entries t (a # nd_children nd) = (nd_name n, a) # entries s (nd_children nd)"
    using ent [OF sub(1)] ad(1) by (simp add: entries_def nodes)
  have fresh: "nd_name n \<notin> fst ` set (entries s (nd_children nd))"
    using new(1) d(2,3) by (simp add: child_map_def map_of_eq_None_iff)
  have cm: "child_map t e = (if e = d then (child_map s d)(nd_name n \<mapsto> a) else child_map s e)" if e: "e \<in> N" for e
  proof (cases "e = d")
    case True
    then show ?thesis using entd d by (simp add: child_map_def nodes)
  next
    case False
    obtain ne where "fs_nodes s e = Some ne" "set (nd_children ne) \<subseteq> N" using tree_okD [OF tree e] by metis
    then show ?thesis using False e ad(2) ent by (auto simp: child_map_def nodes)
  qed
  have "tree_ok ops t (insert a N)"
    unfolding tree_ok_def
  proof (intro conjI ballI)
    show "0 \<notin> insert a N" using new(3) tree by (simp add: tree_ok_def)
    fix e assume e: "e \<in> insert a N"
    consider "e = a" | "e = d" | "e \<in> N" "e \<noteq> d" "e \<noteq> a" using e by blast
    then show "\<exists>nd. fs_nodes t e = Some nd \<and> nd_ops nd = ops \<and> set (nd_children nd) \<subseteq> insert a N
        \<and> distinct (map fst (entries t (nd_children nd)))"
    proof cases
      case 1
      then show ?thesis using ad(1) new(4,5) by (simp add: nodes entries_def)
    next
      case 2
      then show ?thesis using entd sub fresh by (auto simp: nodes)
    next
      case 3
      obtain ne where "fs_nodes s e = Some ne" "nd_ops ne = ops" "set (nd_children ne) \<subseteq> N"
        "distinct (map fst (entries s (nd_children ne)))" using tree_okD [OF tree 3(1)] by metis
      then show ?thesis using 3 ent by (auto simp: nodes)
    qed
  qed
  then show ?thesis using cm ad(1) new(5) by (auto simp: child_map_def nodes entries_def)
qed

section \<open>Memory for nodes\<close>

lemma fs_alloc_spec:
  assumes "fs_heap lo hi live s"
  obtains a s1 where "fs_alloc n s = Some (a, s1)" "a \<notin> live"
    "fs_nodes s1 = fs_nodes s" "fs_heap lo hi (if a = 0 then live else insert a live) s1"
    "km_bytes (fs_mem s1) = km_bytes (fs_mem s)" "s1 = s\<lparr>fs_klime := fs_klime s1, fs_mem := fs_mem s1\<rparr>"
proof -
  obtain k where k: "fs_klime s = Some k" "klime_inv lo hi (k, fs_mem s, live)" "dom (fs_nodes s) \<subseteq> live"
    using assms by (auto simp: fs_heap_def)
  obtain a k' m' where c: "klime_create (Some k) n (fs_mem s) = Some (a, Some k', m')" "a \<notin> live"
    "klime_inv lo hi (k', m', if a = 0 then live else insert a live)" using klime_create_inv [OF k(2)] by blast
  let ?s = "s\<lparr>fs_klime := Some k', fs_mem := m'\<rparr>"
  have "fs_alloc n s = Some (a, ?s)" using c(1) k(1) by (simp add: fs_alloc_def)
  moreover have "fs_heap lo hi (if a = 0 then live else insert a live) ?s" using c(3) k(3) by (auto simp: fs_heap_def)
  ultimately show ?thesis using that [of a ?s] c(2) klime_create_bytes [OF c(1)] by simp
qed

lemma upd_node_simps [simp]:
  "fs_nodes (upd_node a f s) b = (if b = a then map_option f (fs_nodes s a) else fs_nodes s b)"
  "fs_klime (upd_node a f s) = fs_klime s" "fs_mem (upd_node a f s) = fs_mem s" "mnts (upd_node a f s) = mnts s"
  "fs_files (upd_node a f s) = fs_files s" "tmp_objs (upd_node a f s) = tmp_objs s"
  by (simp_all add: upd_node_def)

lemma fs_release_spec:
  assumes "fs_heap lo hi live s" "a \<in> live" "a \<notin> dom (fs_nodes s)"
  obtains s1 where "fs_release a s = Some s1" "fs_heap lo hi (live - {a}) s1"
    "s1 = s\<lparr>fs_klime := fs_klime s1, fs_mem := fs_mem s1\<rparr>" "km_bytes (fs_mem s1) = km_bytes (fs_mem s)"
proof -
  obtain k where k: "fs_klime s = Some k" "klime_inv lo hi (k, fs_mem s, live)" "dom (fs_nodes s) \<subseteq> live"
    using assms(1) by (auto simp: fs_heap_def)
  obtain k' m' where c: "klime_free (Some k) a (fs_mem s) = Some (Some k', m')" "klime_inv lo hi (k', m', live - {a})"
    using klime_free_inv [OF k(2) assms(2)] by blast
  let ?s = "s\<lparr>fs_klime := Some k', fs_mem := m'\<rparr>"
  have "fs_release a s = Some ?s" using c(1) k(1) by (simp add: fs_release_def)
  moreover have "fs_heap lo hi (live - {a}) ?s" using c(2) k(3) assms(3) by (auto simp: fs_heap_def)
  ultimately show ?thesis using that [of ?s] klime_free_bytes [OF c(1)] by simp
qed

lemma mknode_spec:
  assumes "fs_heap lo hi live s" "length name < FS_NAME"
  obtains (full) s1 where "fs_mknode name type s = Some (0, s1)" "fs_heap lo hi live s1"
      "s1 = s\<lparr>fs_klime := fs_klime s1, fs_mem := fs_mem s1\<rparr>"
  | (made) a n s1 where "fs_mknode name type s = Some (a, s1)" "a \<notin> live" "a \<noteq> 0" "fs_heap lo hi (insert a live) s1"
      "fs_nodes s1 = (fs_nodes s)(a \<mapsto> n)" "s1 = s\<lparr>fs_nodes := fs_nodes s1, fs_klime := fs_klime s1, fs_mem := fs_mem s1\<rparr>"
      "nd_name n = name" "nd_type n = type" "nd_children n = []" "nd_priv n = 0" "nd_size n = 0" "nd_ops n = 0"
proof -
  obtain a s1 where a: "fs_alloc SIZEOF_NODE s = Some (a, s1)" "a \<notin> live" "fs_nodes s1 = fs_nodes s"
    "fs_heap lo hi (if a = 0 then live else insert a live) s1" "s1 = s\<lparr>fs_klime := fs_klime s1, fs_mem := fs_mem s1\<rparr>"
    using fs_alloc_spec [OF assms(1)] by blast
  show ?thesis
  proof (cases "a = 0")
    case True
    then show ?thesis using a by (intro full [of s1]) (simp_all add: fs_mknode_def)
  next
    case False
    let ?n = "\<lparr>nd_name = name, nd_type = type, nd_size = 0, nd_inode = 0, nd_uid = 0, nd_gid = 0,
        nd_mode = (if type = FS_DIR then FS_MODE_DIR else if type = FS_DEV then FS_MODE_DEV else FS_MODE_FILE),
        nd_ops = 0, nd_priv = 0, nd_children = [], nd_parent = 0\<rparr>"
    let ?t = "s1\<lparr>fs_nodes := (fs_nodes s1)(a \<mapsto> ?n)\<rparr>"
    have "fs_mknode name type s = Some (a, ?t)" using a(1) False assms(2) by (simp add: fs_mknode_def)
    moreover have "fs_heap lo hi (insert a live) ?t" using a(4) False by (auto simp: fs_heap_def)
    moreover have "?t = s\<lparr>fs_nodes := fs_nodes ?t, fs_klime := fs_klime ?t, fs_mem := fs_mem ?t\<rparr>" by (subst a(5)) simp
    ultimately show ?thesis using a(2,3) False by (intro made [of a ?t ?n]) simp_all
  qed
qed

end
