(* ===== verification/Tmpfs.thy ===== *)
theory Tmpfs
  imports Dirs
begin

text \<open>
  The in-memory file system: \<^verbatim>\<open>emex/kernel/file_systems/vfs/tmpfs/tmpfs.c\<close>. The contents of a
  file are a block of the kernel heap that the record \<open>tmpfs_data\<close> of the node points to, or, until
  the first write, memory of the boot image.
\<close>

section \<open>Operations\<close>

definition SIZEOF_TMPFS_DATA :: u64 where "SIZEOF_TMPFS_DATA = 24"

definition tmpfs_open :: "u64 \<Rightarrow> u64 \<Rightarrow> fs \<Rightarrow> (int \<times> fs) option" where
  "tmpfs_open node file s = Some (0, s)"

definition tmpfs_close :: "u64 \<Rightarrow> fs \<Rightarrow> (int \<times> fs) option" where
  "tmpfs_close file s = Some (0, s)"

definition copy_bytes :: "u64 \<Rightarrow> u64 \<Rightarrow> u64 \<Rightarrow> fs \<Rightarrow> fs" where
  "copy_bytes d src n s = s\<lparr>fs_mem := (fs_mem s)\<lparr>km_bytes := memcpy (km_bytes (fs_mem s)) d src n\<rparr>\<rparr>"

definition tmpfs_read :: "u64 \<Rightarrow> u64 \<Rightarrow> u64 \<Rightarrow> fs \<Rightarrow> (int \<times> fs) option" where
  "tmpfs_read file buf cnt s = do {
     f \<leftarrow> fs_files s file;
     nd \<leftarrow> fs_nodes s (ff_node f);
     if nd_type nd \<noteq> FS_FILE then Some (-1, s)
     else if nd_priv nd = 0 then Some (0, s)
     else do {
       td \<leftarrow> tmp_objs s (nd_priv nd);
       if td_data td = 0 then Some (0, s)
       else if nd_size nd \<le> ff_pos f then Some (0, s)
       else do {
         let to_read = (if ff_pos f + cnt > nd_size nd then nd_size nd - ff_pos f else cnt);
         Some (sint to_read, upd_file file (\<lambda>f. f\<lparr>ff_pos := ff_pos f + to_read\<rparr>)
           (copy_bytes buf (td_data td + ff_pos f) to_read s))
       }
     }
   }"

definition upd_data :: "u64 \<Rightarrow> (tmpfs_data \<Rightarrow> tmpfs_data) \<Rightarrow> fs \<Rightarrow> fs" where
  "upd_data a f s = s\<lparr>tmp_objs := (tmp_objs s)(a := map_option f (tmp_objs s a))\<rparr>"

definition page_round :: "u64 \<Rightarrow> u64" where
  "page_round n = (n + 4095) AND NOT 4095"

text \<open>The three steps before a write: the record, a copy of read-only data, room. \<open>False\<close> when memory runs out.\<close>

definition need_data :: "u64 \<Rightarrow> fs \<Rightarrow> (u64 \<times> fs) option" where
  "need_data node s = do {
     nd \<leftarrow> fs_nodes s node;
     if nd_priv nd \<noteq> 0 then Some (nd_priv nd, s)
     else do {
       (a, s1) \<leftarrow> fs_alloc SIZEOF_TMPFS_DATA s;
       Some (a, if a = 0 then s1 else upd_node node (\<lambda>n. n\<lparr>nd_priv := a\<rparr>)
          (s1\<lparr>tmp_objs := (tmp_objs s1)(a \<mapsto> \<lparr>td_data = 0, td_cap = 0, td_ro = False\<rparr>)\<rparr>))
     }
   }"

definition promote_ro :: "u64 \<Rightarrow> u64 \<Rightarrow> u64 \<Rightarrow> fs \<Rightarrow> (bool \<times> fs) option" where
  "promote_ro data sz cnt s = do {
     td \<leftarrow> tmp_objs s data;
     if \<not> td_ro td then Some (True, s)
     else do {
       let new_cap = page_round (sz + cnt);
       (copy, s1) \<leftarrow> fs_alloc new_cap s;
       if copy = 0 then Some (False, s1)
       else Some (True, upd_data data (\<lambda>d. d\<lparr>td_data := copy, td_cap := new_cap, td_ro := False\<rparr>)
              (if td_data td \<noteq> 0 \<and> 0 < sz then copy_bytes copy (td_data td) sz s1 else s1))
     }
   }"

definition grow_data :: "u64 \<Rightarrow> u64 \<Rightarrow> u64 \<Rightarrow> fs \<Rightarrow> (bool \<times> fs) option" where
  "grow_data data sz needed s = do {
     td \<leftarrow> tmp_objs s data;
     if needed \<le> td_cap td then Some (True, s)
     else do {
       let new_cap = page_round needed;
       (new_data, s1) \<leftarrow> fs_alloc new_cap s;
       if new_data = 0 then Some (False, s1)
       else do {
         s2 \<leftarrow> (if td_data td \<noteq> 0 \<and> 0 < sz then fs_release (td_data td) (copy_bytes new_data (td_data td) sz s1)
               else Some s1);
         Some (True, upd_data data (\<lambda>d. d\<lparr>td_data := new_data, td_cap := new_cap\<rparr>) s2)
       }
     }
   }"

definition tmpfs_write :: "u64 \<Rightarrow> u64 \<Rightarrow> u64 \<Rightarrow> fs \<Rightarrow> (int \<times> fs) option" where
  "tmpfs_write file buf cnt s = do {
     f \<leftarrow> fs_files s file;
     nd \<leftarrow> fs_nodes s (ff_node f);
     if nd_type nd \<noteq> FS_FILE then Some (-1, s)
     else do {
       (data, s1) \<leftarrow> need_data (ff_node f) s;
       if data = 0 then Some (-1, s1)
       else do {
         (ok1, s2) \<leftarrow> promote_ro data (nd_size nd) cnt s1;
         if \<not> ok1 then Some (-1, s2)
         else do {
           (ok2, s3) \<leftarrow> grow_data data (nd_size nd) (ff_pos f + cnt) s2;
           if \<not> ok2 then Some (-1, s3)
           else do {
             td \<leftarrow> tmp_objs s3 data;
             let s4 = upd_file file (\<lambda>f. f\<lparr>ff_pos := ff_pos f + cnt\<rparr>) (copy_bytes (td_data td + ff_pos f) buf cnt s3);
             Some (sint cnt, if nd_size nd < ff_pos f + cnt
               then upd_node (ff_node f) (\<lambda>n. n\<lparr>nd_size := ff_pos f + cnt\<rparr>) s4 else s4)
           }
         }
       }
     }
   }"

definition tmpfs_lookup :: "u64 \<Rightarrow> string \<Rightarrow> fs \<Rightarrow> (u64 \<times> fs) option" where
  "tmpfs_lookup dir name s = do {
     nd \<leftarrow> fs_nodes s dir;
     if nd_type nd \<noteq> FS_DIR then Some (0, s)
     else do { c \<leftarrow> named_child s (nd_children nd) name; Some (c, s) }
   }"

definition tmpfs_make :: "u8 \<Rightarrow> u64 \<Rightarrow> string \<Rightarrow> fs \<Rightarrow> (int \<times> fs) option" where
  "tmpfs_make type dir name s = do {
     nd \<leftarrow> fs_nodes s dir;
     if nd_type nd \<noteq> FS_DIR then Some (-1, s)
     else do {
       (c, s1) \<leftarrow> tmpfs_lookup dir name s;
       if c \<noteq> 0 then Some (-1, s1)
       else do {
         (a, s2) \<leftarrow> fs_mknode name type s1;
         if a = 0 then Some (-1, s2)
         else Some (0, snd (fs_addchild dir a (upd_node a (\<lambda>n. n\<lparr>nd_ops := nd_ops nd\<rparr>) s2)))
       }
     }
   }"

definition tmpfs_create :: "u64 \<Rightarrow> string \<Rightarrow> fs \<Rightarrow> (int \<times> fs) option" where
  "tmpfs_create = tmpfs_make FS_FILE"

definition tmpfs_mkdir :: "u64 \<Rightarrow> string \<Rightarrow> fs \<Rightarrow> (int \<times> fs) option" where
  "tmpfs_mkdir = tmpfs_make FS_DIR"

definition tmpfs_unlink :: "u64 \<Rightarrow> string \<Rightarrow> fs \<Rightarrow> (int \<times> fs) option" where
  "tmpfs_unlink dir name s = do {
     nd \<leftarrow> fs_nodes s dir;
     if nd_type nd \<noteq> FS_DIR then Some (-1, s) else unlink_child dir name s
   }"

definition tmpfs_ops :: fs_ops where
  "tmpfs_ops = \<lparr>op_open = Some tmpfs_open, op_close = Some tmpfs_close, op_read = Some tmpfs_read,
     op_write = Some tmpfs_write, op_lookup = Some tmpfs_lookup, op_create = Some tmpfs_create,
     op_mkdir = Some tmpfs_mkdir, op_unlink = Some tmpfs_unlink, op_readdir = None\<rparr>"

text \<open>Static objects have addresses; which ones does not matter, as long as they differ.\<close>

definition TMPFS_OPS :: u64 where "TMPFS_OPS = 0x100"
definition TMPFS_TYPE :: u64 where "TMPFS_TYPE = 0x200"

definition tmpfs_mount :: "nat \<Rightarrow> fs \<Rightarrow> (int \<times> fs) option" where
  "tmpfs_mount mnt s = do {
     (root, s1) \<leftarrow> fs_mknode ''/'' FS_DIR s;
     Some (if root = 0 then (-1, s1)
           else (0, upd_mnt mnt (\<lambda>m. m\<lparr>mn_root := root\<rparr>) (upd_node root (\<lambda>n. n\<lparr>nd_ops := TMPFS_OPS\<rparr>) s1)))
   }"

definition tmpfs :: fs_type where
  "tmpfs = \<lparr>ty_name = ''tmpfs'', ty_mount = tmpfs_mount\<rparr>"

definition tmpfs_set_ro_data :: "u64 \<Rightarrow> u64 \<Rightarrow> u64 \<Rightarrow> fs \<Rightarrow> (int \<times> fs) option" where
  "tmpfs_set_ro_data node ptr sz s =
    (if node = 0 \<or> ptr = 0 then Some (-1, s)
     else do {
       nd \<leftarrow> fs_nodes s node;
       (data, s1) \<leftarrow> (if nd_priv nd \<noteq> 0 then Some (nd_priv nd, s) else do {
          (a, t) \<leftarrow> fs_alloc SIZEOF_TMPFS_DATA s;
          Some (a, if a = 0 then t else upd_node node (\<lambda>n. n\<lparr>nd_priv := a\<rparr>) t)
        });
       if data = 0 then Some (-1, s1)
       else Some (0, upd_node node (\<lambda>n. n\<lparr>nd_size := sz\<rparr>)
         (s1\<lparr>tmp_objs := (tmp_objs s1)(data \<mapsto> \<lparr>td_data = ptr, td_cap = sz, td_ro = True\<rparr>)\<rparr>))
     })"

definition tmpfs_register :: "fs \<Rightarrow> int \<times> fs" where
  "tmpfs_register s = fs_register TMPFS_TYPE s"

lemma tmpfs_lookup_map:
  assumes "tree_ok TMPFS_OPS s N" "d \<in> N"
  shows "tmpfs_lookup d name s = Some (case child_map s d name of None \<Rightarrow> 0 | Some c \<Rightarrow> c, s)"
  by (rule named_lookup [OF assms, of name]) (simp add: tmpfs_lookup_def split: if_splits)

interpretation tmpfs_dir: dir_lookup TMPFS_OPS tmpfs_lookup
  by unfold_locales (simp add: TMPFS_OPS_def, rule tmpfs_lookup_map)

lemma resolve_tmpfs:
  assumes "tree_ok TMPFS_OPS s N" "tab_ops tab TMPFS_OPS = tmpfs_ops"
    and "path \<noteq> []" "path ! 0 = CHR ''/''" "find_mnt s path = Some i" "mn_root (mnts s ! i) \<in> N"
  shows "fs_resolve tab path s =
    Some (follow s (mn_root (mnts s ! i)) (parts (drop (length (mn_path (mnts s ! i))) path)), s)"
  using tmpfs_dir.resolve_follow [OF assms(1) _ assms(3-6)] assms(2) by (simp add: tmpfs_ops_def)

section \<open>Making and removing nodes\<close>

lemma make_spec:
  assumes heap: "fs_heap lo hi live s" and tree: "tree_ok TMPFS_OPS s N" and d: "d \<in> N" and len: "length name < FS_NAME"
    and dir: "nd_type (the (fs_nodes s d)) = FS_DIR"
  shows "\<exists>r s' live'. tmpfs_make type d name s = Some (r, s') \<and> fs_heap lo hi live' s' \<and> mnts s' = mnts s
    \<and> (if child_map s d name \<noteq> None then r = -1 \<and> s' = s
       else if r \<noteq> 0 then r = -1 \<and> live' = live \<and> fs_nodes s' = fs_nodes s
       else \<exists>a. a \<notin> live \<and> a \<noteq> 0 \<and> live' = insert a live \<and> tree_ok TMPFS_OPS s' (insert a N)
         \<and> nd_type (the (fs_nodes s' a)) = type \<and> nd_size (the (fs_nodes s' a)) = 0 \<and> child_map s' a = Map.empty
         \<and> (\<forall>e\<in>N. child_map s' e = (if e = d then (child_map s d)(name \<mapsto> a) else child_map s e)))"
proof -
  obtain nd where nd: "fs_nodes s d = Some nd" "nd_ops nd = TMPFS_OPS" "set (nd_children nd) \<subseteq> N"
    "distinct (map fst (entries s (nd_children nd)))" "d \<noteq> 0" using tree_okD [OF tree d] by metis
  have ty: "nd_type nd = FS_DIR" using dir nd(1) by simp
  show ?thesis
  proof (cases "child_map s d name")
    case (Some c)
    then have "tmpfs_make type d name s = Some (-1, s)"
      using tmpfs_lookup_map [OF tree d, of name] nd(1) ty child_map_in [OF tree d Some] by (simp add: tmpfs_make_def)
    then show ?thesis using Some heap by auto
  next
    case None
    obtain a s1 where a: "fs_alloc SIZEOF_NODE s = Some (a, s1)" "a \<notin> live"
      "fs_nodes s1 = fs_nodes s" "fs_heap lo hi (if a = 0 then live else insert a live) s1"
      "km_bytes (fs_mem s1) = km_bytes (fs_mem s)" "s1 = s\<lparr>fs_klime := fs_klime s1, fs_mem := fs_mem s1\<rparr>"
      using fs_alloc_spec [OF heap] by blast
    have m1: "mnts s1 = mnts s" by (subst a(6)) simp
    show ?thesis
    proof (cases "a = 0")
      case True
      then have "tmpfs_make type d name s = Some (-1, s1)"
        using None tmpfs_lookup_map [OF tree d, of name] nd(1) ty a(1) by (simp add: tmpfs_make_def fs_mknode_def)
      then show ?thesis using None True a m1 by auto
    next
      case False
      let ?n = "\<lparr>nd_name = name, nd_type = type, nd_size = 0, nd_inode = 0, nd_uid = 0, nd_gid = 0,
        nd_mode = (if type = FS_DIR then FS_MODE_DIR else if type = FS_DEV then FS_MODE_DEV else FS_MODE_FILE),
        nd_ops = 0, nd_priv = 0, nd_children = [], nd_parent = 0\<rparr>"
      define s2 where "s2 = s1\<lparr>fs_nodes := (fs_nodes s1)(a \<mapsto> ?n)\<rparr>"
      define t where "t = snd (fs_addchild d a (upd_node a (\<lambda>n. n\<lparr>nd_ops := nd_ops nd\<rparr>) s2))"
      have mk: "tmpfs_make type d name s = Some (0, t)"
        using None tmpfs_lookup_map [OF tree d, of name] nd(1) ty a(1) False len
        by (simp add: tmpfs_make_def fs_mknode_def s2_def t_def not_le)
      have live: "dom (fs_nodes s) \<subseteq> live" using heap by (simp add: fs_heap_def)
      have "N \<subseteq> dom (fs_nodes s)" using tree by (force simp: tree_ok_def)
      then have ad: "a \<noteq> d" "a \<notin> N" using a(2) live d by auto
      have nodes: "fs_nodes t = (fs_nodes s)(a \<mapsto> ?n\<lparr>nd_ops := TMPFS_OPS, nd_parent := d\<rparr>,
          d \<mapsto> nd\<lparr>nd_children := a # nd_children nd\<rparr>)"
        using ad(1) nd(1,2,5) False by (auto simp: t_def fs_addchild_def s2_def a(3) fun_eq_iff)
      have misc: "fs_klime t = fs_klime s1" "fs_mem t = fs_mem s1" "mnts t = mnts s"
        using False nd(5) m1 by (simp_all add: t_def fs_addchild_def s2_def)
      have "a \<notin> dom (fs_nodes s)" using a(2) live by auto
      from add_child_spec [OF tree d nd(1) ty _ this False _ _ nodes] None
      have tr: "tree_ok TMPFS_OPS t (insert a N)" and ca: "child_map t a = Map.empty"
        and cm: "\<forall>e\<in>N. child_map t e = (if e = d then (child_map s d)(name \<mapsto> a) else child_map s e)" by simp_all
      have hp: "fs_heap lo hi (insert a live) t"
        using a(4) False live nd(1) by (auto simp: fs_heap_def misc nodes)
      have "nd_type (the (fs_nodes t a)) = type" "nd_size (the (fs_nodes t a)) = 0" using ad(1) by (simp_all add: nodes)
      then show ?thesis using mk hp misc(3) None a(2) False tr ca cm by auto
    qed
  qed
qed

lemma map_of_drop_value:
  assumes "distinct (map fst ps)" "map_of ps k = Some v" "\<And>p q. p \<in> set ps \<Longrightarrow> q \<in> set ps \<Longrightarrow> snd p = snd q \<Longrightarrow> p = q"
  shows "map_of (filter (\<lambda>p. snd p \<noteq> v) ps) = (map_of ps)(k := None)"
proof
  fix x
  have kv: "(k, v) \<in> set ps" using map_of_SomeD [OF assms(2)] .
  show "map_of (filter (\<lambda>p. snd p \<noteq> v) ps) x = ((map_of ps)(k := None)) x"
  proof (cases "map_of ps x")
    case None
    then have "x \<notin> fst ` set (filter (\<lambda>p. snd p \<noteq> v) ps)" by (auto simp: map_of_eq_None_iff)
    then show ?thesis using None by (auto simp: map_of_eq_None_iff [THEN iffD2])
  next
    case (Some y)
    note xy = map_of_SomeD [OF Some]
    show ?thesis
    proof (cases "x = k")
      case True
      have "x \<notin> fst ` set (filter (\<lambda>p. snd p \<noteq> v) ps)"
        using assms(1,2) True by (auto dest!: map_of_SomeD dest: eq_key_imp_eq_value)
      then show ?thesis using True by (auto simp: map_of_eq_None_iff [THEN iffD2])
    next
      case False
      then have "y \<noteq> v" using assms(3) [OF xy kv] by auto
      then have "(x, y) \<in> set (filter (\<lambda>p. snd p \<noteq> v) ps)" using xy by simp
      then have "map_of (filter (\<lambda>p. snd p \<noteq> v) ps) x = Some y"
        using assms(1) by (intro map_of_is_SomeI distinct_map_filter)
      then show ?thesis using False Some by simp
    qed
  qed
qed

lemma unlink_spec:
  assumes tree: "tree_ok TMPFS_OPS s N" and d: "d \<in> N" and dir: "nd_type (the (fs_nodes s d)) = FS_DIR"
  shows "\<exists>s'. tmpfs_unlink d name s = Some (if child_map s d name = None then -1 else 0, s') \<and> tree_ok TMPFS_OPS s' N
    \<and> fs_heap lo hi live s' = fs_heap lo hi live s
    \<and> (\<forall>e\<in>N. child_map s' e = (if e = d then (child_map s d)(name := None) else child_map s e))"
proof -
  obtain nd where nd: "fs_nodes s d = Some nd" "nd_ops nd = TMPFS_OPS" "set (nd_children nd) \<subseteq> N"
    "distinct (map fst (entries s (nd_children nd)))" "d \<noteq> 0" using tree_okD [OF tree d] by metis
  have ty: "nd_type nd = FS_DIR" using dir nd(1) by simp
  have ex: "\<forall>c\<in>set (nd_children nd). fs_nodes s c \<noteq> None" using nd(3) tree by (fastforce simp: tree_ok_def)
  note nm = named_child_map [OF ex, of name]
  show ?thesis
  proof (cases "child_map s d name")
    case None
    then have "tmpfs_unlink d name s = Some (-1, s)"
      using nm nd(1) ty by (simp add: tmpfs_unlink_def unlink_child_def child_map_def)
    moreover have "(child_map s d)(name := None) = child_map s d" using None by (simp add: fun_upd_idem)
    ultimately show ?thesis using None tree by (intro exI [of _ s]) auto
  next
    case (Some c)
    have c: "c \<noteq> 0" using child_map_in [OF tree d Some] by simp
    define t where "t = upd_node d (\<lambda>n. n\<lparr>nd_children := remove1 c (nd_children n)\<rparr>) s"
    have mc: "map_of (entries s (nd_children nd)) name = Some c" using Some nd(1) ty by (simp add: child_map_def)
    have un: "tmpfs_unlink d name s = Some (0, t)"
      using nm nd(1) ty c mc by (simp add: tmpfs_unlink_def unlink_child_def t_def)
    have nodes: "fs_nodes t = (fs_nodes s)(d \<mapsto> nd\<lparr>nd_children := remove1 c (nd_children nd)\<rparr>)"
      using nd(1) by (simp add: t_def fun_eq_iff)
    have name_t: "nd_name (the (fs_nodes t b)) = nd_name (the (fs_nodes s b))" for b
      using nd(1) by (simp add: nodes)
    have ent: "entries t cs = entries s cs" for cs by (simp add: entries_def name_t)
    have inj: "distinct (nd_children nd)" using nd(4) by (auto simp: entries_def distinct_map)
    have rm: "entries s (remove1 c (nd_children nd)) = filter (\<lambda>p. snd p \<noteq> c) (entries s (nd_children nd))"
      using inj by (simp add: entries_def distinct_remove1_removeAll removeAll_filter_not_eq filter_map comp_def)
        (metis (mono_tags, lifting))
    have "map_of (filter (\<lambda>p. snd p \<noteq> c) (entries s (nd_children nd))) = (map_of (entries s (nd_children nd)))(name := None)"
      by (rule map_of_drop_value [OF nd(4) mc]) (auto simp: entries_def)
    then have cd: "child_map t d = (child_map s d)(name := None)"
      using nd(1) ty by (simp add: child_map_def nodes ent rm)
    have ce: "child_map t e = child_map s e" if "e \<noteq> d" for e using that by (simp add: child_map_def nodes ent split: option.splits)
    have "distinct (map fst (entries t (remove1 c (nd_children nd))))"
      using nd(4) by (simp add: ent rm distinct_map_filter)
    then have "tree_ok TMPFS_OPS t N"
      using tree nd(2,3) d set_remove1_subset [of c "nd_children nd"] unfolding tree_ok_def
      by (auto simp: nodes ent)
    moreover have "fs_heap lo hi live t = fs_heap lo hi live s"
    proof -
      have "dom (fs_nodes t) = dom (fs_nodes s)" using nd(1) by (auto simp: nodes)
      then show ?thesis by (simp add: fs_heap_def t_def)
    qed
    ultimately show ?thesis using un Some cd ce by (intro exI [of _ t]) auto
  qed
qed

section \<open>Contents\<close>

lemma file_simps [simp]:
  "fs_files (upd_file a f s) b = (if b = a then map_option f (fs_files s a) else fs_files s b)"
  "fs_nodes (upd_file a f s) = fs_nodes s" "tmp_objs (upd_file a f s) = tmp_objs s" "fs_mem (upd_file a f s) = fs_mem s"
  "fs_files (copy_bytes d q n s) = fs_files s" "fs_nodes (copy_bytes d q n s) = fs_nodes s"
  "tmp_objs (copy_bytes d q n s) = tmp_objs s"
  "km_bytes (fs_mem (copy_bytes d q n s)) = memcpy (km_bytes (fs_mem s)) d q n"
  by (simp_all add: upd_file_def copy_bytes_def)

lemma memcpy_aligned:
  assumes "apart d q (unat n + 7)" "unat d mod 8 = 0" "i < unat n"
  shows "memcpy m d q n (d + word_of_nat i) = m (q + word_of_nat i)"
proof -
  have "unat n + 7 \<le> 2 ^ 64" using assms(1) by (simp add: apart_def)
  then have "unat (word_of_nat i :: u64) = i" using assms(3) by (intro unat_of_nat64) simp
  moreover have "memcpy_len d (unat n) = unat n" using assms(2) by (simp add: memcpy_len_def)
  ultimately show ?thesis using memcpy_eq [OF assms(1)] assms(3) by (simp add: blit_def span_def)
qed

text \<open>How many bytes a read takes: the bound is tested with a sum that may wrap around.\<close>

lemma read_count:
  assumes "pos < sz"
  shows "unat (if pos + cnt > sz then sz - pos else cnt :: u64) =
    (if unat pos + unat cnt < 2 ^ 64 then min (unat cnt) (unat sz - unat pos)
     else if unat pos + unat cnt - 2 ^ 64 > unat sz then unat sz - unat pos else unat cnt)"
proof -
  have s: "unat (sz - pos) = unat sz - unat pos" using assms by (simp add: unat_sub less_imp_le)
  have a: "unat (pos + cnt) = (if unat pos + unat cnt < 2 ^ 64 then unat pos + unat cnt else unat pos + unat cnt - 2 ^ 64)"
    by (simp add: unat_plus_if')
  show ?thesis using s a assms by (auto simp: word_less_nat_alt min_def)
qed

lemma tmpfs_read_spec:
  fixes cnt :: u64
  assumes "fs_files s file = Some f" "fs_nodes s (ff_node f) = Some nd" "nd_type nd = FS_FILE"
    and "nd_priv nd \<noteq> 0" "tmp_objs s (nd_priv nd) = Some td" "td_data td \<noteq> 0" "ff_pos f < nd_size nd"
  defines "n \<equiv> if ff_pos f + cnt > nd_size nd then nd_size nd - ff_pos f else cnt"
  shows "tmpfs_read file buf cnt s = Some (sint n, upd_file file (\<lambda>f. f\<lparr>ff_pos := ff_pos f + n\<rparr>)
    (copy_bytes buf (td_data td + ff_pos f) n s))"
proof -
  have "\<not> nd_size nd \<le> ff_pos f" using assms(7) by simp
  then show ?thesis using assms(1-6) unfolding n_def by (simp add: tmpfs_read_def Let_def)
qed

lemma tmpfs_write_spec:
  assumes "fs_files s file = Some f" "fs_nodes s (ff_node f) = Some nd" "nd_type nd = FS_FILE"
    and "nd_priv nd \<noteq> 0" "tmp_objs s (nd_priv nd) = Some td" "\<not> td_ro td" "ff_pos f + cnt \<le> td_cap td"
  shows "tmpfs_write file buf cnt s = Some (sint cnt,
    let t = upd_file file (\<lambda>f. f\<lparr>ff_pos := ff_pos f + cnt\<rparr>) (copy_bytes (td_data td + ff_pos f) buf cnt s)
    in if nd_size nd < ff_pos f + cnt then upd_node (ff_node f) (\<lambda>n. n\<lparr>nd_size := ff_pos f + cnt\<rparr>) t else t)"
  using assms by (simp add: tmpfs_write_def need_data_def promote_ro_def grow_data_def Let_def)

section \<open>Descriptors and mounts\<close>

text \<open>What opening and closing leave alone.\<close>

definition same_rest :: "fs \<Rightarrow> fs \<Rightarrow> bool" where
  "same_rest s s' \<longleftrightarrow> fs_nodes s' = fs_nodes s \<and> mnts s' = mnts s \<and> tmp_objs s' = tmp_objs s
     \<and> g_current_uid s' = g_current_uid s \<and> g_current_gid s' = g_current_gid s
     \<and> km_bytes (fs_mem s') = km_bytes (fs_mem s)"

lemma same_rest_simps [simp]:
  "same_rest s s" "same_rest s (t\<lparr>fs_files := fl\<rparr>) = same_rest s t" "same_rest s (t\<lparr>fds := fd\<rparr>) = same_rest s t"
  by (simp_all add: same_rest_def)

lemma same_rest_heap:
  "t = s\<lparr>fs_klime := k, fs_mem := m\<rparr> \<Longrightarrow> km_bytes m = km_bytes (fs_mem s) \<Longrightarrow> same_rest q s \<Longrightarrow> same_rest q t"
  by (simp add: same_rest_def)

lemma fs_heap_simps [simp]:
  "fs_heap lo hi live (s\<lparr>fs_files := fl\<rparr>) = fs_heap lo hi live s" "fs_heap lo hi live (s\<lparr>fds := fd\<rparr>) = fs_heap lo hi live s"
  by (simp_all add: fs_heap_def)

lemma alloc_fd_spec:
  assumes "length (fds s) = FS_MAX_FDS"
  shows "(\<exists>i. fs_alloc_fd file s = (int i, s\<lparr>fds := (fds s)[i := file]\<rparr>) \<and> 3 \<le> i \<and> i < FS_MAX_FDS \<and> fds s ! i = 0
        \<and> (\<forall>j<i. 3 \<le> j \<longrightarrow> fds s ! j \<noteq> 0))
    \<or> fs_alloc_fd file s = (-1, s) \<and> (\<forall>j<FS_MAX_FDS. 3 \<le> j \<longrightarrow> fds s ! j \<noteq> 0)"
proof (cases "find (\<lambda>i. fds s ! i = 0) [3..<FS_MAX_FDS]")
  case None
  have "fs_alloc_fd file s = (-1, s)" using None by (simp add: fs_alloc_fd_def)
  moreover have "\<forall>j<FS_MAX_FDS. 3 \<le> j \<longrightarrow> fds s ! j \<noteq> 0" using None by (auto simp: find_None_iff)
  ultimately show ?thesis by blast
next
  case (Some i)
  then obtain k where k: "k < FS_MAX_FDS - 3" "fds s ! (3 + k) = 0" "i = 3 + k" "\<forall>j<k. fds s ! (3 + j) \<noteq> 0"
    by (auto simp: find_Some_iff)
  have "fds s ! j \<noteq> 0" if "j < i" "3 \<le> j" for j
    using k(4) that k(3) by (metis add_diff_inverse_nat add_less_cancel_left not_less)
  moreover have "fs_alloc_fd file s = (int i, s\<lparr>fds := (fds s)[i := file]\<rparr>)" using Some by (simp add: fs_alloc_fd_def)
  ultimately show ?thesis using k by (intro disjI1 exI [of _ i]) simp
qed

text \<open>
  What an open file needs: the rights on the node that the two lowest bits of the flags ask for (1 to read, 2 to write, 3 both, 0 none),
  a descriptor that is free, and room in the heap for the file object.
\<close>

definition rights :: "u32 \<Rightarrow> u8" where
  "rights flags = [0, FS_PERM_R, FS_PERM_W, FS_PERM_R OR FS_PERM_W] ! unat (flags AND 3)"

definition may_open :: "fs \<Rightarrow> u64 \<Rightarrow> u32 \<Rightarrow> bool" where
  "may_open s n flags \<longleftrightarrow> rights flags = 0 \<or> fs_check_perm (fs_nodes s n) (g_current_uid s) (g_current_gid s) (rights flags)"

definition fds_full :: "fs \<Rightarrow> bool" where
  "fds_full s \<longleftrightarrow> (\<forall>j<FS_MAX_FDS. 3 \<le> j \<longrightarrow> fds s ! j \<noteq> 0)"

definition no_room :: "fs \<Rightarrow> bool" where
  "no_room s \<longleftrightarrow> map_option fst (fs_alloc SIZEOF_FILE s) = Some 0"

lemma free_fd_not_full: "3 \<le> fd \<Longrightarrow> fd < int FS_MAX_FDS \<Longrightarrow> fds s ! nat fd = 0 \<Longrightarrow> \<not> fds_full s"
  by (auto simp: fds_full_def intro: exI [of _ "nat fd"])

lemma and_3_cases: "(x :: u32) AND 3 \<in> {0, 1, 2, 3}"
proof -
  have "x AND 3 = take_bit 2 x" using take_bit_eq_mask [of 2 x] by (simp add: mask_eq_exp_minus_1)
  then have "unat (x AND 3) < 4" by (simp add: unsigned_take_bit_eq take_bit_nat_def)
  then have "unat (x AND 3) = 0 \<or> unat (x AND 3) = 1 \<or> unat (x AND 3) = 2 \<or> unat (x AND 3) = 3" by linarith
  then show ?thesis by (auto simp: word_unat_eq_iff)
qed

lemma file_open_spec:
  assumes heap: "fs_heap lo hi live s" and tree: "tree_ok TMPFS_OPS s N" and tab: "tab_ops tab TMPFS_OPS = tmpfs_ops"
    and res: "fs_resolve tab path s = Some (n, s)" "n \<in> N" and len: "length (fds s) = FS_MAX_FDS"
    and files: "dom (fs_files s) \<subseteq> live"
  shows "\<exists>fd s' live'. fs_open tab path flags s = Some (fd, s') \<and> fs_heap lo hi live' s' \<and> same_rest s s'
    \<and> (if fd < 0 then fd = -1 \<and> live' = live \<and> fds s' = fds s \<and> fs_files s' = fs_files s
         \<and> (\<not> may_open s n flags \<or> fds_full s \<or> no_room s)
       else may_open s n flags \<and> \<not> no_room s \<and> ( \<exists>a. a \<notin> live \<and> live' = insert a live \<and> fs_files s' = (fs_files s)(a \<mapsto> \<lparr>ff_node = n, ff_pos = 0, ff_flags = flags\<rparr>)
         \<and> 3 \<le> fd \<and> fd < int FS_MAX_FDS \<and> fds s ! nat fd = 0 \<and> (\<forall>j<nat fd. 3 \<le> j \<longrightarrow> fds s ! j \<noteq> 0)
         \<and> fds s' = (fds s)[nat fd := a]))"
proof -
  obtain nd where nd: "fs_nodes s n = Some nd" "nd_ops nd = TMPFS_OPS" "n \<noteq> 0" using tree_okD [OF tree res(2)] by metis
  have op: "(case if nd_ops nd = 0 then None else op_open (tab_ops tab (nd_ops nd)) of
      None \<Rightarrow> Some (0, t) | Some f \<Rightarrow> f n a t) = Some (0, t)" for t a
  proof -
    have "TMPFS_OPS \<noteq> 0" by (simp add: TMPFS_OPS_def)
    then show ?thesis by (simp add: nd(2) tab tmpfs_ops_def tmpfs_open_def)
  qed
  define need where "need = ((if flags AND 3 = O_RDONLY \<or> flags AND 3 = O_RDWR then FS_PERM_R else 0)
     OR (if flags AND 3 = O_WRONLY \<or> flags AND 3 = O_RDWR then FS_PERM_W else 0))"
  have need: "need = rights flags" using and_3_cases [of flags]
    by (auto simp: need_def rights_def O_RDONLY_def O_WRONLY_def O_RDWR_def)
  have may: "may_open s n flags \<longleftrightarrow> \<not> (need \<noteq> 0 \<and> \<not> fs_check_perm (Some nd) (g_current_uid s) (g_current_gid s) need)"
    using nd(1) by (auto simp: may_open_def need)
  show ?thesis
  proof (cases "need \<noteq> 0 \<and> \<not> fs_check_perm (Some nd) (g_current_uid s) (g_current_gid s) need")
    case True
    then have "fs_open tab path flags s = Some (-1, s)"
      using res(1) nd by (simp add: fs_open_def need_def Let_def)
    then show ?thesis using heap True may by auto
  next
    case False
    with may have mo: "may_open s n flags" by blast
    from False have perm: "(need \<noteq> 0 \<and> \<not> fs_check_perm (Some nd) (g_current_uid s) (g_current_gid s) need) = False" by simp
    obtain a s1 where a: "fs_alloc SIZEOF_FILE s = Some (a, s1)" "a \<notin> live" "fs_nodes s1 = fs_nodes s"
      "fs_heap lo hi (if a = 0 then live else insert a live) s1" "s1 = s\<lparr>fs_klime := fs_klime s1, fs_mem := fs_mem s1\<rparr>"
      "km_bytes (fs_mem s1) = km_bytes (fs_mem s)"
      using fs_alloc_spec [OF heap] by metis
    have s1: "fds s1 = fds s" "fs_files s1 = fs_files s" by (subst a(5), simp)+
    have r1: "same_rest s s1" using same_rest_heap [OF a(5,6)] by simp
    have fresh: "fs_files s a = None" using files a(2) by (auto simp: domIff)
    show ?thesis
    proof (cases "a = 0")
      case True
      then have "fs_open tab path flags s = Some (-1, s1)"
        using res(1) nd perm a(1) by (auto simp: fs_open_def need_def [symmetric] Let_def)
      then show ?thesis using a True s1 r1 by (auto simp: no_room_def)
    next
      case False
      then have room: "\<not> no_room s" using a(1) by (simp add: no_room_def)
      define s3 where "s3 = s1\<lparr>fs_files := (fs_files s1)(a \<mapsto> \<lparr>ff_node = n, ff_pos = 0, ff_flags = flags\<rparr>)\<rparr>"
      have s3: "fds s3 = fds s" "fs_nodes s3 = fs_nodes s" "fs_files s3 = (fs_files s)(a \<mapsto> \<lparr>ff_node = n, ff_pos = 0, ff_flags = flags\<rparr>)"
        "fs_heap lo hi (insert a live) s3" "same_rest s s3" using a(3,4) False s1 r1 by (simp_all add: s3_def)
      have open_eq: "fs_open tab path flags s = (let (fd, s5) = fs_alloc_fd a s3 in
          if fd < 0 then do { t \<leftarrow> fs_release a s5; Some (-1, t\<lparr>fs_files := (fs_files t)(a := None)\<rparr>) } else Some (fd, s5))"
        using res(1) nd a(1) False op by (simp add: fs_open_def need_def [symmetric] s3_def [symmetric] Let_def perm)
      from alloc_fd_spec [of s3 a] len s3(1) consider
          i where "fs_alloc_fd a s3 = (int i, s3\<lparr>fds := (fds s)[i := a]\<rparr>)" "3 \<le> i" "i < FS_MAX_FDS" "fds s ! i = 0"
            "\<forall>j<i. 3 \<le> j \<longrightarrow> fds s ! j \<noteq> 0"
        | "fs_alloc_fd a s3 = (-1, s3)" "fds_full s" by (auto simp: fds_full_def)
      then show ?thesis
      proof cases
        case 1
        then have "fs_open tab path flags s = Some (int i, s3\<lparr>fds := (fds s)[i := a]\<rparr>)"
          by (simp add: open_eq)
        then show ?thesis using 1 s3 a(2) mo room by (intro exI [of _ "int i"] exI [of _ "s3\<lparr>fds := (fds s)[i := a]\<rparr>"] exI [of _ "insert a live"]) auto
      next
        case 2
        have "a \<notin> dom (fs_nodes s3)" using a(2) heap s3(2) by (auto simp: fs_heap_def)
        with fs_release_spec [OF s3(4)] obtain t where
          t: "fs_release a s3 = Some t" "fs_heap lo hi (insert a live - {a}) t" "t = s3\<lparr>fs_klime := fs_klime t, fs_mem := fs_mem t\<rparr>"
          "km_bytes (fs_mem t) = km_bytes (fs_mem s3)" by blast
        have tt: "fds t = fds s3" "fs_files t = fs_files s3" by (subst t(3), simp)+
        have rt: "same_rest s t" using same_rest_heap [OF t(3,4) s3(5)] .
        have "fs_open tab path flags s = Some (-1, t\<lparr>fs_files := (fs_files t)(a := None)\<rparr>)"
          using 2(1) t(1) by (simp add: open_eq)
        moreover have "insert a live - {a} = live" using a(2) by auto
        ultimately show ?thesis using t(2) tt s3 fresh rt 2(2) by (auto simp: fun_upd_idem)
      qed
    qed
  qed
qed

lemma file_close_spec:
  assumes "fs_heap lo hi live s" "tab_ops tab TMPFS_OPS = tmpfs_ops" "0 \<le> fd" "fd < int FS_MAX_FDS"
    and "fds s ! nat fd = a" "a \<noteq> 0" "a \<in> live" "fs_files s a = Some f" "fs_nodes s (ff_node f) = Some nd" "nd_ops nd = TMPFS_OPS"
    and "a \<notin> dom (fs_nodes s)"
  shows "\<exists>s'. fs_close tab fd s = Some (0, s') \<and> fs_heap lo hi (live - {a}) s' \<and> same_rest s s'
    \<and> fds s' = (fds s)[nat fd := 0] \<and> fs_files s' = (fs_files s)(a := None)"
proof -
  have ops: "(case if nd_ops nd = 0 then None else op_close (tab_ops tab (nd_ops nd)) of
      None \<Rightarrow> Some (0, s) | Some f \<Rightarrow> f a s) = Some (0, s)"
    using assms(2,10) by (simp add: TMPFS_OPS_def tmpfs_ops_def tmpfs_close_def)
  obtain t where t: "fs_release a s = Some t" "fs_heap lo hi (live - {a}) t" "t = s\<lparr>fs_klime := fs_klime t, fs_mem := fs_mem t\<rparr>"
    "km_bytes (fs_mem t) = km_bytes (fs_mem s)" using fs_release_spec [OF assms(1,7,11)] by blast
  have tt: "fds t = fds s" "fs_files t = fs_files s" by (subst t(3), simp)+
  have "fs_close tab fd s = Some (0, fs_free_fd fd (t\<lparr>fs_files := (fs_files t)(a := None)\<rparr>))"
    using assms(3-6,8,9) ops t(1) by (simp add: fs_close_def fs_get_file_def Let_def)
  then show ?thesis using assms(3,4) t(2) tt same_rest_heap [OF t(3,4), of s] by (simp add: fs_free_fd_def)
qed

text \<open>The mount of a path.\<close>

lemma find_mnt_spec:
  defines "mount s path i \<equiv> mn_active (mnts s ! i) \<and> mn_path (mnts s ! i) \<noteq> [] \<and> take (length (mn_path (mnts s ! i))) path = mn_path (mnts s ! i)"
  shows "case find_mnt s path of None \<Rightarrow> \<forall>i<FS_MAX_MNTS. \<not> mount s path i
    | Some i \<Rightarrow> i < FS_MAX_MNTS \<and> mount s path i
        \<and> (\<forall>j<FS_MAX_MNTS. mount s path j \<longrightarrow> length (mn_path (mnts s ! j)) \<le> length (mn_path (mnts s ! i)))"
proof -
  let ?len = "\<lambda>i. length (mn_path (mnts s ! i))"
  let ?f = "\<lambda>i (best, best_len). let m = mnts s ! i; len = length (mn_path m)
     in if \<not> mn_active m then (best, best_len)
        else if best_len < len \<and> take len path = mn_path m then (Some i, len) else (best, best_len)"
  have "case fold ?f [0..<n] (None, 0) of
      (None, l) \<Rightarrow> l = 0 \<and> (\<forall>i<n. \<not> mount s path i)
    | (Some i, l) \<Rightarrow> l = ?len i \<and> i < n \<and> mount s path i \<and> (\<forall>j<n. mount s path j \<longrightarrow> ?len j \<le> ?len i)" for n
  proof (induction n)
    case (Suc n)
    obtain b l where bl: "fold ?f [0..<n] (None, 0) = (b, l)" by fastforce
    have step: "fold ?f [0..<Suc n] (None, 0) = ?f n (b, l)" using bl by simp
    show ?case unfolding step using Suc.IH bl
      by (cases b) (auto simp: Let_def mount_def less_Suc_eq)
  qed simp
  moreover obtain b l where "fold ?f [0..<FS_MAX_MNTS] (None, 0) = (b, l)" by fastforce
  ultimately show ?thesis by (cases b) (auto simp: find_mnt_def dest: meta_spec [of _ FS_MAX_MNTS])
qed

section \<open>A small file system\<close>

text \<open>
  A heap at 0x1000 with the node of the root, the node of a file \<open>a\<close>, a page for its contents and
  4096 free bytes; the file is open at position 0.
\<close>

definition fs_ex_heap :: kmem where
  "fs_ex_heap = \<lparr>km_store =
     [0x1000 \<mapsto> \<lparr>hb_magic = BLOCK_MAGIC, hb_size = 144, hb_next = 0x10B8, hb_prev = 0, hb_used = 1\<rparr>,
      0x10B8 \<mapsto> \<lparr>hb_magic = BLOCK_MAGIC, hb_size = 144, hb_next = 0x1170, hb_prev = 0x1000, hb_used = 1\<rparr>,
      0x1170 \<mapsto> \<lparr>hb_magic = BLOCK_MAGIC, hb_size = 4096, hb_next = 0x2198, hb_prev = 0x10B8, hb_used = 1\<rparr>,
      0x2198 \<mapsto> \<lparr>hb_magic = BLOCK_MAGIC, hb_size = 4096, hb_next = 0, hb_prev = 0x1170, hb_used = 0\<rparr>],
     km_bytes = (\<lambda>a. ucast a)\<rparr>"

definition fs_ex_klime :: klime where
  "fs_ex_klime = \<lparr>start_slab_meta = 0, start_slab_data = 0, start_io = 0, start_dma = 0, start_heap = 0x1000,
     slab_allocator = [], total_heap = 8600, used_heap = 4504\<rparr>"

definition fs_ex_node :: "string \<Rightarrow> u8 \<Rightarrow> u64 \<Rightarrow> u64 list \<Rightarrow> fs_node" where
  "fs_ex_node name type data cs = \<lparr>nd_name = name, nd_type = type, nd_size = 0, nd_inode = 0, nd_uid = 0, nd_gid = 0,
     nd_mode = FS_MODE_FILE, nd_ops = TMPFS_OPS, nd_priv = data, nd_children = cs, nd_parent = 0\<rparr>"

definition fs_ex :: fs where
  "fs_ex = \<lparr>mnts = \<lparr>mn_path = ''/'', mn_type = TMPFS_TYPE, mn_root = 0x1028, mn_active = True\<rparr>
       # replicate 19 \<lparr>mn_path = [], mn_type = 0, mn_root = 0, mn_active = False\<rparr>,
     fds = replicate 64 0, ftypes = [TMPFS_TYPE],
     fs_nodes = [0x1028 \<mapsto> fs_ex_node ''/'' FS_DIR 0 [0x10E0], 0x10E0 \<mapsto> fs_ex_node ''a'' FS_FILE 0x500 []],
     fs_files = [0x600 \<mapsto> \<lparr>ff_node = 0x10E0, ff_pos = 0, ff_flags = O_RDWR\<rparr>],
     tmp_objs = [0x500 \<mapsto> \<lparr>td_data = 0x1198, td_cap = 4096, td_ro = False\<rparr>], dev_objs = Map.empty, devfs_root = 0,
     mod_objs = Map.empty, modules = replicate 256 0, module_count = 0, fs_vts = vts_ex,
     fs_klime = Some fs_ex_klime, fs_mem = fs_ex_heap, g_current_uid = 0, g_current_gid = 0\<rparr>"

definition fs_ex_tab :: fs_tab where
  "fs_ex_tab = \<lparr>tab_ops = (\<lambda>_. tmpfs_ops), tab_type = (\<lambda>_. tmpfs)\<rparr>"

lemma fs_ex_heap_ok: "fs_heap 0x1000 0x31C0 {0x1028, 0x10E0, 0x1198} fs_ex"
proof -
  let ?bs = "[(0x1000, 144, True), (0x10B8, 144, True), (0x1170, 4096, True), (0x2198, 4096, False)] :: ablock list"
  have "klime_ok fs_ex_klime fs_ex_heap ?bs 0x1000 0x31C0"
    by (simp add: klime_ok_def heap_ok_def fs_ex_heap_def fs_ex_klime_def HDR_def)
  moreover have "coalesced ?bs" by (simp add: coalesced_def)
  moreover have "live_ptrs ?bs = {0x1028, 0x10E0, 0x1198}" by (auto simp: HDR_def)
  ultimately have "klime_inv 0x1000 0x31C0 (fs_ex_klime, fs_ex_heap, {0x1028, 0x10E0, 0x1198})"
    unfolding klime_inv_def by blast
  then show ?thesis by (auto simp: fs_heap_def fs_ex_def)
qed

lemma fs_ex_tree: "tree_ok TMPFS_OPS fs_ex {0x1028, 0x10E0}" "nd_type (the (fs_nodes fs_ex 0x1028)) = FS_DIR"
  "child_map fs_ex 0x1028 = [''a'' \<mapsto> 0x10E0]"
  by (auto simp: tree_ok_def fs_ex_def fs_ex_node_def entries_def child_map_def)

lemma fs_ex_mnt: "find_mnt fs_ex ''//a'' = Some 0"
  by (simp add: find_mnt_def FS_MAX_MNTS_def upt_rec fs_ex_def)

lemma fs_ex_malloc: "map_option fst (malloc (km_store fs_ex_heap) 0x1000 SIZEOF_FILE) = Some 0x21C0"
proof -
  let ?st = "km_store fs_ex_heap"
  have st: "?st 0x1000 = Some \<lparr>hb_magic = BLOCK_MAGIC, hb_size = 144, hb_next = 0x10B8, hb_prev = 0, hb_used = 1\<rparr>"
    "?st 0x10B8 = Some \<lparr>hb_magic = BLOCK_MAGIC, hb_size = 144, hb_next = 0x1170, hb_prev = 0x1000, hb_used = 1\<rparr>"
    "?st 0x1170 = Some \<lparr>hb_magic = BLOCK_MAGIC, hb_size = 4096, hb_next = 0x2198, hb_prev = 0x10B8, hb_used = 1\<rparr>"
    "?st 0x2198 = Some \<lparr>hb_magic = BLOCK_MAGIC, hb_size = 4096, hb_next = 0, hb_prev = 0x1170, hb_used = 0\<rparr>"
    by (simp_all add: fs_ex_heap_def)
  have "best_fit_loop ?st 32 0 0x2198 4096 = Some 0x2198" by (subst best_fit_loop.simps) simp
  then have "best_fit_loop ?st 32 0x2198 0 SIZE_MAX = Some 0x2198" by (subst best_fit_loop.simps) (simp add: st SIZE_MAX_def)
  then have "best_fit_loop ?st 32 0x1170 0 SIZE_MAX = Some 0x2198" by (subst best_fit_loop.simps) (simp add: st)
  then have "best_fit_loop ?st 32 0x10B8 0 SIZE_MAX = Some 0x2198" by (subst best_fit_loop.simps) (simp add: st)
  then have "best_fit_loop ?st 32 0x1000 0 SIZE_MAX = Some 0x2198" by (subst best_fit_loop.simps) (simp add: st)
  moreover have "round16 SIZEOF_FILE = 32" by (simp add: round16_def SIZEOF_FILE_def)
  ultimately show ?thesis by (simp add: malloc_def SIZEOF_FILE_def st split_block_def HDR_def)
qed

lemma fs_ex_room: "fs_klime s = Some fs_ex_klime \<Longrightarrow> km_store (fs_mem s) = km_store fs_ex_heap \<Longrightarrow> \<not> no_room s"
  using fs_ex_malloc
  by (auto simp: no_room_def fs_alloc_def klime_create_def Let_def fs_ex_klime_def SIZEOF_FILE_def Option.bind_eq_Some_conv
      split: option.splits if_splits)

section \<open>Properties\<close>

text \<open>
  C17. On a mount whose nodes are those of the in-memory file system, resolving
  an absolute path gives the node that its parts lead to, one directory after the other, from the root of the
  mount, 0 when a part is missing, and changes nothing; the parts are what is between the slashes
  after the path of the mount, without the empty ones, cut at 63 characters.
\<close>

theorem fs_resolve_follows:
  assumes "tree_ok TMPFS_OPS s N" "tab_ops tab TMPFS_OPS = tmpfs_ops"
    and "path \<noteq> []" "path ! 0 = CHR ''/''" "find_mnt s path = Some i" "mn_root (mnts s ! i) \<in> N"
  shows "fs_resolve tab path s =
    Some (follow s (mn_root (mnts s ! i)) (parts (drop (length (mn_path (mnts s ! i))) path)), s)"
  using assms by (rule resolve_tmpfs)

theorem fs_resolve_follows_witness:
  "fs_resolve fs_ex_tab ''//a'' fs_ex = Some (0x10E0, fs_ex)"
proof -
  have r: "mn_root (mnts fs_ex ! 0) = 0x1028" "mn_path (mnts fs_ex ! 0) = ''/''" by (simp_all add: fs_ex_def)
  have "fs_resolve fs_ex_tab ''//a'' fs_ex = Some (follow fs_ex 0x1028 (parts ''/a''), fs_ex)"
    using fs_resolve_follows [OF fs_ex_tree(1) _ _ _ fs_ex_mnt, of fs_ex_tab] by (simp add: fs_ex_tab_def r)
  moreover have "parts ''/a'' = [''a'']" by simp
  ultimately show ?thesis by (simp add: fs_ex_tree(3))
qed

text \<open>
  C18. Creating a file or a directory in a directory of the in-memory file system:
  when the name is taken it fails and nothing changes; when memory runs out it fails and no node
  changes; otherwise the directory, as a map from names to nodes, gains the name with a fresh empty node,
  every other directory stays as it was, and the nodes still form a tree of live blocks.
\<close>

theorem tmpfs_make_adds:
  assumes "fs_heap lo hi live s" "tree_ok TMPFS_OPS s N" "d \<in> N" "length name < FS_NAME" "nd_type (the (fs_nodes s d)) = FS_DIR"
  shows "\<exists>r s' live'. tmpfs_make type d name s = Some (r, s') \<and> fs_heap lo hi live' s' \<and> mnts s' = mnts s
    \<and> (if child_map s d name \<noteq> None then r = -1 \<and> s' = s
       else if r \<noteq> 0 then r = -1 \<and> live' = live \<and> fs_nodes s' = fs_nodes s
       else \<exists>a. a \<notin> live \<and> a \<noteq> 0 \<and> live' = insert a live \<and> tree_ok TMPFS_OPS s' (insert a N)
         \<and> nd_type (the (fs_nodes s' a)) = type \<and> nd_size (the (fs_nodes s' a)) = 0 \<and> child_map s' a = Map.empty
         \<and> (\<forall>e\<in>N. child_map s' e = (if e = d then (child_map s d)(name \<mapsto> a) else child_map s e)))"
  using assms by (rule make_spec)

theorem tmpfs_make_adds_witness:
  "\<exists>r s'. tmpfs_make FS_FILE 0x1028 ''b'' fs_ex = Some (r, s') \<and> (r = 0 \<longrightarrow> child_map s' 0x1028 ''b'' \<noteq> None)
     \<and> tmpfs_make FS_FILE 0x1028 ''a'' fs_ex = Some (-1, fs_ex)"
  using tmpfs_make_adds [OF fs_ex_heap_ok fs_ex_tree(1) _ _ fs_ex_tree(2), of "''b''" FS_FILE]
    tmpfs_make_adds [OF fs_ex_heap_ok fs_ex_tree(1) _ _ fs_ex_tree(2), of "''a''" FS_FILE]
  by (auto simp: fs_ex_tree(3) FS_NAME_def split: if_splits)

text \<open>
  Removing a name from a directory of the in-memory file system fails and
  changes no directory when the name is not there; otherwise the directory loses that name and no
  other, every other directory stays as it was and the nodes still form a tree. The removed node is
  not given back to the heap.
\<close>

lemma tmpfs_unlink_removes:
  assumes "tree_ok TMPFS_OPS s N" "d \<in> N" "nd_type (the (fs_nodes s d)) = FS_DIR"
  shows "\<exists>s'. tmpfs_unlink d name s = Some (if child_map s d name = None then -1 else 0, s') \<and> tree_ok TMPFS_OPS s' N
    \<and> fs_heap lo hi live s' = fs_heap lo hi live s
    \<and> (\<forall>e\<in>N. child_map s' e = (if e = d then (child_map s d)(name := None) else child_map s e))"
  using assms by (rule unlink_spec)

lemma tmpfs_unlink_removes_witness:
  "\<exists>s'. tmpfs_unlink 0x1028 ''a'' fs_ex = Some (0, s') \<and> child_map s' 0x1028 = Map.empty"
  using tmpfs_unlink_removes [OF fs_ex_tree(1) _ fs_ex_tree(2), of "''a''" 0 0 "{}"] by (auto simp: fs_ex_tree(3))

text \<open>
  What is written into a file at a place where it has room, a multiple of
  eight in memory, is what a read from the same position gives back, byte for byte.
\<close>

lemma tmpfs_write_read:
  assumes "fs_files s file = Some f" "fs_nodes s (ff_node f) = Some nd" "nd_type nd = FS_FILE"
    and "nd_priv nd \<noteq> 0" "tmp_objs s (nd_priv nd) = Some td" "\<not> td_ro td" "td_data td \<noteq> 0"
    and "unat (ff_pos f) + unat cnt \<le> unat (td_cap td)" "cnt \<noteq> 0"
    and "unat (td_data td + ff_pos f) mod 8 = 0" "apart (td_data td + ff_pos f) buf (unat cnt + 7)"
    and "unat buf' mod 8 = 0" "apart buf' (td_data td + ff_pos f) (unat cnt + 7)"
  shows "\<exists>s1 s2. tmpfs_write file buf cnt s = Some (sint cnt, s1)
    \<and> tmpfs_read file buf' cnt (upd_file file (\<lambda>g. g\<lparr>ff_pos := ff_pos f\<rparr>) s1) = Some (sint cnt, s2)
    \<and> (\<forall>i<unat cnt. km_bytes (fs_mem s2) (buf' + word_of_nat i) = km_bytes (fs_mem s) (buf + word_of_nat i))
    \<and> fds s1 = fds s \<and> g_current_uid s1 = g_current_uid s \<and> g_current_gid s1 = g_current_gid s
    \<and> fs_files s1 file = Some (f\<lparr>ff_pos := ff_pos f + cnt\<rparr>)
    \<and> fs_nodes s1 (ff_node f) = Some (nd\<lparr>nd_size := max (nd_size nd) (ff_pos f + cnt)\<rparr>)"
proof -
  have u: "unat (ff_pos f + cnt) = unat (ff_pos f) + unat cnt"
    using assms(8) unat_lt_2p64 [of "td_cap td"] by (intro unat_add_no_wrap64) linarith
  have cap: "ff_pos f + cnt \<le> td_cap td" using assms(8) u by (simp add: word_le_nat_alt)
  define t where "t = upd_file file (\<lambda>f. f\<lparr>ff_pos := ff_pos f + cnt\<rparr>) (copy_bytes (td_data td + ff_pos f) buf cnt s)"
  define s1 where "s1 = (if nd_size nd < ff_pos f + cnt then upd_node (ff_node f) (\<lambda>n. n\<lparr>nd_size := ff_pos f + cnt\<rparr>) t else t)"
  have w: "tmpfs_write file buf cnt s = Some (sint cnt, s1)"
    using tmpfs_write_spec [OF assms(1-6) cap] by (simp add: s1_def t_def Let_def)
  define nd' where "nd' = (if nd_size nd < ff_pos f + cnt then nd\<lparr>nd_size := ff_pos f + cnt\<rparr> else nd)"
  let ?s = "upd_file file (\<lambda>g. g\<lparr>ff_pos := ff_pos f\<rparr>) s1"
  have st: "fs_nodes ?s (ff_node f) = Some nd'" "tmp_objs ?s = tmp_objs s"
    "fs_files ?s file = Some f" "fs_mem ?s = fs_mem t"
    using assms(1,2) by (simp_all add: s1_def t_def nd'_def)
  have sz: "nd_type nd' = FS_FILE" "nd_priv nd' = nd_priv nd" "ff_pos f + cnt \<le> nd_size nd'"
    using assms(3) by (auto simp: nd'_def not_less)
  have lt: "ff_pos f < ff_pos f + cnt"
  proof -
    have "unat cnt \<noteq> 0" using assms(9) by (simp add: unsigned_eq_0_iff)
    then show ?thesis using u by (simp add: word_less_nat_alt)
  qed
  then have lt': "ff_pos f < nd_size nd'" using sz(3) by simp
  have "\<not> ff_pos f + cnt > nd_size nd'" using sz(3) by simp
  with tmpfs_read_spec [OF st(3,1) sz(1)] sz(2) assms(4,5,7) st(2) lt'
  have r: "tmpfs_read file buf' cnt ?s = Some (sint cnt, upd_file file (\<lambda>f. f\<lparr>ff_pos := ff_pos f + cnt\<rparr>)
      (copy_bytes buf' (td_data td + ff_pos f) cnt ?s))" by simp
  have "memcpy (km_bytes (fs_mem ?s)) buf' (td_data td + ff_pos f) cnt (buf' + word_of_nat i) =
      km_bytes (fs_mem s) (buf + word_of_nat i)" if "i < unat cnt" for i
    using memcpy_aligned [OF assms(13,12) that] memcpy_aligned [OF assms(11,10) that] st(4) by (simp add: t_def)
  moreover have "fds s1 = fds s" "g_current_uid s1 = g_current_uid s" "g_current_gid s1 = g_current_gid s"
    "fs_files s1 file = Some (f\<lparr>ff_pos := ff_pos f + cnt\<rparr>)" "fs_nodes s1 (ff_node f) = Some nd'"
    using assms(1,2) by (simp_all add: s1_def t_def nd'_def upd_node_def upd_file_def copy_bytes_def)
  moreover have "nd' = nd\<lparr>nd_size := max (nd_size nd) (ff_pos f + cnt)\<rparr>" by (auto simp: nd'_def max_def)
  ultimately show ?thesis using w r by (intro exI [of _ s1] exI) auto
qed

lemma tmpfs_write_read_witness:
  "\<exists>s1 s2. tmpfs_write 0x600 0x5000 13 fs_ex = Some (13, s1)
     \<and> tmpfs_read 0x600 0x6000 13 (upd_file 0x600 (\<lambda>g. g\<lparr>ff_pos := 0\<rparr>) s1) = Some (13, s2)
     \<and> km_bytes (fs_mem s2) 0x600C = 0x0C"
proof -
  let ?f = "\<lparr>ff_node = 0x10E0, ff_pos = 0, ff_flags = O_RDWR\<rparr>"
  have f: "fs_files fs_ex 0x600 = Some ?f" "fs_nodes fs_ex (ff_node ?f) = Some (fs_ex_node ''a'' FS_FILE 0x500 [])"
    by (simp_all add: fs_ex_def)
  obtain s1 s2 where *: "tmpfs_write 0x600 0x5000 13 fs_ex = Some (13, s1)"
     "tmpfs_read 0x600 0x6000 13 (upd_file 0x600 (\<lambda>g. g\<lparr>ff_pos := 0\<rparr>) s1) = Some (13, s2)"
     "\<forall>i<13. km_bytes (fs_mem s2) (0x6000 + word_of_nat i) = km_bytes (fs_mem fs_ex) (0x5000 + word_of_nat i)"
    using tmpfs_write_read [OF f, of "\<lparr>td_data = 0x1198, td_cap = 4096, td_ro = False\<rparr>" 13 "0x5000" "0x6000"]
    by (auto simp: fs_ex_node_def apart_def fs_ex_def)
  have "km_bytes (fs_mem s2) (0x6000 + word_of_nat 12) = km_bytes (fs_mem fs_ex) (0x5000 + word_of_nat 12)"
    using *(3) by (elim allE [of _ 12]) simp
  then show ?thesis using *(1,2) by (simp add: fs_ex_def fs_ex_heap_def)
qed

text \<open>
  C19. Opening a path that leads to an existing node of the in-memory file system, with or without \<open>O_CREAT\<close>: when the
  user has not the rights that the flags ask for, or there is no descriptor or no memory, -1 is returned and the live heap blocks, the
  open files and the descriptors are what they were; otherwise the lowest free descriptor from 3 on refers to a fresh file object at
  position 0. Opening a path that leads to nothing, without \<open>O_CREAT\<close>, returns -1 and changes nothing. The nodes, the mounts, the
  contents of the files and the memory are the same in all these cases. (A missing path with \<open>O_CREAT\<close> is created first,
  and stays when the open fails after all.)
\<close>

theorem fs_open_or_nothing:
  assumes "fs_heap lo hi live s" "tree_ok TMPFS_OPS s N" "tab_ops tab TMPFS_OPS = tmpfs_ops"
    and "fs_resolve tab path s = Some (n, s)" "n \<in> N \<or> n = 0 \<and> flags AND O_CREAT = 0"
    and "length (fds s) = FS_MAX_FDS" "dom (fs_files s) \<subseteq> live"
  shows "\<exists>fd s' live'. fs_open tab path flags s = Some (fd, s') \<and> fs_heap lo hi live' s' \<and> same_rest s s'
    \<and> (if n = 0 \<or> \<not> may_open s n flags \<or> fds_full s \<or> no_room s
       then fd = -1 \<and> live' = live \<and> fds s' = fds s \<and> fs_files s' = fs_files s
       else \<exists>a. a \<notin> live \<and> live' = insert a live \<and> fs_files s' = (fs_files s)(a \<mapsto> \<lparr>ff_node = n, ff_pos = 0, ff_flags = flags\<rparr>)
         \<and> 3 \<le> fd \<and> fd < int FS_MAX_FDS \<and> fds s ! nat fd = 0 \<and> (\<forall>j<nat fd. 3 \<le> j \<longrightarrow> fds s ! j \<noteq> 0)
         \<and> fds s' = (fds s)[nat fd := a])"
proof (cases "n = 0")
  case True
  then have n: "n \<notin> N" using tree_okD [OF assms(2)] by blast
  with assms(5) have "flags AND O_CREAT = 0" by blast
  then have "fs_open tab path flags s = Some (-1, s)" using assms(4) True by (simp add: fs_open_def)
  then show ?thesis using assms(1) True by (intro exI [of _ "-1"] exI [of _ s] exI [of _ live]) simp
next
  case False
  then have "n \<in> N" using assms(5) by blast
  from file_open_spec [OF assms(1-4) this assms(6,7), of flags] obtain fd s' live' where
    *: "fs_open tab path flags s = Some (fd, s')" "fs_heap lo hi live' s'" "same_rest s s'"
    "if fd < 0 then fd = -1 \<and> live' = live \<and> fds s' = fds s \<and> fs_files s' = fs_files s
         \<and> (\<not> may_open s n flags \<or> fds_full s \<or> no_room s)
       else may_open s n flags \<and> \<not> no_room s \<and> (\<exists>a. a \<notin> live \<and> live' = insert a live
         \<and> fs_files s' = (fs_files s)(a \<mapsto> \<lparr>ff_node = n, ff_pos = 0, ff_flags = flags\<rparr>)
         \<and> 3 \<le> fd \<and> fd < int FS_MAX_FDS \<and> fds s ! nat fd = 0 \<and> (\<forall>j<nat fd. 3 \<le> j \<longrightarrow> fds s ! j \<noteq> 0)
         \<and> fds s' = (fds s)[nat fd := a])" by blast
  show ?thesis
  proof (cases "fd < 0")
    case True
    then show ?thesis using * False by (intro exI [of _ fd] exI [of _ s'] exI [of _ live']) simp
  next
    case F: False
    then have "\<not> fds_full s" using *(4) free_fd_not_full by auto
    then show ?thesis using * F False by (intro exI [of _ fd] exI [of _ s'] exI [of _ live']) simp
  qed
qed

theorem fs_open_or_nothing_witness:
  "\<exists>fd s'. fs_open fs_ex_tab ''//a'' O_RDWR (fs_ex\<lparr>fs_files := Map.empty\<rparr>) = Some (fd, s')
     \<and> fd = 3 \<and> fds s' ! 3 \<noteq> 0"
proof -
  let ?s = "fs_ex\<lparr>fs_files := Map.empty\<rparr>"
  have t: "tree_ok TMPFS_OPS ?s {0x1028, 0x10E0}" "fs_heap 0x1000 0x31C0 {0x1028, 0x10E0, 0x1198} ?s"
    using fs_ex_tree(1) fs_ex_heap_ok by (simp_all add: tree_ok_def entries_def)
  have tab: "tab_ops fs_ex_tab TMPFS_OPS = tmpfs_ops" by (simp add: fs_ex_tab_def)
  have m: "find_mnt ?s ''//a'' = Some 0" using fs_ex_mnt by (simp add: find_mnt_def)
  have r: "mn_root (mnts fs_ex ! 0) = 0x1028" "mn_path (mnts fs_ex ! 0) = ''/''" by (simp_all add: fs_ex_def)
  have "entries ?s = entries fs_ex" by (simp add: entries_def fun_eq_iff)
  then have "child_map ?s = child_map fs_ex" by (simp add: child_map_def fun_eq_iff split: option.splits)
  moreover have "parts ''/a'' = [''a'']" by simp
  ultimately have r': "fs_resolve fs_ex_tab ''//a'' ?s = Some (0x10E0, ?s)"
    using resolve_tmpfs [OF t(1) tab _ _ m] by (simp add: r fs_ex_tree(3))
  have may: "may_open ?s 0x10E0 O_RDWR" "\<not> fds_full ?s"
    by (auto simp: may_open_def fs_check_perm_def fs_ex_def fds_full_def FS_MAX_FDS_def intro: exI [of _ 3])
  have room: "\<not> no_room ?s" by (rule fs_ex_room) (simp_all add: fs_ex_def)
  have z: "fds ?s ! j = 0" if "j < 64" for j using that by (simp add: fs_ex_def)
  from fs_open_or_nothing [OF t(2,1) tab r', of O_RDWR] may room obtain fd s' a where
    o: "fs_open fs_ex_tab ''//a'' O_RDWR ?s = Some (fd, s')" "a \<notin> {0x1028, 0x10E0, 0x1198}" "3 \<le> fd" "fd < 64"
       "\<forall>j<nat fd. 3 \<le> j \<longrightarrow> fds ?s ! j \<noteq> 0" "fds s' = (fds ?s)[nat fd := a]" "fs_heap 0x1000 0x31C0 (insert a {0x1028, 0x10E0, 0x1198}) s'"
    by (auto simp: fs_ex_def FS_MAX_FDS_def)
  have "\<not> 3 < fd" using o(5) z [of 3] by auto
  then have "fd = 3" using o(3) by simp
  moreover have "a \<noteq> 0" using o(7) by (auto simp: fs_heap_def dest: klime_live_nz)
  ultimately show ?thesis using o by (intro exI [of _ fd] exI [of _ s']) (simp add: fs_ex_def)
qed

text \<open>
  The mount of a path is the one with the longest path among the active
  mounts whose path is a prefix of it; there is none exactly when no active mount has a non-empty
  path that is a prefix. A prefix need not end at a slash: \<open>/device\<close> belongs to a mount at \<open>/dev\<close>.
\<close>

lemma find_mnt_longest:
  "case find_mnt s path of
     None \<Rightarrow> \<forall>i<FS_MAX_MNTS. \<not> (mn_active (mnts s ! i) \<and> mn_path (mnts s ! i) \<noteq> []
        \<and> take (length (mn_path (mnts s ! i))) path = mn_path (mnts s ! i))
   | Some i \<Rightarrow> i < FS_MAX_MNTS \<and> mn_active (mnts s ! i) \<and> mn_path (mnts s ! i) \<noteq> []
        \<and> take (length (mn_path (mnts s ! i))) path = mn_path (mnts s ! i)
        \<and> (\<forall>j<FS_MAX_MNTS. mn_active (mnts s ! j) \<longrightarrow> mn_path (mnts s ! j) \<noteq> []
             \<longrightarrow> take (length (mn_path (mnts s ! j))) path = mn_path (mnts s ! j)
             \<longrightarrow> length (mn_path (mnts s ! j)) \<le> length (mn_path (mnts s ! i)))"
  using find_mnt_spec [where s = s and path = path] by (auto split: option.splits)

lemma find_mnt_longest_witness:
  "find_mnt (fs_ex\<lparr>mnts := (mnts fs_ex)[1 := \<lparr>mn_path = ''/dev'', mn_type = 0, mn_root = 0, mn_active = True\<rparr>]\<rparr>) ''/device'' \<noteq> None"
  (is "find_mnt ?s _ \<noteq> None")
proof
  assume n: "find_mnt ?s ''/device'' = None"
  have "\<not> (mn_active (mnts ?s ! 0) \<and> mn_path (mnts ?s ! 0) \<noteq> []
      \<and> take (length (mn_path (mnts ?s ! 0))) ''/device'' = mn_path (mnts ?s ! 0))"
    using find_mnt_longest [where s = ?s and path = "''/device''"]
    unfolding n option.case by (elim allE [of _ 0]) (simp add: FS_MAX_MNTS_def)
  then show False by (simp add: fs_ex_def)
qed

lemma find_mnt_no_boundary:
  "find_mnt (fs_ex\<lparr>mnts := (mnts fs_ex)[1 := \<lparr>mn_path = ''/dev'', mn_type = 0, mn_root = 0, mn_active = True\<rparr>]\<rparr>) ''/device'' = Some 1"
  by (simp add: find_mnt_def FS_MAX_MNTS_def upt_rec fs_ex_def)

end
