(* ===== verification/Users.thy ===== *)
theory Users
  imports Tmpfs CString
begin

text \<open>
  The table of users: \<^verbatim>\<open>emex/kernel/user/users.c\<close>. Each line of the file is
  \<open>username:uid:gid:homedir\<close>. The array \<open>user_table\<close> is the list of its first \<open>user_count\<close>
  entries. A line is read from an array of 256 characters; reading or writing beyond the end of a
  buffer is undefined (\<open>None\<close>). \<open>g_current_uid\<close> and \<open>g_current_gid\<close> are fields of the state of
  the file systems, which test them. The messages on the console are left out.
\<close>

section \<open>State and operations\<close>

definition USERS_MAX :: nat where "USERS_MAX = 32"
definition USER_NAME_MAX :: nat where "USER_NAME_MAX = 64"
definition USER_HOME_MAX :: nat where "USER_HOME_MAX = 128"
definition UID_ROOT :: u32 where "UID_ROOT = 0"

record user_entry =
  us_name :: string
  us_uid :: u32
  us_gid :: u32
  us_home :: string
  us_valid :: bool

fun parse_uint_loop :: "string \<Rightarrow> u32 \<Rightarrow> u32" where
  "parse_uint_loop [] v = v"
| "parse_uint_loop (c # s) v =
    (if chr_in 48 57 c then parse_uint_loop s (v * 10 + word_of_nat (of_char c - 48)) else v)"

definition parse_uint :: "string \<Rightarrow> u32" where
  "parse_uint s = parse_uint_loop s 0"

definition tab_or_space :: "char \<Rightarrow> bool" where
  "tab_or_space c \<longleftrightarrow> c = CHR '' '' \<or> c = CHR 0x09"

text \<open>The fields that the first \<open>n\<close> colons separate.\<close>

fun split_colon :: "nat \<Rightarrow> string \<Rightarrow> string list" where
  "split_colon n [] = [[]]"
| "split_colon n (c # s) =
    (if n = 0 then [c # s]
     else if c = CHR '':'' then [] # split_colon (n - 1) s
     else case split_colon n s of [] \<Rightarrow> [[c]] | f # fs \<Rightarrow> (c # f) # fs)"

text \<open>
  \<open>len\<close> stays the length of the whole line when leading blanks are skipped. With a leading blank the
  loop over trailing blanks starts behind the end of the line and stops at the NUL there, so it
  removes nothing, and the copy reads up to \<open>len\<close> characters from behind the blanks.
\<close>

definition line_text :: "string \<Rightarrow> string option" where
  "line_text line =
    (let skip = length (takeWhile tab_or_space line)
     in if skip = 0 then Some (rev (dropWhile tab_or_space (rev line)))
        else if skip + length line \<le> 256 then Some (drop skip line) else None)"

definition parse_line :: "string \<Rightarrow> user_entry list \<Rightarrow> user_entry list option" where
  "parse_line line us =
    (if line = [] \<or> line ! 0 = CHR ''#'' then Some us
     else if length line \<ge> 255 then Some us
     else if length us \<ge> USERS_MAX then Some us
     else do {
       buf \<leftarrow> line_text line;
       let f = split_colon 3 buf;
       if length f - 1 < 3 then Some us
       else if length (f ! 0) \<ge> USER_NAME_MAX \<or> length (f ! 3) \<ge> USER_HOME_MAX then None
       else Some (us @ [\<lparr>us_name = f ! 0, us_uid = parse_uint (f ! 1), us_gid = parse_uint (f ! 2),
                         us_home = f ! 3, us_valid = True\<rparr>])
     })"

definition users_init :: "fs \<Rightarrow> user_entry list \<times> fs" where
  "users_init s = ([], s\<lparr>g_current_uid := 0, g_current_gid := 0\<rparr>)"

text \<open>The loop over the characters that were read; the NUL behind them ends the last line.\<close>

fun load_lines :: "string \<Rightarrow> string \<Rightarrow> user_entry list \<Rightarrow> user_entry list option" where
  "load_lines [] line us = (if line \<noteq> [] then parse_line line us else Some us)"
| "load_lines (c # cs) line us =
    (if c = CHR 0x0A \<or> c = NUL then do {
       us' \<leftarrow> (if line \<noteq> [] then parse_line line us else Some us);
       load_lines cs [] us'
     } else load_lines cs (if length line < 255 then line @ [c] else line) us)"

definition mem_string :: "(u64 \<Rightarrow> u8) \<Rightarrow> u64 \<Rightarrow> nat \<Rightarrow> string" where
  "mem_string m a n = map (\<lambda>i. char_of (unat (m (a + word_of_nat i)))) [0..<n]"

text \<open>\<open>buf\<close> is the address of the array of 2048 characters on the stack.\<close>

definition users_load :: "fs_tab \<Rightarrow> u64 \<Rightarrow> string \<Rightarrow> user_entry list \<Rightarrow> fs \<Rightarrow> (int \<times> user_entry list \<times> fs) option" where
  "users_load tab buf path us s = do {
     (fd, s1) \<leftarrow> fs_open tab path O_RDONLY s;
     if fd < 0 then Some (-1, us, s1)
     else do {
       (n, s2) \<leftarrow> fs_read tab fd buf 2047 s1;
       (_, s3) \<leftarrow> fs_close tab fd s2;
       if n \<le> 0 then Some (-1, us, s3)
       else do {
         us' \<leftarrow> load_lines (mem_string (km_bytes (fs_mem s3)) buf (nat n)) [] us;
         Some (0, us', s3)
       }
     }
   }"

text \<open>A result that points into the table is the index of the entry.\<close>

definition users_get_by_uid :: "u32 \<Rightarrow> user_entry list \<Rightarrow> nat option" where
  "users_get_by_uid uid us = find (\<lambda>i. us_valid (us ! i) \<and> us_uid (us ! i) = uid) [0..<length us]"

definition users_get_by_name :: "string \<Rightarrow> user_entry list \<Rightarrow> nat option" where
  "users_get_by_name name us = find (\<lambda>i. us_valid (us ! i) \<and> us_name (us ! i) = name) [0..<length us]"

definition users_get_first_regular :: "user_entry list \<Rightarrow> nat option" where
  "users_get_first_regular us = find (\<lambda>i. us_valid (us ! i) \<and> us_uid (us ! i) \<noteq> UID_ROOT) [0..<length us]"

definition users_get_count :: "user_entry list \<Rightarrow> u32" where
  "users_get_count us = word_of_nat (length us)"

fun make_homes :: "fs_tab \<Rightarrow> user_entry list \<Rightarrow> fs \<Rightarrow> fs option" where
  "make_homes tab [] s = Some s"
| "make_homes tab (u # us) s =
    (if \<not> us_valid u then make_homes tab us s
     else if us_uid u = UID_ROOT then make_homes tab us s
     else do { (_, s1) \<leftarrow> fs_mkdir tab (us_home u) s; make_homes tab us s1 })"

definition users_setup_homes :: "fs_tab \<Rightarrow> user_entry list \<Rightarrow> fs \<Rightarrow> fs option" where
  "users_setup_homes tab us s = do {
     (_, s1) \<leftarrow> fs_mkdir tab ''/root'' s;
     (_, s2) \<leftarrow> fs_mkdir tab ''/home'' s1;
     make_homes tab us s2
   }"

section \<open>Printing the table\<close>

text \<open>The reference: the line of an entry, and the entries whose line is read back.\<close>

definition user_line :: "user_entry \<Rightarrow> string" where
  "user_line u = us_name u @ '':'' @ dec_str (unat (us_uid u)) @ '':'' @ dec_str (unat (us_gid u)) @ '':'' @ us_home u"

definition plain_text :: "string \<Rightarrow> bool" where
  "plain_text s \<longleftrightarrow> NUL \<notin> set s \<and> CHR 0x0A \<notin> set s"

definition user_ok :: "user_entry \<Rightarrow> bool" where
  "user_ok u \<longleftrightarrow> us_valid u \<and> plain_text (us_name u) \<and> plain_text (us_home u) \<and> CHR '':'' \<notin> set (us_name u)
     \<and> length (us_name u) < USER_NAME_MAX \<and> length (us_home u) < USER_HOME_MAX
     \<and> (us_name u = [] \<or> \<not> tab_or_space (hd (us_name u)) \<and> hd (us_name u) \<noteq> CHR ''#'')
     \<and> (us_home u = [] \<or> \<not> tab_or_space (last (us_home u)))"

definition users_file :: "user_entry list \<Rightarrow> string" where
  "users_file us = concat (map (\<lambda>u. user_line u @ [CHR 0x0A]) us)"

lemma parse_uint_loop_app:
  "list_all (chr_in 48 57) xs \<Longrightarrow> parse_uint_loop (xs @ ys) v = parse_uint_loop ys (parse_uint_loop xs v)"
  by (induction xs arbitrary: v) auto

lemma parse_uint_dec_rev: "parse_uint_loop (rev (dec_rev n)) 0 = word_of_nat n"
proof (induction n rule: dec_rev.induct)
  case (1 n)
  show ?case
  proof (cases "n = 0")
    case False
    have "parse_uint_loop (rev (dec_rev n)) 0 = word_of_nat (n div 10) * 10 + word_of_nat (n mod 10)"
      using False 1 [OF False] dec_rev_digits [of "n div 10"]
      by (simp add: dec_rev_pos parse_uint_loop_app list_all_iff digit_char)
    also have "\<dots> = word_of_nat (n div 10 * 10 + n mod 10)" by (simp only: of_nat_add of_nat_mult of_nat_numeral)
    finally show ?thesis by simp
  qed simp
qed

lemma parse_uint_dec: "parse_uint (dec_str n) = word_of_nat n"
  using parse_uint_dec_rev [of n] by (simp add: parse_uint_def dec_str_def chr_in_def)

lemma split_colon_app:
  "CHR '':'' \<notin> set p \<Longrightarrow> split_colon (Suc n) (p @ CHR '':'' # q) = p # split_colon n q"
  by (induction p) auto

lemma split_colon_0 [simp]: "split_colon 0 q = [q]"
  by (cases q) auto

lemma dec_str_plain: "CHR '':'' \<notin> set (dec_str n)" "plain_text (dec_str n)" "dec_str n \<noteq> []"
proof -
  show "CHR '':'' \<notin> set (dec_str n)" "plain_text (dec_str n)"
    using dec_str_digits [of n] by (auto simp: list_all_iff chr_in_def plain_text_def NUL_def)
  show "dec_str n \<noteq> []" by (auto simp: dec_str_def dec_rev_pos)
qed

lemma user_line_plain: "user_ok u \<Longrightarrow> plain_text (user_line u)" "user_line u \<noteq> []"
  using dec_str_plain(2) by (auto simp: user_line_def user_ok_def plain_text_def NUL_def)

lemma dec_str_length: "length (dec_str (unat (n :: u32))) \<le> 10"
  using length_dec_rev_le [of "unat n" 10] unat_lt_2p32 [of n] by (auto simp: dec_str_def simp del: unat_lt_2p32)

lemma user_line_length: "user_ok u \<Longrightarrow> length (user_line u) < 255"
  using dec_str_length [of "us_uid u"] dec_str_length [of "us_gid u"]
  by (simp add: user_line_def user_ok_def USER_NAME_MAX_def USER_HOME_MAX_def)

lemma user_line_hd:
  assumes "user_ok u"
  shows "\<not> tab_or_space (hd (user_line u)) \<and> user_line u ! 0 \<noteq> CHR ''#''"
  using assms by (cases "us_name u") (auto simp: user_line_def user_ok_def tab_or_space_def)

lemma line_text_plain:
  assumes "line \<noteq> []" "\<not> tab_or_space (hd line)" "\<not> tab_or_space (last line)"
  shows "line_text line = Some line"
proof -
  have "takeWhile tab_or_space line = []" using assms(1,2) by (cases line) auto
  moreover have "dropWhile tab_or_space (rev line) = rev line"
    using assms(1,3) by (cases line rule: rev_cases) auto
  ultimately show ?thesis by (simp add: line_text_def)
qed

lemma parse_user_line:
  assumes "user_ok u" "length us \<le> USERS_MAX"
  shows "parse_line (user_line u) us = Some (take USERS_MAX (us @ [u]))"
proof -
  have "\<not> tab_or_space (last (user_line u))"
    using assms(1) by (auto simp: user_line_def user_ok_def tab_or_space_def last_append)
  then have t: "line_text (user_line u) = Some (user_line u)"
    using user_line_hd [OF assms(1)] user_line_plain(2) by (intro line_text_plain) auto
  have f: "split_colon 3 (user_line u) = [us_name u, dec_str (unat (us_uid u)), dec_str (unat (us_gid u)), us_home u]"
  proof -
    have "split_colon (Suc (Suc (Suc 0))) (user_line u) = [us_name u, dec_str (unat (us_uid u)), dec_str (unat (us_gid u)), us_home u]"
      using assms(1) dec_str_plain(1) by (simp add: user_line_def split_colon_app user_ok_def)
    then show ?thesis by (simp add: numeral_3_eq_3)
  qed
  show ?thesis
    using assms user_line_hd [OF assms(1)] user_line_plain(2) [of u] user_line_length [OF assms(1)] t f
    by (simp add: parse_line_def parse_uint_dec user_ok_def)
qed

lemma load_line:
  assumes "plain_text l" "length acc + length l \<le> 255" "acc @ l \<noteq> []"
  shows "load_lines (l @ CHR 0x0A # rest) acc us = Option.bind (parse_line (acc @ l) us) (load_lines rest [])"
  using assms by (induction l arbitrary: acc) (auto simp: plain_text_def)

lemma load_users_file:
  assumes "list_all user_ok new" "length us \<le> USERS_MAX"
  shows "load_lines (users_file new) [] us = Some (take USERS_MAX (us @ new))"
  using assms
proof (induction new arbitrary: us)
  case (Cons u new)
  have "load_lines (users_file (u # new)) [] us = load_lines (users_file new) [] (take USERS_MAX (us @ [u]))"
    using load_line [OF user_line_plain(1) [of u], of "[]" "users_file new" us] Cons.prems user_line_length [of u] user_line_plain(2) [of u]
    by (simp add: users_file_def parse_user_line)
  also have "\<dots> = Some (take USERS_MAX (take USERS_MAX (us @ [u]) @ new))"
    using Cons by simp
  also have "take USERS_MAX (take USERS_MAX (us @ [u]) @ new) = take USERS_MAX (us @ u # new)"
    using Cons.prems(2) by (cases "length us = USERS_MAX") (auto simp: take_append)
  finally show ?case .
qed (simp add: users_file_def)

text \<open>A user number of 2^32 is read as that of root.\<close>

lemma uid_wraps: "parse_uint ''4294967296'' = UID_ROOT"
proof -
  have "dec_str 4294967296 = ''4294967296''" by (simp add: dec_str_def dec_rev_pos char_of_def bit_0)
  then show ?thesis using parse_uint_dec [of 4294967296] by (simp add: UID_ROOT_def)
qed

section \<open>Loading from a file\<close>

lemma fs_heap_copy [simp]:
  "fs_heap lo hi live (copy_bytes d q n s) = fs_heap lo hi live s" "fs_heap lo hi live (upd_file a f s) = fs_heap lo hi live s"
  by (simp_all add: fs_heap_def copy_bytes_def upd_file_def)

lemma fds_copy [simp]: "fds (copy_bytes d q n s) = fds s" "fds (upd_file a f s) = fds s"
  by (simp_all add: copy_bytes_def upd_file_def)

lemma mem_string_copy:
  assumes "apart buf data (unat n + 7)" "unat buf mod 8 = 0"
  shows "mem_string (memcpy m buf data n) buf (unat n) = mem_string m data (unat n)"
  using memcpy_aligned [OF assms] by (simp add: mem_string_def)

lemma sint_small: "unat (m :: u64) < 2 ^ 63 \<Longrightarrow> sint m = int (unat m)"
proof -
  assume "unat m < 2 ^ 63"
  then have "uint m < 2 ^ 63" unfolding uint_nat by (simp del: of_nat_unat)
  moreover have "- (2 ^ 63) \<le> uint m" by (rule order_trans [OF _ uint_ge_0]) simp
  ultimately have "signed_take_bit 63 (uint m) = uint m" by (intro signed_take_bit_int_eq_self)
  then show ?thesis by (simp add: sint_uint)
qed

text \<open>Reading a whole file of the in-memory file system through a descriptor at its start.\<close>

lemma read_whole_file:
  assumes tab: "tab_ops tab TMPFS_OPS = tmpfs_ops" and fd: "fs_get_file fd s = a" "a \<noteq> 0"
    and f: "fs_files s a = Some f" "ff_pos f = 0"
    and nd: "fs_nodes s (ff_node f) = Some nd" "nd_ops nd = TMPFS_OPS" "nd_type nd = FS_FILE" "nd_priv nd \<noteq> 0"
    and td: "tmp_objs s (nd_priv nd) = Some td" "td_data td \<noteq> 0"
    and sz: "0 < nd_size nd" "unat (nd_size nd) \<le> unat cnt"
  shows "fs_read tab fd buf cnt s =
    (if fs_check_perm (Some nd) (g_current_uid s) (g_current_gid s) FS_PERM_R
     then Some (sint (nd_size nd), upd_file a (\<lambda>f. f\<lparr>ff_pos := nd_size nd\<rparr>) (copy_bytes buf (td_data td) (nd_size nd) s))
     else Some (-1, s))"
proof -
  have ops: "TMPFS_OPS \<noteq> 0" by (simp add: TMPFS_OPS_def)
  have n: "(if ff_pos f + cnt > nd_size nd then nd_size nd - ff_pos f else cnt) = nd_size nd"
    unfolding f(2) using sz(2) by (auto simp: word_less_nat_alt not_less word_unat_eq_iff)
  have "tmpfs_read a buf cnt s = Some (sint (nd_size nd), upd_file a (\<lambda>g. g\<lparr>ff_pos := ff_pos f + nd_size nd\<rparr>)
      (copy_bytes buf (td_data td + ff_pos f) (nd_size nd) s))"
    using tmpfs_read_spec [OF f(1) nd(1,3,4) td, of buf cnt] sz(1) f unfolding n by (simp add: upd_file_def copy_bytes_def)
  then show ?thesis using fd f nd(1,2) ops by (auto simp: fs_read_def fs_rw_def tab tmpfs_ops_def)
qed

section \<open>Properties\<close>

lemma read_and_close:
  assumes heap: "fs_heap lo hi live s" and tree: "tree_ok TMPFS_OPS s N" and tab: "tab_ops tab TMPFS_OPS = tmpfs_ops"
    and n: "n \<in> N" and len: "length (fds s) = FS_MAX_FDS" and files: "dom (fs_files s) \<subseteq> live"
    and nd: "fs_nodes s n = Some nd" "nd_type nd = FS_FILE" "nd_priv nd \<noteq> 0"
    and td: "tmp_objs s (nd_priv nd) = Some td" "td_data td \<noteq> 0"
    and sz: "0 < nd_size nd" "nd_size nd \<le> 2047"
    and o: "fs_heap lo hi live1 s1" "same_rest s s1"
      "\<exists>a. a \<notin> live \<and> live1 = insert a live \<and> fs_files s1 = (fs_files s)(a \<mapsto> \<lparr>ff_node = n, ff_pos = 0, ff_flags = O_RDONLY\<rparr>)
         \<and> 3 \<le> fd \<and> fd < int FS_MAX_FDS \<and> fds s ! nat fd = 0 \<and> (\<forall>j<nat fd. 3 \<le> j \<longrightarrow> fds s ! j \<noteq> 0)
         \<and> fds s1 = (fds s)[nat fd := a]"
  defines "ok \<equiv> fs_check_perm (Some nd) (g_current_uid s1) (g_current_gid s1) FS_PERM_R"
  shows "\<exists>s2 s3. fs_read tab fd buf 2047 s1 = Some (if ok then sint (nd_size nd) else -1, s2) \<and> fs_close tab fd s2 = Some (0, s3)
    \<and> 0 \<le> fd \<and> fds s3 = fds s \<and> fs_files s3 = fs_files s \<and> fs_heap lo hi live s3
    \<and> (ok \<longrightarrow> km_bytes (fs_mem s3) = memcpy (km_bytes (fs_mem s)) buf (td_data td) (nd_size nd))"
proof -
  define f where "f = \<lparr>ff_node = n, ff_pos = 0, ff_flags = O_RDONLY\<rparr>"
  have ops: "nd_ops nd = TMPFS_OPS" using tree_okD [OF tree n] nd(1) by auto
  obtain a where a: "a \<notin> live" "live1 = insert a live" "fs_files s1 = (fs_files s)(a \<mapsto> f)" "0 \<le> fd" "fd < int FS_MAX_FDS"
    "fds s ! nat fd = 0" "fds s1 = (fds s)[nat fd := a]" using o(3) by (auto simp: f_def)
  have a0: "a \<noteq> 0" using o(1) a(2) by (auto simp: fs_heap_def dest: klime_live_nz)
  have fdlen: "nat fd < length (fds s)" using a(4,5) len by simp
  have nodes: "fs_nodes s1 = fs_nodes s" "tmp_objs s1 = tmp_objs s" "km_bytes (fs_mem s1) = km_bytes (fs_mem s)"
    using o(2) by (simp_all add: same_rest_def)
  have dom: "a \<notin> dom (fs_nodes s)" using heap a(1) by (auto simp: fs_heap_def)
  have cnt: "unat (nd_size nd) \<le> unat (2047 :: u64)" using sz(2) by (simp add: word_le_nat_alt)
  define m where "m = nd_size nd"
  define s2 where "s2 = (if ok then upd_file a (\<lambda>f. f\<lparr>ff_pos := m\<rparr>) (copy_bytes buf (td_data td) m s1) else s1)"
  have rd: "fs_read tab fd buf 2047 s1 = Some (if ok then sint m else -1, s2)"
    using read_whole_file [of tab fd s1 a f nd td 2047 buf] a tab a0 nd td sz(1) ops nodes fdlen cnt
    by (simp add: fs_get_file_def f_def ok_def s2_def m_def not_less)
  have s2: "fs_heap lo hi (insert a live) s2" "fds s2 = fds s1" "fs_nodes s2 = fs_nodes s"
    "fs_files s2 = (fs_files s)(a \<mapsto> if ok then f\<lparr>ff_pos := m\<rparr> else f)"
    using o(1) a(2,3) nodes by (auto simp: s2_def upd_file_def copy_bytes_def fs_heap_def)
  have fl: "ff_node (if ok then f\<lparr>ff_pos := m\<rparr> else f) = n" by (simp add: f_def)
  have pre: "fs_nodes s2 (ff_node (if ok then f\<lparr>ff_pos := m\<rparr> else f)) = Some nd" "a \<notin> dom (fs_nodes s2)"
    "fds s2 ! nat fd = a" "fs_files s2 a = Some (if ok then f\<lparr>ff_pos := m\<rparr> else f)"
    using s2(2,3,4) nd(1) dom fl a(7) fdlen by simp_all
  obtain s3 where c: "fs_close tab fd s2 = Some (0, s3)" "fs_heap lo hi (insert a live - {a}) s3" "same_rest s2 s3"
    "fds s3 = (fds s2)[nat fd := 0]" "fs_files s3 = (fs_files s2)(a := None)"
    using file_close_spec [OF s2(1) tab a(4,5) pre(3) a0 _ pre(4,1) ops pre(2)] by auto
  have "fs_files s a = None" using files a(1) by (auto simp: domIff)
  then have "fds s3 = fds s" "fs_files s3 = fs_files s" "fs_heap lo hi live s3"
    using c a(1,6,7) s2 fdlen list_update_id [of "fds s" "nat fd"] by (auto simp: fun_eq_iff)
  moreover have "ok \<longrightarrow> km_bytes (fs_mem s3) = memcpy (km_bytes (fs_mem s)) buf (td_data td) m"
    using c(3) nodes by (simp add: same_rest_def s2_def)
  ultimately show ?thesis using rd c(1) a(4) unfolding m_def by blast
qed

text \<open>
  C21. Loading a file that holds the printed lines of a list of users appends these users to the table, in order, as far
  as the table has room, and returns 0, unless the current user may not read the file, or there is no descriptor or no memory to
  open it: then it returns -1 and the table is as it was. In all cases no block of the heap, no open file and no descriptor is left
  over.
\<close>

theorem users_load_table:
  assumes heap: "fs_heap lo hi live s" and tree: "tree_ok TMPFS_OPS s N" and tab: "tab_ops tab TMPFS_OPS = tmpfs_ops"
    and res: "fs_resolve tab path s = Some (n, s)" "n \<in> N"
    and len: "length (fds s) = FS_MAX_FDS" and files: "dom (fs_files s) \<subseteq> live"
    and nd: "fs_nodes s n = Some nd" "nd_type nd = FS_FILE" "nd_priv nd \<noteq> 0"
    and td: "tmp_objs s (nd_priv nd) = Some td" "td_data td \<noteq> 0"
    and content: "mem_string (km_bytes (fs_mem s)) (td_data td) (unat (nd_size nd)) = users_file new"
    and sz: "0 < nd_size nd" "nd_size nd \<le> 2047"
    and new: "list_all user_ok new" "length us \<le> USERS_MAX"
    and buf: "unat buf mod 8 = 0" "apart buf (td_data td) (unat (nd_size nd) + 7)"
  shows "\<exists>r us' s'. users_load tab buf path us s = Some (r, us', s')
    \<and> fs_heap lo hi live s' \<and> fs_files s' = fs_files s \<and> fds s' = fds s
    \<and> (if \<not> fs_check_perm (Some nd) (g_current_uid s) (g_current_gid s) FS_PERM_R \<or> fds_full s \<or> no_room s then r = -1 \<and> us' = us
       else r = 0 \<and> us' = take USERS_MAX (us @ new))"
proof -
  have may: "may_open s n O_RDONLY \<longleftrightarrow> fs_check_perm (Some nd) (g_current_uid s) (g_current_gid s) FS_PERM_R"
    by (simp add: may_open_def rights_def O_RDONLY_def nd(1) FS_PERM_R_def)
  obtain fd s1 live1 where o: "fs_open tab path O_RDONLY s = Some (fd, s1)" "fs_heap lo hi live1 s1" "same_rest s s1"
    "if fd < 0 then fd = -1 \<and> live1 = live \<and> fds s1 = fds s \<and> fs_files s1 = fs_files s
         \<and> (\<not> may_open s n O_RDONLY \<or> fds_full s \<or> no_room s)
     else may_open s n O_RDONLY \<and> \<not> no_room s \<and> (\<exists>a. a \<notin> live \<and> live1 = insert a live
         \<and> fs_files s1 = (fs_files s)(a \<mapsto> \<lparr>ff_node = n, ff_pos = 0, ff_flags = O_RDONLY\<rparr>)
         \<and> 3 \<le> fd \<and> fd < int FS_MAX_FDS \<and> fds s ! nat fd = 0 \<and> (\<forall>j<nat fd. 3 \<le> j \<longrightarrow> fds s ! j \<noteq> 0)
         \<and> fds s1 = (fds s)[nat fd := a])"
    using file_open_spec [OF heap tree tab res len files, of O_RDONLY] by (elim exE conjE) blast
  show ?thesis
  proof (cases "fd < 0")
    case True
    then show ?thesis using o may by (simp add: users_load_def)
  next
    case False
    have ok: "fs_check_perm (Some nd) (g_current_uid s1) (g_current_gid s1) FS_PERM_R"
      using o(3,4) False may by (simp add: same_rest_def)
    have can: "\<not> fds_full s" "\<not> no_room s" using o(4) False free_fd_not_full by auto
    obtain s2 s3 where rd: "fs_read tab fd buf 2047 s1 = Some (sint (nd_size nd), s2)"
      and c: "fs_close tab fd s2 = Some (0, s3)" and fd: "0 \<le> fd" and undone: "fds s3 = fds s" "fs_files s3 = fs_files s" "fs_heap lo hi live s3"
      and bytes: "km_bytes (fs_mem s3) = memcpy (km_bytes (fs_mem s)) buf (td_data td) (nd_size nd)"
      using read_and_close [OF heap tree tab res(2) len files nd td sz, of live1 s1 fd buf] o(2,3,4) False ok by auto
    have sint: "sint (nd_size nd) = int (unat (nd_size nd))" using sz(2) by (intro sint_small) (simp add: word_le_nat_alt)
    have pos: "0 < unat (nd_size nd)" using sz(1) by (simp add: word_less_nat_alt)
    have "mem_string (km_bytes (fs_mem s3)) buf (unat (nd_size nd)) = users_file new"
      using mem_string_copy [OF buf(2,1)] content bytes by simp
    then have "users_load tab buf path us s = Some (0, take USERS_MAX (us @ new), s3)"
      using o(1) rd c fd sint pos load_users_file [OF new] by (simp add: users_load_def del: of_nat_unat)
    then show ?thesis using undone can ok o(3) by (auto simp: same_rest_def)
  qed
qed

definition user_ex :: user_entry where
  "user_ex = \<lparr>us_name = ''r'', us_uid = 0, us_gid = 0, us_home = ''/'', us_valid = True\<rparr>"

definition users_ex :: fs where
  "users_ex = fs_ex\<lparr>fs_files := Map.empty,
     fs_nodes := [0x1028 \<mapsto> fs_ex_node ''/'' FS_DIR 0 [0x10E0],
       0x10E0 \<mapsto> (fs_ex_node ''a'' FS_FILE 0x500 [])\<lparr>nd_size := 8\<rparr>],
     fs_mem := fs_ex_heap\<lparr>km_bytes := (\<lambda>a. if a < 0x11A0 then of_char (users_file [user_ex] ! unat (a - 0x1198)) else 0)\<rparr>\<rparr>"

lemma users_ex_simps [simp]:
  "fs_nodes users_ex = [0x1028 \<mapsto> fs_ex_node ''/'' FS_DIR 0 [0x10E0],
       0x10E0 \<mapsto> (fs_ex_node ''a'' FS_FILE 0x500 [])\<lparr>nd_size := 8\<rparr>]"
  "fs_files users_ex = Map.empty" "mnts users_ex = mnts fs_ex" "fds users_ex = fds fs_ex" "tmp_objs users_ex = tmp_objs fs_ex"
  by (simp_all add: users_ex_def)

theorem users_load_table_witness:
  "\<exists>r us s. users_load fs_ex_tab 0x5000 ''//a'' [] users_ex = Some (r, us, s) \<and> fs_files s = Map.empty
     \<and> r = 0 \<and> us = [user_ex]"
proof -
  have dir: "fs_nodes fs_ex 0x1028 = Some (fs_ex_node ''/'' FS_DIR 0 [0x10E0])" by (simp add: fs_ex_def)
  have t: "tree_ok TMPFS_OPS users_ex {0x1028, 0x10E0}" by (simp add: tree_ok_def entries_def fs_ex_node_def)
  have h: "fs_heap 0x1000 0x31C0 {0x1028, 0x10E0, 0x1198} users_ex"
    using fs_ex_heap_ok by (auto simp: fs_heap_def users_ex_def fs_ex_def)
  have tab: "tab_ops fs_ex_tab TMPFS_OPS = tmpfs_ops" by (simp add: fs_ex_tab_def)
  have m: "find_mnt users_ex ''//a'' = Some 0" using fs_ex_mnt by (simp add: find_mnt_def)
  have r: "mn_root (mnts fs_ex ! 0) = 0x1028" "mn_path (mnts fs_ex ! 0) = ''/''" by (simp_all add: fs_ex_def)
  have c: "child_map users_ex 0x1028 = [''a'' \<mapsto> 0x10E0]" by (simp add: child_map_def fs_ex_node_def entries_def)
  have "parts ''/a'' = [''a'']" by simp
  then have res: "fs_resolve fs_ex_tab ''//a'' users_ex = Some (0x10E0, users_ex)"
    using resolve_tmpfs [OF t tab _ _ m] by (simp add: r c)
  have content: "users_file [user_ex] = ''r:0:0:/'' @ [CHR 0x0A]"
    by (simp add: users_file_def user_line_def user_ex_def dec_str_def)
  have "mem_string (km_bytes (fs_mem users_ex)) 0x1198 8 = users_file [user_ex]"
    by (simp add: mem_string_def users_ex_def upt_rec) (simp add: content char_of_def bit_0)
  note load = this users_load_table [OF h t tab res, where ?new = "[user_ex]" and ?us = "[]" and ?buf = "0x5000"
        and ?nd = "(fs_ex_node ''a'' FS_FILE 0x500 [])\<lparr>nd_size := 8\<rparr>" and ?td = "\<lparr>td_data = 0x1198, td_cap = 4096, td_ro = False\<rparr>"]
  have "\<not> no_room users_ex" by (rule fs_ex_room) (simp_all add: users_ex_def fs_ex_def)
  moreover have "\<not> fds_full users_ex" by (simp add: fds_full_def fs_ex_def FS_MAX_FDS_def exI [of _ 3])
  moreover have "fs_check_perm (Some ((fs_ex_node ''a'' FS_FILE 0x500 [])\<lparr>nd_size := 8\<rparr>)) (g_current_uid users_ex) (g_current_gid users_ex) FS_PERM_R"
    by (simp add: fs_check_perm_def users_ex_def fs_ex_def)
  ultimately show ?thesis using load
    by (auto simp: fs_ex_node_def fs_ex_def FS_MAX_FDS_def user_ok_def user_ex_def plain_text_def NUL_def tab_or_space_def
        USER_NAME_MAX_def USER_HOME_MAX_def USERS_MAX_def apart_def)
qed

end
