(* ===== verification/Modules.thy ===== *)
theory Modules
  imports Vfs
begin

text \<open>
  The table of drivers: \<^verbatim>\<open>emex/kernel/module/module.c\<close>. The functions of a driver are an argument
  \<open>drv\<close>, which gives the function at an address; they work on the whole state, so an init function may
  itself register drivers. A driver is never freed, and its object exists as long as it is
  registered. Log messages are left out.
\<close>

definition MAX_MODULES :: nat where "MAX_MODULES = 256"

record drivers =
  dv_init :: "u64 \<Rightarrow> fs \<Rightarrow> (int \<times> fs) option"
  dv_fini :: "u64 \<Rightarrow> fs \<Rightarrow> fs option"
  dv_open :: "u64 \<Rightarrow> string \<Rightarrow> fs \<Rightarrow> (u64 \<times> fs) option"
  dv_read :: "u64 \<Rightarrow> u64 \<Rightarrow> u64 \<Rightarrow> u64 \<Rightarrow> u64 \<Rightarrow> fs \<Rightarrow> (int \<times> fs) option"
  dv_write :: "u64 \<Rightarrow> u64 \<Rightarrow> u64 \<Rightarrow> u64 \<Rightarrow> u64 \<Rightarrow> fs \<Rightarrow> (int \<times> fs) option"

section \<open>Operations\<close>

definition module_init :: "fs \<Rightarrow> fs" where
  "module_init s = s\<lparr>modules := replicate MAX_MODULES 0, module_count := 0\<rparr>"

text \<open>The count is read again after the init function; a write behind the array is undefined.\<close>

definition module_register :: "drivers \<Rightarrow> u64 \<Rightarrow> fs \<Rightarrow> (int \<times> fs) option" where
  "module_register drv m s =
    (if m = 0 \<or> module_count s \<ge> MAX_MODULES then Some (-1, s)
     else if list_ex (\<lambda>i. modules s ! i = m) [0..<module_count s] then Some (-1, s)
     else do {
       d \<leftarrow> mod_objs s m;
       (ret, s1) \<leftarrow> (if dm_init d \<noteq> 0 then dv_init drv (dm_init d) s else Some (0, s));
       if ret \<noteq> 0 then Some (-1, s1)
       else if module_count s1 \<ge> MAX_MODULES then None
       else Some (0, s1\<lparr>modules := (modules s1)[module_count s1 := m], module_count := module_count s1 + 1\<rparr>)
     })"

definition module_named :: "fs \<Rightarrow> string \<Rightarrow> u64 \<Rightarrow> bool" where
  "module_named s name m \<longleftrightarrow> m \<noteq> 0 \<and> (case mod_objs s m of None \<Rightarrow> False | Some d \<Rightarrow> dm_name d = Some name)"

definition module_unregister :: "drivers \<Rightarrow> string \<Rightarrow> fs \<Rightarrow> fs option" where
  "module_unregister drv name s =
    (case find (\<lambda>i. module_named s name (modules s ! i)) [0..<module_count s] of None \<Rightarrow> Some s
     | Some i \<Rightarrow> do {
         d \<leftarrow> mod_objs s (modules s ! i);
         s1 \<leftarrow> (if dm_fini d \<noteq> 0 then dv_fini drv (dm_fini d) s else Some s);
         let c = module_count s1;
         if c = 0 then None
         else Some (s1\<lparr>modules := (fold (\<lambda>j ms. ms[j := ms ! (j + 1)]) [i..<c - 1] (modules s1))[c - 1 := 0],
                       module_count := c - 1\<rparr>)
       })"

definition module_find :: "string \<Rightarrow> fs \<Rightarrow> u64" where
  "module_find name s =
    (case find (\<lambda>i. module_named s name (modules s ! i)) [0..<module_count s] of None \<Rightarrow> 0 | Some i \<Rightarrow> modules s ! i)"

definition module_get_count :: "fs \<Rightarrow> int" where
  "module_get_count s = int (module_count s)"

definition module_get_by_index :: "int \<Rightarrow> fs \<Rightarrow> u64" where
  "module_get_by_index idx s = (if idx < 0 \<or> idx \<ge> int (module_count s) then 0 else modules s ! nat idx)"

section \<open>The table as a list\<close>

definition mod_list :: "fs \<Rightarrow> u64 list" where
  "mod_list s = take (module_count s) (modules s)"

definition mods_ok :: "fs \<Rightarrow> bool" where
  "mods_ok s \<longleftrightarrow> length (modules s) = MAX_MODULES \<and> module_count s \<le> MAX_MODULES
     \<and> distinct (mod_list s) \<and> (\<forall>m\<in>set (mod_list s). m \<noteq> 0 \<and> mod_objs s m \<noteq> None)"

lemma mod_list_length: "mods_ok s \<Longrightarrow> length (mod_list s) = module_count s"
  by (simp add: mods_ok_def mod_list_def)

lemma mod_list_nth: "i < module_count s \<Longrightarrow> mod_list s ! i = modules s ! i"
  by (simp add: mod_list_def)

lemma find_upt_nth: "find (\<lambda>i. P (xs ! i)) [0..<n] = None \<longleftrightarrow> (\<forall>x\<in>set (take n xs). \<not> P x)" if "n \<le> length xs"
  using that by (auto simp: find_None_iff in_set_conv_nth) (metis in_set_conv_nth length_take min.absorb2 nth_take)

lemma module_init_ok: "mods_ok (module_init s)" "mod_list (module_init s) = []"
  by (simp_all add: mods_ok_def module_init_def mod_list_def)

lemma module_register_spec:
  assumes "mods_ok s" "m \<noteq> 0" "mod_objs s m = Some d" "dm_init d = 0"
  shows "\<exists>s'. module_register drv m s = Some (if length (mod_list s) < MAX_MODULES \<and> m \<notin> set (mod_list s) then 0 else -1, s')
    \<and> mods_ok s' \<and> mod_list s' = (if length (mod_list s) < MAX_MODULES \<and> m \<notin> set (mod_list s) then mod_list s @ [m] else mod_list s)
    \<and> s' = s\<lparr>modules := modules s', module_count := module_count s'\<rparr>"
proof (cases "module_count s < MAX_MODULES \<and> m \<notin> set (mod_list s)")
  case True
  define s' where "s' = s\<lparr>modules := (modules s)[module_count s := m], module_count := module_count s + 1\<rparr>"
  have ok: "length (modules s) = MAX_MODULES" "module_count s < length (modules s)" using assms(1) True by (simp_all add: mods_ok_def)
  have l: "mod_list s' = mod_list s @ [m]" using ok(2) by (simp add: s'_def mod_list_def take_Suc_conv_app_nth)
  have "\<not> list_ex (\<lambda>i. modules s ! i = m) [0..<module_count s]"
    using True ok(2) by (fastforce simp: list_ex_iff mod_list_def in_set_conv_nth)
  then have "module_register drv m s = Some (0, s')" using assms True by (simp add: module_register_def s'_def)
  moreover have "mods_ok s'" using assms(1-3) True l by (auto simp: mods_ok_def) (auto simp: s'_def)
  ultimately show ?thesis using l True mod_list_length [OF assms(1)] by (auto simp: s'_def)
next
  case False
  then consider "module_count s \<ge> MAX_MODULES" | "m \<in> set (mod_list s)" by linarith
  then have "module_register drv m s = Some (-1, s)"
  proof cases
    case 2
    then obtain i where "i < module_count s" "modules s ! i = m" by (auto simp: in_set_conv_nth mod_list_def)
    then show ?thesis by (auto simp: module_register_def list_ex_iff)
  qed (simp add: module_register_def)
  then show ?thesis using False assms(1) mod_list_length [OF assms(1)] by (intro exI [of _ s]) auto
qed

lemma shift_from:
  assumes "i \<le> c" "c < length ms"
  shows "length (fold (\<lambda>j ms. ms[j := ms ! (j + 1)]) [i..<c] ms) = length ms
    \<and> (\<forall>k<length ms. fold (\<lambda>j ms. ms[j := ms ! (j + 1)]) [i..<c] ms ! k = (if i \<le> k \<and> k < c then ms ! (k + 1) else ms ! k))"
  using assms
proof (induction c)
  case (Suc c)
  show ?case
  proof (cases "i = Suc c")
    case False
    then have "[i..<Suc c] = [i..<c] @ [c]" using Suc.prems by simp
    then show ?thesis using Suc False by (auto simp: nth_list_update less_Suc_eq)
  qed auto
qed simp

lemma module_unregister_spec:
  assumes ok: "mods_ok s" and nofini: "\<forall>m\<in>set (mod_list s). dm_fini (the (mod_objs s m)) = 0"
  shows "\<exists>s'. module_unregister drv name s = Some s' \<and> mods_ok s'
    \<and> mod_list s' = takeWhile (\<lambda>m. \<not> module_named s name m) (mod_list s) @ tl (dropWhile (\<lambda>m. \<not> module_named s name m) (mod_list s))
    \<and> s' = s\<lparr>modules := modules s', module_count := module_count s'\<rparr>"
proof (cases "find (\<lambda>i. module_named s name (modules s ! i)) [0..<module_count s]")
  case None
  then have "\<forall>m\<in>set (mod_list s). \<not> module_named s name m"
    using find_upt_nth [of "module_count s" "modules s" "module_named s name"] ok by (simp add: mods_ok_def mod_list_def)
  then have w: "takeWhile (\<lambda>m. \<not> module_named s name m) (mod_list s) = mod_list s" "dropWhile (\<lambda>m. \<not> module_named s name m) (mod_list s) = []"
    by (simp_all add: takeWhile_eq_all_conv dropWhile_eq_Nil_conv)
  show ?thesis using None ok by (intro exI [of _ s]) (simp add: module_unregister_def w)
next
  case (Some i)
  then have i: "i < module_count s" "module_named s name (modules s ! i)" "\<forall>j<i. \<not> module_named s name (modules s ! j)"
    by (auto simp: find_Some_iff)
  let ?c = "module_count s" and ?ms = "modules s"
  have len: "length ?ms = MAX_MODULES" "?c \<le> length ?ms" using ok by (simp_all add: mods_ok_def)
  define s' where "s' = s\<lparr>modules := (fold (\<lambda>j ms. ms[j := ms ! (j + 1)]) [i..<?c - 1] ?ms)[?c - 1 := 0], module_count := ?c - 1\<rparr>"
  have mem: "modules s ! i \<in> set (mod_list s)" using i(1) len(2) by (auto simp: mod_list_def in_set_conv_nth)
  then obtain d where d: "mod_objs s (modules s ! i) = Some d" "dm_fini d = 0" using ok nofini by (force simp: mods_ok_def)
  have "module_unregister drv name s = Some s'"
    using Some i(1) d by (simp add: module_unregister_def s'_def Let_def)
  moreover have l: "mod_list s' = take i (mod_list s) @ drop (Suc i) (mod_list s)"
  proof (rule nth_equalityI)
    show "length (mod_list s') = length (take i (mod_list s) @ drop (Suc i) (mod_list s))"
      using shift_from [of i "?c - 1" ?ms] i(1) len(2) by (simp add: mod_list_def s'_def)
  next
    fix k assume "k < length (mod_list s')"
    then have k: "k < ?c - 1" by (simp add: mod_list_def s'_def)
    then have "mod_list s' ! k = (if i \<le> k then ?ms ! (k + 1) else ?ms ! k)"
      using shift_from [of i "?c - 1" ?ms] i(1) len(2) by (simp add: mod_list_def s'_def)
    also have "\<dots> = (take i (mod_list s) @ drop (Suc i) (mod_list s)) ! k"
      using k i(1) len(2) by (auto simp: nth_append mod_list_def)
    finally show "mod_list s' ! k = (take i (mod_list s) @ drop (Suc i) (mod_list s)) ! k" .
  qed
  moreover have "takeWhile (\<lambda>m. \<not> module_named s name m) (mod_list s) = take i (mod_list s)"
    using i len(2) by (intro takeWhile_eq_take_P_nth) (auto simp: mod_list_def)
  moreover have "dropWhile (\<lambda>m. \<not> module_named s name m) (mod_list s) = drop i (mod_list s)"
  proof -
    have "takeWhile (\<lambda>m. \<not> module_named s name m) (mod_list s) = take i (mod_list s)" by fact
    then show ?thesis by (metis append_take_drop_id same_append_eq takeWhile_dropWhile_id)
  qed
  moreover have "mods_ok s'"
  proof -
    have "set (mod_list s') \<subseteq> set (mod_list s)" unfolding l by (auto dest: in_set_takeD in_set_dropD)
    moreover have "distinct (mod_list s')"
      using ok unfolding l mods_ok_def by (auto simp: set_take_disj_set_drop_if_distinct)
    ultimately show ?thesis using ok shift_from [of i "?c - 1" ?ms] i(1) len by (auto simp: mods_ok_def s'_def)
  qed
  ultimately show ?thesis by (auto simp: s'_def drop_Suc tl_drop)
qed

end
