(* ===== verification/Devfs.thy ===== *)
theory Devfs
  imports Tmpfs Modules CString
begin

text \<open>
  The file system of the devices: \<^verbatim>\<open>emex/kernel/file_systems/vfs/devfs/devfs.c\<close>. A device is a node
  whose record \<open>devfs_data\<close> points to a driver; opening, reading and writing call the functions of the
  driver (\<open>drv\<close>). Console output is left out.
\<close>

section \<open>Operations\<close>

definition SIZEOF_DEVFS_DATA :: u64 where "SIZEOF_DEVFS_DATA = 16"
definition DEVFS_OPS :: u64 where "DEVFS_OPS = 0x300"
definition DEVFS_TYPE :: u64 where "DEVFS_TYPE = 0x400"

definition upd_dev :: "u64 \<Rightarrow> (devfs_data \<Rightarrow> devfs_data) \<Rightarrow> fs \<Rightarrow> fs" where
  "upd_dev a f s = s\<lparr>dev_objs := (dev_objs s)(a := map_option f (dev_objs s a))\<rparr>"

definition devfs_open :: "drivers \<Rightarrow> u64 \<Rightarrow> u64 \<Rightarrow> fs \<Rightarrow> (int \<times> fs) option" where
  "devfs_open drv node file s = do {
     nd \<leftarrow> fs_nodes s node;
     if nd_priv nd = 0 then Some (-1, s)
     else do {
       dev \<leftarrow> dev_objs s (nd_priv nd);
       if dd_mod dev = 0 then Some (-1, s)
       else do {
         d \<leftarrow> mod_objs s (dd_mod dev);
         if dm_open d \<noteq> 0 then do {
           (h, s1) \<leftarrow> dv_open drv (dm_open d) (nd_name nd) s;
           Some (if h = 0 then -1 else 0, upd_dev (nd_priv nd) (\<lambda>x. x\<lparr>dd_handle := h\<rparr>) s1)
         } else Some (0, s)
       }
     }
   }"

definition devfs_close :: "u64 \<Rightarrow> fs \<Rightarrow> (int \<times> fs) option" where
  "devfs_close file s = do {
     f \<leftarrow> fs_files s file;
     nd \<leftarrow> fs_nodes s (ff_node f);
     Some (if nd_priv nd = 0 then (-1, s) else (0, upd_dev (nd_priv nd) (\<lambda>x. x\<lparr>dd_handle := 0\<rparr>) s))
   }"

text \<open>Reading and writing differ in the function of the driver only.\<close>

definition devfs_rw :: "(driver_module \<Rightarrow> u64) \<Rightarrow> (u64 \<Rightarrow> u64 \<Rightarrow> u64 \<Rightarrow> u64 \<Rightarrow> u64 \<Rightarrow> fs \<Rightarrow> (int \<times> fs) option)
    \<Rightarrow> u64 \<Rightarrow> u64 \<Rightarrow> u64 \<Rightarrow> fs \<Rightarrow> (int \<times> fs) option" where
  "devfs_rw sel call file buf cnt s = do {
     f \<leftarrow> fs_files s file;
     nd \<leftarrow> fs_nodes s (ff_node f);
     if nd_priv nd = 0 then Some (-1, s)
     else do {
       dev \<leftarrow> dev_objs s (nd_priv nd);
       if dd_mod dev = 0 then Some (-1, s)
       else do {
         d \<leftarrow> mod_objs s (dd_mod dev);
         if sel d = 0 then Some (-1, s)
         else do {
           (n, s1) \<leftarrow> call (sel d) (dd_handle dev) buf cnt (ff_pos f) s;
           Some (n, if n > 0 then upd_file file (\<lambda>f. f\<lparr>ff_pos := ff_pos f + word_of_int n\<rparr>) s1 else s1)
         }
       }
     }
   }"

definition devfs_read :: "drivers \<Rightarrow> u64 \<Rightarrow> u64 \<Rightarrow> u64 \<Rightarrow> fs \<Rightarrow> (int \<times> fs) option" where
  "devfs_read drv = devfs_rw dm_read (dv_read drv)"

definition devfs_write :: "drivers \<Rightarrow> u64 \<Rightarrow> u64 \<Rightarrow> u64 \<Rightarrow> fs \<Rightarrow> (int \<times> fs) option" where
  "devfs_write drv = devfs_rw dm_write (dv_write drv)"

definition devfs_lookup :: "u64 \<Rightarrow> string \<Rightarrow> fs \<Rightarrow> (u64 \<times> fs) option" where
  "devfs_lookup dir name s = do {
     nd \<leftarrow> fs_nodes s dir;
     if nd_type nd \<noteq> FS_DIR then Some (0, s)
     else do { c \<leftarrow> named_child s (nd_children nd) name; Some (c, s) }
   }"

text \<open>The node is made before anything is checked.\<close>

definition devfs_mkdir_node :: "u64 \<Rightarrow> string \<Rightarrow> fs \<Rightarrow> (int \<times> fs) option" where
  "devfs_mkdir_node dir name s = do {
     (sub, s1) \<leftarrow> fs_mknode name FS_DIR s;
     if dir = 0 then Some (-1, s1)
     else do {
       (c, s2) \<leftarrow> devfs_lookup dir name s1;
       if c \<noteq> 0 then Some (0, s2)
       else if sub = 0 then Some (-1, s2)
       else do {
         nd \<leftarrow> fs_nodes s2 dir;
         Some (0, snd (fs_addchild dir sub (upd_node sub (\<lambda>n. n\<lparr>nd_ops := nd_ops nd\<rparr>) s2)))
       }
     }
   }"

definition devfs_ops :: "drivers \<Rightarrow> fs_ops" where
  "devfs_ops drv = \<lparr>op_open = Some (devfs_open drv), op_close = Some devfs_close, op_read = Some (devfs_read drv),
     op_write = Some (devfs_write drv), op_lookup = Some devfs_lookup, op_create = None,
     op_mkdir = Some devfs_mkdir_node, op_unlink = None, op_readdir = None\<rparr>"

definition devfs_mount :: "nat \<Rightarrow> fs \<Rightarrow> (int \<times> fs) option" where
  "devfs_mount mnt s = do {
     (root, s1) \<leftarrow> fs_mknode ''dev'' FS_DIR s;
     Some (if root = 0 then (-1, s1)
           else (0, (upd_mnt mnt (\<lambda>m. m\<lparr>mn_root := root\<rparr>) (upd_node root (\<lambda>n. n\<lparr>nd_ops := DEVFS_OPS\<rparr>) s1))\<lparr>devfs_root := root\<rparr>))
   }"

definition devfs :: fs_type where
  "devfs = \<lparr>ty_name = ''devfs'', ty_mount = devfs_mount\<rparr>"

definition devfs_register :: "fs \<Rightarrow> int \<times> fs" where
  "devfs_register s = fs_register DEVFS_TYPE s"

section \<open>Registering a device\<close>

text \<open>The part of the path behind \<^verbatim>\<open>/dev/\<close>, and what stands before and behind its first slash.\<close>

definition dev_name :: "string \<Rightarrow> string" where
  "dev_name path = (if starts_with_loop path ''/dev/'' then drop 5 path else path)"

definition first_slash :: "string \<Rightarrow> nat option" where
  "first_slash name = find (\<lambda>i. name ! i = CHR ''/'') [0..<length name]"

text \<open>The directory of the device: the root, or the subdirectory, which is made when it is not there. 0 on failure.\<close>

definition devfs_parent :: "string \<Rightarrow> fs \<Rightarrow> (u64 \<times> string \<times> fs) option" where
  "devfs_parent name s =
    (case first_slash name of None \<Rightarrow> Some (devfs_root s, name, s)
     | Some slen \<Rightarrow>
       if slen = 0 \<or> 64 \<le> slen then Some (0, name, s)
       else let subdir = take slen name in do {
         (sub, s1) \<leftarrow> devfs_lookup (devfs_root s) subdir s;
         if sub \<noteq> 0 then Some (sub, drop (slen + 1) name, s1)
         else do {
           (sub, s2) \<leftarrow> fs_mknode subdir FS_DIR s1;
           if sub = 0 then Some (0, name, s2)
           else Some (sub, drop (slen + 1) name,
                  snd (fs_addchild (devfs_root s) sub (upd_node sub (\<lambda>n. n\<lparr>nd_ops := DEVFS_OPS\<rparr>) s2)))
         }
       })"

definition devfs_device :: "u64 \<Rightarrow> u64 \<Rightarrow> string \<Rightarrow> fs \<Rightarrow> (int \<times> fs) option" where
  "devfs_device m parent name s = do {
     (c, s1) \<leftarrow> devfs_lookup parent name s;
     if c \<noteq> 0 then Some (-1, s1)
     else do {
       (node, s2) \<leftarrow> fs_mknode name FS_DEV s1;
       if node = 0 then Some (-1, s2)
       else do {
         (data, s3) \<leftarrow> fs_alloc SIZEOF_DEVFS_DATA s2;
         if data = 0 then do {
           s4 \<leftarrow> fs_release node s3;
           Some (-1, s4\<lparr>fs_nodes := (fs_nodes s4)(node := None)\<rparr>)
         } else Some (0, snd (fs_addchild parent node (upd_node node (\<lambda>n. n\<lparr>nd_priv := data, nd_ops := DEVFS_OPS\<rparr>)
                    (s3\<lparr>dev_objs := (dev_objs s3)(data \<mapsto> \<lparr>dd_mod = m, dd_handle = 0\<rparr>)\<rparr>))))
       }
     }
   }"

definition devfs_register_device :: "u64 \<Rightarrow> fs \<Rightarrow> (int \<times> fs) option" where
  "devfs_register_device m s =
    (if m = 0 \<or> devfs_root s = 0 then Some (-1, s)
     else do {
       d \<leftarrow> mod_objs s m;
       path \<leftarrow> dm_mount d;
       (parent, name, s1) \<leftarrow> devfs_parent (dev_name path) s;
       if parent = 0 then Some (-1, s1) else devfs_device m parent name s1
     })"

text \<open>\<^verbatim>\<open>fs_register_mods\<close> of \<^verbatim>\<open>vfs_init.c\<close>: the number of devices and the state.\<close>

fun register_mods :: "nat \<Rightarrow> nat \<Rightarrow> int \<Rightarrow> fs \<Rightarrow> (int \<times> fs) option" where
  "register_mods 0 i dev_cnt s = Some (dev_cnt, s)"
| "register_mods (Suc n) i dev_cnt s =
    (let m = module_get_by_index (int i) s
     in if m = 0 then register_mods n (i + 1) dev_cnt s
        else do {
          d \<leftarrow> mod_objs s m;
          case dm_mount d of None \<Rightarrow> register_mods n (i + 1) dev_cnt s
          | Some path \<Rightarrow>
            if starts_with_loop path ''/dev/'' then do {
              (r, s1) \<leftarrow> devfs_register_device m s;
              register_mods n (i + 1) (if r = 0 then dev_cnt + 1 else dev_cnt) s1
            } else register_mods n (i + 1) dev_cnt s
        })"

definition fs_register_mods :: "fs \<Rightarrow> (int \<times> fs) option" where
  "fs_register_mods s = register_mods (nat (module_get_count s)) 0 0 s"

section \<open>Directories of devices\<close>

lemma devfs_lookup_map:
  assumes "tree_ok DEVFS_OPS s N" "d \<in> N"
  shows "devfs_lookup d name s = Some (case child_map s d name of None \<Rightarrow> 0 | Some c \<Rightarrow> c, s)"
  by (rule named_lookup [OF assms, of name]) (simp add: devfs_lookup_def split: if_splits)

interpretation devfs_dir: dir_lookup DEVFS_OPS devfs_lookup
  by unfold_locales (simp add: DEVFS_OPS_def, rule devfs_lookup_map)

lemma release_nodes: "fs_release a (s\<lparr>fs_nodes := x\<rparr>) = map_option (\<lambda>t. t\<lparr>fs_nodes := x\<rparr>) (fs_release a s)"
  by (cases "klime_free (fs_klime s) a (fs_mem s)") (auto simp: fs_release_def)

text \<open>What registering a device leaves alone.\<close>

definition same_tables :: "fs \<Rightarrow> fs \<Rightarrow> bool" where
  "same_tables s t \<longleftrightarrow> mnts t = mnts s \<and> fds t = fds s \<and> ftypes t = ftypes s \<and> fs_files t = fs_files s
     \<and> tmp_objs t = tmp_objs s \<and> devfs_root t = devfs_root s \<and> mod_objs t = mod_objs s \<and> modules t = modules s
     \<and> module_count t = module_count s \<and> fs_vts t = fs_vts s \<and> g_current_uid t = g_current_uid s \<and> g_current_gid t = g_current_gid s"

lemma same_tables_simps [simp]:
  "same_tables s s" "same_tables s (t\<lparr>fs_nodes := x\<rparr>) = same_tables s t" "same_tables s (t\<lparr>dev_objs := y\<rparr>) = same_tables s t"
  "same_tables s (t\<lparr>fs_klime := kl\<rparr>) = same_tables s t" "same_tables s (t\<lparr>fs_mem := km\<rparr>) = same_tables s t"
  "same_tables s (upd_node b f t) = same_tables s t"
  by (simp_all add: same_tables_def upd_node_def)

lemma same_tables_heap: "t = u\<lparr>fs_klime := kl, fs_mem := km\<rparr> \<Longrightarrow> same_tables s u \<Longrightarrow> same_tables s t"
  "t = u\<lparr>fs_nodes := x, fs_klime := kl, fs_mem := km\<rparr> \<Longrightarrow> same_tables s u \<Longrightarrow> same_tables s t"
  by simp_all

lemma devfs_device_spec:
  assumes heap: "fs_heap lo hi live s" and tree: "tree_ok DEVFS_OPS s N" and p: "parent \<in> N" "nd_type (the (fs_nodes s parent)) = FS_DIR"
    and len: "length name < FS_NAME"
  shows "\<exists>r s' live'. devfs_device m parent name s = Some (r, s') \<and> fs_heap lo hi live' s'
    \<and> same_tables s s'
    \<and> (if r \<noteq> 0 then r = -1 \<and> live' = live \<and> fs_nodes s' = fs_nodes s \<and> dev_objs s' = dev_objs s
       else child_map s parent name = None \<and> (\<exists>a nd. a \<notin> live \<and> tree_ok DEVFS_OPS s' (insert a N)
         \<and> live' = insert (nd_priv nd) (insert a live) \<and> fs_nodes s' a = Some nd \<and> nd_type nd = FS_DEV \<and> nd_name nd = name
         \<and> nd_priv nd \<noteq> 0 \<and> dev_objs s' = (dev_objs s)(nd_priv nd \<mapsto> \<lparr>dd_mod = m, dd_handle = 0\<rparr>)
         \<and> (\<forall>e\<in>N. child_map s' e = (if e = parent then (child_map s parent)(name \<mapsto> a) else child_map s e))))"
proof (cases "child_map s parent name")
  case (Some c)
  then have "devfs_device m parent name s = Some (-1, s)"
    using devfs_lookup_map [OF tree p(1), of name] child_map_in [OF tree p(1) Some] by (simp add: devfs_device_def)
  then show ?thesis using heap by (intro exI [of _ "-1"] exI [of _ s] exI [of _ live]) simp
next
  case None
  note look = devfs_lookup_map [OF tree p(1), of name, unfolded None option.case]
  obtain pn where pn: "fs_nodes s parent = Some pn" "parent \<noteq> 0" "nd_type pn = FS_DIR" using tree_okD [OF tree p(1)] p(2) by force
  from heap len show ?thesis
  proof (cases rule: mknode_spec [where type = FS_DEV])
    case (full s1)
    then have "devfs_device m parent name s = Some (-1, s1)" using look by (simp add: devfs_device_def)
    moreover have "fs_nodes s1 = fs_nodes s" "dev_objs s1 = dev_objs s" by (subst full(3), simp)+
    moreover have "same_tables s s1" using same_tables_heap(1) [OF full(3)] by simp
    ultimately show ?thesis using full(2) by (intro exI [of _ "-1"] exI [of _ s1] exI [of _ live]) simp
  next
    case (made a n s1)
    obtain q s2 where q: "fs_alloc SIZEOF_DEVFS_DATA s1 = Some (q, s2)" "q \<notin> insert a live" "fs_nodes s2 = fs_nodes s1"
      "fs_heap lo hi (if q = 0 then insert a live else insert q (insert a live)) s2"
      "s2 = s1\<lparr>fs_klime := fs_klime s2, fs_mem := fs_mem s2\<rparr>"
      using fs_alloc_spec [OF made(4)] by blast
    have d2: "dev_objs s2 = dev_objs s" by (subst q(5), subst made(6)) simp
    have t2: "same_tables s s2" using same_tables_heap(1) [OF q(5)] same_tables_heap(2) [OF made(6)] by simp
    have fresh: "a \<notin> dom (fs_nodes s)" using made(2) heap by (auto simp: fs_heap_def)
    show ?thesis
    proof (cases "q = 0")
      case True
      let ?t = "s2\<lparr>fs_nodes := fs_nodes s\<rparr>"
      have "fs_heap lo hi (insert a live) ?t" using q(4) True heap by (auto simp: fs_heap_def)
      then obtain u where u: "fs_release a ?t = Some u" "fs_heap lo hi (insert a live - {a}) u"
        "u = ?t\<lparr>fs_klime := fs_klime u, fs_mem := fs_mem u\<rparr>"
        by (rule fs_release_spec [of lo hi "insert a live" ?t a]) (use fresh in simp_all)
      have nu: "fs_nodes u = fs_nodes s" "dev_objs u = dev_objs s" by (subst u(3), simp add: d2)+
      have "fs_release a s2 = Some (u\<lparr>fs_nodes := fs_nodes s1\<rparr>)"
        using u(1) release_nodes [of a "fs_nodes s2" ?t] by (simp flip: q(3))
      then have "devfs_device m parent name s = Some (-1, u\<lparr>fs_nodes := (fs_nodes s1)(a := None)\<rparr>)"
        using look made(1,3) q(1) True by (simp add: devfs_device_def)
      moreover have "(fs_nodes s1)(a := None) = fs_nodes s" using made(5) fresh by (auto simp: domIff)
      ultimately have r: "devfs_device m parent name s = Some (-1, u)" using nu by simp
      have "same_tables s u" using same_tables_heap(1) [OF u(3)] t2 by simp
      moreover have "insert a live - {a} = live" using made(2) by auto
      ultimately show ?thesis using r u(2) nu by (intro exI [of _ "-1"] exI [of _ u] exI [of _ live]) simp
    next
      case False
      define nd where "nd = n\<lparr>nd_priv := q, nd_ops := DEVFS_OPS, nd_parent := parent\<rparr>"
      define t where "t = snd (fs_addchild parent a (upd_node a (\<lambda>n. n\<lparr>nd_priv := q, nd_ops := DEVFS_OPS\<rparr>)
         (s2\<lparr>dev_objs := (dev_objs s2)(q \<mapsto> \<lparr>dd_mod = m, dd_handle = 0\<rparr>)\<rparr>)))"
      have r: "devfs_device m parent name s = Some (0, t)"
        using look made(1,3) q(1) False by (simp add: devfs_device_def t_def)
      have ap: "a \<noteq> parent" using fresh pn(1) by (auto simp: domIff)
      have nodes: "fs_nodes t = (fs_nodes s)(a \<mapsto> nd, parent \<mapsto> pn\<lparr>nd_children := a # nd_children pn\<rparr>)"
        using ap pn made(3) by (auto simp: t_def fs_addchild_def q(3) made(5) nd_def fun_eq_iff)
      have dev: "dev_objs t = (dev_objs s)(q \<mapsto> \<lparr>dd_mod = m, dd_handle = 0\<rparr>)"
        "fs_klime t = fs_klime s2" "fs_mem t = fs_mem s2"
        using pn(2) made(3) d2 by (simp_all add: t_def fs_addchild_def upd_node_def)
      have nd: "nd_name nd = name" "nd_ops nd = DEVFS_OPS" "nd_children nd = []" "nd_type nd = FS_DEV" "nd_priv nd = q"
        using made(7-9) by (simp_all add: nd_def)
      have "child_map s parent (nd_name nd) = None" using None nd(1) by simp
      note add = add_child_spec [OF tree p(1) pn(1,3) this fresh made(3) nd(2,3) nodes]
      have hp: "fs_heap lo hi (insert q (insert a live)) t"
        using q(4) False heap pn(1) by (auto simp: fs_heap_def dev nodes)
      have "same_tables s t" using t2 by (simp add: t_def fs_addchild_def)
      moreover have "fs_nodes t a = Some nd" using nodes ap by simp
      ultimately show ?thesis
        using r hp add made(2) dev nd None False by (intro exI [of _ 0] exI [of _ t] exI [of _ "insert q (insert a live)"]) auto
    qed
  qed
qed

section \<open>Paths of devices\<close>

text \<open>The name of a device behind \<^verbatim>\<open>/dev/\<close>: \<open>base\<close>, or \<open>base\<close> in a subdirectory.\<close>

definition dev_path :: "string option \<Rightarrow> string \<Rightarrow> string" where
  "dev_path sub base = (case sub of None \<Rightarrow> base | Some d \<Rightarrow> d @ CHR ''/'' # base)"

definition name_ok :: "string \<Rightarrow> bool" where
  "name_ok p \<longleftrightarrow> p \<noteq> [] \<and> CHR ''/'' \<notin> set p \<and> length p < FS_NAME"

lemma first_slash_dev_path:
  assumes "CHR ''/'' \<notin> set base" "\<forall>d. sub = Some d \<longrightarrow> CHR ''/'' \<notin> set d"
  shows "first_slash (dev_path sub base) = map_option length sub"
proof (cases sub)
  case None
  have "\<forall>i<length base. base ! i \<noteq> CHR ''/''" using assms(1) by (metis nth_mem)
  then show ?thesis using None by (auto simp: first_slash_def dev_path_def find_None_iff)
next
  case (Some d)
  then have "\<forall>j<length d. (d @ CHR ''/'' # base) ! j \<noteq> CHR ''/''" using assms(2) by (auto simp: nth_append dest: nth_mem)
  then show ?thesis using Some
    by (auto simp: first_slash_def dev_path_def find_Some_iff simp del: upt_Suc intro!: exI [of _ "length d"])
qed

lemma dev_name_path: "dev_name (''/dev/'' @ p) = p"
  by (simp add: dev_name_def deref_def)

text \<open>The root of devfs and the subdirectory, if it is there, are directories.\<close>

definition dev_dirs :: "fs \<Rightarrow> u64 set \<Rightarrow> string option \<Rightarrow> bool" where
  "dev_dirs s N sub \<longleftrightarrow> devfs_root s \<in> N \<and> nd_type (the (fs_nodes s (devfs_root s))) = FS_DIR
     \<and> (\<forall>d c. sub = Some d \<longrightarrow> child_map s (devfs_root s) d = Some c \<longrightarrow> nd_type (the (fs_nodes s c)) = FS_DIR)"

lemma devfs_parent_spec:
  assumes heap: "fs_heap lo hi live s" and tree: "tree_ok DEVFS_OPS s N" and dirs: "dev_dirs s N sub"
    and names: "name_ok base" "\<forall>d. sub = Some d \<longrightarrow> name_ok d"
  shows "\<exists>p nm s1 live1 N1. devfs_parent (dev_path sub base) s = Some (p, nm, s1) \<and> fs_heap lo hi live1 s1 \<and> same_tables s s1
    \<and> dev_objs s1 = dev_objs s \<and> live \<subseteq> live1 \<and> (if p = 0 then live1 = live \<and> fs_nodes s1 = fs_nodes s
       else nm = base \<and> tree_ok DEVFS_OPS s1 N1 \<and> N \<subseteq> N1 \<and> p \<in> N1 \<and> nd_type (the (fs_nodes s1 p)) = FS_DIR
         \<and> (\<forall>e\<in>N. e \<noteq> devfs_root s \<longrightarrow> child_map s1 e = child_map s e)
         \<and> (case sub of None \<Rightarrow> p = devfs_root s \<and> s1 = s \<and> N1 = N \<and> live1 = live | Some d \<Rightarrow> child_map s1 (devfs_root s) d = Some p))"
proof -
  let ?root = "devfs_root s"
  have root: "?root \<in> N" "nd_type (the (fs_nodes s ?root)) = FS_DIR" using dirs by (simp_all add: dev_dirs_def)
  have nz: "?root \<noteq> 0" using tree root(1) by (auto simp: tree_ok_def)
  have sl: "first_slash (dev_path sub base) = map_option length sub"
    using names by (intro first_slash_dev_path) (auto simp: name_ok_def)
  show ?thesis
  proof (cases sub)
    case None
    then have "devfs_parent (dev_path sub base) s = Some (?root, base, s)" using sl by (simp add: devfs_parent_def dev_path_def)
    then show ?thesis using heap tree root nz None by (intro exI [of _ ?root] exI [of _ base] exI [of _ s] exI [of _ live] exI [of _ N]) simp
  next
    case (Some d)
    have d: "name_ok d" using names(2) Some by simp
    then have d2: "\<not> (length d = 0 \<or> 64 \<le> length d)" "take (length d) (dev_path sub base) = d" "drop (Suc (length d)) (dev_path sub base) = base"
      using Some by (auto simp: name_ok_def dev_path_def FS_NAME_def)
    note look = devfs_lookup_map [OF tree root(1), of d]
    show ?thesis
    proof (cases "child_map s ?root d")
      case (Some c)
      have c: "c \<in> N" "c \<noteq> 0" using child_map_in [OF tree root(1) Some] by simp_all
      have "devfs_parent (dev_path sub base) s = Some (c, base, s)"
        using sl d2 look \<open>sub = Some d\<close> Some c by (simp add: devfs_parent_def Let_def)
      then show ?thesis using heap tree c Some dirs \<open>sub = Some d\<close>
        by (intro exI [of _ c] exI [of _ base] exI [of _ s] exI [of _ live] exI [of _ N]) (simp add: dev_dirs_def)
    next
      case None
      have len: "length d < FS_NAME" using d by (simp add: name_ok_def)
      obtain rn where rn: "fs_nodes s ?root = Some rn" "nd_type rn = FS_DIR" using tree_okD [OF tree root(1)] root(2) by force
      from heap len show ?thesis
      proof (cases rule: mknode_spec [where type = FS_DIR])
        case (full s1)
        then have "devfs_parent (dev_path sub base) s = Some (0, dev_path sub base, s1)"
          using sl d2 look \<open>sub = Some d\<close> None by (simp add: devfs_parent_def Let_def)
        moreover have "fs_nodes s1 = fs_nodes s" "dev_objs s1 = dev_objs s" by (subst full(3), simp)+
        ultimately show ?thesis using full(2) same_tables_heap(1) [OF full(3)]
          by (intro exI [of _ 0] exI [of _ "dev_path sub base"] exI [of _ s1] exI [of _ live] exI [of _ N]) simp
      next
        case (made a n s1)
        define nd where "nd = n\<lparr>nd_ops := DEVFS_OPS, nd_parent := ?root\<rparr>"
        define t where "t = snd (fs_addchild ?root a (upd_node a (\<lambda>n. n\<lparr>nd_ops := DEVFS_OPS\<rparr>) s1))"
        have r: "devfs_parent (dev_path sub base) s = Some (a, base, t)"
          using sl d2 look \<open>sub = Some d\<close> None made(1,3) by (simp add: devfs_parent_def Let_def t_def)
        have fresh: "a \<notin> dom (fs_nodes s)" using made(2) heap by (auto simp: fs_heap_def)
        have ap: "a \<noteq> ?root" using fresh rn(1) by (auto simp: domIff)
        have nodes: "fs_nodes t = (fs_nodes s)(a \<mapsto> nd, ?root \<mapsto> rn\<lparr>nd_children := a # nd_children rn\<rparr>)"
          using ap rn made(3) nz by (auto simp: t_def fs_addchild_def made(5) nd_def fun_eq_iff)
        have st: "same_tables s t" "dev_objs t = dev_objs s" "fs_klime t = fs_klime s1" "fs_mem t = fs_mem s1"
        proof -
          have "dev_objs s1 = dev_objs s" by (subst made(6)) simp
          then show "same_tables s t" "dev_objs t = dev_objs s" "fs_klime t = fs_klime s1" "fs_mem t = fs_mem s1"
            using same_tables_heap(2) [OF made(6), of s] nz made(3) by (simp_all add: t_def fs_addchild_def upd_node_def)
        qed
        have nd: "nd_name nd = d" "nd_ops nd = DEVFS_OPS" "nd_children nd = []" "nd_type nd = FS_DIR"
          using made(7-9) by (simp_all add: nd_def)
        have "child_map s ?root (nd_name nd) = None" using None nd(1) by simp
        note add = add_child_spec [OF tree root(1) rn this fresh made(3) nd(2,3) nodes]
        have hp: "fs_heap lo hi (insert a live) t" using made(4) heap rn(1) by (auto simp: fs_heap_def st nodes)
        have "nd_type (the (fs_nodes t a)) = FS_DIR" using nodes ap nd(4) by simp
        then show ?thesis using r hp add st nd(1) root(1) \<open>sub = Some d\<close> made(3)
          by (intro exI [of _ a] exI [of _ base] exI [of _ t] exI [of _ "insert a live"] exI [of _ "insert a N"]) auto
      qed
    qed
  qed
qed

lemma split_slash_parts:
  assumes "q \<in> set (parts p)"
  shows "CHR ''/'' \<notin> set q \<and> q \<noteq> []"
proof -
  have "\<forall>r\<in>set (split_slash p). CHR ''/'' \<notin> set r" by (induction p) (auto split: list.splits)
  then show ?thesis using assms by (auto simp: parts_def dest: in_set_takeD)
qed

text \<open>What path resolution reaches has no slash in its name.\<close>

lemma follow_no_slash:
  assumes "tree_ok ops s N"
  shows "cur \<in> N \<Longrightarrow> \<forall>q\<in>set ps. CHR ''/'' \<notin> set q \<Longrightarrow> follow s cur ps \<noteq> 0 \<Longrightarrow>
    follow s cur ps = cur \<or> CHR ''/'' \<notin> set (nd_name (the (fs_nodes s (follow s cur ps))))"
proof (induction ps arbitrary: cur)
  case (Cons q ps)
  then obtain c where c: "child_map s cur q = Some c" by (auto split: option.splits)
  note ci = child_map_in [OF assms Cons.prems(1) c]
  show ?case
  proof (cases "follow s c ps = c")
    case True
    then show ?thesis using ci Cons.prems(2) c by simp
  next
    case False
    then show ?thesis using Cons.IH [of c] ci Cons.prems c by auto
  qed
qed simp

section \<open>Properties\<close>

lemma follow_device:
  assumes "\<forall>e\<in>N. child_map s' e = (if e = p then (child_map s p)(base \<mapsto> a) else child_map s e)" "child_map s p base = None"
    and "root \<in> N" "p \<in> N" "case sub of None \<Rightarrow> p = root | Some d \<Rightarrow> child_map s root d = Some p"
  shows "follow s' root (case sub of None \<Rightarrow> [base] | Some d \<Rightarrow> [d, base]) = a"
proof (cases sub)
  case None
  then show ?thesis using assms by simp
next
  case (Some d)
  then have "child_map s' root d = Some p" using assms by auto
  then show ?thesis using Some assms(1,4) by simp
qed

lemma parts_dev_path:
  assumes "name_ok base" "\<forall>d. sub = Some d \<longrightarrow> name_ok d"
  shows "parts (drop (length ''/dev'') (''/dev/'' @ dev_path sub base)) = (case sub of None \<Rightarrow> [base] | Some d \<Rightarrow> [d, base])"
  using assms by (auto simp: dev_path_def name_ok_def FS_NAME_def split: option.splits)

text \<open>
  Registering a driver whose path is \<^verbatim>\<open>/dev/name\<close> or \<^verbatim>\<open>/dev/sub/name\<close>
  either fails and changes no device and no descriptor, or afterwards the path resolves to a new device node
  that belongs to this driver; all blocks of the heap that were live still are.
\<close>

lemma devfs_device_resolves:
  assumes heap: "fs_heap lo hi live s" and tree: "tree_ok DEVFS_OPS s N" and dirs: "dev_dirs s N sub"
    and names: "name_ok base" "\<forall>d. sub = Some d \<longrightarrow> name_ok d"
    and drv: "m \<noteq> 0" "mod_objs s m = Some dm" "dm_mount dm = Some (''/dev/'' @ dev_path sub base)"
    and mnt: "find_mnt s (''/dev/'' @ dev_path sub base) = Some i" "mn_path (mnts s ! i) = ''/dev''" "mn_root (mnts s ! i) = devfs_root s"
    and tab: "op_lookup (tab_ops tab DEVFS_OPS) = Some devfs_lookup"
  shows "\<exists>r s' live'. devfs_register_device m s = Some (r, s') \<and> fs_heap lo hi live' s' \<and> live \<subseteq> live' \<and> fds s' = fds s
    \<and> (if r \<noteq> 0 then r = -1 \<and> dev_objs s' = dev_objs s
       else \<exists>a nd. fs_resolve tab (''/dev/'' @ dev_path sub base) s' = Some (a, s') \<and> a \<notin> live
         \<and> fs_nodes s' a = Some nd \<and> nd_type nd = FS_DEV \<and> nd_name nd = base \<and> dev_objs s' (nd_priv nd) = Some \<lparr>dd_mod = m, dd_handle = 0\<rparr>)"
proof -
  let ?root = "devfs_root s" and ?path = "''/dev/'' @ dev_path sub base"
  have root: "?root \<in> N" using dirs by (simp add: dev_dirs_def)
  have nz: "?root \<noteq> 0" using tree root by (auto simp: tree_ok_def)
  obtain p nm s1 live1 N1 where p: "devfs_parent (dev_path sub base) s = Some (p, nm, s1)" "fs_heap lo hi live1 s1" "same_tables s s1"
    "dev_objs s1 = dev_objs s" "live \<subseteq> live1" "if p = 0 then live1 = live \<and> fs_nodes s1 = fs_nodes s
       else nm = base \<and> tree_ok DEVFS_OPS s1 N1 \<and> N \<subseteq> N1 \<and> p \<in> N1 \<and> nd_type (the (fs_nodes s1 p)) = FS_DIR
         \<and> (\<forall>e\<in>N. e \<noteq> devfs_root s \<longrightarrow> child_map s1 e = child_map s e)
         \<and> (case sub of None \<Rightarrow> p = devfs_root s \<and> s1 = s \<and> N1 = N \<and> live1 = live | Some d \<Rightarrow> child_map s1 (devfs_root s) d = Some p)"
    using devfs_parent_spec [OF heap tree dirs names] by blast
  have reg: "devfs_register_device m s = (if p = 0 then Some (-1, s1) else devfs_device m p nm s1)"
    using drv nz p(1) dev_name_path [of "dev_path sub base"] by (simp add: devfs_register_device_def)
  show ?thesis
  proof (cases "p = 0")
    case True
    then show ?thesis using reg p by (intro exI [of _ "-1"] exI [of _ s1] exI [of _ live]) (simp add: same_tables_def)
  next
    case False
    then have q: "nm = base" "tree_ok DEVFS_OPS s1 N1" "N \<subseteq> N1" "p \<in> N1" "nd_type (the (fs_nodes s1 p)) = FS_DIR"
      "case sub of None \<Rightarrow> p = ?root \<and> s1 = s \<and> N1 = N \<and> live1 = live | Some d \<Rightarrow> child_map s1 ?root d = Some p" using p(6) by simp_all
    have tb: "same_tables s1 t \<Longrightarrow> mnts t = mnts s \<and> fds t = fds s \<and> devfs_root t = ?root" for t
      using p(3) by (simp add: same_tables_def)
    obtain r s2 live2 where d: "devfs_device m p base s1 = Some (r, s2)" "fs_heap lo hi live2 s2" "same_tables s1 s2"
      "if r \<noteq> 0 then r = -1 \<and> live2 = live1 \<and> fs_nodes s2 = fs_nodes s1 \<and> dev_objs s2 = dev_objs s1
       else child_map s1 p base = None \<and> (\<exists>a nd. a \<notin> live1 \<and> tree_ok DEVFS_OPS s2 (insert a N1)
         \<and> live2 = insert (nd_priv nd) (insert a live1) \<and> fs_nodes s2 a = Some nd \<and> nd_type nd = FS_DEV \<and> nd_name nd = base
         \<and> nd_priv nd \<noteq> 0 \<and> dev_objs s2 = (dev_objs s1)(nd_priv nd \<mapsto> \<lparr>dd_mod = m, dd_handle = 0\<rparr>)
         \<and> (\<forall>e\<in>N1. child_map s2 e = (if e = p then (child_map s1 p)(base \<mapsto> a) else child_map s1 e)))"
      using devfs_device_spec [OF p(2) q(2,4,5)] names(1) unfolding name_ok_def by blast
    show ?thesis
    proof (cases "r = 0")
      case False
      then show ?thesis using reg d p(4,5) tb [OF d(3)] q(1) \<open>p \<noteq> 0\<close> by (intro exI [of _ r] exI [of _ s2] exI [of _ live2]) simp
    next
      case True
      then obtain a nd where a: "a \<notin> live1" "tree_ok DEVFS_OPS s2 (insert a N1)" "live2 = insert (nd_priv nd) (insert a live1)"
        "fs_nodes s2 a = Some nd" "nd_type nd = FS_DEV" "nd_name nd = base" "dev_objs s2 = (dev_objs s1)(nd_priv nd \<mapsto> \<lparr>dd_mod = m, dd_handle = 0\<rparr>)"
        "\<forall>e\<in>N1. child_map s2 e = (if e = p then (child_map s1 p)(base \<mapsto> a) else child_map s1 e)" "child_map s1 p base = None"
        using d(4) by auto
      have rN: "?root \<in> N1" using root q(3) by auto
      have mnt2: "find_mnt s2 ?path = Some i" "mnts s2 = mnts s" using mnt(1) tb [OF d(3)] by (simp_all add: find_mnt_def)
      note pts = parts_dev_path [OF names]
      have "follow s2 ?root (case sub of None \<Rightarrow> [base] | Some d \<Rightarrow> [d, base]) = a"
        using q(6) by (intro follow_device [OF a(8,9) rN q(4)]) (simp split: option.splits)
      then have "fs_resolve tab ?path s2 = Some (a, s2)"
        using devfs_dir.resolve_follow [OF a(2) tab _ _ mnt2(1)] rN mnt pts unfolding mnt2(2) by simp
      moreover have "a \<notin> live" using a(1) p(5) by auto
      moreover have "live \<subseteq> live2" using a(3) p(5) by auto
      ultimately show ?thesis using reg d(1,2) a tb [OF d(3)] q(1) \<open>p \<noteq> 0\<close> True
        by (intro exI [of _ 0] exI [of _ s2] exI [of _ live2]) auto
    qed
  qed
qed

definition null_ex :: driver_module where
  "null_ex = \<lparr>dm_name = Some ''null'', dm_mount = Some ''/dev/null'', dm_version = 0, dm_init = 0, dm_fini = 0,
     dm_open = 0, dm_read = 0, dm_write = 0\<rparr>"

definition dev_ex :: fs where
  "dev_ex = fs_ex\<lparr>fs_nodes := [0x10E0 \<mapsto> (fs_ex_node ''dev'' FS_DIR 0 [])\<lparr>nd_ops := DEVFS_OPS\<rparr>], devfs_root := 0x10E0,
     mnts := (mnts fs_ex)[1 := \<lparr>mn_path = ''/dev'', mn_type = DEVFS_TYPE, mn_root = 0x10E0, mn_active = True\<rparr>],
     mod_objs := [0x700 \<mapsto> null_ex]\<rparr>"

definition drv_ex :: drivers where
  "drv_ex = \<lparr>dv_init = (\<lambda>f s. None), dv_fini = (\<lambda>f s. None), dv_open = (\<lambda>f path s. None), dv_read = (\<lambda>f h b n off s. None),
     dv_write = (\<lambda>f h b n off s. None)\<rparr>"

definition dev_ex_tab :: "drivers \<Rightarrow> fs_tab" where
  "dev_ex_tab drv = \<lparr>tab_ops = (\<lambda>a. if a = DEVFS_OPS then devfs_ops drv else tmpfs_ops),
     tab_type = (\<lambda>a. if a = DEVFS_TYPE then devfs else tmpfs)\<rparr>"

lemma dev_ex_simps:
  "fs_nodes dev_ex = [0x10E0 \<mapsto> (fs_ex_node ''dev'' FS_DIR 0 [])\<lparr>nd_ops := DEVFS_OPS\<rparr>]"
  "devfs_root dev_ex = 0x10E0" "mod_objs dev_ex = [0x700 \<mapsto> null_ex]" "mn_path (mnts dev_ex ! 1) = ''/dev''" "mn_root (mnts dev_ex ! 1) = 0x10E0"
  by (simp_all add: dev_ex_def fs_ex_def)

lemma devfs_device_resolves_witness:
  "\<exists>r s. devfs_register_device 0x700 dev_ex = Some (r, s)
     \<and> (r = 0 \<longrightarrow> (\<exists>a. fs_resolve (dev_ex_tab drv_ex) ''/dev/null'' s = Some (a, s)))"
proof -
  have h: "fs_heap 0x1000 0x31C0 {0x1028, 0x10E0, 0x1198} dev_ex"
    using fs_ex_heap_ok by (auto simp: fs_heap_def dev_ex_def fs_ex_def)
  have t: "tree_ok DEVFS_OPS dev_ex {0x10E0}" by (simp add: tree_ok_def dev_ex_simps fs_ex_node_def entries_def)
  have d: "dev_dirs dev_ex {0x10E0} None" by (simp add: dev_dirs_def dev_ex_simps fs_ex_node_def)
  have n: "name_ok ''null''" by (simp add: name_ok_def FS_NAME_def)
  have m: "find_mnt dev_ex (''/dev/'' @ dev_path None ''null'') = Some 1"
    by (simp add: find_mnt_def FS_MAX_MNTS_def upt_rec dev_ex_def fs_ex_def dev_path_def)
  have look: "op_lookup (tab_ops (dev_ex_tab drv_ex) DEVFS_OPS) = Some devfs_lookup" by (simp add: dev_ex_tab_def devfs_ops_def)
  have mo: "mod_objs dev_ex 0x700 = Some null_ex" "dm_mount null_ex = Some (''/dev/'' @ dev_path None ''null'')"
    by (simp_all add: dev_ex_simps null_ex_def dev_path_def)
  have root: "mn_root (mnts dev_ex ! 1) = devfs_root dev_ex" by (simp add: dev_ex_simps del: One_nat_def)
  have path: "''/dev/'' @ dev_path None ''null'' = ''/dev/null''" by (simp add: dev_path_def)
  from devfs_device_resolves [OF h t d n _ _ mo m dev_ex_simps(4) root look] obtain r s where
    "devfs_register_device 0x700 dev_ex = Some (r, s)" "r = 0 \<longrightarrow> (\<exists>a. fs_resolve (dev_ex_tab drv_ex) ''/dev/null'' s = Some (a, s))"
    unfolding path by (auto split: if_splits)
  then show ?thesis by blast
qed

end
