(* ===== verification/VtDev.thy ===== *)
theory VtDev
  imports Devfs
begin

text \<open>
  The driver side of the terminals, \<^verbatim>\<open>emex/kernel/devices/vt/vt.c\<close>: the functions behind the nodes
  \<^verbatim>\<open>/dev/vt/N/input\<close> and \<^verbatim>\<open>/dev/vt/N/output\<close>, creating a terminal, and the requests to
  \<^verbatim>\<open>/dev/vt/control\<close>. The functions of the drivers have addresses; which ones does not matter. A read
  that waits for the keyboard has no result here.
\<close>

section \<open>Paths and handles\<close>

fun digits_u64 :: "string \<Rightarrow> u64 \<Rightarrow> u64" where
  "digits_u64 [] v = v"
| "digits_u64 (c # p) v = (if chr_in 48 57 c then digits_u64 p (v * 10 + word_of_nat (of_char c - 48)) else v)"

fun id_from_path_loop :: "string \<Rightarrow> nat \<Rightarrow> u64" where
  "id_from_path_loop [] slash = -1"
| "id_from_path_loop (c # p) slash =
    (if c = CHR ''/'' then id_from_path_loop p (slash + 1)
     else if slash = 2 then digits_u64 (c # p) 0
     else id_from_path_loop p slash)"

definition id_from_path :: "string \<Rightarrow> u64" where
  "id_from_path path = id_from_path_loop path 0"

definition vt_open :: "string \<Rightarrow> fs \<Rightarrow> u64" where
  "vt_open path s = (let k = id_from_path path in if vt_get (fs_vts s) k = None then 0 else k + 1)"

definition mem_bytes :: "(u64 \<Rightarrow> u8) \<Rightarrow> u64 \<Rightarrow> nat \<Rightarrow> u8 list" where
  "mem_bytes m a n = map (\<lambda>i. m (a + word_of_nat i)) [0..<n]"

definition put_bytes :: "u8 list \<Rightarrow> u64 \<Rightarrow> fs \<Rightarrow> fs" where
  "put_bytes bs a s = s\<lparr>fs_mem := (fs_mem s)\<lparr>km_bytes :=
     (\<lambda>x. if unat (x - a) < length bs then bs ! unat (x - a) else km_bytes (fs_mem s) x)\<rparr>\<rparr>"

definition vt_output_write_cb :: "u64 \<Rightarrow> u64 \<Rightarrow> u64 \<Rightarrow> fs \<Rightarrow> int \<times> fs" where
  "vt_output_write_cb handle buf count s =
    (case vt_get (fs_vts s) (handle - 1) of None \<Rightarrow> (-1, s)
     | Some i \<Rightarrow> let (w, v) = vt_output_write i (mem_bytes (km_bytes (fs_mem s)) buf (unat count)) (fs_vts s)
                 in (w, s\<lparr>fs_vts := v\<rparr>))"

definition vt_output_read_cb :: "u64 \<Rightarrow> u64 \<Rightarrow> u64 \<Rightarrow> fs \<Rightarrow> int \<times> fs" where
  "vt_output_read_cb handle buf count s =
    (case vt_get (fs_vts s) (handle - 1) of None \<Rightarrow> (-1, s)
     | Some i \<Rightarrow> let (r, bs, v) = vt_output_read i (unat count) (fs_vts s)
                 in (r, put_bytes bs buf (s\<lparr>fs_vts := v\<rparr>)))"

text \<open>The counter of the bytes that are done is an \<open>int\<close>: a count from 2^31 on overflows it, which is undefined.\<close>

definition vt_input_write_cb :: "u64 \<Rightarrow> u64 \<Rightarrow> u64 \<Rightarrow> fs \<Rightarrow> (int \<times> fs) option" where
  "vt_input_write_cb handle buf count s =
    (case vt_get (fs_vts s) (handle - 1) of None \<Rightarrow> Some (-1, s)
     | Some i \<Rightarrow>
       if 2 ^ 31 \<le> unat count then None
       else let n = unat count div EV_SIZE;
                v = fold (\<lambda>k v. let ev = event_of (mem_bytes (km_bytes (fs_mem s)) (buf + word_of_nat (EV_SIZE * k)) EV_SIZE)
                                in if ev_pressed ev \<noteq> 0 then snd (vt_input_write i ev v) else v) [0..<n] (fs_vts s)
            in Some (int (EV_SIZE * n), s\<lparr>fs_vts := v\<rparr>))"

definition vt_input_read_cb :: "u64 \<Rightarrow> u64 \<Rightarrow> u64 \<Rightarrow> fs \<Rightarrow> (int \<times> fs) option" where
  "vt_input_read_cb handle buf count s =
    (case vt_get (fs_vts s) (handle - 1) of None \<Rightarrow> Some (-1, s)
     | Some i \<Rightarrow>
       if buf = 0 then Some (-1, s)
       else case vt_input_read i (unat count) [] (fs_vts s) of
              (ReadDone r bs, v) \<Rightarrow> Some (r, put_bytes bs buf (s\<lparr>fs_vts := v\<rparr>))
            | (ReadWaits _, _) \<Rightarrow> None)"

definition ctrl_init :: "fs \<Rightarrow> int \<times> fs" where
  "ctrl_init s = (0, s)"

definition ctrl_open :: "string \<Rightarrow> fs \<Rightarrow> u64 \<times> fs" where
  "ctrl_open path s = (1, s)"

definition ctrl_rw :: "u64 \<Rightarrow> u64 \<Rightarrow> u64 \<Rightarrow> u64 \<Rightarrow> fs \<Rightarrow> int \<times> fs" where
  "ctrl_rw h b n off s = (0, s)"

section \<open>The drivers\<close>

definition VT_OUTPUT_OPEN :: u64 where "VT_OUTPUT_OPEN = 0x8010"
definition VT_OUTPUT_READ :: u64 where "VT_OUTPUT_READ = 0x8020"
definition VT_OUTPUT_WRITE :: u64 where "VT_OUTPUT_WRITE = 0x8030"
definition VT_INPUT_OPEN :: u64 where "VT_INPUT_OPEN = 0x8040"
definition VT_INPUT_READ :: u64 where "VT_INPUT_READ = 0x8050"
definition VT_INPUT_WRITE :: u64 where "VT_INPUT_WRITE = 0x8060"
definition CTRL_INIT :: u64 where "CTRL_INIT = 0x8070"
definition CTRL_OPEN :: u64 where "CTRL_OPEN = 0x8080"
definition CTRL_READ :: u64 where "CTRL_READ = 0x8090"
definition CTRL_WRITE :: u64 where "CTRL_WRITE = 0x80A0"

lemmas vt_addrs = VT_OUTPUT_OPEN_def VT_OUTPUT_READ_def VT_OUTPUT_WRITE_def VT_INPUT_OPEN_def VT_INPUT_READ_def
  VT_INPUT_WRITE_def CTRL_INIT_def CTRL_OPEN_def CTRL_READ_def CTRL_WRITE_def

definition vt_drivers :: drivers where
  "vt_drivers = \<lparr>dv_init = (\<lambda>f s. if f = CTRL_INIT then Some (ctrl_init s) else None), dv_fini = (\<lambda>f s. None),
     dv_open = (\<lambda>f path s. if f = VT_OUTPUT_OPEN \<or> f = VT_INPUT_OPEN then Some (vt_open path s, s)
        else if f = CTRL_OPEN then Some (ctrl_open path s) else None),
     dv_read = (\<lambda>f h b n off s. if f = VT_OUTPUT_READ then Some (vt_output_read_cb h b n s)
        else if f = VT_INPUT_READ then vt_input_read_cb h b n s
        else if f = CTRL_READ then Some (ctrl_rw h b n off s) else None),
     dv_write = (\<lambda>f h b n off s. if f = VT_OUTPUT_WRITE then Some (vt_output_write_cb h b n s)
        else if f = VT_INPUT_WRITE then vt_input_write_cb h b n s
        else if f = CTRL_WRITE then Some (ctrl_rw h b n off s) else None)\<rparr>"

definition VERSION_NUM :: "u32 \<Rightarrow> u32 \<Rightarrow> u32 \<Rightarrow> u32 \<Rightarrow> u32" where
  "VERSION_NUM major minor patch build = push_bit 24 major OR push_bit 16 minor OR push_bit 8 patch OR build"

definition vt_module :: driver_module where
  "vt_module = \<lparr>dm_name = Some ''dev_vt'', dm_mount = Some ''/dev/vt/control'', dm_version = VERSION_NUM 0 1 0 0,
     dm_init = CTRL_INIT, dm_fini = 0, dm_open = CTRL_OPEN, dm_read = CTRL_READ, dm_write = CTRL_WRITE\<rparr>"

text \<open>The digits of a number: collected from the last one on, then turned around by swaps.\<close>

definition append_u64 :: "string \<Rightarrow> u64 \<Rightarrow> string" where
  "append_u64 s v =
    (let tmp = (if v = 0 then ''0'' else dec_rev (unat v)); len = length tmp
     in s @ fold (swap_step len) [0..<len div 2] tmp)"

definition SIZEOF_SLOT :: u64 where "SIZEOF_SLOT = 144"

definition make_vt_module :: "u64 \<Rightarrow> bool \<Rightarrow> fs \<Rightarrow> (u64 \<times> fs) option" where
  "make_vt_module k is_output s = do {
     (slot, s1) \<leftarrow> fs_alloc SIZEOF_SLOT s;
     if slot = 0 then Some (0, s1)
     else let d = \<lparr>dm_name = Some (append_u64 (if is_output then ''dev_vt_out_'' else ''dev_vt_in_'') k),
                   dm_mount = Some (append_u64 ''/dev/vt/'' k @ (if is_output then ''/output'' else ''/input'')),
                   dm_version = VERSION_NUM 0 1 0 0, dm_init = 0, dm_fini = 0,
                   dm_open = (if is_output then VT_OUTPUT_OPEN else VT_INPUT_OPEN),
                   dm_read = (if is_output then VT_OUTPUT_READ else VT_INPUT_READ),
                   dm_write = (if is_output then VT_OUTPUT_WRITE else VT_INPUT_WRITE)\<rparr>
          in Some (slot, s1\<lparr>mod_objs := (mod_objs s1)(slot \<mapsto> d)\<rparr>)
   }"

section \<open>Creating a terminal\<close>

definition register_if :: "drivers \<Rightarrow> u64 \<Rightarrow> fs \<Rightarrow> fs option" where
  "register_if drv m s = (if m = 0 then Some s else do { (_, t) \<leftarrow> module_register drv m s; Some t })"

definition vt_create :: "drivers \<Rightarrow> fs \<Rightarrow> (u64 \<times> fs) option" where
  "vt_create drv s =
    (let v0 = vt_subsystem_init (fs_vts s); s0 = s\<lparr>fs_vts := v0\<rparr>
     in case find (\<lambda>i. vt_state (vt_table v0 ! i) = VT_STATE_FREE) [0..<VT_MAX] of None \<Rightarrow> Some (-1, s0)
     | Some slot \<Rightarrow> do {
         let k = vt_id_counter v0;
         let v1 = (upd_vt slot (\<lambda>t. t\<lparr>vt_id := k, vt_state := VT_STATE_ACTIVE, vt_in := empty_ring (vt_in t),
                      vt_out := empty_ring (vt_out t)\<rparr>) v0)\<lparr>vt_id_counter := k + 1\<rparr>;
         (in_mod, s1) \<leftarrow> make_vt_module k False (s0\<lparr>fs_vts := v1\<rparr>);
         (out_mod, s2) \<leftarrow> make_vt_module k True s1;
         s3 \<leftarrow> register_if drv in_mod s2;
         s4 \<leftarrow> register_if drv out_mod s3;
         Some (k, if vt_focused (fs_vts s4) = -1
                  then s4\<lparr>fs_vts := (upd_vt slot (\<lambda>t. t\<lparr>vt_state := VT_STATE_FOCUSED\<rparr>) (fs_vts s4))\<lparr>vt_focused := k\<rparr>\<rparr>
                  else s4)
       })"

definition VT_CREATE :: u32 where "VT_CREATE = 0x5600"
definition VT_DESTROY :: u32 where "VT_DESTROY = 0x5601"
definition VT_FOCUS :: u32 where "VT_FOCUS = 0x5602"
definition VT_GETFOC :: u32 where "VT_GETFOC = 0x5603"

definition put_u64 :: "u64 \<Rightarrow> u64 \<Rightarrow> fs \<Rightarrow> fs" where
  "put_u64 a v s = s\<lparr>fs_mem := (fs_mem s)\<lparr>km_bytes := store64 (km_bytes (fs_mem s)) a v\<rparr>\<rparr>"

definition vt_ctrl_ioctl :: "drivers \<Rightarrow> u32 \<Rightarrow> u64 \<Rightarrow> fs \<Rightarrow> (int \<times> fs) option" where
  "vt_ctrl_ioctl drv request arg s =
    (if arg = 0 then Some (-1, s)
     else if request = VT_CREATE then do {
       (k, s1) \<leftarrow> vt_create drv s;
       Some (if k = -1 then (-1, s1) else (0, put_u64 arg k s1))
     }
     else if request = VT_DESTROY then Some (0, s\<lparr>fs_vts := vt_destroy (load64 (km_bytes (fs_mem s)) arg) (fs_vts s)\<rparr>)
     else if request = VT_FOCUS then Some (0, s\<lparr>fs_vts := vt_focus (load64 (km_bytes (fs_mem s)) arg) (fs_vts s)\<rparr>)
     else if request = VT_GETFOC then Some (0, put_u64 arg (vt_get_focused (fs_vts s)) s)
     else Some (-1, s))"

text \<open>
  A node of the device file system passes its own name, not its path, so the number is looked for behind two
  slashes that are not there: no terminal can be opened through its node.
\<close>

lemma id_from_path_few_slashes: "length (filter (\<lambda>c. c = CHR ''/'') path) + slash < 2 \<Longrightarrow> id_from_path_loop path slash = -1"
  by (induction path slash rule: id_from_path_loop.induct) auto

lemma vt_node_unopenable:
  assumes "length (filter (\<lambda>c. c = CHR ''/'') name) < 2" "vt_get (fs_vts s) (-1) = None"
  shows "vt_open name s = 0"
  using assms by (simp add: vt_open_def id_from_path_def id_from_path_few_slashes)

section \<open>The table of terminals\<close>

text \<open>
  Terminals in use have different numbers below the counter; one of them has the focus exactly when
  the number in \<open>vt_focused\<close> is its own, and that number is -1 when none has.
\<close>

definition in_use :: "vts \<Rightarrow> nat \<Rightarrow> bool" where
  "in_use v i \<longleftrightarrow> vt_state (vt_table v ! i) \<noteq> VT_STATE_FREE"

definition vts_ok :: "vts \<Rightarrow> bool" where
  "vts_ok v \<longleftrightarrow> length (vt_table v) = VT_MAX \<and> (vt_inited v \<longrightarrow>
     (\<forall>i<VT_MAX. in_use v i \<longrightarrow> vt_id (vt_table v ! i) < vt_id_counter v)
   \<and> (\<forall>i<VT_MAX. \<forall>j<VT_MAX. in_use v i \<longrightarrow> in_use v j \<longrightarrow> vt_id (vt_table v ! i) = vt_id (vt_table v ! j) \<longrightarrow> i = j)
   \<and> (\<forall>i<VT_MAX. vt_state (vt_table v ! i) = VT_STATE_FOCUSED \<longleftrightarrow> in_use v i \<and> vt_id (vt_table v ! i) = vt_focused v)
   \<and> (vt_focused v \<noteq> -1 \<longrightarrow> (\<exists>i<VT_MAX. in_use v i \<and> vt_id (vt_table v ! i) = vt_focused v)))"

lemma vt_get_Some:
  assumes "vt_get v k = Some i"
  shows "vt_inited v \<and> i < VT_MAX \<and> in_use v i \<and> vt_id (vt_table v ! i) = k"
  using assms by (auto simp: vt_get_def in_use_def find_Some_iff split: if_splits)

lemma vt_get_None:
  assumes "vt_get v k = None" "vt_inited v" "i < VT_MAX" "in_use v i"
  shows "vt_id (vt_table v ! i) \<noteq> k"
  using assms by (auto simp: vt_get_def in_use_def find_None_iff)

lemma upd_vt_nth: "i < length (vt_table v) \<Longrightarrow> vt_table (upd_vt j f v) ! i = (if i = j then f (vt_table v ! i) else vt_table v ! i)"
  by (auto simp: upd_vt_def nth_list_update)

lemma upd_vt_fields [simp]: "vt_id_counter (upd_vt i f v) = vt_id_counter v" "vt_focused (upd_vt i f v) = vt_focused v"
  "vt_inited (upd_vt i f v) = vt_inited v"
  by (simp_all add: upd_vt_def)

lemma vts_okD:
  assumes "vts_ok v" "vt_inited v"
  shows "length (vt_table v) = VT_MAX"
    "i < VT_MAX \<Longrightarrow> in_use v i \<Longrightarrow> vt_id (vt_table v ! i) < vt_id_counter v"
    "i < VT_MAX \<Longrightarrow> j < VT_MAX \<Longrightarrow> in_use v i \<Longrightarrow> in_use v j \<Longrightarrow> vt_id (vt_table v ! i) = vt_id (vt_table v ! j) \<Longrightarrow> i = j"
    "i < VT_MAX \<Longrightarrow> vt_state (vt_table v ! i) = VT_STATE_FOCUSED \<longleftrightarrow> in_use v i \<and> vt_id (vt_table v ! i) = vt_focused v"
    "vt_focused v \<noteq> -1 \<Longrightarrow> \<exists>i<VT_MAX. in_use v i \<and> vt_id (vt_table v ! i) = vt_focused v"
  using assms unfolding vts_ok_def by blast+

lemma vts_okI:
  assumes "length (vt_table v) = VT_MAX"
    "\<And>i. i < VT_MAX \<Longrightarrow> in_use v i \<Longrightarrow> vt_id (vt_table v ! i) < vt_id_counter v"
    "\<And>i j. i < VT_MAX \<Longrightarrow> j < VT_MAX \<Longrightarrow> in_use v i \<Longrightarrow> in_use v j \<Longrightarrow> vt_id (vt_table v ! i) = vt_id (vt_table v ! j) \<Longrightarrow> i = j"
    "\<And>i. i < VT_MAX \<Longrightarrow> vt_state (vt_table v ! i) = VT_STATE_FOCUSED \<longleftrightarrow> in_use v i \<and> vt_id (vt_table v ! i) = vt_focused v"
    "vt_focused v \<noteq> -1 \<Longrightarrow> \<exists>i<VT_MAX. in_use v i \<and> vt_id (vt_table v ! i) = vt_focused v"
  shows "vts_ok v"
  unfolding vts_ok_def by (intro conjI allI impI) (assumption | rule assms)+

lemma vt_destroy_ok:
  assumes "vts_ok v"
  shows "vts_ok (vt_destroy k v)"
proof (cases "vt_get v k")
  case None
  then show ?thesis using assms by (simp add: vt_destroy_def)
next
  case (Some i)
  note g = vt_get_Some [OF Some]
  note ok = vts_okD [OF assms g [THEN conjunct1]]
  let ?w = "vt_destroy k v"
  have tab: "vt_table ?w ! j = (if j = i then (vt_table v ! i)\<lparr>vt_state := VT_STATE_FREE\<rparr> else vt_table v ! j)" if "j < VT_MAX" for j
    using Some that ok(1) by (auto simp: vt_destroy_def upd_vt_def)
  have use: "in_use ?w j \<longleftrightarrow> j \<noteq> i \<and> in_use v j" if "j < VT_MAX" for j using tab [OF that] by (simp add: in_use_def)
  have w: "length (vt_table ?w) = VT_MAX" "vt_focused ?w = (if vt_focused v = k then -1 else vt_focused v)" "vt_id_counter ?w = vt_id_counter v"
    using Some ok(1) by (simp_all add: vt_destroy_def upd_vt_def)
  have nofocus: "vt_id (vt_table v ! j) \<noteq> -1" if "j < VT_MAX" "in_use v j" for j
    using ok(2) [OF that] word_order.extremum_strict by fastforce
  show ?thesis
  proof (rule vts_okI)
    fix j assume j: "j < VT_MAX"
    show "vt_state (vt_table ?w ! j) = VT_STATE_FOCUSED \<longleftrightarrow> in_use ?w j \<and> vt_id (vt_table ?w ! j) = vt_focused ?w"
    proof (cases "j = i")
      case True
      then show ?thesis using tab [OF j] use [OF j] by (simp add: vt_state_defs)
    next
      case False
      then have "\<not> (in_use v j \<and> vt_id (vt_table v ! j) = k)" using ok(3) [of j i] j g by auto
      then show ?thesis using False ok(4) [OF j] tab [OF j] use [OF j] w(2) nofocus [OF j] by auto
    qed
  next
    assume "vt_focused ?w \<noteq> -1"
    then have f: "vt_focused v \<noteq> -1" "vt_focused v \<noteq> k" "vt_focused ?w = vt_focused v" using w(2) by (auto split: if_splits)
    then obtain j where j: "j < VT_MAX" "in_use v j" "vt_id (vt_table v ! j) = vt_focused v" using ok(5) by blast
    then have "j \<noteq> i" using f(2) g by auto
    then show "\<exists>j<VT_MAX. in_use ?w j \<and> vt_id (vt_table ?w ! j) = vt_focused ?w"
      using j tab [OF j(1)] use [OF j(1)] f(3) by (intro exI [of _ j]) simp
  next
    fix j assume j: "j < VT_MAX" "in_use ?w j"
    then show "vt_id (vt_table ?w ! j) < vt_id_counter ?w" using ok(2) [of j] tab [of j] use [of j] w(3) by simp
  next
    fix j l assume "j < VT_MAX" "l < VT_MAX" "in_use ?w j" "in_use ?w l" "vt_id (vt_table ?w ! j) = vt_id (vt_table ?w ! l)"
    then show "j = l" using ok(3) [of j l] tab [of j] tab [of l] use [of j] use [of l] by simp
  qed (rule w(1))
qed

lemma no_focus_id:
  assumes "vts_ok v" "vt_inited v" "j < VT_MAX" "in_use v j"
  shows "vt_id (vt_table v ! j) \<noteq> -1"
  using vts_okD(2) [OF assms] word_order.extremum_strict by fastforce

text \<open>The same terminals with other states: at most the one that the focus is given to is \<open>FOCUSED\<close>.\<close>

lemma refocus_ok:
  assumes v: "vts_ok v" "vt_inited v"
    and w: "length (vt_table w) = VT_MAX" "vt_id_counter w = vt_id_counter v"
    and tab: "\<And>j. j < VT_MAX \<Longrightarrow> vt_id (vt_table w ! j) = vt_id (vt_table v ! j) \<and> in_use w j = in_use v j"
    and focus: "\<And>j. j < VT_MAX \<Longrightarrow> vt_state (vt_table w ! j) = VT_STATE_FOCUSED \<longleftrightarrow> f = Some j"
    and f: "case f of None \<Rightarrow> vt_focused w = -1 | Some i \<Rightarrow> i < VT_MAX \<and> in_use v i \<and> vt_focused w = vt_id (vt_table v ! i)"
  shows "vts_ok w"
proof (rule vts_okI)
  fix j assume j: "j < VT_MAX"
  show "vt_state (vt_table w ! j) = VT_STATE_FOCUSED \<longleftrightarrow> in_use w j \<and> vt_id (vt_table w ! j) = vt_focused w"
  proof (cases f)
    case None
    then show ?thesis using focus [OF j] tab [OF j] f no_focus_id [OF v j] by simp
  next
    case (Some i)
    then have "i < VT_MAX" "in_use v i" "vt_focused w = vt_id (vt_table v ! i)" using f by simp_all
    then show ?thesis using focus [OF j] tab [OF j] Some vts_okD(3) [OF v, of i j] j by auto
  qed
next
  assume "vt_focused w \<noteq> -1"
  then obtain i where "f = Some i" using f by (cases f) auto
  then show "\<exists>i<VT_MAX. in_use w i \<and> vt_id (vt_table w ! i) = vt_focused w" using f tab [of i] by (intro exI [of _ i]) simp
next
  fix j assume "j < VT_MAX" "in_use w j"
  then show "vt_id (vt_table w ! j) < vt_id_counter w" using vts_okD(2) [OF v, of j] tab [of j] w(2) by simp
next
  fix j l assume "j < VT_MAX" "l < VT_MAX" "in_use w j" "in_use w l" "vt_id (vt_table w ! j) = vt_id (vt_table w ! l)"
  then show "j = l" using vts_okD(3) [OF v, of j l] tab [of j] tab [of l] by simp
qed (rule w(1))

lemma vt_focus_ok:
  assumes ok: "vts_ok v"
  shows "vts_ok (vt_focus k v)"
proof (cases "vt_inited v")
  case False
  then have "vt_get u k = None" if "vt_inited u = vt_inited v" for u k using that by (simp add: vt_get_def)
  then have "vt_focus k v = v\<lparr>vt_focused := -1\<rparr>" by (simp add: vt_focus_def Let_def)
  then show ?thesis using ok False by (simp add: vts_ok_def)
next
  case init: True
  define s1 where "s1 = (if vt_focused v \<noteq> -1 then
                 (case vt_get v (vt_focused v) of None \<Rightarrow> v
                  | Some i \<Rightarrow> if vt_state (vt_table v ! i) = VT_STATE_FOCUSED
                              then upd_vt i (\<lambda>t. t\<lparr>vt_state := VT_STATE_ACTIVE\<rparr>) v else v)
               else v)"
  define s2 where "s2 = s1\<lparr>vt_focused := -1\<rparr>"
  note okD = vts_okD [OF ok init]
  have s1: "length (vt_table s1) = VT_MAX" "vt_id_counter s1 = vt_id_counter v" "vt_inited s1 = vt_inited v"
    using okD(1) by (auto simp: s1_def upd_vt_def split: option.splits)
  have tab: "vt_id (vt_table s1 ! j) = vt_id (vt_table v ! j) \<and> in_use s1 j = in_use v j
      \<and> vt_state (vt_table s1 ! j) \<noteq> VT_STATE_FOCUSED" if j: "j < VT_MAX" for j
  proof (cases "vt_state (vt_table v ! j) = VT_STATE_FOCUSED")
    case True
    then have u: "in_use v j" "vt_id (vt_table v ! j) = vt_focused v" using okD(4) [OF j] by simp_all
    then have "vt_focused v \<noteq> -1" using no_focus_id [OF ok init j] by simp
    moreover have "vt_get v (vt_focused v) = Some j"
    proof (cases "vt_get v (vt_focused v)")
      case None
      then show ?thesis using vt_get_None [OF None init j u(1)] u(2) by simp
    next
      case (Some i)
      then show ?thesis using vt_get_Some [OF Some] u okD(3) [of i j] j by auto
    qed
    ultimately show ?thesis using True j okD(1) by (simp add: s1_def upd_vt_nth in_use_def vt_state_defs)
  next
    case False
    then show ?thesis using j okD(1) by (auto simp: s1_def upd_vt_nth in_use_def vt_state_defs split: option.splits)
  qed
  have get: "vt_get s2 k = vt_get s1 k" by (simp add: s2_def vt_get_def)
  have eq: "vt_focus k v = (if k = -1 then s2 else case vt_get s2 k of None \<Rightarrow> s2
             | Some i \<Rightarrow> (upd_vt i (\<lambda>t. t\<lparr>vt_state := VT_STATE_FOCUSED\<rparr>) s2)\<lparr>vt_focused := k\<rparr>)"
    unfolding vt_focus_def s2_def s1_def Let_def by (rule refl)
  have none: "vts_ok s2"
    by (rule refocus_ok [OF ok init, of _ None]) (use s1 tab in \<open>simp_all add: s2_def in_use_def\<close>)
  show ?thesis
  proof (cases "k = -1 \<or> vt_get s2 k = None")
    case True
    then show ?thesis using none eq by auto
  next
    case False
    then obtain i where i: "vt_get s1 k = Some i" "k \<noteq> -1" using get by auto
    note g = vt_get_Some [OF i(1)]
    let ?w = "(upd_vt i (\<lambda>t. t\<lparr>vt_state := VT_STATE_FOCUSED\<rparr>) s2)\<lparr>vt_focused := k\<rparr>"
    have "vts_ok ?w"
    proof (rule refocus_ok [OF ok init, of ?w "Some i"])
      fix j assume j: "j < VT_MAX"
      show "vt_id (vt_table ?w ! j) = vt_id (vt_table v ! j) \<and> in_use ?w j = in_use v j"
        using tab [OF j] j s1(1) g by (auto simp: s2_def in_use_def upd_vt_nth vt_state_defs)
      show "vt_state (vt_table ?w ! j) = VT_STATE_FOCUSED \<longleftrightarrow> Some i = Some j"
        using tab [OF j] j s1(1) by (auto simp: s2_def upd_vt_nth)
    qed (use s1 g tab [of i] in \<open>simp_all add: s2_def upd_vt_def\<close>)
    then show ?thesis using False eq i get by simp
  qed
qed

text \<open>A new terminal: the table that \<open>vt_create\<close> leaves, \<open>None\<close> when there is no free slot.\<close>

definition new_terminal :: "vts \<Rightarrow> (nat \<times> vts) option" where
  "new_terminal v0 =
    (case find (\<lambda>i. vt_state (vt_table v0 ! i) = VT_STATE_FREE) [0..<VT_MAX] of None \<Rightarrow> None
     | Some slot \<Rightarrow> Some (slot, (upd_vt slot (\<lambda>t. t\<lparr>vt_id := vt_id_counter v0, vt_state := VT_STATE_ACTIVE,
          vt_in := empty_ring (vt_in t), vt_out := empty_ring (vt_out t)\<rparr>) v0)\<lparr>vt_id_counter := vt_id_counter v0 + 1\<rparr>))"

definition give_focus :: "nat \<Rightarrow> u64 \<Rightarrow> vts \<Rightarrow> vts" where
  "give_focus slot k v = (if vt_focused v = -1
     then (upd_vt slot (\<lambda>t. t\<lparr>vt_state := VT_STATE_FOCUSED\<rparr>) v)\<lparr>vt_focused := k\<rparr> else v)"

lemma new_terminal_ok:
  assumes ok: "vts_ok v" "vt_inited v" and n: "new_terminal v = Some (slot, w)" and c: "vt_id_counter v \<noteq> -1"
  shows "vts_ok w \<and> vts_ok (give_focus slot (vt_id_counter v) w)"
proof -
  note okD = vts_okD [OF ok]
  have s: "slot < VT_MAX" "\<not> in_use v slot"
    using n by (auto simp: new_terminal_def in_use_def find_Some_iff split: option.splits)
  have w: "w = (upd_vt slot (\<lambda>t. t\<lparr>vt_id := vt_id_counter v, vt_state := VT_STATE_ACTIVE,
          vt_in := empty_ring (vt_in t), vt_out := empty_ring (vt_out t)\<rparr>) v)\<lparr>vt_id_counter := vt_id_counter v + 1\<rparr>"
    using n by (auto simp: new_terminal_def split: option.splits)
  have "1 + vt_id_counter v \<noteq> 0" using c by (metis add.commute add_eq_0_iff2)
  then have lt: "vt_id_counter v < vt_id_counter v + 1" using unatSuc [of "vt_id_counter v"] by (simp add: word_less_nat_alt add.commute)
  have tab: "vt_table w ! j = (if j = slot then (vt_table v ! j)\<lparr>vt_id := vt_id_counter v, vt_state := VT_STATE_ACTIVE,
          vt_in := empty_ring (vt_in (vt_table v ! j)), vt_out := empty_ring (vt_out (vt_table v ! j))\<rparr> else vt_table v ! j)" if "j < VT_MAX" for j
    using that okD(1) by (simp add: w upd_vt_nth)
  have use: "in_use w j \<longleftrightarrow> j = slot \<or> in_use v j" if "j < VT_MAX" for j
    using tab [OF that] by (auto simp: in_use_def vt_state_defs)
  have wf: "length (vt_table w) = VT_MAX" "vt_focused w = vt_focused v" "vt_inited w" "vt_id_counter w = vt_id_counter v + 1"
    using okD(1) ok(2) by (simp_all add: w)
  have id: "vt_id (vt_table w ! slot) = vt_id_counter v" "vt_state (vt_table w ! slot) = VT_STATE_ACTIVE"
    using tab [OF s(1)] by simp_all
  have focus_old: "vt_focused v < vt_id_counter v" if "vt_focused v \<noteq> -1" using okD(5) [OF that] okD(2) by metis
  have "vts_ok w"
  proof (rule vts_okI)
    fix j assume j: "j < VT_MAX"
    show "vt_state (vt_table w ! j) = VT_STATE_FOCUSED \<longleftrightarrow> in_use w j \<and> vt_id (vt_table w ! j) = vt_focused w"
    proof (cases "j = slot")
      case True
      then show ?thesis using id wf(2) c focus_old by (cases "vt_focused v = -1") (auto simp: vt_state_defs)
    next
      case False
      then show ?thesis using okD(4) [OF j] tab [OF j] use [OF j] wf(2) by simp
    qed
  next
    assume "vt_focused w \<noteq> -1"
    then obtain i where i: "i < VT_MAX" "in_use v i" "vt_id (vt_table v ! i) = vt_focused v" using okD(5) wf(2) by auto
    then have "i \<noteq> slot" using s(2) by auto
    then show "\<exists>i<VT_MAX. in_use w i \<and> vt_id (vt_table w ! i) = vt_focused w" using i tab use wf(2) by (intro exI [of _ i]) simp
  next
    fix j assume j: "j < VT_MAX" "in_use w j"
    show "vt_id (vt_table w ! j) < vt_id_counter w"
      using okD(2) [OF j(1)] tab [OF j(1)] use [OF j(1)] j(2) lt wf(4) id(1) by (cases "j = slot") auto
  next
    fix j l assume *: "j < VT_MAX" "l < VT_MAX" "in_use w j" "in_use w l" "vt_id (vt_table w ! j) = vt_id (vt_table w ! l)"
    have old: "vt_id (vt_table v ! x) \<noteq> vt_id_counter v" if "x < VT_MAX" "in_use v x" for x using okD(2) [OF that] by auto
    show "j = l"
      using * okD(3) [OF *(1,2)] tab [OF *(1)] tab [OF *(2)] use [OF *(1)] use [OF *(2)] old [OF *(1)] old [OF *(2)]
      by (auto split: if_splits)
  qed (rule wf(1))
  moreover have "vts_ok (give_focus slot (vt_id_counter v) w)"
  proof (cases "vt_focused v = -1")
    case False
    then show ?thesis using calculation wf(2) by (simp add: give_focus_def)
  next
    case True
    let ?u = "give_focus slot (vt_id_counter v) w"
    have u: "?u = (upd_vt slot (\<lambda>t. t\<lparr>vt_state := VT_STATE_FOCUSED\<rparr>) w)\<lparr>vt_focused := vt_id_counter v\<rparr>"
      using True wf(2) by (simp add: give_focus_def)
    show ?thesis
    proof (rule refocus_ok [OF \<open>vts_ok w\<close> wf(3), of ?u "Some slot"])
      fix j assume j: "j < VT_MAX"
      show "vt_id (vt_table ?u ! j) = vt_id (vt_table w ! j) \<and> in_use ?u j = in_use w j"
        using j wf(1) id(2) unfolding u by (auto simp: in_use_def upd_vt_nth vt_state_defs)
      have "vt_state (vt_table w ! j) \<noteq> VT_STATE_FOCUSED"
        using tab [OF j] okD(4) [OF j] no_focus_id [OF ok j] True by (auto simp: vt_state_defs)
      then show "vt_state (vt_table ?u ! j) = VT_STATE_FOCUSED \<longleftrightarrow> Some slot = Some j"
        using j wf(1) unfolding u by (auto simp: upd_vt_nth)
    qed (use s id wf use [OF s(1)] in \<open>simp_all add: u\<close>)
  qed
  ultimately show ?thesis by blast
qed

section \<open>Creating a terminal and its drivers\<close>

definition no_init :: "fs \<Rightarrow> u64 \<Rightarrow> bool" where
  "no_init s m \<longleftrightarrow> (\<exists>d. mod_objs s m = Some d \<and> dm_init d = 0)"

lemma make_vt_spec:
  assumes "fs_heap lo hi live s"
  obtains m t live' where "make_vt_module k b s = Some (m, t)" "fs_heap lo hi live' t" "live \<subseteq> live'" "fs_vts t = fs_vts s"
    "m \<noteq> 0 \<longrightarrow> no_init t m" "\<forall>x. no_init s x \<longrightarrow> no_init t x"
proof -
  obtain a s1 where a: "fs_alloc SIZEOF_SLOT s = Some (a, s1)" "fs_heap lo hi (if a = 0 then live else insert a live) s1"
    "s1 = s\<lparr>fs_klime := fs_klime s1, fs_mem := fs_mem s1\<rparr>"
    using fs_alloc_spec [OF assms] by blast
  have s1: "fs_vts s1 = fs_vts s" "mod_objs s1 = mod_objs s" by (subst a(3), simp)+
  have hp: "fs_heap lo hi live' (s1\<lparr>mod_objs := x\<rparr>) = fs_heap lo hi live' s1" for live' x by (simp add: fs_heap_def)
  show ?thesis
  proof (cases "a = 0")
    case True
    then show ?thesis using a(1,2) s1 by (intro that [of 0 s1 live]) (simp_all add: make_vt_module_def no_init_def)
  next
    case False
    define d where "d = \<lparr>dm_name = Some (append_u64 (if b then ''dev_vt_out_'' else ''dev_vt_in_'') k),
                   dm_mount = Some (append_u64 ''/dev/vt/'' k @ (if b then ''/output'' else ''/input'')),
                   dm_version = VERSION_NUM 0 1 0 0, dm_init = 0, dm_fini = 0,
                   dm_open = (if b then VT_OUTPUT_OPEN else VT_INPUT_OPEN),
                   dm_read = (if b then VT_OUTPUT_READ else VT_INPUT_READ),
                   dm_write = (if b then VT_OUTPUT_WRITE else VT_INPUT_WRITE)\<rparr>"
    then have "make_vt_module k b s = Some (a, s1\<lparr>mod_objs := (mod_objs s1)(a \<mapsto> d)\<rparr>)"
      using a(1) False by (simp add: make_vt_module_def)
    moreover have "dm_init d = 0" by (simp add: d_def)
    ultimately show ?thesis using a(2) False s1 hp
      by (intro that [of a "s1\<lparr>mod_objs := (mod_objs s1)(a \<mapsto> d)\<rparr>" "insert a live"]) (auto simp: no_init_def)
  qed
qed

lemma register_if_spec:
  assumes "m \<noteq> 0 \<longrightarrow> no_init s m"
  obtains t where "register_if drv m s = Some t" "fs_vts t = fs_vts s" "mod_objs t = mod_objs s"
    "\<forall>lo hi live. fs_heap lo hi live t = fs_heap lo hi live s"
proof -
  have hp: "fs_heap lo hi live (s\<lparr>modules := x, module_count := y\<rparr>) = fs_heap lo hi live s" for lo hi live x y
    by (simp add: fs_heap_def)
  show ?thesis
  proof (cases "m = 0 \<or> module_count s \<ge> MAX_MODULES \<or> list_ex (\<lambda>i. modules s ! i = m) [0..<module_count s]")
    case True
    then show ?thesis by (intro that [of s]) (auto simp: register_if_def module_register_def)
  next
    case False
    then obtain d where "mod_objs s m = Some d" "dm_init d = 0" using assms by (auto simp: no_init_def)
    then show ?thesis using False hp
      by (intro that [of "s\<lparr>modules := (modules s)[module_count s := m], module_count := module_count s + 1\<rparr>"])
        (simp_all add: register_if_def module_register_def)
  qed
qed

lemma vt_create_spec:
  assumes heap: "fs_heap lo hi live s"
  defines "v0 \<equiv> vt_subsystem_init (fs_vts s)"
  shows "\<exists>k s' live'. vt_create drv s = Some (k, s') \<and> fs_heap lo hi live' s' \<and> live \<subseteq> live'
    \<and> (case new_terminal v0 of None \<Rightarrow> k = -1 \<and> fs_vts s' = v0
       | Some (slot, w) \<Rightarrow> k = vt_id_counter v0 \<and> fs_vts s' = give_focus slot k w)"
proof (cases "find (\<lambda>i. vt_state (vt_table v0 ! i) = VT_STATE_FREE) [0..<VT_MAX]")
  case None
  then have "vt_create drv s = Some (-1, s\<lparr>fs_vts := v0\<rparr>)" "new_terminal v0 = None"
    by (simp_all add: vt_create_def v0_def [symmetric] Let_def new_terminal_def)
  then show ?thesis using heap by (intro exI [of _ "-1"] exI [of _ "s\<lparr>fs_vts := v0\<rparr>"] exI [of _ live]) (simp add: fs_heap_def)
next
  case (Some slot)
  define k where "k = vt_id_counter v0"
  obtain w where w: "new_terminal v0 = Some (slot, w)" using Some by (simp add: new_terminal_def)
  have hw: "fs_heap lo hi live (s\<lparr>fs_vts := w\<rparr>)" using heap by (simp add: fs_heap_def)
  have vw: "fs_vts (s\<lparr>fs_vts := w\<rparr>) = w" by simp
  obtain m1 s1 live1 where
    1: "make_vt_module k False (s\<lparr>fs_vts := w\<rparr>) = Some (m1, s1)" "fs_heap lo hi live1 s1" "live \<subseteq> live1" "fs_vts s1 = w"
      "m1 \<noteq> 0 \<longrightarrow> no_init s1 m1" "\<forall>x. no_init (s\<lparr>fs_vts := w\<rparr>) x \<longrightarrow> no_init s1 x"
    by (rule make_vt_spec [OF hw, of k False, unfolded vw])
  obtain m2 s2 live2 where
    2: "make_vt_module k True s1 = Some (m2, s2)" "fs_heap lo hi live2 s2" "live1 \<subseteq> live2" "fs_vts s2 = fs_vts s1"
      "m2 \<noteq> 0 \<longrightarrow> no_init s2 m2" "\<forall>x. no_init s1 x \<longrightarrow> no_init s2 x"
    by (rule make_vt_spec [OF 1(2), of k True])
  have "m1 \<noteq> 0 \<longrightarrow> no_init s2 m1" using 1(5) 2(6) by blast
  then obtain s3 where
    3: "register_if drv m1 s2 = Some s3" "fs_vts s3 = fs_vts s2" "mod_objs s3 = mod_objs s2"
      "\<forall>lo hi live. fs_heap lo hi live s3 = fs_heap lo hi live s2" by (rule register_if_spec)
  have "m2 \<noteq> 0 \<longrightarrow> no_init s3 m2" using 2(5) 3(3) by (simp add: no_init_def)
  then obtain s4 where
    4: "register_if drv m2 s3 = Some s4" "fs_vts s4 = fs_vts s3" "mod_objs s4 = mod_objs s3"
      "\<forall>lo hi live. fs_heap lo hi live s4 = fs_heap lo hi live s3" by (rule register_if_spec)
  have s4: "fs_vts s4 = w" "fs_heap lo hi live2 s4" using 1(4) 2(2,4) 3(2,4) 4(2,4) by simp_all
  have "vt_create drv s = Some (k, if vt_focused (fs_vts s4) = -1
                  then s4\<lparr>fs_vts := (upd_vt slot (\<lambda>t. t\<lparr>vt_state := VT_STATE_FOCUSED\<rparr>) (fs_vts s4))\<lparr>vt_focused := k\<rparr>\<rparr>
                  else s4)"
    using Some 1(1) 2(1) 3(1) 4(1) w by (simp add: vt_create_def v0_def [symmetric] k_def Let_def new_terminal_def)
  moreover have "live \<subseteq> live2" using 1(3) 2(3) by blast
  ultimately show ?thesis using w s4
    by (intro exI [of _ k] exI [of _ "if vt_focused (fs_vts s4) = -1
                  then s4\<lparr>fs_vts := (upd_vt slot (\<lambda>t. t\<lparr>vt_state := VT_STATE_FOCUSED\<rparr>) (fs_vts s4))\<lparr>vt_focused := k\<rparr>\<rparr>
                  else s4"] exI [of _ live2]) (simp add: give_focus_def k_def fs_heap_def)
qed

lemma vt_init_ok:
  assumes "vts_ok v"
  shows "vts_ok (vt_subsystem_init v)" "vt_inited (vt_subsystem_init v)"
  using assms by (auto simp: vt_subsystem_init_def vts_ok_def in_use_def vt_state_defs)

section \<open>Properties\<close>

text \<open>
  Every request to \<^verbatim>\<open>/dev/vt/control\<close> returns and keeps the table of
  terminals consistent: the terminals in use have different numbers, and the one whose number is in \<open>vt_focused\<close>
  is the only one in the state \<open>FOCUSED\<close>. No block of the heap is lost.
\<close>

lemma vt_ioctl_keeps_focus:
  assumes "fs_heap lo hi live s" "vts_ok (fs_vts s)" "vt_id_counter (fs_vts s) \<noteq> -1"
  shows "\<exists>r s' live'. vt_ctrl_ioctl drv request arg s = Some (r, s') \<and> fs_heap lo hi live' s' \<and> live \<subseteq> live' \<and> vts_ok (fs_vts s')"
proof -
  have hv: "fs_heap lo hi live (s\<lparr>fs_vts := v\<rparr>)" for v using assms(1) by (simp add: fs_heap_def)
  have hp: "fs_heap lo hi l (put_u64 a v t) = fs_heap lo hi l t" "fs_vts (put_u64 a v t) = fs_vts t" for l a v t
    by (simp_all add: fs_heap_def put_u64_def)
  obtain k s1 live1 where c: "vt_create drv s = Some (k, s1)" "fs_heap lo hi live1 s1" "live \<subseteq> live1"
    "case new_terminal (vt_subsystem_init (fs_vts s)) of None \<Rightarrow> k = -1 \<and> fs_vts s1 = vt_subsystem_init (fs_vts s)
       | Some (slot, w) \<Rightarrow> k = vt_id_counter (vt_subsystem_init (fs_vts s)) \<and> fs_vts s1 = give_focus slot k w"
    using vt_create_spec [OF assms(1), of drv] by blast
  note init = vt_init_ok [OF assms(2)]
  have cnt: "vt_id_counter (vt_subsystem_init (fs_vts s)) \<noteq> -1" using assms(3) by (simp add: vt_subsystem_init_def)
  have "vts_ok (fs_vts s1)"
    using c(4) init(1) new_terminal_ok [OF init _ cnt] by (auto split: option.splits)
  then have create: "\<exists>r s' live'. (if k = -1 then (-1, s1) else (0, put_u64 arg k s1)) = (r, s') \<and> fs_heap lo hi live' s'
      \<and> live \<subseteq> live' \<and> vts_ok (fs_vts s')" using c(2,3) hp by auto
  consider "arg = 0" | "arg \<noteq> 0" "request = VT_CREATE" | "arg \<noteq> 0" "request = VT_DESTROY" | "arg \<noteq> 0" "request = VT_FOCUS"
    | "arg \<noteq> 0" "request = VT_GETFOC" | "arg \<noteq> 0" "request \<notin> {VT_CREATE, VT_DESTROY, VT_FOCUS, VT_GETFOC}" by blast
  then show ?thesis
  proof cases
    case 2
    then show ?thesis using c(1) create by (simp add: vt_ctrl_ioctl_def)
  next
    case 3
    then show ?thesis using vt_destroy_ok [OF assms(2)] hv by (auto simp: vt_ctrl_ioctl_def VT_CREATE_def VT_DESTROY_def)
  next
    case 4
    then show ?thesis using vt_focus_ok [OF assms(2)] hv by (auto simp: vt_ctrl_ioctl_def VT_CREATE_def VT_DESTROY_def VT_FOCUS_def)
  next
    case 5
    then show ?thesis using assms(1,2) hp
      by (auto simp: vt_ctrl_ioctl_def VT_CREATE_def VT_DESTROY_def VT_FOCUS_def VT_GETFOC_def intro!: exI [of _ live])
  qed (use assms(1,2) in \<open>auto simp: vt_ctrl_ioctl_def\<close>)
qed

lemma vt_ioctl_keeps_focus_witness:
  "\<exists>r s. vt_ctrl_ioctl vt_drivers VT_CREATE 0x5000 fs_ex = Some (r, s) \<and> vts_ok (fs_vts s)"
proof -
  have "fs_vts fs_ex = vts_ex" by (simp add: fs_ex_def)
  moreover have "vts_ok vts_ex"
    by (auto simp: vts_ok_def vts_ex_def VT_MAX_def in_use_def nth_Cons' vt_state_defs)
  ultimately show ?thesis using vt_ioctl_keeps_focus [OF fs_ex_heap_ok, of vt_drivers VT_CREATE "0x5000"]
    by (auto simp: vts_ex_def)
qed

end
