(* ===== verification/Elf.thy ===== *)
theory Elf
  imports Ulime MemLib
begin

text \<open>
  The ELF loader, \<^verbatim>\<open>emex/kernel/packages/elf/loader.c\<close>: the checks of the header, the range of the
  loadable segments, copying and zero-filling each of them into the heap of the process through the
  direct map, the new entry point and program break, and the second mapping of the heap at the addresses the
  program was linked for. Messages, and the first bytes of a segment that are printed, are left out. The bytes of a
  heap are in the memory \<open>m\<close>; the frames of page tables are those of \<open>Paging\<close>.
\<close>

section \<open>Headers\<close>

definition load16 :: "mem \<Rightarrow> u64 \<Rightarrow> u16" where
  "load16 m a = ucast (m a) OR push_bit 8 (ucast (m (a + 1)))"

definition load32 :: "mem \<Rightarrow> u64 \<Rightarrow> u32" where
  "load32 m a = ucast (load16 m a) OR push_bit 16 (ucast (load16 m (a + 2)))"

definition PT_LOAD :: u32 where "PT_LOAD = 1"
definition SIZEOF_EHDR :: u64 where "SIZEOF_EHDR = 64"
definition SIZEOF_PHDR :: u64 where "SIZEOF_PHDR = 56"

text \<open>The fields that the loader reads, at their offsets in the packed structures.\<close>

record elf_header =
  eh_magic :: "u8 list"
  eh_class :: u8
  eh_endian :: u8
  eh_machine :: u16
  eh_entry :: u64
  eh_phoff :: u64
  eh_phnum :: u16

record elf_program_header =
  ph_type :: u32
  ph_offset :: u64
  ph_vaddr :: u64
  ph_filesz :: u64
  ph_memsz :: u64

definition read_ehdr :: "mem \<Rightarrow> u64 \<Rightarrow> elf_header" where
  "read_ehdr m a = \<lparr>eh_magic = [m a, m (a + 1), m (a + 2), m (a + 3)], eh_class = m (a + 4), eh_endian = m (a + 5),
     eh_machine = load16 m (a + 18), eh_entry = load64 m (a + 24), eh_phoff = load64 m (a + 32), eh_phnum = load16 m (a + 56)\<rparr>"

definition read_phdr :: "mem \<Rightarrow> u64 \<Rightarrow> elf_program_header" where
  "read_phdr m a = \<lparr>ph_type = load32 m a, ph_offset = load64 m (a + 8), ph_vaddr = load64 m (a + 16),
     ph_filesz = load64 m (a + 32), ph_memsz = load64 m (a + 40)\<rparr>"

text \<open>Entry \<open>i\<close> of the table of program headers that starts at \<open>tab\<close>.\<close>

definition phdr_at :: "mem \<Rightarrow> u64 \<Rightarrow> nat \<Rightarrow> elf_program_header" where
  "phdr_at m tab i = read_phdr m (tab + word_of_nat i * SIZEOF_PHDR)"

definition elf_header_ok :: "elf_header \<Rightarrow> u64 \<Rightarrow> bool" where
  "elf_header_ok h sz \<longleftrightarrow> eh_magic h = [0x7F, 0x45, 0x4C, 0x46] \<and> eh_class h = 2 \<and> eh_endian h = 1
     \<and> eh_machine h = 0x3E \<and> \<not> eh_phoff h + ucast (eh_phnum h) * SIZEOF_PHDR > sz"

section \<open>Segments\<close>

text \<open>The lowest address and the highest end of a loadable segment.\<close>

definition vaddr_step :: "elf_program_header \<Rightarrow> u64 \<times> u64 \<Rightarrow> u64 \<times> u64" where
  "vaddr_step h r = (case r of (lo, hi) \<Rightarrow>
     if ph_type h \<noteq> PT_LOAD then (lo, hi)
     else (if ph_vaddr h < lo then ph_vaddr h else lo,
           let e = ph_vaddr h + ph_memsz h in if e > hi then e else hi))"

definition vaddr_range :: "mem \<Rightarrow> u64 \<Rightarrow> nat \<Rightarrow> u64 \<times> u64" where
  "vaddr_range m tab n = fold (\<lambda>i. vaddr_step (phdr_at m tab i)) [0..<n] (-1, 0)"

text \<open>One segment; \<open>None\<close> when it does not fit and the loader gives up.\<close>

definition load_segment :: "u64 \<Rightarrow> ulime_proc \<Rightarrow> u64 \<Rightarrow> u64 \<Rightarrow> u64 \<Rightarrow> elf_program_header \<Rightarrow> mem \<Rightarrow> mem option" where
  "load_segment hhdm p elf sz load_offset h m =
    (let vaddr = ph_vaddr h + load_offset
     in if vaddr < p_heap_base p \<or> vaddr + ph_memsz h > p_heap_base p + p_heap_size p then None
        else if ph_offset h + ph_filesz h > sz then None
        else let dest = p_phys_heap p + (vaddr - p_heap_base p) + hhdm;
                 m1 = (if ph_filesz h > 0 then memcpy m dest (elf + ph_offset h) (ph_filesz h) else m)
             in Some (if ph_memsz h > ph_filesz h then memset m1 (dest + ph_filesz h) 0 (ph_memsz h - ph_filesz h) else m1))"

text \<open>
  The loop over the segments reads each header from the memory of that moment; \<open>True\<close> when all were
  loaded. The number of headers is read once here: the buffer with the file is not part of any heap.
\<close>

fun load_segments :: "u64 \<Rightarrow> ulime_proc \<Rightarrow> u64 \<Rightarrow> u64 \<Rightarrow> u64 \<Rightarrow> u64 \<Rightarrow> nat list \<Rightarrow> mem \<Rightarrow> bool \<times> mem" where
  "load_segments hhdm p elf sz load_offset tab [] m = (True, m)"
| "load_segments hhdm p elf sz load_offset tab (i # is) m =
    (let h = phdr_at m tab i
     in if ph_type h \<noteq> PT_LOAD then load_segments hhdm p elf sz load_offset tab is m
        else case load_segment hhdm p elf sz load_offset h m of
               None \<Rightarrow> (False, m) | Some m' \<Rightarrow> load_segments hhdm p elf sz load_offset tab is m')"

section \<open>Loading\<close>

definition elf_load :: "u64 \<Rightarrow> u64 \<Rightarrow> u64 \<Rightarrow> mem \<Rightarrow> ulime \<Rightarrow> (int \<times> mem \<times> ulime) outcome" where
  "elf_load proc elf sz m u =
    (if proc = 0 \<or> elf = 0 \<or> sz < SIZEOF_EHDR then Inr (-1, m, u)
     else let ehdr = read_ehdr m elf
     in if \<not> elf_header_ok ehdr sz then Inr (-1, m, u)
     else let p = procs u proc; tab = elf + eh_phoff ehdr; n = unat (eh_phnum ehdr);
              (min_vaddr, max_vaddr) = vaddr_range m tab n
     in if min_vaddr = -1 then Inr (-1, m, u)
     else let load_offset = p_heap_base p - min_vaddr;
              u1 = upd_proc proc (\<lambda>r. r\<lparr>p_vma_base := min_vaddr\<rparr>) u;
              (ok, m1) = load_segments (g_hhdm_offset (ul_pg u)) p elf sz load_offset tab [0..<n] m
     in if \<not> ok then Inr (-1, m1, u1)
     else let u2 = upd_proc proc (\<lambda>r. r\<lparr>p_entry_point := eh_entry (read_ehdr m1 elf) + load_offset, p_state := PROC_READY,
                     p_brk := page_up (p_heap_base p + (max_vaddr - min_vaddr))\<rparr>) u1
     in if load_offset = 0 then Inr (0, m1, u2)
        else obind (map_pages (p_pml4_phys p) min_vaddr (p_phys_heap p) (page_up (max_vaddr - min_vaddr) div PAGE_SIZE)
               (PTE_PRESENT OR PTE_WRITABLE OR PTE_USER) (ul_pg u2)) (\<lambda>pg. Inr (0, m1, u2\<lparr>ul_pg := pg\<rparr>)))"

section \<open>The image of a program\<close>

text \<open>
  Where a segment goes in a heap whose bytes start at \<open>d\<close>, and the memory once all segments are there: their bytes
  from the file, zeros behind them, and everything else as it was.
\<close>

definition seg_off :: "u64 \<Rightarrow> elf_program_header \<Rightarrow> nat" where
  "seg_off lo h = unat (ph_vaddr h - lo)"

definition seg_dest :: "u64 \<Rightarrow> u64 \<Rightarrow> elf_program_header \<Rightarrow> u64" where
  "seg_dest d lo h = d + word_of_nat (seg_off lo h)"

definition elf_image :: "mem \<Rightarrow> u64 \<Rightarrow> u64 \<Rightarrow> u64 \<Rightarrow> elf_program_header list \<Rightarrow> mem" where
  "elf_image m elf d lo segs a =
    (case find (\<lambda>h. span (seg_dest d lo h) (unat (ph_memsz h)) a) segs of
       None \<Rightarrow> m a
     | Some h \<Rightarrow> if span (seg_dest d lo h) (unat (ph_filesz h)) a then m (elf + ph_offset h + (a - seg_dest d lo h)) else 0)"

text \<open>The loadable segments of a file, and what makes them fit: ascending, inside the heap and the file, and aligned.\<close>

definition elf_segments :: "mem \<Rightarrow> u64 \<Rightarrow> nat list \<Rightarrow> elf_program_header list" where
  "elf_segments m tab is = filter (\<lambda>h. ph_type h = PT_LOAD) (map (phdr_at m tab) is)"

definition seg_ok :: "nat \<Rightarrow> u64 \<Rightarrow> u64 \<Rightarrow> elf_program_header \<Rightarrow> bool" where
  "seg_ok heap sz lo h \<longleftrightarrow> lo \<le> ph_vaddr h \<and> seg_off lo h + unat (ph_memsz h) \<le> heap
     \<and> unat (ph_vaddr h) + unat (ph_memsz h) < 2 ^ 64 \<and> ph_filesz h \<le> ph_memsz h
     \<and> unat (ph_offset h) + unat (ph_filesz h) \<le> unat sz \<and> seg_off lo h mod 8 = 0"

definition segs_ok :: "nat \<Rightarrow> u64 \<Rightarrow> u64 \<Rightarrow> elf_program_header list \<Rightarrow> bool" where
  "segs_ok heap sz lo segs \<longleftrightarrow> (\<forall>h\<in>set segs. seg_ok heap sz lo h)
     \<and> sorted_wrt (\<lambda>g h. seg_off lo g + unat (ph_memsz g) \<le> seg_off lo h) segs"

text \<open>The heap of \<open>p\<close>, seen at \<open>d\<close>, and the buffer with the file lie apart.\<close>

definition heap_apart :: "u64 \<Rightarrow> ulime_proc \<Rightarrow> u64 \<Rightarrow> u64 \<Rightarrow> bool" where
  "heap_apart d p elf sz \<longleftrightarrow> unat d mod 8 = 0 \<and> unat (p_heap_base p) + unat (p_heap_size p) < 2 ^ 64
     \<and> unat d + unat (p_heap_size p) + 7 \<le> 2 ^ 64 \<and> unat elf + unat sz + 7 \<le> 2 ^ 64
     \<and> (unat d + unat (p_heap_size p) + 7 \<le> unat elf \<or> unat elf + unat sz + 7 \<le> unat d)"

lemma load_segment_image:
  assumes "heap_apart d p elf sz" "seg_ok (unat (p_heap_size p)) sz lo h" "d = p_phys_heap p + hhdm"
  shows "load_segment hhdm p elf sz (p_heap_base p - lo) h m = Some (elf_image m elf d lo [h])"
proof -
  let ?o = "seg_off lo h" and ?f = "unat (ph_filesz h)" and ?n = "unat (ph_memsz h)"
  let ?vaddr = "ph_vaddr h + (p_heap_base p - lo)" and ?dest = "seg_dest d lo h"
  have o: "?o + ?n \<le> unat (p_heap_size p)" "?f \<le> ?n" "unat (ph_offset h) + ?f \<le> unat sz" "?o mod 8 = 0"
    using assms(2) by (simp_all add: seg_ok_def word_le_nat_alt)
  have hb: "unat (p_heap_base p) + unat (p_heap_size p) < 2 ^ 64" "unat d + unat (p_heap_size p) + 7 \<le> 2 ^ 64"
    "unat elf + unat sz + 7 \<le> 2 ^ 64" "unat d mod 8 = 0"
    using assms(1) by (simp_all add: heap_apart_def)
  have v: "?vaddr = p_heap_base p + word_of_nat ?o" by (simp add: seg_off_def)
  have uv: "unat ?vaddr = unat (p_heap_base p) + ?o" using o hb unfolding v by (simp add: unat_word_ariths unat_of_nat)
  have ud: "unat ?dest = unat d + ?o" using o hb by (simp add: seg_dest_def unat_word_ariths unat_of_nat)
  have us: "unat (elf + ph_offset h) = unat elf + unat (ph_offset h)" using o hb by (simp add: unat_word_ariths)
  have dest: "p_phys_heap p + (?vaddr - p_heap_base p) + hhdm = ?dest"
    unfolding v using assms(3) by (simp add: seg_dest_def)
  have c1: "\<not> ?vaddr < p_heap_base p" using uv by (simp add: word_less_nat_alt)
  have "unat (?vaddr + ph_memsz h) = unat ?vaddr + ?n" using uv o hb by (intro unat_add_no_wrap64) simp
  moreover have "unat (p_heap_base p + p_heap_size p) = unat (p_heap_base p) + unat (p_heap_size p)"
    using hb by (intro unat_add_no_wrap64) simp
  ultimately have c2: "\<not> ?vaddr + ph_memsz h > p_heap_base p + p_heap_size p"
    using uv o by (simp add: word_less_nat_alt)
  have "unat (ph_offset h + ph_filesz h) = unat (ph_offset h) + ?f"
    using o unat_lt_2p64 [of sz] by (intro unat_add_no_wrap64) (simp del: unat_lt_2p64)
  then have c3: "\<not> ph_offset h + ph_filesz h > sz" using o by (simp add: word_less_nat_alt)
  have ap: "apart ?dest (elf + ph_offset h) (?f + 7)"
    using assms(1) o ud us by (auto simp: apart_def heap_apart_def)
  have al: "memcpy_len ?dest ?f = ?f" using o hb ud by (simp add: memcpy_len_def mod_add_eq [symmetric])
  define m1 where "m1 = (if ph_filesz h > 0 then memcpy m ?dest (elf + ph_offset h) (ph_filesz h) else m)"
  have m1: "m1 = blit m ?dest (elf + ph_offset h) ?f"
    using memcpy_eq [OF ap, of m] al by (simp add: m1_def word_gt_0)
  have "(if ph_memsz h > ph_filesz h then memset m1 (?dest + ph_filesz h) 0 (ph_memsz h - ph_filesz h) else m1) =
      elf_image m elf d lo [h]"
  proof (cases "ph_memsz h > ph_filesz h")
    case True
    then have k: "unat (ph_memsz h - ph_filesz h) = ?n - ?f" "0 < ?n - ?f" "?f + (?n - ?f) = ?n"
      by (simp_all add: unat_sub word_less_nat_alt word_le_nat_alt)
    have "span ?dest ?n a \<longleftrightarrow> span ?dest ?f a \<or> span (?dest + ph_filesz h) (?n - ?f) a" for a
      using span_add [of ?f "?n - ?f" ?dest a] k by simp
    moreover have "\<not> span (?dest + ph_filesz h) (?n - ?f) a" if "span ?dest ?f a" for a
      using that k(3) unat_sub_of_nat [of ?f "a - ?dest"] unat_lt_2p64 [of "ph_memsz h"] unat_lt_2p64 [of "ph_filesz h"]
      by (auto simp: span_def diff_diff_eq [symmetric] simp del: unat_lt_2p64)
    ultimately show ?thesis using True by (auto simp: memset_eq m1 fill_span_def blit_def elf_image_def k(1))
  next
    case False
    then have "?f = ?n" using o(2) by (simp add: word_less_nat_alt)
    then show ?thesis using False by (auto simp: m1 blit_def elf_image_def)
  qed
  then show ?thesis using c1 c2 c3 unfolding load_segment_def dest Let_def m1_def by simp
qed

text \<open>A segment changes nothing outside the heap, so the file stays as it is and the later headers are read unchanged.\<close>

lemma image_file:
  assumes "heap_apart d p elf sz" "\<forall>h\<in>set segs. seg_ok (unat (p_heap_size p)) sz lo h" "i < unat sz"
  shows "elf_image m elf d lo segs (elf + word_of_nat i) = m (elf + word_of_nat i)"
proof -
  have "\<not> span (seg_dest d lo h) (unat (ph_memsz h)) (elf + word_of_nat i)" if "h \<in> set segs" for h
  proof -
    have h: "seg_off lo h + unat (ph_memsz h) \<le> unat (p_heap_size p)" using assms(2) that by (simp add: seg_ok_def)
    then have ud: "unat (seg_dest d lo h) = unat d + seg_off lo h"
      using assms(1) by (simp add: seg_dest_def heap_apart_def unat_word_ariths unat_of_nat)
    from assms(1) consider "unat d + unat (p_heap_size p) + 7 \<le> unat elf" | "unat elf + unat sz + 7 \<le> unat d"
      by (auto simp: heap_apart_def)
    then show ?thesis
    proof cases
      case 1
      then show ?thesis using assms(1,3) h ud by (intro not_span_above) (auto simp: heap_apart_def)
    next
      case 2
      then show ?thesis using assms(1,3) h ud by (intro not_span_below) (auto simp: heap_apart_def)
    qed
  qed
  then have "find (\<lambda>h. span (seg_dest d lo h) (unat (ph_memsz h)) (elf + word_of_nat i)) segs = None"
    by (simp add: find_None_iff)
  then show ?thesis by (simp add: elf_image_def)
qed

lemma read_phdr_cong:
  assumes "\<forall>i<56. m' (a + word_of_nat i) = m (a + word_of_nat i)"
  shows "read_phdr m' a = read_phdr m a"
proof -
  have "m' (a + numeral n) = m (a + numeral n)" if "numeral n < (56 :: nat)" for n
    using assms that by (metis of_nat_numeral)
  moreover have "m' a = m a" "m' (a + 1) = m (a + 1)" using assms [rule_format, of 0] assms [rule_format, of 1] by simp_all
  ultimately show ?thesis by (simp add: read_phdr_def load32_def load16_def load64_def upt_rec add.assoc)
qed

text \<open>The table of program headers lies in the file.\<close>

definition table_in :: "u64 \<Rightarrow> u64 \<Rightarrow> u64 \<Rightarrow> nat \<Rightarrow> bool" where
  "table_in elf sz tab n \<longleftrightarrow> (\<exists>off. tab = elf + word_of_nat off \<and> off + 56 * n \<le> unat sz)"

lemma phdr_in_file:
  assumes "table_in elf sz tab n" "i < n" "\<forall>j<unat sz. m' (elf + word_of_nat j) = m (elf + word_of_nat j)"
  shows "phdr_at m' tab i = phdr_at m tab i"
proof -
  obtain off where off: "tab = elf + word_of_nat off" "off + 56 * n \<le> unat sz" using assms(1) by (auto simp: table_in_def)
  have e: "tab + word_of_nat i * SIZEOF_PHDR + word_of_nat k = elf + word_of_nat (off + 56 * i + k)" for k
    by (simp add: off(1) SIZEOF_PHDR_def)
  have "m' (tab + word_of_nat i * SIZEOF_PHDR + word_of_nat k) = m (tab + word_of_nat i * SIZEOF_PHDR + word_of_nat k)" if "k < 56" for k
    unfolding e using that assms(2) off(2) by (intro assms(3) [rule_format]) linarith
  then show ?thesis unfolding phdr_at_def by (intro read_phdr_cong) simp
qed

lemma segs_ok_Cons:
  "segs_ok heap sz lo (h # segs) \<longleftrightarrow> seg_ok heap sz lo h \<and> segs_ok heap sz lo segs
     \<and> (\<forall>g\<in>set segs. seg_off lo h + unat (ph_memsz h) \<le> seg_off lo g)"
  by (auto simp: segs_ok_def)

lemma image_Cons:
  assumes "heap_apart d p elf sz" "segs_ok (unat (p_heap_size p)) sz lo (h # segs)"
  shows "elf_image (elf_image m elf d lo [h]) elf d lo segs = elf_image m elf d lo (h # segs)"
proof
  fix a
  have ok: "\<forall>g\<in>set (h # segs). seg_ok (unat (p_heap_size p)) sz lo g" using assms(2) by (simp add: segs_ok_def)
  have keep: "elf_image m elf d lo [h] (elf + ph_offset g + (a - seg_dest d lo g)) = m (elf + ph_offset g + (a - seg_dest d lo g))"
    if "g \<in> set segs" "span (seg_dest d lo g) (unat (ph_filesz g)) a" for g
  proof -
    let ?i = "unat (ph_offset g) + unat (a - seg_dest d lo g)"
    have "?i < unat sz" using ok that by (auto simp: seg_ok_def span_def)
    from image_file [OF assms(1) _ this, of "[h]" lo m] ok show ?thesis by (simp add: add.assoc)
  qed
  have apart: False if "g \<in> set segs" "span (seg_dest d lo g) (unat (ph_memsz g)) a" "span (seg_dest d lo h) (unat (ph_memsz h)) a" for g
  proof -
    have u: "unat (a - seg_dest d lo f) + seg_off lo f = unat (a - d)"
      if "span (seg_dest d lo f) (unat (ph_memsz f)) a" "f \<in> set (h # segs)" for f
    proof -
      have b: "seg_off lo f + unat (ph_memsz f) < 2 ^ 64"
        using ok that(2) assms(1) unat_lt_2p64 [of "p_heap_size p"] by (auto simp: seg_ok_def simp del: unat_lt_2p64)
      have "a - d = (a - seg_dest d lo f) + word_of_nat (seg_off lo f)" by (simp add: seg_dest_def)
      then have "unat (a - d) = unat ((a - seg_dest d lo f) + word_of_nat (seg_off lo f))" by (rule arg_cong)
      then show ?thesis using that(1) b by (simp add: span_def unat_word_ariths unat_of_nat)
    qed
    have "seg_off lo h + unat (ph_memsz h) \<le> seg_off lo g" using assms(2) that(1) by (simp add: segs_ok_Cons)
    then show False using u [OF that(2)] u [OF that(3)] that by (simp add: span_def)
  qed
  show "elf_image (elf_image m elf d lo [h]) elf d lo segs a = elf_image m elf d lo (h # segs) a"
  proof (cases "find (\<lambda>g. span (seg_dest d lo g) (unat (ph_memsz g)) a) segs")
    case None
    then show ?thesis by (simp add: elf_image_def)
  next
    case (Some g)
    then have g: "g \<in> set segs" "span (seg_dest d lo g) (unat (ph_memsz g)) a" by (auto simp: find_Some_iff)
    then have "\<not> span (seg_dest d lo h) (unat (ph_memsz h)) a" using apart by blast
    then show ?thesis using Some keep [OF g(1)] by (simp add: elf_image_def)
  qed
qed

lemma load_segments_image:
  assumes "heap_apart d p elf sz" "d = p_phys_heap p + hhdm" "table_in elf sz tab n" "\<forall>i\<in>set is. i < n"
    and "segs_ok (unat (p_heap_size p)) sz lo (elf_segments m tab is)"
  shows "load_segments hhdm p elf sz (p_heap_base p - lo) tab is m = (True, elf_image m elf d lo (elf_segments m tab is))"
  using assms(4,5)
proof (induction "is" arbitrary: m)
  case Nil
  then show ?case by (simp add: elf_segments_def elf_image_def)
next
  case (Cons i "is")
  let ?h = "phdr_at m tab i"
  show ?case
  proof (cases "ph_type ?h = PT_LOAD")
    case False
    then show ?thesis using Cons by (simp add: elf_segments_def Let_def)
  next
    case True
    then have s: "elf_segments m tab (i # is) = ?h # elf_segments m tab is" by (simp add: elf_segments_def)
    then have ok: "seg_ok (unat (p_heap_size p)) sz lo ?h" "segs_ok (unat (p_heap_size p)) sz lo (elf_segments m tab is)"
      using Cons.prems(2) by (simp_all add: segs_ok_Cons)
    let ?m = "elf_image m elf d lo [?h]"
    have "\<forall>j<unat sz. ?m (elf + word_of_nat j) = m (elf + word_of_nat j)" using image_file [OF assms(1)] ok(1) by simp
    then have "map (phdr_at ?m tab) is = map (phdr_at m tab) is"
      using Cons.prems(1) by (intro map_cong refl phdr_in_file [OF assms(3)]) auto
    then have "elf_segments ?m tab is = elf_segments m tab is" unfolding elf_segments_def by (rule arg_cong)
    then show ?thesis
      using True load_segment_image [OF assms(1) ok(1) assms(2), of m] Cons.IH [of ?m] Cons.prems ok(2)
        image_Cons [OF assms(1), of lo ?h "elf_segments m tab is" m] by (simp add: s Let_def)
  qed
qed

text \<open>The range of ascending segments goes from the first to the end of the last.\<close>

definition seg_end :: "elf_program_header \<Rightarrow> u64" where
  "seg_end h = ph_vaddr h + ph_memsz h"

lemma vaddr_range_segments: "vaddr_range m tab n = fold vaddr_step (elf_segments m tab [0..<n]) (-1, 0)"
proof -
  have "fold (\<lambda>i. vaddr_step (phdr_at m tab i)) is r = fold vaddr_step (elf_segments m tab is) r" for "is" r
    by (induction "is" arbitrary: r) (auto simp: elf_segments_def vaddr_step_def split: prod.splits)
  then show ?thesis by (simp add: vaddr_range_def)
qed

lemma fold_vaddr_step:
  assumes "segs \<noteq> []" "\<forall>h\<in>set segs. ph_type h = PT_LOAD" "segs_ok heap sz (ph_vaddr (hd segs)) segs" "ph_vaddr (hd segs) \<noteq> -1"
  shows "fold vaddr_step segs (-1, 0) = (ph_vaddr (hd segs), seg_end (last segs))"
  using assms
proof (induction segs rule: rev_induct)
  case (snoc t segs)
  let ?lo = "ph_vaddr (hd (segs @ [t]))"
  have t: "ph_type t = PT_LOAD" "?lo \<le> ph_vaddr t" "unat (ph_vaddr t) + unat (ph_memsz t) < 2 ^ 64"
    using snoc.prems by (auto simp: segs_ok_def seg_ok_def)
  then have et: "unat (seg_end t) = unat (ph_vaddr t) + unat (ph_memsz t)" by (simp add: seg_end_def unat_add_no_wrap64)
  show ?case
  proof (cases "segs = []")
    case True
    then have "ph_vaddr t < -1" using snoc.prems(4) word_order.not_eq_extremum by fastforce
    then show ?thesis using True t(1) by (auto simp: vaddr_step_def Let_def seg_end_def word_gt_0)
  next
    case False
    then have IH: "fold vaddr_step segs (-1, 0) = (?lo, seg_end (last segs))"
      using snoc by (simp add: segs_ok_def sorted_wrt_append)
    have l: "last segs \<in> set segs" using False by simp
    then have o: "seg_off ?lo (last segs) + unat (ph_memsz (last segs)) \<le> seg_off ?lo t"
      "?lo \<le> ph_vaddr (last segs)" "unat (ph_vaddr (last segs)) + unat (ph_memsz (last segs)) < 2 ^ 64"
      using snoc.prems(3) by (auto simp: segs_ok_def sorted_wrt_append seg_ok_def)
    have "unat (seg_end (last segs)) = unat (ph_vaddr (last segs)) + unat (ph_memsz (last segs))"
      using o(3) by (simp add: seg_end_def unat_add_no_wrap64)
    also have "\<dots> \<le> unat (ph_vaddr t)" using o(1,2) t(2) by (simp add: seg_off_def unat_sub word_le_nat_alt)
    finally have le: "seg_end (last segs) \<le> seg_end t" using et by (simp add: word_le_nat_alt)
    have "vaddr_step t (?lo, seg_end (last segs)) = (?lo, seg_end t)"
      using t(1,2) le by (auto simp: vaddr_step_def Let_def seg_end_def)
    then show ?thesis using IH by simp
  qed
qed simp

lemma entry_in_file:
  assumes "64 \<le> unat sz" "\<forall>j<unat sz. m' (elf + word_of_nat j) = m (elf + word_of_nat j)"
  shows "eh_entry (read_ehdr m' elf) = eh_entry (read_ehdr m elf)"
proof -
  have "m' (elf + numeral n) = m (elf + numeral n)" if "numeral n < (64 :: nat)" for n
    using assms that by (metis of_nat_numeral order.strict_trans2)
  then show ?thesis by (simp add: read_ehdr_def load64_def upt_rec add.assoc)
qed

section \<open>Loading a file\<close>

text \<open>
  A file that the loader takes: a good header whose table lies in the file, ascending segments that fit the heap of the
  process, and enough free frames for the tables of the second mapping.
\<close>

definition elf_table :: "mem \<Rightarrow> u64 \<Rightarrow> elf_program_header list" where
  "elf_table m elf = (let h = read_ehdr m elf in elf_segments m (elf + eh_phoff h) [0..<unat (eh_phnum h)])"

definition elf_bytes :: "elf_program_header list \<Rightarrow> u64" where
  "elf_bytes segs = seg_end (last segs) - ph_vaddr (hd segs)"

definition elf_pages :: "elf_program_header list \<Rightarrow> nat" where
  "elf_pages segs = unat (page_up (elf_bytes segs) div PAGE_SIZE)"

definition elf_ready :: "u64 \<Rightarrow> u64 \<Rightarrow> u64 \<Rightarrow> mem \<Rightarrow> ulime \<Rightarrow> bool" where
  "elf_ready proc elf sz m u \<longleftrightarrow>
    (let h = read_ehdr m elf; p = procs u proc; segs = elf_table m elf
     in proc \<noteq> 0 \<and> elf \<noteq> 0 \<and> 64 \<le> unat sz \<and> elf_header_ok h sz \<and> unat (eh_phoff h) + 56 * unat (eh_phnum h) \<le> unat sz
      \<and> segs \<noteq> [] \<and> segs_ok (unat (p_heap_size p)) sz (ph_vaddr (hd segs)) segs \<and> ph_vaddr (hd segs) \<noteq> -1
      \<and> heap_apart (p_phys_heap p + g_hhdm_offset (ul_pg u)) p elf sz
      \<and> unat (p_heap_size p) \<le> 2 ^ 40 \<and> pt_ok (ul_pg u) (p_pml4_phys p) \<and> 3 * elf_pages segs \<le> spare (pg_pm (ul_pg u)))"

lemma elf_load_spec:
  assumes "elf_ready proc elf sz m u"
  defines "p \<equiv> procs u proc" and "segs \<equiv> elf_table m elf"
  defines "lo \<equiv> ph_vaddr (hd segs)"
  defines "u2 \<equiv> upd_proc proc (\<lambda>r. r\<lparr>p_vma_base := lo, p_entry_point := eh_entry (read_ehdr m elf) + (p_heap_base p - lo),
      p_state := PROC_READY, p_brk := page_up (p_heap_base p + elf_bytes segs)\<rparr>) u"
  shows "elf_load proc elf sz m u =
    (let m' = elf_image m elf (p_phys_heap p + g_hhdm_offset (ul_pg u)) lo segs
     in if p_heap_base p = lo then Inr (0, m', u2)
        else obind (map_pages (p_pml4_phys p) lo (p_phys_heap p) (page_up (elf_bytes segs) div PAGE_SIZE)
               (PTE_PRESENT OR PTE_WRITABLE OR PTE_USER) (ul_pg u)) (\<lambda>pg. Inr (0, m', u2\<lparr>ul_pg := pg\<rparr>)))"
proof -
  let ?h = "read_ehdr m elf" and ?d = "p_phys_heap p + g_hhdm_offset (ul_pg u)"
  let ?tab = "elf + eh_phoff ?h" and ?n = "unat (eh_phnum ?h)"
  let ?m = "elf_image m elf ?d lo segs"
  have r: "proc \<noteq> 0" "elf \<noteq> 0" "64 \<le> unat sz" "elf_header_ok ?h sz" "unat (eh_phoff ?h) + 56 * ?n \<le> unat sz" "segs \<noteq> []"
    "segs_ok (unat (p_heap_size p)) sz lo segs" "lo \<noteq> -1" "heap_apart ?d p elf sz"
    using assms(1) by (simp_all add: elf_ready_def p_def segs_def lo_def Let_def)
  have sg: "segs = elf_segments m ?tab [0..<?n]" by (simp add: segs_def elf_table_def Let_def)
  have s64: "\<not> sz < SIZEOF_EHDR" using r(3) by (simp add: SIZEOF_EHDR_def word_less_nat_alt)
  have tin: "table_in elf sz ?tab ?n" using r(5) by (auto simp: table_in_def intro!: exI [of _ "unat (eh_phoff ?h)"])
  have rng: "vaddr_range m ?tab ?n = (lo, seg_end (last segs))"
    unfolding vaddr_range_segments sg [symmetric] lo_def using r(6,7,8) sg
    by (intro fold_vaddr_step) (auto simp: lo_def elf_segments_def)
  have ld: "load_segments (g_hhdm_offset (ul_pg u)) p elf sz (p_heap_base p - lo) ?tab [0..<?n] m = (True, ?m)"
    using load_segments_image [OF r(9) refl tin, of "[0..<?n]" lo m] r(7) sg by simp
  have ent: "eh_entry (read_ehdr ?m elf) = eh_entry ?h"
    using image_file [OF r(9)] r(7) by (intro entry_in_file [OF r(3)]) (simp add: segs_ok_def)
  have u2: "upd_proc proc (\<lambda>r. r\<lparr>p_entry_point := eh_entry ?h + (p_heap_base p - lo), p_state := PROC_READY,
      p_brk := page_up (p_heap_base p + elf_bytes segs)\<rparr>) (upd_proc proc (\<lambda>r. r\<lparr>p_vma_base := lo\<rparr>) u) = u2"
    by (simp add: u2_def upd_proc_def)
  have "ul_pg u2 = ul_pg u" by (simp add: u2_def upd_proc_def)
  moreover have "p_heap_base p - lo = 0 \<longleftrightarrow> p_heap_base p = lo" by simp
  ultimately show ?thesis
    using r(1,2,4,8) s64 unfolding elf_load_def Let_def p_def [symmetric] rng ld
    by (simp add: ld ent u2 elf_bytes_def [symmetric] lo_def [symmetric] flip: u2) (simp add: elf_bytes_def lo_def)
qed

lemma unat_page_up:
  assumes "unat x + 4095 < 2 ^ 64"
  shows "unat (page_up x) = (unat x + 4095) div 4096 * 4096"
proof -
  have u: "unat (x + 0xFFF) = unat x + 4095" using assms by (simp add: unat_word_ariths)
  have m: "y AND NOT 0xFFF = y AND NOT (mask 12)" for y :: u64 by (simp add: mask_eq_exp_minus_1)
  have "(x + 0xFFF) AND NOT 0xFFF = push_bit 12 (drop_bit 12 (x + 0xFFF))"
    unfolding m by (rule bit_word_eqI) (auto simp: bit_simps)
  then show ?thesis using u assms
    by (simp add: page_up_def push_bit_eq_mult unat_word_ariths unat_drop_bit)
qed

lemma elf_bytes_bound:
  assumes "elf_ready proc elf sz m u"
  defines "segs \<equiv> elf_table m elf"
  shows "unat (elf_bytes segs) \<le> unat (p_heap_size (procs u proc))" "elf_pages segs = (unat (elf_bytes segs) + 4095) div 4096"
    "elf_pages segs \<le> 2 ^ 36"
proof -
  let ?lo = "ph_vaddr (hd segs)" and ?t = "last segs"
  have r: "segs \<noteq> []" "segs_ok (unat (p_heap_size (procs u proc))) sz ?lo segs" "unat (p_heap_size (procs u proc)) \<le> 2 ^ 40"
    using assms(1) by (simp_all add: elf_ready_def segs_def Let_def)
  have t: "?lo \<le> ph_vaddr ?t" "seg_off ?lo ?t + unat (ph_memsz ?t) \<le> unat (p_heap_size (procs u proc))"
    using r(1,2) by (simp_all add: segs_ok_def seg_ok_def)
  have "elf_bytes segs = (ph_vaddr ?t - ?lo) + ph_memsz ?t" by (simp add: elf_bytes_def seg_end_def)
  then have "unat (elf_bytes segs) = unat ((ph_vaddr ?t - ?lo) + ph_memsz ?t)" by (rule arg_cong)
  also have "\<dots> = seg_off ?lo ?t + unat (ph_memsz ?t)"
    using t(2) r(3) unfolding seg_off_def by (intro unat_add_no_wrap64) simp
  finally show b: "unat (elf_bytes segs) \<le> unat (p_heap_size (procs u proc))" using t(2) by simp
  show n: "elf_pages segs = (unat (elf_bytes segs) + 4095) div 4096"
    using unat_page_up [of "elf_bytes segs"] b r(3) by (simp add: elf_pages_def PAGE_SIZE_def unat_div)
  have "unat (elf_bytes segs) + 4095 \<le> 4096 * 2 ^ 36" using b r(3) by simp
  then show "elf_pages segs \<le> 2 ^ 36" unfolding n by (simp add: less_mult_imp_div_less div_le_mono [of _ "4096 * 2 ^ 36" 4096, simplified])
qed

text \<open>With the frames that \<open>elf_ready\<close> asks for the second mapping succeeds.\<close>

lemma elf_load_returns:
  assumes "elf_ready proc elf sz m u"
  defines "p \<equiv> procs u proc" and "segs \<equiv> elf_table m elf"
  defines "lo \<equiv> ph_vaddr (hd segs)"
  defines "u2 \<equiv> upd_proc proc (\<lambda>r. r\<lparr>p_vma_base := lo, p_entry_point := eh_entry (read_ehdr m elf) + (p_heap_base p - lo),
      p_state := PROC_READY, p_brk := page_up (p_heap_base p + elf_bytes segs)\<rparr>) u"
  shows "\<exists>pg. elf_load proc elf sz m u =
      Inr (0, elf_image m elf (p_phys_heap p + g_hhdm_offset (ul_pg u)) lo segs, u2\<lparr>ul_pg := pg\<rparr>)
    \<and> pt_ok pg (p_pml4_phys p)
    \<and> (p_heap_base p \<noteq> lo \<longrightarrow> (\<forall>va. translate pg (p_pml4_phys p) va =
        (case find (\<lambda>j. same_page va (lo + word_of_nat j * PAGE_SIZE)) [0..<elf_pages segs] of
           None \<Rightarrow> translate (ul_pg u) (p_pml4_phys p) va
         | Some j \<Rightarrow> Some (((p_phys_heap p + word_of_nat j * PAGE_SIZE) AND ADDR_MASK) OR (PTE_PRESENT OR PTE_WRITABLE OR PTE_USER)))))"
proof -
  let ?fl = "PTE_PRESENT OR PTE_WRITABLE OR PTE_USER" and ?root = "p_pml4_phys p"
  have r: "pt_ok (ul_pg u) ?root" "3 * elf_pages segs \<le> spare (pg_pm (ul_pg u))"
    using assms(1) by (simp_all add: elf_ready_def p_def segs_def Let_def)
  note spec = elf_load_spec [OF assms(1), folded p_def segs_def, folded lo_def, folded u2_def]
  have pg: "ul_pg u2 = ul_pg u" by (simp add: u2_def upd_proc_def)
  have pr: "present (e OR ?fl)" for e by (auto simp: present_bit pte_defs bit_simps)
  show ?thesis
  proof (cases "p_heap_base p = lo")
    case True
    have "u2\<lparr>ul_pg := ul_pg u\<rparr> = u2" unfolding pg [symmetric] by simp
    then show ?thesis using spec r(1) True by (intro exI [of _ "ul_pg u"]) (simp add: Let_def)
  next
    case False
    obtain s' where s': "map_pages ?root lo (p_phys_heap p) (page_up (elf_bytes segs) div PAGE_SIZE) ?fl (ul_pg u) = Inr s'"
      "pt_ok s' ?root" "\<forall>va. translate s' ?root va = (case find (\<lambda>j. same_page va (lo + word_of_nat j * PAGE_SIZE)) [0..<elf_pages segs] of
          None \<Rightarrow> translate (ul_pg u) ?root va
        | Some j \<Rightarrow> let e = ((p_phys_heap p + word_of_nat j * PAGE_SIZE) AND ADDR_MASK) OR ?fl in if present e then Some e else None)"
      using map_run [OF r elf_bytes_bound(3) [OF assms(1), folded segs_def], of lo "\<lambda>j. p_phys_heap p + word_of_nat j * PAGE_SIZE" ?fl]
      unfolding map_pages_def elf_pages_def by auto
    then show ?thesis using spec False by (intro exI [of _ s']) (simp add: Let_def pr obind_def split: option.split)
  qed
qed

lemma split_page: "word_of_nat k = (word_of_nat (k mod 4096) + word_of_nat (k div 4096) * PAGE_SIZE :: u64)"
proof -
  have "word_of_nat k = (word_of_nat (k mod 4096 + k div 4096 * 4096) :: u64)" by (rule arg_cong) simp
  then show ?thesis by (simp only: of_nat_add of_nat_mult of_nat_numeral PAGE_SIZE_def)
qed

lemma same_page_in_run:
  assumes "unat lo mod 4096 = 0" "i < 2 ^ 36" "k div 4096 < 2 ^ 36"
  shows "same_page (lo + word_of_nat k) (lo + word_of_nat i * PAGE_SIZE) \<longleftrightarrow> i = k div 4096"
proof -
  let ?v = "lo + word_of_nat (k mod 4096) :: u64"
  have e: "lo + word_of_nat k = ?v + word_of_nat (k div 4096) * PAGE_SIZE"
    unfolding split_page [of k] by (simp add: add.assoc)
  obtain q where q: "unat lo = 4096 * q" using assms(1) by auto
  then have q52: "q < 2 ^ 52" using unat_lt_2p64 [of lo] by (simp del: unat_lt_2p64)
  have "k mod 4096 < 4096" by simp
  then have "unat ?v = 4096 * q + k mod 4096" using q q52 by (simp add: unat_word_ariths unat_of_nat del: mod_less_divisor)
  then have "unat ?v div 4096 = unat lo div 4096" using q by simp
  then have "same_page (lo + word_of_nat k) (lo + word_of_nat (k div 4096) * PAGE_SIZE)"
    unfolding e same_page_def by (simp only: word_unat_eq_iff page_number)
  then show ?thesis using same_page_run [OF assms(3,2), of lo] by (auto simp: same_page_def)
qed

text \<open>
  C14. Loading a file that fits succeeds: afterwards the memory is that of the image, each
  loadable segment with its bytes from the file followed by zeros and every other byte as before, the
  process is ready, starts at the relocated entry point, and its break is the first page boundary behind the
  image.
\<close>

theorem elf_load_image:
  assumes "elf_ready proc elf sz m u" "segs = elf_table m elf" "p = procs u proc" "lo = ph_vaddr (hd segs)"
  shows "\<exists>u'. elf_load proc elf sz m u = Inr (0, elf_image m elf (p_phys_heap p + g_hhdm_offset (ul_pg u)) lo segs, u')
    \<and> p_state (procs u' proc) = PROC_READY \<and> p_entry_point (procs u' proc) = eh_entry (read_ehdr m elf) + (p_heap_base p - lo)
    \<and> p_brk (procs u' proc) = page_up (p_heap_base p + elf_bytes segs) \<and> (\<forall>b. b \<noteq> proc \<longrightarrow> procs u' b = procs u b)"
proof -
  obtain pg where "elf_load proc elf sz m u = Inr (0, elf_image m elf (p_phys_heap p + g_hhdm_offset (ul_pg u)) lo segs,
      (upd_proc proc (\<lambda>r. r\<lparr>p_vma_base := lo, p_entry_point := eh_entry (read_ehdr m elf) + (p_heap_base p - lo),
         p_state := PROC_READY, p_brk := page_up (p_heap_base p + elf_bytes segs)\<rparr>) u)\<lparr>ul_pg := pg\<rparr>)"
    using elf_load_returns [OF assms(1)] unfolding assms(2-4) by blast
  then show ?thesis by (auto simp: upd_proc_def)
qed

text \<open>
  A program linked for other addresses than those of the heap, at a page boundary, finds its image at the
  addresses it was linked for: each of them translates to the byte of the heap where the loader put it.
\<close>

lemma elf_load_alias:
  assumes "elf_ready proc elf sz m u" "segs = elf_table m elf" "p = procs u proc" "lo = ph_vaddr (hd segs)"
    and "p_heap_base p \<noteq> lo" "unat lo mod 4096 = 0" "unat (p_phys_heap p) mod 4096 = 0"
    and "unat (p_phys_heap p) + unat (p_heap_size p) \<le> 2 ^ 52" "k < unat (elf_bytes segs)"
  shows "\<exists>m' u' e. elf_load proc elf sz m u = Inr (0, m', u') \<and> translate (ul_pg u') (p_pml4_phys p) (lo + word_of_nat k) = Some e
    \<and> entry_base e + word_of_nat (k mod 4096) = p_phys_heap p + word_of_nat k"
proof -
  let ?fl = "PTE_PRESENT OR PTE_WRITABLE OR PTE_USER" and ?j = "k div 4096"
  let ?a = "p_phys_heap p + word_of_nat ?j * PAGE_SIZE"
  obtain pg m' u2 where pg: "elf_load proc elf sz m u = Inr (0, m', u2\<lparr>ul_pg := pg\<rparr>)"
    "\<forall>va. translate pg (p_pml4_phys p) va = (case find (\<lambda>j. same_page va (lo + word_of_nat j * PAGE_SIZE)) [0..<elf_pages segs] of
           None \<Rightarrow> translate (ul_pg u) (p_pml4_phys p) va | Some j \<Rightarrow> Some (((p_phys_heap p + word_of_nat j * PAGE_SIZE) AND ADDR_MASK) OR ?fl))"
    using elf_load_returns [OF assms(1)] assms(5) unfolding assms(2-4) by blast
  have b: "unat (elf_bytes segs) \<le> unat (p_heap_size p)" "elf_pages segs = (unat (elf_bytes segs) + 4095) div 4096" "elf_pages segs \<le> 2 ^ 36"
    using elf_bytes_bound [OF assms(1)] unfolding assms(2,3) by blast+
  have j: "?j < elf_pages segs" using assms(9) b(2) by linarith
  note kd = split_page [of k]
  have "find (\<lambda>j. same_page (lo + word_of_nat k) (lo + word_of_nat j * PAGE_SIZE)) [0..<elf_pages segs] = Some ?j"
    using same_page_in_run [OF assms(6), of _ k] b(3) j by (auto simp: find_Some_iff intro!: exI [of _ ?j])
  then have tr: "translate pg (p_pml4_phys p) (lo + word_of_nat k) = Some ((?a AND ADDR_MASK) OR ?fl)" using pg(2) by simp
  have ua: "unat ?a = unat (p_phys_heap p) + ?j * 4096"
    using assms(8,9) b(1) by (simp add: PAGE_SIZE_def unat_word_ariths unat_of_nat)
  have "?a AND ADDR_MASK = ?a"
    using ua assms(7,8,9) b(1) by (intro frame_masked) (auto simp: less_mult_imp_div_less)
  then have "entry_base ((?a AND ADDR_MASK) OR ?fl) = ?a"
    by (simp add: entry_base_def bit.conj_disj_distrib2 pte_defs) (simp add: ADDR_MASK_def)
  then show ?thesis using pg(1) tr by (intro exI [of _ m'] exI [of _ "u2\<lparr>ul_pg := pg\<rparr>"] exI) (auto simp: kd add.assoc add.commute)
qed

text \<open>A file of 128 bytes: one segment of eight bytes that is 16 bytes long in memory, linked for 4 MB.\<close>

definition elf_ex :: "u8 list" where
  "elf_ex = [0x7F, 0x45, 0x4C, 0x46, 2, 1, 1, 0] @ [0, 0, 0, 0, 0, 0, 0, 0] @ [2, 0, 0x3E, 0, 1, 0, 0, 0]
     @ [0x04, 0, 0x40, 0, 0, 0, 0, 0] @ [64, 0, 0, 0, 0, 0, 0, 0] @ [0, 0, 0, 0, 0, 0, 0, 0, 0, 0, 0, 0, 0, 0, 0, 0] @ [1, 0] @ [0, 0, 0, 0, 0, 0]
     @ [1, 0, 0, 0, 5, 0, 0, 0] @ [120, 0, 0, 0, 0, 0, 0, 0] @ [0, 0, 0x40, 0, 0, 0, 0, 0] @ [0, 0, 0, 0, 0, 0, 0, 0]
     @ [8, 0, 0, 0, 0, 0, 0, 0] @ [16, 0, 0, 0, 0, 0, 0, 0] @ [0, 0, 0, 0, 0, 0, 0, 0] @ [0x90, 0x91, 0x92, 0x93, 0x94, 0x95, 0x96, 0x97]"

definition elf_mem_ex :: mem where
  "elf_mem_ex a = (if unat (a - 0x10000) < 128 then elf_ex ! unat (a - 0x10000) else 0xFF)"

definition elf_ul_ex :: ulime where
  "elf_ul_ex = upd_proc 8 (\<lambda>r. r\<lparr>p_pid := 5, p_pml4_phys := 0x300000, p_heap_base := 0x50000000, p_heap_size := 0x10000,
     p_phys_heap := 0x200000\<rparr>) ul_ex"

definition elf_seg_ex :: elf_program_header where
  "elf_seg_ex = \<lparr>ph_type = 1, ph_offset = 120, ph_vaddr = 0x400000, ph_filesz = 8, ph_memsz = 16\<rparr>"

lemma elf_ex_headers:
  "read_ehdr elf_mem_ex 0x10000 = \<lparr>eh_magic = [0x7F, 0x45, 0x4C, 0x46], eh_class = 2, eh_endian = 1, eh_machine = 0x3E,
     eh_entry = 0x400004, eh_phoff = 64, eh_phnum = 1\<rparr>"
  "phdr_at elf_mem_ex 0x10040 0 = elf_seg_ex"
  by (simp_all add: read_ehdr_def phdr_at_def read_phdr_def load16_def load32_def load64_def elf_mem_ex_def elf_ex_def elf_seg_ex_def
      nth_append nth_Cons' upt_rec)

lemma elf_ex_table: "elf_table elf_mem_ex 0x10000 = [elf_seg_ex]"
  by (simp add: elf_table_def elf_ex_headers elf_segments_def) (simp add: elf_seg_ex_def PT_LOAD_def)

lemma elf_ex_ready: "elf_ready 8 0x10000 128 elf_mem_ex elf_ul_ex"
proof -
  have p: "procs elf_ul_ex 8 = zero_proc\<lparr>p_pid := 5, p_pml4_phys := 0x300000, p_heap_base := 0x50000000,
      p_heap_size := 0x10000, p_phys_heap := 0x200000\<rparr>"
    by (simp add: elf_ul_ex_def upd_proc_def ul_ex_def ulime_init_def)
  have pg: "ul_pg elf_ul_ex = pg_ex" by (simp add: elf_ul_ex_def upd_proc_def ul_ex_def ulime_init_def)
  have n: "elf_pages [elf_seg_ex] = 1"
    by (simp add: elf_pages_def elf_bytes_def seg_end_def elf_seg_ex_def page_up_def PAGE_SIZE_def)
  show ?thesis
    unfolding elf_ready_def Let_def p pg elf_ex_table elf_ex_headers n using pg_ex_ok
    by (simp add: elf_header_ok_def SIZEOF_PHDR_def segs_ok_def seg_ok_def seg_off_def elf_seg_ex_def heap_apart_def zero_proc_def pg_ex_def)
qed

theorem elf_load_image_witness:
  "\<exists>m u. elf_load 8 0x10000 128 elf_mem_ex elf_ul_ex = Inr (0, m, u) \<and> p_entry_point (procs u 8) = 0x50000004
     \<and> m 0xFFFF800000200007 = 0x97 \<and> m 0xFFFF800000200008 = 0 \<and> m 0xFFFF800000200010 = 0xFF"
proof -
  have p: "p_phys_heap (procs elf_ul_ex 8) = 0x200000" "p_heap_base (procs elf_ul_ex 8) = 0x50000000" "g_hhdm_offset (ul_pg elf_ul_ex) = 0xFFFF800000000000"
    by (simp_all add: elf_ul_ex_def upd_proc_def ul_ex_def ulime_init_def pg_ex_def)
  let ?m = "elf_image elf_mem_ex 0x10000 0xFFFF800000200000 0x400000 [elf_seg_ex]"
  have "?m 0xFFFF800000200007 = 0x97" "?m 0xFFFF800000200008 = 0" "?m 0xFFFF800000200010 = 0xFF"
    by (simp_all add: elf_image_def seg_dest_def seg_off_def elf_seg_ex_def span_def) (simp_all add: elf_mem_ex_def elf_ex_def)
  moreover have "ph_vaddr (hd [elf_seg_ex]) = 0x400000" by (simp add: elf_seg_ex_def)
  ultimately show ?thesis
    using elf_load_image [OF elf_ex_ready refl refl refl] by (auto simp: elf_ex_table p elf_ex_headers)
qed

lemma elf_load_alias_witness:
  "\<exists>m u e. elf_load 8 0x10000 128 elf_mem_ex elf_ul_ex = Inr (0, m, u) \<and> translate (ul_pg u) 0x300000 0x400007 = Some e
     \<and> entry_base e = 0x200000"
proof -
  have p: "procs elf_ul_ex 8 = zero_proc\<lparr>p_pid := 5, p_pml4_phys := 0x300000, p_heap_base := 0x50000000,
      p_heap_size := 0x10000, p_phys_heap := 0x200000\<rparr>"
    by (simp add: elf_ul_ex_def upd_proc_def ul_ex_def ulime_init_def)
  have v: "ph_vaddr elf_seg_ex = 0x400000" "elf_bytes [elf_seg_ex] = 16" by (simp_all add: elf_seg_ex_def elf_bytes_def seg_end_def)
  show ?thesis
    using elf_load_alias [OF elf_ex_ready refl refl refl, of 7] by (simp add: elf_ex_table p v)
qed

end
