(* ===== verification/Kernel.thy ===== *)
theory Kernel
  imports Sched Ipc Shm VtDev Users Elf
begin

text \<open>
  The state that system calls work on, and what they have in common: the checks of user pointers
  (\<^verbatim>\<open>emex/kernel/user/system/ptrs.h\<close>), strings in user memory, the registers that
  \<^verbatim>\<open>syscall_entry.asm\<close> saves, and the ways back to user mode (\<^verbatim>\<open>resume_parent_sysret.asm\<close>,
  \<^verbatim>\<open>emex/kernel/user/jump.c\<close>). The memory that a call sees is that of the address space of its caller.
\<close>

section \<open>State\<close>

text \<open>The registers of the caller in the global variables of \<^verbatim>\<open>syscall_entry.asm\<close>.\<close>

record user_regs =
  u_rcx :: u64
  u_rsp :: u64
  u_r11 :: u64
  u_cr3 :: u64
  u_rbx :: u64
  u_rbp :: u64
  u_r12 :: u64
  u_r13 :: u64
  u_r14 :: u64
  u_r15 :: u64

record blocked_entry =
  be_proc :: u64
  be_regs :: user_regs
  be_waiting_for_pid :: u64

text \<open>
  The subsystems side by side: files, drivers, terminals and the heap in \<open>k_fs\<close>; tasks, processes and page tables in
  \<open>k_mt\<close>; message ports and shared regions with the tables they have of their own. \<open>k_sender_slot\<close> and \<open>k_elf_buf\<close> are the
  addresses of the local variable \<open>sender\<close> and of the static buffer of \<open>execve\<close>.
\<close>

record kernel =
  k_fs :: fs
  k_mt :: mt
  k_has_mt :: bool
  k_proc_mgr :: bool
  k_endpoints :: "u64 list"
  k_ports :: "u64 \<rightharpoonup> ipc_port"
  k_msgs :: "u64 \<rightharpoonup> ipc_msg"
  k_shm_table :: "shm list"
  k_shm_counter :: u64
  k_cwd :: string
  k_blocked :: "blocked_entry list"
  k_user :: user_regs
  k_sender_slot :: u64
  k_elf_buf :: u64

definition k_ul :: "kernel \<Rightarrow> ulime" where
  "k_ul k = mt_ulime (k_mt k)"

definition set_ul :: "ulime \<Rightarrow> kernel \<Rightarrow> kernel" where
  "set_ul u k = k\<lparr>k_mt := (k_mt k)\<lparr>mt_ulime := u\<rparr>\<rparr>"

definition k_bytes :: "kernel \<Rightarrow> mem" where
  "k_bytes k = km_bytes (fs_mem (k_fs k))"

definition set_bytes :: "mem \<Rightarrow> kernel \<Rightarrow> kernel" where
  "set_bytes m k = k\<lparr>k_fs := (k_fs k)\<lparr>fs_mem := (fs_mem (k_fs k))\<lparr>km_bytes := m\<rparr>\<rparr>\<rparr>"

text \<open>The view of the message ports and of the shared regions.\<close>

definition k_ipc :: "kernel \<Rightarrow> ipc" where
  "k_ipc k = \<lparr>endpoints = k_endpoints k, ports = k_ports k, msgs = k_msgs k, ip_ul = k_ul k,
     ip_kl = fs_klime (k_fs k), ip_km = fs_mem (k_fs k)\<rparr>"

definition set_ipc :: "ipc \<Rightarrow> kernel \<Rightarrow> kernel" where
  "set_ipc s k = (set_ul (ip_ul s) k)\<lparr>k_endpoints := endpoints s, k_ports := ports s, k_msgs := msgs s,
     k_fs := (k_fs k)\<lparr>fs_klime := ip_kl s, fs_mem := ip_km s\<rparr>\<rparr>"

definition k_shms :: "kernel \<Rightarrow> shms" where
  "k_shms k = \<lparr>shm_table = k_shm_table k, shm_counter = k_shm_counter k, sh_ul = k_ul k\<rparr>"

definition set_shms :: "shms \<Rightarrow> kernel \<Rightarrow> kernel" where
  "set_shms s k = (set_ul (sh_ul s) k)\<lparr>k_shm_table := shm_table s, k_shm_counter := shm_counter s\<rparr>"

text \<open>
  How a call ends: it returns a value; it leaves for user mode with other registers; it waits with interrupts on;
  it halts the machine for ever; or it panics.
\<close>

datatype scall_result = Ret u64 kernel | Enter regs kernel | Waits kernel | Halts kernel | Panics string

text \<open>The file systems, the drivers, the frame buffer device and the clock, which the calls use but do not change.\<close>

record kenv =
  ke_tab :: fs_tab
  ke_drv :: drivers
  ke_fb0_ioctl :: "u32 \<Rightarrow> u64 \<Rightarrow> kernel \<Rightarrow> (int \<times> kernel) option"
  ke_uptime :: u64
  ke_uptime_ms :: u64

type_synonym scall = "kenv \<Rightarrow> kernel \<Rightarrow> u64 \<Rightarrow> u64 \<Rightarrow> u64 \<Rightarrow> u64 \<Rightarrow> scall_result option"

definition or_panic :: "'a outcome \<Rightarrow> ('a \<Rightarrow> scall_result option) \<Rightarrow> scall_result option" where
  "or_panic r f = (case r of Inl m \<Rightarrow> Some (Panics m) | Inr x \<Rightarrow> f x)"

lemma or_panic_simps [simp]: "or_panic (Inr x) f = f x" "or_panic (Inl m) f = Some (Panics m)"
  by (simp_all add: or_panic_def)

section \<open>User pointers\<close>

definition KSTART :: u64 where "KSTART = 0x0000800000000000"

definition is_valid_user_ptr :: "u64 \<Rightarrow> bool" where
  "is_valid_user_ptr p \<longleftrightarrow> p \<noteq> 0 \<and> p \<le> KSTART"

definition is_valid_user_ptr_range :: "u64 \<Rightarrow> u64 \<Rightarrow> bool" where
  "is_valid_user_ptr_range p n \<longleftrightarrow>
    (if n = 0 then False
     else if n = 1 then is_valid_user_ptr p
     else if 2 ^ 64 \<le> unat p + unat n then False
     else let m = p + n in (p \<noteq> 0 \<and> p \<le> KSTART) \<and> (m \<noteq> 0 \<and> m \<le> KSTART))"

text \<open>A string at an address, up to its NUL; a memory without one has none.\<close>

partial_function (option) user_string :: "mem \<Rightarrow> u64 \<Rightarrow> string option" where
  "user_string m a = (if m a = 0 then Some [] else do { s \<leftarrow> user_string m (a + 1); Some (char_of (unat (m a)) # s) })"

definition put_string :: "string \<Rightarrow> u64 \<Rightarrow> mem \<Rightarrow> mem" where
  "put_string s a m = fold (\<lambda>i m. m(a + word_of_nat i := (if i < length s then word_of_nat (of_char (s ! i)) else 0))) [0..<length s + 1] m"

definition int_arg :: "u64 \<Rightarrow> int" where
  "int_arg x = sint (ucast x :: u32)"

definition int_ret :: "int \<Rightarrow> u64" where
  "int_ret r = word_of_int r"

section \<open>Going to user mode\<close>

text \<open>\<^verbatim>\<open>resume_parent_sysret\<close>: what is not restored is zero, and so is \<open>rax\<close>.\<close>

definition sysret_regs :: "u64 \<Rightarrow> u64 \<Rightarrow> u64 \<Rightarrow> u64 \<Rightarrow> u64 \<Rightarrow> u64 \<Rightarrow> u64 \<Rightarrow> u64 \<Rightarrow> u64 \<Rightarrow> regs" where
  "sysret_regs ip sp fl bx bp a12 a13 a14 a15 = zero_regs\<lparr>rip := ip, rcx := ip, rsp := sp, r11 := fl, rflags := fl, rbx := bx, rbp := bp,
     r12 := a12, r13 := a13, r14 := a14, r15 := a15, cs := USER_CODE_SELECTOR OR 3, ss := USER_DATA_SELECTOR OR 3\<rparr>"

definition resume_parent_sysret :: "user_regs \<Rightarrow> kernel \<Rightarrow> scall_result" where
  "resume_parent_sysret u k = Enter (sysret_regs (u_rcx u) (u_rsp u) (u_r11 u) (u_rbx u) (u_rbp u) (u_r12 u) (u_r13 u) (u_r14 u) (u_r15 u))
     (k\<lparr>k_mt := (k_mt k)\<lparr>hw_cr3 := u_cr3 u\<rparr>\<rparr>)"

definition JumpToUserspace :: "u64 \<Rightarrow> kernel \<Rightarrow> scall_result" where
  "JumpToUserspace proc k =
    (let p = procs (k_ul k) proc; sp = (if p_entry_rsp p \<noteq> 0 then p_entry_rsp p else default_rsp p)
     in Enter (first_regs p sp) (k\<lparr>k_mt := (set_state proc PROC_RUNNING (k_mt k))\<lparr>hw_cr3 := p_pml4_phys p\<rparr>\<rparr>))"

section \<open>Lemmas\<close>

lemma set_ul_simps [simp]:
  "k_ul (set_ul u k) = u" "k_fs (set_ul u k) = k_fs k" "k_blocked (set_ul u k) = k_blocked k" "k_cwd (set_ul u k) = k_cwd k"
  "k_user (set_ul u k) = k_user k" "k_has_mt (set_ul u k) = k_has_mt k" "mt_tasks (k_mt (set_ul u k)) = mt_tasks (k_mt k)"
  "mt_task_count (k_mt (set_ul u k)) = mt_task_count (k_mt k)" "k_bytes (set_ul u k) = k_bytes k"
  by (simp_all add: set_ul_def k_ul_def k_bytes_def)

lemma set_bytes_simps [simp]:
  "k_bytes (set_bytes m k) = m" "k_ul (set_bytes m k) = k_ul k" "k_cwd (set_bytes m k) = k_cwd k" "k_mt (set_bytes m k) = k_mt k"
  by (simp_all add: set_bytes_def k_bytes_def k_ul_def)

section \<open>The checks and the strings\<close>

text \<open>An accepted range lies below \<open>KSTART\<close>, but for a range of one byte, which may lie on it.\<close>

lemma valid_range_nat:
  "is_valid_user_ptr_range p n \<longleftrightarrow> p \<noteq> 0 \<and> n \<noteq> 0 \<and>
     (unat p + unat n \<le> unat KSTART \<or> n = 1 \<and> p = KSTART)"
proof (cases "n = 0 \<or> n = 1")
  case True
  then show ?thesis
    by (auto simp: is_valid_user_ptr_range_def is_valid_user_ptr_def KSTART_def word_le_nat_alt unat_arith_simps)
next
  case False
  have k: "unat KSTART = 0x800000000000" by (simp add: KSTART_def)
  show ?thesis
  proof (cases "unat p + unat n < 2 ^ 64")
    case True
    then have s: "unat (p + n) = unat p + unat n" by (intro unat_add_no_wrap64) simp
    have "p + n \<noteq> 0 \<longleftrightarrow> unat p + unat n \<noteq> 0" by (metis s unat_0 unat_eq_0)
    then show ?thesis using False True s k
      by (auto simp: is_valid_user_ptr_range_def word_le_nat_alt Let_def unat_eq_0)
  next
    case False
    then show ?thesis using k \<open>\<not> (n = 0 \<or> n = 1)\<close> by (auto simp: is_valid_user_ptr_range_def)
  qed
qed

definition user_byte :: "u64 \<Rightarrow> bool" where
  "user_byte a \<longleftrightarrow> a \<noteq> 0 \<and> a < KSTART"

lemma span_user:
  "n \<noteq> 0 \<and> (\<forall>a. span p (unat n) a \<longrightarrow> user_byte a) \<longleftrightarrow> p \<noteq> 0 \<and> n \<noteq> 0 \<and> unat p + unat n \<le> unat KSTART"
proof -
  have k: "unat KSTART = 0x800000000000" by (simp add: KSTART_def)
  have user: "user_byte a" if "p \<noteq> 0" "unat p + unat n \<le> unat KSTART" "span p (unat n) a" for a
  proof -
    have "unat (p + (a - p)) = unat p + unat (a - p)"
      using that k by (intro unat_add_no_wrap64) (simp add: span_def)
    then have "unat a = unat p + unat (a - p)" by simp
    moreover have "unat p \<noteq> 0" using that(1) by (simp add: unat_eq_0)
    ultimately show ?thesis using that by (auto simp: user_byte_def span_def word_less_nat_alt)
  qed
  moreover have "p \<noteq> 0 \<and> unat p + unat n \<le> unat KSTART"
    if n: "n \<noteq> 0" and all: "\<And>a. span p (unat n) a \<Longrightarrow> user_byte a"
  proof -
    have p: "user_byte p" using n by (intro all) (simp add: span_def word_gt_0 unat_gt_0)
    then have "unat p < unat KSTART" by (simp add: user_byte_def word_less_nat_alt)
    then have "unat (KSTART - p) = unat KSTART - unat p" by (simp add: unat_sub_if')
    moreover have "\<not> span p (unat n) KSTART" using all [of KSTART] by (auto simp: user_byte_def)
    ultimately show ?thesis using p unfolding span_def user_byte_def word_less_nat_alt by linarith
  qed
  ultimately show ?thesis by blast
qed

lemma user_string_unfold_end: "m a = 0 \<Longrightarrow> user_string m a = Some []"
  by (simp add: user_string.simps)

lemma user_string_step: "m a \<noteq> 0 \<Longrightarrow> user_string m a = map_option ((#) (char_of (unat (m a)))) (user_string m (a + 1))"
  by (subst user_string.simps) (simp add: map_option_case Option.bind_def split: option.split)

definition chars_at :: "mem \<Rightarrow> u64 \<Rightarrow> nat \<Rightarrow> string" where
  "chars_at m a n = map (\<lambda>i. char_of (unat (m (a + word_of_nat i)))) [0..<n]"

lemma chars_at_Suc: "chars_at m a (Suc n) = char_of (unat (m a)) # chars_at m (a + 1) n"
proof -
  have "[0..<Suc n] = 0 # map Suc [0..<n]" by (metis map_Suc_upt upt_conv_Cons zero_less_Suc)
  then show ?thesis by (simp add: chars_at_def o_def add.assoc del: upt_Suc)
qed

lemma user_string_found:
  "m (a + word_of_nat n) = 0 \<Longrightarrow> (\<And>i. i < n \<Longrightarrow> m (a + word_of_nat i) \<noteq> 0) \<Longrightarrow> user_string m a = Some (chars_at m a n)"
proof (induction n arbitrary: a)
  case 0
  then show ?case by (simp add: user_string_unfold_end chars_at_def)
next
  case (Suc n)
  have "user_string m (a + 1) = Some (chars_at m (a + 1) n)"
  proof (rule Suc.IH)
    show "m (a + 1 + word_of_nat n) = 0" using Suc.prems(1) by (simp add: add.assoc)
    show "m (a + 1 + word_of_nat i) \<noteq> 0" if "i < n" for i
      using Suc.prems(2) [of "Suc i"] that by (simp add: add.assoc)
  qed
  moreover have "m a \<noteq> 0" using Suc.prems(2) [of 0] by simp
  ultimately show ?case by (simp add: user_string_step chars_at_Suc)
qed

lemma user_string_some: "user_string m a = Some s \<Longrightarrow> \<exists>n. m (a + word_of_nat n) = 0"
proof (rule user_string.raw_induct [where P = "\<lambda>m a s. \<exists>n. m (a + word_of_nat n) = 0", rotated])
  fix f m a s
  assume IH: "\<And>m a s. f m a = Some s \<Longrightarrow> \<exists>n. m (a + word_of_nat n) = (0 :: u8)"
    and s: "(if m a = 0 then Some [] else do { s \<leftarrow> f m (a + 1); Some (char_of (unat (m a)) # s) }) = Some s"
  show "\<exists>n. m (a + word_of_nat n) = 0"
  proof (cases "m a = 0")
    case True
    then show ?thesis by (intro exI [of _ 0]) simp
  next
    case False
    then obtain s' where "f m (a + 1) = Some s'" using s by (auto simp: Option.bind_eq_Some_conv)
    then obtain n where "m (a + 1 + word_of_nat n) = 0" using IH by blast
    then show ?thesis by (intro exI [of _ "Suc n"]) (simp add: add.assoc)
  qed
qed

lemma user_string_least:
  "\<exists>n. m (a + word_of_nat n) = 0 \<Longrightarrow> user_string m a = Some (chars_at m a (LEAST n. m (a + word_of_nat n) = 0))"
  by (rule user_string_found) (auto dest: not_less_Least intro: LeastI2_ex)

text \<open>A string that was put into the memory is found there.\<close>

definition c_string :: "string \<Rightarrow> bool" where
  "c_string s \<longleftrightarrow> (\<forall>c \<in> set s. c \<noteq> CHR 0x00)"

lemma fold_upd_nth:
  assumes "n \<le> 2 ^ 64"
  shows "fold (\<lambda>i m. m(a + word_of_nat i := f i)) [0..<n] m b =
    (if unat (b - a) < n then f (unat (b - a)) else (m :: mem) b)"
  using assms
proof (induction n)
  case 0
  then show ?case by simp
next
  case (Suc n)
  then have n: "unat (word_of_nat n :: u64) = n" by (intro unat_of_nat64) simp
  have "b = a + word_of_nat n \<longleftrightarrow> b - a = word_of_nat n" by (auto simp: algebra_simps)
  also have "\<dots> \<longleftrightarrow> unat (b - a) = n" using n by (metis word_unat_eq_iff)
  finally have "b = a + word_of_nat n \<longleftrightarrow> unat (b - a) = n" .
  then show ?case using Suc by (auto simp: less_Suc_eq)
qed

lemma put_string_at:
  assumes "length s + 1 \<le> 2 ^ 64"
  shows "put_string s a m b = (if unat (b - a) < length s then word_of_nat (of_char (s ! unat (b - a)))
     else if unat (b - a) = length s then 0 else m b)"
  unfolding put_string_def
  by (subst fold_upd_nth [OF assms]) auto

lemma user_string_put_string:
  assumes "c_string s" and "length s + 1 \<le> 2 ^ 64"
  shows "user_string (put_string s a m) a = Some s"
proof -
  have u: "unat (word_of_nat i :: u64) = i" if "i \<le> length s" for i
    using that assms(2) by (intro unat_of_nat64) simp
  have b: "put_string s a m (a + word_of_nat i) = word_of_nat (of_char (s ! i))" if "i < length s" for i
    using that u [of i] by (simp add: put_string_at [OF assms(2)])
  have c: "unat (word_of_nat (of_char c) :: u8) = of_char c" for c :: char
    by (simp add: unat_of_nat take_bit_nat_eq_self)
  have "user_string (put_string s a m) a = Some (chars_at (put_string s a m) a (length s))"
  proof (rule user_string_found)
    show "put_string s a m (a + word_of_nat (length s)) = 0"
      using u [of "length s"] by (simp add: put_string_at [OF assms(2)])
    fix i assume i: "i < length s"
    then have "s ! i \<noteq> CHR 0x00" using assms(1) by (auto simp: c_string_def)
    then have "(of_char (s ! i) :: nat) \<noteq> 0" using of_char_eq_iff [of "s ! i" "CHR 0x00", where 'a = nat] by simp
    then show "put_string s a m (a + word_of_nat i) \<noteq> 0" using b [OF i] c by (metis unat_0)
  qed
  also have "chars_at (put_string s a m) a (length s) = s"
    by (rule nth_equalityI) (simp_all add: chars_at_def b c)
  finally show ?thesis .
qed

section \<open>The properties\<close>

text \<open>
  C11. A buffer is accepted exactly when it has a byte and all its bytes are user memory, neither at address zero nor
  behind the limit of the user half, whatever the size that the caller claims; the one exception is the single byte at the limit.
\<close>
theorem user_range:
  "is_valid_user_ptr_range p n \<longleftrightarrow> n \<noteq> 0 \<and> (\<forall>a. span p (unat n) a \<longrightarrow> user_byte a) \<or> n = 1 \<and> p = KSTART"
  by (simp add: span_user valid_range_nat) (auto simp: KSTART_def)

theorem user_range_witness: "user_byte 0x7FFFFFFFFFFF \<and> \<not> is_valid_user_ptr_range 0x7FFFFFFFFFFF 2 \<and> is_valid_user_ptr_range KSTART 1"
proof -
  have "is_valid_user_ptr_range 0x7FFFFFFFFFFE 2" by (simp add: valid_range_nat KSTART_def)
  then have "\<forall>a. span 0x7FFFFFFFFFFE (unat (2 :: u64)) a \<longrightarrow> user_byte a"
    using user_range [of "0x7FFFFFFFFFFE" 2] by (simp add: KSTART_def)
  then have "user_byte 0x7FFFFFFFFFFF" by (auto simp: span_def)
  moreover have "\<not> is_valid_user_ptr_range 0x7FFFFFFFFFFF 2" by (simp add: valid_range_nat KSTART_def)
  ultimately show ?thesis by (simp add: user_range)
qed

text \<open>
  Reading a string of the caller ends exactly when there is a NUL somewhere from its address on, and gives
  the characters up to the first.
\<close>
lemma user_string_returns:
  "user_string m a = (if \<exists>n. m (a + word_of_nat n) = 0 then Some (chars_at m a (LEAST n. m (a + word_of_nat n) = 0)) else None)"
  using user_string_least [of m a] user_string_some [of m a] by (cases "user_string m a") auto

end
