(* ===== verification/SysFile.thy ===== *)
theory SysFile
  imports Kernel
begin

text \<open>
  The system calls on files, directories, terminals and devices, from \<^verbatim>\<open>emex/kernel/user/syscalls.c\<close> and
  \<^verbatim>\<open>emex/kernel/user/scalls/fs.c\<close>. The output of the console, where standard output goes when no terminal has
  the focus, is left out. A path argument is the string at the address the caller gives.
\<close>

section \<open>Reading and writing\<close>

text \<open>The terminal in focus.\<close>

definition focused_vt :: "kernel \<Rightarrow> nat option" where
  "focused_vt k =
    (let f = vt_get_focused (fs_vts (k_fs k)) in if f = -1 then None else vt_get (fs_vts (k_fs k)) f)"

definition set_vts :: "vts \<Rightarrow> kernel \<Rightarrow> kernel" where
  "set_vts v k = k\<lparr>k_fs := (k_fs k)\<lparr>fs_vts := v\<rparr>\<rparr>"

text \<open>What a call gives back that only works on files.\<close>

definition fs_ret :: "kernel \<Rightarrow> int \<times> fs \<Rightarrow> scall_result" where
  "fs_ret k r = Ret (int_ret (fst r)) (k\<lparr>k_fs := snd r\<rparr>)"

definition fs_ret_or_fail :: "kernel \<Rightarrow> int \<times> fs \<Rightarrow> scall_result" where
  "fs_ret_or_fail k r = Ret (if fst r < 0 then -1 else int_ret (fst r)) (k\<lparr>k_fs := snd r\<rparr>)"

definition scall_write :: scall where
  "scall_write e k proc fd buf count =
    (if \<not> is_valid_user_ptr_range buf count then Some (Ret (-1) k)
     else if fd \<ge> 3 then map_option (fs_ret k) (fs_write (ke_tab e) (int_arg fd) buf count (k_fs k))
     else if fd = 1 \<or> fd = 2 then
       (case focused_vt k of
          Some i \<Rightarrow> Some (Ret count (set_vts (snd (vt_output_write i (mem_bytes (k_bytes k) buf (unat count)) (fs_vts (k_fs k)))) k))
        | None \<Rightarrow> Some (Ret count k))
     else Some (Ret (-1) k))"

definition scall_read :: scall where
  "scall_read e k proc fd buf count =
    (if \<not> is_valid_user_ptr_range buf count then Some (Ret (-1) k)
     else if fd \<ge> 3 then map_option (fs_ret k) (fs_read (ke_tab e) (int_arg fd) buf count (k_fs k))
     else if fd = 0 then
       (case focused_vt k of
          Some i \<Rightarrow>
            (case vt_input_read i (unat count) [] (fs_vts (k_fs k)) of
               (ReadDone r bs, v) \<Rightarrow> Some (Ret (int_ret r) (set_vts v (k\<lparr>k_fs := put_bytes bs buf (k_fs k)\<rparr>)))
             | (ReadWaits bs, v) \<Rightarrow> Some (Waits (set_vts v (k\<lparr>k_fs := put_bytes bs buf (k_fs k)\<rparr>))))
        | None \<Rightarrow> Some (Ret 0 k))
     else Some (Ret 0 k))"

definition scall_open :: scall where
  "scall_open e k proc path_ptr flags arg3 =
    (if \<not> is_valid_user_ptr path_ptr then Some (Ret (-1) k)
     else do {
       path \<leftarrow> user_string (k_bytes k) path_ptr;
       r \<leftarrow> fs_open (ke_tab e) path (ucast flags) (k_fs k);
       Some (fs_ret_or_fail k r)
     })"

definition scall_close :: scall where
  "scall_close e k proc fd arg2 arg3 = map_option (fs_ret k) (fs_close (ke_tab e) (int_arg fd) (k_fs k))"

definition SEEK_SET :: int where "SEEK_SET = 0"
definition SEEK_CUR :: int where "SEEK_CUR = 1"
definition SEEK_END :: int where "SEEK_END = 2"

definition seek_to :: "int \<Rightarrow> u64 \<Rightarrow> u64 \<Rightarrow> u64 \<Rightarrow> u64 option" where
  "seek_to whence pos sz offset =
    (if whence = SEEK_SET then Some offset else if whence = SEEK_CUR then Some (pos + offset)
     else if whence = SEEK_END then Some (sz + offset) else None)"

definition scall_lseek :: scall where
  "scall_lseek e k proc fd offset whence =
    (if int_arg fd < 3 then Some (Ret (-1) k)
     else let a = fs_get_file (int_arg fd) (k_fs k)
     in if a = 0 then Some (Ret (-1) k)
     else do {
       f \<leftarrow> fs_files (k_fs k) a;
       if ff_node f = 0 then Some (Ret (-1) k)
       else do {
         nd \<leftarrow> fs_nodes (k_fs k) (ff_node f);
         case seek_to (int_arg whence) (ff_pos f) (nd_size nd) offset of
           None \<Rightarrow> Some (Ret (-1) k)
         | Some new_pos \<Rightarrow>
             let p = (if new_pos > nd_size nd then nd_size nd else new_pos)
             in Some (Ret p (k\<lparr>k_fs := upd_file a (\<lambda>f. f\<lparr>ff_pos := p\<rparr>) (k_fs k)\<rparr>))
       }
     })"

section \<open>Directories\<close>

text \<open>An entry is a byte for the type and 64 bytes for the name; the bytes behind the NUL of the name are not written.\<close>

definition SIZEOF_DIRENT :: nat where "SIZEOF_DIRENT = 65"

definition put_dirents :: "(u8 \<times> string) list \<Rightarrow> u64 \<Rightarrow> mem \<Rightarrow> mem" where
  "put_dirents es buf m = fold (\<lambda>i m. let a = buf + word_of_nat (SIZEOF_DIRENT * i) in put_string (snd (es ! i)) (a + 1) (m(a := fst (es ! i))))
     [0..<length es] m"

definition scall_getdents :: scall where
  "scall_getdents e k proc path_ptr buf_ptr max_entries =
    (if \<not> is_valid_user_ptr path_ptr \<or> \<not> is_valid_user_ptr buf_ptr then Some (Ret (-1) k)
     else do {
       path \<leftarrow> user_string (k_bytes k) path_ptr;
       (n, es, s) \<leftarrow> fs_listdir (ke_tab e) path (int_arg max_entries) (k_fs k);
       let k1 = k\<lparr>k_fs := s\<rparr>;
       Some (Ret (if n < 0 then -1 else int_ret n) (set_bytes (put_dirents es buf_ptr (k_bytes k1)) k1))
     })"

definition scall_mkdir :: scall where
  "scall_mkdir e k proc path_ptr arg2 arg3 =
    (if path_ptr = 0 \<or> path_ptr > KSTART then Some (Ret (-1) k)
     else do {
       path \<leftarrow> user_string (k_bytes k) path_ptr;
       (r, s) \<leftarrow> fs_mkdir (ke_tab e) path (k_fs k);
       Some (Ret (if r < 0 then -1 else 0) (k\<lparr>k_fs := s\<rparr>))
     })"

definition scall_unlink :: scall where
  "scall_unlink e k proc path_ptr arg2 arg3 =
    (if path_ptr = 0 \<or> path_ptr > KSTART then Some (Ret (-1) k)
     else do {
       path \<leftarrow> user_string (k_bytes k) path_ptr;
       (r, s) \<leftarrow> fs_unlink (ke_tab e) path (k_fs k);
       Some (Ret (if r < 0 then -1 else 0) (k\<lparr>k_fs := s\<rparr>))
     })"

section \<open>The working directory\<close>

definition MAX_PATH_LEN :: nat where "MAX_PATH_LEN = 256"

text \<open>
  The step to the parent: a slash at the end is taken off, then everything from the last slash on, unless that is the
  first character. The code checks no length: the model copies the whole path, also where it overruns \<open>new_path\<close> or \<open>cwd\<close>.
\<close>

definition cwd_parent :: "string \<Rightarrow> string" where
  "cwd_parent cwd =
    (let c = (if length cwd > 1 \<and> last cwd = CHR ''/'' then butlast cwd else cwd)
     in case find (\<lambda>i. c ! i = CHR ''/'') (rev [0..<length c]) of
          None \<Rightarrow> c
        | Some 0 \<Rightarrow> ''/''
        | Some i \<Rightarrow> take i c)"

definition join_cwd :: "string \<Rightarrow> string \<Rightarrow> string" where
  "join_cwd cwd s =
    (if s ! 0 = CHR ''/'' then s
     else (if cwd ! (length cwd - 1) \<noteq> CHR ''/'' then cwd @ ''/'' else cwd) @ s)"

definition slash_end :: "string \<Rightarrow> string" where
  "slash_end p = (if length p > 1 \<and> last p \<noteq> CHR ''/'' then p @ ''/'' else p)"

definition chdir_to :: "kenv \<Rightarrow> kernel \<Rightarrow> string \<Rightarrow> scall_result option" where
  "chdir_to e k new_path = do {
     (dir, fs1) \<leftarrow> fs_resolve (ke_tab e) new_path (k_fs k);
     let k1 = k\<lparr>k_fs := fs1\<rparr>;
     if dir = 0 then Some (Ret (-1) k1)
     else do {
       nd \<leftarrow> fs_nodes fs1 dir;
       if nd_type nd \<noteq> FS_DIR then Some (Ret (-1) k1)
       else Some (Ret 0 (k1\<lparr>k_cwd := slash_end new_path\<rparr>))
     }
   }"

definition scall_chdir :: scall where
  "scall_chdir e k proc path_ptr arg2 arg3 =
    (if \<not> is_valid_user_ptr path_ptr then Some (Ret (-1) k)
     else do {
       s \<leftarrow> user_string (k_bytes k) path_ptr;
       if s = [] then Some (Ret 0 (k\<lparr>k_cwd := ''/''\<rparr>))
       else if s = ''..'' then Some (Ret 0 (k\<lparr>k_cwd := cwd_parent (k_cwd k)\<rparr>))
       else if s ! 0 \<noteq> CHR ''/'' \<and> k_cwd k = [] then None
       else chdir_to e k (join_cwd (k_cwd k) s)
     })"

definition scall_getcwd :: scall where
  "scall_getcwd e k proc buf_ptr sz arg3 =
    (if \<not> is_valid_user_ptr_range buf_ptr sz then Some (Ret 0 k)
     else let n = word_of_nat (length (k_cwd k) + 1)
     in if n > sz then Some (Ret 0 k)
        else Some (Ret n (set_bytes (put_string (k_cwd k) buf_ptr (k_bytes k)) k)))"

section \<open>Devices\<close>

definition scall_ioctl :: scall where
  "scall_ioctl e k proc fd request arg_ptr =
    (if \<not> is_valid_user_ptr arg_ptr then Some (Ret (-1) k)
     else if fd < 3 then Some (Ret 0 k)
     else let a = fs_get_file (int_arg fd) (k_fs k)
     in if a = 0 then Some (Ret (-1) k)
     else do {
       f \<leftarrow> fs_files (k_fs k) a;
       if ff_node f = 0 then Some (Ret (-1) k)
       else do {
         nd \<leftarrow> fs_nodes (k_fs k) (ff_node f);
         if nd_name nd = ''fb0'' then do {
           (r, k1) \<leftarrow> ke_fb0_ioctl e (ucast request) arg_ptr k;
           Some (Ret (int_ret r) k1)
         }
         else if nd_name nd = ''control'' then map_option (fs_ret k) (vt_ctrl_ioctl (ke_drv e) (ucast request) arg_ptr (k_fs k))
         else Some (Ret (-1) k)
       }
     })"

section \<open>Lemmas\<close>

lemma bind_Some [simp]: "Option.bind (Some x) f = f x"
  by simp

lemma k_fs_upd [simp]: "k_fs (k\<lparr>k_fs := s\<rparr>) = s"
  by simp

lemma user_apart:
  assumes "is_valid_user_ptr_range buf cnt" and "unat KSTART + 8 \<le> unat d" and "unat d + unat cnt + 7 < 2 ^ 64"
  shows "apart d buf (unat cnt + 7)" "apart buf d (unat cnt + 7)"
  using assms by (auto simp: valid_range_nat apart_def KSTART_def)

lemma lseek_set:
  assumes "fs_get_file (int_arg fd) (k_fs k) = a" "a \<noteq> 0" "3 \<le> int_arg fd"
    and "fs_files (k_fs k) a = Some f" "ff_node f \<noteq> 0" "fs_nodes (k_fs k) (ff_node f) = Some nd"
    and "seek_to (int_arg whence) (ff_pos f) (nd_size nd) offset = Some t"
  shows "scall_lseek e k proc fd offset whence =
    Some (Ret (min t (nd_size nd)) (k\<lparr>k_fs := upd_file a (\<lambda>f. f\<lparr>ff_pos := min t (nd_size nd)\<rparr>) (k_fs k)\<rparr>))"
  using assms by (auto simp: scall_lseek_def Let_def min_def not_less)

lemma check_perm_size: "fs_check_perm (Some (nd\<lparr>nd_size := sz\<rparr>)) = fs_check_perm (Some nd)"
  by (intro ext) (simp add: fs_check_perm_def)

lemma upd_file_current [simp]: "g_current_uid (upd_file a f s) = g_current_uid s" "g_current_gid (upd_file a f s) = g_current_gid s"
  by (simp_all add: upd_file_def)

lemma uint_min64: "uint (min x y :: u64) = min (uint x) (uint y)"
  by (simp add: min_def word_le_def)

lemma uint_add_sint: "uint (x + y :: u64) = (uint x + sint y) mod 2 ^ 64"
proof -
  have "x + y = word_of_int (uint x + sint y)" by simp
  then show ?thesis by (simp only: uint_word_of_int) simp
qed

lemma sint_small32: "unat (x :: u32) < 2 ^ 31 \<Longrightarrow> sint x = int (unat x)"
proof -
  assume "unat x < 2 ^ 31"
  then have "uint x < 2 ^ 31" unfolding uint_nat by (simp del: of_nat_unat)
  moreover have "- (2 ^ 31) \<le> uint x" by (rule order_trans [OF _ uint_ge_0]) simp
  ultimately have "signed_take_bit 31 (uint x) = uint x" by (intro signed_take_bit_int_eq_self)
  then show ?thesis by (simp add: sint_uint)
qed

lemma small_int_arg: "unat x < 2 ^ 31 \<Longrightarrow> int_arg x = int (unat x)"
proof -
  assume x: "unat x < 2 ^ 31"
  then have "unat (ucast x :: u32) = unat x" by (simp add: unsigned_ucast_eq take_bit_nat_eq_self)
  then show ?thesis unfolding int_arg_def using x sint_small32 by metis
qed

text \<open>Strings that come from memory have no NUL inside.\<close>

lemma char_of_unat_0: "(char_of (unat b) = CHR 0x00) \<longleftrightarrow> b = 0" for b :: u8
proof -
  have "char_of (unat b) = CHR 0x00 \<longleftrightarrow> (of_char (char_of (unat b) :: char) :: nat) = of_char (CHR 0x00)"
    by (rule of_char_eq_iff [symmetric])
  also have "\<dots> \<longleftrightarrow> unat b = 0" by (simp add: of_char_of)
  finally show ?thesis by (simp add: unat_eq_0)
qed

lemma user_string_c_string: "user_string m a = Some s \<Longrightarrow> c_string s"
proof -
  assume s: "user_string m a = Some s"
  define n where "n = (LEAST n. m (a + word_of_nat n) = 0)"
  have "s = chars_at m a n" using s user_string_some [OF s] user_string_least [of m a] by (simp add: n_def)
  moreover have "m (a + word_of_nat i) \<noteq> 0" if "i < n" for i using not_less_Least [OF that [unfolded n_def]] .
  ultimately show ?thesis by (auto simp: c_string_def chars_at_def char_of_unat_0)
qed

text \<open>The working directory: an absolute path without a NUL that fits its buffer.\<close>

definition cwd_ok :: "string \<Rightarrow> bool" where
  "cwd_ok c \<longleftrightarrow> c \<noteq> [] \<and> c ! 0 = CHR ''/'' \<and> c_string c \<and> length c < MAX_PATH_LEN"

lemma c_string_simps [simp]: "c_string []" "c_string (c # s) \<longleftrightarrow> c \<noteq> CHR 0x00 \<and> c_string s" "c_string (s @ t) \<longleftrightarrow> c_string s \<and> c_string t"
  by (auto simp: c_string_def)

lemma c_string_sub: "set t \<subseteq> set s \<Longrightarrow> c_string s \<Longrightarrow> c_string t"
  by (auto simp: c_string_def)

lemma cwd_parent_ok:
  assumes "cwd_ok cwd"
  shows "cwd_ok (cwd_parent cwd)"
proof -
  define c where "c = (if length cwd > 1 \<and> last cwd = CHR ''/'' then butlast cwd else cwd)"
  have c: "c \<noteq> []" "c ! 0 = CHR ''/''" "c_string c" "length c < MAX_PATH_LEN"
  proof -
    have "0 < length cwd" using assms by (simp add: cwd_ok_def)
    then have "0 < length c" unfolding c_def by (simp del: length_greater_0_conv)
    then show "c \<noteq> []" by simp
    show "c ! 0 = CHR ''/''" using assms by (simp add: c_def cwd_ok_def nth_butlast)
    show "c_string c" using assms c_string_sub [of "butlast cwd" cwd] by (auto simp: c_def cwd_ok_def dest: in_set_butlastD)
    show "length c < MAX_PATH_LEN" using assms by (simp add: c_def cwd_ok_def less_imp_diff_less)
  qed
  have "cwd_ok (take i c)" if "0 < i" for i
    using c that c_string_sub [OF set_take_subset] by (auto simp: cwd_ok_def)
  moreover have "cwd_ok ''/''" "cwd_ok c" using c by (simp_all add: cwd_ok_def MAX_PATH_LEN_def)
  ultimately show ?thesis
    unfolding cwd_parent_def c_def [symmetric] Let_def by (auto split: option.split nat.split)
qed

lemma join_cwd_ok: "cwd_ok cwd \<Longrightarrow> c_string s \<Longrightarrow> s \<noteq> [] \<Longrightarrow>
    join_cwd cwd s \<noteq> [] \<and> join_cwd cwd s ! 0 = CHR ''/'' \<and> c_string (join_cwd cwd s)"
  by (auto simp: join_cwd_def cwd_ok_def nth_append)

text \<open>The path that the next \<open>chdir\<close> puts together fits its buffer.\<close>

definition chdir_fits :: "kernel \<Rightarrow> u64 \<Rightarrow> bool" where
  "chdir_fits k path_ptr \<longleftrightarrow> (case user_string (k_bytes k) path_ptr of None \<Rightarrow> True | Some s \<Rightarrow> length (join_cwd (k_cwd k) s) < FS_MAX_PATH)"

lemma chdir_to_ok:
  assumes "chdir_to e k p = Some (Ret r k')" "p \<noteq> [] \<and> p ! 0 = CHR ''/'' \<and> c_string p" "length p < FS_MAX_PATH" "cwd_ok (k_cwd k)"
  shows "cwd_ok (k_cwd k')"
proof -
  have "cwd_ok (slash_end p)"
    using assms(2,3) by (auto simp: slash_end_def cwd_ok_def nth_append FS_MAX_PATH_def MAX_PATH_LEN_def)
  then show ?thesis using assms(1,4)
    by (auto simp: chdir_to_def Let_def Option.bind_eq_Some_conv not_le split: if_splits)
qed

lemma chdir_ok:
  assumes "scall_chdir e k proc path_ptr a2 a3 = Some (Ret r k')" "cwd_ok (k_cwd k)" "chdir_fits k path_ptr"
  shows "cwd_ok (k_cwd k')"
proof (cases "is_valid_user_ptr path_ptr")
  case False
  then show ?thesis using assms by (auto simp: scall_chdir_def)
next
  case True
  then obtain s where s: "user_string (k_bytes k) path_ptr = Some s"
    using assms(1) by (auto simp: scall_chdir_def Option.bind_eq_Some_conv)
  consider "s = []" | "s = ''..''" | "s \<noteq> []" "s \<noteq> ''..''" by blast
  then show ?thesis
  proof cases
    case 1
    then show ?thesis using assms(1) True s by (auto simp: scall_chdir_def cwd_ok_def MAX_PATH_LEN_def)
  next
    case 2
    then show ?thesis using assms True s cwd_parent_ok by (auto simp: scall_chdir_def)
  next
    case 3
    note j = join_cwd_ok [OF assms(2) user_string_c_string [OF s] 3(1)]
    have "chdir_to e k (join_cwd (k_cwd k) s) = Some (Ret r k')"
      using assms(1) True s 3 by (simp add: scall_chdir_def split: if_splits)
    from chdir_to_ok [OF this] show ?thesis using j assms(2,3) s by (simp add: chdir_fits_def)
  qed
qed

text \<open>Without that there is no bound: a directory that is found becomes the working directory with its path of any length.\<close>

lemma chdir_overruns:
  assumes "is_valid_user_ptr path_ptr" "user_string (k_bytes k) path_ptr = Some s" "s \<noteq> []" "s ! 0 = CHR ''/''"
    and "fs_resolve (ke_tab e) s (k_fs k) = Some (dir, fs1)" "dir \<noteq> 0" "fs_nodes fs1 dir = Some nd" "nd_type nd = FS_DIR"
  shows "scall_chdir e k proc path_ptr a2 a3 = Some (Ret 0 (k\<lparr>k_fs := fs1, k_cwd := slash_end s\<rparr>)) \<and> length s \<le> length (slash_end s)"
proof -
  have "s \<noteq> ''..''" using assms(4) by auto
  then show ?thesis using assms by (simp add: scall_chdir_def chdir_to_def join_cwd_def slash_end_def)
qed

section \<open>A concrete state\<close>

text \<open>The file \<open>a\<close> is open as descriptor 3; its contents are in the kernel half.\<close>

definition kern_ex :: kernel where
  "kern_ex = \<lparr>k_fs = fs_ex\<lparr>fds := (replicate 64 0)[3 := 0x600],
       tmp_objs := [0x500 \<mapsto> \<lparr>td_data = 0xFFFF800000001198, td_cap = 4096, td_ro = False\<rparr>]\<rparr>,
     k_mt = mt_ex, k_has_mt = True, k_proc_mgr = True, k_endpoints = [], k_ports = Map.empty, k_msgs = Map.empty,
     k_shm_table = [], k_shm_counter = 1, k_cwd = ''/'', k_blocked = [],
     k_user = \<lparr>u_rcx = 0x401000, u_rsp = 0x7000, u_r11 = 0x202, u_cr3 = 0x9000, u_rbx = 0, u_rbp = 0, u_r12 = 0, u_r13 = 0,
       u_r14 = 0, u_r15 = 0\<rparr>, k_sender_slot = 0xFFFF900000000000, k_elf_buf = 0xFFFFA00000000000\<rparr>"

definition env_ex :: kenv where
  "env_ex = \<lparr>ke_tab = fs_ex_tab, ke_drv = drv_ex, ke_fb0_ioctl = (\<lambda>_ _ _. None), ke_uptime = 5, ke_uptime_ms = 5000\<rparr>"

lemma kern_ex_fd: "fds (k_fs kern_ex) ! unat (3 :: u64) = 0x600"
  by (simp add: kern_ex_def)

lemma kern_ex_file:
  "fs_files (k_fs kern_ex) 0x600 = Some \<lparr>ff_node = 0x10E0, ff_pos = 0, ff_flags = O_RDWR\<rparr>"
  "ff_node \<lparr>ff_node = 0x10E0, ff_pos = 0, ff_flags = O_RDWR\<rparr> \<noteq> 0"
  "fs_nodes (k_fs kern_ex) (ff_node \<lparr>ff_node = 0x10E0, ff_pos = 0, ff_flags = O_RDWR\<rparr>) = Some (fs_ex_node ''a'' FS_FILE 0x500 [])"
  "nd_type (fs_ex_node ''a'' FS_FILE 0x500 []) = FS_FILE" "nd_ops (fs_ex_node ''a'' FS_FILE 0x500 []) = TMPFS_OPS"
  by (simp_all add: kern_ex_def fs_ex_def fs_ex_node_def)

lemma kern_ex_ops: "tab_ops (ke_tab env_ex) TMPFS_OPS = tmpfs_ops" "length (fds (k_fs kern_ex)) = 64"
  by (simp_all add: env_ex_def fs_ex_tab_def kern_ex_def)

lemma kern_ex_perm: "fs_check_perm (Some nd) (g_current_uid (k_fs kern_ex)) (g_current_gid (k_fs kern_ex)) perm"
  by (simp add: fs_check_perm_def kern_ex_def fs_ex_def)

lemma kern_ex_data: "tmp_objs (k_fs kern_ex) (nd_priv (fs_ex_node ''a'' FS_FILE 0x500 [])) = Some \<lparr>td_data = 0xFFFF800000001198, td_cap = 4096, td_ro = False\<rparr>"
  by (simp add: kern_ex_def fs_ex_node_def)

section \<open>Properties\<close>

text \<open>
  A seek never leaves the position behind the end of the file: the new position, which is the
  result, is the sum of the base (0, the position or the size) and the signed offset, modulo 2 to the 64, and at most the size.
\<close>
lemma lseek_clamps:
  assumes "fs_get_file (int_arg fd) (k_fs k) = a" "a \<noteq> 0" "3 \<le> int_arg fd"
    and "fs_files (k_fs k) a = Some f" "ff_node f \<noteq> 0" "fs_nodes (k_fs k) (ff_node f) = Some nd"
    and "(int_arg whence, base) \<in> {(SEEK_SET, 0), (SEEK_CUR, ff_pos f), (SEEK_END, nd_size nd)}"
  shows "\<exists>p. scall_lseek e k proc fd offset whence = Some (Ret p (k\<lparr>k_fs := upd_file a (\<lambda>f. f\<lparr>ff_pos := p\<rparr>) (k_fs k)\<rparr>))
    \<and> uint p = min ((uint base + sint offset) mod 2 ^ 64) (uint (nd_size nd))"
proof -
  have "seek_to (int_arg whence) (ff_pos f) (nd_size nd) offset = Some (base + offset)"
    using assms(7) by (auto simp: seek_to_def SEEK_SET_def SEEK_CUR_def SEEK_END_def)
  from lseek_set [OF assms(1-6) this, of e proc] show ?thesis
    by (intro exI [of _ "min (base + offset) (nd_size nd)"]) (simp add: uint_min64 uint_add_sint)
qed

lemma lseek_clamps_witness:
  "\<exists>p k'. scall_lseek env_ex kern_ex 8 3 (-1) 1 = Some (Ret p k') \<and> p = 0"
proof -
  obtain p where "scall_lseek env_ex kern_ex 8 3 (-1) 1 = Some (Ret p (kern_ex\<lparr>k_fs := upd_file 0x600 (\<lambda>f. f\<lparr>ff_pos := p\<rparr>) (k_fs kern_ex)\<rparr>))"
      "uint p = min ((uint (0 :: u64) + sint (-1 :: u64)) mod 2 ^ 64) (uint (nd_size (fs_ex_node ''a'' FS_FILE 0x500 [])))"
    using lseek_clamps [of 3 kern_ex "0x600" _ _ 1 0 env_ex 8 "-1", OF _ _ _ kern_ex_file(1-3)] kern_ex_fd
    by (auto simp: fs_get_file_def int_arg_def FS_MAX_FDS_def SEEK_CUR_def)
  then show ?thesis by (auto simp: fs_ex_node_def unsigned_eq_0_iff)
qed

text \<open>A seek to before the start ends at the end of the file.\<close>

lemma lseek_before_start:
  assumes "fs_get_file (int_arg fd) (k_fs k) = a" "a \<noteq> 0" "3 \<le> int_arg fd"
    and "fs_files (k_fs k) a = Some f" "ff_node f \<noteq> 0" "fs_nodes (k_fs k) (ff_node f) = Some nd"
    and "int_arg whence = SEEK_CUR" "ff_pos f + offset \<ge> nd_size nd"
  shows "\<exists>k'. scall_lseek e k proc fd offset whence = Some (Ret (nd_size nd) k')"
  using lseek_set [OF assms(1-6), of whence offset "ff_pos f + offset" e proc] assms(7,8)
  by (auto simp: seek_to_def SEEK_SET_def SEEK_CUR_def min_def)

text \<open>
  The working directory that the kernel keeps is what the caller finds in its buffer, as a string with its NUL, when
  the buffer is large enough; the result is the length of that, and no byte outside of it changes.
\<close>
lemma getcwd_reads_back:
  assumes "cwd_ok (k_cwd k)" "is_valid_user_ptr_range buf sz" "length (k_cwd k) < unat sz"
  shows "\<exists>n m. scall_getcwd e k proc buf sz a3 = Some (Ret n (set_bytes m k)) \<and> unat n = length (k_cwd k) + 1
    \<and> user_string m buf = Some (k_cwd k) \<and> (\<forall>a. \<not> span buf (unat n) a \<longrightarrow> m a = k_bytes k a)"
proof -
  define n :: u64 where "n = word_of_nat (length (k_cwd k) + 1)"
  have l: "length (k_cwd k) + 1 \<le> 256" "c_string (k_cwd k)" using assms(1) by (auto simp: cwd_ok_def MAX_PATH_LEN_def)
  then have n: "unat n = length (k_cwd k) + 1" unfolding n_def by (intro unat_of_nat64) simp
  have "\<not> n > sz" using assms(3) n by (simp add: word_less_nat_alt)
  then have "scall_getcwd e k proc buf sz a3 = Some (Ret n (set_bytes (put_string (k_cwd k) buf (k_bytes k)) k))"
    using assms(2) by (simp add: scall_getcwd_def n_def)
  moreover have "user_string (put_string (k_cwd k) buf (k_bytes k)) buf = Some (k_cwd k)"
    using l by (intro user_string_put_string) simp_all
  moreover have "put_string (k_cwd k) buf (k_bytes k) a = k_bytes k a" if "\<not> span buf (unat n) a" for a
    using l that n by (subst put_string_at) (auto simp: span_def)
  ultimately show ?thesis using n by blast
qed

lemma getcwd_reads_back_witness:
  "\<exists>n m. scall_getcwd env_ex kern_ex 8 0x5000 2 0 = Some (Ret n (set_bytes m kern_ex)) \<and> unat n = 2 \<and> user_string m 0x5000 = Some ''/''"
proof -
  have "cwd_ok (k_cwd kern_ex)" "is_valid_user_ptr_range 0x5000 2" "length (k_cwd kern_ex) < unat (2 :: u64)" "k_cwd kern_ex = ''/''"
    by (simp_all add: cwd_ok_def kern_ex_def MAX_PATH_LEN_def valid_range_nat KSTART_def)
  from getcwd_reads_back [OF this(1-3), of env_ex 8 0] this(4) show ?thesis by auto
qed

text \<open>
  What a process writes to a file, when there is room in the memory of the file and the position is aligned, it reads back after
  it has moved the position to where it was, byte for byte: the three calls all return what they should.
\<close>
lemma sys_write_seek_read:
  assumes "3 \<le> fd" "fd < 64" "fds (k_fs k) ! unat fd = a" "a \<noteq> 0" "fs_files (k_fs k) a = Some f" "ff_node f \<noteq> 0"
    and "fs_nodes (k_fs k) (ff_node f) = Some nd" "nd_type nd = FS_FILE" "nd_ops nd = TMPFS_OPS" "tab_ops (ke_tab e) TMPFS_OPS = tmpfs_ops"
    and "\<And>perm. perm \<in> {FS_PERM_R, FS_PERM_W} \<Longrightarrow> fs_check_perm (Some nd) (g_current_uid (k_fs k)) (g_current_gid (k_fs k)) perm" "nd_priv nd \<noteq> 0" "tmp_objs (k_fs k) (nd_priv nd) = Some td" "\<not> td_ro td"
    and "is_valid_user_ptr_range buf cnt" "is_valid_user_ptr_range buf' cnt" "unat buf' mod 8 = 0"
    and "ff_pos f \<le> nd_size nd" "unat (ff_pos f) + unat cnt \<le> unat (td_cap td)" "unat (td_data td + ff_pos f) mod 8 = 0"
    and "unat KSTART + 8 \<le> unat (td_data td)" "unat (td_data td) + unat (td_cap td) + 7 < 2 ^ 64"
  shows "\<exists>k1 k2 k3. scall_write e k proc fd buf cnt = Some (Ret cnt k1)
    \<and> scall_lseek e k1 proc fd (ff_pos f) 0 = Some (Ret (ff_pos f) k2)
    \<and> scall_read e k2 proc fd buf' cnt = Some (Ret cnt k3)
    \<and> (\<forall>i<unat cnt. k_bytes k3 (buf' + word_of_nat i) = k_bytes k (buf + word_of_nat i))"
proof -
  have fd: "int_arg fd = int (unat fd)" "3 \<le> unat fd" "unat fd < 64"
    using assms(1,2) small_int_arg [of fd] by (simp_all add: word_le_nat_alt word_less_nat_alt)
  then have gf: "fs_get_file (int_arg fd) s = fds s ! unat fd" for s unfolding fd(1) by (simp add: fs_get_file_def FS_MAX_FDS_def del: of_nat_unat)
  have dp: "unat (td_data td + ff_pos f) = unat (td_data td) + unat (ff_pos f)"
    using assms(19,22) by (intro unat_add_no_wrap64) simp
  then have ap: "apart (td_data td + ff_pos f) buf (unat cnt + 7)" "apart buf' (td_data td + ff_pos f) (unat cnt + 7)"
    using user_apart [OF assms(15), of "td_data td + ff_pos f"] user_apart [OF assms(16), of "td_data td + ff_pos f"] assms(19,21,22) by simp_all
  have nz: "td_data td \<noteq> 0" "cnt \<noteq> 0" using assms(15,21) by (auto simp: valid_range_nat KSTART_def)
  have ops: "TMPFS_OPS \<noteq> 0" by (simp add: TMPFS_OPS_def)
  from tmpfs_write_read [OF assms(5,7,8,12,13,14) nz(1) assms(19) nz(2) assms(20) ap(1) assms(17) ap(2)]
  obtain s1 s2 where w: "tmpfs_write a buf cnt (k_fs k) = Some (sint cnt, s1)"
      "tmpfs_read a buf' cnt (upd_file a (\<lambda>g. g\<lparr>ff_pos := ff_pos f\<rparr>) s1) = Some (sint cnt, s2)"
      "\<forall>i<unat cnt. km_bytes (fs_mem s2) (buf' + word_of_nat i) = km_bytes (fs_mem (k_fs k)) (buf + word_of_nat i)"
      "fds s1 = fds (k_fs k)" "g_current_uid s1 = g_current_uid (k_fs k)" "g_current_gid s1 = g_current_gid (k_fs k)"
      "fs_files s1 a = Some (f\<lparr>ff_pos := ff_pos f + cnt\<rparr>)"
      "fs_nodes s1 (ff_node f) = Some (nd\<lparr>nd_size := max (nd_size nd) (ff_pos f + cnt)\<rparr>)" by blast
  let ?k1 = "k\<lparr>k_fs := s1\<rparr>" and ?s = "upd_file a (\<lambda>g. g\<lparr>ff_pos := ff_pos f\<rparr>) s1"
  have "fs_write (ke_tab e) (int_arg fd) buf cnt (k_fs k) = Some (sint cnt, s1)"
    using assms(3-5,7,9-11) ops w(1) by (simp add: fs_write_def fs_rw_def gf tmpfs_ops_def)
  then have wr: "scall_write e k proc fd buf cnt = Some (Ret cnt ?k1)"
    using assms(1,15) by (simp add: scall_write_def fs_ret_def int_ret_def)
  have "min (ff_pos f) (max (nd_size nd) (ff_pos f + cnt)) = ff_pos f" using assms(18) by (auto simp: min_def max_def)
  moreover have g1: "fs_get_file (int_arg fd) (k_fs ?k1) = a" unfolding gf using w(4) assms(3) by simp
  moreover have i3: "3 \<le> int_arg fd" using fd(2) unfolding fd(1) by (simp del: of_nat_unat)
  moreover have f1: "fs_files (k_fs ?k1) a = Some (f\<lparr>ff_pos := ff_pos f + cnt\<rparr>)"
    and n1: "fs_nodes (k_fs ?k1) (ff_node (f\<lparr>ff_pos := ff_pos f + cnt\<rparr>)) = Some (nd\<lparr>nd_size := max (nd_size nd) (ff_pos f + cnt)\<rparr>)"
    using w(7,8) by simp_all
  moreover have st: "seek_to (int_arg 0) p q r = Some r" for p q r by (simp add: seek_to_def SEEK_SET_def int_arg_def)
  ultimately have ls: "scall_lseek e ?k1 proc fd (ff_pos f) 0 = Some (Ret (ff_pos f) (k\<lparr>k_fs := ?s\<rparr>))"
    using lseek_set [OF g1 assms(4) i3 f1 _ n1 st, of e proc] assms(6) by simp
  have "fs_read (ke_tab e) (int_arg fd) buf' cnt ?s = Some (sint cnt, s2)"
    using assms(3,4,9-11) ops w(2,4-8) by (simp add: fs_read_def fs_rw_def gf tmpfs_ops_def check_perm_size)
  then have rd: "scall_read e (k\<lparr>k_fs := ?s\<rparr>) proc fd buf' cnt = Some (Ret cnt (k\<lparr>k_fs := s2\<rparr>))"
    using assms(1,16) by (simp add: scall_read_def fs_ret_def int_ret_def)
  have "\<forall>i<unat cnt. k_bytes (k\<lparr>k_fs := s2\<rparr>) (buf' + word_of_nat i) = k_bytes k (buf + word_of_nat i)"
    using w(3) by (simp add: k_bytes_def)
  with wr ls rd show ?thesis by blast
qed

lemma sys_write_seek_read_witness:
  "\<exists>k1 k2 k3. scall_write env_ex kern_ex 8 3 0x5000 13 = Some (Ret 13 k1) \<and> scall_lseek env_ex k1 8 3 0 0 = Some (Ret 0 k2)
    \<and> scall_read env_ex k2 8 3 0x6000 13 = Some (Ret 13 k3) \<and> k_bytes k3 0x600C = 0x0C"
proof -
  let ?f = "\<lparr>ff_node = 0x10E0, ff_pos = 0, ff_flags = O_RDWR\<rparr>"
  have v: "is_valid_user_ptr_range 0x5000 13" "is_valid_user_ptr_range 0x6000 13" by (simp_all add: valid_range_nat KSTART_def)
  obtain k1 k2 k3 where *: "scall_write env_ex kern_ex 8 3 0x5000 13 = Some (Ret 13 k1)"
      "scall_lseek env_ex k1 8 3 (ff_pos ?f) 0 = Some (Ret (ff_pos ?f) k2)" "scall_read env_ex k2 8 3 0x6000 13 = Some (Ret 13 k3)"
      "\<forall>i<unat (13 :: u64). k_bytes k3 (0x6000 + word_of_nat i) = k_bytes kern_ex (0x5000 + word_of_nat i)"
    using sys_write_seek_read [OF _ _ kern_ex_fd _ kern_ex_file kern_ex_ops(1) kern_ex_perm _ kern_ex_data _ v, of 8] kern_ex_ops(2) by (auto simp: fs_ex_node_def KSTART_def)
  from *(4) have "k_bytes k3 (0x6000 + word_of_nat 12) = k_bytes kern_ex (0x5000 + word_of_nat 12)" by (elim allE [of _ 12]) simp
  moreover have "k_bytes kern_ex 0x500C = 0x0C" by (simp add: k_bytes_def kern_ex_def fs_ex_def fs_ex_heap_def)
  ultimately show ?thesis using *(1-3) by auto
qed

end
