(* ===== verification/SysProc.thy ===== *)
theory SysProc
  imports SysFile "HOL-Library.Multiset"
begin

text \<open>
  The system calls on processes, memory and messages, from \<^verbatim>\<open>emex/kernel/user/syscalls.c\<close> and
  \<^verbatim>\<open>emex/kernel/user/scalls\<close>, and the handler that looks the caller up by its page tables and
  calls the entry of the table. Messages on the console are left out.
\<close>

section \<open>Identity and the break\<close>

definition k_proc :: "kernel \<Rightarrow> u64 \<Rightarrow> ulime_proc" where
  "k_proc k a = procs (k_ul k) a"

definition upd_k_proc :: "u64 \<Rightarrow> (ulime_proc \<Rightarrow> ulime_proc) \<Rightarrow> kernel \<Rightarrow> kernel" where
  "upd_k_proc a f k = set_ul (upd_proc a f (k_ul k)) k"

definition scall_getpid :: scall where
  "scall_getpid e k proc a1 a2 a3 = Some (Ret (p_pid (k_proc k proc)) k)"

definition scall_getuid :: scall where
  "scall_getuid e k proc a1 a2 a3 = Some (Ret (ucast (p_uid (k_proc k proc))) k)"

definition scall_getgid :: scall where
  "scall_getgid e k proc a1 a2 a3 = Some (Ret (ucast (p_gid (k_proc k proc))) k)"

definition scall_brk :: scall where
  "scall_brk e k proc addr a2 a3 =
    (let p = k_proc k proc
     in if addr = 0 then Some (Ret (p_brk p) k)
        else if addr > p_heap_base p + p_heap_size p then Some (Ret (p_brk p) k)
        else if addr < p_heap_base p then Some (Ret (p_brk p) k)
        else Some (Ret addr (upd_k_proc proc (\<lambda>r. r\<lparr>p_brk := addr\<rparr>) k)))"

definition SIZEOF_SYSINFO :: u64 where "SIZEOF_SYSINFO = 16"

definition scall_sysinfo :: scall where
  "scall_sysinfo e k proc info a1 a2 =
    (if \<not> is_valid_user_ptr_range info SIZEOF_SYSINFO then Some (Ret (-1) k)
     else Some (Ret 0 (set_bytes (store64 (store64 (k_bytes k) info (ke_uptime e)) (info + 8) (ke_uptime_ms e)) k)))"

definition RSYSTEM_MAGIC1 :: u64 where "RSYSTEM_MAGIC1 = 0xfee1dead"
definition RSYSTEM_MAGIC2 :: u64 where "RSYSTEM_MAGIC2 = 0x28121969"
definition RSYSTEM_CMD_RESTART :: u64 where "RSYSTEM_CMD_RESTART = 0x01234567"
definition RSYSTEM_CMD_HALT :: u64 where "RSYSTEM_CMD_HALT = 0xcdef0123"
definition RSYSTEM_CMD_POWEROFF :: u64 where "RSYSTEM_CMD_POWEROFF = 0x4321fedc"

text \<open>When the hardware does what \<open>cpu_poweroff\<close> asks for, this call is the last.\<close>

definition scall_reboot :: scall where
  "scall_reboot e k proc magic1 magic2 cmd =
    (if magic1 \<noteq> RSYSTEM_MAGIC1 \<or> magic2 \<noteq> RSYSTEM_MAGIC2 then Some (Ret (-1) k)
     else if cmd = RSYSTEM_CMD_RESTART \<or> cmd = RSYSTEM_CMD_POWEROFF \<or> cmd = RSYSTEM_CMD_HALT then Some (Halts k)
     else Some (Ret (-1) k))"

section \<open>Messages and shared memory\<close>

definition scall_mq_open :: scall where
  "scall_mq_open e k proc name_ptr oflag mode =
    (if \<not> is_valid_user_ptr name_ptr then Some (Ret (-1) k)
     else do {
       s \<leftarrow> open_inbox (k_ipc k) proc;
       Some (Ret (p_pid (k_proc k proc)) (set_ipc s k))
     })"

definition scall_mq_unlink :: scall where
  "scall_mq_unlink e k proc name_ptr a2 a3 = do {
     s \<leftarrow> destroy_endpoint (k_ipc k) proc;
     Some (Ret 0 (set_ipc s k))
   }"

text \<open>The message is sent before the arguments are checked.\<close>

definition scall_mq_send :: scall where
  "scall_mq_send e k proc mqid buf sz = do {
     (r, s) \<leftarrow> send_msg (k_ipc k) proc mqid buf (ucast sz);
     let k1 = set_ipc s k;
     (case r of
        SendBlocked ep \<Rightarrow> Some (Waits k1)
      | SendDone r \<Rightarrow>
          Some (Ret (if \<not> is_valid_user_ptr buf then -1 else if sz = 0 \<or> sz > ucast IPC_MAX_MSG_SIZE then -1
                     else if r = 0 then 0 else -1) k1))
   }"

text \<open>The loop of \<open>receive_msg\<close> as the call sees it: what is returned is the size of the buffer.\<close>

definition mq_recv_wait :: "kernel \<Rightarrow> u64 \<Rightarrow> u64 \<Rightarrow> u64 \<Rightarrow> scall_result option" where
  "mq_recv_wait k proc buf sz = do {
     (got, s) \<leftarrow> receive_msg (k_ipc k) proc buf (ucast sz) (k_sender_slot k);
     Some (if got then Ret (int_ret (int_arg sz)) (set_ipc s k) else Waits (set_ipc s k))
   }"

definition scall_mq_recv :: scall where
  "scall_mq_recv e k proc mqid buf sz = do {
     let k0 = set_bytes (store64 (k_bytes k) (k_sender_slot k) 0) k;
     (got, s) \<leftarrow> receive_async_msg (k_ipc k0) proc buf (ucast sz) (k_sender_slot k0);
     let k1 = set_ipc s k0;
     if \<not> is_valid_user_ptr buf then Some (Ret (-1) k1)
     else if sz = 0 then Some (Ret (-1) k1)
     else if got < 0 then mq_recv_wait k1 proc buf sz
     else Some (Ret (int_ret got) k1)
   }"

definition scall_mmap :: scall where
  "scall_mmap e k proc addr len shm =
    (let pages0 = ucast ((len + 0xFFF) div 0x1000) :: u32; pages = (if pages0 = 0 then 1 else pages0);
         attach = (\<lambda>k n. or_panic (shm_attach (k_shms k) proc n) (\<lambda>(virt, s).
           Some (Ret (if virt = 0 then -1 else virt) (set_shms s k))))
     in if shm = 0 then or_panic (shm_create (k_shms k) pages) (\<lambda>(n, s).
            let k1 = set_shms s k in if n = 0 then Some (Ret (-1) k1) else attach k1 n)
        else attach k shm)"

definition scall_munmap :: scall where
  "scall_munmap e k proc addr len a3 = Some (Ret (if addr = 0 then -1 else 0) k)"

section \<open>Choosing who goes on\<close>

definition task_of :: "kernel \<Rightarrow> u64 \<Rightarrow> nat option" where
  "task_of k proc = find (\<lambda>i. t_proc (mt_tasks (k_mt k) ! i) = proc) [0..<mt_task_count (k_mt k)]"

definition make_current :: "nat \<Rightarrow> kernel \<Rightarrow> kernel" where
  "make_current i k =
    (let t = mt_tasks (k_mt k) ! i; m = (k_mt k)\<lparr>mt_current_idx := int i\<rparr>
     in k\<lparr>k_mt := (if t_kstack t \<noteq> 0 then m\<lparr>hw_rsp0 := kstack_top t\<rparr> else m)\<rparr>)"

definition set_curr :: "u64 \<Rightarrow> kernel \<Rightarrow> kernel" where
  "set_curr proc k = set_ul ((k_ul k)\<lparr>ptr_proc_curr := proc\<rparr>) k"

definition set_p_state :: "u64 \<Rightarrow> u64 \<Rightarrow> kernel \<Rightarrow> kernel" where
  "set_p_state proc st k = upd_k_proc proc (\<lambda>r. r\<lparr>p_state := st\<rparr>) k"

definition runnable :: "kernel \<Rightarrow> nat \<Rightarrow> bool" where
  "runnable k i \<longleftrightarrow> has_proc (k_mt k) i \<and> task_state (k_mt k) i \<noteq> PROC_ZOMBIE \<and> task_state (k_mt k) i \<noteq> PROC_BLOCKED"

definition ctx_user_regs :: "mt_user_ctx \<Rightarrow> u64 \<Rightarrow> user_regs" where
  "ctx_user_regs c cr3 = (let r = uc_regs c in \<lparr>u_rcx = rip r, u_rsp = rsp r, u_r11 = rflags r, u_cr3 = cr3, u_rbx = rbx r,
     u_rbp = rbp r, u_r12 = r12 r, u_r13 = r13 r, u_r14 = r14 r, u_r15 = r15 r\<rparr>)"

text \<open>The first task that can run goes on; without one the machine halts.\<close>

definition run_first :: "kernel \<Rightarrow> scall_result" where
  "run_first k =
    (case if k_has_mt k then find (runnable k) [0..<mt_task_count (k_mt k)] else None of
       None \<Rightarrow> Halts k
     | Some i \<Rightarrow>
         let t = mt_tasks (k_mt k) ! i; a = t_proc t;
             k1 = make_current i (set_curr a (set_p_state a PROC_RUNNING k))
         in if uc_saved (t_user_ctx t) then resume_parent_sysret (ctx_user_regs (t_user_ctx t) (p_pml4_phys (k_proc k1 a))) k1
            else JumpToUserspace a k1)"

section \<open>Waiting and ending\<close>

definition MAX_BLOCKED :: nat where "MAX_BLOCKED = 16"

definition add_blocked :: "u64 \<Rightarrow> u64 \<Rightarrow> kernel \<Rightarrow> kernel" where
  "add_blocked proc pid k =
    (if length (k_blocked k) < MAX_BLOCKED
     then k\<lparr>k_blocked := k_blocked k @ [\<lparr>be_proc = proc, be_regs = k_user k, be_waiting_for_pid = pid\<rparr>]\<rparr> else k)"

definition scall_waitpid :: scall where
  "scall_waitpid e k proc pid a2 a3 =
    (let child = find_proc (k_ul k) pid
     in if child = 0 then Some (Ret (-1) k)
        else if p_state (k_proc k child) = PROC_ZOMBIE then Some (Ret pid k)
        else Some (run_first (set_curr 0 (set_p_state proc PROC_BLOCKED (add_blocked proc pid k)))))"

definition free_frames :: "u64 \<Rightarrow> u64 \<Rightarrow> kernel \<Rightarrow> kernel outcome" where
  "free_frames phys sz k =
    (case physmem_free_to (pg_pm (ul_pg (k_ul k))) phys (sz div PAGE_SIZE) of
       Inl m \<Rightarrow> Inl m | Inr pm \<Rightarrow> Inr (set_ul (set_pm pm (k_ul k)) k))"

definition remove_blocked :: "nat \<Rightarrow> blocked_entry list \<Rightarrow> blocked_entry list" where
  "remove_blocked i bs = butlast (bs[i := last bs])"

definition drop_task :: "u64 \<Rightarrow> kernel \<Rightarrow> kernel" where
  "drop_task proc k =
    (case if k_has_mt k then task_of k proc else None of
       None \<Rightarrow> k
     | Some i \<Rightarrow> k\<lparr>k_mt := (k_mt k)\<lparr>mt_tasks := (mt_tasks (k_mt k))[i := (mt_tasks (k_mt k) ! i)\<lparr>t_valid := False\<rparr>]\<rparr>\<rparr>)"

definition wake_parent :: "nat \<Rightarrow> kernel \<Rightarrow> scall_result" where
  "wake_parent i k =
    (let b = k_blocked k ! i; parent = be_proc b;
         k1 = set_curr parent (set_p_state parent PROC_RUNNING (k\<lparr>k_blocked := remove_blocked i (k_blocked k)\<rparr>));
         k2 = (case if k_has_mt k then task_of k1 parent else None of None \<Rightarrow> k1 | Some j \<Rightarrow> make_current j k1)
     in resume_parent_sysret (be_regs b) k2)"

definition exit_heap :: "u64 \<Rightarrow> kernel \<Rightarrow> kernel outcome" where
  "exit_heap proc k =
    (let p = k_proc k proc
     in if p_phys_heap p \<noteq> 0 \<and> p_heap_size p \<noteq> 0
        then obind (free_frames (p_phys_heap p) (p_heap_size p) k) (\<lambda>k. Inr (upd_k_proc proc (\<lambda>r. r\<lparr>p_phys_heap := 0\<rparr>) k))
        else Inr k)"

definition exit_stack :: "u64 \<Rightarrow> kernel \<Rightarrow> kernel outcome" where
  "exit_stack proc k =
    (let p = k_proc k proc
     in if p_phys_stack p \<noteq> 0 \<and> p_stack_size p \<noteq> 0
        then obind (free_frames (p_phys_stack p) (p_stack_size p) k) (\<lambda>k. Inr (upd_k_proc proc (\<lambda>r. r\<lparr>p_phys_stack := 0\<rparr>) k))
        else Inr k)"

definition waiter_of :: "u64 \<Rightarrow> kernel \<Rightarrow> nat option" where
  "waiter_of pid k = find (\<lambda>i. be_waiting_for_pid (k_blocked k ! i) = pid) [0..<length (k_blocked k)]"

definition scall_exit :: scall where
  "scall_exit e k proc exit_code a2 a3 =
    or_panic (obind (exit_heap proc k) (exit_stack proc)) (\<lambda>k1.
      let k2 = drop_task proc (set_p_state proc PROC_ZOMBIE k1)
      in Some (case waiter_of (p_pid (k_proc k proc)) k2 of Some i \<Rightarrow> wake_parent i k2 | None \<Rightarrow> run_first k2))"

section \<open>New processes\<close>

text \<open>
  \<open>proc_create_proc\<close> on the whole state: besides the tables of frames it clears the bytes of the new heap and the
  new stack, as they are seen through the direct map.
\<close>

definition k_hhdm :: "kernel \<Rightarrow> u64" where
  "k_hhdm k = g_hhdm_offset (ul_pg (k_ul k))"

definition create_process :: "kernel \<Rightarrow> string \<Rightarrow> u64 \<Rightarrow> u64 \<Rightarrow> (u64 \<times> kernel) outcome" where
  "create_process k name entry priority =
    (case proc_create_proc (if k_proc_mgr k then Some (k_ul k) else None) name entry priority of
       Inl m \<Rightarrow> Inl m
     | Inr (new, u) \<Rightarrow>
       let k1 = (case u of None \<Rightarrow> k | Some u \<Rightarrow> set_ul u k); p = k_proc k1 new;
           m1 = memset (k_bytes k1) (p_phys_heap p + k_hhdm k1) 0 (p_heap_size p);
           m2 = memset m1 (p_phys_stack p + k_hhdm k1) 0 (p_stack_size p)
       in Inr (new, if new = 0 then k1 else set_bytes m2 k1))"

definition USERPRIORITY :: u64 where "USERPRIORITY = 200"
definition EXECVE_ELF_MAX :: u64 where "EXECVE_ELF_MAX = 4 * 1024 * 1024"

definition find_proc_by_cr3 :: "ulime \<Rightarrow> u64 \<Rightarrow> u64" where
  "find_proc_by_cr3 u cr3 = (case find (\<lambda>a. p_pml4_phys (procs u a) = cr3) (ptr_proc_list u) of None \<Rightarrow> 0 | Some a \<Rightarrow> a)"

text \<open>The pointers of the argument vector, at most 31 of them.\<close>

fun argv_ptrs :: "mem \<Rightarrow> u64 \<Rightarrow> nat \<Rightarrow> u64 list" where
  "argv_ptrs m a 0 = []"
| "argv_ptrs m a (Suc n) = (let p = load64 m a in if p = 0 then [] else p # argv_ptrs m (a + 8) n)"

text \<open>The strings are copied from the last to the first, each below the one before.\<close>

fun push_args :: "u64 \<Rightarrow> u64 list \<Rightarrow> u64 \<Rightarrow> u64 \<Rightarrow> u64 list \<Rightarrow> mem \<Rightarrow> (u64 list \<times> u64 \<times> mem) option" where
  "push_args hhdm [] phys virt vs m = Some (vs, virt, m)"
| "push_args hhdm (a # as) phys virt vs m = do {
     s \<leftarrow> user_string m a;
     let len = word_of_nat (length s + 1);
     push_args hhdm as (phys - len) (virt - len) ((virt - len) # vs) (put_string s (hhdm + (phys - len)) m)
   }"

fun put_words :: "u64 list \<Rightarrow> u64 \<Rightarrow> mem \<Rightarrow> mem" where
  "put_words [] a m = m"
| "put_words (v # vs) a m = put_words vs (a + 8) (store64 m a v)"

definition setup_argv_on_stack :: "kernel \<Rightarrow> u64 \<Rightarrow> u64 list \<Rightarrow> kernel option" where
  "setup_argv_on_stack k new ptrs =
    (if ptrs = [] then Some k
     else let p = k_proc k new; pstack = p_phys_stack p; sbase = p_stack_base p; ssize = p_stack_size p; argc = length ptrs
     in do {
       (vs, v, m) \<leftarrow> push_args (k_hhdm k) (rev ptrs) (pstack + ssize) (sbase + ssize) [] (k_bytes k);
       let str_p_phys = pstack + ((v AND NOT 7) - sbase);
       let rsp_phys = (str_p_phys - word_of_nat (1 + argc + 1) * 8) AND NOT 0xF;
       Some (upd_k_proc new (\<lambda>r. r\<lparr>p_entry_rsp := sbase + (rsp_phys - pstack)\<rparr>)
         (set_bytes (put_words (word_of_nat argc # vs @ [0]) (k_hhdm k + rsp_phys) m) k))
     })"

definition base_name :: "string \<Rightarrow> string" where
  "base_name path = fold (\<lambda>i name. if path ! i = CHR ''/'' then drop (i + 1) path else name) [0..<length path] path"

definition upd_task :: "nat \<Rightarrow> (mt_task \<Rightarrow> mt_task) \<Rightarrow> kernel \<Rightarrow> kernel" where
  "upd_task i f k = k\<lparr>k_mt := (k_mt k)\<lparr>mt_tasks := (mt_tasks (k_mt k))[i := f (mt_tasks (k_mt k) ! i)]\<rparr>\<rparr>"

definition k_add_task :: "u64 \<Rightarrow> kernel \<Rightarrow> (int \<times> kernel) option" where
  "k_add_task proc k = do {
     (idx, m, kl, km) \<leftarrow> mt_add_task (k_mt k) proc (fs_klime (k_fs k)) (fs_mem (k_fs k));
     Some (idx, k\<lparr>k_mt := m, k_fs := (k_fs k)\<lparr>fs_klime := kl, fs_mem := km\<rparr>\<rparr>)
   }"

text \<open>The context of a task that has not run yet: the registers named in the code, the others as they were.\<close>

definition start_ctx :: "mt_user_ctx \<Rightarrow> u64 \<Rightarrow> user_regs \<Rightarrow> mt_user_ctx" where
  "start_ctx c cr3 u = \<lparr>uc_regs = (uc_regs c)\<lparr>rip := u_rcx u, rsp := u_rsp u, rflags := 0x202, cs := USER_CODE_SELECTOR OR 3,
     ss := USER_DATA_SELECTOR OR 3, rax := 0, rbx := u_rbx u, rbp := u_rbp u, r12 := u_r12 u, r13 := u_r13 u, r14 := u_r14 u,
     r15 := u_r15 u\<rparr>, uc_cr3 = cr3, uc_saved = True\<rparr>"

definition entry_regs :: "ulime_proc \<Rightarrow> user_regs" where
  "entry_regs p = \<lparr>u_rcx = p_entry_point p, u_rsp = (if p_entry_rsp p \<noteq> 0 then p_entry_rsp p else default_rsp p), u_r11 = 0x202,
     u_cr3 = p_pml4_phys p, u_rbx = 0, u_rbp = 0, u_r12 = 0, u_r13 = 0, u_r14 = 0, u_r15 = 0\<rparr>"

text \<open>The last part of \<open>execve\<close>, once the program is in the memory of the process \<open>new\<close>.\<close>

definition exec_start :: "u64 \<Rightarrow> u64 \<Rightarrow> kernel \<Rightarrow> scall_result option" where
  "exec_start caller new k =
    (let k1 = set_curr new (set_p_state caller PROC_BLOCKED (add_blocked caller (p_pid (k_proc k new)) k)) in do {
       k2 \<leftarrow> (if k_has_mt k1 then map_option snd (k_add_task new k1) else Some k1);
       let k3 = (case if k_has_mt k2 then task_of k2 new else None of
             None \<Rightarrow> k2
           | Some i \<Rightarrow> upd_task i (\<lambda>t. t\<lparr>t_user_ctx := start_ctx (t_user_ctx t) (p_pml4_phys (k_proc k2 new)) (entry_regs (k_proc k2 new))\<rparr>)
               (make_current i k2));
       Some (JumpToUserspace new k3)
     })"

text \<open>The file, read into the static buffer: \<open>None\<close> inside when the call fails before there is a process.\<close>

definition read_program :: "kenv \<Rightarrow> string \<Rightarrow> kernel \<Rightarrow> (int \<times> kernel) option" where
  "read_program e path k = do {
     (fd, s1) \<leftarrow> fs_open (ke_tab e) path O_RDONLY (k_fs k);
     if fd < 0 then Some (-1, k\<lparr>k_fs := s1\<rparr>)
     else do {
       (n, s2) \<leftarrow> fs_read (ke_tab e) fd (k_elf_buf k) EXECVE_ELF_MAX s1;
       (_, s3) \<leftarrow> fs_close (ke_tab e) fd s2;
       Some (if n \<le> 0 \<or> n \<ge> uint EXECVE_ELF_MAX then -1 else n, k\<lparr>k_fs := s3\<rparr>)
     }
   }"

definition scall_execve :: scall where
  "scall_execve e k proc path_ptr argv_ptr arg3 =
    (if \<not> is_valid_user_ptr path_ptr then Some (Ret (-1) k)
     else do {
       path \<leftarrow> user_string (k_bytes k) path_ptr;
       let found = find_proc_by_cr3 (k_ul k) (u_cr3 (k_user k));
       let caller = (if found = 0 then proc else found);
       if \<not> k_proc_mgr k then Some (Ret (-1) k)
       else do {
         (n, k1) \<leftarrow> read_program e path k;
         if n < 0 then Some (Ret (-1) k1)
         else or_panic (create_process k1 (base_name path) 0 USERPRIORITY) (\<lambda>(new, k2).
           if new = 0 then Some (Ret (-1) k2)
           else let k3 = upd_k_proc new (\<lambda>r. r\<lparr>p_uid := p_uid (k_proc k2 caller), p_gid := p_gid (k_proc k2 caller)\<rparr>) k2
           in or_panic (elf_load new (k_elf_buf k3) (word_of_int n) (k_bytes k3) (k_ul k3)) (\<lambda>(r, m, u).
             let k4 = set_bytes m (set_ul u k3)
             in if r \<noteq> 0 then Some (Ret (-1) k4)
                else do {
                  k5 \<leftarrow> (if is_valid_user_ptr argv_ptr then setup_argv_on_stack k4 new (argv_ptrs (k_bytes k4) argv_ptr 31) else Some k4);
                  exec_start caller new k5
                }))
       }
     })"

text \<open>\<open>fork\<close>: heap and stack are copied and mapped at the addresses of the parent, too.\<close>

definition map_run_of :: "u64 \<Rightarrow> u64 \<Rightarrow> u64 \<Rightarrow> u64 \<Rightarrow> u64 \<Rightarrow> kernel \<Rightarrow> kernel outcome" where
  "map_run_of pml4 virt phys n flags k =
    (case map_pages pml4 virt phys n flags (ul_pg (k_ul k)) of Inl m \<Rightarrow> Inl m | Inr pg \<Rightarrow> Inr (set_ul ((k_ul k)\<lparr>ul_pg := pg\<rparr>) k))"

definition fork_copy :: "u64 \<Rightarrow> u64 \<Rightarrow> kernel \<Rightarrow> kernel" where
  "fork_copy proc child k =
    (let p = k_proc k proc; c = k_proc k child; h = k_hhdm k;
         m1 = memcpy (k_bytes k) (p_phys_heap c + h) (p_phys_heap p + h) (p_heap_size p);
         m2 = memcpy m1 (p_phys_stack c + h) (p_phys_stack p + h) (p_stack_size p)
     in upd_k_proc child (\<lambda>r. r\<lparr>p_brk := p_heap_base c + (p_brk p - p_heap_base p), p_entry_point := u_rcx (k_user k),
          p_entry_rsp := u_rsp (k_user k)\<rparr>) (set_bytes m2 k))"

definition fork_map :: "u64 \<Rightarrow> u64 \<Rightarrow> kernel \<Rightarrow> kernel outcome" where
  "fork_map proc child k =
    (let p = k_proc k proc; c = k_proc k child; hn = p_heap_size p div 0x1000; sn = p_stack_size p div 0x1000;
         hf = PTE_PRESENT OR PTE_WRITABLE OR PTE_USER; sf = PTE_PRESENT OR PTE_WRITABLE OR PTE_USER OR PTE_NX
     in obind (map_run_of (p_pml4_phys c) (p_heap_base p) (p_phys_heap c) hn hf k) (\<lambda>k1.
        obind (map_run_of (p_pml4_phys c) (p_stack_base p) (p_phys_stack c) sn sf k1) (\<lambda>k2.
        obind (if p_vma_base p \<noteq> 0 then map_run_of (p_pml4_phys c) (p_vma_base p) (p_phys_heap c) hn hf k2 else Inr k2) (\<lambda>k3.
        Inr (upd_k_proc child (\<lambda>r. r\<lparr>p_vma_base := p_vma_base p\<rparr>) k3)))))"

definition scall_fork :: scall where
  "scall_fork e k proc a1 a2 a3 =
    (if \<not> k_proc_mgr k \<or> \<not> k_has_mt k then Some (Ret (-1) k)
     else let p = k_proc k proc
     in or_panic (create_process k (p_name p) (p_entry_point p) (p_priority p)) (\<lambda>(child, k1).
       if child = 0 then Some (Ret (-1) k1)
       else let k2 = fork_copy proc child (upd_k_proc child (\<lambda>r. r\<lparr>p_uid := p_uid p, p_gid := p_gid p\<rparr>) k1)
       in or_panic (fork_map proc child k2) (\<lambda>k3. do {
         (idx, k4) \<leftarrow> k_add_task child k3;
         if idx < 0 then Some (Ret (-1) k4)
         else Some (Ret (p_pid (k_proc k4 child))
           (upd_task (nat idx) (\<lambda>t. t\<lparr>t_user_ctx := start_ctx (t_user_ctx t) (p_pml4_phys (k_proc k4 child)) (k_user k4)\<rparr>) k4))
       })))"

section \<open>The handler\<close>

definition syscall_table :: "(u64 \<times> scall) list" where
  "syscall_table = [(0, scall_read), (1, scall_write), (2, scall_open), (3, scall_close), (8, scall_lseek), (39, scall_getpid),
     (12, scall_brk), (60, scall_exit), (59, scall_execve), (78, scall_getdents), (80, scall_chdir), (79, scall_getcwd),
     (16, scall_ioctl), (240, scall_mq_open), (241, scall_mq_unlink), (242, scall_mq_send), (243, scall_mq_recv), (83, scall_mkdir),
     (87, scall_unlink), (9, scall_mmap), (11, scall_munmap), (57, scall_fork), (61, scall_waitpid), (144, scall_getuid),
     (155, scall_getgid), (169, scall_reboot), (170, scall_sysinfo)]"

definition syscall_handler :: "kenv \<Rightarrow> kernel \<Rightarrow> u64 \<Rightarrow> u64 \<Rightarrow> u64 \<Rightarrow> u64 \<Rightarrow> scall_result option" where
  "syscall_handler e k num arg1 arg2 arg3 =
    (let current = find_proc_by_cr3 (k_ul k) (u_cr3 (k_user k))
     in if current = 0 then Some (Ret (-1) k)
        else let p = k_proc k current; k1 = k\<lparr>k_fs := (k_fs k)\<lparr>g_current_uid := p_uid p, g_current_gid := p_gid p\<rparr>\<rparr>
        in case map_of syscall_table num of
             None \<Rightarrow> Some (Ret (-1) k1)
           | Some f \<Rightarrow> f e k1 current arg1 arg2 arg3)"

text \<open>What the processor and \<^verbatim>\<open>syscall_entry.asm\<close> save of a caller with the registers \<open>r\<close>.\<close>

definition syscall_entry :: "kenv \<Rightarrow> kernel \<Rightarrow> regs \<Rightarrow> scall_result option" where
  "syscall_entry e k r = syscall_handler e
     (k\<lparr>k_user := \<lparr>u_rcx = rip r, u_rsp = rsp r, u_r11 = rflags r, u_cr3 = hw_cr3 (k_mt k), u_rbx = rbx r, u_rbp = rbp r,
        u_r12 = r12 r, u_r13 = r13 r, u_r14 = r14 r, u_r15 = r15 r\<rparr>\<rparr>) (rax r) (rdi r) (rsi r) (rdx r)"

section \<open>The working directory under every call\<close>

text \<open>What a call leaves behind; nothing after a panic.\<close>

fun kernel_of :: "scall_result \<Rightarrow> kernel option" where
  "kernel_of (Ret v k) = Some k"
| "kernel_of (Enter r k) = Some k"
| "kernel_of (Waits k) = Some k"
| "kernel_of (Halts k) = Some k"
| "kernel_of (Panics m) = None"

definition keeps :: "(kernel \<Rightarrow> 'a) \<Rightarrow> kernel \<Rightarrow> scall_result option \<Rightarrow> bool" where
  "keeps g k r \<longleftrightarrow> (\<forall>x k'. r = Some x \<longrightarrow> kernel_of x = Some k' \<longrightarrow> g k' = g k)"

lemma keeps_simps [simp]:
  "keeps g k None" "keeps g k (Some (Panics m))" "keeps g k (Some (Ret v k')) \<longleftrightarrow> g k' = g k" "keeps g k (Some (Enter r k')) \<longleftrightarrow> g k' = g k"
  "keeps g k (Some (Waits k')) \<longleftrightarrow> g k' = g k" "keeps g k (Some (Halts k')) \<longleftrightarrow> g k' = g k"
  by (auto simp: keeps_def)

lemma keeps_trans: "g k1 = g k \<Longrightarrow> keeps g k1 r \<Longrightarrow> keeps g k r"
  by (simp add: keeps_def)

lemma keeps_bind: "(\<And>x. m = Some x \<Longrightarrow> keeps g k (f x)) \<Longrightarrow> keeps g k (Option.bind m f)"
  by (cases m) simp_all

lemma keeps_or_panic: "(\<And>x. r = Inr x \<Longrightarrow> keeps g k (f x)) \<Longrightarrow> keeps g k (or_panic r f)"
  by (cases r) simp_all

lemma keeps_if: "(c \<Longrightarrow> keeps g k a) \<Longrightarrow> (\<not> c \<Longrightarrow> keeps g k b) \<Longrightarrow> keeps g k (if c then a else b)"
  by simp

lemma keeps_map: "(\<And>x. m = Some x \<Longrightarrow> keeps g k (Some (f x))) \<Longrightarrow> keeps g k (map_option f m)"
  by (cases m) simp_all

lemma keeps_let: "keeps g k (f x) \<Longrightarrow> keeps g k (let y = x in f y)"
  by simp

lemma keeps_prod: "(\<And>a b. p = (a, b) \<Longrightarrow> keeps g k (f a b)) \<Longrightarrow> keeps g k (case p of (a, b) \<Rightarrow> f a b)"
  by (cases p) simp

lemmas keeps_intros = keeps_bind keeps_or_panic keeps_if keeps_map keeps_prod keeps_let

lemma cwd_upds [simp]:
  "k_cwd (set_ul u k) = k_cwd k" "k_cwd (set_vts v k) = k_cwd k" "k_cwd (set_ipc s k) = k_cwd k" "k_cwd (set_shms h k) = k_cwd k"
  "k_cwd (upd_k_proc a f k) = k_cwd k" "k_cwd (set_curr a k) = k_cwd k" "k_cwd (set_p_state a st k) = k_cwd k" "k_cwd (make_current i k) = k_cwd k"
  "k_cwd (add_blocked a n k) = k_cwd k" "k_cwd (drop_task a k) = k_cwd k" "k_cwd (fork_copy p c k) = k_cwd k" "k_cwd (upd_task i h' k) = k_cwd k"
  by (simp_all add: set_vts_def set_ipc_def set_shms_def upd_k_proc_def set_curr_def set_p_state_def make_current_def Let_def
      add_blocked_def drop_task_def fork_copy_def upd_task_def set_ul_def set_bytes_def split: option.split)

lemma keeps_run_first [simp]: "keeps k_cwd k0 (Some (run_first k)) \<longleftrightarrow> k_cwd k = k_cwd k0"
  by (simp add: run_first_def Let_def resume_parent_sysret_def JumpToUserspace_def split: option.split)

lemma keeps_wake_parent [simp]: "keeps k_cwd k0 (Some (wake_parent i k)) \<longleftrightarrow> k_cwd k = k_cwd k0"
  by (simp add: wake_parent_def Let_def resume_parent_sysret_def split: option.split)

lemma outcome_cwd:
  "free_frames p n k = Inr k' \<Longrightarrow> k_cwd k' = k_cwd k"
  "create_process k nm en pr = Inr (a, k') \<Longrightarrow> k_cwd k' = k_cwd k"
  "map_run_of p4 v ph m fl k = Inr k' \<Longrightarrow> k_cwd k' = k_cwd k"
  "k_add_task a k = Some (i, k') \<Longrightarrow> k_cwd k' = k_cwd k"
  "setup_argv_on_stack k a ptrs = Some k' \<Longrightarrow> k_cwd k' = k_cwd k"
  "read_program e path k = Some (j, k') \<Longrightarrow> k_cwd k' = k_cwd k"
  by (auto simp: free_frames_def create_process_def map_run_of_def k_add_task_def setup_argv_on_stack_def read_program_def Let_def Option.bind_eq_Some_conv
      split: sum.splits option.splits prod.splits if_splits)

lemma fork_map_cwd: "fork_map p c k = Inr k' \<Longrightarrow> k_cwd k' = k_cwd k"
  by (auto simp: fork_map_def Let_def obind_def outcome_cwd(3) split: sum.splits if_splits dest: outcome_cwd(3))

lemma cwd_read: "keeps k_cwd k (scall_read e k proc a b c)"
  by (auto simp: scall_read_def fs_ret_def Let_def intro!: keeps_intros split: option.split prod.split read_result.split send_result.split)

lemma cwd_write: "keeps k_cwd k (scall_write e k proc a b c)"
  by (auto simp: scall_write_def fs_ret_def Let_def intro!: keeps_intros split: option.split prod.split read_result.split send_result.split)

lemma cwd_open: "keeps k_cwd k (scall_open e k proc a b c)"
  by (auto simp: scall_open_def fs_ret_or_fail_def Let_def intro!: keeps_intros split: option.split prod.split read_result.split send_result.split)

lemma cwd_close: "keeps k_cwd k (scall_close e k proc a b c)"
  by (auto simp: scall_close_def fs_ret_def Let_def intro!: keeps_intros split: option.split prod.split read_result.split send_result.split)

lemma cwd_lseek: "keeps k_cwd k (scall_lseek e k proc a b c)"
  by (auto simp: scall_lseek_def Let_def intro!: keeps_intros split: option.split prod.split read_result.split send_result.split)

lemma cwd_getpid: "keeps k_cwd k (scall_getpid e k proc a b c)"
  by (auto simp: scall_getpid_def Let_def intro!: keeps_intros split: option.split prod.split read_result.split send_result.split)

lemma cwd_getuid: "keeps k_cwd k (scall_getuid e k proc a b c)"
  by (auto simp: scall_getuid_def Let_def intro!: keeps_intros split: option.split prod.split read_result.split send_result.split)

lemma cwd_getgid: "keeps k_cwd k (scall_getgid e k proc a b c)"
  by (auto simp: scall_getgid_def Let_def intro!: keeps_intros split: option.split prod.split read_result.split send_result.split)

lemma cwd_brk: "keeps k_cwd k (scall_brk e k proc a b c)"
  by (auto simp: scall_brk_def Let_def intro!: keeps_intros split: option.split prod.split read_result.split send_result.split)

lemma cwd_sysinfo: "keeps k_cwd k (scall_sysinfo e k proc a b c)"
  by (auto simp: scall_sysinfo_def Let_def intro!: keeps_intros split: option.split prod.split read_result.split send_result.split)

lemma cwd_reboot: "keeps k_cwd k (scall_reboot e k proc a b c)"
  by (auto simp: scall_reboot_def Let_def intro!: keeps_intros split: option.split prod.split read_result.split send_result.split)

lemma cwd_getdents: "keeps k_cwd k (scall_getdents e k proc a b c)"
  by (auto simp: scall_getdents_def Let_def intro!: keeps_intros split: option.split prod.split read_result.split send_result.split)

lemma cwd_getcwd: "keeps k_cwd k (scall_getcwd e k proc a b c)"
  by (auto simp: scall_getcwd_def Let_def intro!: keeps_intros split: option.split prod.split read_result.split send_result.split)

lemma cwd_mkdir: "keeps k_cwd k (scall_mkdir e k proc a b c)"
  by (auto simp: scall_mkdir_def Let_def intro!: keeps_intros split: option.split prod.split read_result.split send_result.split)

lemma cwd_unlink: "keeps k_cwd k (scall_unlink e k proc a b c)"
  by (auto simp: scall_unlink_def Let_def intro!: keeps_intros split: option.split prod.split read_result.split send_result.split)

lemma cwd_mq_open: "keeps k_cwd k (scall_mq_open e k proc a b c)"
  by (auto simp: scall_mq_open_def Let_def intro!: keeps_intros split: option.split prod.split read_result.split send_result.split)

lemma cwd_mq_unlink: "keeps k_cwd k (scall_mq_unlink e k proc a b c)"
  by (auto simp: scall_mq_unlink_def Let_def intro!: keeps_intros split: option.split prod.split read_result.split send_result.split)

lemma cwd_mq_send: "keeps k_cwd k (scall_mq_send e k proc a b c)"
  by (auto simp: scall_mq_send_def Let_def intro!: keeps_intros split: option.split prod.split read_result.split send_result.split)

lemma cwd_mq_recv: "keeps k_cwd k (scall_mq_recv e k proc a b c)"
  by (auto simp: scall_mq_recv_def mq_recv_wait_def Let_def intro!: keeps_intros split: option.split prod.split read_result.split send_result.split)

lemma cwd_mmap: "keeps k_cwd k (scall_mmap e k proc a b c)"
  by (auto simp: scall_mmap_def Let_def intro!: keeps_intros split: option.split prod.split read_result.split send_result.split)

lemma cwd_munmap: "keeps k_cwd k (scall_munmap e k proc a b c)"
  by (auto simp: scall_munmap_def Let_def intro!: keeps_intros split: option.split prod.split read_result.split send_result.split)

lemma cwd_waitpid: "keeps k_cwd k (scall_waitpid e k proc a b c)"
  by (auto simp: scall_waitpid_def Let_def intro!: keeps_intros split: option.split prod.split read_result.split send_result.split)

text \<open>The request to the frame buffer is not the kernel's own code here: it is supposed to leave the directory alone.\<close>

definition env_ok :: "kenv \<Rightarrow> bool" where
  "env_ok e \<longleftrightarrow> (\<forall>rq a k r k'. ke_fb0_ioctl e rq a k = Some (r, k') \<longrightarrow> k_cwd k' = k_cwd k)"

lemma cwd_ioctl: "env_ok e \<Longrightarrow> keeps k_cwd k (scall_ioctl e k proc a b c)"
  by (auto simp: scall_ioctl_def fs_ret_def Let_def env_ok_def intro!: keeps_intros)

lemma cwd_exec_start: "keeps k_cwd k (exec_start a n k)"
  by (auto simp: exec_start_def Let_def JumpToUserspace_def intro!: keeps_intros split: option.split dest!: outcome_cwd)

lemma exit_frees_cwd: "exit_heap a k = Inr k' \<Longrightarrow> k_cwd k' = k_cwd k" "exit_stack a k = Inr k' \<Longrightarrow> k_cwd k' = k_cwd k"
  by (auto simp: exit_heap_def exit_stack_def Let_def obind_def split: sum.splits if_splits dest!: outcome_cwd(1))

lemma cwd_exit: "keeps k_cwd k (scall_exit e k proc a b c)"
  unfolding scall_exit_def
proof (rule keeps_or_panic)
  fix k1 assume "obind (exit_heap proc k) (exit_stack proc) = Inr k1"
  then have "k_cwd k1 = k_cwd k" by (auto simp: obind_def split: sum.splits dest!: exit_frees_cwd)
  then show "keeps k_cwd k (let k2 = drop_task proc (set_p_state proc PROC_ZOMBIE k1)
      in Some (case waiter_of (p_pid (k_proc k proc)) k2 of Some i \<Rightarrow> wake_parent i k2 | None \<Rightarrow> run_first k2))"
    by (simp add: Let_def split: option.split)
qed

lemma cwd_execve: "keeps k_cwd k (scall_execve e k proc a b c)"
  by (auto simp: scall_execve_def Let_def intro!: keeps_intros keeps_trans [OF _ cwd_exec_start] split: option.split sum.split if_splits dest!: outcome_cwd)

lemma cwd_fork: "keeps k_cwd k (scall_fork e k proc a b c)"
  by (auto simp: scall_fork_def Let_def intro!: keeps_intros split: option.split sum.split if_splits dest!: outcome_cwd fork_map_cwd)

lemma chdir_ret: "scall_chdir e k proc a b c = Some x \<Longrightarrow> \<exists>r k'. x = Ret r k'"
  by (auto simp: scall_chdir_def chdir_to_def Let_def Option.bind_eq_Some_conv split: if_splits)

lemma cwd_chdir: "cwd_ok (k_cwd k) \<Longrightarrow> chdir_fits k a \<Longrightarrow> scall_chdir e k proc a b c = Some x \<Longrightarrow> kernel_of x = Some k' \<Longrightarrow> cwd_ok (k_cwd k')"
  by (metis chdir_ok chdir_ret kernel_of.simps(1) option.inject)

lemmas cwd_calls = cwd_read cwd_write cwd_open cwd_close cwd_lseek cwd_getpid cwd_getuid cwd_getgid cwd_brk cwd_sysinfo cwd_reboot
  cwd_getdents cwd_getcwd cwd_mkdir cwd_unlink cwd_mq_open cwd_mq_unlink cwd_mq_send cwd_mq_recv cwd_mmap cwd_munmap cwd_waitpid
  cwd_exit cwd_execve cwd_fork

lemma call_keeps_cwd:
  assumes "(n, f) \<in> set syscall_table" "env_ok e" "cwd_ok (k_cwd k)" "f e k proc a b c = Some x" "kernel_of x = Some k'"
    and "n = 80 \<Longrightarrow> chdir_fits k a"
  shows "cwd_ok (k_cwd k')"
proof (cases "n = 80")
  case True
  then have "f = scall_chdir" using assms(1) by (auto simp: syscall_table_def)
  then show ?thesis using cwd_chdir assms(3-6) True by blast
next
  case False
  then have "keeps k_cwd k (f e k proc a b c)"
    using assms(1) cwd_ioctl [OF assms(2)] by (auto simp: syscall_table_def intro: cwd_calls)
  then show ?thesis using assms(3-5) by (simp add: keeps_def)
qed

section \<open>The end of a process\<close>

definition k_pm :: "kernel \<Rightarrow> physmem" where
  "k_pm k = pg_pm (ul_pg (k_ul k))"

lemma set_ul_twice [simp]: "set_ul v (set_ul u k) = set_ul v k"
  by (simp add: set_ul_def)

lemma set_pm_simps [simp]: "pg_pm (ul_pg (set_pm pm u)) = pm" "procs (set_pm pm u) = procs u" "set_pm q (set_pm pm u) = set_pm q u"
  "upd_proc a f (set_pm pm u) = set_pm pm (upd_proc a f u)" "pg_pm (ul_pg (upd_proc a f u)) = pg_pm (ul_pg u)"
  by (simp_all add: set_pm_def upd_proc_def)

lemma free_frames_ok:
  assumes "pm_ok (k_pm k)" "page_run phys (sz div PAGE_SIZE) \<subseteq> {..<unat (pm_total (k_pm k))}"
  obtains pm where "free_frames phys sz k = Inr (set_ul (set_pm pm (k_ul k)) k)" "pm_ok pm"
    "unat (pm_total pm) = unat (pm_total (k_pm k))"
    "\<And>j. frame_free pm j \<longleftrightarrow> j \<in> page_run phys (sz div PAGE_SIZE) \<or> frame_free (k_pm k) j"
proof -
  obtain pm where pm: "physmem_free_to (k_pm k) phys (sz div PAGE_SIZE) = Inr pm" "pm_ok pm"
      "unat (pm_total pm) = unat (pm_total (k_pm k))" using pm.release_total [OF assms(1)] by blast
  have "free_frames phys sz k = Inr (set_ul (set_pm pm (k_ul k)) k)" using pm(1) by (simp add: free_frames_def k_pm_def)
  then show thesis using that pm(2,3) pm.release_isfree [OF assms(1) pm(1) assms(2)] by blast
qed

definition heap_frames :: "ulime_proc \<Rightarrow> nat set" where
  "heap_frames p = page_run (p_phys_heap p) (p_heap_size p div PAGE_SIZE)"

definition stack_frames :: "ulime_proc \<Rightarrow> nat set" where
  "stack_frames p = page_run (p_phys_stack p) (p_stack_size p div PAGE_SIZE)"

text \<open>A process with a heap and a stack in the managed memory.\<close>

definition has_frames :: "kernel \<Rightarrow> u64 \<Rightarrow> bool" where
  "has_frames k a \<longleftrightarrow> (let p = k_proc k a in p_phys_heap p \<noteq> 0 \<and> p_heap_size p \<noteq> 0 \<and> p_phys_stack p \<noteq> 0 \<and> p_stack_size p \<noteq> 0
     \<and> heap_frames p \<subseteq> {..<unat (pm_total (k_pm k))} \<and> stack_frames p \<subseteq> {..<unat (pm_total (k_pm k))})"

definition cleared :: "ulime_proc \<Rightarrow> ulime_proc" where
  "cleared r = r\<lparr>p_phys_heap := 0, p_phys_stack := 0\<rparr>"

lemma upd_proc_twice: "upd_proc a f (upd_proc a g u) = upd_proc a (\<lambda>r. f (g r)) u"
  by (simp add: upd_proc_def)

lemma cleared_eq: "cleared = (\<lambda>r. r\<lparr>p_phys_heap := 0, p_phys_stack := 0\<rparr>)"
  by (simp add: fun_eq_iff cleared_def)

lemma exit_frees:
  assumes ok: "pm_ok (k_pm k)" and p: "has_frames k proc"
  obtains pm where "obind (exit_heap proc k) (exit_stack proc) = Inr (set_ul (set_pm pm (upd_proc proc cleared (k_ul k))) k)" "pm_ok pm"
    "\<And>j. frame_free pm j \<longleftrightarrow> j \<in> heap_frames (k_proc k proc) \<or> j \<in> stack_frames (k_proc k proc) \<or> frame_free (k_pm k) j"
proof -
  let ?p = "k_proc k proc"
  have sub: "heap_frames ?p \<subseteq> {..<unat (pm_total (k_pm k))}" "stack_frames ?p \<subseteq> {..<unat (pm_total (k_pm k))}"
    using p by (simp_all add: has_frames_def Let_def)
  obtain pm1 where pm1: "free_frames (p_phys_heap ?p) (p_heap_size ?p) k = Inr (set_ul (set_pm pm1 (k_ul k)) k)" "pm_ok pm1"
      "unat (pm_total pm1) = unat (pm_total (k_pm k))"
      "\<And>j. frame_free pm1 j \<longleftrightarrow> j \<in> heap_frames ?p \<or> frame_free (k_pm k) j"
    using free_frames_ok [OF ok sub(1) [unfolded heap_frames_def]] unfolding heap_frames_def by blast
  define k1 where "k1 = upd_k_proc proc (\<lambda>r. r\<lparr>p_phys_heap := 0\<rparr>) (set_ul (set_pm pm1 (k_ul k)) k)"
  have h: "exit_heap proc k = Inr k1"
    using pm1(1) p by (simp add: exit_heap_def has_frames_def Let_def obind_def k1_def)
  have k1: "k_pm k1 = pm1" "k_proc k1 proc = ?p\<lparr>p_phys_heap := 0\<rparr>"
    by (simp_all add: k1_def k_pm_def upd_k_proc_def k_proc_def upd_proc_def)
  have u1: "k_ul k1 = set_pm pm1 (upd_proc proc (\<lambda>r. r\<lparr>p_phys_heap := 0\<rparr>) (k_ul k))"
    by (simp add: k1_def upd_k_proc_def)
  have st: "p_phys_stack (k_proc k1 proc) = p_phys_stack ?p" "p_stack_size (k_proc k1 proc) = p_stack_size ?p"
    using k1(2) by simp_all
  have o1: "pm_ok (k_pm k1)" using pm1(2) k1(1) by simp
  have s1: "page_run (p_phys_stack ?p) (p_stack_size ?p div PAGE_SIZE) \<subseteq> {..<unat (pm_total (k_pm k1))}"
    using sub(2) pm1(3) unfolding stack_frames_def k1(1) by simp
  obtain pm2 where pm2: "free_frames (p_phys_stack ?p) (p_stack_size ?p) k1 = Inr (set_ul (set_pm pm2 (k_ul k1)) k1)" "pm_ok pm2"
      "\<And>j. frame_free pm2 j \<longleftrightarrow> j \<in> stack_frames ?p \<or> frame_free pm1 j"
    using free_frames_ok [OF o1 s1] unfolding k1(1) stack_frames_def by blast
  have "exit_stack proc k1 = Inr (upd_k_proc proc (\<lambda>r. r\<lparr>p_phys_stack := 0\<rparr>) (set_ul (set_pm pm2 (k_ul k1)) k1))"
    using pm2(1) p st by (simp add: exit_stack_def has_frames_def Let_def obind_def)
  also have "upd_k_proc proc (\<lambda>r. r\<lparr>p_phys_stack := 0\<rparr>) (set_ul (set_pm pm2 (k_ul k1)) k1) =
      set_ul (set_pm pm2 (upd_proc proc cleared (k_ul k))) k"
    unfolding u1 upd_k_proc_def by (simp add: k1_def upd_k_proc_def upd_proc_twice cleared_eq)
  finally have "obind (exit_heap proc k) (exit_stack proc) = Inr (set_ul (set_pm pm2 (upd_proc proc cleared (k_ul k))) k)"
    using h by (simp add: obind_def)
  from that [OF this pm2(2)] show thesis using pm1(4) pm2(3) by blast
qed

lemma make_current_simps [simp]:
  "k_ul (make_current i k) = k_ul k" "k_blocked (make_current i k) = k_blocked k" "k_has_mt (make_current i k) = k_has_mt k"
  "mt_tasks (k_mt (make_current i k)) = mt_tasks (k_mt k)"
  by (simp_all add: make_current_def Let_def k_ul_def)

lemma drop_task_simps [simp]:
  "k_ul (drop_task a k) = k_ul k" "k_blocked (drop_task a k) = k_blocked k" "k_has_mt (drop_task a k) = k_has_mt k"
  by (simp_all add: drop_task_def k_ul_def split: option.split)

lemma set_p_state_simps [simp]:
  "k_ul (set_p_state a st k) = upd_proc a (\<lambda>r. r\<lparr>p_state := st\<rparr>) (k_ul k)" "k_blocked (set_p_state a st k) = k_blocked k"
  "k_has_mt (set_p_state a st k) = k_has_mt k" "mt_tasks (k_mt (set_p_state a st k)) = mt_tasks (k_mt k)"
  by (simp_all add: set_p_state_def upd_k_proc_def)

lemma set_curr_simps [simp]:
  "k_ul (set_curr a k) = (k_ul k)\<lparr>ptr_proc_curr := a\<rparr>" "k_blocked (set_curr a k) = k_blocked k" "k_has_mt (set_curr a k) = k_has_mt k"
  "mt_tasks (k_mt (set_curr a k)) = mt_tasks (k_mt k)"
  by (simp_all add: set_curr_def)

definition saved_regs :: "user_regs \<Rightarrow> regs" where
  "saved_regs u = sysret_regs (u_rcx u) (u_rsp u) (u_r11 u) (u_rbx u) (u_rbp u) (u_r12 u) (u_r13 u) (u_r14 u) (u_r15 u)"

lemma wake_parent_spec:
  assumes "i < length (k_blocked k)" "b = k_blocked k ! i"
  shows "\<exists>k'. wake_parent i k = Enter (saved_regs (be_regs b)) k' \<and> hw_cr3 (k_mt k') = u_cr3 (be_regs b)
    \<and> k_ul k' = (upd_proc (be_proc b) (\<lambda>r. r\<lparr>p_state := PROC_RUNNING\<rparr>) (k_ul k))\<lparr>ptr_proc_curr := be_proc b\<rparr>
    \<and> k_blocked k' = remove_blocked i (k_blocked k)"
proof -
  have up: "k_ul (k\<lparr>k_blocked := bs\<rparr>) = k_ul k" "k_ul (k1\<lparr>k_mt := (k_mt k1)\<lparr>hw_cr3 := c\<rparr>\<rparr>) = k_ul k1" for bs k1 c
    by (simp_all add: k_ul_def)
  show ?thesis using assms
    by (simp add: wake_parent_def resume_parent_sysret_def Let_def up saved_regs_def split: option.split)
qed

lemma mset_remove_blocked:
  assumes "i < length bs"
  shows "mset (remove_blocked i bs) = mset bs - {#bs ! i#}"
proof -
  have ne: "bs \<noteq> []" using assms by auto
  show ?thesis
  proof (cases "i = length bs - 1")
    case True
    then have "bs[i := last bs] = bs" using ne by (simp add: last_conv_nth)
    moreover have "mset bs = mset (butlast bs) + {#last bs#}" using ne by (metis append_butlast_last_id mset.simps mset_append union_mset_add_mset_right add_mset_add_single empty_neutral(1) mset_single_iff)
    ultimately show ?thesis using True ne by (simp add: remove_blocked_def last_conv_nth)
  next
    case False
    then have i: "i < length (butlast bs)" using assms by simp
    obtain xs x where bs: "bs = xs @ [x]" using ne by (metis append_butlast_last_id)
    then have "remove_blocked i bs = xs[i := x]" using i by (simp add: remove_blocked_def list_update_append)
    then show ?thesis using i bs by (simp add: mset_update nth_append)
  qed
qed

text \<open>Who goes on after the caller: the first task that can run and is not the caller's.\<close>

lemma run_first_spec:
  assumes "k_has_mt k" "find (runnable k) [0..<mt_task_count (k_mt k)] = Some i" "uc_saved (t_user_ctx (mt_tasks (k_mt k) ! i))"
  defines "t \<equiv> mt_tasks (k_mt k) ! i"
  shows "\<exists>k'. run_first k = Enter (saved_regs (ctx_user_regs (t_user_ctx t) (p_pml4_phys (k_proc k (t_proc t))))) k'"
proof -
  have "p_pml4_phys (k_proc (make_current i (set_curr a (set_p_state a st k))) b) = p_pml4_phys (k_proc k b)" for a b st
    by (simp add: k_proc_def upd_proc_def)
  then show ?thesis using assms by (simp add: run_first_def Let_def resume_parent_sysret_def saved_regs_def)
qed

lemma run_first_frame:
  assumes "p_state (k_proc k a) = PROC_BLOCKED" "ptr_proc_curr (k_ul k) \<noteq> a"
  shows "\<exists>k'. kernel_of (run_first k) = Some k' \<and> k_blocked k' = k_blocked k \<and> p_state (k_proc k' a) = PROC_BLOCKED
    \<and> ptr_proc_curr (k_ul k') \<noteq> a"
proof (cases "if k_has_mt k then find (runnable k) [0..<mt_task_count (k_mt k)] else None")
  case None
  then show ?thesis using assms by (simp add: run_first_def)
next
  case (Some i)
  let ?a = "t_proc (mt_tasks (k_mt k) ! i)"
  have "runnable k i" using Some by (auto simp: find_Some_iff split: if_splits)
  then have ne: "?a \<noteq> a" using assms(1) by (auto simp: runnable_def task_state_def k_proc_def k_ul_def)
  have up: "k_ul (q\<lparr>k_mt := (k_mt q)\<lparr>hw_cr3 := c\<rparr>\<rparr>) = k_ul q"
    "k_ul (q\<lparr>k_mt := (set_state b st (k_mt q))\<lparr>hw_cr3 := c\<rparr>\<rparr>) = upd_proc b (\<lambda>r. r\<lparr>p_state := st\<rparr>) (k_ul q)" for q c b st
    by (simp_all add: k_ul_def set_state_def)
  show ?thesis using Some assms ne
    by (simp add: run_first_def Let_def resume_parent_sysret_def JumpToUserspace_def k_proc_def up upd_proc_def)
qed

lemma nth_update_in: "j < length xs \<Longrightarrow> xs[i := x] ! j = (if i = j then x else xs ! j)"
  by auto

lemma drop_task_valid:
  "j < length (mt_tasks (k_mt k)) \<Longrightarrow> t_proc (mt_tasks (k_mt (drop_task a k)) ! j) = t_proc (mt_tasks (k_mt k) ! j)
   \<and> t_user_ctx (mt_tasks (k_mt (drop_task a k)) ! j) = t_user_ctx (mt_tasks (k_mt k) ! j)
   \<and> (t_proc (mt_tasks (k_mt k) ! j) \<noteq> a \<longrightarrow> mt_tasks (k_mt (drop_task a k)) ! j = mt_tasks (k_mt k) ! j)"
  by (auto simp: drop_task_def task_of_def find_Some_iff nth_update_in split: option.split)

lemma k_mt_count [simp]: "mt_task_count (k_mt (drop_task a k)) = mt_task_count (k_mt k)" "mt_task_count (k_mt (set_p_state a st k)) = mt_task_count (k_mt k)"
  "mt_task_count (k_mt (set_curr a k)) = mt_task_count (k_mt k)"
  by (simp_all add: drop_task_def set_p_state_def upd_k_proc_def set_curr_def split: option.split)

lemma runnable_after_exit:
  assumes "j < length (mt_tasks (k_mt k))"
  shows "runnable (drop_task a (set_p_state a PROC_ZOMBIE k)) j \<longleftrightarrow> runnable k j \<and> t_proc (mt_tasks (k_mt k) ! j) \<noteq> a"
  using drop_task_valid [of j "set_p_state a PROC_ZOMBIE k" a] assms
  by (auto simp: runnable_def has_proc_def task_state_def upd_proc_def simp flip: k_ul_def)

section \<open>Concrete states\<close>

text \<open>Process 5 runs, process 4 waits for it.\<close>

definition ul_run_ex :: ulime where
  "ul_run_ex = upd_proc 16 (\<lambda>r. r\<lparr>p_pid := 4, p_state := PROC_BLOCKED, p_pml4_phys := 0x8000\<rparr>)
     (upd_proc 8 (\<lambda>r. r\<lparr>p_state := PROC_RUNNING, p_pml4_phys := 0x9000\<rparr>) (ul_mapped\<lparr>ptr_proc_list := [8, 16]\<rparr>))"

definition wait_ex :: blocked_entry where
  "wait_ex = \<lparr>be_proc = 16, be_regs = \<lparr>u_rcx = 0x402000, u_rsp = 0x7FF0, u_r11 = 0x202, u_cr3 = 0x8000, u_rbx = 1, u_rbp = 2, u_r12 = 3,
     u_r13 = 4, u_r14 = 5, u_r15 = 6\<rparr>, be_waiting_for_pid = 5\<rparr>"

definition kern_run_ex :: kernel where
  "kern_run_ex = kern_ex\<lparr>k_mt := mt_ex\<lparr>mt_ulime := ul_run_ex\<rparr>, k_blocked := [wait_ex]\<rparr>"

text \<open>Process 4 was stopped by the timer with 7 in \<open>rax\<close>.\<close>

definition ctx_ex :: mt_user_ctx where
  "ctx_ex = \<lparr>uc_regs = zero_regs\<lparr>rax := 7, rip := 0x402000, rflags := 0x246\<rparr>, uc_cr3 = 0x8000, uc_saved = True\<rparr>"

definition kern_ready_ex :: kernel where
  "kern_ready_ex = kern_ex\<lparr>k_mt := mt_ex\<lparr>mt_ulime := upd_proc 16 (\<lambda>r. r\<lparr>p_state := PROC_READY\<rparr>) ul_run_ex,
     mt_tasks := [task_ex 8, (task_ex 16)\<lparr>t_user_ctx := ctx_ex\<rparr>]\<rparr>\<rparr>"

lemma run_ex_procs:
  "p_pid (procs ul_run_ex 8) = 5" "p_phys_heap (procs ul_run_ex 8) = 0x200000" "p_heap_size (procs ul_run_ex 8) = 0x2000"
  "p_phys_stack (procs ul_run_ex 8) = 0x202000" "p_stack_size (procs ul_run_ex 8) = 0x1000" "p_state (procs ul_run_ex 8) = PROC_RUNNING"
  "p_pml4_phys (procs ul_run_ex 8) = 0x9000" "pg_pm (ul_pg ul_run_ex) = pm_520" "ptr_proc_list ul_run_ex = [8, 16]"
  by (simp_all add: ul_run_ex_def ul_mapped_def upd_proc_def ul_ex_def ulime_init_def pg_ex_def)

lemma run_ex_frames: "heap_frames (procs ul_run_ex 8) = {512..<514}" "stack_frames (procs ul_run_ex 8) = {514..<515}"
  unfolding heap_frames_def stack_frames_def run_ex_procs page_run_def by (simp_all add: PAGE_SIZE_def)

lemma run_ex_ul: "k_ul kern_run_ex = ul_run_ex" "k_ul kern_ready_ex = upd_proc 16 (\<lambda>r. r\<lparr>p_state := PROC_READY\<rparr>) ul_run_ex"
  by (simp_all add: k_ul_def kern_run_ex_def kern_ready_ex_def)

lemma run_ex_proc8: "k_proc kern_run_ex 8 = procs ul_run_ex 8" "k_proc kern_ready_ex 8 = procs ul_run_ex 8"
  by (simp_all add: k_proc_def run_ex_ul upd_proc_def)

lemma run_ex_has: "has_frames kern_run_ex 8" "has_frames kern_ready_ex 8"
  by (auto simp: has_frames_def Let_def run_ex_proc8 run_ex_procs run_ex_frames k_pm_def run_ex_ul pm_520_def)

lemma run_ex_pm: "k_pm kern_run_ex = pm_520" "k_pm kern_ready_ex = pm_520"
  by (simp_all add: k_pm_def run_ex_ul run_ex_procs)

section \<open>Properties\<close>



text \<open>
  C10. When a process ends for which another waits, that one runs on in user mode where it made the call, with the stack pointer, the
  flags, the registers that a call preserves and the page tables of its entry in the list of waiters; \<open>rax\<close> is zero, so that the wait
  returns 0 and not the number of the child, and so are the other registers of the arguments. That entry is taken from the list and no other,
  and the ended process is a zombie. Of its memory exactly the frames of the heap and of the stack become free: those of its program and
  of its page tables stay taken.
\<close>
theorem exit_wakes_waiter:
  assumes "pm_ok (k_pm k)" "has_frames k proc"
    and "waiter_of (p_pid (k_proc k proc)) k = Some i" "b = k_blocked k ! i" "be_proc b \<noteq> proc"
  shows "\<exists>r k'. scall_exit e k proc code a2 a3 = Some (Enter r k')
    \<and> rip r = u_rcx (be_regs b) \<and> rsp r = u_rsp (be_regs b) \<and> rflags r = u_r11 (be_regs b)
    \<and> rbx r = u_rbx (be_regs b) \<and> rbp r = u_rbp (be_regs b)
    \<and> r12 r = u_r12 (be_regs b) \<and> r13 r = u_r13 (be_regs b) \<and> r14 r = u_r14 (be_regs b) \<and> r15 r = u_r15 (be_regs b)
    \<and> [rax r, rdi r, rsi r, rdx r, r8 r, r9 r, r10 r] = [0, 0, 0, 0, 0, 0, 0] \<and> cs r = 0x23 \<and> ss r = 0x1B
    \<and> hw_cr3 (k_mt k') = u_cr3 (be_regs b)
    \<and> p_state (k_proc k' proc) = PROC_ZOMBIE \<and> p_state (k_proc k' (be_proc b)) = PROC_RUNNING \<and> ptr_proc_curr (k_ul k') = be_proc b
    \<and> mset (k_blocked k') = mset (k_blocked k) - {#b#}
    \<and> (\<forall>j. frame_free (k_pm k') j \<longleftrightarrow> j \<in> heap_frames (k_proc k proc) \<or> j \<in> stack_frames (k_proc k proc) \<or> frame_free (k_pm k) j)"
proof -
  obtain pm where pm: "obind (exit_heap proc k) (exit_stack proc) = Inr (set_ul (set_pm pm (upd_proc proc cleared (k_ul k))) k)"
      "\<And>j. frame_free pm j \<longleftrightarrow> j \<in> heap_frames (k_proc k proc) \<or> j \<in> stack_frames (k_proc k proc) \<or> frame_free (k_pm k) j"
    using exit_frees [OF assms(1,2)] by metis
  define k2 where "k2 = drop_task proc (set_p_state proc PROC_ZOMBIE (set_ul (set_pm pm (upd_proc proc cleared (k_ul k))) k))"
  have bl: "k_blocked k2 = k_blocked k" by (simp add: k2_def)
  then have w: "waiter_of (p_pid (k_proc k proc)) k2 = Some i" using assms(3) by (simp add: waiter_of_def)
  have i: "i < length (k_blocked k)" using assms(3) by (auto simp: waiter_of_def find_Some_iff)
  obtain k' where k': "wake_parent i k2 = Enter (saved_regs (be_regs b)) k'" "hw_cr3 (k_mt k') = u_cr3 (be_regs b)"
      "k_ul k' = (upd_proc (be_proc b) (\<lambda>r. r\<lparr>p_state := PROC_RUNNING\<rparr>) (k_ul k2))\<lparr>ptr_proc_curr := be_proc b\<rparr>"
      "k_blocked k' = remove_blocked i (k_blocked k)"
    using wake_parent_spec [of i k2 b] i assms(4) bl by auto
  have "scall_exit e k proc code a2 a3 = Some (Enter (saved_regs (be_regs b)) k')"
    using pm(1) w k'(1) by (simp add: scall_exit_def k2_def Let_def)
  moreover have "k_pm k' = pm" using k'(3) by (simp add: k_pm_def k2_def)
  moreover have "p_state (k_proc k' proc) = PROC_ZOMBIE" "p_state (k_proc k' (be_proc b)) = PROC_RUNNING" "ptr_proc_curr (k_ul k') = be_proc b"
    using k'(3) assms(5) by (simp_all add: k_proc_def k2_def upd_proc_def)
  ultimately show ?thesis using k'(2,4) pm(2) mset_remove_blocked [OF i] assms(4)
    by (intro exI [of _ "saved_regs (be_regs b)"] exI [of _ k'])
      (simp add: saved_regs_def sysret_regs_def zero_regs_def USER_CODE_SELECTOR_def USER_DATA_SELECTOR_def)
qed

theorem exit_wakes_waiter_witness:
  "\<exists>r k'. scall_exit env_ex kern_run_ex 8 0 0 0 = Some (Enter r k') \<and> k_blocked k' = [] \<and> frame_free (k_pm k') 514
    \<and> rip r = 0x402000 \<and> r13 r = 4 \<and> rax r = 0"
proof -
  have w: "waiter_of (p_pid (k_proc kern_run_ex 8)) kern_run_ex = Some 0" "wait_ex = k_blocked kern_run_ex ! 0" "be_proc wait_ex \<noteq> 8"
    unfolding run_ex_proc8 run_ex_procs by (simp_all add: waiter_of_def kern_run_ex_def wait_ex_def)
  obtain r k' where k': "scall_exit env_ex kern_run_ex 8 0 0 0 = Some (Enter r k')" "rip r = u_rcx (be_regs wait_ex)"
      "r13 r = u_r13 (be_regs wait_ex)" "[rax r, rdi r, rsi r, rdx r, r8 r, r9 r, r10 r] = [0, 0, 0, 0, 0, 0, 0]"
      "mset (k_blocked k') = mset (k_blocked kern_run_ex) - {#wait_ex#}"
      "\<forall>j. frame_free (k_pm k') j \<longleftrightarrow> j \<in> heap_frames (k_proc kern_run_ex 8) \<or> j \<in> stack_frames (k_proc kern_run_ex 8) \<or> frame_free (k_pm kern_run_ex) j"
    using exit_wakes_waiter [OF pm_520_ok [folded run_ex_pm(1)] run_ex_has(1) w, of env_ex 0 0 0] by blast
  have "k_blocked k' = []" using k'(5) by (simp add: kern_run_ex_def)
  moreover have "frame_free (k_pm k') 514" using k'(6) by (simp add: run_ex_proc8 run_ex_frames)
  moreover have "rip r = 0x402000" "r13 r = 4" "rax r = 0" using k'(2-4) by (simp_all add: wait_ex_def)
  ultimately show ?thesis using k'(1) by blast
qed

text \<open>
  When a process ends for which nobody waits, the first other task that can run goes on; if it had been preempted, it gets back only the
  registers that a call preserves: \<open>rax\<close>, \<open>rdx\<close>, \<open>rsi\<close>, \<open>rdi\<close>, \<open>r8\<close>, \<open>r9\<close> and \<open>r10\<close> are zero and \<open>rcx\<close> and \<open>r11\<close> are overwritten, whatever they
  were when the timer stopped it.
\<close>
lemma exit_loses_registers:
  assumes "pm_ok (k_pm k)" "has_frames k proc" "waiter_of (p_pid (k_proc k proc)) k = None" "k_has_mt k" "mt_task_count (k_mt k) \<le> length (mt_tasks (k_mt k))"
    and "find (\<lambda>j. runnable k j \<and> t_proc (mt_tasks (k_mt k) ! j) \<noteq> proc) [0..<mt_task_count (k_mt k)] = Some i"
    and "c = t_user_ctx (mt_tasks (k_mt k) ! i)" "uc_saved c"
  shows "\<exists>r k'. scall_exit e k proc code a2 a3 = Some (Enter r k') \<and> r = (uc_regs c)\<lparr>rax := 0, rdx := 0, rsi := 0, rdi := 0, r8 := 0, r9 := 0, r10 := 0,
      rcx := rip (uc_regs c), r11 := rflags (uc_regs c), cs := USER_CODE_SELECTOR OR 3, ss := USER_DATA_SELECTOR OR 3\<rparr>"
proof -
  obtain pm where pm: "obind (exit_heap proc k) (exit_stack proc) = Inr (set_ul (set_pm pm (upd_proc proc cleared (k_ul k))) k)"
    using exit_frees [OF assms(1,2)] by metis
  let ?k1 = "set_ul (set_pm pm (upd_proc proc cleared (k_ul k))) k"
  define k2 where "k2 = drop_task proc (set_p_state proc PROC_ZOMBIE ?k1)"
  have w: "waiter_of (p_pid (k_proc k proc)) k2 = None" using assms(3) by (simp add: waiter_of_def k2_def)
  have r1: "runnable ?k1 j = runnable k j" for j
    by (simp add: runnable_def has_proc_def task_state_def upd_proc_def cleared_def k_ul_def set_ul_def set_pm_def)
  have "runnable k2 j \<longleftrightarrow> runnable k j \<and> t_proc (mt_tasks (k_mt k) ! j) \<noteq> proc" if "j < mt_task_count (k_mt k)" for j
    using runnable_after_exit [of j ?k1 proc] that assms(5) by (simp add: k2_def r1)
  then have "find (runnable k2) [0..<mt_task_count (k_mt k)] = Some i"
    using assms(6) by (subst find_cong [OF refl, of _ _ "\<lambda>j. runnable k j \<and> t_proc (mt_tasks (k_mt k) ! j) \<noteq> proc"]) auto
  moreover have "t_user_ctx (mt_tasks (k_mt k2) ! i) = c"
    using drop_task_valid [of i "set_p_state proc PROC_ZOMBIE ?k1" proc] assms(5-7) by (auto simp: k2_def find_Some_iff)
  ultimately obtain k' where "run_first k2 = Enter (saved_regs (ctx_user_regs c (p_pml4_phys (k_proc k2 (t_proc (mt_tasks (k_mt k2) ! i)))))) k'"
    using run_first_spec [of k2 i] assms(4,8) by (auto simp: k2_def)
  then have "scall_exit e k proc code a2 a3 = Some (Enter (saved_regs (ctx_user_regs c (p_pml4_phys (k_proc k2 (t_proc (mt_tasks (k_mt k2) ! i)))))) k')"
    using pm w by (simp add: scall_exit_def k2_def Let_def)
  then show ?thesis by (intro exI conjI) (assumption, simp add: saved_regs_def sysret_regs_def ctx_user_regs_def zero_regs_def Let_def)
qed

lemma exit_loses_registers_witness:
  "\<exists>r k'. scall_exit env_ex kern_ready_ex 8 0 0 0 = Some (Enter r k') \<and> rax r = 0 \<and> rcx r = 0x402000 \<and> rax (uc_regs ctx_ex) = 7"
proof -
  have w: "waiter_of (p_pid (k_proc kern_ready_ex 8)) kern_ready_ex = None" "k_has_mt kern_ready_ex"
    "mt_task_count (k_mt kern_ready_ex) \<le> length (mt_tasks (k_mt kern_ready_ex))"
    by (simp_all add: waiter_of_def kern_ready_ex_def kern_ex_def mt_ex_def)
  have f: "find (\<lambda>j. runnable kern_ready_ex j \<and> t_proc (mt_tasks (k_mt kern_ready_ex) ! j) \<noteq> 8) [0..<mt_task_count (k_mt kern_ready_ex)] = Some 1"
    by (simp add: upt_rec kern_ready_ex_def mt_ex_def task_ex_def runnable_def has_proc_def task_state_def upd_proc_def proc_state_defs)
  have c: "ctx_ex = t_user_ctx (mt_tasks (k_mt kern_ready_ex) ! 1)" "uc_saved ctx_ex" by (simp_all add: kern_ready_ex_def ctx_ex_def)
  obtain r k' where k': "scall_exit env_ex kern_ready_ex 8 0 0 0 = Some (Enter r k')"
      "r = (uc_regs ctx_ex)\<lparr>rax := 0, rdx := 0, rsi := 0, rdi := 0, r8 := 0, r9 := 0, r10 := 0,
      rcx := rip (uc_regs ctx_ex), r11 := rflags (uc_regs ctx_ex), cs := USER_CODE_SELECTOR OR 3, ss := USER_DATA_SELECTOR OR 3\<rparr>"
    using exit_loses_registers [OF pm_520_ok [folded run_ex_pm(2)] run_ex_has(2) w f c, of env_ex 0 0 0] by blast
  then show ?thesis by (auto simp: ctx_ex_def)
qed

text \<open>
  A process that waits for another which has not ended is blocked and does not go on; it is remembered, with its registers,
  only as one of at most sixteen waiters: when that many wait already, the list stays as it was and nobody will wake it.
\<close>
lemma waitpid_blocks:
  assumes "proc \<noteq> 0" "find_proc (k_ul k) pid = child" "child \<noteq> 0" "p_state (k_proc k child) \<noteq> PROC_ZOMBIE"
  shows "\<exists>r k'. scall_waitpid e k proc pid a2 a3 = Some r \<and> kernel_of r = Some k' \<and> p_state (k_proc k' proc) = PROC_BLOCKED \<and> ptr_proc_curr (k_ul k') \<noteq> proc
    \<and> k_blocked k' = k_blocked k @ (if length (k_blocked k) < 16 then [\<lparr>be_proc = proc, be_regs = k_user k, be_waiting_for_pid = pid\<rparr>] else [])"
proof -
  let ?k = "set_curr 0 (set_p_state proc PROC_BLOCKED (add_blocked proc pid k))"
  have "scall_waitpid e k proc pid a2 a3 = Some (run_first ?k)"
    using assms by (simp add: scall_waitpid_def)
  moreover have "k_blocked ?k = k_blocked k @ (if length (k_blocked k) < 16 then [\<lparr>be_proc = proc, be_regs = k_user k, be_waiting_for_pid = pid\<rparr>] else [])"
    by (simp add: add_blocked_def MAX_BLOCKED_def)
  moreover have "p_state (k_proc ?k proc) = PROC_BLOCKED" "ptr_proc_curr (k_ul ?k) \<noteq> proc" using assms(1) by (simp_all add: k_proc_def upd_proc_def)
  ultimately show ?thesis using run_first_frame [of ?k proc] by metis
qed

lemma waitpid_blocks_witness:
  "\<exists>r k'. scall_waitpid env_ex (kern_run_ex\<lparr>k_blocked := replicate 16 wait_ex\<rparr>) 16 5 0 0 = Some r \<and> kernel_of r = Some k'
    \<and> p_state (k_proc k' 16) = PROC_BLOCKED \<and> length (k_blocked k') = 16"
proof -
  have ul: "k_ul (kern_run_ex\<lparr>k_blocked := bs\<rparr>) = ul_run_ex" for bs by (simp add: k_ul_def kern_run_ex_def)
  have "find_proc (k_ul (kern_run_ex\<lparr>k_blocked := replicate 16 wait_ex\<rparr>)) 5 = 8"
    "p_state (k_proc (kern_run_ex\<lparr>k_blocked := replicate 16 wait_ex\<rparr>) 8) \<noteq> PROC_ZOMBIE"
    by (simp_all add: ul find_proc_def run_ex_procs k_proc_def proc_state_defs)
  from waitpid_blocks [OF _ this(1) _ this(2), of 16 env_ex 0 0] show ?thesis by auto
qed

end
