(* ===== verification/Sha256.thy ===== *)
theory Sha256
  imports Prelude
begin

text \<open>
  The hash function of \<^verbatim>\<open>emex/kernel/data/sha256/sha256.c\<close>. A string is the list of its bytes before the
  NUL. The array \<open>chunk\<close> lies at an address that is a multiple of 16, as the calling convention
  asks for an array of its size, so that \<open>memcpy\<close> copies all its bytes. The theorems compare the code with
  the description in the standard: padding, message schedule and compression. The source has one wrong
  digit in its table of constants, so that the digests it computes are not those of SHA-256.
\<close>

section \<open>The code\<close>

definition SHA2_SHFR :: "u32 \<Rightarrow> nat \<Rightarrow> u32" where "SHA2_SHFR x n = drop_bit n x"
definition SHA2_ROTR :: "u32 \<Rightarrow> nat \<Rightarrow> u32" where "SHA2_ROTR x n = drop_bit n x OR push_bit (32 - n) x"
definition SHA2_CH :: "u32 \<Rightarrow> u32 \<Rightarrow> u32 \<Rightarrow> u32" where "SHA2_CH x y z = (x AND y) XOR (NOT x AND z)"
definition SHA2_MAJ :: "u32 \<Rightarrow> u32 \<Rightarrow> u32 \<Rightarrow> u32" where "SHA2_MAJ x y z = (x AND y) XOR (x AND z) XOR (y AND z)"
definition SHA2_F1 :: "u32 \<Rightarrow> u32" where "SHA2_F1 x = SHA2_ROTR x 2 XOR SHA2_ROTR x 13 XOR SHA2_ROTR x 22"
definition SHA2_F2 :: "u32 \<Rightarrow> u32" where "SHA2_F2 x = SHA2_ROTR x 6 XOR SHA2_ROTR x 11 XOR SHA2_ROTR x 25"
definition SHA2_F3 :: "u32 \<Rightarrow> u32" where "SHA2_F3 x = SHA2_ROTR x 7 XOR SHA2_ROTR x 18 XOR SHA2_SHFR x 3"
definition SHA2_F4 :: "u32 \<Rightarrow> u32" where "SHA2_F4 x = SHA2_ROTR x 17 XOR SHA2_ROTR x 19 XOR SHA2_SHFR x 10"

definition sha_K :: "u32 list" where
  "sha_K = concat [
    [0x428a2f98, 0x71374491, 0xb5c0fbcf, 0xe9b5dba5],
    [0x3956c25b, 0x59f111f1, 0x923f82a4, 0xab1c5ed5],
    [0xd807aa98, 0x12835b01, 0x243185be, 0x550c7dc3],
    [0x72be5d74, 0x80deb1fe, 0x9bdc06a7, 0xc19bf174],
    [0xe49b69c1, 0xefbe4786, 0x0fc19dc6, 0x240ca1cc],
    [0x2de92c6f, 0x4a7484aa, 0x5cb0a9dc, 0x76f988da],
    [0x983e5152, 0xa831c66d, 0xb00327c8, 0xbf597fc7],
    [0xc6e00bf3, 0xd5a79147, 0x06ca6351, 0x14292967],
    [0x27b70a85, 0x2e1b2138, 0x4d2c6dfc, 0x53380d13],
    [0x650a7354, 0x766a0abb, 0x81c2c92e, 0x92722c85],
    [0xa2bfe8a1, 0xa81a664b, 0xc24b8b70, 0xc76c51a3],
    [0xd192e819, 0xd6990624, 0xf40e3585, 0x106aa070],
    [0x19a4c116, 0x1e376c08, 0x2748774c, 0x34b0bcb5],
    [0x391c0cb3, 0x4ed8aa4a, 0x5b9cca4f, 0x682e6ff3],
    [0x748f82ee, 0x78a5636f, 0x84c87814, 0x8cc70208],
    [0x90beffea, 0xa4506ceb, 0xbef9a3f7, 0xc67178f2]]"

definition sha_H0 :: "u32 list" where
  "sha_H0 = [0x6a09e667, 0xbb67ae85, 0x3c6ef372, 0xa54ff53a, 0x510e527f, 0x9b05688c, 0x1f83d9ab, 0x5be0cd19]"

text \<open>The length in bits, from the end of the chunk to its front.\<close>

definition put_bitlen :: "u64 \<Rightarrow> u8 list \<Rightarrow> u8 list" where
  "put_bitlen bitlen chunk = fold (\<lambda>i c. c[63 - i := ucast (drop_bit (i * 8) bitlen)]) [0..<8] chunk"

definition expand :: "u8 list \<Rightarrow> u32 list" where
  "expand chunk =
    (let w0 = map (\<lambda>i. push_bit 24 (ucast (chunk ! (i * 4))) OR push_bit 16 (ucast (chunk ! (i * 4 + 1)))
                OR push_bit 8 (ucast (chunk ! (i * 4 + 2))) OR ucast (chunk ! (i * 4 + 3))) [0..<16]
     in fold (\<lambda>i w. w @ [SHA2_F4 (w ! (i - 2)) + w ! (i - 7) + SHA2_F3 (w ! (i - 15)) + w ! (i - 16)]) [16..<64] w0)"

definition sha_round :: "u32 list \<Rightarrow> nat \<Rightarrow> u32 list \<Rightarrow> u32 list" where
  "sha_round w i v =
    (let t1 = v ! 7 + SHA2_F2 (v ! 4) + SHA2_CH (v ! 4) (v ! 5) (v ! 6) + sha_K ! i + w ! i;
         t2 = SHA2_F1 (v ! 0) + SHA2_MAJ (v ! 0) (v ! 1) (v ! 2);
         v = v[7 := v ! 6]; v = v[6 := v ! 5]; v = v[5 := v ! 4]; v = v[4 := v ! 3 + t1];
         v = v[3 := v ! 2]; v = v[2 := v ! 1]; v = v[1 := v ! 0]
     in v[0 := t1 + t2])"

definition compress_chunk :: "u8 list \<Rightarrow> u32 list \<Rightarrow> u32 list" where
  "compress_chunk chunk h =
    (let w = expand chunk; v = fold (sha_round w) [0..<64] h
     in map (\<lambda>i. h ! i + v ! i) [0..<8])"

text \<open>The loop over the chunks. Its flags and its offset decide what the next chunk is.\<close>

function sha_loop :: "u8 list \<Rightarrow> nat \<Rightarrow> bool \<Rightarrow> u32 list \<Rightarrow> u32 list" where
  "sha_loop msg offset extra h =
    (let len = length msg; bitlen = word_of_nat len * 8; rem = len - offset; zeros = replicate 64 0
     in if 64 \<le> rem then sha_loop msg (offset + 64) extra (compress_chunk (take 64 (drop offset msg)) h)
        else if \<not> extra then
          let chunk = (drop offset msg @ drop rem zeros)[rem := 0x80]
          in if rem < 56 then compress_chunk (put_bitlen bitlen chunk) h
             else sha_loop msg len True (compress_chunk chunk h)
        else compress_chunk (put_bitlen bitlen zeros) h)"
  by pat_completeness auto
termination
  by (relation "measure (\<lambda>(msg, offset, extra, h). 2 * (length msg - offset) + (if extra then 0 else 1))") auto

declare sha_loop.simps [simp del]

definition hex_map :: string where "hex_map = ''0123456789abcdef''"

definition hex_digest :: "u32 list \<Rightarrow> string" where
  "hex_digest h = concat (map (\<lambda>i. concat (map (\<lambda>j.
     let byte = ucast (drop_bit ((3 - j) * 8) (h ! i)) :: u8
     in [hex_map ! unat (drop_bit 4 byte AND 0x0F), hex_map ! unat (byte AND 0x0F)]) [0..<4])) [0..<8])"

text \<open>The result is the number of one of four buffers, which are used in turn.\<close>

record sha_buffers =
  sha256_buffers :: "string list"
  sha256_buf_idx :: nat

definition sha256_hash :: "u8 list option \<Rightarrow> sha_buffers \<Rightarrow> nat option \<times> sha_buffers" where
  "sha256_hash src s =
    (case src of None \<Rightarrow> (None, s)
     | Some msg \<Rightarrow> (Some (sha256_buf_idx s), \<lparr>sha256_buffers = (sha256_buffers s)[sha256_buf_idx s := hex_digest (sha_loop msg 0 False sha_H0)],
         sha256_buf_idx = (sha256_buf_idx s + 1) mod 4\<rparr>))"

section \<open>The standard\<close>

text \<open>The functions of the standard: rotations of the word, shifts as divisions, the choice and the majority with \<open>OR\<close>.\<close>

definition std_Sigma0 :: "u32 \<Rightarrow> u32" where "std_Sigma0 x = word_rotr 2 x XOR word_rotr 13 x XOR word_rotr 22 x"
definition std_Sigma1 :: "u32 \<Rightarrow> u32" where "std_Sigma1 x = word_rotr 6 x XOR word_rotr 11 x XOR word_rotr 25 x"
definition std_sigma0 :: "u32 \<Rightarrow> u32" where "std_sigma0 x = word_rotr 7 x XOR word_rotr 18 x XOR x div 8"
definition std_sigma1 :: "u32 \<Rightarrow> u32" where "std_sigma1 x = word_rotr 17 x XOR word_rotr 19 x XOR x div 1024"
definition std_Ch :: "u32 \<Rightarrow> u32 \<Rightarrow> u32 \<Rightarrow> u32" where "std_Ch x y z = (x AND y) OR (NOT x AND z)"
definition std_Maj :: "u32 \<Rightarrow> u32 \<Rightarrow> u32 \<Rightarrow> u32" where "std_Maj x y z = (x AND y) OR (x AND z) OR (y AND z)"

lemma rotr_rotr: "0 < n \<Longrightarrow> n < 32 \<Longrightarrow> SHA2_ROTR x n = word_rotr n x"
proof (rule bit_word_eqI)
  fix k
  assume n: "0 < n" "n < 32" and "k < LENGTH(32)"
  then have k: "k < 32" by simp
  have r: "bit (word_rotr n x) k \<longleftrightarrow> bit x ((k + n) mod 32)" using k by (simp add: bit_word_rotr_iff)
  show "bit (SHA2_ROTR x n) k \<longleftrightarrow> bit (word_rotr n x) k"
  proof (cases "k + n < 32")
    case True
    then show ?thesis using n k unfolding r by (auto simp: SHA2_ROTR_def bit_or_iff bit_drop_bit_eq bit_push_bit_iff add.commute [of n])
  next
    case False
    then have "(k + n) mod 32 = k - (32 - n)" using n k by (simp add: mod_if)
    moreover have "\<not> bit x (k + n)" using False bit_imp_le_length [of x "k + n"] by auto
    ultimately show ?thesis using False n k unfolding r
      by (auto simp: SHA2_ROTR_def bit_or_iff bit_drop_bit_eq bit_push_bit_iff add.commute [of n])
  qed
qed

lemma shift_div: "SHA2_SHFR x n = x div 2 ^ n"
  by (simp add: SHA2_SHFR_def drop_bit_eq_div)

lemma sha_std:
  "SHA2_F1 x = std_Sigma0 x" "SHA2_F2 x = std_Sigma1 x" "SHA2_F3 x = std_sigma0 x" "SHA2_F4 x = std_sigma1 x"
  by (simp_all add: SHA2_F1_def SHA2_F2_def SHA2_F3_def SHA2_F4_def std_Sigma0_def std_Sigma1_def std_sigma0_def std_sigma1_def
      rotr_rotr shift_div)

lemma sha_std_ch: "SHA2_CH x y z = std_Ch x y z" "SHA2_MAJ x y z = std_Maj x y z"
  by (rule bit_word_eqI, auto simp: SHA2_CH_def SHA2_MAJ_def std_Ch_def std_Maj_def bit_simps)+

text \<open>A number below 16 as a digit, a word as its eight digits, the highest first.\<close>

definition hexit :: "nat \<Rightarrow> char" where
  "hexit d = char_of (if d < 10 then 48 + d else 87 + d)"

definition hex_word :: "u32 \<Rightarrow> string" where
  "hex_word w = map (\<lambda>k. hexit (unat w div 16 ^ (7 - k) mod 16)) [0..<8]"

definition be64 :: "u64 \<Rightarrow> u8 list" where
  "be64 x = map (\<lambda>i. ucast (drop_bit (8 * (7 - i)) x)) [0..<8]"

definition sha_pad :: "u8 list \<Rightarrow> u8 list" where
  "sha_pad msg = msg @ [0x80] @ replicate ((119 - length msg mod 64) mod 64) 0 @ be64 (8 * word_of_nat (length msg))"

fun blocks64 :: "u8 list \<Rightarrow> nat \<Rightarrow> u8 list list" where
  "blocks64 m 0 = []"
| "blocks64 m (Suc n) = take 64 m # blocks64 (drop 64 m) n"

definition word_at :: "u8 list \<Rightarrow> nat \<Rightarrow> u32" where
  "word_at b t = ucast (b ! (4 * t)) * 2 ^ 24 + ucast (b ! (4 * t + 1)) * 2 ^ 16 + ucast (b ! (4 * t + 2)) * 2 ^ 8 + ucast (b ! (4 * t + 3))"

fun sched_word :: "u8 list \<Rightarrow> nat \<Rightarrow> u32" where
  "sched_word b t = (if t < 16 then word_at b t
     else std_sigma1 (sched_word b (t - 2)) + sched_word b (t - 7) + std_sigma0 (sched_word b (t - 15)) + sched_word b (t - 16))"

declare sched_word.simps [simp del]

text \<open>The constants of the standard: the first 32 bits behind the point of the cube roots of the first 64 primes. The cube root
  of a natural number is computed bit by bit.\<close>

fun cube_root :: "nat \<Rightarrow> nat \<Rightarrow> nat \<Rightarrow> nat" where
  "cube_root n 0 r = r"
| "cube_root n (Suc b) r = (if (r + 2 ^ b) ^ 3 \<le> n then cube_root n b (r + 2 ^ b) else cube_root n b r)"

definition first_primes :: "nat list" where
  "first_primes = [2, 3, 5, 7, 11, 13, 17, 19, 23, 29, 31, 37, 41, 43, 47, 53, 59, 61, 67, 71, 73, 79, 83, 89, 97, 101,
    103, 107, 109, 113, 127, 131, 137, 139, 149, 151, 157, 163, 167, 173, 179, 181, 191, 193, 197, 199, 211, 223, 227, 229, 233, 239, 241, 251, 257,
    263, 269, 271, 277, 281, 283, 293, 307, 311]"

definition std_word :: "nat \<Rightarrow> u32" where
  "std_word p = word_of_nat (cube_root (p * 2 ^ 96) 35 0)"

definition std_K :: "u32 list" where
  "std_K = map std_word first_primes"

lemma cube_root_floor: "r ^ 3 \<le> n \<Longrightarrow> n < (r + 2 ^ b) ^ 3 \<Longrightarrow> cube_root n b r ^ 3 \<le> n \<and> n < (cube_root n b r + 1) ^ 3"
proof (induction b arbitrary: r)
  case (Suc b)
  have e: "r + 2 ^ b + 2 ^ b = r + 2 ^ Suc b" by simp
  show ?case
  proof (cases "(r + 2 ^ b) ^ 3 \<le> n")
    case True
    then show ?thesis using Suc.IH [of "r + 2 ^ b", unfolded e, OF True Suc.prems(2)] by simp
  next
    case False
    then show ?thesis using Suc.IH [of r, OF Suc.prems(1)] by simp
  qed
qed simp

definition root_int :: "nat \<Rightarrow> nat" where
  "root_int p = (if p < 8 then 1 else if p < 27 then 2 else if p < 64 then 3 else if p < 125 then 4 else if p < 216 then 5 else 6)"

lemma std_word_eq:
  assumes "(root_int p * 2 ^ 32 + unat w) ^ 3 \<le> p * 2 ^ 96" and "p * 2 ^ 96 < (root_int p * 2 ^ 32 + unat w + 1) ^ 3"
  shows "std_word p = w"
proof -
  let ?k = "root_int p * 2 ^ 32 + unat w" and ?c = "cube_root (p * 2 ^ 96) 35 0"
  have "root_int p \<le> 6" by (simp add: root_int_def)
  then have "?k + 1 \<le> 2 ^ 35" using unat_lt_2p32 [of w] by (simp del: unat_lt_2p32)
  then have "(?k + 1) ^ 3 \<le> (2 ^ 35) ^ 3" by (rule power_mono) simp
  then have c: "?c ^ 3 \<le> p * 2 ^ 96" "p * 2 ^ 96 < (?c + 1) ^ 3"
    using cube_root_floor [of 0 "p * 2 ^ 96" 35] assms(2) by simp_all
  have "?c < ?k + 1" using le_less_trans [OF c(1) assms(2)] power_less_imp_less_base by blast
  moreover have "?k < ?c + 1" using le_less_trans [OF assms(1) c(2)] power_less_imp_less_base by blast
  ultimately have "?c = ?k" by simp
  then have "std_word p = word_of_nat (root_int p) * (2 ^ 32 :: u32) + w" by (simp add: std_word_def)
  moreover have "(2 ^ 32 :: u32) = 0" by simp
  ultimately show ?thesis by (simp only: mult_zero_right add_0_left)
qed

lemma sha_K_typo: "sha_K = std_K[60 := 0x90beffea]"
proof -
  have "sha_K[60 := 0x90befffa] = std_K"
    unfolding std_K_def first_primes_def list.map sha_K_def concat.simps append.simps append_Nil2
    by (simp, intro conjI; rule std_word_eq; simp add: root_int_def)
  moreover have "sha_K ! 60 = 0x90beffea" by (simp add: sha_K_def)
  ultimately show ?thesis by (metis list_update_overwrite list_update_id)
qed

lemma std_K_60: "std_K ! 60 = 0x90befffa"
  by (simp add: std_K_def first_primes_def, rule std_word_eq; simp add: root_int_def)

text \<open>The working variables after some rounds.\<close>

type_synonym sha_vars = "u32 \<times> u32 \<times> u32 \<times> u32 \<times> u32 \<times> u32 \<times> u32 \<times> u32"

fun rounds :: "u32 list \<Rightarrow> u8 list \<Rightarrow> nat \<Rightarrow> sha_vars \<Rightarrow> sha_vars" where
  "rounds ks b 0 v = v"
| "rounds ks b (Suc t) v = (case rounds ks b t v of (va, vb, vc, vd, ve, vf, vg, vh) \<Rightarrow>
     let t1 = vh + std_Sigma1 ve + std_Ch ve vf vg + ks ! t + sched_word b t; t2 = std_Sigma0 va + std_Maj va vb vc
     in (t1 + t2, va, vb, vc, vd + t1, ve, vf, vg))"

definition sha_block :: "u32 list \<Rightarrow> sha_vars \<Rightarrow> u8 list \<Rightarrow> sha_vars" where
  "sha_block ks h b = (case h of (h0, h1, h2, h3, h4, h5, h6, h7) \<Rightarrow> case rounds ks b 64 h of (va, vb, vc, vd, ve, vf, vg, vh) \<Rightarrow>
     (h0 + va, h1 + vb, h2 + vc, h3 + vd, h4 + ve, h5 + vf, h6 + vg, h7 + vh))"

definition sha_spec :: "u32 list \<Rightarrow> u8 list \<Rightarrow> sha_vars" where
  "sha_spec ks msg = foldl (sha_block ks) (0x6a09e667, 0xbb67ae85, 0x3c6ef372, 0xa54ff53a, 0x510e527f, 0x9b05688c, 0x1f83d9ab, 0x5be0cd19)
     (blocks64 (sha_pad msg) (length (sha_pad msg) div 64))"

fun vars_list :: "sha_vars \<Rightarrow> u32 list" where
  "vars_list (va, vb, vc, vd, ve, vf, vg, vh) = [va, vb, vc, vd, ve, vf, vg, vh]"

section \<open>Compression\<close>

lemma byte_below: "ucast (d :: u8) = take_bit 8 (ucast d :: u32)"
  by (rule bit_word_eqI) (auto simp: bit_simps dest: bit_imp_le_length)

lemma or_low:
  fixes x :: u32 and d :: u8
  shows "push_bit 8 x OR ucast d = x * 2 ^ 8 + ucast d"
proof -
  have "push_bit 8 x AND ucast d = 0"
    by (rule bit_word_eqI) (auto simp: bit_simps dest: bit_imp_le_length)
  then have "push_bit 8 x OR ucast d = push_bit 8 x + ucast d" by (simp add: disjunctive_add_eq_or)
  then show ?thesis by (simp add: push_bit_eq_mult)
qed

lemma push_or_add: "push_bit 24 (ucast a) OR push_bit 16 (ucast b) OR push_bit 8 (ucast c) OR ucast d =
    (ucast a * 2 ^ 24 + ucast b * 2 ^ 16 + ucast c * 2 ^ 8 + ucast d :: u32)" for a b c d :: u8
proof -
  have "push_bit 24 (ucast a) OR push_bit 16 (ucast b) OR push_bit 8 (ucast c) OR ucast d =
      (push_bit 8 (push_bit 8 (push_bit 8 (ucast a) OR ucast b) OR ucast c) OR ucast d :: u32)"
    by (rule bit_word_eqI) (auto simp: bit_simps)
  then show ?thesis unfolding or_low by (simp add: algebra_simps)
qed

definition words16 :: "u8 list \<Rightarrow> u32 list" where
  "words16 b = map (word_at b) [0..<16]"

lemma expand_eq: "expand b = fold (\<lambda>i w. w @ [std_sigma1 (w ! (i - 2)) + w ! (i - 7) + std_sigma0 (w ! (i - 15)) + w ! (i - 16)]) [16..<64] (words16 b)"
  unfolding expand_def words16_def word_at_def push_or_add Let_def sha_std by (simp only: mult.commute [of 4])

lemma expand_fold:
  "16 \<le> n \<Longrightarrow> fold (\<lambda>i w. w @ [std_sigma1 (w ! (i - 2)) + w ! (i - 7) + std_sigma0 (w ! (i - 15)) + w ! (i - 16)]) [16..<n] (words16 b) =
     map (sched_word b) [0..<n]"
proof (induction n rule: dec_induct)
  case base
  have "sched_word b t = word_at b t" if "t < 16" for t using that by (simp add: sched_word.simps)
  then show ?case by (simp add: words16_def)
next
  case (step n)
  have "sched_word b n = std_sigma1 (sched_word b (n - 2)) + sched_word b (n - 7) + std_sigma0 (sched_word b (n - 15)) + sched_word b (n - 16)"
    using step.hyps by (subst sched_word.simps) simp
  then show ?case using step by simp
qed

lemma expand_sched: "t < 64 \<Longrightarrow> expand b ! t = sched_word b t"
  unfolding expand_eq by (subst expand_fold) simp_all

lemma vars_cases:
  obtains va vb vc vd ve vf vg vh where "v = (va, vb, vc, vd, ve, vf, vg, vh :: u32)"
  by (cases v) (metis prod_cases7)

lemma sha_round_vars: "t \<le> 64 \<Longrightarrow> fold (sha_round (expand b)) [0..<t] (vars_list v) = vars_list (rounds sha_K b t v)"
proof (induction t)
  case 0
  then show ?case by simp
next
  case (Suc t)
  obtain va vb vc vd ve vf vg vh where r: "rounds sha_K b t v = (va, vb, vc, vd, ve, vf, vg, vh)" by (rule vars_cases)
  then have "fold (sha_round (expand b)) [0..<Suc t] (vars_list v) = sha_round (expand b) t [va, vb, vc, vd, ve, vf, vg, vh]"
    using Suc by simp
  also have "\<dots> = vars_list (rounds sha_K b (Suc t) v)"
    using Suc.prems by (simp add: sha_round_def Let_def r expand_sched sha_std sha_std_ch)
  finally show ?case .
qed

lemma upt_0_4: "[0..<4] = [0, 1, 2, 3 :: nat]"
  by (simp add: upt_rec)

lemma upt_0_8: "[0..<8] = [0, 1, 2, 3, 4, 5, 6, 7 :: nat]"
  by (simp add: upt_rec)

lemma compress_block: "compress_chunk b (vars_list h) = vars_list (sha_block sha_K h b)"
proof -
  obtain va vb vc vd ve vf vg vh where r: "rounds sha_K b 64 h = (va, vb, vc, vd, ve, vf, vg, vh)" by (rule vars_cases)
  obtain h0 h1 h2 h3 h4 h5 h6 h7 where h: "h = (h0, h1, h2, h3, h4, h5, h6, h7)" by (rule vars_cases)
  have "fold (sha_round (expand b)) [0..<64] (vars_list h) = [va, vb, vc, vd, ve, vf, vg, vh]"
    using sha_round_vars [of 64 b h] r by (simp del: upt_Suc upt_rec_numeral)
  then show ?thesis unfolding compress_chunk_def Let_def using r by (simp add: h sha_block_def upt_0_8 del: upt_rec_numeral)
qed

section \<open>Padding\<close>

lemma put_bitlen_be64:
  assumes "length chunk = 64"
  shows "put_bitlen n chunk = take 56 chunk @ be64 n"
proof (rule nth_equalityI)
  show "length (put_bitlen n chunk) = length (take 56 chunk @ be64 n)"
    using assms by (simp add: put_bitlen_def be64_def upt_0_8 del: upt_rec_numeral)
  fix i assume "i < length (put_bitlen n chunk)"
  then have i: "i < 64" using assms by (simp add: put_bitlen_def upt_0_8 del: upt_rec_numeral)
  have "i = 56 \<or> i = 57 \<or> i = 58 \<or> i = 59 \<or> i = 60 \<or> i = 61 \<or> i = 62 \<or> i = 63" if "56 \<le> i" using i that by arith
  then show "put_bitlen n chunk ! i = (take 56 chunk @ be64 n) ! i"
    using i assms by (cases "i < 56") (auto simp: put_bitlen_def upt_0_8 be64_def nth_append simp del: upt_rec_numeral)
qed

lemma blocks64_one: "length xs = 64 \<Longrightarrow> blocks64 xs (Suc 0) = [xs]"
  by simp

lemma blocks64_Suc_div: "64 \<le> k \<Longrightarrow> blocks64 m (k div 64) = take 64 m # blocks64 (drop 64 m) ((k - 64) div 64)"
  by (simp add: le_div_geq)

lemma pad_length: "length (sha_pad msg) mod 64 = 0" "length msg < length (sha_pad msg)"
proof -
  define q r where "q = length msg div 64" and "r = length msg mod 64"
  have n: "length msg = 64 * q + r" "r < 64" by (simp_all add: q_def r_def)
  have l: "length (sha_pad msg) = length msg + 1 + (119 - r) mod 64 + 8"
    by (simp add: sha_pad_def be64_def r_def)
  show "length msg < length (sha_pad msg)" using l by simp
  have z: "(119 - r) mod 64 = (if r < 56 then 55 - r else 119 - r)" using n(2) by (cases "r < 56") (simp_all add: mod_if [of "119 - r"])
  have "length (sha_pad msg) = 64 * (q + (if r < 56 then 1 else 2))" unfolding l z n(1) using n(2) by (cases "r < 56") simp_all
  then show "length (sha_pad msg) mod 64 = 0" by (simp only: mod_mult_self1_is_0)
qed

lemma chunk_mark:
  assumes "k < 64" "length xs = k"
  shows "(xs @ drop k (replicate 64 0))[k := (0x80 :: u8)] = xs @ 0x80 # replicate (63 - k) 0"
proof -
  have "64 - k = Suc (63 - k)" using assms(1) by simp
  then have "replicate (64 - k) (0 :: u8) = 0 # replicate (63 - k) 0" by (simp only: replicate_Suc)
  then show ?thesis using assms by (simp add: list_update_append)
qed

lemma rest_mod: "offset mod 64 = 0 \<Longrightarrow> offset \<le> n \<Longrightarrow> n - offset < 64 \<Longrightarrow> n mod 64 = n - (offset :: nat)"
proof -
  assume o: "offset mod 64 = 0" "offset \<le> n" "n - offset < 64"
  have "((n - offset) + offset) mod 64 = (n - offset) mod 64" using o(1) by (simp only: mod_add_right_eq [symmetric, of "n - offset" offset]) simp
  then show ?thesis using o(2,3) by simp
qed

text \<open>What the last one or two chunks hold.\<close>

lemma pad_short:
  assumes "offset mod 64 = 0" "offset \<le> length msg" "length msg - offset < 56"
  shows "drop offset (sha_pad msg) = take 56 ((drop offset msg @ drop (length msg - offset) (replicate 64 0))[length msg - offset := 0x80]) @ be64 (8 * word_of_nat (length msg))"
proof -
  define k where "k = length msg - offset"
  have k: "length msg mod 64 = k" "k < 56" using rest_mod [OF assms(1,2)] assms(3) by (simp_all add: k_def)
  have z: "(119 - k) mod 64 = 55 - k" using k(2) by (auto simp: mod_if)
  have "take 56 (drop offset msg @ 0x80 # replicate (63 - k) 0) = drop offset msg @ 0x80 # replicate (55 - k) (0 :: u8)"
    using k(2) by (simp add: k_def [symmetric] take_Cons' min_def)
  then show ?thesis using chunk_mark [of k "drop offset msg"] k(2) assms(2) z
    by (simp add: sha_pad_def k(1) k_def [symmetric])
qed

lemma pad_long:
  assumes "offset mod 64 = 0" "offset \<le> length msg" "56 \<le> length msg - offset" "length msg - offset < 64"
  shows "drop offset (sha_pad msg) = (drop offset msg @ drop (length msg - offset) (replicate 64 0))[length msg - offset := 0x80]
     @ replicate 56 0 @ be64 (8 * word_of_nat (length msg))"
proof -
  define k where "k = length msg - offset"
  have k: "length msg mod 64 = k" "56 \<le> k" "k < 64" using rest_mod [OF assms(1,2,4)] assms(3,4) by (simp_all add: k_def)
  have z: "(119 - k) mod 64 = (63 - k) + 56" using k(2,3) by (auto simp: mod_if)
  then have "replicate ((119 - k) mod 64) (0 :: u8) = replicate (63 - k) 0 @ replicate 56 0" by (simp only: replicate_add)
  then show ?thesis using chunk_mark [of k "drop offset msg"] k(3) assms(2)
    by (simp add: sha_pad_def k(1) k_def [symmetric])
qed

lemma sha_loop_pad:
  assumes "offset mod 64 = 0" "offset \<le> length msg"
  shows "sha_loop msg offset False (vars_list h) = vars_list (foldl (sha_block sha_K) h (blocks64 (drop offset (sha_pad msg)) ((length (sha_pad msg) - offset) div 64)))"
  using assms
proof (induction "length msg - offset" arbitrary: offset h rule: less_induct)
  case less
  let ?c = "(drop offset msg @ drop (length msg - offset) (replicate 64 0))[length msg - offset := 0x80] :: u8 list"
  consider "64 \<le> length msg - offset" | "length msg - offset < 56" | "56 \<le> length msg - offset" "length msg - offset < 64" by linarith
  then show ?case
  proof cases
    case 1
    have "64 \<le> length (sha_pad msg) - offset" using 1 pad_length(2) [of msg] by linarith
    moreover have "take 64 (drop offset (sha_pad msg)) = take 64 (drop offset msg)" using 1 by (simp add: sha_pad_def)
    moreover have "drop 64 (drop offset (sha_pad msg)) = drop (offset + 64) (sha_pad msg)" by (simp add: add.commute)
    ultimately have "blocks64 (drop offset (sha_pad msg)) ((length (sha_pad msg) - offset) div 64) =
        take 64 (drop offset msg) # blocks64 (drop (offset + 64) (sha_pad msg)) ((length (sha_pad msg) - (offset + 64)) div 64)"
      by (simp add: blocks64_Suc_div)
    then show ?thesis using less.hyps [of "offset + 64" "sha_block sha_K h (take 64 (drop offset msg))"] less.prems 1
      by (subst sha_loop.simps) (simp add: Let_def compress_block mod_add_self2)
  next
    case 2
    have "length ?c = 64" using 2 by simp
    then have d: "drop offset (sha_pad msg) = put_bitlen (8 * word_of_nat (length msg)) ?c" and l: "length (drop offset (sha_pad msg)) = 64"
      using pad_short [OF less.prems 2] put_bitlen_be64 [of ?c] by (simp_all add: be64_def)
    have "length (sha_pad msg) - offset = 64" using l by (subst (asm) length_drop)
    then have "(length (sha_pad msg) - offset) div 64 = 1" by simp
    moreover have "blocks64 xs 1 = [xs]" if "length xs = 64" for xs using that by simp
    ultimately have "blocks64 (drop offset (sha_pad msg)) ((length (sha_pad msg) - offset) div 64) = [put_bitlen (8 * word_of_nat (length msg)) ?c]"
      using d l by metis
    then show ?thesis using 2 by (subst sha_loop.simps) (simp add: Let_def compress_block mult.commute)
  next
    case 3
    let ?l = "put_bitlen (8 * word_of_nat (length msg)) (replicate 64 0)"
    have c: "length ?c = 64" using 3 by simp
    have l: "?l = replicate 56 0 @ be64 (8 * word_of_nat (length msg))" by (subst put_bitlen_be64) simp_all
    have d: "drop offset (sha_pad msg) = ?c @ ?l" using pad_long [OF less.prems 3] l by simp
    have "length (drop offset (sha_pad msg)) = 128" unfolding d using c l by (simp add: be64_def)
    then have "length (sha_pad msg) - offset = 128" by (simp only: length_drop)
    then have "(length (sha_pad msg) - offset) div 64 = 2" by simp
    moreover have "length ?l = 64" unfolding l by (simp add: be64_def)
    moreover have "blocks64 (xs @ ys) 2 = [xs, ys]" if "length xs = 64" "length ys = 64" for xs ys using that by (simp add: numeral_2_eq_2)
    ultimately have "blocks64 (drop offset (sha_pad msg)) ((length (sha_pad msg) - offset) div 64) = [?c, ?l]"
      using d c by metis
    moreover have "sha_loop msg (length msg) True (vars_list g) = vars_list (sha_block sha_K g ?l)" for g
      by (subst sha_loop.simps) (simp add: Let_def compress_block mult.commute)
    ultimately show ?thesis using 3 by (subst sha_loop.simps) (simp add: Let_def compress_block)
  qed
qed

lemma sha_loop_eq: "sha_loop msg 0 False sha_H0 = vars_list (sha_spec (std_K[60 := 0x90beffea]) msg)"
proof -
  have h0: "sha_H0 = vars_list (0x6a09e667, 0xbb67ae85, 0x3c6ef372, 0xa54ff53a, 0x510e527f, 0x9b05688c, 0x1f83d9ab, 0x5be0cd19)"
    by (simp add: sha_H0_def)
  show ?thesis unfolding h0 sha_spec_def sha_K_typo [symmetric] by (subst sha_loop_pad) simp_all
qed

section \<open>The constant of round 60\<close>

lemma rounds_agree: "(\<And>t. t < n \<Longrightarrow> ks ! t = ks' ! t) \<Longrightarrow> rounds ks b n v = rounds ks' b n v"
  by (induction n) (simp_all add: Let_def split: prod.split)

text \<open>Three rounds later the first variable has become the fourth.\<close>

lemma rounds_shift:
  "rounds ks b (Suc t) v = (va, r) \<Longrightarrow> \<exists>x y z r'. rounds ks b (Suc (Suc (Suc (Suc t)))) v = (x, y, z, va, r')"
  by (cases r) (simp add: Let_def)

lemma sha_K_differ: "t < 60 \<Longrightarrow> sha_K ! t = std_K ! t" "sha_K ! 60 = std_K ! 60 - 16"
  using std_K_60 by (simp_all add: sha_K_typo) (simp add: std_K_def first_primes_def)

lemma fourth_word: "vars_list (sha_block sha_K h b) ! 3 = vars_list (sha_block std_K h b) ! 3 - 16"
proof -
  obtain va vb vc vd ve vf vg vh where v: "rounds std_K b 60 h = (va, vb, vc, vd, ve, vf, vg, vh)" by (rule vars_cases)
  then have v': "rounds sha_K b 60 h = (va, vb, vc, vd, ve, vf, vg, vh)" using rounds_agree [of 60 sha_K std_K b h] sha_K_differ(1) by simp
  obtain a1 r1 where a1: "rounds std_K b (Suc 60) h = (a1, r1)" by (metis surj_pair)
  obtain r2 where a2: "rounds sha_K b (Suc 60) h = (a1 - 16, r2)"
    using a1 v v' sha_K_differ(2) by (auto simp: Let_def simp del: Suc_numeral add_2_eq_Suc')
  have n: "Suc (Suc (Suc (Suc 60))) = (64 :: nat)" by simp
  obtain x1 y1 z1 q1 x2 y2 z2 q2 where "rounds std_K b 64 h = (x1, y1, z1, a1, q1)" "rounds sha_K b 64 h = (x2, y2, z2, a1 - 16, q2)"
    using rounds_shift [OF a1, unfolded n] rounds_shift [OF a2, unfolded n] by blast
  moreover obtain h0 h1 h2 h3 h4 h5 h6 h7 where "h = (h0, h1, h2, h3, h4, h5, h6, h7)" by (rule vars_cases)
  ultimately show ?thesis by (cases q1 rule: prod_cases4, cases q2 rule: prod_cases4) (simp add: sha_block_def)
qed

section \<open>The digits\<close>

lemma div_mod_256: "(n :: nat) mod 256 div 16 = n div 16 mod 16"
  by (simp add: mod_mult2_eq [of n 16 16, simplified])

lemma hex_map_hexit: "d < 16 \<Longrightarrow> hex_map ! d = hexit d"
proof -
  assume "d < 16"
  then have "d = 0 \<or> d = 1 \<or> d = 2 \<or> d = 3 \<or> d = 4 \<or> d = 5 \<or> d = 6 \<or> d = 7 \<or> d = 8 \<or> d = 9 \<or> d = 10 \<or> d = 11 \<or> d = 12
      \<or> d = 13 \<or> d = 14 \<or> d = 15" by presburger
  then show ?thesis by (elim disjE) (simp_all add: hex_map_def hexit_def char_of_def bit_simps bit_0)
qed

lemma digest_nibbles:
  fixes w :: u32
  defines "byte n \<equiv> ucast (drop_bit n w) :: u8"
  shows "unat (drop_bit 4 (byte n) AND 0x0F) = unat w div 2 ^ (n + 4) mod 16" "unat (byte n AND 0x0F) = unat w div 2 ^ n mod 16"
proof -
  have m: "(x :: u8) AND 0x0F = take_bit 4 x" for x using take_bit_eq_mask [of 4 x] by (simp add: mask_eq_exp_minus_1)
  have b: "unat (byte n) = unat w div 2 ^ n mod 256" by (simp add: byte_def unsigned_ucast_eq unsigned_drop_bit_eq take_bit_nat_def drop_bit_nat_def)
  show "unat (byte n AND 0x0F) = unat w div 2 ^ n mod 16"
    unfolding m by (simp add: unsigned_take_bit_eq b take_bit_nat_def mod_mod_cancel)
  show "unat (drop_bit 4 (byte n) AND 0x0F) = unat w div 2 ^ (n + 4) mod 16"
    unfolding m by (simp add: unsigned_take_bit_eq unsigned_drop_bit_eq b take_bit_nat_def drop_bit_nat_def div_mod_256 power_add div_mult2_eq)
qed

lemma hex_digest_words: "length h = 8 \<Longrightarrow> hex_digest h = concat (map hex_word h)"
proof -
  assume l: "length h = 8"
  have w: "concat (map (\<lambda>j. let byte = ucast (drop_bit ((3 - j) * 8) w) :: u8
     in [hex_map ! unat (drop_bit 4 byte AND 0x0F), hex_map ! unat (byte AND 0x0F)]) [0..<4]) = hex_word w" for w :: u32
  proof -
    define W where "W = unat w"
    have p: "(2 :: nat) ^ ((3 - 0) * 8 + 4) = 16 ^ (7 - 0)" "(2 :: nat) ^ ((3 - 0) * 8) = 16 ^ (7 - 1)"
      "(2 :: nat) ^ ((3 - 1) * 8 + 4) = 16 ^ (7 - 2)" "(2 :: nat) ^ ((3 - 1) * 8) = 16 ^ (7 - 3)"
      "(2 :: nat) ^ ((3 - 2) * 8 + 4) = 16 ^ (7 - 4)" "(2 :: nat) ^ ((3 - 2) * 8) = 16 ^ (7 - 5)"
      "(2 :: nat) ^ ((3 - 3) * 8 + 4) = 16 ^ (7 - 6)" "(2 :: nat) ^ ((3 - 3) * 8) = 16 ^ (7 - 7)"
      by simp_all
    show ?thesis unfolding Let_def digest_nibbles hex_word_def upt_0_8 upt_0_4 W_def [symmetric]
      by (simp only: list.map concat.simps append.simps hex_map_hexit [OF mod_less_divisor [OF zero_less_numeral]] p)
  qed
  have "map (\<lambda>i. hex_word (h ! i)) [0..<length h] = map hex_word h" by (rule nth_equalityI) simp_all
  then show ?thesis by (simp only: l hex_digest_def w)
qed

lemma vars_list_length: "length (vars_list v) = 8"
  by (cases v rule: vars_list.cases) simp

section \<open>Properties\<close>

text \<open>
  C22. The string that the function leaves in the buffer it names is, in hexadecimal, the digest that the standard defines
  for the bytes of the source, only with another value for the constant of round 60; the strings of the three calls before stay as they were.
\<close>
theorem sha256_standard:
  assumes "sha256_buf_idx s < 4" "length (sha256_buffers s) = 4"
  shows "\<exists>i s'. sha256_hash (Some msg) s = (Some i, s') \<and> i < 4
    \<and> sha256_buffers s' ! i = concat (map hex_word (vars_list (sha_spec (std_K[60 := 0x90beffea]) msg)))
    \<and> (\<forall>j<4. j \<noteq> i \<longrightarrow> sha256_buffers s' ! j = sha256_buffers s ! j) \<and> sha256_buf_idx s' = (i + 1) mod 4"
  using assms sha_loop_eq hex_digest_words [of "vars_list (sha_spec (std_K[60 := 0x90beffea]) msg)"] vars_list_length
  by (simp add: sha256_hash_def)

theorem sha256_standard_witness:
  "\<exists>i s'. sha256_hash (Some [0x61, 0x62, 0x63]) \<lparr>sha256_buffers = [[], [], [], []], sha256_buf_idx = 3\<rparr> = (Some i, s')
    \<and> sha256_buffers s' ! i = concat (map hex_word (vars_list (sha_spec (std_K[60 := 0x90beffea]) [0x61, 0x62, 0x63]))) \<and> sha256_buf_idx s' = 0"
  using sha256_standard [of "\<lparr>sha256_buffers = [[], [], [], []], sha256_buf_idx = 3\<rparr>" "[0x61, 0x62, 0x63]"]
  by (auto simp: sha256_hash_def)

text \<open>
  The constant of round 60 makes every digest of a string of less than 56 bytes wrong: its fourth word is 16 less than that of the standard.
\<close>
lemma sha256_wrong:
  assumes "length msg < 56"
  shows "sha_loop msg 0 False sha_H0 ! 3 = vars_list (sha_spec std_K msg) ! 3 - 16"
proof -
  define b where "b = put_bitlen (8 * word_of_nat (length msg)) ((msg @ drop (length msg) (replicate 64 0))[length msg := 0x80])"
  have pad: "sha_pad msg = b" "length b = 64"
    using pad_short [of 0 msg] assms put_bitlen_be64 [of "(msg @ drop (length msg) (replicate 64 0))[length msg := 0x80]"]
    by (simp_all add: b_def be64_def)
  then have "blocks64 (sha_pad msg) (length (sha_pad msg) div 64) = [b]" by (simp add: blocks64_one)
  then have one: "sha_spec ks msg = sha_block ks (0x6a09e667, 0xbb67ae85, 0x3c6ef372, 0xa54ff53a, 0x510e527f, 0x9b05688c, 0x1f83d9ab, 0x5be0cd19) b" for ks
    by (simp add: sha_spec_def)
  have "sha_loop msg 0 False sha_H0 = vars_list (sha_block sha_K (0x6a09e667, 0xbb67ae85, 0x3c6ef372, 0xa54ff53a, 0x510e527f, 0x9b05688c, 0x1f83d9ab, 0x5be0cd19) b)"
    unfolding sha_loop_eq sha_K_typo one ..
  then show ?thesis unfolding one by (simp only: fourth_word)
qed

lemma sha256_wrong_witness:
  "sha_loop [0x61, 0x62, 0x63] 0 False sha_H0 ! 3 \<noteq> vars_list (sha_spec std_K [0x61, 0x62, 0x63]) ! 3"
  using sha256_wrong [of "[0x61, 0x62, 0x63]"] by simp

end
