(* ===== verification/Cpio.thy ===== *)
theory Cpio
  imports Kernel
begin

text \<open>
  Archives in the new portable format: \<^verbatim>\<open>emex/kernel/packages/cpio/cpio.c\<close>, and the loading of the
  initial file systems from them, \<^verbatim>\<open>emex/kernel/kernel_processes/initrd/initrd.c\<close>. An archive lies in
  memory; names and contents are addresses into it. Strings that overrun the arrays of 256 characters are undefined.
  The messages on the console are left out.
\<close>

section \<open>Reading an archive\<close>

definition CPIO_HEADER_SIZE :: u64 where "CPIO_HEADER_SIZE = 110"
definition CPIO_TRAILER :: string where "CPIO_TRAILER = ''TRAILER!!!''"
definition CPIO_MODE_IFMT :: u32 where "CPIO_MODE_IFMT = 0xF000"
definition CPIO_MODE_IFLNK :: u32 where "CPIO_MODE_IFLNK = 0xA000"
definition CPIO_MODE_IFREG :: u32 where "CPIO_MODE_IFREG = 0x8000"
definition CPIO_MODE_IFDIR :: u32 where "CPIO_MODE_IFDIR = 0x4000"
definition CPIO_MAX_ENTRIES :: nat where "CPIO_MAX_ENTRIES = 512"
definition CPIO_OK :: int where "CPIO_OK = 0"
definition CPIO_ERR_MAGIC :: int where "CPIO_ERR_MAGIC = -1"
definition CPIO_ERR_TRUNC :: int where "CPIO_ERR_TRUNC = -2"
definition CPIO_ERR_EOF :: int where "CPIO_ERR_EOF = -3"

lemmas cpio_codes = CPIO_OK_def CPIO_ERR_MAGIC_def CPIO_ERR_TRUNC_def CPIO_ERR_EOF_def

record cpio_entry =
  ce_ino :: u32
  ce_mode :: u32
  ce_uid :: u32
  ce_gid :: u32
  ce_nlink :: u32
  ce_mtime :: u32
  ce_filesize :: u32
  ce_devmajor :: u32
  ce_devminor :: u32
  ce_rdevmajor :: u32
  ce_rdevminor :: u32
  ce_namesize :: u32
  ce_name :: u64
  ce_data :: u64

record cpio_iter =
  ci_base :: u64
  ci_size :: u64
  ci_offset :: u64

definition hex_nibble :: "u8 \<Rightarrow> u32" where
  "hex_nibble c = (if 0x30 \<le> c \<and> c \<le> 0x39 then ucast c - 0x30 else if 0x61 \<le> c \<and> c \<le> 0x66 then ucast c - 0x61 + 10
     else if 0x41 \<le> c \<and> c \<le> 0x46 then ucast c - 0x41 + 10 else 0)"

definition parse_hex8 :: "mem \<Rightarrow> u64 \<Rightarrow> u32 \<times> u64" where
  "parse_hex8 m p = (fold (\<lambda>i val. push_bit 4 val OR hex_nibble (m (p + word_of_nat i))) [0..<8] 0, p + 8)"

definition align4 :: "u64 \<Rightarrow> u64" where
  "align4 n = (n + 3) AND NOT 3"

definition cpio_iter_init :: "u64 \<Rightarrow> u64 \<Rightarrow> cpio_iter" where
  "cpio_iter_init data sz = \<lparr>ci_base = data, ci_size = sz, ci_offset = 0\<rparr>"

definition magic_ok :: "mem \<Rightarrow> u64 \<Rightarrow> bool" where
  "magic_ok m hdr \<longleftrightarrow> m hdr = 0x30 \<and> m (hdr + 1) = 0x37 \<and> m (hdr + 2) = 0x30 \<and> m (hdr + 3) = 0x37 \<and> m (hdr + 4) = 0x30
     \<and> (m (hdr + 5) = 0x31 \<or> m (hdr + 5) = 0x32)"

definition parse_header :: "mem \<Rightarrow> u64 \<Rightarrow> cpio_entry \<Rightarrow> cpio_entry" where
  "parse_header m hdr entry =
    (let (v0, p) = parse_hex8 m (hdr + 6); (v1, p) = parse_hex8 m p; (v2, p) = parse_hex8 m p; (v3, p) = parse_hex8 m p;
         (v4, p) = parse_hex8 m p; (v5, p) = parse_hex8 m p; (v6, p) = parse_hex8 m p; (v7, p) = parse_hex8 m p;
         (v8, p) = parse_hex8 m p; (v9, p) = parse_hex8 m p; (v10, p) = parse_hex8 m p; (v11, p) = parse_hex8 m p
     in entry\<lparr>ce_ino := v0, ce_mode := v1, ce_uid := v2, ce_gid := v3, ce_nlink := v4, ce_mtime := v5, ce_filesize := v6, ce_devmajor := v7,
          ce_devminor := v8, ce_rdevmajor := v9, ce_rdevminor := v10, ce_namesize := v11\<rparr>)"

text \<open>The sum of the size of the header and the size of the name has 32 bits.\<close>

definition iter_rest :: "mem \<Rightarrow> cpio_iter \<Rightarrow> cpio_entry \<Rightarrow> (int \<times> cpio_iter \<times> cpio_entry) option" where
  "iter_rest m iter e =
    (let off = ci_offset iter; off1 = off + CPIO_HEADER_SIZE
     in if off1 + ucast (ce_namesize e) > ci_size iter then Some (CPIO_ERR_TRUNC, iter, e)
        else let e = e\<lparr>ce_name := ci_base iter + off1\<rparr>; off2 = off + align4 (ucast (ucast CPIO_HEADER_SIZE + ce_namesize e))
        in do {
          name \<leftarrow> user_string m (ce_name e);
          if name = CPIO_TRAILER then Some (CPIO_ERR_EOF, iter\<lparr>ci_offset := off2\<rparr>, e)
          else if off2 + ucast (ce_filesize e) > ci_size iter then Some (CPIO_ERR_TRUNC, iter, e)
          else Some (CPIO_OK, iter\<lparr>ci_offset := off2 + align4 (ucast (ce_filesize e))\<rparr>, e\<lparr>ce_data := ci_base iter + off2\<rparr>)
        })"

definition cpio_iter_next :: "mem \<Rightarrow> cpio_iter \<Rightarrow> cpio_entry \<Rightarrow> (int \<times> cpio_iter \<times> cpio_entry) option" where
  "cpio_iter_next m iter entry =
    (if ci_offset iter + CPIO_HEADER_SIZE > ci_size iter then Some (CPIO_ERR_TRUNC, iter, entry)
     else let hdr = ci_base iter + ci_offset iter
     in if \<not> magic_ok m hdr then Some (CPIO_ERR_MAGIC, iter, entry) else iter_rest m iter (parse_header m hdr entry))"

definition cpio_is_file :: "cpio_entry \<Rightarrow> bool" where "cpio_is_file e \<longleftrightarrow> ce_mode e AND CPIO_MODE_IFMT = CPIO_MODE_IFREG"
definition cpio_is_dir :: "cpio_entry \<Rightarrow> bool" where "cpio_is_dir e \<longleftrightarrow> ce_mode e AND CPIO_MODE_IFMT = CPIO_MODE_IFDIR"
definition cpio_is_symlink :: "cpio_entry \<Rightarrow> bool" where "cpio_is_symlink e \<longleftrightarrow> ce_mode e AND CPIO_MODE_IFMT = CPIO_MODE_IFLNK"

section \<open>Paths\<close>

definition starts :: "string \<Rightarrow> string \<Rightarrow> bool" where
  "starts s p \<longleftrightarrow> take (length p) s = p"

definition strip_dot :: "string \<Rightarrow> string" where
  "strip_dot n = (if starts n ''./'' then drop 2 n else n)"

text \<open>The two strings of the transformation.\<close>

type_synonym cpio_transform = "string \<times> string"

definition transform_name :: "cpio_transform \<Rightarrow> string \<Rightarrow> string" where
  "transform_name t n =
    (let fl = length (fst t)
     in if fst t \<noteq> [] \<and> starts n (fst t) \<and> (length n = fl \<or> n ! fl = CHR ''/'') then snd t @ drop fl n else n)"

definition make_path :: "cpio_transform \<Rightarrow> string \<Rightarrow> string \<Rightarrow> string option" where
  "make_path t base name0 =
    (let name1 = strip_dot name0
     in if name1 = ''.'' then (if length base < 256 then Some base else None)
     else let name = transform_name t name1;
              out = (if base = ''/'' then ''/'' @ name
                     else (if base \<noteq> [] \<and> last base \<noteq> CHR ''/'' then base @ ''/'' else base) @ name)
     in if 256 \<le> length name \<or> 256 \<le> length out then None
        else Some (if length out > 1 \<and> last out = CHR ''/'' then butlast out else out))"

section \<open>Extraction\<close>

definition skipped :: "string \<Rightarrow> cpio_entry \<Rightarrow> bool" where
  "skipped n e \<longleftrightarrow> n = ''.'' \<or> n = ''./'' \<or> \<not> cpio_is_file e \<and> \<not> cpio_is_dir e \<and> \<not> cpio_is_symlink e"

text \<open>The loop that reads the archive ends with the code of its last call and the entries that were staged.\<close>

partial_function (option) stage_loop ::
  "mem \<Rightarrow> cpio_transform \<Rightarrow> string \<Rightarrow> cpio_iter \<Rightarrow> cpio_entry \<Rightarrow> (cpio_entry \<times> string) list \<Rightarrow> (int \<times> (cpio_entry \<times> string) list) option" where
  "stage_loop m t base iter entry staged =
    (if CPIO_MAX_ENTRIES \<le> length staged then Some (CPIO_OK, staged)
     else do {
       (rc, iter1, e) \<leftarrow> cpio_iter_next m iter entry;
       if rc = CPIO_ERR_EOF then Some (CPIO_OK, staged)
       else if rc \<noteq> CPIO_OK then Some (rc, staged)
       else do {
         n \<leftarrow> user_string m (ce_name e);
         if skipped n e then stage_loop m t base iter1 e staged
         else do {
           path \<leftarrow> make_path t base n;
           stage_loop m t base iter1 e (staged @ [(e, path)])
         }
       }
     })"

fun make_dirs :: "fs_tab \<Rightarrow> (cpio_entry \<times> string) list \<Rightarrow> int \<Rightarrow> fs \<Rightarrow> (int \<times> fs) option" where
  "make_dirs tab [] cnt s = Some (cnt, s)"
| "make_dirs tab ((e, path) # es) cnt s =
    (if cpio_is_dir e then do {
       (_, s1) \<leftarrow> fs_mkdir tab path s;
       make_dirs tab es (cnt + 1) s1
     } else make_dirs tab es cnt s)"

text \<open>One file: whether it counts as extracted.\<close>

definition extract_file :: "fs_tab \<Rightarrow> cpio_entry \<Rightarrow> string \<Rightarrow> fs \<Rightarrow> (bool \<times> fs) option" where
  "extract_file tab e path s = do {
     (fd, s1) \<leftarrow> fs_open tab path (O_CREAT OR O_WRONLY) s;
     if fd < 0 then Some (False, s1)
     else do {
       (_, s2) \<leftarrow> fs_close tab fd s1;
       if ce_filesize e = 0 then Some (True, s2)
       else do {
         (node, s3) \<leftarrow> fs_resolve tab path s2;
         (r, s4) \<leftarrow> (if node = 0 then Some (-1, s3) else tmpfs_set_ro_data node (ce_data e) (ucast (ce_filesize e)) s3);
         if r = 0 then Some (True, s4)
         else do {
           (fd, s5) \<leftarrow> fs_open tab path O_WRONLY s4;
           if fd < 0 then Some (False, s5)
           else do {
             (_, s6) \<leftarrow> fs_write tab fd (ce_data e) (ucast (ce_filesize e)) s5;
             (_, s7) \<leftarrow> fs_close tab fd s6;
             Some (True, s7)
           }
         }
       }
     }
   }"

fun make_files :: "fs_tab \<Rightarrow> (cpio_entry \<times> string) list \<Rightarrow> int \<Rightarrow> fs \<Rightarrow> (int \<times> fs) option" where
  "make_files tab [] cnt s = Some (cnt, s)"
| "make_files tab ((e, path) # es) cnt s =
    (if cpio_is_file e \<or> cpio_is_symlink e then do {
       (ok, s1) \<leftarrow> extract_file tab e path s;
       make_files tab es (if ok then cnt + 1 else cnt) s1
     } else make_files tab es cnt s)"

definition zero_entry :: cpio_entry where
  "zero_entry = \<lparr>ce_ino = 0, ce_mode = 0, ce_uid = 0, ce_gid = 0, ce_nlink = 0, ce_mtime = 0, ce_filesize = 0, ce_devmajor = 0,
     ce_devminor = 0, ce_rdevmajor = 0, ce_rdevminor = 0, ce_namesize = 0, ce_name = 0, ce_data = 0\<rparr>"

definition cpio_extract_to_vfs :: "fs_tab \<Rightarrow> cpio_transform \<Rightarrow> u64 \<Rightarrow> u64 \<Rightarrow> string \<Rightarrow> fs \<Rightarrow> (int \<times> fs) option" where
  "cpio_extract_to_vfs tab t data sz base s =
    (if data = 0 \<or> sz = 0 then Some (CPIO_ERR_TRUNC, s)
     else do {
       (rc, staged) \<leftarrow> stage_loop (km_bytes (fs_mem s)) t base (cpio_iter_init data sz) zero_entry [];
       if rc \<noteq> CPIO_OK then Some (rc, s)
       else do {
         (cnt, s1) \<leftarrow> make_dirs tab staged 0 s;
         make_files tab staged cnt s1
       }
     })"

partial_function (option) find_loop :: "mem \<Rightarrow> string \<Rightarrow> cpio_iter \<Rightarrow> cpio_entry \<Rightarrow> (int \<times> cpio_entry) option" where
  "find_loop m name iter entry = do {
     (rc, iter1, e) \<leftarrow> cpio_iter_next m iter entry;
     if rc \<noteq> CPIO_OK then Some (rc, e)
     else do {
       n \<leftarrow> user_string m (ce_name e);
       if strip_dot n = name then Some (CPIO_OK, e) else find_loop m name iter1 e
     }
   }"

definition cpio_find :: "mem \<Rightarrow> u64 \<Rightarrow> u64 \<Rightarrow> string \<Rightarrow> cpio_entry \<Rightarrow> (int \<times> cpio_entry) option" where
  "cpio_find m data sz name entry =
    (if data = 0 then Some (CPIO_ERR_TRUNC, entry) else find_loop m name (cpio_iter_init data sz) entry)"

section \<open>The initial file systems\<close>

record limine_file =
  lf_path :: string
  lf_address :: u64
  lf_size :: u64

definition is_cpio_newc :: "mem \<Rightarrow> u64 \<Rightarrow> u64 \<Rightarrow> bool" where
  "is_cpio_newc m raw sz \<longleftrightarrow> 6 \<le> sz \<and> magic_ok m raw"

definition file_part :: "string \<Rightarrow> string" where
  "file_part path = fold (\<lambda>i f. if path ! i = CHR ''/'' then drop (i + 1) path else f) [0..<length path] path"

definition find_module :: "limine_file list \<Rightarrow> string \<Rightarrow> limine_file option" where
  "find_module ms name = find (\<lambda>f. file_part (lf_path f) = name) ms"

definition load_home :: "fs_tab \<Rightarrow> limine_file option \<Rightarrow> cpio_transform \<Rightarrow> fs \<Rightarrow> (int \<times> fs) option" where
  "load_home tab f t s =
    (case f of None \<Rightarrow> Some (0, s)
     | Some h \<Rightarrow>
       if \<not> is_cpio_newc (km_bytes (fs_mem s)) (lf_address h) (lf_size h) then Some (-1, s)
       else do {
         (r, s1) \<leftarrow> cpio_extract_to_vfs tab t (lf_address h) (lf_size h) ''/home'' s;
         Some (if r < 0 then -1 else 0, s1)
       })"

text \<open>\<open>buf\<close> is the address of the buffer of \<open>users_load\<close>, \<open>t\<close> the transformation that was set before.\<close>

definition initrd_load :: "fs_tab \<Rightarrow> u64 \<Rightarrow> limine_file list option \<Rightarrow> cpio_transform \<Rightarrow> fs \<Rightarrow> (int \<times> cpio_transform \<times> user_entry list \<times> fs) option" where
  "initrd_load tab buf resp t s0 =
    (let (us0, s) = users_init s0
     in case resp of None \<Rightarrow> Some (-1, t, us0, s)
     | Some ms \<Rightarrow>
       (case find_module ms ''initrd.cpio'' of None \<Rightarrow> Some (-1, t, us0, s)
        | Some f \<Rightarrow>
          if \<not> is_cpio_newc (km_bytes (fs_mem s)) (lf_address f) (lf_size f) then Some (-1, t, us0, s)
          else do {
            (r, s1) \<leftarrow> cpio_extract_to_vfs tab t (lf_address f) (lf_size f) ''/'' s;
            if r < 0 then Some (-1, t, us0, s1)
            else do {
              (_, us, s2) \<leftarrow> users_load tab buf ''/emr/users'' us0 s1;
              let t' = (''user_id'', (case users_get_first_regular us of Some i \<Rightarrow> us_name (us ! i) | None \<Rightarrow> ''pc''));
              (rh, s3) \<leftarrow> load_home tab (find_module ms ''initrdh.cpio'') t' s2;
              if rh < 0 then Some (-1, t', us, s3)
              else do {
                s4 \<leftarrow> users_setup_homes tab us s3;
                Some (0, t', us, s4)
              }
            }
          }))"

section \<open>The format\<close>

text \<open>The reference: how an archive is written.\<close>

definition hex_char :: "nat \<Rightarrow> u8" where
  "hex_char d = (if d < 10 then word_of_nat (0x30 + d) else word_of_nat (0x61 + d - 10))"

definition hex8 :: "u32 \<Rightarrow> u8 list" where
  "hex8 x = map (\<lambda>i. hex_char (unat (drop_bit (4 * (7 - i)) x) mod 16)) [0..<8]"

definition pad4 :: "nat \<Rightarrow> nat" where
  "pad4 n = (4 - n mod 4) mod 4"

definition newc_header :: "cpio_entry \<Rightarrow> u8 list" where
  "newc_header e = [0x30, 0x37, 0x30, 0x37, 0x30, 0x31] @ concat (map hex8 [ce_ino e, ce_mode e, ce_uid e, ce_gid e, ce_nlink e, ce_mtime e,
     ce_filesize e, ce_devmajor e, ce_devminor e, ce_rdevmajor e, ce_rdevminor e, ce_namesize e, 0])"

definition name_bytes :: "string \<Rightarrow> u8 list" where
  "name_bytes n = map (\<lambda>c. word_of_nat (of_char c)) n @ [0]"

definition with_sizes :: "cpio_entry \<Rightarrow> string \<Rightarrow> u8 list \<Rightarrow> cpio_entry" where
  "with_sizes e n d = e\<lparr>ce_filesize := word_of_nat (length d), ce_namesize := word_of_nat (length n + 1)\<rparr>"

definition data_at :: "string \<Rightarrow> nat" where
  "data_at n = 110 + (length n + 1) + pad4 (110 + (length n + 1))"

definition newc_entry :: "cpio_entry \<times> string \<times> u8 list \<Rightarrow> u8 list" where
  "newc_entry f = (case f of (e, n, d) \<Rightarrow> newc_header (with_sizes e n d) @ name_bytes n @ replicate (pad4 (110 + (length n + 1))) 0
     @ d @ replicate (pad4 (length d)) 0)"

definition newc_archive :: "(cpio_entry \<times> string \<times> u8 list) list \<Rightarrow> u8 list" where
  "newc_archive fs = concat (map newc_entry fs) @ newc_entry (zero_entry, CPIO_TRAILER, [])"

text \<open>What is read of a file of the archive that starts at an offset.\<close>

definition entry_of :: "u64 \<Rightarrow> nat \<Rightarrow> cpio_entry \<times> string \<times> u8 list \<Rightarrow> cpio_entry" where
  "entry_of base off f = (case f of (e, n, d) \<Rightarrow> (with_sizes e n d)\<lparr>ce_name := base + word_of_nat (off + 110), ce_data := base + word_of_nat (off + data_at n)\<rparr>)"

section \<open>Lemmas\<close>

definition holds :: "mem \<Rightarrow> u64 \<Rightarrow> u8 list \<Rightarrow> bool" where
  "holds m a bs \<longleftrightarrow> (\<forall>i<length bs. m (a + word_of_nat i) = bs ! i)"

lemma holds_append: "holds m a (xs @ ys) \<longleftrightarrow> holds m a xs \<and> holds m (a + word_of_nat (length xs)) ys"
proof -
  have "(\<forall>i<length (xs @ ys). m (a + word_of_nat i) = (xs @ ys) ! i) \<longleftrightarrow>
    (\<forall>i<length xs. m (a + word_of_nat i) = xs ! i) \<and> (\<forall>j<length ys. m (a + word_of_nat (length xs + j)) = ys ! j)" (is "?l \<longleftrightarrow> ?r")
  proof
    assume l: ?l
    then have "m (a + word_of_nat (length xs + j)) = ys ! j" if "j < length ys" for j
      using that l [rule_format, of "length xs + j"] by simp
    moreover have "m (a + word_of_nat i) = xs ! i" if "i < length xs" for i
      using that l [rule_format, of i] by (simp add: nth_append)
    ultimately show ?r by blast
  next
    assume r: ?r
    show ?l
    proof (intro allI impI)
      fix i assume "i < length (xs @ ys)"
      then show "m (a + word_of_nat i) = (xs @ ys) ! i"
        using r [THEN conjunct1, rule_format, of i] r [THEN conjunct2, rule_format, of "i - length xs"] by (auto simp: nth_append)
    qed
  qed
  then show ?thesis by (simp add: holds_def add.assoc)
qed

lemma hex_nibble_char: "d < 16 \<Longrightarrow> hex_nibble (hex_char d) = word_of_nat d"
proof -
  assume "d < 16"
  then have "d = 0 \<or> d = 1 \<or> d = 2 \<or> d = 3 \<or> d = 4 \<or> d = 5 \<or> d = 6 \<or> d = 7 \<or> d = 8 \<or> d = 9 \<or> d = 10 \<or> d = 11 \<or> d = 12 \<or> d = 13 \<or> d = 14 \<or> d = 15"
    by arith
  then show ?thesis by (elim disjE) (simp_all add: hex_nibble_def hex_char_def)
qed

lemma nibble_of: "hex_nibble (hex_char (unat (x :: u32) mod 16)) = take_bit 4 x"
proof -
  have "unat (take_bit 4 x) = take_bit 4 (unat x)" by (rule unsigned_take_bit_eq)
  also have "\<dots> = unat x mod 16" by (simp add: take_bit_eq_mod)
  finally have "unat (take_bit 4 x) = unat x mod 16" .
  then have "word_of_nat (unat x mod 16) = take_bit 4 x" by (metis of_nat_unat ucast_id)
  then show ?thesis by (simp add: hex_nibble_char)
qed

lemma nibble_step: "push_bit 4 (drop_bit (k + 4) x) OR take_bit 4 (drop_bit k x) = drop_bit k (x :: u32)"
  by (rule bit_word_eqI) (auto simp: bit_simps add.commute add.left_commute dest: bit_imp_le_length)

lemma nibbles_fold: "n \<le> 8 \<Longrightarrow> fold (\<lambda>i val. push_bit 4 val OR take_bit 4 (drop_bit (4 * (7 - i)) x)) [0..<n] 0 = drop_bit (4 * (8 - n)) (x :: u32)"
proof (induction n)
  case 0
  show ?case by (rule bit_word_eqI) (auto simp: bit_simps dest: bit_imp_le_length)
next
  case (Suc n)
  have "4 * (8 - n) = 4 * (7 - n) + 4" using Suc.prems by simp
  then show ?case using Suc nibble_step [of "4 * (7 - n)" x] by simp
qed

lemma parse_hex8_hex8: "holds m p (hex8 x) \<Longrightarrow> parse_hex8 m p = (x, p + 8)"
proof -
  assume h: "holds m p (hex8 x)"
  have "m (p + word_of_nat i) = hex_char (unat (drop_bit (4 * (7 - i)) x) mod 16)" if "i < 8" for i
    using h that by (simp add: holds_def hex8_def)
  then have n: "hex_nibble (m (p + word_of_nat i)) = take_bit 4 (drop_bit (4 * (7 - i)) x)" if "i < 8" for i
    using that by (simp add: nibble_of)
  have "fold (\<lambda>i val. push_bit 4 val OR hex_nibble (m (p + word_of_nat i))) [0..<8] 0 =
      fold (\<lambda>i val. push_bit 4 val OR take_bit 4 (drop_bit (4 * (7 - i)) x)) [0..<8] 0"
    by (rule fold_cong) (simp_all add: n)
  then show ?thesis using nibbles_fold [of 8 x] unfolding parse_hex8_def by simp
qed

lemma length_hex8 [simp]: "length (hex8 x) = 8"
  by (simp add: hex8_def)

lemma length_header [simp]: "length (newc_header e) = 110"
  by (simp add: newc_header_def)

lemma header_magic: "holds m hdr (newc_header e) \<Longrightarrow> magic_ok m hdr"
proof -
  assume "holds m hdr (newc_header e)"
  then have "holds m hdr [0x30, 0x37, 0x30, 0x37, 0x30, 0x31]" by (simp add: newc_header_def holds_append del: append_Cons)
  then show ?thesis by (simp add: holds_def magic_ok_def less_Suc_eq numeral_eq_Suc all_conj_distrib add.assoc)
qed

lemma header_fields:
  assumes "holds m hdr (newc_header e)"
  shows "parse_header m hdr entry = e\<lparr>ce_name := ce_name entry, ce_data := ce_data entry\<rparr>"
proof -
  define vs where "vs = [ce_ino e, ce_mode e, ce_uid e, ce_gid e, ce_nlink e, ce_mtime e,
     ce_filesize e, ce_devmajor e, ce_devminor e, ce_rdevmajor e, ce_rdevminor e, ce_namesize e, 0]"
  have "holds m (hdr + 6) (concat (map hex8 vs))"
    using assms by (simp add: newc_header_def holds_append vs_def [symmetric] del: append_Cons)
  then show ?thesis
    by (cases e; cases entry) (auto dest!: parse_hex8_hex8 simp: vs_def holds_append parse_header_def Let_def)
qed

lemma user_string_name_bytes:
  assumes "holds m a (name_bytes n)" "c_string n"
  shows "user_string m a = Some n"
proof -
  have at: "m (a + word_of_nat i) = word_of_nat (of_char (n ! i))" if "i < length n" for i
    using assms(1) that by (simp add: holds_def name_bytes_def nth_append)
  have c: "unat (word_of_nat (of_char c) :: u8) = of_char c" for c :: char
    by (simp add: unat_of_nat take_bit_nat_eq_self)
  have "user_string m a = Some (chars_at m a (length n))"
  proof (rule user_string_found)
    show "m (a + word_of_nat (length n)) = 0" using assms(1) by (simp add: holds_def name_bytes_def nth_append)
    fix i assume i: "i < length n"
    then have "n ! i \<noteq> CHR 0x00" using assms(2) by (auto simp: c_string_def)
    then have "(of_char (n ! i) :: nat) \<noteq> 0" using of_char_eq_iff [of "n ! i" "CHR 0x00", where 'a = nat] by simp
    then show "m (a + word_of_nat i) \<noteq> 0" using at [OF i] c by (metis unat_0)
  qed
  also have "chars_at m a (length n) = n"
    by (rule nth_equalityI) (simp_all add: chars_at_def at c)
  finally show ?thesis .
qed

lemma pad4_eq: "n + 3 - (n + 3) mod 4 = n + pad4 n"
proof -
  define q r where "q = n div 4" and "r = n mod 4"
  have n: "n = r + 4 * q" and r: "r < 4" by (simp_all add: q_def r_def)
  have "n + 3 = (r + 3) + 4 * q" using n by simp
  then have "(n + 3) mod 4 = (r + 3) mod 4" by (simp only: mod_mult_self2)
  moreover have "n mod 4 = r" by (simp add: r_def)
  moreover have "r = 0 \<or> r = 1 \<or> r = 2 \<or> r = 3" using r by arith
  ultimately show ?thesis unfolding pad4_def using n by (elim disjE) simp_all
qed

lemma align4_nat: "n + 3 < 2 ^ 64 \<Longrightarrow> align4 (word_of_nat n) = word_of_nat (n + pad4 n)"
proof -
  assume n: "n + 3 < 2 ^ 64"
  have u: "unat (word_of_nat (n + 3) :: u64) = n + 3" using n by (intro unat_of_nat64) simp
  have "align4 (word_of_nat n) = word_of_nat (n + 3) - (word_of_nat (n + 3) AND 3)"
    unfolding align4_def and_not_eq_minus by (simp only: of_nat_add of_nat_numeral)
  also have "word_of_nat (n + 3) AND 3 = (word_of_nat ((n + 3) mod 4) :: u64)"
  proof -
    have "word_of_nat (n + 3) AND 3 = take_bit 2 (word_of_nat (n + 3) :: u64)" by (simp add: take_bit_eq_mask mask_eq_exp_minus_1)
    then show ?thesis by (simp only: take_bit_of_nat) (simp add: take_bit_eq_mod)
  qed
  also have "word_of_nat (n + 3) - word_of_nat ((n + 3) mod 4) = (word_of_nat (n + 3 - (n + 3) mod 4) :: u64)"
    by (simp add: of_nat_diff)
  also have "n + 3 - (n + 3) mod 4 = n + pad4 n" by (rule pad4_eq)
  finally show ?thesis .
qed

lemma length_name_bytes [simp]: "length (name_bytes n) = length n + 1"
  by (simp add: name_bytes_def)

lemma length_newc_entry: "length (newc_entry (e, n, d)) = data_at n + length d + pad4 (length d)"
  by (simp add: newc_entry_def name_bytes_def data_at_def)

text \<open>One file of an archive is read.\<close>

definition fits :: "cpio_entry \<times> string \<times> u8 list \<Rightarrow> bool" where
  "fits f \<longleftrightarrow> (case f of (e, n, d) \<Rightarrow> c_string n \<and> data_at n < 2 ^ 32 \<and> length d < 2 ^ 32 - 3)"

lemma ucast_small: "k < 2 ^ 32 \<Longrightarrow> ucast (word_of_nat k :: u32) = (word_of_nat k :: u64)"
  by (simp add: word_unat_eq_iff unsigned_ucast_eq unat_of_nat take_bit_nat_eq_self)

lemma iter_next_entry:
  assumes h: "holds m (base + word_of_nat off) (newc_entry (e, n, d))" and f: "fits (e, n, d)"
    and sz: "off + length (newc_entry (e, n, d)) \<le> unat sz"
  shows "cpio_iter_next m \<lparr>ci_base = base, ci_size = sz, ci_offset = word_of_nat off\<rparr> entry =
    (if n = CPIO_TRAILER
     then Some (CPIO_ERR_EOF, \<lparr>ci_base = base, ci_size = sz, ci_offset = word_of_nat (off + data_at n)\<rparr>,
        (entry_of base off (e, n, d))\<lparr>ce_data := ce_data entry\<rparr>)
     else Some (CPIO_OK, \<lparr>ci_base = base, ci_size = sz, ci_offset = word_of_nat (off + length (newc_entry (e, n, d)))\<rparr>, entry_of base off (e, n, d)))"
proof -
  let ?e = "with_sizes e n d"
  have l: "off + data_at n + length d + pad4 (length d) \<le> unat sz" using sz by (simp add: length_newc_entry)
  then have big: "off + data_at n + length d + pad4 (length d) < 2 ^ 64" using unat_lt_2p64 [of sz] by (simp del: unat_lt_2p64)
  have le: "\<not> word_of_nat k > sz" if "k \<le> unat sz" for k
    using that unat_lt_2p64 [of sz] by (simp add: word_less_nat_alt unat_of_nat64 del: unat_lt_2p64)
  have da: "110 + (length n + 1) \<le> data_at n" by (simp add: data_at_def)
  have hh: "holds m (base + word_of_nat off) (newc_header ?e)" "holds m (base + word_of_nat (off + 110)) (name_bytes n)"
    using h by (simp_all add: newc_entry_def holds_append add.assoc)
  note pf = header_fields [OF hh(1), of entry] and mg = header_magic [OF hh(1)]
  have ns: "ucast (ce_namesize ?e) = (word_of_nat (length n + 1) :: u64)" "ucast (ce_filesize ?e) = (word_of_nat (length d) :: u64)"
    "ucast (ucast CPIO_HEADER_SIZE + ce_namesize ?e :: u32) = (word_of_nat (110 + (length n + 1)) :: u64)"
  proof -
    have s: "length n + 1 < 2 ^ 32" "length d < 2 ^ 32" "110 + (length n + 1) < 2 ^ 32" using f da by (simp_all add: fits_def)
    show "ucast (ce_namesize ?e) = (word_of_nat (length n + 1) :: u64)" "ucast (ce_filesize ?e) = (word_of_nat (length d) :: u64)"
      unfolding with_sizes_def using ucast_small [OF s(1)] ucast_small [OF s(2)] by simp_all
    have "ucast CPIO_HEADER_SIZE + ce_namesize ?e = (word_of_nat (110 + (length n + 1)) :: u32)"
      by (simp add: CPIO_HEADER_SIZE_def with_sizes_def)
    then show "ucast (ucast CPIO_HEADER_SIZE + ce_namesize ?e :: u32) = (word_of_nat (110 + (length n + 1)) :: u64)"
      using ucast_small [OF s(3)] by metis
  qed
  have al: "align4 (word_of_nat (110 + (length n + 1))) = word_of_nat (data_at n)" "align4 (word_of_nat (length d)) = word_of_nat (length d + pad4 (length d))"
    using align4_nat [of "110 + (length n + 1)"] align4_nat [of "length d"] f by (simp_all add: fits_def data_at_def)
  have us: "user_string m (base + word_of_nat (off + 110)) = Some n" using user_string_name_bytes [OF hh(2)] f by (simp add: fits_def)
  have b: "\<not> word_of_nat off + CPIO_HEADER_SIZE > sz" "\<not> word_of_nat off + CPIO_HEADER_SIZE + word_of_nat (length n + 1) > sz"
      "\<not> word_of_nat off + word_of_nat (data_at n) + word_of_nat (length d) > sz"
    using le [of "off + 110"] le [of "off + 110 + (length n + 1)"] le [of "off + data_at n + length d"] l da
    by (simp_all add: CPIO_HEADER_SIZE_def add.commute add.left_commute)
  have al1: "align4 (ucast (ucast CPIO_HEADER_SIZE + ce_namesize ?e)) = word_of_nat (data_at n)" using ns(3) al(1) by (rule ssubst)
  define e1 where "e1 = ?e"
  let ?it = "\<lparr>ci_base = base, ci_size = sz, ci_offset = word_of_nat off\<rparr>"
  have nm: "word_of_nat off + CPIO_HEADER_SIZE = (word_of_nat (off + 110) :: u64)" by (simp add: CPIO_HEADER_SIZE_def)
  have "cpio_iter_next m ?it entry = iter_rest m ?it (?e\<lparr>ce_name := ce_name entry, ce_data := ce_data entry\<rparr>)"
    using mg b(1) by (simp add: cpio_iter_next_def Let_def pf)
  also have "\<dots> = (if n = CPIO_TRAILER
     then Some (CPIO_ERR_EOF, ?it\<lparr>ci_offset := word_of_nat off + word_of_nat (data_at n)\<rparr>, ?e\<lparr>ce_name := base + word_of_nat (off + 110), ce_data := ce_data entry\<rparr>)
     else Some (CPIO_OK, ?it\<lparr>ci_offset := word_of_nat off + word_of_nat (data_at n) + word_of_nat (length d + pad4 (length d))\<rparr>,
       ?e\<lparr>ce_name := base + word_of_nat (off + 110), ce_data := base + (word_of_nat off + word_of_nat (data_at n))\<rparr>))"
    using us b(2,3) al(2) unfolding iter_rest_def Let_def ns(2) [symmetric] ns(1) [symmetric] al1 [symmetric]
    unfolding e1_def [symmetric] by (simp del: of_nat_add of_nat_Suc add: nm)
  finally show ?thesis by (simp add: entry_of_def length_newc_entry add.assoc)
qed

definition plain :: "cpio_entry \<times> string \<times> u8 list \<Rightarrow> bool" where
  "plain f \<longleftrightarrow> fits f \<and> fst (snd f) \<noteq> CPIO_TRAILER"

lemma entry_of_data:
  assumes "holds m (base + word_of_nat off) (newc_entry (e, n, d))" "fits (e, n, d)"
  shows "user_string m (ce_name (entry_of base off (e, n, d))) = Some n" "holds m (ce_data (entry_of base off (e, n, d))) d"
    "unat (ce_filesize (entry_of base off (e, n, d))) = length d" "ce_mode (entry_of base off (e, n, d)) = ce_mode e"
proof -
  have h: "holds m (base + word_of_nat (off + 110)) (name_bytes n)" "holds m (base + word_of_nat (off + data_at n)) d"
    using assms(1) by (simp_all add: newc_entry_def holds_append add.assoc data_at_def)
  show "user_string m (ce_name (entry_of base off (e, n, d))) = Some n"
    using user_string_name_bytes [OF h(1)] assms(2) by (simp add: entry_of_def fits_def)
  show "holds m (ce_data (entry_of base off (e, n, d))) d" using h(2) by (simp add: entry_of_def)
  show "unat (ce_filesize (entry_of base off (e, n, d))) = length d"
    using assms(2) by (simp add: entry_of_def with_sizes_def fits_def unat_of_nat)
  show "ce_mode (entry_of base off (e, n, d)) = ce_mode e" by (simp add: entry_of_def with_sizes_def)
qed

definition archive_at :: "mem \<Rightarrow> u64 \<Rightarrow> u64 \<Rightarrow> nat \<Rightarrow> (cpio_entry \<times> string \<times> u8 list) list \<Rightarrow> bool" where
  "archive_at m base sz off fs \<longleftrightarrow> holds m (base + word_of_nat off) (newc_archive fs) \<and> off + length (newc_archive fs) \<le> unat sz \<and> (\<forall>f\<in>set fs. plain f)"

lemma archive_Nil:
  assumes "archive_at m base sz off []"
  shows "\<exists>it e. cpio_iter_next m \<lparr>ci_base = base, ci_size = sz, ci_offset = word_of_nat off\<rparr> entry = Some (CPIO_ERR_EOF, it, e)"
proof -
  have "fits (zero_entry, CPIO_TRAILER, [])" by (simp add: fits_def CPIO_TRAILER_def data_at_def pad4_def c_string_def)
  then show ?thesis using iter_next_entry [of m base off zero_entry CPIO_TRAILER "[]" sz entry] assms by (simp add: archive_at_def newc_archive_def)
qed

lemma archive_Cons:
  assumes "archive_at m base sz off ((e, n, d) # fs)"
  shows "cpio_iter_next m \<lparr>ci_base = base, ci_size = sz, ci_offset = word_of_nat off\<rparr> entry =
      Some (CPIO_OK, \<lparr>ci_base = base, ci_size = sz, ci_offset = word_of_nat (off + length (newc_entry (e, n, d)))\<rparr>, entry_of base off (e, n, d))"
    "archive_at m base sz (off + length (newc_entry (e, n, d))) fs" "holds m (base + word_of_nat off) (newc_entry (e, n, d))" "fits (e, n, d)"
proof -
  have h: "holds m (base + word_of_nat off) (newc_entry (e, n, d) @ newc_archive fs)" "off + length (newc_entry (e, n, d)) + length (newc_archive fs) \<le> unat sz"
    "plain (e, n, d)" "\<forall>f\<in>set fs. plain f"
    using assms by (simp_all add: archive_at_def newc_archive_def)
  show h1: "holds m (base + word_of_nat off) (newc_entry (e, n, d))" and f: "fits (e, n, d)" using h by (simp_all add: holds_append plain_def)
  show "archive_at m base sz (off + length (newc_entry (e, n, d))) fs" using h by (simp add: archive_at_def holds_append add.assoc)
  show "cpio_iter_next m \<lparr>ci_base = base, ci_size = sz, ci_offset = word_of_nat off\<rparr> entry =
      Some (CPIO_OK, \<lparr>ci_base = base, ci_size = sz, ci_offset = word_of_nat (off + length (newc_entry (e, n, d)))\<rparr>, entry_of base off (e, n, d))"
    using iter_next_entry [OF h1 f, of sz entry] h(2,3) by (simp add: plain_def)
qed

lemma find_loop_archive:
  "archive_at m base sz off fs \<Longrightarrow>
   (case find (\<lambda>(e, n, d). strip_dot n = name) fs of
      None \<Rightarrow> \<exists>e. find_loop m name \<lparr>ci_base = base, ci_size = sz, ci_offset = word_of_nat off\<rparr> entry = Some (CPIO_ERR_EOF, e)
    | Some (e, n, d) \<Rightarrow> \<exists>e'. find_loop m name \<lparr>ci_base = base, ci_size = sz, ci_offset = word_of_nat off\<rparr> entry = Some (CPIO_OK, e')
        \<and> ce_mode e' = ce_mode e \<and> user_string m (ce_name e') = Some n \<and> unat (ce_filesize e') = length d \<and> holds m (ce_data e') d)"
proof (induction fs arbitrary: off entry)
  case Nil
  obtain it e where "cpio_iter_next m \<lparr>ci_base = base, ci_size = sz, ci_offset = word_of_nat off\<rparr> entry = Some (CPIO_ERR_EOF, it, e)"
    using archive_Nil [OF Nil] by blast
  then show ?case by (simp add: find_loop.simps cpio_codes)
next
  case (Cons f fs)
  obtain e n d where f: "f = (e, n, d)" by (cases f)
  note c = archive_Cons [OF Cons.prems [unfolded f]] and e = entry_of_data [OF archive_Cons(3,4) [OF Cons.prems [unfolded f]]]
  show ?case
  proof (cases "strip_dot n = name")
    case True
    then show ?thesis using e by (subst (2) find_loop.simps) (simp add: f c(1))
  next
    case False
    then have eq: "find_loop m name \<lparr>ci_base = base, ci_size = sz, ci_offset = word_of_nat off\<rparr> entry =
        find_loop m name \<lparr>ci_base = base, ci_size = sz, ci_offset = word_of_nat (off + length (newc_entry (e, n, d)))\<rparr> (entry_of base off (e, n, d))"
      using e(1) by (subst find_loop.simps) (simp add: f c(1) del: of_nat_add)
    show ?thesis using Cons.IH [OF c(2), of "entry_of base off (e, n, d)"] False unfolding f eq by simp
  qed
qed

text \<open>Every step over an archive of less than four gigabytes goes forward.\<close>

lemma align4_up: "unat x + 3 < 2 ^ 64 \<Longrightarrow> unat (align4 x) = unat x + pad4 (unat x)"
proof -
  assume x: "unat x + 3 < 2 ^ 64"
  have p: "pad4 k < 4" for k by (simp add: pad4_def)
  have "align4 x = word_of_nat (unat x + pad4 (unat x))" using align4_nat [OF x] by simp
  moreover have "unat x + pad4 (unat x) < 18446744073709551616" using x p [of "unat x"] by simp
  ultimately show ?thesis by (simp only: unat_of_nat64)
qed

lemma iter_rest_ok:
  assumes "iter_rest m it e = Some (CPIO_OK, it', e')"
  shows "\<not> ci_offset it + CPIO_HEADER_SIZE + ucast (ce_namesize e) > ci_size it"
    "\<not> ci_offset it + align4 (ucast (ucast CPIO_HEADER_SIZE + ce_namesize e)) + ucast (ce_filesize e) > ci_size it"
    "it' = it\<lparr>ci_offset := ci_offset it + align4 (ucast (ucast CPIO_HEADER_SIZE + ce_namesize e)) + align4 (ucast (ce_filesize e))\<rparr>"
    "ce_name e' = ci_base it + (ci_offset it + CPIO_HEADER_SIZE)"
  using assms by (auto simp: iter_rest_def Let_def Option.bind_eq_Some_conv cpio_codes split: if_splits)

lemma ucast_below: "unat (ucast (x :: u32) :: u64) = unat x"
  using unat_lt_2p32 [of x] by (simp add: unsigned_ucast_eq take_bit_nat_eq_self del: unat_lt_2p32)

lemma iter_advances:
  assumes "cpio_iter_next m it e = Some (CPIO_OK, it', e')" "unat (ci_size it) < 2 ^ 32" "unat (ci_offset it) \<le> unat (ci_size it) + 3"
  shows "ci_size it' = ci_size it" "unat (ci_offset it) < unat (ci_offset it')" "unat (ci_offset it') \<le> unat (ci_size it') + 3"
proof -
  define h where "h = parse_header m (ci_base it + ci_offset it) e"
  have r: "iter_rest m it h = Some (CPIO_OK, it', e')"
    using assms(1) by (auto simp: cpio_iter_next_def Let_def h_def cpio_codes split: if_splits)
  note ok = iter_rest_ok [OF r]
  define ns fsz where "ns = unat (ce_namesize h)" and "fsz = unat (ce_filesize h)"
  have b: "ns < 2 ^ 32" "fsz < 2 ^ 32" by (simp_all add: ns_def fsz_def)
  have "unat (ci_offset it + CPIO_HEADER_SIZE) = unat (ci_offset it) + 110"
    using assms(2,3) by (subst unat_add_no_wrap64) (simp_all add: CPIO_HEADER_SIZE_def)
  then have "unat (ci_offset it + CPIO_HEADER_SIZE + ucast (ce_namesize h)) = unat (ci_offset it) + 110 + ns"
    using assms(2,3) b by (subst unat_add_no_wrap64) (simp_all add: ucast_below ns_def [symmetric])
  then have n: "unat (ci_offset it) + 110 + ns \<le> unat (ci_size it)" using ok(1) by (simp add: word_less_nat_alt not_less)
  have "unat (ucast CPIO_HEADER_SIZE + ce_namesize h :: u32) = 110 + ns"
    using n assms(2) by (simp add: unat_word_ariths CPIO_HEADER_SIZE_def ns_def)
  then have a: "unat (align4 (ucast (ucast CPIO_HEADER_SIZE + ce_namesize h))) = 110 + ns + pad4 (110 + ns)"
    using n assms(2) by (subst align4_up) (simp_all add: ucast_below)
  have p: "pad4 k < 4" for k by (simp add: pad4_def)
  have o2: "unat (ci_offset it + align4 (ucast (ucast CPIO_HEADER_SIZE + ce_namesize h))) = unat (ci_offset it) + (110 + ns + pad4 (110 + ns))"
    using a n p [of "110 + ns"] assms(2) by (subst unat_add_no_wrap64) simp_all
  then have "unat (ci_offset it + align4 (ucast (ucast CPIO_HEADER_SIZE + ce_namesize h)) + ucast (ce_filesize h)) = unat (ci_offset it) + (110 + ns + pad4 (110 + ns)) + fsz"
    using n b p [of "110 + ns"] assms(2) by (subst unat_add_no_wrap64) (simp_all add: ucast_below fsz_def [symmetric])
  then have f: "unat (ci_offset it) + (110 + ns + pad4 (110 + ns)) + fsz \<le> unat (ci_size it)" using ok(2) by (simp add: word_less_nat_alt not_less)
  have "unat (align4 (ucast (ce_filesize h) :: u64)) = fsz + pad4 fsz" using b by (subst align4_up) (simp_all add: ucast_below fsz_def [symmetric])
  then have "unat (ci_offset it') = unat (ci_offset it) + (110 + ns + pad4 (110 + ns)) + (fsz + pad4 fsz)"
    using o2 f p [of fsz] assms(2) unfolding ok(3) by simp (subst unat_add_no_wrap64; simp)
  then show "ci_size it' = ci_size it" "unat (ci_offset it) < unat (ci_offset it')" "unat (ci_offset it') \<le> unat (ci_size it') + 3"
    using f p [of fsz] ok(3) by simp_all
qed

lemma reach_NUL: "m b = 0 \<Longrightarrow> \<exists>s. user_string m a = Some s"
proof -
  assume "m b = (0 :: u8)"
  then have "m (a + word_of_nat (unat (b - a))) = 0" by simp
  then show ?thesis using user_string_least [of m a] by blast
qed

lemma iter_next_some: "m b = 0 \<Longrightarrow> \<exists>r. cpio_iter_next m it e = Some r"
proof -
  assume "m b = 0"
  then obtain s where "user_string m (ci_base it + (ci_offset it + CPIO_HEADER_SIZE)) = Some s" using reach_NUL [of m b] by blast
  then show ?thesis by (simp add: cpio_iter_next_def iter_rest_def Let_def)
qed

lemma find_loop_returns:
  assumes "m b = 0" "unat (ci_size it) < 2 ^ 32" "unat (ci_offset it) \<le> unat (ci_size it) + 3"
  shows "\<exists>r. find_loop m name it e = Some r"
  using assms(2,3)
proof (induction "unat (ci_size it) + 3 - unat (ci_offset it)" arbitrary: it e rule: less_induct)
  case less
  obtain rc it1 e1 where n: "cpio_iter_next m it e = Some (rc, it1, e1)" using iter_next_some [of m b it e] assms(1) by (metis prod_cases3)
  obtain s where s: "user_string m (ce_name e1) = Some s" using reach_NUL [of m b] assms(1) by blast
  show ?case
  proof (cases "rc = CPIO_OK \<and> strip_dot s \<noteq> name")
    case True
    then have n': "cpio_iter_next m it e = Some (CPIO_OK, it1, e1)" using n by simp
    note adv = iter_advances [OF n' less.prems]
    have "\<exists>r. find_loop m name it1 e1 = Some r"
    proof (rule less.hyps)
      show "unat (ci_size it1) + 3 - unat (ci_offset it1) < unat (ci_size it) + 3 - unat (ci_offset it)"
        using adv less.prems(2) by simp
    qed (use adv less.prems in simp_all)
    then show ?thesis using True s by (subst find_loop.simps) (simp add: n')
  next
    case False
    then show ?thesis using s by (subst find_loop.simps) (auto simp: n)
  qed
qed

section \<open>Properties\<close>

text \<open>
  C23. Reading what the format prescribes: in an archive that was written from a list of files, the search gives the first file with the
  name, with its mode, its name, the length of its contents and the address where they lie, and reports the end of the archive when there is none.
\<close>
theorem cpio_find_first:
  assumes "holds m data (newc_archive fs)" "length (newc_archive fs) \<le> unat sz" "data \<noteq> 0" "\<forall>f\<in>set fs. plain f"
  shows "case find (\<lambda>(e, n, d). strip_dot n = name) fs of
      None \<Rightarrow> \<exists>e. cpio_find m data sz name entry = Some (CPIO_ERR_EOF, e)
    | Some (e, n, d) \<Rightarrow> \<exists>e'. cpio_find m data sz name entry = Some (CPIO_OK, e')
        \<and> ce_mode e' = ce_mode e \<and> user_string m (ce_name e') = Some n \<and> unat (ce_filesize e') = length d \<and> holds m (ce_data e') d"
proof -
  have eq: "cpio_find m data sz name entry = find_loop m name \<lparr>ci_base = data, ci_size = sz, ci_offset = word_of_nat 0\<rparr> entry"
    using assms(3) by (simp add: cpio_find_def cpio_iter_init_def)
  have "archive_at m data sz 0 fs" using assms by (simp add: archive_at_def)
  from find_loop_archive [OF this, of name entry] show ?thesis unfolding eq .
qed

definition mem_image :: "u64 \<Rightarrow> u8 list \<Rightarrow> mem" where
  "mem_image d bs = (\<lambda>a. if unat (a - d) < length bs then bs ! unat (a - d) else 0)"

lemma holds_image: "length bs \<le> 2 ^ 64 \<Longrightarrow> holds (mem_image d bs) d bs"
  by (auto simp: holds_def mem_image_def unat_of_nat64)

definition files_ex :: "(cpio_entry \<times> string \<times> u8 list) list" where
  "files_ex = [(zero_entry\<lparr>ce_mode := 0x41ED\<rparr>, ''./etc'', []), (zero_entry\<lparr>ce_mode := 0x81A4\<rparr>, ''etc/rc'', [0x6C, 0x73])]"

theorem cpio_find_first_witness:
  "\<exists>e. cpio_find (mem_image 0x1000 (newc_archive files_ex)) 0x1000 0x800 ''etc/rc'' zero_entry = Some (CPIO_OK, e) \<and> ce_mode e = 0x81A4
     \<and> mem_image 0x1000 (newc_archive files_ex) (ce_data e) = 0x6C"
proof -
  have l: "length (newc_archive files_ex) = 364"
    by (simp add: newc_archive_def files_ex_def length_newc_entry data_at_def pad4_def CPIO_TRAILER_def)
  have h: "holds (mem_image 0x1000 (newc_archive files_ex)) 0x1000 (newc_archive files_ex)" by (rule holds_image) (simp add: l)
  have p: "\<forall>f\<in>set files_ex. plain f"
    by (simp add: files_ex_def plain_def fits_def c_string_def data_at_def pad4_def CPIO_TRAILER_def)
  have f: "find (\<lambda>(e, n, d). strip_dot n = ''etc/rc'') files_ex = Some (zero_entry\<lparr>ce_mode := 0x81A4\<rparr>, ''etc/rc'', [0x6C, 0x73])"
    by (simp add: files_ex_def strip_dot_def starts_def)
  have "\<exists>e'. cpio_find (mem_image 0x1000 (newc_archive files_ex)) 0x1000 0x800 ''etc/rc'' zero_entry = Some (CPIO_OK, e')
      \<and> ce_mode e' = 0x81A4 \<and> user_string (mem_image 0x1000 (newc_archive files_ex)) (ce_name e') = Some ''etc/rc'' \<and> unat (ce_filesize e') = Suc (Suc 0)
      \<and> holds (mem_image 0x1000 (newc_archive files_ex)) (ce_data e') [0x6C, 0x73]"
    using cpio_find_first [OF h _ _ p, of "0x800" "''etc/rc''" zero_entry] by (simp add: l f)
  then show ?thesis by (auto simp: holds_def)
qed

text \<open>
  Whatever an archive of less than four gigabytes contains, the search in it ends: every step goes forward.
\<close>
lemma cpio_find_returns:
  assumes "m b = 0" "unat sz < 2 ^ 32"
  shows "\<exists>rc e. cpio_find m data sz name entry = Some (rc, e)"
  using find_loop_returns [of m b "cpio_iter_init data sz" name entry] assms
  by (auto simp: cpio_find_def cpio_iter_init_def)

lemma cpio_find_returns_witness: "\<exists>rc e. cpio_find (\<lambda>a. ucast a) 0x1000 0x2000 ''etc'' zero_entry = Some (rc, e)"
  using cpio_find_returns [of "\<lambda>a. ucast a" 0 "0x2000" "0x1000" "''etc''" zero_entry] by simp

end
