(* ===== verification/Gzip.thy ===== *)
theory Gzip
  imports Kernel
begin

text \<open>
  The decompression of \<^verbatim>\<open>emex/kernel/packages/gz/gzip.c\<close>: the reader of bits, the canonical Huffman trees,
  the blocks of a deflate stream and the header of a gzip file. Input and output are in memory. A read outside of
  an array of the code is undefined, which is \<open>None\<close> here.
\<close>

section \<open>Bits\<close>

definition TGZ_MAX_BITS :: nat where "TGZ_MAX_BITS = 15"
definition TGZ_OK :: int where "TGZ_OK = 0"
definition TGZ_ERR_FORMAT :: int where "TGZ_ERR_FORMAT = -1"

record tgz_stream =
  tz_in :: u64
  tz_out :: u64
  tz_out_start :: u64
  tz_bit_buf :: u32
  tz_bit_cnt :: nat
  tz_mem :: mem

function fill_bits :: "nat \<Rightarrow> tgz_stream \<Rightarrow> tgz_stream" where
  "fill_bits bits s =
    (if tz_bit_cnt s < bits
     then fill_bits bits (s\<lparr>tz_bit_buf := tz_bit_buf s OR push_bit (tz_bit_cnt s) (ucast (tz_mem s (tz_in s))), tz_in := tz_in s + 1,
            tz_bit_cnt := tz_bit_cnt s + 8\<rparr>)
     else s)"
  by pat_completeness auto
termination by (relation "measure (\<lambda>(bits, s). bits - tz_bit_cnt s)") auto

declare fill_bits.simps [simp del]

definition tgz_get_bits :: "nat \<Rightarrow> tgz_stream \<Rightarrow> u32 \<times> tgz_stream" where
  "tgz_get_bits bits s0 =
    (let s = fill_bits bits s0
     in (tz_bit_buf s AND mask bits, s\<lparr>tz_bit_buf := drop_bit bits (tz_bit_buf s), tz_bit_cnt := tz_bit_cnt s - bits\<rparr>))"

definition get_bits :: "nat \<Rightarrow> tgz_stream \<Rightarrow> nat \<times> tgz_stream" where
  "get_bits bits s = map_prod unat id (tgz_get_bits bits s)"

section \<open>Huffman trees\<close>

record tgz_huffman =
  hf_counts :: "nat list"
  hf_symbols :: "nat list list"

text \<open>A length above 15 is outside of the arrays.\<close>

definition tgz_build_tree :: "nat list \<Rightarrow> tgz_huffman option" where
  "tgz_build_tree lens =
    (if \<exists>l\<in>set lens. TGZ_MAX_BITS < l then None
     else Some \<lparr>hf_counts = (fold (\<lambda>l c. c[l := c ! l + 1]) lens (replicate (TGZ_MAX_BITS + 1) 0))[0 := 0],
       hf_symbols = fold (\<lambda>i c. if lens ! i \<noteq> 0 then c[lens ! i := c ! (lens ! i) @ [i]] else c) [0..<length lens] (replicate (TGZ_MAX_BITS + 1) [])\<rparr>)"

text \<open>The loop over the lengths; \<open>fuel\<close> is how many are left. The result is -1 when no code fits.\<close>

fun decode_loop :: "tgz_huffman \<Rightarrow> nat \<Rightarrow> nat \<Rightarrow> int \<Rightarrow> int \<Rightarrow> tgz_stream \<Rightarrow> (int \<times> tgz_stream) option" where
  "decode_loop tr 0 len code first s = Some (-1, s)"
| "decode_loop tr (Suc fuel) len code first s =
    (let (b, s1) = get_bits 1 s; code = code + int b; count = int (hf_counts tr ! len)
     in if code - count < first
        then (if code < first \<or> length (hf_symbols tr ! len) \<le> nat (code - first) then None
              else Some (int (hf_symbols tr ! len ! nat (code - first)), s1))
        else decode_loop tr fuel (len + 1) (2 * code) (2 * (first + count)) s1)"

definition tgz_decode_symbol :: "tgz_stream \<Rightarrow> tgz_huffman \<Rightarrow> (int \<times> tgz_stream) option" where
  "tgz_decode_symbol s tr = decode_loop tr TGZ_MAX_BITS 1 0 0 s"

section \<open>Blocks\<close>

definition CLCL_ORDER :: "nat list" where
  "CLCL_ORDER = [16, 17, 18, 0, 8, 7, 9, 6, 10, 5, 11, 4, 12, 3, 13, 2, 14, 1, 15]"

definition lbase :: "nat list" where
  "lbase = [3, 4, 5, 6, 7, 8, 9, 10, 11, 13, 15, 17, 19, 23, 27, 31, 35, 43, 51, 59, 67, 83, 99, 115, 131, 163, 195, 227, 258]"

definition lext :: "nat list" where
  "lext = [0, 0, 0, 0, 0, 0, 0, 0, 1, 1, 1, 1, 2, 2, 2, 2, 3, 3, 3, 3, 4, 4, 4, 4, 5, 5, 5, 5, 0]"

definition dbase :: "nat list" where
  "dbase = [1, 2, 3, 4, 5, 7, 9, 13, 17, 25, 33, 49, 65, 97, 129, 193, 257, 385, 513, 769, 1025, 1537, 2049, 3073, 4097, 6145, 8193, 12289,
     16385, 24577]"

definition dext :: "nat list" where
  "dext = [0, 0, 0, 0, 1, 1, 2, 2, 3, 3, 4, 4, 5, 5, 6, 6, 7, 7, 8, 8, 9, 9, 10, 10, 11, 11, 12, 12, 13, 13]"

definition put_out :: "u8 \<Rightarrow> tgz_stream \<Rightarrow> tgz_stream" where
  "put_out b s = s\<lparr>tz_mem := (tz_mem s)(tz_out s := b), tz_out := tz_out s + 1\<rparr>"

definition stored_block :: "tgz_stream \<Rightarrow> int \<times> tgz_stream" where
  "stored_block s =
    (let s0 = s\<lparr>tz_bit_buf := drop_bit (tz_bit_cnt s mod 8) (tz_bit_buf s), tz_bit_cnt := tz_bit_cnt s - tz_bit_cnt s mod 8\<rparr>;
         (len, s1) = tgz_get_bits 16 s0; (nlen, s2) = tgz_get_bits 16 s1
     in if (ucast len :: u16) \<noteq> NOT (ucast nlen) then (TGZ_ERR_FORMAT, s2)
        else (TGZ_OK, s2\<lparr>tz_mem := memcpy (tz_mem s2) (tz_out s2) (tz_in s2) (ucast len), tz_in := tz_in s2 + ucast len, tz_out := tz_out s2 + ucast len\<rparr>))"

definition fixed_lens :: "nat list" where
  "fixed_lens = replicate 144 8 @ replicate 112 9 @ replicate 24 7 @ replicate 8 8"

text \<open>The lengths of the lengths, in their order.\<close>

fun read_clcl :: "nat list \<Rightarrow> nat list \<Rightarrow> tgz_stream \<Rightarrow> nat list \<times> tgz_stream" where
  "read_clcl [] lens s = (lens, s)"
| "read_clcl (i # is) lens s = (let (v, s1) = get_bits 3 s in read_clcl is (lens[i := v]) s1)"

text \<open>The run-length code of the lengths. The array has 320 places.\<close>

partial_function (option) read_lens :: "tgz_huffman \<Rightarrow> nat \<Rightarrow> nat list \<Rightarrow> tgz_stream \<Rightarrow> (nat list \<times> tgz_stream) option" where
  "read_lens tr cnt lens s =
    (if cnt \<le> length lens then Some (lens, s)
     else do {
       (sym, s1) \<leftarrow> tgz_decode_symbol s tr;
       (xs, s2) \<leftarrow> (if sym < 16 then Some ([if sym < 0 then 255 else nat sym], s1)
          else if sym = 16 then (if lens = [] then None else let (k, t) = get_bits 2 s1 in Some (replicate (k + 3) (last lens), t))
          else if sym = 17 then (let (k, t) = get_bits 3 s1 in Some (replicate (k + 3) 0, t))
          else if sym = 18 then (let (k, t) = get_bits 7 s1 in Some (replicate (k + 11) 0, t))
          else Some ([], s1));
       if 320 < length lens + length xs then None else read_lens tr cnt (lens @ xs) s2
     })"

definition dynamic_trees :: "tgz_stream \<Rightarrow> (tgz_huffman \<times> tgz_huffman \<times> tgz_stream) option" where
  "dynamic_trees s =
    (let (a, s1) = get_bits 5 s; (b, s2) = get_bits 5 s1; (c, s3) = get_bits 4 s2; hlit = a + 257; hdist = b + 1; hclen = c + 4;
         (cl, s4) = read_clcl (take hclen CLCL_ORDER) (replicate 19 0) s3
     in do {
       code_tree \<leftarrow> tgz_build_tree cl;
       (lens, s5) \<leftarrow> read_lens code_tree (hlit + hdist) [] s4;
       lit \<leftarrow> tgz_build_tree (take hlit lens);
       dist \<leftarrow> tgz_build_tree (take hdist (drop hlit lens));
       Some (lit, dist, s5)
     })"

fun lz_copy :: "nat \<Rightarrow> u64 \<Rightarrow> tgz_stream \<Rightarrow> tgz_stream" where
  "lz_copy 0 src s = s"
| "lz_copy (Suc n) src s = lz_copy n (src + 1) (put_out (tz_mem s src) s)"

definition copy_match :: "int \<Rightarrow> tgz_huffman \<Rightarrow> tgz_stream \<Rightarrow> tgz_stream option" where
  "copy_match code dist s =
    (let i = nat (code - 257)
     in if length lbase \<le> i then None
     else let (x, s1) = get_bits (lext ! i) s in do {
       (d, s2) \<leftarrow> tgz_decode_symbol s1 dist;
       if d < 0 \<or> int (length dbase) \<le> d then None
       else let (y, s3) = get_bits (dext ! nat d) s2
       in Some (lz_copy (lbase ! i + x) (tz_out s3 - word_of_nat (dbase ! nat d + y)) s3)
     })"

partial_function (option) inflate_codes :: "tgz_huffman \<Rightarrow> tgz_huffman \<Rightarrow> tgz_stream \<Rightarrow> tgz_stream option" where
  "inflate_codes lit dist s = do {
     (sym, s1) \<leftarrow> tgz_decode_symbol s lit;
     if sym < 256 then inflate_codes lit dist (put_out (word_of_int sym) s1)
     else if sym = 256 then Some s1
     else do {
       s2 \<leftarrow> copy_match sym dist s1;
       inflate_codes lit dist s2
     }
   }"

definition inflate_block :: "nat \<Rightarrow> tgz_stream \<Rightarrow> (int \<times> tgz_stream) option" where
  "inflate_block type s =
    (if type = 0 then Some (stored_block s)
     else if type = 1 \<or> type = 2 then do {
       (lit, dist, s1) \<leftarrow> (if type = 1 then do {
           lit \<leftarrow> tgz_build_tree fixed_lens;
           dist \<leftarrow> tgz_build_tree (replicate 32 5);
           Some (lit, dist, s)
         } else dynamic_trees s);
       s2 \<leftarrow> inflate_codes lit dist s1;
       Some (TGZ_OK, s2)
     }
     else Some (TGZ_ERR_FORMAT, s))"

partial_function (option) tgz_inflate :: "tgz_stream \<Rightarrow> (int \<times> tgz_stream) option" where
  "tgz_inflate s = do {
     let (final, s1) = get_bits 1 s;
     let (type, s2) = get_bits 2 s1;
     (r, s3) \<leftarrow> inflate_block type s2;
     if r \<noteq> TGZ_OK then Some (TGZ_ERR_FORMAT, s3)
     else if final = 0 then tgz_inflate s3 else Some (TGZ_OK, s3)
   }"

section \<open>The file\<close>

definition skip_string :: "mem \<Rightarrow> u64 \<Rightarrow> u64 option" where
  "skip_string m a = map_option (\<lambda>s. a + word_of_nat (length s) + 1) (user_string m a)"

definition gz_data_start :: "mem \<Rightarrow> u64 \<Rightarrow> u64 option" where
  "gz_data_start m src =
    (let flags = m (src + 3); a = src + 10;
         b = (if flags AND 0x04 \<noteq> 0 then a + 2 + (ucast (m a) OR push_bit 8 (ucast (m (a + 1)))) else a)
     in do {
       c \<leftarrow> (if flags AND 0x08 \<noteq> 0 then skip_string m b else Some b);
       d \<leftarrow> (if flags AND 0x10 \<noteq> 0 then skip_string m c else Some c);
       Some (if flags AND 0x02 \<noteq> 0 then d + 2 else d)
     })"

definition ungzip :: "u64 \<Rightarrow> u64 \<Rightarrow> mem \<Rightarrow> (int \<times> mem) option" where
  "ungzip src dst m =
    (if m src \<noteq> 0x1F \<or> m (src + 1) \<noteq> 0x8B \<or> m (src + 2) \<noteq> 8 then Some (TGZ_ERR_FORMAT, m)
     else do {
       a \<leftarrow> gz_data_start m src;
       (r, s) \<leftarrow> tgz_inflate \<lparr>tz_in = a, tz_out = dst, tz_out_start = dst, tz_bit_buf = 0, tz_bit_cnt = 0, tz_mem = m\<rparr>;
       Some (if r \<noteq> TGZ_OK then (TGZ_ERR_FORMAT, tz_mem s) else (sint (ucast (tz_out s - tz_out_start s) :: u32), tz_mem s))
     })"

section \<open>The reader of bits\<close>

text \<open>The bits that are still to come: first those in the buffer, then those of the bytes of the input, from the lowest on.\<close>

definition sbit :: "tgz_stream \<Rightarrow> nat \<Rightarrow> bool" where
  "sbit s i = (if i < tz_bit_cnt s then bit (tz_bit_buf s) i
     else bit (tz_mem s (tz_in s + word_of_nat ((i - tz_bit_cnt s) div 8))) ((i - tz_bit_cnt s) mod 8))"

definition stream_ok :: "tgz_stream \<Rightarrow> bool" where
  "stream_ok s \<longleftrightarrow> tz_bit_cnt s < 8 \<and> (\<forall>i\<ge>tz_bit_cnt s. \<not> bit (tz_bit_buf s) i)"

definition same_out :: "tgz_stream \<Rightarrow> tgz_stream \<Rightarrow> bool" where
  "same_out s s' \<longleftrightarrow> tz_mem s' = tz_mem s \<and> tz_out s' = tz_out s \<and> tz_out_start s' = tz_out_start s"

lemma same_out_refl [simp]: "same_out s s" and same_out_trans: "same_out s t \<Longrightarrow> same_out t u \<Longrightarrow> same_out s u"
  by (simp_all add: same_out_def)

definition load_byte :: "tgz_stream \<Rightarrow> tgz_stream" where
  "load_byte s = s\<lparr>tz_bit_buf := tz_bit_buf s OR push_bit (tz_bit_cnt s) (ucast (tz_mem s (tz_in s))), tz_in := tz_in s + 1, tz_bit_cnt := tz_bit_cnt s + 8\<rparr>"

lemma sbit_load:
  assumes "tz_bit_cnt s + 8 \<le> 32" "\<forall>i\<ge>tz_bit_cnt s. \<not> bit (tz_bit_buf s) i"
  shows "sbit (load_byte s) i = sbit s i"
proof -
  let ?c = "tz_bit_cnt s"
  consider "i < ?c" | "?c \<le> i" "i < ?c + 8" | "?c + 8 \<le> i" by linarith
  then show ?thesis
  proof cases
    case 1
    then show ?thesis using assms(1) by (simp add: sbit_def load_byte_def bit_simps)
  next
    case 2
    then have "(i - ?c) div 8 = 0" "(i - ?c) mod 8 = i - ?c" by auto
    then show ?thesis using 2 assms by (auto simp: sbit_def load_byte_def bit_simps)
  next
    case 3
    define k where "k = i - ?c - 8"
    have k: "i - ?c = k + 8" using 3 by (simp add: k_def)
    have "(i - ?c) div 8 = Suc (k div 8)" "(i - ?c) mod 8 = k mod 8" unfolding k by simp_all
    moreover have "i - (?c + 8) = k" using 3 by (simp add: k_def)
    ultimately show ?thesis using 3 by (simp add: sbit_def load_byte_def add.assoc)
  qed
qed

lemma fill_bits_spec:
  "bits \<le> 24 \<Longrightarrow> \<forall>i\<ge>tz_bit_cnt s. \<not> bit (tz_bit_buf s) i \<Longrightarrow>
   sbit (fill_bits bits s) = sbit s \<and> bits \<le> tz_bit_cnt (fill_bits bits s) \<and> tz_bit_cnt (fill_bits bits s) \<le> max (tz_bit_cnt s) (bits + 7)
   \<and> (\<forall>i\<ge>tz_bit_cnt (fill_bits bits s). \<not> bit (tz_bit_buf (fill_bits bits s)) i) \<and> same_out s (fill_bits bits s)"
proof (induction bits s rule: fill_bits.induct)
  case (1 bits s)
  show ?case
  proof (cases "tz_bit_cnt s < bits")
    case False
    then show ?thesis using 1 by (subst (1 2 3 4 5 6) fill_bits.simps) auto
  next
    case True
    have f: "fill_bits bits s = fill_bits bits (load_byte s)" using True by (subst fill_bits.simps) (simp add: load_byte_def)
    have z: "\<forall>i\<ge>tz_bit_cnt (load_byte s). \<not> bit (tz_bit_buf (load_byte s)) i"
      using 1(3) by (auto simp: load_byte_def bit_simps dest: bit_imp_le_length)
    have "sbit (load_byte s) = sbit s" using sbit_load 1(2,3) True by auto
    moreover have "same_out s (load_byte s)" by (simp add: same_out_def load_byte_def)
    moreover have "tz_bit_cnt (load_byte s) = tz_bit_cnt s + 8" by (simp add: load_byte_def)
    ultimately show ?thesis using 1(1) [OF True 1(2), folded load_byte_def, OF z] True unfolding f by (auto intro: same_out_trans)
  qed
qed

lemma tgz_get_bits_spec:
  assumes "stream_ok s" "bits \<le> 16" "tgz_get_bits bits s = (v, s')"
  shows "stream_ok s'" "sbit s' i = sbit s (i + bits)" "bit v i \<longleftrightarrow> i < bits \<and> sbit s i" "same_out s s'"
proof -
  let ?f = "fill_bits bits s"
  have f: "sbit ?f = sbit s" "bits \<le> tz_bit_cnt ?f" "tz_bit_cnt ?f \<le> max (tz_bit_cnt s) (bits + 7)"
      "\<forall>i\<ge>tz_bit_cnt ?f. \<not> bit (tz_bit_buf ?f) i" "same_out s ?f"
    using fill_bits_spec [of bits s] assms(1,2) by (auto simp: stream_ok_def)
  have r: "v = tz_bit_buf ?f AND mask bits" "s' = ?f\<lparr>tz_bit_buf := drop_bit bits (tz_bit_buf ?f), tz_bit_cnt := tz_bit_cnt ?f - bits\<rparr>"
    using assms(3) by (simp_all add: tgz_get_bits_def Let_def)
  show "stream_ok s'" using f assms(1) by (auto simp: stream_ok_def r bit_simps)
  have "sbit s' i = sbit ?f (i + bits)" using f(2) by (auto simp: sbit_def r bit_simps add.commute)
  then show "sbit s' i = sbit s (i + bits)" by (simp add: f(1))
  have "bit v i \<longleftrightarrow> i < bits \<and> sbit ?f i" using f(2) assms(2) by (auto simp: sbit_def r bit_simps)
  then show "bit v i \<longleftrightarrow> i < bits \<and> sbit s i" by (simp add: f(1))
  show "same_out s s'" using f(5) by (simp add: same_out_def r)
qed

lemma get_bit_spec:
  assumes "stream_ok s" "get_bits 1 s = (b, s')"
  shows "stream_ok s'" "sbit s' = (\<lambda>i. sbit s (i + 1))" "b = of_bool (sbit s 0)" "same_out s s'"
proof -
  obtain v where v: "tgz_get_bits 1 s = (v, s')" "b = unat v" using assms(2) by (auto simp: get_bits_def map_prod_def split: prod.splits)
  note g = tgz_get_bits_spec [OF assms(1) _ v(1), simplified]
  show "stream_ok s'" "same_out s s'" using g(1,4) .
  show "sbit s' = (\<lambda>i. sbit s (i + 1))" using g(2) by (simp add: fun_eq_iff)
  have "v = of_bool (sbit s 0)" by (rule bit_word_eqI) (auto simp: g(3) bit_simps)
  then show "b = of_bool (sbit s 0)" by (simp add: v(2))
qed

section \<open>Canonical codes\<close>

text \<open>How many symbols have a length, the first code of a length, and the code of a symbol.\<close>

definition len_count :: "nat list \<Rightarrow> nat \<Rightarrow> nat" where
  "len_count lens l = (if l = 0 then 0 else length (filter (\<lambda>x. x = l) lens))"

fun first_code :: "nat list \<Rightarrow> nat \<Rightarrow> nat" where
  "first_code lens 0 = 0"
| "first_code lens (Suc l) = 2 * (first_code lens l + len_count lens l)"

definition rank_of :: "nat list \<Rightarrow> nat \<Rightarrow> nat" where
  "rank_of lens i = length (filter (\<lambda>x. x = lens ! i) (take i lens))"

definition canon_code :: "nat list \<Rightarrow> nat \<Rightarrow> nat" where
  "canon_code lens i = first_code lens (lens ! i) + rank_of lens i"

lemma first_code_grows: "len < l \<Longrightarrow> 2 ^ (l - len) * (first_code lens len + len_count lens len) \<le> first_code lens l"
proof (induction l)
  case 0
  then show ?case by simp
next
  case (Suc l)
  show ?case
  proof (cases "len = l")
    case True
    then show ?thesis by simp
  next
    case False
    then have "Suc l - len = Suc (l - len)" "len < l" using Suc.prems by auto
    then show ?thesis using Suc.IH by simp
  qed
qed

lemma counts_fold:
  "\<forall>x\<in>set lens. x < length c \<Longrightarrow> l < length c \<Longrightarrow>
   fold (\<lambda>l c. c[l := c ! l + 1]) lens c ! l = c ! l + length (filter (\<lambda>x. x = l) lens)"
  by (induction lens arbitrary: c) (auto simp: nth_list_update)

lemma symbols_fold:
  assumes "\<forall>i<length lens. lens ! i < 16" "0 < l" "l < 16"
  shows "n \<le> length lens \<Longrightarrow> length (fold (\<lambda>i c. if lens ! i \<noteq> 0 then c[lens ! i := c ! (lens ! i) @ [i]] else c) [0..<n] (replicate 16 [])) = 16
     \<and> fold (\<lambda>i c. if lens ! i \<noteq> 0 then c[lens ! i := c ! (lens ! i) @ [i]] else c) [0..<n] (replicate 16 []) ! l = filter (\<lambda>i. lens ! i = l) [0..<n]"
  using assms by (induction n) (auto simp: nth_list_update)

lemma build_tree_spec:
  assumes "tgz_build_tree lens = Some tr" "0 < l" "l \<le> 15"
  shows "hf_counts tr ! l = len_count lens l" "hf_symbols tr ! l = filter (\<lambda>i. lens ! i = l) [0..<length lens]"
proof -
  have le: "\<forall>x\<in>set lens. x < 16" using assms(1) by (auto simp: tgz_build_tree_def TGZ_MAX_BITS_def split: if_splits)
  have tr: "hf_counts tr = (fold (\<lambda>l c. c[l := c ! l + 1]) lens (replicate 16 0))[0 := 0]"
    "hf_symbols tr = fold (\<lambda>i c. if lens ! i \<noteq> 0 then c[lens ! i := c ! (lens ! i) @ [i]] else c) [0..<length lens] (replicate 16 [])"
    using assms(1) by (auto simp: tgz_build_tree_def TGZ_MAX_BITS_def split: if_splits)
  show "hf_counts tr ! l = len_count lens l"
    using counts_fold [of lens "replicate 16 0" l] le assms(2,3) by (simp add: tr len_count_def)
  show "hf_symbols tr ! l = filter (\<lambda>i. lens ! i = l) [0..<length lens]"
    using symbols_fold [of lens l "length lens"] le assms(2,3) by (simp add: tr)
qed

lemma rank_filter: "i \<le> length lens \<Longrightarrow> length (filter (\<lambda>j. lens ! j = l) [0..<i]) = length (filter (\<lambda>x. x = l) (take i lens))"
proof (induction i)
  case 0
  then show ?case by simp
next
  case (Suc i)
  then show ?case by (simp add: take_Suc_conv_app_nth)
qed

lemma symbol_at_rank:
  assumes "i < length lens"
  shows "filter (\<lambda>j. lens ! j = lens ! i) [0..<length lens] ! rank_of lens i = i"
    "rank_of lens i < length (filter (\<lambda>j. lens ! j = lens ! i) [0..<length lens])"
proof -
  have "[0..<length lens] = [0..<i] @ i # [Suc i..<length lens]"
    using assms by (metis less_imp_add_positive upt_add_eq_append upt_conv_Cons zero_le)
  then have "filter (\<lambda>j. lens ! j = lens ! i) [0..<length lens] =
      filter (\<lambda>j. lens ! j = lens ! i) [0..<i] @ i # filter (\<lambda>j. lens ! j = lens ! i) [Suc i..<length lens]" by simp
  moreover have "length (filter (\<lambda>j. lens ! j = lens ! i) [0..<i]) = rank_of lens i"
    using rank_filter [of i lens "lens ! i"] assms by (simp add: rank_of_def)
  ultimately show "filter (\<lambda>j. lens ! j = lens ! i) [0..<length lens] ! rank_of lens i = i"
    "rank_of lens i < length (filter (\<lambda>j. lens ! j = lens ! i) [0..<length lens])"
    by (simp_all add: nth_append)
qed

text \<open>The loop after some bits of the code of a symbol of length \<open>l\<close>.\<close>

lemma decode_loop_code:
  assumes tr: "\<And>k. 0 < k \<Longrightarrow> k \<le> 15 \<Longrightarrow> hf_counts tr ! k = len_count lens k"
    and sy: "length (hf_symbols tr ! l) = len_count lens l" "hf_symbols tr ! l ! r = i" "r < len_count lens l" "l \<le> 15"
    and v: "v = first_code lens l + r"
  shows "0 < len \<Longrightarrow> len \<le> l \<Longrightarrow> stream_ok s \<Longrightarrow> (\<forall>k\<le>l - len. sbit s k \<longleftrightarrow> bit v (l - len - k)) \<Longrightarrow>
    \<exists>s'. decode_loop tr (16 - len) len (int (2 * (v div 2 ^ (l - len + 1)))) (int (first_code lens len)) s = Some (int i, s')
      \<and> stream_ok s' \<and> (\<forall>j. sbit s' j = sbit s (j + (l - len + 1))) \<and> same_out s s'"
proof (induction "l - len" arbitrary: len s)
  case 0
  then have l: "len = l" by simp
  obtain b s1 where b: "get_bits 1 s = (b, s1)" by fastforce
  note g = get_bit_spec [OF 0(4) b]
  have b0: "b = v mod 2" using 0(5) l g(3) by (simp add: bit_0 odd_iff_mod_2_eq_one)
  have c: "int (2 * (v div 2 ^ (l - len + 1))) + int b = int v" unfolding b0 l of_nat_add [symmetric] by simp
  define f where "f = 15 - len"
  have f: "16 - len = Suc f" using 0(3) sy(4) by (simp add: f_def)
  have "hf_counts tr ! len = len_count lens l" using tr 0(2) l sy(4) by simp
  then have "decode_loop tr (16 - len) len (int (2 * (v div 2 ^ (l - len + 1)))) (int (first_code lens len)) s = Some (int i, s1)"
    using sy unfolding f decode_loop.simps b prod.case Let_def c by (simp add: l v)
  then show ?case using g l by auto
next
  case (Suc n)
  then have l: "len < l" "l - Suc len = n" by simp_all
  obtain b s1 where b: "get_bits 1 s = (b, s1)" by fastforce
  note g = get_bit_spec [OF Suc(5) b]
  let ?p = "v div 2 ^ (l - len)"
  have b0: "b = ?p mod 2" using Suc(6) g(3) by (simp add: bit_iff_odd odd_iff_mod_2_eq_one)
  have h: "v div 2 ^ (l - len + 1) = ?p div 2" by (metis Suc_eq_plus1 div_mult2_eq power_Suc2)
  have c: "int (2 * (v div 2 ^ (l - len + 1))) + int b = int ?p"
    unfolding h b0 of_nat_add [symmetric] by simp
  have "2 ^ (l - len) * (first_code lens len + len_count lens len) \<le> v" using first_code_grows [OF l(1)] v by (meson le_add1 le_trans)
  then have ge: "first_code lens len + len_count lens len \<le> ?p"
    by (simp add: less_eq_div_iff_mult_less_eq mult.commute)
  define f where "f = 15 - len"
  have f: "16 - len = Suc f" "16 - Suc len = f" using Suc(4) sy(4) l by (simp_all add: f_def)
  have cnt: "hf_counts tr ! len = len_count lens len" using tr Suc(3,4) sy(4) l by simp
  have k: "\<forall>k\<le>l - Suc len. sbit s1 k \<longleftrightarrow> bit v (l - Suc len - k)"
  proof (intro allI impI)
    fix k assume k: "k \<le> l - Suc len"
    then have "l - len - Suc k = l - Suc len - k" by simp
    moreover have "sbit s (Suc k) \<longleftrightarrow> bit v (l - len - Suc k)" using Suc(6) k l(1) by simp
    ultimately show "sbit s1 k \<longleftrightarrow> bit v (l - Suc len - k)" unfolding g(2) by simp
  qed
  have m: "l - Suc len + 1 = l - len" using l by simp
  obtain s' where s': "decode_loop tr f (Suc len) (int (2 * ?p)) (int (first_code lens (Suc len))) s1 = Some (int i, s')"
      "stream_ok s'" "\<forall>j. sbit s' j = sbit s1 (j + (l - len))" "same_out s1 s'"
    using Suc(1) [of "Suc len" s1] l g(1) k unfolding f m by auto
  have "decode_loop tr (16 - len) len (int (2 * (v div 2 ^ (l - len + 1)))) (int (first_code lens len)) s = Some (int i, s')"
    using s'(1) ge unfolding f decode_loop.simps b prod.case Let_def c by (simp add: cnt)
  moreover have "\<forall>j. sbit s' j = sbit s (j + (l - len + 1))" using s'(3) g(2) by simp
  ultimately show ?case using s'(2,4) g(4) same_out_trans by blast
qed

section \<open>Copies\<close>

lemma lz_copy_frame: "tz_out (lz_copy n src s) = tz_out s + word_of_nat n" "tz_in (lz_copy n src s) = tz_in s"
  "tz_bit_buf (lz_copy n src s) = tz_bit_buf s" "tz_bit_cnt (lz_copy n src s) = tz_bit_cnt s"
  by (induction n arbitrary: src s) (simp_all add: put_out_def add.assoc)

lemma suc_mod_dist: "0 < dist \<Longrightarrow> Suc j mod dist = (if j mod dist = dist - 1 then 0 else Suc (j mod dist))"
  by (auto simp: mod_Suc)

lemma lz_copy_mem:
  assumes "0 < dist" "dist + n \<le> 2 ^ 64"
  shows "k \<le> n \<Longrightarrow> tz_mem (lz_copy k (tz_out s - word_of_nat dist) s) a =
    (if unat (a - tz_out s) < k then tz_mem s (tz_out s - word_of_nat dist + word_of_nat (unat (a - tz_out s) mod dist)) else tz_mem s a)"
proof (induction k arbitrary: s a)
  case 0
  then show ?case by simp
next
  case (Suc k)
  let ?d = "word_of_nat dist :: u64" and ?o = "tz_out s"
  define s1 where "s1 = put_out (tz_mem s (?o - ?d)) s"
  have o1: "tz_out s1 = ?o + 1" "?o - ?d + 1 = tz_out s1 - ?d" and m1: "tz_mem s1 = (tz_mem s)(?o := tz_mem s (?o - ?d))"
    by (simp_all add: s1_def put_out_def)
  have step: "lz_copy (Suc k) (?o - ?d) s = lz_copy k (tz_out s1 - ?d) s1" by (simp add: s1_def [symmetric] o1(2) [symmetric])
  note IH = Suc.IH [of s1 a]
  have k: "Suc k < 2 ^ 64" using Suc.prems assms by simp
  show ?case
  proof (cases "a = ?o")
    case True
    have "unat (a - tz_out s1) = 2 ^ 64 - 1" unfolding o1 True by (simp add: unsigned_minus_1_eq_mask mask_eq_exp_minus_1)
    then show ?thesis using IH Suc.prems k True unfolding step by (simp add: m1)
  next
    case False
    define j where "j = unat (a - ?o) - 1"
    have "unat (a - ?o) \<noteq> 0" using False by (simp add: unat_eq_0)
    then have j: "unat (a - ?o) = Suc j" by (simp add: j_def)
    have "unat (a - tz_out s1) = unat ((a - ?o) - 1)" unfolding o1 by (simp add: algebra_simps)
    also have "\<dots> = j" using j by (simp add: unat_minus_one False)
    finally have j1: "unat (a - tz_out s1) = j" .
    have r: "tz_mem s1 (tz_out s1 - ?d + word_of_nat (j mod dist)) = tz_mem s (?o - ?d + word_of_nat (Suc j mod dist))"
    proof (cases "j mod dist = dist - 1")
      case True
      then have "tz_out s1 - ?d + word_of_nat (j mod dist) = ?o" using assms(1) by (simp add: o1 of_nat_diff)
      then show ?thesis using True assms(1) by (simp add: m1 suc_mod_dist)
    next
      case ne: False
      have lt: "Suc (j mod dist) < dist" using ne assms(1) mod_less_divisor [of dist j] by linarith
      have "tz_out s1 - ?d + word_of_nat (j mod dist) = ?o - ?d + word_of_nat (Suc (j mod dist))" by (simp add: o1)
      moreover have "?o - ?d + word_of_nat (Suc (j mod dist)) \<noteq> ?o"
      proof
        assume "?o - ?d + word_of_nat (Suc (j mod dist)) = ?o"
        then have "word_of_nat (Suc (j mod dist)) = ?d" by (simp add: algebra_simps)
        then have "unat (word_of_nat (Suc (j mod dist)) :: u64) = unat ?d" by simp
        moreover have "dist < 18446744073709551616" using assms(2) k Suc.prems by simp
        ultimately have "Suc (j mod dist) = dist" using lt by (simp only: unat_of_nat64)
        then show False using lt by simp
      qed
      ultimately have "tz_mem s1 (tz_out s1 - ?d + word_of_nat (j mod dist)) = tz_mem s (?o - ?d + word_of_nat (Suc (j mod dist)))"
        unfolding m1 by (metis fun_upd_other)
      then show ?thesis using ne assms(1) by (simp only: suc_mod_dist if_False)
    qed
    show ?thesis using IH Suc.prems j j1 r False unfolding step by (simp add: m1)
  qed
qed

section \<open>Stored blocks\<close>

text \<open>
  The contents of a stored block are copied with \<open>memcpy\<close>: when the output is not at a multiple of eight, its last bytes may be
  missing, and the output goes on behind them.
\<close>

lemma fill_bits_out: "same_out s (fill_bits bits s)"
proof (induction bits s rule: fill_bits.induct)
  case (1 bits s)
  show ?case
  proof (cases "tz_bit_cnt s < bits")
    case True
    then show ?thesis using 1 by (subst fill_bits.simps) (simp add: same_out_def)
  next
    case False
    then show ?thesis by (subst fill_bits.simps) simp
  qed
qed

lemma tgz_get_bits_out: "tgz_get_bits bits s = (v, s') \<Longrightarrow> same_out s s'"
  using fill_bits_out [of s bits] by (auto simp: tgz_get_bits_def Let_def same_out_def)

lemma stored_block_loses:
  assumes "stored_block s = (TGZ_OK, s')"
  shows "\<exists>src n :: u64. tz_out s' = tz_out s + n \<and> tz_in s' = src + n
    \<and> (apart (tz_out s) src (unat n + 7) \<longrightarrow> (\<forall>a. \<not> span (tz_out s) (memcpy_len (tz_out s) (unat n)) a \<longrightarrow> tz_mem s' a = tz_mem s a))"
proof -
  let ?s0 = "s\<lparr>tz_bit_buf := drop_bit (tz_bit_cnt s mod 8) (tz_bit_buf s), tz_bit_cnt := tz_bit_cnt s - tz_bit_cnt s mod 8\<rparr>"
  obtain len s1 nlen s2 where g: "tgz_get_bits 16 ?s0 = (len, s1)" "tgz_get_bits 16 s1 = (nlen, s2)" by fastforce
  have "same_out s ?s0" by (simp add: same_out_def)
  then have "same_out s s2" using tgz_get_bits_out [OF g(1)] tgz_get_bits_out [OF g(2)] same_out_trans by blast
  then have o: "tz_out s2 = tz_out s" "tz_mem s2 = tz_mem s" by (simp_all add: same_out_def)
  have s': "s' = s2\<lparr>tz_mem := memcpy (tz_mem s2) (tz_out s2) (tz_in s2) (ucast len), tz_in := tz_in s2 + ucast len, tz_out := tz_out s2 + ucast len\<rparr>"
    using assms g by (simp add: stored_block_def Let_def TGZ_OK_def TGZ_ERR_FORMAT_def split: if_splits)
  show ?thesis
    by (rule exI [of _ "tz_in s2"], rule exI [of _ "ucast len"]) (simp add: s' o memcpy_eq blit_def)
qed

section \<open>Properties\<close>

text \<open>
  C24. Decoding inverts the canonical code: when the bits of the code of a symbol come next, the highest first, the
  result is that symbol, and exactly those bits are consumed. The only thing asked of the lengths is that the code of the symbol fits them.
\<close>
theorem huffman_decodes:
  assumes "tgz_build_tree lens = Some tr" "i < length lens" "0 < lens ! i" "canon_code lens i < 2 ^ (lens ! i)" "stream_ok s"
    and "\<forall>k<lens ! i. sbit s k \<longleftrightarrow> bit (canon_code lens i) (lens ! i - 1 - k)"
  shows "\<exists>s'. tgz_decode_symbol s tr = Some (int i, s') \<and> stream_ok s' \<and> (\<forall>j. sbit s' j = sbit s (j + lens ! i)) \<and> same_out s s'"
proof -
  let ?l = "lens ! i"
  have l: "?l \<le> 15" using assms(1,2) by (auto simp: tgz_build_tree_def TGZ_MAX_BITS_def not_less split: if_splits)
  have sy: "hf_symbols tr ! ?l = filter (\<lambda>j. lens ! j = ?l) [0..<length lens]" using build_tree_spec [OF assms(1,3) l] by simp
  have len: "length (hf_symbols tr ! ?l) = len_count lens ?l"
    using rank_filter [of "length lens" lens ?l] assms(3) by (simp add: sy len_count_def)
  have z: "canon_code lens i div 2 ^ (?l - 1 + 1) = 0" using assms(3,4) by simp
  have "\<exists>s'. decode_loop tr (16 - 1) 1 (int (2 * (canon_code lens i div 2 ^ (?l - 1 + 1)))) (int (first_code lens 1)) s = Some (int i, s')
      \<and> stream_ok s' \<and> (\<forall>j. sbit s' j = sbit s (j + (?l - 1 + 1))) \<and> same_out s s'"
  proof (rule decode_loop_code [where r = "rank_of lens i"])
    show "hf_counts tr ! k = len_count lens k" if "0 < k" "k \<le> 15" for k using build_tree_spec(1) [OF assms(1) that] .
    show "hf_symbols tr ! ?l ! rank_of lens i = i" using symbol_at_rank(1) [OF assms(2)] by (simp add: sy)
    show "rank_of lens i < len_count lens ?l" using symbol_at_rank(2) [OF assms(2)] len by (simp add: sy)
    show "\<forall>k\<le>?l - 1. sbit s k \<longleftrightarrow> bit (canon_code lens i) (?l - 1 - k)" using assms(3,6) by auto
  qed (use l len assms(3,5) in \<open>simp_all add: canon_code_def\<close>)
  moreover have "first_code lens 1 = 0" by (simp add: len_count_def)
  ultimately show ?thesis unfolding z tgz_decode_symbol_def TGZ_MAX_BITS_def using assms(3) by simp
qed

definition stream_ex :: tgz_stream where
  "stream_ex = \<lparr>tz_in = 0x1000, tz_out = 0x2003, tz_out_start = 0x2000, tz_bit_buf = 3, tz_bit_cnt = 2, tz_mem = (\<lambda>a. ucast a)\<rparr>"

theorem huffman_decodes_witness: "\<exists>tr s'. tgz_build_tree [1, 2, 2] = Some tr \<and> tgz_decode_symbol stream_ex tr = Some (2, s')"
proof -
  obtain tr where tr: "tgz_build_tree [1, 2, 2] = Some tr" by (simp add: tgz_build_tree_def TGZ_MAX_BITS_def)
  have c: "canon_code [1, 2, 2] 2 = 3" by (simp add: canon_code_def rank_of_def len_count_def numeral_2_eq_2)
  have ok: "stream_ok stream_ex"
  proof -
    have "\<not> bit (3 :: u32) i" if "2 \<le> i" for i using that by (auto simp: bit_numeral_rec(2) bit_1_iff numeral_eq_Suc le_eq_less_or_eq elim!: less_SucE)
    then show ?thesis by (simp add: stream_ok_def stream_ex_def)
  qed
  have b: "\<forall>k<[1, 2, 2] ! 2. sbit stream_ex k \<longleftrightarrow> bit (canon_code [1, 2, 2] 2) ([1, 2, 2] ! 2 - 1 - k)"
    unfolding c by (auto simp: sbit_def stream_ex_def less_2_cases_iff bit_Suc_0_iff)
  have h: "(2 :: nat) < length [1, 2, 2 :: nat]" "0 < [1, 2, 2 :: nat] ! 2" "canon_code [1, 2, 2] 2 < 2 ^ ([1, 2, 2] ! 2)" unfolding c by simp_all
  show ?thesis using huffman_decodes [OF tr h ok b] tr by auto
qed

text \<open>
  Copying a match from before the end of the output, also when the two overlap, continues the last \<open>dist\<close> bytes of the output periodically, and
  changes nothing else.
\<close>
lemma lz_copy_repeats:
  assumes "0 < dist" "dist + n \<le> 2 ^ 64"
  shows "tz_mem (lz_copy n (tz_out s - word_of_nat dist) s) a =
    (if span (tz_out s) n a then tz_mem s (tz_out s - word_of_nat dist + word_of_nat (unat (a - tz_out s) mod dist)) else tz_mem s a)"
  using lz_copy_mem [OF assms order_refl] by (simp add: span_def)

lemma lz_copy_repeats_witness: "tz_mem (lz_copy 5 (tz_out stream_ex - word_of_nat 3) stream_ex) 0x2007 = 1"
  using lz_copy_repeats [of 3 5 stream_ex "0x2007"] by (simp add: span_def stream_ex_def)

end
