(* ===== verification/DataText.thy ===== *)
theory DataText
  imports CString Users
begin

text \<open>
  The readers of text files in \<^verbatim>\<open>emex/kernel/data\<close>: \<^verbatim>\<open>ini/ini.c\<close>, \<^verbatim>\<open>conf/conf.c\<close>, \<^verbatim>\<open>json/json.c\<close> and
  \<^verbatim>\<open>html/html.c\<close>. A text is the list of its characters up to the NUL. Where the code puts NULs into the text and keeps
  pointers, the model keeps the strings they point to, but for the HTML reader, whose result depends on what happens to the text
  later: there the text is an array with positions.
\<close>

definition is_ws :: "char \<Rightarrow> bool" where
  "is_ws c \<longleftrightarrow> c \<in> {CHR '' '', CHR 0x09, CHR 0x0D, CHR 0x0A}"

definition NL :: char where "NL = CHR 0x0A"

definition skipWS :: "string \<Rightarrow> string" where
  "skipWS s = dropWhile is_ws s"

lemma length_skipWS [termination_simp]: "length (skipWS s) \<le> length s"
  by (simp add: skipWS_def length_dropWhile_le)

section \<open>INI files\<close>

record ini_entry =
  ini_section :: "string option"
  ini_key :: string
  ini_value :: string

definition line_end :: "string \<Rightarrow> string" where
  "line_end s = dropWhile (\<lambda>c. c \<noteq> NL) s"

lemma line_end_le [termination_simp]: "length (line_end s) \<le> length s"
  by (simp add: line_end_def length_dropWhile_le)

text \<open>The loop: what is left of the text, the section and the entries so far.\<close>

function ini_loop :: "nat \<Rightarrow> string \<Rightarrow> string option \<Rightarrow> ini_entry list \<Rightarrow> ini_entry list" where
  "ini_loop mx [] sec es = es"
| "ini_loop mx (c # s) sec es =
    (if mx \<le> length es then es
     else if c = CHR '';'' \<or> c = CHR ''#'' then ini_loop mx (skipWS (line_end s)) sec es
     else if c = CHR ''['' then ini_loop mx (skipWS (tl (dropWhile (\<lambda>c. c \<noteq> CHR '']'') s))) (Some (takeWhile (\<lambda>c. c \<noteq> CHR '']'') s)) es
     else let key = takeWhile (\<lambda>c. c \<noteq> CHR ''='' \<and> c \<noteq> NL) (c # s); r = dropWhile (\<lambda>c. c \<noteq> CHR ''='' \<and> c \<noteq> NL) (c # s)
     in case r of
          [] \<Rightarrow> es
        | d # v \<Rightarrow>
          if d \<noteq> CHR ''='' then ini_loop mx (skipWS v) sec es
          else ini_loop mx (skipWS (tl (line_end v))) sec (es @ [\<lparr>ini_section = sec, ini_key = key, ini_value = takeWhile (\<lambda>c. c \<noteq> NL) v\<rparr>]))"
  by pat_completeness auto
termination
proof (relation "measure (\<lambda>(mx, s, sec, es). length s)")
  fix mx :: nat and c s key r d v and sec :: "string option" and es :: "ini_entry list"
  assume "key = takeWhile (\<lambda>c. c \<noteq> CHR ''='' \<and> c \<noteq> NL) (c # s)" "r = dropWhile (\<lambda>c. c \<noteq> CHR ''='' \<and> c \<noteq> NL) (c # s)" "r = d # v"
  then have "length (d # v) \<le> length (c # s)" by (metis length_dropWhile_le)
  then have l: "length v < length (c # s)" by simp
  then show "((mx, skipWS v, sec, es), mx, c # s, sec, es) \<in> measure (\<lambda>(mx, s, sec, es). length s)"
    using length_skipWS [of v] by simp
  have "length (skipWS (tl (line_end v))) \<le> length v" using length_skipWS [of "tl (line_end v)"] line_end_le [of v] by simp
  then show "((mx, skipWS (tl (line_end v)), sec, es @ [\<lparr>ini_section = sec, ini_key = key, ini_value = takeWhile (\<lambda>c. c \<noteq> NL) v\<rparr>]), mx, c # s, sec, es)
      \<in> measure (\<lambda>(mx, s, sec, es). length s)" using l by simp
next
  fix mx :: nat and c s and sec :: "string option" and es :: "ini_entry list"
  show "((mx, skipWS (line_end s), sec, es), mx, c # s, sec, es) \<in> measure (\<lambda>(mx, s, sec, es). length s)"
    using length_skipWS [of "line_end s"] line_end_le [of s] by simp
  have "length (skipWS (tl (dropWhile (\<lambda>c. c \<noteq> CHR '']'') s))) \<le> length s"
    using length_skipWS [of "tl (dropWhile (\<lambda>c. c \<noteq> CHR '']'') s)"] length_dropWhile_le [of "\<lambda>c. c \<noteq> CHR '']''" s] by simp
  then show "((mx, skipWS (tl (dropWhile (\<lambda>c. c \<noteq> CHR '']'') s)), Some (takeWhile (\<lambda>c. c \<noteq> CHR '']'') s), es), mx, c # s, sec, es)
      \<in> measure (\<lambda>(mx, s, sec, es). length s)" by simp
qed simp_all

definition ini_parse :: "string \<Rightarrow> nat \<Rightarrow> ini_entry list" where
  "ini_parse buf mx = ini_loop mx (skipWS buf) None []"

definition ini_get :: "ini_entry list \<Rightarrow> string option \<Rightarrow> string \<Rightarrow> string option" where
  "ini_get es section key = map_option ini_value
    (find (\<lambda>e. (ini_section e = None \<and> section = None \<or> str_equals (ini_section e) section) \<and> str_equals (Some (ini_key e)) (Some key)) es)"

section \<open>Configuration files\<close>

definition CONF_MAX_KEY :: nat where "CONF_MAX_KEY = 64"
definition CONF_MAX_VALUE :: nat where "CONF_MAX_VALUE = 256"

definition conf_blank :: "char \<Rightarrow> bool" where
  "conf_blank c \<longleftrightarrow> c = CHR '' '' \<or> c = CHR 0x09"

lemma dropWhile_le [termination_simp]: "length (dropWhile P xs) \<le> length xs"
  by (rule length_dropWhile_le)

text \<open>A line: what is behind the blanks at its start. The result is an entry, when there is one, and the rest of the text.\<close>

definition conf_line :: "string \<Rightarrow> (string \<times> string) option \<times> string" where
  "conf_line s =
    (let line = dropWhile conf_blank s
     in if line \<noteq> [] \<and> (hd line = CHR ''#'' \<or> hd line = NL) then (None, tl (line_end line))
        else let key = takeWhile (\<lambda>c. c \<noteq> CHR '':'' \<and> c \<noteq> NL) line; r = dropWhile (\<lambda>c. c \<noteq> CHR '':'' \<and> c \<noteq> NL) line
        in if r = [] \<or> hd r \<noteq> CHR '':'' then (None, tl (line_end r))
           else let v = dropWhile conf_blank (tl r)
           in (Some (take (CONF_MAX_KEY - 1) key, take (CONF_MAX_VALUE - 1) (takeWhile (\<lambda>c. c \<noteq> NL) v)), tl (line_end v)))"

lemma tl_line_end_less: "length x \<le> n \<Longrightarrow> 0 < n \<Longrightarrow> length (tl (line_end x)) < n"
  using line_end_le [of x] by (cases "line_end x") auto

lemma conf_line_shorter: "s \<noteq> [] \<Longrightarrow> length (snd (conf_line s)) < length s"
proof -
  assume s: "s \<noteq> []"
  let ?l = "dropWhile conf_blank s" and ?r = "dropWhile (\<lambda>c. c \<noteq> CHR '':'' \<and> c \<noteq> NL) (dropWhile conf_blank s)"
  have l: "length ?l \<le> length s" by (rule length_dropWhile_le)
  have r: "length ?r \<le> length s" by (rule le_trans [OF length_dropWhile_le l])
  have "length (dropWhile conf_blank (tl ?r)) \<le> length s" by (rule le_trans [OF length_dropWhile_le]) (use r in simp)
  then show ?thesis using s tl_line_end_less [OF l] tl_line_end_less [OF r] tl_line_end_less [of "dropWhile conf_blank (tl ?r)" "length s"]
    unfolding conf_line_def Let_def by (auto simp del: length_tl)
qed

function conf_loop :: "nat \<Rightarrow> string \<Rightarrow> (string \<times> string) list \<Rightarrow> (string \<times> string) list" where
  "conf_loop mx s es =
    (if s = [] \<or> mx \<le> length es then es
     else conf_loop mx (snd (conf_line s)) (case fst (conf_line s) of None \<Rightarrow> es | Some e \<Rightarrow> es @ [e]))"
  by pat_completeness auto
termination by (relation "measure (\<lambda>(mx, s, es). length s)") (auto simp: conf_line_shorter)

declare conf_loop.simps [simp del]

text \<open>The text of a file: what was read, up to the first NUL.\<close>

definition read_text :: "fs_tab \<Rightarrow> u64 \<Rightarrow> u64 \<Rightarrow> string \<Rightarrow> fs \<Rightarrow> (string option \<times> fs) option" where
  "read_text tab buf n path s = do {
     (fd, s1) \<leftarrow> fs_open tab path O_RDONLY s;
     if fd < 0 then Some (None, s1)
     else do {
       (k, s2) \<leftarrow> fs_read tab fd buf n s1;
       (_, s3) \<leftarrow> fs_close tab fd s2;
       Some (if k \<le> 0 then None else Some (takeWhile (\<lambda>c. c \<noteq> CHR 0x00) (mem_string (km_bytes (fs_mem s3)) buf (nat k))), s3)
     }
   }"

definition conf_load :: "fs_tab \<Rightarrow> u64 \<Rightarrow> string \<Rightarrow> nat \<Rightarrow> fs \<Rightarrow> (int \<times> (string \<times> string) list \<times> fs) option" where
  "conf_load tab buf path mx s = do {
     (text, s1) \<leftarrow> read_text tab buf 2047 path s;
     Some (case text of None \<Rightarrow> (-1, [], s1) | Some x \<Rightarrow> let es = conf_loop mx x [] in (int (length es), es, s1))
   }"

definition conf_get :: "(string \<times> string) list \<Rightarrow> string \<Rightarrow> string option" where
  "conf_get es key = map_option snd (find (\<lambda>e. str_equals (Some (fst e)) (Some key)) es)"

section \<open>JSON\<close>

definition JSON_MAX_KEY :: nat where "JSON_MAX_KEY = 128"
definition JSON_MAX_VALUE :: nat where "JSON_MAX_VALUE = 256"

fun skip_block :: "string \<Rightarrow> string" where
  "skip_block [] = []"
| "skip_block (c # s) = (if c = CHR ''*'' \<and> s \<noteq> [] \<and> hd s = CHR ''/'' then tl s else skip_block s)"

lemma skip_block_le [termination_simp]: "length (skip_block s) \<le> length s"
  by (induction s rule: skip_block.induct) auto

function skipCOM1 :: "string \<Rightarrow> string" where
  "skipCOM1 s =
    (if take 2 s = ''//'' then skipCOM1 (skipWS (line_end (drop 2 s)))
     else if take 2 s = ''/*'' then skipCOM1 (skipWS (skip_block (drop 2 s)))
     else s)"
  by pat_completeness auto
termination
proof (relation "measure length")
  fix s :: string
  have "length (skipWS (line_end (drop 2 s))) \<le> length (drop 2 s)" "length (skipWS (skip_block (drop 2 s))) \<le> length (drop 2 s)"
    by (metis length_skipWS line_end_le le_trans) (metis length_skipWS skip_block_le le_trans)
  moreover assume "take 2 s = ''//''"
  then have "s \<noteq> []" by auto
  ultimately show "(skipWS (line_end (drop 2 s)), s) \<in> measure length" by (cases s) auto
next
  fix s :: string
  have "length (skipWS (skip_block (drop 2 s))) \<le> length (drop 2 s)" by (metis length_skipWS skip_block_le le_trans)
  moreover assume "take 2 s = ''/*''"
  then have "s \<noteq> []" by auto
  ultimately show "(skipWS (skip_block (drop 2 s)), s) \<in> measure length" by (cases s) auto
qed simp

declare skipCOM1.simps [simp del]

definition skip :: "string \<Rightarrow> string" where
  "skip s = skipCOM1 (skipWS s)"

definition at_char :: "char \<Rightarrow> string \<Rightarrow> bool" where
  "at_char c s \<longleftrightarrow> s \<noteq> [] \<and> hd s = c"

definition skip_char :: "char \<Rightarrow> string \<Rightarrow> string" where
  "skip_char c s = (if at_char c s then tl s else s)"

definition read_string :: "string \<Rightarrow> nat \<Rightarrow> (string \<times> string) option" where
  "read_string s max_len =
    (if \<not> at_char (CHR 0x22) s then None
     else let b = take (max_len - 1) (takeWhile (\<lambda>c. c \<noteq> CHR 0x22) (tl s))
     in Some (b, skip_char (CHR 0x22) (drop (length b) (tl s))))"

text \<open>Keys that do not fit their arrays are undefined.\<close>

definition append_key :: "string \<Rightarrow> string \<Rightarrow> string option" where
  "append_key parent child =
    (let k = (if parent = [] then child else parent @ ''.'' @ child) in if JSON_MAX_KEY \<le> length k then None else Some k)"

text \<open>The index has one digit or two characters, of which the first is no digit from 100 on.\<close>

definition index_key :: "string \<Rightarrow> nat \<Rightarrow> string option" where
  "index_key prefix idx =
    (let ds = (if idx \<ge> 10 then [char_of (48 + idx div 10), char_of (48 + idx mod 10)] else [char_of (48 + idx)]);
         k = prefix @ takeWhile (\<lambda>c. c \<noteq> CHR 0x00) (''['' @ ds @ '']'')
     in if JSON_MAX_KEY \<le> length k then None else Some k)"

type_synonym json_entry = "string \<times> string"

definition put_value :: "string \<Rightarrow> string \<Rightarrow> nat \<Rightarrow> json_entry list \<Rightarrow> string \<times> json_entry list" where
  "put_value q key mx es =
    (case read_string q JSON_MAX_VALUE of None \<Rightarrow> (q, es)
     | Some (v, r) \<Rightarrow> (r, if length es < mx then es @ [(key, v)] else es))"

definition next_item :: "string \<Rightarrow> string" where
  "next_item r = skip (skip_char (CHR '','') (skip r))"

datatype json_mode = InObject | InArray nat

text \<open>The loops of \<open>parse_object\<close> and \<open>parse_array\<close>, from behind the bracket on.\<close>

partial_function (option) json_loop :: "json_mode \<Rightarrow> string \<Rightarrow> string \<Rightarrow> nat \<Rightarrow> json_entry list \<Rightarrow> (string \<times> json_entry list) option" where
  "json_loop mode p prefix mx es =
    (case mode of
       InArray idx \<Rightarrow>
         if p = [] \<or> hd p = CHR '']'' then Some (skip_char (CHR '']'') p, es)
         else do {
           tmp \<leftarrow> index_key prefix idx;
           (r, es1) \<leftarrow> (if at_char (CHR ''{'') (skip p) then json_loop InObject (skip (tl (skip p))) tmp mx es
                        else Some (put_value (skip p) tmp mx es));
           json_loop (InArray (idx + 1)) (next_item r) prefix mx es1
         }
     | InObject \<Rightarrow>
         if p = [] \<or> hd p = CHR ''}'' then Some (skip_char (CHR ''}'') p, es)
         else (case read_string p JSON_MAX_KEY of
           None \<Rightarrow> Some (skip_char (CHR ''}'') p, es)
         | Some (key, r0) \<Rightarrow>
             if \<not> at_char (CHR '':'') (skip r0) then Some (skip_char (CHR ''}'') (skip r0), es)
             else let q = skip (tl (skip r0)) in do {
               np \<leftarrow> append_key prefix key;
               (r, es1) \<leftarrow> (if at_char (CHR ''{'') q then json_loop InObject (skip (tl q)) np mx es
                            else if at_char (CHR ''['') q then json_loop (InArray 0) (skip (tl q)) np mx es
                            else Some (put_value q np mx es));
               json_loop InObject (next_item r) prefix mx es1
             }))"

definition json_text :: "string \<Rightarrow> nat \<Rightarrow> json_entry list option" where
  "json_text buf mx =
    (let p = skip buf in if at_char (CHR ''{'') p then map_option snd (json_loop InObject (skip (tl p)) [] mx []) else Some [])"

definition json_load :: "fs_tab \<Rightarrow> u64 \<Rightarrow> string \<Rightarrow> nat \<Rightarrow> fs \<Rightarrow> (int \<times> json_entry list \<times> fs) option" where
  "json_load tab buf path mx s = do {
     (text, s1) \<leftarrow> read_text tab buf 8191 path s;
     case text of None \<Rightarrow> Some (-1, [], s1)
     | Some x \<Rightarrow> do {
         es \<leftarrow> json_text x mx;
         Some (int (length es), es, s1)
       }
   }"

definition json_get :: "json_entry list \<Rightarrow> string \<Rightarrow> string option" where
  "json_get es key = map_option snd (find (\<lambda>e. str_equals (Some (fst e)) (Some key)) es)"

section \<open>HTML\<close>

text \<open>The text as an array; behind its end is the NUL.\<close>

definition chr_at :: "string \<Rightarrow> nat \<Rightarrow> char" where
  "chr_at b i = (if i < length b then b ! i else CHR 0x00)"

function scan_to :: "(char \<Rightarrow> bool) \<Rightarrow> string \<Rightarrow> nat \<Rightarrow> nat" where
  "scan_to stop b i = (if chr_at b i = CHR 0x00 \<or> stop (chr_at b i) then i else scan_to stop b (i + 1))"
  by pat_completeness auto
termination by (relation "measure (\<lambda>(stop, b, i). length b - i)") (auto simp: chr_at_def split: if_splits)

function scan_close :: "string \<Rightarrow> nat \<Rightarrow> nat" where
  "scan_close b i = (if chr_at b i = CHR 0x00 \<or> chr_at b i = CHR ''<'' \<and> chr_at b (i + 1) = CHR ''/'' then i else scan_close b (i + 1))"
  by pat_completeness auto
termination by (relation "measure (\<lambda>(b, i). length b - i)") (auto simp: chr_at_def split: if_splits)

declare scan_to.simps [simp del] scan_close.simps [simp del]

definition past :: "string \<Rightarrow> nat \<Rightarrow> nat" where
  "past b i = (if chr_at b i \<noteq> CHR 0x00 then i + 1 else i)"

text \<open>What the pointers of an entry point to in the end.\<close>

definition str_at :: "string \<Rightarrow> nat \<Rightarrow> string" where
  "str_at b i = takeWhile (\<lambda>c. c \<noteq> CHR 0x00) (drop i b)"

partial_function (option) html_loop :: "string \<Rightarrow> nat \<Rightarrow> (nat \<times> nat) list \<Rightarrow> (string \<times> (nat \<times> nat) list) option" where
  "html_loop b p es =
    (if chr_at b p = CHR 0x00 then Some (b, es)
     else if chr_at b p \<noteq> CHR ''<'' then html_loop b (p + 1) es
     else let p = p + 1
     in if chr_at b p = CHR ''/'' then html_loop b (scan_to (\<lambda>c. \<not> is_ws c) b (past b (scan_to (\<lambda>c. c = CHR ''>'') b p))) es
     else let tag = p; content = past b (scan_to (\<lambda>c. c = CHR ''>'') b (scan_to (\<lambda>c. c = CHR ''>'' \<or> c = CHR '' '' \<or> c = NL) b p));
              e = scan_close b content; b' = (if e > content \<and> e < length b then b[e := CHR 0x00] else b);
              q = (if chr_at b' e = CHR ''<'' then past b' (scan_to (\<lambda>c. c = CHR ''>'') b' (e + 2)) else e)
     in if 128 \<le> length es then None else html_loop b' (scan_to (\<lambda>c. \<not> is_ws c) b' q) (es @ [(tag, content)]))"

definition htmlparse :: "string \<Rightarrow> (string \<times> (nat \<times> nat) list) option" where
  "htmlparse buf = html_loop buf (scan_to (\<lambda>c. \<not> is_ws c) buf 0) []"

definition htmlget :: "string \<Rightarrow> (nat \<times> nat) list \<Rightarrow> string \<Rightarrow> string option" where
  "htmlget b es tag = map_option (\<lambda>e. str_at b (snd e)) (find (\<lambda>e. str_equals (Some (str_at b (fst e))) (Some tag)) es)"


section \<open>INI files: what is written is read back\<close>

text \<open>A specification of the format: every entry under a heading of its own.\<close>

type_synonym ini_triple = "string \<times> string \<times> string"

definition ini_text :: "ini_triple \<Rightarrow> string" where
  "ini_text = (\<lambda>(sec, key, val). CHR ''['' # sec @ CHR '']'' # NL # key @ CHR ''='' # val @ [NL])"

definition ini_of :: "ini_triple \<Rightarrow> ini_entry" where
  "ini_of = (\<lambda>(sec, key, val). \<lparr>ini_section = Some sec, ini_key = key, ini_value = val\<rparr>)"

definition ini_ok :: "ini_triple \<Rightarrow> bool" where
  "ini_ok = (\<lambda>(sec, key, val). cstring sec \<and> cstring key \<and> cstring val \<and> CHR '']'' \<notin> set sec \<and> key \<noteq> [] \<and> \<not> is_ws (hd key) \<and> hd key \<notin> {CHR '';'', CHR ''#'', CHR ''[''}
     \<and> CHR ''='' \<notin> set key \<and> NL \<notin> set key \<and> NL \<notin> set val)"

lemma takeWhile_upto: "c \<notin> set xs \<Longrightarrow> takeWhile (\<lambda>d. d \<noteq> c) (xs @ c # ys) = xs"
  by (induction xs) auto

lemma dropWhile_upto: "c \<notin> set xs \<Longrightarrow> dropWhile (\<lambda>d. d \<noteq> c) (xs @ c # ys) = c # ys"
  by (induction xs) auto

lemma skipWS_head: "s \<noteq> [] \<Longrightarrow> \<not> is_ws (hd s) \<Longrightarrow> skipWS s = s"
  by (cases s) (simp_all add: skipWS_def)

lemma skipWS_NL [simp]: "skipWS (NL # s) = skipWS s"
  by (simp add: skipWS_def is_ws_def NL_def)

lemma skipWS_ini: "skipWS (concat (map ini_text es)) = concat (map ini_text es)"
  by (cases es) (auto simp: skipWS_def ini_text_def is_ws_def)

lemma ini_loop_entry:
  assumes "ini_ok e" and "length es < mx"
  shows "ini_loop mx (ini_text e @ s) sec es = ini_loop mx (skipWS s) (Some (fst e)) (es @ [ini_of e])"
proof -
  obtain t k v where e: "e = (t, k, v)" by (cases e)
  with assms have t: "CHR '']'' \<notin> set t" and k: "\<not> is_ws (hd k)" "hd k \<notin> {CHR '';'', CHR ''#'', CHR ''[''}" "CHR ''='' \<notin> set k" "NL \<notin> set k"
    and v: "NL \<notin> set v" and kn: "k \<noteq> []" by (auto simp: ini_ok_def)
  obtain c k' where kc: "k = c # k'" using kn by (cases k) auto
  have tw: "takeWhile (\<lambda>d. d \<noteq> CHR ''='' \<and> d \<noteq> NL) (k @ CHR ''='' # v @ NL # s) = k"
    "dropWhile (\<lambda>d. d \<noteq> CHR ''='' \<and> d \<noteq> NL) (k @ CHR ''='' # v @ NL # s) = CHR ''='' # v @ NL # s"
    using k(3,4) by (induction k) auto
  have "ini_loop mx (ini_text e @ s) sec es = ini_loop mx (skipWS (NL # k @ CHR ''='' # v @ NL # s)) (Some t) es"
    using assms(2) t by (simp add: ini_text_def e takeWhile_upto dropWhile_upto)
  also have "skipWS (NL # k @ CHR ''='' # v @ NL # s) = c # k' @ CHR ''='' # v @ NL # s"
    using k(1) by (simp add: kc skipWS_head)
  also have "ini_loop mx (c # k' @ CHR ''='' # v @ NL # s) (Some t) es = ini_loop mx (skipWS s) (Some t) (es @ [ini_of e])"
    using assms(2) k(2) v tw [unfolded kc] by (simp add: kc e ini_of_def line_end_def dropWhile_upto takeWhile_upto)
  finally show ?thesis by (simp add: e)
qed

lemma ini_loop_entries:
  "\<forall>e \<in> set ts. ini_ok e \<Longrightarrow> length es + length ts \<le> mx \<Longrightarrow> ini_loop mx (concat (map ini_text ts)) sec es = es @ map ini_of ts"
  by (induction ts arbitrary: es sec) (simp_all add: ini_loop_entry skipWS_ini)

text \<open>What is written as an INI file, every entry under a heading of its own, is read back by
  \<open>ini_parse\<close>, in order and unchanged, as long as the table has room; and \<open>ini_get\<close> finds in it the first entry of
  a section and a key.\<close>

lemma ini_roundtrip:
  assumes "\<forall>e \<in> set ts. ini_ok e" and "length ts \<le> mx" and "cstring sec" and "cstring key"
  shows "ini_parse (concat (map ini_text ts)) mx = map ini_of ts
    \<and> ini_get (ini_parse (concat (map ini_text ts)) mx) (Some sec) key
      = map_option (\<lambda>e. snd (snd e)) (find (\<lambda>e. fst e = sec \<and> fst (snd e) = key) ts)"
proof -
  have p: "ini_parse (concat (map ini_text ts)) mx = map ini_of ts"
    using assms by (simp add: ini_parse_def skipWS_ini ini_loop_entries)
  have "find (\<lambda>e. (ini_section e = None \<and> Some sec = None \<or> str_equals (ini_section e) (Some sec)) \<and> str_equals (Some (ini_key e)) (Some key)) (map ini_of ts)
      = map_option ini_of (find (\<lambda>e. fst e = sec \<and> fst (snd e) = key) ts)"
    using assms(1,3,4) by (induction ts) (auto simp: ini_of_def ini_ok_def)
  then show ?thesis by (simp add: p ini_get_def option.map_comp comp_def ini_of_def split_beta)
qed


section \<open>JSON: what is written is read back\<close>

lemma skip_head: "s \<noteq> [] \<Longrightarrow> \<not> is_ws (hd s) \<Longrightarrow> hd s \<noteq> CHR ''/'' \<Longrightarrow> skip s = s"
  by (cases s) (simp_all add: skip_def skipWS_head skipCOM1.simps)

lemma skip_chars [simp]:
  "skip (CHR 0x22 # s) = CHR 0x22 # s" "skip (CHR ''{'' # s) = CHR ''{'' # s" "skip (CHR ''['' # s) = CHR ''['' # s"
  "skip (CHR ''}'' # s) = CHR ''}'' # s" "skip (CHR '']'' # s) = CHR '']'' # s" "skip (CHR '','' # s) = CHR '','' # s"
  "skip (CHR '':'' # s) = CHR '':'' # s"
  by (simp_all add: skip_head is_ws_def)

lemma read_string_quoted: "CHR 0x22 \<notin> set k \<Longrightarrow> length k < n \<Longrightarrow> read_string (CHR 0x22 # k @ CHR 0x22 # r) n = Some (k, r)"
  by (simp add: read_string_def at_char_def takeWhile_upto skip_char_def)

text \<open>A specification: JSON values of strings, objects and arrays, how they are written and the flat entries they stand for.\<close>

datatype json = JStr string | JObj "(string \<times> json) list" | JArr "json list"

fun commas :: "string list \<Rightarrow> string" where
  "commas [] = []"
| "commas [x] = x"
| "commas (x # y # xs) = x @ CHR '','' # commas (y # xs)"

definition quoted :: "string \<Rightarrow> string" where
  "quoted k = CHR 0x22 # k @ [CHR 0x22]"

fun json_print :: "json \<Rightarrow> string" where
  "json_print (JStr v) = quoted v"
| "json_print (JObj ms) = CHR ''{'' # commas (map (\<lambda>(k, v). quoted k @ CHR '':'' # json_print v) ms) @ [CHR ''}'']"
| "json_print (JArr vs) = CHR ''['' # commas (map json_print vs) @ [CHR '']'']"

definition dotted :: "string \<Rightarrow> string \<Rightarrow> string" where
  "dotted p k = (if p = [] then k else p @ ''.'' @ k)"

definition indexed :: "string \<Rightarrow> nat \<Rightarrow> string" where
  "indexed p i = p @ ''['' @ (if i < 10 then [''0123456789'' ! i] else [''0123456789'' ! (i div 10), ''0123456789'' ! (i mod 10)]) @ '']''"

lemma size_enumerate [termination_simp]: "(i, v) \<in> set (enumerate n vs) \<Longrightarrow> size v < Suc (size_list size vs)"
  by (induction vs arbitrary: n) (auto, fastforce intro: less_trans)

fun json_flat :: "string \<Rightarrow> json \<Rightarrow> json_entry list" where
  "json_flat p (JStr v) = [(p, v)]"
| "json_flat p (JObj ms) = concat (map (\<lambda>(k, v). json_flat (dotted p k) v) ms)"
| "json_flat p (JArr vs) = concat (map (\<lambda>(i, v). json_flat (indexed p i) v) (enumerate 0 vs))"

text \<open>What the reader can take: strings without quotes that fit their arrays, at most 100 elements in an array, and no array
  directly in an array.\<close>

definition fits_key :: "string \<Rightarrow> bool" where
  "fits_key p \<longleftrightarrow> length p < JSON_MAX_KEY"

fun json_ok :: "string \<Rightarrow> json \<Rightarrow> bool" where
  "json_ok p (JStr v) \<longleftrightarrow> CHR 0x22 \<notin> set v \<and> length v < JSON_MAX_VALUE"
| "json_ok p (JObj ms) \<longleftrightarrow> (\<forall>(k, v) \<in> set ms. CHR 0x22 \<notin> set k \<and> fits_key k \<and> fits_key (dotted p k) \<and> json_ok (dotted p k) v)"
| "json_ok p (JArr vs) \<longleftrightarrow> length vs \<le> 100 \<and>
     (\<forall>(i, v) \<in> set (enumerate 0 vs). fits_key (indexed p i) \<and> json_ok (indexed p i) v \<and> (case v of JArr _ \<Rightarrow> False | _ \<Rightarrow> True))"

definition put_all :: "nat \<Rightarrow> json_entry list \<Rightarrow> json_entry list \<Rightarrow> json_entry list" where
  "put_all mx es xs = es @ take (mx - length es) xs"

lemma put_all_nil [simp]: "put_all mx es [] = es"
  by (simp add: put_all_def)

lemma put_all_append: "put_all mx (put_all mx es xs) ys = put_all mx es (xs @ ys)"
  by (auto simp: put_all_def min_def)

lemma put_value_quoted:
  "CHR 0x22 \<notin> set v \<Longrightarrow> length v < JSON_MAX_VALUE \<Longrightarrow> put_value (quoted v @ r) key mx es = (r, put_all mx es [(key, v)])"
  by (simp add: put_value_def read_string_quoted quoted_def put_all_def)

lemma append_key_dotted: "fits_key (dotted p k) \<Longrightarrow> append_key p k = Some (dotted p k)"
  by (simp add: append_key_def dotted_def fits_key_def Let_def split: if_splits)

lemma json_digit_char: "d < 10 \<Longrightarrow> (char_of (48 + d) :: char) = ''0123456789'' ! d \<and> ''0123456789'' ! d \<noteq> CHR 0x00"
proof -
  have "list_all (\<lambda>d. (char_of (48 + d :: nat) :: char) = ''0123456789'' ! d \<and> ''0123456789'' ! d \<noteq> CHR 0x00) [0..<10]" by code_simp
  then show "d < 10 \<Longrightarrow> ?thesis" by (simp only: list_all_iff set_upt) auto
qed

lemma index_key_indexed:
  assumes "i < 100" and "fits_key (indexed p i)"
  shows "index_key p i = Some (indexed p i)"
proof -
  let ?ds = "if i < 10 then [''0123456789'' ! i] else [''0123456789'' ! (i div 10), ''0123456789'' ! (i mod 10)]"
  have i: "i div 10 < 10" "i mod 10 < 10" using assms(1) by auto
  have ds: "(if i \<ge> 10 then [char_of (48 + i div 10), char_of (48 + i mod 10)] else [char_of (48 + i)]) = ?ds"
    using json_digit_char [of i] json_digit_char [OF i(1)] json_digit_char [OF i(2)] by (simp del: nth_Cons_numeral add: not_le)
  have n: "\<forall>c \<in> set ?ds. c \<noteq> CHR 0x00"
    using json_digit_char [of i] json_digit_char [OF i(1)] json_digit_char [OF i(2)] by (cases "i < 10") (simp_all only: if_True if_False, simp_all)
  have tw: "takeWhile (\<lambda>c. c \<noteq> CHR 0x00) (''['' @ ?ds @ '']'') = ''['' @ ?ds @ '']''"
    unfolding takeWhile_eq_all_conv using n by auto
  show ?thesis using assms(2) unfolding index_key_def ds Let_def tw by (simp only: indexed_def [symmetric] fits_key_def) simp
qed

text \<open>The value behind a colon or in an array, as the two loops read it.\<close>

definition json_value_read :: "json \<Rightarrow> bool" where
  "json_value_read v \<longleftrightarrow> (\<forall>p mx es r. json_ok p v \<longrightarrow>
     (case v of JStr _ \<Rightarrow> True
      | JObj ms \<Rightarrow> json_loop InObject (tl (json_print v) @ r) p mx es = Some (r, put_all mx es (json_flat p v))
      | JArr vs \<Rightarrow> json_loop (InArray 0) (tl (json_print v) @ r) p mx es = Some (r, put_all mx es (json_flat p v))))"

lemma next_item_comma [simp]: "next_item (CHR '','' # s) = skip s"
  by (simp add: next_item_def skip_char_def at_char_def)

lemma next_item_close [simp]: "next_item (CHR ''}'' # s) = CHR ''}'' # s" "next_item (CHR '']'' # s) = CHR '']'' # s"
  by (simp_all add: next_item_def skip_char_def at_char_def)

lemma json_print_head: "json_print v \<noteq> [] \<and> hd (json_print v) \<in> {CHR 0x22, CHR ''{'', CHR ''[''}"
  by (cases v) (simp_all add: quoted_def)

lemma skip_commas:
  assumes "\<forall>x \<in> set xs. x \<noteq> [] \<and> hd x \<in> {CHR 0x22, CHR ''{'', CHR ''[''}" and "c = CHR ''}'' \<or> c = CHR '']''"
  shows "skip (commas xs @ c # r) = commas xs @ c # r"
proof -
  have "hd (commas xs @ c # r) \<in> {CHR 0x22, CHR ''{'', CHR ''['', c}"
  proof (cases xs)
    case (Cons x ys)
    then have "x \<noteq> []" "hd x \<in> {CHR 0x22, CHR ''{'', CHR ''[''}" using assms(1) by simp_all
    moreover have "\<exists>z. commas xs = x @ z" using Cons by (cases ys) simp_all
    ultimately show ?thesis by (elim exE) (auto simp: hd_append)
  qed simp
  then show ?thesis using assms(2) by (intro skip_head) (elim insertE emptyE disjE; simp add: is_ws_def)+
qed

lemma skip_tl_print:
  assumes "case v of JStr _ \<Rightarrow> False | _ \<Rightarrow> True"
  shows "skip (tl (json_print v) @ r) = tl (json_print v) @ r"
proof (cases v)
  case (JObj ms)
  have "\<forall>x \<in> set (map (\<lambda>(k, v). quoted k @ CHR '':'' # json_print v) ms). x \<noteq> [] \<and> hd x \<in> {CHR 0x22, CHR ''{'', CHR ''[''}"
    by (auto simp: quoted_def)
  from skip_commas [OF this, of "CHR ''}''" r] show ?thesis by (simp add: JObj)
next
  case (JArr vs)
  have "\<forall>x \<in> set (map json_print vs). x \<noteq> [] \<and> hd x \<in> {CHR 0x22, CHR ''{'', CHR ''[''}"
    using json_print_head by (metis (no_types, lifting) imageE list.set_map)
  from skip_commas [OF this, of "CHR '']''" r] show ?thesis by (simp add: JArr)
qed (use assms in simp)

lemma skip_print: "skip (json_print v @ r) = json_print v @ r"
  using json_print_head [of v] by (intro skip_head) (auto simp: is_ws_def hd_append)

lemma json_object_step:
  assumes "json_value_read v" and "CHR 0x22 \<notin> set k" "fits_key k" "fits_key (dotted p k)" "json_ok (dotted p k) v"
  shows "json_loop InObject (quoted k @ CHR '':'' # json_print v @ r) p mx es
    = json_loop InObject (next_item r) p mx (put_all mx es (json_flat (dotted p k) v))"
proof -
  have rs: "read_string (CHR 0x22 # k @ CHR 0x22 # CHR '':'' # json_print v @ r) JSON_MAX_KEY = Some (k, CHR '':'' # json_print v @ r)"
    using assms(2,3) by (simp add: read_string_quoted fits_key_def)
  have ap: "append_key p k = Some (dotted p k)" using assms(4) by (rule append_key_dotted)
  have "json_loop InObject (quoted k @ CHR '':'' # json_print v @ r) p mx es
      = (let q = json_print v @ r in do {
               (r, es1) \<leftarrow> (if at_char (CHR ''{'') q then json_loop InObject (skip (tl q)) (dotted p k) mx es
                            else if at_char (CHR ''['') q then json_loop (InArray 0) (skip (tl q)) (dotted p k) mx es
                            else Some (put_value q (dotted p k) mx es));
               json_loop InObject (next_item r) p mx es1
             })"
    by (subst json_loop.simps) (simp add: quoted_def rs ap at_char_def skip_print Let_def)
  also have "\<dots> = json_loop InObject (next_item r) p mx (put_all mx es (json_flat (dotted p k) v))"
  proof (cases v)
    case (JStr s)
    then have "hd (json_print v @ r) = CHR 0x22" by (simp add: quoted_def)
    then show ?thesis using assms(5) JStr by (simp add: Let_def at_char_def put_value_quoted del: append_Cons)
  qed (use assms(1,5) skip_tl_print [of v r] in \<open>auto simp: json_value_read_def at_char_def\<close>)
  finally show ?thesis .
qed

lemma json_array_step:
  assumes "json_value_read v" and "i < 100" and "fits_key (indexed p i)" and "json_ok (indexed p i) v"
    and "case v of JArr _ \<Rightarrow> False | _ \<Rightarrow> True"
  shows "json_loop (InArray i) (json_print v @ r) p mx es
    = json_loop (InArray (i + 1)) (next_item r) p mx (put_all mx es (json_flat (indexed p i) v))"
proof -
  have h: "json_print v \<noteq> []" "hd (json_print v) \<noteq> CHR '']''" using json_print_head [of v] by auto
  have "json_loop (InArray i) (json_print v @ r) p mx es
      = (let q = json_print v @ r in do {
           (r, es1) \<leftarrow> (if at_char (CHR ''{'') q then json_loop InObject (skip (tl q)) (indexed p i) mx es
                        else Some (put_value q (indexed p i) mx es));
           json_loop (InArray (i + 1)) (next_item r) p mx es1
         })"
    by (subst json_loop.simps) (simp add: h index_key_indexed [OF assms(2,3)] skip_print Let_def)
  also have "\<dots> = json_loop (InArray (i + 1)) (next_item r) p mx (put_all mx es (json_flat (indexed p i) v))"
  proof (cases v)
    case (JStr s)
    then have "hd (json_print v @ r) = CHR 0x22" by (simp add: quoted_def)
    then show ?thesis using assms(4) JStr by (simp add: Let_def at_char_def put_value_quoted del: append_Cons)
  qed (use assms skip_tl_print [of v r] in \<open>auto simp: json_value_read_def at_char_def\<close>)
  finally show ?thesis .
qed

lemma json_object_members:
  assumes "\<forall>(k, v) \<in> set ms. json_value_read v \<and> CHR 0x22 \<notin> set k \<and> fits_key k \<and> fits_key (dotted p k) \<and> json_ok (dotted p k) v"
  shows "json_loop InObject (commas (map (\<lambda>(k, v). quoted k @ CHR '':'' # json_print v) ms) @ CHR ''}'' # r) p mx es
    = Some (r, put_all mx es (concat (map (\<lambda>(k, v). json_flat (dotted p k) v) ms)))"
  using assms
proof (induction ms arbitrary: es)
  case Nil
  then show ?case by (simp add: json_loop.simps skip_char_def at_char_def)
next
  case (Cons m ms)
  obtain k v where m: "m = (k, v)" by (cases m)
  let ?rest = "commas (map (\<lambda>(k, v). quoted k @ CHR '':'' # json_print v) ms) @ CHR ''}'' # r"
  let ?tail = "if ms = [] then CHR ''}'' # r else CHR '','' # ?rest"
  have s: "skip ?rest = ?rest" by (rule skip_commas) (auto simp: quoted_def)
  have "commas (map (\<lambda>(k, v). quoted k @ CHR '':'' # json_print v) (m # ms)) @ CHR ''}'' # r = quoted k @ CHR '':'' # json_print v @ ?tail"
    by (cases ms) (simp_all add: m)
  moreover have "next_item ?tail = ?rest" using s by auto
  ultimately show ?case using Cons.prems Cons.IH [of "put_all mx es (json_flat (dotted p k) v)"]
    by (simp add: m json_object_step put_all_append)
qed

lemma json_array_items:
  assumes "\<forall>(i, v) \<in> set (enumerate n vs). json_value_read v \<and> fits_key (indexed p i) \<and> json_ok (indexed p i) v \<and> (case v of JArr _ \<Rightarrow> False | _ \<Rightarrow> True)"
    and "n + length vs \<le> 100"
  shows "json_loop (InArray n) (commas (map json_print vs) @ CHR '']'' # r) p mx es
    = Some (r, put_all mx es (concat (map (\<lambda>(i, v). json_flat (indexed p i) v) (enumerate n vs))))"
  using assms
proof (induction vs arbitrary: es n)
  case Nil
  then show ?case by (simp add: json_loop.simps skip_char_def at_char_def)
next
  case (Cons v vs)
  let ?rest = "commas (map json_print vs) @ CHR '']'' # r"
  let ?tail = "if vs = [] then CHR '']'' # r else CHR '','' # ?rest"
  have s: "skip ?rest = ?rest" by (rule skip_commas) (use json_print_head in \<open>metis (no_types, lifting) imageE list.set_map\<close>, simp)
  have "commas (map json_print (v # vs)) @ CHR '']'' # r = json_print v @ ?tail" by (cases vs) simp_all
  moreover have "next_item ?tail = ?rest" using s by auto
  ultimately show ?case using Cons.prems Cons.IH [of "Suc n" "put_all mx es (json_flat (indexed p n) v)"]
    by (simp add: json_array_step put_all_append)
qed

lemma json_value_read: "json_value_read v"
proof (induction v)
  case (JStr v)
  then show ?case by (simp add: json_value_read_def)
next
  case (JObj ms)
  have "json_loop InObject (commas (map (\<lambda>(k, v). quoted k @ CHR '':'' # json_print v) ms) @ CHR ''}'' # r) p mx es
      = Some (r, put_all mx es (concat (map (\<lambda>(k, v). json_flat (dotted p k) v) ms)))" if "json_ok p (JObj ms)" for p mx es r
    by (rule json_object_members) (use that JObj in fastforce)
  then show ?case by (simp add: json_value_read_def)
next
  case (JArr vs)
  have "json_loop (InArray 0) (commas (map json_print vs) @ CHR '']'' # r) p mx es
      = Some (r, put_all mx es (concat (map (\<lambda>(i, v). json_flat (indexed p i) v) (enumerate 0 vs))))" if "json_ok p (JArr vs)" for p mx es r
    by (rule json_array_items) (use that JArr in \<open>auto simp: enumerate_eq_zip dest: set_zip_rightD\<close>)
  then show ?case by (simp add: json_value_read_def)
qed

text \<open>C28. A JSON object of strings, objects and arrays, written without spaces, is read as its flat list of
  entries, in order, up to the number of entries there is room for: the key of a member of an object is appended with a dot, the
  position in an array in brackets.\<close>

theorem json_reads_back:
  assumes "json_ok [] (JObj ms)"
  shows "json_text (json_print (JObj ms)) mx = Some (take mx (json_flat [] (JObj ms)))"
proof -
  have "json_loop InObject (tl (json_print (JObj ms)) @ []) [] mx [] = Some ([], put_all mx [] (json_flat [] (JObj ms)))"
    using json_value_read [of "JObj ms"] assms unfolding json_value_read_def json.case by blast
  then show ?thesis using skip_tl_print [of "JObj ms" "[]"]
    by (simp add: json_text_def at_char_def put_all_def)
qed

lemma json_reads_back_witness:
  "json_text ''{\"a\":\"1\",\"b\":[\"2\",{\"c\":\"3\"}]}'' 8 = Some [(''a'', ''1''), (''b[0]'', ''2''), (''b[1].c'', ''3'')]"
proof -
  let ?j = "[(''a'', JStr ''1''), (''b'', JArr [JStr ''2'', JObj [(''c'', JStr ''3'')]])]"
  have "json_ok [] (JObj ?j)"
    by (simp add: fits_key_def dotted_def indexed_def JSON_MAX_KEY_def JSON_MAX_VALUE_def)
  from json_reads_back [OF this, of 8] show ?thesis by (simp add: quoted_def dotted_def indexed_def)
qed

text \<open>A character in an array that starts neither a string nor an object and is no comma is never passed.\<close>

definition stuck :: "string \<Rightarrow> bool" where
  "stuck p \<longleftrightarrow> p \<noteq> [] \<and> skip p = p \<and> hd p \<notin> {CHR '']'', CHR ''{'', CHR 0x22, CHR '',''}"

lemma stuck_item: "stuck p \<Longrightarrow> put_value p key mx es = (p, es) \<and> next_item p = p"
  by (simp add: stuck_def put_value_def read_string_def at_char_def next_item_def skip_char_def)

lemma json_loop_not_stuck: "json_loop mode p prefix mx es = Some y \<Longrightarrow> \<forall>i. mode = InArray i \<longrightarrow> \<not> stuck p"
proof (induction rule: json_loop.raw_induct [where P = "\<lambda>mode p prefix mx es y. \<forall>i. mode = InArray i \<longrightarrow> \<not> stuck p", rotated, consumes 1, case_names Step])
  case (Step f mode p prefix mx es y)
  show ?case
  proof (intro allI impI notI)
    fix i
    assume m: "mode = InArray i" and st: "stuck p"
    from st have p: "p \<noteq> []" "hd p \<noteq> CHR '']''" "skip p = p" "\<not> at_char (CHR ''{'') p" by (auto simp: stuck_def at_char_def)
    from Step(2) p obtain tmp where "f (InArray (i + 1)) p prefix mx es = Some y"
      by (auto simp: m stuck_item [OF st] bind_eq_Some_conv)
    from Step(1) [OF this] st show False by simp
  qed
qed

lemma json_loop_stuck: "stuck p \<Longrightarrow> json_loop (InArray i) p prefix mx es = None"
  using json_loop_not_stuck [of "InArray i" p prefix mx es] by (cases "json_loop (InArray i) p prefix mx es") auto

text \<open>An element of an array that is neither a string nor an object, such as a number, \<open>true\<close>
  or another array, is never passed: \<open>json_load\<close> does not return, in the kernel.\<close>

lemma json_array_loops:
  assumes "stuck x" and "CHR 0x22 \<notin> set k" and "length k < JSON_MAX_KEY"
  shows "json_text (CHR ''{'' # quoted k @ CHR '':'' # CHR ''['' # x) mx = None"
proof -
  have "json_loop InObject (quoted k @ CHR '':'' # CHR ''['' # x) [] mx [] = None"
    using assms json_loop_stuck [OF assms(1)]
    by (subst json_loop.simps) (auto simp: quoted_def read_string_quoted at_char_def append_key_def Let_def stuck_def)
  moreover have "skip (quoted k @ CHR '':'' # CHR ''['' # x) = quoted k @ CHR '':'' # CHR ''['' # x" by (simp add: quoted_def)
  ultimately show ?thesis by (simp add: json_text_def at_char_def)
qed

lemma json_array_loops_witness: "json_text ''{\"k\":[1]}'' 4 = None \<and> json_text ''{\"k\":[[\"a\"]]}'' 4 = None"
proof -
  have "stuck ''1]}''" "stuck ''[\"a\"]]}''" by (simp_all add: stuck_def skip_head is_ws_def)
  from json_array_loops [OF this(1), of "''k''" 4] json_array_loops [OF this(2), of "''k''" 4]
  show ?thesis by (simp add: quoted_def JSON_MAX_KEY_def)
qed

section \<open>HTML: what the parser finds\<close>

lemma scan_to_eq:
  assumes "i \<le> k" and "\<And>j. i \<le> j \<Longrightarrow> j < k \<Longrightarrow> chr_at b j \<noteq> CHR 0x00 \<and> \<not> stop (chr_at b j)" and "chr_at b k = CHR 0x00 \<or> stop (chr_at b k)"
  shows "scan_to stop b i = k"
  using assms(1)
proof (induction i rule: inc_induct)
  case base
  then show ?case using assms(3) by (subst scan_to.simps) simp
next
  case (step n)
  then show ?case using assms(2) by (subst scan_to.simps) simp
qed

lemma scan_close_eq:
  assumes "i \<le> k" and "\<And>j. i \<le> j \<Longrightarrow> j < k \<Longrightarrow> chr_at b j \<noteq> CHR 0x00 \<and> chr_at b j \<noteq> CHR ''<''"
    and "chr_at b k = CHR ''<''" and "chr_at b (k + 1) = CHR ''/''"
  shows "scan_close b i = k"
  using assms(1)
proof (induction i rule: inc_induct)
  case base
  then show ?case using assms(3,4) by (subst scan_close.simps) simp
next
  case (step n)
  then show ?case using assms(2) by (subst scan_close.simps) simp
qed

lemma chr_at_append: "chr_at (xs @ ys) i = (if i < length xs then xs ! i else chr_at ys (i - length xs))"
  by (simp add: chr_at_def nth_append) auto

lemma chr_at_Cons: "chr_at (c # xs) i = (if i = 0 then c else chr_at xs (i - 1))"
  by (cases i) (simp_all add: chr_at_def)

lemma takeWhile_cstring: "CHR 0x00 \<notin> set xs \<Longrightarrow> takeWhile (\<lambda>c. c \<noteq> CHR 0x00) (xs @ CHR 0x00 # ys) = xs"
  by (rule takeWhile_upto)

text \<open>The names of tags and the texts the next theorem is about.\<close>

definition html_name :: "string \<Rightarrow> bool" where
  "html_name t \<longleftrightarrow> t \<noteq> [] \<and> hd t \<noteq> CHR ''/'' \<and> set t \<inter> {CHR 0x00, CHR ''>'', CHR '' '', NL} = {}"

definition html_content :: "string \<Rightarrow> bool" where
  "html_content c \<longleftrightarrow> c \<noteq> [] \<and> set c \<inter> {CHR 0x00, CHR ''<''} = {}"

lemma htmlparse_one:
  fixes rest :: string
  assumes t: "html_name t" and c: "html_content c"
  defines "b \<equiv> CHR ''<'' # t @ CHR ''>'' # c @ CHR ''<'' # CHR ''/'' # rest"
  defines "b' \<equiv> CHR ''<'' # t @ CHR ''>'' # c @ CHR 0x00 # CHR ''/'' # rest"
  shows "htmlparse b = Some (b', [(1, length t + 2)])"
proof -
  let ?n = "length t" and ?e = "length t + 2 + length c"
  have t': "t ! j \<notin> {CHR 0x00, CHR ''>'', CHR '' '', NL}" if "j < ?n" for j using t nth_mem [OF that] by (auto simp: html_name_def)
  have c': "c ! j \<notin> {CHR 0x00, CHR ''<''}" if "j < length c" for j using c nth_mem [OF that] by (auto simp: html_content_def)
  have bt: "chr_at b j = t ! (j - 1)" if "1 \<le> j" "j < ?n + 1" for j using that by (auto simp: b_def chr_at_Cons chr_at_append)
  have bg: "chr_at b (?n + 1) = CHR ''>''" by (simp add: b_def chr_at_Cons chr_at_append)
  have bc: "chr_at b j = c ! (j - (?n + 2))" if "?n + 2 \<le> j" "j < ?e" for j using that by (auto simp: b_def chr_at_Cons chr_at_append)
  have be: "chr_at b ?e = CHR ''<''" "chr_at b (?e + 1) = CHR ''/''" by (auto simp: b_def chr_at_Cons chr_at_append)
  have b0: "chr_at b 0 = CHR ''<''" by (simp add: b_def chr_at_Cons)
  have b1: "chr_at b 1 \<noteq> CHR ''/''" using t bt [of 1] by (auto simp: html_name_def hd_conv_nth)
  have s0: "scan_to (\<lambda>c. \<not> is_ws c) b 0 = 0" by (rule scan_to_eq) (simp_all add: b0 is_ws_def)
  have s1: "scan_to (\<lambda>c. c = CHR ''>'' \<or> c = CHR '' '' \<or> c = NL) b 1 = ?n + 1"
    by (rule scan_to_eq) (use bt t' bg in auto)
  have s2: "scan_to (\<lambda>c. c = CHR ''>'') b (?n + 1) = ?n + 1" by (rule scan_to_eq) (use bg in auto)
  have s3: "scan_close b (?n + 2) = ?e" by (rule scan_close_eq) (use bc c' be in auto)
  have up: "b[?e := CHR 0x00] = b'"
    using list_update_append1 [of 0 "[]"] by (simp add: b_def b'_def list_update_append)
  have e: "chr_at b' ?e = CHR 0x00" by (simp add: b'_def chr_at_Cons chr_at_append)
  have s4: "scan_to (\<lambda>c. \<not> is_ws c) b' ?e = ?e" by (rule scan_to_eq) (use e in auto)
  have len: "?e < length b" "?n + 2 < ?e" using c by (simp_all add: b_def html_content_def)
  have "html_loop b 0 [] = html_loop b' ?e [(1, ?n + 2)]"
    using b1 s1 by (subst html_loop.simps) (simp add: b0 s2 [simplified] bg [simplified] past_def Let_def s3 [simplified] up [simplified] e [simplified] s4 [simplified] len [simplified])
  also have "\<dots> = Some (b', [(1, ?n + 2)])" by (subst html_loop.simps) (simp add: e [simplified])
  finally show ?thesis by (simp add: htmlparse_def s0)
qed

text \<open>Whatever follows the first element with a text, \<open>htmlparse\<close> finds only that one,
  because it ends the text where the closing tag began; and as nothing ends the name of the tag, \<open>htmlget\<close> finds the
  element only under the name \<open>tag>content\<close>.\<close>

lemma htmlparse_first_only:
  assumes "html_name t" and "html_content c" and "cstring name"
  shows "\<exists>b es. htmlparse (CHR ''<'' # t @ CHR ''>'' # c @ CHR ''<'' # CHR ''/'' # rest) = Some (b, es) \<and> length es = 1
    \<and> htmlget b es name = (if name = t @ CHR ''>'' # c then Some c else None)"
proof -
  let ?b' = "CHR ''<'' # t @ CHR ''>'' # c @ CHR 0x00 # CHR ''/'' # rest"
  have s: "cstring (t @ CHR ''>'' # c)" using assms(1,2) by (auto simp: html_name_def html_content_def cstring_def NUL_def)
  have "str_at ?b' 1 = t @ CHR ''>'' # c" using s takeWhile_cstring [of "t @ CHR ''>'' # c"] by (simp add: str_at_def cstring_def NUL_def)
  moreover have "str_at ?b' (length t + 2) = c" using s takeWhile_cstring [of c] by (simp add: str_at_def cstring_def NUL_def)
  ultimately have "htmlget ?b' [(1, length t + 2)] name = (if name = t @ CHR ''>'' # c then Some c else None)"
    using s assms(3) by (auto simp: htmlget_def)
  then show ?thesis using htmlparse_one [OF assms(1,2), of rest] by (intro exI conjI) simp_all
qed

lemma htmlparse_first_only_witness:
  "\<exists>b es. htmlparse ''<a>x</a><b>y</b>'' = Some (b, es) \<and> length es = 1 \<and> htmlget b es ''a'' = None"
  using htmlparse_first_only [of "''a''" "''x''" "''a''" "''a><b>y</b>''"]
  by (simp add: html_name_def html_content_def NL_def cstring_def NUL_def)

end
