(* ===== verification/Keyboard.thy ===== *)
theory Keyboard
  imports Vt DataText
begin

text \<open>
  The keyboard of \<^verbatim>\<open>emex/drivers/ps2/keyboard\<close> and its device file \<^verbatim>\<open>emex/kernel/devices/input/kbd.c\<close>: the
  interrupt handler with the state of its modifiers, the ring of key events, the reader of \<^verbatim>\<open>.map\<close> files and the choice of a
  key map. A scan code is the byte the controller delivers; the registration of the handler and the messages are left out. The
  padding of an event is whatever lies on the stack of the handler and is an argument of it.
\<close>

section \<open>Key codes\<close>

definition KEY_BUFFER_SIZE :: nat where "KEY_BUFFER_SIZE = 128"
definition KEY_CTRL_MASK :: u32 where "KEY_CTRL_MASK = 0x80000000"
definition KEY_SHIFT_MASK :: u32 where "KEY_SHIFT_MASK = 0x40000000"
definition KEY_ALT_MASK :: u32 where "KEY_ALT_MASK = 0x20000000"
definition KEY_ARROW_UP :: u32 where "KEY_ARROW_UP = 0x100"
definition KEY_ARROW_DOWN :: u32 where "KEY_ARROW_DOWN = 0x101"
definition KEY_ARROW_LEFT :: u32 where "KEY_ARROW_LEFT = 0x102"
definition KEY_ARROW_RIGHT :: u32 where "KEY_ARROW_RIGHT = 0x103"
definition KEY_HOME :: u32 where "KEY_HOME = 0x104"
definition KEY_END :: u32 where "KEY_END = 0x105"
definition KEY_PAGE_UP :: u32 where "KEY_PAGE_UP = 0x106"
definition KEY_PAGE_DOWN :: u32 where "KEY_PAGE_DOWN = 0x107"
definition KEY_DELETE :: u32 where "KEY_DELETE = 0x108"
definition KEY_INSERT :: u32 where "KEY_INSERT = 0x109"
definition KEY_F1 :: u32 where "KEY_F1 = 0x110"
definition KEY_LSHIFT :: u32 where "KEY_LSHIFT = 0x180"
definition KEY_RSHIFT :: u32 where "KEY_RSHIFT = 0x181"
definition KEY_LCTRL :: u32 where "KEY_LCTRL = 0x182"
definition KEY_LALT :: u32 where "KEY_LALT = 0x183"

lemmas key_codes = KEY_ARROW_UP_def KEY_ARROW_DOWN_def KEY_ARROW_LEFT_def KEY_ARROW_RIGHT_def KEY_HOME_def KEY_END_def KEY_PAGE_UP_def
  KEY_PAGE_DOWN_def KEY_DELETE_def KEY_INSERT_def KEY_F1_def KEY_LSHIFT_def KEY_RSHIFT_def KEY_LCTRL_def KEY_LALT_def

section \<open>The state of the driver\<close>

record keymap =
  km_normal :: "u8 list"
  km_shift :: "u8 list"

record keyboard =
  key_buffer :: "vt_key_event ring"
  kb_shift :: bool
  kb_ctrl :: bool
  kb_alt :: bool
  kb_caps :: bool
  kb_extended :: bool
  current_keymap :: keymap
  current_keymap_name :: string

definition keyboard_put_event :: "vt_key_event \<Rightarrow> keyboard \<Rightarrow> keyboard" where
  "keyboard_put_event e k =
    (if KEY_BUFFER_SIZE \<le> rg_count (key_buffer k) then k else k\<lparr>key_buffer := ring_put KEY_BUFFER_SIZE (key_buffer k) e\<rparr>)"

definition keyboard_has_key :: "keyboard \<Rightarrow> bool" where
  "keyboard_has_key k \<longleftrightarrow> 0 < rg_count (key_buffer k)"

definition keyboard_get_event :: "keyboard \<Rightarrow> vt_key_event option \<times> keyboard" where
  "keyboard_get_event k =
    (if rg_count (key_buffer k) = 0 then (None, k)
     else (Some (ring_front (key_buffer k)), k\<lparr>key_buffer := ring_drop KEY_BUFFER_SIZE (key_buffer k)\<rparr>))"

definition keyboard_get_key :: "keyboard \<Rightarrow> u8 \<times> keyboard" where
  "keyboard_get_key k =
    (case keyboard_get_event k of (None, k1) \<Rightarrow> (0, k1)
     | (Some e, k1) \<Rightarrow> (if ev_pressed e = 0 then 0 else ucast (ev_keycode e AND 0xFF), k1))"

definition modifiers :: "keyboard \<Rightarrow> u32" where
  "modifiers k = (if kb_ctrl k then KEY_CTRL_MASK else 0) OR (if kb_shift k then KEY_SHIFT_MASK else 0) OR (if kb_alt k then KEY_ALT_MASK else 0)"

definition key_event :: "u8 list \<Rightarrow> u32 \<Rightarrow> u32 \<Rightarrow> u8 \<Rightarrow> vt_key_event" where
  "key_event pad code mods pressed = \<lparr>ev_keycode = code, ev_modifiers = mods, ev_pressed = pressed, ev_pad = pad\<rparr>"

section \<open>The interrupt handler\<close>

definition arrow :: "u8 \<Rightarrow> u32 option" where
  "arrow c = (if c = 0x48 then Some KEY_ARROW_UP else if c = 0x50 then Some KEY_ARROW_DOWN
    else if c = 0x4B then Some KEY_ARROW_LEFT else if c = 0x4D then Some KEY_ARROW_RIGHT else None)"

definition extended_key :: "u8 \<Rightarrow> u32 option" where
  "extended_key c = (if c = 0x47 then Some KEY_HOME else if c = 0x4F then Some KEY_END
    else if c = 0x49 then Some KEY_PAGE_UP else if c = 0x51 then Some KEY_PAGE_DOWN
    else if c = 0x53 then Some KEY_DELETE else if c = 0x52 then Some KEY_INSERT else arrow c)"

definition put_code :: "(u32 \<Rightarrow> vt_key_event) \<Rightarrow> u32 option \<Rightarrow> keyboard \<Rightarrow> keyboard" where
  "put_code ev c k = (case c of None \<Rightarrow> k | Some code \<Rightarrow> keyboard_put_event (ev code) k)"

definition map_char :: "keyboard \<Rightarrow> u8 \<Rightarrow> u8" where
  "map_char k c = (if kb_shift k then km_shift (current_keymap k) ! unat c else km_normal (current_keymap k) ! unat c)"

definition key_release :: "u8 list \<Rightarrow> u8 \<Rightarrow> keyboard \<Rightarrow> keyboard" where
  "key_release pad sc k =
    (let make = sc AND 0x7F; ev = (\<lambda>code. key_event pad code (modifiers k) 0)
     in if kb_extended k then put_code ev (arrow make) (k\<lparr>kb_extended := False\<rparr>)
        else if make = 0x2A then keyboard_put_event (ev KEY_LSHIFT) (k\<lparr>kb_shift := False\<rparr>)
        else if make = 0x36 then keyboard_put_event (ev KEY_RSHIFT) (k\<lparr>kb_shift := False\<rparr>)
        else if make = 0x1D then keyboard_put_event (ev KEY_LCTRL) (k\<lparr>kb_ctrl := False\<rparr>)
        else if make = 0x38 then keyboard_put_event (ev KEY_LALT) (k\<lparr>kb_alt := False\<rparr>)
        else let c = map_char k make in if c \<noteq> 0 then keyboard_put_event (ev (ucast c)) k else k)"

definition key_press :: "u8 list \<Rightarrow> u8 \<Rightarrow> keyboard \<Rightarrow> keyboard" where
  "key_press pad sc k =
    (let ev = (\<lambda>code. key_event pad code (modifiers k) 1)
     in if \<not> kb_extended k \<and> sc = 0x2A then keyboard_put_event (key_event pad KEY_LSHIFT KEY_SHIFT_MASK 1) (k\<lparr>kb_shift := True\<rparr>)
        else if \<not> kb_extended k \<and> sc = 0x36 then keyboard_put_event (key_event pad KEY_RSHIFT KEY_SHIFT_MASK 1) (k\<lparr>kb_shift := True\<rparr>)
        else if \<not> kb_extended k \<and> sc = 0x1D then keyboard_put_event (key_event pad KEY_LCTRL KEY_CTRL_MASK 1) (k\<lparr>kb_ctrl := True\<rparr>)
        else if \<not> kb_extended k \<and> sc = 0x38 then keyboard_put_event (key_event pad KEY_LALT KEY_ALT_MASK 1) (k\<lparr>kb_alt := True\<rparr>)
        else if \<not> kb_extended k \<and> sc = 0x3A then k\<lparr>kb_caps := \<not> kb_caps k\<rparr>
        else if kb_extended k then put_code ev (extended_key sc) (k\<lparr>kb_extended := False\<rparr>)
        else if sc = 0x0E then keyboard_put_event (ev 8) k
        else if sc = 0x1C then keyboard_put_event (ev (if kb_shift k then 0x0D else 0x0A)) k
        else if 0x3B \<le> sc \<and> sc \<le> 0x44 then keyboard_put_event (ev (KEY_F1 + (ucast sc - 0x3B))) k
        else let c = map_char k sc;
                 c = (if 0x61 \<le> c \<and> c \<le> 0x7A \<and> (kb_caps k \<and> \<not> kb_shift k \<or> \<not> kb_caps k \<and> kb_shift k) then (c - 0x61) + 0x41 else c)
        in if c \<noteq> 0 then keyboard_put_event (ev (ucast c)) k else k)"

text \<open>\<open>status\<close> and \<open>sc\<close> are what the ports 0x64 and 0x60 give.\<close>

definition keyboard_irq_handler :: "u8 \<Rightarrow> u8 \<Rightarrow> u8 list \<Rightarrow> keyboard \<Rightarrow> keyboard" where
  "keyboard_irq_handler status sc pad k =
    (if status AND 1 = 0 \<or> sc = 0 then k
     else if sc = 0xE0 then k\<lparr>kb_extended := True\<rparr>
     else if sc AND 0x80 \<noteq> 0 then key_release pad sc k
     else key_press pad sc k)"

section \<open>The device file\<close>

fun kbd_read_loop :: "nat \<Rightarrow> keyboard \<Rightarrow> u8 list \<times> keyboard" where
  "kbd_read_loop 0 k = ([], k)"
| "kbd_read_loop (Suc n) k =
    (case keyboard_get_event k of (None, k1) \<Rightarrow> ([], k1)
     | (Some e, k1) \<Rightarrow> let (bs, k2) = kbd_read_loop n k1 in (event_bytes e @ bs, k2))"

definition kbd_dev_read :: "nat \<Rightarrow> keyboard \<Rightarrow> u8 list \<times> keyboard" where
  "kbd_dev_read count k = kbd_read_loop (count div EV_SIZE) k"

definition kbd_dev_write :: int where "kbd_dev_write = -1"
definition kbd_dev_open :: u64 where "kbd_dev_open = 1"

section \<open>Key maps\<close>

definition map_blank :: "char \<Rightarrow> bool" where "map_blank c \<longleftrightarrow> c = CHR '' '' \<or> c = CHR 0x09"

definition hex_push :: "u8 \<Rightarrow> char \<Rightarrow> u8" where
  "hex_push h c =
    (let x = of_char c :: u8; h = push_bit 4 h
     in if chr_in 48 57 c then h OR (x - 48) else if chr_in 65 70 c then h OR (x - 65 + 10)
        else if chr_in 97 102 c then h OR (x - 97 + 10) else h)"

text \<open>A character in quotes: the value, when the code sets one, and what is left of the file.\<close>

definition quoted_body :: "string \<Rightarrow> u8 option \<times> string" where
  "quoted_body s =
    (case s of [] \<Rightarrow> (None, [])
     | c # r \<Rightarrow>
       if c = CHR 0x5C \<and> r \<noteq> [] then
         (if hd r = CHR ''n'' then (Some 10, tl r) else if hd r = CHR ''t'' then (Some 9, tl r)
          else if hd r = CHR ''b'' then (Some 8, tl r) else if hd r = CHR ''r'' then (Some 13, tl r)
          else if hd r = CHR ''x'' then
            (if 2 < length r then (Some (foldl hex_push 0 (take 2 (tl r))), drop 2 (tl r)) else (None, tl r))
          else (Some (of_char (hd r)), tl r))
       else (Some (of_char c), r))"

definition quoted_char :: "string \<Rightarrow> u8 option \<times> string" where
  "quoted_char s =
    (if at_char (CHR 0x27) s then
       (let (v, r) = quoted_body (tl s) in (v, skip_char (CHR 0x27) r))
     else (None, s))"

text \<open>A place behind the 128 of the array is undefined.\<close>

definition set_key :: "u8 \<Rightarrow> u8 option \<Rightarrow> u8 list \<Rightarrow> u8 list option" where
  "set_key sc v xs = (case v of None \<Rightarrow> Some xs | Some c \<Rightarrow> if unat sc < length xs then Some (xs[unat sc := c]) else None)"

definition map_entry :: "string \<Rightarrow> keymap \<Rightarrow> (string \<times> keymap) option" where
  "map_entry s km =
    (if 2 < length s \<and> take 2 s = ''0x'' then
       (let sc = foldl hex_push 0 (take 2 (drop 2 s));
            (v, r) = quoted_char (dropWhile map_blank (tl (dropWhile (\<lambda>c. c \<noteq> CHR ''='') (drop 2 (drop 2 s)))));
            (w, r) = quoted_char (dropWhile map_blank r)
        in do {
          ns \<leftarrow> set_key sc v (km_normal km);
          ss \<leftarrow> set_key sc w (km_shift km);
          Some (r, \<lparr>km_normal = ns, km_shift = ss\<rparr>)
        })
     else Some (s, km))"

definition load_blank :: "char \<Rightarrow> bool" where "load_blank c \<longleftrightarrow> map_blank c \<or> c = CHR 0x0D"

lemma tl_line_end_shorter: "length (tl (line_end s)) \<le> length s"
  using line_end_le [of s] by simp

lemma quoted_body_shorter: "length (snd (quoted_body s)) \<le> length s"
  by (cases s; cases "tl s") (auto simp: quoted_body_def)

lemma quoted_char_shorter: "length (snd (quoted_char s)) \<le> length s"
proof -
  have "length (skip_char c r) \<le> length r" for c r by (simp add: skip_char_def)
  then have "length (skip_char c (snd (quoted_body (tl s)))) \<le> length (tl s)" for c using quoted_body_shorter le_trans by blast
  from le_trans [OF this [of "CHR 0x27"], of "length s"] show ?thesis by (simp add: quoted_char_def split_beta)
qed

lemma map_entry_shorter: "map_entry s km = Some (r, km') \<Longrightarrow> length r \<le> length s"
proof -
  assume e: "map_entry s km = Some (r, km')"
  show ?thesis
  proof (cases "2 < length s \<and> take 2 s = ''0x''")
    case True
    let ?a = "dropWhile map_blank (tl (dropWhile (\<lambda>c. c \<noteq> CHR ''='') (drop 2 (drop 2 s))))"
    let ?b = "dropWhile map_blank (snd (quoted_char ?a))"
    have "length ?a \<le> length (tl (dropWhile (\<lambda>c. c \<noteq> CHR ''='') (drop 2 (drop 2 s))))" by (rule length_dropWhile_le)
    also have "\<dots> \<le> length (drop 2 (drop 2 s))" using length_dropWhile_le [of "\<lambda>c. c \<noteq> CHR ''=''" "drop 2 (drop 2 s)"] by simp
    finally have "length ?a \<le> length s" by simp
    moreover have "length ?b \<le> length (snd (quoted_char ?a))" by (rule length_dropWhile_le)
    ultimately have "length (snd (quoted_char ?b)) \<le> length s" using quoted_char_shorter [of ?a] quoted_char_shorter [of ?b] by simp
    then show ?thesis using e True by (auto simp: map_entry_def split_beta Let_def bind_eq_Some_conv)
  next
    case False
    then show ?thesis using e by (auto simp: map_entry_def)
  qed
qed

function keymap_loop :: "string \<Rightarrow> keymap \<Rightarrow> keymap option" where
  "keymap_loop s km =
    (let line = dropWhile load_blank s
     in if line = [] then Some km
        else if hd line = CHR ''#'' \<or> hd line = NL then keymap_loop (tl (line_end line)) km
        else case map_entry line km of None \<Rightarrow> None
          | Some (r, km1) \<Rightarrow> keymap_loop (tl (line_end r)) km1)"
  by pat_completeness auto
termination
proof (relation "measure (\<lambda>(s, km). length s)")
  fix s line and km :: keymap
  assume l: "line = dropWhile load_blank s" and n: "line \<noteq> []"
  have le: "length line \<le> length s" unfolding l by (rule length_dropWhile_le)
  have *: "length (tl (line_end r)) < length s" if "length r \<le> length line" for r
    using that n le line_end_le [of r] by (cases "line_end r") auto
  show "((tl (line_end line), km), s, km) \<in> measure (\<lambda>(s, km). length s)" using * [of line] by simp
  fix a r km1
  assume "map_entry line km = Some a" "(r, km1) = a"
  then have "length r \<le> length line" using map_entry_shorter by metis
  then show "((tl (line_end r), km1), s, km) \<in> measure (\<lambda>(s, km). length s)" using * by simp
qed simp

declare keymap_loop.simps [simp del]

definition empty_keymap :: keymap where
  "empty_keymap = \<lparr>km_normal = replicate 128 0, km_shift = replicate 128 0\<rparr>"

definition parse_keymap_data :: "string \<Rightarrow> keymap \<Rightarrow> (int \<times> keymap) option" where
  "parse_keymap_data data km =
    (if data = [] then Some (-1, km) else map_option (\<lambda>m. (0, m)) (keymap_loop data empty_keymap))"

definition KEYMAP_DIR :: string where "KEYMAP_DIR = ''/emr/config/keymaps/''"
definition KEYMAP_FORMAT :: string where "KEYMAP_FORMAT = ''.map''"

text \<open>\<open>path[64]\<close> is not checked: a longer path is undefined. \<open>buf\<close> is the buffer on the stack.\<close>

definition keymap_load_from_module :: "fs_tab \<Rightarrow> u64 \<Rightarrow> string option \<Rightarrow> keymap \<Rightarrow> fs \<Rightarrow> (int \<times> keymap \<times> fs) option" where
  "keymap_load_from_module tab buf name km s =
    (case name of None \<Rightarrow> Some (-1, km, s)
     | Some nm \<Rightarrow>
       let path = str_append (str_append (str_copy [] KEYMAP_DIR) nm) KEYMAP_FORMAT
       in if 64 \<le> length path then None
          else do {
            (fd, s1) \<leftarrow> fs_open tab path O_RDONLY s;
            if fd < 0 then Some (-1, km, s1)
            else do {
              (k, s2) \<leftarrow> fs_read tab fd buf 4095 s1;
              (_, s3) \<leftarrow> fs_close tab fd s2;
              if k \<le> 0 then Some (-1, km, s3)
              else do {
                (r, m) \<leftarrow> parse_keymap_data (mem_string (km_bytes (fs_mem s3)) buf (nat k)) km;
                Some (r, m, s3)
              }
            }
          })"

fun keymap_first :: "fs_tab \<Rightarrow> u64 \<Rightarrow> string list \<Rightarrow> keyboard \<Rightarrow> fs \<Rightarrow> (int \<times> keyboard \<times> fs) option" where
  "keymap_first tab buf [] k s = Some (-1, k, s)"
| "keymap_first tab buf (nm # nms) k s = do {
     (r, m, s1) \<leftarrow> keymap_load_from_module tab buf (Some nm) (current_keymap k) s;
     if r = 0 then Some (0, k\<lparr>current_keymap := m, current_keymap_name := str_copy (current_keymap_name k) nm\<rparr>, s1)
     else keymap_first tab buf nms (k\<lparr>current_keymap := m\<rparr>) s1
   }"

definition keymap_init :: "fs_tab \<Rightarrow> u64 \<Rightarrow> keyboard \<Rightarrow> fs \<Rightarrow> (int \<times> keyboard \<times> fs) option" where
  "keymap_init tab buf k s = keymap_first tab buf [''US'', ''DE'', ''PL'', ''RU''] k s"

definition keymap_set :: "fs_tab \<Rightarrow> u64 \<Rightarrow> string option \<Rightarrow> keymap \<Rightarrow> keyboard \<Rightarrow> fs \<Rightarrow> (int \<times> keyboard \<times> fs) option" where
  "keymap_set tab buf name new k s =
    (case name of None \<Rightarrow> Some (-1, k, s)
     | Some nm \<Rightarrow> do {
         (r, m, s1) \<leftarrow> keymap_load_from_module tab buf name new s;
         if r = 0 then (if 16 \<le> length nm then None
           else Some (0, k\<lparr>current_keymap := m, current_keymap_name := str_copy (current_keymap_name k) nm\<rparr>, s1))
         else Some (-1, k, s1)
       })"

definition keyboard_init :: "fs_tab \<Rightarrow> u64 \<Rightarrow> keyboard \<Rightarrow> fs \<Rightarrow> (keyboard \<times> fs) option" where
  "keyboard_init tab buf k s = do {
     (_, k1, s1) \<leftarrow> keymap_init tab buf k s;
     Some (k1\<lparr>key_buffer := empty_ring (key_buffer k1), kb_extended := False\<rparr>, s1)
   }"

section \<open>Typing\<close>

interpretation key_queue: bounded_queue "ring_put KEY_BUFFER_SIZE" ring_front "ring_drop KEY_BUFFER_SIZE" rg_count
  KEY_BUFFER_SIZE "ring_ok KEY_BUFFER_SIZE" ring_items
  by (rule ring_queue)

text \<open>The keys of the map: no modifier, no key with a meaning of its own. The code of a release has the highest bit set, so the
  key 0x60 has none.\<close>

definition plain :: "u8 \<Rightarrow> bool" where
  "plain sc \<longleftrightarrow> sc < 0x80 \<and> sc \<notin> {0, 0x2A, 0x36, 0x1D, 0x38, 0x3A, 0x0E, 0x1C, 0x60} \<and> \<not> (0x3B \<le> sc \<and> sc \<le> 0x44)"

definition calm :: "keyboard \<Rightarrow> bool" where
  "calm k \<longleftrightarrow> \<not> kb_shift k \<and> \<not> kb_ctrl k \<and> \<not> kb_alt k \<and> \<not> kb_caps k \<and> \<not> kb_extended k"

definition scan :: "u8 list \<Rightarrow> u8 list \<Rightarrow> keyboard \<Rightarrow> keyboard" where
  "scan pad codes k = fold (\<lambda>c. keyboard_irq_handler 1 c pad) codes k"

lemma scan_simps [simp]: "scan pad [] k = k" "scan pad (c # cs) k = scan pad cs (keyboard_irq_handler 1 c pad k)"
  "scan pad (as @ bs) k = scan pad bs (scan pad as k)"
  by (simp_all add: scan_def)

definition upcase :: "u8 \<Rightarrow> u8" where
  "upcase c = (if 0x61 \<le> c \<and> c \<le> 0x7A then (c - 0x61) + 0x41 else c)"

text \<open>A key and whether it is typed with shift: its scan codes, its character, its events.\<close>

type_synonym typed_key = "u8 \<times> bool"

definition key_scans :: "typed_key \<Rightarrow> u8 list" where
  "key_scans = (\<lambda>(sc, sh). if sh then [0x2A, sc, sc OR 0x80, 0xAA] else [sc, sc OR 0x80])"

definition typed :: "keymap \<Rightarrow> typed_key \<Rightarrow> u8" where
  "typed km = (\<lambda>(sc, sh). if sh then upcase (km_shift km ! unat sc) else km_normal km ! unat sc)"

definition released :: "keymap \<Rightarrow> typed_key \<Rightarrow> u8" where
  "released km = (\<lambda>(sc, sh). if sh then km_shift km ! unat sc else km_normal km ! unat sc)"

definition key_events :: "u8 list \<Rightarrow> keymap \<Rightarrow> typed_key \<Rightarrow> vt_key_event list" where
  "key_events pad km = (\<lambda>(sc, sh).
     if sh then [key_event pad KEY_LSHIFT KEY_SHIFT_MASK 1, key_event pad (ucast (typed km (sc, sh))) KEY_SHIFT_MASK 1,
       key_event pad (ucast (released km (sc, sh))) KEY_SHIFT_MASK 0, key_event pad KEY_LSHIFT KEY_SHIFT_MASK 0]
     else [key_event pad (ucast (typed km (sc, sh))) 0 1, key_event pad (ucast (released km (sc, sh))) 0 0])"

lemma not_bit7: "sc < 0x80 \<Longrightarrow> \<not> bit sc 7" for sc :: u8
proof -
  assume "sc < 0x80"
  then have "unat sc < 128" by (simp add: word_less_nat_alt)
  then have "\<not> bit (unat sc) 7" by (simp add: bit_iff_odd)
  then show ?thesis by (simp add: bit_unsigned_iff)
qed

lemma press_code: "sc < 0x80 \<Longrightarrow> sc AND 0x80 = 0" for sc :: u8
  using not_bit7 [of sc] and_exp_eq_0_iff_not_bit [of sc 7] by simp

lemma release_code:
  fixes sc :: u8
  assumes "sc < 0x80"
  shows "(sc OR 0x80) AND 0x80 \<noteq> 0" "(sc OR 0x80) AND 0x7F = sc" "sc OR 0x80 \<noteq> 0" "sc \<noteq> 0x60 \<Longrightarrow> sc OR 0x80 \<noteq> 0xE0"
proof -
  have "bit (2 ^ 7 :: u8) 7" by (simp only: bit_exp_iff) simp
  then have h: "bit (sc OR 0x80) 7" by (simp add: bit_or_iff)
  then show "(sc OR 0x80) AND 0x80 \<noteq> 0" using and_exp_eq_0_iff_not_bit [of "sc OR 0x80" 7] by simp
  show "sc OR 0x80 \<noteq> 0"
  proof
    assume "sc OR 0x80 = 0"
    with h have "bit (0 :: u8) 7" by (simp only:)
    then show False by simp
  qed
  have b7: "\<not> bit sc 7" using assms by (rule not_bit7)
  show r: "(sc OR 0x80) AND 0x7F = sc"
  proof (rule bit_word_eqI)
    fix n
    assume "n < LENGTH(8)"
    then have "n = 7 \<or> n < 7" by auto
    moreover have "bit (0x7F :: u8) i = (i < 7)" if "i < 8" for i
    proof -
      have "(0x7F :: u8) = mask 7" by (simp add: mask_eq_exp_minus_1)
      then show ?thesis using that by (simp only: bit_mask_iff) auto
    qed
    moreover have "bit (0x80 :: u8) i = (i = 7)" for i
    proof -
      have "(0x80 :: u8) = 2 ^ 7" by simp
      then show ?thesis by (simp only: bit_exp_iff) auto
    qed
    ultimately show "bit ((sc OR 0x80) AND 0x7F) n = bit sc n" using b7 by (auto simp: bit_or_iff bit_and_iff)
  qed
  show "sc OR 0x80 \<noteq> 0xE0" if "sc \<noteq> 0x60" using r that by auto
qed

lemma modifiers_calm: "calm k \<Longrightarrow> modifiers k = 0" "calm k \<Longrightarrow> modifiers (k\<lparr>kb_shift := True\<rparr>) = KEY_SHIFT_MASK"
  by (simp_all add: modifiers_def calm_def)

lemma put_event_keeps [simp]:
  "kb_shift (keyboard_put_event e k) = kb_shift k" "kb_ctrl (keyboard_put_event e k) = kb_ctrl k" "kb_alt (keyboard_put_event e k) = kb_alt k"
  "kb_caps (keyboard_put_event e k) = kb_caps k" "kb_extended (keyboard_put_event e k) = kb_extended k"
  "current_keymap (keyboard_put_event e k) = current_keymap k" "modifiers (keyboard_put_event e k) = modifiers k"
  by (simp_all add: keyboard_put_event_def modifiers_def)

lemma plainD:
  assumes "plain sc"
  shows "sc < 0x80" "sc \<noteq> 0" "sc \<noteq> 0x2A" "sc \<noteq> 0x36" "sc \<noteq> 0x1D" "sc \<noteq> 0x38" "sc \<noteq> 0x3A" "sc \<noteq> 0x0E" "sc \<noteq> 0x1C"
    "sc \<noteq> 0x60" "(0x3B \<le> sc \<and> sc \<le> 0x44) = False" "sc \<noteq> 0xE0" "sc AND 0x80 = 0"
  using assms press_code [of sc] by (auto simp: plain_def)

lemma upcase_if: "(if 0x61 \<le> c \<and> c \<le> 0x7A \<and> (False \<and> \<not> sh \<or> \<not> False \<and> sh) then (c - 0x61) + 0x41 else c) = (if sh then upcase c else c)"
  by (simp add: upcase_def)

lemma irq_press:
  assumes "plain sc" and "\<not> kb_extended k" and "\<not> kb_caps k" and "typed (current_keymap k) (sc, kb_shift k) \<noteq> 0"
  shows "keyboard_irq_handler 1 sc pad k = keyboard_put_event (key_event pad (ucast (typed (current_keymap k) (sc, kb_shift k))) (modifiers k) 1) k"
proof -
  have t: "(if kb_shift k then upcase (map_char k sc) else map_char k sc) = typed (current_keymap k) (sc, kb_shift k)"
    by (simp add: map_char_def typed_def)
  have "keyboard_irq_handler 1 sc pad k = key_press pad sc k" using plainD [OF assms(1)] by (simp add: keyboard_irq_handler_def)
  also have "\<dots> = (let c = typed (current_keymap k) (sc, kb_shift k) in if c \<noteq> 0 then keyboard_put_event (key_event pad (ucast c) (modifiers k) 1) k else k)"
    unfolding t [symmetric] upcase_if [symmetric] key_press_def using plainD [OF assms(1)] assms(2,3) by (simp only: Let_def if_False simp_thms)
  finally show ?thesis using assms(4) by simp
qed

lemma irq_release:
  assumes "plain sc" and "\<not> kb_extended k" and "released (current_keymap k) (sc, kb_shift k) \<noteq> 0"
  shows "keyboard_irq_handler 1 (sc OR 0x80) pad k = keyboard_put_event (key_event pad (ucast (released (current_keymap k) (sc, kb_shift k))) (modifiers k) 0) k"
proof -
  have "map_char k sc = released (current_keymap k) (sc, kb_shift k)" by (simp add: map_char_def released_def)
  then show ?thesis using assms(2,3) plainD [OF assms(1)] release_code [of sc]
    by (simp add: keyboard_irq_handler_def key_release_def Let_def)
qed

lemma irq_shift:
  assumes "\<not> kb_extended k"
  shows "keyboard_irq_handler 1 0x2A pad k = keyboard_put_event (key_event pad KEY_LSHIFT KEY_SHIFT_MASK 1) (k\<lparr>kb_shift := True\<rparr>)"
    and "keyboard_irq_handler 1 0xAA pad k = keyboard_put_event (key_event pad KEY_LSHIFT (modifiers k) 0) (k\<lparr>kb_shift := False\<rparr>)"
  using assms by (simp_all add: keyboard_irq_handler_def key_press_def key_release_def Let_def)

text \<open>How far a step of the keyboard is what is typed: the state of the modifiers stays as it was, and the events come to the
  end of the queue.\<close>

definition kbd_ready :: "nat \<Rightarrow> keyboard \<Rightarrow> bool" where
  "kbd_ready n k \<longleftrightarrow> ring_ok KEY_BUFFER_SIZE (key_buffer k) \<and> rg_count (key_buffer k) + n \<le> KEY_BUFFER_SIZE"

abbreviation kbd_items :: "keyboard \<Rightarrow> vt_key_event list" where
  "kbd_items k \<equiv> ring_items (key_buffer k)"

lemma put_event_ready:
  assumes "kbd_ready (Suc n) k"
  shows "kbd_ready n (keyboard_put_event e k)" "kbd_items (keyboard_put_event e k) = kbd_items k @ [e]"
proof -
  have r: "ring_ok KEY_BUFFER_SIZE (key_buffer k)" "rg_count (key_buffer k) < KEY_BUFFER_SIZE" using assms by (auto simp: kbd_ready_def)
  note i = ring_put_ok [OF r, of e]
  show "kbd_items (keyboard_put_event e k) = kbd_items k @ [e]" using i r(2) by (simp add: keyboard_put_event_def)
  moreover have "rg_count (ring_put KEY_BUFFER_SIZE (key_buffer k) e) = rg_count (key_buffer k) + 1" by (simp add: ring_put_def)
  ultimately show "kbd_ready n (keyboard_put_event e k)" using i r(2) assms by (simp add: keyboard_put_event_def kbd_ready_def)
qed

lemma kbd_ready_update [simp]:
  "kbd_ready n (k\<lparr>kb_shift := b\<rparr>) = kbd_ready n k" "kbd_items (k\<lparr>kb_shift := b\<rparr>) = kbd_items k"
  by (simp_all add: kbd_ready_def)

definition good_key :: "keymap \<Rightarrow> typed_key \<Rightarrow> bool" where
  "good_key km key \<longleftrightarrow> plain (fst key) \<and> typed km key \<noteq> 0 \<and> released km key \<noteq> 0"

lemma scan_key:
  assumes "calm k" and "good_key (current_keymap k) key" and "kbd_ready (length (key_events pad (current_keymap k) key) + n) k"
  shows "calm (scan pad (key_scans key) k) \<and> kbd_ready n (scan pad (key_scans key) k) \<and> current_keymap (scan pad (key_scans key) k) = current_keymap k
    \<and> kbd_items (scan pad (key_scans key) k) = kbd_items k @ key_events pad (current_keymap k) key"
proof -
  obtain sc sh where key: "key = (sc, sh)" by (cases key)
  let ?km = "current_keymap k"
  have g: "plain sc" "typed ?km (sc, sh) \<noteq> 0" "released ?km (sc, sh) \<noteq> 0" using assms(2) by (simp_all add: key good_key_def)
  have c: "\<not> kb_shift k" "\<not> kb_ctrl k" "\<not> kb_alt k" "\<not> kb_caps k" "\<not> kb_extended k" using assms(1) by (simp_all add: calm_def)
  have m0: "modifiers k = 0" using c by (simp add: modifiers_def)
  show ?thesis
  proof (cases sh)
    case False
    let ?e1 = "key_event pad (ucast (typed ?km (sc, False))) 0 1" and ?e2 = "key_event pad (ucast (released ?km (sc, False))) 0 0"
    have "kbd_ready (Suc (Suc n)) k" using assms(3) False by (simp add: key key_events_def)
    note r1 = put_event_ready [OF this, of ?e1]
    note r2 = put_event_ready [OF r1(1), of ?e2]
    have "scan pad (key_scans key) k = keyboard_put_event ?e2 (keyboard_put_event ?e1 k)"
      using g c False m0 by (simp add: key key_scans_def irq_press irq_release)
    then show ?thesis using r1 r2 c False by (simp add: calm_def key key_events_def)
  next
    case True
    let ?k = "k\<lparr>kb_shift := True\<rparr>"
    let ?e0 = "key_event pad KEY_LSHIFT KEY_SHIFT_MASK 1" and ?e1 = "key_event pad (ucast (typed ?km (sc, True))) KEY_SHIFT_MASK 1"
      and ?e2 = "key_event pad (ucast (released ?km (sc, True))) KEY_SHIFT_MASK 0" and ?e3 = "key_event pad KEY_LSHIFT KEY_SHIFT_MASK 0"
    have "kbd_ready (Suc (Suc (Suc (Suc n)))) ?k" using assms(3) True by (simp add: key key_events_def numeral_eq_Suc)
    note r0 = put_event_ready [OF this, of ?e0]
    note r1 = put_event_ready [OF r0(1), of ?e1]
    note r2 = put_event_ready [OF r1(1), of ?e2]
    have r2': "kbd_ready (Suc n) ((keyboard_put_event ?e2 (keyboard_put_event ?e1 (keyboard_put_event ?e0 ?k)))\<lparr>kb_shift := False\<rparr>)"
      using r2 by simp
    note r3 = put_event_ready [OF r2', of ?e3]
    have m: "modifiers ?k = KEY_SHIFT_MASK" using c by (simp add: modifiers_def)
    have "scan pad (key_scans key) k = keyboard_put_event ?e3 ((keyboard_put_event ?e2 (keyboard_put_event ?e1 (keyboard_put_event ?e0 ?k)))\<lparr>kb_shift := False\<rparr>)"
      using g c True m by (simp add: key key_scans_def irq_shift irq_press irq_release)
    then show ?thesis using r0 r1 r2 r3 c True by (simp add: calm_def key key_events_def)
  qed
qed

lemma scan_keys:
  assumes "calm k" and "list_all (good_key (current_keymap k)) keys"
    and "kbd_ready (length (concat (map (key_events pad (current_keymap k)) keys))) k"
  shows "calm (scan pad (concat (map key_scans keys)) k) \<and> current_keymap (scan pad (concat (map key_scans keys)) k) = current_keymap k
    \<and> ring_ok KEY_BUFFER_SIZE (key_buffer (scan pad (concat (map key_scans keys)) k))
    \<and> kbd_items (scan pad (concat (map key_scans keys)) k) = kbd_items k @ concat (map (key_events pad (current_keymap k)) keys)"
  using assms
proof (induction keys arbitrary: k)
  case (Cons key keys)
  let ?k = "scan pad (key_scans key) k"
  have "calm ?k \<and> kbd_ready (length (concat (map (key_events pad (current_keymap k)) keys))) ?k \<and> current_keymap ?k = current_keymap k
      \<and> kbd_items ?k = kbd_items k @ key_events pad (current_keymap k) key"
    using Cons.prems by (intro scan_key) simp_all
  then show ?case using Cons.IH [of ?k] Cons.prems by simp
qed (simp add: kbd_ready_def)

text \<open>Reading the device gives the events that fit, as bytes.\<close>

lemma kbd_read_loop:
  "ring_ok KEY_BUFFER_SIZE (key_buffer k) \<Longrightarrow> fst (kbd_read_loop n k) = concat (map event_bytes (take n (kbd_items k)))
     \<and> kbd_items (snd (kbd_read_loop n k)) = drop n (kbd_items k)"
proof (induction n arbitrary: k)
  case (Suc n)
  show ?case
  proof (cases "rg_count (key_buffer k) = 0")
    case True
    then have "kbd_items k = []" by (metis length_0_conv ring_items_length)
    then show ?thesis using True by (simp add: keyboard_get_event_def)
  next
    case False
    let ?k = "k\<lparr>key_buffer := ring_drop KEY_BUFFER_SIZE (key_buffer k)\<rparr>"
    have d: "ring_ok KEY_BUFFER_SIZE (key_buffer ?k)" "kbd_items k = ring_front (key_buffer k) # kbd_items ?k"
      using ring_drop_ok [OF Suc.prems] False by simp_all
    from Suc.IH [OF d(1)] show ?thesis using False unfolding d(2)
      by (simp add: keyboard_get_event_def split_beta)
  qed
qed simp

text \<open>What a program makes of the bytes: the events, twelve bytes each, and the characters of the pressed keys.\<close>

fun bytes_events :: "u8 list \<Rightarrow> vt_key_event list" where
  "bytes_events bs = (if length bs < 12 then [] else event_of (take 12 bs) # bytes_events (drop 12 bs))"

declare bytes_events.simps [simp del]

definition pressed_text :: "vt_key_event list \<Rightarrow> u8 list" where
  "pressed_text es = map (\<lambda>e. ucast (ev_keycode e)) (filter (\<lambda>e. ev_pressed e = 1 \<and> ev_keycode e < 0x100) es)"

lemma bytes_events: "\<forall>e \<in> set es. length (ev_pad e) = 3 \<Longrightarrow> bytes_events (concat (map event_bytes es)) = es"
  by (induction es) (simp_all add: bytes_events.simps [of "[]"] bytes_events.simps [of "event_bytes _ @ _"] event_of_bytes)

lemma key_events_pad: "e \<in> set (key_events pad km key) \<Longrightarrow> ev_pad e = pad"
  by (auto simp: key_events_def key_event_def split: prod.splits if_splits)

lemma unat_ucast32: "unat (ucast c :: u32) = unat c" for c :: u8
proof -
  have "uint (ucast c :: u32) = uint c" by (rule uint_up_ucast) (simp add: is_up)
  then show ?thesis unfolding unat_eq_nat_uint by (rule arg_cong)
qed

lemma ucast32_eq: "ucast c = (ucast d :: u32) \<longleftrightarrow> c = d" for c d :: u8
  by (metis unat_ucast32 word_unat_eq_iff)

lemma pressed_text_key: "pressed_text (key_events pad km key) = [typed km key]"
proof -
  have "(ucast c :: u32) < 0x100" for c :: u8 using unat_lt_2p8 [of c] by (simp add: word_less_nat_alt unat_ucast32)
  moreover have "ucast (ucast c :: u32) = c" for c :: u8 by (rule ucast_up_ucast_id) (simp add: is_up)
  ultimately show ?thesis by (cases key) (simp add: key_events_def pressed_text_def key_event_def key_codes split: prod.splits)
qed

lemma pressed_text_keys: "pressed_text (concat (map (key_events pad km) keys)) = map (typed km) keys"
proof (induction keys)
  case (Cons key keys)
  have "pressed_text (as @ bs) = pressed_text as @ pressed_text bs" for as bs by (simp add: pressed_text_def)
  then show ?case using Cons by (simp add: pressed_text_key)
qed (simp add: pressed_text_def)

text \<open>C25. What is typed is read: when keys of the map are pressed and released one after the other, each alone
  or under the left shift key, a program that reads the device file gets events whose pressed characters are those of the
  map, in order, as long as the ring has room.\<close>

theorem keyboard_types:
  assumes "calm k" and "list_all (good_key (current_keymap k)) keys" and "length pad = 3"
    and "ring_ok KEY_BUFFER_SIZE (key_buffer k)" and "rg_count (key_buffer k) = 0"
    and "length (concat (map (key_events pad (current_keymap k)) keys)) \<le> KEY_BUFFER_SIZE" and "12 * KEY_BUFFER_SIZE \<le> count"
  shows "pressed_text (bytes_events (fst (kbd_dev_read count (scan pad (concat (map key_scans keys)) k)))) = map (typed (current_keymap k)) keys"
proof -
  let ?k = "scan pad (concat (map key_scans keys)) k" and ?es = "concat (map (key_events pad (current_keymap k)) keys)"
  have "kbd_ready (length ?es) k" using assms(4-6) by (simp add: kbd_ready_def)
  from scan_keys [OF assms(1,2) this] have s: "ring_ok KEY_BUFFER_SIZE (key_buffer ?k)" "kbd_items ?k = kbd_items k @ ?es" by simp_all
  have "kbd_items k = []" using assms(5) by (metis length_0_conv ring_items_length)
  moreover have "length ?es \<le> count div EV_SIZE" using assms(6,7) by (simp add: EV_SIZE_def)
  ultimately have "fst (kbd_dev_read count ?k) = concat (map event_bytes ?es)"
    using kbd_read_loop [OF s(1), of "count div EV_SIZE"] s(2) by (simp add: kbd_dev_read_def)
  moreover have "bytes_events (concat (map event_bytes ?es)) = ?es"
    by (rule bytes_events) (use assms(3) in \<open>auto dest!: key_events_pad\<close>)
  ultimately show ?thesis by (simp only: pressed_text_keys)
qed

definition keyboard_ex :: "keymap \<Rightarrow> keyboard" where
  "keyboard_ex km = \<lparr>key_buffer = \<lparr>rg_buf = replicate KEY_BUFFER_SIZE (key_event [0, 0, 0] 0 0 0), rg_head = 0, rg_tail = 0, rg_count = 0\<rparr>,
     kb_shift = False, kb_ctrl = False, kb_alt = False, kb_caps = False, kb_extended = False, current_keymap = km, current_keymap_name = ''US''\<rparr>"

definition keymap_ex :: keymap where
  "keymap_ex = \<lparr>km_normal = (km_normal empty_keymap)[0x1E := 0x61, 0x02 := 0x31], km_shift = (km_shift empty_keymap)[0x1E := 0x41, 0x02 := 0x21]\<rparr>"

lemma keyboard_ex_simps:
  "calm (keyboard_ex km)" "current_keymap (keyboard_ex km) = km" "ring_ok KEY_BUFFER_SIZE (key_buffer (keyboard_ex km))"
  "rg_count (key_buffer (keyboard_ex km)) = 0"
  by (simp_all add: keyboard_ex_def calm_def ring_ok_def KEY_BUFFER_SIZE_def)

lemma good_key_ex: "good_key keymap_ex (0x1E, True)" "good_key keymap_ex (0x1E, False)" "good_key keymap_ex (0x02, sh)"
  by (cases sh; simp add: good_key_def plain_def typed_def released_def keymap_ex_def empty_keymap_def upcase_def)+

lemma keyboard_types_witness:
  "pressed_text (bytes_events (fst (kbd_dev_read 1536 (scan [0, 0, 0] [0x2A, 0x1E, 0x9E, 0xAA, 0x1E, 0x9E, 0x02, 0x82] (keyboard_ex keymap_ex)))))
    = [0x41, 0x61, 0x31]"
proof -
  have s: "concat (map key_scans [(0x1E, True), (0x1E, False), (0x02, False)]) = [0x2A, 0x1E, 0x9E, 0xAA, 0x1E, 0x9E, 0x02, 0x82]"
    by (simp add: key_scans_def)
  have t: "map (typed keymap_ex) [(0x1E, True), (0x1E, False), (0x02, False)] = [0x41, 0x61, 0x31]"
    by (simp add: typed_def keymap_ex_def empty_keymap_def upcase_def)
  show ?thesis
    using keyboard_types [of "keyboard_ex keymap_ex" "[(0x1E, True), (0x1E, False), (0x02, False)]" "[0, 0, 0]" 1536, unfolded s keyboard_ex_simps t]
      good_key_ex keyboard_ex_simps(1)
    by (simp add: key_events_def KEY_BUFFER_SIZE_def keyboard_ex_simps(3) [unfolded KEY_BUFFER_SIZE_def])
qed

text \<open>The character of a release is looked up with the modifiers of that moment: when the shift
  key is released before the letter, the events tell of the press of the capital letter and of the release of the small one,
  so the capital letter is never released.\<close>

lemma keyboard_release_differs:
  assumes "calm k" and "good_key (current_keymap k) (sc, True)" and "good_key (current_keymap k) (sc, False)"
    and "kbd_ready 4 k" and "typed (current_keymap k) (sc, True) \<noteq> released (current_keymap k) (sc, False)"
  shows "\<exists>es. kbd_items (scan pad [0x2A, sc, 0xAA, sc OR 0x80] k) = kbd_items k @ es
    \<and> (\<exists>e \<in> set es. ev_pressed e = 1 \<and> ev_keycode e = ucast (typed (current_keymap k) (sc, True)))
    \<and> \<not> (\<exists>e \<in> set es. ev_pressed e = 0 \<and> ev_keycode e = ucast (typed (current_keymap k) (sc, True)))"
proof -
  let ?km = "current_keymap k" and ?k = "k\<lparr>kb_shift := True\<rparr>"
  have g: "plain sc" "typed ?km (sc, True) \<noteq> 0" "released ?km (sc, False) \<noteq> 0" using assms(2,3) by (simp_all add: good_key_def)
  have c: "\<not> kb_shift k" "\<not> kb_ctrl k" "\<not> kb_alt k" "\<not> kb_caps k" "\<not> kb_extended k" using assms(1) by (simp_all add: calm_def)
  let ?e0 = "key_event pad KEY_LSHIFT KEY_SHIFT_MASK 1" and ?e1 = "key_event pad (ucast (typed ?km (sc, True))) KEY_SHIFT_MASK 1"
    and ?e2 = "key_event pad KEY_LSHIFT KEY_SHIFT_MASK 0" and ?e3 = "key_event pad (ucast (released ?km (sc, False))) 0 0"
  have m: "modifiers ?k = KEY_SHIFT_MASK" using c by (simp add: modifiers_def)
  have "kbd_ready (Suc (Suc (Suc (Suc 0)))) ?k" using assms(4) by (simp add: numeral_eq_Suc)
  note r0 = put_event_ready [OF this, of ?e0]
  note r1 = put_event_ready [OF r0(1), of ?e1]
  let ?k2 = "(keyboard_put_event ?e1 (keyboard_put_event ?e0 ?k))\<lparr>kb_shift := False\<rparr>"
  have r1': "kbd_ready (Suc (Suc 0)) ?k2" using r1 by simp
  note r2 = put_event_ready [OF r1', of ?e2]
  note r3 = put_event_ready [OF r2(1), of ?e3]
  have m0: "modifiers ?k2 = 0" using c by (simp add: modifiers_def keyboard_put_event_def)
  have "scan pad [0x2A, sc, 0xAA, sc OR 0x80] k = keyboard_put_event ?e3 (keyboard_put_event ?e2 ?k2)"
    using g c m m0 by (simp add: irq_shift irq_press irq_release)
  then have i: "kbd_items (scan pad [0x2A, sc, 0xAA, sc OR 0x80] k) = kbd_items k @ [?e0, ?e1, ?e2, ?e3]"
    using r0 r1 r2 r3 by simp
  show ?thesis
  proof (intro exI [of _ "[?e0, ?e1, ?e2, ?e3]"] conjI)
    have "ev_keycode ?e2 \<noteq> ucast (typed ?km (sc, True))"
      using unat_ucast32 [of "typed ?km (sc, True)"] unat_lt_2p8 [of "typed ?km (sc, True)"]
      by (auto simp: key_event_def KEY_LSHIFT_def word_unat_eq_iff simp del: unat_lt_2p8)
    then show "\<not> (\<exists>e \<in> set [?e0, ?e1, ?e2, ?e3]. ev_pressed e = 0 \<and> ev_keycode e = ucast (typed ?km (sc, True)))"
      using assms(5) by (auto simp: key_event_def ucast32_eq)
  qed (rule i, simp add: key_event_def)
qed

lemma keyboard_release_differs_witness:
  "\<exists>es. kbd_items (scan [0, 0, 0] [0x2A, 0x1E, 0xAA, 0x9E] (keyboard_ex keymap_ex)) = es
    \<and> (\<exists>e \<in> set es. ev_pressed e = 1 \<and> ev_keycode e = 0x41) \<and> \<not> (\<exists>e \<in> set es. ev_pressed e = 0 \<and> ev_keycode e = 0x41)"
proof -
  have t: "typed keymap_ex (0x1E, True) = 0x41" "released keymap_ex (0x1E, False) = 0x61"
    by (simp_all add: typed_def released_def keymap_ex_def empty_keymap_def upcase_def)
  have r: "kbd_ready 4 (keyboard_ex keymap_ex)" using keyboard_ex_simps(3,4) by (simp add: kbd_ready_def KEY_BUFFER_SIZE_def)
  have e: "kbd_items (keyboard_ex keymap_ex) = []" using keyboard_ex_simps(4) by (metis length_0_conv ring_items_length)
  show ?thesis
    using keyboard_release_differs [of "keyboard_ex keymap_ex" "0x1E" "[0, 0, 0]", unfolded keyboard_ex_simps e t] good_key_ex r keyboard_ex_simps(1)
    by simp
qed

text \<open>Two shift keys are one: the release of either ends the effect of both.\<close>

lemma keyboard_one_shift:
  "\<not> kb_extended k \<Longrightarrow> \<not> kb_shift (scan pad [0x2A, 0x36, 0xB6] k)"
  by (simp add: keyboard_irq_handler_def key_press_def key_release_def Let_def)

section \<open>Key maps: what is written is read back\<close>

definition hex2 :: "nat \<Rightarrow> string" where
  "hex2 n = [''0123456789ABCDEF'' ! (n div 16), ''0123456789ABCDEF'' ! (n mod 16)]"

definition map_char_text :: "u8 \<Rightarrow> string" where
  "map_char_text c = CHR 0x27 # (if 32 < unat c \<and> unat c < 127 \<and> unat c \<noteq> 0x5C then [char_of (unat c)] else [CHR 0x5C, CHR ''x''] @ hex2 (unat c)) @ [CHR 0x27]"

definition map_line :: "keymap \<Rightarrow> nat \<Rightarrow> string" where
  "map_line km i = ''0x'' @ hex2 i @ '' = '' @ map_char_text (km_normal km ! i) @ '' '' @ map_char_text (km_shift km ! i) @ [NL]"

lemma hex_push_digit: "d < 16 \<Longrightarrow> hex_push h (''0123456789ABCDEF'' ! d) = push_bit 4 h OR word_of_nat d"
proof -
  have "list_all (\<lambda>d. hex_push h (''0123456789ABCDEF'' ! d) = push_bit 4 h OR word_of_nat d) [0, 1, 2, 3, 4, 5, 6, 7, 8, 9, 10, 11, 12, 13, 14, 15]"
    by (simp add: hex_push_def chr_in_def)
  moreover have "d < 16 \<Longrightarrow> d \<in> set [0, 1, 2, 3, 4, 5, 6, 7, 8, 9, 10, 11, 12, 13, 14, 15]" by simp presburger
  ultimately show "d < 16 \<Longrightarrow> ?thesis" unfolding list_all_iff by blast
qed

lemma nibbles: "b < 16 \<Longrightarrow> push_bit 4 (word_of_nat a :: u8) OR word_of_nat b = word_of_nat (16 * a + b)"
proof -
  assume b: "b < 16"
  have "bit (word_of_nat b :: u8) n \<Longrightarrow> n < 4" for n
  proof (rule ccontr)
    assume "bit (word_of_nat b :: u8) n" "\<not> n < 4"
    then have "bit b n" "(16 :: nat) \<le> 2 ^ n" using power_increasing [of 4 n "2 :: nat"] by (auto simp: bit_simps)
    then show False using b by (simp add: bit_iff_odd)
  qed
  then have "push_bit 4 (word_of_nat a :: u8) AND word_of_nat b = 0"
    by (intro bit_word_eqI) (auto simp: bit_and_iff bit_push_bit_iff dest: leD)
  then have "push_bit 4 (word_of_nat a :: u8) OR word_of_nat b = push_bit 4 (word_of_nat a) + word_of_nat b"
    by (rule disjunctive_add_eq_or [symmetric])
  then show ?thesis by (simp add: push_bit_eq_mult)
qed

lemma hex2_push: "n < 256 \<Longrightarrow> foldl hex_push 0 (hex2 n) = word_of_nat n"
proof -
  assume n: "n < 256"
  then have d: "n div 16 < 16" "n mod 16 < 16" by auto
  have "foldl hex_push 0 (hex2 n) = push_bit 4 (word_of_nat (n div 16)) OR word_of_nat (n mod 16)"
    unfolding hex2_def foldl_Cons foldl_Nil hex_push_digit [OF d(1)] hex_push_digit [OF d(2)] by simp
  also have "\<dots> = word_of_nat n" unfolding nibbles [OF d(2)] by simp
  finally show ?thesis .
qed

lemma quoted_char_text: "quoted_char (map_char_text c @ r) = (Some c, r)"
proof (cases "32 < unat c \<and> unat c < 127 \<and> unat c \<noteq> 0x5C")
  case True
  have "(of_char (char_of (unat c) :: char) :: u8) = of_nat (of_char (char_of (unat c) :: char) :: nat)" by (rule of_nat_of_char [symmetric])
  then have "(of_char (char_of (unat c) :: char) :: u8) = c" by simp
  moreover have "(char_of (unat c) :: char) \<noteq> CHR 0x5C"
  proof
    assume "(char_of (unat c) :: char) = CHR 0x5C"
    then have "of_char (char_of (unat c) :: char) = (0x5C :: nat)" by simp
    then show False using True by simp
  qed
  ultimately show ?thesis using True by (simp add: map_char_text_def quoted_char_def at_char_def quoted_body_def skip_char_def)
next
  case False
  have h: "foldl hex_push 0 (hex2 (unat c)) = c" using hex2_push [of "unat c"] by simp
  have l: "length (hex2 (unat c)) = 2" by (simp add: hex2_def)
  have "map_char_text c = CHR 0x27 # CHR 0x5C # CHR ''x'' # hex2 (unat c) @ [CHR 0x27]"
    unfolding map_char_text_def if_not_P [OF False] by simp
  then show ?thesis using h l by (simp add: quoted_char_def at_char_def quoted_body_def skip_char_def)
qed

lemma map_char_text_head: "map_char_text c \<noteq> [] \<and> hd (map_char_text c) = CHR 0x27"
  by (simp add: map_char_text_def)

lemma dropWhile_head: "xs \<noteq> [] \<Longrightarrow> \<not> P (hd xs) \<Longrightarrow> dropWhile P xs = xs"
  by (cases xs) simp_all

lemma map_entry_line:
  assumes "i < 128" and "length ns = 128" and "length ss = 128"
  shows "map_entry (map_line km i @ r) \<lparr>km_normal = ns, km_shift = ss\<rparr> =
    Some (NL # r, \<lparr>km_normal = ns[i := km_normal km ! i], km_shift = ss[i := km_shift km ! i]\<rparr>)"
proof -
  let ?n = "map_char_text (km_normal km ! i)" and ?s = "map_char_text (km_shift km ! i)"
  have l: "length (hex2 i) = 2" by (simp add: hex2_def)
  have h: "foldl hex_push 0 (hex2 i) = word_of_nat i" by (rule hex2_push) (use assms(1) in simp)
  have u: "unat (word_of_nat i :: u8) = i" using assms(1) by (simp add: unat_of_nat)
  have b: "map_blank (CHR '' '')" by (simp add: map_blank_def)
  have d1: "dropWhile map_blank (?n @ CHR '' '' # ?s @ NL # r) = ?n @ CHR '' '' # ?s @ NL # r"
    using map_char_text_head [of "km_normal km ! i"] by (simp add: map_blank_def dropWhile_head)
  have d2: "dropWhile map_blank (?s @ NL # r) = ?s @ NL # r"
    using map_char_text_head [of "km_shift km ! i"] by (simp add: map_blank_def dropWhile_head)
  show ?thesis using assms l h
    by (simp add: map_entry_def map_line_def b d1 d2 quoted_char_text set_key_def u Let_def)
qed

definition read_keys :: "keymap \<Rightarrow> nat list \<Rightarrow> keymap \<Rightarrow> keymap" where
  "read_keys km is m = fold (\<lambda>i m. m\<lparr>km_normal := (km_normal m)[i := km_normal km ! i], km_shift := (km_shift m)[i := km_shift km ! i]\<rparr>) is m"

lemma keymap_loop_lines:
  assumes "\<forall>i \<in> set is. i < 128" and "length (km_normal m) = 128" and "length (km_shift m) = 128"
  shows "keymap_loop (concat (map (map_line km) is)) m = Some (read_keys km is m)"
  using assms
proof (induction "is" arbitrary: m)
  case Nil
  then show ?case by (simp add: keymap_loop.simps read_keys_def)
next
  case (Cons i js)
  obtain ns ss where m: "m = \<lparr>km_normal = ns, km_shift = ss\<rparr>" by (cases m)
  let ?r = "concat (map (map_line km) js)" and ?m = "\<lparr>km_normal = ns[i := km_normal km ! i], km_shift = ss[i := km_shift km ! i]\<rparr>"
  have h: "dropWhile load_blank (map_line km i @ ?r) = map_line km i @ ?r" "hd (map_line km i @ ?r) = CHR ''0''" "map_line km i \<noteq> []"
    by (simp_all add: map_line_def load_blank_def map_blank_def)
  have "keymap_loop (map_line km i @ ?r) m = keymap_loop (tl (line_end (NL # ?r))) ?m"
    using map_entry_line [of i ns ss km ?r] Cons.prems h
    by (subst keymap_loop.simps) (simp add: m Let_def NL_def)
  also have "tl (line_end (NL # ?r)) = ?r" by (simp add: line_end_def)
  finally show ?case using Cons.IH [of ?m] Cons.prems by (simp add: m read_keys_def)
qed

lemma update_all: "length xs = length ys \<Longrightarrow> n \<le> length ys \<Longrightarrow> fold (\<lambda>i xs. xs[i := ys ! i]) [0..<n] xs = take n ys @ drop n xs"
proof (induction n)
  case (Suc n)
  then have "(take n ys @ drop n xs)[n := ys ! n] = take (Suc n) ys @ drop (Suc n) xs"
    by (simp add: list_update_append take_Suc_conv_app_nth Cons_nth_drop_Suc [symmetric])
  with Suc show ?case by simp
qed simp

lemma read_keys_parts:
  "km_normal (read_keys km is m) = fold (\<lambda>i xs. xs[i := km_normal km ! i]) is (km_normal m)"
  "km_shift (read_keys km is m) = fold (\<lambda>i xs. xs[i := km_shift km ! i]) is (km_shift m)"
  unfolding read_keys_def by (induction "is" arbitrary: m) simp_all

text \<open>A key map written as a \<^verbatim>\<open>.map\<close> file, a line for each of the 128 keys, is read back unchanged, every
  character included.\<close>

lemma keymap_reads_back:
  assumes "length (km_normal km) = 128" and "length (km_shift km) = 128"
  shows "parse_keymap_data (concat (map (map_line km) [0..<128])) old = Some (0, km)"
proof -
  have e: "length (km_normal empty_keymap) = 128" "length (km_shift empty_keymap) = 128" by (simp_all add: empty_keymap_def)
  have "read_keys km [0..<128] empty_keymap = km"
    using update_all [of "km_normal empty_keymap" "km_normal km" 128] update_all [of "km_shift empty_keymap" "km_shift km" 128] assms e
    by (intro keymap.equality) (simp_all add: read_keys_parts del: upt_rec_numeral)
  moreover have "concat (map (map_line km) [0..<128]) \<noteq> []"
    by (simp add: upt_conv_Cons map_line_def del: upt_rec_numeral)
  moreover have "keymap_loop (concat (map (map_line km) [0..<128])) empty_keymap = Some (read_keys km [0..<128] empty_keymap)"
    by (rule keymap_loop_lines) (use e in \<open>auto simp del: upt_rec_numeral\<close>)
  ultimately show ?thesis by (simp add: parse_keymap_data_def del: upt_rec_numeral)
qed

lemma keymap_reads_back_witness: "parse_keymap_data (concat (map (map_line keymap_ex) [0..<128])) empty_keymap = Some (0, keymap_ex)"
  by (rule keymap_reads_back) (simp_all add: keymap_ex_def empty_keymap_def)

end
