(* ===== verification/Net.thy ===== *)
theory Net
  imports MemLib
begin

text \<open>
  The network layer: the choice of a card (\<^verbatim>\<open>emex/drivers/net/layers.c\<close>), Ethernet frames and the address resolution
  protocol (\<^verbatim>\<open>emex/kernel/net/eth.c\<close> and \<^verbatim>\<open>arp.c\<close>), the polling loop and the device file
  \<^verbatim>\<open>/dev/net/eth0\<close>. The drivers of the cards talk to hardware and are a parameter: a record of functions on the state of the
  card. Frames are built in the memory of the kernel, because \<open>memcpy\<close> decides what gets into them; \<open>eth_buf\<close> is the
  address of the static buffer of \<open>eth_send\<close>, and \<open>pk\<close> that of a packet on the stack.
\<close>

section \<open>The driver layer\<close>

record 'c nic =
  nic_init :: "'c \<Rightarrow> int \<times> 'c"
  nic_send :: "u8 list \<Rightarrow> 'c \<Rightarrow> int \<times> 'c"
  nic_recv :: "nat \<Rightarrow> 'c \<Rightarrow> u8 list \<times> 'c"
  nic_get_mac :: "'c \<Rightarrow> u8 list"

definition ETH_ALEN :: nat where "ETH_ALEN = 6"
definition ETH_HDR_LEN :: nat where "ETH_HDR_LEN = 14"
definition ETH_MAX_LEN :: nat where "ETH_MAX_LEN = 1500"
definition ETH_TYPE_ARP :: u16 where "ETH_TYPE_ARP = 0x0806"
definition ETH_TYPE_IPV4 :: u16 where "ETH_TYPE_IPV4 = 0x0800"
definition ARP_OP_REQUEST :: u16 where "ARP_OP_REQUEST = 1"
definition ARP_OP_REPLY :: u16 where "ARP_OP_REPLY = 2"
definition ARP_TABLE_SIZE :: nat where "ARP_TABLE_SIZE = 16"

record arp_entry =
  ae_ip :: "u8 list"
  ae_mac :: "u8 list"
  ae_valid :: bool

record 'c net =
  net_active :: "'c nic option"
  net_card :: 'c
  g_mac :: "u8 list"
  g_ip :: "u8 list"
  arp_table :: "arp_entry list"
  net_mem :: mem
  eth_buf :: u64

definition netdrivers_init :: "'c nic \<Rightarrow> 'c nic \<Rightarrow> 'c net \<Rightarrow> int \<times> 'c net" where
  "netdrivers_init e1000 rtl8139 s =
    (let (r, c) = nic_init e1000 (net_card s)
     in if r = 0 then (0, s\<lparr>net_active := Some e1000, net_card := c\<rparr>)
        else let (r, c) = nic_init rtl8139 c
        in if r = 0 then (0, s\<lparr>net_active := Some rtl8139, net_card := c\<rparr>) else (-1, s\<lparr>net_card := c\<rparr>))"

definition netdrivers_send :: "u8 list \<Rightarrow> 'c net \<Rightarrow> int \<times> 'c net" where
  "netdrivers_send frame s =
    (case net_active s of None \<Rightarrow> (-1, s)
     | Some n \<Rightarrow> let (r, c) = nic_send n frame (net_card s) in (r, s\<lparr>net_card := c\<rparr>))"

definition netdrivers_recv :: "nat \<Rightarrow> 'c net \<Rightarrow> u8 list \<times> 'c net" where
  "netdrivers_recv max_len s =
    (case net_active s of None \<Rightarrow> ([], s)
     | Some n \<Rightarrow> let (bs, c) = nic_recv n max_len (net_card s) in (bs, s\<lparr>net_card := c\<rparr>))"

definition netdrivers_get_mac :: "u8 list \<Rightarrow> 'c net \<Rightarrow> u8 list" where
  "netdrivers_get_mac mac s = (case net_active s of None \<Rightarrow> mac | Some n \<Rightarrow> nic_get_mac n (net_card s))"

definition netdrivers_available :: "'c net \<Rightarrow> bool" where
  "netdrivers_available s \<longleftrightarrow> net_active s \<noteq> None"

section \<open>Ethernet\<close>

definition htons16 :: "u16 \<Rightarrow> u16" where
  "htons16 v = push_bit 8 v OR drop_bit 8 v"

definition u16_bytes :: "u16 \<Rightarrow> u8 list" where
  "u16_bytes v = [ucast v, ucast (drop_bit 8 v)]"

definition bytes_u16 :: "u8 list \<Rightarrow> nat \<Rightarrow> u16" where
  "bytes_u16 bs i = ucast (bs ! i) OR push_bit 8 (ucast (bs ! (i + 1)))"

definition eth_init :: "'c net \<Rightarrow> 'c net" where
  "eth_init s = s\<lparr>g_mac := netdrivers_get_mac (g_mac s) s\<rparr>"

definition eth_get_mac :: "'c net \<Rightarrow> u8 list" where
  "eth_get_mac s = g_mac s"

definition poke :: "mem \<Rightarrow> u64 \<Rightarrow> u8 list \<Rightarrow> mem" where
  "poke m a bs = (\<lambda>x. if unat (x - a) < length bs then bs ! unat (x - a) else m x)"

definition peek :: "mem \<Rightarrow> u64 \<Rightarrow> nat \<Rightarrow> u8 list" where
  "peek m a n = map (\<lambda>i. m (a + word_of_nat i)) [0..<n]"

text \<open>\<open>payload = None\<close> is the NULL pointer.\<close>

definition eth_send :: "u8 list \<Rightarrow> u16 \<Rightarrow> u64 option \<Rightarrow> u16 \<Rightarrow> 'c net \<Rightarrow> int \<times> 'c net" where
  "eth_send dst type payload len s =
    (case payload of None \<Rightarrow> (-1, s)
     | Some p \<Rightarrow>
       if len = 0 \<or> ETH_MAX_LEN < unat len then (-1, s)
       else let m = poke (net_mem s) (eth_buf s) (dst @ g_mac s @ u16_bytes (htons16 type));
                m = memcpy m (eth_buf s + word_of_nat ETH_HDR_LEN) p (ucast len)
       in netdrivers_send (peek m (eth_buf s) (ETH_HDR_LEN + unat len)) (s\<lparr>net_mem := m\<rparr>))"

section \<open>The address table\<close>

definition arp_init :: "'c net \<Rightarrow> 'c net" where
  "arp_init s = s\<lparr>arp_table := replicate ARP_TABLE_SIZE \<lparr>ae_ip = replicate 4 0, ae_mac = replicate ETH_ALEN 0, ae_valid = False\<rparr>\<rparr>"

definition arp_slot :: "arp_entry list \<Rightarrow> u8 list \<Rightarrow> nat option" where
  "arp_slot t ip = find (\<lambda>i. ae_valid (t ! i) \<and> ae_ip (t ! i) = ip) [0..<ARP_TABLE_SIZE]"

definition arp_table_set :: "u8 list \<Rightarrow> u8 list \<Rightarrow> arp_entry list \<Rightarrow> arp_entry list" where
  "arp_table_set ip mac t =
    (case arp_slot t ip of
       Some i \<Rightarrow> t[i := (t ! i)\<lparr>ae_mac := mac\<rparr>]
     | None \<Rightarrow>
       case find (\<lambda>i. \<not> ae_valid (t ! i)) [0..<ARP_TABLE_SIZE] of
         Some i \<Rightarrow> t[i := \<lparr>ae_ip = ip, ae_mac = mac, ae_valid = True\<rparr>]
       | None \<Rightarrow> t[0 := (t ! 0)\<lparr>ae_ip := ip, ae_mac := mac\<rparr>])"

definition arp_lookup :: "u8 list \<Rightarrow> 'c net \<Rightarrow> u8 list option" where
  "arp_lookup ip s = map_option (\<lambda>i. ae_mac (arp_table s ! i)) (arp_slot (arp_table s) ip)"

section \<open>Packets\<close>

record arp_packet =
  ap_hw_type :: u16
  ap_proto :: u16
  ap_hw_len :: u8
  ap_proto_len :: u8
  ap_op :: u16
  ap_sender_mac :: "u8 list"
  ap_sender_ip :: "u8 list"
  ap_target_mac :: "u8 list"
  ap_target_ip :: "u8 list"

definition ARP_PACKET_SIZE :: nat where "ARP_PACKET_SIZE = 28"

definition arp_bytes :: "arp_packet \<Rightarrow> u8 list" where
  "arp_bytes p = u16_bytes (ap_hw_type p) @ u16_bytes (ap_proto p) @ [ap_hw_len p, ap_proto_len p] @ u16_bytes (ap_op p)
     @ ap_sender_mac p @ ap_sender_ip p @ ap_target_mac p @ ap_target_ip p"

definition arp_of :: "u8 list \<Rightarrow> arp_packet" where
  "arp_of bs = \<lparr>ap_hw_type = bytes_u16 bs 0, ap_proto = bytes_u16 bs 2, ap_hw_len = bs ! 4, ap_proto_len = bs ! 5, ap_op = bytes_u16 bs 6,
     ap_sender_mac = take 6 (drop 8 bs), ap_sender_ip = take 4 (drop 14 bs), ap_target_mac = take 6 (drop 18 bs), ap_target_ip = take 4 (drop 24 bs)\<rparr>"

definition arp_packet_for :: "u16 \<Rightarrow> u8 list \<Rightarrow> u8 list \<Rightarrow> 'c net \<Rightarrow> arp_packet" where
  "arp_packet_for op mac ip s = \<lparr>ap_hw_type = htons16 1, ap_proto = htons16 0x0800, ap_hw_len = word_of_nat ETH_ALEN, ap_proto_len = 4, ap_op = htons16 op,
     ap_sender_mac = eth_get_mac s, ap_sender_ip = g_ip s, ap_target_mac = mac, ap_target_ip = ip\<rparr>"

definition broadcast :: "u8 list" where
  "broadcast = replicate 6 0xFF"

definition arp_request :: "u64 \<Rightarrow> u8 list \<Rightarrow> 'c net \<Rightarrow> int \<times> 'c net" where
  "arp_request pk target_ip s =
    (let pkt = arp_packet_for ARP_OP_REQUEST (replicate ETH_ALEN 0) target_ip s
     in eth_send broadcast ETH_TYPE_ARP (Some pk) (word_of_nat ARP_PACKET_SIZE) (s\<lparr>net_mem := poke (net_mem s) pk (arp_bytes pkt)\<rparr>))"

definition arp_recv :: "u64 \<Rightarrow> u8 list \<Rightarrow> 'c net \<Rightarrow> 'c net" where
  "arp_recv pk raw s =
    (let pkt = arp_of raw
     in if length raw < ARP_PACKET_SIZE then s
        else if htons16 (ap_hw_type pkt) \<noteq> 1 \<or> htons16 (ap_proto pkt) \<noteq> 0x0800 \<or> ap_hw_len pkt \<noteq> word_of_nat ETH_ALEN \<or> ap_proto_len pkt \<noteq> 4 then s
        else let s = s\<lparr>arp_table := arp_table_set (ap_sender_ip pkt) (ap_sender_mac pkt) (arp_table s)\<rparr>
        in if htons16 (ap_op pkt) = ARP_OP_REQUEST \<and> ap_target_ip pkt = g_ip s then
             let reply = arp_packet_for ARP_OP_REPLY (ap_sender_mac pkt) (ap_sender_ip pkt) s
             in snd (eth_send (ap_sender_mac pkt) ETH_TYPE_ARP (Some pk) (word_of_nat ARP_PACKET_SIZE) (s\<lparr>net_mem := poke (net_mem s) pk (arp_bytes reply)\<rparr>))
           else s)"

definition eth_recv :: "u64 \<Rightarrow> u8 list \<Rightarrow> 'c net \<Rightarrow> 'c net" where
  "eth_recv pk raw s =
    (if length raw < ETH_HDR_LEN then s
     else if htons16 (bytes_u16 raw 12) = ETH_TYPE_ARP then arp_recv pk (drop ETH_HDR_LEN raw) s
     else s)"

section \<open>Polling and the device file\<close>

text \<open>The loop runs as long as the card has frames: None when it never ends.\<close>

partial_function (option) net_poll :: "u64 \<Rightarrow> 'c net \<Rightarrow> 'c net option" where
  "net_poll pk s =
    (let (bs, s1) = netdrivers_recv 1518 s in if bs = [] then Some s1 else net_poll pk (eth_recv pk bs s1))"

definition netstack_init :: "'c net \<Rightarrow> 'c net" where
  "netstack_init s = arp_init (eth_init s)"

definition eth0_init :: "'c net \<Rightarrow> int \<times> 'c net" where
  "eth0_init s = (0, netstack_init s)"

definition eth0_open :: "'c net \<Rightarrow> u64" where
  "eth0_open s = (if netdrivers_available s then 1 else 0)"

definition clamp16 :: "nat \<Rightarrow> nat" where
  "clamp16 n = (if 0xFFFF < n then 0xFFFF else n)"

definition eth0_read :: "nat \<Rightarrow> 'c net \<Rightarrow> u8 list \<times> 'c net" where
  "eth0_read count s = (if count = 0 then ([], s) else netdrivers_recv (clamp16 count) s)"

definition eth0_write :: "u8 list \<Rightarrow> 'c net \<Rightarrow> int \<times> 'c net" where
  "eth0_write buf s =
    (if buf = [] then (-1, s)
     else let (r, s1) = netdrivers_send (take (clamp16 (length buf)) buf) s
     in (if r = 0 then signed_take_bit 31 (int (length buf)) else -1, s1))"

section \<open>The table is a map\<close>

definition arp_ok :: "arp_entry list \<Rightarrow> bool" where
  "arp_ok t \<longleftrightarrow> length t = ARP_TABLE_SIZE
     \<and> (\<forall>i < ARP_TABLE_SIZE. \<forall>j < ARP_TABLE_SIZE. ae_valid (t ! i) \<and> ae_valid (t ! j) \<and> ae_ip (t ! i) = ae_ip (t ! j) \<longrightarrow> i = j)"

definition arp_map :: "arp_entry list \<Rightarrow> u8 list \<Rightarrow> u8 list option" where
  "arp_map t ip = map_option (\<lambda>i. ae_mac (t ! i)) (arp_slot t ip)"

definition arp_full :: "arp_entry list \<Rightarrow> bool" where
  "arp_full t \<longleftrightarrow> (\<forall>i < ARP_TABLE_SIZE. ae_valid (t ! i))"

lemma arp_slot_None: "arp_slot t ip = None \<longleftrightarrow> (\<forall>i < ARP_TABLE_SIZE. \<not> (ae_valid (t ! i) \<and> ae_ip (t ! i) = ip))"
  by (auto simp: arp_slot_def find_None_iff)

lemma arp_slot_SomeD: "arp_slot t ip = Some i \<Longrightarrow> i < ARP_TABLE_SIZE \<and> ae_valid (t ! i) \<and> ae_ip (t ! i) = ip"
  by (auto simp: arp_slot_def find_Some_iff)

lemma arp_slot_Some:
  assumes "arp_ok t"
  shows "arp_slot t ip = Some i \<longleftrightarrow> i < ARP_TABLE_SIZE \<and> ae_valid (t ! i) \<and> ae_ip (t ! i) = ip"
proof
  assume i: "i < ARP_TABLE_SIZE \<and> ae_valid (t ! i) \<and> ae_ip (t ! i) = ip"
  then obtain j where j: "arp_slot t ip = Some j" using arp_slot_None [of t ip] by (cases "arp_slot t ip") auto
  have "j = i" using assms i arp_slot_SomeD [OF j] unfolding arp_ok_def by blast
  with j show "arp_slot t ip = Some i" by simp
qed (rule arp_slot_SomeD)

lemma arp_map_Some: "arp_ok t \<Longrightarrow> arp_map t ip = Some mac \<longleftrightarrow> (\<exists>i < ARP_TABLE_SIZE. ae_valid (t ! i) \<and> ae_ip (t ! i) = ip \<and> ae_mac (t ! i) = mac)"
  by (auto simp: arp_map_def arp_slot_Some)

text \<open>A write to one slot, in the terms of the map: the slot gets a key that no other slot has.\<close>

lemma arp_write_slot:
  assumes t: "arp_ok t" and i: "i < ARP_TABLE_SIZE" and e: "ae_valid e"
    and other: "\<forall>j < ARP_TABLE_SIZE. j \<noteq> i \<longrightarrow> \<not> (ae_valid (t ! j) \<and> ae_ip (t ! j) = ae_ip e)"
  shows "arp_ok (t[i := e])"
    and "arp_map (t[i := e]) = (if ae_valid (t ! i) then (arp_map t)(ae_ip (t ! i) := None) else arp_map t)(ae_ip e \<mapsto> ae_mac e)"
proof -
  have l: "length t = ARP_TABLE_SIZE" using t by (simp add: arp_ok_def)
  show ok: "arp_ok (t[i := e])" using t i other by (auto simp: arp_ok_def nth_list_update)
  show "arp_map (t[i := e]) = (if ae_valid (t ! i) then (arp_map t)(ae_ip (t ! i) := None) else arp_map t)(ae_ip e \<mapsto> ae_mac e)"
  proof
    fix ip
    show "arp_map (t[i := e]) ip = ((if ae_valid (t ! i) then (arp_map t)(ae_ip (t ! i) := None) else arp_map t)(ae_ip e \<mapsto> ae_mac e)) ip"
    proof (cases "ip = ae_ip e")
      case True
      have "arp_map (t[i := e]) ip = Some (ae_mac e)" unfolding arp_map_Some [OF ok] using i e True l by (intro exI [of _ i]) simp
      then show ?thesis using True by simp
    next
      case False
      have "arp_map (t[i := e]) ip = Some mac \<longleftrightarrow> (if ae_valid (t ! i) then (arp_map t)(ae_ip (t ! i) := None) else arp_map t) ip = Some mac" for mac
        using False i e l t by (auto simp: arp_map_Some [OF ok] arp_map_Some [OF t] nth_list_update arp_ok_def)
      then show ?thesis using False by (metis fun_upd_other not_None_eq)
    qed
  qed
qed

text \<open>C29. The table of addresses is a partial map: learning an address changes exactly that key, as long as the key is
  known or a slot is free; when all sixteen slots are taken, the first one is given up.\<close>

theorem arp_table_map:
  assumes "arp_ok t"
  shows "arp_ok (arp_table_set ip mac t) \<and> arp_map (arp_table_set ip mac t) =
    (if arp_map t ip = None \<and> arp_full t then (arp_map t)(ae_ip (t ! 0) := None) else arp_map t)(ip \<mapsto> mac)"
proof (cases "arp_slot t ip")
  case (Some i)
  then have i: "i < ARP_TABLE_SIZE" "ae_valid (t ! i)" "ae_ip (t ! i) = ip" using arp_slot_Some [OF assms] by auto
  have "\<forall>j < ARP_TABLE_SIZE. j \<noteq> i \<longrightarrow> \<not> (ae_valid (t ! j) \<and> ae_ip (t ! j) = ip)"
    using assms i by (auto simp: arp_ok_def)
  then show ?thesis using arp_write_slot [OF assms i(1), of "(t ! i)\<lparr>ae_mac := mac\<rparr>"] i Some
    by (simp add: arp_table_set_def arp_map_def)
next
  case None
  then have n: "arp_map t ip = None" "\<forall>j < ARP_TABLE_SIZE. \<not> (ae_valid (t ! j) \<and> ae_ip (t ! j) = ip)"
    by (simp_all add: arp_map_def arp_slot_None)
  show ?thesis
  proof (cases "find (\<lambda>i. \<not> ae_valid (t ! i)) [0..<ARP_TABLE_SIZE]")
    case f: (Some i)
    then have i: "i < ARP_TABLE_SIZE" "\<not> ae_valid (t ! i)" by (auto simp: find_Some_iff)
    then have "\<not> arp_full t" by (auto simp: arp_full_def)
    then show ?thesis using arp_write_slot [OF assms i(1), of "\<lparr>ae_ip = ip, ae_mac = mac, ae_valid = True\<rparr>"] n None i f
      by (simp add: arp_table_set_def)
  next
    case f: None
    then have full: "arp_full t" by (auto simp: find_None_iff arp_full_def)
    have 0: "0 < ARP_TABLE_SIZE" by (simp add: ARP_TABLE_SIZE_def)
    have v: "ae_valid (t ! 0)" using full 0 by (simp add: arp_full_def)
    then show ?thesis using arp_write_slot [OF assms 0, of "(t ! 0)\<lparr>ae_ip := ip, ae_mac := mac\<rparr>"] n None f full
      by (simp add: arp_table_set_def)
  qed
qed

definition no_entry :: arp_entry where
  "no_entry = \<lparr>ae_ip = [0, 0, 0, 0], ae_mac = [0, 0, 0, 0, 0, 0], ae_valid = False\<rparr>"

theorem arp_table_map_witness:
  "arp_map (arp_table_set [10, 0, 2, 2] [1, 2, 3, 4, 5, 6] (replicate 16 no_entry)) [10, 0, 2, 2] = Some [1, 2, 3, 4, 5, 6]"
proof -
  have "arp_ok (replicate 16 no_entry)" by (auto simp: arp_ok_def no_entry_def ARP_TABLE_SIZE_def)
  from arp_table_map [OF this, of "[10, 0, 2, 2]" "[1, 2, 3, 4, 5, 6]"] show ?thesis by simp
qed

section \<open>Frames\<close>

lemma htons16_bytes: "bytes_u16 (u16_bytes (htons16 v) @ bs) 0 = htons16 v"
  by (rule bit_word_eqI) (auto simp: bytes_u16_def u16_bytes_def bit_simps)

lemma bytes_u16_bytes: "bytes_u16 (xs @ u16_bytes v @ bs) (length xs) = v"
  by (rule bit_word_eqI) (auto simp: bytes_u16_def u16_bytes_def nth_append bit_simps)

lemma htons16_htons16 [simp]: "htons16 (htons16 v) = v"
  by (rule bit_word_eqI) (auto simp: htons16_def bit_simps)

definition packet_ok :: "arp_packet \<Rightarrow> bool" where
  "packet_ok p \<longleftrightarrow> length (ap_sender_mac p) = 6 \<and> length (ap_sender_ip p) = 4 \<and> length (ap_target_mac p) = 6 \<and> length (ap_target_ip p) = 4"

lemma length_u16_bytes [simp]: "length (u16_bytes v) = 2"
  by (simp add: u16_bytes_def)

lemma length_arp_bytes: "packet_ok p \<Longrightarrow> length (arp_bytes p) = ARP_PACKET_SIZE"
  by (simp add: arp_bytes_def packet_ok_def ARP_PACKET_SIZE_def)

lemma arp_of_bytes:
  assumes "packet_ok p"
  shows "arp_of (arp_bytes p) = p"
proof -
  let ?h = "u16_bytes (ap_hw_type p)" and ?q = "u16_bytes (ap_proto p)" and ?o = "u16_bytes (ap_op p)"
  let ?r = "ap_sender_mac p @ ap_sender_ip p @ ap_target_mac p @ ap_target_ip p"
  have "bytes_u16 (arp_bytes p) 0 = ap_hw_type p" using bytes_u16_bytes [of "[]" "ap_hw_type p"] by (simp add: arp_bytes_def)
  moreover have "bytes_u16 (arp_bytes p) 2 = ap_proto p"
    using bytes_u16_bytes [of ?h "ap_proto p" "[ap_hw_len p, ap_proto_len p] @ ?o @ ?r"] by (simp add: arp_bytes_def)
  moreover have "bytes_u16 (arp_bytes p) 6 = ap_op p"
    using bytes_u16_bytes [of "?h @ ?q @ [ap_hw_len p, ap_proto_len p]" "ap_op p" ?r] by (simp add: arp_bytes_def)
  ultimately show ?thesis using assms
    by (intro arp_packet.equality) (simp_all add: arp_of_def arp_bytes_def packet_ok_def nth_append u16_bytes_def)
qed

text \<open>What a host needs to send: a card, an address of six bytes, one of four, and buffers that lie apart, the static one at a
  multiple of eight.\<close>

definition net_ok :: "u64 \<Rightarrow> 'c net \<Rightarrow> bool" where
  "net_ok pk s \<longleftrightarrow> length (g_mac s) = 6 \<and> length (g_ip s) = 4 \<and> unat (eth_buf s) mod 8 = 0 \<and> apart (eth_buf s) pk 64"

lemma far:
  assumes "apart d s n" and "i < n"
  shows "n \<le> unat (s + word_of_nat i - d)"
proof (cases "unat d + n \<le> unat s")
  case True
  then have "\<not> span d n (s + word_of_nat i)" using assms by (intro not_span_above) (auto simp: apart_def)
  then show ?thesis by (simp add: span_def)
next
  case False
  then have "\<not> span d n (s + word_of_nat i)" using assms by (intro not_span_below) (auto simp: apart_def)
  then show ?thesis by (simp add: span_def)
qed

lemma poke_at: "length bs \<le> 2 ^ 64 \<Longrightarrow> i < length bs \<Longrightarrow> poke m a bs (a + word_of_nat i) = bs ! i"
  by (simp add: poke_def unat_of_nat)

lemma nth_three: "length h = n \<Longrightarrow> (h @ xs @ ys) ! i = (if i < n then h ! i else if i < n + length xs then xs ! (i - n) else ys ! (i - n - length xs))"
  by (cases "i < n"; cases "i < n + length xs") (auto simp: nth_append)

lemma send_arp:
  assumes ok: "net_ok pk s" and dst: "length dst = 6" and p: "packet_ok p"
  defines "m \<equiv> poke (net_mem s) pk (arp_bytes p)"
  shows "\<exists>m'. eth_send dst ETH_TYPE_ARP (Some pk) (word_of_nat ARP_PACKET_SIZE) (s\<lparr>net_mem := m\<rparr>) =
    netdrivers_send (dst @ g_mac s @ [8, 6] @ take 26 (arp_bytes p) @ [m (eth_buf s + 40), m (eth_buf s + 41)]) (s\<lparr>net_mem := m'\<rparr>)"
proof -
  let ?b = "eth_buf s" and ?hdr = "dst @ g_mac s @ u16_bytes (htons16 ETH_TYPE_ARP)"
  have g: "length (g_mac s) = 6" "unat ?b mod 8 = 0" "apart ?b pk 64" using ok by (simp_all add: net_ok_def)
  have t: "u16_bytes (htons16 ETH_TYPE_ARP) = [8, 6]" by (simp add: u16_bytes_def htons16_def ETH_TYPE_ARP_def)
  have lh: "length ?hdr = 14" using dst g by simp
  have la: "length (arp_bytes p) = 28" using length_arp_bytes [OF p] by (simp add: ARP_PACKET_SIZE_def)
  have ub: "unat (?b + 14) = unat ?b + 14" using g(3) by (simp add: apart_def unat_word_ariths)
  let ?m1 = "poke m ?b ?hdr" and ?m2 = "memcpy (poke m ?b ?hdr) (?b + 14) pk 28"
  have "apart (?b + 14) pk 35" using g(3) ub by (auto simp: apart_def)
  then have "?m2 = blit ?m1 (?b + 14) pk (memcpy_len (?b + 14) 28)" using memcpy_eq [of "?b + 14" pk 28 ?m1] by simp
  moreover have "memcpy_len (?b + 14) 28 = 26"
  proof -
    have "unat (?b + 14) mod 8 = 6" unfolding ub using g(2) by presburger
    then show ?thesis by (simp add: memcpy_len_def)
  qed
  ultimately have m2: "?m2 = blit ?m1 (?b + 14) pk 26" by simp
  have pk_at: "?m1 (pk + word_of_nat i) = arp_bytes p ! i" if "i < 28" for i
  proof -
    have "64 \<le> unat (pk + word_of_nat i - ?b)" using far [OF g(3), of i] that by simp
    then have "?m1 (pk + word_of_nat i) = m (pk + word_of_nat i)" using lh by (simp add: poke_def)
    then show ?thesis using that la by (simp add: m_def poke_at)
  qed
  have "?m2 (?b + word_of_nat i) = (?hdr @ take 26 (arp_bytes p) @ [m (?b + 40), m (?b + 41)]) ! i" if i: "i < 42" for i
  proof -
    have u: "unat (word_of_nat i :: u64) = i" using i by (simp add: unat_of_nat)
    consider "i < 14" | "14 \<le> i" "i < 40" | "i = 40" | "i = 41" using i by linarith
    then show ?thesis
    proof cases
      case 1
      have "unat (?b + word_of_nat i - (?b + 14)) = i + 2 ^ 64 - 14"
        using 1 u by (simp add: unat_sub_if')
      then have "?m2 (?b + word_of_nat i) = ?m1 (?b + word_of_nat i)" using 1 unfolding m2 blit_def span_def by simp
      also have "\<dots> = ?hdr ! i" by (rule poke_at) (use 1 lh in simp_all)
      finally show ?thesis unfolding nth_three [OF lh] using 1 by simp
    next
      case 2
      have d: "?b + word_of_nat i - (?b + 14) = word_of_nat (i - 14)" using 2 by (simp add: of_nat_diff)
      have "unat (word_of_nat (i - 14) :: u64) = i - 14" using i by (simp add: unat_of_nat)
      moreover have "i - 14 < 26" using 2 by simp
      ultimately have "?m2 (?b + word_of_nat i) = ?m1 (pk + word_of_nat (i - 14))" using 2 unfolding m2 blit_def span_def d by simp
      then show ?thesis unfolding nth_three [OF lh] using 2 pk_at [of "i - 14"] la by simp
    next
      case 3
      then show ?thesis unfolding nth_three [OF lh] m2 blit_def span_def using lh la by (simp add: poke_def)
    next
      case 4
      then show ?thesis unfolding nth_three [OF lh] m2 blit_def span_def using lh la by (simp add: poke_def)
    qed
  qed
  then have "peek ?m2 ?b 42 = ?hdr @ take 26 (arp_bytes p) @ [m (?b + 40), m (?b + 41)]"
    using lh la by (intro nth_equalityI) (simp_all add: peek_def del: upt_rec_numeral)
  then show ?thesis using t
    by (intro exI [of _ ?m2]) (simp add: eth_send_def ARP_PACKET_SIZE_def ETH_MAX_LEN_def ETH_HDR_LEN_def Let_def)
qed

lemma apart_sym: "apart d s n \<longleftrightarrow> apart s d n"
  by (auto simp: apart_def)

lemma packet_for_ok: "net_ok pk s \<Longrightarrow> length mac = 6 \<Longrightarrow> length ip = 4 \<Longrightarrow> packet_ok (arp_packet_for op mac ip s)"
  by (simp add: packet_ok_def arp_packet_for_def net_ok_def eth_get_mac_def)

text \<open>The frame of a request: the last two bytes of the address asked for are those that lay in the buffer.\<close>

definition request_frame :: "u8 list \<Rightarrow> 'c net \<Rightarrow> u8 list" where
  "request_frame ip s = broadcast @ g_mac s @ [8, 6] @
     arp_bytes (arp_packet_for ARP_OP_REQUEST (replicate 6 0) (take 2 ip @ [net_mem s (eth_buf s + 40), net_mem s (eth_buf s + 41)]) s)"

lemma arp_request_frame:
  assumes ok: "net_ok pk s" and ip: "length ip = 4"
  shows "\<exists>m'. arp_request pk ip s = netdrivers_send (request_frame ip s) (s\<lparr>net_mem := m'\<rparr>)"
proof -
  let ?p = "arp_packet_for ARP_OP_REQUEST (replicate 6 0) ip s" and ?m = "net_mem s" and ?b = "eth_buf s"
  have p: "packet_ok ?p" using ok ip by (simp add: packet_for_ok)
  have la: "length (arp_bytes ?p) = 28" using length_arp_bytes [OF p] by (simp add: ARP_PACKET_SIZE_def)
  have a: "apart pk ?b 64" using ok by (simp add: net_ok_def apart_sym)
  have "poke ?m pk (arp_bytes ?p) (?b + 40) = ?m (?b + 40)" "poke ?m pk (arp_bytes ?p) (?b + 41) = ?m (?b + 41)"
    using far [OF a, of 40] far [OF a, of 41] la by (simp_all add: poke_def)
  moreover have "take 26 (arp_bytes ?p) @ xs = arp_bytes (arp_packet_for ARP_OP_REQUEST (replicate 6 0) (take 2 ip @ xs) s)" for xs
    using ok ip by (simp add: arp_bytes_def arp_packet_for_def net_ok_def eth_get_mac_def)
  ultimately show ?thesis using send_arp [OF ok _ p, of broadcast]
    by (simp add: arp_request_def broadcast_def request_frame_def ETH_ALEN_def)
qed

lemma eth_send_table: "arp_table (snd (eth_send d t q l s)) = arp_table s"
  by (auto simp: eth_send_def netdrivers_send_def Let_def split: option.splits prod.splits)

lemma arp_recv_packet:
  assumes p: "packet_ok p" and h: "htons16 (ap_hw_type p) = 1" "htons16 (ap_proto p) = 0x0800" "ap_hw_len p = 6" "ap_proto_len p = 4"
  shows "arp_table (arp_recv pk (arp_bytes p) s) = arp_table_set (ap_sender_ip p) (ap_sender_mac p) (arp_table s)"
    and "ap_target_ip p \<noteq> g_ip s \<Longrightarrow> net_card (arp_recv pk (arp_bytes p) s) = net_card s"
proof -
  show "arp_table (arp_recv pk (arp_bytes p) s) = arp_table_set (ap_sender_ip p) (ap_sender_mac p) (arp_table s)"
    using p h length_arp_bytes [OF p] by (simp add: arp_recv_def arp_of_bytes ETH_ALEN_def Let_def eth_send_table)
  show "net_card (arp_recv pk (arp_bytes p) s) = net_card s" if "ap_target_ip p \<noteq> g_ip s"
    using that p h length_arp_bytes [OF p] by (simp add: arp_recv_def arp_of_bytes ETH_ALEN_def Let_def)
qed

text \<open>A host that asks for an address is learned by a host that has it, when that one receives the request, but it gets no
  answer: \<open>memcpy\<close> to the buffer of \<open>eth_send\<close> loses the last two bytes of the packet, which are half of the address asked for, and the frame
  has whatever lay in the buffer there, which is taken to be something else.\<close>

lemma arp_request_unanswered:
  assumes "net_ok pk a" and "length ip = 4" and "net_active a = Some nic"
    and "arp_ok (arp_table b)" and "g_ip b = ip" and "drop 2 ip \<noteq> [net_mem a (eth_buf a + 40), net_mem a (eth_buf a + 41)]"
  shows "\<exists>frame m'. arp_request pk ip a = (let (r, c) = nic_send nic frame (net_card a) in (r, a\<lparr>net_mem := m', net_card := c\<rparr>))
    \<and> arp_lookup (g_ip a) (eth_recv pk' frame b) = Some (g_mac a) \<and> net_card (eth_recv pk' frame b) = net_card b"
proof -
  let ?ip = "take 2 ip @ [net_mem a (eth_buf a + 40), net_mem a (eth_buf a + 41)]"
  let ?p = "arp_packet_for ARP_OP_REQUEST (replicate 6 0) ?ip a" and ?f = "request_frame ip a"
  have p: "packet_ok ?p" using assms(1,2) by (intro packet_for_ok) simp_all
  have h: "htons16 (ap_hw_type ?p) = 1" "htons16 (ap_proto ?p) = 0x0800" "ap_hw_len ?p = 6" "ap_proto_len ?p = 4"
    "ap_sender_ip ?p = g_ip a" "ap_sender_mac ?p = g_mac a" "ap_target_ip ?p = ?ip"
    by (simp_all add: arp_packet_for_def ETH_ALEN_def eth_get_mac_def)
  have "?ip \<noteq> g_ip b"
  proof
    assume "?ip = g_ip b"
    then have "drop 2 ?ip = drop 2 ip" using assms(5) by simp
    then show False using assms(2,6) by simp
  qed
  note r = arp_recv_packet [OF p h(1-4), where pk = pk' and s = b]
  have g: "length (g_mac a) = 6" using assms(1) by (simp add: net_ok_def)
  have "bytes_u16 ?f 12 = htons16 ETH_TYPE_ARP"
    using g by (simp add: request_frame_def broadcast_def bytes_u16_def nth_append htons16_def ETH_TYPE_ARP_def)
  moreover have "drop 14 ?f = arp_bytes ?p" "14 \<le> length ?f" using g by (simp_all add: request_frame_def broadcast_def)
  ultimately have e: "eth_recv pk' ?f b = arp_recv pk' (arp_bytes ?p) b" by (simp add: eth_recv_def ETH_HDR_LEN_def)
  have "arp_map (arp_table (eth_recv pk' ?f b)) (g_ip a) = Some (g_mac a)"
    unfolding e r(1) h using arp_table_map [OF assms(4)] by simp
  moreover have "net_card (eth_recv pk' ?f b) = net_card b" unfolding e using r(2) h \<open>?ip \<noteq> g_ip b\<close> by simp
  moreover obtain m' where "arp_request pk ip a = netdrivers_send ?f (a\<lparr>net_mem := m'\<rparr>)" using arp_request_frame [OF assms(1,2)] by blast
  ultimately show ?thesis using assms(3)
    by (intro exI [of _ ?f] exI [of _ m']) (simp add: arp_lookup_def arp_map_def netdrivers_send_def split: prod.splits)
qed

text \<open>A card that records the frames it is given.\<close>

definition nic_ex :: "u8 list list nic" where
  "nic_ex = \<lparr>nic_init = (\<lambda>c. (0, c)), nic_send = (\<lambda>f c. (0, c @ [f])), nic_recv = (\<lambda>n c. ([], c)), nic_get_mac = (\<lambda>c. [2, 0, 0, 0, 0, 1])\<rparr>"

definition net_ex :: "u8 list \<Rightarrow> u8 list \<Rightarrow> u8 list list net" where
  "net_ex mac ip = arp_init \<lparr>net_active = Some nic_ex, net_card = [], g_mac = mac, g_ip = ip, arp_table = [], net_mem = (\<lambda>_. 0), eth_buf = 0x1000\<rparr>"

lemma arp_request_unanswered_witness:
  "\<exists>frame. net_card (snd (arp_request 0x2000 [10, 0, 2, 2] (net_ex [2, 0, 0, 0, 0, 1] [10, 0, 2, 15]))) = [frame]
    \<and> arp_lookup [10, 0, 2, 15] (eth_recv 0x2000 frame (net_ex [2, 0, 0, 0, 0, 2] [10, 0, 2, 2])) = Some [2, 0, 0, 0, 0, 1]
    \<and> net_card (eth_recv 0x2000 frame (net_ex [2, 0, 0, 0, 0, 2] [10, 0, 2, 2])) = []"
proof -
  let ?a = "net_ex [2, 0, 0, 0, 0, 1] [10, 0, 2, 15]" and ?b = "net_ex [2, 0, 0, 0, 0, 2] [10, 0, 2, 2]"
  have "net_ok 0x2000 ?a" by (simp add: net_ok_def net_ex_def arp_init_def apart_def)
  moreover have "arp_ok (arp_table ?b)" by (auto simp: arp_ok_def net_ex_def arp_init_def)
  moreover have "drop 2 [10, 0, 2, 2] \<noteq> [net_mem ?a (eth_buf ?a + 40), net_mem ?a (eth_buf ?a + 41)]" by (simp add: net_ex_def arp_init_def)
  moreover have "net_active ?a = Some nic_ex" "g_ip ?b = [10, 0, 2, 2]" "g_ip ?a = [10, 0, 2, 15]" "g_mac ?a = [2, 0, 0, 0, 0, 1]"
    "net_card ?a = []" "net_card ?b = []"
    by (simp_all add: net_ex_def arp_init_def)
  ultimately show ?thesis using arp_request_unanswered [of "0x2000" ?a "[10, 0, 2, 2]" nic_ex ?b "0x2000"]
    by (auto simp: nic_ex_def)
qed

text \<open>Nothing calls \<open>netdrivers_init\<close>; as long as nobody does, no frame is sent and none received.\<close>

lemma no_driver: "net_active s = None \<Longrightarrow> netdrivers_send f s = (-1, s) \<and> netdrivers_recv n s = ([], s) \<and> eth0_open s = 0 \<and> net_poll pk s = Some s"
  by (simp add: netdrivers_send_def netdrivers_recv_def eth0_open_def netdrivers_available_def net_poll.simps)

end
