(* ===== verification/LibcText.thy ===== *)
theory LibcText
  imports CString MemLib "HOL-Library.Multiset"
begin

text \<open>
  The C library of the programs, \<^verbatim>\<open>user/libc/src\<close>: memory and strings (\<^verbatim>\<open>string.c\<close>), numbers, random numbers and sorting
  (\<^verbatim>\<open>stdlib.c\<close>) and formatted output to a string (\<^verbatim>\<open>stdio.c\<close>). Strings are lists of characters up to the NUL; a pointer into a
  string is the rest of it. The names have the prefix \<open>c_\<close> where the kernel or HOL has the same. Floating point and what is
  implemented in assembler are left out.
\<close>

section \<open>Memory\<close>

fun c_memcpy_loop :: "nat \<Rightarrow> mem \<Rightarrow> u64 \<Rightarrow> u64 \<Rightarrow> mem" where
  "c_memcpy_loop 0 m d s = m"
| "c_memcpy_loop (Suc n) m d s = c_memcpy_loop n (m(d := m s)) (d + 1) (s + 1)"

definition c_memcpy :: "mem \<Rightarrow> u64 \<Rightarrow> u64 \<Rightarrow> nat \<Rightarrow> mem" where
  "c_memcpy m dst src n = c_memcpy_loop n m dst src"

fun c_memmove_down :: "nat \<Rightarrow> mem \<Rightarrow> u64 \<Rightarrow> u64 \<Rightarrow> mem" where
  "c_memmove_down 0 m d s = m"
| "c_memmove_down (Suc i) m d s = c_memmove_down i (m(d + word_of_nat i := m (s + word_of_nat i))) d s"

definition c_memmove :: "mem \<Rightarrow> u64 \<Rightarrow> u64 \<Rightarrow> nat \<Rightarrow> mem" where
  "c_memmove m dst src n = (if dst < src then c_memcpy_loop n m dst src else c_memmove_down n m dst src)"

definition c_memset :: "mem \<Rightarrow> u64 \<Rightarrow> u8 \<Rightarrow> nat \<Rightarrow> mem" where
  "c_memset m s c n = fold (\<lambda>i m. m(s + word_of_nat i := c)) [0..<n] m"

fun c_memcmp :: "mem \<Rightarrow> u64 \<Rightarrow> u64 \<Rightarrow> nat \<Rightarrow> int" where
  "c_memcmp m a b 0 = 0"
| "c_memcmp m a b (Suc n) = (if m a \<noteq> m b then uint (m a) - uint (m b) else c_memcmp m (a + 1) (b + 1) n)"

section \<open>Strings\<close>

fun c_strlen :: "string \<Rightarrow> nat" where
  "c_strlen [] = 0"
| "c_strlen (c # s) = Suc (c_strlen s)"

definition c_strcpy :: "string \<Rightarrow> string" where "c_strcpy src = src"

fun c_strncpy :: "string \<Rightarrow> nat \<Rightarrow> string" where
  "c_strncpy src 0 = []"
| "c_strncpy [] (Suc n) = NUL # c_strncpy [] n"
| "c_strncpy (c # src) (Suc n) = c # c_strncpy src n"

definition c_strcat :: "string \<Rightarrow> string \<Rightarrow> string" where "c_strcat dst src = dst @ src"
definition c_strncat :: "string \<Rightarrow> string \<Rightarrow> nat \<Rightarrow> string" where "c_strncat dst src n = dst @ take n src"

definition ucode :: "char \<Rightarrow> int" where "ucode c = of_char c"

fun c_strcmp :: "string \<Rightarrow> string \<Rightarrow> int" where
  "c_strcmp (x # a) (y # b) = (if x = y then c_strcmp a b else ucode x - ucode y)"
| "c_strcmp a b = ucode (deref a) - ucode (deref b)"

fun c_strncmp :: "string \<Rightarrow> string \<Rightarrow> nat \<Rightarrow> int" where
  "c_strncmp a b 0 = 0"
| "c_strncmp a b (Suc n) =
    (if deref a \<noteq> deref b then ucode (deref a) - ucode (deref b) else if a = [] then 0 else c_strncmp (tl a) (tl b) n)"

fun c_strchr :: "string \<Rightarrow> char \<Rightarrow> string option" where
  "c_strchr [] c = None"
| "c_strchr (x # s) c = (if x = c then Some (x # s) else c_strchr s c)"

fun c_strrchr_loop :: "string \<Rightarrow> char \<Rightarrow> string option \<Rightarrow> string option" where
  "c_strrchr_loop [] c r = r"
| "c_strrchr_loop (x # s) c r = c_strrchr_loop s c (if x = c then Some (x # s) else r)"

definition c_strrchr :: "string \<Rightarrow> char \<Rightarrow> string option" where "c_strrchr s c = c_strrchr_loop s c None"

fun c_strstr_loop :: "string \<Rightarrow> string \<Rightarrow> string option" where
  "c_strstr_loop [] needle = None"
| "c_strstr_loop (h # hay) needle =
    (if h = hd needle \<and> c_strncmp (h # hay) needle (c_strlen needle) = 0 then Some (h # hay) else c_strstr_loop hay needle)"

definition c_strstr :: "string \<Rightarrow> string \<Rightarrow> string option" where
  "c_strstr hay needle = (if needle = [] then Some hay else c_strstr_loop hay needle)"

text \<open>The state is the static pointer, \<open>None\<close> for NULL.\<close>

definition c_strtok :: "string option \<Rightarrow> string \<Rightarrow> string option \<Rightarrow> string option \<times> string option" where
  "c_strtok s delim tok =
    (case (case s of Some x \<Rightarrow> Some x | None \<Rightarrow> tok) of None \<Rightarrow> (None, None)
     | Some t \<Rightarrow>
       let t = dropWhile (\<lambda>c. c_strchr delim c \<noteq> None) t
       in if t = [] then (None, None)
          else let r = dropWhile (\<lambda>c. c_strchr delim c = None) t
          in (Some (takeWhile (\<lambda>c. c_strchr delim c = None) t), if r \<noteq> [] then Some (tl r) else None))"

definition lower :: "char \<Rightarrow> int" where
  "lower c = (if chr_in 65 90 c then ucode c + 32 else signed_take_bit 7 (ucode c))"

fun c_strcasecmp :: "string \<Rightarrow> string \<Rightarrow> int" where
  "c_strcasecmp (x # a) (y # b) = (if lower x \<noteq> lower y then lower x - lower y else c_strcasecmp a b)"
| "c_strcasecmp a b = ucode (deref a) - ucode (deref b)"

fun c_strncasecmp :: "string \<Rightarrow> string \<Rightarrow> nat \<Rightarrow> int" where
  "c_strncasecmp a b 0 = 0"
| "c_strncasecmp a b (Suc n) =
    (if lower (deref a) \<noteq> lower (deref b) then lower (deref a) - lower (deref b) else if a = [] then 0 else c_strncasecmp (tl a) (tl b) n)"

section \<open>Numbers\<close>

definition s64 :: "int \<Rightarrow> int" where
  "s64 x = (x + 2 ^ 63) mod 2 ^ 64 - 2 ^ 63"

definition digit_of :: "char \<Rightarrow> int option" where
  "digit_of c = (if chr_in 48 57 c then Some (of_char c - 48) else if chr_in 97 122 c then Some (of_char c - 87)
    else if chr_in 65 90 c then Some (of_char c - 55) else None)"

fun strtol_loop :: "string \<Rightarrow> int \<Rightarrow> int \<Rightarrow> int \<times> string" where
  "strtol_loop [] base v = (v, [])"
| "strtol_loop (c # s) base v =
    (case digit_of c of None \<Rightarrow> (v, c # s)
     | Some d \<Rightarrow> if d \<ge> base then (v, c # s) else strtol_loop s base (s64 (v * base + d)))"

definition hex_prefix :: "string \<Rightarrow> bool" where
  "hex_prefix s \<longleftrightarrow> 2 \<le> length s \<and> s ! 0 = CHR ''0'' \<and> (s ! 1 = CHR ''x'' \<or> s ! 1 = CHR ''X'')"

text \<open>The value and the rest of the string.\<close>

definition c_strtol :: "string \<Rightarrow> int \<Rightarrow> int \<times> string" where
  "c_strtol s base =
    (let s = dropWhile (\<lambda>c. c = CHR '' '') s;
         neg = (deref s = CHR ''-'');
         s = (if neg \<or> deref s = CHR ''+'' then tl s else s);
         (base, s) = (if base = 0 then
                        (if hex_prefix s then (16, drop 2 s) else if deref s = CHR ''0'' then (8, s) else (10, s))
                      else if base = 16 \<and> hex_prefix s then (base, drop 2 s) else (base, s));
         (v, r) = strtol_loop s base 0
     in (if neg then s64 (- v) else v, r))"

definition c_atoi :: "string \<Rightarrow> int" where "c_atoi s = s32 (fst (c_strtol s 10))"
definition c_atol :: "string \<Rightarrow> int" where "c_atol s = fst (c_strtol s 10)"
definition c_abs :: "int \<Rightarrow> int" where "c_abs x = (if x < 0 then s32 (- x) else x)"
definition c_labs :: "int \<Rightarrow> int" where "c_labs x = (if x < 0 then s64 (- x) else x)"

definition c_srand :: "u32 \<Rightarrow> u32 \<Rightarrow> u32" where "c_srand seed rng_state = seed"

definition c_rand :: "u32 \<Rightarrow> nat \<times> u32" where
  "c_rand rng_state = (let r = rng_state * 1103515245 + 12345 in (unat (drop_bit 16 r AND 0x7FFF), r))"

section \<open>Sorting\<close>

text \<open>The array as a list of its elements; \<open>tmp\<close> has room for 256 bytes.\<close>

fun qsort_shift :: "('a \<Rightarrow> 'a \<Rightarrow> int) \<Rightarrow> 'a \<Rightarrow> nat \<Rightarrow> 'a list \<Rightarrow> nat \<times> 'a list" where
  "qsort_shift cmp tmp 0 b = (0, b)"
| "qsort_shift cmp tmp (Suc j) b = (if cmp (b ! j) tmp > 0 then qsort_shift cmp tmp j (b[Suc j := b ! j]) else (Suc j, b))"

definition qsort_step :: "('a \<Rightarrow> 'a \<Rightarrow> int) \<Rightarrow> nat \<Rightarrow> 'a list \<Rightarrow> 'a list" where
  "qsort_step cmp i b = (let tmp = b ! i; (j, b) = qsort_shift cmp tmp i b in b[j := tmp])"

definition c_qsort :: "nat \<Rightarrow> ('a \<Rightarrow> 'a \<Rightarrow> int) \<Rightarrow> 'a list \<Rightarrow> 'a list" where
  "c_qsort sz cmp b = (if 256 < sz then b else fold (qsort_step cmp) [1..<length b] b)"

section \<open>Formatted output\<close>

text \<open>The arguments as they are passed: 32 bits, 64 bits, a string or NULL, a pointer. An argument that is missing or of another kind is
  undefined.\<close>

datatype va = AInt u32 | ALong u64 | AStr "string option" | APtr u64

text \<open>\<open>buf\<close>, \<open>size\<close> and \<open>pos\<close>: \<open>None\<close> is the NULL pointer.\<close>

record out =
  o_buf :: "string option"
  o_size :: nat
  o_pos :: nat

definition emit :: "char \<Rightarrow> out \<Rightarrow> out" where
  "emit c o' = (case o_buf o' of
      Some b \<Rightarrow> if o_pos o' + 1 < o_size o' then o'\<lparr>o_buf := Some (b[o_pos o' := c]), o_pos := o_pos o' + 1\<rparr> else o'\<lparr>o_pos := o_pos o' + 1\<rparr>
    | None \<Rightarrow> o'\<lparr>o_pos := o_pos o' + 1\<rparr>)"

definition emits :: "string \<Rightarrow> out \<Rightarrow> out" where
  "emits cs o' = fold emit cs o'"

fun uitoa_rev :: "nat \<Rightarrow> nat \<Rightarrow> string" where
  "uitoa_rev base v = (if v = 0 \<or> base \<le> 1 then [] else ''0123456789abcdef'' ! (v mod base) # uitoa_rev base (v div base))"

declare uitoa_rev.simps [simp del]

definition uitoa :: "nat \<Rightarrow> nat \<Rightarrow> string" where
  "uitoa v base = (if v = 0 then ''0'' else rev (uitoa_rev base v))"

definition padded :: "char \<Rightarrow> int \<Rightarrow> string \<Rightarrow> out \<Rightarrow> out" where
  "padded pad width tmp o' = emits tmp (emits (replicate (nat (width - int (length tmp))) pad) o')"

fun read_width :: "string \<Rightarrow> int \<Rightarrow> int \<times> string" where
  "read_width [] w = (w, [])"
| "read_width (c # s) w = (if chr_in 49 57 c then read_width s (s32 (w * 10 + (of_char c - 48))) else (w, c # s))"

lemma read_width_shorter: "length (snd (read_width s w)) \<le> length s"
  by (induction s w rule: read_width.induct) auto

text \<open>Between the per cent sign and the conversion: padding, width, length, and the rest.\<close>

definition read_spec :: "string \<Rightarrow> char \<times> int \<times> bool \<times> string" where
  "read_spec s =
    (let (pad, s) = (if deref s = CHR ''0'' then (CHR ''0'', tl s) else (CHR '' '', s));
         (width, s) = read_width s 0;
         (long, s) = (if deref s = CHR ''l'' then (True, tl s) else (False, s))
     in (pad, width, long, s))"

lemma read_spec_shorter: "read_spec s = (pad, width, long, r) \<Longrightarrow> length r \<le> length s"
  using read_width_shorter [of s 0] read_width_shorter [of "tl s" 0]
  by (auto simp: read_spec_def Let_def split: prod.splits if_splits)

definition arg_signed :: "bool \<Rightarrow> va list \<Rightarrow> (int \<times> va list) option" where
  "arg_signed long args = (case args of AInt w # as \<Rightarrow> if long then None else Some (sint w, as)
     | ALong w # as \<Rightarrow> if long then Some (sint w, as) else None | _ \<Rightarrow> None)"

definition arg_unsigned :: "bool \<Rightarrow> va list \<Rightarrow> (nat \<times> va list) option" where
  "arg_unsigned long args = (case args of AInt w # as \<Rightarrow> if long then None else Some (unat w, as)
     | ALong w # as \<Rightarrow> if long then Some (unat w, as) else None | _ \<Rightarrow> None)"

definition convert :: "char \<Rightarrow> char \<Rightarrow> int \<Rightarrow> bool \<Rightarrow> va list \<Rightarrow> out \<Rightarrow> (va list \<times> out) option" where
  "convert conv pad width long args o' =
    (if conv = CHR ''s'' then
       (case args of AStr (Some s) # as \<Rightarrow> Some (as, emits s o') | AStr None # as \<Rightarrow> Some (as, emits ''(null)'' o') | _ \<Rightarrow> None)
     else if conv = CHR ''d'' then
       (case arg_signed long args of None \<Rightarrow> None
        | Some (v, as) \<Rightarrow> Some (as, padded pad width (uitoa (nat \<bar>v\<bar>) 10) (if v < 0 then emit (CHR ''-'') o' else o')))
     else if conv = CHR ''u'' then map_option (\<lambda>(v, as). (as, padded pad width (uitoa v 10) o')) (arg_unsigned long args)
     else if conv = CHR ''x'' then map_option (\<lambda>(v, as). (as, padded pad width (uitoa v 16) o')) (arg_unsigned long args)
     else if conv = CHR ''p'' then
       (case args of APtr v # as \<Rightarrow> Some (as, emits (uitoa (unat v) 16) (emits ''0x'' o')) | _ \<Rightarrow> None)
     else if conv = CHR ''c'' then
       (case args of AInt w # as \<Rightarrow> Some (as, emit (char_of (unat w)) o') | _ \<Rightarrow> None)
     else if conv = CHR ''%'' then Some (args, emit (CHR ''%'') o')
     else Some (args, emit conv (emits (if long then ''l'' else []) (emit (CHR ''%'') o'))))"

text \<open>When the format ends before the conversion, the loop runs on behind its end: undefined.\<close>

function format_loop :: "string \<Rightarrow> va list \<Rightarrow> out \<Rightarrow> out option" where
  "format_loop [] args o' = Some o'"
| "format_loop (c # s) args o' =
    (if c \<noteq> CHR ''%'' then format_loop s args (emit c o')
     else if s = [] then Some o'
     else case read_spec s of (pad, width, long, r) \<Rightarrow>
       case r of [] \<Rightarrow> None
       | conv # rest \<Rightarrow> (case convert conv pad width long args o' of None \<Rightarrow> None | Some (as, o2) \<Rightarrow> format_loop rest as o2))"
  by pat_completeness auto
termination
  by (relation "measure (\<lambda>(s, args, o'). length s)") (auto dest!: sym [of _ "read_spec _"] read_spec_shorter)

definition c_vsnprintf :: "string option \<Rightarrow> nat \<Rightarrow> string \<Rightarrow> va list \<Rightarrow> (int \<times> string option) option" where
  "c_vsnprintf buf sz fmt args =
    (case format_loop fmt args \<lparr>o_buf = buf, o_size = sz, o_pos = 0\<rparr> of None \<Rightarrow> None
     | Some o' \<Rightarrow> Some (s32 (int (o_pos o')),
         (case o_buf o' of None \<Rightarrow> None
          | Some b \<Rightarrow> if 0 < sz then Some (b[(if o_pos o' < sz then o_pos o' else sz - 1) := NUL]) else Some b)))"

section \<open>Memory: what the loops do\<close>

lemma c_memcpy_loop_from:
  "up_ok d s (k + n) \<Longrightarrow> c_memcpy_loop n (blit m d s k) (d + word_of_nat k) (s + word_of_nat k) = blit m d s (k + n)"
proof (induction n arbitrary: k)
  case (Suc n)
  have "blit (blit m d s k) (d + word_of_nat k) (s + word_of_nat k) 1 = blit m d s (k + 1)"
    using Suc.prems by (intro blit_up) (auto elim: up_ok_mono)
  then show ?case unfolding c_memcpy_loop.simps blit_1 using Suc.IH [of "k + 1"] Suc.prems by (simp add: add.commute add.left_commute)
qed simp

lemma c_memcpy_loop_blit: "up_ok d s n \<Longrightarrow> c_memcpy_loop n m d s = blit m d s n"
  using c_memcpy_loop_from [of d s 0 n m] by simp

lemma c_memmove_down_from:
  "down_ok d s (n + k) \<Longrightarrow> c_memmove_down n (blit m (d + word_of_nat n) (s + word_of_nat n) k) d s = blit m d s (n + k)"
proof (induction n arbitrary: k)
  case (Suc n)
  have "blit (blit m (d + word_of_nat (Suc n)) (s + word_of_nat (Suc n)) k) (d + word_of_nat n) (s + word_of_nat n) 1
    = blit m (d + word_of_nat n) (s + word_of_nat n) (1 + k)"
    using blit_step [of d s n 1 k m] Suc.prems by simp
  then show ?case unfolding c_memmove_down.simps blit_1 using Suc.IH [of "1 + k"] Suc.prems by simp
qed simp

lemma c_memmove_down_blit: "down_ok d s n \<Longrightarrow> c_memmove_down n m d s = blit m d s n"
  using c_memmove_down_from [of d s n 0 m] by simp

section \<open>Sorting: an insertion into a reversed prefix\<close>

fun put_in :: "('a \<Rightarrow> 'a \<Rightarrow> int) \<Rightarrow> 'a \<Rightarrow> 'a list \<Rightarrow> 'a list" where
  "put_in cmp t [] = [t]"
| "put_in cmp t (y # ys) = (if cmp y t > 0 then y # put_in cmp t ys else t # y # ys)"

lemma qsort_shift_put_in:
  "(case qsort_shift cmp t (length ys) (rev ys @ h # zs) of (j, b) \<Rightarrow> b[j := t]) = rev (put_in cmp t ys) @ zs"
proof (induction ys arbitrary: h zs)
  case (Cons y ys)
  have "(rev (y # ys) @ h # zs) ! length ys = y"
    "(rev (y # ys) @ h # zs)[Suc (length ys) := y] = rev ys @ y # y # zs" by (simp_all add: nth_append list_update_append)
  then show ?case using Cons [of y "y # zs"] by (simp add: nth_append list_update_append)
qed simp

lemma qsort_step_put_in: "qsort_step cmp (length p) (rev p @ x # r) = rev (put_in cmp x p) @ r"
  using qsort_shift_put_in [where cmp = cmp and t = x and ys = p and h = x and zs = r] by (simp add: qsort_step_def nth_append split: prod.splits)

lemma length_put_in [simp]: "length (put_in cmp t ys) = Suc (length ys)"
  by (induction ys) auto

lemma fold_qsort_step:
  "fold (qsort_step cmp) [length p..<length p + length r] (rev p @ r) = rev (fold (put_in cmp) r p)"
proof (induction r arbitrary: p)
  case (Cons x r)
  have "[length p..<length p + length (x # r)] = length p # [Suc (length p)..<length p + length (x # r)]" by (subst upt_conv_Cons) auto
  then show ?case using Cons [of "put_in cmp x p"] by (simp add: qsort_step_put_in)
qed simp

lemma c_qsort_put_in: "sz \<le> 256 \<Longrightarrow> c_qsort sz cmp b = rev (fold (put_in cmp) b [])"
proof (cases b)
  case (Cons x r)
  assume "sz \<le> 256"
  then show ?thesis using fold_qsort_step [of cmp "[x]" r] Cons by (simp add: c_qsort_def)
qed (simp add: c_qsort_def)

lemma mset_put_in: "mset (put_in cmp t ys) = add_mset t (mset ys)"
  by (induction ys) auto

lemma set_put_in [simp]: "set (put_in cmp t ys) = insert t (set ys)"
  by (induction ys) auto

text \<open>\<open>cmp\<close> says that its first argument is the greater one exactly when its key is.\<close>

definition compares_key :: "('a \<Rightarrow> 'a \<Rightarrow> int) \<Rightarrow> ('a \<Rightarrow> 'k :: linorder) \<Rightarrow> bool" where
  "compares_key cmp key \<longleftrightarrow> (\<forall>x y. cmp x y > 0 \<longleftrightarrow> key y < key x)"

lemma filter_put_in:
  "compares_key cmp key \<Longrightarrow> filter (\<lambda>x. k = key x) (put_in cmp t ys)
   = (if k = key t then t # filter (\<lambda>x. k = key x) ys else filter (\<lambda>x. k = key x) ys)"
  by (induction ys) (auto simp: compares_key_def)

lemma desc_put_in:
  "compares_key cmp key \<Longrightarrow> sorted_wrt (\<lambda>a b. key b \<le> key a) ys \<Longrightarrow> sorted_wrt (\<lambda>a b. key b \<le> key a) (put_in cmp t ys)"
  by (induction ys) (auto simp: compares_key_def not_less)

lemma mset_fold_put_in: "mset (fold (put_in cmp) r p) = mset r + mset p"
  by (induction r arbitrary: p) (simp_all add: mset_put_in)

lemma filter_fold_put_in:
  "compares_key cmp key \<Longrightarrow>
   filter (\<lambda>x. k = key x) (fold (put_in cmp) r p) = rev (filter (\<lambda>x. k = key x) r) @ filter (\<lambda>x. k = key x) p"
  by (induction r arbitrary: p) (simp_all add: filter_put_in)

lemma desc_fold_put_in:
  "compares_key cmp key \<Longrightarrow> sorted_wrt (\<lambda>a b. key b \<le> key a) p \<Longrightarrow> sorted_wrt (\<lambda>a b. key b \<le> key a) (fold (put_in cmp) r p)"
  by (induction r arbitrary: p) (simp_all add: desc_put_in)

lemma put_in_sorts: "compares_key cmp key \<Longrightarrow> rev (fold (put_in cmp) b []) = sort_key key b"
  by (intro properties_for_sort_key [symmetric])
    (simp_all add: mset_fold_put_in rev_filter [symmetric] filter_fold_put_in desc_fold_put_in sorted_wrt_map sorted_wrt_rev)

section \<open>Formatted output: the text and the buffer\<close>

lemma emits_append: "emits b (emits a o') = emits (a @ b) o'"
  by (simp add: emits_def)

lemma emit_emits: "emit c o' = emits [c] o'"
  by (simp add: emits_def)

lemma emits_Nil [simp]: "emits [] o' = o'"
  by (simp add: emits_def)

lemma if_emit: "(if b then emit c o' else o') = emits (if b then [c] else []) o'"
  by (simp add: emits_def)

lemmas texts = if_emit emit_emits emits_append padded_def

definition uniform :: "(out \<Rightarrow> ('a \<times> out) option) \<Rightarrow> bool" where
  "uniform f \<longleftrightarrow> (\<exists>as t. \<forall>o'. f o' = Some (as, emits t o')) \<or> (\<forall>o'. f o' = None)"

lemma uniform_if: "uniform f \<Longrightarrow> uniform g \<Longrightarrow> uniform (\<lambda>o'. if b then f o' else g o')"
  by (cases b) auto

lemma uniform_Some: "(\<And>o'. g o' = emits t o') \<Longrightarrow> uniform (\<lambda>o'. Some (as, g o'))"
  by (auto simp: uniform_def)

lemma uniform_None: "uniform (\<lambda>o'. None)"
  by (auto simp: uniform_def)

lemma uniform_option: "uniform n \<Longrightarrow> (\<And>x. uniform (f x)) \<Longrightarrow> uniform (\<lambda>o'. case a of None \<Rightarrow> n o' | Some x \<Rightarrow> f x o')"
  by (cases a) auto

lemma uniform_map: "(\<And>x. uniform (\<lambda>o'. Some (f x o'))) \<Longrightarrow> uniform (\<lambda>o'. map_option (\<lambda>x. f x o') a)"
  by (cases a) (auto simp: uniform_None)

lemma uniform_pair: "(\<And>x y. uniform (f x y)) \<Longrightarrow> uniform (\<lambda>o'. case p of (x, y) \<Rightarrow> f x y o')"
  by (cases p) auto

lemma uniform_pair_Some: "(\<And>x y. uniform (\<lambda>o'. Some (f x y o'))) \<Longrightarrow> uniform (\<lambda>o'. Some (case p of (x, y) \<Rightarrow> f x y o'))"
  by (cases p) auto

lemma uniform_va:
  "(\<And>w as. uniform (fi w as)) \<Longrightarrow> (\<And>w as. uniform (fl w as)) \<Longrightarrow> (\<And>s as. uniform (fs s as)) \<Longrightarrow> (\<And>p as. uniform (fp p as)) \<Longrightarrow> uniform n
   \<Longrightarrow> uniform (\<lambda>o'. case args of [] \<Rightarrow> n o' | AInt w # as \<Rightarrow> fi w as o' | ALong w # as \<Rightarrow> fl w as o'
     | AStr s # as \<Rightarrow> fs s as o' | APtr p # as \<Rightarrow> fp p as o')"
  by (cases args; cases "hd args") auto

lemma convert_text: "uniform (convert conv pad width long args)"
  unfolding convert_def
  by (intro uniform_if uniform_option uniform_map uniform_pair uniform_pair_Some uniform_va uniform_None uniform_Some)
    (simp_all add: texts)

lemma format_text: "(\<exists>t. \<forall>o'. format_loop fmt args o' = Some (emits t o')) \<or> (\<forall>o'. format_loop fmt args o' = None)"
proof (induction "length fmt" arbitrary: fmt args rule: less_induct)
  case less
  show ?case
  proof (cases fmt)
    case Nil
    then show ?thesis by (auto intro: exI [of _ "[]"])
  next
    case (Cons c s)
    obtain pad width long r where sp: "read_spec s = (pad, width, long, r)" by (metis prod_cases4)
    note len = read_spec_shorter [OF sp]
    show ?thesis
    proof (cases "c = CHR ''%'' \<and> s \<noteq> []")
      case False
      have "(\<exists>t. \<forall>o'. format_loop s args o' = Some (emits t o')) \<or> (\<forall>o'. format_loop s args o' = None)"
        using less Cons by simp
      then show ?thesis using False Cons by (auto simp: texts intro: exI [of _ "[]"])
    next
      case True
      show ?thesis
      proof (cases r)
        case Nil
        then show ?thesis using True Cons sp by simp
      next
        case r: (Cons conv rest)
        have IH: "(\<exists>t. \<forall>o'. format_loop rest as o' = Some (emits t o')) \<or> (\<forall>o'. format_loop rest as o' = None)" for as
          using less Cons r len by simp
        show ?thesis
          using convert_text [of conv pad width long args] unfolding uniform_def
        proof
          assume "\<exists>as t. \<forall>o'. convert conv pad width long args o' = Some (as, emits t o')"
          then obtain as t where "\<And>o'. convert conv pad width long args o' = Some (as, emits t o')" by blast
          then show ?thesis using True Cons sp r IH [of as] by (auto simp: texts)
        qed (use True Cons sp r in auto)
      qed
    qed
  qed
qed

lemma emits_pos: "o_pos (emits t o') = o_pos o' + length t" "o_size (emits t o') = o_size o'"
  by (induction t rule: rev_induct) (simp_all add: emits_def emit_def split: option.splits)

lemma take_snoc_update: "i < length b \<Longrightarrow> (take i t' @ drop i b)[i := c] = take i t' @ c # drop (Suc i) b" if "length t' = i" for b
  using that by (simp add: list_update_append Cons_nth_drop_Suc [symmetric])

lemma emits_buf:
  "sz \<le> length b \<Longrightarrow> emits t \<lparr>o_buf = Some b, o_size = sz, o_pos = 0\<rparr>
   = \<lparr>o_buf = Some (take (sz - 1) t @ drop (min (sz - 1) (length t)) b), o_size = sz, o_pos = length t\<rparr>"
proof (induction t rule: rev_induct)
  case (snoc c t)
  have e: "emits (t @ [c]) o' = emit c (emits t o')" for o' by (simp add: emits_def)
  show ?case
  proof (cases "Suc (length t) < sz")
    case True
    then have "min (sz - 1) (length t) = length t" "min (sz - 1) (Suc (length t)) = Suc (length t)" by auto
    then show ?thesis using True snoc take_snoc_update [of t "length t" b c] by (simp add: e emit_def)
  qed (use snoc in \<open>auto simp: e emit_def min_def\<close>)
qed (simp add: emits_def)

lemma emits_null: "emits t \<lparr>o_buf = None, o_size = sz, o_pos = 0\<rparr> = \<lparr>o_buf = None, o_size = sz, o_pos = length t\<rparr>"
  by (induction t rule: rev_induct) (simp_all add: emits_def emit_def)

lemma c_vsnprintf_text:
  assumes "\<And>o'. format_loop fmt args o' = Some (emits t o')" "0 < sz" "sz \<le> length b"
  shows "c_vsnprintf (Some b) sz fmt args
    = Some (s32 (int (length t)), Some (take (sz - 1) t @ NUL # drop (Suc (min (sz - 1) (length t))) b))"
proof -
  have "(if length t < sz then length t else sz - 1) = min (sz - 1) (length t)" using assms(2) by (auto simp: min_def)
  moreover have "min (sz - 1) (length t) < length b" using assms(2,3) by auto
  ultimately show ?thesis using assms(2,3)
    by (simp add: c_vsnprintf_def assms(1) emits_buf list_update_append Cons_nth_drop_Suc [symmetric])
qed

section \<open>Properties\<close>

text \<open>
  \<open>memmove\<close> of the C library makes the destination hold what the source held, for every overlap of the two.
\<close>

lemma c_memmove_moves:
  assumes "unat dst + n \<le> 2 ^ 64" "unat src + n \<le> 2 ^ 64"
  shows "c_memmove m dst src n = (\<lambda>a. if unat (a - dst) < n then m (src + (a - dst)) else m a)"
  using assms c_memcpy_loop_blit [of dst src n m] c_memmove_down_blit [of dst src n m]
  by (auto simp: c_memmove_def up_ok_def down_ok_def blit_def span_def word_less_nat_alt not_less)

lemma c_memmove_moves_witness:
  "c_memmove (\<lambda>a. ucast a) 0x1003 0x1001 10 0x1006 = 4"
  by (subst c_memmove_moves) simp_all

text \<open>
  C30. \<open>qsort\<close> sorts, and keeps the order of equal elements, when an element has at most 256 bytes; larger elements it
  leaves as they are.
\<close>

theorem c_qsort_stable:
  assumes "compares_key cmp key"
  shows "c_qsort sz cmp b = (if sz \<le> 256 then sort_key key b else b)"
  using put_in_sorts [OF assms, of b] by (simp add: c_qsort_put_in) (simp add: c_qsort_def)

theorem c_qsort_stable_witness:
  "c_qsort 8 (\<lambda>x y. int (fst x) - int (fst y)) [(3 :: nat, 1 :: nat), (1, 2), (3, 0), (2, 5)] = [(1, 2), (2, 5), (3, 1), (3, 0)]"
  by (subst c_qsort_stable [where key = fst]) (simp_all add: compares_key_def)

text \<open>
  C31. \<open>vsnprintf\<close> gives the length of the whole text and stores as much of it as fits before the NUL: the text does
  not depend on the buffer or its size, and no byte behind the size changes.
\<close>

theorem c_vsnprintf_truncates:
  assumes "c_vsnprintf None 0 fmt args = Some (n, p)"
  shows "\<exists>t. n = s32 (int (length t)) \<and> (\<forall>b sz. 0 < sz \<and> sz \<le> length b \<longrightarrow>
    c_vsnprintf (Some b) sz fmt args
    = Some (n, Some (take (sz - 1) t @ NUL # drop (Suc (min (sz - 1) (length t))) b)))"
proof -
  obtain t where t: "\<And>o'. format_loop fmt args o' = Some (emits t o')"
    using format_text [of fmt args] assms by (auto simp: c_vsnprintf_def)
  have n: "n = s32 (int (length t))" using assms by (simp add: c_vsnprintf_def t emits_null)
  show ?thesis using n c_vsnprintf_text [OF t] by blast
qed

theorem c_vsnprintf_truncates_witness:
  "\<exists>t. c_vsnprintf (Some ''??????'') 4 ''n=%d!'' [AInt 42]
     = Some (5, Some (take 3 t @ NUL # drop (Suc (min 3 (length t))) ''??????''))"
proof -
  have u: "uitoa 42 10 = ''42''" by (simp add: uitoa_def uitoa_rev.simps)
  have "c_vsnprintf None 0 ''n=%d!'' [AInt 42] = Some (5, None)"
    by (simp add: c_vsnprintf_def read_spec_def chr_in_def convert_def arg_signed_def u padded_def emits_def emit_def s32_def deref_def)
  from c_vsnprintf_truncates [OF this] obtain t where
    "\<forall>b sz. 0 < sz \<and> sz \<le> length b \<longrightarrow> c_vsnprintf (Some b) sz ''n=%d!'' [AInt 42]
      = Some (5, Some (take (sz - 1) t @ NUL # drop (Suc (min (sz - 1) (length t))) b))" by blast
  from this [rule_format, of 4 "''??????''"] show ?thesis by auto
qed

lemma digit_nth: "n < 10 \<Longrightarrow> ''0123456789abcdef'' ! n = char_of (48 + n)"
proof -
  assume "n < 10"
  then have "n = 0 \<or> n = 1 \<or> n = 2 \<or> n = 3 \<or> n = 4 \<or> n = 5 \<or> n = 6 \<or> n = 7 \<or> n = 8 \<or> n = 9" by presburger
  then show ?thesis by (elim disjE) (simp_all add: char_of_def bit_0)
qed

lemma uitoa_dec: "uitoa v 10 = dec_str v"
proof -
  have "uitoa_rev 10 v = dec_rev v" for v
  proof (induction v rule: less_induct)
    case (less v)
    show ?case
    proof (cases "v = 0")
      case True
      then show ?thesis by (simp add: uitoa_rev.simps)
    next
      case False
      then show ?thesis using less [of "v div 10"] by (subst uitoa_rev.simps) (simp add: dec_rev_pos digit_nth)
    qed
  qed
  then show ?thesis by (simp add: uitoa_def dec_str_def)
qed

lemma s64_mod: "s64 x mod 2 ^ 64 = x mod 2 ^ 64"
  by (simp add: s64_def mod_diff_left_eq)

lemma s64_cong: "x mod 2 ^ 64 = y mod 2 ^ 64 \<Longrightarrow> s64 x = s64 y"
  unfolding s64_def by (metis mod_add_left_eq)

lemma s64_step: "s64 (s64 x * a + b) = s64 (x * a + b)"
  by (rule s64_cong) (metis s64_mod mod_add_left_eq mod_mult_left_eq)

lemma s64_id: "- (2 ^ 63) \<le> x \<Longrightarrow> x < 2 ^ 63 \<Longrightarrow> s64 x = x"
  by (simp add: s64_def)

lemma digit_of_dec: "chr_in 48 57 c \<Longrightarrow> digit_of c = Some (of_char c - 48) \<and> (of_char c :: int) - 48 < 10"
  unfolding digit_of_def chr_in_def of_char_int by (auto simp del: of_nat_of_char)

lemma strtol_loop_app:
  "list_all (chr_in 48 57) xs \<Longrightarrow> strtol_loop (xs @ ys) 10 v = strtol_loop ys 10 (fst (strtol_loop xs 10 v))"
proof (induction xs arbitrary: v)
  case (Cons c xs)
  then show ?case using digit_of_dec [of c] by simp
qed simp

lemma strtol_loop_dec: "strtol_loop (rev (dec_rev n)) 10 0 = (s64 (int n), [])"
proof (induction n rule: less_induct)
  case (less n)
  show ?case
  proof (cases "n = 0")
    case False
    have d: "chr_in 48 57 (char_of (48 + n mod 10))" by (simp add: digit_char)
    have o: "(of_char (char_of (48 + n mod 10) :: char) :: int) = 48 + int (n mod 10)" by (simp add: of_char_int)
    have "strtol_loop (rev (dec_rev n)) 10 0 = (s64 (s64 (int (n div 10)) * 10 + int (n mod 10)), [])"
      using False less [of "n div 10"] dec_rev_digits [of "n div 10"] digit_of_dec [OF d]
      by (simp add: dec_rev_pos strtol_loop_app list_all_iff o)
    also have "\<dots> = (s64 (int n), [])" unfolding s64_step
      by (metis div_mult_mod_eq of_nat_add of_nat_mult of_nat_numeral)
    finally show ?thesis .
  qed (simp add: s64_def)
qed

lemma strtol_dec_str: "strtol_loop (dec_str n) 10 0 = (s64 (int n), [])"
  using strtol_loop_dec [of n] by (simp add: dec_str_def digit_of_def chr_in_def s64_def)

lemma dec_str_first: "\<exists>c r. dec_str n = c # r \<and> chr_in 48 57 c"
  using dec_str_digits [of n] by (cases "dec_str n") (auto simp: dec_str_def dec_rev_pos split: if_splits)

definition int_text :: "int \<Rightarrow> string" where
  "int_text v = (if v < 0 then ''-'' else []) @ dec_str (nat \<bar>v\<bar>)"

lemma c_strtol_int_text:
  assumes "- (2 ^ 63) \<le> v" "v < 2 ^ 63"
  shows "c_strtol (int_text v) 10 = (v, [])"
proof -
  obtain c r where c: "dec_str (nat \<bar>v\<bar>) = c # r" "chr_in 48 57 c" using dec_str_first by blast
  then have "c \<noteq> CHR '' ''" "c \<noteq> CHR ''-''" "c \<noteq> CHR ''+''" by (auto simp: chr_in_def)
  moreover have "s64 (- s64 (- v)) = v" using assms s64_id [of v] s64_step [of "- v" "- 1" 0] by simp
  ultimately show ?thesis
    using c strtol_dec_str [of "nat \<bar>v\<bar>"] assms by (auto simp: int_text_def c_strtol_def deref_def s64_id)
qed

lemma text_of_ld: "format_loop ''%ld'' [ALong w] o' = Some (emits (int_text (sint w)) o')"
  by (simp add: read_spec_def chr_in_def convert_def arg_signed_def deref_def int_text_def uitoa_dec texts)

lemma int_text_plain: "list_all (\<lambda>c. c \<noteq> NUL) (int_text v)"
  using dec_str_digits [of "nat \<bar>v\<bar>"] by (auto simp: int_text_def list_all_iff chr_in_def NUL_def)

lemma int_text_length: "\<bar>v\<bar> \<le> 2 ^ 63 \<Longrightarrow> length (int_text v) \<le> 20"
proof -
  assume "\<bar>v\<bar> \<le> 2 ^ 63"
  then have "nat \<bar>v\<bar> < 10 ^ 19" by simp
  from length_dec_rev_le [OF this] show ?thesis by (auto simp: int_text_def dec_str_def)
qed

text \<open>
  C32. What \<open>snprintf\<close> prints for \<open>%ld\<close> into a buffer of 21 bytes or more, \<open>strtol\<close> reads back as the same number,
  for all 64-bit numbers.
\<close>

theorem printed_number_reads_back:
  fixes w :: u64
  assumes "20 < sz" "sz \<le> length b"
  shows "\<exists>b'. c_vsnprintf (Some b) sz ''%ld'' [ALong w] = Some (int (length (int_text (sint w))), Some b')
     \<and> c_strtol (takeWhile (\<lambda>c. c \<noteq> NUL) b') 10 = (sint w, [])"
proof -
  let ?t = "int_text (sint w)"
  have r: "- (2 ^ 63) \<le> sint w" "sint w < 2 ^ 63" using sint_range_size [of w] by (simp_all add: word_size)
  then have len: "length ?t \<le> 20" by (intro int_text_length) auto
  have s: "s32 (int (length ?t)) = int (length ?t)" using len by (intro s32_id) auto
  have "c_vsnprintf (Some b) sz ''%ld'' [ALong w]
    = Some (int (length ?t), Some (?t @ NUL # drop (Suc (length ?t)) b))"
    using c_vsnprintf_text [OF text_of_ld, of sz b w] assms len by (simp add: s min_absorb2)
  moreover have "takeWhile (\<lambda>c. c \<noteq> NUL) (?t @ NUL # drop (Suc (length ?t)) b) = ?t"
    using int_text_plain [of "sint w"] by (subst takeWhile_append2) (auto simp: list_all_iff)
  ultimately show ?thesis using c_strtol_int_text [OF r] by simp
qed

theorem printed_number_reads_back_witness:
  "\<exists>b'. c_vsnprintf (Some (replicate 21 NUL)) 21 ''%ld'' [ALong (- 42)]
     = Some (int (length (int_text (sint (- 42 :: u64)))), Some b')
     \<and> c_strtol (takeWhile (\<lambda>c. c \<noteq> NUL) b') 10 = (sint (- 42 :: u64), [])"
  by (rule printed_number_reads_back) simp_all

text \<open>
  The padding of numbers: a width with a zero in it ends at the zero, a negative number is padded behind its
  sign, and a format that ends inside a conversion is read past its end.
\<close>

lemma printf_padding_wrong:
  "c_vsnprintf (Some (replicate 9 CHR ''?'')) 9 ''%10d'' [AInt 7] = Some (3, Some (''%0d'' @ NUL # replicate 5 CHR ''?''))
   \<and> c_vsnprintf (Some (replicate 9 CHR ''?'')) 9 ''%5d'' [AInt (- 42)] = Some (6, Some (''-   42'' @ NUL # ''??''))
   \<and> c_vsnprintf (Some (replicate 9 CHR ''?'')) 9 ''%l'' [AInt 7] = None"
proof (intro conjI)
  have u: "uitoa 42 10 = ''42''" by (simp add: uitoa_def uitoa_rev.simps)
  have m: "sint (- 42 :: u32) = - 42" by simp
  have r: "replicate 3 c = [c, c, c]" for c :: char by (simp add: numeral_3_eq_3)
  have "format_loop ''%10d'' [AInt 7] o' = Some (emits ''%0d'' o')" for o'
    by (simp add: read_spec_def chr_in_def convert_def texts deref_def)
  from c_vsnprintf_text [OF this, of 9 "replicate 9 CHR ''?''"]
  show "c_vsnprintf (Some (replicate 9 CHR ''?'')) 9 ''%10d'' [AInt 7] = Some (3, Some (''%0d'' @ NUL # replicate 5 CHR ''?''))"
    by (simp add: s32_def)
  have "format_loop ''%5d'' [AInt (- 42)] o' = Some (emits ''-   42'' o')" for o'
    by (simp add: read_spec_def chr_in_def convert_def arg_signed_def u m r texts deref_def s32_def)
  from c_vsnprintf_text [OF this, of 9 "replicate 9 CHR ''?''"]
  show "c_vsnprintf (Some (replicate 9 CHR ''?'')) 9 ''%5d'' [AInt (- 42)] = Some (6, Some (''-   42'' @ NUL # ''??''))"
    by (simp add: s32_def numeral_eq_Suc)
  show "c_vsnprintf (Some (replicate 9 CHR ''?'')) 9 ''%l'' [AInt 7] = None"
    by (simp add: c_vsnprintf_def read_spec_def chr_in_def deref_def)
qed

end
