(* ===== verification/LibcHeap.thy ===== *)
theory LibcHeap
  imports SysProc LibcText
begin

text \<open>
  The heap of the C library, \<^verbatim>\<open>malloc\<close>, \<^verbatim>\<open>calloc\<close> and \<^verbatim>\<open>realloc\<close> of \<^verbatim>\<open>user/libc/src/stdlib.c\<close>, on the system
  call \<open>brk\<close> of the kernel. Memory is never given back. \<open>brk\<close> is an argument of the functions; the interpretation at the end puts
  the kernel's call there.
\<close>

section \<open>The allocator\<close>

definition ENOMEM :: int where "ENOMEM = 12"

record libc_heap =
  lh_heap :: u64
  lh_errno :: int

type_synonym 's brk = "u64 \<Rightarrow> 's \<Rightarrow> (u64 \<times> 's) option"

text \<open>Pointers: 0 is NULL.\<close>

definition c_malloc :: "'s brk \<Rightarrow> u64 \<Rightarrow> libc_heap \<Rightarrow> 's \<Rightarrow> (u64 \<times> libc_heap \<times> 's) option" where
  "c_malloc brk n h s =
    (if n = 0 then Some (0, h, s)
     else do {
       (h, s) \<leftarrow> (if lh_heap h = 0 then do { (b, s) \<leftarrow> brk 0 s; Some (h\<lparr>lh_heap := b\<rparr>, s) } else Some (h, s));
       let n = (n + 15) AND NOT 15;
       let p = lh_heap h;
       let top = lh_heap h + n;
       (b, s) \<leftarrow> brk top s;
       if b < top then Some (0, h\<lparr>lh_errno := ENOMEM\<rparr>, s)
       else Some (p, h\<lparr>lh_heap := top\<rparr>, s)
     })"

text \<open>The memory of the program is a function of addresses.\<close>

definition c_calloc :: "'s brk \<Rightarrow> u64 \<Rightarrow> u64 \<Rightarrow> libc_heap \<Rightarrow> mem \<Rightarrow> 's \<Rightarrow> (u64 \<times> libc_heap \<times> mem \<times> 's) option" where
  "c_calloc brk nmemb sz h m s = do {
     let total = nmemb * sz;
     (p, h, s) \<leftarrow> c_malloc brk total h s;
     Some (p, h, if p \<noteq> 0 then c_memset m p 0 (unat total) else m, s)
   }"

definition c_realloc :: "'s brk \<Rightarrow> u64 \<Rightarrow> u64 \<Rightarrow> libc_heap \<Rightarrow> mem \<Rightarrow> 's \<Rightarrow> (u64 \<times> libc_heap \<times> mem \<times> 's) option" where
  "c_realloc brk ptr n h m s =
    (if ptr = 0 then do { (p, h, s) \<leftarrow> c_malloc brk n h s; Some (p, h, m, s) }
     else do {
       (p, h, s) \<leftarrow> c_malloc brk n h s;
       Some (p, h, if p \<noteq> 0 then c_memcpy m p ptr (unat n) else m, s)
     })"

definition c_free :: "u64 \<Rightarrow> libc_heap \<Rightarrow> libc_heap" where
  "c_free p h = h"

definition kernel_brk :: "kenv \<Rightarrow> u64 \<Rightarrow> kernel brk" where
  "kernel_brk e proc addr k = (case scall_brk e k proc addr 0 0 of Some (Ret v k1) \<Rightarrow> Some (v, k1) | _ \<Rightarrow> None)"

text \<open>The blocks of a run of the allocator, with the sizes that were asked for.\<close>

fun c_mallocs :: "'s brk \<Rightarrow> u64 list \<Rightarrow> libc_heap \<Rightarrow> 's \<Rightarrow> ((u64 \<times> u64) list \<times> libc_heap \<times> 's) option" where
  "c_mallocs brk [] h s = Some ([], h, s)"
| "c_mallocs brk (n # ns) h s = do {
     (p, h, s) \<leftarrow> c_malloc brk n h s;
     (ps, h, s) \<leftarrow> c_mallocs brk ns h s;
     Some ((p, n) # ps, h, s)
   }"

section \<open>The contract of the data segment\<close>

locale data_segment =
  fixes brk :: "'s brk" and cur :: "'s \<Rightarrow> u64" and lo :: u64 and hi :: u64 and ok :: "'s \<Rightarrow> bool"
  assumes cur_range: "ok s \<Longrightarrow> 0 < lo \<and> lo \<le> cur s \<and> cur s \<le> hi"
    and brk_query: "ok s \<Longrightarrow> brk 0 s = Some (cur s, s)"
    and brk_move: "ok s \<Longrightarrow> lo \<le> a \<Longrightarrow> a \<le> hi \<Longrightarrow> \<exists>s'. brk a s = Some (a, s') \<and> ok s' \<and> cur s' = a"
    and brk_stay: "ok s \<Longrightarrow> a \<noteq> 0 \<Longrightarrow> \<not> (lo \<le> a \<and> a \<le> hi) \<Longrightarrow> brk a s = Some (cur s, s)"
begin

definition heap_inv :: "libc_heap \<Rightarrow> 's \<Rightarrow> bool" where
  "heap_inv h s \<longleftrightarrow> ok s \<and> 16 dvd unat (cur s) \<and> (lh_heap h = 0 \<or> lh_heap h = cur s)"

text \<open>A request that does not wrap around at the end of the address space.\<close>

definition fits :: "u64 \<Rightarrow> bool" where
  "fits n \<longleftrightarrow> unat hi + unat n + 15 < 2 ^ 64"

lemma malloc_start:
  assumes "heap_inv h s" "n \<noteq> 0"
  shows "c_malloc brk n h s = do {
      (b, s') \<leftarrow> brk (cur s + round16 n) s;
      if b < cur s + round16 n then Some (0, h\<lparr>lh_heap := cur s, lh_errno := ENOMEM\<rparr>, s')
      else Some (cur s, h\<lparr>lh_heap := cur s + round16 n\<rparr>, s') }"
proof -
  have r: "(n + 15) AND NOT 15 = round16 n" by (simp only: round16_def)
  have q: "brk 0 s = Some (cur s, s)" using assms(1) brk_query by (simp add: heap_inv_def)
  show ?thesis
  proof (cases "lh_heap h = 0")
    case True
    then show ?thesis using assms(2) unfolding c_malloc_def Let_def r by (simp add: q cong: if_cong)
  next
    case False
    then have "cur s = lh_heap h" using assms(1) by (simp add: heap_inv_def)
    then show ?thesis using assms(2) False unfolding c_malloc_def Let_def r by (simp cong: if_cong)
  qed
qed

lemma malloc_block:
  assumes "heap_inv h s" "fits n"
  shows "\<exists>p h' s'. c_malloc brk n h s = Some (p, h', s') \<and> heap_inv h' s' \<and> cur s \<le> cur s'
    \<and> (p = 0 \<longleftrightarrow> n = 0 \<or> unat hi < unat (cur s) + 16 * ((unat n + 15) div 16))
    \<and> (p \<noteq> 0 \<longrightarrow> p = cur s \<and> 16 dvd unat p \<and> unat p + unat n \<le> unat (cur s') \<and> cur s' \<le> hi)"
proof (cases "n = 0")
  case True
  then show ?thesis using assms by (auto simp: c_malloc_def)
next
  case False
  let ?m = "16 * ((unat n + 15) div 16)"
  let ?top = "cur s + round16 n"
  have c: "ok s" "0 < lo" "lo \<le> cur s" "cur s \<le> hi" "16 dvd unat (cur s)" using assms cur_range by (auto simp: heap_inv_def)
  then have cn: "cur s \<noteq> 0" by auto
  have b: "unat (cur s) + unat n + 15 < 2 ^ 64" using assms(2) c(4) by (auto simp: fits_def word_le_nat_alt)
  have r: "unat (round16 n) = ?m" using unat_round16 [of n] b by simp
  have m: "unat n \<le> ?m" "?m \<le> unat n + 15" by presburger+
  have e: "unat ?top = unat (cur s) + ?m" using b m r by (simp add: unat_word_ariths)
  note start = malloc_start [OF assms(1) False]
  have "unat n \<noteq> 0" using False by (simp add: unat_eq_0)
  with m(1) have m0: "0 < ?m" by linarith
  have en: "?top \<noteq> 0" "lo \<le> ?top" "cur s \<le> ?top" "cur s < ?top"
    using e c m0 by (auto simp: word_le_nat_alt word_less_nat_alt unat_eq_0 [symmetric])
  show ?thesis
  proof (cases "?top \<le> hi")
    case True
    then obtain s' where s': "brk ?top s = Some (?top, s')" "ok s'" "cur s' = ?top" using brk_move [OF c(1) en(2)] by blast
    have "16 dvd unat ?top" unfolding e using c(5) by simp
    then show ?thesis using True s' start e m en cn c(5) False
      by (auto simp: heap_inv_def word_le_nat_alt)
  next
    case False
    then have "brk ?top s = Some (cur s, s)" using brk_stay [OF c(1) en(1)] by blast
    then show ?thesis using False start e m en cn c
      by (auto simp: heap_inv_def word_le_nat_alt)
  qed
qed

lemma mallocs_blocks:
  assumes "heap_inv h s" "\<forall>n \<in> set ns. fits n"
  shows "\<exists>ps h' s'. c_mallocs brk ns h s = Some (ps, h', s') \<and> heap_inv h' s' \<and> cur s \<le> cur s' \<and> map snd ps = ns
    \<and> (\<forall>(p, n) \<in> set ps. p \<noteq> 0 \<longrightarrow> 16 dvd unat p \<and> cur s \<le> p \<and> unat p + unat n \<le> unat hi)
    \<and> sorted_wrt (\<lambda>(p, n) (q, k). p \<noteq> 0 \<longrightarrow> q \<noteq> 0 \<longrightarrow> unat p + unat n \<le> unat q) ps"
  using assms
proof (induction ns arbitrary: h s)
  case (Cons n ns)
  obtain p h1 s1 where 1: "c_malloc brk n h s = Some (p, h1, s1)" "heap_inv h1 s1" "cur s \<le> cur s1"
    "p \<noteq> 0 \<longrightarrow> p = cur s \<and> 16 dvd unat p \<and> unat p + unat n \<le> unat (cur s1) \<and> cur s1 \<le> hi"
    using malloc_block [of h s n] Cons.prems by auto
  obtain ps h2 s2 where 2: "c_mallocs brk ns h1 s1 = Some (ps, h2, s2)" "heap_inv h2 s2" "cur s1 \<le> cur s2" "map snd ps = ns"
    "\<forall>(p, n) \<in> set ps. p \<noteq> 0 \<longrightarrow> 16 dvd unat p \<and> cur s1 \<le> p \<and> unat p + unat n \<le> unat hi"
    "sorted_wrt (\<lambda>(p, n) (q, k). p \<noteq> 0 \<longrightarrow> q \<noteq> 0 \<longrightarrow> unat p + unat n \<le> unat q) ps"
    using Cons.IH [OF 1(2)] Cons.prems by auto
  have "c_mallocs brk (n # ns) h s = Some ((p, n) # ps, h2, s2)" using 1 2 by simp
  moreover have "\<forall>(q, k) \<in> set ((p, n) # ps). q \<noteq> 0 \<longrightarrow> 16 dvd unat q \<and> cur s \<le> q \<and> unat q + unat k \<le> unat hi"
    using 1 2(5) by (fastforce simp: word_le_nat_alt)
  moreover have "\<forall>(q, k) \<in> set ps. p \<noteq> 0 \<longrightarrow> q \<noteq> 0 \<longrightarrow> unat p + unat n \<le> unat q"
    using 1(4) 2(5) by (fastforce simp: word_le_nat_alt)
  ultimately show ?case using 1(3) 2(2,3,4,6) by fastforce
qed (auto intro!: exI)

lemma malloc_wraps:
  assumes "heap_inv h s" "2 ^ 64 \<le> unat (cur s) + unat n"
  shows "\<exists>h' s'. c_malloc brk n h s = Some (cur s, h', s') \<and> cur s \<noteq> 0 \<and> lh_heap h' \<le> cur s"
proof -
  let ?top = "cur s + round16 n"
  have c: "ok s" "0 < lo" "lo \<le> cur s" "cur s \<le> hi" "16 dvd unat (cur s)" using assms cur_range by (auto simp: heap_inv_def)
  have n: "n \<noteq> 0" using assms(2) unat_lt_2p64 [of "cur s"] by (auto simp del: unat_lt_2p64)
  have "?top \<le> cur s"
  proof (cases "unat n \<le> 2 ^ 64 - 16")
    case True
    then have r: "unat (round16 n) = 16 * ((unat n + 15) div 16)" using unat_round16 [of n] by simp
    have "unat n \<le> unat (round16 n)" unfolding r by presburger
    then have "2 ^ 64 \<le> unat (cur s) + unat (round16 n)" using assms(2) by linarith
    moreover have "unat (round16 n) < 2 ^ 64" "unat (cur s) < 2 ^ 64"
      using unat_lt_2p64 [of "round16 n"] unat_lt_2p64 [of "cur s"] by simp_all
    ultimately have "unat ?top = unat (cur s) + unat (round16 n) - 2 ^ 64" by (simp add: unat_plus_if')
    then show ?thesis using unat_lt_2p64 [of "round16 n"] unfolding word_le_nat_alt by (simp del: unat_lt_2p64)
  next
    case False
    then have "unat (round16 n) = 0" using unat_round16 [of n] by simp
    then have "round16 n = 0" by (simp only: unat_eq_0)
    then show ?thesis by simp
  qed
  moreover obtain b s' where "brk ?top s = Some (b, s')" "?top \<le> b"
  proof -
    consider "?top = 0" | "lo \<le> ?top" | "?top \<noteq> 0" "\<not> lo \<le> ?top" by blast
    then show ?thesis
    proof cases
      case 1
      then show ?thesis using brk_query [OF c(1)] that by simp
    next
      case 2
      then show ?thesis using brk_move [OF c(1), of ?top] \<open>?top \<le> cur s\<close> c(4) that by (meson order.trans order.refl)
    next
      case 3
      then show ?thesis using brk_stay [OF c(1), of ?top] \<open>?top \<le> cur s\<close> that by blast
    qed
  qed
  ultimately show ?thesis using malloc_start [OF assms(1) n] c(2,3) by (auto simp: not_less)
qed

end

text \<open>The heap of a process: its base and size stay, and the break is in it.\<close>

definition segment_ok :: "u64 \<Rightarrow> u64 \<Rightarrow> u64 \<Rightarrow> kernel \<Rightarrow> bool" where
  "segment_ok proc base sz k \<longleftrightarrow>
    p_heap_base (k_proc k proc) = base \<and> p_heap_size (k_proc k proc) = sz \<and> 0 < base \<and> base \<le> base + sz
    \<and> base \<le> p_brk (k_proc k proc) \<and> p_brk (k_proc k proc) \<le> base + sz"

lemma k_proc_upd [simp]: "k_proc (upd_k_proc proc f k) proc = f (k_proc k proc)"
  by (simp add: k_proc_def upd_k_proc_def set_ul_def upd_proc_def k_ul_def)

interpretation kernel_segment: data_segment "kernel_brk e proc" "\<lambda>k. p_brk (k_proc k proc)" base "base + sz" "segment_ok proc base sz"
  for e proc base sz
  by unfold_locales (auto simp: segment_ok_def kernel_brk_def scall_brk_def Let_def)

lemmas heap_simps = kernel_segment.heap_inv_def kernel_segment.fits_def

text \<open>
  C33. The blocks that a program gets from \<open>malloc\<close> lie in its data segment, are multiples of sixteen, as long as they were
  asked to be, and do not overlap.
\<close>

theorem malloc_blocks:
  assumes "segment_ok proc base sz k" "16 dvd unat (p_brk (k_proc k proc))" "lh_heap h = 0 \<or> lh_heap h = p_brk (k_proc k proc)"
    and "\<forall>n \<in> set ns. unat (base + sz) + unat n + 15 < 2 ^ 64"
  shows "\<exists>ps h' k'. c_mallocs (kernel_brk e proc) ns h k = Some (ps, h', k') \<and> map snd ps = ns
    \<and> (\<forall>(p, n) \<in> set ps. p \<noteq> 0 \<longrightarrow> 16 dvd unat p \<and> base \<le> p \<and> unat p + unat n \<le> unat (base + sz))
    \<and> sorted_wrt (\<lambda>(p, n) (q, m). p \<noteq> 0 \<longrightarrow> q \<noteq> 0 \<longrightarrow> unat p + unat n \<le> unat q) ps"
proof -
  have inv: "data_segment.heap_inv (\<lambda>k. p_brk (k_proc k proc)) (segment_ok proc base sz) h k"
    using assms(1-3) by (simp add: heap_simps)
  have fit: "\<forall>n \<in> set ns. data_segment.fits (base + sz) n" using assms(4) by (simp add: heap_simps)
  obtain ps h' k' where r: "c_mallocs (kernel_brk e proc) ns h k = Some (ps, h', k')" "map snd ps = ns"
    "\<forall>(p, n) \<in> set ps. p \<noteq> 0 \<longrightarrow> 16 dvd unat p \<and> p_brk (k_proc k proc) \<le> p \<and> unat p + unat n \<le> unat (base + sz)"
    "sorted_wrt (\<lambda>(p, n) (q, m). p \<noteq> 0 \<longrightarrow> q \<noteq> 0 \<longrightarrow> unat p + unat n \<le> unat q) ps"
    using kernel_segment.mallocs_blocks [OF inv fit, of e] by auto
  have "base \<le> p_brk (k_proc k proc)" using assms(1) by (simp add: segment_ok_def)
  with r show ?thesis by (fastforce intro: order.trans)
qed

text \<open>A process with a heap of 64 kilobytes, of which 256 bytes are in use.\<close>

definition kern_heap_ex :: kernel where
  "kern_heap_ex = upd_k_proc 8 (\<lambda>r. r\<lparr>p_heap_base := 0x50000000, p_heap_size := 0x10000, p_brk := 0x50000100\<rparr>) kern_ex"

lemma kern_heap_ex: "segment_ok 8 0x50000000 0x10000 kern_heap_ex" "p_brk (k_proc kern_heap_ex 8) = 0x50000100"
  by (simp_all add: segment_ok_def kern_heap_ex_def)

theorem malloc_blocks_witness:
  "\<exists>ps h' k'. c_mallocs (kernel_brk env_ex 8) [100, 0, 0x20000, 16] \<lparr>lh_heap = 0, lh_errno = 0\<rparr> kern_heap_ex = Some (ps, h', k')
    \<and> map snd ps = [100, 0, 0x20000, 16]
    \<and> (\<forall>(p, n) \<in> set ps. p \<noteq> 0 \<longrightarrow> 16 dvd unat p \<and> 0x50000000 \<le> p \<and> unat p + unat n \<le> unat (0x50000000 + 0x10000 :: u64))
    \<and> sorted_wrt (\<lambda>(p, n) (q, m). p \<noteq> 0 \<longrightarrow> q \<noteq> 0 \<longrightarrow> unat p + unat n \<le> unat q) ps"
  by (rule malloc_blocks [OF kern_heap_ex(1)]) (simp_all add: kern_heap_ex(2))

text \<open>
  A size that wraps around at the end of the address space does not fail: \<open>malloc\<close> gives a pointer that is not
  NULL, and the place where the next block will start is not behind it.
\<close>

lemma malloc_overflows:
  assumes "segment_ok proc base sz k" "16 dvd unat (p_brk (k_proc k proc))" "lh_heap h = 0 \<or> lh_heap h = p_brk (k_proc k proc)"
    and "2 ^ 64 \<le> unat (p_brk (k_proc k proc)) + unat n"
  shows "\<exists>p h' k'. c_malloc (kernel_brk e proc) n h k = Some (p, h', k') \<and> p \<noteq> 0 \<and> lh_heap h' \<le> p"
proof -
  have inv: "data_segment.heap_inv (\<lambda>k. p_brk (k_proc k proc)) (segment_ok proc base sz) h k"
    using assms(1-3) by (simp add: heap_simps)
  from kernel_segment.malloc_wraps [OF this assms(4), of e] show ?thesis by blast
qed

lemma malloc_overflows_witness:
  "\<exists>p h' k'. c_malloc (kernel_brk env_ex 8) (- 0x200) \<lparr>lh_heap = 0x50000100, lh_errno = 0\<rparr> kern_heap_ex = Some (p, h', k')
    \<and> p \<noteq> 0 \<and> lh_heap h' \<le> p"
  by (rule malloc_overflows [OF kern_heap_ex(1)]) (simp_all add: kern_heap_ex(2))

end
