(* ===== verification/Mouse.thy ===== *)
theory Mouse
  imports Ring Vt CString
begin

text \<open>
  The mouse of \<^verbatim>\<open>emex/drivers/ps2/mouse/mouse.c\<close> and its device file \<^verbatim>\<open>emex/kernel/devices/input/mouse0.c\<close>: the interrupt handler
  that collects packets of three bytes and keeps the position inside the screen, the ring of events, and reading the device file.
  What the two ports give and the size of the screen are arguments, as is the padding of an event.
\<close>

section \<open>The state of the driver\<close>

definition MOUSE_BUF_SIZE :: nat where "MOUSE_BUF_SIZE = 64"
definition PS2_DATA :: u16 where "PS2_DATA = 0x60"
definition PS2_CMD :: u16 where "PS2_CMD = 0x64"

record mouse_event =
  me_dx :: int
  me_dy :: int
  me_abs_x :: int
  me_abs_y :: int
  me_buttons :: u8
  me_pad :: "u8 list"

record mouse =
  evbuf :: "mouse_event list"
  ev_r :: nat
  ev_w :: nat
  abs_x :: int
  abs_y :: int
  pkt :: "u8 list"
  pkt_i :: nat

definition ev_push :: "mouse_event \<Rightarrow> mouse \<Rightarrow> mouse" where
  "ev_push e m =
    (let next = (ev_w m + 1) mod MOUSE_BUF_SIZE
     in if next \<noteq> ev_r m then m\<lparr>evbuf := (evbuf m)[ev_w m := e], ev_w := next\<rparr> else m)"

definition mouse_has_event :: "mouse \<Rightarrow> bool" where
  "mouse_has_event m \<longleftrightarrow> ev_r m \<noteq> ev_w m"

definition mouse_get_event :: "mouse \<Rightarrow> mouse_event option \<times> mouse" where
  "mouse_get_event m =
    (if ev_r m = ev_w m then (None, m) else (Some (evbuf m ! ev_r m), m\<lparr>ev_r := (ev_r m + 1) mod MOUSE_BUF_SIZE\<rparr>))"

section \<open>The interrupt handler\<close>

definition clamp :: "u32 \<Rightarrow> int \<Rightarrow> int" where
  "clamp limit v = (let v = (if v < 0 then 0 else v) in if v \<ge> sint limit then sint limit - 1 else v)"

definition packet_dx :: "u8 list \<Rightarrow> int" where
  "packet_dx p = uint (p ! 1) - (if p ! 0 AND 0x10 \<noteq> 0 then 256 else 0)"

definition packet_dy :: "u8 list \<Rightarrow> int" where
  "packet_dy p = - (uint (p ! 2) - (if p ! 0 AND 0x20 \<noteq> 0 then 256 else 0))"

definition mouse_packet :: "u32 \<Rightarrow> u32 \<Rightarrow> u8 list \<Rightarrow> mouse \<Rightarrow> mouse" where
  "mouse_packet fw fh pad m =
    (let p = pkt m
     in if p ! 0 AND 0xC0 \<noteq> 0 then m
        else let dx = packet_dx p; dy = packet_dy p
        in if fw = 0 \<or> fh = 0 then m
           else let m = m\<lparr>abs_x := clamp fw (s32 (abs_x m + dx)), abs_y := clamp fh (s32 (abs_y m + dy))\<rparr>
           in ev_push \<lparr>me_dx = dx, me_dy = dy, me_abs_x = abs_x m, me_abs_y = abs_y m, me_buttons = p ! 0 AND 7, me_pad = pad\<rparr> m)"

text \<open>\<open>status\<close> and \<open>b\<close> are what the ports give. A byte that is not the mouse's is read and dropped.\<close>

definition mouse_irq :: "u32 \<Rightarrow> u32 \<Rightarrow> u8 list \<Rightarrow> u8 \<Rightarrow> u8 \<Rightarrow> mouse \<Rightarrow> mouse" where
  "mouse_irq fw fh pad status b m =
    (if status AND 1 = 0 \<or> status AND 0x20 = 0 \<or> pkt_i m = 0 \<and> b AND 8 = 0 then m
     else let m = m\<lparr>pkt := (pkt m)[pkt_i m := b], pkt_i := pkt_i m + 1\<rparr>
     in if pkt_i m < 3 then m else mouse_packet fw fh pad (m\<lparr>pkt_i := 0\<rparr>))"

text \<open>What is written to the ports, when the controller gives the configuration \<open>cfg\<close>, and the new state.\<close>

definition mouse_init :: "u32 \<Rightarrow> u32 \<Rightarrow> u8 \<Rightarrow> mouse \<Rightarrow> (u16 \<times> u8) list \<times> mouse" where
  "mouse_init fw fh cfg m =
    ([(PS2_CMD, 0xA8), (PS2_CMD, 0x20), (PS2_CMD, 0x60), (PS2_DATA, (cfg OR 2) AND NOT 0x20)]
       @ concat (map (\<lambda>d. [(PS2_CMD, 0xD4), (PS2_DATA, d)]) [0xF6, 0xE8, 0x02, 0xF3, 40, 0xF4]),
     m\<lparr>abs_x := sint (fw div 2), abs_y := sint (fh div 2), pkt_i := 0\<rparr>)"

section \<open>The device file\<close>

definition mouse_event_bytes :: "mouse_event \<Rightarrow> u8 list" where
  "mouse_event_bytes e = concat (map (\<lambda>v. u32_bytes (word_of_int v)) [me_dx e, me_dy e, me_abs_x e, me_abs_y e]) @ me_buttons e # me_pad e"

definition SIZEOF_MOUSE_EVENT :: nat where "SIZEOF_MOUSE_EVENT = 20"

fun mouse0_read_loop :: "nat \<Rightarrow> mouse \<Rightarrow> u8 list \<times> mouse" where
  "mouse0_read_loop 0 m = ([], m)"
| "mouse0_read_loop (Suc n) m =
    (case mouse_get_event m of (None, m1) \<Rightarrow> ([], m1)
     | (Some e, m1) \<Rightarrow> let (bs, m2) = mouse0_read_loop n m1 in (mouse_event_bytes e @ bs, m2))"

definition mouse0_read :: "nat \<Rightarrow> mouse \<Rightarrow> u8 list \<times> mouse" where
  "mouse0_read count m = mouse0_read_loop (count div SIZEOF_MOUSE_EVENT) m"

definition mouse0_write :: int where "mouse0_write = -1"
definition mouse0_open :: u64 where "mouse0_open = 1"

section \<open>The events are a ring\<close>

definition mouse_ring :: "mouse \<Rightarrow> mouse_event ring" where
  "mouse_ring m = \<lparr>rg_buf = evbuf m, rg_head = ev_r m, rg_tail = ev_w m, rg_count = (ev_w m + MOUSE_BUF_SIZE - ev_r m) mod MOUSE_BUF_SIZE\<rparr>"

definition mouse_ok :: "mouse \<Rightarrow> bool" where
  "mouse_ok m \<longleftrightarrow> length (evbuf m) = MOUSE_BUF_SIZE \<and> ev_r m < MOUSE_BUF_SIZE \<and> ev_w m < MOUSE_BUF_SIZE"

abbreviation mouse_items :: "mouse \<Rightarrow> mouse_event list" where
  "mouse_items m \<equiv> ring_items (mouse_ring m)"

lemma mouse_ring_ok: "mouse_ok m \<Longrightarrow> ring_ok MOUSE_BUF_SIZE (mouse_ring m)"
  by (auto simp: mouse_ok_def ring_ok_def mouse_ring_def MOUSE_BUF_SIZE_def mod_simps)

lemma gap64: "r < 64 \<Longrightarrow> w < 64 \<Longrightarrow> (w + 64 - r) mod 64 = (if r \<le> w then w - r else w + 64 - r)" for r w :: nat
proof (cases "r \<le> w")
  case True
  assume "w < 64"
  have "w + 64 - r = (w - r) + 64" using True by simp
  then show ?thesis using True \<open>w < 64\<close> by (simp only: mod_add_self2) simp
qed simp

lemma suc64: "w < 64 \<Longrightarrow> Suc w mod 64 = (if w = 63 then 0 else Suc w)" for w :: nat
  by auto

lemma ev_push_ring:
  assumes "mouse_ok m"
  shows "mouse_ring (ev_push e m) = (if rg_count (mouse_ring m) = 63 then mouse_ring m else ring_put MOUSE_BUF_SIZE (mouse_ring m) e)"
proof -
  have r: "ev_r m < 64" "ev_w m < 64" using assms by (auto simp: mouse_ok_def MOUSE_BUF_SIZE_def)
  have "(ev_w m + 64 - ev_r m) mod 64 = 63 \<longleftrightarrow> (ev_w m + 1) mod 64 = ev_r m" using r by (auto simp: gap64 suc64 split: if_splits)
  moreover have "((ev_w m + 1) mod 64 + 64 - ev_r m) mod 64 = (ev_w m + 64 - ev_r m) mod 64 + 1"
    if "(ev_w m + 1) mod 64 \<noteq> ev_r m" using r that by (auto simp: gap64 suc64 split: if_splits)
  ultimately show ?thesis by (auto simp: ev_push_def mouse_ring_def ring_put_def MOUSE_BUF_SIZE_def Let_def)
qed

lemma mouse_get_ring:
  assumes "mouse_ok m" "mouse_has_event m"
  shows "mouse_get_event m = (Some (ring_front (mouse_ring m)), m\<lparr>ev_r := (ev_r m + 1) mod MOUSE_BUF_SIZE\<rparr>)"
    and "mouse_ring (m\<lparr>ev_r := (ev_r m + 1) mod MOUSE_BUF_SIZE\<rparr>) = ring_drop MOUSE_BUF_SIZE (mouse_ring m)"
    and "0 < rg_count (mouse_ring m)"
proof -
  have r: "ev_r m < 64" "ev_w m < 64" "ev_r m \<noteq> ev_w m" using assms by (auto simp: mouse_ok_def mouse_has_event_def MOUSE_BUF_SIZE_def)
  show "mouse_get_event m = (Some (ring_front (mouse_ring m)), m\<lparr>ev_r := (ev_r m + 1) mod MOUSE_BUF_SIZE\<rparr>)"
    using r by (simp add: mouse_get_event_def ring_front_def mouse_ring_def)
  have "(ev_w m + 64 - (ev_r m + 1) mod 64) mod 64 = (ev_w m + 64 - ev_r m) mod 64 - 1" using r by (auto simp: gap64 suc64 split: if_splits)
  then show "mouse_ring (m\<lparr>ev_r := (ev_r m + 1) mod MOUSE_BUF_SIZE\<rparr>) = ring_drop MOUSE_BUF_SIZE (mouse_ring m)"
    by (simp add: mouse_ring_def ring_drop_def MOUSE_BUF_SIZE_def)
  have "(ev_w m + 64 - ev_r m) mod 64 \<noteq> 0" using r by (auto simp: gap64)
  then show "0 < rg_count (mouse_ring m)" by (simp add: mouse_ring_def MOUSE_BUF_SIZE_def)
qed

lemma mouse_has_event_count: "mouse_ok m \<Longrightarrow> mouse_has_event m \<longleftrightarrow> 0 < rg_count (mouse_ring m)"
  using mouse_get_ring(3) [of m] by (auto simp: mouse_has_event_def mouse_ring_def MOUSE_BUF_SIZE_def)

lemma mouse_ok_push: "mouse_ok m \<Longrightarrow> mouse_ok (ev_push e m)"
  by (simp add: mouse_ok_def ev_push_def MOUSE_BUF_SIZE_def Let_def)

lemma ev_push_keeps [simp]: "abs_x (ev_push e m) = abs_x m" "abs_y (ev_push e m) = abs_y m" "pkt (ev_push e m) = pkt m" "pkt_i (ev_push e m) = pkt_i m"
  by (simp_all add: ev_push_def Let_def)

lemma ev_push_items:
  assumes "mouse_ok m"
  shows "mouse_items (ev_push e m) = (if length (mouse_items m) < 63 then mouse_items m @ [e] else mouse_items m)"
proof -
  have "(ev_w m + 64 - ev_r m) mod 64 < 64" by simp
  then have c: "rg_count (mouse_ring m) \<le> 63" unfolding mouse_ring_def MOUSE_BUF_SIZE_def ring.simps by linarith
  show ?thesis
  proof (cases "rg_count (mouse_ring m) = 63")
    case False
    with c have "rg_count (mouse_ring m) < MOUSE_BUF_SIZE" "rg_count (mouse_ring m) < 63" by (auto simp: MOUSE_BUF_SIZE_def)
    then show ?thesis using ring_put_ok [OF mouse_ring_ok [OF assms]] ev_push_ring [OF assms] by simp
  qed (simp add: ev_push_ring [OF assms])
qed

lemma mouse0_read_loop:
  "mouse_ok m \<Longrightarrow> fst (mouse0_read_loop n m) = concat (map mouse_event_bytes (take n (mouse_items m)))"
proof (induction n arbitrary: m)
  case (Suc n)
  show ?case
  proof (cases "mouse_has_event m")
    case True
    let ?m = "m\<lparr>ev_r := (ev_r m + 1) mod MOUSE_BUF_SIZE\<rparr>"
    note g = mouse_get_ring [OF Suc.prems True]
    have "mouse_ok ?m" using Suc.prems by (simp add: mouse_ok_def MOUSE_BUF_SIZE_def)
    moreover have "mouse_items m = ring_front (mouse_ring m) # mouse_items ?m"
      using ring_drop_ok [OF mouse_ring_ok [OF Suc.prems] g(3)] g(2) by simp
    ultimately show ?thesis using Suc.IH [of ?m] g(1) by (simp add: split_beta)
  next
    case False
    then have "mouse_items m = []" using mouse_has_event_count [OF Suc.prems] by (metis length_0_conv neq0_conv ring_items_length)
    then show ?thesis using False by (simp add: mouse_get_event_def mouse_has_event_def)
  qed
qed simp

section \<open>The position stays on the screen\<close>

definition on_screen :: "u32 \<Rightarrow> u32 \<Rightarrow> int \<Rightarrow> int \<Rightarrow> bool" where
  "on_screen fw fh x y \<longleftrightarrow> 0 \<le> x \<and> x < sint fw \<and> 0 \<le> y \<and> y < sint fh"

definition mouse_inv :: "u32 \<Rightarrow> u32 \<Rightarrow> mouse \<Rightarrow> bool" where
  "mouse_inv fw fh m \<longleftrightarrow> mouse_ok m \<and> length (pkt m) = 3 \<and> pkt_i m < 3 \<and> on_screen fw fh (abs_x m) (abs_y m)
     \<and> (\<forall>e \<in> set (mouse_items m). on_screen fw fh (me_abs_x e) (me_abs_y e))"

lemma clamp_range: "0 < sint size' \<Longrightarrow> 0 \<le> clamp size' v \<and> clamp size' v < sint size'"
  by (auto simp: clamp_def Let_def)

lemma mouse_ok_simps [simp]:
  "mouse_ok (m\<lparr>abs_x := x\<rparr>) = mouse_ok m" "mouse_ok (m\<lparr>abs_y := y\<rparr>) = mouse_ok m" "mouse_ok (m\<lparr>pkt := p\<rparr>) = mouse_ok m"
  "mouse_ok (m\<lparr>pkt_i := i\<rparr>) = mouse_ok m" "mouse_ring (m\<lparr>abs_x := x\<rparr>) = mouse_ring m" "mouse_ring (m\<lparr>abs_y := y\<rparr>) = mouse_ring m"
  "mouse_ring (m\<lparr>pkt := p\<rparr>) = mouse_ring m" "mouse_ring (m\<lparr>pkt_i := i\<rparr>) = mouse_ring m"
  by (simp_all add: mouse_ok_def mouse_ring_def)

lemma mouse_packet_inv:
  assumes "mouse_inv fw fh m" "0 < sint fw" "0 < sint fh"
  shows "mouse_inv fw fh (mouse_packet fw fh pad m)"
  using assms clamp_range [OF assms(2)] clamp_range [OF assms(3)]
  by (auto simp: mouse_packet_def mouse_inv_def Let_def on_screen_def mouse_ok_push ev_push_items split: if_splits)

lemma mouse_irq_inv:
  assumes "mouse_inv fw fh m" "0 < sint fw" "0 < sint fh"
  shows "mouse_inv fw fh (mouse_irq fw fh pad status b m)"
proof -
  have "mouse_inv fw fh (m\<lparr>pkt := p, pkt_i := i\<rparr>)" if "length p = 3" "i < 3" for p i
    using assms(1) that by (simp add: mouse_inv_def)
  moreover have "length (pkt m) = 3" using assms(1) by (simp add: mouse_inv_def)
  ultimately show ?thesis using assms(1) by (auto simp: mouse_irq_def Let_def intro!: mouse_packet_inv assms(2,3))
qed

definition mouse_scan :: "u32 \<Rightarrow> u32 \<Rightarrow> u8 list \<Rightarrow> (u8 \<times> u8) list \<Rightarrow> mouse \<Rightarrow> mouse" where
  "mouse_scan fw fh pad bs m = fold (\<lambda>(status, b). mouse_irq fw fh pad status b) bs m"

lemma mouse_scan_simps [simp]:
  "mouse_scan fw fh pad [] m = m" "mouse_scan fw fh pad ((s, b) # bs) m = mouse_scan fw fh pad bs (mouse_irq fw fh pad s b m)"
  "mouse_scan fw fh pad (as @ bs) m = mouse_scan fw fh pad bs (mouse_scan fw fh pad as m)"
  by (simp_all add: mouse_scan_def)

text \<open>
  C26. Whatever bytes the two ports deliver, the position of the mouse and those of all events that wait in the ring
  are on the screen.
\<close>

theorem mouse_stays_on_screen:
  assumes "mouse_inv fw fh m" "0 < sint fw" "0 < sint fh"
  shows "mouse_inv fw fh (mouse_scan fw fh pad bs m)"
  using assms(1) mouse_irq_inv [OF _ assms(2,3)] by (induction bs arbitrary: m) auto

section \<open>Packets become events\<close>

fun track :: "u32 \<Rightarrow> u32 \<Rightarrow> u8 list \<Rightarrow> int \<times> int \<Rightarrow> u8 list list \<Rightarrow> mouse_event list" where
  "track fw fh pad pos [] = []"
| "track fw fh pad (x, y) (p # ps) =
    (let x' = min (sint fw - 1) (max 0 (x + packet_dx p)); y' = min (sint fh - 1) (max 0 (y + packet_dy p))
     in \<lparr>me_dx = packet_dx p, me_dy = packet_dy p, me_abs_x = x', me_abs_y = y', me_buttons = p ! 0 AND 7, me_pad = pad\<rparr>
        # track fw fh pad (x', y') ps)"

text \<open>A packet: three bytes, the mark in the first one, and no overflow.\<close>

definition is_packet :: "u8 list \<Rightarrow> bool" where
  "is_packet p \<longleftrightarrow> length p = 3 \<and> p ! 0 AND 8 \<noteq> 0 \<and> p ! 0 AND 0xC0 = 0"

abbreviation from_mouse :: "u8 list \<Rightarrow> (u8 \<times> u8) list" where
  "from_mouse bs \<equiv> map (Pair 0x21) bs"

lemma scan_packet:
  assumes "is_packet p" "length (pkt m) = 3" "pkt_i m = 0"
  shows "mouse_scan fw fh pad (from_mouse p) m = mouse_packet fw fh pad (m\<lparr>pkt := p, pkt_i := 0\<rparr>)"
proof -
  obtain a b c where p: "p = [a, b, c]" using assms(1) by (auto simp: is_packet_def length_Suc_conv eval_nat_numeral)
  obtain x y z where q: "pkt m = [x, y, z]" using assms(2) by (auto simp: length_Suc_conv eval_nat_numeral)
  show ?thesis using assms(1,3) p q by (simp add: is_packet_def mouse_irq_def Let_def)
qed

lemma packet_bounds: "\<bar>packet_dx p\<bar> \<le> 256" "\<bar>packet_dy p\<bar> \<le> 256"
  using uint_lt2p [of "p ! 1"] uint_lt2p [of "p ! 2"] uint_ge_0 [of "p ! 1"] uint_ge_0 [of "p ! 2"]
  by (auto simp: packet_dx_def packet_dy_def simp del: uint_lt2p uint_ge_0)

definition screen_ok :: "u32 \<Rightarrow> bool" where
  "screen_ok limit \<longleftrightarrow> 0 < sint limit \<and> sint limit < 2 ^ 31 - 256"

lemma clamp_min_max: "screen_ok limit \<Longrightarrow> 0 \<le> x \<Longrightarrow> x < sint limit \<Longrightarrow> \<bar>d\<bar> \<le> 256 \<Longrightarrow>
   clamp limit (s32 (x + d)) = min (sint limit - 1) (max 0 (x + d))"
  by (subst s32_id) (auto simp: screen_ok_def clamp_def Let_def)

lemma scan_packets:
  assumes "list_all is_packet ps" "mouse_inv fw fh m" "pkt_i m = 0" "screen_ok fw" "screen_ok fh" "length (mouse_items m) + length ps \<le> 63"
  shows "mouse_items (mouse_scan fw fh pad (from_mouse (concat ps)) m) = mouse_items m @ track fw fh pad (abs_x m, abs_y m) ps
    \<and> mouse_ok (mouse_scan fw fh pad (from_mouse (concat ps)) m)"
  using assms
proof (induction ps arbitrary: m)
  case Nil
  then show ?case by (simp add: mouse_inv_def)
next
  case (Cons p ps)
  let ?m = "m\<lparr>pkt := p, pkt_i := 0\<rparr>"
  let ?x = "min (sint fw - 1) (max 0 (abs_x m + packet_dx p))" and ?y = "min (sint fh - 1) (max 0 (abs_y m + packet_dy p))"
  let ?n = "mouse_packet fw fh pad ?m"
  let ?e = "\<lparr>me_dx = packet_dx p, me_dy = packet_dy p, me_abs_x = ?x, me_abs_y = ?y, me_buttons = p ! 0 AND 7, me_pad = pad\<rparr>"
  have i: "mouse_ok m" "length (pkt m) = 3" "0 \<le> abs_x m" "abs_x m < sint fw" "0 \<le> abs_y m" "abs_y m < sint fh"
    using Cons.prems(2) by (auto simp: mouse_inv_def on_screen_def)
  have p: "is_packet p" using Cons.prems(1) by simp
  have s: "0 < sint fw" "0 < sint fh" "fw \<noteq> 0" "fh \<noteq> 0" using Cons.prems(4,5) by (auto simp: screen_ok_def)
  have n: "?n = ev_push ?e (?m\<lparr>abs_x := ?x, abs_y := ?y\<rparr>)"
    using p s clamp_min_max [OF Cons.prems(4) i(3,4) packet_bounds(1) [of p]] clamp_min_max [OF Cons.prems(5) i(5,6) packet_bounds(2) [of p]]
    by (simp add: mouse_packet_def is_packet_def Let_def)
  have inv: "mouse_inv fw fh ?n" using Cons.prems(2) p s by (intro mouse_packet_inv) (simp_all add: mouse_inv_def is_packet_def)
  have it: "mouse_items ?n = mouse_items m @ [?e]" unfolding n using Cons.prems(6) i(1) by (subst ev_push_items) auto
  have "abs_x ?n = ?x" "abs_y ?n = ?y" "pkt_i ?n = 0" unfolding n by simp_all
  with Cons.IH [of ?n] Cons.prems inv it show ?case
    by (simp add: scan_packet [OF p i(2) Cons.prems(3)] Let_def)
qed

section \<open>What the mouse means and what a program reads\<close>

text \<open>
  The reference, for both ends: a movement to the right and up, with the state of the three buttons, as the three bytes that a PS/2
  mouse sends for it (movements are numbers of nine bits, whose sign bits are in the first byte), and the numbers of four bytes in
  which a program reads the movement to the right and down and the position.
\<close>

record motion =
  mv_right :: int
  mv_up :: int
  mv_buttons :: u8

definition motion_ok :: "motion \<Rightarrow> bool" where
  "motion_ok v \<longleftrightarrow> -256 \<le> mv_right v \<and> mv_right v \<le> 255 \<and> -256 \<le> mv_up v \<and> mv_up v \<le> 255 \<and> mv_buttons v < 8"

definition ps2_packet :: "motion \<Rightarrow> u8 list" where
  "ps2_packet v = [8 + mv_buttons v + (if mv_right v < 0 then 16 else 0) + (if mv_up v < 0 then 32 else 0),
     word_of_int (mv_right v), word_of_int (mv_up v)]"

definition le_int :: "int \<Rightarrow> u8 list" where
  "le_int v = [word_of_int v, word_of_int (v div 256), word_of_int (v div 65536), word_of_int (v div 16777216)]"

fun reported :: "u32 \<Rightarrow> u32 \<Rightarrow> u8 list \<Rightarrow> int \<Rightarrow> int \<Rightarrow> motion list \<Rightarrow> u8 list" where
  "reported fw fh pad x y [] = []"
| "reported fw fh pad x y (v # vs) =
    (let x' = min (sint fw - 1) (max 0 (x + mv_right v)); y' = min (sint fh - 1) (max 0 (y - mv_up v))
     in le_int (mv_right v) @ le_int (- mv_up v) @ le_int x' @ le_int y' @ [mv_buttons v] @ pad @ reported fw fh pad x' y' vs)"

lemma le_int_bytes: "u32_bytes (word_of_int v) = le_int v"
proof -
  have "ucast (drop_bit n (word_of_int v :: u32)) = (word_of_int (v div 2 ^ n) :: u8)" if "n \<le> 24" for n
    using that by (intro bit_word_eqI) (auto simp: bit_simps simp flip: drop_bit_eq_div)
  from this [of 0] this [of 8] this [of 16] this [of 24] show ?thesis by (simp add: u32_bytes_def le_int_def upt_rec)
qed

lemma below_8: "(b :: u8) < 8 \<Longrightarrow> b \<in> {0, 1, 2, 3, 4, 5, 6, 7}"
proof -
  assume "b < 8"
  then have "unat b < 8" by (simp add: word_less_nat_alt)
  then have "unat b = 0 \<or> unat b = 1 \<or> unat b = 2 \<or> unat b = 3 \<or> unat b = 4 \<or> unat b = 5 \<or> unat b = 6 \<or> unat b = 7" by presburger
  then show ?thesis by (auto simp: word_unat_eq_iff)
qed

lemma nine_bits: "-256 \<le> v \<Longrightarrow> v \<le> 255 \<Longrightarrow> uint (word_of_int v :: u8) - (if v < 0 then 256 else 0) = v"
proof -
  assume v: "-256 \<le> v" "v \<le> 255"
  have "uint (word_of_int v :: u8) = v mod 256" by (simp add: uint_word_of_int)
  moreover have "v mod 256 = (if v < 0 then v + 256 else v)"
  proof (cases "v < 0")
    case True
    then have "(v + 256) mod 256 = v + 256" using v by (intro mod_pos_pos_trivial) auto
    then show ?thesis using True by simp
  qed (use v in simp)
  ultimately show ?thesis by simp
qed

lemma first_byte:
  fixes b :: u8 and s t :: bool
  assumes "b < 8"
  defines "p \<equiv> 8 + b + (if s then 16 else 0) + (if t then 32 else 0) :: u8"
  shows "p AND 8 \<noteq> 0 \<and> p AND 0xC0 = 0 \<and> (p AND 0x10 \<noteq> 0 \<longleftrightarrow> s) \<and> (p AND 0x20 \<noteq> 0 \<longleftrightarrow> t) \<and> p AND 7 = b"
  using below_8 [OF assms(1)] by (cases s; cases t) (auto simp: p_def)

lemma ps2_packet_reads:
  assumes "motion_ok v"
  shows "is_packet (ps2_packet v)" "packet_dx (ps2_packet v) = mv_right v" "packet_dy (ps2_packet v) = - mv_up v"
    "ps2_packet v ! 0 AND 7 = mv_buttons v"
  using assms first_byte [of "mv_buttons v" "mv_right v < 0" "mv_up v < 0"] nine_bits [of "mv_right v"] nine_bits [of "mv_up v"]
  by (simp_all add: motion_ok_def is_packet_def packet_dx_def packet_dy_def ps2_packet_def)

lemma track_reported:
  "list_all motion_ok vs \<Longrightarrow>
    concat (map mouse_event_bytes (track fw fh pad (x, y) (map ps2_packet vs))) = reported fw fh pad x y vs"
  by (induction vs arbitrary: x y) (simp_all add: ps2_packet_reads mouse_event_bytes_def le_int_bytes Let_def)

text \<open>
  C27. What the mouse sends for up to 63 movements comes out of the device file as these movements, in order, with the y axis
  pointing down: each with its buttons and with the position, which is moved by it and kept inside the screen.
\<close>

theorem mouse_tracks:
  assumes "list_all motion_ok vs" "mouse_inv fw fh m" "pkt_i m = 0" "screen_ok fw" "screen_ok fh" "mouse_items m = []" "length vs \<le> 63"
    and "20 * length vs \<le> count"
  shows "fst (mouse0_read count (mouse_scan fw fh pad (from_mouse (concat (map ps2_packet vs))) m)) = reported fw fh pad (abs_x m) (abs_y m) vs"
proof -
  let ?ps = "map ps2_packet vs"
  let ?m = "mouse_scan fw fh pad (from_mouse (concat ?ps)) m"
  have ps: "list_all is_packet ?ps" using assms(1) ps2_packet_reads(1) by (auto simp: list_all_iff)
  have s: "mouse_items ?m = track fw fh pad (abs_x m, abs_y m) ?ps" "mouse_ok ?m"
    using scan_packets [OF ps assms(2-5), of pad] assms(6,7) by simp_all
  have "length (track fw fh pad pos qs) = length qs" for pos qs
    by (induction qs arbitrary: pos) (simp, metis (no_types, lifting) length_Cons surj_pair track.simps(2))
  then have "length (mouse_items ?m) \<le> count div SIZEOF_MOUSE_EVENT" using assms(8) s by (simp add: SIZEOF_MOUSE_EVENT_def)
  then show ?thesis unfolding mouse0_read_def using mouse0_read_loop [OF s(2)] s(1) track_reported [OF assms(1)] by simp
qed

definition mouse_ex :: mouse where
  "mouse_ex = \<lparr>evbuf = replicate 64 \<lparr>me_dx = 0, me_dy = 0, me_abs_x = 0, me_abs_y = 0, me_buttons = 0, me_pad = [0, 0, 0]\<rparr>,
     ev_r = 0, ev_w = 0, abs_x = 512, abs_y = 384, pkt = [0, 0, 0], pkt_i = 0\<rparr>"

lemma mouse_ex_inv: "mouse_inv 1024 768 mouse_ex" "mouse_items mouse_ex = []" "pkt_i mouse_ex = 0"
  by (simp_all add: mouse_inv_def mouse_ex_def mouse_ok_def mouse_ring_def ring_items_def on_screen_def MOUSE_BUF_SIZE_def)

theorem mouse_stays_on_screen_witness:
  "mouse_inv 1024 768 (mouse_scan 1024 768 [0, 0, 0] (from_mouse [0x18, 0x00, 0xFF, 0x08]) mouse_ex)"
  by (rule mouse_stays_on_screen) (simp_all add: mouse_ex_inv)

theorem mouse_tracks_witness:
  "fst (mouse0_read 60 (mouse_scan 1024 768 [0, 0, 0] (from_mouse [0x09, 10, 0, 0x38, 0xF6, 0xFF]) mouse_ex))
   = [10, 0, 0, 0, 0, 0, 0, 0, 0x0A, 2, 0, 0, 0x80, 1, 0, 0, 1, 0, 0, 0,
      0xF6, 0xFF, 0xFF, 0xFF, 1, 0, 0, 0, 0, 2, 0, 0, 0x81, 1, 0, 0, 0, 0, 0, 0]"
proof -
  let ?vs = "[\<lparr>mv_right = 10, mv_up = 0, mv_buttons = 1\<rparr>, \<lparr>mv_right = -10, mv_up = -1, mv_buttons = 0\<rparr>]"
  have pos: "abs_x mouse_ex = 512" "abs_y mouse_ex = 384" by (simp_all add: mouse_ex_def)
  have ps: "concat (map ps2_packet ?vs) = [0x09, 10, 0, 0x38, 0xF6, 0xFF]" by (simp add: ps2_packet_def)
  have "reported 1024 768 [0, 0, 0] 512 384 ?vs =
     [10, 0, 0, 0, 0, 0, 0, 0, 0x0A, 2, 0, 0, 0x80, 1, 0, 0, 1, 0, 0, 0,
      0xF6, 0xFF, 0xFF, 0xFF, 1, 0, 0, 0, 0, 2, 0, 0, 0x81, 1, 0, 0, 0, 0, 0, 0]"
    by (simp add: le_int_def)
  then show ?thesis using mouse_tracks [where m = mouse_ex and vs = ?vs and fw = 1024 and fh = 768 and pad = "[0, 0, 0]" and count = 60, unfolded pos ps]
    by (simp add: mouse_ex_inv screen_ok_def motion_ok_def)
qed

end
