(* ===== verification/Emxrc.thy ===== *)
theory Emxrc
  imports LibcText "HOL-Library.Monad_Syntax"
begin

text \<open>
  The start script of the system, \<^verbatim>\<open>user/apps/system/emxrc.c\<close>: the tokens, the reader, which makes a list of variables and a list of
  commands, and the interpreter of the commands. The text of the file is an argument, \<open>None\<close> when it cannot be opened; what the
  interpreter does is the list of its actions. The structure that is filled is zeroed before, as the caller's static one is. An
  access outside of a buffer is undefined.
\<close>

definition EMXRC_MAX_VARS :: nat where "EMXRC_MAX_VARS = 255"
definition EMXRC_MAX_EXECS :: nat where "EMXRC_MAX_EXECS = 255"

datatype emxrc_fmt = EMXRC_FMT_ELF | EMXRC_FMT_EP | EMXRC_FMT_INHERIT

record emxrc_var =
  rv_name :: string
  rv_path :: string
  rv_fmt :: emxrc_fmt

record emxrc_exec =
  re_var_name :: string
  re_direct_path :: string
  re_fmt :: emxrc_fmt
  re_bg :: bool
  re_is_wait :: bool
  re_is_print :: bool
  re_is_elog :: bool
  re_is_if :: bool
  re_is_else :: bool
  re_is_endif :: bool
  re_message :: string
  re_wait_time :: int

record emxrc =
  rc_vars :: "emxrc_var list"
  rc_execs :: "emxrc_exec list"

definition zero_exec :: emxrc_exec where
  "zero_exec = \<lparr>re_var_name = [], re_direct_path = [], re_fmt = EMXRC_FMT_ELF, re_bg = False, re_is_wait = False, re_is_print = False,
     re_is_elog = False, re_is_if = False, re_is_else = False, re_is_endif = False, re_message = [], re_wait_time = 0\<rparr>"

section \<open>Tokens\<close>

definition rc_blank :: "char \<Rightarrow> bool" where "rc_blank c \<longleftrightarrow> c = CHR '' '' \<or> c = CHR 0x09"
definition rc_newline :: "char \<Rightarrow> bool" where "rc_newline c \<longleftrightarrow> c = CHR 0x0A"
definition rc_punct :: "char \<Rightarrow> bool" where "rc_punct c \<longleftrightarrow> c = CHR ''='' \<or> c = CHR ''('' \<or> c = CHR '')'' \<or> c = CHR '':''"
definition rc_word :: "char \<Rightarrow> bool" where "rc_word c \<longleftrightarrow> \<not> rc_blank c \<and> \<not> rc_newline c \<and> \<not> rc_punct c \<and> c \<noteq> CHR 0x22"

text \<open>The token, when there is one, and the rest of the text; undefined when a quoted text does not fit into \<open>tb\<close>.\<close>

definition rc_tok :: "string \<Rightarrow> (string option \<times> string) option" where
  "rc_tok s =
    (case dropWhile rc_blank s of [] \<Rightarrow> Some (None, [])
     | c # r \<Rightarrow>
       if rc_newline c then Some (None, c # r)
       else if c = CHR 0x22 then
         (let t = takeWhile (\<lambda>x. x \<noteq> CHR 0x22 \<and> \<not> rc_newline x) r; r = dropWhile (\<lambda>x. x \<noteq> CHR 0x22 \<and> \<not> rc_newline x) r
          in if 256 \<le> length t then None
             else Some (Some t, if r \<noteq> [] \<and> hd r = CHR 0x22 then tl r else r))
       else if rc_punct c then Some (Some [c], r)
       else let w = take 255 (takeWhile rc_word (c # r)) in Some (Some w, drop (length w) (c # r)))"

definition skipline :: "string \<Rightarrow> string" where
  "skipline s = tl (dropWhile (\<lambda>c. \<not> rc_newline c) s)"

definition is_direct_path :: "string \<Rightarrow> bool" where
  "is_direct_path s \<longleftrightarrow> s \<noteq> [] \<and> (hd s = CHR ''/'' \<or> hd s = CHR ''.'')"

lemma skipline_le: "length (skipline s) \<le> length s - 1"
  using length_dropWhile_le [of "\<lambda>c. \<not> rc_newline c" s] by (auto simp: skipline_def)

lemma rc_tok_le: "rc_tok s = Some (t, r) \<Longrightarrow> length r \<le> length s"
proof -
  assume *: "rc_tok s = Some (t, r)"
  have d: "length (dropWhile rc_blank s) \<le> length s" by (rule length_dropWhile_le)
  show ?thesis
  proof (cases "dropWhile rc_blank s")
    case (Cons c q)
    have "length (dropWhile (\<lambda>x. x \<noteq> CHR 0x22 \<and> \<not> rc_newline x) q) \<le> length q" by (rule length_dropWhile_le)
    then have "length r \<le> length (dropWhile rc_blank s)" using * by (auto simp: rc_tok_def Cons Let_def split: if_splits)
    then show ?thesis using d by (rule le_trans)
  next
    case Nil
    show ?thesis using * unfolding rc_tok_def Nil by simp
  qed
qed

section \<open>Reading a line\<close>

text \<open>The rest of a line behind its first word: what is left, and the new variable or command.\<close>

definition rc_var :: "string \<Rightarrow> (string \<times> emxrc_var option) option" where
  "rc_var s = do {
     (name, s) \<leftarrow> rc_tok s;
     case name of None \<Rightarrow> Some (s, None)
     | Some name \<Rightarrow> do {
         (_, s) \<leftarrow> rc_tok s;
         (_, s) \<leftarrow> rc_tok s;
         (next, s) \<leftarrow> rc_tok s;
         (fmt, next, s) \<leftarrow> (if next = Some ''ep'' then do { (_, s) \<leftarrow> rc_tok s; (next, s) \<leftarrow> rc_tok s; Some (EMXRC_FMT_EP, next, s) }
           else Some (EMXRC_FMT_ELF, next, s));
         Some (s, Some \<lparr>rv_name = take 63 name, rv_path = (case next of None \<Rightarrow> [] | Some p \<Rightarrow> take 255 p), rv_fmt = fmt\<rparr>)
       }
   }"

definition rc_message :: "(string \<Rightarrow> emxrc_exec) \<Rightarrow> string \<Rightarrow> (string \<times> emxrc_exec option) option" where
  "rc_message e s = do {
     (_, s) \<leftarrow> rc_tok s;
     (msg, s) \<leftarrow> rc_tok s;
     Some (s, Some (e (case msg of None \<Rightarrow> [] | Some m \<Rightarrow> take 255 m)))
   }"

definition rc_wait :: "string \<Rightarrow> (string \<times> emxrc_exec option) option" where
  "rc_wait s = do {
     (t, s) \<leftarrow> rc_tok s;
     Some (s, Some (zero_exec\<lparr>re_is_wait := True, re_wait_time := (case t of None \<Rightarrow> 0 | Some x \<Rightarrow> c_atoi x)\<rparr>))
   }"

definition rc_if :: "string \<Rightarrow> (string \<times> emxrc_exec option) option" where
  "rc_if s = do {
     (v, s) \<leftarrow> rc_tok s;
     Some (s, Some (zero_exec\<lparr>re_is_if := True, re_var_name := (case v of None \<Rightarrow> [] | Some x \<Rightarrow> take 63 x)\<rparr>))
   }"

text \<open>The options before the name of the program; the fuel is the length of the text.\<close>

fun rc_options :: "nat \<Rightarrow> string option \<Rightarrow> string \<Rightarrow> emxrc_exec \<Rightarrow> (string option \<times> string \<times> emxrc_exec) option" where
  "rc_options 0 next s e = Some (next, s, e)"
| "rc_options (Suc n) next s e =
    (case next of None \<Rightarrow> Some (None, s, e)
     | Some w \<Rightarrow>
       if w = [] \<or> hd w \<noteq> CHR ''-'' then Some (Some w, s, e)
       else if tl w = ''bg'' then do { (next, s) \<leftarrow> rc_tok s; rc_options n next s (e\<lparr>re_bg := True\<rparr>) }
       else if deref (tl w) = CHR ''f'' then do {
         (fs, s) \<leftarrow> rc_tok s;
         (next, s) \<leftarrow> rc_tok s;
         rc_options n next s (e\<lparr>re_fmt := (if fs = Some ''ep'' then EMXRC_FMT_EP else EMXRC_FMT_ELF)\<rparr>)
       }
       else do { (next, s) \<leftarrow> rc_tok s; rc_options n next s e })"

definition rc_exec_path :: "string \<Rightarrow> emxrc_exec \<Rightarrow> emxrc_exec" where
  "rc_exec_path next e =
    (if is_direct_path next then
       e\<lparr>re_direct_path := take 255 next,
         re_fmt := (if re_fmt e = EMXRC_FMT_INHERIT then
           (if 4 < length next \<and> drop (length next - 4) next = ''.emx'' then EMXRC_FMT_EP else EMXRC_FMT_ELF) else re_fmt e)\<rparr>
     else e\<lparr>re_var_name := take 63 next\<rparr>)"

definition rc_exec :: "string \<Rightarrow> (string \<times> emxrc_exec option) option" where
  "rc_exec s = do {
     (next, s) \<leftarrow> rc_tok s;
     (next, s, e) \<leftarrow> rc_options (Suc (length s)) next s (zero_exec\<lparr>re_fmt := EMXRC_FMT_INHERIT\<rparr>);
     case next of None \<Rightarrow> Some (s, None) | Some w \<Rightarrow> Some (s, Some (rc_exec_path w e))
   }"

definition rc_add :: "(string \<times> emxrc_exec option) option \<Rightarrow> emxrc \<Rightarrow> (string \<times> emxrc) option" where
  "rc_add r rc = do {
     (s, e) \<leftarrow> r;
     Some (s, case e of None \<Rightarrow> rc | Some e \<Rightarrow> rc\<lparr>rc_execs := rc_execs rc @ [e]\<rparr>)
   }"

text \<open>\<open>else\<close> and \<open>endif\<close> do not look at the number of commands: the 256th is written behind the array.\<close>

definition rc_line :: "string \<Rightarrow> string \<Rightarrow> emxrc \<Rightarrow> (string \<times> emxrc) option" where
  "rc_line kw s rc =
    (let room = length (rc_execs rc) < EMXRC_MAX_EXECS
     in if kw = ''var'' \<and> length (rc_vars rc) < EMXRC_MAX_VARS then do {
          (s, v) \<leftarrow> rc_var s;
          Some (s, case v of None \<Rightarrow> rc | Some v \<Rightarrow> rc\<lparr>rc_vars := rc_vars rc @ [v]\<rparr>)
        }
        else if kw = ''print'' \<and> room then rc_add (rc_message (\<lambda>m. zero_exec\<lparr>re_is_print := True, re_message := m\<rparr>) s) rc
        else if kw = ''elog'' \<and> room then rc_add (rc_message (\<lambda>m. zero_exec\<lparr>re_is_elog := True, re_message := m\<rparr>) s) rc
        else if kw = ''wait'' \<and> room then rc_add (rc_wait s) rc
        else if kw = ''exec'' \<and> room then rc_add (rc_exec s) rc
        else if kw = ''if'' \<and> room then rc_add (rc_if s) rc
        else if kw = ''else'' then (if room then rc_add (Some (s, Some (zero_exec\<lparr>re_is_else := True\<rparr>))) rc else None)
        else if kw = ''endif'' then (if room then rc_add (Some (s, Some (zero_exec\<lparr>re_is_endif := True\<rparr>))) rc else None)
        else Some (s, rc))"

lemma rc_var_le: "rc_var s = Some (r, v) \<Longrightarrow> length r \<le> length s"
  unfolding rc_var_def
  by (auto simp: bind_eq_Some_conv split: option.splits if_splits dest!: rc_tok_le)

lemma rc_options_le: "rc_options n next s e = Some (w, r, e') \<Longrightarrow> length r \<le> length s"
proof (induction n arbitrary: "next" s e)
  case (Suc n)
  from Suc.prems show ?case
    by (auto simp: bind_eq_Some_conv split: option.splits if_splits dest!: rc_tok_le Suc.IH)
qed simp

declare rc_options.simps [simp del]

lemma rc_exec_le: "rc_exec s = Some (r, v) \<Longrightarrow> length r \<le> length s"
  unfolding rc_exec_def
  by (auto simp: bind_eq_Some_conv split: option.splits dest!: rc_tok_le rc_options_le)

lemma rc_line_le: "rc_line kw s rc = Some (r, rc') \<Longrightarrow> length r \<le> length s"
  unfolding rc_line_def rc_add_def rc_message_def rc_wait_def rc_if_def
  by (auto simp: bind_eq_Some_conv Let_def split: if_splits dest!: rc_tok_le rc_var_le rc_exec_le)

function emxrc_loop :: "string \<Rightarrow> emxrc \<Rightarrow> emxrc option" where
  "emxrc_loop s rc =
    (let t = dropWhile rc_blank s
     in if t = [] then Some rc
        else if rc_newline (hd t) then emxrc_loop (tl t) rc
        else if hd t = CHR ''/'' \<and> deref (tl t) = CHR ''/'' then emxrc_loop (skipline t) rc
        else case rc_tok t of None \<Rightarrow> None
          | Some (None, r) \<Rightarrow> emxrc_loop (skipline r) rc
          | Some (Some kw, r) \<Rightarrow> (case rc_line kw r rc of None \<Rightarrow> None | Some (r, rc) \<Rightarrow> emxrc_loop (skipline r) rc))"
  by pat_completeness auto
termination
proof (relation "measure (\<lambda>(s, rc). length s)")
  fix s t and rc :: emxrc
  assume t: "t = dropWhile rc_blank s" and n: "t \<noteq> []"
  have le: "length t \<le> length s" unfolding t by (rule length_dropWhile_le)
  have sk: "length (skipline r) < length s" if "length r \<le> length t" for r
    using that n le skipline_le [of r] by (cases t) auto
  show "((tl t, rc), s, rc) \<in> measure (\<lambda>(s, rc). length s)" using n le by (cases t) auto
  show "((skipline t, rc), s, rc) \<in> measure (\<lambda>(s, rc). length s)" using sk by simp
  fix a k r
  assume a: "rc_tok t = Some a" "(k, r) = a"
  then have r: "length r \<le> length t" using rc_tok_le by metis
  show "((skipline r, rc), s, rc) \<in> measure (\<lambda>(s, rc). length s)" using sk [OF r] by simp
  fix kw b r' rc'
  assume "rc_line kw r rc = Some b" "(r', rc') = b"
  then have "length r' \<le> length r" using rc_line_le by metis
  then show "((skipline r', rc'), s, rc) \<in> measure (\<lambda>(s, rc). length s)" using sk r by simp
qed simp

declare emxrc_loop.simps [simp del]

text \<open>At most 2047 bytes of the file are read.\<close>

definition emxrc_parse :: "string option \<Rightarrow> (int \<times> emxrc) option" where
  "emxrc_parse file =
    (case file of None \<Rightarrow> Some (-1, \<lparr>rc_vars = [], rc_execs = []\<rparr>)
     | Some text \<Rightarrow>
       if text = [] then Some (-1, \<lparr>rc_vars = [], rc_execs = []\<rparr>)
       else map_option (Pair 0) (emxrc_loop (takeWhile (\<lambda>c. c \<noteq> NUL) (take 2047 text)) \<lparr>rc_vars = [], rc_execs = []\<rparr>))"

section \<open>Running\<close>

datatype rc_action = DoWait int | DoPrint string | DoElog string | DoUnknown string | DoExec string emxrc_fmt bool

definition rc_lookup :: "emxrc_var list \<Rightarrow> string \<Rightarrow> emxrc_var option" where
  "rc_lookup vs name = find (\<lambda>v. rv_name v = name) vs"

definition rc_start :: "emxrc_var list \<Rightarrow> emxrc_exec \<Rightarrow> rc_action" where
  "rc_start vs e =
    (if re_direct_path e \<noteq> [] then DoExec (re_direct_path e) (re_fmt e) (re_bg e)
     else case rc_lookup vs (re_var_name e) of
       None \<Rightarrow> DoUnknown (re_var_name e)
     | Some v \<Rightarrow> DoExec (rv_path v) (if re_fmt e = EMXRC_FMT_INHERIT then rv_fmt v else re_fmt e) (re_bg e))"

text \<open>\<open>stack\<close> is \<open>if_stack\<close> from its top down; it has 32 places.\<close>

fun emxrc_run_loop :: "emxrc_var list \<Rightarrow> emxrc_exec list \<Rightarrow> bool list \<Rightarrow> rc_action list option" where
  "emxrc_run_loop vs [] stack = Some []"
| "emxrc_run_loop vs (e # es) stack =
    (if re_is_wait e then map_option (Cons (DoWait (re_wait_time e))) (emxrc_run_loop vs es stack)
     else if re_is_print e then map_option (Cons (DoPrint (re_message e))) (emxrc_run_loop vs es stack)
     else if re_is_elog e then map_option (Cons (DoElog (re_message e))) (emxrc_run_loop vs es stack)
     else if re_is_if e then
       (if 32 \<le> length stack then None else emxrc_run_loop vs es ((rc_lookup vs (re_var_name e) = None) # stack))
     else if re_is_else e then emxrc_run_loop vs es (case stack of [] \<Rightarrow> [] | b # bs \<Rightarrow> (\<not> b) # bs)
     else if re_is_endif e then emxrc_run_loop vs es (tl stack)
     else if stack \<noteq> [] \<and> hd stack then emxrc_run_loop vs es stack
     else map_option (Cons (rc_start vs e)) (emxrc_run_loop vs es stack))"

definition emxrc_run :: "emxrc \<Rightarrow> rc_action list option" where
  "emxrc_run rc = emxrc_run_loop (rc_vars rc) (rc_execs rc) []"

section \<open>What a script does\<close>

text \<open>A script as it is meant: commands and conditions.\<close>

datatype rc_prog = RWait int | RPrint string | RElog string | RRun emxrc_exec | RIf string "rc_prog list" "rc_prog list option"

definition plain_exec :: "emxrc_exec \<Rightarrow> bool" where
  "plain_exec e \<longleftrightarrow> \<not> re_is_wait e \<and> \<not> re_is_print e \<and> \<not> re_is_elog e \<and> \<not> re_is_if e \<and> \<not> re_is_else e \<and> \<not> re_is_endif e"

function rc_cmds :: "rc_prog list \<Rightarrow> emxrc_exec list" where
  "rc_cmds [] = []"
| "rc_cmds (RWait n # ps) = zero_exec\<lparr>re_is_wait := True, re_wait_time := n\<rparr> # rc_cmds ps"
| "rc_cmds (RPrint m # ps) = zero_exec\<lparr>re_is_print := True, re_message := m\<rparr> # rc_cmds ps"
| "rc_cmds (RElog m # ps) = zero_exec\<lparr>re_is_elog := True, re_message := m\<rparr> # rc_cmds ps"
| "rc_cmds (RRun e # ps) = e # rc_cmds ps"
| "rc_cmds (RIf v as None # ps) = zero_exec\<lparr>re_is_if := True, re_var_name := v\<rparr> # rc_cmds as @ zero_exec\<lparr>re_is_endif := True\<rparr> # rc_cmds ps"
| "rc_cmds (RIf v as (Some bs) # ps) = zero_exec\<lparr>re_is_if := True, re_var_name := v\<rparr> # rc_cmds as
     @ zero_exec\<lparr>re_is_else := True\<rparr> # rc_cmds bs @ zero_exec\<lparr>re_is_endif := True\<rparr> # rc_cmds ps"
  by pat_completeness auto
termination by size_change

text \<open>What it does: the conditions decide about the programs alone, and each one about those directly below it. Waiting and messages come
  from all branches.\<close>

function rc_does :: "emxrc_var list \<Rightarrow> bool \<Rightarrow> rc_prog list \<Rightarrow> rc_action list" where
  "rc_does vs skip [] = []"
| "rc_does vs skip (RWait n # ps) = DoWait n # rc_does vs skip ps"
| "rc_does vs skip (RPrint m # ps) = DoPrint m # rc_does vs skip ps"
| "rc_does vs skip (RElog m # ps) = DoElog m # rc_does vs skip ps"
| "rc_does vs skip (RRun e # ps) = (if skip then [] else [rc_start vs e]) @ rc_does vs skip ps"
| "rc_does vs skip (RIf v as None # ps) = rc_does vs (rc_lookup vs v = None) as @ rc_does vs skip ps"
| "rc_does vs skip (RIf v as (Some bs) # ps) = rc_does vs (rc_lookup vs v = None) as @ rc_does vs (rc_lookup vs v \<noteq> None) bs @ rc_does vs skip ps"
  by pat_completeness auto
termination by size_change

text \<open>How deep the conditions are nested, and the commands that start programs are only that.\<close>

function rc_fits :: "nat \<Rightarrow> rc_prog list \<Rightarrow> bool" where
  "rc_fits n [] = True"
| "rc_fits n (RWait k # ps) = rc_fits n ps"
| "rc_fits n (RPrint m # ps) = rc_fits n ps"
| "rc_fits n (RElog m # ps) = rc_fits n ps"
| "rc_fits n (RRun e # ps) = (plain_exec e \<and> rc_fits n ps)"
| "rc_fits n (RIf v as None # ps) = (0 < n \<and> rc_fits (n - 1) as \<and> rc_fits n ps)"
| "rc_fits n (RIf v as (Some bs) # ps) = (0 < n \<and> rc_fits (n - 1) as \<and> rc_fits (n - 1) bs \<and> rc_fits n ps)"
  by pat_completeness auto
termination by size_change

lemma append_Cons_fun: "(@) (a # b) = (\<lambda>x. a # b @ x)" "(@) [] = (\<lambda>x. x)" "(@) (c @ d) = (\<lambda>x. c @ d @ x)"
  by (simp_all add: fun_eq_iff)

lemma run_loop_does:
  "rc_fits n ps \<Longrightarrow> length stack + n \<le> 32 \<Longrightarrow>
   emxrc_run_loop vs (rc_cmds ps @ es) stack
   = map_option ((@) (rc_does vs (stack \<noteq> [] \<and> hd stack) ps)) (emxrc_run_loop vs es stack)"
proof (induction ps arbitrary: n stack es rule: rc_cmds.induct)
  case 1
  then show ?case by (simp add: option.map_ident)
next
  case (5 e ps)
  have "rc_fits n ps" "plain_exec e" using 5(2) by simp_all
  then show ?case using 5(1) [of n stack es] 5(3) by (simp add: plain_exec_def option.map_comp o_def)
next
  case (6 v as ps)
  have f: "rc_fits (n - 1) as" "rc_fits n ps" "0 < n" using 6(3) by simp_all
  have "emxrc_run_loop vs (rc_cmds as @ fs) (b # stack) = map_option ((@) (rc_does vs b as)) (emxrc_run_loop vs fs (b # stack))" for b fs
    using 6(1) [of "n - 1" "b # stack" fs] f 6(4) by simp
  then show ?case using 6(2) [OF f(2) 6(4)] f 6(4) by (simp add: zero_exec_def option.map_comp o_def)
next
  case (7 v as bs ps)
  have f: "rc_fits (n - 1) as" "rc_fits (n - 1) bs" "rc_fits n ps" "0 < n" using 7(4) by simp_all
  have "emxrc_run_loop vs (rc_cmds as @ fs) (b # stack) = map_option ((@) (rc_does vs b as)) (emxrc_run_loop vs fs (b # stack))"
    "emxrc_run_loop vs (rc_cmds bs @ fs) (b # stack) = map_option ((@) (rc_does vs b bs)) (emxrc_run_loop vs fs (b # stack))" for b fs
    using 7(1) [of "n - 1" "b # stack" fs] 7(2) [of "n - 1" "b # stack" fs] f 7(5) by simp_all
  then show ?case using 7(3) [OF f(3) 7(5)] f 7(5) by (simp add: zero_exec_def option.map_comp o_def)
qed (simp_all add: zero_exec_def option.map_comp o_def append_Cons_fun)

text \<open>
  C34. The commands of a script with well nested conditions, up to 32 deep, run as the script says: a program is started
  when the innermost condition around it chooses its branch, whatever the outer ones say, and messages appear from both branches.
\<close>

theorem emxrc_runs_script:
  assumes "rc_fits 32 ps"
  shows "emxrc_run \<lparr>rc_vars = vs, rc_execs = rc_cmds ps\<rparr> = Some (rc_does vs False ps)"
  using run_loop_does [OF assms, of "[]" vs "[]"] by (simp add: emxrc_run_def)

definition exec_of :: "string \<Rightarrow> emxrc_exec" where
  "exec_of v = zero_exec\<lparr>re_var_name := v, re_fmt := EMXRC_FMT_INHERIT\<rparr>"

text \<open>The start script of the system: its warning is printed although the variable is there.\<close>

theorem emxrc_runs_script_witness:
  "emxrc_run \<lparr>rc_vars = [\<lparr>rv_name = ''gui'', rv_path = [], rv_fmt = EMXRC_FMT_ELF\<rparr>, \<lparr>rv_name = ''desktop'', rv_path = ''/d'', rv_fmt = EMXRC_FMT_ELF\<rparr>],
     rc_execs = rc_cmds [RIf ''gui'' [RRun (exec_of ''desktop'')] (Some [RPrint ''[warning] gui NOT found'', RRun (exec_of ''shell'')])]\<rparr>
   = Some [DoExec ''/d'' EMXRC_FMT_ELF False, DoPrint ''[warning] gui NOT found'']"
  by (subst emxrc_runs_script) (simp_all add: exec_of_def plain_exec_def zero_exec_def rc_start_def rc_lookup_def)

text \<open>A program inside of a condition that fails is started when a condition inside of it holds.\<close>

lemma emxrc_nested:
  "rc_does [\<lparr>rv_name = ''a'', rv_path = ''/a'', rv_fmt = EMXRC_FMT_ELF\<rparr>] False [RIf ''b'' [RIf ''a'' [RRun (exec_of ''a'')] None] None]
   = [DoExec ''/a'' EMXRC_FMT_ELF False]"
  by (simp add: exec_of_def zero_exec_def rc_start_def rc_lookup_def)

section \<open>Scripts as text\<close>

datatype rc_stmt = SVar string string | SWait nat | SPrint string | SElog string | SExec bool string | SIf string | SElse | SEndif

fun stmt_text :: "rc_stmt \<Rightarrow> string" where
  "stmt_text (SVar v p) = ''var '' @ v @ '' = ('' @ [CHR 0x22] @ p @ [CHR 0x22] @ '')''"
| "stmt_text (SWait n) = ''wait '' @ dec_str n"
| "stmt_text (SPrint m) = ''print('' @ [CHR 0x22] @ m @ [CHR 0x22] @ '')''"
| "stmt_text (SElog m) = ''elog('' @ [CHR 0x22] @ m @ [CHR 0x22] @ '')''"
| "stmt_text (SExec bg v) = ''exec '' @ (if bg then ''-bg '' else []) @ v"
| "stmt_text (SIf v) = ''if '' @ v"
| "stmt_text SElse = ''else''"
| "stmt_text SEndif = ''endif''"

fun stmt_cmd :: "rc_stmt \<Rightarrow> emxrc_exec" where
  "stmt_cmd (SVar v p) = zero_exec"
| "stmt_cmd (SWait n) = zero_exec\<lparr>re_is_wait := True, re_wait_time := int n\<rparr>"
| "stmt_cmd (SPrint m) = zero_exec\<lparr>re_is_print := True, re_message := m\<rparr>"
| "stmt_cmd (SElog m) = zero_exec\<lparr>re_is_elog := True, re_message := m\<rparr>"
| "stmt_cmd (SExec bg v) = (exec_of v)\<lparr>re_bg := bg\<rparr>"
| "stmt_cmd (SIf v) = zero_exec\<lparr>re_is_if := True, re_var_name := v\<rparr>"
| "stmt_cmd SElse = zero_exec\<lparr>re_is_else := True\<rparr>"
| "stmt_cmd SEndif = zero_exec\<lparr>re_is_endif := True\<rparr>"

definition stmt_add :: "rc_stmt \<Rightarrow> emxrc \<Rightarrow> emxrc" where
  "stmt_add st rc =
    (case st of SVar v p \<Rightarrow> rc\<lparr>rc_vars := rc_vars rc @ [\<lparr>rv_name = v, rv_path = p, rv_fmt = EMXRC_FMT_ELF\<rparr>]\<rparr>
     | _ \<Rightarrow> rc\<lparr>rc_execs := rc_execs rc @ [stmt_cmd st]\<rparr>)"

definition word_ok :: "string \<Rightarrow> bool" where
  "word_ok w \<longleftrightarrow> w \<noteq> [] \<and> length w \<le> 63 \<and> list_all (\<lambda>c. rc_word c \<and> c \<noteq> NUL) w \<and> hd w \<noteq> CHR ''-'' \<and> \<not> is_direct_path w"

definition quoted_ok :: "string \<Rightarrow> bool" where
  "quoted_ok q \<longleftrightarrow> length q \<le> 255 \<and> list_all (\<lambda>c. c \<noteq> CHR 0x22 \<and> \<not> rc_newline c \<and> c \<noteq> NUL) q"

fun stmt_ok :: "rc_stmt \<Rightarrow> bool" where
  "stmt_ok (SVar v p) = (word_ok v \<and> quoted_ok p \<and> p \<noteq> ''ep'')"
| "stmt_ok (SWait n) = (n < 2 ^ 31)"
| "stmt_ok (SPrint m) = quoted_ok m"
| "stmt_ok (SElog m) = quoted_ok m"
| "stmt_ok (SExec bg v) = word_ok v"
| "stmt_ok (SIf v) = word_ok v"
| "stmt_ok _ = True"

lemma tok_word:
  assumes "w \<noteq> []" "list_all rc_word w" "length w \<le> 255" "r = [] \<or> \<not> rc_word (hd r)"
  shows "rc_tok (w @ r) = Some (Some w, r)"
proof -
  obtain c v where w: "w = c # v" using assms(1) by (cases w) auto
  then have c: "rc_word c" using assms(2) by simp
  have "takeWhile rc_word (w @ r) = w" using assms(2,4) by (cases r) (auto simp: list_all_iff takeWhile_append)
  then show ?thesis using c assms(3) w by (simp add: rc_tok_def rc_word_def [of c] Let_def)
qed

lemma tok_blank: "rc_tok (CHR '' '' # s) = rc_tok s"
  by (simp add: rc_tok_def rc_blank_def)

lemma tok_punct: "rc_punct c \<Longrightarrow> rc_tok (c # s) = Some (Some [c], s)"
  by (auto simp: rc_tok_def rc_punct_def rc_blank_def rc_newline_def)

lemma tok_quoted:
  assumes "quoted_ok q"
  shows "rc_tok (CHR 0x22 # q @ CHR 0x22 # r) = Some (Some q, r)"
proof -
  let ?P = "\<lambda>x. x \<noteq> CHR 0x22 \<and> \<not> rc_newline x"
  have "takeWhile ?P (q @ CHR 0x22 # r) = q" "dropWhile ?P (q @ CHR 0x22 # r) = CHR 0x22 # r"
    using assms by (auto simp: quoted_ok_def list_all_iff takeWhile_append dropWhile_append)
  then show ?thesis using assms by (simp add: rc_tok_def rc_blank_def rc_newline_def Let_def quoted_ok_def)
qed

lemma word_ok_tok: "word_ok w \<Longrightarrow> r = [] \<or> \<not> rc_word (hd r) \<Longrightarrow> rc_tok (w @ r) = Some (Some w, r)"
  by (rule tok_word) (auto simp: word_ok_def list_all_iff)

lemma rc_word_simps [simp]: "\<not> rc_word (CHR '' '')" "\<not> rc_word (CHR 0x0A)" "\<not> rc_word (CHR ''('')" "\<not> rc_word (CHR ''='')" "\<not> rc_word (CHR '')'')"
  "rc_punct (CHR ''('')" "rc_punct (CHR ''='')" "rc_newline (CHR 0x0A)"
  by (simp_all add: rc_word_def rc_blank_def rc_newline_def rc_punct_def)

lemma skipline_text: "list_all (\<lambda>c. \<not> rc_newline c) xs \<Longrightarrow> skipline (xs @ CHR 0x0A # s) = s"
  by (auto simp: skipline_def list_all_iff dropWhile_append)

text \<open>One line of a script.\<close>

lemma loop_line:
  assumes kw: "rc_tok (kw @ t) = Some (Some kw, t)" "kw \<noteq> []" "list_all rc_word kw" "hd kw \<noteq> CHR ''/''"
    and line: "rc_line kw t rc = Some (xs @ CHR 0x0A # s, rc')" "list_all (\<lambda>c. \<not> rc_newline c) xs"
  shows "emxrc_loop (kw @ t) rc = emxrc_loop s rc'"
proof -
  obtain c v where k: "kw = c # v" using kw(2) by (cases kw) auto
  then have "\<not> rc_blank c" "\<not> rc_newline c" "c \<noteq> CHR ''/''" using kw(3,4) by (auto simp: rc_word_def)
  then have "emxrc_loop (c # v @ t) rc = emxrc_loop (skipline (xs @ CHR 0x0A # s)) rc'"
    using kw(1) line(1) by (subst emxrc_loop.simps) (simp add: Let_def k)
  then show ?thesis using skipline_text [OF line(2)] k by simp
qed

definition has_room :: "nat \<Rightarrow> emxrc \<Rightarrow> bool" where
  "has_room n rc \<longleftrightarrow> length (rc_vars rc) + n \<le> EMXRC_MAX_VARS \<and> length (rc_execs rc) + n \<le> EMXRC_MAX_EXECS"

lemma word_ok_parts: "word_ok w \<Longrightarrow> take 63 w = w \<and> \<not> is_direct_path w \<and> w \<noteq> [] \<and> hd w \<noteq> CHR ''-''"
  by (simp add: word_ok_def)

lemma quoted_ok_take: "quoted_ok q \<Longrightarrow> take 255 q = q"
  by (simp add: quoted_ok_def)

lemma dec_str_word: "dec_str n \<noteq> []" "list_all rc_word (dec_str n)"
proof -
  have "chr_in 48 57 c \<Longrightarrow> rc_word c" for c by (auto simp: chr_in_def rc_word_def rc_blank_def rc_newline_def rc_punct_def)
  then show "list_all rc_word (dec_str n)" using dec_str_digits [of n] by (auto simp: list_all_iff)
  show "dec_str n \<noteq> []" using dec_str_first [of n] by auto
qed

lemma c_atoi_dec_str: "n < 2 ^ 31 \<Longrightarrow> c_atoi (dec_str n) = int n"
  using c_strtol_int_text [of "int n"] by (simp add: c_atoi_def int_text_def s32_id)

definition keyword :: "string \<Rightarrow> bool" where
  "keyword kw \<longleftrightarrow> kw \<in> {''var'', ''wait'', ''print'', ''elog'', ''exec'', ''if'', ''else'', ''endif''}"

lemma keyword_simps [simp]: "keyword ''var''" "keyword ''wait''" "keyword ''print''" "keyword ''elog''" "keyword ''exec''" "keyword ''if''"
  "keyword ''else''" "keyword ''endif''"
  by (simp_all add: keyword_def)

lemma keyword_word: "keyword kw \<Longrightarrow> kw \<noteq> [] \<and> list_all rc_word kw \<and> length kw \<le> 255 \<and> hd kw \<noteq> CHR ''/''"
  unfolding keyword_def by (elim insertE emptyE; simp add: rc_word_def rc_blank_def rc_newline_def rc_punct_def)

lemma keyword_tok: "keyword kw \<Longrightarrow> \<not> rc_word (hd t) \<Longrightarrow> rc_tok (kw @ t) = Some (Some kw, t) \<and> kw \<noteq> [] \<and> list_all rc_word kw \<and> hd kw \<noteq> CHR ''/''"
  using keyword_word [of kw] tok_word [of kw t] by blast

lemma loop_stmt:
  assumes "stmt_ok st" "has_room 1 rc"
  shows "emxrc_loop (stmt_text st @ CHR 0x0A # s) rc = emxrc_loop s (stmt_add st rc)"
proof -
  have room: "length (rc_vars rc) < EMXRC_MAX_VARS" "length (rc_execs rc) < EMXRC_MAX_EXECS" using assms(2) by (auto simp: has_room_def)
  note line = loop_line [where s = s and rc = rc]
  note simps = rc_line_def rc_var_def rc_wait_def rc_message_def rc_if_def rc_exec_def rc_exec_path_def rc_options.simps rc_add_def
    tok_blank tok_punct tok_quoted word_ok_parts quoted_ok_take stmt_add_def Let_def
  have w: "rc_tok (v @ CHR 0x0A # s) = Some (Some v, CHR 0x0A # s)" if "word_ok v" for v
    using word_ok_tok [OF that, of "CHR 0x0A # s"] by simp
  note kw = keyword_tok
  show ?thesis
  proof (cases st)
    case (SVar v p)
    have "rc_tok (v @ '' = ('' @ t) = Some (Some v, '' = ('' @ t)" for t
      using word_ok_tok [of v "'' = ('' @ t"] assms(1) SVar by simp
    then show ?thesis
      using line [of "''var''" "CHR '' '' # v @ '' = ('' @ CHR 0x22 # p @ CHR 0x22 # CHR '')'' # CHR 0x0A # s" "'')''" "stmt_add st rc"]
        kw [of "''var''" "CHR '' '' # v @ '' = ('' @ CHR 0x22 # p @ CHR 0x22 # CHR '')'' # CHR 0x0A # s"] room assms(1) SVar
      by (simp add: simps rc_newline_def)
  next
    case (SWait n)
    have n: "n < 2 ^ 31" using assms(1) SWait by simp
    then have "n < 10 ^ 10" by simp
    then have l: "length (dec_str n) \<le> 255" using length_dec_rev_le [of n 10] by (simp add: dec_str_def)
    have "rc_tok (dec_str n @ CHR 0x0A # s) = Some (Some (dec_str n), [] @ CHR 0x0A # s)"
      using dec_str_word l by (subst tok_word) auto
    then show ?thesis
      using line [of "''wait''" "CHR '' '' # dec_str n @ CHR 0x0A # s" "[]" "stmt_add st rc"] kw [of "''wait''" "CHR '' '' # dec_str n @ CHR 0x0A # s"]
        room SWait c_atoi_dec_str [OF n]
      by (simp add: simps)
  next
    case (SPrint m)
    then show ?thesis
      using line [of "''print''" "CHR ''('' # CHR 0x22 # m @ CHR 0x22 # CHR '')'' # CHR 0x0A # s" "'')''" "stmt_add st rc"]
        kw [of "''print''" "CHR ''('' # CHR 0x22 # m @ CHR 0x22 # CHR '')'' # CHR 0x0A # s"] room assms(1)
      by (simp add: simps rc_newline_def)
  next
    case (SElog m)
    then show ?thesis
      using line [of "''elog''" "CHR ''('' # CHR 0x22 # m @ CHR 0x22 # CHR '')'' # CHR 0x0A # s" "'')''" "stmt_add st rc"]
        kw [of "''elog''" "CHR ''('' # CHR 0x22 # m @ CHR 0x22 # CHR '')'' # CHR 0x0A # s"] room assms(1)
      by (simp add: simps rc_newline_def)
  next
    case (SExec bg v)
    let ?t = "CHR '' '' # (if bg then ''-bg '' else []) @ v @ CHR 0x0A # s"
    have "rc_tok (''-bg '' @ t) = Some (Some ''-bg'', CHR '' '' # t)" for t
      using tok_word [of "''-bg''" "CHR '' '' # t"] by (simp add: rc_word_def rc_blank_def rc_newline_def rc_punct_def)
    then show ?thesis
      using line [of "''exec''" ?t "[]" "stmt_add st rc"] kw [of "''exec''" ?t] w [of v] room assms(1) SExec
      by (cases bg) (simp_all add: simps exec_of_def zero_exec_def)
  next
    case (SIf v)
    then show ?thesis
      using line [of "''if''" "CHR '' '' # v @ CHR 0x0A # s" "[]" "stmt_add st rc"] kw [of "''if''" "CHR '' '' # v @ CHR 0x0A # s"] w [of v] room assms(1)
      by (simp add: simps)
  next
    case SElse
    then show ?thesis
      using line [of "''else''" "CHR 0x0A # s" "[]" "stmt_add st rc"] kw [of "''else''" "CHR 0x0A # s"] room by (simp add: simps)
  next
    case SEndif
    then show ?thesis
      using line [of "''endif''" "CHR 0x0A # s" "[]" "stmt_add st rc"] kw [of "''endif''" "CHR 0x0A # s"] room by (simp add: simps)
  qed
qed

definition script_text :: "rc_stmt list \<Rightarrow> string" where
  "script_text sts = concat (map (\<lambda>st. stmt_text st @ [CHR 0x0A]) sts)"

lemma has_room_add: "has_room (Suc n) rc \<Longrightarrow> has_room n (stmt_add st rc)"
  by (cases st) (auto simp: has_room_def stmt_add_def)

lemma loop_script:
  "list_all stmt_ok sts \<Longrightarrow> has_room (length sts) rc \<Longrightarrow> emxrc_loop (script_text sts) rc = Some (fold stmt_add sts rc)"
proof (induction sts arbitrary: rc)
  case Nil
  then show ?case by (simp add: script_text_def emxrc_loop.simps)
next
  case (Cons st sts)
  have "has_room 1 rc" "has_room (length sts) (stmt_add st rc)" using Cons.prems(2) has_room_add by (auto simp: has_room_def)
  then show ?case using Cons.IH [of "stmt_add st rc"] loop_stmt [of st rc "script_text sts"] Cons.prems(1) by (simp add: script_text_def)
qed

lemma script_no_nul: "list_all stmt_ok sts \<Longrightarrow> NUL \<notin> set (script_text sts)"
proof -
  have d: "NUL \<notin> set (dec_str n)" for n using int_text_plain [of "int n"] by (auto simp: int_text_def list_all_iff)
  have "NUL \<notin> set (stmt_text st)" if "stmt_ok st" for st
    using that d [unfolded NUL_def] by (cases st) (auto simp: word_ok_def quoted_ok_def list_all_iff NUL_def chr_in_def)
  then show "list_all stmt_ok sts \<Longrightarrow> NUL \<notin> set (script_text sts)" by (auto simp: script_text_def list_all_iff NUL_def)
qed

text \<open>
  C35. A script that is written down, a statement on each line, is read back as its variables and commands, when it has at
  most 255 statements and 2047 bytes.
\<close>

theorem emxrc_reads_script:
  assumes "list_all stmt_ok sts" "sts \<noteq> []" "length sts \<le> 255" "length (script_text sts) \<le> 2047"
  shows "emxrc_parse (Some (script_text sts)) = Some (0, fold stmt_add sts \<lparr>rc_vars = [], rc_execs = []\<rparr>)"
proof -
  have "script_text sts \<noteq> []" using assms(2) by (cases sts) (simp_all add: script_text_def)
  moreover have "takeWhile (\<lambda>c. c \<noteq> NUL) (script_text sts) = script_text sts"
    using script_no_nul [OF assms(1)] by (auto simp: takeWhile_eq_all_conv)
  moreover have "has_room (length sts) \<lparr>rc_vars = [], rc_execs = []\<rparr>" using assms(3) by (simp add: has_room_def EMXRC_MAX_VARS_def EMXRC_MAX_EXECS_def)
  ultimately show ?thesis using assms(4) loop_script [OF assms(1)] by (simp add: emxrc_parse_def del: takeWhile_eq_all_conv)
qed

theorem emxrc_reads_script_witness:
  "emxrc_parse (Some (script_text [SVar ''desktop'' ''/d.elf'', SWait 150, SIf ''gui'', SExec True ''desktop'', SElse, SPrint ''no gui'', SEndif]))
   = Some (0, fold stmt_add [SVar ''desktop'' ''/d.elf'', SWait 150, SIf ''gui'', SExec True ''desktop'', SElse, SPrint ''no gui'', SEndif]
       \<lparr>rc_vars = [], rc_execs = []\<rparr>)"
  by (rule emxrc_reads_script)
    (simp_all add: word_ok_def quoted_ok_def is_direct_path_def rc_word_def rc_blank_def rc_newline_def rc_punct_def script_text_def NUL_def
      dec_str_def dec_rev.simps)

end
