(* ===== verification/Wm.thy ===== *)
theory Wm
  imports LibcText "HOL-Library.Monad_Syntax"
begin

text \<open>
  The registry of the windows, \<^verbatim>\<open>user/libs/wm/wm.c\<close>: a file with a line for each window, its process and its tag, from the lowest
  window to the highest, and a file of the slots of the first windows. A file is its contents, \<open>None\<close> when it does not exist.
  A file that is opened for writing keeps its old contents: what is written replaces the beginning. What does not fit
  into a buffer is undefined. Drawing is left out.
\<close>

definition WM_TAG_MAX :: nat where "WM_TAG_MAX = 32"
definition Z_BUF :: nat where "Z_BUF = 2048"

record wm_entry =
  we_pid :: u32
  we_tag :: string

definition wm_newline :: char where "wm_newline = CHR 0x0A"

section \<open>The file\<close>

definition sread :: "string option \<Rightarrow> nat \<Rightarrow> string" where
  "sread file max' = (case file of None \<Rightarrow> [] | Some t \<Rightarrow> takeWhile (\<lambda>c. c \<noteq> NUL) (take (max' - 1) t))"

definition z_write :: "string \<Rightarrow> string option \<Rightarrow> string option" where
  "z_write buf file = (case file of None \<Rightarrow> Some buf | Some t \<Rightarrow> Some (buf @ drop (length buf) t))"

fun str_to_uint_loop :: "string \<Rightarrow> u32 \<Rightarrow> u32" where
  "str_to_uint_loop [] v = v"
| "str_to_uint_loop (c # s) v = (if chr_in 48 57 c then str_to_uint_loop s (v * 10 + (of_char c - 48)) else v)"

definition str_to_uint :: "string \<Rightarrow> u32" where
  "str_to_uint s = str_to_uint_loop s 0"

definition uint_to_str :: "u32 \<Rightarrow> string" where
  "uint_to_str v = uitoa (unat v) 10"

definition z_parse_line :: "string \<Rightarrow> wm_entry \<times> string" where
  "z_parse_line p =
    (let pid = str_to_uint p;
         p = dropWhile (\<lambda>c. c \<noteq> CHR '':'' \<and> c \<noteq> wm_newline) p;
         p = (if p \<noteq> [] \<and> hd p = CHR '':'' then tl p else p);
         tag = take (WM_TAG_MAX - 1) (takeWhile (\<lambda>c. c \<noteq> wm_newline) p);
         p = drop (length tag) p
     in (\<lparr>we_pid = pid, we_tag = tag\<rparr>, if p \<noteq> [] \<and> hd p = wm_newline then tl p else p))"

lemma z_parse_line_shorter: "p \<noteq> [] \<Longrightarrow> length (snd (z_parse_line p)) < length p"
proof (cases p)
  case (Cons c s)
  let ?P = "\<lambda>c. c \<noteq> CHR '':'' \<and> c \<noteq> wm_newline"
  have "length (dropWhile ?P s) \<le> length s" by (rule length_dropWhile_le)
  then show ?thesis using Cons by (auto simp: z_parse_line_def Let_def wm_newline_def)
qed simp

function z_entries :: "string \<Rightarrow> wm_entry list" where
  "z_entries p = (if p = [] then [] else let (e, r) = z_parse_line p in e # z_entries r)"
  by pat_completeness auto
termination by (relation "measure length") (simp, metis in_measure snd_conv z_parse_line_shorter)

declare z_entries.simps [simp del]

definition entry_text :: "wm_entry \<Rightarrow> string" where
  "entry_text e = uint_to_str (we_pid e) @ CHR '':'' # we_tag e @ [wm_newline]"

definition z_text :: "wm_entry list \<Rightarrow> string" where
  "z_text es = concat (map entry_text es)"

section \<open>The operations\<close>

text \<open>The length \<open>bl\<close> of what is in the file is taken before the file is read, and is zero.\<close>

definition wm_register :: "u32 \<Rightarrow> string \<Rightarrow> string option \<Rightarrow> string option" where
  "wm_register pid tag file = z_write (entry_text \<lparr>we_pid = pid, we_tag = take (WM_TAG_MAX - 1) tag\<rparr>) file"

text \<open>The entry of the window that is raised is not initialised: undefined when the window is not there.\<close>

definition wm_raise :: "u32 \<Rightarrow> string option \<Rightarrow> string option option" where
  "wm_raise pid file =
    (let es = z_entries (sread file Z_BUF);
         mine = filter (\<lambda>e. we_pid e = pid) es;
         out = z_text (filter (\<lambda>e. we_pid e \<noteq> pid) es)
     in if mine = [] then None
        else let out = out @ entry_text (last mine) in if Z_BUF \<le> length out then None else Some (z_write out file))"

definition wm_unregister :: "u32 \<Rightarrow> string option \<Rightarrow> string option option" where
  "wm_unregister pid file =
    (let out = z_text (filter (\<lambda>e. we_pid e \<noteq> pid) (z_entries (sread file Z_BUF)))
     in if Z_BUF \<le> length out then None else Some (z_write out file))"

definition wm_z_list :: "nat \<Rightarrow> string option \<Rightarrow> wm_entry list" where
  "wm_z_list max' file = take max' (z_entries (sread file Z_BUF))"

definition wm_is_top :: "u32 \<Rightarrow> string option \<Rightarrow> bool" where
  "wm_is_top pid file = (let es = z_entries (sread file Z_BUF) in (if es = [] then 0 else we_pid (last es)) = pid)"

definition count_lines :: "string \<Rightarrow> nat" where
  "count_lines buf = length (filter (\<lambda>c. c = wm_newline) buf)"

definition claim_slot :: "u32 \<Rightarrow> string option \<Rightarrow> (nat \<times> string option) option" where
  "claim_slot pid file =
    (let buf = sread file 256; buf' = buf @ uint_to_str pid @ [wm_newline]
     in if 256 \<le> length buf' then None else Some (count_lines buf, z_write buf' file))"

definition wm_close_hit :: "int \<Rightarrow> int \<Rightarrow> u32 \<Rightarrow> int \<Rightarrow> int \<Rightarrow> bool" where
  "wm_close_hit x y style mx my \<longleftrightarrow>
    style AND 1 = 0 \<and> style AND 2 = 0 \<and> x + 6 \<le> mx \<and> mx < x + 6 + 12 \<and> y + 3 \<le> my \<and> my < y + 3 + 12"

section \<open>The file as a list of entries\<close>

definition entry_ok :: "wm_entry \<Rightarrow> bool" where
  "entry_ok e \<longleftrightarrow> length (we_tag e) < WM_TAG_MAX \<and> list_all (\<lambda>c. c \<noteq> wm_newline \<and> c \<noteq> NUL) (we_tag e)"

lemma str_to_uint_app:
  "list_all (chr_in 48 57) xs \<Longrightarrow> str_to_uint_loop (xs @ ys) v = str_to_uint_loop ys (str_to_uint_loop xs v)"
  by (induction xs arbitrary: v) auto

lemma of_char_word: "(of_char c :: u32) = word_of_nat (of_char c)"
  by (rule of_nat_of_char [symmetric])

lemma str_to_uint_dec: "str_to_uint_loop (rev (dec_rev n)) 0 = word_of_nat n"
proof (induction n rule: less_induct)
  case (less n)
  show ?case
  proof (cases "n = 0")
    case False
    let ?c = "char_of (48 + n mod 10) :: char"
    have c: "chr_in 48 57 ?c" "(of_char ?c :: nat) = 48 + n mod 10" by (simp_all add: digit_char)
    have "(of_char ?c :: u32) = word_of_nat (48 + n mod 10)" unfolding of_char_word c(2) ..
    then have "str_to_uint_loop (rev (dec_rev n)) 0 = word_of_nat (n div 10) * 10 + word_of_nat (n mod 10)"
      using False less [of "n div 10"] dec_rev_digits [of "n div 10"] c(1)
      by (simp add: dec_rev_pos str_to_uint_app list_all_iff)
    also have "\<dots> = word_of_nat n" by (metis div_mult_mod_eq of_nat_add of_nat_mult of_nat_numeral)
    finally show ?thesis .
  qed simp
qed

lemma uint_to_str_ends: "str_to_uint (uint_to_str v @ CHR '':'' # s) = v"
proof -
  have d: "str_to_uint_loop (dec_str n) 0 = word_of_nat n" for n
    using str_to_uint_dec [of n] by (simp add: dec_str_def chr_in_def)
  show ?thesis using str_to_uint_app [OF dec_str_digits, of "unat v" "CHR '':'' # s" 0] d [of "unat v"]
    by (simp add: str_to_uint_def uint_to_str_def uitoa_dec chr_in_def)
qed

lemma uint_to_str_plain: "list_all (\<lambda>c. c \<noteq> CHR '':'' \<and> c \<noteq> wm_newline \<and> c \<noteq> NUL) (uint_to_str v)"
  using dec_str_digits [of "unat v"] by (auto simp: uint_to_str_def uitoa_dec list_all_iff chr_in_def wm_newline_def NUL_def)

lemma z_parse_entry:
  assumes "entry_ok e"
  shows "z_parse_line (entry_text e @ s) = (e, s)"
proof -
  let ?P = "\<lambda>c. c \<noteq> CHR '':'' \<and> c \<noteq> wm_newline"
  have d: "dropWhile ?P (uint_to_str (we_pid e) @ CHR '':'' # t) = CHR '':'' # t" for t
    using uint_to_str_plain [of "we_pid e"] by (auto simp: list_all_iff dropWhile_append)
  have "takeWhile (\<lambda>c. c \<noteq> wm_newline) (we_tag e @ wm_newline # s) = we_tag e"
    using assms by (auto simp: entry_ok_def list_all_iff takeWhile_append)
  moreover have "take (WM_TAG_MAX - 1) (we_tag e) = we_tag e" "min (length (we_tag e)) (WM_TAG_MAX - 1) = length (we_tag e)" using assms by (auto simp: entry_ok_def)
  ultimately show ?thesis by (simp add: z_parse_line_def entry_text_def d uint_to_str_ends Let_def del: take_all_iff One_nat_def)
qed

lemma z_entries_text: "list_all entry_ok es \<Longrightarrow> z_entries (z_text es) = es"
proof (induction es)
  case Nil
  then show ?case by (simp add: z_text_def z_entries.simps)
next
  case (Cons e es)
  have "entry_text e @ z_text es \<noteq> []" by (simp add: entry_text_def)
  then show ?case using Cons by (subst z_entries.simps) (simp add: z_text_def z_parse_entry)
qed

lemma sread_text:
  assumes "list_all entry_ok es" "length (z_text es) < Z_BUF"
  shows "sread (Some (z_text es)) Z_BUF = z_text es"
proof -
  have u: "NUL \<notin> set (uint_to_str v)" for v using uint_to_str_plain [of v] by (auto simp: list_all_iff)
  have n: "wm_newline \<noteq> NUL" "CHR '':'' \<noteq> NUL" by (simp_all add: wm_newline_def NUL_def)
  have "NUL \<notin> set (entry_text e)" if "entry_ok e" for e
    using that u [of "we_pid e"] n [symmetric] by (auto simp: entry_text_def entry_ok_def list_all_iff)
  then have "NUL \<notin> set (z_text es)" using assms(1) by (auto simp: z_text_def list_all_iff)
  then have "takeWhile (\<lambda>c. c \<noteq> NUL) (z_text es) = z_text es" by (auto simp: takeWhile_eq_all_conv)
  then show ?thesis using assms(2) by (simp add: sread_def del: takeWhile_eq_all_conv)
qed

lemma z_text_simps [simp]: "z_text [] = []" "z_text (e # es) = entry_text e @ z_text es" "z_text (as @ bs) = z_text as @ z_text bs"
  by (simp_all add: z_text_def)

lemma z_text_filter_length:
  "length (z_text (filter P es)) + length (z_text (filter (\<lambda>e. \<not> P e) es)) = length (z_text es)"
  by (induction es) auto

section \<open>Properties\<close>

definition registry :: "wm_entry list \<Rightarrow> string option" where
  "registry es = Some (z_text es)"

definition registry_ok :: "wm_entry list \<Rightarrow> bool" where
  "registry_ok es \<longleftrightarrow> list_all entry_ok es \<and> length (z_text es) < Z_BUF \<and> distinct (map we_pid es)"

lemma registry_entries: "registry_ok es \<Longrightarrow> z_entries (sread (registry es) Z_BUF) = es"
  by (simp add: registry_ok_def registry_def sread_text z_entries_text)

lemma filter_pid: "distinct (map we_pid es) \<Longrightarrow> e \<in> set es \<Longrightarrow> filter (\<lambda>x. we_pid x = we_pid e) es = [e]"
proof -
  assume d: "distinct (map we_pid es)" and "e \<in> set es"
  then obtain as bs where es: "es = as @ e # bs" by (meson split_list)
  have "filter (\<lambda>x. we_pid x = we_pid e) as = []" "filter (\<lambda>x. we_pid x = we_pid e) bs = []"
    using d unfolding es by (auto simp: filter_empty_conv) (metis image_eqI)+
  then show ?thesis unfolding es by simp
qed

text \<open>
  C36. Raising a window that is registered moves its entry to the end of the file and keeps the others in their order: it is the
  highest one then.
\<close>

theorem wm_raise_to_top:
  assumes "registry_ok es" "e \<in> set es"
  shows "wm_raise (we_pid e) (registry es) = Some (registry (filter (\<lambda>x. we_pid x \<noteq> we_pid e) es @ [e]))
    \<and> wm_is_top (we_pid e) (registry (filter (\<lambda>x. we_pid x \<noteq> we_pid e) es @ [e]))"
proof -
  let ?fs = "filter (\<lambda>x. we_pid x \<noteq> we_pid e) es"
  have f: "filter (\<lambda>x. we_pid x = we_pid e) es = [e]" using assms by (intro filter_pid) (auto simp: registry_ok_def)
  have l: "length (z_text (?fs @ [e])) = length (z_text es)" using z_text_filter_length [of "\<lambda>x. we_pid x = we_pid e" es] f by simp
  have "registry_ok (?fs @ [e])" using assms l
    by (auto simp: registry_ok_def list_all_iff distinct_map inj_on_def) 
  then have "wm_is_top (we_pid e) (registry (?fs @ [e]))" by (simp add: wm_is_top_def registry_entries Let_def)
  moreover have "length (z_text (?fs @ [e])) < Z_BUF" using l assms(1) by (simp add: registry_ok_def)
  ultimately show ?thesis using l assms(1)
    by (simp add: wm_raise_def registry_entries Let_def f) (simp add: registry_def z_write_def)
qed

theorem wm_raise_to_top_witness:
  "wm_raise 7 (registry [\<lparr>we_pid = 7, we_tag = ''term''\<rparr>, \<lparr>we_pid = 9, we_tag = ''fm''\<rparr>])
   = Some (registry [\<lparr>we_pid = 9, we_tag = ''fm''\<rparr>, \<lparr>we_pid = 7, we_tag = ''term''\<rparr>])"
proof -
  have "uitoa 7 10 = ''7''" "uitoa 9 10 = ''9''" by (simp_all add: uitoa_def uitoa_rev.simps)
  then have "registry_ok [\<lparr>we_pid = 7, we_tag = ''term''\<rparr>, \<lparr>we_pid = 9, we_tag = ''fm''\<rparr>]"
    by (simp add: registry_ok_def entry_ok_def entry_text_def uint_to_str_def wm_newline_def NUL_def WM_TAG_MAX_def Z_BUF_def)
  from wm_raise_to_top [OF this, of "\<lparr>we_pid = 7, we_tag = ''term''\<rparr>"] show ?thesis by simp
qed

text \<open>
  Registering a window writes its entry over the first ones, and removing one leaves the end of the old file: the last
  window cannot be removed at all.
\<close>

lemma wm_registry_loses:
  assumes "registry_ok [e]"
  shows "wm_register pid tag (registry es) = Some (entry_text \<lparr>we_pid = pid, we_tag = take 31 tag\<rparr>
      @ drop (length (entry_text \<lparr>we_pid = pid, we_tag = take 31 tag\<rparr>)) (z_text es))
    \<and> wm_unregister (we_pid e) (registry [e]) = Some (registry [e])"
proof -
  have "wm_unregister (we_pid e) (registry [e]) = Some (registry [e])"
    using registry_entries [OF assms] by (simp add: wm_unregister_def Z_BUF_def) (simp add: registry_def z_write_def)
  then show ?thesis by (simp add: wm_register_def registry_def z_write_def WM_TAG_MAX_def)
qed

lemma wm_registry_loses_witness:
  "wm_unregister 7 (registry [\<lparr>we_pid = 7, we_tag = ''term''\<rparr>]) = Some (registry [\<lparr>we_pid = 7, we_tag = ''term''\<rparr>])"
proof -
  have "uitoa 7 10 = ''7''" by (simp add: uitoa_def uitoa_rev.simps)
  then have "registry_ok [\<lparr>we_pid = 7, we_tag = ''term''\<rparr>]"
    by (simp add: registry_ok_def entry_ok_def entry_text_def uint_to_str_def wm_newline_def NUL_def WM_TAG_MAX_def Z_BUF_def)
  from wm_registry_loses [OF this] show ?thesis by simp
qed

end
