(* ===== verification/Fb0.thy ===== *)
theory Fb0
  imports CString "HOL-Library.Monad_Syntax"
begin

text \<open>
  The frame buffer device \<^verbatim>\<open>emex/kernel/devices/fb0/fb0.c\<close>, its requests to copy rectangles, and the drawing functions of the
  programs on top of it, \<^verbatim>\<open>user/libs/emxfb0/emxfb0.c\<close>. The picture of the screen of the programs and the memory of the card are
  lists of pixels, row by row; an access outside of a list is undefined. Reading and writing the device as a file are left out:
  they copy with \<^verbatim>\<open>memcpy\<close> to addresses that are not aligned, and what that does depends on where the programs put their buffers.
\<close>

section \<open>The requests\<close>

record fb_rect =
  r_x :: u32
  r_y :: u32
  r_w :: u32
  r_h :: u32
  r_pixels :: "u32 list"

record fb_dev =
  fb_w :: u32
  fb_h :: u32
  fb_buf :: "u32 list"
  fb_real :: "u32 list option"
  fb_real_pitch :: u32

definition fb_put :: "u32 \<Rightarrow> u32 \<Rightarrow> u32 \<Rightarrow> fb_dev \<Rightarrow> fb_dev option" where
  "fb_put px py c d =
    (let i = unat (py * (fb_w d * 4 div 4) + px); j = unat (py * fb_real_pitch d + px)
     in if i < length (fb_buf d) \<and> (case fb_real d of None \<Rightarrow> True | Some p \<Rightarrow> j < length p) then
          Some (d\<lparr>fb_buf := (fb_buf d)[i := c], fb_real := map_option (\<lambda>p. p[j := c]) (fb_real d)\<rparr>)
        else None)"

fun blit_cols :: "fb_rect \<Rightarrow> u32 \<Rightarrow> u32 \<Rightarrow> nat list \<Rightarrow> fb_dev \<Rightarrow> fb_dev option" where
  "blit_cols r row py [] d = Some d"
| "blit_cols r row py (col # cols) d =
    (let px = r_x r + word_of_nat col; i = unat (row * r_w r + word_of_nat col)
     in if fb_w d \<le> px then Some d
        else if length (r_pixels r) \<le> i then None
        else do {
          d1 \<leftarrow> (if drop_bit 24 (r_pixels r ! i) = 0 then Some d else fb_put px py (r_pixels r ! i) d);
          blit_cols r row py cols d1
        })"

fun blit_rows :: "fb_rect \<Rightarrow> nat list \<Rightarrow> fb_dev \<Rightarrow> fb_dev option" where
  "blit_rows r [] d = Some d"
| "blit_rows r (row # rows) d =
    (let py = r_y r + word_of_nat row
     in if fb_h d \<le> py then Some d
        else do { d1 \<leftarrow> blit_cols r (word_of_nat row) py [0..<unat (r_w r)] d; blit_rows r rows d1 })"

definition fb0_blit :: "fb_rect \<Rightarrow> fb_dev \<Rightarrow> fb_dev option" where
  "fb0_blit r d = blit_rows r [0..<unat (r_h r)] d"

text \<open>Reading a rectangle back, from the memory of the card.\<close>

fun read_cols :: "u32 list \<Rightarrow> u32 \<Rightarrow> u32 \<Rightarrow> nat list \<Rightarrow> fb_dev \<Rightarrow> fb_rect \<Rightarrow> fb_rect option" where
  "read_cols real row py [] d r = Some r"
| "read_cols real row py (col # cols) d r =
    (let px = r_x r + word_of_nat col; i = unat (row * r_w r + word_of_nat col); j = unat (py * fb_real_pitch d + px)
     in if length (r_pixels r) \<le> i \<or> px < fb_w d \<and> length real \<le> j then None
        else read_cols real row py cols d (r\<lparr>r_pixels := (r_pixels r)[i := if px < fb_w d then real ! j else 0]\<rparr>))"

fun read_rows :: "u32 list \<Rightarrow> nat list \<Rightarrow> fb_dev \<Rightarrow> fb_rect \<Rightarrow> fb_rect option" where
  "read_rows real [] d r = Some r"
| "read_rows real (row # rows) d r =
    (let py = r_y r + word_of_nat row
     in if fb_h d \<le> py then Some r
        else do { r1 \<leftarrow> read_cols real (word_of_nat row) py [0..<unat (r_w r)] d r; read_rows real rows d r1 })"

definition fb0_read_rect :: "fb_dev \<Rightarrow> fb_rect \<Rightarrow> (int \<times> fb_rect) option" where
  "fb0_read_rect d r =
    (case fb_real d of None \<Rightarrow> Some (-1, r) | Some p \<Rightarrow> map_option (Pair 0) (read_rows p [0..<unat (r_h r)] d r))"

record fb_var_screeninfo =
  xres :: u32
  yres :: u32
  xres_virtual :: u32
  yres_virtual :: u32
  xoffset :: u32
  yoffset :: u32
  bits_per_pixel :: u32
  grayscale :: u32
  red_offset :: u32
  red_length :: u32
  green_offset :: u32
  green_length :: u32
  blue_offset :: u32
  blue_length :: u32
  transp_offset :: u32
  transp_length :: u32

definition fb0_vscreeninfo :: "fb_dev \<Rightarrow> fb_var_screeninfo" where
  "fb0_vscreeninfo d = \<lparr>xres = fb_w d, yres = fb_h d, xres_virtual = fb_w d, yres_virtual = fb_h d, xoffset = 0, yoffset = 0, bits_per_pixel = 32,
     grayscale = 0, red_offset = 16, red_length = 8, green_offset = 8, green_length = 8, blue_offset = 0, blue_length = 8,
     transp_offset = 24, transp_length = 8\<rparr>"

section \<open>The drawing functions of the programs\<close>

definition DS_ROW_BUF_W :: nat where "DS_ROW_BUF_W = 2048"

record draw_ctx =
  ds_w :: int
  ds_h :: int
  ds_row_buf :: "u32 list"

text \<open>The context and the device behind it.\<close>

type_synonym ds = "draw_ctx \<times> fb_dev"

definition ds_init :: "fb_dev \<Rightarrow> draw_ctx \<Rightarrow> draw_ctx" where
  "ds_init d ctx =
    (let v = fb0_vscreeninfo d in ctx\<lparr>ds_w := (if 0 < xres v then sint (xres v) else 1024), ds_h := (if 0 < yres v then sint (yres v) else 768)\<rparr>)"

definition ds_blit_row :: "int \<Rightarrow> int \<Rightarrow> int \<Rightarrow> ds \<Rightarrow> ds option" where
  "ds_blit_row x y len s =
    (case s of (ctx, d) \<Rightarrow> map_option (Pair ctx)
      (fb0_blit \<lparr>r_x = word_of_int x, r_y = word_of_int y, r_w = word_of_int len, r_h = 1, r_pixels = ds_row_buf ctx\<rparr> d))"

definition ds_pixel :: "int \<Rightarrow> int \<Rightarrow> u32 \<Rightarrow> ds \<Rightarrow> ds option" where
  "ds_pixel x y color s =
    (case s of (ctx, d) \<Rightarrow>
      if x < 0 \<or> y < 0 \<or> x \<ge> ds_w ctx \<or> y \<ge> ds_h ctx then Some (ctx, d)
      else ds_blit_row x y 1 (ctx\<lparr>ds_row_buf := (ds_row_buf ctx)[0 := color]\<rparr>, d))"

definition ds_hline :: "int \<Rightarrow> int \<Rightarrow> int \<Rightarrow> u32 \<Rightarrow> ds \<Rightarrow> ds option" where
  "ds_hline x y w color s =
    (case s of (ctx, d) \<Rightarrow>
      if y < 0 \<or> y \<ge> ds_h ctx then Some (ctx, d)
      else let (x, w) = (if x < 0 then (0, w + x) else (x, w));
               w = (if x + w > ds_w ctx then ds_w ctx - x else w)
      in if w \<le> 0 then Some (ctx, d)
         else let n = min (nat w) DS_ROW_BUF_W
         in ds_blit_row x y w (ctx\<lparr>ds_row_buf := replicate n color @ drop n (ds_row_buf ctx)\<rparr>, d))"

fun ds_vline_loop :: "int \<Rightarrow> int \<Rightarrow> u32 \<Rightarrow> nat list \<Rightarrow> ds \<Rightarrow> ds option" where
  "ds_vline_loop x y color [] s = Some s"
| "ds_vline_loop x y color (dy # dys) s =
    (case s of (ctx, d) \<Rightarrow>
      let sy = y + int dy
      in if sy < 0 \<or> sy \<ge> ds_h ctx \<or> x < 0 \<or> x \<ge> ds_w ctx then ds_vline_loop x y color dys (ctx, d)
         else do {
           s1 \<leftarrow> ds_blit_row x sy 1 (ctx\<lparr>ds_row_buf := (ds_row_buf ctx)[0 := color]\<rparr>, d);
           ds_vline_loop x y color dys s1
         })"

definition ds_vline :: "int \<Rightarrow> int \<Rightarrow> int \<Rightarrow> u32 \<Rightarrow> ds \<Rightarrow> ds option" where
  "ds_vline x y h color s = ds_vline_loop x y color [0..<nat h] s"

fun ds_rect_loop :: "int \<Rightarrow> int \<Rightarrow> int \<Rightarrow> u32 \<Rightarrow> nat list \<Rightarrow> ds \<Rightarrow> ds option" where
  "ds_rect_loop x y w color [] s = Some s"
| "ds_rect_loop x y w color (dy # dys) s = do { s1 \<leftarrow> ds_hline x (y + int dy) w color s; ds_rect_loop x y w color dys s1 }"

definition ds_rect :: "int \<Rightarrow> int \<Rightarrow> int \<Rightarrow> int \<Rightarrow> u32 \<Rightarrow> ds \<Rightarrow> ds option" where
  "ds_rect x y w h color s = ds_rect_loop x y w color [0..<nat h] s"

definition ds_rect_outline :: "int \<Rightarrow> int \<Rightarrow> int \<Rightarrow> int \<Rightarrow> u32 \<Rightarrow> ds \<Rightarrow> ds option" where
  "ds_rect_outline x y w h color s = do {
     s1 \<leftarrow> ds_hline x y w color s;
     s2 \<leftarrow> ds_hline x (y + h - 1) w color s1;
     s3 \<leftarrow> ds_vline x y h color s2;
     ds_vline (x + w - 1) y h color s3
   }"

section \<open>What a copy does\<close>

definition fb_at :: "fb_dev \<Rightarrow> nat \<Rightarrow> nat \<Rightarrow> u32" where
  "fb_at d x y = fb_buf d ! (y * unat (fb_w d) + x)"

text \<open>The sizes fit into 32 bits, and the card shows at least the screen.\<close>

definition fb_ok :: "fb_dev \<Rightarrow> bool" where
  "fb_ok d \<longleftrightarrow> unat (fb_w d) * 4 < 2 ^ 32 \<and> unat (fb_w d) * unat (fb_h d) < 2 ^ 32 \<and> length (fb_buf d) = unat (fb_w d) * unat (fb_h d)
     \<and> (case fb_real d of None \<Rightarrow> True | Some p \<Rightarrow> unat (fb_w d) \<le> unat (fb_real_pitch d) \<and> unat (fb_real_pitch d) * unat (fb_h d) < 2 ^ 32
          \<and> unat (fb_real_pitch d) * unat (fb_h d) \<le> length p)"

definition fb_same :: "fb_dev \<Rightarrow> fb_dev \<Rightarrow> bool" where
  "fb_same d e \<longleftrightarrow> fb_w e = fb_w d \<and> fb_h e = fb_h d"

lemma u32_bound: "unat x < 2 ^ 32" for x :: u32
  using unsigned_less [where 'a = nat, of x] by simp

lemma cell_less: "x < w \<Longrightarrow> y < h \<Longrightarrow> y * w + x < w * h" for x :: nat
proof -
  assume "x < w" "y < h"
  then have "y * w + x < Suc y * w" by simp
  also have "\<dots> \<le> h * w" using \<open>y < h\<close> by (intro mult_le_mono1) simp
  finally show ?thesis by (simp add: mult.commute)
qed

lemma cell_inj: "x < w \<Longrightarrow> x' < w \<Longrightarrow> y * w + x = y' * w + x' \<longleftrightarrow> x = x' \<and> y = y'" for x :: nat
proof
  assume *: "x < w" "x' < w" "y * w + x = y' * w + x'"
  then have "(y * w + x) mod w = (y' * w + x') mod w" "(y * w + x) div w = (y' * w + x') div w" by simp_all
  then show "x = x' \<and> y = y'" using *(1,2) by simp
qed simp

lemma unat_cell: "unat y * unat w + unat x < 2 ^ 32 \<Longrightarrow> unat (y * w + x) = unat y * unat w + unat x" for x y w :: u32
  by (simp add: unat_word_ariths)

lemma fb_put_ok:
  assumes "fb_ok d" "px < fb_w d" "py < fb_h d"
  shows "\<exists>d'. fb_put px py c d = Some d' \<and> fb_ok d' \<and> fb_same d d'
    \<and> (\<forall>x y. x < unat (fb_w d) \<longrightarrow> y < unat (fb_h d) \<longrightarrow> fb_at d' x y = (if x = unat px \<and> y = unat py then c else fb_at d x y))"
proof -
  have p: "unat px < unat (fb_w d)" "unat py < unat (fb_h d)" using assms(2,3) by (simp_all add: word_less_nat_alt)
  have d4: "fb_w d * 4 div 4 = fb_w d" 
  proof -
    have "unat (fb_w d * 4) = unat (fb_w d) * 4" using assms(1) by (simp add: fb_ok_def unat_word_ariths)
    then have "unat (fb_w d * 4 div 4) = unat (fb_w d)" by (simp add: unat_div)
    then show ?thesis by (simp only: word_unat_eq_iff)
  qed
  have i: "unat py * unat (fb_w d) + unat px < unat (fb_w d) * unat (fb_h d)" using p by (rule cell_less)
  then have ui: "unat (py * fb_w d + px) = unat py * unat (fb_w d) + unat px" using assms(1) by (intro unat_cell) (auto simp: fb_ok_def)
  have j: "unat (py * fb_real_pitch d + px) < length q" if "fb_real d = Some q" for q
  proof -
    have r: "unat (fb_w d) \<le> unat (fb_real_pitch d)" "unat (fb_real_pitch d) * unat (fb_h d) < 2 ^ 32" "unat (fb_real_pitch d) * unat (fb_h d) \<le> length q"
      using assms(1) that by (auto simp: fb_ok_def)
    have "unat py * unat (fb_real_pitch d) + unat px < unat (fb_real_pitch d) * unat (fb_h d)" using p r(1) by (intro cell_less) auto
    then show ?thesis using r(2,3) by (subst unat_cell) auto
  qed
  have l: "length (fb_buf d) = unat (fb_w d) * unat (fb_h d)" using assms(1) by (simp add: fb_ok_def)
  have at: "(fb_buf d)[unat py * unat (fb_w d) + unat px := c] ! (y * unat (fb_w d) + x) = (if x = unat px \<and> y = unat py then c else fb_at d x y)"
    if "x < unat (fb_w d)" "y < unat (fb_h d)" for x y
    using that p i l cell_inj [of "unat px" "unat (fb_w d)" x "unat py" y] by (auto simp: fb_at_def nth_list_update)
  show ?thesis using assms(1) i l j at
    by (auto simp: fb_put_def Let_def d4 ui fb_ok_def fb_same_def fb_at_def split: option.splits)
qed

definition opaque :: "u32 \<Rightarrow> bool" where
  "opaque c \<longleftrightarrow> drop_bit 24 c \<noteq> 0"

definition rect_at :: "fb_rect \<Rightarrow> nat \<Rightarrow> nat \<Rightarrow> u32" where
  "rect_at r x y = r_pixels r ! (y * unat (r_w r) + x)"

text \<open>\<open>cols\<close> of the columns from \<open>k\<close> on, in the row of the screen \<open>y\<close> that comes from the row \<open>row\<close> of the rectangle.\<close>

definition painted :: "fb_rect \<Rightarrow> nat \<Rightarrow> nat \<Rightarrow> nat \<Rightarrow> bool" where
  "painted r k row x \<longleftrightarrow> unat (r_x r) + k \<le> x \<and> x < unat (r_x r) + unat (r_w r) \<and> opaque (rect_at r (x - unat (r_x r)) row)"

lemma painted_step:
  "k < unat (r_w r) \<Longrightarrow> painted r k row x \<longleftrightarrow> x = unat (r_x r) + k \<and> opaque (rect_at r k row) \<or> painted r (Suc k) row x"
  by (cases "x = unat (r_x r) + k") (auto simp: painted_def)

lemma blit_cols_ok:
  assumes "fb_ok d" "py < fb_h d" "unat row * unat (r_w r) + unat (r_w r) \<le> length (r_pixels r)" "length (r_pixels r) < 2 ^ 32"
    and "k \<le> unat (r_w r)" "unat (r_x r) + k < 2 ^ 32"
  shows "\<exists>d'. blit_cols r row py [k..<unat (r_w r)] d = Some d' \<and> fb_ok d' \<and> fb_same d d'
    \<and> (\<forall>x y. x < unat (fb_w d) \<longrightarrow> y < unat (fb_h d) \<longrightarrow>
         fb_at d' x y = (if y = unat py \<and> painted r k (unat row) x then rect_at r (x - unat (r_x r)) (unat row) else fb_at d x y))"
  using assms
proof (induction "unat (r_w r) - k" arbitrary: k d)
  case 0
  then have e: "[k..<unat (r_w r)] = []" and p: "\<And>x. \<not> painted r k (unat row) x" by (auto simp: painted_def)
  have "blit_cols r row py [k..<unat (r_w r)] d = Some d" unfolding e by simp
  then show ?case using 0(2) p by (intro exI [of _ d]) (simp add: fb_same_def)
next
  case (Suc n)
  let ?w = "unat (r_w r)" and ?x = "unat (r_x r)"
  have k: "k < ?w" using Suc.hyps(2) by simp
  have u: "[k..<?w] = k # [Suc k..<?w]" using k by (rule upt_conv_Cons)
  have px: "unat (r_x r + word_of_nat k) = ?x + k" using Suc.prems(6) k by (simp add: unat_word_ariths unat_of_nat)
  have i: "unat row * ?w + k < length (r_pixels r)" using Suc.prems(3) k by linarith
  then have ui: "unat (row * r_w r + word_of_nat k) = unat row * ?w + k"
    using Suc.prems(4) by (simp add: unat_word_ariths unat_of_nat)
  show ?case
  proof (cases "fb_w d \<le> r_x r + word_of_nat k")
    case True
    then have "unat (fb_w d) \<le> ?x + k" using px by (simp add: word_le_nat_alt)
    then show ?thesis using True Suc.prems(1) by (auto simp: u Let_def fb_same_def painted_def)
  next
    case False
    then have lt: "r_x r + word_of_nat k < fb_w d" by simp
    let ?c = "rect_at r k (unat row)"
    have c: "r_pixels r ! unat (row * r_w r + word_of_nat k) = ?c" by (simp add: ui rect_at_def)
    obtain d1 where d1: "(if drop_bit 24 ?c = 0 then Some d else fb_put (r_x r + word_of_nat k) py ?c d) = Some d1" "fb_ok d1" "fb_same d d1"
      "\<And>x y. x < unat (fb_w d) \<Longrightarrow> y < unat (fb_h d) \<Longrightarrow> fb_at d1 x y = (if opaque ?c \<and> x = ?x + k \<and> y = unat py then ?c else fb_at d x y)"
      using fb_put_ok [OF Suc.prems(1) lt Suc.prems(2), of ?c] Suc.prems(1) px by (cases "drop_bit 24 ?c = 0") (auto simp: opaque_def fb_same_def)
    have "?x + Suc k \<le> unat (fb_w d)" using lt px by (simp add: word_less_nat_alt)
    then have x1: "?x + Suc k < 2 ^ 32" using u32_bound by (rule le_less_trans)
    have n: "n = ?w - Suc k" and k1: "Suc k \<le> ?w" using Suc.hyps(2) k by simp_all
    have "py < fb_h d1" using Suc.prems(2) d1(3) by (simp add: fb_same_def)
    from Suc.hyps(1) [OF n d1(2) this Suc.prems(3,4) k1 x1] obtain d2 where d2: "blit_cols r row py [Suc k..<?w] d1 = Some d2" "fb_ok d2" "fb_same d1 d2"
      "\<And>x y. x < unat (fb_w d1) \<Longrightarrow> y < unat (fb_h d1) \<Longrightarrow>
         fb_at d2 x y = (if y = unat py \<and> painted r (Suc k) (unat row) x then rect_at r (x - ?x) (unat row) else fb_at d1 x y)"
      by blast
    have "blit_cols r row py [k..<?w] d = Some d2" using False i d1(1) d2(1) by (auto simp: u Let_def ui rect_at_def split: if_splits)
    moreover have "fb_at d2 x y = (if y = unat py \<and> painted r k (unat row) x then rect_at r (x - ?x) (unat row) else fb_at d x y)"
      if "x < unat (fb_w d)" "y < unat (fb_h d)" for x y
      using that d1(3,4) d2(4) painted_step [OF k, of "unat row" x] by (auto simp: fb_same_def)
    ultimately show ?thesis using d1(3) d2(2,3) by (auto simp: fb_same_def)
  qed
qed

lemma blit_rows_ok:
  assumes "fb_ok d" "unat (r_h r) * unat (r_w r) \<le> length (r_pixels r)" "length (r_pixels r) < 2 ^ 32"
    and "k \<le> unat (r_h r)" "unat (r_y r) + k < 2 ^ 32"
  shows "\<exists>d'. blit_rows r [k..<unat (r_h r)] d = Some d' \<and> fb_ok d' \<and> fb_same d d'
    \<and> (\<forall>x y. x < unat (fb_w d) \<longrightarrow> y < unat (fb_h d) \<longrightarrow>
         fb_at d' x y = (if unat (r_y r) + k \<le> y \<and> y < unat (r_y r) + unat (r_h r) \<and> painted r 0 (y - unat (r_y r)) x
                          then rect_at r (x - unat (r_x r)) (y - unat (r_y r)) else fb_at d x y))"
  using assms
proof (induction "unat (r_h r) - k" arbitrary: k d)
  case 0
  then have e: "[k..<unat (r_h r)] = []" and k: "k \<ge> unat (r_h r)" by auto
  have "blit_rows r [k..<unat (r_h r)] d = Some d" unfolding e by simp
  then show ?case using 0(2) k by (intro exI [of _ d]) (auto simp: fb_same_def)
next
  case (Suc n)
  let ?h = "unat (r_h r)" and ?y = "unat (r_y r)"
  have k: "k < ?h" using Suc.hyps(2) by simp
  have u: "[k..<?h] = k # [Suc k..<?h]" using k by (rule upt_conv_Cons)
  have "k < 2 ^ 32" using k u32_bound by (rule less_trans)
  then have ku: "unat (word_of_nat k :: u32) = k" by (simp add: unat_of_nat)
  have py: "unat (r_y r + word_of_nat k) = ?y + k" using Suc.prems(5) ku by (simp add: unat_word_ariths)
  show ?case
  proof (cases "fb_h d \<le> r_y r + word_of_nat k")
    case True
    then have "unat (fb_h d) \<le> ?y + k" using py by (simp add: word_le_nat_alt)
    then show ?thesis using True Suc.prems(1) by (auto simp: u Let_def fb_same_def)
  next
    case False
    then have lt: "r_y r + word_of_nat k < fb_h d" by simp
    have "(k + 1) * unat (r_w r) \<le> ?h * unat (r_w r)" using k by (intro mult_le_mono1) simp
    then have l: "unat (word_of_nat k :: u32) * unat (r_w r) + unat (r_w r) \<le> length (r_pixels r)" using Suc.prems(2) ku by simp
    have x0: "unat (r_x r) + 0 < 2 ^ 32" using u32_bound [of "r_x r"] by simp
    obtain d1 where d1: "blit_cols r (word_of_nat k) (r_y r + word_of_nat k) [0..<unat (r_w r)] d = Some d1" "fb_ok d1" "fb_same d d1"
      "\<And>x y. x < unat (fb_w d) \<Longrightarrow> y < unat (fb_h d) \<Longrightarrow>
         fb_at d1 x y = (if y = ?y + k \<and> painted r 0 k x then rect_at r (x - unat (r_x r)) k else fb_at d x y)"
      using blit_cols_ok [OF Suc.prems(1) lt l Suc.prems(3) le0 x0] py ku by auto
    have "?y + Suc k \<le> unat (fb_h d)" using lt py by (simp add: word_less_nat_alt)
    then have y1: "?y + Suc k < 2 ^ 32" using u32_bound by (rule le_less_trans)
    have n: "n = ?h - Suc k" and k1: "Suc k \<le> ?h" using Suc.hyps(2) k by simp_all
    from Suc.hyps(1) [OF n d1(2) Suc.prems(2,3) k1 y1] obtain d2 where d2: "blit_rows r [Suc k..<?h] d1 = Some d2" "fb_ok d2" "fb_same d1 d2"
      "\<And>x y. x < unat (fb_w d1) \<Longrightarrow> y < unat (fb_h d1) \<Longrightarrow>
         fb_at d2 x y = (if ?y + Suc k \<le> y \<and> y < ?y + ?h \<and> painted r 0 (y - ?y) x
                          then rect_at r (x - unat (r_x r)) (y - ?y) else fb_at d1 x y)"
      by blast
    have "blit_rows r [k..<?h] d = Some d2" using False d1(1) d2(1) by (simp add: u Let_def)
    moreover have "fb_at d2 x y = (if ?y + k \<le> y \<and> y < ?y + ?h \<and> painted r 0 (y - ?y) x
                          then rect_at r (x - unat (r_x r)) (y - ?y) else fb_at d x y)"
      if "x < unat (fb_w d)" "y < unat (fb_h d)" for x y
      using that d1(3,4) d2(4) k by (cases "y = ?y + k") (auto simp: fb_same_def)
    ultimately show ?thesis using d1(3) d2(2,3) by (auto simp: fb_same_def)
  qed
qed

text \<open>A request to copy changes exactly the pixels of the screen the rectangle covers with an opaque pixel.\<close>

definition in_rect :: "fb_rect \<Rightarrow> nat \<Rightarrow> nat \<Rightarrow> bool" where
  "in_rect r x y \<longleftrightarrow> unat (r_x r) \<le> x \<and> x < unat (r_x r) + unat (r_w r) \<and> unat (r_y r) \<le> y \<and> y < unat (r_y r) + unat (r_h r)"

text \<open>
  A request to copy a rectangle onto the screen of the programs never writes outside of the picture or of
  the memory of the card, wherever on the screen or beyond its right and lower edges the rectangle lies: it clips the rectangle,
  and a pixel of the screen is afterwards the pixel of the rectangle that covers it when there is one and it is not transparent
  (its upper byte is not 0), and what it was before otherwise.
\<close>
lemma fb0_blit_clips:
  assumes "fb_ok d" "unat (r_h r) * unat (r_w r) \<le> length (r_pixels r)" "length (r_pixels r) < 2 ^ 32"
  obtains d' where "fb0_blit r d = Some d'" "fb_ok d'" "fb_same d d'"
    "\<And>x y. x < unat (fb_w d) \<Longrightarrow> y < unat (fb_h d) \<Longrightarrow>
       fb_at d' x y = (let c = rect_at r (x - unat (r_x r)) (y - unat (r_y r)) in if in_rect r x y \<and> opaque c then c else fb_at d x y)"
proof -
  have y0: "unat (r_y r) + 0 < 2 ^ 32" using u32_bound [of "r_y r"] by simp
  obtain d' where *: "fb0_blit r d = Some d'" "fb_ok d'" "fb_same d d'"
    "\<And>x y. x < unat (fb_w d) \<Longrightarrow> y < unat (fb_h d) \<Longrightarrow>
         fb_at d' x y = (if unat (r_y r) + 0 \<le> y \<and> y < unat (r_y r) + unat (r_h r) \<and> painted r 0 (y - unat (r_y r)) x
                          then rect_at r (x - unat (r_x r)) (y - unat (r_y r)) else fb_at d x y)"
    using blit_rows_ok [OF assms(1,2,3) le0 y0] by (auto simp: fb0_blit_def)
  show thesis
  proof (rule that [OF *(1-3)])
    fix x y
    assume "x < unat (fb_w d)" "y < unat (fb_h d)"
    from *(4) [OF this]
    show "fb_at d' x y = (let c = rect_at r (x - unat (r_x r)) (y - unat (r_y r)) in if in_rect r x y \<and> opaque c then c else fb_at d x y)"
      by (auto simp: in_rect_def painted_def Let_def)
  qed
qed

definition screen2 :: fb_dev where
  "screen2 = \<lparr>fb_w = 3, fb_h = 2, fb_buf = [1, 2, 3, 4, 5, 6], fb_real = Some [1, 2, 3, 0, 4, 5, 6, 0], fb_real_pitch = 4\<rparr>"

definition sprite2 :: fb_rect where
  "sprite2 = \<lparr>r_x = 2, r_y = 1, r_w = 2, r_h = 2, r_pixels = [0xff000007, 8, 9, 10]\<rparr>"

lemma fb0_blit_clips_witness:
  "\<exists>d'. fb0_blit sprite2 screen2 = Some d' \<and> fb_at d' 2 1 = 0xff000007 \<and> fb_at d' 1 1 = 5"
proof -
  have h: "fb_ok screen2" "unat (r_h sprite2) * unat (r_w sprite2) \<le> length (r_pixels sprite2)" "length (r_pixels sprite2) < 2 ^ 32"
    by (simp_all add: fb_ok_def screen2_def sprite2_def)
  have c: "fb_w screen2 = 3" "fb_h screen2 = 2" "in_rect sprite2 2 1" "\<not> in_rect sprite2 1 1" "rect_at sprite2 0 0 = 0xff000007"
    "opaque 0xff000007" "fb_at screen2 1 1 = 5" "r_x sprite2 = 2" "r_y sprite2 = 1"
    by (simp_all add: screen2_def sprite2_def in_rect_def rect_at_def opaque_def fb_at_def)
  show ?thesis
  proof (rule fb0_blit_clips [OF h])
    fix d'
    assume a: "fb0_blit sprite2 screen2 = Some d'"
      and *: "\<And>x y. x < unat (fb_w screen2) \<Longrightarrow> y < unat (fb_h screen2) \<Longrightarrow>
       fb_at d' x y = (let c = rect_at sprite2 (x - unat (r_x sprite2)) (y - unat (r_y sprite2)) in
         if in_rect sprite2 x y \<and> opaque c then c else fb_at screen2 x y)"
    show ?thesis using a *[of 2 1] *[of 1 1] c by (simp add: Let_def)
  qed
qed

section \<open>What the drawing functions draw\<close>

text \<open>The context of the screen, for screens no wider than the buffer of a row.\<close>

definition ctx_ok :: "ds \<Rightarrow> bool" where
  "ctx_ok s \<longleftrightarrow> fb_ok (snd s) \<and> ds_w (fst s) = int (unat (fb_w (snd s))) \<and> ds_h (fst s) = int (unat (fb_h (snd s)))
     \<and> length (ds_row_buf (fst s)) = DS_ROW_BUF_W \<and> unat (fb_w (snd s)) \<le> DS_ROW_BUF_W"

definition drawn :: "ds \<Rightarrow> ds option \<Rightarrow> (nat \<Rightarrow> nat \<Rightarrow> bool) \<Rightarrow> u32 \<Rightarrow> bool" where
  "drawn s s' A color \<longleftrightarrow> (\<exists>t. s' = Some t \<and> ctx_ok t \<and> fb_same (snd s) (snd t)
     \<and> (\<forall>x y. x < unat (fb_w (snd s)) \<longrightarrow> y < unat (fb_h (snd s)) \<longrightarrow>
          fb_at (snd t) x y = (if A x y then color else fb_at (snd s) x y)))"

lemma drawn_none [intro]: "ctx_ok s \<Longrightarrow> (\<And>x y. x < unat (fb_w (snd s)) \<Longrightarrow> y < unat (fb_h (snd s)) \<Longrightarrow> \<not> A x y) \<Longrightarrow> drawn s (Some s) A color"
  by (auto simp: drawn_def fb_same_def)

lemma drawn_bind:
  assumes "drawn s s' A color" "\<And>t. ctx_ok t \<Longrightarrow> fb_same (snd s) (snd t) \<Longrightarrow> drawn t (f t) B color"
  shows "drawn s (s' \<bind> f) (\<lambda>x y. A x y \<or> B x y) color"
proof -
  obtain t where t: "s' = Some t" "ctx_ok t" "fb_same (snd s) (snd t)"
    "\<And>x y. x < unat (fb_w (snd s)) \<Longrightarrow> y < unat (fb_h (snd s)) \<Longrightarrow> fb_at (snd t) x y = (if A x y then color else fb_at (snd s) x y)"
    using assms(1) by (auto simp: drawn_def)
  from assms(2) [OF t(2,3)] t show ?thesis by (auto simp: drawn_def fb_same_def)
qed

lemma drawn_cong: "drawn s s' A color \<Longrightarrow> (\<And>x y. x < unat (fb_w (snd s)) \<Longrightarrow> y < unat (fb_h (snd s)) \<Longrightarrow> A x y \<longleftrightarrow> B x y) \<Longrightarrow> drawn s s' B color"
  by (auto simp: drawn_def)

lemma ds_blit_row_drawn:
  assumes "ctx_ok (ctx, d)" "0 \<le> x" "0 \<le> y" "x < ds_w ctx" "y < ds_h ctx" "0 \<le> len" "x + len \<le> ds_w ctx"
    and "\<And>i. i < nat len \<Longrightarrow> ds_row_buf ctx ! i = color" "opaque color"
  shows "drawn (ctx, d) (ds_blit_row x y len (ctx, d)) (\<lambda>px py. y = int py \<and> x \<le> int px \<and> int px < x + len) color"
proof -
  let ?r = "\<lparr>r_x = word_of_int x, r_y = word_of_int y, r_w = word_of_int len, r_h = 1, r_pixels = ds_row_buf ctx\<rparr> :: fb_rect"
  have g: "fb_ok d" "ds_w ctx = int (unat (fb_w d))" "ds_h ctx = int (unat (fb_h d))" "length (ds_row_buf ctx) = 2048" "unat (fb_w d) \<le> 2048"
    using assms(1) by (auto simp: ctx_ok_def DS_ROW_BUF_W_def)
  have u: "unat (word_of_int i :: u32) = nat i" if "0 \<le> i" "i \<le> int (unat j)" for i and j :: u32
  proof -
    have "int (unat j) < int (2 ^ 32)" using u32_bound by (simp only: of_nat_less_iff)
    with that(2) have "i < int (2 ^ 32)" by (rule le_less_trans)
    then show ?thesis using that(1) by (simp add: unsigned_of_int take_bit_int_eq_self nat_eq_iff)
  qed
  have ux: "unat (word_of_int x :: u32) = nat x" using assms g by (intro u [of _ "fb_w d"]) auto
  have uy: "unat (word_of_int y :: u32) = nat y" using assms g by (intro u [of _ "fb_h d"]) auto
  have ul: "unat (word_of_int len :: u32) = nat len" using assms g by (intro u [of _ "fb_w d"]) auto
  have "nat len \<le> 2048" using assms(2,7) g(2,5) by linarith
  then have h: "unat (r_h ?r) * unat (r_w ?r) \<le> length (r_pixels ?r)" "length (r_pixels ?r) < 2 ^ 32" using g(4) ul by simp_all
  show ?thesis
  proof (rule fb0_blit_clips [OF g(1) h])
    fix d'
    assume d': "fb0_blit ?r d = Some d'" "fb_ok d'" "fb_same d d'" "\<And>x y. x < unat (fb_w d) \<Longrightarrow> y < unat (fb_h d) \<Longrightarrow>
       fb_at d' x y = (let c = rect_at ?r (x - unat (r_x ?r)) (y - unat (r_y ?r)) in if in_rect ?r x y \<and> opaque c then c else fb_at d x y)"
    have "fb_at d' px py = (if y = int py \<and> x \<le> int px \<and> int px < x + len then color else fb_at d px py)"
      if "px < unat (fb_w d)" "py < unat (fb_h d)" for px py
    proof -
      have "rect_at ?r (px - nat x) (py - nat y) = color" if "y = int py" "x \<le> int px" "int px < x + len"
        using that assms(2) assms(8) [of "px - nat x"] by (simp add: rect_at_def nat_less_iff)
      moreover have "in_rect ?r px py \<longleftrightarrow> y = int py \<and> x \<le> int px \<and> int px < x + len"
        using assms(2,3,6) by (auto simp: in_rect_def ux uy ul nat_le_iff)
      ultimately show ?thesis using d'(4) [OF that] assms(9) by (auto simp: Let_def ux uy)
    qed
    then show ?thesis using d'(1-3) assms(1) by (auto simp: drawn_def ds_blit_row_def ctx_ok_def fb_same_def)
  qed
qed

lemma ds_hline_drawn:
  assumes "ctx_ok s" "opaque color"
  shows "drawn s (ds_hline x y w color s) (\<lambda>px py. y = int py \<and> x \<le> int px \<and> int px < x + w) color"
proof -
  obtain ctx d where s: "s = (ctx, d)" by (cases s)
  define x' where "x' = max x 0"
  define w' where "w' = min (x + w) (ds_w ctx) - x'"
  define W H where "W = unat (fb_w d)" and "H = unat (fb_h d)"
  have g: "ds_w ctx = int W" "ds_h ctx = int H" "length (ds_row_buf ctx) = 2048" "W \<le> 2048"
    using assms(1) by (auto simp: ctx_ok_def DS_ROW_BUF_W_def s W_def H_def)
  let ?c = "ctx\<lparr>ds_row_buf := replicate (min (nat w') DS_ROW_BUF_W) color @ drop (min (nat w') DS_ROW_BUF_W) (ds_row_buf ctx)\<rparr>"
  have e: "ds_hline x y w color s = (if y < 0 \<or> y \<ge> ds_h ctx \<or> w' \<le> 0 then Some s else ds_blit_row x' y w' (?c, d))"
  proof -
    have "(if x < 0 then (0, w + x) else (x, w)) = (x', x + w - x')" by (simp add: x'_def)
    moreover have "(if x' + (x + w - x') > ds_w ctx then ds_w ctx - x' else x + w - x') = w'" by (simp add: w'_def min_def)
    ultimately show ?thesis by (simp only: ds_hline_def s prod.case Let_def) simp
  qed
  show ?thesis
  proof (cases "y < 0 \<or> y \<ge> ds_h ctx \<or> w' \<le> 0")
    case True
    then have "drawn s (Some s) (\<lambda>px py. y = int py \<and> x \<le> int px \<and> int px < x + w) color"
      using g assms(1) by (intro drawn_none) (auto simp: s x'_def w'_def W_def [symmetric] H_def [symmetric])
    then show ?thesis using True e by simp
  next
    case False
    then have w: "0 \<le> w'" "w' \<le> 2048" "x' < ds_w ctx" "x' + w' \<le> ds_w ctx" using g by (auto simp: x'_def w'_def)
    have c: "ctx_ok (?c, d)" using assms(1) by (simp add: ctx_ok_def s DS_ROW_BUF_W_def)
    have "drawn (?c, d) (ds_blit_row x' y w' (?c, d)) (\<lambda>px py. y = int py \<and> x' \<le> int px \<and> int px < x' + w') color"
      using False w c assms(2) g by (intro ds_blit_row_drawn) (auto simp: x'_def nth_append DS_ROW_BUF_W_def)
    then have "drawn s (ds_blit_row x' y w' (?c, d)) (\<lambda>px py. y = int py \<and> x \<le> int px \<and> int px < x + w) color"
      using g by (auto simp: s x'_def w'_def W_def [symmetric] drawn_def)
    then show ?thesis using False e by simp
  qed
qed

lemma ds_rect_loop_drawn:
  assumes "ctx_ok s" "opaque color"
  shows "drawn s (ds_rect_loop x y w color dys s) (\<lambda>px py. (\<exists>dy \<in> set dys. y + int dy = int py) \<and> x \<le> int px \<and> int px < x + w) color"
  using assms(1)
proof (induction dys arbitrary: s)
  case Nil
  then show ?case by auto
next
  case (Cons dy dys)
  from drawn_bind [OF ds_hline_drawn [OF Cons.prems assms(2), of x "y + int dy" w] Cons.IH]
  show ?case by (auto elim!: drawn_cong)
qed

text \<open>
  C37. The rectangle a program draws is drawn as asked: for a context of a screen of at most 2048 columns, any
  position (also to the left of the screen or above it), any size and any opaque colour, the pixels of the screen inside of the
  rectangle have the colour afterwards and all others are as before, and the requests never leave the buffers.
\<close>
theorem ds_rect_fills:
  assumes "ctx_ok s" "opaque color"
  shows "\<exists>t. ds_rect x y w h color s = Some t \<and> ctx_ok t
    \<and> (\<forall>px py. px < unat (fb_w (snd s)) \<longrightarrow> py < unat (fb_h (snd s)) \<longrightarrow>
         fb_at (snd t) px py =
           (if x \<le> int px \<and> int px < x + w \<and> y \<le> int py \<and> int py < y + h then color else fb_at (snd s) px py))"
proof -
  have "(\<exists>dy \<in> set [0..<nat h]. y + int dy = int py) \<longleftrightarrow> y \<le> int py \<and> int py < y + h" for py
    by (auto intro!: bexI [of _ "nat (int py - y)"])
  with ds_rect_loop_drawn [OF assms, of x y w "[0..<nat h]"]
  show ?thesis by (auto simp: ds_rect_def drawn_def)
qed

definition ctx2 :: draw_ctx where
  "ctx2 = \<lparr>ds_w = 3, ds_h = 2, ds_row_buf = replicate 2048 0\<rparr>"

lemma ds_rect_fills_witness:
  "\<exists>t. ds_rect (-1) (-1) 3 2 0xff00ff00 (ctx2, screen2) = Some t \<and> fb_at (snd t) 1 0 = 0xff00ff00 \<and> fb_at (snd t) 2 0 = 3"
proof -
  have h: "ctx_ok (ctx2, screen2)" "opaque 0xff00ff00"
    by (simp_all add: ctx_ok_def fb_ok_def screen2_def ctx2_def DS_ROW_BUF_W_def opaque_def)
  have c: "fb_w screen2 = 3" "fb_h screen2 = 2" "fb_at screen2 2 0 = 3" by (simp_all add: screen2_def fb_at_def)
  show ?thesis using ds_rect_fills [OF h, of "-1" "-1" 3 2] c by auto
qed

end
