(* ===== verification/AmlNs.thy ===== *)
theory AmlNs
  imports CString
begin

text \<open>
  The names of the machine language of ACPI and the table of named objects, from \<^verbatim>\<open>emex/kernel/arch/x86_64/acpi/acpi.c\<close>: reading
  names, lengths and numbers, resolving names, and the scan that fills the table. The memory is a function from addresses to
  bytes, an address a natural number. Names are kept in buffers of 128 characters: a flag tells that a name did not fit, or that
  a string without its NUL was read, and nothing is claimed from there on.
\<close>

type_synonym mem = "nat \<Rightarrow> u8"

definition AML_NS_MAX :: nat where "AML_NS_MAX = 4096"
definition AML_NAME_MAX :: nat where "AML_NAME_MAX = 128"

section \<open>Names, lengths and numbers in the code\<close>

definition byte_char :: "u8 \<Rightarrow> char" where
  "byte_char b = char_of (unat b)"

text \<open>\<^verbatim>\<open>strncpy(dest, s, AML_NAME_MAX-1)\<close>: a string of 127 characters or more is left without its NUL.\<close>

definition aml_strncpy :: "string \<Rightarrow> string \<times> bool" where
  "aml_strncpy s = (take (AML_NAME_MAX - 1) s, length s < AML_NAME_MAX - 1)"

text \<open>The text before the last character \<open>c\<close>.\<close>

definition before_last :: "char \<Rightarrow> string \<Rightarrow> string option" where
  "before_last c s = (if c \<in> set s then Some (rev (tl (dropWhile (\<lambda>d. d \<noteq> c) (rev s)))) else None)"

definition nameseg :: "mem \<Rightarrow> nat \<Rightarrow> string" where
  "nameseg m p = map (\<lambda>i. byte_char (m (p + i))) [0..<4]"

fun multi_segs :: "mem \<Rightarrow> nat \<Rightarrow> nat \<Rightarrow> string" where
  "multi_segs m p 0 = []"
| "multi_segs m p (Suc 0) = nameseg m p"
| "multi_segs m p (Suc n) = nameseg m p @ CHR ''.'' # multi_segs m (p + 4) n"

fun carets :: "mem \<Rightarrow> nat \<Rightarrow> nat \<Rightarrow> nat" where
  "carets m p 0 = 0"
| "carets m p (Suc k) = (if m p = 0x5E then Suc (carets m (p + 1) k) else 0)"

text \<open>
  The run of carets is followed for 128 bytes, the size of the buffer; a longer one does not fit. The result is the name as a C
  string, the address behind it, and whether it fits.
\<close>

definition parse_path :: "mem \<Rightarrow> nat \<Rightarrow> string \<times> nat \<times> bool" where
  "parse_path m p =
    (let (o1, p) = (if m p = 0x5C then ([CHR 0x5C], p + 1)
                    else let k = carets m p AML_NAME_MAX in (replicate k (CHR ''^''), p + k));
         (o2, p) = (if m p = 0 then ([], p + 1)
                    else if m p = 0x2E then (nameseg m (p + 1) @ CHR ''.'' # nameseg m (p + 5), p + 9)
                    else if m p = 0x2F then (let cnt = unat (m (p + 1)) in (multi_segs m (p + 2) cnt, p + 2 + 4 * cnt))
                    else (nameseg m p, p + 4))
     in (takeWhile (\<lambda>c. c \<noteq> NUL) (o1 @ o2), p, length (o1 @ o2) < AML_NAME_MAX))"

fun up_scope :: "string \<Rightarrow> string \<Rightarrow> string" where
  "up_scope sc (c # n) = (if c = CHR ''^'' then up_scope (case before_last (CHR ''.'') sc of Some d \<Rightarrow> d | None \<Rightarrow> [CHR 0x5C]) n else sc)"
| "up_scope sc [] = sc"

text \<open>Scopes begin with a backslash, so that a scope that is cut at a dot is not empty.\<close>

definition abs_path :: "string \<Rightarrow> string \<Rightarrow> string \<times> bool" where
  "abs_path scope name =
    (if name = [] then aml_strncpy scope
     else if hd name = CHR 0x5C then aml_strncpy name
     else let (sc, ok) = aml_strncpy scope; sc = up_scope sc name; n = dropWhile (\<lambda>c. c = CHR ''^'') name;
              sc = (if n = [] then sc else let d = (if length sc > 1 then sc @ [CHR ''.''] else sc) in d @ take (AML_NAME_MAX - 1 - length d) n)
          in (take (AML_NAME_MAX - 1) sc, ok))"

fun pkglen_loop :: "mem \<Rightarrow> nat \<Rightarrow> nat \<Rightarrow> nat \<Rightarrow> u32 \<Rightarrow> u32" where
  "pkglen_loop m p 0 i len = len"
| "pkglen_loop m p (Suc n) i len = pkglen_loop m (p + 1) n (i + 1) (len OR push_bit (4 + i * 8) (ucast (m p)))"

definition pkglen :: "mem \<Rightarrow> nat \<Rightarrow> u32 \<times> nat" where
  "pkglen m p = (let lead = m p; follow = unat (drop_bit 6 lead AND 3)
     in (pkglen_loop m (p + 1) follow 0 (ucast (lead AND 0x3F)), p + 1 + follow))"

definition is_int_op :: "u8 \<Rightarrow> bool" where
  "is_int_op op \<longleftrightarrow> op = 0 \<or> op = 1 \<or> op = 0xFF \<or> op = 0x0A \<or> op = 0x0B \<or> op = 0x0C \<or> op = 0x0E"

fun read_le :: "mem \<Rightarrow> nat \<Rightarrow> nat \<Rightarrow> u64" where
  "read_le m p 0 = 0"
| "read_le m p (Suc n) = ucast (m p) OR push_bit 8 (read_le m (p + 1) n)"

definition parse_int :: "mem \<Rightarrow> nat \<Rightarrow> u64 \<times> nat" where
  "parse_int m p =
    (let op = m p; p = p + 1
     in if op = 0 then (0, p) else if op = 1 then (1, p) else if op = 0xFF then (NOT 0, p)
        else if op = 0x0A then (read_le m p 1, p + 1) else if op = 0x0B then (read_le m p 2, p + 2)
        else if op = 0x0C then (read_le m p 4, p + 4) else if op = 0x0E then (read_le m p 8, p + 8) else (0, p))"

section \<open>The table of objects\<close>

datatype aml_kind =
    AML_INT u64
  | AML_METHOD nat u32 nat
  | AML_REGION u8 bool u64 string u32
  | AML_FIELD string u32 u32

record aml_obj =
  obj_path :: string
  obj_kind :: aml_kind

text \<open>The place of the first object of that path.\<close>

definition ns_exact :: "aml_obj list \<Rightarrow> string \<Rightarrow> nat option" where
  "ns_exact ns path = (let i = length (takeWhile (\<lambda>x. obj_path x \<noteq> path) ns) in if i < length ns then Some i else None)"

lemma before_last_less: "before_last c s = Some d \<Longrightarrow> length d < length s"
proof -
  assume a: "before_last c s = Some d"
  have "length (dropWhile (\<lambda>d. d \<noteq> c) (rev s)) \<le> length s" using length_dropWhile_le [of _ "rev s"] by simp
  then show ?thesis using a by (cases s) (auto simp: before_last_def split: if_splits)
qed

function ns_find_loop :: "aml_obj list \<Rightarrow> string \<Rightarrow> string \<Rightarrow> nat option" where
  "ns_find_loop ns sc relname =
    (case ns_exact ns (fst (abs_path sc relname)) of
       Some i \<Rightarrow> Some i
     | None \<Rightarrow> (case before_last (CHR ''.'') sc of
                  Some d \<Rightarrow> ns_find_loop ns d relname
                | None \<Rightarrow> ns_exact ns (fst (abs_path [CHR 0x5C] relname))))"
  by pat_completeness auto
termination by (relation "measure (\<lambda>(ns, sc, r). length sc)") (auto dest: before_last_less)

declare ns_find_loop.simps [simp del]

definition ns_find :: "aml_obj list \<Rightarrow> string \<Rightarrow> string \<Rightarrow> nat option" where
  "ns_find ns scope relname =
    (if relname = [] then None else if hd relname = CHR 0x5C then ns_exact ns relname else ns_find_loop ns scope relname)"

text \<open>A new object at the end of the table, when there is room.\<close>

definition ns_add :: "string \<Rightarrow> aml_kind \<Rightarrow> aml_obj list \<Rightarrow> aml_obj list" where
  "ns_add path k ns = (if length ns < AML_NS_MAX then ns @ [\<lparr>obj_path = take (AML_NAME_MAX - 1) path, obj_kind = k\<rparr>] else ns)"

section \<open>The scan\<close>

record aml_scan_state =
  scan_ns :: "aml_obj list"
  scan_ok :: bool

text \<open>What one round of the loop does: it ends the scan of the block, goes on at an address, or scans a block with its scope first.\<close>

datatype scan_step = Scan_stop | Scan_next nat | Scan_into nat nat string

definition note_ok :: "bool \<Rightarrow> aml_scan_state \<Rightarrow> aml_scan_state" where
  "note_ok b st = st\<lparr>scan_ok := scan_ok st \<and> b\<rparr>"

definition declare_obj :: "string \<Rightarrow> aml_kind \<Rightarrow> aml_scan_state \<Rightarrow> aml_scan_state" where
  "declare_obj path k st = st\<lparr>scan_ns := ns_add path k (scan_ns st)\<rparr>"

text \<open>A name and the absolute path it stands for.\<close>

definition scan_name :: "mem \<Rightarrow> nat \<Rightarrow> string \<Rightarrow> aml_scan_state \<Rightarrow> string \<times> nat \<times> aml_scan_state" where
  "scan_name m p scope st = (let (rn, p, ok) = parse_path m p; (fn, ok') = abs_path scope rn in (fn, p, note_ok (ok \<and> ok') st))"

definition scan_method :: "mem \<Rightarrow> nat \<Rightarrow> nat \<Rightarrow> string \<Rightarrow> aml_scan_state \<Rightarrow> scan_step \<times> aml_scan_state" where
  "scan_method m p e scope st =
    (let ps = p; (len, p) = pkglen m p; pe = ps + unat len
     in if pe > e \<or> pe < p then (Scan_stop, st)
        else let (rn, p, ok) = parse_path m p; flags = m p; p = p + 1; (fn, ok') = abs_path scope rn
             in (Scan_next pe, declare_obj fn (AML_METHOD p (word_of_int (int pe - int p)) (unat (flags AND 7))) (note_ok (ok \<and> ok') st)))"

definition scan_set_int :: "string \<Rightarrow> u64 \<Rightarrow> aml_scan_state \<Rightarrow> aml_scan_state" where
  "scan_set_int fn val st =
    (case ns_exact (scan_ns st) fn of
       Some i \<Rightarrow> (case obj_kind (scan_ns st ! i) of
                    AML_INT _ \<Rightarrow> st\<lparr>scan_ns := (scan_ns st)[i := (scan_ns st ! i)\<lparr>obj_kind := AML_INT val\<rparr>]\<rparr>
                  | _ \<Rightarrow> st)
     | None \<Rightarrow> declare_obj fn (AML_INT val) st)"

definition scan_name_op :: "mem \<Rightarrow> nat \<Rightarrow> nat \<Rightarrow> string \<Rightarrow> aml_scan_state \<Rightarrow> scan_step \<times> aml_scan_state" where
  "scan_name_op m p e scope st =
    (let (fn, p, st) = scan_name m p scope st
     in if p < e \<and> is_int_op (m p) then (let (val, p) = parse_int m p in (Scan_next p, scan_set_int fn val st))
        else if p < e then
          (let dop = m p; p = p + 1
           in if dop = 0x12 \<or> dop = 0x11 \<or> dop = 0x13 then (Scan_next (min e (p + unat (fst (pkglen m p)))), st) else (Scan_next p, st))
        else (Scan_next p, st))"

definition scan_region :: "mem \<Rightarrow> nat \<Rightarrow> nat \<Rightarrow> string \<Rightarrow> aml_scan_state \<Rightarrow> scan_step \<times> aml_scan_state" where
  "scan_region m p e scope st =
    (let (fn, p, st) = scan_name m p scope st; space = m p; p = p + 1;
         (dyn, base, base_fld, p, st) =
           (if p < e \<and> is_int_op (m p) then (let (v, p) = parse_int m p in (False, v, [], p, st))
            else if p < e then (let (bn, p, st) = scan_name m p scope st in (True, 0, bn, p, st))
            else (False, 0, [], p, st));
         (rlen, p, st) =
           (if p < e \<and> is_int_op (m p) then (let (v, p) = parse_int m p in (ucast v, p, st))
            else if p < e then (let (_, p, ok) = parse_path m p in (0, p, note_ok ok st))
            else (0, p, st))
     in (Scan_next p, declare_obj fn (AML_REGION space dyn base (take (AML_NAME_MAX - 1) base_fld) rlen) st))"

function scan_fields :: "mem \<Rightarrow> nat \<Rightarrow> nat \<Rightarrow> string \<Rightarrow> string \<Rightarrow> u32 \<Rightarrow> aml_scan_state \<Rightarrow> aml_scan_state" where
  "scan_fields m p pe scope rgn bit_off st =
    (if pe \<le> p then st
     else if m p = 0 then scan_fields m (snd (pkglen m (p + 1))) pe scope rgn (bit_off + fst (pkglen m (p + 1))) st
     else if m p = 1 then scan_fields m (p + 3) pe scope rgn bit_off st
     else if m p = 2 then scan_fields m (p + 1) pe scope rgn bit_off st
     else if m p = 3 then scan_fields m (p + 4) pe scope rgn bit_off st
     else let fn = takeWhile (\<lambda>c. c \<noteq> NUL) (nameseg m p); bw = fst (pkglen m (p + 4)); (full, ok) = abs_path scope fn
          in scan_fields m (snd (pkglen m (p + 4))) pe scope rgn (bit_off + bw)
               (declare_obj full (AML_FIELD (take (AML_NAME_MAX - 1) rgn) bit_off bw) (note_ok ok st)))"
  by pat_completeness auto
termination by (relation "measure (\<lambda>(m, p, pe, _). pe - p)") (auto simp: pkglen_def Let_def)

declare scan_fields.simps [simp del]

text \<open>A block with a length, a name and \<open>k\<close> more bytes before its contents.\<close>

definition scan_block :: "nat \<Rightarrow> mem \<Rightarrow> nat \<Rightarrow> nat \<Rightarrow> string \<Rightarrow> aml_scan_state \<Rightarrow> scan_step \<times> aml_scan_state" where
  "scan_block k m p e scope st =
    (let ps = p; (len, p) = pkglen m p; pe = ps + unat len
     in if pe > e \<or> pe < p then (Scan_stop, st)
        else let (fn, p, st) = scan_name m p scope st in (Scan_into (p + k) pe fn, st))"

definition scan_field_op :: "mem \<Rightarrow> nat \<Rightarrow> nat \<Rightarrow> string \<Rightarrow> aml_scan_state \<Rightarrow> scan_step \<times> aml_scan_state" where
  "scan_field_op m p e scope st =
    (let ps = p; (len, p) = pkglen m p; pe = ps + unat len
     in if pe > e \<or> pe < p then (Scan_stop, st)
        else let (rgn, p, st) = scan_name m p scope st in (Scan_next pe, scan_fields m (p + 1) pe scope rgn 0 st))"

definition scan_ext :: "mem \<Rightarrow> nat \<Rightarrow> nat \<Rightarrow> string \<Rightarrow> aml_scan_state \<Rightarrow> scan_step \<times> aml_scan_state" where
  "scan_ext m p e scope st =
    (let ext = m p; p = p + 1
     in if ext = 0x80 then scan_region m p e scope st
        else if ext = 0x81 then scan_field_op m p e scope st
        else if ext = 0x82 \<or> ext = 0x85 then scan_block 0 m p e scope st
        else if ext = 0x83 then scan_block 5 m p e scope st
        else if ext = 0x84 then scan_block 3 m p e scope st
        else if ext = 0x86 \<or> ext = 0x87 \<or> ext = 0x88 then (Scan_next (min e (p + unat (fst (pkglen m p)))), st)
        else (Scan_stop, st))"

definition scan_one :: "mem \<Rightarrow> nat \<Rightarrow> nat \<Rightarrow> string \<Rightarrow> aml_scan_state \<Rightarrow> scan_step \<times> aml_scan_state" where
  "scan_one m p e scope st =
    (let op = m p
     in if op = 0x10 then scan_block 0 m (p + 1) e scope st
        else if op = 0x14 then scan_method m (p + 1) e scope st
        else if op = 0x08 then scan_name_op m (p + 1) e scope st
        else if op = 0x5B \<and> p + 1 < e then scan_ext m (p + 1) e scope st
        else if op = 0xA0 \<or> op = 0xA1 \<or> op = 0xA2 then
          (let ps = p + 1; (len, p) = pkglen m ps; pe = ps + unat len
           in if pe > e \<or> pe < p then (Scan_stop, st) else (Scan_into p pe scope, st))
        else (Scan_next (p + 1), st))"

lemma parse_path_past: "parse_path m p = (n, p', ok) \<Longrightarrow> p < p'"
  by (auto simp: parse_path_def Let_def split: if_splits)

lemma pkglen_past: "pkglen m p = (l, p') \<Longrightarrow> p < p'"
  by (auto simp: pkglen_def Let_def)

lemma parse_int_past: "parse_int m p = (v, p') \<Longrightarrow> p < p'"
  by (auto simp: parse_int_def Let_def split: if_splits)

lemma scan_name_past: "scan_name m p scope st = (fn, p', st') \<Longrightarrow> p < p'"
  by (auto simp: scan_name_def Let_def dest: parse_path_past split: prod.splits)

lemmas past = parse_path_past pkglen_past parse_int_past scan_name_past

lemma scan_region_past: "scan_region m p e scope st = (r, st') \<Longrightarrow> \<exists>p'. r = Scan_next p' \<and> p < p'"
proof -
  assume a: "scan_region m p e scope st = (r, st')"
  obtain fn p1 st1 where n: "scan_name m p scope st = (fn, p1, st1)" by (cases "scan_name m p scope st")
  from a have "\<exists>p'. r = Scan_next p' \<and> p1 + 1 \<le> p'" unfolding scan_region_def n
    by (auto simp: Let_def dest!: past split: prod.splits if_splits)
  with scan_name_past [OF n] show ?thesis by auto
qed

text \<open>Every round goes on behind its first byte, and a block lies in the one around it.\<close>

lemma scan_one_past:
  assumes "(r, st') = scan_one m p e scope st"
  shows "r = Scan_next p' \<Longrightarrow> p < p'" "r = Scan_into q pe sc \<Longrightarrow> p < q \<and> p < pe \<and> pe \<le> e"
  using assms [symmetric]
  by (auto simp: scan_one_def scan_ext_def scan_block_def scan_method_def scan_name_op_def scan_field_op_def Let_def min_def
      dest!: past scan_region_past split: if_splits prod.splits)

function aml_scan :: "mem \<Rightarrow> nat \<Rightarrow> nat \<Rightarrow> string \<Rightarrow> aml_scan_state \<Rightarrow> aml_scan_state" where
  "aml_scan m p e scope st =
    (if e \<le> p then st
     else case scan_one m p e scope st of
       (Scan_stop, st) \<Rightarrow> st
     | (Scan_next p', st) \<Rightarrow> aml_scan m p' e scope st
     | (Scan_into q pe sc, st) \<Rightarrow> aml_scan m pe e scope (aml_scan m q pe sc st))"
  by pat_completeness auto
termination
  by (relation "measure (\<lambda>(m, p, e, _). e - p)") (simp_all, (drule scan_one_past, simp, fastforce)+)

declare aml_scan.simps [simp del]

end
