(* ===== verification/AmlField.thy ===== *)
theory AmlField
  imports AmlNs "HOL-Library.Monad_Syntax"
begin

text \<open>
  Reading and writing the fields of ACPI, \<^verbatim>\<open>emex/kernel/arch/x86_64/acpi/acpi.c\<close>: ranges of bits in memory or in the ports.
  The ports are a parameter, a function for each instruction on the state of the devices behind them.
\<close>

record 'd acpi_hw =
  inb :: "u16 \<Rightarrow> 'd \<Rightarrow> u8 \<times> 'd"
  inw :: "u16 \<Rightarrow> 'd \<Rightarrow> u16 \<times> 'd"
  inl :: "u16 \<Rightarrow> 'd \<Rightarrow> u32 \<times> 'd"
  outb :: "u16 \<Rightarrow> u8 \<Rightarrow> 'd \<Rightarrow> 'd"
  outw :: "u16 \<Rightarrow> u16 \<Rightarrow> 'd \<Rightarrow> 'd"
  outl :: "u16 \<Rightarrow> u32 \<Rightarrow> 'd \<Rightarrow> 'd"
  acpi_hhdm_offset :: u64

record 'd aml_machine =
  am_mem :: mem
  am_dev :: 'd
  am_ns :: "aml_obj list"
  am_ok :: bool

section \<open>The bytes of a field\<close>

fun in_bytes :: "'d acpi_hw \<Rightarrow> u64 \<Rightarrow> nat list \<Rightarrow> u64 \<Rightarrow> 'd \<Rightarrow> u64 \<times> 'd" where
  "in_bytes h a [] raw d = (raw, d)"
| "in_bytes h a (i # is) raw d =
    (let (b, d) = inb h (ucast (a + word_of_nat i)) d in in_bytes h a is (raw OR push_bit (i * 8) (ucast b)) d)"

fun out_bytes :: "'d acpi_hw \<Rightarrow> u64 \<Rightarrow> nat list \<Rightarrow> u64 \<Rightarrow> 'd \<Rightarrow> 'd" where
  "out_bytes h a [] ex d = d"
| "out_bytes h a (i # is) ex d = out_bytes h a is ex (outb h (ucast (a + word_of_nat i)) (ucast (drop_bit (i * 8) ex)) d)"

fun mem_bytes :: "mem \<Rightarrow> u64 \<Rightarrow> nat list \<Rightarrow> u64 \<Rightarrow> u64" where
  "mem_bytes m a [] raw = raw"
| "mem_bytes m a (i # is) raw = mem_bytes m a is (raw OR push_bit (i * 8) (ucast (m (unat (a + word_of_nat i)))))"

fun mem_put :: "u64 \<Rightarrow> nat list \<Rightarrow> u64 \<Rightarrow> mem \<Rightarrow> mem" where
  "mem_put a [] ex m = m"
| "mem_put a (i # is) ex m = mem_put a is ex (m(unat (a + word_of_nat i) := ucast (drop_bit (i * 8) ex)))"

definition fld_mask :: "u32 \<Rightarrow> u64" where
  "fld_mask bwid = (if bwid \<ge> 64 then NOT 0 else push_bit (unat bwid) 1 - 1)"

definition fld_bytes :: "u32 \<Rightarrow> u32 \<Rightarrow> nat list" where
  "fld_bytes bsh bwid = (let bytes = (bsh + bwid + 7) div 8 in [0..<unat (if bytes > 8 then 8 else bytes)])"

definition fld_get :: "'d acpi_hw \<Rightarrow> u8 \<Rightarrow> u64 \<Rightarrow> u32 \<Rightarrow> u32 \<Rightarrow> 'd aml_machine \<Rightarrow> u64 \<times> 'd aml_machine" where
  "fld_get h space base bit_off bwid s =
    (let boff = bit_off div 8; bsh = bit_off mod 8; is = fld_bytes bsh bwid
     in if space = 1 then
          (let (raw, d) = in_bytes h (base + ucast boff) is 0 (am_dev s)
           in (drop_bit (unat bsh) raw AND fld_mask bwid, s\<lparr>am_dev := d\<rparr>))
        else if base = 0 \<or> base = NOT 0 then (0, s)
        else (drop_bit (unat bsh) (mem_bytes (am_mem s) (base + ucast boff + acpi_hhdm_offset h) is 0) AND fld_mask bwid, s))"

definition fld_merge :: "u64 \<Rightarrow> u64 \<Rightarrow> nat \<Rightarrow> u64 \<Rightarrow> u64" where
  "fld_merge ex msk bsh val = (ex AND NOT (push_bit bsh msk)) OR push_bit bsh (val AND msk)"

definition fld_set :: "'d acpi_hw \<Rightarrow> u8 \<Rightarrow> u64 \<Rightarrow> u32 \<Rightarrow> u32 \<Rightarrow> u64 \<Rightarrow> 'd aml_machine \<Rightarrow> 'd aml_machine" where
  "fld_set h space base bit_off bwid val s =
    (if base = 0 \<or> base = NOT 0 then s
     else let boff = bit_off div 8; bsh = bit_off mod 8; is = fld_bytes bsh bwid
          in if space = 1 then
               (let a = base + ucast boff; (ex, d) = in_bytes h a is 0 (am_dev s)
                in s\<lparr>am_dev := out_bytes h a is (fld_merge ex (fld_mask bwid) (unat bsh) val) d\<rparr>)
             else
               (let a = base + ucast boff + acpi_hhdm_offset h; ex = mem_bytes (am_mem s) a is 0
                in s\<lparr>am_mem := mem_put a is (fld_merge ex (fld_mask bwid) (unat bsh) val) (am_mem s)\<rparr>))"

section \<open>Fields of the table\<close>

text \<open>The field that holds the base of a region.\<close>

definition after_last :: "char \<Rightarrow> string \<Rightarrow> string option" where
  "after_last c s = (if c \<in> set s then Some (rev (takeWhile (\<lambda>d. d \<noteq> c) (rev s))) else None)"

definition dyn_base_lookup :: "aml_obj list \<Rightarrow> string \<Rightarrow> nat option" where
  "dyn_base_lookup ns base_fld =
    (if base_fld = [] then None
     else case ns_exact ns base_fld of
       Some i \<Rightarrow> Some i
     | None \<Rightarrow>
        (let seg = (case after_last (CHR ''.'') base_fld of Some t \<Rightarrow> t
                    | None \<Rightarrow> (case after_last (CHR 0x5C) base_fld of Some t \<Rightarrow> t | None \<Rightarrow> base_fld))
         in if seg = [] then None else ns_find ns [CHR 0x5C] seg))"

text \<open>A field whose region takes its base from a field reads that one first, and so on; no fuel is left where that does not end.\<close>

fun fld_read :: "'d acpi_hw \<Rightarrow> nat \<Rightarrow> nat \<Rightarrow> 'd aml_machine \<Rightarrow> (u64 \<times> 'd aml_machine) option" where
  "fld_read h 0 i s = None"
| "fld_read h (Suc n) i s =
    (case obj_kind (am_ns s ! i) of
       AML_FIELD rgn bit_off bwid \<Rightarrow>
         (case map_option (\<lambda>r. obj_kind (am_ns s ! r)) (ns_exact (am_ns s) rgn) of
            Some (AML_REGION space dyn base base_fld len) \<Rightarrow>
              do {
                (base, s) \<leftarrow> (case (if dyn then dyn_base_lookup (am_ns s) base_fld else None) of
                                Some b \<Rightarrow> fld_read h n b s | None \<Rightarrow> Some (base, s));
                Some (fld_get h space base bit_off bwid s)
              }
          | _ \<Rightarrow> Some (0, s))
     | _ \<Rightarrow> Some (0, s))"

definition fld_write :: "'d acpi_hw \<Rightarrow> nat \<Rightarrow> nat \<Rightarrow> u64 \<Rightarrow> 'd aml_machine \<Rightarrow> 'd aml_machine option" where
  "fld_write h n i val s =
    (case obj_kind (am_ns s ! i) of
       AML_FIELD rgn bit_off bwid \<Rightarrow>
         (case map_option (\<lambda>r. obj_kind (am_ns s ! r)) (ns_exact (am_ns s) rgn) of
            Some (AML_REGION space dyn base base_fld len) \<Rightarrow>
              do {
                (base, s) \<leftarrow> (case (if dyn then dyn_base_lookup (am_ns s) base_fld else None) of
                                Some b \<Rightarrow> fld_read h n b s | None \<Rightarrow> Some (base, s));
                Some (fld_set h space base bit_off bwid val s)
              }
          | _ \<Rightarrow> Some s)
     | _ \<Rightarrow> Some s)"

section \<open>What a write changes\<close>

lemma mem_bytes_bit:
  assumes "set is \<subseteq> {..<8}" "k < 64"
  shows "bit (mem_bytes m a is raw) k \<longleftrightarrow> bit raw k \<or> k div 8 \<in> set is \<and> bit (m (unat (a + word_of_nat (k div 8)))) (k mod 8)"
  using assms
proof (induction "is" arbitrary: raw)
  case (Cons i "is")
  have b: "bit (push_bit (i * 8) (ucast (m (unat (a + word_of_nat i)))) :: u64) k
    \<longleftrightarrow> k div 8 = i \<and> bit (m (unat (a + word_of_nat (k div 8)))) (k mod 8)"
  proof -
    have "i * 8 \<le> k \<and> k - i * 8 < 8 \<longleftrightarrow> k div 8 = i" by auto
    moreover have "k div 8 = i \<Longrightarrow> k - i * 8 = k mod 8" by (simp add: minus_div_mult_eq_mod [symmetric])
    ultimately show ?thesis using Cons.prems(2) by (auto simp: bit_simps dest: bit_imp_le_length)
  qed
  show ?case using Cons b by (auto simp: bit_or_iff)
qed simp

lemma addr_inj: "i < 8 \<Longrightarrow> j < 8 \<Longrightarrow> unat (a + word_of_nat i :: u64) = unat (a + word_of_nat j) \<longleftrightarrow> i = j"
  by (simp add: word_unat_eq_iff [symmetric] word_of_nat_eq_iff take_bit_nat_eq_self)

lemma mem_put_at:
  assumes "set is \<subseteq> {..<8}" "distinct is" "i < 8"
  shows "mem_put a is ex m (unat (a + word_of_nat i)) = (if i \<in> set is then ucast (drop_bit (i * 8) ex) else m (unat (a + word_of_nat i)))"
  using assms
proof (induction "is" arbitrary: m)
  case (Cons j "is")
  then show ?case using addr_inj [of i j a] by auto
qed simp

lemma mem_put_other: "b \<notin> (\<lambda>i. unat (a + word_of_nat i)) ` set is \<Longrightarrow> mem_put a is ex m b = m b"
  by (induction "is" arbitrary: m) auto

text \<open>The bits of a field of at most 64 bits that ends within eight bytes.\<close>

lemma fld_mask_bit: "k < 64 \<Longrightarrow> bit (fld_mask w) k \<longleftrightarrow> k < unat w"
proof (cases "64 \<le> w")
  case True
  then have "64 \<le> unat w" by (simp add: word_le_nat_alt)
  then show "k < 64 \<Longrightarrow> ?thesis" using True by (simp add: fld_mask_def)
next
  case False
  then have "fld_mask w = mask (unat w)" by (simp add: fld_mask_def mask_eq_exp_minus_1 push_bit_eq_mult)
  then show "k < 64 \<Longrightarrow> ?thesis" by (simp add: bit_mask_iff)
qed

lemma fld_merge_bit:
  assumes "k < 64" "sh + unat w \<le> 64"
  shows "bit (fld_merge ex (fld_mask w) sh val) k \<longleftrightarrow> (if sh \<le> k \<and> k < sh + unat w then bit val (k - sh) else bit ex k)"
  using assms fld_mask_bit [of "k - sh" w]
  by (auto simp: fld_merge_def bit_simps)

lemma fld_bytes_nat:
  assumes "unat sh + unat w \<le> 64"
  shows "fld_bytes sh w = [0..<(unat sh + unat w + 7) div 8]"
proof -
  have "unat ((sh + w + 7) div 8) = (unat sh + unat w + 7) div 8"
    using assms by (simp add: unat_div unat_word_ariths)
  moreover from this have "\<not> (sh + w + 7) div 8 > 8" using assms by (simp add: word_less_nat_alt)
  ultimately show ?thesis by (simp add: fld_bytes_def Let_def)
qed

text \<open>Bit \<open>k\<close> of the memory from an address on, counted over the bytes.\<close>

definition mem_bit :: "mem \<Rightarrow> u64 \<Rightarrow> nat \<Rightarrow> bool" where
  "mem_bit m a k \<longleftrightarrow> bit (m (unat (a + word_of_nat (k div 8)))) (k mod 8)"

lemma mem_put_bit:
  assumes "n \<le> 8" "k < 8 * n"
  shows "mem_bit (mem_put a [0..<n] ex m) a k \<longleftrightarrow> bit ex k"
proof -
  have k: "k div 8 < n" "k div 8 < 8" "k < 64" "{0..<n} \<subseteq> {..<8}" using assms by auto
  then have "mem_put a [0..<n] ex m (unat (a + word_of_nat (k div 8))) = ucast (drop_bit (k div 8 * 8) ex)" by (simp add: mem_put_at)
  moreover have "k div 8 * 8 + k mod 8 = k" by simp
  ultimately show ?thesis using k by (simp add: mem_bit_def bit_simps del: div_mult_mod_eq)
qed

lemma mem_bytes_at:
  assumes "n \<le> 8" "k < 8 * n"
  shows "bit (mem_bytes m a [0..<n] 0) k \<longleftrightarrow> mem_bit m a k"
  using assms by (subst mem_bytes_bit) (auto simp: mem_bit_def)

lemma fld_put_bit:
  assumes "sh + unat w \<le> 64" "n = (sh + unat w + 7) div 8" "k < 8 * n"
  shows "mem_bit (mem_put a [0..<n] (fld_merge (mem_bytes m a [0..<n] 0) (fld_mask w) sh val) m) a k
    \<longleftrightarrow> (if sh \<le> k \<and> k < sh + unat w then bit val (k - sh) else mem_bit m a k)"
proof -
  have n: "n \<le> 8" using assms(1,2) by simp
  then have "k < 64" using assms(3) by simp
  note n = n this
  show ?thesis using mem_put_bit [OF n(1) assms(3)] fld_merge_bit [OF n(2) assms(1)] mem_bytes_at [OF n(1) assms(3)] by simp
qed

lemma fld_get_put:
  assumes "sh + unat w \<le> 64" "n = (sh + unat w + 7) div 8"
  shows "drop_bit sh (mem_bytes (mem_put a [0..<n] (fld_merge (mem_bytes m a [0..<n] 0) (fld_mask w) sh val) m) a [0..<n] 0) AND fld_mask w
    = val AND fld_mask w"
proof (rule bit_word_eqI)
  fix k
  assume "k < LENGTH(64)"
  then have k: "k < 64" by simp
  show "bit (drop_bit sh (mem_bytes (mem_put a [0..<n] (fld_merge (mem_bytes m a [0..<n] 0) (fld_mask w) sh val) m) a [0..<n] 0) AND fld_mask w) k
    = bit (val AND fld_mask w) k"
  proof (cases "k < unat w")
    case True
    have n: "n \<le> 8" "sh + k < 8 * n" using assms True by auto
    show ?thesis
      using True k mem_bytes_at [OF n] fld_put_bit [OF assms n(2)] by (simp add: bit_simps fld_mask_bit)
  qed (use k in \<open>simp add: bit_simps fld_mask_bit\<close>)
qed

text \<open>The field \<open>i\<close> lies in memory, at a fixed place.\<close>

definition mem_field :: "aml_obj list \<Rightarrow> nat \<Rightarrow> u64 \<Rightarrow> u32 \<Rightarrow> u32 \<Rightarrow> bool" where
  "mem_field ns i base off w \<longleftrightarrow>
    (\<exists>rgn r space base_fld len. obj_kind (ns ! i) = AML_FIELD rgn off w \<and> ns_exact ns rgn = Some r
       \<and> obj_kind (ns ! r) = AML_REGION space False base base_fld len \<and> space \<noteq> 1 \<and> base \<noteq> 0 \<and> base \<noteq> NOT 0)"

text \<open>
  C38. Writing a field that lies in memory and ends within eight bytes changes exactly its bits: the bit \<open>k\<close> of
  the bytes it lies in is the bit of the value that belongs there when it is one of the field, and what it was otherwise; no other
  byte changes. Reading the field back gives the value, cut to the width of the field.
\<close>
theorem aml_field_roundtrip:
  fixes h :: "'d acpi_hw" and s :: "'d aml_machine"
  assumes "mem_field (am_ns s) i base off w" "unat (off mod 8) + unat w \<le> 64"
  defines "a \<equiv> base + ucast (off div 8) + acpi_hhdm_offset h" and "sh \<equiv> unat (off mod 8)" and "n \<equiv> (unat (off mod 8) + unat w + 7) div 8"
  shows "\<exists>s'. fld_write h (Suc f) i val s = Some s' \<and> am_ns s' = am_ns s \<and> am_dev s' = am_dev s
    \<and> (\<forall>k < 8 * n. mem_bit (am_mem s') a k \<longleftrightarrow> (if sh \<le> k \<and> k < sh + unat w then bit val (k - sh) else mem_bit (am_mem s) a k))
    \<and> (\<forall>b. b \<notin> (\<lambda>j. unat (a + word_of_nat j)) ` {..<n} \<longrightarrow> am_mem s' b = am_mem s b)
    \<and> fld_read h (Suc f) i s' = Some (take_bit (unat w) val, s')"
proof -
  obtain rgn r space base_fld len where o: "obj_kind (am_ns s ! i) = AML_FIELD rgn off w" "ns_exact (am_ns s) rgn = Some r"
    "obj_kind (am_ns s ! r) = AML_REGION space False base base_fld len" "space \<noteq> 1" "base \<noteq> 0" "base \<noteq> NOT 0"
    using assms(1) by (auto simp: mem_field_def)
  have fb: "fld_bytes (off mod 8) w = [0..<n]" using fld_bytes_nat [OF assms(2)] by (simp add: n_def)
  let ?s = "s\<lparr>am_mem := mem_put a [0..<n] (fld_merge (mem_bytes (am_mem s) a [0..<n] 0) (fld_mask w) sh val) (am_mem s)\<rparr>"
  have w: "fld_write h (Suc f) i val s = Some ?s"
    using o by (simp add: fld_write_def fld_set_def fb Let_def a_def sh_def)
  have "val AND fld_mask w = take_bit (unat w) val"
    by (rule bit_word_eqI) (auto simp: bit_simps fld_mask_bit)
  then have "fld_read h (Suc f) i ?s = Some (take_bit (unat w) val, ?s)"
    using o fld_get_put [of sh w n a "am_mem s" val] assms(2) by (simp add: fld_get_def fb Let_def a_def sh_def n_def)
  moreover have "\<forall>k < 8 * n. mem_bit (am_mem ?s) a k \<longleftrightarrow> (if sh \<le> k \<and> k < sh + unat w then bit val (k - sh) else mem_bit (am_mem s) a k)"
    using fld_put_bit [of sh w n] assms(2) by (simp add: sh_def n_def)
  moreover have "\<forall>b. b \<notin> (\<lambda>j. unat (a + word_of_nat j)) ` {..<n} \<longrightarrow> am_mem ?s b = am_mem s b"
    by (auto simp: mem_put_other atLeast0LessThan)
  ultimately show ?thesis using w by (intro exI [of _ ?s] conjI) simp_all
qed

text \<open>A region at address 0x1000 with two fields in one byte; the second one is written.\<close>

definition aml_hw0 :: "unit acpi_hw" where
  "aml_hw0 = \<lparr>inb = \<lambda>_ d. (0, d), inw = \<lambda>_ d. (0, d), inl = \<lambda>_ d. (0, d), outb = \<lambda>_ _ d. d, outw = \<lambda>_ _ d. d, outl = \<lambda>_ _ d. d,
     acpi_hhdm_offset = 0\<rparr>"

definition aml_machine0 :: "unit aml_machine" where
  "aml_machine0 = \<lparr>am_mem = \<lambda>_. 0xFF, am_dev = (),
     am_ns = [\<lparr>obj_path = [CHR 0x5C, CHR ''R''], obj_kind = AML_REGION 0 False 0x1000 [] 1\<rparr>,
       \<lparr>obj_path = [CHR 0x5C, CHR ''F''], obj_kind = AML_FIELD [CHR 0x5C, CHR ''R''] 2 3\<rparr>], am_ok = True\<rparr>"

lemma aml_field_roundtrip_witness:
  "map_option (\<lambda>s. fld_read aml_hw0 1 1 s) (fld_write aml_hw0 1 1 0xA aml_machine0) \<noteq> None
   \<and> (\<exists>s. fld_write aml_hw0 1 1 0xA aml_machine0 = Some s \<and> fld_read aml_hw0 1 1 s = Some (2, s))"
proof -
  have h: "mem_field (am_ns aml_machine0) 1 0x1000 2 3" "unat (2 mod 8 :: u32) + unat (3 :: u32) \<le> 64"
    by (simp_all add: mem_field_def aml_machine0_def ns_exact_def)
  have "take_bit 3 (0xA :: u64) = 2" by simp
  then show ?thesis using aml_field_roundtrip [OF h, of aml_hw0 0 "0xA"] by auto
qed

end
