(* ===== verification/AmlEval.thy ===== *)
theory AmlEval
  imports AmlField
begin

text \<open>
  The interpreter of the methods of ACPI, \<^verbatim>\<open>emex/kernel/arch/x86_64/acpi/acpi.c\<close>. It reads the code from the memory
  that the fields write to. The fuel bounds the depth of the calls of the C functions, \<open>None\<close> is a call that has not come back
  at that depth. Pointers into the code are natural numbers.
\<close>

definition AML_DEPTH_MAX :: nat where "AML_DEPTH_MAX = 12"

record aml_ctx =
  cx_args :: "u64 list"
  cx_locals :: "u64 list"
  cx_scope :: string
  cx_depth :: nat

datatype ret_t = RET_VAL | RET_VOID | RET_RET

record aml_val =
  val_v :: u64
  val_t :: ret_t

definition aml_V :: "u64 \<Rightarrow> aml_val" where "aml_V x = \<lparr>val_v = x, val_t = RET_VAL\<rparr>"
definition aml_VOID :: aml_val where "aml_VOID = \<lparr>val_v = 0, val_t = RET_VOID\<rparr>"
definition aml_RET :: "u64 \<Rightarrow> aml_val" where "aml_RET x = \<lparr>val_v = x, val_t = RET_RET\<rparr>"

text \<open>The pointer into the code, the context and the machine.\<close>

record 'd aml_ev =
  ev_p :: nat
  ev_ctx :: aml_ctx
  ev_m :: "'d aml_machine"

definition ev_byte :: "'d aml_ev \<Rightarrow> nat \<Rightarrow> u8" where
  "ev_byte s p = am_mem (ev_m s) p"

definition ev_go :: "nat \<Rightarrow> 'd aml_ev \<Rightarrow> 'd aml_ev" where
  "ev_go p s = s\<lparr>ev_p := p\<rparr>"

definition ev_path :: "'d aml_ev \<Rightarrow> string \<times> 'd aml_ev" where
  "ev_path s = (let (name, p, ok) = parse_path (am_mem (ev_m s)) (ev_p s)
     in (name, s\<lparr>ev_p := p, ev_m := (ev_m s)\<lparr>am_ok := am_ok (ev_m s) \<and> ok\<rparr>\<rparr>))"

definition is_name_start :: "u8 \<Rightarrow> bool" where
  "is_name_start b \<longleftrightarrow> 0x41 \<le> b \<and> b \<le> 0x5A \<or> b = 0x5F \<or> b = 0x5C \<or> b = 0x5E \<or> b = 0x2E \<or> b = 0x2F"

text \<open>The operators with two operands and a destination, and those with two operands.\<close>

definition aml_arith :: "u8 \<Rightarrow> (u64 \<Rightarrow> u64 \<Rightarrow> u64) option" where
  "aml_arith op = (if op = 0x72 then Some (+) else if op = 0x74 then Some (-) else if op = 0x7B then Some (AND) else if op = 0x7D then Some (OR) else None)"

definition aml_bool :: "bool \<Rightarrow> u64" where
  "aml_bool b = (if b then 0xFFFFFFFF else 0)"

definition aml_logic :: "u8 \<Rightarrow> (u64 \<Rightarrow> u64 \<Rightarrow> bool) option" where
  "aml_logic op =
    (if op = 0x90 then Some (\<lambda>a b. a \<noteq> 0 \<and> b \<noteq> 0) else if op = 0x91 then Some (\<lambda>a b. a \<noteq> 0 \<or> b \<noteq> 0)
     else if op = 0x93 then Some (=) else if op = 0x94 then Some (>) else if op = 0x95 then Some (<) else None)"

text \<open>The destination of an index is skipped.\<close>

definition skip_target :: "nat \<Rightarrow> 'd aml_ev \<Rightarrow> 'd aml_ev" where
  "skip_target e s =
    (let r = (if ev_p s < e then ev_byte s (ev_p s) else 0)
     in if r = 0 then ev_go (ev_p s + 1) s else if is_name_start r then snd (ev_path s) else s)"

definition set_ival :: "nat \<Rightarrow> u64 \<Rightarrow> 'd aml_machine \<Rightarrow> 'd aml_machine" where
  "set_ival i x m = m\<lparr>am_ns := (am_ns m)[i := (am_ns m ! i)\<lparr>obj_kind := AML_INT x\<rparr>]\<rparr>"

text \<open>The scope of a method is the one it is declared in.\<close>

definition method_scope :: "string \<Rightarrow> string" where
  "method_scope path = (let sc = take (AML_NAME_MAX - 1) path in case before_last (CHR ''.'') sc of Some d \<Rightarrow> d | None \<Rightarrow> [CHR 0x5C])"

definition method_ctx :: "string \<Rightarrow> nat \<Rightarrow> u64 list \<Rightarrow> aml_ctx" where
  "method_ctx path d vs = \<lparr>cx_args = take 7 (vs @ replicate 7 0), cx_locals = replicate 8 0, cx_scope = method_scope path, cx_depth = d\<rparr>"

text \<open>A block of \<open>k\<close> bytes from the address \<open>ps\<close> on has its length in front: its contents, and its end.\<close>

definition ev_block :: "nat \<Rightarrow> nat \<Rightarrow> 'd aml_ev \<Rightarrow> nat \<times> nat" where
  "ev_block e ps s = (let (len, p) = pkglen (am_mem (ev_m s)) ps in (p, min e (ps + unat len)))"

section \<open>One call\<close>

text \<open>
  The functions of the interpreter call each other. Each is defined over the functions it calls, \<open>calls\<close> then ties them together:
  a call that has the fuel \<open>n + 1\<close> calls with the fuel \<open>n\<close>.
\<close>

record 'd aml_calls =
  c_eval :: "nat \<Rightarrow> 'd aml_ev \<Rightarrow> (aml_val \<times> 'd aml_ev) option"
  c_store :: "nat \<Rightarrow> u64 \<Rightarrow> 'd aml_ev \<Rightarrow> 'd aml_ev option"
  c_block :: "nat \<Rightarrow> aml_val \<Rightarrow> 'd aml_ev \<Rightarrow> (aml_val \<times> 'd aml_ev) option"
  c_args :: "nat \<Rightarrow> nat \<Rightarrow> u64 list \<Rightarrow> 'd aml_ev \<Rightarrow> (u64 list \<times> 'd aml_ev) option"
  c_fld_read :: "nat \<Rightarrow> 'd aml_machine \<Rightarrow> (u64 \<times> 'd aml_machine) option"
  c_fld_write :: "nat \<Rightarrow> u64 \<Rightarrow> 'd aml_machine \<Rightarrow> 'd aml_machine option"

definition if_step :: "'d aml_calls \<Rightarrow> nat \<Rightarrow> 'd aml_ev \<Rightarrow> (aml_val \<times> 'd aml_ev) option" where
  "if_step c e s =
    (let (p, pe) = ev_block e (ev_p s) s
     in do {
       (cond, s) \<leftarrow> c_eval c pe (ev_go p s);
       (r, s) \<leftarrow> (if val_v cond \<noteq> 0 then c_block c pe aml_VOID s else Some (aml_VOID, s));
       (if pe < e \<and> ev_byte s pe = 0xA1 then
          let (p2, ee) = ev_block e (pe + 1) s
          in do {
            (r, s) \<leftarrow> (if val_v cond = 0 then c_block c ee r (ev_go p2 s) else Some (r, s));
            Some (r, ev_go ee s)
          }
        else Some (r, ev_go pe s))
     })"

definition ext_step :: "'d aml_calls \<Rightarrow> nat \<Rightarrow> 'd aml_ev \<Rightarrow> (aml_val \<times> 'd aml_ev) option" where
  "ext_step c e s =
    (let ext = ev_byte s (ev_p s); s1 = ev_go (ev_p s + 1) s
     in if ext = 0x22 \<or> ext = 0x21 \<or> ext = 0x27 \<or> ext = 0x12 then do { (x, s) \<leftarrow> c_eval c e s1; Some (aml_VOID, s) }
        else if ext = 0x23 then Some (aml_V 0, ev_go (ev_p s1 + 2) s1)
        else Some (aml_VOID, s1))"

definition name_step :: "'d aml_calls \<Rightarrow> nat \<Rightarrow> 'd aml_ev \<Rightarrow> (aml_val \<times> 'd aml_ev) option" where
  "name_step c e s =
    (let (name, s) = ev_path s
     in case ns_find (am_ns (ev_m s)) (cx_scope (ev_ctx s)) name of
          None \<Rightarrow> Some (aml_VOID, s)
        | Some i \<Rightarrow>
            (case obj_kind (am_ns (ev_m s) ! i) of
               AML_INT x \<Rightarrow> Some (aml_V x, s)
             | AML_FIELD _ _ _ \<Rightarrow> do { (x, m) \<leftarrow> c_fld_read c i (ev_m s); Some (aml_V x, s\<lparr>ev_m := m\<rparr>) }
             | AML_METHOD body blen argc \<Rightarrow>
                 if AML_DEPTH_MAX \<le> cx_depth (ev_ctx s) then Some (aml_VOID, s)
                 else do {
                   (vs, s) \<leftarrow> c_args c argc e [] s;
                   (r, t) \<leftarrow> c_block c (body + unat blen) aml_VOID
                     \<lparr>ev_p = body, ev_ctx = method_ctx (obj_path (am_ns (ev_m s) ! i)) (cx_depth (ev_ctx s) + 1) vs, ev_m = ev_m s\<rparr>;
                   Some (aml_V (val_v r), s\<lparr>ev_m := ev_m t\<rparr>)
                 }
             | AML_REGION _ _ _ _ _ \<Rightarrow> Some (aml_VOID, s)))"

text \<open>Two operands, one after the other.\<close>

definition two_step :: "'d aml_calls \<Rightarrow> nat \<Rightarrow> 'd aml_ev \<Rightarrow> (u64 \<times> u64 \<times> 'd aml_ev) option" where
  "two_step c e s = do { (a, s) \<leftarrow> c_eval c e s; (b, s) \<leftarrow> c_eval c e s; Some (val_v a, val_v b, s) }"

definition eval_step :: "'d aml_calls \<Rightarrow> nat \<Rightarrow> 'd aml_ev \<Rightarrow> (aml_val \<times> 'd aml_ev) option" where
  "eval_step c e s =
    (let op = ev_byte s (ev_p s); s1 = ev_go (ev_p s + 1) s
     in if e \<le> ev_p s then Some (aml_VOID, s)
        else if is_int_op op then (let (x, p) = parse_int (am_mem (ev_m s)) (ev_p s) in Some (aml_V x, ev_go p s))
        else if 0x60 \<le> op \<and> op \<le> 0x67 then Some (aml_V (cx_locals (ev_ctx s) ! unat (op - 0x60)), s1)
        else if 0x68 \<le> op \<and> op \<le> 0x6E then Some (aml_V (cx_args (ev_ctx s) ! unat (op - 0x68)), s1)
        else if op = 0xA3 then Some (aml_VOID, s1)
        else if op = 0xA4 then do { (x, s) \<leftarrow> c_eval c e s1; Some (aml_RET (val_v x), s) }
        else if op = 0x70 \<or> op = 0x9D then
          do { (x, s) \<leftarrow> c_eval c e s1; s \<leftarrow> c_store c e (val_v x) s; Some (aml_V (val_v x), s) }
        else if op = 0xA0 then if_step c e s1
        else if op = 0xA1 \<or> op = 0xA2 then Some (aml_VOID, ev_go (snd (ev_block e (ev_p s1) s1)) s)
        else if op = 0x92 then do { (x, s) \<leftarrow> c_eval c e s1; Some (aml_V (aml_bool (val_v x = 0)), s) }
        else if op = 0x86 then do { (a, b, s) \<leftarrow> two_step c e s1; Some (aml_VOID, s) }
        else if op = 0x87 then do { (a, s) \<leftarrow> c_eval c e s1; Some (aml_V 0, s) }
        else if op = 0x88 then do { (a, b, s) \<leftarrow> two_step c e s1; Some (aml_VOID, skip_target e s) }
        else if op = 0x5B \<and> ev_p s + 1 < e then ext_step c e s1
        else if is_name_start op then name_step c e s
        else case aml_arith op of
          Some f \<Rightarrow> do { (a, b, s) \<leftarrow> two_step c e s1; s \<leftarrow> c_store c e (f a b) s; Some (aml_V (f a b), s) }
        | None \<Rightarrow> (case aml_logic op of
            Some f \<Rightarrow> do { (a, b, s) \<leftarrow> two_step c e s1; Some (aml_V (aml_bool (f a b)), s) }
          | None \<Rightarrow> Some (aml_VOID, s1)))"

definition store_step :: "'d aml_calls \<Rightarrow> nat \<Rightarrow> u64 \<Rightarrow> 'd aml_ev \<Rightarrow> 'd aml_ev option" where
  "store_step c e x s =
    (let dst = ev_byte s (ev_p s); s1 = ev_go (ev_p s + 1) s
     in if e \<le> ev_p s then Some s
        else if dst = 0x5B \<and> ev_p s + 1 < e \<and> ev_byte s (ev_p s + 1) = 0x31 then Some (ev_go (ev_p s + 2) s)
        else if 0x60 \<le> dst \<and> dst \<le> 0x67 then Some (s1\<lparr>ev_ctx := (ev_ctx s)\<lparr>cx_locals := (cx_locals (ev_ctx s))[unat (dst - 0x60) := x]\<rparr>\<rparr>)
        else if 0x68 \<le> dst \<and> dst \<le> 0x6E then Some (s1\<lparr>ev_ctx := (ev_ctx s)\<lparr>cx_args := (cx_args (ev_ctx s))[unat (dst - 0x68) := x]\<rparr>\<rparr>)
        else if dst = 0x88 then do { (a, b, s) \<leftarrow> two_step c e s1; Some (skip_target e s) }
        else if is_name_start dst then
          (let (name, s) = ev_path s
           in case ns_find (am_ns (ev_m s)) (cx_scope (ev_ctx s)) name of
                None \<Rightarrow> Some s
              | Some i \<Rightarrow>
                  (case obj_kind (am_ns (ev_m s) ! i) of
                     AML_FIELD _ _ _ \<Rightarrow> do { m \<leftarrow> c_fld_write c i x (ev_m s); Some (s\<lparr>ev_m := m\<rparr>) }
                   | AML_INT _ \<Rightarrow> Some (s\<lparr>ev_m := set_ival i x (ev_m s)\<rparr>)
                   | _ \<Rightarrow> Some s))
        else Some s1)"

text \<open>The loop over the terms of a block, which a return ends.\<close>

definition block_step :: "'d aml_calls \<Rightarrow> nat \<Rightarrow> aml_val \<Rightarrow> 'd aml_ev \<Rightarrow> (aml_val \<times> 'd aml_ev) option" where
  "block_step c e r s =
    (if e \<le> ev_p s then Some (r, s)
     else do { (r, s) \<leftarrow> c_eval c e s; if val_t r = RET_RET then Some (r, s) else c_block c e r s })"

definition args_step :: "'d aml_calls \<Rightarrow> nat \<Rightarrow> nat \<Rightarrow> u64 list \<Rightarrow> 'd aml_ev \<Rightarrow> (u64 list \<times> 'd aml_ev) option" where
  "args_step c k e vs s =
    (if k = 0 \<or> e \<le> ev_p s then Some (vs, s)
     else do { (a, s) \<leftarrow> c_eval c e s; c_args c (k - 1) e (vs @ [val_v a]) s })"

section \<open>The interpreter\<close>

primrec calls :: "'d acpi_hw \<Rightarrow> nat \<Rightarrow> 'd aml_calls" where
  "calls h 0 = \<lparr>c_eval = \<lambda>_ _. None, c_store = \<lambda>_ _ _. None, c_block = \<lambda>_ _ _. None, c_args = \<lambda>_ _ _ _. None,
     c_fld_read = \<lambda>_ _. None, c_fld_write = \<lambda>_ _ _. None\<rparr>"
| "calls h (Suc n) = \<lparr>c_eval = eval_step (calls h n), c_store = store_step (calls h n), c_block = block_step (calls h n),
     c_args = args_step (calls h n), c_fld_read = fld_read h (Suc n), c_fld_write = fld_write h (Suc n)\<rparr>"

definition eval :: "'d acpi_hw \<Rightarrow> nat \<Rightarrow> nat \<Rightarrow> 'd aml_ev \<Rightarrow> (aml_val \<times> 'd aml_ev) option" where
  "eval h n = c_eval (calls h n)"

definition store_to :: "'d acpi_hw \<Rightarrow> nat \<Rightarrow> nat \<Rightarrow> u64 \<Rightarrow> 'd aml_ev \<Rightarrow> 'd aml_ev option" where
  "store_to h n = c_store (calls h n)"

definition exec_body :: "'d acpi_hw \<Rightarrow> nat \<Rightarrow> nat \<Rightarrow> u32 \<Rightarrow> aml_ctx \<Rightarrow> 'd aml_machine \<Rightarrow> (aml_val \<times> 'd aml_machine) option" where
  "exec_body h n body blen ctx m =
    map_option (\<lambda>(r, s). (r, ev_m s)) (c_block (calls h n) (body + unat blen) aml_VOID \<lparr>ev_p = body, ev_ctx = ctx, ev_m = m\<rparr>)"

definition call_method1 :: "'d acpi_hw \<Rightarrow> nat \<Rightarrow> string \<Rightarrow> string \<Rightarrow> u64 \<Rightarrow> 'd aml_machine \<Rightarrow> 'd aml_machine option" where
  "call_method1 h n name scope arg m =
    (case ns_find (am_ns m) scope name of
       None \<Rightarrow> Some m
     | Some i \<Rightarrow>
        (case obj_kind (am_ns m ! i) of
           AML_METHOD body blen argc \<Rightarrow> map_option snd (exec_body h n body blen (method_ctx (obj_path (am_ns m ! i)) 0 [arg]) m)
         | _ \<Rightarrow> Some m))"

section \<open>Running ends\<close>

text \<open>
  Running only changes the values of numbers in the table. The interpreter ends when no field takes its base, through the regions
  of other fields, from itself.
\<close>

definition ns_shape :: "aml_obj list \<Rightarrow> (string \<times> aml_kind) list" where
  "ns_shape ns = map (\<lambda>x. (obj_path x, case obj_kind x of AML_INT _ \<Rightarrow> AML_INT 0 | k \<Rightarrow> k)) ns"

definition fld_base :: "aml_obj list \<Rightarrow> nat \<Rightarrow> nat option" where
  "fld_base ns i =
    (case obj_kind (ns ! i) of
       AML_FIELD rgn _ _ \<Rightarrow> (case map_option (\<lambda>r. obj_kind (ns ! r)) (ns_exact ns rgn) of
                             Some (AML_REGION _ dyn _ base_fld _) \<Rightarrow> if dyn then dyn_base_lookup ns base_fld else None | _ \<Rightarrow> None)
     | _ \<Rightarrow> None)"

fun fld_deep :: "nat \<Rightarrow> aml_obj list \<Rightarrow> nat \<Rightarrow> bool" where
  "fld_deep 0 ns i = False"
| "fld_deep (Suc k) ns i = (case fld_base ns i of None \<Rightarrow> True | Some b \<Rightarrow> fld_deep k ns b)"

definition aml_bounded :: "nat \<Rightarrow> nat \<Rightarrow> aml_obj list \<Rightarrow> bool" where
  "aml_bounded R M ns \<longleftrightarrow> (\<forall>i < length ns. fld_deep R ns i \<and> (\<forall>body blen argc. obj_kind (ns ! i) = AML_METHOD body blen argc \<longrightarrow> unat blen \<le> M))"

lemma ns_exact_less: "ns_exact ns path = Some i \<Longrightarrow> i < length ns"
  by (auto simp: ns_exact_def Let_def split: if_splits)

lemma ns_find_loop_less: "ns_find_loop ns sc rel = Some i \<Longrightarrow> i < length ns"
proof (induction ns sc rel rule: ns_find_loop.induct)
  case (1 ns sc rel)
  from 1(2) show ?case
    by (subst (asm) ns_find_loop.simps) (auto split: option.splits dest: ns_exact_less intro: 1(1))
qed

lemma ns_find_less: "ns_find ns sc rel = Some i \<Longrightarrow> i < length ns"
  by (auto simp: ns_find_def split: if_splits dest: ns_exact_less ns_find_loop_less)

lemma ns_exact_shape: "ns_exact ns = (\<lambda>path. let i = length (takeWhile (\<lambda>x. fst x \<noteq> path) (ns_shape ns)) in if i < length (ns_shape ns) then Some i else None)"
  by (simp add: fun_eq_iff ns_exact_def ns_shape_def takeWhile_map o_def)

lemma ns_shape_exact: "ns_shape a = ns_shape b \<Longrightarrow> ns_exact a = ns_exact b"
  by (simp add: ns_exact_shape)

lemma ns_shape_find: "ns_shape a = ns_shape b \<Longrightarrow> ns_find a = ns_find b"
proof -
  assume s: "ns_shape a = ns_shape b"
  have "ns_find_loop a sc rel = ns_find_loop b sc rel" for sc rel
  proof (induction "length sc" arbitrary: sc rule: less_induct)
    case less
    have l: "ns_find_loop a d rel = ns_find_loop b d rel" if "before_last (CHR ''.'') sc = Some d" for d
      using less that before_last_less by blast
    show ?case unfolding ns_find_loop.simps [of a sc] ns_find_loop.simps [of b sc] ns_shape_exact [OF s]
      using l by (simp split: option.split)
  qed
  then show ?thesis by (intro ext) (simp add: ns_find_def ns_shape_exact [OF s])
qed

lemma ns_shape_length: "ns_shape a = ns_shape b \<Longrightarrow> length a = length b"
  by (drule arg_cong [of _ _ length]) (simp add: ns_shape_def)

lemma ns_shape_nth:
  assumes "ns_shape a = ns_shape b" "i < length a"
  shows "obj_path (a ! i) = obj_path (b ! i)"
    "obj_kind (a ! i) = obj_kind (b ! i) \<or> (\<exists>x y. obj_kind (a ! i) = AML_INT x \<and> obj_kind (b ! i) = AML_INT y)"
proof -
  have l: "i < length b" using assms(2) ns_shape_length [OF assms(1)] by simp
  have "ns_shape a ! i = ns_shape b ! i" using assms(1) by simp
  then show "obj_path (a ! i) = obj_path (b ! i)"
    "obj_kind (a ! i) = obj_kind (b ! i) \<or> (\<exists>x y. obj_kind (a ! i) = AML_INT x \<and> obj_kind (b ! i) = AML_INT y)"
    using l assms(2) by (auto simp: ns_shape_def split: aml_kind.splits)
qed

lemma ns_shape_base:
  assumes "ns_shape a = ns_shape b" "i < length a"
  shows "fld_base a i = fld_base b i"
proof (cases "obj_kind (a ! i)")
  case (AML_FIELD rgn off w)
  then have b: "obj_kind (b ! i) = AML_FIELD rgn off w" using ns_shape_nth(2) [OF assms] by auto
  have d: "dyn_base_lookup a = dyn_base_lookup b"
    by (rule ext) (unfold dyn_base_lookup_def ns_shape_exact [OF assms(1)] ns_shape_find [OF assms(1)], rule refl)
  have "obj_kind (a ! r) = obj_kind (b ! r) \<or> (\<exists>x y. obj_kind (a ! r) = AML_INT x \<and> obj_kind (b ! r) = AML_INT y)"
    if "ns_exact b rgn = Some r" for r
    using ns_shape_nth(2) [OF assms(1), of r] that ns_exact_less [of a rgn r] ns_shape_exact [OF assms(1)] by simp
  then show ?thesis using AML_FIELD b d ns_shape_exact [OF assms(1)]
    by (cases "ns_exact b rgn") (auto simp: fld_base_def split: aml_kind.splits)
next
  case (AML_INT x)
  then have "\<exists>y. obj_kind (b ! i) = AML_INT y" using ns_shape_nth(2) [OF assms] by metis
  then show ?thesis using AML_INT by (auto simp: fld_base_def)
next
  case (AML_METHOD body blen argc)
  moreover from this have "obj_kind (b ! i) = AML_METHOD body blen argc" using ns_shape_nth(2) [OF assms] by auto
  ultimately show ?thesis by (simp add: fld_base_def)
next
  case (AML_REGION space dyn base base_fld len)
  moreover from this have "obj_kind (b ! i) = AML_REGION space dyn base base_fld len" using ns_shape_nth(2) [OF assms] by auto
  ultimately show ?thesis by (simp add: fld_base_def)
qed

lemma fld_base_less: "fld_base ns i = Some b \<Longrightarrow> b < length ns"
  by (auto simp: fld_base_def dyn_base_lookup_def Let_def split: aml_kind.splits option.splits if_splits
      dest: ns_exact_less ns_find_less)

lemma ns_shape_deep: "ns_shape a = ns_shape b \<Longrightarrow> i < length a \<Longrightarrow> fld_deep k a i = fld_deep k b i"
proof (induction k arbitrary: i)
  case (Suc k)
  then show ?case using fld_base_less [of a i] ns_shape_base [of a b i] by (auto split: option.splits)
qed simp

lemma ns_shape_bounded: "ns_shape a = ns_shape b \<Longrightarrow> aml_bounded R M a = aml_bounded R M b"
proof -
  assume s: "ns_shape a = ns_shape b"
  have l: "length a = length b" using s by (rule ns_shape_length)
  show ?thesis using ns_shape_deep [OF s] ns_shape_nth(2) [OF s] l unfolding aml_bounded_def by fastforce
qed

lemma fld_get_ns [simp]: "am_ns (snd (fld_get h space base off w m)) = am_ns m"
  by (auto simp: fld_get_def Let_def split: prod.splits)

lemma fld_set_ns [simp]: "am_ns (fld_set h space base off w x m) = am_ns m"
  by (auto simp: fld_set_def Let_def split: prod.splits)

lemma fld_read_returns: "fld_deep n (am_ns m) i \<Longrightarrow> \<exists>x m'. fld_read h n i m = Some (x, m') \<and> am_ns m' = am_ns m"
proof (induction n arbitrary: i)
  case (Suc n)
  have g: "\<exists>x m'. Some (fld_get h sp ba off w k) = Some (x, m') \<and> am_ns m' = am_ns k" for sp ba off w k
    by (metis fld_get_ns prod.collapse)
  show ?case using Suc g
    by (auto simp: fld_base_def split: aml_kind.splits option.splits if_splits) fastforce+
qed simp

lemma ev_go_simps [simp]: "ev_p (ev_go p s) = p" "ev_ctx (ev_go p s) = ev_ctx s" "ev_m (ev_go p s) = ev_m s"
  by (simp_all add: ev_go_def)

text \<open>\<open>t\<close> comes after \<open>s\<close> in one call: it is not before it in the code and has the same depth and the same objects.\<close>

definition ev_after :: "'d aml_ev \<Rightarrow> 'd aml_ev \<Rightarrow> bool" where
  "ev_after s t \<longleftrightarrow> ns_shape (am_ns (ev_m t)) = ns_shape (am_ns (ev_m s)) \<and> cx_depth (ev_ctx t) = cx_depth (ev_ctx s) \<and> ev_p s \<le> ev_p t"

lemma ev_after_refl [simp]: "ev_after s s"
  by (simp add: ev_after_def)

lemma ev_after_trans: "ev_after s t \<Longrightarrow> ev_after t u \<Longrightarrow> ev_after s u"
  by (simp add: ev_after_def)

lemma ev_after_go [simp]: "ev_after s (ev_go p s) \<longleftrightarrow> ev_p s \<le> p"
  by (simp add: ev_after_def)

lemma ev_after_go2: "ev_after s t \<Longrightarrow> ev_p s \<le> p \<Longrightarrow> ev_after s (ev_go p t)"
  by (simp add: ev_after_def)

lemma ev_path_after: "ev_path s = (name, t) \<Longrightarrow> ev_after s t \<and> ev_p s < ev_p t"
  by (auto simp: ev_path_def ev_after_def Let_def dest: parse_path_past split: prod.splits)

lemma skip_target_after: "ev_after s (skip_target e s)"
  using ev_path_after [OF surjective_pairing, of s] by (auto simp: skip_target_def Let_def)

lemma set_ival_shape [simp]:
  assumes "obj_kind (am_ns m ! i) = AML_INT y"
  shows "ns_shape (am_ns (set_ival i x m)) = ns_shape (am_ns m)"
proof -
  have "map f (xs[i := v]) = map f xs" if "f v = f (xs ! i)" for f :: "aml_obj \<Rightarrow> string \<times> aml_kind" and xs v
    using that by (metis list_update_id map_update)
  then show ?thesis using assms by (simp add: set_ival_def ns_shape_def)
qed

definition ev_bounded :: "nat \<Rightarrow> nat \<Rightarrow> 'd aml_ev \<Rightarrow> bool" where
  "ev_bounded R M s \<longleftrightarrow> aml_bounded R M (am_ns (ev_m s))"

lemma ev_bounded_after: "ev_after s t \<Longrightarrow> ev_bounded R M t = ev_bounded R M s"
  unfolding ev_after_def ev_bounded_def by (intro ns_shape_bounded) simp

lemma ev_bounded_go [simp]: "ev_bounded R M (ev_go p s) = ev_bounded R M s"
  by (simp add: ev_bounded_def)

text \<open>What the functions promise for a code of at most \<open>k\<close> bytes, at the depth \<open>d\<close>: they come back.\<close>

definition ok_eval :: "nat \<Rightarrow> nat \<Rightarrow> nat \<Rightarrow> nat \<Rightarrow> (nat \<Rightarrow> 'd aml_ev \<Rightarrow> (aml_val \<times> 'd aml_ev) option) \<Rightarrow> bool" where
  "ok_eval R M d k f \<longleftrightarrow> (\<forall>e s. ev_bounded R M s \<longrightarrow> cx_depth (ev_ctx s) = d \<longrightarrow> e - ev_p s \<le> k \<longrightarrow>
     (\<exists>x t. f e s = Some (x, t) \<and> ev_after s t \<and> (ev_p s < e \<longrightarrow> ev_p s < ev_p t)))"

definition ok_store :: "nat \<Rightarrow> nat \<Rightarrow> nat \<Rightarrow> nat \<Rightarrow> (nat \<Rightarrow> u64 \<Rightarrow> 'd aml_ev \<Rightarrow> 'd aml_ev option) \<Rightarrow> bool" where
  "ok_store R M d k f \<longleftrightarrow> (\<forall>e x s. ev_bounded R M s \<longrightarrow> cx_depth (ev_ctx s) = d \<longrightarrow> e - ev_p s \<le> k \<longrightarrow>
     (\<exists>t. f e x s = Some t \<and> ev_after s t))"

definition ok_block :: "nat \<Rightarrow> nat \<Rightarrow> nat \<Rightarrow> nat \<Rightarrow> (nat \<Rightarrow> aml_val \<Rightarrow> 'd aml_ev \<Rightarrow> (aml_val \<times> 'd aml_ev) option) \<Rightarrow> bool" where
  "ok_block R M d k f \<longleftrightarrow> (\<forall>e r s. ev_bounded R M s \<longrightarrow> cx_depth (ev_ctx s) = d \<longrightarrow> e - ev_p s \<le> k \<longrightarrow>
     (\<exists>x t. f e r s = Some (x, t) \<and> ev_after s t))"

definition ok_args :: "nat \<Rightarrow> nat \<Rightarrow> nat \<Rightarrow> nat \<Rightarrow> (nat \<Rightarrow> nat \<Rightarrow> u64 list \<Rightarrow> 'd aml_ev \<Rightarrow> (u64 list \<times> 'd aml_ev) option) \<Rightarrow> bool" where
  "ok_args R M d k f \<longleftrightarrow> (\<forall>e c vs s. ev_bounded R M s \<longrightarrow> cx_depth (ev_ctx s) = d \<longrightarrow> e - ev_p s \<le> k \<longrightarrow>
     (\<exists>x t. f c e vs s = Some (x, t) \<and> ev_after s t))"

text \<open>All that a step at the depth \<open>d\<close> with \<open>k\<close> bytes left behind its first byte needs of the calls it makes.\<close>

definition ok_calls :: "nat \<Rightarrow> nat \<Rightarrow> nat \<Rightarrow> nat \<Rightarrow> 'd aml_calls \<Rightarrow> bool" where
  "ok_calls R M d k c \<longleftrightarrow> ok_eval R M d k (c_eval c) \<and> ok_store R M d k (c_store c) \<and> ok_block R M d k (c_block c) \<and> ok_args R M d k (c_args c)
     \<and> (d < AML_DEPTH_MAX \<longrightarrow> ok_block R M (Suc d) M (c_block c))
     \<and> (\<forall>i m. i < length (am_ns m) \<longrightarrow> aml_bounded R M (am_ns m) \<longrightarrow> (\<exists>x m'. c_fld_read c i m = Some (x, m') \<and> am_ns m' = am_ns m))
     \<and> (\<forall>i x m. i < length (am_ns m) \<longrightarrow> aml_bounded R M (am_ns m) \<longrightarrow> (\<exists>m'. c_fld_write c i x m = Some m' \<and> am_ns m' = am_ns m))"

definition ev_in :: "nat \<Rightarrow> nat \<Rightarrow> nat \<Rightarrow> nat \<Rightarrow> nat \<Rightarrow> 'd aml_ev \<Rightarrow> bool" where
  "ev_in R M d k e s \<longleftrightarrow> ev_bounded R M s \<and> cx_depth (ev_ctx s) = d \<and> e - ev_p s \<le> k"

lemma ev_in_after: "ev_in R M d k e s \<Longrightarrow> ev_after s t \<Longrightarrow> ev_in R M d k e t"
  using ev_bounded_after [of s t R M] by (auto simp: ev_in_def ev_after_def)

lemma ev_in_go: "ev_in R M d k e s \<Longrightarrow> e' - p \<le> k \<Longrightarrow> ev_in R M d k e' (ev_go p s)"
  by (simp add: ev_in_def)

lemma c_eval_ok:
  assumes "ok_calls R M d k c" "ev_in R M d k e s"
  obtains x t where "c_eval c e s = Some (x, t)" "ev_after s t"
proof -
  have "ok_eval R M d k (c_eval c)" using assms(1) by (simp add: ok_calls_def)
  then show thesis unfolding ok_eval_def using assms(2) that unfolding ev_in_def by blast
qed

lemma c_block_ok:
  assumes "ok_calls R M d k c" "ev_in R M d k e s"
  shows "\<exists>x t. c_block c e r s = Some (x, t) \<and> ev_after s t"
proof -
  have "ok_block R M d k (c_block c)" using assms(1) by (simp add: ok_calls_def)
  then show ?thesis unfolding ok_block_def using assms(2) unfolding ev_in_def by blast
qed

lemma c_store_ok:
  assumes "ok_calls R M d k c" "ev_in R M d k e s"
  obtains f where "\<And>x. c_store c e x s = Some (f x)" "\<And>x. ev_after s (f x)"
proof -
  have "ok_store R M d k (c_store c)" using assms(1) by (simp add: ok_calls_def)
  then have "\<forall>x. \<exists>t. c_store c e x s = Some t \<and> ev_after s t" unfolding ok_store_def using assms(2) unfolding ev_in_def by blast
  then show thesis using that by metis
qed

lemma two_step_ok:
  assumes "ok_calls R M d k c" "ev_in R M d k e s"
  obtains a b t where "two_step c e s = Some (a, b, t)" "ev_after s t"
proof -
  obtain a t where t: "c_eval c e s = Some (a, t)" "ev_after s t" using c_eval_ok [OF assms] .
  obtain b u where u: "c_eval c e t = Some (b, u)" "ev_after t u" using c_eval_ok [OF assms(1) ev_in_after [OF assms(2) t(2)]] .
  show thesis using that [of "val_v a" "val_v b" u] t u ev_after_trans by (auto simp: two_step_def)
qed

lemma ev_block_range:
  assumes "ev_block e ps s = (p, pe)"
  shows "ps < p" "pe \<le> e" "ps \<le> e \<Longrightarrow> ps \<le> pe"
  using assms by (auto simp: ev_block_def Let_def dest: pkglen_past split: prod.splits)

lemma if_step_ok:
  assumes "ok_calls R M d k c" "ev_in R M d k e s" "ev_p s \<le> e"
  shows "\<exists>x t. if_step c e s = Some (x, t) \<and> ev_after s t"
proof -
  obtain p pe where b: "ev_block e (ev_p s) s = (p, pe)" by (cases "ev_block e (ev_p s) s")
  note r = ev_block_range [OF b]
  have k: "e - ev_p s \<le> k" using assms(2) by (simp add: ev_in_def)
  have i1: "ev_in R M d k pe (ev_go p s)" using k r by (intro ev_in_go [OF assms(2)]) simp
  obtain cond t where t: "c_eval c pe (ev_go p s) = Some (cond, t)" "ev_after (ev_go p s) t" using c_eval_ok [OF assms(1) i1] .
  have i2: "ev_in R M d k pe t" using ev_in_after [OF i1 t(2)] .
  obtain y u where u: "(if val_v cond \<noteq> 0 then c_block c pe aml_VOID t else Some (aml_VOID, t)) = Some (y, u)" "ev_after t u"
    using c_block_ok [OF assms(1) i2, of aml_VOID] by (atomize_elim, cases "val_v cond \<noteq> 0") auto
  have su: "ev_after s u" using t(2) u(2) r(1) by (auto simp: ev_after_def)
  show ?thesis
  proof (cases "pe < e \<and> ev_byte u pe = 0xA1")
    case True
    obtain p2 ee where b2: "ev_block e (pe + 1) u = (p2, ee)" by (cases "ev_block e (pe + 1) u")
    note r2 = ev_block_range [OF b2]
    have "ee - p2 \<le> k" using k r(3) [OF assms(3)] r2(1,2) by linarith
    then have i3: "ev_in R M d k ee (ev_go p2 u)" using ev_in_go [OF ev_in_after [OF i2 u(2)]] by blast
    obtain z w where w: "(if val_v cond = 0 then c_block c ee y (ev_go p2 u) else Some (y, u)) = Some (z, w)" "ns_shape (am_ns (ev_m w)) = ns_shape (am_ns (ev_m u))"
      "cx_depth (ev_ctx w) = cx_depth (ev_ctx u)"
      using c_block_ok [OF assms(1) i3, of y] by (atomize_elim, cases "val_v cond = 0") (auto simp: ev_after_def)
    have "ev_after s (ev_go ee w)" using su w(2,3) r(3) [OF assms(3)] r2(3) True by (auto simp: ev_after_def)
    then show ?thesis using b t(1) u(1) True b2 w(1) by (auto simp: if_step_def)
  next
    case False
    have "ev_after s (ev_go pe u)" using su r(3) [OF assms(3)] by (rule ev_after_go2)
    then show ?thesis using b t(1) u(1) False by (auto simp: if_step_def)
  qed
qed

lemma ext_step_ok:
  assumes "ok_calls R M d k c" "ev_in R M d k e s"
  shows "\<exists>x t. ext_step c e s = Some (x, t) \<and> ev_after s t"
proof -
  have i: "ev_in R M d k e (ev_go (ev_p s + 1) s)" using assms(2) by (intro ev_in_go [OF assms(2)]) (auto simp: ev_in_def)
  obtain x t where "c_eval c e (ev_go (ev_p s + 1) s) = Some (x, t)" "ev_after (ev_go (ev_p s + 1) s) t" using c_eval_ok [OF assms(1) i] .
  then show ?thesis by (auto simp: ext_step_def Let_def ev_after_def)
qed

lemma fld_read_ok:
  assumes "ok_calls R M d k c" "ev_bounded R M s" "i < length (am_ns (ev_m s))"
  shows "\<exists>x m. c_fld_read c i (ev_m s) = Some (x, m) \<and> am_ns m = am_ns (ev_m s)"
  using assms by (simp add: ok_calls_def ev_bounded_def)

lemma fld_write_ok:
  assumes "ok_calls R M d k c" "ev_bounded R M s" "i < length (am_ns (ev_m s))"
  shows "\<exists>m. c_fld_write c i x (ev_m s) = Some m \<and> am_ns m = am_ns (ev_m s)"
  using assms by (simp add: ok_calls_def ev_bounded_def)

lemma method_ok:
  assumes c: "ok_calls R M d k c" and s: "ev_in R M d k e s" and d: "d < AML_DEPTH_MAX"
    and i: "i < length (am_ns (ev_m s))" "obj_kind (am_ns (ev_m s) ! i) = AML_METHOD body blen argc"
  shows "\<exists>vs t r u. c_args c argc e [] s = Some (vs, t) \<and> ev_after s t
    \<and> c_block c (body + unat blen) aml_VOID \<lparr>ev_p = body, ev_ctx = method_ctx (obj_path (am_ns (ev_m t) ! i)) (Suc d) vs, ev_m = ev_m t\<rparr> = Some (r, u)
    \<and> ns_shape (am_ns (ev_m u)) = ns_shape (am_ns (ev_m t))"
proof -
  have "ok_args R M d k (c_args c)" using c by (simp add: ok_calls_def)
  then obtain vs t where t: "c_args c argc e [] s = Some (vs, t)" "ev_after s t"
    unfolding ok_args_def using s unfolding ev_in_def by blast
  let ?s = "\<lparr>ev_p = body, ev_ctx = method_ctx (obj_path (am_ns (ev_m t) ! i)) (Suc d) vs, ev_m = ev_m t\<rparr>"
  have "ev_bounded R M t" using ev_in_after [OF s t(2)] by (simp add: ev_in_def)
  then have b: "ev_bounded R M ?s" by (simp add: ev_bounded_def)
  have m: "unat blen \<le> M" using s i by (auto simp: ev_in_def ev_bounded_def aml_bounded_def)
  have "ok_block R M (Suc d) M (c_block c)" using c d by (simp add: ok_calls_def)
  moreover have "cx_depth (ev_ctx ?s) = Suc d" "(body + unat blen) - ev_p ?s \<le> M" using m by (simp_all add: method_ctx_def)
  ultimately obtain r u where "c_block c (body + unat blen) aml_VOID ?s = Some (r, u)" "ev_after ?s u"
    unfolding ok_block_def using b by blast
  then show ?thesis using t by (auto simp: ev_after_def)
qed

lemma name_step_ok:
  assumes c: "ok_calls R M d k c" and s: "ev_in R M d k e (ev_go (ev_p s + 1) s)"
  shows "\<exists>x t. name_step c e s = Some (x, t) \<and> ev_after s t \<and> ev_p s < ev_p t"
proof -
  obtain name u where u: "ev_path s = (name, u)" by (cases "ev_path s")
  note a = ev_path_after [OF u]
  have iu: "ev_in R M d k e u" using s a ev_bounded_after [of s u R M] by (auto simp: ev_in_def ev_after_def)
  have d: "cx_depth (ev_ctx u) = d" and bu: "ev_bounded R M u" using iu by (simp_all add: ev_in_def)
  show ?thesis
  proof (cases "ns_find (am_ns (ev_m u)) (cx_scope (ev_ctx u)) name")
    case None
    then show ?thesis using u a by (simp add: name_step_def)
  next
    case (Some i)
    note il = ns_find_less [OF Some]
    show ?thesis
    proof (cases "obj_kind (am_ns (ev_m u) ! i)")
      case (AML_FIELD rgn off w)
      show ?thesis using fld_read_ok [OF c bu il] Some AML_FIELD u a by (auto simp: name_step_def ev_after_def)
    next
      case (AML_METHOD body blen argc)
      show ?thesis
      proof (cases "d < AML_DEPTH_MAX")
        case True
        from method_ok [OF c iu True il AML_METHOD] show ?thesis using Some AML_METHOD u a d True
          by (auto simp: name_step_def ev_after_def)
      qed (use Some AML_METHOD u a d in \<open>simp add: name_step_def\<close>)
    qed (use Some u a in \<open>simp_all add: name_step_def\<close>)
  qed
qed

lemma store_step_ok:
  assumes c: "ok_calls R M d k c" and s: "ev_in R M d k e (ev_go (ev_p s + 1) s)"
  shows "\<exists>t. store_step c e x s = Some t \<and> ev_after s t"
proof -
  obtain name u where u: "ev_path s = (name, u)" by (cases "ev_path s")
  note a = ev_path_after [OF u]
  have bu: "ev_bounded R M u" using s a ev_bounded_after [of s u R M] by (auto simp: ev_in_def)
  have n: "\<exists>t. (case ns_find (am_ns (ev_m u)) (cx_scope (ev_ctx u)) name of None \<Rightarrow> Some u
              | Some i \<Rightarrow> (case obj_kind (am_ns (ev_m u) ! i) of
                     AML_FIELD _ _ _ \<Rightarrow> do { m \<leftarrow> c_fld_write c i x (ev_m u); Some (u\<lparr>ev_m := m\<rparr>) }
                   | AML_INT _ \<Rightarrow> Some (u\<lparr>ev_m := set_ival i x (ev_m u)\<rparr>)
                   | _ \<Rightarrow> Some u)) = Some t \<and> ev_after s t"
  proof (cases "ns_find (am_ns (ev_m u)) (cx_scope (ev_ctx u)) name")
    case (Some i)
    show ?thesis
    proof (cases "obj_kind (am_ns (ev_m u) ! i)")
      case (AML_FIELD rgn off w)
      then show ?thesis using Some a fld_write_ok [OF c bu ns_find_less [OF Some], of x] by (auto simp: ev_after_def)
    qed (use Some a in \<open>auto simp: ev_after_def\<close>)
  qed (use a in simp)
  obtain y z t where t: "two_step c e (ev_go (ev_p s + 1) s) = Some (y, z, t)" "ev_after (ev_go (ev_p s + 1) s) t"
    using two_step_ok [OF c s] .
  have "ev_after s (skip_target e t)" using t(2) skip_target_after [of t e] by (auto simp: ev_after_def)
  then show ?thesis using n t(1) u by (auto simp: store_step_def Let_def ev_after_def)
qed

lemma eval_step_ok:
  assumes c: "ok_calls R M d k c" and s: "ev_in R M d k e (ev_go (ev_p s + 1) s)"
  shows "\<exists>x t. eval_step c e s = Some (x, t) \<and> ev_after s t \<and> (ev_p s < e \<longrightarrow> ev_p s < ev_p t)"
proof (cases "ev_p s < e")
  case False
  then show ?thesis by (simp add: eval_step_def)
next
  case True
  let ?s = "ev_go (ev_p s + 1) s"
  have next1: "ev_after s t \<and> ev_p s < ev_p t" if "ev_after ?s t" for t using that by (auto simp: ev_after_def)
  obtain x t where t: "c_eval c e ?s = Some (x, t)" "ev_after ?s t" using c_eval_ok [OF c s] .
  obtain f where f: "\<And>x. c_store c e x t = Some (f x)" "\<And>x. ev_after t (f x)" by (rule c_store_ok [OF c ev_in_after [OF s t(2)]]) blast
  have ft: "ev_after ?s (f x)" for x using t(2) f(2) by (rule ev_after_trans)
  obtain a b u where u: "two_step c e ?s = Some (a, b, u)" "ev_after ?s u" using two_step_ok [OF c s] .
  obtain g where g: "\<And>x. c_store c e x u = Some (g x)" "\<And>x. ev_after u (g x)" by (rule c_store_ok [OF c ev_in_after [OF s u(2)]]) blast
  have gt: "ev_after ?s (g x)" for x using u(2) g(2) by (rule ev_after_trans)
  have sk: "ev_after ?s (skip_target e u)" using u(2) skip_target_after by (rule ev_after_trans)
  obtain xi ti where i: "if_step c e ?s = Some (xi, ti)" "ev_after ?s ti" using if_step_ok [OF c s] True by auto
  obtain xe te where x: "ext_step c e ?s = Some (xe, te)" "ev_after ?s te" using ext_step_ok [OF c s] by auto
  obtain xn tn where n: "name_step c e s = Some (xn, tn)" "ev_after s tn" "ev_p s < ev_p tn" using name_step_ok [OF c s] by auto
  obtain y p where p: "parse_int (am_mem (ev_m s)) (ev_p s) = (y, p)" "ev_p s < p"
    using parse_int_past [of "am_mem (ev_m s)" "ev_p s"] by (cases "parse_int (am_mem (ev_m s)) (ev_p s)") auto
  have b: "Suc (ev_p s) \<le> snd (ev_block e (Suc (ev_p s)) ?s)"
    using ev_block_range(3) [OF surjective_pairing, of "Suc (ev_p s)" e ?s] True by simp
  note facts = t(1) f(1) u(1) g(1) i(1) x(1) n(1) p(1)
  note afters = next1 [OF t(2)] next1 [OF ft] next1 [OF u(2)] next1 [OF gt] next1 [OF sk] next1 [OF i(2)] next1 [OF x(2)] n(2,3) p(2)
  show ?thesis unfolding eval_step_def Let_def
    using True facts afters b by (auto split: option.split)
qed

lemma block_step_ok:
  assumes c: "ok_eval R M d k (c_eval c)" "0 < k \<Longrightarrow> ok_block R M d (k - 1) (c_block c)" and s: "ev_in R M d k e s"
  shows "\<exists>x t. block_step c e r s = Some (x, t) \<and> ev_after s t"
proof (cases "ev_p s < e")
  case True
  obtain x t where t: "c_eval c e s = Some (x, t)" "ev_after s t" "ev_p s < ev_p t"
    using c(1) s True unfolding ok_eval_def ev_in_def by blast
  have k: "0 < k" "e - ev_p t \<le> k - 1" using s t(3) True by (auto simp: ev_in_def)
  have "ev_in R M d k e t" using ev_in_after [OF s t(2)] .
  then obtain y u where "c_block c e x t = Some (y, u)" "ev_after t u"
    using c(2) [OF k(1)] k(2) unfolding ok_block_def ev_in_def by blast
  then show ?thesis using t True ev_after_trans [OF t(2)] by (auto simp: block_step_def)
qed (simp add: block_step_def)

lemma args_step_ok:
  assumes c: "ok_eval R M d k (c_eval c)" "0 < k \<Longrightarrow> ok_args R M d (k - 1) (c_args c)" and s: "ev_in R M d k e s"
  shows "\<exists>x t. args_step c m e vs s = Some (x, t) \<and> ev_after s t"
proof (cases "ev_p s < e \<and> m \<noteq> 0")
  case True
  obtain x t where t: "c_eval c e s = Some (x, t)" "ev_after s t" "ev_p s < ev_p t"
    using c(1) s True unfolding ok_eval_def ev_in_def by blast
  have k: "0 < k" "e - ev_p t \<le> k - 1" using s t(3) True by (auto simp: ev_in_def)
  have "ev_in R M d k e t" using ev_in_after [OF s t(2)] .
  then obtain y u where "c_args c (m - 1) e (vs @ [val_v x]) t = Some (y, u)" "ev_after t u"
    using c(2) [OF k(1)] k(2) unfolding ok_args_def ev_in_def by blast
  then show ?thesis using t True ev_after_trans [OF t(2)] by (auto simp: args_step_def)
qed (auto simp: args_step_def)

lemma fld_deep_mono: "fld_deep k ns i \<Longrightarrow> k \<le> l \<Longrightarrow> fld_deep l ns i"
proof (induction k arbitrary: i l)
  case (Suc k)
  then show ?case by (cases l) (auto split: option.splits)
qed simp

lemma fld_write_returns: "fld_deep n (am_ns m) i \<Longrightarrow> \<exists>m'. fld_write h n i x m = Some m' \<and> am_ns m' = am_ns m"
proof (cases n)
  case (Suc k)
  moreover assume d: "fld_deep n (am_ns m) i"
  moreover have "\<exists>y m'. fld_read h n b m = Some (y, m') \<and> am_ns m' = am_ns m" if "fld_base (am_ns m) i = Some b" for b
  proof -
    have "fld_deep k (am_ns m) b" using d that Suc by simp
    then show ?thesis using fld_read_returns [of n m b h] fld_deep_mono [of k "am_ns m" b n] Suc by simp
  qed
  ultimately show ?thesis
    by (auto simp: fld_write_def fld_base_def simp del: fld_read.simps split: aml_kind.splits option.splits if_splits)
qed simp

definition aml_need :: "nat \<Rightarrow> nat \<Rightarrow> nat \<Rightarrow> nat \<Rightarrow> nat" where
  "aml_need R M d k = R + (AML_DEPTH_MAX - d) * (2 * M + 2) + 2 * k + 1"

lemma aml_need_deeper: "d < AML_DEPTH_MAX \<Longrightarrow> aml_need R M (Suc d) M + 2 \<le> aml_need R M d k"
proof -
  assume "d < AML_DEPTH_MAX"
  then have "AML_DEPTH_MAX - d = Suc (AML_DEPTH_MAX - Suc d)" by simp
  then show ?thesis by (simp add: aml_need_def)
qed

lemma calls_ok:
  "(aml_need R M d k \<le> n \<longrightarrow> ok_eval R M d k (c_eval (calls h n)) \<and> ok_store R M d k (c_store (calls h n)))
   \<and> (aml_need R M d k + 1 \<le> n \<longrightarrow> ok_block R M d k (c_block (calls h n)) \<and> ok_args R M d k (c_args (calls h n)))"
proof (induction n arbitrary: d k)
  case 0
  then show ?case by (simp add: aml_need_def)
next
  case (Suc n)
  have c: "ok_calls R M d k' (calls h n)" if "aml_need R M d (Suc k') \<le> Suc n" for k'
  proof -
    have n: "aml_need R M d k' + 1 \<le> n" using that by (simp add: aml_need_def)
    have b: "d < AML_DEPTH_MAX \<longrightarrow> ok_block R M (Suc d) M (c_block (calls h n))"
    proof
      assume "d < AML_DEPTH_MAX"
      then have "aml_need R M (Suc d) M + 1 \<le> n" using that aml_need_deeper [of d R M "Suc k'"] by simp
      then show "ok_block R M (Suc d) M (c_block (calls h n))" using Suc.IH [of "Suc d" M] by blast
    qed
    obtain n' where n': "n = Suc n'" "R \<le> n" using n by (cases n) (auto simp: aml_need_def)
    then have f: "fld_deep n (am_ns m) i" if "i < length (am_ns m)" "aml_bounded R M (am_ns m)" for i and m :: "'a aml_machine"
      using that fld_deep_mono [of R "am_ns m" i n] by (simp add: aml_bounded_def)
    show ?thesis using Suc.IH [of d k'] n b f n' fld_read_returns [of n _ _ h] fld_write_returns [of n _ _ h]
      by (simp add: ok_calls_def)
  qed
  have ev: "ok_eval R M d k (c_eval (calls h (Suc n)))" if n: "aml_need R M d k \<le> Suc n" for k
  proof (unfold ok_eval_def, intro allI impI)
    fix e and s :: "'a aml_ev"
    assume s: "ev_bounded R M s" "cx_depth (ev_ctx s) = d" "e - ev_p s \<le> k"
    show "\<exists>x t. c_eval (calls h (Suc n)) e s = Some (x, t) \<and> ev_after s t \<and> (ev_p s < e \<longrightarrow> ev_p s < ev_p t)"
    proof (cases "ev_p s < e")
      case True
      then obtain k' where "k = Suc k'" using s(3) by (cases k) auto
      moreover from this have "ev_in R M d k' e (ev_go (ev_p s + 1) s)" using s by (auto simp: ev_in_def)
      ultimately show ?thesis using eval_step_ok [OF c] n by simp
    qed (simp add: eval_step_def)
  qed
  have st: "ok_store R M d k (c_store (calls h (Suc n)))" if n: "aml_need R M d k \<le> Suc n"
  proof (unfold ok_store_def, intro allI impI)
    fix e x and s :: "'a aml_ev"
    assume s: "ev_bounded R M s" "cx_depth (ev_ctx s) = d" "e - ev_p s \<le> k"
    show "\<exists>t. c_store (calls h (Suc n)) e x s = Some t \<and> ev_after s t"
    proof (cases "ev_p s < e")
      case True
      then obtain k' where "k = Suc k'" using s(3) by (cases k) auto
      moreover from this have "ev_in R M d k' e (ev_go (ev_p s + 1) s)" using s by (auto simp: ev_in_def)
      ultimately show ?thesis using store_step_ok [OF c] n by simp
    qed (simp add: store_step_def)
  qed
  have "ok_block R M d k (c_block (calls h (Suc n)))" "ok_args R M d k (c_args (calls h (Suc n)))" if n: "aml_need R M d k + 1 \<le> Suc n"
  proof -
    have e: "ok_eval R M d k (c_eval (calls h n))" using Suc.IH [of d k] n by simp
    have b: "ok_block R M d (k - 1) (c_block (calls h n))" "ok_args R M d (k - 1) (c_args (calls h n))" if "0 < k"
      using Suc.IH [of d "k - 1"] n that by (simp_all add: aml_need_def)
    show "ok_block R M d k (c_block (calls h (Suc n)))"
      unfolding ok_block_def using block_step_ok [OF e b(1)] by (simp add: ev_in_def)
    show "ok_args R M d k (c_args (calls h (Suc n)))"
      unfolding ok_args_def using args_step_ok [OF e b(2)] by (simp add: ev_in_def)
  qed
  then show ?case using ev st by simp
qed


text \<open>A machine whose method \<^verbatim>\<open>_PTS\<close> stores its argument to a field of a region with a fixed base.\<close>

definition aml_pts :: "unit aml_machine" where
  "aml_pts = aml_machine0\<lparr>am_mem := (\<lambda>p. if p = 8 then 0x70 else if p = 9 then 0x68 else if p = 10 then 0x60 else 0),
     am_ns := am_ns aml_machine0 @ [\<lparr>obj_path = [CHR 0x5C, CHR ''P''], obj_kind = AML_METHOD 8 3 1\<rparr>]\<rparr>"


text \<open>A field in a region whose base is that field is never read.\<close>

lemma fld_read_endless:
  assumes "am_ns m ! i = \<lparr>obj_path = f, obj_kind = AML_FIELD r off w\<rparr>" "ns_exact (am_ns m) r = Some j"
    "obj_kind (am_ns m ! j) = AML_REGION space True base f len" "ns_exact (am_ns m) f = Some i" "f \<noteq> []"
  shows "fld_read h n i m = None"
  by (induction n) (use assms in \<open>simp_all add: dyn_base_lookup_def\<close>)

end
