(* ===== verification/AmlCode.thy ===== *)
theory AmlCode
  imports AmlEval
begin

text \<open>
  Programs of the machine language of ACPI, as the compiler of the firmware writes them: expressions, assignments to the local
  variables, conditions and returns. Running their code computes what they mean.
\<close>

section \<open>Programs, their meaning and their code\<close>

datatype aml_op = Plus | Minus | BitAnd | BitOr

datatype aml_test = Both | Either | Equals | Above | Below

datatype aml_exp =
    Num u64
  | Loc nat
  | Par nat
  | Arith aml_op aml_exp aml_exp
  | Logic aml_test aml_exp aml_exp
  | LNot aml_exp

text \<open>A program is its first statement and the rest of it.\<close>

datatype aml_prog =
    Done
  | Assign nat aml_exp aml_prog
  | Cond aml_exp aml_prog aml_prog aml_prog
  | Return aml_exp aml_prog

text \<open>Numbers have 64 bits and wrap around. A test gives the number whose lower 32 bits are set, or 0; every number but 0 is true.\<close>

primrec op_val :: "aml_op \<Rightarrow> u64 \<Rightarrow> u64 \<Rightarrow> u64" where
  "op_val Plus x y = x + y"
| "op_val Minus x y = x - y"
| "op_val BitAnd x y = x AND y"
| "op_val BitOr x y = x OR y"

primrec test_val :: "aml_test \<Rightarrow> u64 \<Rightarrow> u64 \<Rightarrow> bool" where
  "test_val Both x y = (x \<noteq> 0 \<and> y \<noteq> 0)"
| "test_val Either x y = (x \<noteq> 0 \<or> y \<noteq> 0)"
| "test_val Equals x y = (x = y)"
| "test_val Above x y = (x > y)"
| "test_val Below x y = (x < y)"

primrec op_code :: "aml_op \<Rightarrow> u8" where
  "op_code Plus = 0x72"
| "op_code Minus = 0x74"
| "op_code BitAnd = 0x7B"
| "op_code BitOr = 0x7D"

primrec test_code :: "aml_test \<Rightarrow> u8" where
  "test_code Both = 0x90"
| "test_code Either = 0x91"
| "test_code Equals = 0x93"
| "test_code Above = 0x94"
| "test_code Below = 0x95"

primrec exp_val :: "u64 list \<Rightarrow> u64 list \<Rightarrow> aml_exp \<Rightarrow> u64" where
  "exp_val ls as (Num x) = x"
| "exp_val ls as (Loc k) = ls ! k"
| "exp_val ls as (Par k) = as ! k"
| "exp_val ls as (Arith op a b) = op_val op (exp_val ls as a) (exp_val ls as b)"
| "exp_val ls as (Logic op a b) = (if test_val op (exp_val ls as a) (exp_val ls as b) then 0xFFFFFFFF else 0)"
| "exp_val ls as (LNot a) = (if exp_val ls as a = 0 then 0xFFFFFFFF else 0)"

primrec prog_run :: "u64 list \<Rightarrow> aml_prog \<Rightarrow> u64 list \<Rightarrow> u64 option \<times> u64 list" where
  "prog_run as Done ls = (None, ls)"
| "prog_run as (Assign k a q) ls = prog_run as q (ls[k := exp_val ls as a])"
| "prog_run as (Cond a p1 p2 q) ls =
    (case (if exp_val ls as a \<noteq> 0 then prog_run as p1 ls else prog_run as p2 ls) of
       (Some x, ls) \<Rightarrow> (Some x, ls) | (None, ls) \<Rightarrow> prog_run as q ls)"
| "prog_run as (Return a q) ls = (Some (exp_val ls as a), ls)"

definition le_bytes :: "nat \<Rightarrow> u64 \<Rightarrow> u8 list" where
  "le_bytes n x = map (\<lambda>i. ucast (drop_bit (8 * i) x)) [0..<n]"

text \<open>The length of a block counts the four bytes it is written in.\<close>

definition pkg_enc :: "nat \<Rightarrow> u8 list" where
  "pkg_enc n = (let l = word_of_nat (n + 4) :: u32
     in [0xC0 OR (ucast l AND 0xF), ucast (drop_bit 4 l), ucast (drop_bit 12 l), ucast (drop_bit 20 l)])"

primrec exp_enc :: "aml_exp \<Rightarrow> u8 list" where
  "exp_enc (Num x) = 0x0E # le_bytes 8 x"
| "exp_enc (Loc k) = [0x60 + word_of_nat k]"
| "exp_enc (Par k) = [0x68 + word_of_nat k]"
| "exp_enc (Arith op a b) = op_code op # exp_enc a @ exp_enc b @ [0]"
| "exp_enc (Logic op a b) = test_code op # exp_enc a @ exp_enc b"
| "exp_enc (LNot a) = 0x92 # exp_enc a"

primrec prog_enc :: "aml_prog \<Rightarrow> u8 list" where
  "prog_enc Done = []"
| "prog_enc (Assign k a q) = 0x70 # exp_enc a @ (0x60 + word_of_nat k) # prog_enc q"
| "prog_enc (Cond a p1 p2 q) =
    0xA0 # pkg_enc (length (exp_enc a @ prog_enc p1)) @ exp_enc a @ prog_enc p1
    @ (if p2 = Done then [] else 0xA1 # pkg_enc (length (prog_enc p2)) @ prog_enc p2) @ prog_enc q"
| "prog_enc (Return a q) = 0xA4 # exp_enc a @ prog_enc q"

primrec exp_ok :: "aml_exp \<Rightarrow> bool" where
  "exp_ok (Num x) = True"
| "exp_ok (Loc k) = (k < 8)"
| "exp_ok (Par k) = (k < 7)"
| "exp_ok (Arith op a b) = (exp_ok a \<and> exp_ok b)"
| "exp_ok (Logic op a b) = (exp_ok a \<and> exp_ok b)"
| "exp_ok (LNot a) = exp_ok a"

primrec prog_ok :: "aml_prog \<Rightarrow> bool" where
  "prog_ok Done = True"
| "prog_ok (Assign k a q) = (k < 8 \<and> exp_ok a \<and> prog_ok q)"
| "prog_ok (Cond a p1 p2 q) = (exp_ok a \<and> prog_ok p1 \<and> prog_ok p2 \<and> prog_ok q
     \<and> length (exp_enc a @ prog_enc p1) + 4 < 2 ^ 28 \<and> length (prog_enc p2) + 4 < 2 ^ 28)"
| "prog_ok (Return a q) = (exp_ok a \<and> prog_ok q)"

text \<open>The depth of the calls.\<close>

primrec exp_fuel :: "aml_exp \<Rightarrow> nat" where
  "exp_fuel (Num x) = 1"
| "exp_fuel (Loc k) = 1"
| "exp_fuel (Par k) = 1"
| "exp_fuel (Arith op a b) = Suc (exp_fuel a + exp_fuel b)"
| "exp_fuel (Logic op a b) = Suc (exp_fuel a + exp_fuel b)"
| "exp_fuel (LNot a) = Suc (exp_fuel a)"

primrec prog_fuel :: "aml_prog \<Rightarrow> nat" where
  "prog_fuel Done = 1"
| "prog_fuel (Assign k a q) = 2 + exp_fuel a + prog_fuel q"
| "prog_fuel (Cond a p1 p2 q) = 2 + exp_fuel a + prog_fuel p1 + prog_fuel p2 + prog_fuel q"
| "prog_fuel (Return a q) = 2 + exp_fuel a + prog_fuel q"

section \<open>Reading the code\<close>

definition code_at :: "mem \<Rightarrow> nat \<Rightarrow> u8 list \<Rightarrow> bool" where
  "code_at m p bs \<longleftrightarrow> (\<forall>i < length bs. m (p + i) = bs ! i)"

lemma code_at_Nil [simp]: "code_at m p []"
  by (simp add: code_at_def)

lemma code_at_Cons [simp]: "code_at m p (b # bs) \<longleftrightarrow> m p = b \<and> code_at m (Suc p) bs"
  by (simp add: code_at_def All_less_Suc2)

lemma code_at_append [simp]: "code_at m p (as @ bs) \<longleftrightarrow> code_at m p as \<and> code_at m (p + length as) bs"
  by (induction as arbitrary: p) auto

lemma le_bytes_length [simp]: "length (le_bytes n x) = n"
  by (simp add: le_bytes_def)

lemma read_le_bit:
  "bit (read_le m p n) k \<longleftrightarrow> k < 64 \<and> k div 8 < n \<and> bit (m (p + k div 8)) (k mod 8)"
proof (induction n arbitrary: p k)
  case (Suc n)
  show ?case
  proof (cases "k < 8")
    case True
    then show ?thesis by (simp add: bit_simps)
  next
    case False
    then have "k div 8 = Suc ((k - 8) div 8)" "(k - 8) mod 8 = k mod 8" by (simp_all add: div_if mod_if)
    then show ?thesis using False Suc [of "p + 1" "k - 8"]
      by (auto simp: bit_simps dest: bit_imp_le_length)
  qed
qed simp

lemma read_le_code: "code_at m p (le_bytes 8 x) \<Longrightarrow> read_le m p 8 = x"
proof (rule bit_word_eqI)
  fix k
  assume c: "code_at m p (le_bytes 8 x)" and "k < LENGTH(64)"
  then have k: "k < 64" "k div 8 < 8" by auto
  have "m (p + k div 8) = ucast (drop_bit (8 * (k div 8)) x)" using c k by (simp add: code_at_def le_bytes_def)
  moreover have "8 * (k div 8) + k mod 8 = k" by simp
  ultimately show "bit (read_le m p 8) k = bit x k" using k by (simp add: read_le_bit bit_simps del: mult_div_mod_eq)
qed

lemma pkg_lead:
  fixes l :: u32
  shows "drop_bit 6 (0xC0 OR (ucast l AND 0xF) :: u8) AND 3 = 3" "ucast ((0xC0 OR (ucast l AND 0xF) :: u8) AND 0x3F) = take_bit 4 l"
proof -
  have m: "(0xC0 :: u8) = push_bit 6 (mask 2)" "(0xF :: u8) = mask 4" "(0x3F :: u8) = mask 6" "(3 :: u8) = mask 2"
    by (simp_all add: mask_eq_exp_minus_1)
  show "drop_bit 6 (0xC0 OR (ucast l AND 0xF) :: u8) AND 3 = 3" unfolding m by (rule bit_word_eqI) (auto simp: bit_simps)
  show "ucast ((0xC0 OR (ucast l AND 0xF) :: u8) AND 0x3F) = take_bit 4 l" unfolding m by (rule bit_word_eqI) (auto simp: bit_simps)
qed

lemma pkglen_code:
  assumes "code_at m p (pkg_enc n)" "n + 4 < 2 ^ 28"
  shows "pkglen m p = (word_of_nat (n + 4), p + 4)" "unat (word_of_nat (n + 4) :: u32) = n + 4"
proof -
  let ?l = "word_of_nat (n + 4) :: u32"
  show u: "unat ?l = n + 4" using assms(2) by (simp only: unat_of_nat) simp
  define l where "l = ?l"
  have "take_bit 28 l = l" using assms(2) u [folded l_def] by (intro word_unat_eq_iff [THEN iffD2]) (simp add: unsigned_take_bit_eq take_bit_nat_eq_self)
  then have hi: "bit l k \<Longrightarrow> k < 28" for k by (metis bit_take_bit_iff)
  have c: "m p = 0xC0 OR (ucast l AND 0xF)" "m (p + 1) = ucast (drop_bit 4 l)" "m (p + 2) = ucast (drop_bit 12 l)" "m (p + 3) = ucast (drop_bit 20 l)"
    using assms(1) by (simp_all add: pkg_enc_def Let_def l_def numeral_3_eq_3)
  have "take_bit 4 l OR push_bit 4 (ucast (m (p + 1))) OR push_bit 12 (ucast (m (p + 2))) OR push_bit 20 (ucast (m (p + 3))) = l"
  proof (unfold c, rule bit_word_eqI, goal_cases)
    case (1 k)
    consider "k < 4" | "4 \<le> k" "k < 12" | "12 \<le> k" "k < 20" | "20 \<le> k" "k < 28" | "28 \<le> k" by linarith
    then show ?case using 1 by cases (auto simp: bit_simps dest: hi)
  qed
  moreover have "unat (drop_bit 6 (m p) AND 3) = 3" "ucast (m p AND 0x3F) = take_bit 4 l" unfolding c pkg_lead by simp_all
  ultimately have "pkglen m p = (l, p + 4)"
    by (simp add: pkglen_def Let_def numeral_3_eq_3 or.assoc)
  then show "pkglen m p = (?l, p + 4)" unfolding l_def .
qed

section \<open>Running the code\<close>

lemma less_8: "k < 8 \<Longrightarrow> k = 0 \<or> k = 1 \<or> k = 2 \<or> k = 3 \<or> k = 4 \<or> k = 5 \<or> k = 6 \<or> k = 7" for k :: nat
  by linarith

lemma store_null:
  assumes "ev_byte s (ev_p s) = 0" "ev_p s < e" "0 < n"
  shows "c_store (calls h n) e x s = Some (ev_go (ev_p s + 1) s)"
  using assms by (cases n) (simp_all add: store_step_def is_name_start_def)

lemma store_local:
  assumes "ev_byte s (ev_p s) = 0x60 + word_of_nat k" "k < 8" "ev_p s < e" "0 < n"
  shows "c_store (calls h n) e x s = Some (ev_go (ev_p s + 1) (s\<lparr>ev_ctx := (ev_ctx s)\<lparr>cx_locals := (cx_locals (ev_ctx s))[k := x]\<rparr>\<rparr>))"
  using assms less_8 [OF assms(2)] by (cases n) (auto simp: store_step_def ev_go_def)

lemma eval_local:
  assumes "ev_byte s (ev_p s) = 0x60 + word_of_nat k" "k < 8" "ev_p s < e"
  shows "eval_step c e s = Some (aml_V (cx_locals (ev_ctx s) ! k), ev_go (ev_p s + 1) s)"
  using assms less_8 [OF assms(2)] by (auto simp: eval_step_def is_int_op_def)

lemma eval_par:
  assumes "ev_byte s (ev_p s) = 0x68 + word_of_nat k" "k < 7" "ev_p s < e"
  shows "eval_step c e s = Some (aml_V (cx_args (ev_ctx s) ! k), ev_go (ev_p s + 1) s)"
  using assms less_8 [of k] by (auto simp: eval_step_def is_int_op_def)

lemma eval_arith:
  assumes "ev_byte s (ev_p s) = op" "aml_arith op = Some f" "ev_p s < e"
  shows "eval_step c e s = do { (a, b, s) \<leftarrow> two_step c e (ev_go (ev_p s + 1) s); s \<leftarrow> c_store c e (f a b) s; Some (aml_V (f a b), s) }"
  using assms by (auto simp: eval_step_def is_int_op_def aml_arith_def is_name_start_def split: if_splits)

lemma eval_logic:
  assumes "ev_byte s (ev_p s) = op" "aml_logic op = Some f" "ev_p s < e"
  shows "eval_step c e s = do { (a, b, s) \<leftarrow> two_step c e (ev_go (ev_p s + 1) s); Some (aml_V (aml_bool (f a b)), s) }"
  using assms by (auto simp: eval_step_def is_int_op_def aml_logic_def aml_arith_def is_name_start_def split: if_splits)

lemma op_code_val: "aml_arith (op_code op) = Some (op_val op)" "aml_logic (test_code t) = Some (test_val t)"
  by (cases op; auto simp: aml_arith_def fun_eq_iff) (cases t; auto simp: aml_logic_def fun_eq_iff)

lemma ev_byte_go [simp]: "ev_byte (ev_go p s) q = ev_byte s q"
  by (simp add: ev_byte_def)

lemma ev_go_go [simp]: "ev_go p (ev_go q s) = ev_go p s"
  by (simp add: ev_go_def)

text \<open>An expression gives its value and changes nothing.\<close>

lemma eval_exp:
  assumes "exp_ok a" "exp_fuel a \<le> n" "code_at (am_mem (ev_m s)) (ev_p s) (exp_enc a)" "ev_p s + length (exp_enc a) \<le> e"
  shows "c_eval (calls h n) e s =
    Some (aml_V (exp_val (cx_locals (ev_ctx s)) (cx_args (ev_ctx s)) a), ev_go (ev_p s + length (exp_enc a)) s)"
  using assms
proof (induction a arbitrary: n s)
  case (Num x)
  then have "parse_int (am_mem (ev_m s)) (ev_p s) = (x, ev_p s + 9)" using read_le_code [of "am_mem (ev_m s)" "Suc (ev_p s)" x] by (simp add: parse_int_def)
  then show ?case using Num by (cases n) (auto simp: eval_step_def ev_byte_def is_int_op_def)
next
  case (Loc k)
  then show ?case using eval_local [of s k e] by (cases n) (auto simp: ev_byte_def)
next
  case (Par k)
  then show ?case using eval_par [of s k e] by (cases n) (auto simp: ev_byte_def)
next
  case (Arith op a b)
  obtain m where m: "n = Suc m" using Arith.prems(2) by (cases n) auto
  let ?s = "ev_go (ev_p s + 1) s" and ?t = "ev_go (ev_p s + 1 + length (exp_enc a)) s"
  let ?u = "ev_go (ev_p s + 1 + length (exp_enc a) + length (exp_enc b)) s"
  let ?a = "exp_val (cx_locals (ev_ctx s)) (cx_args (ev_ctx s)) a" and ?b = "exp_val (cx_locals (ev_ctx s)) (cx_args (ev_ctx s)) b"
  have a: "c_eval (calls h m) e ?s = Some (aml_V ?a, ?t)" using Arith.IH(1) [of m ?s] Arith.prems m by simp
  have b: "c_eval (calls h m) e ?t = Some (aml_V ?b, ?u)" using Arith.IH(2) [of m ?t] Arith.prems m by simp
  have "0 < exp_fuel a" by (cases a) auto
  then have st: "c_store (calls h m) e x ?u = Some (ev_go (ev_p ?u + 1) ?u)" for x using Arith.prems m by (intro store_null) (auto simp: ev_byte_def)
  have op: "ev_byte s (ev_p s) = op_code op" "ev_p s < e" using Arith.prems by (auto simp: ev_byte_def)
  show ?case using eval_arith [OF op(1) op_code_val(1) op(2), of "calls h m"] a b st m by (simp add: two_step_def aml_V_def)
next
  case (Logic op a b)
  obtain m where m: "n = Suc m" using Logic.prems(2) by (cases n) auto
  let ?s = "ev_go (ev_p s + 1) s" and ?t = "ev_go (ev_p s + 1 + length (exp_enc a)) s"
  have a: "c_eval (calls h m) e ?s = Some (aml_V (exp_val (cx_locals (ev_ctx s)) (cx_args (ev_ctx s)) a), ?t)"
    using Logic.IH(1) [of m ?s] Logic.prems m by simp
  have b: "c_eval (calls h m) e ?t = Some (aml_V (exp_val (cx_locals (ev_ctx s)) (cx_args (ev_ctx s)) b), ev_go (ev_p ?t + length (exp_enc b)) s)"
    using Logic.IH(2) [of m ?t] Logic.prems m by simp
  have op: "ev_byte s (ev_p s) = test_code op" "ev_p s < e" using Logic.prems by (auto simp: ev_byte_def)
  show ?case using eval_logic [OF op(1) op_code_val(2) op(2), of "calls h m"] a b m by (simp add: two_step_def aml_V_def aml_bool_def)
next
  case (LNot a)
  obtain m where m: "n = Suc m" using LNot.prems(2) by (cases n) auto
  have a: "c_eval (calls h m) e (ev_go (ev_p s + 1) s) = Some (aml_V (exp_val (cx_locals (ev_ctx s)) (cx_args (ev_ctx s)) a), ev_go (ev_p s + 1 + length (exp_enc a)) s)"
    using LNot.IH [of m "ev_go (ev_p s + 1) s"] LNot.prems m by simp
  have op: "ev_byte s (ev_p s) = 0x92" "ev_p s < e" using LNot.prems by (auto simp: ev_byte_def)
  show ?case using op a m by (simp add: eval_step_def is_int_op_def aml_V_def aml_bool_def)
qed

text \<open>The state of a run that has come to an address, with its local variables.\<close>

definition ev_set :: "nat \<Rightarrow> u64 list \<Rightarrow> 'd aml_ev \<Rightarrow> 'd aml_ev" where
  "ev_set p ls s = s\<lparr>ev_p := p, ev_ctx := (ev_ctx s)\<lparr>cx_locals := ls\<rparr>\<rparr>"

lemma ev_set_simps [simp]: "ev_p (ev_set p ls s) = p" "cx_locals (ev_ctx (ev_set p ls s)) = ls" "cx_args (ev_ctx (ev_set p ls s)) = cx_args (ev_ctx s)"
  "ev_m (ev_set p ls s) = ev_m s" "ev_go q (ev_set p ls s) = ev_set q ls s" "ev_set p ls (ev_go q s) = ev_set p ls s"
  "ev_set p ls (ev_set q ks s) = ev_set p ls s" "ev_byte (ev_set p ls s) q = ev_byte s q"
  by (simp_all add: ev_set_def ev_go_def ev_byte_def)

lemma ev_set_self: "ev_go p s = ev_set p (cx_locals (ev_ctx s)) s"
  by (simp add: ev_set_def ev_go_def)

definition ends_as :: "u64 option \<Rightarrow> aml_val \<Rightarrow> bool" where
  "ends_as x r \<longleftrightarrow> (case x of Some y \<Rightarrow> r = aml_RET y | None \<Rightarrow> val_t r \<noteq> RET_RET)"

lemma eval_assign:
  assumes "k < 8" "exp_ok a" "exp_fuel a < n" "ev_p s + length (exp_enc a) + 1 < e"
    "code_at (am_mem (ev_m s)) (ev_p s) (0x70 # exp_enc a @ [0x60 + word_of_nat k])"
  shows "c_eval (calls h n) e s = Some (aml_V (exp_val (cx_locals (ev_ctx s)) (cx_args (ev_ctx s)) a),
    ev_set (ev_p s + length (exp_enc a) + 2) ((cx_locals (ev_ctx s))[k := exp_val (cx_locals (ev_ctx s)) (cx_args (ev_ctx s)) a]) s)"
proof -
  obtain m where m: "n = Suc m" using assms(3) by (cases n) auto
  let ?x = "exp_val (cx_locals (ev_ctx s)) (cx_args (ev_ctx s)) a" and ?t = "ev_go (ev_p s + 1 + length (exp_enc a)) s"
  have a: "c_eval (calls h m) e (ev_go (ev_p s + 1) s) = Some (aml_V ?x, ?t)"
    using eval_exp [of a m "ev_go (ev_p s + 1) s" e h] assms m by simp
  have "0 < exp_fuel a" by (cases a) auto
  then have "c_store (calls h m) e ?x ?t = Some (ev_go (ev_p ?t + 1) (?t\<lparr>ev_ctx := (ev_ctx ?t)\<lparr>cx_locals := (cx_locals (ev_ctx ?t))[k := ?x]\<rparr>\<rparr>))"
    using assms m by (intro store_local) (auto simp: ev_byte_def)
  moreover have "ev_byte s (ev_p s) = 0x70" "ev_p s < e" using assms by (auto simp: ev_byte_def)
  ultimately show ?thesis using a m by (simp add: eval_step_def is_int_op_def aml_V_def ev_set_def ev_go_def)
qed

lemma eval_return:
  assumes "exp_ok a" "exp_fuel a < n" "ev_p s + length (exp_enc a) < e" "code_at (am_mem (ev_m s)) (ev_p s) (0xA4 # exp_enc a)"
  shows "\<exists>t. c_eval (calls h n) e s = Some (aml_RET (exp_val (cx_locals (ev_ctx s)) (cx_args (ev_ctx s)) a), ev_go t s)"
proof -
  obtain m where m: "n = Suc m" using assms(2) by (cases n) auto
  have a: "c_eval (calls h m) e (ev_go (ev_p s + 1) s) = Some (aml_V (exp_val (cx_locals (ev_ctx s)) (cx_args (ev_ctx s)) a), ev_go (ev_p s + 1 + length (exp_enc a)) s)"
    using eval_exp [of a m "ev_go (ev_p s + 1) s" e h] assms m by simp
  moreover have "ev_byte s (ev_p s) = 0xA4" "ev_p s < e" using assms by (auto simp: ev_byte_def)
  ultimately show ?thesis using m by (auto simp: eval_step_def is_int_op_def aml_V_def)
qed

lemma ev_block_code:
  assumes "code_at (am_mem (ev_m s)) p (pkg_enc n)" "n + 4 < 2 ^ 28" "p + 4 + n \<le> e"
  shows "ev_block e p s = (p + 4, p + 4 + n)"
  using pkglen_code [OF assms(1,2)] assms(3) by (simp add: ev_block_def min_def)

text \<open>The code of a condition: \<open>alt\<close> is the code of its second block with its length, if there is one.\<close>

definition else_enc :: "aml_prog \<Rightarrow> u8 list" where
  "else_enc p2 = (if p2 = Done then [] else 0xA1 # pkg_enc (length (prog_enc p2)) @ prog_enc p2)"

lemma pkg_enc_length [simp]: "length (pkg_enc n) = 4"
  by (simp add: pkg_enc_def Let_def)

lemma eval_cond:
  fixes s :: "'d aml_ev" and a :: aml_exp and p1 p2 :: aml_prog
  defines "p \<equiv> ev_p s" and "ls \<equiv> cx_locals (ev_ctx s)" and "as \<equiv> cx_args (ev_ctx s)"
  defines "pe \<equiv> p + 5 + length (exp_enc a) + length (prog_enc p1)"
  assumes ok: "exp_ok a" "length (exp_enc a @ prog_enc p1) + 4 < 2 ^ 28" "length (prog_enc p2) + 4 < 2 ^ 28" "exp_fuel a \<le> m"
    and e: "pe + length (else_enc p2) \<le> e" "p2 = Done \<Longrightarrow> pe < e \<Longrightarrow> am_mem (ev_m s) pe \<noteq> 0xA1"
    and code: "code_at (am_mem (ev_m s)) p (0xA0 # pkg_enc (length (exp_enc a @ prog_enc p1)) @ exp_enc a @ prog_enc p1 @ else_enc p2)"
    and b1: "\<exists>r k. c_block (calls h m) pe aml_VOID (ev_go (p + 5 + length (exp_enc a)) s) = Some (r, ev_set k (snd (prog_run as p1 ls)) s)
      \<and> ends_as (fst (prog_run as p1 ls)) r"
    and b2: "p2 \<noteq> Done \<Longrightarrow> \<exists>r k. c_block (calls h m) (pe + 5 + length (prog_enc p2)) aml_VOID (ev_go (pe + 5) s) = Some (r, ev_set k (snd (prog_run as p2 ls)) s)
      \<and> ends_as (fst (prog_run as p2 ls)) r"
  defines "run \<equiv> (if exp_val ls as a \<noteq> 0 then prog_run as p1 ls else prog_run as p2 ls)"
  shows "\<exists>r. c_eval (calls h (Suc m)) e s = Some (r, ev_set (pe + length (else_enc p2)) (snd run) s) \<and> ends_as (fst run) r"
proof -
  let ?x = "exp_val ls as a" and ?s = "ev_go (p + 1) s" and ?t = "ev_go (p + 5 + length (exp_enc a)) s"
  have op: "ev_byte s p = 0xA0" "p < e" using code e(1) by (auto simp: ev_byte_def pe_def)
  have st: "c_eval (calls h (Suc m)) e s = if_step (calls h m) e ?s" using op by (simp add: eval_step_def is_int_op_def p_def)
  have blk: "ev_block e (p + 1) ?s = (p + 5, pe)"
    using ev_block_code [of ?s "p + 1" "length (exp_enc a @ prog_enc p1)" e] code ok(2) e(1) by (simp add: pe_def)
  have a: "c_eval (calls h m) pe (ev_go (p + 5) s) = Some (aml_V ?x, ?t)"
  proof -
    have "code_at (am_mem (ev_m s)) (p + 5) (exp_enc a)" using code by (simp add: add.commute)
    then show ?thesis using eval_exp [OF ok(1,4), of "ev_go (p + 5) s" pe h] by (simp add: pe_def ls_def as_def)
  qed
  obtain r1 k1 where u: "(if ?x \<noteq> 0 then c_block (calls h m) pe aml_VOID ?t else Some (aml_VOID, ?t))
      = Some (r1, ev_set k1 (if ?x \<noteq> 0 then snd (prog_run as p1 ls) else ls) s)"
    and r1: "ends_as (if ?x \<noteq> 0 then fst (prog_run as p1 ls) else None) r1" "?x = 0 \<Longrightarrow> r1 = aml_VOID"
    using b1 by (atomize_elim, cases "?x = 0") (auto simp: ev_set_self ls_def ends_as_def aml_VOID_def)
  show ?thesis
  proof (cases "p2 = Done")
    case True
    then have "\<not> (pe < e \<and> am_mem (ev_m s) pe = 0xA1)" using e(2) by blast
    then have "if_step (calls h m) e ?s = Some (r1, ev_set pe (if ?x \<noteq> 0 then snd (prog_run as p1 ls) else ls) s)"
      using blk a u by (auto simp: if_step_def aml_V_def ev_byte_def)
    then show ?thesis using st r1(1) True by (auto simp: else_enc_def run_def)
  next
    case False
    let ?ee = "pe + 5 + length (prog_enc p2)"
    have c2: "am_mem (ev_m s) pe = 0xA1" "code_at (am_mem (ev_m s)) (pe + 1) (pkg_enc (length (prog_enc p2)))" "pe < e" "?ee \<le> e"
      using code e(1) False by (simp_all add: else_enc_def pe_def add.commute add.left_commute)
    have blk2: "ev_block e (pe + 1) (ev_set k ks s) = (pe + 5, ?ee)" for k ks
      using ev_block_code [of "ev_set k ks s" "pe + 1" "length (prog_enc p2)" e] c2 ok(3) by simp
    obtain r2 k2 where w: "(if ?x = 0 then c_block (calls h m) ?ee r1 (ev_go (pe + 5) (ev_set k1 (if ?x \<noteq> 0 then snd (prog_run as p1 ls) else ls) s))
        else Some (r1, ev_set k1 (if ?x \<noteq> 0 then snd (prog_run as p1 ls) else ls) s)) = Some (r2, ev_set k2 (snd run) s)" "ends_as (fst run) r2"
      using b2 [OF False] r1 by (atomize_elim, cases "?x = 0") (auto simp: run_def ev_set_self ls_def)
    have "if_step (calls h m) e ?s = Some (r2, ev_set ?ee (snd run) s)"
      using blk a u c2 blk2 w(1) by (simp add: if_step_def aml_V_def ev_byte_def)
    then show ?thesis using st w(2) False by (simp add: else_enc_def add.commute add.left_commute)
  qed
qed

lemma prog_enc_first: "q \<noteq> Done \<Longrightarrow> prog_enc q \<noteq> [] \<and> hd (prog_enc q) \<noteq> 0xA1"
  by (cases q) auto

lemma prog_fuel_pos: "0 < prog_fuel q"
  by (cases q) auto

lemma block_runs:
  assumes "prog_ok q" "prog_fuel q \<le> n" "code_at (am_mem (ev_m s)) (ev_p s) (prog_enc q)" "val_t r \<noteq> RET_RET"
  shows "\<exists>r' k. c_block (calls h n) (ev_p s + length (prog_enc q)) r s
      = Some (r', ev_set k (snd (prog_run (cx_args (ev_ctx s)) q (cx_locals (ev_ctx s)))) s)
    \<and> ends_as (fst (prog_run (cx_args (ev_ctx s)) q (cx_locals (ev_ctx s)))) r'"
  using assms
proof (induction q arbitrary: n s r)
  case Done
  have "s = ev_set (ev_p s) (cx_locals (ev_ctx s)) s" by (simp add: ev_set_def)
  then show ?case using Done by (cases n) (auto simp: block_step_def ends_as_def)
next
  case (Assign k a q)
  obtain m where m: "n = Suc m" using Assign.prems(2) by (cases n) auto
  let ?e = "ev_p s + length (prog_enc (Assign k a q))" and ?x = "exp_val (cx_locals (ev_ctx s)) (cx_args (ev_ctx s)) a"
  let ?t = "ev_set (ev_p s + length (exp_enc a) + 2) ((cx_locals (ev_ctx s))[k := ?x]) s"
  have v: "c_eval (calls h m) ?e s = Some (aml_V ?x, ?t)"
    using Assign.prems m by (intro eval_assign) auto
  have "code_at (am_mem (ev_m ?t)) (ev_p ?t) (prog_enc q)" using Assign.prems(3) by (simp add: add.commute add.left_commute)
  from Assign.IH [OF _ _ this, of m "aml_V ?x"] show ?case using Assign.prems m v
    by (simp add: block_step_def aml_V_def add.commute add.left_commute)
next
  case (Cond a p1 p2 q)
  obtain m where m: "n = Suc (Suc m)" using Cond.prems(2) by (cases n; cases "n - 1") auto
  let ?p = "ev_p s" and ?ls = "cx_locals (ev_ctx s)" and ?as = "cx_args (ev_ctx s)"
  let ?e = "?p + length (prog_enc (Cond a p1 p2 q))" and ?pe = "?p + 5 + length (exp_enc a) + length (prog_enc p1)"
  let ?run = "if exp_val ?ls ?as a \<noteq> 0 then prog_run ?as p1 ?ls else prog_run ?as p2 ?ls"
  let ?q = "?pe + length (else_enc p2)"
  have enc: "prog_enc (Cond a p1 p2 q) = 0xA0 # pkg_enc (length (exp_enc a @ prog_enc p1)) @ exp_enc a @ prog_enc p1 @ else_enc p2 @ prog_enc q"
    by (simp add: else_enc_def)
  have e: "?e = ?q + length (prog_enc q)" unfolding enc by simp
  have c: "code_at (am_mem (ev_m s)) ?p (0xA0 # pkg_enc (length (exp_enc a @ prog_enc p1)) @ exp_enc a @ prog_enc p1 @ else_enc p2)"
    "code_at (am_mem (ev_m s)) ?q (prog_enc q)"
    using Cond.prems(3) unfolding enc by (simp_all add: add.commute add.left_commute)
  have c1: "code_at (am_mem (ev_m s)) (?p + 5 + length (exp_enc a)) (prog_enc p1)" using c(1) by (simp add: add.commute add.left_commute)
  have b1: "\<exists>r k. c_block (calls h m) ?pe aml_VOID (ev_go (?p + 5 + length (exp_enc a)) s) = Some (r, ev_set k (snd (prog_run ?as p1 ?ls)) s)
      \<and> ends_as (fst (prog_run ?as p1 ?ls)) r"
    using Cond.IH(1) [of m "ev_go (?p + 5 + length (exp_enc a)) s" aml_VOID] Cond.prems m c1 by (simp add: aml_VOID_def)
  have b2: "\<exists>r k. c_block (calls h m) (?pe + 5 + length (prog_enc p2)) aml_VOID (ev_go (?pe + 5) s) = Some (r, ev_set k (snd (prog_run ?as p2 ?ls)) s)
      \<and> ends_as (fst (prog_run ?as p2 ?ls)) r" if "p2 \<noteq> Done"
  proof -
    have "code_at (am_mem (ev_m s)) (?pe + 5) (prog_enc p2)" using c(1) that by (simp add: else_enc_def add.commute add.left_commute)
    then show ?thesis using Cond.IH(2) [of m "ev_go (?pe + 5) s" aml_VOID] Cond.prems m by (simp add: aml_VOID_def)
  qed
  have nxt: "am_mem (ev_m s) ?pe \<noteq> 0xA1" if "p2 = Done" "?pe < ?e"
  proof -
    have "prog_enc q \<noteq> []" using that e by (auto simp: else_enc_def)
    then have "prog_enc q \<noteq> [] \<and> hd (prog_enc q) \<noteq> 0xA1" using prog_enc_first [of q] by (cases "q = Done") auto
    then show ?thesis using c(2) that by (cases "prog_enc q") (simp_all add: else_enc_def)
  qed
  obtain r1 where v: "c_eval (calls h (Suc m)) ?e s = Some (r1, ev_set ?q (snd ?run) s)" "ends_as (fst ?run) r1"
  proof -
    have ok: "exp_ok a" "length (exp_enc a @ prog_enc p1) + 4 < 2 ^ 28" "length (prog_enc p2) + 4 < 2 ^ 28" "exp_fuel a \<le> m"
      using Cond.prems m by simp_all
    have "?q \<le> ?e" using e by simp
    from eval_cond [OF ok this nxt c(1) b1 b2] that show thesis by blast
  qed
  have "\<not> ?e \<le> ?p" using e by linarith
  then have bs: "c_block (calls h n) ?e r s = do { (r, s) \<leftarrow> c_eval (calls h (Suc m)) ?e s;
      if val_t r = RET_RET then Some (r, s) else c_block (calls h (Suc m)) ?e r s }"
    unfolding m calls.simps(2) [of h "Suc m"] by (simp add: block_step_def del: calls.simps prog_enc.simps)
  show ?case
  proof (cases "fst ?run")
    case (Some x)
    then have "val_t r1 = RET_RET" using v(2) by (simp add: ends_as_def aml_RET_def)
    then have "c_block (calls h n) ?e r s = Some (r1, ev_set ?q (snd ?run) s)" unfolding bs v(1) by simp
    then show ?thesis using Some v(2) by (auto simp del: calls.simps prog_enc.simps split: prod.splits)
  next
    case None
    then have "val_t r1 \<noteq> RET_RET" using v(2) by (simp add: ends_as_def)
    then have "c_block (calls h n) ?e r s = c_block (calls h (Suc m)) ?e r1 (ev_set ?q (snd ?run) s)" unfolding bs v(1) by simp
    moreover have "\<exists>r' k. c_block (calls h (Suc m)) ?e r1 (ev_set ?q (snd ?run) s) = Some (r', ev_set k (snd (prog_run ?as q (snd ?run))) s)
        \<and> ends_as (fst (prog_run ?as q (snd ?run))) r'"
      using Cond.IH(3) [of "Suc m" "ev_set ?q (snd ?run) s" r1] Cond.prems m c(2) \<open>val_t r1 \<noteq> RET_RET\<close> unfolding e
      by (simp del: calls.simps)
    ultimately show ?thesis using None by (auto simp del: calls.simps prog_enc.simps split: prod.splits)
  qed
next
  case (Return a q)
  obtain m where m: "n = Suc m" using Return.prems(2) by (cases n) auto
  let ?e = "ev_p s + length (prog_enc (Return a q))" and ?x = "exp_val (cx_locals (ev_ctx s)) (cx_args (ev_ctx s)) a"
  obtain t where "c_eval (calls h m) ?e s = Some (aml_RET ?x, ev_go t s)"
    using eval_return [of a m s ?e h] Return.prems m by auto
  then show ?case using m by (auto simp: block_step_def aml_RET_def ends_as_def ev_set_self)
qed

text \<open>
  C40. The interpreter runs the code of a program as the program means: it changes nothing but its local variables, returns the value
  of the first return statement it comes to, and falls off the end of the code when it comes to none. A fuel of
  \<open>prog_fuel q\<close>, a small number for each part of the program, is enough.
\<close>
theorem aml_runs_program:
  assumes "prog_ok q" "code_at (am_mem m) body (prog_enc q)" "unat blen = length (prog_enc q)" "prog_fuel q \<le> n"
  shows "\<exists>r. exec_body h n body blen ctx m = Some (r, m) \<and>
    (case fst (prog_run (cx_args ctx) q (cx_locals ctx)) of Some x \<Rightarrow> r = aml_RET x | None \<Rightarrow> val_t r \<noteq> RET_RET)"
proof -
  obtain r k where "c_block (calls h n) (body + unat blen) aml_VOID \<lparr>ev_p = body, ev_ctx = ctx, ev_m = m\<rparr>
      = Some (r, ev_set k (snd (prog_run (cx_args ctx) q (cx_locals ctx))) \<lparr>ev_p = body, ev_ctx = ctx, ev_m = m\<rparr>)"
    "ends_as (fst (prog_run (cx_args ctx) q (cx_locals ctx))) r"
    using block_runs [OF assms(1,4), of "\<lparr>ev_p = body, ev_ctx = ctx, ev_m = m\<rparr>" aml_VOID h] assms(2,3) by (auto simp: aml_VOID_def)
  then show ?thesis by (simp add: exec_body_def ends_as_def)
qed

text \<open>\<^verbatim>\<open>If (Arg0 == 3) { Local0 = Arg0 + 1 } Else { Local0 = 7 } Return (Local0)\<close>\<close>

definition aml_demo :: aml_prog where
  "aml_demo = Cond (Logic Equals (Par 0) (Num 3)) (Assign 0 (Arith Plus (Par 0) (Num 1)) Done) (Assign 0 (Num 7) Done) (Return (Loc 0) Done)"

definition aml_demo_machine :: "unit aml_machine" where
  "aml_demo_machine = \<lparr>am_mem = \<lambda>p. if p < length (prog_enc aml_demo) then prog_enc aml_demo ! p else 0, am_dev = (), am_ns = [], am_ok = True\<rparr>"

lemma aml_runs_program_witness:
  "exec_body aml_hw0 40 0 (word_of_nat (length (prog_enc aml_demo))) (method_ctx [] 0 [3]) aml_demo_machine = Some (aml_RET 4, aml_demo_machine)"
proof -
  have ok: "prog_ok aml_demo" by (simp add: aml_demo_def)
  have c: "code_at (am_mem aml_demo_machine) 0 (prog_enc aml_demo)" by (simp add: code_at_def aml_demo_machine_def)
  have l: "length (prog_enc aml_demo) = 48" by (simp add: aml_demo_def)
  then have u: "unat (word_of_nat (length (prog_enc aml_demo)) :: u32) = length (prog_enc aml_demo)" by simp
  have f: "prog_fuel aml_demo \<le> 40" by (simp add: aml_demo_def)
  have "fst (prog_run (cx_args (method_ctx [] 0 [3])) aml_demo (cx_locals (method_ctx [] 0 [3]))) = Some 4"
    by (simp add: aml_demo_def method_ctx_def)
  then show ?thesis using aml_runs_program [OF ok c u f, of aml_hw0 "method_ctx [] 0 [3]"] by simp
qed

end
