(* ===== verification/Spec2Isabelle.thy ===== *)
theory Spec2Isabelle
  imports Physmem Klime MemLib Radix CString Paging Sched Ipc Shm Tmpfs Users VtDev Elf SysProc Sha256 Cpio Gzip DataText Keyboard Net LibcText LibcHeap Mouse Emxrc Wm Fb0 AmlCode
begin

text \<open>
  A model of emexOS, an operating system for x86_64: of its kernel (\<^verbatim>\<open>emex/kernel\<close>), of its drivers for keyboard and mouse
  (\<^verbatim>\<open>emex/drivers\<close>), and of the C library, the start script and the window registry of its user land (\<^verbatim>\<open>user\<close>).

  \<^bold>\<open>The parts and how they work together.\<close> The boot loader hands over a map of the memory. \<^verbatim>\<open>physmem.c\<close> keeps a bit for each frame;
  \<^verbatim>\<open>paging.c\<close> builds the tables of the kernel and of the processes from frames; \<^verbatim>\<open>klime.c\<close> is the allocator of the kernel, a list of
  blocks (\<^verbatim>\<open>heap.c\<close>) behind a few fixed regions. \<^verbatim>\<open>ulime.c\<close> creates processes, \<^verbatim>\<open>loader.c\<close> loads a program into one,
  \<^verbatim>\<open>scheduler.c\<close> and \<^verbatim>\<open>multitasking.c\<close> switch between them at every interrupt of the timer. Programs enter the kernel through
  \<^verbatim>\<open>syscalls.c\<close>, which checks the pointers and calls the file systems (\<^verbatim>\<open>vfs.c\<close>, \<^verbatim>\<open>commands.c\<close>, \<^verbatim>\<open>tmpfs.c\<close>, \<^verbatim>\<open>devfs.c\<close>), the drivers
  behind the device nodes, the message ports (\<^verbatim>\<open>messages.c\<close>) and the shared regions (\<^verbatim>\<open>shared_memory.c\<close>). The first file system comes
  from an archive (\<^verbatim>\<open>gzip.c\<close>, \<^verbatim>\<open>cpio.c\<close>), the users and settings from text files. In user land \<^verbatim>\<open>emxrc.c\<close> reads the start script,
  the programs use the C library on top of the system calls, and those with windows register them in a file.

  \<^bold>\<open>How the code is modelled.\<close> A \<^verbatim>\<open>struct\<close> is a record, an integer of \<open>w\<close> bits a word of \<open>w\<close> bits, an \<^verbatim>\<open>int\<close> an integer that is cut
  to 32 bits where it can leave them. State is passed explicitly: each function takes the record of its component and gives the new one.
  Memory is a function from addresses to bytes; objects that the code reaches through pointers are maps from addresses. A result
  \<open>None\<close> stands for what C leaves undefined (an access through a pointer that is not valid, an index outside of an array) and
  for a loop that does not end; a panic is a value of the type \<open>outcome\<close>. That a function returns is therefore part of the
  theorems: they say \<open>Some\<close>. Strings are lists of characters without their NUL. Messages to the console and the log, and
  flushes of the caches of the processor, are left out everywhere.

  \<^bold>\<open>Memory.\<close> \<open>Physmem\<close> (\<^verbatim>\<open>mem/phys/physmem.c\<close>): the bitmap, allocation by first fit, freeing; the locale \<open>frame_allocator\<close> is what the
  page tables expect of it. \<open>Heap\<close> and \<open>Klime\<close> (\<^verbatim>\<open>mem/heap/heap.c\<close>, \<^verbatim>\<open>mem/klime/klime.c\<close>): blocks as a doubly linked list in a store,
  their abstraction to a list of address, size and use that tiles the heap, best fit, splitting and merging as operations on that list, and the
  invariant of every sequence of calls. \<open>Paging\<close> (\<^verbatim>\<open>mem/paging\<close>): the walk through four levels, mapping, unmapping and translating.
  \<open>MemLib\<close> (\<^verbatim>\<open>mem/lib/mem.c\<close>): copying by blocks of eight bytes, compared with a plain copy, for every alignment and overlap.
  \<open>Radix\<close> (\<^verbatim>\<open>mem/radix/radix.c\<close>): the tree of eight levels as a map (locale \<open>key_map\<close>). \<open>CString\<close> (\<^verbatim>\<open>graph/lib/string.c\<close>): strings and numbers.

  \<^bold>\<open>Processes.\<close> \<open>Ulime\<close> (\<^verbatim>\<open>user/ulime.c\<close>, \<^verbatim>\<open>proc/proc_manager.c\<close>): the pool of processes and what a new one gets. \<open>Elf\<close>
  (\<^verbatim>\<open>packages/elf/loader.c\<close>): the checks of a program and the memory after loading, compared with the image that its headers describe. \<open>Sched\<close>
  (\<^verbatim>\<open>proc/scheduler.c\<close>, \<^verbatim>\<open>proc/multitasking.c\<close>): the round robin (locale \<open>round_robin\<close>), its bound on waiting, and the registers
  across a preemption. \<open>Queue\<close> and \<open>Ring\<close>: the interface \<open>bounded_queue\<close> of the ports, terminals, keyboard and mouse, and the ring
  buffer that provides it. \<open>Ipc\<close> and \<open>Shm\<close> (\<^verbatim>\<open>ipc/messages.c\<close>, \<^verbatim>\<open>ipc/shared_memory.c\<close>): ports and shared regions. A sender that waits for
  room is an entry in a list of waiting senders, and each round of its loop is a step of its own, so that the steps of other processes come in between.

  \<^bold>\<open>Files and devices.\<close> \<open>Vfs\<close> (\<^verbatim>\<open>vfs.c\<close>, \<^verbatim>\<open>commands.c\<close>): nodes, mounts, descriptors and the operations, with the functions of a file system as
  a parameter. \<open>Dirs\<close>: directories as maps and resolving a path over them, in the locale \<open>dir_lookup\<close>, which \<open>Tmpfs\<close> (\<^verbatim>\<open>tmpfs.c\<close>) and
  \<open>Devfs\<close> (\<^verbatim>\<open>devfs.c\<close>) provide. \<open>Modules\<close> (\<^verbatim>\<open>module/module.c\<close>): the table of drivers. \<open>Vt\<close> and \<open>VtDev\<close> (\<^verbatim>\<open>devices/vt/vt.c\<close>): terminals and
  their device nodes. \<open>Keyboard\<close>, \<open>Mouse\<close> and \<open>Fb0\<close> (\<^verbatim>\<open>drivers/ps2\<close>, \<^verbatim>\<open>devices/input\<close>, \<^verbatim>\<open>devices/fb0/fb0.c\<close>, \<^verbatim>\<open>user/libs/emxfb0\<close>): from the bytes of the
  controller to what a program reads, and from the calls of a program to the pixels. \<open>Net\<close> (\<^verbatim>\<open>kernel/net\<close>, \<^verbatim>\<open>drivers/net/layers.c\<close>): frames and the table of addresses.

  \<^bold>\<open>System calls.\<close> \<open>Kernel\<close>: the record \<open>kernel\<close> that holds all of the above, the checks of user pointers (\<^verbatim>\<open>user/system/ptrs.h\<close>) and the ways to
  user mode. \<open>SysFile\<close> and \<open>SysProc\<close> (\<^verbatim>\<open>user/syscalls.c\<close>, \<^verbatim>\<open>user/scalls\<close>): every call, the table and the handler. A call ends by returning a
  value, in user mode with other registers, waiting with interrupts on, or with the machine halted. A call is one step: the
  interrupts that come while a call waits are not.

  \<^bold>\<open>Data.\<close> \<open>Sha256\<close>, \<open>Gzip\<close>, \<open>Cpio\<close>, \<open>DataText\<close> and \<open>Users\<close> (\<^verbatim>\<open>data\<close>, \<^verbatim>\<open>packages\<close>, \<^verbatim>\<open>user/users.c\<close>): each reader is compared with a writer
  or with the standard. \<open>AmlNs\<close>, \<open>AmlField\<close>, \<open>AmlEval\<close> and \<open>AmlCode\<close> (\<^verbatim>\<open>arch/x86_64/acpi/acpi.c\<close>): the objects of the firmware, its fields, the
  interpreter of its methods, and a small language whose code the interpreter runs as its programs mean.

  \<^bold>\<open>User land.\<close> \<open>LibcText\<close> and \<open>LibcHeap\<close> (\<^verbatim>\<open>user/libc/src\<close>): strings, numbers, sorting, formatted output, and the heap, in the locale
  \<open>data_segment\<close>, which the system call \<^verbatim>\<open>brk\<close> of the kernel's model provides. \<open>Emxrc\<close> (\<^verbatim>\<open>user/apps/system/emxrc.c\<close>): reading and running
  the start script. \<open>Wm\<close> (\<^verbatim>\<open>user/libs/wm/wm.c\<close>): the registry of windows. \<open>Prelude\<close> has the types of machine integers and the lemmas that all of them share.

  \<^bold>\<open>What the properties say, and under which conditions.\<close> Where a property needs a condition that the code does not check, a lemma
  beside it shows what happens without it: \<open>klime_alloc_destroys\<close> (a product of sizes that wraps around), \<open>chdir_overruns\<close> (a path
  that does not fit), \<open>ipc_blocked_sender_dangles\<close> (a port that is destroyed while a sender waits), \<open>malloc_overflows\<close> (a size close to the
  end of the address space), \<open>exit_loses_registers\<close> (a preempted task that goes on because another one ended), \<open>fld_read_endless\<close>
  (a field of the firmware that is its own base). The remaining conditions are the invariants of the components and limits of what a written
  text may hold.

  \<^bold>\<open>Bounds and fuel.\<close> Loops over lists and counters are recursive functions with a measure. Loops through linked structures are
  partial functions with values in an option type, and the theorems show that they return on well-formed structures. Fuel is used in three
  places: for the options of a line of the start script it is the length of the text, of which each round takes a part; for a Huffman code it is
  the number of lengths that are left; the interpreter of the firmware takes the depth of the calls as an argument, and \<open>R + 13 (2 M + 2)\<close>
  is enough for methods of at most \<open>M\<close> bytes and fields that lie in each other at most \<open>R\<close> deep, because methods call each other at most twelve deep
  and each call inside a method has read a byte of it.

  \<^bold>\<open>Not modelled.\<close> What is only an access to hardware or output to the screen: interrupt and descriptor tables, drivers of disks, network
  cards and sound, PCI, the clock, the serial port, the drawing of the kernel, and the rest of ACPI (finding tables, switching off). FAT32 and the
  partitions are not reached by the kernel, which has the call that registers the disks in a comment. procfs and sysfs print texts.
  The programs with windows and the small programs are loops around the modelled libraries and calls. Interrupts inside a
  function, other processors and the caches are not modelled: a function is one step. One byte-addressed memory stands for what
  kernel and caller see; that a page of a process is the same memory as its frame in the direct map is not modelled.
\<close>

end
